(* ===== verification/Prelude.thy ===== *)
theory Prelude
  imports Main "HOL-Library.Multiset" "HOL-Library.AList" "HOL-Library.Sublist"
begin

text \<open>
  Shared ground of the development: the integer helpers of
  \<^verbatim>\<open>python/freetoken/utils/misc.py\<close>, Python's half-open slices, and the generic
  lemmas on lists, dictionaries (association lists in insertion order) and finite sums
  that the component theories use.

  Conventions. Lengths and positions that the code never makes negative are \<open>nat\<close>;
  counters the code subtracts from are \<open>int\<close>. A partial operation returns \<open>option\<close>:
  \<open>None\<close> is an uncaught Python exception (an \<open>assert\<close>, a \<open>KeyError\<close>, an
  \<open>IndexError\<close>) or, for a \<^theory_text>\<open>partial_function\<close>, a loop that never ends.
\<close>

named_theorems slice_simps \<open>rewrite rules for Python slices\<close>
named_theorems store_intros \<open>preservation rules for the node store\<close>

text \<open>\<open>assert\<close>, and every other guard whose failure raises.\<close>

definition py_assert :: "bool \<Rightarrow> unit option" where
  "py_assert b = (if b then Some () else None)"

lemma bind_assert: "Option.bind (py_assert b) f = (if b then f () else None)"
  by (simp add: py_assert_def)

section \<open>utils/misc.py\<close>

definition div_ceil :: "'a \<Rightarrow> 'a \<Rightarrow> 'a::{divide,plus,minus,one}" where
  "div_ceil a b = (a + b - 1) div b"

definition align_ceil :: "'a \<Rightarrow> 'a \<Rightarrow> 'a::{divide,plus,minus,one,times}" where
  "align_ceil a b = div_ceil a b * b"

definition align_down :: "'a \<Rightarrow> 'a \<Rightarrow> 'a::{divide,times}" where
  "align_down a b = (a div b) * b"

text \<open>\<open>div_even\<close>: the assertion failures are \<open>None\<close>.\<close>

definition div_even :: "int \<Rightarrow> int \<Rightarrow> bool \<Rightarrow> int option" where
  "div_even a b allow_replicate =
     (if allow_replicate \<and> b > a
      then (if b mod a = 0 then Some 1 else None)
      else (if a mod b = 0 then Some (a div b) else None))"

lemma align_down_le [simp]: "align_down a b \<le> (a::nat)"
  by (simp add: align_down_def)

lemma align_down_dvd [simp]: "b dvd align_down a (b::nat)"
  by (simp add: align_down_def)

lemma align_down_1 [simp]: "align_down a (Suc 0) = a"
  by (simp add: align_down_def)

lemma align_down_fix: "b dvd a \<Longrightarrow> align_down a (b::nat) = a"
  by (simp add: align_down_def)

lemma align_down_ge: "b dvd c \<Longrightarrow> c \<le> a \<Longrightarrow> c \<le> align_down a (b::nat)"
  unfolding align_down_def by (metis div_le_mono dvd_div_mult_self mult_le_mono1)

lemma align_down_gap: "0 < b \<Longrightarrow> a < align_down a b + (b::nat)"
  unfolding align_down_def using mod_less_divisor[of b a] div_mult_mod_eq[of a b] by linarith

lemma align_down_idem [simp]: "align_down (align_down a b) b = align_down a (b::nat)"
  by (simp add: align_down_fix)

lemma align_down_le_int: "0 < b \<Longrightarrow> align_down a b \<le> (a::int)"
  using pos_mod_sign[of b a] div_mult_mod_eq[of a b] unfolding align_down_def by linarith

lemma div_ceil_ge: "0 < b \<Longrightarrow> a \<le> div_ceil a b * (b::nat)"
  unfolding div_ceil_def
  using div_mult_mod_eq[of "a + b - 1" b] mod_less_divisor[of b "a + b - 1"] by linarith

lemma div_ceil_lt: "0 < b \<Longrightarrow> div_ceil a b * b < a + (b::nat)"
  unfolding div_ceil_def using div_times_less_eq_dividend[of "a + b - 1" b] by linarith

lemma div_ceil_mono: "a \<le> c \<Longrightarrow> div_ceil a b \<le> div_ceil c (b::nat)"
  unfolding div_ceil_def by (intro div_le_mono) simp

lemma div_ceil_mult [simp]: "0 < b \<Longrightarrow> div_ceil (k * b) b = (k::nat)"
proof -
  assume b: "0 < b"
  then have "(k * b + b - 1) div b = (b - 1 + k * b) div b" by (simp add: add.commute)
  also have "\<dots> = k + (b - 1) div b" using b by (intro div_mult_self1) simp
  finally show ?thesis using b by (simp add: div_ceil_def)
qed

section \<open>Slices\<close>

text \<open>\<open>xs[lo:hi]\<close> for bounds that are not negative; Python clips both ends.\<close>

definition slice :: "nat \<Rightarrow> nat \<Rightarrow> 'a list \<Rightarrow> 'a list" where
  "slice lo hi xs = take (hi - lo) (drop lo xs)"

text \<open>\<open>xs[::step]\<close> for a positive step: every \<open>step\<close>-th entry, starting with the first.\<close>

fun stride :: "nat \<Rightarrow> 'a list \<Rightarrow> 'a list" where
  "stride n [] = []"
| "stride n (x # xs) = x # stride n (drop (n - 1) xs)"

lemma length_slice [simp]: "length (slice lo hi xs) = min hi (length xs) - lo"
  by (simp add: slice_def min_def) linarith

lemma slice_empty [slice_simps]: "hi \<le> lo \<Longrightarrow> slice lo hi xs = []"
  by (simp add: slice_def)

lemma slice_append [slice_simps]:
  "lo \<le> mid \<Longrightarrow> mid \<le> hi \<Longrightarrow> slice lo mid xs @ slice mid hi xs = slice lo hi xs"
proof -
  assume "lo \<le> mid" "mid \<le> hi"
  then obtain a b where ab: "mid = lo + a" "hi = lo + a + b"
    by (metis le_iff_add)
  show ?thesis by (simp add: ab slice_def take_add add.commute)
qed

lemma set_slice_subset: "set (slice lo hi xs) \<subseteq> set xs"
  unfolding slice_def by (meson order_trans set_drop_subset set_take_subset)

lemma stride_1 [simp]: "stride (Suc 0) xs = xs"
  by (induction xs) auto

lemma set_stride_subset: "set (stride n xs) \<subseteq> set xs"
proof (induction n xs rule: stride.induct)
  case (2 n x xs)
  have "set (drop (n - 1) xs) \<subseteq> set xs" by (rule set_drop_subset)
  with 2 show ?case by auto
qed simp

section \<open>Longest common prefix of two key lists\<close>

fun lcp_len :: "'a list \<Rightarrow> 'a list \<Rightarrow> nat" where
  "lcp_len (x # xs) (y # ys) = (if x = y then Suc (lcp_len xs ys) else 0)"
| "lcp_len _ _ = 0"

lemma lcp_len_le: "lcp_len xs ys \<le> length xs" "lcp_len xs ys \<le> length ys"
  by (induction xs ys rule: lcp_len.induct) auto

lemma take_lcp_len: "n \<le> lcp_len xs ys \<Longrightarrow> take n xs = take n ys"
proof (induction xs ys arbitrary: n rule: lcp_len.induct)
  case (1 x xs y ys)
  then show ?case by (cases n) (auto split: if_splits)
qed auto

lemma lcp_len_ge:
  "n \<le> length xs \<Longrightarrow> n \<le> length ys \<Longrightarrow> take n xs = take n ys \<Longrightarrow> n \<le> lcp_len xs ys"
proof (induction xs ys arbitrary: n rule: lcp_len.induct)
  case (1 x xs y ys)
  then show ?case by (cases n) auto
qed auto

section \<open>Dictionaries as association lists\<close>

lemma map_of_update_conv: "map_of (AList.update k v al) = (map_of al)(k \<mapsto> v)"
  by (rule update_conv')

lemma distinct_fst_update: "distinct (map fst al) \<Longrightarrow> distinct (map fst (AList.update k v al))"
  by (rule distinct_update)

lemma map_of_delete_conv: "map_of (AList.delete k al) = (map_of al)(k := None)"
  by (rule delete_conv')

section \<open>Sums over the domain of a finite map\<close>

definition dom_sum :: "('k \<Rightarrow> 'v \<Rightarrow> int) \<Rightarrow> ('k \<rightharpoonup> 'v) \<Rightarrow> int" where
  "dom_sum f m = (\<Sum>k\<in>dom m. f k (the (m k)))"

lemma dom_sum_empty [simp]: "dom_sum f Map.empty = 0"
  by (simp add: dom_sum_def)

lemma dom_sum_fresh:
  assumes "finite (dom m)" "k \<notin> dom m"
  shows "dom_sum f (m(k \<mapsto> v)) = dom_sum f m + f k v"
proof -
  have "(\<Sum>x\<in>dom m. f x (the ((m(k \<mapsto> v)) x))) = (\<Sum>x\<in>dom m. f x (the (m x)))"
    using assms(2) by (intro sum.cong) auto
  with assms show ?thesis by (simp add: dom_sum_def)
qed

lemma dom_sum_delete:
  assumes "finite (dom m)" "m k = Some v"
  shows "dom_sum f (m(k := None)) = dom_sum f m - f k v"
proof -
  have "dom_sum f m = f k v + (\<Sum>x\<in>dom m - {k}. f x (the (m x)))"
    using assms sum.remove[of "dom m" k "\<lambda>x. f x (the (m x))"] by (simp add: dom_sum_def domI)
  moreover have "(\<Sum>x\<in>dom m - {k}. f x (the ((m(k := None)) x))) = (\<Sum>x\<in>dom m - {k}. f x (the (m x)))"
    by (intro sum.cong) auto
  ultimately show ?thesis by (simp add: dom_sum_def)
qed

lemma dom_sum_change:
  assumes "finite (dom m)" "m k = Some v"
  shows "dom_sum f (m(k \<mapsto> w)) = dom_sum f m - f k v + f k w"
proof -
  have "dom_sum f ((m(k := None))(k \<mapsto> w)) = dom_sum f (m(k := None)) + f k w"
    using assms by (intro dom_sum_fresh) auto
  then show ?thesis using dom_sum_delete[OF assms] by simp
qed

lemma dom_sum_cong:
  "(\<And>k v. m k = Some v \<Longrightarrow> f k v = g k v) \<Longrightarrow> dom_sum f m = dom_sum g m"
  unfolding dom_sum_def by (intro sum.cong) auto

lemma dom_sum_nonneg: "(\<And>k v. m k = Some v \<Longrightarrow> 0 \<le> f k v) \<Longrightarrow> 0 \<le> dom_sum f m"
  unfolding dom_sum_def by (intro sum_nonneg) auto

lemma dom_sum_eq0D:
  assumes "finite (dom m)" "\<And>k v. m k = Some v \<Longrightarrow> 0 \<le> f k v" "dom_sum f m = 0" "m k = Some v"
  shows "f k v = 0"
proof -
  have "\<forall>x\<in>dom m. f x (the (m x)) = 0"
    using assms by (subst sum_nonneg_eq_0_iff[symmetric]) (auto simp: dom_sum_def)
  with assms(4) show ?thesis by force
qed

lemma those_map_Some: "(\<And>x. x \<in> set xs \<Longrightarrow> f x \<noteq> None) \<Longrightarrow> those (map f xs) = Some (map (the \<circ> f) xs)"
proof (induction xs)
  case (Cons a xs)
  then have "f a \<noteq> None" by simp
  then obtain y where "f a = Some y" by blast
  with Cons show ?case by simp
qed simp

lemma those_map_None: "x \<in> set xs \<Longrightarrow> f x = None \<Longrightarrow> those (map f xs) = None"
  by (induction xs) (auto split: option.split)

lemma distinct_count_le: "(\<And>x. count (mset xs) x \<le> 1) \<Longrightarrow> distinct xs"
  unfolding distinct_count_atmost_1
proof
  fix x assume c: "\<And>x. count (mset xs) x \<le> 1"
  show "count (mset xs) x = (if x \<in> set xs then 1 else 0)"
  proof (cases "x \<in> set xs")
    case True
    then have "0 < count (mset xs) x" by (metis count_greater_zero_iff set_mset_mset)
    with c[of x] have "count (mset xs) x = 1" by linarith
    with True show ?thesis by simp
  next
    case False
    then show ?thesis by (metis count_eq_zero_iff set_mset_mset)
  qed
qed

end
