(* ===== verification/Pools.thy ===== *)
theory Pools
  imports Prelude "HOL-Library.Monad_Syntax"
begin

text \<open>
  The two slot pools beside the paged KV cache: \<^verbatim>\<open>kvcache/linear_state_pool.py\<close>
  (\<open>LinearStatePool\<close>: one recurrent state per slot, a LIFO free list) and the allocator of
  \<^verbatim>\<open>kvcache/hybrid_swa_pool.py\<close> (\<open>HybridSWAKVCache\<close>: a FIFO free list of window slots
  behind a dense map from full-pool indices).  Tensor entries are opaque integers.  The
  locale \<open>slot_pool\<close> is the allocation contract the two share.
\<close>

section \<open>The contract of an allocator\<close>

locale slot_pool =
  fixes avail :: "'p \<Rightarrow> 's multiset"
    and take_slots :: "nat \<Rightarrow> 'p \<Rightarrow> ('p \<times> 's list) option"
    and give_slots :: "'s list \<Rightarrow> 'p \<Rightarrow> 'p"
  assumes take_None: "take_slots n p = None \<longleftrightarrow> size (avail p) < n"
    and take_length: "take_slots n p = Some (p', xs) \<Longrightarrow> length xs = n"
    and take_avail: "take_slots n p = Some (p', xs) \<Longrightarrow> avail p = avail p' + mset xs"
    and give_avail: "avail (give_slots xs p) = avail p + mset xs"
begin

text \<open>The books: what is free and what is held make up the capacity.\<close>

definition ledger :: "'s multiset \<Rightarrow> 'p \<Rightarrow> 's multiset \<Rightarrow> bool" where
  "ledger cap p held \<longleftrightarrow> avail p + held = cap"

lemma take_Some: "n \<le> size (avail p) \<Longrightarrow> \<exists>p' xs. take_slots n p = Some (p', xs)"
  using take_None[of n p] by (cases "take_slots n p") auto

lemma ledger_take: "ledger cap p held \<Longrightarrow> take_slots n p = Some (p', xs) \<Longrightarrow> ledger cap p' (held + mset xs)"
  using take_avail unfolding ledger_def by (simp add: ac_simps)

lemma ledger_give: "ledger cap p (held + mset xs) \<Longrightarrow> ledger cap (give_slots xs p) held"
  unfolding ledger_def by (simp add: give_avail ac_simps)

text \<open>No slot is handed out twice.\<close>

lemma take_fresh:
  assumes "ledger cap p held" "\<And>s. count cap s \<le> 1" "take_slots n p = Some (p', xs)"
  shows "distinct xs" "set xs \<inter> set_mset held = {}" "set xs \<subseteq> set_mset cap"
proof -
  have eq: "avail p' + mset xs + held = cap" using assms(1) take_avail[OF assms(3)] by (simp add: ledger_def)
  have c: "count (mset xs) s + count held s \<le> 1" for s
    using assms(2)[of s] unfolding eq[symmetric] by simp
  show "distinct xs" using c by (intro distinct_count_le) (metis add_leD1)
  show "set xs \<inter> set_mset held = {}"
  proof (rule ccontr)
    assume "set xs \<inter> set_mset held \<noteq> {}"
    then obtain s where "s \<in> set xs" "s \<in># held" by blast
    then have "0 < count (mset xs) s" "0 < count held s"
      by (metis count_greater_zero_iff set_mset_mset, simp)
    with c[of s] show False by linarith
  qed
  show "set xs \<subseteq> set_mset cap" unfolding eq[symmetric] by auto
qed

end

section \<open>LinearStatePool\<close>

record slot_spec =
  ss_name :: string
  ss_shape :: "nat list"
  ss_layer_ids :: "nat list"
  ss_itemsize :: "nat option"
  ss_fill :: int

record linear_group =
  lg_layer_ids :: "nat list"
  lg_num_key_heads :: int
  lg_num_value_heads :: int
  lg_key_head_dim :: nat
  lg_value_head_dim :: nat
  lg_conv_kernel_dim :: nat

text \<open>A tensor as its rows: \<open>[layer][slot]\<close>, a row being the flat list of its entries.\<close>

type_synonym tensor = "int list list list"

record linear_pool =
  lp_group :: linear_group
  lp_num_slots :: nat
  lp_conv :: tensor
  lp_rec :: tensor
  lp_specs :: "slot_spec list"
  lp_extra :: "(string \<times> tensor) list"
  lp_free :: "nat list"

definition linear_local_dims :: "linear_group \<Rightarrow> int \<Rightarrow> (nat \<times> nat \<times> nat) option" where
  "linear_local_dims g tp_size = do {
     local_k_heads \<leftarrow> div_even (lg_num_key_heads g) tp_size True;
     local_v_heads \<leftarrow> div_even (lg_num_value_heads g) tp_size True;
     let local_conv_dim = 2 * nat local_k_heads * lg_key_head_dim g + nat local_v_heads * lg_value_head_dim g;
     Some (length (lg_layer_ids g), local_conv_dim, nat local_v_heads) }"

definition full_tensor :: "nat \<Rightarrow> nat \<Rightarrow> nat \<Rightarrow> int \<Rightarrow> tensor" where
  "full_tensor layers slots entries fill = replicate layers (replicate slots (replicate entries fill))"

definition alloc_slot_states :: "slot_spec list \<Rightarrow> nat \<Rightarrow> (string \<times> tensor) list" where
  "alloc_slot_states specs num_slots =
     map (\<lambda>sp. (ss_name sp, full_tensor (max 1 (length (ss_layer_ids sp))) num_slots (prod_list (ss_shape sp)) (ss_fill sp))) specs"

definition lp_init :: "linear_group \<Rightarrow> nat \<Rightarrow> int \<Rightarrow> slot_spec list \<Rightarrow> linear_pool option" where
  "lp_init g num_slots tp_size specs = do {
     (n_layers, conv_dim, v_heads) \<leftarrow> linear_local_dims g tp_size;
     if \<not> distinct (map ss_name specs) then None
     else Some \<lparr>lp_group = g, lp_num_slots = num_slots,
       lp_conv = full_tensor n_layers num_slots (conv_dim * (lg_conv_kernel_dim g - 1)) 0,
       lp_rec = full_tensor n_layers num_slots (v_heads * lg_key_head_dim g * lg_value_head_dim g) 0,
       lp_specs = specs, lp_extra = alloc_slot_states specs num_slots, lp_free = [1..<num_slots]\<rparr> }"

definition lp_num_free_slots :: "linear_pool \<Rightarrow> nat" where
  "lp_num_free_slots p = length (lp_free p)"

text \<open>\<open>[self._free_slots.pop() for _ in range(n)]\<close>: from the end, last first.\<close>

definition lp_alloc :: "nat \<Rightarrow> linear_pool \<Rightarrow> (linear_pool \<times> nat list) option" where
  "lp_alloc n p =
     (if n > length (lp_free p) then None
      else let m = length (lp_free p) - n
           in Some (p\<lparr>lp_free := take m (lp_free p)\<rparr>, rev (drop m (lp_free p))))"

definition lp_free_slots :: "nat list \<Rightarrow> linear_pool \<Rightarrow> linear_pool" where
  "lp_free_slots slots p = p\<lparr>lp_free := lp_free p @ slots\<rparr>"

definition lp_reclaim_all :: "linear_pool \<Rightarrow> linear_pool" where
  "lp_reclaim_all p = p\<lparr>lp_free := [1..<lp_num_slots p]\<rparr>"

text \<open>The tensors are rebuilt from the geometry of the old ones.\<close>

definition row_len :: "tensor \<Rightarrow> nat" where
  "row_len t = (case t of [] \<Rightarrow> 0 | l # _ \<Rightarrow> (case l of [] \<Rightarrow> 0 | x # _ \<Rightarrow> length x))"

definition lp_rebuild :: "nat \<Rightarrow> linear_pool \<Rightarrow> linear_pool" where
  "lp_rebuild num_slots p =
     p\<lparr>lp_conv := full_tensor (length (lp_conv p)) num_slots (row_len (lp_conv p)) 0,
       lp_rec := full_tensor (length (lp_rec p)) num_slots (row_len (lp_rec p)) 0,
       lp_extra := alloc_slot_states (lp_specs p) num_slots,
       lp_num_slots := num_slots, lp_free := [1..<num_slots]\<rparr>"

definition fill_slot :: "int \<Rightarrow> nat \<Rightarrow> tensor \<Rightarrow> tensor" where
  "fill_slot v s t = map (\<lambda>l. if s < length l then l[s := replicate (length (l ! s)) v] else l) t"

definition lp_reset :: "nat \<Rightarrow> linear_pool \<Rightarrow> linear_pool" where
  "lp_reset s p =
     p\<lparr>lp_conv := fill_slot 0 s (lp_conv p), lp_rec := fill_slot 0 s (lp_rec p),
       lp_extra := map2 (\<lambda>sp (nm, t). (nm, fill_slot (ss_fill sp) s t)) (lp_specs p) (lp_extra p)\<rparr>"

definition lp_clear_slots :: "nat list \<Rightarrow> linear_pool \<Rightarrow> linear_pool" where
  "lp_clear_slots slots p = fold lp_reset slots p"

definition copy_slot :: "nat \<Rightarrow> nat \<Rightarrow> tensor \<Rightarrow> tensor" where
  "copy_slot src dst t = map (\<lambda>l. if src < length l then l[dst := l ! src] else l) t"

definition lp_copy_from :: "nat \<Rightarrow> nat \<Rightarrow> linear_pool \<Rightarrow> linear_pool" where
  "lp_copy_from src dst p =
     p\<lparr>lp_conv := copy_slot src dst (lp_conv p), lp_rec := copy_slot src dst (lp_rec p),
       lp_extra := map (\<lambda>(nm, t). (nm, copy_slot src dst t)) (lp_extra p)\<rparr>"

definition index_of :: "nat list \<Rightarrow> nat \<Rightarrow> nat option" where
  "index_of xs x = map_of (rev (zip xs [0..<length xs])) x"

definition lp_local_index :: "linear_pool \<Rightarrow> nat \<Rightarrow> nat option" where
  "lp_local_index p layer_id = index_of (lg_layer_ids (lp_group p)) layer_id"

definition lp_conv_state :: "linear_pool \<Rightarrow> nat \<Rightarrow> nat \<Rightarrow> int list option" where
  "lp_conv_state p layer_id s = map_option (\<lambda>i. lp_conv p ! i ! s) (lp_local_index p layer_id)"

definition lp_recurrent_state :: "linear_pool \<Rightarrow> nat \<Rightarrow> nat \<Rightarrow> int list option" where
  "lp_recurrent_state p layer_id s = map_option (\<lambda>i. lp_rec p ! i ! s) (lp_local_index p layer_id)"

definition lp_slot_state :: "linear_pool \<Rightarrow> string \<Rightarrow> nat option \<Rightarrow> int list list option" where
  "lp_slot_state p nm layer_id = do {
     t \<leftarrow> map_of (lp_extra p) nm;
     sp \<leftarrow> find (\<lambda>sp. ss_name sp = nm) (lp_specs p);
     (case layer_id of
        None \<Rightarrow> (if ss_layer_ids sp = [] then Some (t ! 0) else None)
      | Some l \<Rightarrow> map_option (\<lambda>i. t ! i) (index_of (ss_layer_ids sp) l)) }"

definition lp_bytes_per_slot :: "nat \<Rightarrow> nat \<Rightarrow> linear_pool \<Rightarrow> nat" where
  "lp_bytes_per_slot conv_item rec_item p =
     length (lp_conv p) * row_len (lp_conv p) * conv_item + length (lp_rec p) * row_len (lp_rec p) * rec_item
     + sum_list (map2 (\<lambda>sp (nm, t). length t * row_len t * (case ss_itemsize sp of None \<Rightarrow> conv_item | Some i \<Rightarrow> i))
         (lp_specs p) (lp_extra p))"

definition linear_state_bytes_per_req ::
  "linear_group \<Rightarrow> int \<Rightarrow> nat \<Rightarrow> nat \<Rightarrow> slot_spec list \<Rightarrow> nat option" where
  "linear_state_bytes_per_req g tp_size itemsize ssm_itemsize specs = do {
     (n_layers, conv_dim, v_heads) \<leftarrow> linear_local_dims g tp_size;
     let conv_elems = conv_dim * (lg_conv_kernel_dim g - 1);
     let rec_elems = v_heads * lg_key_head_dim g * lg_value_head_dim g;
     Some (n_layers * (conv_elems * itemsize + rec_elems * ssm_itemsize)
       + sum_list (map (\<lambda>sp. max 1 (length (ss_layer_ids sp)) * prod_list (ss_shape sp)
             * (case ss_itemsize sp of None \<Rightarrow> itemsize | Some i \<Rightarrow> i)) specs)) }"

interpretation lsp: slot_pool "\<lambda>p. mset (lp_free p)" lp_alloc lp_free_slots
proof unfold_locales
  show "lp_alloc n p = None \<longleftrightarrow> size (mset (lp_free p)) < n" for n p
    by (simp add: lp_alloc_def Let_def)
  show "length xs = n" if "lp_alloc n p = Some (p', xs)" for n p p' xs
    using that by (auto simp: lp_alloc_def Let_def split: if_splits)
  show "mset (lp_free p) = mset (lp_free p') + mset xs" if "lp_alloc n p = Some (p', xs)" for n p p' xs
  proof -
    let ?m = "length (lp_free p) - n"
    from that have "lp_free p' = take ?m (lp_free p)" "xs = rev (drop ?m (lp_free p))"
      by (auto simp: lp_alloc_def Let_def split: if_splits)
    then show ?thesis by (metis append_take_drop_id mset_append mset_rev)
  qed
  show "mset (lp_free (lp_free_slots xs p)) = mset (lp_free p) + mset xs" for xs p
    by (simp add: lp_free_slots_def)
qed

section \<open>The window-slot allocator of HybridSWAKVCache\<close>

record swa_pool =
  sp_full_tokens :: nat
  sp_swa_tokens :: nat
  sp_page_size :: nat
  sp_map :: "int list"
  sp_free :: "int list"

text \<open>A tensor index: a negative one counts from the end, one out of range raises.\<close>

definition tensor_index :: "nat \<Rightarrow> int \<Rightarrow> nat option" where
  "tensor_index n i =
     (if 0 \<le> i \<and> i < int n then Some (nat i)
      else if - int n \<le> i \<and> i < 0 then Some (nat (i + int n)) else None)"

fun option_list :: "'a option list \<Rightarrow> 'a list option" where
  "option_list [] = Some []"
| "option_list (x # xs) = (case x of None \<Rightarrow> None | Some a \<Rightarrow> map_option ((#) a) (option_list xs))"

definition tensor_get :: "int list \<Rightarrow> int list \<Rightarrow> int list option" where
  "tensor_get t is = map_option (map ((!) t)) (option_list (map (tensor_index (length t)) is))"

definition tensor_set :: "int list \<Rightarrow> int list \<Rightarrow> int list \<Rightarrow> int list option" where
  "tensor_set t is vs =
     map_option (\<lambda>js. fold (\<lambda>(j, v) t. t[j := v]) (zip js vs) t) (option_list (map (tensor_index (length t)) is))"

definition sp_init_paged_state :: "swa_pool \<Rightarrow> swa_pool" where
  "sp_init_paged_state p =
     p\<lparr>sp_map := replicate (sp_full_tokens p + sp_page_size p) 0 @ [-1],
       sp_free := map int [1..<sp_swa_tokens p]\<rparr>"

definition sp_init :: "nat \<Rightarrow> nat \<Rightarrow> nat option \<Rightarrow> swa_pool" where
  "sp_init num_full_pages page_size num_swa_tokens =
     (let full = num_full_pages * page_size
      in sp_init_paged_state
        \<lparr>sp_full_tokens = full, sp_swa_tokens = (case num_swa_tokens of None \<Rightarrow> full | Some n \<Rightarrow> n),
         sp_page_size = page_size, sp_map = [], sp_free = []\<rparr>)"

definition sp_rebuild :: "nat \<Rightarrow> nat option \<Rightarrow> swa_pool \<Rightarrow> swa_pool" where
  "sp_rebuild num_full_pages num_swa_tokens p =
     (let full = num_full_pages * sp_page_size p
      in sp_init_paged_state
        (p\<lparr>sp_full_tokens := full, sp_swa_tokens := (case num_swa_tokens of None \<Rightarrow> full | Some n \<Rightarrow> n)\<rparr>))"

definition sp_available :: "swa_pool \<Rightarrow> nat" where
  "sp_available p = length (sp_free p)"

definition translate_loc :: "swa_pool \<Rightarrow> int list \<Rightarrow> int list option" where
  "translate_loc p out_loc = tensor_get (sp_map p) out_loc"

definition sp_take :: "nat \<Rightarrow> swa_pool \<Rightarrow> (swa_pool \<times> int list) option" where
  "sp_take n p = (if n > length (sp_free p) then None
     else Some (p\<lparr>sp_free := drop n (sp_free p)\<rparr>, take n (sp_free p)))"

definition sp_give :: "int list \<Rightarrow> swa_pool \<Rightarrow> swa_pool" where
  "sp_give xs p = p\<lparr>sp_free := sp_free p @ xs\<rparr>"

definition alloc_swa :: "int list \<Rightarrow> swa_pool \<Rightarrow> swa_pool option" where
  "alloc_swa full_indices p =
     (if full_indices = [] then Some p
      else do {
        (p, swa) \<leftarrow> sp_take (length full_indices) p;
        m \<leftarrow> tensor_set (sp_map p) full_indices swa;
        Some (p\<lparr>sp_map := m\<rparr>) })"

definition free_swa :: "int list \<Rightarrow> swa_pool \<Rightarrow> swa_pool option" where
  "free_swa full_indices p =
     (if full_indices = [] then Some p
      else do {
        swa \<leftarrow> tensor_get (sp_map p) full_indices;
        let swa = filter (\<lambda>s. s > 0) swa;
        let p = (if swa \<noteq> [] then sp_give swa p else p);
        m \<leftarrow> tensor_set (sp_map p) full_indices (replicate (length full_indices) 0);
        Some (p\<lparr>sp_map := m\<rparr>) })"

interpretation ssp: slot_pool "\<lambda>p. mset (sp_free p)" sp_take sp_give
proof unfold_locales
  show "sp_take n p = None \<longleftrightarrow> size (mset (sp_free p)) < n" for n p by (simp add: sp_take_def)
  show "length xs = n" if "sp_take n p = Some (p', xs)" for n p p' xs
    using that by (auto simp: sp_take_def split: if_splits)
  show "mset (sp_free p) = mset (sp_free p') + mset xs" if "sp_take n p = Some (p', xs)" for n p p' xs
  proof -
    from that have "sp_free p' = drop n (sp_free p)" "xs = take n (sp_free p)"
      by (auto simp: sp_take_def split: if_splits)
    then show ?thesis by (metis append_take_drop_id mset_append union_commute)
  qed
  show "mset (sp_free (sp_give xs p)) = mset (sp_free p) + mset xs" for xs p by (simp add: sp_give_def)
qed

text \<open>\<open>_build_layers_mapping\<close>: group and local index of every layer.\<close>

datatype group_name = GFull | GSwa

definition place_layer ::
  "nat \<Rightarrow> group_name \<Rightarrow> (nat \<times> int) \<Rightarrow> (group_name \<times> nat) option list \<Rightarrow> (group_name \<times> nat) option list option" where
  "place_layer num_layers g = (\<lambda>(local_index, layer_id) m.
     if layer_id < 0 \<or> layer_id \<ge> int num_layers then None
     else if m ! nat layer_id \<noteq> None then None
     else Some (m[nat layer_id := Some (g, local_index)]))"

fun place_layers ::
  "nat \<Rightarrow> group_name \<Rightarrow> (nat \<times> int) list \<Rightarrow> (group_name \<times> nat) option list \<Rightarrow> (group_name \<times> nat) option list option" where
  "place_layers num_layers g [] m = Some m"
| "place_layers num_layers g (x # xs) m = Option.bind (place_layer num_layers g x m) (place_layers num_layers g xs)"

definition build_layers_mapping :: "nat \<Rightarrow> int list \<Rightarrow> int list \<Rightarrow> (group_name \<times> nat) list option" where
  "build_layers_mapping num_layers full_ids swa_ids = do {
     m \<leftarrow> place_layers num_layers GFull (zip [0..<length full_ids] full_ids) (replicate num_layers None);
     m \<leftarrow> place_layers num_layers GSwa (zip [0..<length swa_ids] swa_ids) m;
     option_list m }"

section \<open>Invariant of the window-slot pool\<close>

definition sp_ok :: "swa_pool \<Rightarrow> bool" where
  "sp_ok p \<longleftrightarrow> length (sp_map p) = sp_full_tokens p + sp_page_size p + 1 \<and>
     (\<forall>i < sp_full_tokens p + sp_page_size p. 0 \<le> sp_map p ! i) \<and>
     sp_map p ! (sp_full_tokens p + sp_page_size p) = -1 \<and>
     mset (sp_free p) + filter_mset (\<lambda>s. 0 < s) (mset (sp_map p)) = mset (map int [1..<sp_swa_tokens p])"

text \<open>Full-pool indices: no duplicates, none out of the pool.\<close>

definition sp_range :: "swa_pool \<Rightarrow> int list \<Rightarrow> bool" where
  "sp_range p is \<longleftrightarrow> distinct is \<and> (\<forall>i\<in>set is. 0 \<le> i \<and> i < int (sp_full_tokens p + sp_page_size p))"

definition fold_set :: "nat list \<Rightarrow> int list \<Rightarrow> int list \<Rightarrow> int list" where
  "fold_set js vs t = fold (\<lambda>(j, v) t. t[j := v]) (zip js vs) t"

lemma fold_set_Cons [simp]: "fold_set (j # js) (v # vs) t = fold_set js vs (t[j := v])" "fold_set [] vs t = t"
  by (simp_all add: fold_set_def)

lemma length_fold_set [simp]: "length js = length vs \<Longrightarrow> length (fold_set js vs t) = length t"
  by (induction js vs arbitrary: t rule: list_induct2) simp_all

lemma fold_set_other: "length js = length vs \<Longrightarrow> i \<notin> set js \<Longrightarrow> fold_set js vs t ! i = t ! i"
  by (induction js vs arbitrary: t rule: list_induct2) auto

lemma fold_set_get:
  "length js = length vs \<Longrightarrow> distinct js \<Longrightarrow> \<forall>j\<in>set js. j < length t \<Longrightarrow> map ((!) (fold_set js vs t)) js = vs"
proof (induction js vs arbitrary: t rule: list_induct2)
  case (Cons j js v vs)
  have "fold_set js vs (t[j := v]) ! j = v"
    using Cons.hyps Cons.prems fold_set_other[of js vs j "t[j := v]"] by simp
  moreover have "map ((!) (fold_set js vs (t[j := v]))) js = vs"
    using Cons.IH[of "t[j := v]"] Cons.prems by simp
  ultimately show ?case by simp
qed simp

lemma fold_set_mset:
  "length js = length vs \<Longrightarrow> distinct js \<Longrightarrow> \<forall>j\<in>set js. j < length t \<Longrightarrow>
     mset (fold_set js vs t) + mset (map ((!) t) js) = mset t + mset vs"
proof (induction js vs arbitrary: t rule: list_induct2)
  case (Cons j js v vs)
  have "map ((!) (t[j := v])) js = map ((!) t) js"
  proof (rule map_cong[OF HOL.refl])
    fix x assume "x \<in> set js"
    with Cons.prems(1) have "j \<noteq> x" by auto
    then show "t[j := v] ! x = t ! x" by simp
  qed
  with Cons.IH[of "t[j := v]"] Cons.prems
  have 1: "mset (fold_set js vs (t[j := v])) + mset (map ((!) t) js) = mset (t[j := v]) + mset vs" by simp
  have j: "j < length t" using Cons.prems(2) by simp
  then have "t ! j \<in># mset t" by simp
  then have 2: "mset (t[j := v]) + {#t ! j#} = mset t + {#v#}"
    using j by (simp add: mset_update)
  have "mset (fold_set js vs (t[j := v])) + mset (map ((!) t) js) + {#t ! j#} = mset (t[j := v]) + {#t ! j#} + mset vs"
    unfolding 1 by (simp add: ac_simps)
  also have "\<dots> = mset t + {#v#} + mset vs" unfolding 2 by simp
  finally show ?case by simp
qed simp

lemma option_list_index:
  "\<forall>i\<in>set is. 0 \<le> i \<and> i < int n \<Longrightarrow> option_list (map (tensor_index n) is) = Some (map nat is)"
  by (induction "is") (auto simp: tensor_index_def)

lemma sp_range_nat:
  assumes "sp_ok p" "sp_range p is"
  shows "distinct (map nat is)" "\<forall>j\<in>set (map nat is). j < length (sp_map p) \<and> 0 \<le> sp_map p ! j"
    "option_list (map (tensor_index (length (sp_map p))) is) = Some (map nat is)"
    "sp_full_tokens p + sp_page_size p \<notin> set (map nat is)"
proof -
  have r: "\<forall>i\<in>set is. 0 \<le> i \<and> i < int (sp_full_tokens p + sp_page_size p)" using assms(2) by (simp add: sp_range_def)
  have "inj_on nat (set is)"
  proof (rule inj_onI)
    fix x y assume "x \<in> set is" "y \<in> set is" "nat x = nat y"
    with r show "x = y" by (metis nat_0_le)
  qed
  then show "distinct (map nat is)" using assms(2) by (simp add: sp_range_def distinct_map)
  show "\<forall>j\<in>set (map nat is). j < length (sp_map p) \<and> 0 \<le> sp_map p ! j"
  proof
    fix j assume "j \<in> set (map nat is)"
    with r have "j < sp_full_tokens p + sp_page_size p" by auto
    with assms(1) show "j < length (sp_map p) \<and> 0 \<le> sp_map p ! j" by (simp add: sp_ok_def)
  qed
  show "option_list (map (tensor_index (length (sp_map p))) is) = Some (map nat is)"
    using r assms(1) by (intro option_list_index) (auto simp: sp_ok_def)
  show "sp_full_tokens p + sp_page_size p \<notin> set (map nat is)" using r by auto
qed

lemma sp_translate:
  "sp_ok p \<Longrightarrow> sp_range p is \<Longrightarrow> translate_loc p is = Some (map (\<lambda>i. sp_map p ! nat i) is)"
  by (simp add: translate_loc_def tensor_get_def sp_range_nat(3) comp_def)

lemma sp_init_ok: "sp_ok (sp_init num_full_pages page_size n)"
proof -
  have "filter_mset (\<lambda>s. (0::int) < s) (replicate_mset k 0) = {#}" for k by (induction k) auto
  then show ?thesis
    by (auto simp: sp_ok_def sp_init_def sp_init_paged_state_def Let_def nth_append)
qed

lemma tensor_set_ok:
  "sp_ok p \<Longrightarrow> sp_range p is \<Longrightarrow> length vs = length is \<Longrightarrow> tensor_set (sp_map p) is vs = Some (fold_set (map nat is) vs (sp_map p))"
  by (simp add: tensor_set_def sp_range_nat(3) fold_set_def)

lemma sp_ok_update:
  assumes ok: "sp_ok p" and r: "sp_range p is" and vs: "length vs = length is" "\<forall>v\<in>set vs. 0 \<le> v"
    and free: "mset fr + filter_mset (\<lambda>s. 0 < s) (mset vs) =
      mset (sp_free p) + filter_mset (\<lambda>s. 0 < s) (mset (map (\<lambda>i. sp_map p ! nat i) is))"
  shows "sp_ok (p\<lparr>sp_free := fr, sp_map := fold_set (map nat is) vs (sp_map p)\<rparr>)"
proof -
  let ?js = "map nat is" and ?t = "sp_map p"
  let ?t' = "fold_set ?js vs ?t"
  note n = sp_range_nat[OF ok r]
  have l: "length ?js = length vs" using vs(1) by simp
  have b: "\<forall>j\<in>set ?js. j < length ?t" using n(2) by blast
  have nonneg: "0 \<le> ?t' ! i" if "i < sp_full_tokens p + sp_page_size p" for i
  proof (cases "i \<in> set ?js")
    case True
    then obtain k where k: "k < length ?js" "i = ?js ! k" by (metis in_set_conv_nth)
    with fold_set_get[OF l n(1) b] have "?t' ! i = vs ! k" by (metis length_map nth_map)
    with k l vs(2) show ?thesis by simp
  next
    case False
    with fold_set_other[OF l False] ok that show ?thesis by (simp add: sp_ok_def)
  qed
  let ?P = "filter_mset (\<lambda>s. (0::int) < s)"
  have "?P (mset ?t' + mset (map ((!) ?t) ?js)) = ?P (mset ?t + mset vs)"
    by (rule arg_cong[OF fold_set_mset[OF l n(1) b]])
  moreover have "map ((!) ?t) ?js = map (\<lambda>i. ?t ! nat i) is" by simp
  ultimately have e: "?P (mset ?t') + ?P (mset (map (\<lambda>i. ?t ! nat i) is)) = ?P (mset ?t) + ?P (mset vs)"
    by (simp only: filter_union_mset)
  have "mset fr + ?P (mset ?t') + ?P (mset (map (\<lambda>i. ?t ! nat i) is)) = mset fr + ?P (mset vs) + ?P (mset ?t)"
    unfolding add.assoc e by (simp only: ac_simps)
  also have "\<dots> = mset (sp_free p) + ?P (mset ?t) + ?P (mset (map (\<lambda>i. ?t ! nat i) is))"
    unfolding free by (simp only: ac_simps)
  finally have "mset fr + ?P (mset ?t') = mset (sp_free p) + ?P (mset ?t)" by (simp only: add_right_cancel)
  with ok nonneg l fold_set_other[OF l n(4)] show ?thesis by (simp add: sp_ok_def)
qed

section \<open>Allocation and release of window slots\<close>

text \<open>The window slot of a full-pool index; \<open>0\<close> is the unmapped sentinel.\<close>

abbreviation slot_of :: "swa_pool \<Rightarrow> int \<Rightarrow> int" where
  "slot_of p i \<equiv> sp_map p ! nat i"

definition live_slots :: "swa_pool \<Rightarrow> int multiset" where
  "live_slots p = filter_mset (\<lambda>s. 0 < s) (mset (sp_map p))"

lemma sp_ledger: "sp_ok p \<Longrightarrow> ssp.ledger (mset (map int [1..<sp_swa_tokens p])) p (live_slots p)"
  by (simp add: sp_ok_def ssp.ledger_def live_slots_def)

lemma count_slots_le: "count (mset (map int [1..<n])) s \<le> 1"
  using distinct_count_atmost_1[of "map int [1..<n]"] by (auto simp: distinct_map)

lemma slot_of_fold_set:
  assumes "sp_ok p" "sp_range p is" "length vs = length is"
  shows "map (\<lambda>i. fold_set (map nat is) vs (sp_map p) ! nat i) is = vs"
    and "0 \<le> j \<Longrightarrow> j \<notin> set is \<Longrightarrow> fold_set (map nat is) vs (sp_map p) ! nat j = slot_of p j"
proof -
  note n = sp_range_nat[OF assms(1,2)]
  have "\<forall>j\<in>set (map nat is). j < length (sp_map p)" using n(2) by blast
  from fold_set_get[OF _ n(1) this, of vs] assms(3)
  show "map (\<lambda>i. fold_set (map nat is) vs (sp_map p) ! nat i) is = vs" by (simp add: comp_def)
  show "fold_set (map nat is) vs (sp_map p) ! nat j = slot_of p j" if "0 \<le> j" "j \<notin> set is"
  proof -
    have "nat j \<notin> set (map nat is)"
    proof
      assume "nat j \<in> set (map nat is)"
      then obtain i where i: "i \<in> set is" "nat i = nat j" by auto
      with assms(2) have "0 \<le> i" by (simp add: sp_range_def)
      with i that show False by (metis nat_0_le)
    qed
    with assms(3) show ?thesis by (intro fold_set_other) simp_all
  qed
qed

lemma alloc_swa_shape:
  assumes ok: "sp_ok p" and r: "sp_range p is" and n: "length is \<le> sp_available p"
  shows "alloc_swa is p = Some (p\<lparr>sp_free := drop (length is) (sp_free p),
           sp_map := fold_set (map nat is) (take (length is) (sp_free p)) (sp_map p)\<rparr>)"
proof (cases "is = []")
  case False
  have "length (take (length is) (sp_free p)) = length is" using n by (simp add: sp_available_def)
  from tensor_set_ok[OF ok r this] False n show ?thesis
    by (simp add: alloc_swa_def sp_take_def sp_available_def)
qed (simp add: alloc_swa_def)

lemma alloc_swa_slots:
  assumes ok: "sp_ok p" and n: "n \<le> sp_available p"
  defines "xs \<equiv> take n (sp_free p)"
  shows "length xs = n" "distinct xs" "\<forall>s\<in>set xs. 0 < s \<and> s < int (sp_swa_tokens p)" "\<forall>s\<in>set xs. s \<notin># live_slots p"
proof -
  have t: "sp_take n p = Some (p\<lparr>sp_free := drop n (sp_free p)\<rparr>, xs)"
    using n by (simp add: sp_take_def sp_available_def xs_def)
  note f = ssp.take_fresh[OF sp_ledger[OF ok] count_slots_le t]
  show "length xs = n" using n by (simp add: sp_available_def xs_def)
  show "distinct xs" by (rule f(1))
  show "\<forall>s\<in>set xs. 0 < s \<and> s < int (sp_swa_tokens p)" using f(3) by auto
  show "\<forall>s\<in>set xs. s \<notin># live_slots p" using f(2) by blast
qed

lemma alloc_swa_ok:
  assumes ok: "sp_ok p" and r: "sp_range p is" and un: "\<forall>i\<in>set is. slot_of p i = 0" and al: "alloc_swa is p = Some p'"
  shows "sp_ok p'"
proof -
  have n: "length is \<le> sp_available p"
    using al by (auto simp: alloc_swa_def sp_take_def sp_available_def split: if_splits Option.bind_splits)
  note s = alloc_swa_slots[OF ok n]
  have z: "filter_mset (\<lambda>s. 0 < s) (mset (map (\<lambda>i. slot_of p i) is)) = {#}"
    unfolding filter_mset_eq_mempty_iff using un by auto
  have f: "filter_mset (\<lambda>s. 0 < s) (mset (take (length is) (sp_free p))) = mset (take (length is) (sp_free p))"
    unfolding filter_mset_eq_conv using s(3) by auto
  have m: "mset (drop k (sp_free p)) + mset (take k (sp_free p)) = mset (sp_free p)" for k
    by (metis append_take_drop_id mset_append union_commute)
  have "sp_ok (p\<lparr>sp_free := drop (length is) (sp_free p), sp_map := fold_set (map nat is) (take (length is) (sp_free p)) (sp_map p)\<rparr>)"
    using s(1,3) by (intro sp_ok_update[OF ok r]) (auto simp only: z f m add_0_right less_imp_le)
  with al alloc_swa_shape[OF ok r n] show ?thesis by simp
qed

lemma free_swa_shape:
  assumes ok: "sp_ok p" and r: "sp_range p is"
  shows "free_swa is p = Some (p\<lparr>sp_free := sp_free p @ filter (\<lambda>s. 0 < s) (map (\<lambda>i. slot_of p i) is),
           sp_map := fold_set (map nat is) (replicate (length is) 0) (sp_map p)\<rparr>)"
proof (cases "is = []")
  case False
  have "tensor_get (sp_map p) is = Some (map (\<lambda>i. slot_of p i) is)"
    using sp_translate[OF ok r] by (simp add: translate_loc_def)
  with False tensor_set_ok[OF ok r, of "replicate (length is) 0"] show ?thesis
    by (simp add: free_swa_def sp_give_def Let_def)
qed (simp add: free_swa_def)

lemma free_swa_ok:
  assumes "sp_ok p" "sp_range p is" "free_swa is p = Some p'" shows "sp_ok p'"
proof -
  have z: "filter_mset (\<lambda>s. (0::int) < s) (mset (replicate k 0)) = {#}" for k
    unfolding filter_mset_eq_mempty_iff by auto
  have "sp_ok (p\<lparr>sp_free := sp_free p @ filter (\<lambda>s. 0 < s) (map (\<lambda>i. slot_of p i) is),
       sp_map := fold_set (map nat is) (replicate (length is) 0) (sp_map p)\<rparr>)"
    by (intro sp_ok_update[OF assms(1,2)]) (auto simp only: z mset_filter mset_append add_0_right length_replicate set_replicate_conv_if order_refl split: if_splits)
  with assms(3) free_swa_shape[OF assms(1,2)] show ?thesis by simp
qed

text \<open>\<open>alloc_swa\<close> on unmapped full-pool indices raises exactly when the free list is too short;
  otherwise it maps them to that many distinct window slots, none the sentinel 0, none out of the
  pool and none mapped before, changes no other translation, and no slot is lost or duplicated.\<close>

theorem swa_alloc_fresh:
  assumes ok: "sp_ok p" and r: "sp_range p is" and un: "\<forall>i\<in>set is. slot_of p i = 0"
  shows "if sp_available p < length is then alloc_swa is p = None
    else (\<exists>p' xs. alloc_swa is p = Some p' \<and> sp_ok p' \<and> translate_loc p' is = Some xs \<and> distinct xs
        \<and> (\<forall>s\<in>set xs. 0 < s \<and> s < int (sp_swa_tokens p) \<and> s \<notin># live_slots p)
        \<and> sp_available p' = sp_available p - length is
        \<and> (\<forall>j. 0 \<le> j \<and> j \<notin> set is \<longrightarrow> slot_of p' j = slot_of p j))"
proof (cases "sp_available p < length is")
  case True
  then have "sp_take (length is) p = None" unfolding sp_available_def by (simp add: sp_take_def)
  with True show ?thesis by (auto simp: alloc_swa_def)
next
  case False
  then have n: "length is \<le> sp_available p" by simp
  note sh = alloc_swa_shape[OF ok r n] and s = alloc_swa_slots[OF ok n]
  let ?xs = "take (length is) (sp_free p)"
  let ?p' = "p\<lparr>sp_free := drop (length is) (sp_free p), sp_map := fold_set (map nat is) ?xs (sp_map p)\<rparr>"
  have ok': "sp_ok ?p'" by (rule alloc_swa_ok[OF ok r un sh])
  have r': "sp_range ?p' is" using r by (simp add: sp_range_def)
  have tr: "translate_loc ?p' is = Some ?xs"
    using sp_translate[OF ok' r'] slot_of_fold_set(1)[OF ok r s(1)] by simp
  have oth: "\<forall>j. 0 \<le> j \<and> j \<notin> set is \<longrightarrow> slot_of ?p' j = slot_of p j"
    using slot_of_fold_set(2)[OF ok r s(1)] by simp
  have "sp_available ?p' = sp_available p - length is" by (simp add: sp_available_def)
  with False sh ok' tr s oth show ?thesis by auto
qed

definition ex_swa_pool :: swa_pool where
  "ex_swa_pool = sp_init 2 2 (Some 4)"

theorem swa_alloc_fresh_witness:
  "\<exists>p' xs. alloc_swa [2, 3] ex_swa_pool = Some p' \<and> translate_loc p' [2, 3] = Some xs \<and> distinct xs"
proof -
  have ok: "sp_ok ex_swa_pool" unfolding ex_swa_pool_def by (rule sp_init_ok)
  have r: "sp_range ex_swa_pool [2, 3]" by (simp add: sp_range_def ex_swa_pool_def sp_init_def sp_init_paged_state_def)
  have un: "\<forall>i\<in>set [2, 3]. slot_of ex_swa_pool i = 0" by code_simp
  have "\<not> sp_available ex_swa_pool < length [2, 3 :: int]" by code_simp
  with swa_alloc_fresh[OF ok r un] show ?thesis by auto
qed

text \<open>\<open>free_swa\<close> never fails on indices of the pool: it unmaps them, returns exactly the window
  slots they held (an index already unmapped returns nothing), leaves every other
  translation alone, and a second call changes nothing.\<close>

theorem swa_free_returns:
  assumes ok: "sp_ok p" and r: "sp_range p is"
  shows "\<exists>p'. free_swa is p = Some p' \<and> sp_ok p' \<and> translate_loc p' is = Some (replicate (length is) 0)
    \<and> mset (sp_free p') = mset (sp_free p) + filter_mset (\<lambda>s. 0 < s) (mset (map (\<lambda>i. slot_of p i) is))
    \<and> (\<forall>j. 0 \<le> j \<and> j \<notin> set is \<longrightarrow> slot_of p' j = slot_of p j) \<and> free_swa is p' = Some p'"
proof -
  note sh = free_swa_shape[OF ok r]
  let ?z = "replicate (length is) (0::int)"
  let ?p' = "p\<lparr>sp_free := sp_free p @ filter (\<lambda>s. 0 < s) (map (\<lambda>i. slot_of p i) is), sp_map := fold_set (map nat is) ?z (sp_map p)\<rparr>"
  have l: "length ?z = length is" by simp
  have ok': "sp_ok ?p'" by (rule free_swa_ok[OF ok r sh])
  have r': "sp_range ?p' is" using r by (simp add: sp_range_def)
  have g: "map (\<lambda>i. slot_of ?p' i) is = ?z" using slot_of_fold_set(1)[OF ok r l] by simp
  have tr: "translate_loc ?p' is = Some ?z" using sp_translate[OF ok' r'] g by simp
  have ml: "length (sp_map ?p') = length (sp_map p)" by simp
  have same: "fold_set (map nat is) ?z (sp_map ?p') = sp_map ?p'"
  proof (rule nth_equalityI)
    fix i assume "i < length (fold_set (map nat is) ?z (sp_map ?p'))"
    show "fold_set (map nat is) ?z (sp_map ?p') ! i = sp_map ?p' ! i"
    proof (cases "int i \<in> set is")
      case True
      then obtain k where k: "k < length is" "is ! k = int i" by (metis in_set_conv_nth)
      have "map (\<lambda>i. fold_set (map nat is) ?z (sp_map ?p') ! nat i) is ! k = map (\<lambda>i. slot_of ?p' i) is ! k"
        unfolding g slot_of_fold_set(1)[OF ok' r' l] ..
      with k show ?thesis by simp
    next
      case False
      with slot_of_fold_set(2)[OF ok' r' l, of "int i"] show ?thesis by simp
    qed
  qed simp
  have "filter (\<lambda>s. 0 < s) ?z = []" by simp
  then have "free_swa is ?p' = Some ?p'"
    unfolding free_swa_shape[OF ok' r'] g same by simp
  moreover have "\<forall>j. 0 \<le> j \<and> j \<notin> set is \<longrightarrow> slot_of ?p' j = slot_of p j"
    using slot_of_fold_set(2)[OF ok r l] by simp
  ultimately show ?thesis using sh ok' tr by (intro exI[of _ ?p']) (simp add: mset_filter)
qed

theorem swa_free_returns_witness:
  "\<exists>p'. alloc_swa [2, 3] ex_swa_pool \<bind> free_swa [3, 4] = Some p' \<and> sp_free p' = [3, 2]"
proof -
  have ok: "sp_ok ex_swa_pool" unfolding ex_swa_pool_def by (rule sp_init_ok)
  have r: "sp_range ex_swa_pool [2, 3]" by (simp add: sp_range_def ex_swa_pool_def sp_init_def sp_init_paged_state_def)
  have "alloc_swa [2, 3] ex_swa_pool \<noteq> None" by code_simp
  then obtain q where q: "alloc_swa [2, 3] ex_swa_pool = Some q" by blast
  have "\<forall>i\<in>set [2, 3]. slot_of ex_swa_pool i = 0" by code_simp
  from alloc_swa_ok[OF ok r this q] have okq: "sp_ok q" .
  have "map_option sp_full_tokens (alloc_swa [2, 3] ex_swa_pool) = Some 4"
    "map_option sp_page_size (alloc_swa [2, 3] ex_swa_pool) = Some 2" by code_simp+
  then have "sp_range q [3, 4]" by (simp add: sp_range_def q)
  from swa_free_returns[OF okq this] obtain p' where p': "free_swa [3, 4] q = Some p'" by blast
  have "map_option sp_free (alloc_swa [2, 3] ex_swa_pool \<bind> free_swa [3, 4]) = Some [3, 2]" by code_simp
  with p' q show ?thesis by simp
qed

section \<open>Slots of the linear-attention state pool\<close>

definition lp_slots_ok :: "linear_pool \<Rightarrow> nat multiset \<Rightarrow> bool" where
  "lp_slots_ok p held \<longleftrightarrow> lsp.ledger (mset [1..<lp_num_slots p]) p held"

lemma count_upt_le: "count (mset [1..<n]) s \<le> 1"
  using distinct_count_atmost_1[of "[1..<n]"] by auto

lemma lp_init_slots: "lp_init g n tp specs = Some p \<Longrightarrow> lp_num_slots p = n \<and> lp_slots_ok p {#}"
  by (auto simp: lp_init_def lp_slots_ok_def lsp.ledger_def split: Option.bind_splits if_splits prod.splits)

text \<open>On a pool whose books balance (free and held slots are exactly 1 to \<open>num_slots - 1\<close>), \<open>alloc\<close>
  fails exactly when too few are free; otherwise it hands out distinct slots, never the dummy slot 0, never
  one that is held, and the books still balance, also after the slots come back through \<open>free\<close>.\<close>

theorem linear_alloc_fresh:
  assumes ok: "lp_slots_ok p held"
  shows "if lp_num_free_slots p < n then lp_alloc n p = None
    else (\<exists>p' xs. lp_alloc n p = Some (p', xs) \<and> length xs = n \<and> distinct xs \<and> (\<forall>s\<in>set xs. 0 < s \<and> s < lp_num_slots p \<and> s \<notin># held)
        \<and> lp_slots_ok p' (held + mset xs) \<and> lp_slots_ok (lp_free_slots xs p') held)"
proof (cases "lp_num_free_slots p < n")
  case True
  then show ?thesis using lsp.take_None[of n p] by (simp add: lp_num_free_slots_def)
next
  case False
  then obtain p' xs where t: "lp_alloc n p = Some (p', xs)"
    using lsp.take_Some[of n p] by (auto simp: lp_num_free_slots_def)
  have led: "lsp.ledger (mset [1..<lp_num_slots p]) p held" using ok by (simp add: lp_slots_ok_def)
  note f = lsp.take_fresh[OF led count_upt_le t]
  have same: "lp_num_slots p' = lp_num_slots p" using t by (auto simp: lp_alloc_def Let_def split: if_splits)
  have "\<forall>s\<in>set xs. 0 < s \<and> s < lp_num_slots p \<and> s \<notin># held" using f(2,3) by auto
  moreover have "lp_slots_ok p' (held + mset xs)" unfolding lp_slots_ok_def same by (rule lsp.ledger_take[OF led t])
  moreover from this have "lp_slots_ok (lp_free_slots xs p') held"
    unfolding lp_slots_ok_def by (simp add: lp_free_slots_def lsp.ledger_def ac_simps)
  ultimately show ?thesis using False t f(1) lsp.take_length[OF t] by auto
qed

definition ex_group :: linear_group where
  "ex_group = \<lparr>lg_layer_ids = [0, 2], lg_num_key_heads = 2, lg_num_value_heads = 4, lg_key_head_dim = 2,
     lg_value_head_dim = 2, lg_conv_kernel_dim = 3\<rparr>"

definition ex_linear_pool :: "linear_pool option" where
  "ex_linear_pool = lp_init ex_group 4 2 [\<lparr>ss_name = ''x'', ss_shape = [2], ss_layer_ids = [0], ss_itemsize = None, ss_fill = 7\<rparr>]"

theorem linear_alloc_fresh_witness:
  "\<exists>p p' xs. ex_linear_pool = Some p \<and> lp_alloc 2 p = Some (p', xs) \<and> xs = [3, 2] \<and> lp_slots_ok p' (mset xs)"
proof -
  have "ex_linear_pool \<noteq> None" by code_simp
  then obtain p where p: "ex_linear_pool = Some p" by blast
  have ok: "lp_slots_ok p {#}" using p lp_init_slots unfolding ex_linear_pool_def by blast
  have "map_option lp_num_free_slots ex_linear_pool = Some 3" by code_simp
  then have "\<not> lp_num_free_slots p < 2" unfolding p by simp
  with linear_alloc_fresh[OF ok, of 2] obtain p' xs where a: "lp_alloc 2 p = Some (p', xs)" "lp_slots_ok p' (mset xs)"
    by auto
  have "ex_linear_pool \<bind> (\<lambda>p. map_option snd (lp_alloc 2 p)) = Some [3, 2]" by code_simp
  then have "xs = [3, 2]" unfolding p by (simp add: a(1))
  with a p show ?thesis by blast
qed

lemma row_len_full [simp]: "0 < l \<Longrightarrow> 0 < n \<Longrightarrow> row_len (full_tensor l n k v) = k"
  by (cases l; cases n) (simp_all add: full_tensor_def row_len_def)

lemma length_full [simp]: "length (full_tensor l n k v) = l"
  by (simp add: full_tensor_def)

lemma layers_row_full: "0 < n \<Longrightarrow> l * row_len (full_tensor l n k v) * c = l * k * c"
  by (cases "l = 0") simp_all

lemma extra_bytes:
  assumes "0 < n"
  shows "sum_list (map2 (\<lambda>sp (nm, t). length t * row_len t * (case ss_itemsize sp of None \<Rightarrow> c | Some i \<Rightarrow> i))
       specs (alloc_slot_states specs n))
    = sum_list (map (\<lambda>sp. max 1 (length (ss_layer_ids sp)) * prod_list (ss_shape sp)
        * (case ss_itemsize sp of None \<Rightarrow> c | Some i \<Rightarrow> i)) specs)"
  using assms unfolding alloc_slot_states_def by (induction specs) simp_all

lemma lp_bytes_full:
  assumes "0 < n" "lp_conv p = full_tensor l n kc 0" "lp_rec p = full_tensor l n kr 0"
    "lp_extra p = alloc_slot_states (lp_specs p) n"
  shows "lp_bytes_per_slot it ssm p = l * (kc * it + kr * ssm)
    + sum_list (map (\<lambda>sp. max 1 (length (ss_layer_ids sp)) * prod_list (ss_shape sp)
        * (case ss_itemsize sp of None \<Rightarrow> it | Some i \<Rightarrow> i)) (lp_specs p))"
  unfolding lp_bytes_per_slot_def assms(2-4) extra_bytes[OF assms(1)] length_full layers_row_full[OF assms(1)]
  by (simp add: algebra_simps)

lemma lp_bytes_rebuild:
  assumes "0 < n" "0 < m" "lp_init g n tp specs = Some p"
  shows "lp_bytes_per_slot it ssm (lp_rebuild m p) = lp_bytes_per_slot it ssm p"
proof -
  from assms(3) obtain l kc kr where f: "lp_conv p = full_tensor l n kc 0" "lp_rec p = full_tensor l n kr 0"
      "lp_extra p = alloc_slot_states (lp_specs p) n"
    by (auto simp: lp_init_def split: Option.bind_splits if_splits prod.splits)
  show ?thesis
  proof (cases "l = 0")
    case True
    with f show ?thesis
      by (simp add: lp_bytes_per_slot_def lp_rebuild_def extra_bytes assms(1,2))
  next
    case False
    with assms(1) have "lp_conv (lp_rebuild m p) = full_tensor l m kc 0" "lp_rec (lp_rebuild m p) = full_tensor l m kr 0"
      by (simp_all add: lp_rebuild_def f)
    from lp_bytes_full[OF assms(2) this] lp_bytes_full[OF assms(1) f] show ?thesis by (simp add: lp_rebuild_def)
  qed
qed

text \<open>The engine's budget formula \<open>linear_state_bytes_per_req\<close> is exactly what one slot of the pool it
  builds occupies (both raise on the same head counts), before and after a runtime \<open>rebuild\<close>.\<close>

theorem linear_bytes_agree:
  assumes "0 < n" "0 < m" "distinct (map ss_name specs)"
  shows "linear_state_bytes_per_req g tp it ssm specs = map_option (lp_bytes_per_slot it ssm) (lp_init g n tp specs)
    \<and> map_option (lp_bytes_per_slot it ssm \<circ> lp_rebuild m) (lp_init g n tp specs) = map_option (lp_bytes_per_slot it ssm) (lp_init g n tp specs)"
proof
  show "linear_state_bytes_per_req g tp it ssm specs = map_option (lp_bytes_per_slot it ssm) (lp_init g n tp specs)"
  proof (cases "linear_local_dims g tp")
    case (Some d)
    obtain l c v where d: "d = (l, c, v)" by (metis prod_cases3)
    from Some d assms(3) show ?thesis
      using lp_bytes_full[OF assms(1), where l = l]
      by (simp add: linear_state_bytes_per_req_def lp_init_def Let_def)
  qed (simp add: linear_state_bytes_per_req_def lp_init_def)
  show "map_option (lp_bytes_per_slot it ssm \<circ> lp_rebuild m) (lp_init g n tp specs) = map_option (lp_bytes_per_slot it ssm) (lp_init g n tp specs)"
    using lp_bytes_rebuild[OF assms(1,2)] by (cases "lp_init g n tp specs") simp_all
qed

theorem linear_bytes_agree_witness:
  "linear_state_bytes_per_req ex_group 2 2 4 [] = Some (2 * ((2 * 2 + 2 * 2) * 2 * 2 + 2 * 2 * 2 * 4))
    \<and> map_option (lp_bytes_per_slot 2 4 \<circ> lp_rebuild 9) (lp_init ex_group 4 2 []) = linear_state_bytes_per_req ex_group 2 2 4 []"
proof -
  have "linear_state_bytes_per_req ex_group 2 2 4 [] = Some (2 * ((2 * 2 + 2 * 2) * 2 * 2 + 2 * 2 * 2 * 4))" by code_simp
  with linear_bytes_agree[of 4 9 "[]" ex_group 2 2 4] show ?thesis by simp
qed

section \<open>The layer map\<close>

lemma place_layers_Some:
  "place_layers n g xs m = Some m' \<Longrightarrow> length m = n \<Longrightarrow>
     length m' = n \<and> (\<forall>(k, i)\<in>set xs. 0 \<le> i \<and> i < int n \<and> m ! nat i = None \<and> m' ! nat i = Some (g, k))
     \<and> distinct (map snd xs) \<and> (\<forall>j < n. int j \<notin> snd ` set xs \<longrightarrow> m' ! j = m ! j)"
proof (induction xs arbitrary: m)
  case (Cons x xs)
  obtain k i where x: "x = (k, i)" by (cases x)
  from Cons.prems x have i: "0 \<le> i" "i < int n" "m ! nat i = None"
      and r: "place_layers n g xs (m[nat i := Some (g, k)]) = Some m'"
    by (simp_all add: place_layer_def split: if_splits del: not_None_eq)
  let ?m = "m[nat i := Some (g, k)]"
  have l: "length ?m = n" using Cons.prems(2) by simp
  note IH = Cons.IH[OF r l]
  have ni: "nat i < n" using i by simp
  have fresh: "i \<notin> snd ` set xs"
  proof
    assume "i \<in> snd ` set xs"
    then obtain k' where "(k', i) \<in> set xs" by force
    with IH have "?m ! nat i = None" by blast
    then show False using ni Cons.prems(2) by simp
  qed
  have "m' ! nat i = ?m ! nat i" using IH fresh ni i(1) by simp
  then have mi: "m' ! nat i = Some (g, k)" using ni Cons.prems(2) by simp
  have old: "m ! nat i' = None" if "(k', i') \<in> set xs" for k' i'
  proof -
    have "i' \<noteq> i" using that fresh by force
    moreover have "0 \<le> i'" "?m ! nat i' = None" using IH that by blast+
    ultimately show ?thesis using i(1) by (simp add: nth_list_update)
  qed
  have "distinct (map snd (x # xs))" using IH fresh x by simp
  moreover have "\<forall>j < n. int j \<notin> snd ` set (x # xs) \<longrightarrow> m' ! j = m ! j"
  proof (intro allI impI)
    fix j assume j: "j < n" "int j \<notin> snd ` set (x # xs)"
    then have "m' ! j = ?m ! j" using IH by simp
    moreover have "nat i \<noteq> j" using j(2) x i(1) by auto
    ultimately show "m' ! j = m ! j" by simp
  qed
  moreover have "\<forall>(k, i)\<in>set (x # xs). 0 \<le> i \<and> i < int n \<and> m ! nat i = None \<and> m' ! nat i = Some (g, k)"
    using IH old mi i x by auto
  ultimately show ?case using IH by blast
qed simp

lemma place_layers_None:
  "place_layers n g xs m = None \<Longrightarrow> length m = n \<Longrightarrow> distinct (map snd xs) \<Longrightarrow> \<forall>(k, i)\<in>set xs. 0 \<le> i \<and> i < int n \<Longrightarrow>
     \<exists>p\<in>set xs. m ! nat (snd p) \<noteq> None"
proof (induction xs arbitrary: m)
  case (Cons x xs)
  obtain k i where x: "x = (k, i)" by (cases x)
  show ?case
  proof (cases "m ! nat i = None")
    case True
    let ?m = "m[nat i := Some (g, k)]"
    have i: "0 \<le> i" "i < int n" using Cons.prems(4) x by auto
    have "place_layers n g xs ?m = None" using Cons.prems(1) x True i by (simp add: place_layer_def)
    moreover have "length ?m = n" using Cons.prems(2) by simp
    ultimately have "\<exists>p\<in>set xs. ?m ! nat (snd p) \<noteq> None"
      using Cons.IH[of ?m] Cons.prems(3,4) by simp
    then obtain k' i' where i': "(k', i') \<in> set xs" "?m ! nat i' \<noteq> None" by fastforce
    have "i' \<noteq> i" using i'(1) Cons.prems(3) x by force
    moreover have "0 \<le> i'" using i'(1) Cons.prems(4) by auto
    ultimately have "m ! nat i' \<noteq> None" using i'(2) i(1) by (simp add: nth_list_update)
    with i'(1) show ?thesis by (intro bexI[of _ "(k', i')"]) simp_all
  qed (simp add: x)
qed simp

lemma option_list_Some: "option_list xs = Some ys \<longleftrightarrow> xs = map Some ys"
  by (induction xs arbitrary: ys) (auto split: option.splits)

lemma option_list_None: "option_list xs = None \<longleftrightarrow> None \<in> set xs"
  by (induction xs) (auto split: option.splits)

definition partitions_layers :: "nat \<Rightarrow> int list \<Rightarrow> int list \<Rightarrow> bool" where
  "partitions_layers n full swa \<longleftrightarrow> distinct (full @ swa) \<and> set (full @ swa) = {0..<int n}"

text \<open>\<open>_build_layers_mapping\<close> succeeds exactly when the two groups' layer ids partition the model's
  layers; then every layer is found at its own group and local index, both ways.\<close>

theorem layers_mapping_partition:
  "case build_layers_mapping n full swa of
     None \<Rightarrow> \<not> partitions_layers n full swa
   | Some m \<Rightarrow> partitions_layers n full swa \<and> length m = n
       \<and> (\<forall>k < length full. m ! nat (full ! k) = (GFull, k)) \<and> (\<forall>k < length swa. m ! nat (swa ! k) = (GSwa, k))"
proof -
  let ?e = "replicate n None :: (group_name \<times> nat) option list"
  let ?fz = "zip [0..<length full] full" and ?sz = "zip [0..<length swa] swa"
  have z: "map snd (zip [0..<length xs] xs) = xs" "snd ` set (zip [0..<length xs] xs) = set xs" for xs :: "int list"
    by (simp_all flip: set_map)
  have zi: "k < length xs \<Longrightarrow> (k, xs ! k) \<in> set (zip [0..<length xs] xs)" for k and xs :: "int list"
    by (force simp: set_zip)
  have zr: "p \<in> set (zip [0..<length xs] xs) \<Longrightarrow> snd p \<in> set xs" for p and xs :: "int list"
    using z(2) by blast
  have F: "length m = n \<and> (\<forall>(k, i)\<in>set ?fz. 0 \<le> i \<and> i < int n \<and> m ! nat i = Some (GFull, k)) \<and> distinct full
      \<and> (\<forall>j < n. int j \<notin> set full \<longrightarrow> m ! j = None)" if "place_layers n GFull ?fz ?e = Some m" for m
    using place_layers_Some[OF that] unfolding z by (simp add: case_prod_beta)
  have S: "length m' = n \<and> (\<forall>(k, i)\<in>set ?sz. 0 \<le> i \<and> i < int n \<and> m ! nat i = None \<and> m' ! nat i = Some (GSwa, k)) \<and> distinct swa
      \<and> (\<forall>j < n. int j \<notin> set swa \<longrightarrow> m' ! j = m ! j)" if "place_layers n GSwa ?sz m = Some m'" "length m = n" for m m'
    using place_layers_Some[OF that] unfolding z .
  show ?thesis
  proof (cases "build_layers_mapping n full swa")
    case None
    have False if part: "partitions_layers n full swa"
    proof -
      have d: "distinct full" "distinct swa" "set full \<inter> set swa = {}" and rng: "set full \<union> set swa = {0..<int n}"
        using part by (auto simp: partitions_layers_def)
      have fr: "\<forall>(k, i)\<in>set ?fz. 0 \<le> i \<and> i < int n" "\<forall>(k, i)\<in>set ?sz. 0 \<le> i \<and> i < int n"
        using rng zr by fastforce+
      have "place_layers n GFull ?fz ?e \<noteq> None"
      proof
        assume a: "place_layers n GFull ?fz ?e = None"
        have "length ?e = n" by simp
        from place_layers_None[OF a this] d fr(1) obtain p where "p \<in> set ?fz" "?e ! nat (snd p) \<noteq> None"
          unfolding z by blast
        moreover have "0 \<le> snd p" "snd p < int n" using zr[OF calculation(1)] rng by auto
        ultimately show False by simp
      qed
      then obtain m where m: "place_layers n GFull ?fz ?e = Some m" by blast
      note Fm = F[OF m]
      have "place_layers n GSwa ?sz m \<noteq> None"
      proof
        assume a: "place_layers n GSwa ?sz m = None"
        have "length m = n" using Fm by blast
        from place_layers_None[OF a this] d fr(2) obtain p where p: "p \<in> set ?sz" "m ! nat (snd p) \<noteq> None"
          unfolding z by blast
        have sw: "snd p \<in> set swa" by (rule zr[OF p(1)])
        then have "snd p \<in> {0..<int n}" using rng by blast
        then have i: "nat (snd p) < n" "int (nat (snd p)) = snd p" by auto
        have "snd p \<notin> set full" using sw d(3) by blast
        with i Fm have "m ! nat (snd p) = None" by simp
        with p(2) show False ..
      qed
      then obtain m' where m': "place_layers n GSwa ?sz m = Some m'" by blast
      have Fl: "length m = n" using Fm by blast
      note Sm = S[OF m' Fl]
      from None m m' have "option_list m' = None" by (simp add: build_layers_mapping_def)
      then obtain j where j: "j < n" "m' ! j = None" using Sm by (auto simp: option_list_None in_set_conv_nth)
      then have "int j \<in> set full \<union> set swa" using rng by simp
      then show False
      proof
        assume f: "int j \<in> set full"
        then obtain k where "k < length full" "full ! k = int j" by (metis in_set_conv_nth)
        with zi[of k full] have "(k, int j) \<in> set ?fz" by simp
        with Fm have "m ! j = Some (GFull, k)" by fastforce
        moreover have "m' ! j = m ! j" using Sm j(1) f d(3) by blast
        ultimately show False using j(2) by simp
      next
        assume f: "int j \<in> set swa"
        then obtain k where "k < length swa" "swa ! k = int j" by (metis in_set_conv_nth)
        with zi[of k swa] have "(k, int j) \<in> set ?sz" by simp
        with Sm have "m' ! j = Some (GSwa, k)" by fastforce
        with j(2) show False by simp
      qed
    qed
    with None show ?thesis by auto
  next
    case (Some r)
    then obtain m m' where m: "place_layers n GFull ?fz ?e = Some m" "place_layers n GSwa ?sz m = Some m'" "m' = map Some r"
      by (auto simp: build_layers_mapping_def option_list_Some split: Option.bind_splits)
    note Fm = F[OF m(1)]
    have Fl: "length m = n" using Fm by blast
    note Sm = S[OF m(2) Fl]
    have lr: "length r = n" using Sm m(3) by simp
    have fu: "0 \<le> full ! k \<and> full ! k < int n \<and> m ! nat (full ! k) = Some (GFull, k)" if "k < length full" for k
      using Fm zi[OF that] by fastforce
    have sw: "0 \<le> swa ! k \<and> swa ! k < int n \<and> m ! nat (swa ! k) = None \<and> m' ! nat (swa ! k) = Some (GSwa, k)" if "k < length swa" for k
      using Sm zi[OF that] by fastforce
    have disj: "full ! k \<notin> set swa" if "k < length full" for k
    proof
      assume "full ! k \<in> set swa"
      then obtain l where "l < length swa" "swa ! l = full ! k" by (metis in_set_conv_nth)
      with sw[of l] fu[OF that] show False by simp
    qed
    have rf: "r ! nat (full ! k) = (GFull, k)" if "k < length full" for k
    proof -
      have i: "nat (full ! k) < n" "int (nat (full ! k)) = full ! k" using fu[OF that] by auto
      with Sm disj[OF that] have "m' ! nat (full ! k) = m ! nat (full ! k)" by metis
      with fu[OF that] m(3) i lr show ?thesis by simp
    qed
    have rs: "r ! nat (swa ! k) = (GSwa, k)" if "k < length swa" for k
    proof -
      have i: "nat (swa ! k) < n" using sw[OF that] by auto
      with sw[OF that] m(3) lr show ?thesis by simp
    qed
    have "set (full @ swa) = {0..<int n}"
    proof (intro set_eqI iffI)
      fix i assume "i \<in> set (full @ swa)"
      then show "i \<in> {0..<int n}" using fu sw by (auto simp: in_set_conv_nth)
    next
      fix i assume i: "i \<in> {0..<int n}"
      show "i \<in> set (full @ swa)"
      proof (rule ccontr)
        assume "i \<notin> set (full @ swa)"
        with i have "m' ! nat i = m ! nat i" "m ! nat i = None" using Sm Fm by auto
        with m(3) lr i show False by (simp add: nat_less_iff)
      qed
    qed
    moreover have "distinct (full @ swa)"
      using Fm Sm disj by (auto simp: in_set_conv_nth)
    ultimately have "partitions_layers n full swa" by (simp add: partitions_layers_def)
    with Some lr rf rs show ?thesis by simp
  qed
qed

theorem layers_mapping_witness:
  "build_layers_mapping 3 [1] [0, 2] = Some [(GSwa, 0), (GFull, 0), (GSwa, 1)] \<and> partitions_layers 3 [1] [0, 2]"
proof -
  have "build_layers_mapping 3 [1] [0, 2] = Some [(GSwa, 0), (GFull, 0), (GSwa, 1)]" by code_simp
  with layers_mapping_partition[of 3 "[1]" "[0, 2]"] show ?thesis by simp
qed

end
