(* ===== verification/RadixTree.thy ===== *)
theory RadixTree
  imports Prelude "HOL-Library.Monad_Syntax"
begin

text \<open>
  The shared radix-tree node of \<^verbatim>\<open>kvcache/radix_cache.py\<close>
  (\<open>RadixTreeNode\<close>) as an explicit object store.  A node is addressed by its
  \<open>uuid\<close>, the value of the class counter when it was built; \<open>children\<close> is the
  Python dict in insertion order, \<open>rparent\<close> the parent pointer (\<open>None\<close> for the root).
  A node that is unlinked leaves the store, so a later use of a stale reference is \<open>None\<close>.
  The length property of the code is the length of the key (\<open>set_key_value\<close> keeps the two
  equal); the root's key, which the plain cache never sets, is empty.

  This theory holds the operations; the theory \<open>RadixInv\<close> the well-formed trees.
\<close>

section \<open>Nodes and the store\<close>

datatype dkey = KInt int | KTuple "int list"

record rnode =
  nkey :: "int list"
  nvalue :: "int list"
  children :: "(dkey \<times> nat) list"
  rparent :: "nat option"
  ref_count :: int
  timestamp :: int
  mamba_value :: "nat option"
  mamba_ref_count :: int
  swa_tombstone :: bool
  swa_ref_count :: int
  swa_uuid :: "int option"

record store =
  nodes :: "nat \<rightharpoonup> rnode"
  counter :: nat

definition nlength :: "rnode \<Rightarrow> nat" where
  "nlength nd = length (nkey nd)"

definition is_leaf :: "rnode \<Rightarrow> bool" where
  "is_leaf nd \<longleftrightarrow> children nd = []"

definition is_root :: "rnode \<Rightarrow> bool" where
  "is_root nd \<longleftrightarrow> rparent nd = None"

text \<open>\<open>_get_key_fn\<close>: \<open>x[0]\<close> raises on an empty tensor, the slice of the tuple does not.\<close>

definition pkey :: "nat \<Rightarrow> int list \<Rightarrow> dkey" where
  "pkey ps x = (if ps = 1 then KInt (hd x) else KTuple (take ps x))"

definition key_fn :: "nat \<Rightarrow> int list \<Rightarrow> dkey option" where
  "key_fn ps x = (if ps = 1 \<and> x = [] then None else Some (pkey ps x))"

definition get_match_len :: "rnode \<Rightarrow> int list \<Rightarrow> nat" where
  "get_match_len nd input_ids = lcp_len (nkey nd) input_ids"

definition upd_node :: "nat \<Rightarrow> (rnode \<Rightarrow> rnode) \<Rightarrow> store \<Rightarrow> store option" where
  "upd_node n f h = map_option (\<lambda>nd. h\<lparr>nodes := (nodes h)(n \<mapsto> f nd)\<rparr>) (nodes h n)"

text \<open>\<open>tic or time.monotonic_ns()\<close>: a missing or zero \<open>tic\<close> reads the clock (\<open>now\<close>).\<close>

definition node_time :: "int option \<Rightarrow> int \<Rightarrow> int" where
  "node_time tic now = (case tic of None \<Rightarrow> now | Some t \<Rightarrow> if t = 0 then now else t)"

definition new_node :: "int option \<Rightarrow> int \<Rightarrow> store \<Rightarrow> store \<times> nat" where
  "new_node tic now h =
     (h\<lparr>nodes := (nodes h)(counter h \<mapsto>
          \<lparr>nkey = [], nvalue = [], children = [], rparent = None, ref_count = 0,
           timestamp = node_time tic now, mamba_value = None, mamba_ref_count = 0,
           swa_tombstone = False, swa_ref_count = 0, swa_uuid = None\<rparr>),
        counter := Suc (counter h)\<rparr>, counter h)"

definition set_key_value :: "nat \<Rightarrow> int list \<Rightarrow> int list \<Rightarrow> store \<Rightarrow> store option" where
  "set_key_value n k v h = do {
     _ \<leftarrow> py_assert (length k = length v);
     upd_node n (\<lambda>nd. nd\<lparr>nkey := k, nvalue := v\<rparr>) h }"

definition set_parent :: "nat \<Rightarrow> nat \<Rightarrow> nat \<Rightarrow> store \<Rightarrow> store option" where
  "set_parent ps n p h = do {
     h \<leftarrow> upd_node n (\<lambda>nd. nd\<lparr>rparent := Some p\<rparr>) h;
     nd \<leftarrow> nodes h n;
     k \<leftarrow> key_fn ps (nkey nd);
     upd_node p (\<lambda>pd. pd\<lparr>children := AList.update k n (children pd)\<rparr>) h }"

definition split_at :: "nat \<Rightarrow> int \<Rightarrow> nat \<Rightarrow> nat \<Rightarrow> store \<Rightarrow> (store \<times> nat) option" where
  "split_at ps now n pos h = do {
     nd \<leftarrow> nodes h n;
     _ \<leftarrow> py_assert (0 < pos \<and> pos < nlength nd);
     p \<leftarrow> rparent nd;
     let (h, m) = new_node (Some (timestamp nd)) now h;
     h \<leftarrow> set_key_value m (take pos (nkey nd)) (take pos (nvalue nd)) h;
     h \<leftarrow> set_parent ps m p h;
     h \<leftarrow> upd_node m (\<lambda>x. x\<lparr>ref_count := ref_count nd, swa_ref_count := swa_ref_count nd,
                           swa_tombstone := swa_tombstone nd, swa_uuid := swa_uuid nd\<rparr>) h;
     h \<leftarrow> upd_node n (\<lambda>x. x\<lparr>swa_uuid := None\<rparr>) h;
     h \<leftarrow> set_key_value n (drop pos (nkey nd)) (drop pos (nvalue nd)) h;
     h \<leftarrow> set_parent ps n m h;
     Some (h, m) }"

text \<open>
  The tree walk of the caches (\<open>_tree_walk\<close>, \<open>_walk\<close>): follow the child whose first page
  matches, split a node that matches only in part, stamp every visited node.  The loop ends
  as long as every step matches at least one token.
\<close>

partial_function (option) walk_loop ::
  "nat \<Rightarrow> int \<Rightarrow> int list \<Rightarrow> store \<Rightarrow> nat \<Rightarrow> nat \<Rightarrow> (store \<times> nat \<times> nat) option" where
  "walk_loop ps tic input_ids h node prefix_len =
     (if prefix_len < length input_ids then
        do {
          nd \<leftarrow> nodes h node;
          k \<leftarrow> key_fn ps (drop prefix_len input_ids);
          (case map_of (children nd) k of
             None \<Rightarrow> Some (h, node, prefix_len)
           | Some child \<Rightarrow> do {
               cd \<leftarrow> nodes h child;
               let match_len = align_down (get_match_len cd (drop prefix_len input_ids)) ps;
               if match_len \<noteq> nlength cd then do {
                 (h, m) \<leftarrow> split_at ps tic child match_len h;
                 h \<leftarrow> upd_node m (\<lambda>x. x\<lparr>timestamp := tic\<rparr>) h;
                 Some (h, m, prefix_len + match_len) }
               else do {
                 h \<leftarrow> upd_node child (\<lambda>x. x\<lparr>timestamp := tic\<rparr>) h;
                 walk_loop ps tic input_ids h child (prefix_len + match_len) } }) }
      else Some (h, node, prefix_len))"

text \<open>A new leaf below \<open>p\<close>: the node construction all three caches share.\<close>

definition add_leaf ::
  "nat \<Rightarrow> int option \<Rightarrow> int \<Rightarrow> nat \<Rightarrow> int list \<Rightarrow> int list \<Rightarrow> store \<Rightarrow> (store \<times> nat) option" where
  "add_leaf ps tic now p k v h = do {
     let (h, m) = new_node tic now h;
     h \<leftarrow> set_key_value m k v h;
     h \<leftarrow> set_parent ps m p h;
     Some (h, m) }"

text \<open>\<open>parent = node.parent; del parent.children[key_fn(node._key)]\<close>\<close>

definition unlink :: "nat \<Rightarrow> nat \<Rightarrow> store \<Rightarrow> (store \<times> nat) option" where
  "unlink ps n h = do {
     nd \<leftarrow> nodes h n;
     p \<leftarrow> rparent nd;
     k \<leftarrow> key_fn ps (nkey nd);
     pd \<leftarrow> nodes h p;
     _ \<leftarrow> map_of (children pd) k;
     h \<leftarrow> upd_node p (\<lambda>pd. pd\<lparr>children := AList.delete k (children pd)\<rparr>) h;
     Some (h\<lparr>nodes := (nodes h)(n := None)\<rparr>, p) }"

text \<open>
  The depth-first collections (\<open>_leaves\<close>, \<open>_swa_nodes\<close>, \<dots>): pop the last stack entry, keep
  it if it is selected, push its children.  The stack is kept with its top first.
\<close>

partial_function (option) dfs_loop ::
  "(rnode \<Rightarrow> bool) \<Rightarrow> store \<Rightarrow> nat list \<Rightarrow> nat list \<Rightarrow> nat list option" where
  "dfs_loop sel h stack out =
     (case stack of
        [] \<Rightarrow> Some out
      | n # rest \<Rightarrow> do {
          nd \<leftarrow> nodes h n;
          dfs_loop sel h (rev (map snd (children nd)) @ rest) (if sel nd then out @ [n] else out) })"

text \<open>
  The upward loops \<open>while not node.is_root(): \<dots>; node = node.parent\<close> with the body as a
  parameter; \<open>sto\<close> reads the store out of the loop state.
\<close>

partial_function (option) up_loop ::
  "('s \<Rightarrow> store) \<Rightarrow> (nat \<Rightarrow> 's \<Rightarrow> 's option) \<Rightarrow> nat \<Rightarrow> 's \<Rightarrow> 's option" where
  "up_loop sto body n s = do {
     nd \<leftarrow> nodes (sto s) n;
     (case rparent nd of
        None \<Rightarrow> Some s
      | Some p \<Rightarrow> do { s \<leftarrow> body n s; up_loop sto body p s }) }"

text \<open>The values on the path to a node, root first (\<open>value_list\<close> after its \<open>reverse()\<close>).\<close>

definition path_values :: "store \<Rightarrow> nat \<Rightarrow> int list list option" where
  "path_values h n = do {
     vs \<leftarrow> up_loop (\<lambda>_. h) (\<lambda>n vs. do { nd \<leftarrow> nodes h n; Some (vs @ [nvalue nd]) }) n [];
     Some (rev vs) }"

text \<open>The token ids and the page indices a node stands for (the token path is specification only).\<close>

definition indices_of :: "store \<Rightarrow> nat \<Rightarrow> int list option" where
  "indices_of h n = map_option concat (path_values h n)"

definition tokens_of :: "store \<Rightarrow> nat \<Rightarrow> int list option" where
  "tokens_of h n = do {
     ks \<leftarrow> up_loop (\<lambda>_. h) (\<lambda>n ks. do { nd \<leftarrow> nodes h n; Some (ks @ [nkey nd]) }) n [];
     Some (concat (rev ks)) }"

declare walk_loop.simps [code] dfs_loop.simps [code] up_loop.simps [code]

definition timestamp_of :: "store \<Rightarrow> nat \<Rightarrow> int" where
  "timestamp_of h n = (case nodes h n of None \<Rightarrow> 0 | Some nd \<Rightarrow> timestamp nd)"

end
