(* ===== verification/RadixInv.thy ===== *)
theory RadixInv
  imports RadixTree
begin

text \<open>
  Well-formed radix trees.  \<open>tree_ok ps r h L V\<close>: the store \<open>h\<close> is a radix tree of page
  size \<open>ps\<close> with root \<open>r\<close>, and \<open>L n\<close>, \<open>V n\<close> are the token ids and the page indices on
  the path from the root to the node \<open>n\<close>.  The labels are ghost data: no operation changes
  the label of a node that stays in the tree, so a handle keeps its meaning across
  splits, insertions and evictions, and a node is an ancestor of another exactly when its
  label is a prefix of the other's.
\<close>

section \<open>The invariant\<close>

definition node_ok ::
  "nat \<Rightarrow> store \<Rightarrow> (nat \<Rightarrow> int list) \<Rightarrow> (nat \<Rightarrow> int list) \<Rightarrow> nat \<Rightarrow> rnode \<Rightarrow> bool" where
  "node_ok ps h L V n nd \<longleftrightarrow>
     nkey nd \<noteq> [] \<and> ps dvd nlength nd \<and> length (nvalue nd) = nlength nd \<and>
     (\<exists>p pd. rparent nd = Some p \<and> nodes h p = Some pd \<and>
        map_of (children pd) (pkey ps (nkey nd)) = Some n \<and>
        L n = L p @ nkey nd \<and> V n = V p @ nvalue nd)"

definition kids_ok :: "nat \<Rightarrow> store \<Rightarrow> nat \<Rightarrow> rnode \<Rightarrow> bool" where
  "kids_ok ps h p pd \<longleftrightarrow> distinct (map fst (children pd)) \<and>
     (\<forall>k c. map_of (children pd) k = Some c \<longrightarrow>
        (\<exists>cd. nodes h c = Some cd \<and> rparent cd = Some p \<and> k = pkey ps (nkey cd)))"

definition root_ok :: "nat \<Rightarrow> store \<Rightarrow> bool" where
  "root_ok r h \<longleftrightarrow> (\<exists>rd. nodes h r = Some rd \<and> rparent rd = None \<and> nkey rd = [] \<and> nvalue rd = [])"

definition tree_ok :: "nat \<Rightarrow> nat \<Rightarrow> store \<Rightarrow> (nat \<Rightarrow> int list) \<Rightarrow> (nat \<Rightarrow> int list) \<Rightarrow> bool" where
  "tree_ok ps r h L V \<longleftrightarrow>
     0 < ps \<and> finite (dom (nodes h)) \<and> (\<forall>n\<in>dom (nodes h). n < counter h) \<and>
     root_ok r h \<and> L r = [] \<and> V r = [] \<and>
     (\<forall>n nd. nodes h n = Some nd \<longrightarrow> n \<noteq> r \<longrightarrow> node_ok ps h L V n nd) \<and>
     (\<forall>n nd. nodes h n = Some nd \<longrightarrow> kids_ok ps h n nd)"

lemma tree_okD:
  assumes "tree_ok ps r h L V"
  shows tree_ps: "0 < ps" and tree_finite: "finite (dom (nodes h))"
    and tree_counter: "nodes h n = Some nd \<Longrightarrow> n < counter h"
    and tree_root: "\<exists>rd. nodes h r = Some rd \<and> rparent rd = None \<and> nkey rd = [] \<and> nvalue rd = []"
    and tree_root_labels: "L r = []" "V r = []"
    and tree_node: "nodes h n = Some nd \<Longrightarrow> n \<noteq> r \<Longrightarrow> node_ok ps h L V n nd"
    and tree_kids: "nodes h n = Some nd \<Longrightarrow> kids_ok ps h n nd"
  using assms by (auto simp: tree_ok_def root_ok_def)

lemma tree_okI:
  assumes "0 < ps" "finite (dom (nodes h))" "\<And>n nd. nodes h n = Some nd \<Longrightarrow> n < counter h"
    and "root_ok r h" "L r = []" "V r = []"
    and "\<And>n nd. nodes h n = Some nd \<Longrightarrow> n \<noteq> r \<Longrightarrow> node_ok ps h L V n nd"
    and "\<And>n nd. nodes h n = Some nd \<Longrightarrow> kids_ok ps h n nd"
  shows "tree_ok ps r h L V"
  using assms unfolding tree_ok_def dom_def by blast

lemma tree_parent:
  assumes "tree_ok ps r h L V" "nodes h n = Some nd" "n \<noteq> r"
  shows "\<exists>p pd. rparent nd = Some p \<and> nodes h p = Some pd \<and>
    map_of (children pd) (pkey ps (nkey nd)) = Some n \<and>
    L n = L p @ nkey nd \<and> V n = V p @ nvalue nd \<and> nkey nd \<noteq> [] \<and> ps dvd length (nkey nd) \<and>
    length (nvalue nd) = length (nkey nd) \<and> p \<noteq> n"
  using tree_node[OF assms] unfolding node_ok_def nlength_def by (metis append_self_conv)

lemma tree_child:
  assumes "tree_ok ps r h L V" "nodes h p = Some pd" "map_of (children pd) k = Some c"
  shows "\<exists>cd. nodes h c = Some cd \<and> rparent cd = Some p \<and> k = pkey ps (nkey cd) \<and>
    c \<noteq> r \<and> L c = L p @ nkey cd \<and> V c = V p @ nvalue cd \<and> nkey cd \<noteq> [] \<and> ps dvd length (nkey cd) \<and>
    length (nvalue cd) = length (nkey cd)"
proof -
  obtain cd where cd: "nodes h c = Some cd" "rparent cd = Some p" "k = pkey ps (nkey cd)"
    using tree_kids[OF assms(1,2)] assms(3) unfolding kids_ok_def by blast
  have "c \<noteq> r" using tree_root[OF assms(1)] cd by auto
  from tree_parent[OF assms(1) cd(1) this] cd \<open>c \<noteq> r\<close> show ?thesis by auto
qed

lemma tree_is_root: "tree_ok ps r h L V \<Longrightarrow> nodes h n = Some nd \<Longrightarrow> rparent nd = None \<longleftrightarrow> n = r"
  using tree_root[of ps r h L V] tree_parent[of ps r h L V n nd] by fastforce

lemma tree_label_dvd:
  "tree_ok ps r h L V \<Longrightarrow> nodes h n = Some nd \<Longrightarrow> ps dvd length (L n)"
proof (induction "length (L n)" arbitrary: n nd rule: less_induct)
  case less
  show ?case
  proof (cases "n = r")
    case True
    with tree_root_labels[OF less.prems(1)] show ?thesis by simp
  next
    case False
    from tree_parent[OF less.prems False] less.hyps less.prems(1) show ?thesis by fastforce
  qed
qed

lemma tree_label_value:
  "tree_ok ps r h L V \<Longrightarrow> nodes h n = Some nd \<Longrightarrow> length (V n) = length (L n)"
proof (induction "length (L n)" arbitrary: n nd rule: less_induct)
  case less
  show ?case
  proof (cases "n = r")
    case True
    with tree_root_labels[OF less.prems(1)] show ?thesis by simp
  next
    case False
    from tree_parent[OF less.prems False] less.hyps less.prems(1) show ?thesis by fastforce
  qed
qed

lemma tree_root_iff: "tree_ok ps r h L V \<Longrightarrow> nodes h n = Some nd \<Longrightarrow> L n = [] \<longleftrightarrow> n = r"
  using tree_root_labels[of ps r h L V] tree_parent[of ps r h L V n nd] by fastforce

section \<open>Ancestors are label prefixes\<close>

definition up :: "store \<Rightarrow> (nat \<times> nat) set" where
  "up h = {(m, p). \<exists>md. nodes h m = Some md \<and> rparent md = Some p}"

lemma up_root:
  "tree_ok ps r h L V \<Longrightarrow> nodes h n = Some nd \<Longrightarrow> (n, r) \<in> (up h)\<^sup>*"
proof (induction "length (L n)" arbitrary: n nd rule: less_induct)
  case less
  show ?case
  proof (cases "n = r")
    case False
    from tree_parent[OF less.prems False] obtain p pd where
      p: "rparent nd = Some p" "nodes h p = Some pd" "L n = L p @ nkey nd" "nkey nd \<noteq> []" by blast
    then have "(p, r) \<in> (up h)\<^sup>*" using less.hyps[of p] less.prems(1) by simp
    moreover have "(n, p) \<in> up h" using p less.prems by (auto simp: up_def)
    ultimately show ?thesis by (rule converse_rtrancl_into_rtrancl[rotated])
  qed simp
qed

lemma up_prefix:
  assumes "tree_ok ps r h L V" "(m, n) \<in> (up h)\<^sup>*"
  shows "prefix (L n) (L m)"
  using assms(2)
proof (induction rule: rtrancl_induct)
  case (step y z)
  then obtain yd where yd: "nodes h y = Some yd" "rparent yd = Some z" by (auto simp: up_def)
  then have "y \<noteq> r" using tree_root[OF assms(1)] by auto
  from tree_parent[OF assms(1) yd(1) this] yd have "prefix (L z) (L y)" by auto
  with step show ?case by (meson prefix_order.trans)
qed simp

lemma up_last_child:
  assumes "tree_ok ps r h L V" "(m, n) \<in> (up h)\<^sup>*" "m \<noteq> n" "nodes h m = Some md"
  shows "\<exists>c cd nd. nodes h c = Some cd \<and> rparent cd = Some n \<and> (m, c) \<in> (up h)\<^sup>* \<and>
    nodes h n = Some nd \<and> map_of (children nd) (pkey ps (nkey cd)) = Some c \<and> L c = L n @ nkey cd \<and>
    nkey cd \<noteq> [] \<and> ps dvd length (nkey cd)"
proof -
  from assms(2,3) obtain c where c: "(m, c) \<in> (up h)\<^sup>*" "(c, n) \<in> up h"
    by (meson rtranclE)
  then obtain cd where cd: "nodes h c = Some cd" "rparent cd = Some n" by (auto simp: up_def)
  then have "c \<noteq> r" using tree_root[OF assms(1)] by auto
  from tree_parent[OF assms(1) cd(1) this] cd c show ?thesis by auto
qed

lemma take_prefix_eq: "prefix a x \<Longrightarrow> n \<le> length a \<Longrightarrow> take n a = take n x"
  by (auto simp: prefix_def)

lemma pkey_cong:
  assumes "take ps a = take ps b" "0 < ps"
  shows "pkey ps a = pkey ps b"
proof (cases "ps = 1")
  case True
  with assms have "take 1 a = take 1 b" by simp
  then have "hd a = hd b" by (cases a; cases b) auto
  with True show ?thesis by (simp add: pkey_def)
qed (use assms in \<open>simp add: pkey_def\<close>)

lemma pkey_inject:
  assumes "pkey ps a = pkey ps b" "a \<noteq> []" "b \<noteq> []"
  shows "take ps a = take ps b"
  using assms by (cases a; cases b) (auto simp: pkey_def split: if_splits)

lemma pkey_prefix:
  assumes "prefix a x" "prefix b x" "a \<noteq> []" "b \<noteq> []" "ps dvd length a" "ps dvd length b" "0 < ps"
  shows "pkey ps a = pkey ps b"
proof -
  from assms have "ps \<le> length a" "ps \<le> length b" by (simp_all add: dvd_imp_le)
  with take_prefix_eq[OF assms(1)] take_prefix_eq[OF assms(2)] assms(7) show ?thesis
    by (intro pkey_cong) simp_all
qed

lemma prefix_drop_append: "prefix (a @ b) x \<Longrightarrow> prefix b (drop (length a) x)"
  by (auto simp: prefix_def)

text \<open>The main lemma on labels: a node whose label extends that of \<open>n\<close> lies below \<open>n\<close>.\<close>

lemma prefix_up:
  "tree_ok ps r h L V \<Longrightarrow> nodes h n = Some nd \<Longrightarrow> nodes h m = Some md \<Longrightarrow> prefix (L n) (L m) \<Longrightarrow>
     (m, n) \<in> (up h)\<^sup>*"
proof (induction "length (L n)" arbitrary: n nd rule: less_induct)
  case less
  note ok = less.prems(1)
  show ?case
  proof (cases "n = r")
    case True
    with up_root[OF ok less.prems(3)] show ?thesis by simp
  next
    case False
    from tree_parent[OF ok less.prems(2) False] obtain p pd where
      p: "rparent nd = Some p" "nodes h p = Some pd" "L n = L p @ nkey nd" "nkey nd \<noteq> []"
        "map_of (children pd) (pkey ps (nkey nd)) = Some n" "ps dvd length (nkey nd)" by blast
    have pm: "prefix (L p) (L m)"
      using less.prems(4) p(3) by (metis append_prefixD)
    have "(m, p) \<in> (up h)\<^sup>*"
      using less.hyps[of p pd] p less.prems(3) ok pm by simp
    moreover have "m \<noteq> p"
      using less.prems(4) p by (auto dest: prefix_length_le)
    ultimately obtain c cd where c: "nodes h c = Some cd" "rparent cd = Some p" "(m, c) \<in> (up h)\<^sup>*"
      "map_of (children pd) (pkey ps (nkey cd)) = Some c" "L c = L p @ nkey cd" "nkey cd \<noteq> []"
      "ps dvd length (nkey cd)"
      using up_last_child[OF ok _ _ less.prems(3), of p] p(2) by (metis option.inject)
    have "prefix (L c) (L m)" by (rule up_prefix[OF ok c(3)])
    then have "prefix (nkey cd) (drop (length (L p)) (L m))"
      unfolding c(5) by (rule prefix_drop_append)
    moreover have "prefix (nkey nd) (drop (length (L p)) (L m))"
      using less.prems(4) unfolding p(3) by (rule prefix_drop_append)
    ultimately have "prefix (nkey nd) (drop (length (L p)) (L m))"
      "prefix (nkey cd) (drop (length (L p)) (L m))" by simp_all
    from pkey_prefix[OF this p(4) c(6) p(6) c(7) tree_ps[OF ok]] p(5) c(4) have "c = n" by simp
    with c(3) show ?thesis by simp
  qed
qed

lemma up_iff_prefix:
  "tree_ok ps r h L V \<Longrightarrow> nodes h n = Some nd \<Longrightarrow> nodes h m = Some md \<Longrightarrow>
     (m, n) \<in> (up h)\<^sup>* \<longleftrightarrow> prefix (L n) (L m)"
  using prefix_up up_prefix by blast

lemma label_inject:
  assumes ok: "tree_ok ps r h L V" and n: "nodes h n = Some nd" and m: "nodes h m = Some md"
    and eq: "L n = L m"
  shows "n = m"
proof (rule ccontr)
  assume ne: "n \<noteq> m"
  have "(m, n) \<in> (up h)\<^sup>*" by (rule prefix_up[OF ok n m]) (simp add: eq)
  from up_last_child[OF ok this ne[symmetric] m] obtain c and cd :: rnode where
    c: "(m, c) \<in> (up h)\<^sup>*" "L c = L n @ nkey cd" "nkey cd \<noteq> []" by metis
  from up_prefix[OF ok c(1)] c eq show False by (auto simp: prefix_def)
qed

text \<open>The child of \<open>n\<close> on the way to a node below it.\<close>

lemma strict_prefix_child:
  assumes ok: "tree_ok ps r h L V" and n: "nodes h n = Some nd" and m: "nodes h m = Some md"
    and pre: "strict_prefix (L n) (L m)"
  shows "\<exists>c cd. nodes h c = Some cd \<and> rparent cd = Some n \<and>
    map_of (children nd) (pkey ps (nkey cd)) = Some c \<and> prefix (L c) (L m) \<and> L c = L n @ nkey cd \<and>
    nkey cd \<noteq> [] \<and> ps dvd length (nkey cd)"
proof -
  from pre have mn: "(m, n) \<in> (up h)\<^sup>*" "m \<noteq> n" using prefix_up[OF ok n m] by auto
  obtain c cd nd' where c: "nodes h c = Some cd" "rparent cd = Some n" "(m, c) \<in> (up h)\<^sup>*"
    "nodes h n = Some nd'" "map_of (children nd') (pkey ps (nkey cd)) = Some c" "L c = L n @ nkey cd"
    "nkey cd \<noteq> []" "ps dvd length (nkey cd)"
    using up_last_child[OF ok mn m] by blast
  from c(4) n have "nd' = nd" by simp
  with c up_prefix[OF ok c(3)] show ?thesis by blast
qed

lemma child_of_page:
  assumes ok: "tree_ok ps r h L V" and n: "nodes h n = Some nd" and m: "nodes h m = Some md"
    and pre: "prefix (L n) (L m)" and k: "length (L n) + ps \<le> k" "k \<le> length (L m)"
    and ids: "take k (L m) = take k ids" and j: "j = length (L n)"
  shows "\<exists>c cd. map_of (children nd) (pkey ps (drop j ids)) = Some c \<and> nodes h c = Some cd \<and>
    L c = L n @ nkey cd \<and> prefix (L c) (L m)"
proof -
  note ps = tree_ps[OF ok]
  have "length (L n) < length (L m)" using k ps by linarith
  then have "L n \<noteq> L m" by force
  with pre have "strict_prefix (L n) (L m)" by (rule prefix_order.le_neq_trans)
  from strict_prefix_child[OF ok n m this] obtain c cd where
    c: "nodes h c = Some cd" "map_of (children nd) (pkey ps (nkey cd)) = Some c"
      "prefix (L c) (L m)" "L c = L n @ nkey cd" "nkey cd \<noteq> []" "ps dvd length (nkey cd)" by metis
  have "take (j + ps) (take k (L m)) = take (j + ps) (take k ids)"
    using ids by simp
  then have "take (j + ps) (L m) = take (j + ps) ids"
    using k(1) j by (simp add: min.absorb1)
  then have "take ps (drop j (L m)) = take ps (drop j ids)"
    using drop_take[of j "j + ps" "L m"] drop_take[of j "j + ps" ids] by simp
  moreover have "ps \<le> length (nkey cd)" using c(5,6) by (simp add: dvd_imp_le)
  with c(3,4) j have "take ps (drop j (L m)) = take ps (nkey cd)" by (auto simp: prefix_def)
  ultimately have "pkey ps (nkey cd) = pkey ps (drop j ids)" using ps by (intro pkey_cong) simp_all
  with c show ?thesis by auto
qed

section \<open>Operations that keep the shape\<close>

definition shape :: "rnode \<Rightarrow> int list \<times> int list \<times> (dkey \<times> nat) list \<times> nat option" where
  "shape nd = (nkey nd, nvalue nd, children nd, rparent nd)"

definition same_shape :: "store \<Rightarrow> store \<Rightarrow> bool" where
  "same_shape h h' \<longleftrightarrow> counter h' = counter h \<and>
     (\<forall>n. map_option shape (nodes h' n) = map_option shape (nodes h n))"

lemma same_shape_refl [simp]: "same_shape h h"
  by (simp add: same_shape_def)

lemma same_shape_trans: "same_shape a b \<Longrightarrow> same_shape b c \<Longrightarrow> same_shape a c"
  by (simp add: same_shape_def)

lemma same_shape_dom: "same_shape h h' \<Longrightarrow> dom (nodes h') = dom (nodes h)"
  by (auto simp: same_shape_def dom_def) (metis map_option_eq_Some)+

lemma same_shapeD:
  "same_shape h h' \<Longrightarrow> nodes h' n = Some nd' \<Longrightarrow> \<exists>nd. nodes h n = Some nd \<and> shape nd = shape nd'"
  unfolding same_shape_def by (metis map_option_eq_Some)

lemma same_shapeD2:
  "same_shape h h' \<Longrightarrow> nodes h n = Some nd \<Longrightarrow> \<exists>nd'. nodes h' n = Some nd' \<and> shape nd' = shape nd"
  unfolding same_shape_def by (metis map_option_eq_Some)

lemma shape_eqD:
  "shape nd = shape nd' \<Longrightarrow>
     nkey nd = nkey nd' \<and> nvalue nd = nvalue nd' \<and> children nd = children nd' \<and> rparent nd = rparent nd'"
  by (simp add: shape_def)

lemma tree_same_shape [store_intros]:
  assumes ok: "tree_ok ps r h L V" and sh: "same_shape h h'"
  shows "tree_ok ps r h' L V"
proof -
  have node: "node_ok ps h' L V n nd'" if "nodes h' n = Some nd'" "n \<noteq> r" for n nd'
  proof -
    from same_shapeD[OF sh that(1)] obtain nd where nd: "nodes h n = Some nd" "shape nd = shape nd'" by blast
    from tree_parent[OF ok nd(1) that(2)] obtain p pd where p: "rparent nd = Some p" "nodes h p = Some pd"
      "map_of (children pd) (pkey ps (nkey nd)) = Some n" "L n = L p @ nkey nd" "V n = V p @ nvalue nd"
      "nkey nd \<noteq> []" "ps dvd length (nkey nd)" "length (nvalue nd) = length (nkey nd)" by blast
    from same_shapeD2[OF sh p(2)] obtain pd' where "nodes h' p = Some pd'" "shape pd' = shape pd" by blast
    with p shape_eqD[OF nd(2)] shape_eqD[of pd' pd] show ?thesis by (simp add: node_ok_def nlength_def)
  qed
  have kids: "kids_ok ps h' n nd'" if "nodes h' n = Some nd'" for n nd'
  proof -
    from same_shapeD[OF sh that] obtain nd where nd: "nodes h n = Some nd" "shape nd = shape nd'" by blast
    have "\<exists>cd'. nodes h' c = Some cd' \<and> rparent cd' = Some n \<and> k = pkey ps (nkey cd')"
      if k: "map_of (children nd') k = Some c" for k c
    proof -
      from k shape_eqD[OF nd(2)] have "map_of (children nd) k = Some c" by simp
      from tree_child[OF ok nd(1) this] obtain cd where
        cd: "nodes h c = Some cd" "rparent cd = Some n" "k = pkey ps (nkey cd)" by blast
      from same_shapeD2[OF sh cd(1)] obtain cd' where "nodes h' c = Some cd'" "shape cd' = shape cd" by blast
      with cd shape_eqD[of cd' cd] show ?thesis by simp
    qed
    with tree_kids[OF ok nd(1)] shape_eqD[OF nd(2)] show ?thesis by (simp add: kids_ok_def)
  qed
  have root: "root_ok r h'"
  proof -
    from tree_root[OF ok] obtain rd where rd: "nodes h r = Some rd" "rparent rd = None" "nkey rd = []" "nvalue rd = []" by blast
    from same_shapeD2[OF sh rd(1)] obtain rd' where "nodes h' r = Some rd'" "shape rd' = shape rd" by blast
    with rd shape_eqD[of rd' rd] show ?thesis by (simp add: root_ok_def)
  qed
  from ok node kids root same_shape_dom[OF sh] sh show ?thesis
    by (simp add: tree_ok_def same_shape_def)
qed

text \<open>An update of one node that leaves key, value, children and parent alone.\<close>

lemma upd_node_Some:
  "nodes h n = Some nd \<Longrightarrow> upd_node n f h = Some (h\<lparr>nodes := (nodes h)(n \<mapsto> f nd)\<rparr>)"
  by (simp add: upd_node_def)

lemma upd_node_None: "nodes h n = None \<Longrightarrow> upd_node n f h = None"
  by (simp add: upd_node_def)

lemma upd_nodeD:
  "upd_node n f h = Some h' \<Longrightarrow> \<exists>nd. nodes h n = Some nd \<and> h' = h\<lparr>nodes := (nodes h)(n \<mapsto> f nd)\<rparr>"
  by (auto simp: upd_node_def)

lemma same_shape_upd:
  "nodes h n = Some nd \<Longrightarrow> shape nd' = shape nd \<Longrightarrow> same_shape h (h\<lparr>nodes := (nodes h)(n \<mapsto> nd')\<rparr>)"
  by (simp add: same_shape_def)

lemma upd_node_same_shape:
  "upd_node n f h = Some h' \<Longrightarrow> (\<And>nd. shape (f nd) = shape nd) \<Longrightarrow> same_shape h h'"
  by (auto dest!: upd_nodeD intro: same_shape_upd)

section \<open>Splitting a node\<close>

lemma key_fn_nonempty [simp]: "x \<noteq> [] \<Longrightarrow> key_fn ps x = Some (pkey ps x)"
  by (simp add: key_fn_def)

lemma pkey_take: "0 < ps \<Longrightarrow> ps \<le> pos \<Longrightarrow> pkey ps (take pos x) = pkey ps x"
  by (intro pkey_cong) (simp_all add: min.absorb1)

definition split_top :: "nat \<Rightarrow> int \<Rightarrow> nat \<Rightarrow> nat \<Rightarrow> nat \<Rightarrow> rnode \<Rightarrow> rnode" where
  "split_top ps now n p pos nd =
     \<lparr>nkey = take pos (nkey nd), nvalue = take pos (nvalue nd),
      children = [(pkey ps (drop pos (nkey nd)), n)], rparent = Some p, ref_count = ref_count nd,
      timestamp = node_time (Some (timestamp nd)) now, mamba_value = None, mamba_ref_count = 0,
      swa_tombstone = swa_tombstone nd, swa_ref_count = swa_ref_count nd, swa_uuid = swa_uuid nd\<rparr>"

definition split_bot :: "nat \<Rightarrow> nat \<Rightarrow> rnode \<Rightarrow> rnode" where
  "split_bot m pos nd =
     nd\<lparr>swa_uuid := None, nkey := drop pos (nkey nd), nvalue := drop pos (nvalue nd), rparent := Some m\<rparr>"

lemma split_at_result:
  assumes ok: "tree_ok ps r h L V" and n: "nodes h n = Some nd" "n \<noteq> r"
    and pos: "0 < pos" "pos < length (nkey nd)" "ps dvd pos"
  shows "\<exists>p pd. rparent nd = Some p \<and> nodes h p = Some pd \<and> p \<noteq> n \<and> counter h \<noteq> n \<and> counter h \<noteq> p \<and>
     nodes h (counter h) = None \<and>
     split_at ps now n pos h =
       Some (h\<lparr>nodes := (nodes h)(counter h \<mapsto> split_top ps now n p pos nd,
                p \<mapsto> pd\<lparr>children := AList.update (pkey ps (nkey nd)) (counter h) (children pd)\<rparr>,
                n \<mapsto> split_bot (counter h) pos nd),
              counter := Suc (counter h)\<rparr>, counter h)"
proof -
  from tree_parent[OF ok n] obtain p pd where p: "rparent nd = Some p" "nodes h p = Some pd"
    "length (nvalue nd) = length (nkey nd)" "p \<noteq> n" by blast
  have fresh: "nodes h (counter h) = None"
    using tree_counter[OF ok] by (metis less_irrefl option.exhaust)
  with n p have ne: "counter h \<noteq> n" "counter h \<noteq> p" by auto
  have "ps \<le> pos" using pos by (simp add: dvd_imp_le)
  then have key: "pkey ps (take pos (nkey nd)) = pkey ps (nkey nd)" "take pos (nkey nd) \<noteq> []"
    "drop pos (nkey nd) \<noteq> []"
    using pos tree_ps[OF ok] by (auto simp: pkey_take)
  show ?thesis
    using n p ne key pos fresh
    by (intro exI[of _ p] exI[of _ pd])
      (simp add: split_at_def py_assert_def new_node_def set_key_value_def set_parent_def upd_node_def
        nlength_def split_top_def split_bot_def fun_upd_twist)
qed

lemma split_tree_ok:
  assumes ok: "tree_ok ps r h L V" and n: "nodes h n = Some nd" "n \<noteq> r"
    and pos: "0 < pos" "pos < length (nkey nd)" "ps dvd pos"
    and p: "rparent nd = Some p" "nodes h p = Some pd" and m: "m = counter h"
  shows "tree_ok ps r (h\<lparr>nodes := (nodes h)(m \<mapsto> split_top ps now n p pos nd,
                p \<mapsto> pd\<lparr>children := AList.update (pkey ps (nkey nd)) m (children pd)\<rparr>,
                n \<mapsto> split_bot m pos nd), counter := Suc m\<rparr>)
           (L(m := L p @ take pos (nkey nd))) (V(m := V p @ take pos (nvalue nd)))"
    (is "tree_ok ps r ?h ?L ?V")
proof -
  let ?K = "pkey ps (nkey nd)"
  let ?P = "pd\<lparr>children := AList.update ?K m (children pd)\<rparr>"
  from tree_parent[OF ok n] p have par: "map_of (children pd) ?K = Some n" "L n = L p @ nkey nd"
    "V n = V p @ nvalue nd" "nkey nd \<noteq> []" "ps dvd length (nkey nd)"
    "length (nvalue nd) = length (nkey nd)" "p \<noteq> n" by auto
  have fresh: "nodes h m = None" unfolding m
    using tree_counter[OF ok] by (metis less_irrefl option.exhaust)
  have ne: "m \<noteq> n" "m \<noteq> p" "m \<noteq> r" using fresh n p tree_root[OF ok] by auto
  have psle: "ps \<le> pos" using pos by (simp add: dvd_imp_le)
  have top: "nkey (split_top ps now n p pos nd) = take pos (nkey nd)"
    "nvalue (split_top ps now n p pos nd) = take pos (nvalue nd)"
    "children (split_top ps now n p pos nd) = [(pkey ps (drop pos (nkey nd)), n)]"
    "rparent (split_top ps now n p pos nd) = Some p" by (simp_all add: split_top_def)
  have bot: "nkey (split_bot m pos nd) = drop pos (nkey nd)" "nvalue (split_bot m pos nd) = drop pos (nvalue nd)"
    "children (split_bot m pos nd) = children nd" "rparent (split_bot m pos nd) = Some m"
    by (simp_all add: split_bot_def)
  have at: "nodes ?h x = (if x = n then Some (split_bot m pos nd) else if x = p then Some ?P
      else if x = m then Some (split_top ps now n p pos nd) else nodes h x)" for x by simp
  have Kt: "pkey ps (take pos (nkey nd)) = ?K" using psle tree_ps[OF ok] by (simp add: pkey_take)
  have node: "node_ok ps ?h ?L ?V x xd" if x: "nodes ?h x = Some xd" "x \<noteq> r" for x xd
  proof -
    consider "x = n" | "x = m" | "x \<noteq> n" "x \<noteq> m" by blast
    then show ?thesis
    proof cases
      case 1
      with x ne par pos bot top show ?thesis
        by (auto simp: node_ok_def nlength_def dvd_diff_nat)
    next
      case 2
      with x ne par pos top Kt psle show ?thesis
        by (auto simp: node_ok_def nlength_def map_of_update_conv)
    next
      case 3
      obtain xd0 where xd0: "nodes h x = Some xd0" "nkey xd = nkey xd0" "nvalue xd = nvalue xd0"
        "rparent xd = rparent xd0"
        using x 3 p by (cases "x = p") auto
      from tree_parent[OF ok xd0(1) x(2)] obtain q qd where q: "rparent xd0 = Some q" "nodes h q = Some qd"
        "map_of (children qd) (pkey ps (nkey xd0)) = Some x" "L x = L q @ nkey xd0" "V x = V q @ nvalue xd0"
        "nkey xd0 \<noteq> []" "ps dvd length (nkey xd0)" "length (nvalue xd0) = length (nkey xd0)" by blast
      have "q \<noteq> m" using q fresh by auto
      moreover have "\<exists>qd'. nodes ?h q = Some qd' \<and> map_of (children qd') (pkey ps (nkey xd0)) = Some x"
      proof (cases "q = p")
        case True
        with q p par 3 have "pkey ps (nkey xd0) \<noteq> ?K" by auto
        with True q p par show ?thesis by (auto simp: map_of_update_conv)
      next
        case False
        with q n \<open>q \<noteq> m\<close> bot show ?thesis by (cases "q = n") auto
      qed
      ultimately show ?thesis using 3 xd0 q by (auto simp: node_ok_def nlength_def)
    qed
  qed
  have kids: "kids_ok ps ?h x xd" if x: "nodes ?h x = Some xd" for x xd
  proof (cases "x = m")
    case True
    with x ne top bot show ?thesis by (auto simp: kids_ok_def)
  next
    case False
    obtain xd0 where xd0: "nodes h x = Some xd0" "x \<noteq> p \<Longrightarrow> children xd = children xd0"
      "x = p \<Longrightarrow> xd0 = pd \<and> xd = ?P"
      using x False p n bot par by (cases "x = p"; cases "x = n") auto
    have old: "\<exists>cd'. nodes ?h c = Some cd' \<and> rparent cd' = Some x \<and> k = pkey ps (nkey cd')"
      if c: "map_of (children xd0) k = Some c" "c \<noteq> n" for k c
    proof -
      from tree_child[OF ok xd0(1) c(1)] obtain cd where
        cd: "nodes h c = Some cd" "rparent cd = Some x" "k = pkey ps (nkey cd)" by blast
      with fresh have "c \<noteq> m" by auto
      with cd c(2) p show ?thesis by (cases "c = p") auto
    qed
    have dist: "distinct (map fst (children xd0))" using tree_kids[OF ok xd0(1)] by (simp add: kids_ok_def)
    show ?thesis
    proof (cases "x = p")
      case True
      have "c \<noteq> n" if "map_of (children pd) k = Some c" "k \<noteq> ?K" for k c
        using tree_child[OF ok p(2) that(1)] that(2) n(1) by auto
      with True xd0 old dist ne top Kt par show ?thesis
        by (auto simp: kids_ok_def map_of_update_conv distinct_fst_update)
    next
      case False
      have "c \<noteq> n" if "map_of (children xd0) k = Some c" for k c
        using tree_child[OF ok xd0(1) that] False n(1) p(1) by auto
      with False xd0 old dist show ?thesis by (auto simp: kids_ok_def)
    qed
  qed
  have root: "root_ok r ?h"
  proof -
    from tree_root[OF ok] obtain rd where "nodes h r = Some rd" "rparent rd = None" "nkey rd = []" "nvalue rd = []" by blast
    with n p ne show ?thesis by (cases "r = p") (auto simp: root_ok_def)
  qed
  show ?thesis
  proof (rule tree_okI)
    show "finite (dom (nodes ?h))" using tree_finite[OF ok] by simp
    show "x < counter ?h" if "nodes ?h x = Some xd" for x xd
      using that tree_counter[OF ok, of x] tree_counter[OF ok n(1)] tree_counter[OF ok p(2)] m
      by (auto split: if_splits)
    show "?L r = []" "?V r = []" using ne tree_root_labels[OF ok] by auto
  qed (rule tree_ps[OF ok] root node kids; assumption?)+
qed

end
