(* ===== verification/RadixOps.thy ===== *)
theory RadixOps
  imports RadixInv
begin

text \<open>
  What the shared tree operations do to a well-formed tree: adding and unlinking a leaf, the
  tree walk (longest page-aligned match, splitting as it goes), the upward loops and the
  depth-first collections.  The relation \<open>grows\<close> collects the steps that only refine the
  tree (stamps and splits), so that a cache proves once that they keep its own accounts.
\<close>

section \<open>Adding a leaf\<close>

definition leaf_node :: "int option \<Rightarrow> int \<Rightarrow> nat \<Rightarrow> int list \<Rightarrow> int list \<Rightarrow> rnode" where
  "leaf_node tic now p k v =
     \<lparr>nkey = k, nvalue = v, children = [], rparent = Some p, ref_count = 0,
      timestamp = node_time tic now, mamba_value = None, mamba_ref_count = 0,
      swa_tombstone = False, swa_ref_count = 0, swa_uuid = None\<rparr>"

lemma counter_fresh: "tree_ok ps r h L V \<Longrightarrow> nodes h (counter h) = None"
  using tree_counter[of ps r h L V] by (metis less_irrefl option.exhaust)

lemma add_leaf_result:
  assumes ok: "tree_ok ps r h L V" and p: "nodes h p = Some pd"
    and k: "k \<noteq> []" "length v = length k"
  shows "add_leaf ps tic now p k v h =
    Some (h\<lparr>nodes := (nodes h)(counter h \<mapsto> leaf_node tic now p k v,
              p \<mapsto> pd\<lparr>children := AList.update (pkey ps k) (counter h) (children pd)\<rparr>),
            counter := Suc (counter h)\<rparr>, counter h)"
proof -
  have "counter h \<noteq> p" using p counter_fresh[OF ok] by auto
  with p k show ?thesis
    by (simp add: add_leaf_def new_node_def set_key_value_def set_parent_def upd_node_def
        py_assert_def leaf_node_def fun_upd_twist)
qed

lemma add_leaf_tree_ok:
  assumes ok: "tree_ok ps r h L V" and p: "nodes h p = Some pd"
    and k: "k \<noteq> []" "length v = length k" "ps dvd length k"
    and new: "map_of (children pd) (pkey ps k) = None" and m: "m = counter h"
  shows "tree_ok ps r (h\<lparr>nodes := (nodes h)(m \<mapsto> leaf_node tic now p k v,
              p \<mapsto> pd\<lparr>children := AList.update (pkey ps k) m (children pd)\<rparr>), counter := Suc m\<rparr>)
           (L(m := L p @ k)) (V(m := V p @ v))"
    (is "tree_ok ps r ?h ?L ?V")
proof -
  have fresh: "nodes h m = None" using counter_fresh[OF ok] m by simp
  have ne: "m \<noteq> p" "m \<noteq> r" using fresh p tree_root[OF ok] by auto
  have node: "node_ok ps ?h ?L ?V x xd" if x: "nodes ?h x = Some xd" "x \<noteq> r" for x xd
  proof (cases "x = m")
    case True
    with x ne k show ?thesis
      by (auto simp: node_ok_def nlength_def map_of_update_conv leaf_node_def)
  next
    case False
    obtain xd0 where xd0: "nodes h x = Some xd0" "nkey xd = nkey xd0" "nvalue xd = nvalue xd0"
      "rparent xd = rparent xd0"
      using x False p by (cases "x = p") auto
    from tree_parent[OF ok xd0(1) x(2)] obtain q qd where q: "rparent xd0 = Some q" "nodes h q = Some qd"
      "map_of (children qd) (pkey ps (nkey xd0)) = Some x" "L x = L q @ nkey xd0" "V x = V q @ nvalue xd0"
      "nkey xd0 \<noteq> []" "ps dvd length (nkey xd0)" "length (nvalue xd0) = length (nkey xd0)" by blast
    have "q \<noteq> m" using q fresh by auto
    moreover have "\<exists>qd'. nodes ?h q = Some qd' \<and> map_of (children qd') (pkey ps (nkey xd0)) = Some x"
      using q p new \<open>q \<noteq> m\<close> by (cases "q = p") (auto simp: map_of_update_conv)
    ultimately show ?thesis using False xd0 q by (auto simp: node_ok_def nlength_def)
  qed
  have kids: "kids_ok ps ?h x xd" if x: "nodes ?h x = Some xd" for x xd
  proof (cases "x = m")
    case True
    with x ne show ?thesis by (auto simp: kids_ok_def leaf_node_def)
  next
    case False
    obtain xd0 where xd0: "nodes h x = Some xd0" "x \<noteq> p \<Longrightarrow> xd = xd0"
      "x = p \<Longrightarrow> xd0 = pd \<and> xd = pd\<lparr>children := AList.update (pkey ps k) m (children pd)\<rparr>"
      using x False p by (cases "x = p") auto
    have old: "\<exists>cd'. nodes ?h c = Some cd' \<and> rparent cd' = Some x \<and> k' = pkey ps (nkey cd')"
      if c: "map_of (children xd0) k' = Some c" for k' c
    proof -
      from tree_child[OF ok xd0(1) c(1)] obtain cd where
        cd: "nodes h c = Some cd" "rparent cd = Some x" "k' = pkey ps (nkey cd)" by blast
      with fresh have "c \<noteq> m" by auto
      with cd p show ?thesis by (cases "c = p") auto
    qed
    have dist: "distinct (map fst (children xd0))" using tree_kids[OF ok xd0(1)] by (simp add: kids_ok_def)
    show ?thesis
    proof (cases "x = p")
      case True
      with xd0 old dist ne show ?thesis
        by (auto simp: kids_ok_def map_of_update_conv distinct_fst_update leaf_node_def)
    qed (use xd0 old dist in \<open>auto simp: kids_ok_def\<close>)
  qed
  have root: "root_ok r ?h"
  proof -
    from tree_root[OF ok] obtain rd where "nodes h r = Some rd" "rparent rd = None" "nkey rd = []" "nvalue rd = []" by blast
    with p ne show ?thesis by (cases "r = p") (auto simp: root_ok_def)
  qed
  show ?thesis
  proof (rule tree_okI)
    show "finite (dom (nodes ?h))" using tree_finite[OF ok] by simp
    show "x < counter ?h" if "nodes ?h x = Some xd" for x xd
      using that tree_counter[OF ok, of x] tree_counter[OF ok p] m by (auto split: if_splits)
    show "?L r = []" "?V r = []" using ne tree_root_labels[OF ok] by auto
  qed (rule tree_ps[OF ok] root node kids; assumption?)+
qed

section \<open>Unlinking a leaf\<close>

lemma unlink_result:
  assumes ok: "tree_ok ps r h L V" and n: "nodes h n = Some nd" "n \<noteq> r"
  shows "\<exists>p pd. rparent nd = Some p \<and> nodes h p = Some pd \<and> p \<noteq> n \<and>
    map_of (children pd) (pkey ps (nkey nd)) = Some n \<and>
    unlink ps n h = Some (h\<lparr>nodes := (nodes h)(p \<mapsto> pd\<lparr>children := AList.delete (pkey ps (nkey nd)) (children pd)\<rparr>,
                        n := None)\<rparr>, p)"
proof -
  from tree_parent[OF ok n] obtain p pd where p: "rparent nd = Some p" "nodes h p = Some pd"
    "map_of (children pd) (pkey ps (nkey nd)) = Some n" "nkey nd \<noteq> []" "p \<noteq> n" by blast
  with n show ?thesis by (simp add: unlink_def upd_node_def)
qed

lemma unlink_tree_ok:
  assumes ok: "tree_ok ps r h L V" and n: "nodes h n = Some nd" "n \<noteq> r" "children nd = []"
    and p: "rparent nd = Some p" "nodes h p = Some pd"
  shows "tree_ok ps r (h\<lparr>nodes := (nodes h)(p \<mapsto> pd\<lparr>children := AList.delete (pkey ps (nkey nd)) (children pd)\<rparr>,
            n := None)\<rparr>) L V" (is "tree_ok ps r ?h L V")
proof -
  from tree_parent[OF ok n(1,2)] p have par: "map_of (children pd) (pkey ps (nkey nd)) = Some n" "p \<noteq> n" by auto
  have nochild: "rparent xd \<noteq> Some n" if "nodes h x = Some xd" for x xd
  proof
    assume "rparent xd = Some n"
    with that tree_root[OF ok] have "x \<noteq> r" by auto
    from tree_parent[OF ok that this] \<open>rparent xd = Some n\<close> n show False by auto
  qed
  have node: "node_ok ps ?h L V x xd" if x: "nodes ?h x = Some xd" "x \<noteq> r" for x xd
  proof -
    obtain xd0 where xd0: "x \<noteq> n" "nodes h x = Some xd0" "nkey xd = nkey xd0" "nvalue xd = nvalue xd0"
      "rparent xd = rparent xd0"
      using x p by (cases "x = p"; cases "x = n") auto
    from tree_parent[OF ok xd0(2) x(2)] obtain q qd where q: "rparent xd0 = Some q" "nodes h q = Some qd"
      "map_of (children qd) (pkey ps (nkey xd0)) = Some x" "L x = L q @ nkey xd0" "V x = V q @ nvalue xd0"
      "nkey xd0 \<noteq> []" "ps dvd length (nkey xd0)" "length (nvalue xd0) = length (nkey xd0)" by blast
    have "q \<noteq> n" using nochild[OF xd0(2)] q by auto
    moreover have "\<exists>qd'. nodes ?h q = Some qd' \<and> map_of (children qd') (pkey ps (nkey xd0)) = Some x"
    proof (cases "q = p")
      case True
      with q p par xd0(1) have "pkey ps (nkey xd0) \<noteq> pkey ps (nkey nd)" by auto
      with True q p par show ?thesis by (auto simp: map_of_delete_conv)
    qed (use q \<open>q \<noteq> n\<close> in auto)
    ultimately show ?thesis using xd0 q by (auto simp: node_ok_def nlength_def)
  qed
  have kids: "kids_ok ps ?h x xd" if x: "nodes ?h x = Some xd" for x xd
  proof -
    obtain xd0 where xd0: "x \<noteq> n" "nodes h x = Some xd0" "x \<noteq> p \<Longrightarrow> xd = xd0"
      "x = p \<Longrightarrow> xd0 = pd \<and> xd = pd\<lparr>children := AList.delete (pkey ps (nkey nd)) (children pd)\<rparr>"
      using x p by (cases "x = p"; cases "x = n") auto
    have old: "\<exists>cd'. nodes ?h c = Some cd' \<and> rparent cd' = Some x \<and> k' = pkey ps (nkey cd')"
      if c: "map_of (children xd0) k' = Some c" "c \<noteq> n" for k' c
    proof -
      from tree_child[OF ok xd0(2) c(1)] obtain cd where
        cd: "nodes h c = Some cd" "rparent cd = Some x" "k' = pkey ps (nkey cd)" by blast
      with p c(2) show ?thesis by (cases "c = p") auto
    qed
    have dist: "distinct (map fst (children xd0))" using tree_kids[OF ok xd0(2)] by (simp add: kids_ok_def)
    have other: "c \<noteq> n" if "map_of (children xd0) k' = Some c" "x = p \<longrightarrow> k' \<noteq> pkey ps (nkey nd)" for k' c
      using tree_child[OF ok xd0(2) that(1)] that(2) n(1) p(1) by auto
    show ?thesis
    proof (cases "x = p")
      case True
      with xd0 old dist other show ?thesis
        by (auto simp: kids_ok_def map_of_delete_conv distinct_delete split: if_splits)
    qed (use xd0 old dist other in \<open>auto simp: kids_ok_def\<close>)
  qed
  have root: "root_ok r ?h"
  proof -
    from tree_root[OF ok] obtain rd where "nodes h r = Some rd" "rparent rd = None" "nkey rd = []" "nvalue rd = []" by blast
    with p n show ?thesis by (cases "r = p") (auto simp: root_ok_def)
  qed
  show ?thesis
  proof (rule tree_okI)
    show "finite (dom (nodes ?h))" using tree_finite[OF ok] by simp
    show "x < counter ?h" if "nodes ?h x = Some xd" for x xd
      using that tree_counter[OF ok, of x] tree_counter[OF ok p(2)] by (auto split: if_splits)
  qed (rule tree_ps[OF ok] tree_root_labels[OF ok] root node kids; assumption?)+
qed

section \<open>Refining the tree: stamps and splits\<close>

inductive grows ::
  "nat \<Rightarrow> nat \<Rightarrow> store \<Rightarrow> (nat \<Rightarrow> int list) \<Rightarrow> (nat \<Rightarrow> int list) \<Rightarrow>
     store \<Rightarrow> (nat \<Rightarrow> int list) \<Rightarrow> (nat \<Rightarrow> int list) \<Rightarrow> bool"
  for ps r h L V where
  base: "tree_ok ps r h L V \<Longrightarrow> grows ps r h L V h L V"
| stamp: "grows ps r h L V h1 L1 V1 \<Longrightarrow> nodes h1 n = Some nd \<Longrightarrow>
    grows ps r h L V (h1\<lparr>nodes := (nodes h1)(n \<mapsto> nd\<lparr>timestamp := t\<rparr>)\<rparr>) L1 V1"
| split: "grows ps r h L V h1 L1 V1 \<Longrightarrow> nodes h1 n = Some nd \<Longrightarrow> n \<noteq> r \<Longrightarrow> 0 < pos \<Longrightarrow>
    pos < length (nkey nd) \<Longrightarrow> ps dvd pos \<Longrightarrow> rparent nd = Some p \<Longrightarrow> nodes h1 p = Some pd \<Longrightarrow>
    m = counter h1 \<Longrightarrow>
    grows ps r h L V
      (h1\<lparr>nodes := (nodes h1)(m \<mapsto> split_top ps now n p pos nd,
            p \<mapsto> pd\<lparr>children := AList.update (pkey ps (nkey nd)) m (children pd)\<rparr>,
            n \<mapsto> split_bot m pos nd), counter := Suc m\<rparr>)
      (L1(m := L1 p @ take pos (nkey nd))) (V1(m := V1 p @ take pos (nvalue nd)))"

lemma grows_tree_ok: "grows ps r h L V h' L' V' \<Longrightarrow> tree_ok ps r h' L' V'"
proof (induction rule: grows.induct)
  case (stamp h1 L1 V1 n nd t)
  then show ?case by (elim tree_same_shape) (intro same_shape_upd, auto simp: shape_def)
next
  case (split h1 L1 V1 n nd pos p pd m now)
  then show ?case by (intro split_tree_ok)
qed

lemma grows_trans:
  assumes "grows ps r h L V h1 L1 V1" "grows ps r h1 L1 V1 h2 L2 V2"
  shows "grows ps r h L V h2 L2 V2"
  using assms(2)
proof (induction rule: grows.induct)
  case base
  show ?case by (rule assms(1))
next
  case (stamp h1 L1 V1 n nd t)
  then show ?case by (intro grows.stamp)
next
  case (split h1 L1 V1 n nd pos p pd m now)
  then show ?case by (intro grows.split)
qed

text \<open>Old nodes stay, with their labels; a new node's label is a prefix of an old one's.\<close>

definition same_labels ::
  "store \<Rightarrow> (nat \<Rightarrow> int list) \<Rightarrow> (nat \<Rightarrow> int list) \<Rightarrow> (nat \<Rightarrow> int list) \<Rightarrow> (nat \<Rightarrow> int list) \<Rightarrow> bool" where
  "same_labels h L V L' V' \<longleftrightarrow> (\<forall>n\<in>dom (nodes h). L' n = L n \<and> V' n = V n)"

lemma grows_labels:
  "grows ps r h L V h' L' V' \<Longrightarrow> dom (nodes h) \<subseteq> dom (nodes h') \<and> same_labels h L V L' V'"
proof (induction rule: grows.induct)
  case (split h1 L1 V1 n nd pos p pd m now)
  have "nodes h1 m = None"
    using counter_fresh[OF grows_tree_ok[OF split.hyps(1)]] split.hyps(9) by simp
  with split show ?case by (auto simp: same_labels_def)
qed (auto simp: same_labels_def)

lemma grows_cover:
  "grows ps r h L V h' L' V' \<Longrightarrow> nodes h' x = Some xd \<Longrightarrow>
     \<exists>y yd. nodes h y = Some yd \<and> prefix (L' x) (L y) \<and> prefix (V' x) (V y)"
proof (induction arbitrary: x xd rule: grows.induct)
  case base
  then show ?case by auto
next
  case (stamp h1 L1 V1 n nd t)
  then show ?case by (cases "x = n") auto
next
  case (split h1 L1 V1 n nd pos p pd m now)
  have ok: "tree_ok ps r h1 L1 V1" by (rule grows_tree_ok[OF split.hyps(1)])
  have fresh: "nodes h1 m = None" using counter_fresh[OF ok] split.hyps(9) by simp
  show ?case
  proof (cases "x = m")
    case True
    from tree_parent[OF ok split.hyps(2,3)] split.hyps(7) have
      "L1 n = L1 p @ nkey nd" "V1 n = V1 p @ nvalue nd" by auto
    then have "prefix (L1 p @ take pos (nkey nd)) (L1 n)" "prefix (V1 p @ take pos (nvalue nd)) (V1 n)"
      by (simp_all add: take_is_prefix)
    moreover from split.IH[OF split.hyps(2)] obtain y and yd :: rnode where
      "nodes h y = Some yd" "prefix (L1 n) (L y)" "prefix (V1 n) (V y)" by blast
    ultimately show ?thesis using True by (auto intro: prefix_order.trans)
  next
    case False
    with split.prems fresh have "\<exists>xd1. nodes h1 x = Some xd1"
      using split.hyps(2,8) by (auto split: if_splits)
    with split.IH False show ?thesis by auto
  qed
qed

section \<open>The tree walk\<close>

text \<open>
  \<open>longest ps h L ids len\<close>: no page-aligned prefix of \<open>ids\<close> longer than \<open>len\<close> is stored
  on a path of the tree.
\<close>

definition longest :: "nat \<Rightarrow> store \<Rightarrow> (nat \<Rightarrow> int list) \<Rightarrow> int list \<Rightarrow> nat \<Rightarrow> bool" where
  "longest ps h L ids len \<longleftrightarrow>
     (\<forall>m\<in>dom (nodes h). \<forall>k. ps dvd k \<longrightarrow> k \<le> length ids \<longrightarrow> k \<le> length (L m) \<longrightarrow>
        take k (L m) = take k ids \<longrightarrow> k \<le> len)"

lemma longest_end: "longest ps h L ids (length ids)"
  by (simp add: longest_def)

text \<open>A longer match has to continue through a child with the next page as its key.\<close>

lemma longest_stop:
  assumes ok: "tree_ok ps r h L V" and n: "nodes h n = Some nd"
    and j: "L n = take j ids" "j = length (L n)" "ps dvd j"
    and stop: "\<And>c cd m md k. map_of (children nd) (pkey ps (drop j ids)) = Some c \<Longrightarrow>
        nodes h c = Some cd \<Longrightarrow> L c = L n @ nkey cd \<Longrightarrow> nodes h m = Some md \<Longrightarrow> prefix (L c) (L m) \<Longrightarrow>
        ps dvd k \<Longrightarrow> k \<le> length ids \<Longrightarrow> k \<le> length (L m) \<Longrightarrow> take k (L m) = take k ids \<Longrightarrow> k \<le> len"
    and len: "j \<le> len"
  shows "longest ps h L ids len"
  unfolding longest_def
proof (intro ballI allI impI)
  fix m k assume "m \<in> dom (nodes h)" and k: "ps dvd k" "k \<le> length ids" "k \<le> length (L m)"
    "take k (L m) = take k ids"
  then obtain md where m: "nodes h m = Some md" by blast
  show "k \<le> len"
  proof (cases "k \<le> j")
    case False
    then have jk: "j \<le> k" "j + ps \<le> k"
      using j(3) k(1) tree_ps[OF ok]
      using dvd_imp_le[of ps "k - j"] by auto
    have "take j (take k (L m)) = take j (take k ids)" using k(4) by simp
    then have "take j (L m) = L n" using j(1) jk(1) by (simp add: min.absorb1)
    then have "prefix (L n) (L m)" by (metis take_is_prefix)
    from child_of_page[OF ok n m this _ k(3,4) j(2)] jk j(2) obtain c cd where
      "map_of (children nd) (pkey ps (drop j ids)) = Some c" "nodes h c = Some cd"
      "L c = L n @ nkey cd" "prefix (L c) (L m)" by auto
    from stop[OF this(1,2,3) m this(4) k] show ?thesis .
  qed (use len in simp)
qed

lemma first_page_match:
  assumes "pkey ps (nkey cd) = pkey ps x" "nkey cd \<noteq> []" "x \<noteq> []" "ps dvd length (nkey cd)" "0 < ps"
  shows "ps \<le> align_down (get_match_len cd x) ps"
proof -
  have eq: "take ps (nkey cd) = take ps x" using assms by (intro pkey_inject) auto
  have le: "ps \<le> length (nkey cd)" using assms by (simp add: dvd_imp_le)
  with eq have "ps \<le> length x" by (metis length_take min.absorb_iff2 min.commute)
  with le eq have "ps \<le> get_match_len cd x" unfolding get_match_len_def by (intro lcp_len_ge) auto
  then show ?thesis by (intro align_down_ge) auto
qed

lemma match_take:
  "k \<le> get_match_len cd (drop j ids) \<Longrightarrow> take j ids @ take k (nkey cd) = take (j + k) ids"
  unfolding get_match_len_def by (simp add: take_lcp_len take_add)

lemma match_bound: "align_down (get_match_len cd x) ps \<le> length (nkey cd)" "align_down (get_match_len cd x) ps \<le> length x"
  using align_down_le[of "get_match_len cd x" ps] lcp_len_le[of "nkey cd" x]
  unfolding get_match_len_def by linarith+

lemma partial_longest:
  assumes ok: "tree_ok ps r h L V" and n: "nodes h n = Some nd"
    and j: "L n = take j ids" "length (L n) = j" "ps dvd j"
    and c: "map_of (children nd) (pkey ps (drop j ids)) = Some c" "nodes h c = Some cd"
    and ml: "ml = align_down (get_match_len cd (drop j ids)) ps" "ml \<noteq> length (nkey cd)"
  shows "longest ps h L ids (j + ml)"
proof (rule longest_stop[OF ok n j(1) j(2)[symmetric] j(3)])
  fix c' and cd' md :: rnode and m k
  assume c': "map_of (children nd) (pkey ps (drop j ids)) = Some c'" "nodes h c' = Some cd'"
      "L c' = L n @ nkey cd'" and m: "prefix (L c') (L m)"
    and k: "ps dvd k" "k \<le> length ids" "k \<le> length (L m)" "take k (L m) = take k ids"
  from c c' have "cd' = cd" by simp
  with c'(3) m have pre: "prefix (take j ids @ nkey cd) (L m)" using j(1) by simp
  have lj: "length (take j ids) = j" using j(1,2) by simp
  let ?q = "min (k - j) (length (nkey cd))"
  have "take ?q (nkey cd) = take ?q (drop j ids)"
  proof -
    have "take (j + ?q) (take j ids @ nkey cd) = take (j + ?q) (L m)"
      using lj by (intro take_prefix_eq[OF pre]) simp
    then have "take j ids @ take ?q (nkey cd) = take (j + ?q) (L m)" using lj by simp
    also have "\<dots> = take (j + ?q) (take k (L m))" if "j \<le> k" using that by (simp add: min.absorb1)
    finally have eq: "take j ids @ take ?q (nkey cd) = take (j + ?q) ids" if "j \<le> k"
      using that k(4) by (simp add: min.absorb1)
    show ?thesis
    proof (cases "j \<le> k")
      case True
      then show ?thesis using eq by (simp add: take_add)
    qed simp
  qed
  moreover have "?q \<le> length (drop j ids)" using k(2) by simp
  ultimately have q: "?q \<le> get_match_len cd (drop j ids)"
    unfolding get_match_len_def by (intro lcp_len_ge) auto
  show "k \<le> j + ml"
  proof (cases "length (nkey cd) \<le> k - j")
    case True
    have "ps dvd length (nkey cd)" using tree_child[OF ok n c(1)] c(2) by auto
    with True q have "length (nkey cd) \<le> ml" unfolding ml(1) by (intro align_down_ge) auto
    with match_bound(1)[of cd "drop j ids" ps] ml show ?thesis by simp
  next
    case False
    with q have "k - j \<le> get_match_len cd (drop j ids)" by simp
    moreover have "ps dvd (k - j)" using k(1) j(3) by (rule dvd_diff_nat)
    ultimately have "k - j \<le> ml" unfolding ml(1) by (intro align_down_ge) auto
    then show ?thesis by simp
  qed
qed simp

theorem walk_loop_ok:
  "tree_ok ps r h L V \<Longrightarrow> nodes h n = Some nd \<Longrightarrow> L n = take j ids \<Longrightarrow> length (L n) = j \<Longrightarrow>
   \<exists>h' w len L' V' wd. walk_loop ps tic ids h n j = Some (h', w, len) \<and> grows ps r h L V h' L' V' \<and>
     nodes h' w = Some wd \<and> L' w = take len ids \<and> j \<le> len \<and> len \<le> length ids \<and> ps dvd len \<and>
     longest ps h L ids len"
proof (induction "length ids - j" arbitrary: h n nd j rule: less_induct)
  case less
  note ok = less.prems(1) and n = less.prems(2) and Ln = less.prems(3) and j = less.prems(4)
  have psj: "ps dvd j" using tree_label_dvd[OF ok n] j by simp
  have jle: "j \<le> length ids" using Ln j by (metis length_take min.cobounded1)
  note grow0 = grows.base[OF ok]
  show ?case
  proof (cases "j < length ids")
    case False
    with grow0 n Ln jle psj show ?thesis
      by (subst walk_loop.simps) (auto simp: longest_end)
  next
    case True
    then have rest: "drop j ids \<noteq> []" by simp
    show ?thesis
    proof (cases "map_of (children nd) (pkey ps (drop j ids))")
      case None
      then have "longest ps h L ids j"
        by (intro longest_stop[OF ok n Ln j[symmetric] psj]) auto
      with True rest n None grow0 Ln jle psj show ?thesis
        by (subst walk_loop.simps) auto
    next
      case (Some c)
      from tree_child[OF ok n Some] obtain cd where c: "nodes h c = Some cd" "rparent cd = Some n"
        "pkey ps (drop j ids) = pkey ps (nkey cd)" "c \<noteq> r" "L c = L n @ nkey cd" "nkey cd \<noteq> []"
        "ps dvd length (nkey cd)" "length (nvalue cd) = length (nkey cd)" by blast
      define ml where "ml = align_down (get_match_len cd (drop j ids)) ps"
      have ml: "ps \<le> ml" unfolding ml_def
        using first_page_match c rest tree_ps[OF ok] by simp
      have mlb: "ml \<le> length (nkey cd)" "ml \<le> length ids - j"
        using match_bound[of cd "drop j ids" ps] by (simp_all add: ml_def)
      have mlt: "take j ids @ take ml (nkey cd) = take (j + ml) ids"
        unfolding ml_def by (intro match_take) simp
      show ?thesis
      proof (cases "ml = length (nkey cd)")
        case False
        then have pos: "0 < ml" "ml < length (nkey cd)" "ps dvd ml"
          using ml mlb tree_ps[OF ok] by (auto simp: ml_def)
        from split_at_result[OF ok c(1,4) pos, of tic] c(2) n
        have sp: "split_at ps tic c ml h =
          Some (h\<lparr>nodes := (nodes h)(counter h \<mapsto> split_top ps tic c n ml cd,
                n \<mapsto> nd\<lparr>children := AList.update (pkey ps (nkey cd)) (counter h) (children nd)\<rparr>,
                c \<mapsto> split_bot (counter h) ml cd), counter := Suc (counter h)\<rparr>, counter h)"
          (is "_ = Some (?h1, _)")
          and ne: "counter h \<noteq> c" "counter h \<noteq> n" by auto
        let ?L = "L(counter h := L n @ take ml (nkey cd))" and ?V = "V(counter h := V n @ take ml (nvalue cd))"
        have g: "grows ps r h L V ?h1 ?L ?V"
          by (rule grows.split[OF grow0 c(1,4) pos c(2) n]) simp
        have at: "nodes ?h1 (counter h) = Some (split_top ps tic c n ml cd)" using ne by simp
        note g2 = grows.stamp[OF g at, of tic]
        have "longest ps h L ids (j + ml)"
          using partial_longest[OF ok n Ln j psj Some c(1)] False by (simp add: ml_def)
        with True rest n Some c(1) False sp g2 at mlt mlb jle psj pos Ln show ?thesis
          by (subst walk_loop.simps)
            (auto simp: ml_def[symmetric] Let_def nlength_def upd_node_Some intro!: exI)
      next
        case True2: True
        let ?h1 = "h\<lparr>nodes := (nodes h)(c \<mapsto> cd\<lparr>timestamp := tic\<rparr>)\<rparr>"
        note g1 = grows.stamp[OF grow0 c(1), of tic]
        have ok1: "tree_ok ps r ?h1 L V" by (rule grows_tree_ok[OF g1])
        have Lc: "L c = take (j + ml) ids" using c(5) Ln mlt True2 by simp
        have lc: "length (L c) = j + ml" using c(5) j True2 by (metis length_append)
        have dec: "length ids - (j + ml) < length ids - j" using ml tree_ps[OF ok] True by linarith
        have at1: "nodes ?h1 c = Some (cd\<lparr>timestamp := tic\<rparr>)" by simp
        from less.hyps[OF dec ok1 at1 Lc lc] obtain h' w len L' V' wd where
          w: "walk_loop ps tic ids ?h1 c (j + ml) = Some (h', w, len)" "grows ps r ?h1 L V h' L' V'"
            "nodes h' w = Some wd" "L' w = take len ids" "j + ml \<le> len" "len \<le> length ids" "ps dvd len"
            "longest ps ?h1 L ids len" by blast
        have "longest ps h L ids len" using w(8) c(1) by (auto simp: longest_def)
        moreover have "walk_loop ps tic ids h n j = Some (h', w, len)"
          using True rest n Some c(1) True2 w(1)
          by (subst walk_loop.simps) (simp add: ml_def[symmetric] Let_def nlength_def upd_node_Some)
        moreover have "j \<le> len" using w(5) by simp
        ultimately show ?thesis using w grows_trans[OF g1 w(2)] by blast
      qed
    qed
  qed
qed

end
