(* ===== verification/RadixPaths.thy ===== *)
theory RadixPaths
  imports RadixOps
begin

text \<open>
  The loops over parent pointers and the depth-first collections on a well-formed tree.
  The upward loop of \<open>up_loop\<close> is a fold over the chain of nodes from the start to the
  root, and that chain is the set of nodes whose label is a prefix of the start's.
  The depth-first search returns every selected node of the tree once.
\<close>

section \<open>Folds in the option monad\<close>

fun ofold :: "('a \<Rightarrow> 's \<Rightarrow> 's option) \<Rightarrow> 'a list \<Rightarrow> 's \<Rightarrow> 's option" where
  "ofold f [] s = Some s"
| "ofold f (x # xs) s = Option.bind (f x s) (ofold f xs)"

lemma ofold_inv:
  assumes "I [] s"
    and "\<And>ys x zs s. xs = ys @ x # zs \<Longrightarrow> I ys s \<Longrightarrow> \<exists>s'. f x s = Some s' \<and> I (ys @ [x]) s'"
  shows "\<exists>s'. ofold f xs s = Some s' \<and> I xs s'"
proof -
  have "\<exists>s'. ofold f zs s = Some s' \<and> I xs s'" if "xs = ys @ zs" "I ys s" for ys zs s
    using that
  proof (induction zs arbitrary: ys s)
    case (Cons z zs)
    from assms(2)[OF Cons.prems] obtain s' where "f z s = Some s'" "I (ys @ [z]) s'" by blast
    with Cons.IH[of "ys @ [z]" s'] Cons.prems(1) show ?case by simp
  qed simp
  from this[of "[]" xs s] assms(1) show ?thesis by simp
qed

section \<open>Ancestor chains\<close>

fun chain :: "store \<Rightarrow> nat \<Rightarrow> nat \<Rightarrow> nat list \<Rightarrow> bool" where
  "chain h r n [] = (n = r)"
| "chain h r n (x # xs) = (x = n \<and> n \<noteq> r \<and>
     (\<exists>nd p. nodes h n = Some nd \<and> rparent nd = Some p \<and> chain h r p xs))"

definition ancs :: "store \<Rightarrow> nat \<Rightarrow> (nat \<Rightarrow> int list) \<Rightarrow> nat \<Rightarrow> nat set" where
  "ancs h r L n = {m \<in> dom (nodes h). m \<noteq> r \<and> prefix (L m) (L n)}"

lemma ancs_parent:
  assumes ok: "tree_ok ps r h L V" and n: "nodes h n = Some nd" "n \<noteq> r" "rparent nd = Some p"
  shows "ancs h r L n = insert n (ancs h r L p)" "n \<notin> ancs h r L p"
proof -
  from tree_parent[OF ok n(1,2)] n(3) obtain pd where p: "nodes h p = Some pd" "L n = L p @ nkey nd" "nkey nd \<noteq> []" by auto
  show "n \<notin> ancs h r L p"
    using p by (auto simp: ancs_def prefix_def)
  have up: "(n, p) \<in> up h" using n by (simp add: up_def)
  have "m = n \<or> prefix (L m) (L p)" if "nodes h m = Some md" "prefix (L m) (L n)" for m md
  proof -
    from prefix_up[OF ok that(1) n(1) that(2)] have "(n, m) \<in> (up h)\<^sup>*" .
    then show ?thesis
    proof (cases rule: converse_rtranclE)
      case (step y)
      with n have "y = p" by (auto simp: up_def)
      with step up_prefix[OF ok] show ?thesis by blast
    qed simp
  qed
  then show "ancs h r L n = insert n (ancs h r L p)"
    using n p by (auto simp: ancs_def)
qed

lemma ancs_root: "tree_ok ps r h L V \<Longrightarrow> ancs h r L r = {}"
  using tree_root_labels(1)[of ps r h L V] tree_root_iff[of ps r h L V] by (fastforce simp: ancs_def)

lemma chain_ex:
  "tree_ok ps r h L V \<Longrightarrow> nodes h n = Some nd \<Longrightarrow>
     \<exists>xs. chain h r n xs \<and> distinct xs \<and> set xs = ancs h r L n"
proof (induction "length (L n)" arbitrary: n nd rule: less_induct)
  case less
  show ?case
  proof (cases "n = r")
    case True
    with ancs_root[OF less.prems(1)] show ?thesis by (intro exI[of _ "[]"]) simp
  next
    case False
    from tree_parent[OF less.prems False] obtain p pd where
      p: "rparent nd = Some p" "nodes h p = Some pd" "L n = L p @ nkey nd" "nkey nd \<noteq> []" by blast
    from less.hyps[of p pd] p less.prems(1) obtain xs where
      "chain h r p xs" "distinct xs" "set xs = ancs h r L p" by auto
    with p False less.prems ancs_parent[OF less.prems False p(1)] show ?thesis
      by (intro exI[of _ "n # xs"]) simp
  qed
qed

lemma chain_same_shape:
  "chain h r n xs \<Longrightarrow> same_shape h h' \<Longrightarrow> chain h' r n xs"
proof (induction xs arbitrary: n)
  case (Cons x xs)
  then obtain nd p where nd: "nodes h n = Some nd" "rparent nd = Some p" "chain h r p xs" by auto
  from same_shapeD2[OF Cons.prems(2) nd(1)] obtain nd' where "nodes h' n = Some nd'" "shape nd' = shape nd" by blast
  with shape_eqD[of nd' nd] nd Cons show ?case by auto
qed simp

lemma up_loop_chain:
  assumes "chain h r n xs" "nodes h r = Some rd" "rparent rd = None" "same_shape h (sto s)"
    and "\<And>x s s'. x \<in> set xs \<Longrightarrow> same_shape h (sto s) \<Longrightarrow> body x s = Some s' \<Longrightarrow> same_shape h (sto s')"
  shows "up_loop sto body n s = ofold body xs s"
  using assms
proof (induction xs arbitrary: n s)
  case Nil
  from same_shapeD2[OF Nil(4) Nil(2)] obtain rd' where "nodes (sto s) r = Some rd'" "shape rd' = shape rd" by blast
  with shape_eqD[of rd' rd] Nil show ?case by (subst up_loop.simps) simp
next
  case (Cons x xs)
  from Cons.prems(1) obtain nd p where nd: "x = n" "nodes h n = Some nd" "rparent nd = Some p" "chain h r p xs" by auto
  from same_shapeD2[OF Cons.prems(4) nd(2)] obtain nd' where nd': "nodes (sto s) n = Some nd'" "shape nd' = shape nd" by blast
  have "up_loop sto body p s' = ofold body xs s'" if "body n s = Some s'" for s'
    using Cons.prems(5)[OF _ Cons.prems(4) that] nd(1) Cons.prems(5)
    by (intro Cons.IH[OF nd(4) Cons.prems(2,3)]) auto
  then show ?case
    using nd nd' shape_eqD[OF nd'(2)] by (subst up_loop.simps) (cases "body n s"; simp)
qed

text \<open>The rule the caches use: every body step keeps an invariant of the nodes done so far.\<close>

lemma up_loop_rule:
  assumes ok: "tree_ok ps r h L V" and n: "nodes h n = Some nd" and sh: "same_shape h (sto s)" and I: "I {} s"
    and step: "\<And>x X s. x \<in> ancs h r L n \<Longrightarrow> x \<notin> X \<Longrightarrow> X \<subseteq> ancs h r L n \<Longrightarrow> same_shape h (sto s) \<Longrightarrow> I X s \<Longrightarrow>
        \<exists>s'. body x s = Some s' \<and> same_shape h (sto s') \<and> I (insert x X) s'"
    and keep: "\<And>x s s'. same_shape h (sto s) \<Longrightarrow> body x s = Some s' \<Longrightarrow> same_shape h (sto s')"
  shows "\<exists>s'. up_loop sto body n s = Some s' \<and> same_shape h (sto s') \<and> I (ancs h r L n) s'"
proof -
  from chain_ex[OF ok n] obtain xs where xs: "chain h r n xs" "distinct xs" "set xs = ancs h r L n" by blast
  from tree_root[OF ok] obtain rd where rd: "nodes h r = Some rd" "rparent rd = None" by blast
  have "\<exists>s'. ofold body xs s = Some s' \<and> same_shape h (sto s') \<and> I (set xs) s'"
  proof (rule ofold_inv[where I = "\<lambda>ys s. same_shape h (sto s) \<and> I (set ys) s"])
    show "same_shape h (sto s) \<and> I (set []) s" using sh I by simp
    fix ys x zs s assume d: "xs = ys @ x # zs" and "same_shape h (sto s) \<and> I (set ys) s"
    with step[of x "set ys" s] xs show "\<exists>s'. body x s = Some s' \<and> same_shape h (sto s') \<and> I (set (ys @ [x])) s'"
      by auto
  qed
  then show ?thesis
    using up_loop_chain[where body = body and sto = sto, OF xs(1) rd sh] keep xs(3) by metis
qed

text \<open>Collecting a field of the nodes on the way up, then reading it root first.\<close>

lemma up_collect:
  assumes ok: "tree_ok ps r h L V" and n: "nodes h n = Some nd"
    and root: "F r = []" and step: "\<And>m md p. nodes h m = Some md \<Longrightarrow> m \<noteq> r \<Longrightarrow> rparent md = Some p \<Longrightarrow> F m = F p @ f md"
  shows "\<exists>vs. up_loop (\<lambda>_. h) (\<lambda>n vs. do { nd \<leftarrow> nodes h n; Some (vs @ [f nd]) }) n [] = Some vs \<and>
    concat (rev vs) = F n \<and> (vs = [] \<longleftrightarrow> n = r)"
proof -
  let ?body = "\<lambda>n vs. do { nd \<leftarrow> nodes h n; Some (vs @ [f nd]) }"
  from tree_root[OF ok] obtain rd where rd: "nodes h r = Some rd" "rparent rd = None" by blast
  have gen: "\<exists>vs. ofold ?body xs acc = Some (acc @ vs) \<and> concat (rev vs) = F m \<and> (vs = [] \<longleftrightarrow> m = r)"
    if "chain h r m xs" for xs m acc
    using that
  proof (induction xs arbitrary: m acc)
    case Nil
    with root show ?case by simp
  next
    case (Cons x xs)
    then obtain md p where md: "x = m" "m \<noteq> r" "nodes h m = Some md" "rparent md = Some p" "chain h r p xs" by auto
    from Cons.IH[OF md(5), of "acc @ [f md]"] obtain vs where
      "ofold ?body xs (acc @ [f md]) = Some (acc @ f md # vs)" "concat (rev vs) = F p" by auto
    with step[OF md(3,2,4)] md show ?case by (intro exI[of _ "f md # vs"]) simp
  qed
  from chain_ex[OF ok n] obtain xs where xs: "chain h r n xs" by blast
  have "up_loop (\<lambda>_. h) ?body n [] = ofold ?body xs []"
    by (rule up_loop_chain[OF xs rd]) simp_all
  with gen[OF xs, of "[]"] show ?thesis by auto
qed

lemma path_values_ok:
  assumes ok: "tree_ok ps r h L V" and n: "nodes h n = Some nd"
  shows "\<exists>vs. path_values h n = Some vs \<and> concat vs = V n \<and> (vs = [] \<longleftrightarrow> n = r)"
  using up_collect[OF ok n, of V nvalue] tree_root_labels[OF ok] tree_parent[OF ok]
  by (fastforce simp: path_values_def)

lemma indices_of_ok: "tree_ok ps r h L V \<Longrightarrow> nodes h n = Some nd \<Longrightarrow> indices_of h n = Some (V n)"
  using path_values_ok[of ps r h L V n nd] by (auto simp: indices_of_def)

lemma tokens_of_ok: "tree_ok ps r h L V \<Longrightarrow> nodes h n = Some nd \<Longrightarrow> tokens_of h n = Some (L n)"
  using up_collect[of ps r h L V n nd L nkey] tree_root_labels[of ps r h L V] tree_parent[of ps r h L V]
  by (fastforce simp: tokens_of_def)

section \<open>The depth-first search\<close>

definition desc :: "store \<Rightarrow> (nat \<Rightarrow> int list) \<Rightarrow> nat \<Rightarrow> nat set" where
  "desc h L n = {m \<in> dom (nodes h). prefix (L n) (L m)}"

lemma desc_root: "tree_ok ps r h L V \<Longrightarrow> desc h L r = dom (nodes h)"
  using tree_root_labels(1)[of ps r h L V] by (simp add: desc_def)

lemma child_in:
  assumes ok: "tree_ok ps r h L V" and n: "nodes h n = Some nd" and c: "c \<in> set (map snd (children nd))"
  shows "\<exists>cd k. map_of (children nd) k = Some c \<and> nodes h c = Some cd \<and> rparent cd = Some n \<and> c \<noteq> r \<and>
    k = pkey ps (nkey cd) \<and> L c = L n @ nkey cd \<and> nkey cd \<noteq> []"
proof -
  from c obtain k where "(k, c) \<in> set (children nd)" by auto
  moreover have "distinct (map fst (children nd))" using tree_kids[OF ok n] by (simp add: kids_ok_def)
  ultimately have "map_of (children nd) k = Some c" by simp
  from tree_child[OF ok n this] this show ?thesis by blast
qed

lemma distinct_children:
  assumes ok: "tree_ok ps r h L V" and n: "nodes h n = Some nd"
  shows "distinct (map snd (children nd))"
proof -
  have d: "distinct (map fst (children nd))" using tree_kids[OF ok n] by (simp add: kids_ok_def)
  have "inj_on snd (set (children nd))"
  proof (rule inj_onI)
    fix a b assume a: "a \<in> set (children nd)" and b: "b \<in> set (children nd)" and eq: "snd a = snd b"
    have "map_of (children nd) (fst a) = Some (snd a)" "map_of (children nd) (fst b) = Some (snd b)"
      using a b d by simp_all
    with tree_child[OF ok n] eq have "fst a = fst b" by (metis option.inject)
    with eq show "a = b" by (simp add: prod_eq_iff)
  qed
  with d show ?thesis by (simp add: distinct_map)
qed

lemma desc_unfold:
  assumes ok: "tree_ok ps r h L V" and n: "nodes h n = Some nd"
  shows "desc h L n = insert n (\<Union>c\<in>set (map snd (children nd)). desc h L c)"
proof -
  have down: "m = n \<or> (\<exists>c\<in>set (map snd (children nd)). m \<in> desc h L c)"
    if m: "m \<in> desc h L n" for m
  proof (cases "m = n")
    case False
    from m obtain md where md: "nodes h m = Some md" "prefix (L n) (L m)" by (auto simp: desc_def)
    have "strict_prefix (L n) (L m)" using md label_inject[OF ok n md(1)] False by (auto simp: strict_prefix_def)
    from strict_prefix_child[OF ok n md(1) this] obtain c and cd :: rnode where
      c: "map_of (children nd) (pkey ps (nkey cd)) = Some c" "prefix (L c) (L m)" by blast
    from map_of_SomeD[OF c(1)] have "c \<in> set (map snd (children nd))" by force
    with c(2) md(1) show ?thesis by (auto simp: desc_def)
  qed simp
  have up: "m \<in> desc h L n" if "c \<in> set (map snd (children nd))" "m \<in> desc h L c" for c m
    using child_in[OF ok n that(1)] that(2) by (auto simp: desc_def dest: append_prefixD)
  have "n \<in> desc h L n" using n by (auto simp: desc_def)
  with down up show ?thesis by blast
qed

lemma desc_children_disjoint:
  assumes ok: "tree_ok ps r h L V" and n: "nodes h n = Some nd"
    and c: "c \<in> set (map snd (children nd))" "c' \<in> set (map snd (children nd))" "c \<noteq> c'"
  shows "desc h L c \<inter> desc h L c' = {}"
proof (rule ccontr)
  assume "desc h L c \<inter> desc h L c' \<noteq> {}"
  then obtain m where m: "prefix (L c) (L m)" "prefix (L c') (L m)" by (auto simp: desc_def)
  from child_in[OF ok n c(1)] obtain cd where cd: "map_of (children nd) (pkey ps (nkey cd)) = Some c"
    "nodes h c = Some cd" "L c = L n @ nkey cd" "nkey cd \<noteq> []" by blast
  from child_in[OF ok n c(2)] obtain cd' where cd': "map_of (children nd) (pkey ps (nkey cd')) = Some c'"
    "nodes h c' = Some cd'" "L c' = L n @ nkey cd'" "nkey cd' \<noteq> []" by blast
  have dvd: "ps dvd length (nkey cd)" "ps dvd length (nkey cd')"
    using tree_child[OF ok n cd(1)] tree_child[OF ok n cd'(1)] cd(2) cd'(2) by auto
  have "prefix (nkey cd) (drop (length (L n)) (L m))" "prefix (nkey cd') (drop (length (L n)) (L m))"
    using m unfolding cd(3) cd'(3) by (auto dest: prefix_drop_append)
  from pkey_prefix[OF this cd(4) cd'(4) dvd tree_ps[OF ok]] cd(1) cd'(1) c(3) show False by simp
qed

lemma child_desc_not_self:
  assumes ok: "tree_ok ps r h L V" and n: "nodes h n = Some nd" and c: "c \<in> set (map snd (children nd))"
  shows "n \<notin> desc h L c"
  using child_in[OF ok n c] by (auto simp: desc_def prefix_def)

definition apart :: "store \<Rightarrow> (nat \<Rightarrow> int list) \<Rightarrow> nat list \<Rightarrow> bool" where
  "apart h L st \<longleftrightarrow> distinct st \<and> set st \<subseteq> dom (nodes h) \<and>
     (\<forall>a\<in>set st. \<forall>b\<in>set st. a \<noteq> b \<longrightarrow> desc h L a \<inter> desc h L b = {})"

lemma dfs_loop_gen:
  assumes ok: "tree_ok ps r h L V"
  shows "apart h L st \<Longrightarrow> \<exists>res. dfs_loop sel h st out = Some (out @ res) \<and> distinct res \<and>
    set res = {m \<in> (\<Union>x\<in>set st. desc h L x). \<exists>md. nodes h m = Some md \<and> sel md}"
proof (induction "card (\<Union>x\<in>set st. desc h L x)" arbitrary: st out rule: less_induct)
  case less
  show ?case
  proof (cases st)
    case Nil
    then show ?thesis by (subst dfs_loop.simps) simp
  next
    case (Cons n rest)
    from less.prems Cons obtain nd where n: "nodes h n = Some nd" by (auto simp: apart_def)
    let ?kids = "map snd (children nd)"
    let ?st = "rev ?kids @ rest"
    let ?D = "\<Union>x\<in>set ?st. desc h L x"
    have un: "(\<Union>x\<in>set st. desc h L x) = insert n ?D"
      using desc_unfold[OF ok n] Cons by (simp add: Un_assoc)
    have self: "n \<in> desc h L n" using n by (simp add: desc_def domI)
    have kidsub: "desc h L c \<subseteq> desc h L n" if "c \<in> set ?kids" for c
      using desc_unfold[OF ok n] that by blast
    have kdom: "set ?kids \<subseteq> dom (nodes h)" using child_in[OF ok n] by blast
    have selfc: "c \<in> desc h L c" if "c \<in> dom (nodes h)" for c using that by (simp add: desc_def)
    have restd: "desc h L n \<inter> desc h L b = {}" if "b \<in> set rest" for b
      using less.prems Cons that unfolding apart_def by force
    have notin: "n \<notin> ?D"
      using child_desc_not_self[OF ok n] restd self by auto
    have fin: "finite (\<Union>x\<in>set st. desc h L x)"
      by (rule finite_subset[OF _ tree_finite[OF ok]]) (auto simp: desc_def)
    have kr: "desc h L c \<inter> desc h L b = {}" if "c \<in> set ?kids" "b \<in> set rest" for c b
      using kidsub[OF that(1)] restd[OF that(2)] by blast
    have ap: "apart h L ?st"
      unfolding apart_def
    proof (intro conjI ballI impI)
      have "set ?kids \<inter> set rest = {}" using kr selfc kdom by fastforce
      moreover have "distinct rest" using less.prems Cons by (simp add: apart_def)
      ultimately show "distinct ?st" using distinct_children[OF ok n] by auto
      show "set ?st \<subseteq> dom (nodes h)" using kdom less.prems Cons by (auto simp: apart_def)
      fix a b assume ab: "a \<in> set ?st" "b \<in> set ?st" "a \<noteq> b"
      have rr: "desc h L a \<inter> desc h L b = {}" if "a \<in> set rest" "b \<in> set rest"
        using less.prems Cons that ab(3) unfolding apart_def by (metis list.set_intros(2))
      from ab kr[of a b] kr[of b a] rr desc_children_disjoint[OF ok n, of a b]
      show "desc h L a \<inter> desc h L b = {}" by (auto simp del: set_map)
    qed
    have "card ?D < card (\<Union>x\<in>set st. desc h L x)"
      using fin notin unfolding un by simp
    from less.hyps[OF this ap, of "if sel nd then out @ [n] else out"] obtain res where
      res: "dfs_loop sel h ?st (if sel nd then out @ [n] else out) = Some ((if sel nd then out @ [n] else out) @ res)"
        "distinct res" "set res = {m \<in> ?D. \<exists>md. nodes h m = Some md \<and> sel md}" by blast
    have step: "dfs_loop sel h st out = dfs_loop sel h ?st (if sel nd then out @ [n] else out)"
      using Cons n by (subst dfs_loop.simps) simp
    show ?thesis
    proof (intro exI[of _ "(if sel nd then [n] else []) @ res"] conjI)
      show "dfs_loop sel h st out = Some (out @ (if sel nd then [n] else []) @ res)"
        unfolding step res(1) by simp
      have "n \<notin> set res" using res(3) notin by blast
      then show "distinct ((if sel nd then [n] else []) @ res)" using res(2) by simp
      show "set ((if sel nd then [n] else []) @ res) =
        {m \<in> (\<Union>x\<in>set st. desc h L x). \<exists>md. nodes h m = Some md \<and> sel md}"
        unfolding un set_append res(3) using n by auto
    qed
  qed
qed

theorem dfs_root:
  assumes ok: "tree_ok ps r h L V"
  shows "\<exists>res. dfs_loop sel h [r] [] = Some res \<and> distinct res \<and>
    set res = {m. \<exists>md. nodes h m = Some md \<and> sel md}"
proof -
  have "apart h L [r]" using tree_root[OF ok] by (auto simp: apart_def)
  from dfs_loop_gen[OF ok this, of sel "[]"] show ?thesis
    using desc_root[OF ok] by auto
qed

end
