(* ===== verification/RadixAccounts.thy ===== *)
theory RadixAccounts
  imports RadixPaths
begin

text \<open>
  The accounts the caches keep beside the tree: token totals over the nodes that satisfy a
  predicate on their counters (\<open>weigh\<close>: evictable, protected, window lengths), and reference
  counts that equal the number of outstanding locks at or below a node (\<open>refs_ok\<close>, with the
  locked handles as a ghost multiset).  Splits and stamps move neither.
\<close>

section \<open>Token totals\<close>

definition weigh :: "nat \<Rightarrow> (rnode \<Rightarrow> bool) \<Rightarrow> store \<Rightarrow> int" where
  "weigh r g h = dom_sum (\<lambda>n nd. if n \<noteq> r \<and> g nd then int (nlength nd) else 0) (nodes h)"

text \<open>A predicate on the lock counters and the tombstone only.\<close>

definition counters :: "rnode \<Rightarrow> int \<times> bool \<times> int" where
  "counters nd = (ref_count nd, swa_tombstone nd, swa_ref_count nd)"

definition stable :: "(rnode \<Rightarrow> bool) \<Rightarrow> bool" where
  "stable g \<longleftrightarrow> (\<forall>a b. counters a = counters b \<longrightarrow> g a = g b)"

lemma stableD: "stable g \<Longrightarrow> counters a = counters b \<Longrightarrow> g a = g b"
  unfolding stable_def by blast

lemma stableI: "(\<And>a b. ref_count a = ref_count b \<Longrightarrow> swa_tombstone a = swa_tombstone b \<Longrightarrow>
    swa_ref_count a = swa_ref_count b \<Longrightarrow> g a = g b) \<Longrightarrow> stable g"
  unfolding stable_def counters_def by blast

lemma weigh_change:
  assumes "finite (dom (nodes h))" "nodes h n = Some nd" "n \<noteq> r"
  shows "weigh r g (h\<lparr>nodes := (nodes h)(n \<mapsto> nd')\<rparr>) =
    weigh r g h - (if g nd then int (nlength nd) else 0) + (if g nd' then int (nlength nd') else 0)"
  using dom_sum_change[OF assms(1,2)] assms(3) by (simp add: weigh_def)

lemma weigh_same:
  assumes "finite (dom (nodes h))" "nodes h n = Some nd" "n \<noteq> r \<Longrightarrow> g nd' = g nd" "nlength nd' = nlength nd"
  shows "weigh r g (h\<lparr>nodes := (nodes h)(n \<mapsto> nd')\<rparr>) = weigh r g h"
  using dom_sum_change[OF assms(1,2)] assms(3,4) by (auto simp: weigh_def)

lemma weigh_fresh:
  assumes "finite (dom (nodes h))" "nodes h n = None" "n \<noteq> r"
  shows "weigh r g (h\<lparr>nodes := (nodes h)(n \<mapsto> nd)\<rparr>) = weigh r g h + (if g nd then int (nlength nd) else 0)"
  using dom_sum_fresh[OF assms(1), of n] assms(2,3) by (simp add: weigh_def domIff)

lemma weigh_drop:
  assumes "finite (dom (nodes h))" "nodes h n = Some nd" "n \<noteq> r"
  shows "weigh r g (h\<lparr>nodes := (nodes h)(n := None)\<rparr>) = weigh r g h - (if g nd then int (nlength nd) else 0)"
  using dom_sum_delete[OF assms(1,2)] assms(3) by (simp add: weigh_def)

lemma weigh_counter [simp]: "weigh r g (h\<lparr>counter := c\<rparr>) = weigh r g h"
  by (simp add: weigh_def)

lemma weigh_nonneg: "0 \<le> weigh r g h"
  by (simp add: weigh_def dom_sum_nonneg)

lemma weigh_0D: "finite (dom (nodes h)) \<Longrightarrow> weigh r g h = 0 \<Longrightarrow> nodes h n = Some nd \<Longrightarrow> n \<noteq> r \<Longrightarrow> g nd \<Longrightarrow>
    nlength nd = 0"
  using dom_sum_eq0D[of "nodes h" "\<lambda>n nd. if n \<noteq> r \<and> g nd then int (nlength nd) else 0" n nd]
  by (simp add: weigh_def)

lemma weigh_cong: "(\<And>n nd. nodes h n = Some nd \<Longrightarrow> n \<noteq> r \<Longrightarrow> g nd = g' nd) \<Longrightarrow> weigh r g h = weigh r g' h"
  unfolding weigh_def by (rule dom_sum_cong) auto

lemma weigh_split:
  assumes st: "stable g" and fin: "finite (dom (nodes h))" and n: "nodes h n = Some nd" "n \<noteq> r"
    and p: "nodes h p = Some pd" "p \<noteq> n" and m: "nodes h m = None" "m \<noteq> r" and pos: "pos < length (nkey nd)"
  shows "weigh r g (h\<lparr>nodes := (nodes h)(m \<mapsto> split_top ps now n q pos nd, p \<mapsto> pd\<lparr>children := cs\<rparr>,
           n \<mapsto> split_bot m pos nd), counter := c\<rparr>) = weigh r g h"
proof -
  let ?h1 = "h\<lparr>nodes := (nodes h)(m \<mapsto> split_top ps now n q pos nd)\<rparr>"
  let ?h2 = "?h1\<lparr>nodes := (nodes ?h1)(p \<mapsto> pd\<lparr>children := cs\<rparr>)\<rparr>"
  let ?h3 = "?h2\<lparr>nodes := (nodes ?h2)(n \<mapsto> split_bot m pos nd)\<rparr>"
  have ne: "m \<noteq> n" "m \<noteq> p" using m n p by auto
  have g: "g (split_top ps now n q pos nd) = g nd" "g (split_bot m pos nd) = g nd" "g (pd\<lparr>children := cs\<rparr>) = g pd"
    by (rule stableD[OF st]; simp add: counters_def split_top_def split_bot_def)+
  have len: "nlength (split_top ps now n q pos nd) = pos" "nlength (split_bot m pos nd) = nlength nd - pos"
    "pos < nlength nd" "nlength (pd\<lparr>children := cs\<rparr>) = nlength pd"
    using pos by (simp_all add: nlength_def split_top_def split_bot_def)
  have "weigh r g ?h1 = weigh r g h + (if g nd then int pos else 0)"
    using weigh_fresh[OF fin m(1,2), of g "split_top ps now n q pos nd"] g(1) len(1) by simp
  moreover have "weigh r g ?h2 = weigh r g ?h1"
    using fin p ne g len by (intro weigh_same) auto
  moreover have "weigh r g ?h3 = weigh r g ?h2 - (if g nd then int (nlength nd) else 0)
      + (if g nd then int (nlength nd - pos) else 0)"
    using weigh_change[of ?h2 n nd r g "split_bot m pos nd"] fin n p ne g(2) len(2) by simp
  moreover have "h\<lparr>nodes := (nodes h)(m \<mapsto> split_top ps now n q pos nd, p \<mapsto> pd\<lparr>children := cs\<rparr>,
           n \<mapsto> split_bot m pos nd), counter := c\<rparr> = ?h3\<lparr>counter := c\<rparr>" by simp
  ultimately show ?thesis using len(3) by (simp only: weigh_counter) simp
qed

lemma grows_weigh: "grows ps r h L V h' L' V' \<Longrightarrow> stable g \<Longrightarrow> weigh r g h' = weigh r g h"
proof (induction rule: grows.induct)
  case (stamp h1 L1 V1 n nd t)
  have "g (nd\<lparr>timestamp := t\<rparr>) = g nd" by (rule stableD[OF stamp.prems]) (simp add: counters_def)
  with stamp tree_finite[OF grows_tree_ok[OF stamp.hyps(1)]] show ?case
    by (subst weigh_same) (auto simp: nlength_def)
next
  case (split h1 L1 V1 n nd pos p pd m now)
  note ok = grows_tree_ok[OF split.hyps(1)]
  have m: "nodes h1 m = None" using counter_fresh[OF ok] split.hyps(9) by simp
  then have "m \<noteq> r" using tree_root[OF ok] by auto
  moreover have "p \<noteq> n" using tree_parent[OF ok split.hyps(2,3)] split.hyps(7) by auto
  ultimately show ?case
    using weigh_split[OF split.prems tree_finite[OF ok] split.hyps(2,3,8) _ m _ split.hyps(5)] split.IH split.prems
    by simp
qed simp

lemma add_leaf_weigh:
  assumes ok: "tree_ok ps r h L V" and p: "nodes h p = Some pd" and m: "m = counter h" and st: "stable g"
  shows "weigh r g (h\<lparr>nodes := (nodes h)(m \<mapsto> leaf_node tic now p k v, p \<mapsto> pd\<lparr>children := cs\<rparr>), counter := c\<rparr>) =
    weigh r g h + (if g (leaf_node tic now p k v) then int (length k) else 0)"
proof -
  let ?h1 = "h\<lparr>nodes := (nodes h)(m \<mapsto> leaf_node tic now p k v)\<rparr>"
  have f: "nodes h m = None" using counter_fresh[OF ok] m by simp
  then have ne: "m \<noteq> r" "m \<noteq> p" using tree_root[OF ok] p by auto
  have "g (pd\<lparr>children := cs\<rparr>) = g pd" by (rule stableD[OF st]) (simp add: counters_def)
  then have "weigh r g (?h1\<lparr>nodes := (nodes ?h1)(p \<mapsto> pd\<lparr>children := cs\<rparr>)\<rparr>) = weigh r g ?h1"
    using p ne tree_finite[OF ok] by (intro weigh_same) (auto simp: nlength_def)
  then have "weigh r g (?h1\<lparr>nodes := (nodes ?h1)(p \<mapsto> pd\<lparr>children := cs\<rparr>)\<rparr>\<lparr>counter := c\<rparr>) = weigh r g ?h1"
    by simp
  with weigh_fresh[OF tree_finite[OF ok] f ne(1), of g "leaf_node tic now p k v"] show ?thesis
    by (simp add: nlength_def leaf_node_def)
qed

lemma unlink_weigh:
  assumes ok: "tree_ok ps r h L V" and n: "nodes h n = Some nd" "n \<noteq> r"
    and p: "nodes h p = Some pd" "p \<noteq> n" and st: "stable g"
  shows "weigh r g (h\<lparr>nodes := (nodes h)(p \<mapsto> pd\<lparr>children := cs\<rparr>, n := None)\<rparr>) =
    weigh r g h - (if g nd then int (nlength nd) else 0)"
proof -
  let ?h1 = "h\<lparr>nodes := (nodes h)(p \<mapsto> pd\<lparr>children := cs\<rparr>)\<rparr>"
  have "g (pd\<lparr>children := cs\<rparr>) = g pd" by (rule stableD[OF st]) (simp add: counters_def)
  then have "weigh r g ?h1 = weigh r g h"
    using p tree_finite[OF ok] by (intro weigh_same) (auto simp: nlength_def)
  moreover have "weigh r g (?h1\<lparr>nodes := (nodes ?h1)(n := None)\<rparr>) = weigh r g ?h1 - (if g nd then int (nlength nd) else 0)"
    using n p tree_finite[OF ok] by (intro weigh_drop) auto
  ultimately show ?thesis by simp
qed

section \<open>Reference counts\<close>

definition holders :: "(nat \<Rightarrow> int list) \<Rightarrow> nat multiset \<Rightarrow> nat \<Rightarrow> nat" where
  "holders L locks n = size {#l \<in># locks. prefix (L n) (L l)#}"

definition refs_ok :: "nat \<Rightarrow> store \<Rightarrow> (nat \<Rightarrow> int list) \<Rightarrow> nat multiset \<Rightarrow> bool" where
  "refs_ok r h L locks \<longleftrightarrow> set_mset locks \<subseteq> dom (nodes h) \<and>
     (\<forall>n nd. nodes h n = Some nd \<longrightarrow> n \<noteq> r \<longrightarrow> ref_count nd = int (holders L locks n))"

lemma refs_okD:
  assumes "refs_ok r h L locks"
  shows refs_locks: "l \<in># locks \<Longrightarrow> \<exists>ld. nodes h l = Some ld"
    and refs_count: "nodes h n = Some nd \<Longrightarrow> n \<noteq> r \<Longrightarrow> ref_count nd = int (holders L locks n)"
  using assms by (auto simp: refs_ok_def)

lemma holders_add [simp]: "holders L (add_mset l locks) n = holders L locks n + (if prefix (L n) (L l) then 1 else 0)"
  by (simp add: holders_def)

lemma holders_empty [simp]: "holders L {#} n = 0"
  by (simp add: holders_def)

lemma holders_pos_iff: "0 < holders L locks n \<longleftrightarrow> (\<exists>l. l \<in># locks \<and> prefix (L n) (L l))"
proof -
  have "0 < holders L locks n \<longleftrightarrow> {#l \<in># locks. prefix (L n) (L l)#} \<noteq> {#}"
    unfolding holders_def by (metis nonempty_has_size)
  then show ?thesis by auto
qed

lemma holders_mono: "prefix (L a) (L b) \<Longrightarrow> holders L locks b \<le> holders L locks a"
proof (induction locks)
  case (add l locks)
  then show ?case by (auto intro: prefix_order.trans)
qed simp

lemma holders_cong:
  assumes "\<And>l. l \<in># locks \<Longrightarrow> prefix (L' n') (L' l) \<longleftrightarrow> prefix (L n) (L l)"
  shows "holders L' locks n' = holders L locks n"
  unfolding holders_def using assms by (metis (no_types, lifting) filter_mset_cong)

lemma refs_mono:
  assumes "refs_ok r h L locks" "nodes h a = Some ad" "nodes h b = Some bd" "prefix (L a) (L b)" "a \<noteq> r" "b \<noteq> r"
  shows "ref_count bd \<le> ref_count ad"
  using assms holders_mono[of L a b locks] by (simp add: refs_okD)

lemma refs_free_not_locked:
  assumes "refs_ok r h L locks" "nodes h n = Some nd" "n \<noteq> r" "ref_count nd = 0"
  shows "n \<notin># locks"
proof
  assume "n \<in># locks"
  then have "0 < holders L locks n" unfolding holders_pos_iff by blast
  with assms show False by (simp add: refs_okD)
qed

lemma refs_same_shape:
  assumes "refs_ok r h L locks" "same_shape h h'"
    and "\<And>n nd nd'. nodes h n = Some nd \<Longrightarrow> nodes h' n = Some nd' \<Longrightarrow> n \<noteq> r \<Longrightarrow> ref_count nd' = ref_count nd"
  shows "refs_ok r h' L locks"
proof -
  have "dom (nodes h') = dom (nodes h)" using assms(2) by (rule same_shape_dom)
  moreover have "ref_count nd' = int (holders L locks n)" if "nodes h' n = Some nd'" "n \<noteq> r" for n nd'
    using same_shapeD[OF assms(2) that(1)] assms(1,3) that by (metis refs_count)
  ultimately show ?thesis using assms(1) by (simp add: refs_ok_def)
qed

text \<open>In the split tree the new node lies above exactly the nodes at or below the old one.\<close>

lemma split_top_above:
  assumes ok: "tree_ok ps r h L V" and n: "nodes h n = Some nd" "n \<noteq> r"
    and pos: "0 < pos" "pos < length (nkey nd)" "ps dvd pos"
    and p: "rparent nd = Some p" and l: "nodes h l = Some ld"
  shows "prefix (L p @ take pos (nkey nd)) (L l) \<longleftrightarrow> prefix (L n) (L l)"
proof
  from tree_parent[OF ok n] p obtain pd where pd: "nodes h p = Some pd" "L n = L p @ nkey nd" "nkey nd \<noteq> []"
    "map_of (children pd) (pkey ps (nkey nd)) = Some n" by auto
  show "prefix (L n) (L l) \<Longrightarrow> prefix (L p @ take pos (nkey nd)) (L l)"
    using pd(2) by (metis append_prefixD append_take_drop_id append.assoc)
  assume pre: "prefix (L p @ take pos (nkey nd)) (L l)"
  have ne: "take pos (nkey nd) \<noteq> []" using pos by auto
  have "strict_prefix (L p) (L l)"
    using pre ne by (auto simp: strict_prefix_def prefix_def)
  from strict_prefix_child[OF ok pd(1) l this] obtain c cd where
    c: "nodes h c = Some cd" "map_of (children pd) (pkey ps (nkey cd)) = Some c" "prefix (L c) (L l)"
      "L c = L p @ nkey cd" "nkey cd \<noteq> []" "ps dvd length (nkey cd)" by metis
  have psle: "ps \<le> pos" using pos by (simp add: dvd_imp_le)
  have a: "prefix (take pos (nkey nd)) (drop (length (L p)) (L l))" using pre by (rule prefix_drop_append)
  have b: "prefix (nkey cd) (drop (length (L p)) (L l))"
    using c(3) unfolding c(4) by (rule prefix_drop_append)
  have "ps dvd length (take pos (nkey nd))" using pos by (simp add: min_def)
  from pkey_prefix[OF a b ne c(5) this c(6) tree_ps[OF ok]]
  have "pkey ps (nkey nd) = pkey ps (nkey cd)" using pkey_take[OF tree_ps[OF ok] psle] by simp
  with c pd show "prefix (L n) (L l)" by simp
qed

lemma refs_grows: "grows ps r h L V h' L' V' \<Longrightarrow> refs_ok r h L locks \<Longrightarrow> refs_ok r h' L' locks"
proof (induction rule: grows.induct)
  case (stamp h1 L1 V1 n nd t)
  have "same_shape h1 (h1\<lparr>nodes := (nodes h1)(n \<mapsto> nd\<lparr>timestamp := t\<rparr>)\<rparr>)"
    using stamp.hyps by (intro same_shape_upd) (auto simp: shape_def)
  then show ?case
    by (rule refs_same_shape[OF stamp.IH[OF stamp.prems]]) (use stamp.hyps in \<open>auto split: if_splits\<close>)
next
  case (split h1 L1 V1 n nd pos p pd m now)
  note ok = grows_tree_ok[OF split.hyps(1)] and ih = split.IH[OF split.prems]
  have m: "nodes h1 m = None" using counter_fresh[OF ok] split.hyps(9) by simp
  let ?h = "h1\<lparr>nodes := (nodes h1)(m \<mapsto> split_top ps now n p pos nd,
            p \<mapsto> pd\<lparr>children := AList.update (pkey ps (nkey nd)) m (children pd)\<rparr>,
            n \<mapsto> split_bot m pos nd), counter := Suc m\<rparr>"
  let ?L = "L1(m := L1 p @ take pos (nkey nd))"
  have lm: "l \<noteq> m" if "l \<in># locks" for l using refs_locks[OF ih that] m by auto
  have old: "holders ?L locks x = holders L1 locks x" if "x \<noteq> m" for x
    using lm that by (intro holders_cong) auto
  have new: "holders ?L locks m = holders L1 locks n"
    using lm refs_locks[OF ih] split_top_above[OF ok split.hyps(2-7)]
    by (intro holders_cong) (metis fun_upd_apply)
  have "ref_count xd = int (holders ?L locks x)" if x: "nodes ?h x = Some xd" "x \<noteq> r" for x xd
  proof (cases "x = m")
    case True
    with x split.hyps m have "ref_count xd = ref_count nd" by (auto simp: split_top_def split: if_splits)
    with True new refs_count[OF ih split.hyps(2,3)] show ?thesis by simp
  next
    case False
    with x split.hyps have "\<exists>xd0. nodes h1 x = Some xd0 \<and> ref_count xd = ref_count xd0"
      by (auto simp: split_bot_def split: if_splits)
    with refs_count[OF ih _ x(2)] old[OF False] show ?thesis by auto
  qed
  moreover have "set_mset locks \<subseteq> dom (nodes ?h)" using ih unfolding refs_ok_def by auto
  ultimately show ?case unfolding refs_ok_def by blast
qed simp

lemma refs_add_leaf:
  assumes ok: "tree_ok ps r h L V" and refs: "refs_ok r h L locks" and p: "nodes h p = Some pd"
    and m: "m = counter h" and new: "map_of (children pd) (pkey ps k) = None"
    and k: "k \<noteq> []" "length v = length k" "ps dvd length k"
  shows "refs_ok r (h\<lparr>nodes := (nodes h)(m \<mapsto> leaf_node tic now p k v,
              p \<mapsto> pd\<lparr>children := AList.update (pkey ps k) m (children pd)\<rparr>), counter := Suc m\<rparr>)
           (L(m := L p @ k)) locks" (is "refs_ok r ?h ?L locks")
proof -
  note ok' = add_leaf_tree_ok[OF ok p k new m, of tic now]
  have f: "nodes h m = None" using counter_fresh[OF ok] m by simp
  then have ne: "m \<noteq> p" using p by auto
  have lm: "l \<noteq> m" if "l \<in># locks" for l using refs_locks[OF refs that] f by auto
  have old: "holders ?L locks x = holders L locks x" if "x \<noteq> m" for x
    using lm that by (intro holders_cong) auto
  have top: "nodes ?h m = Some (leaf_node tic now p k v)" using ne by simp
  have "\<not> prefix (?L m) (?L l)" if l: "l \<in># locks" for l
  proof
    assume pre: "prefix (?L m) (?L l)"
    from refs_locks[OF refs l] have "\<exists>ld. nodes ?h l = Some ld" by auto
    then obtain ld where ld: "nodes ?h l = Some ld" ..
    from prefix_up[OF ok' top ld pre] lm[OF l] up_last_child[OF ok' _ _ ld, of m] top
    show False by (auto simp: leaf_node_def)
  qed
  then have new: "holders ?L locks m = 0" using holders_pos_iff[of ?L locks m] by blast
  have "ref_count xd = int (holders ?L locks x)" if x: "nodes ?h x = Some xd" "x \<noteq> r" for x xd
  proof (cases "x = m")
    case True
    with x new ne show ?thesis by (auto simp: leaf_node_def)
  next
    case False
    with x p have "\<exists>xd0. nodes h x = Some xd0 \<and> ref_count xd = ref_count xd0" by (auto split: if_splits)
    with refs_count[OF refs _ x(2)] old[OF False] show ?thesis by auto
  qed
  moreover have "set_mset locks \<subseteq> dom (nodes ?h)" using refs unfolding refs_ok_def by auto
  ultimately show ?thesis by (simp add: refs_ok_def)
qed

lemma refs_unlink:
  assumes refs: "refs_ok r h L locks" and p: "nodes h p = Some pd" "p \<noteq> n" and n: "n \<notin># locks"
  shows "refs_ok r (h\<lparr>nodes := (nodes h)(p \<mapsto> pd\<lparr>children := cs\<rparr>, n := None)\<rparr>) L locks"
  using refs p n unfolding refs_ok_def by (auto split: if_splits)

text \<open>Taking or releasing one lock.\<close>

lemma refs_lock:
  assumes refs: "refs_ok r h L locks" and n: "nodes h n = Some nd" and sh: "same_shape h h'"
    and eff: "\<And>x xd xd'. nodes h x = Some xd \<Longrightarrow> nodes h' x = Some xd' \<Longrightarrow> x \<noteq> r \<Longrightarrow>
      ref_count xd' = ref_count xd + (if x \<in> ancs h r L n then 1 else 0)"
  shows "refs_ok r h' L (add_mset n locks)"
proof -
  have "ref_count xd' = int (holders L (add_mset n locks) x)" if x: "nodes h' x = Some xd'" "x \<noteq> r" for x xd'
  proof -
    from same_shapeD[OF sh x(1)] obtain xd where xd: "nodes h x = Some xd" by blast
    from eff[OF xd x] refs_count[OF refs xd x(2)] xd x(2) show ?thesis by (auto simp: ancs_def)
  qed
  with refs n same_shape_dom[OF sh] show ?thesis by (auto simp: refs_ok_def)
qed

lemma refs_unlock:
  assumes refs: "refs_ok r h L (add_mset n locks)" and sh: "same_shape h h'"
    and eff: "\<And>x xd xd'. nodes h x = Some xd \<Longrightarrow> nodes h' x = Some xd' \<Longrightarrow> x \<noteq> r \<Longrightarrow>
      ref_count xd' = ref_count xd - (if x \<in> ancs h r L n then 1 else 0)"
  shows "refs_ok r h' L locks"
proof -
  have "ref_count xd' = int (holders L locks x)" if x: "nodes h' x = Some xd'" "x \<noteq> r" for x xd'
  proof -
    from same_shapeD[OF sh x(1)] obtain xd where xd: "nodes h x = Some xd" by blast
    from eff[OF xd x] refs_count[OF refs xd x(2)] xd x(2) show ?thesis by (auto simp: ancs_def)
  qed
  with refs same_shape_dom[OF sh] show ?thesis by (auto simp: refs_ok_def)
qed

end
