(* ===== verification/RadixContents.thy ===== *)
theory RadixContents
  imports RadixAccounts
begin

text \<open>
  The abstract contents of a radix tree: the relation between page-aligned token sequences
  and the page indices that hold their KV entries (\<open>cached\<close>), and the multiset of page
  indices the tree owns (\<open>owned\<close>).  \<open>cached\<close> is a partial function; stamps and splits leave
  both alone, a new leaf adds to them, unlinking a leaf takes away what only it held.
\<close>

section \<open>Token sequences and their indices\<close>

definition cached :: "nat \<Rightarrow> store \<Rightarrow> int list \<Rightarrow> int list \<Rightarrow> bool" where
  "cached ps h xs vs \<longleftrightarrow> (\<exists>n t v k. tokens_of h n = Some t \<and> indices_of h n = Some v \<and> ps dvd k \<and>
     k \<le> length t \<and> xs = take k t \<and> vs = take k v)"

lemma tokens_of_dom: "tokens_of h n = Some t \<Longrightarrow> \<exists>nd. nodes h n = Some nd"
  unfolding tokens_of_def by (subst (asm) up_loop.simps) (auto split: bind_splits)

lemma cached_iff:
  assumes ok: "tree_ok ps r h L V"
  shows "cached ps h xs vs \<longleftrightarrow> (\<exists>n nd k. nodes h n = Some nd \<and> ps dvd k \<and> k \<le> length (L n) \<and>
    xs = take k (L n) \<and> vs = take k (V n))"
proof
  assume "cached ps h xs vs"
  then obtain n t v k where n: "tokens_of h n = Some t" "indices_of h n = Some v" "ps dvd k" "k \<le> length t"
    "xs = take k t" "vs = take k v" unfolding cached_def by blast
  from tokens_of_dom[OF n(1)] obtain nd where nd: "nodes h n = Some nd" by blast
  with tokens_of_ok[OF ok nd] indices_of_ok[OF ok nd] n show "\<exists>n nd k. nodes h n = Some nd \<and> ps dvd k \<and>
    k \<le> length (L n) \<and> xs = take k (L n) \<and> vs = take k (V n)" by auto
next
  assume "\<exists>n nd k. nodes h n = Some nd \<and> ps dvd k \<and>
    k \<le> length (L n) \<and> xs = take k (L n) \<and> vs = take k (V n)"
  then show "cached ps h xs vs" unfolding cached_def using tokens_of_ok[OF ok] indices_of_ok[OF ok] by blast
qed

lemma cachedI:
  "tree_ok ps r h L V \<Longrightarrow> nodes h n = Some nd \<Longrightarrow> ps dvd k \<Longrightarrow> k \<le> length (L n) \<Longrightarrow>
     cached ps h (take k (L n)) (take k (V n))"
  using cached_iff[of ps r h L V] by blast

lemma cachedE:
  assumes "cached ps h xs vs" "tree_ok ps r h L V"
  shows "\<exists>n nd k. nodes h n = Some nd \<and> ps dvd k \<and> k \<le> length (L n) \<and> xs = take k (L n) \<and> vs = take k (V n)"
  using assms cached_iff[of ps r h L V] by blast

lemma up_prefix_values:
  assumes "tree_ok ps r h L V" "(m, n) \<in> (up h)\<^sup>*"
  shows "prefix (V n) (V m)"
  using assms(2)
proof (induction rule: rtrancl_induct)
  case (step y z)
  then obtain yd where yd: "nodes h y = Some yd" "rparent yd = Some z" by (auto simp: up_def)
  then have "y \<noteq> r" using tree_root[OF assms(1)] by auto
  from tree_parent[OF assms(1) yd(1) this] yd have "prefix (V z) (V y)" by auto
  with step show ?case by (meson prefix_order.trans)
qed simp

lemma prefix_values:
  "tree_ok ps r h L V \<Longrightarrow> nodes h n = Some nd \<Longrightarrow> nodes h m = Some md \<Longrightarrow> prefix (L n) (L m) \<Longrightarrow> prefix (V n) (V m)"
  using prefix_up up_prefix_values by blast

lemma same_page_values:
  assumes ok: "tree_ok ps r h L V" and a: "nodes h a = Some ad" and b: "nodes h b = Some bd"
    and k: "ps dvd k" "k \<le> length (L a)" "k \<le> length (L b)" "take k (L a) = take k (L b)"
  shows "nodes h p = Some pd \<Longrightarrow> prefix (L p) (L a) \<Longrightarrow> prefix (L p) (L b) \<Longrightarrow> length (L p) \<le> k \<Longrightarrow>
    take k (V a) = take k (V b)"
proof (induction "k - length (L p)" arbitrary: p pd rule: less_induct)
  case less
  show ?case
  proof (cases "length (L p) = k")
    case True
    have "take k (V p) = take k (V a)" "take k (V p) = take k (V b)"
      using True tree_label_value[OF ok less.prems(1)] prefix_values[OF ok less.prems(1) a less.prems(2)]
        prefix_values[OF ok less.prems(1) b less.prems(3)] by (intro take_prefix_eq; simp)+
    then show ?thesis by simp
  next
    case False
    have d: "ps dvd length (L p)" by (rule tree_label_dvd[OF ok less.prems(1)])
    then have ps: "length (L p) + ps \<le> k"
      using False less.prems(4) k(1) dvd_imp_le[of ps "k - length (L p)"] by auto
    from child_of_page[where ids = "L a", OF ok less.prems(1) a less.prems(2) ps k(2) refl refl]
    obtain c and cd :: rnode where c: "map_of (children pd) (pkey ps (drop (length (L p)) (L a))) = Some c"
      "nodes h c = Some cd" "L c = L p @ nkey cd" "prefix (L c) (L a)" by blast
    from child_of_page[OF ok less.prems(1) b less.prems(3) ps k(3) k(4)[symmetric] refl]
    obtain c' and cd' :: rnode where c': "map_of (children pd) (pkey ps (drop (length (L p)) (L a))) = Some c'"
      "L c' = L p @ nkey cd'" "prefix (L c') (L b)" by blast
    from c c' have cb: "prefix (L c) (L b)" by simp
    have ne: "nkey cd \<noteq> []" using tree_child[OF ok less.prems(1) c(1)] c(2) by auto
    show ?thesis
    proof (cases "length (L c) \<le> k")
      case True
      have "0 < length (nkey cd)" using ne by simp
      then have "k - length (L c) < k - length (L p)" using True unfolding c(3) length_append by linarith
      from less.hyps[OF this c(2,4) cb True] show ?thesis .
    next
      case False
      have "take k (V c) = take k (V a)" "take k (V c) = take k (V b)"
        using False tree_label_value[OF ok c(2)] prefix_values[OF ok c(2) a c(4)]
          prefix_values[OF ok c(2) b cb] by (intro take_prefix_eq; simp)+
      then show ?thesis by simp
    qed
  qed
qed

theorem cached_unique:
  assumes ok: "tree_ok ps r h L V" and "cached ps h xs vs" "cached ps h xs vs'"
  shows "vs = vs'"
proof -
  from assms(2) obtain a ad k where a: "nodes h a = Some ad" "ps dvd k" "k \<le> length (L a)"
    "xs = take k (L a)" "vs = take k (V a)" unfolding cached_iff[OF ok] by blast
  from assms(3) obtain b bd k' where b: "nodes h b = Some bd" "k' \<le> length (L b)"
    "xs = take k' (L b)" "vs' = take k' (V b)" unfolding cached_iff[OF ok] by blast
  from a b have "k' = k" by (metis length_take min.absorb2)
  from tree_root[OF ok] obtain rd where "nodes h r = Some rd" by blast
  from same_page_values[OF ok a(1) b(1) a(2,3) _ _ this] a b \<open>k' = k\<close> tree_root_labels(1)[OF ok]
  show ?thesis by simp
qed

lemma cached_node:
  assumes ok: "tree_ok ps r h L V" and n: "nodes h n = Some nd"
  shows "cached ps h (L n) (V n)"
  unfolding cached_iff[OF ok]
  using n tree_label_dvd[OF ok n] tree_label_value[OF ok n]
  by (intro exI[of _ n] exI[of _ nd] exI[of _ "length (L n)"]) simp

lemma cached_length: "tree_ok ps r h L V \<Longrightarrow> cached ps h xs vs \<Longrightarrow> length vs = length xs"
  unfolding cached_iff using tree_label_value by fastforce

lemma cached_take:
  assumes "cached ps h xs vs" "ps dvd k" "k \<le> length xs"
  shows "cached ps h (take k xs) (take k vs)"
proof -
  from assms(1) obtain n t v j where n: "tokens_of h n = Some t" "indices_of h n = Some v" "j \<le> length t"
    "xs = take j t" "vs = take j v" unfolding cached_def by blast
  with assms(2,3) have "take k xs = take k t" "take k vs = take k v" "k \<le> length t"
    by (simp_all add: min.absorb1)
  with n assms(2) show ?thesis unfolding cached_def by blast
qed

lemma cached_grows:
  assumes g: "grows ps r h L V h' L' V'"
  shows "cached ps h' xs vs \<longleftrightarrow> cached ps h xs vs"
proof -
  have ok: "tree_ok ps r h L V" using g by (induction rule: grows.induct)
  note ok' = grows_tree_ok[OF g] and lab = grows_labels[OF g]
  show ?thesis
  proof
    assume "cached ps h' xs vs"
    then obtain n nd k where n: "nodes h' n = Some nd" "ps dvd k" "k \<le> length (L' n)"
      "xs = take k (L' n)" "vs = take k (V' n)" unfolding cached_iff[OF ok'] by blast
    from grows_cover[OF g n(1)] obtain y and yd :: rnode where
      y: "nodes h y = Some yd" "prefix (L' n) (L y)" "prefix (V' n) (V y)" by blast
    have "k \<le> length (L y)" using n(3) prefix_length_le[OF y(2)] by simp
    moreover have "take k (L' n) = take k (L y)" using y(2) n(3) by (rule take_prefix_eq)
    moreover have "take k (V' n) = take k (V y)"
      using y(3) n(3) tree_label_value[OF ok' n(1)] by (intro take_prefix_eq) auto
    ultimately show "cached ps h xs vs" unfolding cached_iff[OF ok] using n y(1) by auto
  next
    assume "cached ps h xs vs"
    then obtain n nd k where n: "nodes h n = Some nd" "ps dvd k" "k \<le> length (L n)"
      "xs = take k (L n)" "vs = take k (V n)" unfolding cached_iff[OF ok] by blast
    from lab n(1) obtain nd' where "nodes h' n = Some nd'" by blast
    moreover have "L' n = L n" "V' n = V n" using lab n(1) by (auto simp: same_labels_def)
    ultimately show "cached ps h' xs vs" using n cachedI[OF ok', of n nd' k] by simp
  qed
qed

lemma cached_same_shape:
  assumes ok: "tree_ok ps r h L V" and sh: "same_shape h h'"
  shows "cached ps h' xs vs \<longleftrightarrow> cached ps h xs vs"
proof -
  note ok' = tree_same_shape[OF ok sh]
  have "(\<exists>nd. nodes h' n = Some nd) \<longleftrightarrow> (\<exists>nd. nodes h n = Some nd)" for n
    using same_shape_dom[OF sh] by blast
  then show ?thesis unfolding cached_iff[OF ok] cached_iff[OF ok'] by metis
qed

lemma cached_add_leaf:
  assumes ok: "tree_ok ps r h L V" and p: "nodes h p = Some pd"
    and k: "k \<noteq> []" "length v = length k" "ps dvd length k"
    and new: "map_of (children pd) (pkey ps k) = None" and m: "m = counter h"
  shows "cached ps (h\<lparr>nodes := (nodes h)(m \<mapsto> leaf_node tic now p k v,
              p \<mapsto> pd\<lparr>children := AList.update (pkey ps k) m (children pd)\<rparr>), counter := Suc m\<rparr>) xs vs \<longleftrightarrow>
    cached ps h xs vs \<or> (\<exists>j. ps dvd j \<and> j \<le> length (L p @ k) \<and> xs = take j (L p @ k) \<and> vs = take j (V p @ v))"
    (is "cached ps ?h xs vs \<longleftrightarrow> _")
proof -
  note ok' = add_leaf_tree_ok[OF ok p k new m, of tic now]
  have f: "nodes h m = None" using counter_fresh[OF ok] m by simp
  have ne: "m \<noteq> p" using f p by auto
  show ?thesis
  proof
    assume "cached ps ?h xs vs"
    from cachedE[OF this ok'] obtain n nd j where n: "nodes ?h n = Some nd" "ps dvd j"
      "j \<le> length ((L(m := L p @ k)) n)" "xs = take j ((L(m := L p @ k)) n)" "vs = take j ((V(m := V p @ v)) n)"
      by blast
    show "cached ps h xs vs \<or> (\<exists>j. ps dvd j \<and> j \<le> length (L p @ k) \<and> xs = take j (L p @ k) \<and> vs = take j (V p @ v))"
    proof (cases "n = m")
      case True
      with n have "ps dvd j \<and> j \<le> length (L p @ k) \<and> xs = take j (L p @ k) \<and> vs = take j (V p @ v)" by simp
      then show ?thesis by blast
    next
      case False
      with n p have "\<exists>nd. nodes h n = Some nd" by (auto split: if_splits)
      then obtain nd0 where "nodes h n = Some nd0" ..
      from cachedI[OF ok this n(2)] n False show ?thesis by simp
    qed
  next
    assume "cached ps h xs vs \<or> (\<exists>j. ps dvd j \<and> j \<le> length (L p @ k) \<and> xs = take j (L p @ k) \<and> vs = take j (V p @ v))"
    then show "cached ps ?h xs vs"
    proof
      assume "cached ps h xs vs"
      from cachedE[OF this ok] obtain n nd j where n: "nodes h n = Some nd" "ps dvd j" "j \<le> length (L n)"
        "xs = take j (L n)" "vs = take j (V n)" by blast
      then have nm: "n \<noteq> m" using f by auto
      from n p have "\<exists>nd. nodes ?h n = Some nd" by auto
      then obtain nd' where "nodes ?h n = Some nd'" ..
      from cachedI[OF ok' this n(2)] n nm show ?thesis by simp
    next
      assume "\<exists>j. ps dvd j \<and> j \<le> length (L p @ k) \<and> xs = take j (L p @ k) \<and> vs = take j (V p @ v)"
      then obtain j where j: "ps dvd j" "j \<le> length (L p @ k)" "xs = take j (L p @ k)" "vs = take j (V p @ v)" by blast
      have "nodes ?h m = Some (leaf_node tic now p k v)" using ne by simp
      from cachedI[OF ok' this j(1)] j show ?thesis by simp
    qed
  qed
qed

lemma cached_unlink:
  assumes ok: "tree_ok ps r h L V" and ok': "tree_ok ps r h' L V" and d: "dom (nodes h') \<subseteq> dom (nodes h)"
  shows "cached ps h' xs vs \<Longrightarrow> cached ps h xs vs"
  unfolding cached_iff[OF ok] cached_iff[OF ok'] using d by blast

section \<open>The indices the tree owns\<close>

definition owned :: "store \<Rightarrow> int multiset" where
  "owned h = (\<Sum>n\<in>dom (nodes h). mset (nvalue (the (nodes h n))))"

lemma owned_fresh:
  assumes "finite (dom (nodes h))" "nodes h n = None"
  shows "owned (h\<lparr>nodes := (nodes h)(n \<mapsto> nd)\<rparr>) = owned h + mset (nvalue nd)"
proof -
  have "(\<Sum>x\<in>dom (nodes h). mset (nvalue (the (((nodes h)(n \<mapsto> nd)) x)))) = owned h"
    unfolding owned_def using assms(2) by (intro sum.cong) auto
  with assms show ?thesis by (simp add: owned_def domIff)
qed

lemma owned_drop:
  assumes "finite (dom (nodes h))" "nodes h n = Some nd"
  shows "owned h = owned (h\<lparr>nodes := (nodes h)(n := None)\<rparr>) + mset (nvalue nd)"
proof -
  have "(\<Sum>x\<in>dom (nodes h) - {n}. mset (nvalue (the (((nodes h)(n := None)) x)))) =
      (\<Sum>x\<in>dom (nodes h) - {n}. mset (nvalue (the (nodes h x))))"
    by (intro sum.cong) auto
  then show ?thesis
    using assms sum.remove[of "dom (nodes h)" n "\<lambda>x. mset (nvalue (the (nodes h x)))"]
    by (simp add: owned_def domI)
qed

lemma owned_change:
  assumes "finite (dom (nodes h))" "nodes h n = Some nd"
  shows "owned (h\<lparr>nodes := (nodes h)(n \<mapsto> nd')\<rparr>) + mset (nvalue nd) = owned h + mset (nvalue nd')"
proof -
  let ?h0 = "h\<lparr>nodes := (nodes h)(n := None)\<rparr>"
  have "owned (?h0\<lparr>nodes := (nodes ?h0)(n \<mapsto> nd')\<rparr>) = owned ?h0 + mset (nvalue nd')"
    using assms by (intro owned_fresh) auto
  then show ?thesis using owned_drop[OF assms] by simp
qed

lemma owned_same:
  assumes "finite (dom (nodes h))" "nodes h n = Some nd" "nvalue nd' = nvalue nd"
  shows "owned (h\<lparr>nodes := (nodes h)(n \<mapsto> nd')\<rparr>) = owned h"
  using owned_change[OF assms(1,2), of nd'] assms(3) by simp

lemma owned_counter [simp]: "owned (h\<lparr>counter := c\<rparr>) = owned h"
  by (simp add: owned_def)

lemma owned_same_shape: "same_shape h h' \<Longrightarrow> owned h' = owned h"
  unfolding owned_def using same_shape_dom[of h h']
  by (intro sum.cong) (auto dest!: same_shapeD2 dest: shape_eqD)

lemma grows_owned: "grows ps r h L V h' L' V' \<Longrightarrow> owned h' = owned h"
proof (induction rule: grows.induct)
  case (stamp h1 L1 V1 n nd t)
  with owned_same[OF tree_finite[OF grows_tree_ok[OF stamp.hyps(1)]] stamp.hyps(2)] show ?case by simp
next
  case (split h1 L1 V1 n nd pos p pd m now)
  note ok = grows_tree_ok[OF split.hyps(1)]
  have m: "nodes h1 m = None" using counter_fresh[OF ok] split.hyps(9) by simp
  have ne: "p \<noteq> n" "m \<noteq> p" "m \<noteq> n"
    using tree_parent[OF ok split.hyps(2,3)] split.hyps(2,7,8) m by auto
  let ?cs = "AList.update (pkey ps (nkey nd)) m (children pd)"
  let ?h1 = "h1\<lparr>nodes := (nodes h1)(m \<mapsto> split_top ps now n p pos nd)\<rparr>"
  let ?h2 = "?h1\<lparr>nodes := (nodes ?h1)(p \<mapsto> pd\<lparr>children := ?cs\<rparr>)\<rparr>"
  let ?h3 = "?h2\<lparr>nodes := (nodes ?h2)(n \<mapsto> split_bot m pos nd)\<rparr>"
  have fin: "finite (dom (nodes h1))" by (rule tree_finite[OF ok])
  have "owned ?h1 = owned h1 + mset (take pos (nvalue nd))"
    using owned_fresh[OF fin m, of "split_top ps now n p pos nd"] by (simp add: split_top_def)
  moreover have "owned ?h2 = owned ?h1"
    using fin split.hyps(8) ne by (intro owned_same) auto
  moreover have "owned ?h3 + mset (nvalue nd) = owned ?h2 + mset (drop pos (nvalue nd))"
    using owned_change[of ?h2 n nd "split_bot m pos nd"] fin split.hyps(2) ne by (simp add: split_bot_def)
  moreover have "mset (nvalue nd) = mset (take pos (nvalue nd)) + mset (drop pos (nvalue nd))"
    by (metis append_take_drop_id mset_append)
  ultimately have "owned ?h3 = owned h1" by (simp add: ac_simps)
  then have "owned (?h3\<lparr>counter := Suc m\<rparr>) = owned h1" by (simp only: owned_counter)
  with split.IH show ?case by simp
qed simp

lemma add_leaf_owned:
  assumes ok: "tree_ok ps r h L V" and p: "nodes h p = Some pd" and m: "m = counter h"
  shows "owned (h\<lparr>nodes := (nodes h)(m \<mapsto> leaf_node tic now p k v, p \<mapsto> pd\<lparr>children := cs\<rparr>), counter := c\<rparr>) =
    owned h + mset v"
proof -
  let ?h1 = "h\<lparr>nodes := (nodes h)(m \<mapsto> leaf_node tic now p k v)\<rparr>"
  have f: "nodes h m = None" using counter_fresh[OF ok] m by simp
  then have ne: "m \<noteq> p" using p by auto
  have "owned (?h1\<lparr>nodes := (nodes ?h1)(p \<mapsto> pd\<lparr>children := cs\<rparr>)\<rparr>) = owned ?h1"
    using p ne tree_finite[OF ok] by (intro owned_same) auto
  then have "owned (?h1\<lparr>nodes := (nodes ?h1)(p \<mapsto> pd\<lparr>children := cs\<rparr>)\<rparr>\<lparr>counter := c\<rparr>) = owned ?h1"
    by (simp only: owned_counter)
  with owned_fresh[OF tree_finite[OF ok] f, of "leaf_node tic now p k v"] show ?thesis
    by (simp add: leaf_node_def)
qed

lemma unlink_owned:
  assumes ok: "tree_ok ps r h L V" and n: "nodes h n = Some nd" and p: "nodes h p = Some pd" "p \<noteq> n"
  shows "owned h = owned (h\<lparr>nodes := (nodes h)(p \<mapsto> pd\<lparr>children := cs\<rparr>, n := None)\<rparr>) + mset (nvalue nd)"
proof -
  let ?h1 = "h\<lparr>nodes := (nodes h)(p \<mapsto> pd\<lparr>children := cs\<rparr>)\<rparr>"
  have "owned ?h1 = owned h" using p tree_finite[OF ok] by (intro owned_same) auto
  moreover have "owned ?h1 = owned (?h1\<lparr>nodes := (nodes ?h1)(n := None)\<rparr>) + mset (nvalue nd)"
    using n p tree_finite[OF ok] by (intro owned_drop) auto
  ultimately show ?thesis by simp
qed

section \<open>Sums of a node attribute\<close>

definition nsum :: "(rnode \<Rightarrow> 'a::comm_monoid_add) \<Rightarrow> store \<Rightarrow> 'a" where
  "nsum f h = (\<Sum>n\<in>dom (nodes h). f (the (nodes h n)))"

lemma nsum_fresh:
  assumes "finite (dom (nodes h))" "nodes h n = None"
  shows "nsum f (h\<lparr>nodes := (nodes h)(n \<mapsto> nd)\<rparr>) = nsum f h + f nd"
proof -
  have "(\<Sum>x\<in>dom (nodes h). f (the (((nodes h)(n \<mapsto> nd)) x))) = nsum f h"
    unfolding nsum_def using assms(2) by (intro sum.cong) auto
  with assms show ?thesis by (simp add: nsum_def domIff add.commute)
qed

lemma nsum_drop:
  assumes "finite (dom (nodes h))" "nodes h n = Some nd"
  shows "nsum f h = nsum f (h\<lparr>nodes := (nodes h)(n := None)\<rparr>) + f nd"
proof -
  have "(\<Sum>x\<in>dom (nodes h) - {n}. f (the (((nodes h)(n := None)) x))) = (\<Sum>x\<in>dom (nodes h) - {n}. f (the (nodes h x)))"
    by (intro sum.cong) auto
  then show ?thesis
    using assms sum.remove[of "dom (nodes h)" n "\<lambda>x. f (the (nodes h x))"]
    by (simp add: nsum_def domI add.commute)
qed

lemma nsum_change:
  assumes "finite (dom (nodes h))" "nodes h n = Some nd"
  shows "nsum f (h\<lparr>nodes := (nodes h)(n \<mapsto> nd')\<rparr>) + f nd = nsum f h + f nd'"
proof -
  let ?h0 = "h\<lparr>nodes := (nodes h)(n := None)\<rparr>"
  have "nsum f (?h0\<lparr>nodes := (nodes ?h0)(n \<mapsto> nd')\<rparr>) = nsum f ?h0 + f nd'"
    using assms by (intro nsum_fresh) auto
  then show ?thesis using nsum_drop[OF assms, of f] by (simp add: ac_simps)
qed

lemma nsum_same:
  assumes "finite (dom (nodes h))" "nodes h n = Some nd" "f nd' = f nd"
  shows "nsum f (h\<lparr>nodes := (nodes h)(n \<mapsto> nd')\<rparr>) = nsum f h"
  unfolding nsum_def using assms by (intro sum.cong) auto

lemma nsum_counter [simp]: "nsum f (h\<lparr>counter := c\<rparr>) = nsum f h"
  by (simp add: nsum_def)

lemma nsum_cong:
  assumes "dom (nodes h') = dom (nodes h)"
    "\<And>n nd nd'. nodes h n = Some nd \<Longrightarrow> nodes h' n = Some nd' \<Longrightarrow> f nd' = f nd"
  shows "nsum f h' = nsum f h"
  unfolding nsum_def
proof (rule sum.cong)
  show "dom (nodes h') = dom (nodes h)" by (rule assms(1))
  fix n assume "n \<in> dom (nodes h)"
  moreover then have "n \<in> dom (nodes h')" using assms(1) by simp
  ultimately show "f (the (nodes h' n)) = f (the (nodes h n))" using assms(2)[of n] by auto
qed

lemma nsum_card:
  "finite (dom (nodes h)) \<Longrightarrow>
     nsum (\<lambda>nd. if g nd then 1 else 0 :: int) h = int (card {n. \<exists>nd. nodes h n = Some nd \<and> g nd})"
proof -
  assume fin: "finite (dom (nodes h))"
  have "{n. \<exists>nd. nodes h n = Some nd \<and> g nd} = {n \<in> dom (nodes h). g (the (nodes h n))}" by auto
  then show ?thesis by (simp add: nsum_def sum.inter_filter[OF fin, symmetric])
qed

text \<open>An attribute of the snapshot only: a split leaves it at the lower half.\<close>

definition snap_attr :: "(rnode \<Rightarrow> 'a::zero) \<Rightarrow> bool" where
  "snap_attr f \<longleftrightarrow> (\<forall>a. mamba_value a = None \<longrightarrow> f a = 0) \<and>
     (\<forall>a b. mamba_value a = mamba_value b \<longrightarrow> mamba_ref_count a = mamba_ref_count b \<longrightarrow> f a = f b)"

lemma snap_attrD:
  "snap_attr f \<Longrightarrow> mamba_value a = None \<Longrightarrow> f a = 0"
  "snap_attr f \<Longrightarrow> mamba_value a = mamba_value b \<Longrightarrow> mamba_ref_count a = mamba_ref_count b \<Longrightarrow> f a = f b"
  unfolding snap_attr_def by blast+

lemma grows_nsum:
  "grows ps r h L V h' L' V' \<Longrightarrow> snap_attr f \<Longrightarrow> nsum f h' = nsum f h"
proof (induction rule: grows.induct)
  case (stamp h1 L1 V1 n nd t)
  have "f (nd\<lparr>timestamp := t\<rparr>) = f nd" by (rule snap_attrD(2)[OF stamp.prems]) simp_all
  with nsum_same[OF tree_finite[OF grows_tree_ok[OF stamp.hyps(1)]] stamp.hyps(2)] stamp show ?case by metis
next
  case (split h1 L1 V1 n nd pos p pd m now)
  note ok = grows_tree_ok[OF split.hyps(1)]
  have m: "nodes h1 m = None" using counter_fresh[OF ok] split.hyps(9) by simp
  have ne: "p \<noteq> n" "m \<noteq> p" "m \<noteq> n"
    using tree_parent[OF ok split.hyps(2,3)] split.hyps(2,7,8) m by auto
  let ?cs = "AList.update (pkey ps (nkey nd)) m (children pd)"
  let ?h1 = "h1\<lparr>nodes := (nodes h1)(m \<mapsto> split_top ps now n p pos nd)\<rparr>"
  let ?h2 = "?h1\<lparr>nodes := (nodes ?h1)(p \<mapsto> pd\<lparr>children := ?cs\<rparr>)\<rparr>"
  let ?h3 = "?h2\<lparr>nodes := (nodes ?h2)(n \<mapsto> split_bot m pos nd)\<rparr>"
  have fin: "finite (dom (nodes h1))" by (rule tree_finite[OF ok])
  have f: "f (split_top ps now n p pos nd) = 0" "f (split_bot m pos nd) = f nd" "f (pd\<lparr>children := ?cs\<rparr>) = f pd"
    by (rule snap_attrD(1)[OF split.prems] snap_attrD(2)[OF split.prems]; simp add: split_top_def split_bot_def)+
  have "nsum f ?h1 = nsum f h1" using nsum_fresh[OF fin m, of f "split_top ps now n p pos nd"] f(1) by simp
  moreover have "nsum f ?h2 = nsum f ?h1" using fin split.hyps(8) ne f(3) by (intro nsum_same) auto
  moreover have "nsum f ?h3 = nsum f ?h2" using fin split.hyps(2) ne f(2) by (intro nsum_same) auto
  ultimately have "nsum f (?h3\<lparr>counter := Suc m\<rparr>) = nsum f h1" by (simp only: nsum_counter)
  with split.IH split.prems show ?case by simp
qed simp

lemma add_leaf_nsum:
  assumes ok: "tree_ok ps r h L V" and p: "nodes h p = Some pd" and m: "m = counter h" and f: "snap_attr f"
  shows "nsum f (h\<lparr>nodes := (nodes h)(m \<mapsto> leaf_node tic now p k v, p \<mapsto> pd\<lparr>children := cs\<rparr>), counter := c\<rparr>) = nsum f h"
proof -
  let ?h1 = "h\<lparr>nodes := (nodes h)(m \<mapsto> leaf_node tic now p k v)\<rparr>"
  have fr: "nodes h m = None" using counter_fresh[OF ok] m by simp
  then have ne: "m \<noteq> p" using p by auto
  have g: "f (leaf_node tic now p k v) = 0" "f (pd\<lparr>children := cs\<rparr>) = f pd"
    by (rule snap_attrD(1)[OF f] snap_attrD(2)[OF f]; simp add: leaf_node_def)+
  have "nsum f (?h1\<lparr>nodes := (nodes ?h1)(p \<mapsto> pd\<lparr>children := cs\<rparr>)\<rparr>) = nsum f ?h1"
    using p ne tree_finite[OF ok] g(2) by (intro nsum_same) auto
  then have "nsum f (?h1\<lparr>nodes := (nodes ?h1)(p \<mapsto> pd\<lparr>children := cs\<rparr>)\<rparr>\<lparr>counter := c\<rparr>) = nsum f ?h1"
    by (simp only: nsum_counter)
  with nsum_fresh[OF tree_finite[OF ok] fr, of f "leaf_node tic now p k v"] g(1) show ?thesis by simp
qed

lemma unlink_nsum:
  assumes ok: "tree_ok ps r h L V" and n: "nodes h n = Some nd" and p: "nodes h p = Some pd" "p \<noteq> n" and f: "snap_attr f"
  shows "nsum f h = nsum f (h\<lparr>nodes := (nodes h)(p \<mapsto> pd\<lparr>children := cs\<rparr>, n := None)\<rparr>) + f nd"
proof -
  let ?h1 = "h\<lparr>nodes := (nodes h)(p \<mapsto> pd\<lparr>children := cs\<rparr>)\<rparr>"
  have g: "f (pd\<lparr>children := cs\<rparr>) = f pd" by (rule snap_attrD(2)[OF f]) simp_all
  have "nsum f ?h1 = nsum f h" using p tree_finite[OF ok] g by (intro nsum_same) auto
  moreover have "nsum f ?h1 = nsum f (?h1\<lparr>nodes := (nodes ?h1)(n := None)\<rparr>) + f nd"
    using n p tree_finite[OF ok] by (intro nsum_drop) auto
  ultimately show ?thesis by simp
qed

end
