(* ===== verification/Heapq.thy ===== *)
theory Heapq
  imports Prelude
begin

text \<open>
  The binary heap of Python's standard library module \<^verbatim>\<open>heapq\<close>, which every
  eviction loop of \<^verbatim>\<open>python/freetoken/kvcache\<close> uses: the list operations are the
  ones of the reference implementation (the hole moves down to a leaf, then the moved item
  sifts back up), so ties between equal timestamps fall the way they do in the code.
  Items are compared through a key \<open>ts\<close>, as \<open>RadixTreeNode.__lt__\<close> compares
  timestamps.  The locale \<open>min_queue\<close> is the interface the eviction loops rely on.
\<close>

section \<open>The interface\<close>

locale min_queue =
  fixes inv :: "'a list \<Rightarrow> bool"
    and mk :: "'a list \<Rightarrow> 'a list"
    and push :: "'a list \<Rightarrow> 'a \<Rightarrow> 'a list"
    and pop :: "'a list \<Rightarrow> ('a \<times> 'a list) option"
    and key :: "'a \<Rightarrow> int"
  assumes inv_mk: "inv (mk xs)"
    and mset_mk: "mset (mk xs) = mset xs"
    and inv_push: "inv q \<Longrightarrow> inv (push q x)"
    and mset_push: "mset (push q x) = add_mset x (mset q)"
    and pop_None: "pop q = None \<longleftrightarrow> q = []"
    and inv_pop: "inv q \<Longrightarrow> pop q = Some (x, q') \<Longrightarrow> inv q'"
    and mset_pop: "pop q = Some (x, q') \<Longrightarrow> mset q = add_mset x (mset q')"
    and pop_least: "inv q \<Longrightarrow> pop q = Some (x, q') \<Longrightarrow> y \<in> set q \<Longrightarrow> key x \<le> key y"
begin

lemma set_mk: "set (mk xs) = set xs"
  by (metis mset_mk set_mset_mset)

lemma set_push: "set (push q x) = insert x (set q)"
  by (metis mset_push set_mset_add_mset_insert set_mset_mset)

lemma set_pop: "pop q = Some (x, q') \<Longrightarrow> set q = insert x (set q')"
  by (metis mset_pop set_mset_add_mset_insert set_mset_mset)

lemma length_pop: "pop q = Some (x, q') \<Longrightarrow> length q = Suc (length q')"
  by (metis mset_pop size_add_mset size_mset)

lemma distinct_mk: "distinct (mk xs) = distinct xs"
  by (metis mset_mk mset_eq_imp_distinct_iff)

lemma distinct_push: "distinct (push q x) \<longleftrightarrow> x \<notin> set q \<and> distinct q"
  by (metis distinct.simps(2) mset.simps(2) mset_eq_imp_distinct_iff mset_push)

lemma distinct_pop: "pop q = Some (x, q') \<Longrightarrow> distinct q \<longleftrightarrow> x \<notin> set q' \<and> distinct q'"
  by (metis distinct.simps(2) mset.simps(2) mset_eq_imp_distinct_iff mset_pop)

lemma pop_ex: "q \<noteq> [] \<Longrightarrow> \<exists>x q'. pop q = Some (x, q')"
  using pop_None[of q] by (cases "pop q") auto

end

section \<open>The operations\<close>

text \<open>\<open>par i\<close> is \<open>(i - 1) >> 1\<close>, the parent of position \<open>i\<close>.\<close>

definition par :: "nat \<Rightarrow> nat" where
  "par i = (i - 1) div 2"

lemma par_less: "0 < i \<Longrightarrow> par i < i"
  unfolding par_def by linarith

lemma par_le: "par i \<le> i"
  unfolding par_def by linarith

lemma par_children: "0 < i \<Longrightarrow> par i = p \<longleftrightarrow> i = 2 * p + 1 \<or> i = 2 * p + 2"
  unfolding par_def by linarith

lemma par_child [simp]: "par (2 * p + 1) = p" "par (2 * p + 2) = p" "par (Suc (2 * p)) = p" "par (Suc (Suc (2 * p))) = p"
  by (simp_all add: par_def)

function siftdown_loop :: "('a \<Rightarrow> int) \<Rightarrow> 'a list \<Rightarrow> nat \<Rightarrow> nat \<Rightarrow> 'a \<Rightarrow> 'a list" where
  "siftdown_loop ts h startpos pos newitem =
     (if startpos < pos \<and> ts newitem < ts (h ! par pos)
      then siftdown_loop ts (h[pos := h ! par pos]) startpos (par pos) newitem
      else h[pos := newitem])"
  by pat_completeness auto
termination
  by (relation "measure (\<lambda>(_, _, _, pos, _). pos)") (auto intro: par_less)

definition siftdown :: "('a \<Rightarrow> int) \<Rightarrow> 'a list \<Rightarrow> nat \<Rightarrow> nat \<Rightarrow> 'a list" where
  "siftdown ts h startpos pos = siftdown_loop ts h startpos pos (h ! pos)"

definition min_child :: "('a \<Rightarrow> int) \<Rightarrow> 'a list \<Rightarrow> nat \<Rightarrow> nat" where
  "min_child ts h pos =
     (if 2 * pos + 2 < length h \<and> \<not> ts (h ! (2 * pos + 1)) < ts (h ! (2 * pos + 2))
      then 2 * pos + 2 else 2 * pos + 1)"

function siftup_loop :: "('a \<Rightarrow> int) \<Rightarrow> 'a list \<Rightarrow> nat \<Rightarrow> 'a list \<times> nat" where
  "siftup_loop ts h pos =
     (if 2 * pos + 1 < length h
      then siftup_loop ts (h[pos := h ! min_child ts h pos]) (min_child ts h pos)
      else (h, pos))"
  by pat_completeness auto
termination
  by (relation "measure (\<lambda>(_, h, pos). length h - pos)") (auto simp: min_child_def)

definition siftup :: "('a \<Rightarrow> int) \<Rightarrow> 'a list \<Rightarrow> nat \<Rightarrow> 'a list" where
  "siftup ts h pos =
     (let (h', pos') = siftup_loop ts h pos in siftdown ts (h'[pos' := h ! pos]) pos pos')"

definition heapify :: "('a \<Rightarrow> int) \<Rightarrow> 'a list \<Rightarrow> 'a list" where
  "heapify ts xs = foldl (siftup ts) xs (rev [0..<length xs div 2])"

definition heappush :: "('a \<Rightarrow> int) \<Rightarrow> 'a list \<Rightarrow> 'a \<Rightarrow> 'a list" where
  "heappush ts h x = siftdown ts (h @ [x]) 0 (length h)"

definition heappop :: "('a \<Rightarrow> int) \<Rightarrow> 'a list \<Rightarrow> ('a \<times> 'a list) option" where
  "heappop ts h =
     (if h = [] then None
      else if butlast h = [] then Some (last h, [])
      else Some (hd h, siftup ts ((butlast h)[0 := last h]) 0))"

declare siftdown_loop.simps [simp del] siftup_loop.simps [simp del]

section \<open>Contents are kept\<close>

lemma mset_move:
  assumes "i < length xs" "j < length xs"
  shows "mset ((xs[i := xs ! j])[j := x]) = mset (xs[i := x])"
proof -
  have "mset ((xs[i := xs ! j])[j := x]) = add_mset x (mset (xs[i := xs ! j]) - {#xs[i := xs ! j] ! j#})"
    using assms by (simp add: mset_update)
  also have "xs[i := xs ! j] ! j = xs ! j"
    using assms by (simp add: nth_list_update)
  finally show ?thesis using assms by (simp add: mset_update)
qed

lemma siftdown_loop_keeps:
  "pos < length h \<Longrightarrow> mset (siftdown_loop ts h s pos x) = mset (h[pos := x])
     \<and> length (siftdown_loop ts h s pos x) = length h"
proof (induction ts h s pos x rule: siftdown_loop.induct)
  case (1 ts h s pos x)
  then show ?case
    using mset_move[of pos h "par pos" x] le_less_trans[OF par_le, of pos "length h"]
    by (subst (1 2) siftdown_loop.simps) auto
qed

lemma siftdown_keeps:
  "pos < length h \<Longrightarrow> mset (siftdown ts h s pos) = mset h \<and> length (siftdown ts h s pos) = length h"
  using siftdown_loop_keeps[of pos h ts s "h ! pos"] by (simp add: siftdown_def)

lemma min_child_range:
  "2 * pos + 1 < length h \<Longrightarrow> pos < min_child ts h pos \<and> min_child ts h pos < length h"
  by (auto simp: min_child_def)

lemma siftup_loop_keeps:
  "pos < length h \<Longrightarrow> siftup_loop ts h pos = (h', pos') \<Longrightarrow>
     pos' < length h' \<and> length h' = length h \<and> mset (h'[pos' := x]) = mset (h[pos := x])"
proof (induction ts h pos arbitrary: h' pos' rule: siftup_loop.induct)
  case (1 ts h pos)
  show ?case
  proof (cases "2 * pos + 1 < length h")
    case True
    let ?c = "min_child ts h pos"
    have "siftup_loop ts (h[pos := h ! ?c]) ?c = (h', pos')"
      using "1.prems"(2) True by (subst (asm) siftup_loop.simps) simp
    with "1.IH" True "1.prems"(1) min_child_range[OF True]
    show ?thesis using mset_move[of pos h ?c x] by simp
  next
    case False
    with "1.prems" show ?thesis by (subst (asm) siftup_loop.simps) auto
  qed
qed

lemma siftup_keeps:
  "pos < length h \<Longrightarrow> mset (siftup ts h pos) = mset h \<and> length (siftup ts h pos) = length h"
proof -
  assume pos: "pos < length h"
  obtain h' pos' where l: "siftup_loop ts h pos = (h', pos')" by (cases "siftup_loop ts h pos")
  note k = siftup_loop_keeps[OF pos l, of "h ! pos"]
  then have "mset (siftdown ts (h'[pos' := h ! pos]) pos pos') = mset (h'[pos' := h ! pos])"
    using siftdown_keeps[of pos' "h'[pos' := h ! pos]" ts pos] by simp
  with k l show ?thesis
    using siftdown_keeps[of pos' "h'[pos' := h ! pos]" ts pos] by (simp add: siftup_def)
qed

lemma foldl_siftup_keeps:
  "\<forall>i \<in> set is. i < length h \<Longrightarrow>
     mset (foldl (siftup ts) h is) = mset h \<and> length (foldl (siftup ts) h is) = length h"
  by (induction "is" arbitrary: h) (auto simp: siftup_keeps)

lemma mset_heapify: "mset (heapify ts xs) = mset xs"
  unfolding heapify_def by (rule foldl_siftup_keeps[THEN conjunct1]) auto

lemma mset_heappush: "mset (heappush ts h x) = add_mset x (mset h)"
  unfolding heappush_def using siftdown_keeps[of "length h" "h @ [x]" ts 0] by simp

lemma mset_heappop: "heappop ts h = Some (x, h') \<Longrightarrow> mset h = add_mset x (mset h')"
proof -
  assume pop: "heappop ts h = Some (x, h')"
  then have ne: "h \<noteq> []" by (auto simp: heappop_def)
  then obtain a where h: "h = butlast h @ [a]" by (metis append_butlast_last_id)
  show ?thesis
  proof (cases "butlast h")
    case Nil
    with pop ne h show ?thesis by (auto simp: heappop_def)
  next
    case (Cons y ys)
    with h have "h = y # ys @ [a]" by simp
    moreover from this pop have "x = y" "h' = siftup ts (a # ys) 0"
      by (auto simp: heappop_def butlast_append)
    ultimately show ?thesis using siftup_keeps[of 0 "a # ys" ts] by simp
  qed
qed

section \<open>The heap order\<close>

text \<open>
  \<open>heap_from ts s xs\<close>: every edge of the implicit tree whose parent is at position
  \<open>s\<close> or later is ordered.  \<open>below s i\<close>: position \<open>i\<close> lies in the subtree of \<open>s\<close>.
\<close>

definition heap_from :: "('a \<Rightarrow> int) \<Rightarrow> nat \<Rightarrow> 'a list \<Rightarrow> bool" where
  "heap_from ts s xs \<longleftrightarrow>
     (\<forall>i. 0 < i \<and> i < length xs \<and> s \<le> par i \<longrightarrow> ts (xs ! par i) \<le> ts (xs ! i))"

inductive below :: "nat \<Rightarrow> nat \<Rightarrow> bool" where
  self: "below s s"
| child: "0 < i \<Longrightarrow> below s (par i) \<Longrightarrow> below s i"

lemma below_le: "below s i \<Longrightarrow> s \<le> i"
  by (induction rule: below.induct) (auto intro: par_le le_trans)

lemma below_parent: "below s i \<Longrightarrow> s < i \<Longrightarrow> below s (par i)"
  by (erule below.cases) auto

lemma below_parent_le: "below s i \<Longrightarrow> s < i \<Longrightarrow> s \<le> par i"
  by (intro below_le below_parent)

lemma heap_fromD: "heap_from ts s xs \<Longrightarrow> 0 < i \<Longrightarrow> i < length xs \<Longrightarrow> s \<le> par i \<Longrightarrow> ts (xs ! par i) \<le> ts (xs ! i)"
  by (simp add: heap_from_def)

text \<open>The list with a hole at \<open>pos\<close>, on the way down: all edges but those leaving the hole.\<close>

definition hole_inv :: "('a \<Rightarrow> int) \<Rightarrow> nat \<Rightarrow> 'a list \<Rightarrow> nat \<Rightarrow> bool" where
  "hole_inv ts s xs pos \<longleftrightarrow>
     (\<forall>i. 0 < i \<longrightarrow> i < length xs \<longrightarrow> s \<le> par i \<longrightarrow> par i \<noteq> pos \<longrightarrow> ts (xs ! par i) \<le> ts (xs ! i)) \<and>
     (s < pos \<longrightarrow> (\<forall>i. 0 < i \<longrightarrow> i < length xs \<longrightarrow> par i = pos \<longrightarrow> ts (xs ! par pos) \<le> ts (xs ! i)))"

text \<open>On the way up, with \<open>v\<close> at \<open>pos\<close>: all edges but the one into \<open>pos\<close>.\<close>

definition rise_inv :: "('a \<Rightarrow> int) \<Rightarrow> nat \<Rightarrow> 'a list \<Rightarrow> nat \<Rightarrow> 'a \<Rightarrow> bool" where
  "rise_inv ts s xs pos v \<longleftrightarrow>
     (\<forall>i. 0 < i \<longrightarrow> i < length xs \<longrightarrow> s \<le> par i \<longrightarrow> par i \<noteq> pos \<longrightarrow> i \<noteq> pos \<longrightarrow> ts (xs ! par i) \<le> ts (xs ! i)) \<and>
     (\<forall>i. 0 < i \<longrightarrow> i < length xs \<longrightarrow> par i = pos \<longrightarrow> ts v \<le> ts (xs ! i)) \<and>
     (s < pos \<longrightarrow> (\<forall>i. 0 < i \<longrightarrow> i < length xs \<longrightarrow> par i = pos \<longrightarrow> ts (xs ! par pos) \<le> ts (xs ! i)))"

lemma min_child_least:
  assumes "0 < i" "i < length h" "par i = pos"
  shows "ts (h ! min_child ts h pos) \<le> ts (h ! i)"
proof -
  have "i = 2 * pos + 1 \<or> i = 2 * pos + 2" using assms par_children by simp
  with \<open>i < length h\<close> show ?thesis by (auto simp: min_child_def)
qed

lemma min_child_parent [simp]: "par (min_child ts h pos) = pos" "0 < min_child ts h pos"
  by (auto simp: min_child_def)

lemma hole_step:
  assumes inv: "hole_inv ts s h pos" and c: "2 * pos + 1 < length h" and sp: "s \<le> pos"
  shows "hole_inv ts s (h[pos := h ! min_child ts h pos]) (min_child ts h pos)"
proof -
  define c where "c = min_child ts h pos"
  let ?h = "h[pos := h ! c]"
  have rng: "pos < c" "c < length h" using min_child_range[OF c, of ts] by (auto simp: c_def)
  have par: "par c = pos" "0 < c" by (auto simp: c_def)
  have old: "ts (h ! par i) \<le> ts (h ! i)" if "0 < i" "i < length h" "s \<le> par i" "par i \<noteq> pos" for i
    using inv that by (simp add: hole_inv_def)
  have grand: "ts (h ! par pos) \<le> ts (h ! i)" if "s < pos" "0 < i" "i < length h" "par i = pos" for i
    using inv that by (simp add: hole_inv_def)
  have e1: "ts (?h ! par i) \<le> ts (?h ! i)"
    if i: "0 < i" "i < length h" "s \<le> par i" "par i \<noteq> c" for i
  proof -
    have less: "par i < i" using i(1) by (rule par_less)
    consider "par i = pos" | "i = pos" | "par i \<noteq> pos" "i \<noteq> pos" by blast
    then show ?thesis
    proof cases
      case 1
      with less i rng min_child_least[of i h pos ts] show ?thesis by (simp add: c_def)
    next
      case 2
      with less i rng par grand[of c] show ?thesis by simp
    next
      case 3
      with old[of i] i show ?thesis by simp
    qed
  qed
  have e2: "ts (?h ! par c) \<le> ts (?h ! i)" if i: "0 < i" "i < length h" "par i = c" for i
  proof -
    have "i \<noteq> pos" using par_less[OF i(1)] i(3) rng by linarith
    then show ?thesis using i old[of i] rng par sp by simp
  qed
  from e1 e2 show ?thesis by (simp add: hole_inv_def c_def[symmetric])
qed

lemma siftup_loop_hole:
  "hole_inv ts s h pos \<Longrightarrow> below s pos \<Longrightarrow> pos < length h \<Longrightarrow> siftup_loop ts h pos = (h', pos') \<Longrightarrow>
     hole_inv ts s h' pos' \<and> below s pos' \<and> length h' \<le> 2 * pos' + 1"
proof (induction ts h pos arbitrary: h' pos' rule: siftup_loop.induct)
  case (1 ts h pos)
  show ?case
  proof (cases "2 * pos + 1 < length h")
    case True
    let ?c = "min_child ts h pos"
    have "siftup_loop ts (h[pos := h ! ?c]) ?c = (h', pos')"
      using "1.prems"(4) True by (subst (asm) siftup_loop.simps) simp
    moreover have "hole_inv ts s (h[pos := h ! ?c]) ?c"
      using hole_step[OF "1.prems"(1) True below_le[OF "1.prems"(2)]] .
    moreover have "below s ?c"
      by (rule below.child) (use "1.prems"(2) in simp_all)
    ultimately show ?thesis using "1.IH"[OF True] min_child_range[OF True, of ts] by simp
  next
    case False
    with "1.prems" show ?thesis by (subst (asm) siftup_loop.simps) auto
  qed
qed

lemma rise_stop:
  assumes inv: "rise_inv ts s h pos v" and pos: "pos < length h" "s \<le> pos"
    and le: "s < pos \<Longrightarrow> ts (h ! par pos) \<le> ts v"
  shows "heap_from ts s (h[pos := v])"
  unfolding heap_from_def
proof (intro allI impI)
  fix i assume i: "0 < i \<and> i < length (h[pos := v]) \<and> s \<le> par i"
  then have less: "par i < i" by (simp add: par_less)
  consider "i = pos" | "par i = pos" | "par i \<noteq> pos" "i \<noteq> pos" by blast
  then show "ts (h[pos := v] ! par i) \<le> ts (h[pos := v] ! i)"
  proof cases
    case 1
    with i less le pos show ?thesis by simp
  next
    case 2
    with i less inv pos show ?thesis by (simp add: rise_inv_def)
  next
    case 3
    with i inv show ?thesis by (simp add: rise_inv_def)
  qed
qed

lemma rise_step:
  assumes inv: "rise_inv ts s h pos v" and pos: "pos < length h" "s < pos" "below s pos"
    and lt: "ts v < ts (h ! par pos)"
  shows "rise_inv ts s (h[pos := h ! par pos]) (par pos) v"
proof -
  define p where "p = par pos"
  let ?h = "h[pos := h ! p]"
  have pp: "p < pos" "s \<le> p" using pos par_less[of pos] below_parent_le[of s pos] by (auto simp: p_def)
  have old: "ts (h ! par i) \<le> ts (h ! i)"
    if "0 < i" "i < length h" "s \<le> par i" "par i \<noteq> pos" "i \<noteq> pos" for i
    using inv that by (simp add: rise_inv_def)
  have grand: "ts (h ! p) \<le> ts (h ! i)" if "0 < i" "i < length h" "par i = pos" for i
    using inv that pos by (simp add: rise_inv_def p_def)
  have sib: "ts (h ! p) \<le> ts (?h ! i)" if "0 < i" "i < length h" "par i = p" for i
    using that old[of i] pos pp by (cases "i = pos") simp_all
  have e1: "ts (?h ! par i) \<le> ts (?h ! i)"
    if i: "0 < i" "i < length h" "s \<le> par i" "par i \<noteq> p" "i \<noteq> p" for i
  proof (cases "par i = pos")
    case True
    with i pos grand[of i] par_less[OF i(1)] show ?thesis by simp
  next
    case False
    then have "i \<noteq> pos" using i(4) by (auto simp: p_def)
    with False i old[of i] show ?thesis by simp
  qed
  have e2: "ts v \<le> ts (?h ! i)" if "0 < i" "i < length h" "par i = p" for i
    using sib[OF that] lt by (simp add: p_def)
  have e3: "ts (?h ! par p) \<le> ts (?h ! i)"
    if i: "s < p" "0 < i" "i < length h" "par i = p" for i
  proof -
    have "below s p" using pos by (simp add: p_def below_parent)
    then have "s \<le> par p" using i(1) by (simp add: below_parent_le)
    moreover have "0 < p" using i(1) by simp
    moreover have "par p < p" using \<open>0 < p\<close> by (rule par_less)
    ultimately have "ts (h ! par p) \<le> ts (h ! p)" using old[of p] pp pos by simp
    also have "\<dots> \<le> ts (?h ! i)" using sib[of i] i by simp
    finally show ?thesis using \<open>par p < p\<close> pp by simp
  qed
  from e1 e2 e3 show ?thesis by (simp add: rise_inv_def p_def[symmetric])
qed

lemma siftdown_loop_heap:
  "rise_inv ts s h pos v \<Longrightarrow> pos < length h \<Longrightarrow> below s pos \<Longrightarrow> heap_from ts s (siftdown_loop ts h s pos v)"
proof (induction ts h s pos v rule: siftdown_loop.induct)
  case (1 ts h s pos v)
  show ?case
  proof (cases "s < pos \<and> ts v < ts (h ! par pos)")
    case True
    have "rise_inv ts s (h[pos := h ! par pos]) (par pos) v"
      using rise_step[OF "1.prems"(1,2) _ "1.prems"(3)] True by simp
    moreover have "par pos < length h" using "1.prems"(2) par_le[of pos] by linarith
    moreover have "below s (par pos)" using "1.prems"(3) True by (simp add: below_parent)
    ultimately have "heap_from ts s (siftdown_loop ts (h[pos := h ! par pos]) s (par pos) v)"
      using "1.IH"[OF True] by simp
    then show ?thesis using True by (subst siftdown_loop.simps) simp
  next
    case False
    then have "heap_from ts s (h[pos := v])"
      using rise_stop[OF "1.prems"(1,2) below_le[OF "1.prems"(3)]] by linarith
    with False show ?thesis by (subst siftdown_loop.simps) auto
  qed
qed

lemma siftup_heap:
  assumes "heap_from ts (Suc s) h" "s < length h"
  shows "heap_from ts s (siftup ts h s)"
proof -
  obtain h' pos' where l: "siftup_loop ts h s = (h', pos')" by (cases "siftup_loop ts h s")
  have "hole_inv ts s h s" using assms(1) by (simp add: hole_inv_def heap_from_def)
  from siftup_loop_hole[OF this below.self assms(2) l]
  have hole: "hole_inv ts s h' pos'" "below s pos'" "length h' \<le> 2 * pos' + 1" by auto
  have len: "pos' < length h'" using siftup_loop_keeps[OF assms(2) l, of "h ! s"] by simp
  have noc: "par i \<noteq> pos'" if "0 < i" "i < length h'" for i
    using that hole(3) par_children[of i pos'] by auto
  have "rise_inv ts s (h'[pos' := h ! s]) pos' (h ! s)"
    unfolding rise_inv_def
  proof (intro conjI allI impI)
    fix i assume i: "0 < i" "i < length (h'[pos' := h ! s])" "s \<le> par i" "par i \<noteq> pos'" "i \<noteq> pos'"
    with hole(1) show "ts (h'[pos' := h ! s] ! par i) \<le> ts (h'[pos' := h ! s] ! i)"
      by (simp add: hole_inv_def)
  qed (use noc in auto)
  from siftdown_loop_heap[OF this _ hole(2)] len l show ?thesis
    by (simp add: siftup_def siftdown_def)
qed

lemma foldl_siftup_heap:
  "heap_from ts n h \<Longrightarrow> n \<le> length h \<Longrightarrow> heap_from ts 0 (foldl (siftup ts) h (rev [0..<n]))"
proof (induction n arbitrary: h)
  case (Suc n)
  then have "heap_from ts n (siftup ts h n)" by (intro siftup_heap) auto
  moreover have "n \<le> length (siftup ts h n)" using Suc.prems(2) siftup_keeps[of n h ts] by simp
  ultimately show ?case using Suc.IH by simp
qed simp

lemma heap_heapify: "heap_from ts 0 (heapify ts xs)"
proof -
  have "heap_from ts (length xs div 2) xs"
    unfolding heap_from_def
  proof (intro allI impI)
    fix i assume "0 < i \<and> i < length xs \<and> length xs div 2 \<le> par i"
    then have False unfolding par_def by linarith
    then show "ts (xs ! par i) \<le> ts (xs ! i)" ..
  qed
  then show ?thesis unfolding heapify_def by (intro foldl_siftup_heap) auto
qed

lemma below_0: "below 0 i"
proof (induction i rule: less_induct)
  case (less i)
  then show ?case by (cases "i = 0") (auto intro: below.intros par_less)
qed

lemma heap_heappush: "heap_from ts 0 h \<Longrightarrow> heap_from ts 0 (heappush ts h x)"
proof -
  assume heap: "heap_from ts 0 h"
  have p: "par i < length h" if "0 < i" "i < Suc (length h)" for i
    using par_less[OF that(1)] that(2) by linarith
  have "rise_inv ts 0 (h @ [x]) (length h) x"
    unfolding rise_inv_def
  proof (intro conjI allI impI)
    fix i assume "0 < i" "i < length (h @ [x])" "0 \<le> par i" "par i \<noteq> length h" "i \<noteq> length h"
    with heap_fromD[OF heap, of i] p[of i] show "ts ((h @ [x]) ! par i) \<le> ts ((h @ [x]) ! i)"
      by (simp add: nth_append)
  next
    fix i assume "0 < i" "i < length (h @ [x])" "par i = length h"
    with p[of i] show "ts x \<le> ts ((h @ [x]) ! i)" by simp
  next
    fix i assume "0 < i" "i < length (h @ [x])" "par i = length h"
    with p[of i] show "ts ((h @ [x]) ! par (length h)) \<le> ts ((h @ [x]) ! i)" by simp
  qed
  from siftdown_loop_heap[OF this _ below_0] show ?thesis
    by (simp add: heappush_def siftdown_def)
qed

lemma heap_root_least: "heap_from ts 0 h \<Longrightarrow> i < length h \<Longrightarrow> ts (h ! 0) \<le> ts (h ! i)"
proof (induction i rule: less_induct)
  case (less i)
  show ?case
  proof (cases "i = 0")
    case False
    then have "par i < i" by (simp add: par_less)
    with less have "ts (h ! 0) \<le> ts (h ! par i)" by simp
    also have "\<dots> \<le> ts (h ! i)" using heap_fromD[OF less.prems(1)] False less.prems(2) by simp
    finally show ?thesis .
  qed simp
qed

lemma heap_heappop: "heap_from ts 0 h \<Longrightarrow> heappop ts h = Some (x, h') \<Longrightarrow> heap_from ts 0 h'"
proof -
  assume heap: "heap_from ts 0 h" and pop: "heappop ts h = Some (x, h')"
  show ?thesis
  proof (cases "butlast h = []")
    case True
    with pop show ?thesis by (auto simp: heappop_def heap_from_def split: if_splits)
  next
    case False
    with pop have h': "h' = siftup ts ((butlast h)[0 := last h]) 0"
      by (auto simp: heappop_def split: if_splits)
    have "heap_from ts (Suc 0) ((butlast h)[0 := last h])"
      unfolding heap_from_def
    proof (intro allI impI)
      fix i assume i: "0 < i \<and> i < length ((butlast h)[0 := last h]) \<and> Suc 0 \<le> par i"
      then have "par i < i" by (simp add: par_less)
      moreover have "i < length h" using i by (simp, linarith)
      ultimately show "ts ((butlast h)[0 := last h] ! par i) \<le> ts ((butlast h)[0 := last h] ! i)"
        using i heap_fromD[OF heap, of i] by (simp add: nth_butlast)
    qed
    then show ?thesis unfolding h' by (rule siftup_heap) (use False length_greater_0_conv in fastforce)
  qed
qed

lemma heappop_least:
  "heap_from ts 0 h \<Longrightarrow> heappop ts h = Some (x, h') \<Longrightarrow> y \<in> set h \<Longrightarrow> ts x \<le> ts y"
proof -
  assume heap: "heap_from ts 0 h" and pop: "heappop ts h = Some (x, h')" and y: "y \<in> set h"
  from y obtain i where i: "i < length h" "y = h ! i" by (auto simp: in_set_conv_nth)
  have "x = h ! 0"
  proof (cases "butlast h = []")
    case True
    with i have "length h = 1" using length_butlast[of h] by (cases h) auto
    then obtain a where "h = [a]" by (cases h) auto
    with pop show ?thesis by (simp add: heappop_def)
  next
    case False
    with pop show ?thesis by (cases h) (auto simp: heappop_def split: if_splits)
  qed
  with heap_root_least[OF heap i(1)] i(2) show ?thesis by simp
qed

interpretation hq: min_queue "heap_from ts 0" "heapify ts" "heappush ts" "heappop ts" ts
  for ts :: "'a \<Rightarrow> int"
proof unfold_locales
  show "heappop ts q = None \<longleftrightarrow> q = []" for q :: "'a list"
    by (simp add: heappop_def)
qed (auto intro: heap_heapify mset_heapify heap_heappush mset_heappush heap_heappop mset_heappop heappop_least)

end
