(* ===== verification/RadixCache.thy ===== *)
theory RadixCache
  imports RadixContents Heapq
begin

text \<open>
  The plain KV prefix cache of \<^verbatim>\<open>kvcache/radix_cache.py\<close> (\<open>RadixPrefixCache\<close>) and the
  no-reuse cache of \<^verbatim>\<open>kvcache/naive_cache.py\<close>.  The state is the node store, the root and
  the two token counters; handles are pairs of the matched length and a node.  The
  invariant \<open>rc_ok\<close> is stated for a multiset of outstanding locks.
\<close>

section \<open>State and operations\<close>

record handle =
  cached_len :: nat
  hnode :: nat

record size_info =
  si_evictable :: int
  si_protected :: int

definition total_size :: "size_info \<Rightarrow> int" where
  "total_size s = si_evictable s + si_protected s"

record radix_cache =
  rc_page_size :: nat
  rc_store :: store
  rc_root :: nat
  rc_evictable :: int
  rc_protected :: int

definition rc_init :: "nat \<Rightarrow> int \<Rightarrow> nat \<Rightarrow> radix_cache option" where
  "rc_init page_size now cnt = do {
     let (h, r) = new_node None now \<lparr>nodes = Map.empty, counter = cnt\<rparr>;
     h \<leftarrow> upd_node r (\<lambda>nd. nd\<lparr>ref_count := 1\<rparr>) h;
     Some \<lparr>rc_page_size = page_size, rc_store = h, rc_root = r, rc_evictable = 0, rc_protected = 0\<rparr> }"

text \<open>\<open>RadixCacheHandle.get_matched_indices\<close>: \<open>torch.cat\<close> of no tensors raises.\<close>

definition get_matched_indices :: "store \<Rightarrow> handle \<Rightarrow> int list option" where
  "get_matched_indices h hdl = do {
     vs \<leftarrow> path_values h (hnode hdl);
     _ \<leftarrow> py_assert (vs \<noteq> []);
     Some (concat vs) }"

definition rc_unlock_step :: "nat \<Rightarrow> radix_cache \<Rightarrow> radix_cache option" where
  "rc_unlock_step n c = do {
     h \<leftarrow> upd_node n (\<lambda>nd. nd\<lparr>ref_count := ref_count nd - 1\<rparr>) (rc_store c);
     nd \<leftarrow> nodes h n;
     _ \<leftarrow> py_assert (ref_count nd \<ge> 0);
     let c = c\<lparr>rc_store := h\<rparr>;
     Some (if ref_count nd = 0
           then c\<lparr>rc_evictable := rc_evictable c + int (nlength nd),
                  rc_protected := rc_protected c - int (nlength nd)\<rparr>
           else c) }"

definition rc_lock_step :: "nat \<Rightarrow> radix_cache \<Rightarrow> radix_cache option" where
  "rc_lock_step n c = do {
     nd \<leftarrow> nodes (rc_store c) n;
     let c = (if ref_count nd = 0
              then c\<lparr>rc_evictable := rc_evictable c - int (nlength nd),
                     rc_protected := rc_protected c + int (nlength nd)\<rparr>
              else c);
     h \<leftarrow> upd_node n (\<lambda>nd. nd\<lparr>ref_count := ref_count nd + 1\<rparr>) (rc_store c);
     Some (c\<lparr>rc_store := h\<rparr>) }"

definition rc_lock_handle :: "handle \<Rightarrow> bool \<Rightarrow> radix_cache \<Rightarrow> radix_cache option" where
  "rc_lock_handle hdl unlock c =
     (if unlock then up_loop rc_store rc_unlock_step (hnode hdl) c
      else up_loop rc_store rc_lock_step (hnode hdl) c)"

definition rc_tree_walk :: "int list \<Rightarrow> int \<Rightarrow> radix_cache \<Rightarrow> (radix_cache \<times> nat \<times> nat) option" where
  "rc_tree_walk input_ids tic c = do {
     (h, node, prefix_len) \<leftarrow> walk_loop (rc_page_size c) tic input_ids (rc_store c) (rc_root c) 0;
     Some (c\<lparr>rc_store := h\<rparr>, node, prefix_len) }"

definition rc_match_prefix :: "int list \<Rightarrow> int \<Rightarrow> radix_cache \<Rightarrow> (radix_cache \<times> handle) option" where
  "rc_match_prefix input_ids tic c = do {
     (c, node, prefix_len) \<leftarrow> rc_tree_walk input_ids tic c;
     Some (c, \<lparr>cached_len = prefix_len, hnode = node\<rparr>) }"

text \<open>\<open>InsertResult\<close>: the length found in the cache and the handle of the inserted prefix.\<close>

definition rc_insert_prefix ::
  "int list \<Rightarrow> int list \<Rightarrow> int \<Rightarrow> int \<Rightarrow> radix_cache \<Rightarrow> (radix_cache \<times> nat \<times> handle) option" where
  "rc_insert_prefix input_ids indices tic now c = do {
     let insert_len = align_down (length input_ids) (rc_page_size c);
     let input_ids = take insert_len input_ids;
     let indices = take insert_len indices;
     (c, node, prefix_len) \<leftarrow> rc_tree_walk input_ids tic c;
     if prefix_len \<noteq> insert_len then do {
       (h, m) \<leftarrow> add_leaf (rc_page_size c) None now node (drop prefix_len input_ids)
                    (drop prefix_len indices) (rc_store c);
       nd \<leftarrow> nodes h m;
       Some (c\<lparr>rc_store := h, rc_evictable := rc_evictable c + int (nlength nd)\<rparr>,
             prefix_len, \<lparr>cached_len = insert_len, hnode = m\<rparr>) }
     else Some (c, prefix_len, \<lparr>cached_len = insert_len, hnode = node\<rparr>) }"

definition rc_collect_leave_nodes :: "radix_cache \<Rightarrow> nat list option" where
  "rc_collect_leave_nodes c =
     dfs_loop (\<lambda>nd. is_leaf nd \<and> ref_count nd = 0) (rc_store c) [rc_root c] []"

text \<open>
  The eviction loop.  Nothing is stamped while it runs, so \<open>ts\<close>, the order \<open>__lt__\<close> gives
  the heap, is read once.
\<close>

partial_function (option) rc_evict_loop ::
  "int \<Rightarrow> (nat \<Rightarrow> int) \<Rightarrow> nat list \<Rightarrow> int list list \<Rightarrow> int \<Rightarrow> radix_cache \<Rightarrow>
     (radix_cache \<times> int list list) option" where
  "rc_evict_loop need ts leave evicted evicted_size c =
     (if evicted_size < need then do {
        _ \<leftarrow> py_assert (leave \<noteq> []);
        (node, leave) \<leftarrow> heappop ts leave;
        nd \<leftarrow> nodes (rc_store c) node;
        _ \<leftarrow> py_assert (ref_count nd = 0 \<and> is_leaf nd \<and> \<not> is_root nd);
        (h, parent) \<leftarrow> unlink (rc_page_size c) node (rc_store c);
        pd \<leftarrow> nodes h parent;
        rc_evict_loop need ts
          (if is_leaf pd \<and> ref_count pd = 0 then heappush ts leave parent else leave)
          (evicted @ [nvalue nd]) (evicted_size + int (nlength nd))
          (c\<lparr>rc_store := h, rc_evictable := rc_evictable c - int (nlength nd)\<rparr>) }
      else Some (c, evicted))"

declare rc_evict_loop.simps [code]

definition rc_evict :: "int \<Rightarrow> radix_cache \<Rightarrow> (radix_cache \<times> int list) option" where
  "rc_evict need c =
     (if need = 0 then Some (c, [])
      else do {
        _ \<leftarrow> py_assert (need \<le> rc_evictable c);
        leave \<leftarrow> rc_collect_leave_nodes c;
        let ts = timestamp_of (rc_store c);
        (c, evicted) \<leftarrow> rc_evict_loop need ts (heapify ts leave) [] 0 c;
        _ \<leftarrow> py_assert (evicted \<noteq> []);
        Some (c, concat evicted) })"

definition rc_size_info :: "radix_cache \<Rightarrow> size_info" where
  "rc_size_info c = \<lparr>si_evictable = rc_evictable c, si_protected = rc_protected c\<rparr>"

section \<open>The invariant\<close>

definition free_ref :: "rnode \<Rightarrow> bool" where
  "free_ref nd \<longleftrightarrow> ref_count nd = 0"

definition held_ref :: "rnode \<Rightarrow> bool" where
  "held_ref nd \<longleftrightarrow> ref_count nd \<noteq> 0"

lemma stable_ref [simp]: "stable free_ref" "stable held_ref"
  by (auto intro!: stableI simp: free_ref_def held_ref_def)

definition root_held :: "nat \<Rightarrow> store \<Rightarrow> bool" where
  "root_held r h \<longleftrightarrow> (\<exists>rd. nodes h r = Some rd \<and> ref_count rd = 1)"

definition rc_inv :: "radix_cache \<Rightarrow> (nat \<Rightarrow> int list) \<Rightarrow> (nat \<Rightarrow> int list) \<Rightarrow> nat multiset \<Rightarrow> bool" where
  "rc_inv c L V locks \<longleftrightarrow>
     tree_ok (rc_page_size c) (rc_root c) (rc_store c) L V \<and>
     refs_ok (rc_root c) (rc_store c) L locks \<and> root_held (rc_root c) (rc_store c) \<and>
     rc_evictable c = weigh (rc_root c) free_ref (rc_store c) \<and>
     rc_protected c = weigh (rc_root c) held_ref (rc_store c)"

definition rc_ok :: "radix_cache \<Rightarrow> nat multiset \<Rightarrow> bool" where
  "rc_ok c locks \<longleftrightarrow> (\<exists>L V. rc_inv c L V locks)"

lemma rc_invD:
  assumes "rc_inv c L V locks"
  shows rc_tree: "tree_ok (rc_page_size c) (rc_root c) (rc_store c) L V"
    and rc_refs: "refs_ok (rc_root c) (rc_store c) L locks"
    and rc_held: "root_held (rc_root c) (rc_store c)"
    and rc_ev: "rc_evictable c = weigh (rc_root c) free_ref (rc_store c)"
    and rc_pr: "rc_protected c = weigh (rc_root c) held_ref (rc_store c)"
  using assms by (auto simp: rc_inv_def)

lemma root_held_same:
  "root_held r h \<Longrightarrow> (\<And>rd. nodes h r = Some rd \<Longrightarrow> \<exists>rd'. nodes h' r = Some rd' \<and> ref_count rd' = ref_count rd) \<Longrightarrow>
     root_held r h'"
  unfolding root_held_def by metis

lemma root_held_grows: "grows ps r h L V h' L' V' \<Longrightarrow> root_held r h \<Longrightarrow> root_held r h'"
proof (induction rule: grows.induct)
  case (stamp h1 L1 V1 n nd t)
  then show ?case by (auto simp: root_held_def)
next
  case (split h1 L1 V1 n nd pos p pd m now)
  note ok = grows_tree_ok[OF split.hyps(1)]
  have "m \<noteq> r" using counter_fresh[OF ok] tree_root[OF ok] split.hyps(9) by auto
  with split show ?case by (auto simp: root_held_def)
qed

section \<open>Locking\<close>

text \<open>The loop state after the nodes of \<open>X\<close> are done: their counts moved by \<open>d\<close>, the totals true.\<close>

definition lock_mid :: "radix_cache \<Rightarrow> int \<Rightarrow> nat set \<Rightarrow> radix_cache \<Rightarrow> bool" where
  "lock_mid c0 d X c \<longleftrightarrow> rc_page_size c = rc_page_size c0 \<and> rc_root c = rc_root c0 \<and>
     rc_evictable c = weigh (rc_root c) free_ref (rc_store c) \<and>
     rc_protected c = weigh (rc_root c) held_ref (rc_store c) \<and>
     (\<forall>n. nodes (rc_store c) n =
        map_option (\<lambda>nd. nd\<lparr>ref_count := ref_count nd + (if n \<in> X then d else 0)\<rparr>) (nodes (rc_store c0) n))"

lemma lock_mid_shape: "lock_mid c0 d X c \<Longrightarrow> counter (rc_store c) = counter (rc_store c0) \<Longrightarrow>
    same_shape (rc_store c0) (rc_store c)"
  by (auto simp: lock_mid_def same_shape_def option.map_comp comp_def shape_def [abs_def])

lemma lock_mid_upd:
  assumes mid: "lock_mid c0 d X c" and x: "nodes (rc_store c0) x = Some xd" "x \<noteq> rc_root c0" "x \<notin> X"
    and fin: "finite (dom (nodes (rc_store c)))"
    and h: "h = (rc_store c)\<lparr>nodes := (nodes (rc_store c))(x \<mapsto> xd\<lparr>ref_count := ref_count xd + d\<rparr>)\<rparr>"
    and ev: "ev = rc_evictable c + (if ref_count xd + d = 0 then int (nlength xd) else 0)
               - (if ref_count xd = 0 then int (nlength xd) else 0)"
    and pr: "pr = rc_protected c + (if ref_count xd + d \<noteq> 0 then int (nlength xd) else 0)
               - (if ref_count xd \<noteq> 0 then int (nlength xd) else 0)"
  shows "lock_mid c0 d (insert x X) (c\<lparr>rc_store := h, rc_evictable := ev, rc_protected := pr\<rparr>)"
proof -
  have xc: "nodes (rc_store c) x = Some xd" using mid x by (simp add: lock_mid_def)
  have "rc_root c = rc_root c0" using mid by (simp add: lock_mid_def)
  with weigh_change[OF fin xc] x mid show ?thesis
    by (auto simp: lock_mid_def h ev pr free_ref_def held_ref_def nlength_def)
qed

lemma rc_lock_step_ok:
  assumes "lock_mid c0 1 X c" "nodes (rc_store c0) x = Some xd" "x \<noteq> rc_root c0" "x \<notin> X"
    "finite (dom (nodes (rc_store c)))" "0 \<le> ref_count xd"
  shows "\<exists>c'. rc_lock_step x c = Some c' \<and> lock_mid c0 1 (insert x X) c' \<and>
    counter (rc_store c') = counter (rc_store c)"
proof -
  have xc: "nodes (rc_store c) x = Some xd" using assms by (simp add: lock_mid_def)
  from lock_mid_upd[OF assms(1-5) refl refl refl] xc assms(6) show ?thesis
    by (cases "ref_count xd = 0"; cases c) (simp_all add: rc_lock_step_def Let_def upd_node_Some)
qed

lemma rc_unlock_step_ok:
  assumes "lock_mid c0 (-1) X c" "nodes (rc_store c0) x = Some xd" "x \<noteq> rc_root c0" "x \<notin> X"
    "finite (dom (nodes (rc_store c)))" "0 < ref_count xd"
  shows "\<exists>c'. rc_unlock_step x c = Some c' \<and> lock_mid c0 (-1) (insert x X) c' \<and>
    counter (rc_store c') = counter (rc_store c)"
proof -
  have xc: "nodes (rc_store c) x = Some xd" using assms by (simp add: lock_mid_def)
  from lock_mid_upd[OF assms(1-5) refl refl refl] xc assms(6) show ?thesis
    by (cases "ref_count xd = 1")
      (simp_all add: rc_unlock_step_def Let_def upd_node_Some py_assert_def nlength_def)
qed

lemma lock_mid_0: "rc_inv c L V locks \<Longrightarrow> lock_mid c d {} c"
  by (simp add: lock_mid_def rc_inv_def option.map_ident)

lemma lock_mid_ref:
  assumes mid: "lock_mid c d X c'" and r: "rc_root c \<notin> X" and inv: "rc_inv c L V locks"
    and cnt: "counter (rc_store c') = counter (rc_store c)"
    and refs: "refs_ok (rc_root c) (rc_store c') L locks'"
  shows "rc_inv c' L V locks'"
proof -
  have sh: "same_shape (rc_store c) (rc_store c')" by (rule lock_mid_shape[OF mid cnt])
  have "root_held (rc_root c) (rc_store c')"
    using rc_held[OF inv] mid r by (auto simp: root_held_def lock_mid_def)
  with tree_same_shape[OF rc_tree[OF inv] sh] refs mid show ?thesis
    by (simp add: rc_inv_def lock_mid_def)
qed

lemma rc_step_counter:
  "rc_lock_step x c = Some c' \<Longrightarrow> same_shape (rc_store c) (rc_store c')"
  "rc_unlock_step x c = Some c' \<Longrightarrow> same_shape (rc_store c) (rc_store c')"
  unfolding rc_lock_step_def rc_unlock_step_def Let_def
  by (auto split: bind_splits if_splits dest!: upd_nodeD simp: same_shape_def shape_def)

lemma rc_lock_inv:
  assumes inv: "rc_inv c L V locks" and n: "nodes (rc_store c) (hnode h) = Some nd"
  shows "\<exists>c'. rc_lock_handle h False c = Some c' \<and> rc_inv c' L V (add_mset (hnode h) locks) \<and>
    lock_mid c 1 (ancs (rc_store c) (rc_root c) L (hnode h)) c' \<and> same_shape (rc_store c) (rc_store c')"
proof -
  let ?h = "rc_store c" and ?r = "rc_root c"
  note ok = rc_tree[OF inv]
  have "\<exists>c'. up_loop rc_store rc_lock_step (hnode h) c = Some c' \<and> same_shape ?h (rc_store c') \<and>
    lock_mid c 1 (ancs ?h ?r L (hnode h)) c'"
  proof (rule up_loop_rule[where I = "lock_mid c 1" and sto = rc_store, OF ok n same_shape_refl lock_mid_0[OF inv]])
    fix x X s assume x: "x \<in> ancs ?h ?r L (hnode h)" "x \<notin> X" and sh: "same_shape ?h (rc_store s)" and mid: "lock_mid c 1 X s"
    from x obtain xd where xd: "nodes ?h x = Some xd" "x \<noteq> ?r" by (auto simp: ancs_def)
    have fin: "finite (dom (nodes (rc_store s)))" by (rule tree_finite[OF tree_same_shape[OF ok sh]])
    have "0 \<le> ref_count xd" using refs_count[OF rc_refs[OF inv] xd] by simp
    from rc_lock_step_ok[OF mid xd x(2) fin this] show
      "\<exists>s'. rc_lock_step x s = Some s' \<and> same_shape ?h (rc_store s') \<and> lock_mid c 1 (insert x X) s'"
      using sh rc_step_counter(1) same_shape_trans by blast
  qed (metis rc_step_counter(1) same_shape_trans)
  then obtain c' where c': "up_loop rc_store rc_lock_step (hnode h) c = Some c'" "same_shape ?h (rc_store c')"
    "lock_mid c 1 (ancs ?h ?r L (hnode h)) c'" by blast
  have "refs_ok ?r (rc_store c') L (add_mset (hnode h) locks)"
    by (rule refs_lock[OF rc_refs[OF inv] n c'(2)]) (use c'(3) in \<open>auto simp: lock_mid_def\<close>)
  then have "rc_inv c' L V (add_mset (hnode h) locks)"
    using c' by (intro lock_mid_ref[OF c'(3) _ inv]) (auto simp: ancs_def same_shape_def)
  with c' show ?thesis by (auto simp: rc_lock_handle_def)
qed

lemma rc_unlock_inv:
  assumes inv: "rc_inv c L V (add_mset (hnode h) locks)"
  shows "\<exists>c'. rc_lock_handle h True c = Some c' \<and> rc_inv c' L V locks \<and>
    lock_mid c (-1) (ancs (rc_store c) (rc_root c) L (hnode h)) c' \<and> same_shape (rc_store c) (rc_store c')"
proof -
  let ?h = "rc_store c" and ?r = "rc_root c"
  note ok = rc_tree[OF inv]
  from refs_locks[OF rc_refs[OF inv], of "hnode h"] obtain nd where n: "nodes ?h (hnode h) = Some nd" by auto
  have "\<exists>c'. up_loop rc_store rc_unlock_step (hnode h) c = Some c' \<and> same_shape ?h (rc_store c') \<and>
    lock_mid c (-1) (ancs ?h ?r L (hnode h)) c'"
  proof (rule up_loop_rule[where I = "lock_mid c (-1)" and sto = rc_store, OF ok n same_shape_refl lock_mid_0[OF inv]])
    fix x X s assume x: "x \<in> ancs ?h ?r L (hnode h)" "x \<notin> X" and sh: "same_shape ?h (rc_store s)" and mid: "lock_mid c (-1) X s"
    from x obtain xd where xd: "nodes ?h x = Some xd" "x \<noteq> ?r" by (auto simp: ancs_def)
    have fin: "finite (dom (nodes (rc_store s)))" by (rule tree_finite[OF tree_same_shape[OF ok sh]])
    have "0 < ref_count xd" using refs_count[OF rc_refs[OF inv] xd] x(1) by (simp add: ancs_def)
    from rc_unlock_step_ok[OF mid xd x(2) fin this] show
      "\<exists>s'. rc_unlock_step x s = Some s' \<and> same_shape ?h (rc_store s') \<and> lock_mid c (-1) (insert x X) s'"
      using sh rc_step_counter(2) same_shape_trans by blast
  qed (metis rc_step_counter(2) same_shape_trans)
  then obtain c' where c': "up_loop rc_store rc_unlock_step (hnode h) c = Some c'" "same_shape ?h (rc_store c')"
    "lock_mid c (-1) (ancs ?h ?r L (hnode h)) c'" by blast
  have "refs_ok ?r (rc_store c') L locks"
    by (rule refs_unlock[OF rc_refs[OF inv] c'(2)]) (use c'(3) in \<open>auto simp: lock_mid_def\<close>)
  then have "rc_inv c' L V locks"
    using c' by (intro lock_mid_ref[OF c'(3) _ inv]) (auto simp: ancs_def same_shape_def)
  with c' show ?thesis by (auto simp: rc_lock_handle_def)
qed

section \<open>Matching and inserting\<close>

lemma rc_walk_inv:
  assumes inv: "rc_inv c L V locks"
  shows "\<exists>h w len L' V' wd. rc_tree_walk ids tic c = Some (c\<lparr>rc_store := h\<rparr>, w, len) \<and>
    rc_inv (c\<lparr>rc_store := h\<rparr>) L' V' locks \<and> grows (rc_page_size c) (rc_root c) (rc_store c) L V h L' V' \<and>
    nodes h w = Some wd \<and> L' w = take len ids \<and> len \<le> length ids \<and> rc_page_size c dvd len \<and>
    longest (rc_page_size c) (rc_store c) L ids len"
proof -
  note ok = rc_tree[OF inv]
  from tree_root[OF ok] obtain rd where rd: "nodes (rc_store c) (rc_root c) = Some rd" by blast
  from walk_loop_ok[OF ok rd, of 0 ids tic] tree_root_labels[OF ok] obtain h w len L' V' wd where
    w: "walk_loop (rc_page_size c) tic ids (rc_store c) (rc_root c) 0 = Some (h, w, len)"
    "grows (rc_page_size c) (rc_root c) (rc_store c) L V h L' V'" "nodes h w = Some wd" "L' w = take len ids"
    "len \<le> length ids" "rc_page_size c dvd len" "longest (rc_page_size c) (rc_store c) L ids len"
    by auto
  have "rc_inv (c\<lparr>rc_store := h\<rparr>) L' V' locks"
    using grows_tree_ok[OF w(2)] refs_grows[OF w(2) rc_refs[OF inv]] root_held_grows[OF w(2) rc_held[OF inv]]
      grows_weigh[OF w(2)] rc_ev[OF inv] rc_pr[OF inv] by (simp add: rc_inv_def)
  with w show ?thesis by (auto simp: rc_tree_walk_def)
qed

text \<open>The specification of a match on the abstract contents: no longer cached prefix of \<open>ids\<close>.\<close>

definition longest_cached :: "nat \<Rightarrow> store \<Rightarrow> int list \<Rightarrow> nat \<Rightarrow> bool" where
  "longest_cached ps h ids len \<longleftrightarrow>
     (\<forall>k vs. k \<le> length ids \<longrightarrow> cached ps h (take k ids) vs \<longrightarrow> k \<le> len)"

lemma longest_cachedI:
  assumes ok: "tree_ok ps r h L V" and lo: "longest ps h L ids len"
  shows "longest_cached ps h ids len"
  unfolding longest_cached_def
proof (intro allI impI)
  fix k vs assume k: "k \<le> length ids" and ca: "cached ps h (take k ids) vs"
  from cachedE[OF ca ok] obtain n nd j where n: "nodes h n = Some nd" "ps dvd j" "j \<le> length (L n)"
    "take k ids = take j (L n)" by blast
  then have "length (take k ids) = length (take j (L n))" by simp
  with k n(3) have "j = k" by simp
  with n k show "k \<le> len" using lo[unfolded longest_def, rule_format, of n k] by auto
qed

lemma no_next_page:
  assumes g: "grows ps r h L V h' L' V'" and ok: "tree_ok ps r h L V" and w: "nodes h' w = Some wd"
    and lab: "L' w = take len ids" "len < length ids" "ps dvd len" "ps dvd length ids"
    and lo: "longest ps h L ids len"
  shows "map_of (children wd) (pkey ps (drop len ids)) = None"
proof (rule ccontr)
  note ok' = grows_tree_ok[OF g] and ps = tree_ps[OF ok]
  assume "map_of (children wd) (pkey ps (drop len ids)) \<noteq> None"
  then obtain c where c: "map_of (children wd) (pkey ps (drop len ids)) = Some c" by blast
  from tree_child[OF ok' w c] obtain cd where cd: "nodes h' c = Some cd" "pkey ps (drop len ids) = pkey ps (nkey cd)"
    "L' c = L' w @ nkey cd" "nkey cd \<noteq> []" "ps dvd length (nkey cd)" by blast
  have "ps dvd length ids - len" using lab by (simp add: dvd_diff_nat)
  then have le: "len + ps \<le> length ids" using lab(2) dvd_imp_le[of ps "length ids - len"] by simp
  have kl: "ps \<le> length (nkey cd)" using cd(4,5) by (simp add: dvd_imp_le)
  have "take ps (drop len ids) = take ps (nkey cd)" using cd(2,4) lab(2) by (intro pkey_inject) auto
  then have tk: "take (len + ps) (L' c) = take (len + ps) ids"
    using cd(3) lab(1,2) by (simp add: take_add min.absorb1)
  have lc: "len + ps \<le> length (L' c)" using cd(3) lab(1,2) kl by simp
  from grows_cover[OF g cd(1)] obtain y and yd :: rnode where y: "nodes h y = Some yd" "prefix (L' c) (L y)" by blast
  have "take (len + ps) (L y) = take (len + ps) ids" using take_prefix_eq[OF y(2) lc] tk by simp
  moreover have "len + ps \<le> length (L y)" using lc prefix_length_le[OF y(2)] by simp
  ultimately have "len + ps \<le> len"
    using lo[unfolded longest_def, rule_format, of y "len + ps"] y(1) le lab(3) by auto
  then show False using ps by simp
qed

text \<open>The store an insertion leaves: the walked tree, with a new leaf \<open>n\<close> or without.\<close>

definition insert_shape ::
  "nat \<Rightarrow> nat \<Rightarrow> store \<Rightarrow> (nat \<Rightarrow> int list) \<Rightarrow> (nat \<Rightarrow> int list) \<Rightarrow> int \<Rightarrow> nat \<Rightarrow> store \<Rightarrow> bool" where
  "insert_shape ps r h L V now n h' \<longleftrightarrow> (\<exists>h1 L1 V1. grows ps r h L V h1 L1 V1 \<and>
     (h' = h1 \<or> (\<exists>w wd k v. nodes h1 w = Some wd \<and> n = counter h1 \<and>
        h' = h1\<lparr>nodes := (nodes h1)(n \<mapsto> leaf_node None now w k v,
              w \<mapsto> wd\<lparr>children := AList.update (pkey ps k) n (children wd)\<rparr>), counter := Suc n\<rparr>)))"

lemma rc_insert_inv:
  assumes inv: "rc_inv c L V locks" and len: "length indices = length ids"
    and n: "n = align_down (length ids) (rc_page_size c)" and ps: "ps = rc_page_size c"
  shows "\<exists>c' m hdl old L' V' wd. rc_insert_prefix ids indices tic now c = Some (c', m, hdl) \<and>
    rc_inv c' L' V' locks \<and> dom (nodes (rc_store c)) \<subseteq> dom (nodes (rc_store c')) \<and>
    same_labels (rc_store c) L V L' V' \<and> cached_len hdl = n \<and> m \<le> n \<and> ps dvd m \<and>
    cached ps (rc_store c) (take m ids) old \<and> longest_cached ps (rc_store c) (take n ids) m \<and>
    nodes (rc_store c') (hnode hdl) = Some wd \<and> L' (hnode hdl) = take n ids \<and>
    (\<forall>xs vs. cached ps (rc_store c') xs vs \<longleftrightarrow> cached ps (rc_store c) xs vs \<or>
       (\<exists>j\<le>n. ps dvd j \<and> xs = take j ids \<and> vs = take j (old @ slice m n indices))) \<and>
    owned (rc_store c') = owned (rc_store c) + mset (slice m n indices) \<and>
    rc_evictable c' = rc_evictable c + int (n - m) \<and> rc_protected c' = rc_protected c \<and>
    rc_page_size c' = rc_page_size c \<and> rc_root c' = rc_root c \<and>
    insert_shape ps (rc_root c) (rc_store c) L V now (hnode hdl) (rc_store c')"
proof -
  let ?ids = "take n ids" and ?r = "rc_root c"
  have nle: "n \<le> length ids" "ps dvd n" by (simp_all add: n ps)
  then have lids: "length ?ids = n" by simp
  from rc_walk_inv[OF inv, of ?ids tic] obtain h w m L' V' wd where
    w: "rc_tree_walk ?ids tic c = Some (c\<lparr>rc_store := h\<rparr>, w, m)" "rc_inv (c\<lparr>rc_store := h\<rparr>) L' V' locks"
      "grows ps ?r (rc_store c) L V h L' V'" "nodes h w = Some wd" "L' w = take m ?ids" "m \<le> n" "ps dvd m"
      "longest ps (rc_store c) L ?ids m" unfolding lids ps by blast
  note ok' = grows_tree_ok[OF w(3)] and ok = rc_tree[OF inv, folded ps]
  have Lw: "L' w = take m ids" using w(5,6) by (simp add: min.absorb1)
  have lm: "length (L' w) = m" using Lw w(6) nle by simp
  have lv: "length (V' w) = m" using tree_label_value[OF ok' w(4)] lm by simp
  have old: "cached ps (rc_store c) (take m ids) (V' w)"
    using cached_node[OF ok' w(4)] Lw cached_grows[OF w(3)] by simp
  have oldj: "cached ps (rc_store c) (take j ids) (take j (V' w))" if "j \<le> m" "ps dvd j" for j
    using cached_take[OF old that(2)] that(1) w(6) nle by (simp add: min.absorb1 min.absorb2)
  note lc = longest_cachedI[OF ok w(8)]
  have rc1: "rc_evictable c = weigh ?r free_ref h" "rc_protected c = weigh ?r held_ref h"
    using rc_ev[OF w(2)] rc_pr[OF w(2)] by simp_all
  show ?thesis
  proof (cases "m = n")
    case True
    have "cached ps h xs vs \<longleftrightarrow> cached ps (rc_store c) xs vs \<or>
       (\<exists>j\<le>n. ps dvd j \<and> xs = take j ids \<and> vs = take j (V' w @ slice m n indices))" for xs vs
      using cached_grows[OF w(3)] oldj lv True by (auto simp: slice_empty)
    moreover have "rc_insert_prefix ids indices tic now c =
        Some (c\<lparr>rc_store := h\<rparr>, m, \<lparr>cached_len = n, hnode = w\<rparr>)"
      unfolding rc_insert_prefix_def n[symmetric] Let_def w(1) using True by simp
    moreover have "insert_shape ps ?r (rc_store c) L V now w h"
      using w(3) unfolding insert_shape_def by blast
    ultimately show ?thesis
      using True w old lc Lw rc1 grows_labels[OF w(3)] grows_owned[OF w(3)]
      by - (rule exI[of _ "c\<lparr>rc_store := h\<rparr>"], rule exI[of _ m], rule exI[of _ "\<lparr>cached_len = n, hnode = w\<rparr>"],
          rule exI[of _ "V' w"], rule exI[of _ L'], rule exI[of _ V'], rule exI[of _ wd], simp add: slice_empty)
  next
    case False
    let ?k = "drop m ?ids" and ?v = "drop m (take n indices)"
    have mn: "m < n" using False w(6) by simp
    have k: "?k \<noteq> []" "length ?v = length ?k" "ps dvd length ?k"
      using mn nle len w(7) by (auto simp: dvd_diff_nat)
    have new: "map_of (children wd) (pkey ps ?k) = None"
      using no_next_page[OF w(3) ok w(4,5) _ w(7) _ w(8)] mn lids nle(2) by simp
    let ?m = "counter h"
    let ?h = "h\<lparr>nodes := (nodes h)(?m \<mapsto> leaf_node None now w ?k ?v,
              w \<mapsto> wd\<lparr>children := AList.update (pkey ps ?k) ?m (children wd)\<rparr>), counter := Suc ?m\<rparr>"
    let ?L = "L'(?m := L' w @ ?k)" and ?V = "V'(?m := V' w @ ?v)"
    let ?c = "c\<lparr>rc_store := ?h, rc_evictable := rc_evictable c + int (length ?k)\<rparr>"
    have f: "nodes h ?m = None" by (rule counter_fresh[OF ok'])
    then have ne: "?m \<noteq> w" "?m \<noteq> ?r" using w(4) tree_root[OF ok'] by auto
    note leaf = add_leaf_result[where tic = None and now = now, OF ok' w(4) k(1,2)]
    note okl = add_leaf_tree_ok[where tic = None and now = now, OF ok' w(4) k new refl]
    have refs: "refs_ok ?r ?h ?L locks"
      using refs_add_leaf[where locks = locks and tic = None and now = now, OF ok' _ w(4) refl new k] rc_refs[OF w(2)] by simp
    have held: "root_held ?r ?h"
      using rc_held[OF w(2)] ne w(4) by (auto simp: root_held_def)
    have wf: "weigh ?r free_ref ?h = rc_evictable c + int (length ?k)"
      using add_leaf_weigh[where tic = None and now = now and k = ?k and v = ?v, OF ok' w(4) refl stable_ref(1)] rc1(1)
      by (simp add: free_ref_def leaf_node_def)
    have wh: "weigh ?r held_ref ?h = rc_protected c"
      using add_leaf_weigh[where tic = None and now = now and k = ?k and v = ?v, OF ok' w(4) refl stable_ref(2)] rc1(2)
      by (simp add: held_ref_def leaf_node_def)
    have Lk: "L' w @ ?k = ?ids" using Lw mn by (metis append_take_drop_id min.absorb1 take_take w(5))
    have inv': "rc_inv ?c ?L ?V locks"
      unfolding rc_inv_def using okl refs held wf wh ps by simp
    have dom: "dom (nodes (rc_store c)) \<subseteq> dom (nodes ?h)" using grows_labels[OF w(3)] by auto
    have same: "same_labels (rc_store c) L V ?L ?V"
    proof -
      have "?m \<notin> dom (nodes (rc_store c))" using grows_labels[OF w(3)] f by auto
      with grows_labels[OF w(3)] show ?thesis by (auto simp: same_labels_def)
    qed
    have ca: "cached ps ?h xs vs \<longleftrightarrow> cached ps (rc_store c) xs vs \<or>
       (\<exists>j\<le>n. ps dvd j \<and> xs = take j ids \<and> vs = take j (V' w @ slice m n indices))" for xs vs
    proof -
      have e: "(j \<le> length ?ids \<and> xs = take j ?ids) = (j \<le> n \<and> xs = take j ids)" for j
        using lids by (auto simp: min.absorb1)
      have sl: "slice m n indices = ?v" by (simp add: slice_def drop_take)
      show ?thesis
        unfolding cached_add_leaf[where tic = None and now = now, OF ok' w(4) k new refl] Lk cached_grows[OF w(3)] sl
        using e by blast
    qed
    have own: "owned ?h = owned (rc_store c) + mset ?v"
      using add_leaf_owned[where tic = None and now = now and k = ?k and v = ?v, OF ok' w(4) refl] grows_owned[OF w(3)] by simp
    have res: "rc_insert_prefix ids indices tic now c = Some (?c, m, \<lparr>cached_len = n, hnode = ?m\<rparr>)"
      unfolding rc_insert_prefix_def n[symmetric] Let_def w(1)
      using leaf mn ne by (simp add: ps[symmetric] leaf_node_def nlength_def)
    have "nodes ?h ?m = Some (leaf_node None now w ?k ?v)" using ne by simp
    moreover have "length ?k = n - m" using lids by simp
    moreover have "slice m n indices = ?v" by (simp add: slice_def drop_take)
    moreover have "insert_shape ps ?r (rc_store c) L V now ?m ?h"
      using w(3,4) unfolding insert_shape_def by blast
    ultimately show ?thesis
      using res inv' dom same old lc ca own w(6,7) Lk
      by - (rule exI[of _ ?c], rule exI[of _ m], rule exI[of _ "\<lparr>cached_len = n, hnode = ?m\<rparr>"],
          rule exI[of _ "V' w"], rule exI[of _ ?L], rule exI[of _ ?V], rule exI, simp)
  qed
qed

section \<open>Eviction\<close>

definition free_leaves :: "store \<Rightarrow> nat set" where
  "free_leaves h = {n. \<exists>nd. nodes h n = Some nd \<and> is_leaf nd \<and> ref_count nd = 0}"

lemma free_leaves_D:
  assumes "n \<in> free_leaves h" "root_held r h"
  shows "\<exists>nd. nodes h n = Some nd \<and> children nd = [] \<and> ref_count nd = 0 \<and> n \<noteq> r"
  using assms by (auto simp: free_leaves_def root_held_def is_leaf_def)

text \<open>As long as a token is evictable there is an evictable leaf: counts grow towards the root.\<close>

lemma free_leaf_exists:
  assumes ok: "tree_ok ps r h L V" and refs: "refs_ok r h L locks" and w: "0 < weigh r free_ref h"
  shows "free_leaves h \<noteq> {}"
proof -
  let ?F = "{n. \<exists>nd. nodes h n = Some nd \<and> n \<noteq> r \<and> ref_count nd = 0}"
  have "?F \<noteq> {}"
  proof
    assume "?F = {}"
    then have "weigh r free_ref h = weigh r (\<lambda>_. False) h" by (intro weigh_cong) (auto simp: free_ref_def)
    with w show False by (simp add: weigh_def dom_sum_def)
  qed
  moreover have fin: "finite ?F" by (rule finite_subset[OF _ tree_finite[OF ok]]) auto
  ultimately have "Max ((\<lambda>n. length (L n)) ` ?F) \<in> (\<lambda>n. length (L n)) ` ?F" by (intro Max_in) auto
  then obtain n where n: "n \<in> ?F" "Max ((\<lambda>n. length (L n)) ` ?F) = length (L n)" by blast
  have nmax: "length (L m) \<le> length (L n)" if "m \<in> ?F" for m
    unfolding n(2)[symmetric] using fin that by (intro Max_ge) auto
  from n(1)
obtain nd where nd: "nodes h n = Some nd" "n \<noteq> r" "ref_count nd = 0" by blast
  have "children nd = []"
  proof (rule ccontr)
    assume "children nd \<noteq> []"
    then obtain k c where "(k, c) \<in> set (children nd)" by (cases "children nd") auto
    then have "c \<in> set (map snd (children nd))" by force
    from child_in[OF ok nd(1) this] obtain cd where c: "nodes h c = Some cd" "c \<noteq> r" "L c = L n @ nkey cd" "nkey cd \<noteq> []" by blast
    have "ref_count cd \<le> ref_count nd" by (rule refs_mono[OF refs nd(1) c(1) _ nd(2) c(2)]) (simp add: c(3))
    moreover have "0 \<le> ref_count cd" using refs_count[OF refs c(1,2)] by simp
    ultimately have "c \<in> ?F" using c nd by auto
    from nmax[OF this] c show False by simp
  qed
  with nd show ?thesis by (auto simp: free_leaves_def is_leaf_def)
qed

text \<open>Unlinking an evictable leaf: what is evictable next.\<close>

lemma free_leaves_unlink:
  assumes ok: "tree_ok ps r h L V" and n: "nodes h n = Some nd" "n \<noteq> r"
    and p: "nodes h p = Some pd" "p \<noteq> n" "map_of (children pd) (pkey ps (nkey nd)) = Some n"
  defines "pd' \<equiv> pd\<lparr>children := AList.delete (pkey ps (nkey nd)) (children pd)\<rparr>"
  shows "free_leaves (h\<lparr>nodes := (nodes h)(p \<mapsto> pd', n := None)\<rparr>) =
    (free_leaves h - {n}) \<union> (if is_leaf pd' \<and> ref_count pd' = 0 then {p} else {})" (is "?F = _")
    "p \<notin> free_leaves h"
proof -
  show "p \<notin> free_leaves h" using p by (auto simp: free_leaves_def is_leaf_def)
  have "x \<in> ?F \<longleftrightarrow> x \<in> (free_leaves h - {n}) \<union> (if is_leaf pd' \<and> ref_count pd' = 0 then {p} else {})" for x
    using p \<open>p \<notin> free_leaves h\<close> by (cases "x = p"; cases "x = n") (auto simp: free_leaves_def)
  then show "?F = (free_leaves h - {n}) \<union> (if is_leaf pd' \<and> ref_count pd' = 0 then {p} else {})" by blast
qed

text \<open>What the loop state says when the caches started in \<open>c0\<close>.\<close>

definition evict_mid ::
  "radix_cache \<Rightarrow> (nat \<Rightarrow> int) \<Rightarrow> (nat \<Rightarrow> int list) \<Rightarrow> (nat \<Rightarrow> int list) \<Rightarrow> nat multiset \<Rightarrow>
     nat list \<Rightarrow> int list list \<Rightarrow> int \<Rightarrow> radix_cache \<Rightarrow> bool" where
  "evict_mid c0 ts L V locks leave evicted n c \<longleftrightarrow>
     rc_inv c L V locks \<and> rc_page_size c = rc_page_size c0 \<and> rc_root c = rc_root c0 \<and>
     distinct leave \<and> set leave = free_leaves (rc_store c) \<and> heap_from ts 0 leave \<and>
     n = int (length (concat evicted)) \<and> rc_evictable c0 = rc_evictable c + n \<and>
     rc_protected c = rc_protected c0 \<and> owned (rc_store c0) = owned (rc_store c) + mset (concat evicted) \<and>
     dom (nodes (rc_store c)) \<subseteq> dom (nodes (rc_store c0)) \<and>
     free_leaves (rc_store c0) \<inter> dom (nodes (rc_store c)) \<subseteq> set leave \<and>
     (\<forall>x\<in>dom (nodes (rc_store c0)) - dom (nodes (rc_store c)).
        \<forall>y\<in>free_leaves (rc_store c0) \<inter> dom (nodes (rc_store c)). ts x \<le> ts y) \<and> (0 < n \<longrightarrow> evicted \<noteq> []) \<and>
     (\<forall>v\<in>set evicted. \<exists>x\<in>dom (nodes (rc_store c0)). \<exists>k. rc_page_size c0 dvd k \<and> v = drop k (V x))"

lemma node_value_drop:
  assumes "tree_ok ps r h L V" "nodes h x = Some xd" "x \<noteq> r"
  shows "\<exists>k. ps dvd k \<and> nvalue xd = drop k (V x)"
proof -
  from tree_parent[OF assms] obtain p pd where p: "nodes h p = Some pd" "V x = V p @ nvalue xd" by blast
  then have "nvalue xd = drop (length (V p)) (V x)" by simp
  moreover have "ps dvd length (V p)"
    using tree_label_dvd[OF assms(1) p(1)] tree_label_value[OF assms(1) p(1)] by simp
  ultimately show ?thesis by blast
qed

text \<open>One victim: unlinking an evictable leaf with its length taken off the evictable total.\<close>

lemma rc_unlink_leaf:
  assumes inv: "rc_inv c L V locks" and fx: "x \<in> free_leaves (rc_store c)"
  shows "\<exists>xd h p pd cs. nodes (rc_store c) x = Some xd \<and> ref_count xd = 0 \<and> is_leaf xd \<and> \<not> is_root xd \<and>
    x \<noteq> rc_root c \<and> 0 < nlength xd \<and> length (nvalue xd) = nlength xd \<and>
    unlink (rc_page_size c) x (rc_store c) = Some (h, p) \<and> nodes (rc_store c) p = Some pd \<and> p \<noteq> x \<and>
    h = (rc_store c)\<lparr>nodes := (nodes (rc_store c))(p \<mapsto> pd\<lparr>children := cs\<rparr>, x := None)\<rparr> \<and>
    rc_inv (c\<lparr>rc_store := h, rc_evictable := rc_evictable c - int (nlength xd)\<rparr>) L V locks \<and>
    free_leaves h = (free_leaves (rc_store c) - {x}) \<union>
      (if cs = [] \<and> ref_count pd = 0 then {p} else {}) \<and> p \<notin> free_leaves (rc_store c) \<and>
    owned (rc_store c) = owned h + mset (nvalue xd)"
proof -
  let ?h = "rc_store c" and ?ps = "rc_page_size c" and ?r = "rc_root c"
  note ok = rc_tree[OF inv]
  from free_leaves_D[OF fx rc_held[OF inv]] obtain xd where
    x: "nodes ?h x = Some xd" "children xd = []" "ref_count xd = 0" "x \<noteq> ?r" by auto
  from unlink_result[OF ok x(1,4)] obtain p pd where p: "rparent xd = Some p" "nodes ?h p = Some pd" "p \<noteq> x"
    "map_of (children pd) (pkey ?ps (nkey xd)) = Some x" by blast
  define cs where "cs = AList.delete (pkey ?ps (nkey xd)) (children pd)"
  define h where "h = ?h\<lparr>nodes := (nodes ?h)(p \<mapsto> pd\<lparr>children := cs\<rparr>, x := None)\<rparr>"
  have un: "unlink ?ps x ?h = Some (h, p)"
    using unlink_result[OF ok x(1,4)] p by (auto simp: h_def cs_def)
  have okh: "tree_ok ?ps ?r h L V"
    unfolding h_def cs_def by (rule unlink_tree_ok[OF ok x(1,4,2) p(1,2)])
  have tp: "nkey xd \<noteq> []" "length (nvalue xd) = length (nkey xd)" using tree_parent[OF ok x(1,4)] by auto
  have refs: "refs_ok ?r h L locks"
    unfolding h_def
    by (rule refs_unlink[OF rc_refs[OF inv] p(2,3) refs_free_not_locked[OF rc_refs[OF inv] x(1,4,3)]])
  have held: "root_held ?r h"
    using rc_held[OF inv] x p by (auto simp: root_held_def h_def)
  have wf: "weigh ?r free_ref h = rc_evictable c - int (nlength xd)"
    using unlink_weigh[OF ok x(1,4) p(2,3) stable_ref(1)] x(3) rc_ev[OF inv] by (simp add: h_def free_ref_def)
  have wh: "weigh ?r held_ref h = rc_protected c"
    using unlink_weigh[OF ok x(1,4) p(2,3) stable_ref(2)] x(3) rc_pr[OF inv] by (simp add: h_def held_ref_def)
  have "rc_inv (c\<lparr>rc_store := h, rc_evictable := rc_evictable c - int (nlength xd)\<rparr>) L V locks"
    using okh refs held wf wh by (simp add: rc_inv_def)
  moreover have "free_leaves h = (free_leaves ?h - {x}) \<union> (if cs = [] \<and> ref_count pd = 0 then {p} else {})"
    "p \<notin> free_leaves ?h"
    unfolding h_def cs_def using free_leaves_unlink[OF ok x(1,4) p(2,3,4)] by (simp_all add: is_leaf_def)
  moreover have "owned ?h = owned h + mset (nvalue xd)"
    unfolding h_def by (rule unlink_owned[OF ok x(1) p(2,3)])
  ultimately show ?thesis
    using x un p tp h_def
    by - (rule exI[of _ xd], rule exI[of _ h], rule exI[of _ p], rule exI[of _ pd], rule exI[of _ cs],
      simp add: is_leaf_def is_root_def nlength_def)
qed

lemma rc_evict_step:
  assumes mid: "evict_mid c0 ts L V locks leave evicted n c" and pop: "heappop ts leave = Some (x, leave')"
  shows "\<exists>xd h p pd. nodes (rc_store c) x = Some xd \<and> ref_count xd = 0 \<and> is_leaf xd \<and> \<not> is_root xd \<and>
    unlink (rc_page_size c) x (rc_store c) = Some (h, p) \<and> nodes h p = Some pd \<and> 0 < nlength xd \<and>
    evict_mid c0 ts L V locks (if is_leaf pd \<and> ref_count pd = 0 then heappush ts leave' p else leave')
      (evicted @ [nvalue xd]) (n + int (nlength xd))
      (c\<lparr>rc_store := h, rc_evictable := rc_evictable c - int (nlength xd)\<rparr>)"
proof -
  let ?h = "rc_store c"
  from mid have inv: "rc_inv c L V locks" and lv: "distinct leave" "set leave = free_leaves ?h" "heap_from ts 0 leave"
    by (simp_all add: evict_mid_def)
  have sp: "set leave = insert x (set leave')" by (rule hq.set_pop[OF pop])
  have dx: "x \<notin> set leave'" "distinct leave'" using hq.distinct_pop[OF pop] lv(1) by auto
  have "x \<in> free_leaves ?h" using sp lv(2) by simp
  from rc_unlink_leaf[OF inv this] obtain xd h p pd cs where x: "nodes ?h x = Some xd" "ref_count xd = 0"
    "is_leaf xd" "\<not> is_root xd" "0 < nlength xd" "length (nvalue xd) = nlength xd"
    and un: "unlink (rc_page_size c) x ?h = Some (h, p)" and p: "nodes ?h p = Some pd" "p \<noteq> x"
    and h: "h = ?h\<lparr>nodes := (nodes ?h)(p \<mapsto> pd\<lparr>children := cs\<rparr>, x := None)\<rparr>"
    and inv': "rc_inv (c\<lparr>rc_store := h, rc_evictable := rc_evictable c - int (nlength xd)\<rparr>) L V locks"
    and fl: "free_leaves h = (free_leaves ?h - {x}) \<union> (if cs = [] \<and> ref_count pd = 0 then {p} else {})"
      "p \<notin> free_leaves ?h"
    and own: "owned ?h = owned h + mset (nvalue xd)" by blast
  let ?pd = "pd\<lparr>children := cs\<rparr>"
  let ?l = "if is_leaf ?pd \<and> ref_count ?pd = 0 then heappush ts leave' p else leave'"
  have set: "set ?l = free_leaves h" using fl sp lv(2) dx by (auto simp: hq.set_push is_leaf_def)
  have dist: "distinct ?l" using dx fl(2) sp lv(2) by (auto simp: hq.distinct_push)
  have heap: "heap_from ts 0 ?l" using hq.inv_pop[OF lv(3) pop] by (simp add: hq.inv_push)
  have domh: "dom (nodes h) = dom (nodes ?h) - {x}" using p by (auto simp: h)
  have lru: "ts x \<le> ts y" if "y \<in> set leave" for y by (rule hq.pop_least[OF lv(3) pop that])
  have sub: "free_leaves (rc_store c0) \<inter> dom (nodes h) \<subseteq> set ?l"
    using mid unfolding set domh fl(1) evict_mid_def lv(2)[symmetric] by blast
  have order: "\<forall>a\<in>dom (nodes (rc_store c0)) - dom (nodes h). \<forall>y\<in>free_leaves (rc_store c0) \<inter> dom (nodes h). ts a \<le> ts y"
  proof (intro ballI)
    fix a y assume a: "a \<in> dom (nodes (rc_store c0)) - dom (nodes h)"
      and y: "y \<in> free_leaves (rc_store c0) \<inter> dom (nodes h)"
    from y domh have y': "y \<in> free_leaves (rc_store c0) \<inter> dom (nodes ?h)" by blast
    show "ts a \<le> ts y"
    proof (cases "a = x")
      case True
      from y' mid have "y \<in> set leave" unfolding evict_mid_def by blast
      with lru True show ?thesis by simp
    next
      case False
      with a domh have "a \<in> dom (nodes (rc_store c0)) - dom (nodes ?h)" by blast
      with y' mid show ?thesis unfolding evict_mid_def by blast
    qed
  qed
  have "nodes h p = Some ?pd" using p by (simp add: h)
  moreover have "evict_mid c0 ts L V locks ?l (evicted @ [nvalue xd]) (n + int (nlength xd))
      (c\<lparr>rc_store := h, rc_evictable := rc_evictable c - int (nlength xd)\<rparr>)"
  proof -
    have "dom (nodes h) \<subseteq> dom (nodes (rc_store c0))"
      using mid unfolding domh evict_mid_def by blast
    moreover have "n + int (nlength xd) = int (length (concat (evicted @ [nvalue xd])))"
      using mid x by (simp add: evict_mid_def)
    moreover have "owned (rc_store c0) = owned h + mset (concat (evicted @ [nvalue xd]))"
      using mid own by (simp add: evict_mid_def)
    moreover have "\<forall>v\<in>set (evicted @ [nvalue xd]). \<exists>x\<in>dom (nodes (rc_store c0)). \<exists>k. rc_page_size c0 dvd k \<and> v = drop k (V x)"
    proof -
      have "x \<noteq> rc_root c" using x(1,4) tree_root[OF rc_tree[OF inv]] by (auto simp: is_root_def)
      from node_value_drop[OF rc_tree[OF inv] x(1) this] obtain k where
        k: "rc_page_size c0 dvd k" "nvalue xd = drop k (V x)" using mid by (auto simp: evict_mid_def)
      have "x \<in> dom (nodes (rc_store c0))" using mid x(1) unfolding evict_mid_def by blast
      with k mid show ?thesis unfolding evict_mid_def by auto
    qed
    ultimately show ?thesis
      using inv' set dist heap sub order mid unfolding evict_mid_def by simp
  qed
  ultimately show ?thesis using x un by blast
qed

lemma rc_evict_loop_ok:
  "evict_mid c0 ts L V locks leave evicted n c \<Longrightarrow> need \<le> rc_evictable c0 \<Longrightarrow>
   \<exists>leave' evicted' n' c'. rc_evict_loop need ts leave evicted n c = Some (c', evicted') \<and>
     evict_mid c0 ts L V locks leave' evicted' n' c' \<and> need \<le> n'"
proof (induction "nat (need - n)" arbitrary: leave evicted n c rule: less_induct)
  case less
  show ?case
  proof (cases "n < need")
    case False
    with less.prems show ?thesis
      by (intro exI[of _ leave] exI[of _ evicted] exI[of _ n] exI[of _ c]) (subst rc_evict_loop.simps, simp)
  next
    case True
    from less.prems have inv: "rc_inv c L V locks" and ev: "rc_evictable c0 = rc_evictable c + n"
      and lv: "set leave = free_leaves (rc_store c)" by (simp_all add: evict_mid_def)
    from True less.prems(2) ev have "0 < weigh (rc_root c) free_ref (rc_store c)" using rc_ev[OF inv] by simp
    from free_leaf_exists[OF rc_tree[OF inv] rc_refs[OF inv] this] lv have "leave \<noteq> []" by auto
    with hq.pop_ex[of leave ts] obtain x leave' where pop: "heappop ts leave = Some (x, leave')" by blast
    from rc_evict_step[OF less.prems(1) pop] obtain xd h p pd where s: "nodes (rc_store c) x = Some xd"
      "ref_count xd = 0" "is_leaf xd" "\<not> is_root xd" "unlink (rc_page_size c) x (rc_store c) = Some (h, p)"
      "nodes h p = Some pd" "0 < nlength xd"
      "evict_mid c0 ts L V locks (if is_leaf pd \<and> ref_count pd = 0 then heappush ts leave' p else leave')
      (evicted @ [nvalue xd]) (n + int (nlength xd))
      (c\<lparr>rc_store := h, rc_evictable := rc_evictable c - int (nlength xd)\<rparr>)" by blast
    have "nat (need - (n + int (nlength xd))) < nat (need - n)" using True s(7) by simp
    from less.hyps[OF this s(8) less.prems(2)] show ?thesis
      using True \<open>leave \<noteq> []\<close> pop s by (subst rc_evict_loop.simps) (simp add: py_assert_def)
  qed
qed

lemma rc_evict_inv:
  assumes inv: "rc_inv c L V locks" and need: "0 < need" "need \<le> rc_evictable c"
  shows "\<exists>c' ev leave n. rc_evict need c = Some (c', concat ev) \<and> need \<le> n \<and>
    evict_mid c (timestamp_of (rc_store c)) L V locks leave ev n c'"
proof -
  let ?ts = "timestamp_of (rc_store c)"
  from dfs_root[OF rc_tree[OF inv], of "\<lambda>nd. is_leaf nd \<and> ref_count nd = 0"] obtain lv where
    lv: "rc_collect_leave_nodes c = Some lv" "distinct lv" "set lv = free_leaves (rc_store c)"
    unfolding rc_collect_leave_nodes_def free_leaves_def by blast
  have "evict_mid c ?ts L V locks (heapify ?ts lv) [] 0 c"
    using inv lv by (auto simp: evict_mid_def hq.distinct_mk hq.set_mk hq.inv_mk)
  from rc_evict_loop_ok[OF this need(2)] obtain leave' evicted' n' c' where
    e: "rc_evict_loop need ?ts (heapify ?ts lv) [] 0 c = Some (c', evicted')"
     "evict_mid c ?ts L V locks leave' evicted' n' c'" "need \<le> n'" by blast
  have "evicted' \<noteq> []" using e(2,3) need(1) by (simp add: evict_mid_def)
  with e lv need show ?thesis
    by (intro exI[of _ c'] exI[of _ evicted'] exI[of _ leave'] exI[of _ n']) (simp add: rc_evict_def py_assert_def)
qed

section \<open>The empty cache and the operations on the abstract level\<close>

lemma rc_init_ok:
  assumes "0 < ps"
  shows "\<exists>c. rc_init ps now cnt = Some c \<and> rc_ok c {#} \<and> rc_page_size c = ps \<and> rc_evictable c = 0 \<and> rc_protected c = 0"
proof -
  define h where "h = \<lparr>nodes = [cnt \<mapsto> \<lparr>nkey = [], nvalue = [], children = [], rparent = None, ref_count = 1,
           timestamp = now, mamba_value = None, mamba_ref_count = 0,
           swa_tombstone = False, swa_ref_count = 0, swa_uuid = None\<rparr>], counter = Suc cnt\<rparr>"
  define c where "c = \<lparr>rc_page_size = ps, rc_store = h, rc_root = cnt, rc_evictable = 0, rc_protected = 0\<rparr>"
  have "rc_init ps now cnt = Some c"
    by (simp add: rc_init_def new_node_def upd_node_def node_time_def c_def h_def)
  moreover have "tree_ok ps cnt h (\<lambda>_. []) (\<lambda>_. [])"
    using assms by (intro tree_okI) (auto simp: h_def root_ok_def kids_ok_def split: if_splits)
  moreover have "weigh cnt g h = 0" for g by (simp add: weigh_def dom_sum_def h_def)
  moreover have "refs_ok cnt h (\<lambda>_. []) {#}" by (simp add: refs_ok_def h_def)
  moreover have "root_held cnt h" by (simp add: root_held_def h_def)
  ultimately show ?thesis
    by (intro exI[of _ c]) (auto simp: rc_ok_def rc_inv_def c_def)
qed

lemma rc_ok_cached_unique: "rc_ok c locks \<Longrightarrow> cached (rc_page_size c) (rc_store c) xs vs \<Longrightarrow>
    cached (rc_page_size c) (rc_store c) xs vs' \<Longrightarrow> vs = vs'"
  unfolding rc_ok_def using cached_unique rc_tree by blast

lemma rc_inv_total: "rc_inv c L V locks \<Longrightarrow> total_size (rc_size_info c) = weigh (rc_root c) (\<lambda>_. True) (rc_store c)"
proof -
  assume inv: "rc_inv c L V locks"
  have fin: "finite (dom (nodes (rc_store c)))" by (rule tree_finite[OF rc_tree[OF inv]])
  have "weigh (rc_root c) free_ref (rc_store c) + weigh (rc_root c) held_ref (rc_store c)
      = weigh (rc_root c) (\<lambda>_. True) (rc_store c)"
    unfolding weigh_def dom_sum_def sum.distrib[symmetric]
    by (intro sum.cong) (auto simp: free_ref_def held_ref_def)
  with rc_ev[OF inv] rc_pr[OF inv] show ?thesis by (simp add: total_size_def rc_size_info_def)
qed

lemma weigh_same_shape:
  assumes "same_shape h h'"
  shows "weigh r (\<lambda>_. True) h' = weigh r (\<lambda>_. True) h"
  unfolding weigh_def dom_sum_def same_shape_dom[OF assms]
proof (intro sum.cong)
  fix n assume "n \<in> dom (nodes h)"
  then obtain nd where nd: "nodes h n = Some nd" by blast
  from same_shapeD2[OF assms nd] obtain nd' where "nodes h' n = Some nd'" "shape nd' = shape nd" by blast
  with nd shape_eqD[of nd' nd] show "(if n \<noteq> r \<and> True then int (nlength (the (nodes h' n))) else 0) =
      (if n \<noteq> r \<and> True then int (nlength (the (nodes h n))) else 0)" by (simp add: nlength_def)
qed simp

lemma rc_insert_ok:
  assumes "rc_ok c locks" "length indices = length ids" "rc_insert_prefix ids indices tic now c = Some (c', m, hdl)"
  shows "rc_ok c' locks"
proof -
  from assms(1) obtain L V where "rc_inv c L V locks" by (auto simp: rc_ok_def)
  from rc_insert_inv[OF this assms(2) refl refl, of tic now] assms(3) show ?thesis
    unfolding rc_ok_def by auto
qed

section \<open>Properties\<close>

definition ex_cache :: radix_cache where
  "ex_cache = fst (the (rc_insert_prefix [1, 2, 3] [10, 11, 12] 5 6 (the (rc_init 1 7 0))))"

lemma ex_cache_ok: "rc_ok ex_cache {#}"
proof -
  from rc_init_ok[of 1 7 0] obtain c where c: "rc_init 1 7 0 = Some c" "rc_ok c {#}" by auto
  then obtain L V where inv: "rc_inv c L V {#}" by (auto simp: rc_ok_def)
  from rc_insert_inv[OF inv _ refl refl, of "[10, 11, 12]" "[1, 2, 3]" 5 6] obtain c' m hdl L' V' where
    "rc_insert_prefix [1, 2, 3] [10, 11, 12] 5 6 c = Some (c', m, hdl)" "rc_inv c' L' V' {#}" by auto
  with c show ?thesis by (auto simp: ex_cache_def rc_ok_def)
qed

lemma ex_cache_evictable: "rc_evictable ex_cache = 3"
  by code_simp

text \<open>C35: matching a request against the cache always returns; the handle's node stands for
  exactly the first \<open>cached_len\<close> tokens of the request, its indices are the ones the cache
  holds for them, no longer page-aligned prefix of the request is cached, and neither the
  contents nor the token totals change (only stamps and node boundaries do).\<close>

theorem rc_match_longest_prefix:
  assumes "rc_ok c locks"
  shows "\<exists>c' hdl vs. rc_match_prefix ids tic c = Some (c', hdl) \<and> rc_ok c' locks \<and>
    tokens_of (rc_store c') (hnode hdl) = Some (take (cached_len hdl) ids) \<and> cached_len hdl \<le> length ids \<and>
    indices_of (rc_store c') (hnode hdl) = Some vs \<and>
    get_matched_indices (rc_store c') hdl = (if cached_len hdl = 0 then None else Some vs) \<and>
    cached (rc_page_size c) (rc_store c) (take (cached_len hdl) ids) vs \<and>
    longest_cached (rc_page_size c) (rc_store c) ids (cached_len hdl) \<and>
    (\<forall>xs vs. cached (rc_page_size c) (rc_store c') xs vs \<longleftrightarrow> cached (rc_page_size c) (rc_store c) xs vs) \<and>
    rc_size_info c' = rc_size_info c \<and> owned (rc_store c') = owned (rc_store c)"
proof -
  from assms obtain L V where inv: "rc_inv c L V locks" by (auto simp: rc_ok_def)
  from rc_walk_inv[OF inv, of ids tic] obtain h w len L' V' wd where
    w: "rc_tree_walk ids tic c = Some (c\<lparr>rc_store := h\<rparr>, w, len)" "rc_inv (c\<lparr>rc_store := h\<rparr>) L' V' locks"
    "grows (rc_page_size c) (rc_root c) (rc_store c) L V h L' V'" "nodes h w = Some wd" "L' w = take len ids"
    "len \<le> length ids" "longest (rc_page_size c) (rc_store c) L ids len" by blast
  have ok': "tree_ok (rc_page_size c) (rc_root c) h L' V'" by (rule grows_tree_ok[OF w(3)])
  from path_values_ok[OF ok' w(4)] obtain vs where vs: "path_values h w = Some vs" "concat vs = V' w"
    "vs = [] \<longleftrightarrow> w = rc_root c" by blast
  have root: "w = rc_root c \<longleftrightarrow> len = 0"
    using tree_root_iff[OF ok' w(4)] w(5,6) by auto
  have "rc_match_prefix ids tic c = Some (c\<lparr>rc_store := h\<rparr>, \<lparr>cached_len = len, hnode = w\<rparr>)"
    by (simp add: rc_match_prefix_def w(1))
  moreover have "get_matched_indices h \<lparr>cached_len = len, hnode = w\<rparr> = (if len = 0 then None else Some (V' w))"
    using vs root by (simp add: get_matched_indices_def py_assert_def)
  moreover have "cached (rc_page_size c) (rc_store c) (take len ids) (V' w)"
    using cached_node[OF ok' w(4)] cached_grows[OF w(3)] w(5) by simp
  ultimately show ?thesis
    using w tokens_of_ok[OF ok' w(4)] indices_of_ok[OF ok' w(4)] cached_grows[OF w(3)]
      longest_cachedI[OF rc_tree[OF inv] w(7)] grows_owned[OF w(3)]
    by (intro exI[of _ "c\<lparr>rc_store := h\<rparr>"] exI[of _ "\<lparr>cached_len = len, hnode = w\<rparr>"] exI[of _ "V' w"])
      (auto simp: rc_ok_def rc_size_info_def)
qed

lemma rc_match_longest_prefix_witness:
  "\<exists>c' hdl. rc_match_prefix [1, 2, 9] 20 ex_cache = Some (c', hdl) \<and> rc_ok c' {#} \<and> cached_len hdl \<le> 3"
proof -
  from rc_match_longest_prefix[OF ex_cache_ok, of "[1, 2, 9]" 20] obtain c' hdl where
    "rc_match_prefix [1, 2, 9] 20 ex_cache = Some (c', hdl)" "rc_ok c' {#}" "cached_len hdl \<le> length [1, 2, 9 :: int]"
    by metis
  then show ?thesis by (intro exI[of _ c'] exI[of _ hdl]) (simp add: numeral_eq_Suc)
qed

text \<open>Inserting a request with its page indices always returns; what was cached for the
  longest cached prefix (length \<open>m\<close>) is kept, the rest of the page-aligned request is mapped to
  the given indices, and nothing else changes: the contents grow by exactly the prefixes of the
  request, the owned indices and the evictable total by exactly the new slice.\<close>

theorem rc_insert_contents:
  assumes "rc_ok c locks" "length indices = length ids" "n = align_down (length ids) (rc_page_size c)"
  shows "\<exists>c' m hdl old. rc_insert_prefix ids indices tic now c = Some (c', m, hdl) \<and> rc_ok c' locks \<and>
    cached_len hdl = n \<and> tokens_of (rc_store c') (hnode hdl) = Some (take n ids) \<and> m \<le> n \<and>
    cached (rc_page_size c) (rc_store c) (take m ids) old \<and>
    longest_cached (rc_page_size c) (rc_store c) (take n ids) m \<and>
    (\<forall>xs vs. cached (rc_page_size c) (rc_store c') xs vs \<longleftrightarrow> cached (rc_page_size c) (rc_store c) xs vs \<or>
       (\<exists>j\<le>n. rc_page_size c dvd j \<and> xs = take j ids \<and> vs = take j (old @ slice m n indices))) \<and>
    owned (rc_store c') = owned (rc_store c) + mset (slice m n indices) \<and>
    rc_evictable c' = rc_evictable c + int (n - m) \<and> rc_protected c' = rc_protected c"
proof -
  from assms(1) obtain L V where inv: "rc_inv c L V locks" by (auto simp: rc_ok_def)
  from rc_insert_inv[OF inv assms(2,3) refl, of tic now] obtain c' m hdl old L' V' wd where
    i: "rc_insert_prefix ids indices tic now c = Some (c', m, hdl)" "rc_inv c' L' V' locks"
    "cached_len hdl = n \<and> m \<le> n" "cached (rc_page_size c) (rc_store c) (take m ids) old"
    "longest_cached (rc_page_size c) (rc_store c) (take n ids) m"
    "nodes (rc_store c') (hnode hdl) = Some wd" "L' (hnode hdl) = take n ids"
    "\<forall>xs vs. cached (rc_page_size c) (rc_store c') xs vs \<longleftrightarrow> cached (rc_page_size c) (rc_store c) xs vs \<or>
       (\<exists>j\<le>n. rc_page_size c dvd j \<and> xs = take j ids \<and> vs = take j (old @ slice m n indices))"
    "owned (rc_store c') = owned (rc_store c) + mset (slice m n indices)"
    "rc_evictable c' = rc_evictable c + int (n - m) \<and> rc_protected c' = rc_protected c" by blast
  moreover have "rc_ok c' locks" using i(2) by (auto simp: rc_ok_def)
  moreover have "tokens_of (rc_store c') (hnode hdl) = Some (take n ids)"
    using tokens_of_ok[OF rc_tree[OF i(2)] i(6)] i(7) by simp
  ultimately show ?thesis by blast
qed

lemma rc_insert_contents_witness:
  "\<exists>c' m hdl. rc_insert_prefix [1, 2, 7, 8] [20, 21, 22, 23] 8 9 ex_cache = Some (c', m, hdl) \<and>
    rc_ok c' {#} \<and> cached_len hdl = 4"
proof -
  have "4 = align_down (length [1, 2, 7, 8 :: int]) (rc_page_size ex_cache)" by code_simp
  from rc_insert_contents[OF ex_cache_ok _ this, of "[20, 21, 22, 23]" 8 9] show ?thesis by force
qed

text \<open>C36: evicting at most the evictable total always succeeds: at least \<open>need\<close> indices come back,
  they are exactly what the cache stops owning, the evictable total falls by their number, nothing
  protected moves, every locked handle keeps its tokens and indices, nothing is cached afterwards
  that was not cached before, and the victims are least recently used: no node that was an
  evictable leaf from the start and survives is older than a node that was evicted.\<close>

theorem rc_evict_frees:
  assumes "rc_ok c locks" "0 < need" "need \<le> rc_evictable c"
  shows "\<exists>c' ev. rc_evict need c = Some (c', ev) \<and> rc_ok c' locks \<and> need \<le> int (length ev) \<and>
    owned (rc_store c) = owned (rc_store c') + mset ev \<and>
    rc_evictable c' = rc_evictable c - int (length ev) \<and> rc_protected c' = rc_protected c \<and>
    (\<forall>l\<in>#locks. tokens_of (rc_store c') l = tokens_of (rc_store c) l \<and>
       indices_of (rc_store c') l = indices_of (rc_store c) l) \<and>
    (\<forall>xs vs. cached (rc_page_size c) (rc_store c') xs vs \<longrightarrow> cached (rc_page_size c) (rc_store c) xs vs) \<and>
    (\<forall>x\<in>dom (nodes (rc_store c)) - dom (nodes (rc_store c')).
       \<forall>y\<in>free_leaves (rc_store c) \<inter> dom (nodes (rc_store c')).
         timestamp_of (rc_store c) x \<le> timestamp_of (rc_store c) y)"
proof -
  from assms(1) obtain L V where inv: "rc_inv c L V locks" by (auto simp: rc_ok_def)
  from rc_evict_inv[OF inv assms(2,3)] obtain c' ev leave n where
    e: "rc_evict need c = Some (c', concat ev)" "need \<le> n"
      "evict_mid c (timestamp_of (rc_store c)) L V locks leave ev n c'" by blast
  from e(3) have inv': "rc_inv c' L V locks" and geo: "rc_page_size c' = rc_page_size c" "rc_root c' = rc_root c"
    and d: "dom (nodes (rc_store c')) \<subseteq> dom (nodes (rc_store c))" by (simp_all add: evict_mid_def)
  have "tokens_of (rc_store c') l = tokens_of (rc_store c) l \<and> indices_of (rc_store c') l = indices_of (rc_store c) l"
    if "l \<in># locks" for l
  proof -
    from refs_locks[OF rc_refs[OF inv] that] refs_locks[OF rc_refs[OF inv'] that] obtain a b where
      "nodes (rc_store c) l = Some a" "nodes (rc_store c') l = Some b" by blast
    with tokens_of_ok[OF rc_tree[OF inv]] tokens_of_ok[OF rc_tree[OF inv']]
      indices_of_ok[OF rc_tree[OF inv]] indices_of_ok[OF rc_tree[OF inv']] show ?thesis by simp
  qed
  moreover have "cached (rc_page_size c) (rc_store c') xs vs \<Longrightarrow> cached (rc_page_size c) (rc_store c) xs vs" for xs vs
    using cached_unlink[OF rc_tree[OF inv] _ d] rc_tree[OF inv'] geo by simp
  ultimately show ?thesis
    using e inv' by (intro exI[of _ c'] exI[of _ "concat ev"]) (simp add: evict_mid_def rc_ok_def, blast)
qed

lemma rc_evict_frees_witness:
  "\<exists>c' ev. rc_evict 2 ex_cache = Some (c', ev) \<and> rc_ok c' {#} \<and> 2 \<le> int (length ev)"
  using rc_evict_frees[OF ex_cache_ok, of 2] ex_cache_evictable by force

text \<open>locking a handle of a live node and unlocking a locked one always succeed (no assertion
  fails); neither changes the contents, the ownership or the total size, only how it splits into
  evictable and protected tokens.\<close>

theorem rc_lock_unlock:
  assumes "rc_ok c locks"
  shows "(hnode hdl \<in> dom (nodes (rc_store c)) \<longrightarrow>
      (\<exists>c'. rc_lock_handle hdl False c = Some c' \<and> rc_ok c' (add_mset (hnode hdl) locks) \<and>
        same_shape (rc_store c) (rc_store c') \<and> total_size (rc_size_info c') = total_size (rc_size_info c))) \<and>
    (hnode hdl \<in># locks \<longrightarrow>
      (\<exists>c'. rc_lock_handle hdl True c = Some c' \<and> rc_ok c' (locks - {#hnode hdl#}) \<and>
        same_shape (rc_store c) (rc_store c') \<and> total_size (rc_size_info c') = total_size (rc_size_info c)))"
proof -
  from assms obtain L V where inv: "rc_inv c L V locks" by (auto simp: rc_ok_def)
  have tot: "total_size (rc_size_info c') = total_size (rc_size_info c)"
    if "rc_inv c' L V locks'" "rc_root c' = rc_root c" "same_shape (rc_store c) (rc_store c')" for c' locks'
    using rc_inv_total[OF inv] rc_inv_total[OF that(1)] weigh_same_shape[OF that(3)] that(2) by simp
  have "\<exists>c'. rc_lock_handle hdl False c = Some c' \<and> rc_ok c' (add_mset (hnode hdl) locks) \<and>
        same_shape (rc_store c) (rc_store c') \<and> total_size (rc_size_info c') = total_size (rc_size_info c)"
    if "hnode hdl \<in> dom (nodes (rc_store c))"
  proof -
    from that obtain nd where "nodes (rc_store c) (hnode hdl) = Some nd" by blast
    from rc_lock_inv[OF inv this] obtain c' where "rc_lock_handle hdl False c = Some c'"
      "rc_inv c' L V (add_mset (hnode hdl) locks)" "rc_root c' = rc_root c" "same_shape (rc_store c) (rc_store c')"
      by (auto simp: lock_mid_def)
    with tot show ?thesis unfolding rc_ok_def by blast
  qed
  moreover have "\<exists>c'. rc_lock_handle hdl True c = Some c' \<and> rc_ok c' (locks - {#hnode hdl#}) \<and>
        same_shape (rc_store c) (rc_store c') \<and> total_size (rc_size_info c') = total_size (rc_size_info c)"
    if "hnode hdl \<in># locks"
  proof -
    have "rc_inv c L V (add_mset (hnode hdl) (locks - {#hnode hdl#}))" using inv that by simp
    from rc_unlock_inv[OF this] obtain c' where "rc_lock_handle hdl True c = Some c'"
      "rc_inv c' L V (locks - {#hnode hdl#})" "rc_root c' = rc_root c" "same_shape (rc_store c) (rc_store c')"
      by (auto simp: lock_mid_def)
    with tot show ?thesis unfolding rc_ok_def by blast
  qed
  ultimately show ?thesis by blast
qed

lemma rc_lock_unlock_witness:
  "\<exists>c'. rc_lock_handle \<lparr>cached_len = 3, hnode = 1\<rparr> False ex_cache = Some c' \<and> rc_ok c' {#1#}"
proof -
  have "nodes (rc_store ex_cache) 1 \<noteq> None" by code_simp
  then show ?thesis using rc_lock_unlock[OF ex_cache_ok, of "\<lparr>cached_len = 3, hnode = 1\<rparr>"] by auto
qed

section \<open>Every history of a well-behaved client\<close>

text \<open>
  The runs of a client that locks only live nodes and unlocks only what it locked.
\<close>

inductive rc_reach :: "nat \<Rightarrow> radix_cache \<Rightarrow> nat multiset \<Rightarrow> bool" for ps where
  init: "0 < ps \<Longrightarrow> rc_init ps now cnt = Some c \<Longrightarrow> rc_reach ps c {#}"
| matched: "rc_reach ps c K \<Longrightarrow> rc_match_prefix ids tic c = Some (c', hdl) \<Longrightarrow> rc_reach ps c' K"
| inserted: "rc_reach ps c K \<Longrightarrow> length indices = length ids \<Longrightarrow>
    rc_insert_prefix ids indices tic now c = Some (c', m, hdl) \<Longrightarrow> rc_reach ps c' K"
| locked: "rc_reach ps c K \<Longrightarrow> hnode hdl \<in> dom (nodes (rc_store c)) \<Longrightarrow>
    rc_lock_handle hdl False c = Some c' \<Longrightarrow> rc_reach ps c' (add_mset (hnode hdl) K)"
| unlocked: "rc_reach ps c (add_mset (hnode hdl) K) \<Longrightarrow> rc_lock_handle hdl True c = Some c' \<Longrightarrow> rc_reach ps c' K"
| evicted: "rc_reach ps c K \<Longrightarrow> rc_evict need c = Some (c', ev) \<Longrightarrow> rc_reach ps c' K"

lemma rc_evict_ok:
  assumes inv: "rc_inv c L V locks" and e: "rc_evict need c = Some (c', ev)"
  shows "rc_ok c' locks"
proof -
  consider "need = 0" | "need < 0" | "0 < need" "need \<le> rc_evictable c" | "0 < need" "rc_evictable c < need" by linarith
  then show ?thesis
  proof cases
    case 1
    with e inv show ?thesis by (auto simp: rc_evict_def rc_ok_def)
  next
    case 2
    with e show ?thesis
      by (subst (asm) rc_evict_def) (auto simp: py_assert_def rc_evict_loop.simps split: bind_splits if_splits)
  next
    case 3
    from rc_evict_inv[OF inv 3] e show ?thesis by (auto simp: evict_mid_def rc_ok_def)
  next
    case 4
    with e show ?thesis by (simp add: rc_evict_def py_assert_def)
  qed
qed

text \<open>C39: on every history of a client that locks live nodes and releases only its own locks, the
  cache is a well-formed radix tree whose reference counts are the outstanding locks and whose two
  token counters are the lengths of the unlocked and of the locked nodes, so neither is ever
  negative.\<close>

theorem rc_reach_invariant:
  assumes "rc_reach ps c K"
  shows "rc_ok c K \<and> 0 \<le> rc_evictable c \<and> 0 \<le> rc_protected c"
proof -
  from assms have "rc_ok c K"
  proof (induction rule: rc_reach.induct)
    case (init now cnt c)
    with rc_init_ok[of ps now cnt] show ?case by auto
  next
    case (matched c K ids tic c' hdl)
    then obtain L V where inv: "rc_inv c L V K" by (auto simp: rc_ok_def)
    from rc_walk_inv[OF inv, of ids tic] matched.hyps(2) show ?case
      unfolding rc_match_prefix_def rc_ok_def by auto metis
  next
    case (inserted c K indices ids tic now c' m hdl)
    then show ?case using rc_insert_ok by blast
  next
    case (locked c K hdl c')
    then obtain L V nd where inv: "rc_inv c L V K" "nodes (rc_store c) (hnode hdl) = Some nd"
      by (auto simp: rc_ok_def)
    from rc_lock_inv[OF inv] locked.hyps(3) show ?case by (auto simp: rc_ok_def)
  next
    case (unlocked c hdl K c')
    then obtain L V where inv: "rc_inv c L V (add_mset (hnode hdl) K)" by (auto simp: rc_ok_def)
    from rc_unlock_inv[OF inv] unlocked.hyps(2) show ?case by (auto simp: rc_ok_def)
  next
    case (evicted c K need c' ev)
    then show ?case using rc_evict_ok by (auto simp: rc_ok_def)
  qed
  then show ?thesis using weigh_nonneg unfolding rc_ok_def rc_inv_def by auto
qed

lemma rc_reach_invariant_witness: "rc_ok (the (rc_init 4 7 0)) {#}"
proof -
  from rc_init_ok[of 4 7 0] obtain c where c: "rc_init 4 7 0 = Some c" by auto
  have "rc_reach 4 c {#}" by (rule rc_reach.init[OF _ c]) simp
  from rc_reach_invariant[OF this] c show ?thesis by simp
qed

section \<open>naive_cache.py\<close>

text \<open>\<open>NaivePrefixCache\<close>: no state; every request is a miss and nothing can be evicted.\<close>

definition naive_match_prefix :: "int list \<Rightarrow> nat" where
  "naive_match_prefix input_ids = 0"

definition naive_insert_prefix :: "int list \<Rightarrow> int list \<Rightarrow> nat \<times> nat" where
  "naive_insert_prefix input_ids indices = (0, 0)"

definition naive_evict :: "int \<Rightarrow> int list option" where
  "naive_evict need = (if need = 0 then Some [] else None)"

definition naive_size_info :: size_info where
  "naive_size_info = \<lparr>si_evictable = 0, si_protected = 0\<rparr>"

end
