(* ===== verification/HybridRadix.thy ===== *)
theory HybridRadix
  imports RadixCache
begin

text \<open>
  The two-currency cache of \<^verbatim>\<open>kvcache/hybrid_radix_cache.py\<close> (\<open>HybridRadixCache\<close>):
  the tree, the reference counts and the KV totals are those of the plain cache
  (\<open>hc_kv\<close>: the class repeats that code statement for statement), and a node may own
  one recurrent-state snapshot, counted and evicted on its own.
\<close>

section \<open>State and operations\<close>

record hybrid_cache =
  hc_kv :: radix_cache
  hc_mamba_evictable :: int
  hc_mamba_protected :: int

record hybrid_match =
  hm_kv_indices :: "int list"
  hm_cached_len :: int
  hm_mamba_value :: "nat option"
  hm_node :: nat

definition chunk_size :: nat where
  "chunk_size = 64"

definition hc_init :: "nat \<Rightarrow> int \<Rightarrow> nat \<Rightarrow> hybrid_cache option" where
  "hc_init page_size now cnt = do {
     _ \<leftarrow> py_assert (page_size \<noteq> 0 \<and> chunk_size mod page_size = 0);
     let (h, r) = new_node None now \<lparr>nodes = Map.empty, counter = cnt\<rparr>;
     h \<leftarrow> set_key_value r [] [] h;
     h \<leftarrow> upd_node r (\<lambda>nd. nd\<lparr>ref_count := 1\<rparr>) h;
     Some \<lparr>hc_kv = \<lparr>rc_page_size = page_size, rc_store = h, rc_root = r, rc_evictable = 0, rc_protected = 0\<rparr>,
           hc_mamba_evictable = 0, hc_mamba_protected = 0\<rparr> }"

definition path_len :: "store \<Rightarrow> nat \<Rightarrow> nat option" where
  "path_len h n = up_loop (\<lambda>_. h) (\<lambda>n total. do { nd \<leftarrow> nodes h n; Some (total + nlength nd) }) n 0"

text \<open>Walk up to the deepest node whose end boundary has a live snapshot (\<open>None\<close>: the root is reached).\<close>

partial_function (option) hc_match_loop :: "store \<Rightarrow> nat \<Rightarrow> int \<Rightarrow> hybrid_match option option" where
  "hc_match_loop h cur end_len = do {
     nd \<leftarrow> nodes h cur;
     (case rparent nd of
        None \<Rightarrow> Some None
      | Some p \<Rightarrow>
          (case mamba_value nd of
             Some v \<Rightarrow> do {
               kv \<leftarrow> indices_of h cur;
               Some (Some \<lparr>hm_kv_indices = kv, hm_cached_len = end_len, hm_mamba_value = Some v, hm_node = cur\<rparr>) }
           | None \<Rightarrow> hc_match_loop h p (end_len - int (nlength nd)))) }"

declare hc_match_loop.simps [code]

definition hc_match_prefix :: "int list \<Rightarrow> int \<Rightarrow> hybrid_cache \<Rightarrow> (hybrid_cache \<times> hybrid_match) option" where
  "hc_match_prefix input_ids tic c = do {
     (kv, node, _) \<leftarrow> rc_tree_walk input_ids tic (hc_kv c);
     end_len \<leftarrow> path_len (rc_store kv) node;
     res \<leftarrow> hc_match_loop (rc_store kv) node (int end_len);
     Some (c\<lparr>hc_kv := kv\<rparr>,
       (case res of
          Some m \<Rightarrow> m
        | None \<Rightarrow> \<lparr>hm_kv_indices = [], hm_cached_len = 0, hm_mamba_value = None, hm_node = rc_root kv\<rparr>)) }"

definition set_node :: "nat \<Rightarrow> (rnode \<Rightarrow> rnode) \<Rightarrow> hybrid_cache \<Rightarrow> hybrid_cache option" where
  "set_node n f c = do {
     h \<leftarrow> upd_node n f (rc_store (hc_kv c));
     Some (c\<lparr>hc_kv := (hc_kv c)\<lparr>rc_store := h\<rparr>\<rparr>) }"

definition hc_insert ::
  "int list \<Rightarrow> int list \<Rightarrow> nat \<Rightarrow> int \<Rightarrow> int \<Rightarrow> hybrid_cache \<Rightarrow> (hybrid_cache \<times> nat \<times> bool) option" where
  "hc_insert input_ids kv_indices mv tic now c = do {
     (kv, prefix_len, hdl) \<leftarrow> rc_insert_prefix input_ids kv_indices tic now (hc_kv c);
     let c = c\<lparr>hc_kv := kv\<rparr>;
     let node = hnode hdl;
     nd \<leftarrow> nodes (rc_store kv) node;
     if is_root nd then Some (c, prefix_len, True)
     else if mamba_value nd \<noteq> None then Some (c, prefix_len, True)
     else do {
       c \<leftarrow> set_node node (\<lambda>nd. nd\<lparr>mamba_value := Some mv\<rparr>) c;
       Some (if mamba_ref_count nd = 0 then c\<lparr>hc_mamba_evictable := hc_mamba_evictable c + 1\<rparr> else c,
             prefix_len, False) } }"

definition hc_inc_lock :: "nat \<Rightarrow> hybrid_cache \<Rightarrow> hybrid_cache option" where
  "hc_inc_lock node c = do {
     nd \<leftarrow> nodes (rc_store (hc_kv c)) node;
     c \<leftarrow> (if mamba_value nd \<noteq> None then
             set_node node (\<lambda>nd. nd\<lparr>mamba_ref_count := mamba_ref_count nd + 1\<rparr>)
               (if mamba_ref_count nd = 0
                then c\<lparr>hc_mamba_evictable := hc_mamba_evictable c - 1, hc_mamba_protected := hc_mamba_protected c + 1\<rparr>
                else c)
           else Some c);
     kv \<leftarrow> up_loop rc_store rc_lock_step node (hc_kv c);
     Some (c\<lparr>hc_kv := kv\<rparr>) }"

definition hc_dec_lock :: "nat \<Rightarrow> hybrid_cache \<Rightarrow> hybrid_cache option" where
  "hc_dec_lock node c = do {
     nd \<leftarrow> nodes (rc_store (hc_kv c)) node;
     c \<leftarrow> (if mamba_value nd \<noteq> None \<and> mamba_ref_count nd > 0 then do {
             c \<leftarrow> set_node node (\<lambda>nd. nd\<lparr>mamba_ref_count := mamba_ref_count nd - 1\<rparr>) c;
             Some (if mamba_ref_count nd - 1 = 0
                   then c\<lparr>hc_mamba_evictable := hc_mamba_evictable c + 1, hc_mamba_protected := hc_mamba_protected c - 1\<rparr>
                   else c) }
           else Some c);
     kv \<leftarrow> up_loop rc_store rc_unlock_step node (hc_kv c);
     Some (c\<lparr>hc_kv := kv\<rparr>) }"

definition free_node_mamba :: "nat \<Rightarrow> nat list \<Rightarrow> hybrid_cache \<Rightarrow> (hybrid_cache \<times> nat list) option" where
  "free_node_mamba node out c = do {
     nd \<leftarrow> nodes (rc_store (hc_kv c)) node;
     (case mamba_value nd of
        None \<Rightarrow> Some (c, out)
      | Some v \<Rightarrow> do {
          c \<leftarrow> set_node node (\<lambda>nd. nd\<lparr>mamba_value := None\<rparr>) c;
          Some (if mamba_ref_count nd = 0 then c\<lparr>hc_mamba_evictable := hc_mamba_evictable c - 1\<rparr> else c, out @ [v]) }) }"

text \<open>\<open>_cascade_tombstone_leaves\<close>: reclaim the snapshot-less leaves an unlink exposes upward.\<close>

partial_function (option) cascade_loop ::
  "nat \<Rightarrow> int list list \<Rightarrow> int \<Rightarrow> radix_cache \<Rightarrow> (radix_cache \<times> nat \<times> int list list \<times> int) option" where
  "cascade_loop parent kv_out freed c = do {
     pd \<leftarrow> nodes (rc_store c) parent;
     if mamba_value pd = None \<and> is_leaf pd \<and> ref_count pd = 0 \<and> \<not> is_root pd then do {
       (h, p) \<leftarrow> unlink (rc_page_size c) parent (rc_store c);
       cascade_loop p (kv_out @ [nvalue pd]) (freed + int (nlength pd))
         (c\<lparr>rc_store := h, rc_evictable := rc_evictable c - int (nlength pd)\<rparr>) }
     else Some (c, parent, kv_out, freed) }"

declare cascade_loop.simps [code]

text \<open>
  What both evictions do with a leaf victim: free its KV and its snapshot, unlink it and
  cascade.  Returns the surviving ancestor and the tokens the cascade freed.
\<close>

definition drop_leaf ::
  "nat \<Rightarrow> int list list \<Rightarrow> nat list \<Rightarrow> hybrid_cache \<Rightarrow> (hybrid_cache \<times> nat \<times> int list list \<times> nat list \<times> int) option" where
  "drop_leaf node kv mamba c = do {
     nd \<leftarrow> nodes (rc_store (hc_kv c)) node;
     let kv = kv @ [nvalue nd];
     let c = c\<lparr>hc_kv := (hc_kv c)\<lparr>rc_evictable := rc_evictable (hc_kv c) - int (nlength nd)\<rparr>\<rparr>;
     (c, mamba) \<leftarrow> free_node_mamba node mamba c;
     (h, p) \<leftarrow> unlink (rc_page_size (hc_kv c)) node (rc_store (hc_kv c));
     (kvc, parent, kv, casc) \<leftarrow> cascade_loop p kv 0 ((hc_kv c)\<lparr>rc_store := h\<rparr>);
     Some (c\<lparr>hc_kv := kvc\<rparr>, parent, kv, mamba, casc) }"

definition hc_leaves :: "hybrid_cache \<Rightarrow> nat list option" where
  "hc_leaves c = dfs_loop (\<lambda>nd. is_leaf nd \<and> \<not> is_root nd) (rc_store (hc_kv c)) [rc_root (hc_kv c)] []"

definition snapshot_nodes :: "hybrid_cache \<Rightarrow> nat list option" where
  "snapshot_nodes c =
     dfs_loop (\<lambda>nd. mamba_value nd \<noteq> None \<and> \<not> is_root nd) (rc_store (hc_kv c)) [rc_root (hc_kv c)] []"

partial_function (option) evict_full_loop ::
  "int \<Rightarrow> (nat \<Rightarrow> int) \<Rightarrow> nat list \<Rightarrow> int list list \<Rightarrow> nat list \<Rightarrow> int \<Rightarrow> hybrid_cache \<Rightarrow>
     (hybrid_cache \<times> int list list \<times> nat list) option" where
  "evict_full_loop num ts leaves kv mamba freed c =
     (if freed < num \<and> leaves \<noteq> [] then do {
        (node, leaves) \<leftarrow> heappop ts leaves;
        nd \<leftarrow> nodes (rc_store (hc_kv c)) node;
        if ref_count nd \<noteq> 0 \<or> \<not> is_leaf nd \<or> is_root nd
        then evict_full_loop num ts leaves kv mamba freed c
        else do {
          (c, parent, kv, mamba, casc) \<leftarrow> drop_leaf node kv mamba c;
          pd \<leftarrow> nodes (rc_store (hc_kv c)) parent;
          evict_full_loop num ts
            (if is_leaf pd \<and> ref_count pd = 0 \<and> \<not> is_root pd then heappush ts leaves parent else leaves)
            kv mamba (freed + int (nlength nd) + casc) c } }
      else Some (c, kv, mamba))"

declare evict_full_loop.simps [code]

definition hc_evict_full :: "int \<Rightarrow> hybrid_cache \<Rightarrow> (hybrid_cache \<times> int list \<times> nat list) option" where
  "hc_evict_full num_tokens c = do {
     all \<leftarrow> hc_leaves c;
     let leaves = filter (\<lambda>n. case nodes (rc_store (hc_kv c)) n of None \<Rightarrow> False | Some nd \<Rightarrow> ref_count nd = 0) all;
     let ts = timestamp_of (rc_store (hc_kv c));
     (c, kv, mamba) \<leftarrow> evict_full_loop num_tokens ts (heapify ts leaves) [] [] 0 c;
     Some (c, concat kv, mamba) }"

partial_function (option) evict_mamba_loop ::
  "int \<Rightarrow> (nat \<Rightarrow> int) \<Rightarrow> nat list \<Rightarrow> int list list \<Rightarrow> nat list \<Rightarrow> int \<Rightarrow> hybrid_cache \<Rightarrow>
     (hybrid_cache \<times> int list list \<times> nat list) option" where
  "evict_mamba_loop num ts cands kv mamba freed c =
     (if freed < num \<and> cands \<noteq> [] then do {
        (node, cands) \<leftarrow> heappop ts cands;
        nd \<leftarrow> nodes (rc_store (hc_kv c)) node;
        if mamba_value nd = None \<or> mamba_ref_count nd \<noteq> 0 \<or> is_root nd
        then evict_mamba_loop num ts cands kv mamba freed c
        else if is_leaf nd \<and> ref_count nd = 0 then do {
          (c, parent, kv, mamba, casc) \<leftarrow> drop_leaf node kv mamba c;
          evict_mamba_loop num ts cands kv mamba (freed + 1) c }
        else do {
          (c, mamba) \<leftarrow> free_node_mamba node mamba c;
          evict_mamba_loop num ts cands kv mamba (freed + 1) c } }
      else Some (c, kv, mamba))"

declare evict_mamba_loop.simps [code]

definition hc_evict_mamba :: "int \<Rightarrow> hybrid_cache \<Rightarrow> (hybrid_cache \<times> int list \<times> nat list) option" where
  "hc_evict_mamba num c = do {
     all \<leftarrow> snapshot_nodes c;
     let cands = filter (\<lambda>n. case nodes (rc_store (hc_kv c)) n of None \<Rightarrow> False | Some nd \<Rightarrow> mamba_ref_count nd = 0) all;
     let ts = timestamp_of (rc_store (hc_kv c));
     (c, kv, mamba) \<leftarrow> evict_mamba_loop num ts (heapify ts cands) [] [] 0 c;
     Some (c, concat kv, mamba) }"

definition hc_check_integrity :: "hybrid_cache \<Rightarrow> unit option" where
  "hc_check_integrity c = do {
     ns \<leftarrow> snapshot_nodes c;
     py_assert (list_all (\<lambda>n. case nodes (rc_store (hc_kv c)) n of None \<Rightarrow> False
        | Some nd \<Rightarrow> mamba_value nd \<noteq> None \<and> mamba_ref_count nd \<ge> 0 \<and> ref_count nd \<ge> 0) ns) }"

definition hc_size_info :: "hybrid_cache \<Rightarrow> size_info" where
  "hc_size_info c = \<lparr>si_evictable = rc_evictable (hc_kv c), si_protected = rc_protected (hc_kv c)\<rparr>"

section \<open>The invariant\<close>

definition snap_free :: "rnode \<Rightarrow> int" where
  "snap_free nd = (if mamba_value nd \<noteq> None \<and> mamba_ref_count nd = 0 then 1 else 0)"

definition snap_held :: "rnode \<Rightarrow> int" where
  "snap_held nd = (if mamba_value nd \<noteq> None \<and> mamba_ref_count nd \<noteq> 0 then 1 else 0)"

definition snap_slot :: "rnode \<Rightarrow> nat multiset" where
  "snap_slot nd = (case mamba_value nd of None \<Rightarrow> {#} | Some v \<Rightarrow> {#v#})"

lemma snap_attrs [simp]: "snap_attr snap_free" "snap_attr snap_held" "snap_attr snap_slot"
  by (auto simp: snap_attr_def snap_free_def snap_held_def snap_slot_def)

definition snaps_ok :: "nat \<Rightarrow> store \<Rightarrow> nat multiset \<Rightarrow> bool" where
  "snaps_ok r h locks \<longleftrightarrow> (\<forall>rd. nodes h r = Some rd \<longrightarrow> mamba_value rd = None) \<and>
     (\<forall>n nd. nodes h n = Some nd \<longrightarrow> n \<noteq> r \<longrightarrow> mamba_ref_count nd = int (count locks n) \<and>
        (n \<in># locks \<longrightarrow> mamba_value nd \<noteq> None))"

lemma snaps_okD:
  assumes "snaps_ok r h K" "nodes h n = Some nd"
  shows snaps_root: "n = r \<Longrightarrow> mamba_value nd = None"
    and snaps_count: "n \<noteq> r \<Longrightarrow> mamba_ref_count nd = int (count K n)"
    and snaps_live: "n \<noteq> r \<Longrightarrow> n \<in># K \<Longrightarrow> mamba_value nd \<noteq> None"
    and snaps_nonneg: "mamba_value nd \<noteq> None \<Longrightarrow> 0 \<le> mamba_ref_count nd"
proof -
  show a: "n = r \<Longrightarrow> mamba_value nd = None" "n \<noteq> r \<Longrightarrow> mamba_ref_count nd = int (count K n)"
    "n \<noteq> r \<Longrightarrow> n \<in># K \<Longrightarrow> mamba_value nd \<noteq> None"
    using assms unfolding snaps_ok_def by blast+
  show "mamba_value nd \<noteq> None \<Longrightarrow> 0 \<le> mamba_ref_count nd" using a(1,2) by (cases "n = r") simp_all
qed

text \<open>Every leaf, those of \<open>X\<close> and the root apart, owns a snapshot.\<close>

definition leaf_live :: "nat set \<Rightarrow> nat \<Rightarrow> store \<Rightarrow> bool" where
  "leaf_live X r h \<longleftrightarrow> (\<forall>n nd. nodes h n = Some nd \<longrightarrow> n \<noteq> r \<longrightarrow> n \<notin> X \<longrightarrow> children nd = [] \<longrightarrow> mamba_value nd \<noteq> None)"

definition hc_inv_except ::
  "nat set \<Rightarrow> hybrid_cache \<Rightarrow> (nat \<Rightarrow> int list) \<Rightarrow> (nat \<Rightarrow> int list) \<Rightarrow> nat multiset \<Rightarrow> bool" where
  "hc_inv_except X c L V locks \<longleftrightarrow> rc_inv (hc_kv c) L V locks \<and>
     snaps_ok (rc_root (hc_kv c)) (rc_store (hc_kv c)) locks \<and>
     leaf_live X (rc_root (hc_kv c)) (rc_store (hc_kv c)) \<and>
     hc_mamba_evictable c = nsum snap_free (rc_store (hc_kv c)) \<and>
     hc_mamba_protected c = nsum snap_held (rc_store (hc_kv c))"

abbreviation hc_inv :: "hybrid_cache \<Rightarrow> (nat \<Rightarrow> int list) \<Rightarrow> (nat \<Rightarrow> int list) \<Rightarrow> nat multiset \<Rightarrow> bool" where
  "hc_inv \<equiv> hc_inv_except {}"

definition hc_ok :: "hybrid_cache \<Rightarrow> nat multiset \<Rightarrow> bool" where
  "hc_ok c locks \<longleftrightarrow> (\<exists>L V. hc_inv c L V locks)"

definition slots :: "hybrid_cache \<Rightarrow> nat multiset" where
  "slots c = nsum snap_slot (rc_store (hc_kv c))"

lemma hc_invD:
  assumes "hc_inv_except X c L V locks"
  shows hc_rc: "rc_inv (hc_kv c) L V locks"
    and hc_snaps: "snaps_ok (rc_root (hc_kv c)) (rc_store (hc_kv c)) locks"
    and hc_live: "leaf_live X (rc_root (hc_kv c)) (rc_store (hc_kv c))"
    and hc_ev: "hc_mamba_evictable c = nsum snap_free (rc_store (hc_kv c))"
    and hc_pr: "hc_mamba_protected c = nsum snap_held (rc_store (hc_kv c))"
  using assms by (auto simp: hc_inv_except_def)

lemma rc_inv_upd:
  assumes inv: "rc_inv c L V K" and n: "nodes (rc_store c) n = Some nd"
    and sh: "shape nd' = shape nd" "counters nd' = counters nd"
  shows "rc_inv (c\<lparr>rc_store := (rc_store c)\<lparr>nodes := (nodes (rc_store c))(n \<mapsto> nd')\<rparr>\<rparr>) L V K"
proof -
  let ?h = "(rc_store c)\<lparr>nodes := (nodes (rc_store c))(n \<mapsto> nd')\<rparr>"
  have ss: "same_shape (rc_store c) ?h" by (rule same_shape_upd[OF n sh(1)])
  have rc: "ref_count nd' = ref_count nd" using sh(2) by (simp add: counters_def)
  have "nlength nd' = nlength nd" using shape_eqD[OF sh(1)] by (simp add: nlength_def)
  then have w: "weigh (rc_root c) g ?h = weigh (rc_root c) g (rc_store c)" if "stable g" for g
    using stableD[OF that sh(2)] n tree_finite[OF rc_tree[OF inv]] by (intro weigh_same) auto
  have "refs_ok (rc_root c) ?h L K"
    by (rule refs_same_shape[OF rc_refs[OF inv] ss]) (use n rc in \<open>auto split: if_splits\<close>)
  moreover have "root_held (rc_root c) ?h"
    using rc_held[OF inv] n rc by (auto simp: root_held_def)
  ultimately show ?thesis
    using tree_same_shape[OF rc_tree[OF inv] ss] w rc_ev[OF inv] rc_pr[OF inv] by (simp add: rc_inv_def)
qed

lemma leaf_held_locked:
  assumes inv: "rc_inv c L V K" and n: "nodes (rc_store c) n = Some nd" "n \<noteq> rc_root c" "children nd = []"
    and ref: "ref_count nd \<noteq> 0"
  shows "n \<in># K"
proof -
  have "0 < holders L K n" using refs_count[OF rc_refs[OF inv] n(1,2)] ref by simp
  then obtain l where l: "l \<in># K" "prefix (L n) (L l)" unfolding holders_pos_iff by blast
  from refs_locks[OF rc_refs[OF inv] l(1)] obtain ld where ld: "nodes (rc_store c) l = Some ld" by blast
  have "l = n"
  proof (rule ccontr)
    assume "l \<noteq> n"
    from up_last_child[OF rc_tree[OF inv] prefix_up[OF rc_tree[OF inv] n(1) ld l(2)] this ld] n show False by auto
  qed
  with l(1) show ?thesis by simp
qed

lemma snaps_grows:
  "grows ps r h L V h' L' V' \<Longrightarrow> set_mset K \<subseteq> dom (nodes h) \<Longrightarrow> snaps_ok r h K \<Longrightarrow> leaf_live {} r h \<Longrightarrow>
     snaps_ok r h' K \<and> leaf_live {} r h'"
proof (induction rule: grows.induct)
  case (stamp h1 L1 V1 n nd t)
  then have "snaps_ok r h1 K" "leaf_live {} r h1" by blast+
  with stamp.hyps(2) show ?case by (auto simp: snaps_ok_def leaf_live_def)
next
  case (split h1 L1 V1 n nd pos p pd m now)
  then have ih: "snaps_ok r h1 K" "leaf_live {} r h1" by blast+
  note ok = grows_tree_ok[OF split.hyps(1)]
  have m: "nodes h1 m = None" using counter_fresh[OF ok] split.hyps(9) by simp
  then have mr: "m \<noteq> r" using tree_root[OF ok] by auto
  have "m \<notin> dom (nodes h)" using m grows_labels[OF split.hyps(1)] by auto
  then have mK: "m \<notin># K" using split.prems(1) by blast
  have "AList.update k v cs \<noteq> []" for k v and cs :: "(dkey \<times> nat) list" by (cases cs) auto
  with ih m mK mr split.hyps show ?case
    unfolding snaps_ok_def leaf_live_def
    by (auto simp: split_top_def split_bot_def not_in_iff split: if_splits)
qed simp

section \<open>Matching\<close>

lemma hc_walk_inv:
  assumes inv: "hc_inv c L V K"
  shows "\<exists>kv w len L' V' wd. rc_tree_walk ids tic (hc_kv c) = Some (kv, w, len) \<and>
    hc_inv (c\<lparr>hc_kv := kv\<rparr>) L' V' K \<and> rc_root kv = rc_root (hc_kv c) \<and> rc_page_size kv = rc_page_size (hc_kv c) \<and>
    rc_evictable kv = rc_evictable (hc_kv c) \<and> rc_protected kv = rc_protected (hc_kv c) \<and>
    grows (rc_page_size kv) (rc_root kv) (rc_store (hc_kv c)) L V (rc_store kv) L' V' \<and>
    nodes (rc_store kv) w = Some wd \<and> L' w = take len ids \<and> len \<le> length ids \<and>
    longest (rc_page_size kv) (rc_store (hc_kv c)) L ids len"
proof -
  note rc = hc_rc[OF inv]
  from rc_walk_inv[OF rc, of ids tic] obtain h w len L' V' wd where
    w: "rc_tree_walk ids tic (hc_kv c) = Some ((hc_kv c)\<lparr>rc_store := h\<rparr>, w, len)"
      "rc_inv ((hc_kv c)\<lparr>rc_store := h\<rparr>) L' V' K"
      "grows (rc_page_size (hc_kv c)) (rc_root (hc_kv c)) (rc_store (hc_kv c)) L V h L' V'"
      "nodes h w = Some wd" "L' w = take len ids" "len \<le> length ids"
      "longest (rc_page_size (hc_kv c)) (rc_store (hc_kv c)) L ids len" by blast
  have "set_mset K \<subseteq> dom (nodes (rc_store (hc_kv c)))" using rc_refs[OF rc] by (simp add: refs_ok_def)
  from snaps_grows[OF w(3) this hc_snaps[OF inv] hc_live[OF inv]] grows_nsum[OF w(3) snap_attrs(1)]
    grows_nsum[OF w(3) snap_attrs(2)] w(2) hc_ev[OF inv] hc_pr[OF inv]
  have "hc_inv (c\<lparr>hc_kv := (hc_kv c)\<lparr>rc_store := h\<rparr>\<rparr>) L' V' K" by (simp add: hc_inv_except_def)
  with w show ?thesis
    by - (rule exI[of _ "(hc_kv c)\<lparr>rc_store := h\<rparr>"], rule exI[of _ w], rule exI[of _ len], rule exI[of _ L'],
        rule exI[of _ V'], rule exI[of _ wd], simp)
qed

lemma path_len_ok:
  assumes ok: "tree_ok ps r h L V" and n: "nodes h n = Some nd"
  shows "path_len h n = Some (length (L n))"
proof -
  let ?body = "\<lambda>n t. do { nd \<leftarrow> nodes h n; Some (t + nlength nd) }"
  from tree_root[OF ok] obtain rd where rd: "nodes h r = Some rd" "rparent rd = None" by blast
  have gen: "ofold ?body xs acc = Some (acc + length (L m))" if "chain h r m xs" for xs m acc
    using that
  proof (induction xs arbitrary: m acc)
    case Nil
    with tree_root_labels[OF ok] show ?case by simp
  next
    case (Cons x xs)
    then obtain md p where md: "x = m" "m \<noteq> r" "nodes h m = Some md" "rparent md = Some p" "chain h r p xs" by auto
    with Cons.IH[OF md(5)] tree_parent[OF ok md(3,2)] show ?case by (auto simp: nlength_def)
  qed
  from chain_ex[OF ok n] obtain xs where xs: "chain h r n xs" by blast
  have "up_loop (\<lambda>_. h) ?body n 0 = ofold ?body xs 0"
    by (rule up_loop_chain[OF xs rd]) simp_all
  with gen[OF xs, of 0] show ?thesis by (simp add: path_len_def)
qed

text \<open>The loop stops at the deepest snapshot among the ancestors.\<close>

definition deepest_snap :: "nat \<Rightarrow> store \<Rightarrow> (nat \<Rightarrow> int list) \<Rightarrow> (nat \<Rightarrow> int list) \<Rightarrow> nat \<Rightarrow> hybrid_match option \<Rightarrow> bool" where
  "deepest_snap r h L V n res \<longleftrightarrow>
     (case res of
        None \<Rightarrow> \<forall>m\<in>ancs h r L n. \<forall>md. nodes h m = Some md \<longrightarrow> mamba_value md = None
      | Some hm \<Rightarrow> hm_node hm \<in> ancs h r L n \<and> hm_cached_len hm = int (length (L (hm_node hm))) \<and>
          hm_kv_indices hm = V (hm_node hm) \<and>
          (\<exists>v nd. nodes h (hm_node hm) = Some nd \<and> mamba_value nd = Some v \<and> hm_mamba_value hm = Some v) \<and>
          (\<forall>m\<in>ancs h r L n. \<forall>md. nodes h m = Some md \<longrightarrow> mamba_value md \<noteq> None \<longrightarrow>
             length (L m) \<le> length (L (hm_node hm))))"

lemma hc_match_loop_ok:
  "tree_ok ps r h L V \<Longrightarrow> nodes h n = Some nd \<Longrightarrow>
     \<exists>res. hc_match_loop h n (int (length (L n))) = Some res \<and> deepest_snap r h L V n res"
proof (induction "length (L n)" arbitrary: n nd rule: less_induct)
  case less
  note ok = less.prems(1) and n = less.prems(2)
  show ?case
  proof (cases "n = r")
    case True
    with tree_is_root[OF ok n] n show ?thesis
      by (subst hc_match_loop.simps) (simp add: deepest_snap_def ancs_root[OF ok])
  next
    case False
    from tree_parent[OF ok n False] obtain p pd where p: "rparent nd = Some p" "nodes h p = Some pd"
      "L n = L p @ nkey nd" "nkey nd \<noteq> []" by blast
    note an = ancs_parent[OF ok n False p(1)]
    show ?thesis
    proof (cases "mamba_value nd")
      case (Some v)
      have "length (L m) \<le> length (L n)" if "m \<in> ancs h r L n" for m
        using that by (auto simp: ancs_def dest: prefix_length_le)
      moreover have "n \<in> ancs h r L n" using an(1) by simp
      ultimately show ?thesis
        using n p(1) Some indices_of_ok[OF ok n]
        by (subst hc_match_loop.simps) (auto simp: deepest_snap_def)
    next
      case None
      have lt: "length (L p) < length (L n)" using p(3,4) by simp
      from less.hyps[OF lt ok p(2)] obtain res where
        res: "hc_match_loop h p (int (length (L p))) = Some res" "deepest_snap r h L V p res" by blast
      have "int (length (L n)) - int (nlength nd) = int (length (L p))" using p(3) by (simp add: nlength_def)
      then have "hc_match_loop h n (int (length (L n))) = Some res"
        using n p(1) None res(1) by (subst hc_match_loop.simps) simp
      moreover have "deepest_snap r h L V n res"
        using res(2) None n unfolding deepest_snap_def an(1) by (auto split: option.splits)
      ultimately show ?thesis by blast
    qed
  qed
qed

section \<open>Inserting and locking\<close>

lemma snaps_insert:
  assumes sh: "insert_shape ps r h L V now n h'" and K: "set_mset K \<subseteq> dom (nodes h)"
    and ok: "snaps_ok r h K" "leaf_live {} r h"
  shows "snaps_ok r h' K \<and> leaf_live {n} r h' \<and> (\<forall>f::rnode \<Rightarrow> 'a::comm_monoid_add. snap_attr f \<longrightarrow> nsum f h' = nsum f h)"
proof -
  from sh obtain h1 L1 V1 where g: "grows ps r h L V h1 L1 V1"
    and d: "h' = h1 \<or> (\<exists>w wd k v. nodes h1 w = Some wd \<and> n = counter h1 \<and>
        h' = h1\<lparr>nodes := (nodes h1)(n \<mapsto> leaf_node None now w k v,
              w \<mapsto> wd\<lparr>children := AList.update (pkey ps k) n (children wd)\<rparr>), counter := Suc n\<rparr>)"
    unfolding insert_shape_def by blast
  note ok1 = grows_tree_ok[OF g]
  have s1: "snaps_ok r h1 K" "leaf_live {} r h1" using snaps_grows[OF g K ok] by simp_all
  have n1: "nsum f h1 = nsum f h" if "snap_attr f" for f :: "rnode \<Rightarrow> 'a" by (rule grows_nsum[OF g that])
  from d show ?thesis
  proof
    assume "h' = h1"
    with s1 n1 show ?thesis by (auto simp: leaf_live_def)
  next
    assume "\<exists>w wd k v. nodes h1 w = Some wd \<and> n = counter h1 \<and>
        h' = h1\<lparr>nodes := (nodes h1)(n \<mapsto> leaf_node None now w k v,
              w \<mapsto> wd\<lparr>children := AList.update (pkey ps k) n (children wd)\<rparr>), counter := Suc n\<rparr>"
    then obtain w wd k v where w: "nodes h1 w = Some wd" "n = counter h1"
      "h' = h1\<lparr>nodes := (nodes h1)(n \<mapsto> leaf_node None now w k v,
              w \<mapsto> wd\<lparr>children := AList.update (pkey ps k) n (children wd)\<rparr>), counter := Suc n\<rparr>" by blast
    have f: "nodes h1 n = None" using counter_fresh[OF ok1] w(2) by simp
    then have ne: "n \<noteq> w" "n \<noteq> r" using w(1) tree_root[OF ok1] by auto
    have "n \<notin> dom (nodes h)" using f grows_labels[OF g] by auto
    then have nK: "n \<notin># K" using K by blast
    have "AList.update k v cs \<noteq> []" for k v and cs :: "(dkey \<times> nat) list" by (cases cs) auto
    with s1 ne nK w(1) have "snaps_ok r h' K \<and> leaf_live {n} r h'"
      unfolding w(3) snaps_ok_def leaf_live_def
      by (auto simp: leaf_node_def not_in_iff split: if_splits)
    moreover have "nsum f h' = nsum f h" if "snap_attr f" for f :: "rnode \<Rightarrow> 'a"
      unfolding w(3) using add_leaf_nsum[OF ok1 w(1,2) that] n1[OF that] by simp
    ultimately show ?thesis by blast
  qed
qed

text \<open>Writing a snapshot field of one node.\<close>

lemma set_node_Some:
  "nodes (rc_store (hc_kv c)) n = Some nd \<Longrightarrow>
     set_node n f c = Some (c\<lparr>hc_kv := (hc_kv c)\<lparr>rc_store :=
        (rc_store (hc_kv c))\<lparr>nodes := (nodes (rc_store (hc_kv c)))(n \<mapsto> f nd)\<rparr>\<rparr>\<rparr>)"
  by (simp add: set_node_def upd_node_Some)

lemma nsum_int_change:
  fixes f :: "rnode \<Rightarrow> int"
  assumes "finite (dom (nodes h))" "nodes h n = Some nd"
  shows "nsum f (h\<lparr>nodes := (nodes h)(n \<mapsto> nd')\<rparr>) = nsum f h - f nd + f nd'"
  using nsum_change[OF assms, of f nd'] by simp

lemma hc_insert_inv:
  assumes inv: "hc_inv c L V K" and len: "length indices = length ids"
    and n: "n = align_down (length ids) (rc_page_size (hc_kv c))"
  shows "\<exists>c' m ex L' V'. hc_insert ids indices mv tic now c = Some (c', m, ex) \<and> hc_inv c' L' V' K \<and>
    same_labels (rc_store (hc_kv c)) L V L' V' \<and> dom (nodes (rc_store (hc_kv c))) \<subseteq> dom (nodes (rc_store (hc_kv c'))) \<and>
    m \<le> n \<and> longest_cached (rc_page_size (hc_kv c)) (rc_store (hc_kv c)) (take n ids) m \<and>
    owned (rc_store (hc_kv c')) = owned (rc_store (hc_kv c)) + mset (slice m n indices) \<and>
    slots c' = slots c + (if ex then {#} else {#mv#}) \<and>
    (\<exists>w wd. nodes (rc_store (hc_kv c')) w = Some wd \<and> L' w = take n ids \<and> (n \<noteq> 0 \<longrightarrow> mamba_value wd \<noteq> None))"
proof -
  let ?r = "rc_root (hc_kv c)" and ?h = "rc_store (hc_kv c)"
  note rc = hc_rc[OF inv]
  from rc_insert_inv[OF rc len n refl, of tic now] obtain kv m hdl L' V' wd where
    i: "rc_insert_prefix ids indices tic now (hc_kv c) = Some (kv, m, hdl)" "rc_inv kv L' V' K"
    "dom (nodes ?h) \<subseteq> dom (nodes (rc_store kv))" "same_labels ?h L V L' V'" "m \<le> n"
    "longest_cached (rc_page_size (hc_kv c)) ?h (take n ids) m"
    "nodes (rc_store kv) (hnode hdl) = Some wd" "L' (hnode hdl) = take n ids"
    "owned (rc_store kv) = owned ?h + mset (slice m n indices)" "rc_root kv = ?r"
    "insert_shape (rc_page_size (hc_kv c)) ?r ?h L V now (hnode hdl) (rc_store kv)" by blast
  let ?w = "hnode hdl"
  have K: "set_mset K \<subseteq> dom (nodes ?h)" using rc_refs[OF rc] by (simp add: refs_ok_def)
  note sI = snaps_insert[OF i(11) K hc_snaps[OF inv] hc_live[OF inv]]
  have sn: "snaps_ok ?r (rc_store kv) K" "leaf_live {?w} ?r (rc_store kv)" using sI[where ?'a = int] by simp_all
  have ns: "nsum snap_free (rc_store kv) = hc_mamba_evictable c" "nsum snap_held (rc_store kv) = hc_mamba_protected c"
    using sI[where ?'a = int] hc_ev[OF inv] hc_pr[OF inv] by simp_all
  have nsl: "nsum snap_slot (rc_store kv) = slots c"
    using sI[where ?'a = "nat multiset"] by (simp add: slots_def)
  have root: "is_root wd \<longleftrightarrow> ?w = ?r"
    using tree_is_root[OF rc_tree[OF i(2)] i(7)] i(10) by (simp add: is_root_def)
  have nle: "n \<le> length ids" by (simp add: n)
  have rootn: "?w = ?r \<longleftrightarrow> n = 0"
    using tree_root_iff[OF rc_tree[OF i(2)] i(7)] i(8,10) nle by (auto simp: take_eq_Nil)
  let ?c1 = "c\<lparr>hc_kv := kv\<rparr>"
  show ?thesis
  proof (cases "is_root wd \<or> mamba_value wd \<noteq> None")
    case True
    have "leaf_live {} ?r (rc_store kv)"
      unfolding leaf_live_def
    proof (intro allI impI)
      fix x xd assume x: "nodes (rc_store kv) x = Some xd" "x \<noteq> ?r" "children xd = []"
      with sn(2) True root i(7) show "mamba_value xd \<noteq> None" by (cases "x = ?w") (auto simp: leaf_live_def)
    qed
    then have inv1: "hc_inv ?c1 L' V' K" using i(2,10) sn ns by (simp add: hc_inv_except_def)
    have run: "hc_insert ids indices mv tic now c = Some (?c1, m, True)"
      using i(1,7) True by (auto simp: hc_insert_def Let_def)
    show ?thesis
      by (rule exI[of _ ?c1], rule exI[of _ m], rule exI[of _ True], rule exI[of _ L'], rule exI[of _ V'])
        (use run inv1 i(3-9) nsl True root rootn in \<open>auto simp: slots_def intro!: exI[of _ ?w]\<close>)
  next
    case False
    let ?wd = "wd\<lparr>mamba_value := Some mv\<rparr>"
    let ?h' = "(rc_store kv)\<lparr>nodes := (nodes (rc_store kv))(?w \<mapsto> ?wd)\<rparr>"
    let ?kv = "kv\<lparr>rc_store := ?h'\<rparr>"
    have wr: "?w \<noteq> ?r" using False root by simp
    have mr: "mamba_ref_count wd = 0"
      using snaps_count[OF sn(1) i(7) wr] snaps_live[OF sn(1) i(7) wr] False by (auto simp: count_eq_zero_iff)
    let ?c2 = "?c1\<lparr>hc_kv := ?kv, hc_mamba_evictable := hc_mamba_evictable c + 1\<rparr>"
    have run: "hc_insert ids indices mv tic now c = Some (?c2, m, False)"
      using i(1,7) False mr set_node_Some[of ?c1 ?w wd] by (simp add: hc_insert_def)
    have rc2: "rc_inv ?kv L' V' K" by (rule rc_inv_upd[OF i(2,7)]) (simp_all add: shape_def counters_def)
    have fin: "finite (dom (nodes (rc_store kv)))" by (rule tree_finite[OF rc_tree[OF i(2)]])
    have "nsum snap_free ?h' = hc_mamba_evictable c + 1" "nsum snap_held ?h' = hc_mamba_protected c"
      using nsum_int_change[OF fin i(7)] ns mr False by (simp_all add: snap_free_def snap_held_def)
    moreover have "snaps_ok ?r ?h' K" using sn(1) wr i(7) by (auto simp: snaps_ok_def)
    moreover have "leaf_live {} ?r ?h'" using sn(2) by (auto simp: leaf_live_def)
    ultimately have inv2: "hc_inv ?c2 L' V' K" using rc2 i(10) by (simp add: hc_inv_except_def)
    have sl: "slots ?c2 = slots c + {#mv#}"
      using nsum_change[OF fin i(7), of snap_slot ?wd] False nsl by (simp add: slots_def snap_slot_def)
    have own: "owned ?h' = owned (rc_store kv)" by (rule owned_same[OF fin i(7)]) simp
    show ?thesis
      by (rule exI[of _ ?c2], rule exI[of _ m], rule exI[of _ False], rule exI[of _ L'], rule exI[of _ V'])
        (use run inv2 i(3-9) sl own in \<open>auto intro!: exI[of _ ?w]\<close>)
  qed
qed

lemma hc_lock_kv:
  assumes rc: "rc_inv kv L V K" and mid: "lock_mid kv d X kv'" and K': "rc_inv kv' L V K'"
    and d: "\<And>n. n \<noteq> rc_root kv \<Longrightarrow> count K' n = count K n \<or> n \<in> Y"
    and s: "snaps_ok (rc_root kv) (rc_store kv) K'" and l: "leaf_live {} (rc_root kv) (rc_store kv)"
  shows "snaps_ok (rc_root kv) (rc_store kv') K' \<and> leaf_live {} (rc_root kv) (rc_store kv') \<and>
    nsum snap_free (rc_store kv') = nsum snap_free (rc_store kv) \<and>
    nsum snap_held (rc_store kv') = nsum snap_held (rc_store kv) \<and>
    nsum snap_slot (rc_store kv') = nsum snap_slot (rc_store kv) \<and> rc_root kv' = rc_root kv"
proof -
  have at: "nodes (rc_store kv') n = map_option (\<lambda>nd. nd\<lparr>ref_count := ref_count nd + (if n \<in> X then d else 0)\<rparr>) (nodes (rc_store kv) n)"
    for n using mid by (simp add: lock_mid_def)
  have dom: "dom (nodes (rc_store kv')) = dom (nodes (rc_store kv))" by (auto simp: at)
  have "nsum f (rc_store kv') = nsum f (rc_store kv)"
    if "\<And>nd k. f (nd\<lparr>ref_count := k\<rparr>) = f nd" for f :: "rnode \<Rightarrow> 'a::comm_monoid_add"
    by (rule nsum_cong[OF dom]) (auto simp: at that)
  moreover have "nsum f (rc_store kv') = nsum f (rc_store kv)"
    if "\<And>nd k. f (nd\<lparr>ref_count := k\<rparr>) = f nd" for f :: "rnode \<Rightarrow> int"
    by (rule nsum_cong[OF dom]) (auto simp: at that)
  moreover have "nsum snap_slot (rc_store kv') = nsum snap_slot (rc_store kv)"
    by (rule nsum_cong[OF dom]) (auto simp: at snap_slot_def)
  ultimately show ?thesis
    using s l mid by (auto simp: snaps_ok_def leaf_live_def at snap_free_def snap_held_def lock_mid_def)
qed

text \<open>Taking a lock on a live snapshot (or on the root, which locks nothing).\<close>

lemma hc_inc_lock_inv:
  assumes inv: "hc_inv c L V K" and n: "nodes (rc_store (hc_kv c)) n = Some nd"
    and live: "n = rc_root (hc_kv c) \<or> mamba_value nd \<noteq> None"
  shows "\<exists>c'. hc_inc_lock n c = Some c' \<and> hc_inv c' L V (add_mset n K) \<and>
    same_shape (rc_store (hc_kv c)) (rc_store (hc_kv c')) \<and> slots c' = slots c"
proof -
  let ?r = "rc_root (hc_kv c)" and ?h = "rc_store (hc_kv c)"
  note rc = hc_rc[OF inv]
  have fin: "finite (dom (nodes ?h))" by (rule tree_finite[OF rc_tree[OF rc]])
  let ?nd = "nd\<lparr>mamba_ref_count := mamba_ref_count nd + 1\<rparr>"
  define c1 where "c1 = (if mamba_value nd \<noteq> None then
      (if mamba_ref_count nd = 0 then c\<lparr>hc_mamba_evictable := hc_mamba_evictable c - 1, hc_mamba_protected := hc_mamba_protected c + 1\<rparr> else c)
        \<lparr>hc_kv := (hc_kv c)\<lparr>rc_store := ?h\<lparr>nodes := (nodes ?h)(n \<mapsto> ?nd)\<rparr>\<rparr>\<rparr> else c)"
  have rootnone: "n = ?r \<Longrightarrow> mamba_value nd = None" using hc_snaps[OF inv] n by (auto simp: snaps_ok_def)
  have ref0: "0 \<le> mamba_ref_count nd" if "mamba_value nd \<noteq> None"
    by (rule snaps_nonneg[OF hc_snaps[OF inv] n that])
  have rc1: "rc_inv (hc_kv c1) L V K"
    using rc rc_inv_upd[OF rc n, of ?nd] by (simp add: c1_def shape_def counters_def)
  have r1: "rc_root (hc_kv c1) = ?r" by (simp add: c1_def)
  have s1: "snaps_ok ?r (rc_store (hc_kv c1)) (add_mset n K)"
    using hc_snaps[OF inv] n live rootnone by (auto simp: c1_def snaps_ok_def)
  have l1: "leaf_live {} ?r (rc_store (hc_kv c1))"
    using hc_live[OF inv] n by (auto simp: c1_def leaf_live_def)
  have e1: "hc_mamba_evictable c1 = nsum snap_free (rc_store (hc_kv c1))"
    "hc_mamba_protected c1 = nsum snap_held (rc_store (hc_kv c1))"
    using hc_ev[OF inv] hc_pr[OF inv] ref0 nsum_int_change[OF fin n]
    by (cases "mamba_value nd"; cases "mamba_ref_count nd = 0"; force simp: c1_def snap_free_def snap_held_def)+
  have sl1: "slots c1 = slots c"
    using nsum_same[OF fin n, of snap_slot ?nd] by (simp add: slots_def c1_def snap_slot_def)
  have sh1: "same_shape ?h (rc_store (hc_kv c1))"
    using same_shape_upd[OF n, of ?nd] by (simp add: c1_def shape_def)
  from same_shapeD2[OF sh1 n] obtain nd1 where n1: "nodes (rc_store (hc_kv c1)) n = Some nd1" by blast
  from rc_lock_inv[OF rc1, of "\<lparr>cached_len = 0, hnode = n\<rparr>"] n1 obtain kv' where
    k: "up_loop rc_store rc_lock_step n (hc_kv c1) = Some kv'" "rc_inv kv' L V (add_mset n K)"
      "lock_mid (hc_kv c1) 1 (ancs (rc_store (hc_kv c1)) (rc_root (hc_kv c1)) L n) kv'"
      "same_shape (rc_store (hc_kv c1)) (rc_store kv')" by (auto simp: rc_lock_handle_def)
  have "count (add_mset n K) x = count K x \<or> x \<in> {n}" for x by simp
  note hk = hc_lock_kv[OF rc1 k(3,2) this _ l1[folded r1]]
  have inv': "hc_inv (c1\<lparr>hc_kv := kv'\<rparr>) L V (add_mset n K)"
    using hk s1 k(2) r1 e1 by (simp add: hc_inv_except_def)
  have "hc_inc_lock n c = Some (c1\<lparr>hc_kv := kv'\<rparr>)"
    using n k(1) set_node_Some[of "c\<lparr>hc_mamba_evictable := hc_mamba_evictable c - 1, hc_mamba_protected := hc_mamba_protected c + 1\<rparr>" n nd]
      set_node_Some[of c n nd]
    by (auto simp: hc_inc_lock_def c1_def)
  moreover have "slots (c1\<lparr>hc_kv := kv'\<rparr>) = slots c" using hk s1 r1 sl1 by (simp add: slots_def)
  ultimately show ?thesis
    using inv' same_shape_trans[OF sh1 k(4)] by auto
qed

lemma hc_dec_lock_inv:
  assumes inv: "hc_inv c L V (add_mset n K)"
  shows "\<exists>c'. hc_dec_lock n c = Some c' \<and> hc_inv c' L V K \<and>
    same_shape (rc_store (hc_kv c)) (rc_store (hc_kv c')) \<and> slots c' = slots c"
proof -
  let ?r = "rc_root (hc_kv c)" and ?h = "rc_store (hc_kv c)"
  note rc = hc_rc[OF inv]
  from refs_locks[OF rc_refs[OF rc], of n] obtain nd where n: "nodes ?h n = Some nd" by auto
  have fin: "finite (dom (nodes ?h))" by (rule tree_finite[OF rc_tree[OF rc]])
  let ?nd = "nd\<lparr>mamba_ref_count := mamba_ref_count nd - 1\<rparr>"
  define c1 where "c1 = (if mamba_value nd \<noteq> None then
      (if mamba_ref_count nd - 1 = 0 then c\<lparr>hc_mamba_evictable := hc_mamba_evictable c + 1, hc_mamba_protected := hc_mamba_protected c - 1\<rparr> else c)
        \<lparr>hc_kv := (hc_kv c)\<lparr>rc_store := ?h\<lparr>nodes := (nodes ?h)(n \<mapsto> ?nd)\<rparr>\<rparr>\<rparr> else c)"
  have rootnone: "n = ?r \<Longrightarrow> mamba_value nd = None" using hc_snaps[OF inv] n by (auto simp: snaps_ok_def)
  have live: "mamba_value nd \<noteq> None" "0 < mamba_ref_count nd" if "n \<noteq> ?r"
    using hc_snaps[OF inv] n that by (auto simp: snaps_ok_def)
  have live_pos: "0 < mamba_ref_count nd" if "mamba_value nd \<noteq> None"
    using live(2) rootnone that by blast
  have rc1: "rc_inv (hc_kv c1) L V (add_mset n K)"
    using rc rc_inv_upd[OF rc n, of ?nd] by (simp add: c1_def shape_def counters_def)
  have r1: "rc_root (hc_kv c1) = ?r" by (simp add: c1_def)
  have s1: "snaps_ok ?r (rc_store (hc_kv c1)) K"
  proof (cases "n = ?r")
    case True
    with hc_snaps[OF inv] rootnone show ?thesis by (auto simp: c1_def snaps_ok_def)
  next
    case False
    with hc_snaps[OF inv] n live show ?thesis by (auto simp: c1_def snaps_ok_def)
  qed
  have l1: "leaf_live {} ?r (rc_store (hc_kv c1))"
    using hc_live[OF inv] n by (auto simp: c1_def leaf_live_def)
  have e1: "hc_mamba_evictable c1 = nsum snap_free (rc_store (hc_kv c1))"
    "hc_mamba_protected c1 = nsum snap_held (rc_store (hc_kv c1))"
    using hc_ev[OF inv] hc_pr[OF inv] live_pos nsum_int_change[OF fin n]
    by (cases "mamba_value nd"; cases "mamba_ref_count nd = 1"; force simp: c1_def snap_free_def snap_held_def)+
  have sl1: "slots c1 = slots c"
    using nsum_same[OF fin n, of snap_slot ?nd] by (simp add: slots_def c1_def snap_slot_def)
  have sh1: "same_shape ?h (rc_store (hc_kv c1))"
    using same_shape_upd[OF n, of ?nd] by (simp add: c1_def shape_def)
  from rc_unlock_inv[where h = "\<lparr>cached_len = 0, hnode = n\<rparr>"] rc1 obtain kv' where
    k: "up_loop rc_store rc_unlock_step n (hc_kv c1) = Some kv'" "rc_inv kv' L V K"
      "lock_mid (hc_kv c1) (-1) (ancs (rc_store (hc_kv c1)) (rc_root (hc_kv c1)) L n) kv'"
      "same_shape (rc_store (hc_kv c1)) (rc_store kv')" by (fastforce simp: rc_lock_handle_def)
  have "count K x = count (add_mset n K) x \<or> x \<in> {n}" for x by simp
  note hk = hc_lock_kv[OF rc1 k(3,2) this _ l1[folded r1]]
  have inv': "hc_inv (c1\<lparr>hc_kv := kv'\<rparr>) L V K"
    using hk s1 k(2) r1 e1 by (simp add: hc_inv_except_def)
  have "hc_dec_lock n c = Some (c1\<lparr>hc_kv := kv'\<rparr>)"
    using n k(1) set_node_Some[of c n nd] live rootnone
    by (cases "n = ?r") (auto simp: hc_dec_lock_def c1_def)
  moreover have "slots (c1\<lparr>hc_kv := kv'\<rparr>) = slots c" using hk s1 r1 sl1 by (simp add: slots_def)
  ultimately show ?thesis
    using inv' same_shape_trans[OF sh1 k(4)] by auto
qed

section \<open>Cascades and victims\<close>

definition snap_set :: "store \<Rightarrow> nat set" where
  "snap_set h = {n. \<exists>nd. nodes h n = Some nd \<and> mamba_value nd \<noteq> None \<and> mamba_ref_count nd = 0}"

lemma snap_free_card:
  "finite (dom (nodes h)) \<Longrightarrow> nsum snap_free h = int (card (snap_set h))"
  using nsum_card[of h "\<lambda>nd. mamba_value nd \<noteq> None \<and> mamba_ref_count nd = 0"]
  by (simp add: snap_free_def[abs_def] snap_set_def)

text \<open>Unlinking a snapshot-less free leaf keeps every account of snapshots.\<close>

lemma unlink_no_snap:
  assumes ok: "tree_ok ps r h L V" and x: "nodes h x = Some xd" "mamba_value xd = None"
    and p: "nodes h p = Some pd" "p \<noteq> x" and h': "h' = h\<lparr>nodes := (nodes h)(p \<mapsto> pd\<lparr>children := cs\<rparr>, x := None)\<rparr>"
    and s: "snaps_ok r h K" and l: "leaf_live {x} r h"
  shows "snaps_ok r h' K" "leaf_live {p} r h'" "snap_set h' = snap_set h"
    "snap_attr f \<Longrightarrow> nsum f h' = nsum f h"
proof -
  show "snaps_ok r h' K" using s p unfolding snaps_ok_def h' by (auto split: if_splits)
  show "leaf_live {p} r h'" using l p unfolding leaf_live_def h' by (auto split: if_splits)
  show "snap_set h' = snap_set h" unfolding snap_set_def h' using x p by auto
  show "nsum f h' = nsum f h" if "snap_attr f"
    unfolding h' using unlink_nsum[OF ok x(1) p that] snap_attrD(1)[OF that x(2)] by simp
qed

lemma cascade_ok:
  "rc_inv c L V K \<Longrightarrow> snaps_ok (rc_root c) (rc_store c) K \<Longrightarrow> leaf_live {p} (rc_root c) (rc_store c) \<Longrightarrow>
   nodes (rc_store c) p = Some pd \<Longrightarrow>
   \<exists>c' p' out' n'. cascade_loop p out freed c = Some (c', p', out @ out', freed + n') \<and> rc_inv c' L V K \<and>
     snaps_ok (rc_root c) (rc_store c') K \<and> leaf_live {} (rc_root c) (rc_store c') \<and>
     rc_root c' = rc_root c \<and> rc_page_size c' = rc_page_size c \<and> rc_protected c' = rc_protected c \<and>
     rc_evictable c = rc_evictable c' + n' \<and> n' = int (length (concat out')) \<and>
     owned (rc_store c) = owned (rc_store c') + mset (concat out') \<and> dom (nodes (rc_store c')) \<subseteq> dom (nodes (rc_store c)) \<and>
     p' \<in> dom (nodes (rc_store c')) \<and> free_leaves (rc_store c) - {p} = free_leaves (rc_store c') - {p'} \<and>
     snap_set (rc_store c') = snap_set (rc_store c) \<and> nsum snap_held (rc_store c') = nsum snap_held (rc_store c) \<and>
     nsum snap_slot (rc_store c') = nsum snap_slot (rc_store c)"
proof (induction "card (dom (nodes (rc_store c)))" arbitrary: c p pd out freed rule: less_induct)
  case less
  note inv = less.prems(1) and s = less.prems(2) and l = less.prems(3) and p = less.prems(4)
  note ok = rc_tree[OF inv]
  let ?go = "mamba_value pd = None \<and> is_leaf pd \<and> ref_count pd = 0 \<and> \<not> is_root pd"
  have root: "is_root pd \<longleftrightarrow> p = rc_root c" using tree_is_root[OF ok p] by (simp add: is_root_def)
  show ?case
  proof (cases ?go)
    case False
    have "leaf_live {} (rc_root c) (rc_store c)"
      unfolding leaf_live_def
    proof (intro allI impI)
      fix n nd assume n: "nodes (rc_store c) n = Some nd" "n \<noteq> rc_root c" "children nd = []"
      show "mamba_value nd \<noteq> None"
      proof (cases "n = p")
        case True
        with n p have nd: "nd = pd" by simp
        show ?thesis
        proof (cases "ref_count pd = 0")
          case True2: True
          with False n nd root True show ?thesis by (simp add: is_leaf_def)
        next
          case False
          then have "n \<in># K" using leaf_held_locked[OF inv n] nd by simp
          with snaps_live[OF s n(1,2)] show ?thesis .
        qed
      qed (use l n in \<open>auto simp: leaf_live_def\<close>)
    qed
    moreover have "cascade_loop p out freed c = Some (c, p, out @ [], freed + 0)"
      using p False by (subst cascade_loop.simps) auto
    ultimately show ?thesis
      using inv s p by - (rule exI[of _ c], rule exI[of _ p], rule exI[of _ "[]"], rule exI[of _ 0], auto)
  next
    case True
    then have "p \<in> free_leaves (rc_store c)" using p by (auto simp: free_leaves_def)
    from rc_unlink_leaf[OF inv this] p obtain h q qd cs where u: "0 < nlength pd" "length (nvalue pd) = nlength pd"
      "unlink (rc_page_size c) p (rc_store c) = Some (h, q)" "nodes (rc_store c) q = Some qd" "q \<noteq> p"
      "h = (rc_store c)\<lparr>nodes := (nodes (rc_store c))(q \<mapsto> qd\<lparr>children := cs\<rparr>, p := None)\<rparr>"
      "rc_inv (c\<lparr>rc_store := h, rc_evictable := rc_evictable c - int (nlength pd)\<rparr>) L V K"
      "free_leaves h = (free_leaves (rc_store c) - {p}) \<union> (if cs = [] \<and> ref_count qd = 0 then {q} else {})"
      "q \<notin> free_leaves (rc_store c)" "owned (rc_store c) = owned h + mset (nvalue pd)" by auto
    let ?c = "c\<lparr>rc_store := h, rc_evictable := rc_evictable c - int (nlength pd)\<rparr>"
    note un = unlink_no_snap[OF ok p _ u(4,5,6) s l]
    have dom: "dom (nodes h) = dom (nodes (rc_store c)) - {p}" using u(4,5) unfolding u(6) by auto
    have "card (dom (nodes h)) < card (dom (nodes (rc_store c)))"
      unfolding dom using tree_finite[OF ok] p by (intro psubset_card_mono) auto
    then have i1: "card (dom (nodes (rc_store ?c))) < card (dom (nodes (rc_store c)))" by simp
    have i2: "snaps_ok (rc_root ?c) (rc_store ?c) K" "leaf_live {q} (rc_root ?c) (rc_store ?c)"
      using un(1,2) True by simp_all
    have i3: "nodes (rc_store ?c) q = Some (qd\<lparr>children := cs\<rparr>)" using u(5) unfolding u(6) by simp
    have sel: "rc_store ?c = h" "rc_root ?c = rc_root c" "rc_page_size ?c = rc_page_size c"
      "rc_protected ?c = rc_protected c" by simp_all
    obtain c' p' out' n' where r: "cascade_loop q (out @ [nvalue pd]) (freed + int (nlength pd)) ?c =
        Some (c', p', (out @ [nvalue pd]) @ out', freed + int (nlength pd) + n')" "rc_inv c' L V K"
      "snaps_ok (rc_root c) (rc_store c') K" "leaf_live {} (rc_root c) (rc_store c')"
      "rc_root c' = rc_root c" "rc_page_size c' = rc_page_size c" "rc_protected c' = rc_protected c"
      "rc_evictable ?c = rc_evictable c' + n'" "n' = int (length (concat out'))"
      "owned h = owned (rc_store c') + mset (concat out')" "dom (nodes (rc_store c')) \<subseteq> dom (nodes h)"
      "p' \<in> dom (nodes (rc_store c'))" "free_leaves h - {q} = free_leaves (rc_store c') - {p'}"
      "snap_set (rc_store c') = snap_set h" "nsum snap_held (rc_store c') = nsum snap_held h"
      "nsum snap_slot (rc_store c') = nsum snap_slot h"
      using less.hyps[OF i1 u(7) i2 i3, of "out @ [nvalue pd]" "freed + int (nlength pd)"] unfolding sel
      by (elim exE conjE) (rule that, assumption+)
    have "cascade_loop p out freed c = Some (c', p', out @ (nvalue pd # out'), freed + (int (nlength pd) + n'))"
      using p True u(3) r(1) by (subst cascade_loop.simps) (simp add: add.assoc)
    moreover have "free_leaves (rc_store c) - {p} = free_leaves (rc_store c') - {p'}"
    proof -
      have "free_leaves (rc_store c) - {p} = free_leaves h - {q}"
        unfolding u(8) using u(9) by (auto split: if_splits)
      with r(13) show ?thesis by simp
    qed
    moreover have "owned (rc_store c) = owned (rc_store c') + mset (concat (nvalue pd # out'))"
      using u(10) r(10) by simp
    moreover have "dom (nodes (rc_store c')) \<subseteq> dom (nodes (rc_store c))" using r(11) dom by blast
    moreover have "int (nlength pd) + n' = int (length (concat (nvalue pd # out')))" using r(9) u(2) by simp
    moreover have "rc_evictable c = rc_evictable c' + (int (nlength pd) + n')" using r(8) by simp
    moreover have "nsum snap_held h = nsum snap_held (rc_store c)" "nsum snap_slot h = nsum snap_slot (rc_store c)"
      using un(4)[OF _ snap_attrs(2)] unlink_no_snap(4)[OF ok p _ u(4,5,6) s l snap_attrs(3)] True by simp_all
    ultimately show ?thesis
      using r un(3) True
      by - (rule exI[of _ c'], rule exI[of _ p'], rule exI[of _ "nvalue pd # out'"], rule exI[of _ "int (nlength pd) + n'"], simp)
  qed
qed

lemma drop_leaf_inv:
  assumes inv: "hc_inv c L V K" and x: "x \<in> free_leaves (rc_store (hc_kv c))"
  shows "\<exists>c' p kv' ms casc xd. drop_leaf x kv mamba c = Some (c', p, kv @ kv', mamba @ ms, casc) \<and>
    nodes (rc_store (hc_kv c)) x = Some xd \<and> 0 < nlength xd \<and> hc_inv c' L V K \<and> length ms = 1 \<and>
    slots c = slots c' + mset ms \<and> owned (rc_store (hc_kv c)) = owned (rc_store (hc_kv c')) + mset (concat kv') \<and>
    rc_evictable (hc_kv c) = rc_evictable (hc_kv c') + int (nlength xd) + casc \<and>
    int (nlength xd) + casc = int (length (concat kv')) \<and> 0 \<le> casc \<and>
    rc_root (hc_kv c') = rc_root (hc_kv c) \<and> rc_page_size (hc_kv c') = rc_page_size (hc_kv c) \<and>
    rc_protected (hc_kv c') = rc_protected (hc_kv c) \<and>
    dom (nodes (rc_store (hc_kv c'))) \<subseteq> dom (nodes (rc_store (hc_kv c))) \<and> p \<in> dom (nodes (rc_store (hc_kv c'))) \<and>
    free_leaves (rc_store (hc_kv c)) - {x} = free_leaves (rc_store (hc_kv c')) - {p} \<and>
    p \<notin> free_leaves (rc_store (hc_kv c)) - {x} \<and>
    snap_set (rc_store (hc_kv c')) = snap_set (rc_store (hc_kv c)) - {x}"
proof -
  let ?kv = "hc_kv c" let ?h = "rc_store ?kv" and ?r = "rc_root ?kv"
  note rc = hc_rc[OF inv] and sn = hc_snaps[OF inv]
  have fin: "finite (dom (nodes ?h))" by (rule tree_finite[OF rc_tree[OF rc]])
  from free_leaves_D[OF x rc_held[OF rc]] obtain xd where
    xd: "nodes ?h x = Some xd" "children xd = []" "ref_count xd = 0" "x \<noteq> ?r" by blast
  have xK: "x \<notin># K" by (rule refs_free_not_locked[OF rc_refs[OF rc] xd(1,4,3)])
  have mr: "mamba_ref_count xd = 0" using snaps_count[OF sn xd(1,4)] xK by (simp add: not_in_iff)
  obtain v where v: "mamba_value xd = Some v" using hc_live[OF inv] xd unfolding leaf_live_def by blast
  define nd where "nd = xd\<lparr>mamba_value := None\<rparr>"
  define h2 where "h2 = ?h\<lparr>nodes := (nodes ?h)(x \<mapsto> nd)\<rparr>"
  define kv2 where "kv2 = ?kv\<lparr>rc_store := h2\<rparr>"
  have rc2: "rc_inv kv2 L V K"
    unfolding kv2_def h2_def nd_def by (rule rc_inv_upd[OF rc xd(1)]) (simp_all add: shape_def counters_def)
  have fl2: "free_leaves h2 = free_leaves ?h"
    using xd(1) by (auto simp: free_leaves_def h2_def nd_def is_leaf_def)
  have kv2: "rc_store kv2 = h2" "rc_root kv2 = ?r" "rc_page_size kv2 = rc_page_size ?kv"
    "rc_evictable kv2 = rc_evictable ?kv" "rc_protected kv2 = rc_protected ?kv" by (simp_all add: kv2_def)
  have n2: "nodes h2 x = Some nd" by (simp add: h2_def)
  have len: "nlength nd = nlength xd" "nvalue nd = nvalue xd" by (simp_all add: nd_def nlength_def)
  have "x \<in> free_leaves (rc_store kv2)" using x fl2 kv2(1) by simp
  from rc_unlink_leaf[OF rc2 this, unfolded kv2] n2 obtain h q qd cs where u: "0 < nlength nd"
    "length (nvalue nd) = nlength nd" "unlink (rc_page_size ?kv) x h2 = Some (h, q)" "nodes h2 q = Some qd" "q \<noteq> x"
    "h = h2\<lparr>nodes := (nodes h2)(q \<mapsto> qd\<lparr>children := cs\<rparr>, x := None)\<rparr>"
    "rc_inv (kv2\<lparr>rc_store := h, rc_evictable := rc_evictable ?kv - int (nlength nd)\<rparr>) L V K"
    "free_leaves h = (free_leaves h2 - {x}) \<union> (if cs = [] \<and> ref_count qd = 0 then {q} else {})"
    "q \<notin> free_leaves h2" "owned h2 = owned h + mset (nvalue nd)" by auto
  let ?k3 = "kv2\<lparr>rc_store := h, rc_evictable := rc_evictable ?kv - int (nlength nd)\<rparr>"
  have sn2: "snaps_ok ?r h2 K" using sn xd xK unfolding snaps_ok_def h2_def nd_def by auto
  have ll2: "leaf_live {x} ?r h2" using hc_live[OF inv] unfolding leaf_live_def h2_def by auto
  have nn: "mamba_value nd = None" by (simp add: nd_def)
  note ok2 = rc_tree[OF rc2, unfolded kv2]
  note un = unlink_no_snap[OF ok2 n2 nn u(4,5,6) sn2 ll2]
  have f2: "nsum snap_free h2 = hc_mamba_evictable c - 1" "nsum snap_held h2 = hc_mamba_protected c"
    unfolding h2_def using nsum_int_change[OF fin xd(1)] hc_ev[OF inv] hc_pr[OF inv] v mr
    by (simp_all add: nd_def snap_free_def snap_held_def)
  have sl2: "slots c = nsum snap_slot h2 + {#v#}"
    unfolding h2_def using nsum_change[OF fin xd(1), of snap_slot nd] v by (simp add: slots_def nd_def snap_slot_def)
  have own2: "owned h2 = owned ?h" unfolding h2_def by (rule owned_same[OF fin xd(1)]) (simp add: nd_def)
  have ss2: "snap_set h2 = snap_set ?h - {x}" unfolding snap_set_def h2_def by (auto simp: nd_def)
  have i2: "snaps_ok (rc_root ?k3) (rc_store ?k3) K" "leaf_live {q} (rc_root ?k3) (rc_store ?k3)"
    using un(1,2) kv2 by simp_all
  have i3: "nodes (rc_store ?k3) q = Some (qd\<lparr>children := cs\<rparr>)" using u(5) unfolding u(6) by simp
  have sel: "rc_store ?k3 = h" "rc_root ?k3 = ?r" "rc_page_size ?k3 = rc_page_size ?kv"
    "rc_protected ?k3 = rc_protected ?kv" "rc_evictable ?k3 = rc_evictable ?kv - int (nlength xd)"
    using kv2 len by simp_all
  obtain c' p' out' n' where r: "cascade_loop q (kv @ [nvalue xd]) 0 ?k3 =
      Some (c', p', (kv @ [nvalue xd]) @ out', 0 + n')" "rc_inv c' L V K"
    "snaps_ok ?r (rc_store c') K" "leaf_live {} ?r (rc_store c')"
    "rc_root c' = ?r" "rc_page_size c' = rc_page_size ?kv" "rc_protected c' = rc_protected ?kv"
    "rc_evictable ?kv - int (nlength xd) = rc_evictable c' + n'" "n' = int (length (concat out'))"
    "owned h = owned (rc_store c') + mset (concat out')" "dom (nodes (rc_store c')) \<subseteq> dom (nodes h)"
    "p' \<in> dom (nodes (rc_store c'))" "free_leaves h - {q} = free_leaves (rc_store c') - {p'}"
    "snap_set (rc_store c') = snap_set h" "nsum snap_held (rc_store c') = nsum snap_held h"
    "nsum snap_slot (rc_store c') = nsum snap_slot h"
    using cascade_ok[OF u(7) i2 i3, of "kv @ [nvalue xd]" 0] unfolding sel
    by (elim exE conjE) (rule that, assumption+)
  have sf: "nsum snap_free (rc_store c') = nsum snap_free h"
    using r(14) snap_free_card[OF tree_finite[OF rc_tree[OF r(2)]]] snap_free_card[OF tree_finite[OF rc_tree[OF u(7)]]]
    by simp
  let ?c' = "c\<lparr>hc_kv := c', hc_mamba_evictable := hc_mamba_evictable c - 1\<rparr>"
  have inv': "hc_inv ?c' L V K"
    using r(2-5) r(15) sf f2 un(4)[OF snap_attrs(1)] un(4)[OF snap_attrs(2)] by (simp add: hc_inv_except_def)
  have k3: "(kv2\<lparr>rc_evictable := rc_evictable ?kv - int (nlength xd)\<rparr>)\<lparr>rc_store := h\<rparr> = ?k3"
    using len(1) by simp
  let ?ca = "c\<lparr>hc_kv := ?kv\<lparr>rc_evictable := rc_evictable ?kv - int (nlength xd)\<rparr>\<rparr>"
  have fm: "free_node_mamba x mamba ?ca = Some (c\<lparr>hc_kv := kv2\<lparr>rc_evictable := rc_evictable ?kv - int (nlength xd)\<rparr>,
      hc_mamba_evictable := hc_mamba_evictable c - 1\<rparr>, mamba @ [v])"
    using xd(1) v mr set_node_Some[of ?ca x xd "\<lambda>nd. nd\<lparr>mamba_value := None\<rparr>"]
    by (cases c; cases "hc_kv c") (simp add: free_node_mamba_def kv2_def h2_def nd_def)
  have run: "drop_leaf x kv mamba c = Some (?c', p', kv @ (nvalue xd # out'), mamba @ [v], n')"
    unfolding drop_leaf_def using xd(1) fm u(3) r(1)[folded k3] kv2(1,3) by (cases c) (simp add: Let_def)
  have fl: "free_leaves ?h - {x} = free_leaves (rc_store c') - {p'}"
  proof -
    have "free_leaves ?h - {x} = free_leaves h - {q}" unfolding u(8) using u(9) fl2 by (auto split: if_splits)
    with r(13) show ?thesis by simp
  qed
  have domh: "dom (nodes h) = dom (nodes ?h) - {x}" using u(4,5) xd(1) unfolding u(6) h2_def by (auto split: if_splits)
  have own: "owned ?h = owned (rc_store c') + mset (concat (nvalue xd # out'))"
    using u(10) r(10) own2 len by simp
  have sl: "slots c = slots ?c' + mset [v]"
    using sl2 r(16) unlink_no_snap(4)[OF ok2 n2 nn u(4,5,6) sn2 ll2 snap_attrs(3)] by (simp add: slots_def)
  show ?thesis
    using run xd(1) u(1,2) inv' sl own r(5-9,11,12,14) un(3) ss2 fl domh len(1,2)
    by - (rule exI[of _ ?c'], rule exI[of _ p'], rule exI[of _ "nvalue xd # out'"], rule exI[of _ "[v]"],
        rule exI[of _ n'], rule exI[of _ xd], auto)
qed

section \<open>The two evictions\<close>

definition hc_mid ::
  "hybrid_cache \<Rightarrow> (nat \<Rightarrow> int list) \<Rightarrow> (nat \<Rightarrow> int list) \<Rightarrow> nat multiset \<Rightarrow>
     int list list \<Rightarrow> nat list \<Rightarrow> hybrid_cache \<Rightarrow> bool" where
  "hc_mid c0 L V K kv mamba c \<longleftrightarrow> hc_inv c L V K \<and> slots c0 = slots c + mset mamba \<and>
     owned (rc_store (hc_kv c0)) = owned (rc_store (hc_kv c)) + mset (concat kv) \<and>
     rc_evictable (hc_kv c0) = rc_evictable (hc_kv c) + int (length (concat kv)) \<and>
     rc_protected (hc_kv c) = rc_protected (hc_kv c0) \<and> rc_page_size (hc_kv c) = rc_page_size (hc_kv c0) \<and>
     dom (nodes (rc_store (hc_kv c))) \<subseteq> dom (nodes (rc_store (hc_kv c0)))"

lemma hc_mid_drop:
  assumes mid: "hc_mid c0 L V K kv mamba c" and x: "x \<in> free_leaves (rc_store (hc_kv c))"
  shows "\<exists>c' p kv' ms casc xd. drop_leaf x kv mamba c = Some (c', p, kv @ kv', mamba @ ms, casc) \<and>
    nodes (rc_store (hc_kv c)) x = Some xd \<and> 0 < nlength xd \<and> 0 \<le> casc \<and> length ms = 1 \<and>
    int (nlength xd) + casc = int (length (concat kv')) \<and> hc_mid c0 L V K (kv @ kv') (mamba @ ms) c' \<and>
    (\<exists>pd. nodes (rc_store (hc_kv c')) p = Some pd \<and> (is_root pd \<longleftrightarrow> p = rc_root (hc_kv c'))) \<and>
    free_leaves (rc_store (hc_kv c)) - {x} = free_leaves (rc_store (hc_kv c')) - {p} \<and>
    p \<notin> free_leaves (rc_store (hc_kv c)) - {x} \<and>
    snap_set (rc_store (hc_kv c')) = snap_set (rc_store (hc_kv c)) - {x}"
proof -
  from mid have inv: "hc_inv c L V K" by (simp add: hc_mid_def)
  obtain c' p kv' ms casc xd where d: "drop_leaf x kv mamba c = Some (c', p, kv @ kv', mamba @ ms, casc)"
    "nodes (rc_store (hc_kv c)) x = Some xd" "0 < nlength xd" "hc_inv c' L V K" "length ms = 1"
    "slots c = slots c' + mset ms" "owned (rc_store (hc_kv c)) = owned (rc_store (hc_kv c')) + mset (concat kv')"
    "rc_evictable (hc_kv c) = rc_evictable (hc_kv c') + int (nlength xd) + casc"
    "int (nlength xd) + casc = int (length (concat kv'))" "0 \<le> casc"
    "rc_page_size (hc_kv c') = rc_page_size (hc_kv c)" "rc_protected (hc_kv c') = rc_protected (hc_kv c)"
    "dom (nodes (rc_store (hc_kv c'))) \<subseteq> dom (nodes (rc_store (hc_kv c)))" "p \<in> dom (nodes (rc_store (hc_kv c')))"
    "free_leaves (rc_store (hc_kv c)) - {x} = free_leaves (rc_store (hc_kv c')) - {p}"
    "p \<notin> free_leaves (rc_store (hc_kv c)) - {x}"
    "snap_set (rc_store (hc_kv c')) = snap_set (rc_store (hc_kv c)) - {x}"
    using drop_leaf_inv[OF inv x, of kv mamba] by (elim exE conjE) (rule that, assumption+)
  from d(14) obtain pd where pd: "nodes (rc_store (hc_kv c')) p = Some pd" by blast
  have root: "is_root pd \<longleftrightarrow> p = rc_root (hc_kv c')"
    using tree_is_root[OF rc_tree[OF hc_rc[OF d(4)]] pd] by (simp add: is_root_def)
  have "hc_mid c0 L V K (kv @ kv') (mamba @ ms) c'"
    using mid d(4,6,7,8,9,11,12,13) by (auto simp: hc_mid_def)
  with d pd root show ?thesis
    by - (rule exI[of _ c'], rule exI[of _ p], rule exI[of _ kv'], rule exI[of _ ms], rule exI[of _ casc],
        rule exI[of _ xd], blast)
qed

lemma evict_full_loop_ok:
  "hc_mid c0 L V K kv mamba c \<Longrightarrow> heap_from ts 0 q \<Longrightarrow> distinct q \<Longrightarrow> set q = free_leaves (rc_store (hc_kv c)) \<Longrightarrow>
   freed = int (length (concat kv)) \<Longrightarrow>
   \<exists>c' kv' mamba'. evict_full_loop num ts q kv mamba freed c = Some (c', kv', mamba') \<and>
     hc_mid c0 L V K kv' mamba' c' \<and> (num \<le> int (length (concat kv')) \<or> rc_evictable (hc_kv c') = 0)"
proof (induction "nat (num - freed)" arbitrary: q kv mamba freed c rule: less_induct)
  case less
  note mid = less.prems(1)
  have inv: "hc_inv c L V K" using mid by (simp add: hc_mid_def)
  show ?case
  proof (cases "freed < num \<and> q \<noteq> []")
    case False
    then have "evict_full_loop num ts q kv mamba freed c = Some (c, kv, mamba)"
      by (subst evict_full_loop.simps) auto
    moreover have "num \<le> int (length (concat kv)) \<or> rc_evictable (hc_kv c) = 0"
    proof (cases "freed < num")
      case True
      with False less.prems(4) have "free_leaves (rc_store (hc_kv c)) = {}" by simp
      with free_leaf_exists[OF rc_tree[OF hc_rc[OF inv]] rc_refs[OF hc_rc[OF inv]]] rc_ev[OF hc_rc[OF inv]]
        weigh_nonneg[of "rc_root (hc_kv c)" free_ref "rc_store (hc_kv c)"]
      show ?thesis by fastforce
    qed (use less.prems(5) in simp)
    ultimately show ?thesis using mid by blast
  next
    case True
    with hq.pop_ex[of q ts] obtain x q' where pop: "heappop ts q = Some (x, q')" by blast
    have sp: "set q = insert x (set q')" by (rule hq.set_pop[OF pop])
    have dx: "x \<notin> set q'" "distinct q'" using hq.distinct_pop[OF pop] less.prems(3) by auto
    have x: "x \<in> free_leaves (rc_store (hc_kv c))" using sp less.prems(4) by auto
    obtain c' p kv' ms casc xd pd where d: "drop_leaf x kv mamba c = Some (c', p, kv @ kv', mamba @ ms, casc)"
      "nodes (rc_store (hc_kv c)) x = Some xd" "0 < nlength xd" "0 \<le> casc"
      "int (nlength xd) + casc = int (length (concat kv'))" "hc_mid c0 L V K (kv @ kv') (mamba @ ms) c'"
      "nodes (rc_store (hc_kv c')) p = Some pd" "is_root pd \<longleftrightarrow> p = rc_root (hc_kv c')"
      "free_leaves (rc_store (hc_kv c)) - {x} = free_leaves (rc_store (hc_kv c')) - {p}"
      "p \<notin> free_leaves (rc_store (hc_kv c)) - {x}"
      using hc_mid_drop[OF mid x] by (elim exE conjE) (rule that, assumption+)
    have xs: "ref_count xd = 0" "is_leaf xd" "\<not> is_root xd"
      using x d(2) free_leaves_D[OF x rc_held[OF hc_rc[OF inv]]] tree_is_root[OF rc_tree[OF hc_rc[OF inv]] d(2)]
      by (auto simp: free_leaves_def is_root_def)
    have inv': "hc_inv c' L V K" using d(6) by (simp add: hc_mid_def)
    let ?q = "if is_leaf pd \<and> ref_count pd = 0 \<and> \<not> is_root pd then heappush ts q' p else q'"
    have q': "set q' = free_leaves (rc_store (hc_kv c')) - {p}" using sp dx less.prems(4) d(9) by auto
    have "p \<in> free_leaves (rc_store (hc_kv c')) \<longleftrightarrow> is_leaf pd \<and> ref_count pd = 0 \<and> \<not> is_root pd"
      using d(7,8) rc_held[OF hc_rc[OF inv']] by (auto simp: free_leaves_def root_held_def)
    then have set: "set ?q = free_leaves (rc_store (hc_kv c'))" using q' by (auto simp: hq.set_push)
    have "p \<notin> set q'" using q' by blast
    then have dist: "distinct ?q" using dx by (simp add: hq.distinct_push)
    have heap: "heap_from ts 0 ?q" using hq.inv_pop[OF less.prems(2) pop] by (simp add: hq.inv_push)
    let ?f = "freed + int (nlength xd) + casc"
    have dec: "nat (num - ?f) < nat (num - freed)" using True d(3,4) by linarith
    have fr: "?f = int (length (concat (kv @ kv')))" using d(5) less.prems(5) by simp
    have "evict_full_loop num ts q kv mamba freed c = evict_full_loop num ts ?q (kv @ kv') (mamba @ ms) ?f c'"
      using True pop d(1,2,7) xs by (subst evict_full_loop.simps) simp
    with less.hyps[OF dec d(6) heap dist set fr] show ?thesis by simp
  qed
qed

lemma evict_mamba_loop_ok:
  "hc_mid c0 L V K kv mamba c \<Longrightarrow> heap_from ts 0 q \<Longrightarrow> distinct q \<Longrightarrow> set q = snap_set (rc_store (hc_kv c)) \<Longrightarrow>
   freed = int (length mamba) \<Longrightarrow> freed \<le> max 0 num \<Longrightarrow>
   \<exists>c' kv' mamba'. evict_mamba_loop num ts q kv mamba freed c = Some (c', kv', mamba') \<and>
     hc_mid c0 L V K kv' mamba' c' \<and> int (length mamba') \<le> max 0 num \<and>
     (num \<le> int (length mamba') \<or> hc_mamba_evictable c' = 0)"
proof (induction "nat (num - freed)" arbitrary: q kv mamba freed c rule: less_induct)
  case less
  note mid = less.prems(1)
  have inv: "hc_inv c L V K" using mid by (simp add: hc_mid_def)
  note rc = hc_rc[OF inv]
  have fin: "finite (dom (nodes (rc_store (hc_kv c))))" by (rule tree_finite[OF rc_tree[OF rc]])
  show ?case
  proof (cases "freed < num \<and> q \<noteq> []")
    case False
    then have "evict_mamba_loop num ts q kv mamba freed c = Some (c, kv, mamba)"
      by (subst evict_mamba_loop.simps) auto
    moreover have "num \<le> int (length mamba) \<or> hc_mamba_evictable c = 0"
      using False less.prems(4,5) hc_ev[OF inv] snap_free_card[OF fin] by auto
    ultimately show ?thesis using mid less.prems(5,6) by auto
  next
    case True
    with hq.pop_ex[of q ts] obtain x q' where pop: "heappop ts q = Some (x, q')" by blast
    have sp: "set q = insert x (set q')" by (rule hq.set_pop[OF pop])
    have dx: "x \<notin> set q'" "distinct q'" using hq.distinct_pop[OF pop] less.prems(3) by auto
    have heap: "heap_from ts 0 q'" by (rule hq.inv_pop[OF less.prems(2) pop])
    from sp less.prems(4) obtain xd v where x: "nodes (rc_store (hc_kv c)) x = Some xd" "mamba_value xd = Some v"
      "mamba_ref_count xd = 0" unfolding snap_set_def by blast
    have xr: "x \<noteq> rc_root (hc_kv c)" using snaps_root[OF hc_snaps[OF inv] x(1)] x(2) by auto
    have nr: "\<not> is_root xd" using tree_is_root[OF rc_tree[OF rc] x(1)] xr by (simp add: is_root_def)
    have dec: "nat (num - (freed + 1)) < nat (num - freed)" using True by linarith
    have bound: "freed + 1 \<le> max 0 num" using True by (auto simp: max_def)
    show ?thesis
    proof (cases "is_leaf xd \<and> ref_count xd = 0")
      case leaf: True
      then have "x \<in> free_leaves (rc_store (hc_kv c))" using x(1) by (auto simp: free_leaves_def)
      obtain c' p kv' ms casc where d: "drop_leaf x kv mamba c = Some (c', p, kv @ kv', mamba @ ms, casc)"
        "length ms = 1" "hc_mid c0 L V K (kv @ kv') (mamba @ ms) c'"
        "snap_set (rc_store (hc_kv c')) = snap_set (rc_store (hc_kv c)) - {x}"
        using hc_mid_drop[OF mid \<open>x \<in> free_leaves _\<close>] by (elim exE conjE) (rule that, assumption+)
      have "evict_mamba_loop num ts q kv mamba freed c = evict_mamba_loop num ts q' (kv @ kv') (mamba @ ms) (freed + 1) c'"
        using True pop d(1) x nr leaf by (subst evict_mamba_loop.simps) simp
      moreover have "set q' = snap_set (rc_store (hc_kv c'))" using d(4) sp dx less.prems(4) by auto
      moreover have "freed + 1 = int (length (mamba @ ms))" using less.prems(5) d(2) by simp
      ultimately show ?thesis using less.hyps[OF dec d(3) heap dx(2) _ _ bound] by metis
    next
      case inner: False
      let ?h = "rc_store (hc_kv c)"
      define nd where "nd = xd\<lparr>mamba_value := None\<rparr>"
      let ?h' = "?h\<lparr>nodes := (nodes ?h)(x \<mapsto> nd)\<rparr>"
      let ?c = "c\<lparr>hc_kv := (hc_kv c)\<lparr>rc_store := ?h'\<rparr>, hc_mamba_evictable := hc_mamba_evictable c - 1\<rparr>"
      have fm: "free_node_mamba x mamba c = Some (?c, mamba @ [v])"
        using x set_node_Some[of c x xd] by (simp add: free_node_mamba_def nd_def)
      have xK: "x \<notin># K" using snaps_count[OF hc_snaps[OF inv] x(1) xr] x(3) by (simp add: not_in_iff)
      have nl: "children xd \<noteq> []"
      proof
        assume ch: "children xd = []"
        with inner have "ref_count xd \<noteq> 0" by (simp add: is_leaf_def)
        with leaf_held_locked[OF rc x(1) xr ch] xK show False by simp
      qed
      have "hc_inv ?c L V K"
      proof -
        have "rc_inv ((hc_kv c)\<lparr>rc_store := ?h'\<rparr>) L V K"
          unfolding nd_def by (rule rc_inv_upd[OF rc x(1)]) (simp_all add: shape_def counters_def)
        moreover have "snaps_ok (rc_root (hc_kv c)) ?h' K"
          using hc_snaps[OF inv] x xr xK unfolding snaps_ok_def nd_def by auto
        moreover have "leaf_live {} (rc_root (hc_kv c)) ?h'"
          using hc_live[OF inv] nl unfolding leaf_live_def nd_def by auto
        moreover have "nsum snap_free ?h' = hc_mamba_evictable c - 1" "nsum snap_held ?h' = hc_mamba_protected c"
          using nsum_int_change[OF fin x(1)] hc_ev[OF inv] hc_pr[OF inv] x
          by (simp_all add: nd_def snap_free_def snap_held_def)
        ultimately show ?thesis by (simp add: hc_inv_except_def)
      qed
      moreover have "slots c = slots ?c + {#v#}"
        using nsum_change[OF fin x(1), of snap_slot nd] x(2) by (simp add: slots_def nd_def snap_slot_def)
      moreover have "owned ?h' = owned ?h" by (rule owned_same[OF fin x(1)]) (simp add: nd_def)
      moreover have "dom (nodes ?h') = dom (nodes ?h)" using x(1) by auto
      ultimately have mid': "hc_mid c0 L V K kv (mamba @ [v]) ?c" using mid by (simp add: hc_mid_def)
      have "evict_mamba_loop num ts q kv mamba freed c = evict_mamba_loop num ts q' kv (mamba @ [v]) (freed + 1) ?c"
        using True pop fm x nr inner by (subst evict_mamba_loop.simps) auto
      moreover have "set q' = snap_set (rc_store (hc_kv ?c))"
        using sp dx less.prems(4) by (auto simp: snap_set_def nd_def)
      moreover have "freed + 1 = int (length (mamba @ [v]))" using less.prems(5) by simp
      ultimately show ?thesis using less.hyps[OF dec mid' heap dx(2) _ _ bound] by metis
    qed
  qed
qed

lemma hc_mid_refl: "hc_inv c L V K \<Longrightarrow> hc_mid c L V K [] [] c"
  by (simp add: hc_mid_def)

lemma hc_leaves_ok:
  assumes inv: "hc_inv c L V K"
  shows "\<exists>all. hc_leaves c = Some all \<and> distinct all \<and>
    set (filter (\<lambda>n. case nodes (rc_store (hc_kv c)) n of None \<Rightarrow> False | Some nd \<Rightarrow> ref_count nd = 0) all)
      = free_leaves (rc_store (hc_kv c))"
proof -
  note rc = hc_rc[OF inv]
  from dfs_root[OF rc_tree[OF rc], of "\<lambda>nd. is_leaf nd \<and> \<not> is_root nd"] obtain all where
    a: "hc_leaves c = Some all" "distinct all"
    "set all = {m. \<exists>md. nodes (rc_store (hc_kv c)) m = Some md \<and> is_leaf md \<and> \<not> is_root md}"
    unfolding hc_leaves_def by blast
  have "\<not> is_root md" if "nodes (rc_store (hc_kv c)) m = Some md" "ref_count md = 0" for m md
    using tree_is_root[OF rc_tree[OF rc] that(1)] rc_held[OF rc] that by (auto simp: is_root_def root_held_def)
  with a show ?thesis by (auto simp: free_leaves_def split: option.splits)
qed

lemma snapshot_nodes_ok:
  assumes inv: "hc_inv c L V K"
  shows "\<exists>all. snapshot_nodes c = Some all \<and> distinct all \<and>
    (\<forall>n\<in>set all. \<exists>nd. nodes (rc_store (hc_kv c)) n = Some nd \<and> mamba_value nd \<noteq> None \<and> n \<noteq> rc_root (hc_kv c)) \<and>
    set (filter (\<lambda>n. case nodes (rc_store (hc_kv c)) n of None \<Rightarrow> False | Some nd \<Rightarrow> mamba_ref_count nd = 0) all)
      = snap_set (rc_store (hc_kv c))"
proof -
  note rc = hc_rc[OF inv]
  from dfs_root[OF rc_tree[OF rc], of "\<lambda>nd. mamba_value nd \<noteq> None \<and> \<not> is_root nd"] obtain all where
    a: "snapshot_nodes c = Some all" "distinct all"
    "set all = {m. \<exists>md. nodes (rc_store (hc_kv c)) m = Some md \<and> mamba_value md \<noteq> None \<and> \<not> is_root md}"
    unfolding snapshot_nodes_def by blast
  have r: "is_root md \<longleftrightarrow> m = rc_root (hc_kv c)" if "nodes (rc_store (hc_kv c)) m = Some md" for m md
    using tree_is_root[OF rc_tree[OF rc] that] by (simp add: is_root_def)
  have nr: "m \<noteq> rc_root (hc_kv c)" if "nodes (rc_store (hc_kv c)) m = Some md" "mamba_value md \<noteq> None" for m md
    using snaps_root[OF hc_snaps[OF inv] that(1)] that by auto
  have set: "set all = {m. \<exists>md. nodes (rc_store (hc_kv c)) m = Some md \<and> mamba_value md \<noteq> None}"
    unfolding a(3) using r nr by (intro Collect_cong) metis
  have "set (filter (\<lambda>n. case nodes (rc_store (hc_kv c)) n of None \<Rightarrow> False | Some nd \<Rightarrow> mamba_ref_count nd = 0) all)
      = snap_set (rc_store (hc_kv c))"
    unfolding set_filter set snap_set_def by (auto split: option.splits)
  moreover have "\<forall>n\<in>set all. \<exists>nd. nodes (rc_store (hc_kv c)) n = Some nd \<and> mamba_value nd \<noteq> None \<and> n \<noteq> rc_root (hc_kv c)"
    unfolding set using nr by blast
  ultimately show ?thesis using a(1,2) by (intro exI[of _ all]) simp
qed

lemma hc_init_ok:
  assumes "chunk_size mod ps = 0" "0 < ps"
  shows "\<exists>c. hc_init ps now cnt = Some c \<and> hc_ok c {#} \<and> rc_page_size (hc_kv c) = ps"
proof -
  define h where "h = \<lparr>nodes = [cnt \<mapsto> \<lparr>nkey = [], nvalue = [], children = [], rparent = None, ref_count = 1,
           timestamp = now, mamba_value = None, mamba_ref_count = 0,
           swa_tombstone = False, swa_ref_count = 0, swa_uuid = None\<rparr>], counter = Suc cnt\<rparr>"
  define c where "c = \<lparr>hc_kv = \<lparr>rc_page_size = ps, rc_store = h, rc_root = cnt, rc_evictable = 0, rc_protected = 0\<rparr>,
    hc_mamba_evictable = 0, hc_mamba_protected = 0\<rparr>"
  have "hc_init ps now cnt = Some c"
    using assms by (simp add: hc_init_def new_node_def upd_node_def node_time_def c_def h_def set_key_value_def py_assert_def)
  moreover from rc_init_ok[OF assms(2), of now cnt] have "\<exists>L V. rc_inv (hc_kv c) L V {#}"
    using assms(2) by (auto simp: rc_init_def new_node_def upd_node_def node_time_def c_def h_def rc_ok_def)
  moreover have "nsum f h = (f (the (nodes h cnt)) :: int)" for f by (simp add: nsum_def h_def)
  then have "nsum snap_free h = 0" "nsum snap_held h = 0" by (simp_all add: h_def snap_free_def snap_held_def)
  moreover have "snaps_ok cnt h {#}" "leaf_live {} cnt h" by (auto simp: snaps_ok_def leaf_live_def h_def split: if_splits)
  ultimately show ?thesis
    by (intro exI[of _ c]) (auto simp: hc_ok_def hc_inv_except_def c_def)
qed

section \<open>Properties\<close>

definition ex_hybrid :: hybrid_cache where
  "ex_hybrid = fst (the (hc_insert [1, 2, 3, 4] [10, 11, 12, 13] 7 5 6 (the (hc_init 2 1 0))))"

lemma ex_hybrid_ok: "hc_ok ex_hybrid {#}"
proof -
  from hc_init_ok[of 2 1 0] obtain c where c: "hc_init 2 1 0 = Some c" "hc_ok c {#}"
    by (auto simp: chunk_size_def)
  then obtain L V where inv: "hc_inv c L V {#}" by (auto simp: hc_ok_def)
  from hc_insert_inv[OF inv _ refl, of "[10, 11, 12, 13]" "[1, 2, 3, 4]" 7 5 6] obtain c' m ex L' V' where
    "hc_insert [1, 2, 3, 4] [10, 11, 12, 13] 7 5 6 c = Some (c', m, ex)" "hc_inv c' L' V' {#}" by auto
  with c show ?thesis by (auto simp: ex_hybrid_def hc_ok_def)
qed

text \<open>A hybrid match always returns; when it resumes from a snapshot, the reused length is the
  deepest boundary on a cached prefix of the request that owns a live snapshot, the slot is that
  node's, and the page indices are the ones the cache holds for the resumed tokens; when it starts
  cold, no cached prefix of the request owns a snapshot.\<close>

theorem hc_match_deepest_snapshot:
  assumes "hc_ok c K"
  shows "\<exists>c' m. hc_match_prefix ids tic c = Some (c', m) \<and> hc_ok c' K \<and> slots c' = slots c \<and>
    hc_size_info c' = hc_size_info c \<and> owned (rc_store (hc_kv c')) = owned (rc_store (hc_kv c)) \<and>
    cached (rc_page_size (hc_kv c)) (rc_store (hc_kv c)) (take (nat (hm_cached_len m)) ids) (hm_kv_indices m) \<and>
    tokens_of (rc_store (hc_kv c')) (hm_node m) = Some (take (nat (hm_cached_len m)) ids) \<and>
    0 \<le> hm_cached_len m \<and> (hm_mamba_value m = None \<longrightarrow> hm_cached_len m = 0) \<and>
    (\<forall>v. hm_mamba_value m = Some v \<longrightarrow> (\<exists>nd. nodes (rc_store (hc_kv c')) (hm_node m) = Some nd \<and> mamba_value nd = Some v)) \<and>
    (\<forall>n nd t. nodes (rc_store (hc_kv c')) n = Some nd \<and> mamba_value nd \<noteq> None \<and>
       tokens_of (rc_store (hc_kv c')) n = Some t \<and> prefix t ids \<longrightarrow> int (length t) \<le> hm_cached_len m)"
proof -
  from assms obtain L V where inv: "hc_inv c L V K" by (auto simp: hc_ok_def)
  note ok0 = rc_tree[OF hc_rc[OF inv]]
  obtain kv w len L' V' wd where w: "rc_tree_walk ids tic (hc_kv c) = Some (kv, w, len)"
    "hc_inv (c\<lparr>hc_kv := kv\<rparr>) L' V' K" "rc_root kv = rc_root (hc_kv c)" "rc_page_size kv = rc_page_size (hc_kv c)"
    "rc_evictable kv = rc_evictable (hc_kv c)" "rc_protected kv = rc_protected (hc_kv c)"
    "grows (rc_page_size kv) (rc_root kv) (rc_store (hc_kv c)) L V (rc_store kv) L' V'"
    "nodes (rc_store kv) w = Some wd" "L' w = take len ids" "len \<le> length ids"
    "longest (rc_page_size kv) (rc_store (hc_kv c)) L ids len"
    using hc_walk_inv[OF inv, of ids tic] by (elim exE conjE) (rule that, assumption+)
  let ?h = "rc_store kv" and ?r = "rc_root kv"
  have ok: "tree_ok (rc_page_size kv) ?r ?h L' V'" by (rule grows_tree_ok[OF w(7)])
  have sn: "snaps_ok ?r ?h K" using hc_snaps[OF w(2)] by simp
  from hc_match_loop_ok[OF ok w(8)] obtain res where res: "hc_match_loop ?h w (int (length (L' w))) = Some res"
    "deepest_snap ?r ?h L' V' w res" by blast
  define m where "m = (case res of Some m \<Rightarrow> m
    | None \<Rightarrow> \<lparr>hm_kv_indices = [], hm_cached_len = 0, hm_mamba_value = None, hm_node = ?r\<rparr>)"
  have run: "hc_match_prefix ids tic c = Some (c\<lparr>hc_kv := kv\<rparr>, m)"
    using w(1) path_len_ok[OF ok w(8)] res(1) by (auto simp: hc_match_prefix_def m_def split: option.splits)
  have anc: "n \<in> ancs ?h ?r L' w" if n: "nodes ?h n = Some nd" "mamba_value nd \<noteq> None" and pre: "prefix (L' n) ids" for n nd
  proof -
    have "n \<noteq> ?r" using snaps_root[OF sn n(1)] n(2) by auto
    from grows_cover[OF w(7) n(1)] obtain y and yd :: rnode where
      y: "nodes (rc_store (hc_kv c)) y = Some yd" "prefix (L' n) (L y)" by blast
    have k: "take (length (L' n)) (L y) = take (length (L' n)) ids"
      using y(2) pre by (auto simp: prefix_def)
    have "length (L' n) \<le> len"
      using w(11)[unfolded longest_def, rule_format, of y "length (L' n)"] y(1) k
        tree_label_dvd[OF ok n(1)] prefix_length_le[OF y(2)] prefix_length_le[OF pre] by auto
    then have "prefix (L' n) (L' w)" using pre w(9) by (metis prefix_def append_eq_conv_conj take_is_prefix prefix_length_prefix w(10) length_take min.absorb2)
    with n \<open>n \<noteq> ?r\<close> show ?thesis by (auto simp: ancs_def)
  qed
  from tree_root[OF ok] obtain rd where rd: "nodes ?h ?r = Some rd" by blast
  have lab: "\<exists>nd. nodes ?h (hm_node m) = Some nd \<and> hm_cached_len m = int (length (L' (hm_node m))) \<and>
    prefix (L' (hm_node m)) ids \<and> hm_kv_indices m = V' (hm_node m)"
  proof (cases res)
    case None
    with rd tree_root_labels[OF ok] show ?thesis by (simp add: m_def)
  next
    case (Some hm)
    with res(2) have "hm_node m \<in> ancs ?h ?r L' w" "hm_cached_len m = int (length (L' (hm_node m)))"
      "hm_kv_indices m = V' (hm_node m)" by (simp_all add: deepest_snap_def m_def)
    moreover have "prefix (L' w) ids" using w(9) by (simp add: take_is_prefix)
    ultimately show ?thesis by (auto simp: ancs_def intro: prefix_order.trans)
  qed
  then obtain nd where nd: "nodes ?h (hm_node m) = Some nd" "hm_cached_len m = int (length (L' (hm_node m)))"
    "prefix (L' (hm_node m)) ids" "hm_kv_indices m = V' (hm_node m)" by blast
  have tk: "take (nat (hm_cached_len m)) ids = L' (hm_node m)" using nd(2,3) by (auto simp: prefix_def)
  have ca: "cached (rc_page_size (hc_kv c)) (rc_store (hc_kv c)) (take (nat (hm_cached_len m)) ids) (hm_kv_indices m)"
    unfolding tk nd(4) using cached_node[OF ok nd(1)] cached_grows[OF w(7)] w(4) by simp
  have deep: "int (length t) \<le> hm_cached_len m"
    if n: "nodes ?h n = Some xd" "mamba_value xd \<noteq> None" "tokens_of ?h n = Some t" "prefix t ids" for n xd t
  proof -
    have t: "t = L' n" using tokens_of_ok[OF ok n(1)] n(3) by simp
    from anc[OF n(1,2)] n(4) t have "n \<in> ancs ?h ?r L' w" by simp
    with res(2) n(1,2) t show ?thesis by (cases res) (auto simp: deepest_snap_def m_def)
  qed
  have live: "\<exists>nd. nodes ?h (hm_node m) = Some nd \<and> mamba_value nd = Some v" if "hm_mamba_value m = Some v" for v
    using that res(2) by (cases res) (auto simp: deepest_snap_def m_def)
  have cold: "hm_mamba_value m = None \<longrightarrow> hm_cached_len m = 0"
    using res(2) by (cases res) (auto simp: deepest_snap_def m_def)
  have "slots (c\<lparr>hc_kv := kv\<rparr>) = slots c" using grows_nsum[OF w(7) snap_attrs(3)] by (simp add: slots_def)
  moreover have "hc_size_info (c\<lparr>hc_kv := kv\<rparr>) = hc_size_info c" using w(5,6) by (simp add: hc_size_info_def)
  moreover have "hc_ok (c\<lparr>hc_kv := kv\<rparr>) K" using w(2) unfolding hc_ok_def by blast
  moreover have "tokens_of ?h (hm_node m) = Some (take (nat (hm_cached_len m)) ids)"
    using tokens_of_ok[OF ok nd(1)] tk by simp
  ultimately show ?thesis
    using run ca deep live cold nd(2) grows_owned[OF w(7)]
    by - (rule exI[of _ "c\<lparr>hc_kv := kv\<rparr>"], rule exI[of _ m], auto)
qed

lemma hc_match_deepest_snapshot_witness:
  "\<exists>c' m. hc_match_prefix [1, 2, 3, 4, 5] 9 ex_hybrid = Some (c', m) \<and> hc_ok c' {#} \<and> 0 \<le> hm_cached_len m"
  using hc_match_deepest_snapshot[OF ex_hybrid_ok, of "[1, 2, 3, 4, 5]" 9] by blast

text \<open>inserting a request with a donated snapshot slot always returns; the whole page-aligned
  request is cached afterwards, the tree takes over exactly the page indices past the matched
  prefix, and it takes over the slot unless it reports that a snapshot exists (then the caller
  still owns it); every non-root leaf keeps owning a snapshot.\<close>

theorem hc_insert_donates:
  assumes "hc_ok c K" "length indices = length ids" "n = align_down (length ids) (rc_page_size (hc_kv c))"
  shows "\<exists>c' m ex w wd. hc_insert ids indices mv tic now c = Some (c', m, ex) \<and> hc_ok c' K \<and> m \<le> n \<and>
    longest_cached (rc_page_size (hc_kv c)) (rc_store (hc_kv c)) (take n ids) m \<and>
    owned (rc_store (hc_kv c')) = owned (rc_store (hc_kv c)) + mset (slice m n indices) \<and>
    slots c' = slots c + (if ex then {#} else {#mv#}) \<and>
    nodes (rc_store (hc_kv c')) w = Some wd \<and> tokens_of (rc_store (hc_kv c')) w = Some (take n ids) \<and>
    (n \<noteq> 0 \<longrightarrow> mamba_value wd \<noteq> None) \<and>
    (\<forall>x xd. nodes (rc_store (hc_kv c')) x = Some xd \<and> is_leaf xd \<and> \<not> is_root xd \<longrightarrow> mamba_value xd \<noteq> None)"
proof -
  from assms(1) obtain L V where inv: "hc_inv c L V K" by (auto simp: hc_ok_def)
  from hc_insert_inv[OF inv assms(2,3), of mv tic now] obtain c' m ex L' V' w wd where
    i: "hc_insert ids indices mv tic now c = Some (c', m, ex)" "hc_inv c' L' V' K" "m \<le> n"
    "longest_cached (rc_page_size (hc_kv c)) (rc_store (hc_kv c)) (take n ids) m"
    "owned (rc_store (hc_kv c')) = owned (rc_store (hc_kv c)) + mset (slice m n indices)"
    "slots c' = slots c + (if ex then {#} else {#mv#})"
    "nodes (rc_store (hc_kv c')) w = Some wd" "L' w = take n ids" "n \<noteq> 0 \<longrightarrow> mamba_value wd \<noteq> None" by blast
  note ok = rc_tree[OF hc_rc[OF i(2)]]
  have "mamba_value xd \<noteq> None" if "nodes (rc_store (hc_kv c')) x = Some xd" "is_leaf xd" "\<not> is_root xd" for x xd
    using hc_live[OF i(2)] that tree_is_root[OF ok that(1)] by (auto simp: leaf_live_def is_leaf_def is_root_def)
  moreover have "tokens_of (rc_store (hc_kv c')) w = Some (take n ids)" using tokens_of_ok[OF ok i(7)] i(8) by simp
  moreover have "hc_ok c' K" using i(2) unfolding hc_ok_def by blast
  ultimately show ?thesis using i by blast
qed

lemma hc_insert_donates_witness:
  "\<exists>c' m ex. hc_insert [1, 2, 5, 6] [20, 21, 22, 23] 9 8 9 ex_hybrid = Some (c', m, ex) \<and> hc_ok c' {#} \<and> m \<le> 4"
proof -
  have "4 = align_down (length [1, 2, 5, 6 :: int]) (rc_page_size (hc_kv ex_hybrid))" by code_simp
  from hc_insert_donates[OF ex_hybrid_ok _ this, of "[20, 21, 22, 23]" 9 8 9] show ?thesis by force
qed

text \<open>evicting KV tokens always returns; it frees at least \<open>num\<close> of them unless nothing
  evictable is left, and what comes back, page indices and snapshot slots, is exactly what the
  tree stops owning; locked handles keep their tokens and indices.\<close>

theorem hc_evict_full_frees:
  assumes "hc_ok c K"
  shows "\<exists>c' kv mamba. hc_evict_full num c = Some (c', kv, mamba) \<and> hc_ok c' K \<and>
    (num \<le> int (length kv) \<or> rc_evictable (hc_kv c') = 0) \<and>
    owned (rc_store (hc_kv c)) = owned (rc_store (hc_kv c')) + mset kv \<and> slots c = slots c' + mset mamba \<and>
    rc_evictable (hc_kv c) = rc_evictable (hc_kv c') + int (length kv) \<and>
    rc_protected (hc_kv c') = rc_protected (hc_kv c) \<and>
    (\<forall>l\<in>#K. tokens_of (rc_store (hc_kv c')) l = tokens_of (rc_store (hc_kv c)) l \<and>
       indices_of (rc_store (hc_kv c')) l = indices_of (rc_store (hc_kv c)) l)"
proof -
  from assms obtain L V where inv: "hc_inv c L V K" by (auto simp: hc_ok_def)
  let ?ts = "timestamp_of (rc_store (hc_kv c))"
  let ?P = "\<lambda>n. case nodes (rc_store (hc_kv c)) n of None \<Rightarrow> False | Some nd \<Rightarrow> ref_count nd = 0"
  from hc_leaves_ok[OF inv] obtain all where a: "hc_leaves c = Some all" "distinct all"
    "set (filter ?P all) = free_leaves (rc_store (hc_kv c))" by blast
  obtain c' kv mamba where e:
    "evict_full_loop num ?ts (heapify ?ts (filter ?P all)) [] [] 0 c = Some (c', kv, mamba)" "hc_mid c L V K kv mamba c'"
    "num \<le> int (length (concat kv)) \<or> rc_evictable (hc_kv c') = 0"
    using evict_full_loop_ok[OF hc_mid_refl[OF inv] hq.inv_mk, of ?ts "filter ?P all" 0 num] a
    by (auto simp: hq.distinct_mk hq.set_mk)
  have inv': "hc_inv c' L V K" using e(2) by (simp add: hc_mid_def)
  have keep: "tokens_of (rc_store (hc_kv c')) l = tokens_of (rc_store (hc_kv c)) l \<and>
       indices_of (rc_store (hc_kv c')) l = indices_of (rc_store (hc_kv c)) l" if "l \<in># K" for l
  proof -
    note r = hc_rc[OF inv] and r' = hc_rc[OF inv']
    from refs_locks[OF rc_refs[OF r] that] refs_locks[OF rc_refs[OF r'] that] obtain x y where
      "nodes (rc_store (hc_kv c)) l = Some x" "nodes (rc_store (hc_kv c')) l = Some y" by blast
    with tokens_of_ok[OF rc_tree[OF r]] tokens_of_ok[OF rc_tree[OF r']]
      indices_of_ok[OF rc_tree[OF r]] indices_of_ok[OF rc_tree[OF r']] show ?thesis by simp
  qed
  have "hc_evict_full num c = Some (c', concat kv, mamba)"
    using a(1) e(1) by (simp add: hc_evict_full_def Let_def)
  moreover have "hc_ok c' K" using inv' unfolding hc_ok_def by blast
  ultimately show ?thesis using e(2,3) keep
    by - (rule exI[of _ c'], rule exI[of _ "concat kv"], rule exI[of _ mamba], simp add: hc_mid_def)
qed

lemma hc_evict_full_frees_witness:
  "\<exists>c' kv mamba. hc_evict_full 2 ex_hybrid = Some (c', kv, mamba) \<and> hc_ok c' {#} \<and>
    (2 \<le> int (length kv) \<or> rc_evictable (hc_kv c') = 0)"
  using hc_evict_full_frees[OF ex_hybrid_ok, of 2] by blast

text \<open>C38: evicting snapshots always returns and frees exactly \<open>num\<close> of them, or all the evictable
  ones when there are fewer; slots and page indices leave the tree exactly as they are returned,
  and no locked snapshot is touched.\<close>

theorem hc_evict_mamba_counts:
  assumes "hc_ok c K" "0 \<le> num"
  shows "\<exists>c' kv mamba. hc_evict_mamba num c = Some (c', kv, mamba) \<and> hc_ok c' K \<and>
    int (length mamba) \<le> num \<and> (int (length mamba) = num \<or> hc_mamba_evictable c' = 0) \<and>
    owned (rc_store (hc_kv c)) = owned (rc_store (hc_kv c')) + mset kv \<and> slots c = slots c' + mset mamba \<and>
    rc_evictable (hc_kv c) = rc_evictable (hc_kv c') + int (length kv) \<and>
    (\<forall>l\<in>#K. l \<noteq> rc_root (hc_kv c') \<longrightarrow> (\<exists>nd. nodes (rc_store (hc_kv c')) l = Some nd \<and> mamba_value nd \<noteq> None))"
proof -
  from assms(1) obtain L V where inv: "hc_inv c L V K" by (auto simp: hc_ok_def)
  let ?ts = "timestamp_of (rc_store (hc_kv c))"
  let ?P = "\<lambda>n. case nodes (rc_store (hc_kv c)) n of None \<Rightarrow> False | Some nd \<Rightarrow> mamba_ref_count nd = 0"
  from snapshot_nodes_ok[OF inv] obtain all where a: "snapshot_nodes c = Some all" "distinct all"
    "set (filter ?P all) = snap_set (rc_store (hc_kv c))" by blast
  obtain c' kv mamba where e:
    "evict_mamba_loop num ?ts (heapify ?ts (filter ?P all)) [] [] 0 c = Some (c', kv, mamba)" "hc_mid c L V K kv mamba c'"
    "int (length mamba) \<le> max 0 num" "num \<le> int (length mamba) \<or> hc_mamba_evictable c' = 0"
    using evict_mamba_loop_ok[OF hc_mid_refl[OF inv] hq.inv_mk, of ?ts "filter ?P all" 0 num] a
    by (auto simp: hq.distinct_mk hq.set_mk)
  have inv': "hc_inv c' L V K" using e(2) by (simp add: hc_mid_def)
  have keep: "\<exists>nd. nodes (rc_store (hc_kv c')) l = Some nd \<and> mamba_value nd \<noteq> None"
    if "l \<in># K" "l \<noteq> rc_root (hc_kv c')" for l
    using refs_locks[OF rc_refs[OF hc_rc[OF inv']] that(1)] snaps_live[OF hc_snaps[OF inv'] _ that(2,1)] by blast
  have "hc_evict_mamba num c = Some (c', concat kv, mamba)"
    using a(1) e(1) by (simp add: hc_evict_mamba_def Let_def)
  moreover have "hc_ok c' K" using inv' unfolding hc_ok_def by blast
  moreover have "int (length mamba) \<le> num \<and> (int (length mamba) = num \<or> hc_mamba_evictable c' = 0)"
    using e(3,4) assms(2) by auto
  ultimately show ?thesis using e(2) keep
    by - (rule exI[of _ c'], rule exI[of _ "concat kv"], rule exI[of _ mamba], auto simp: hc_mid_def)
qed

lemma hc_evict_mamba_counts_witness:
  "\<exists>c' kv mamba. hc_evict_mamba 1 ex_hybrid = Some (c', kv, mamba) \<and> hc_ok c' {#} \<and> int (length mamba) \<le> 1"
  using hc_evict_mamba_counts[OF ex_hybrid_ok, of 1] by auto

text \<open>locking a node that owns a snapshot (or the root) and releasing a lock both succeed and
  keep the invariant, in which the snapshot count of a node is the number of locks on it and its
  KV count the number of locks at or below it, so a held snapshot pins its whole prefix; the
  integrity check passes in every such state.\<close>

theorem hc_lock_dual:
  assumes "hc_ok c K"
  shows "(\<forall>nd. nodes (rc_store (hc_kv c)) n = Some nd \<and> (is_root nd \<or> mamba_value nd \<noteq> None) \<longrightarrow>
      (\<exists>c'. hc_inc_lock n c = Some c' \<and> hc_ok c' (add_mset n K) \<and> slots c' = slots c)) \<and>
    (n \<in># K \<longrightarrow> (\<exists>c'. hc_dec_lock n c = Some c' \<and> hc_ok c' (K - {#n#}) \<and> slots c' = slots c)) \<and>
    hc_check_integrity c = Some ()"
proof -
  from assms obtain L V where inv: "hc_inv c L V K" by (auto simp: hc_ok_def)
  note rc = hc_rc[OF inv]
  have "\<exists>c'. hc_inc_lock n c = Some c' \<and> hc_ok c' (add_mset n K) \<and> slots c' = slots c"
    if n: "nodes (rc_store (hc_kv c)) n = Some nd" "is_root nd \<or> mamba_value nd \<noteq> None" for nd
  proof -
    have "n = rc_root (hc_kv c) \<or> mamba_value nd \<noteq> None"
      using tree_is_root[OF rc_tree[OF rc] n(1)] n(2) by (simp add: is_root_def)
    from hc_inc_lock_inv[OF inv n(1) this] show ?thesis unfolding hc_ok_def by blast
  qed
  moreover have "\<exists>c'. hc_dec_lock n c = Some c' \<and> hc_ok c' (K - {#n#}) \<and> slots c' = slots c" if "n \<in># K"
  proof -
    have "hc_inv c L V (add_mset n (K - {#n#}))" using inv that by simp
    from hc_dec_lock_inv[OF this] show ?thesis unfolding hc_ok_def by blast
  qed
  moreover have "hc_check_integrity c = Some ()"
  proof -
    from snapshot_nodes_ok[OF inv] obtain all where a: "snapshot_nodes c = Some all"
      "\<forall>n\<in>set all. \<exists>nd. nodes (rc_store (hc_kv c)) n = Some nd \<and> mamba_value nd \<noteq> None \<and> n \<noteq> rc_root (hc_kv c)" by blast
    have "list_all (\<lambda>n. case nodes (rc_store (hc_kv c)) n of None \<Rightarrow> False
        | Some nd \<Rightarrow> mamba_value nd \<noteq> None \<and> mamba_ref_count nd \<ge> 0 \<and> ref_count nd \<ge> 0) all"
      unfolding list_all_iff
    proof (rule ballI)
      fix x assume "x \<in> set all"
      with a(2) obtain xd where x: "nodes (rc_store (hc_kv c)) x = Some xd" "mamba_value xd \<noteq> None"
        "x \<noteq> rc_root (hc_kv c)" by blast
      have "0 \<le> mamba_ref_count xd" by (rule snaps_nonneg[OF hc_snaps[OF inv] x(1,2)])
      moreover have "0 \<le> ref_count xd" using refs_count[OF rc_refs[OF rc] x(1,3)] by simp
      ultimately show "case nodes (rc_store (hc_kv c)) x of None \<Rightarrow> False
        | Some nd \<Rightarrow> mamba_value nd \<noteq> None \<and> mamba_ref_count nd \<ge> 0 \<and> ref_count nd \<ge> 0" using x by simp
    qed
    with a(1) show ?thesis by (simp add: hc_check_integrity_def py_assert_def)
  qed
  ultimately show ?thesis by blast
qed

lemma hc_lock_dual_witness: "\<exists>c'. hc_inc_lock 1 ex_hybrid = Some c' \<and> hc_ok c' {#1#}"
proof -
  have "case nodes (rc_store (hc_kv ex_hybrid)) 1 of None \<Rightarrow> False | Some nd \<Rightarrow> mamba_value nd \<noteq> None" by code_simp
  then obtain nd where "nodes (rc_store (hc_kv ex_hybrid)) 1 = Some nd" "mamba_value nd \<noteq> None"
    by (auto split: option.splits)
  with hc_lock_dual[OF ex_hybrid_ok, of 1] show ?thesis by auto
qed

end
