(* ===== verification/SwaRadix.thy ===== *)
theory SwaRadix
  imports RadixCache
begin

text \<open>
  The sliding-window cache of \<^verbatim>\<open>kvcache/swa_radix_cache.py\<close> (\<open>SWARadixCache\<close>): the
  tree, the KV reference counts and the KV totals of the plain cache (\<open>sw_kv\<close>), and a
  second currency without slots of its own: a node is live or a tombstone for the
  sliding-window layers, and a lock pins the trailing window of live tokens only.
\<close>

section \<open>State\<close>

record swa_cache =
  sw_kv :: radix_cache
  sw_window :: nat
  sw_evictable :: int
  sw_protected :: int
  sw_clk :: int
  sw_uuid_ctr :: int
  sw_revives :: int

record swa_match =
  sm_kv_indices :: "int list"
  sm_cached_len :: nat
  sm_node :: nat

abbreviation sw_store :: "swa_cache \<Rightarrow> store" where
  "sw_store c \<equiv> rc_store (sw_kv c)"

abbreviation sw_ps :: "swa_cache \<Rightarrow> nat" where
  "sw_ps c \<equiv> rc_page_size (sw_kv c)"

definition sw_set_store :: "store \<Rightarrow> swa_cache \<Rightarrow> swa_cache" where
  "sw_set_store h c = c\<lparr>sw_kv := (sw_kv c)\<lparr>rc_store := h\<rparr>\<rparr>"

definition sw_add_full :: "int \<Rightarrow> int \<Rightarrow> swa_cache \<Rightarrow> swa_cache" where
  "sw_add_full e p c = c\<lparr>sw_kv := (sw_kv c)\<lparr>rc_evictable := rc_evictable (sw_kv c) + e,
                                            rc_protected := rc_protected (sw_kv c) + p\<rparr>\<rparr>"

definition sw_add_swa :: "int \<Rightarrow> int \<Rightarrow> swa_cache \<Rightarrow> swa_cache" where
  "sw_add_swa e p c = c\<lparr>sw_evictable := sw_evictable c + e, sw_protected := sw_protected c + p\<rparr>"

definition event_stride :: int where
  "event_stride = 2 ^ 24"

definition sw_init :: "nat \<Rightarrow> nat \<Rightarrow> int \<Rightarrow> nat \<Rightarrow> swa_cache option" where
  "sw_init page_size window now cnt = do {
     _ \<leftarrow> py_assert (window > 0);
     let (h, r) = new_node None now \<lparr>nodes = Map.empty, counter = cnt\<rparr>;
     h \<leftarrow> set_key_value r [] [] h;
     h \<leftarrow> upd_node r (\<lambda>nd. nd\<lparr>ref_count := 1\<rparr>) h;
     Some \<lparr>sw_kv = \<lparr>rc_page_size = page_size, rc_store = h, rc_root = r, rc_evictable = 0, rc_protected = 0\<rparr>,
           sw_window = window, sw_evictable = 0, sw_protected = 0, sw_clk = 0, sw_uuid_ctr = 0, sw_revives = 0\<rparr> }"

definition sw_tick :: "swa_cache \<Rightarrow> swa_cache \<times> int" where
  "sw_tick c = (c\<lparr>sw_clk := sw_clk c + 1\<rparr>, (sw_clk c + 1) * event_stride)"

text \<open>\<open>_stamp_path\<close>: decreasing timestamps towards the root.\<close>

definition stamp_step :: "int \<Rightarrow> nat \<Rightarrow> store \<times> int \<Rightarrow> (store \<times> int) option" where
  "stamp_step base n = (\<lambda>(h, off). do {
     h \<leftarrow> upd_node n (\<lambda>nd. nd\<lparr>timestamp := base - off\<rparr>) h;
     Some (h, off + 1) })"

definition sw_stamp_path :: "nat \<Rightarrow> swa_cache \<Rightarrow> swa_cache option" where
  "sw_stamp_path node c = do {
     let (c, base) = sw_tick c;
     (h, off) \<leftarrow> up_loop fst (stamp_step base) node (sw_store c, 0);
     Some (sw_set_store h c) }"

section \<open>Matching\<close>

text \<open>\<open>float('inf')\<close>, the run of live tokens on a path without a tombstone, is \<open>None\<close>.\<close>

definition since_ge :: "nat option \<Rightarrow> nat \<Rightarrow> bool" where
  "since_ge s w = (case s of None \<Rightarrow> True | Some k \<Rightarrow> k \<ge> w)"

definition since_add :: "nat option \<Rightarrow> rnode \<Rightarrow> nat option" where
  "since_add s nd = (if swa_tombstone nd then s else map_option (\<lambda>k. k + nlength nd) s)"

record match_state =
  ms_store :: store
  ms_node :: nat
  ms_value :: "int list list"
  ms_since :: "nat option"
  ms_best_len :: nat
  ms_best_node :: nat

partial_function (option) sw_match_loop ::
  "nat \<Rightarrow> nat \<Rightarrow> int \<Rightarrow> int list \<Rightarrow> nat \<Rightarrow> match_state \<Rightarrow> match_state option" where
  "sw_match_loop ps window now input_ids prefix_pos s =
     (if prefix_pos < length input_ids then do {
        nd \<leftarrow> nodes (ms_store s) (ms_node s);
        k \<leftarrow> key_fn ps (drop prefix_pos input_ids);
        (case map_of (children nd) k of
           None \<Rightarrow> Some s
         | Some child \<Rightarrow> do {
             cd \<leftarrow> nodes (ms_store s) child;
             let s = (if swa_tombstone cd
                      then (if since_ge (ms_since s) window
                            then s\<lparr>ms_best_len := length (ms_value s), ms_best_node := ms_node s\<rparr> else s)
                           \<lparr>ms_since := Some 0\<rparr>
                      else s);
             let match_len = align_down (get_match_len cd (drop prefix_pos input_ids)) ps;
             if match_len = 0 then Some s
             else if match_len < nlength cd then do {
               (h, m) \<leftarrow> split_at ps now child match_len (ms_store s);
               md \<leftarrow> nodes h m;
               Some (s\<lparr>ms_store := h, ms_value := ms_value s @ [nvalue md],
                       ms_since := since_add (ms_since s) md, ms_node := m\<rparr>) }
             else
               sw_match_loop ps window now input_ids (prefix_pos + match_len)
                 (s\<lparr>ms_value := ms_value s @ [nvalue cd], ms_since := since_add (ms_since s) cd,
                    ms_node := child\<rparr>) }) }
      else Some s)"

declare sw_match_loop.simps [code]

definition sw_match_prefix :: "int list \<Rightarrow> int \<Rightarrow> swa_cache \<Rightarrow> (swa_cache \<times> swa_match) option" where
  "sw_match_prefix input_ids now c = do {
     let r = rc_root (sw_kv c);
     s \<leftarrow> sw_match_loop (sw_ps c) (sw_window c) now input_ids 0
       \<lparr>ms_store = sw_store c, ms_node = r, ms_value = [], ms_since = None, ms_best_len = 0, ms_best_node = r\<rparr>;
     let (best_len, best_node) = (if since_ge (ms_since s) (sw_window c)
                                  then (length (ms_value s), ms_node s)
                                  else (ms_best_len s, ms_best_node s));
     c \<leftarrow> sw_stamp_path best_node (sw_set_store (ms_store s) c);
     let kv = concat (take best_len (ms_value s));
     Some (c, \<lparr>sm_kv_indices = kv, sm_cached_len = length kv, sm_node = best_node\<rparr>) }"

section \<open>Inserting\<close>

definition sw_add_child ::
  "nat \<Rightarrow> int list \<Rightarrow> int list \<Rightarrow> bool \<Rightarrow> int \<Rightarrow> swa_cache \<Rightarrow> (swa_cache \<times> nat) option" where
  "sw_add_child parent ids kv tombstone now c = do {
     let (c, t) = sw_tick c;
     (h, m) \<leftarrow> add_leaf (sw_ps c) (Some t) now parent ids kv (sw_store c);
     h \<leftarrow> upd_node m (\<lambda>nd. nd\<lparr>swa_tombstone := tombstone\<rparr>) h;
     nd \<leftarrow> nodes h m;
     let c = sw_add_full (int (nlength nd)) 0 (sw_set_store h c);
     Some (if \<not> tombstone then sw_add_swa (int (nlength nd)) 0 c else c, m) }"

text \<open>A tombstone takes over the request's live slots (Branches 1 and 2).\<close>

definition sw_revive :: "nat \<Rightarrow> int list \<Rightarrow> swa_cache \<Rightarrow> swa_cache option" where
  "sw_revive child seg_kv c = do {
     cd \<leftarrow> nodes (sw_store c) child;
     h \<leftarrow> set_key_value child (nkey cd) seg_kv (sw_store c);
     h \<leftarrow> upd_node child (\<lambda>nd. nd\<lparr>swa_tombstone := False\<rparr>) h;
     let (c, t) = sw_tick (sw_set_store h c);
     h \<leftarrow> upd_node child (\<lambda>nd. nd\<lparr>timestamp := t\<rparr>) (sw_store c);
     nd \<leftarrow> nodes h child;
     let c = sw_add_swa (int (nlength nd)) 0 (sw_set_store h c);
     Some (c\<lparr>sw_revives := sw_revives c + 1\<rparr>) }"

text \<open>The reconcile of one matched node: the new state and the slots to return.\<close>

definition sw_reconcile ::
  "nat \<Rightarrow> nat \<Rightarrow> nat \<Rightarrow> nat \<Rightarrow> nat \<Rightarrow> int list \<Rightarrow> int \<Rightarrow> swa_cache \<Rightarrow> (swa_cache \<times> int list list) option" where
  "sw_reconcile child matched match_len swa_evicted_seqlen update_kv_after_len seg_kv now c =
     (if update_kv_after_len < matched + match_len then do {
        cd \<leftarrow> nodes (sw_store c) child;
        if swa_tombstone cd then do {
          _ \<leftarrow> py_assert (swa_ref_count cd = 0);
          if ref_count cd > 0 then Some (c, [seg_kv])
          else if swa_evicted_seqlen \<le> matched then do {
            c \<leftarrow> sw_revive child seg_kv c;
            Some (c, [nvalue cd]) }
          else if swa_evicted_seqlen < matched + match_len then do {
            let start = swa_evicted_seqlen - matched;
            (h, m) \<leftarrow> split_at (sw_ps c) now child start (sw_store c);
            td \<leftarrow> nodes h child;
            c \<leftarrow> sw_revive child (drop start seg_kv) (sw_set_store h c);
            Some (c, [nvalue td, take start seg_kv]) }
          else Some (c, [seg_kv]) }
        else Some (c, [seg_kv]) }
      else Some (c, []))"

partial_function (option) sw_insert_loop ::
  "int list \<Rightarrow> int list \<Rightarrow> nat \<Rightarrow> nat \<Rightarrow> int \<Rightarrow> swa_cache \<Rightarrow> nat \<Rightarrow> nat \<Rightarrow> int list list \<Rightarrow>
     (swa_cache \<times> nat \<times> nat \<times> int list list) option" where
  "sw_insert_loop input_ids kv_indices swa_evicted_seqlen update_kv_after_len now c node matched freed =
     (if matched < length input_ids then do {
        nd \<leftarrow> nodes (sw_store c) node;
        k \<leftarrow> key_fn (sw_ps c) (drop matched input_ids);
        (case map_of (children nd) k of
           None \<Rightarrow> Some (c, node, matched, freed)
         | Some child \<Rightarrow> do {
             cd \<leftarrow> nodes (sw_store c) child;
             let match_len = align_down (get_match_len cd (drop matched input_ids)) (sw_ps c);
             if match_len = 0 then Some (c, node, matched, freed)
             else do {
               let partial = match_len < nlength cd;
               (c, child) \<leftarrow> (if partial
                 then do { (h, m) \<leftarrow> split_at (sw_ps c) now child match_len (sw_store c); Some (sw_set_store h c, m) }
                 else Some (c, child));
               let seg_kv = slice matched (matched + match_len) kv_indices;
               (c, fs) \<leftarrow> sw_reconcile child matched match_len swa_evicted_seqlen update_kv_after_len seg_kv now c;
               (if partial then Some (c, child, matched + match_len, freed @ fs)
                else sw_insert_loop input_ids kv_indices swa_evicted_seqlen update_kv_after_len now c child
                       (matched + match_len) (freed @ fs)) } }) }
      else Some (c, node, matched, freed))"

declare sw_insert_loop.simps [code]

definition sw_insert ::
  "int list \<Rightarrow> int list \<Rightarrow> nat \<Rightarrow> nat \<Rightarrow> int \<Rightarrow> swa_cache \<Rightarrow> (swa_cache \<times> nat \<times> int list) option" where
  "sw_insert input_ids kv_indices swa_evicted_seqlen update_kv_after_len now c = do {
     let insert_len = align_down (length input_ids) (sw_ps c);
     let input_ids = take insert_len input_ids;
     let kv_indices = take insert_len kv_indices;
     (c, node, matched, freed) \<leftarrow> sw_insert_loop input_ids kv_indices swa_evicted_seqlen update_kv_after_len now c
       (rc_root (sw_kv c)) 0 [];
     c \<leftarrow> (if matched < insert_len then do {
             let suffix_ids = drop matched input_ids;
             let suffix_kv = drop matched kv_indices;
             let boundary = min (min swa_evicted_seqlen insert_len - matched) (length suffix_ids - sw_ps c);
             (c, node, suffix_ids, suffix_kv) \<leftarrow> (if boundary > 0 then do {
                 (c, node) \<leftarrow> sw_add_child node (take boundary suffix_ids) (take boundary suffix_kv) True now c;
                 Some (c, node, drop boundary suffix_ids, drop boundary suffix_kv) }
               else Some (c, node, suffix_ids, suffix_kv));
             (if suffix_ids \<noteq> [] then do { (c, _) \<leftarrow> sw_add_child node suffix_ids suffix_kv False now c; Some c }
              else Some c) }
           else Some c);
     Some (c, matched, concat freed) }"

section \<open>Locking\<close>

text \<open>One node of \<open>inc_lock\<close>: the state, the swa tokens locked so far, the handle's uuid.\<close>

definition sw_inc_step :: "nat \<Rightarrow> swa_cache \<times> nat \<times> int option \<Rightarrow> (swa_cache \<times> nat \<times> int option) option" where
  "sw_inc_step n = (\<lambda>(c, swa_locked, uuid). do {
     nd \<leftarrow> nodes (sw_store c) n;
     let c = (if ref_count nd = 0 then sw_add_full (- int (nlength nd)) (int (nlength nd)) c else c);
     h \<leftarrow> upd_node n (\<lambda>nd. nd\<lparr>ref_count := ref_count nd + 1\<rparr>) (sw_store c);
     let c = sw_set_store h c;
     if swa_locked < sw_window c \<and> \<not> swa_tombstone nd then do {
       let c = (if swa_ref_count nd = 0 then sw_add_swa (- int (nlength nd)) (int (nlength nd)) c else c);
       h \<leftarrow> upd_node n (\<lambda>nd. nd\<lparr>swa_ref_count := swa_ref_count nd + 1\<rparr>) (sw_store c);
       let c = sw_set_store h c;
       let swa_locked = swa_locked + nlength nd;
       if swa_locked \<ge> sw_window c then
         (case swa_uuid nd of
            Some u \<Rightarrow> Some (c, swa_locked, Some u)
          | None \<Rightarrow> do {
              let u = sw_uuid_ctr c + 1;
              h \<leftarrow> upd_node n (\<lambda>nd. nd\<lparr>swa_uuid := Some u\<rparr>) (sw_store c);
              Some ((sw_set_store h c)\<lparr>sw_uuid_ctr := u\<rparr>, swa_locked, Some u) })
       else Some (c, swa_locked, uuid) }
     else Some (c, swa_locked, uuid) })"

definition sw_inc_lock :: "nat \<Rightarrow> swa_cache \<Rightarrow> (swa_cache \<times> int option) option" where
  "sw_inc_lock node c = do {
     (c, _, uuid) \<leftarrow> up_loop (\<lambda>(c, _, _). sw_store c) sw_inc_step node (c, 0, None);
     Some (c, uuid) }"

definition sw_dec_step :: "int option \<Rightarrow> nat \<Rightarrow> swa_cache \<times> bool \<Rightarrow> (swa_cache \<times> bool) option" where
  "sw_dec_step uuid n = (\<lambda>(c, dec_swa). do {
     h \<leftarrow> upd_node n (\<lambda>nd. nd\<lparr>ref_count := ref_count nd - 1\<rparr>) (sw_store c);
     nd \<leftarrow> nodes h n;
     _ \<leftarrow> py_assert (ref_count nd \<ge> 0);
     let c = sw_set_store h c;
     let c = (if ref_count nd = 0 then sw_add_full (int (nlength nd)) (- int (nlength nd)) c else c);
     if dec_swa \<and> \<not> swa_tombstone nd \<and> swa_ref_count nd > 0 then do {
       h \<leftarrow> upd_node n (\<lambda>nd. nd\<lparr>swa_ref_count := swa_ref_count nd - 1\<rparr>) (sw_store c);
       let c = sw_set_store h c;
       let c = (if swa_ref_count nd - 1 = 0 then sw_add_swa (int (nlength nd)) (- int (nlength nd)) c else c);
       Some (c, \<not> (uuid \<noteq> None \<and> swa_uuid nd = uuid)) }
     else Some (c, dec_swa) })"

definition sw_dec_lock :: "nat \<Rightarrow> int option \<Rightarrow> bool \<Rightarrow> swa_cache \<Rightarrow> swa_cache option" where
  "sw_dec_lock node uuid skip_swa c = do {
     (c, _) \<leftarrow> up_loop (\<lambda>(c, _). sw_store c) (sw_dec_step uuid) node (c, \<not> skip_swa);
     Some c }"

section \<open>Eviction\<close>

definition sw_leaves :: "swa_cache \<Rightarrow> nat list option" where
  "sw_leaves c = dfs_loop (\<lambda>nd. is_leaf nd \<and> \<not> is_root nd) (sw_store c) [rc_root (sw_kv c)] []"

definition swa_nodes :: "swa_cache \<Rightarrow> nat list option" where
  "swa_nodes c = dfs_loop (\<lambda>nd. \<not> is_root nd \<and> \<not> swa_tombstone nd) (sw_store c) [rc_root (sw_kv c)] []"

definition sw_all_nodes :: "swa_cache \<Rightarrow> nat list option" where
  "sw_all_nodes c = dfs_loop (\<lambda>nd. \<not> is_root nd) (sw_store c) [rc_root (sw_kv c)] []"

partial_function (option) swa_cascade_loop ::
  "nat \<Rightarrow> int list list \<Rightarrow> int \<Rightarrow> radix_cache \<Rightarrow> (radix_cache \<times> nat \<times> int list list \<times> int) option" where
  "swa_cascade_loop parent kv_out freed c = do {
     pd \<leftarrow> nodes (rc_store c) parent;
     if swa_tombstone pd \<and> is_leaf pd \<and> ref_count pd = 0 \<and> \<not> is_root pd then do {
       (h, p) \<leftarrow> unlink (rc_page_size c) parent (rc_store c);
       swa_cascade_loop p (kv_out @ [nvalue pd]) (freed + int (nlength pd))
         (c\<lparr>rc_store := h, rc_evictable := rc_evictable c - int (nlength pd)\<rparr>) }
     else Some (c, parent, kv_out, freed) }"

declare swa_cascade_loop.simps [code]

definition sw_unlink_cascade ::
  "nat \<Rightarrow> int list list \<Rightarrow> swa_cache \<Rightarrow> (swa_cache \<times> nat \<times> int list list \<times> int) option" where
  "sw_unlink_cascade node kv c = do {
     (h, p) \<leftarrow> unlink (sw_ps c) node (sw_store c);
     (kvc, parent, kv, casc) \<leftarrow> swa_cascade_loop p kv 0 ((sw_kv c)\<lparr>rc_store := h\<rparr>);
     Some (c\<lparr>sw_kv := kvc\<rparr>, parent, kv, casc) }"

partial_function (option) sw_evict_full_loop ::
  "int \<Rightarrow> (nat \<Rightarrow> int) \<Rightarrow> nat list \<Rightarrow> int list list \<Rightarrow> int list list \<Rightarrow> int \<Rightarrow> swa_cache \<Rightarrow>
     (swa_cache \<times> int list list \<times> int list list) option" where
  "sw_evict_full_loop num ts leaves kv swa freed c =
     (if freed < num \<and> leaves \<noteq> [] then do {
        (node, leaves) \<leftarrow> heappop ts leaves;
        nd \<leftarrow> nodes (sw_store c) node;
        if ref_count nd \<noteq> 0 \<or> \<not> is_leaf nd \<or> is_root nd
        then sw_evict_full_loop num ts leaves kv swa freed c
        else do {
          let c = sw_add_full (- int (nlength nd)) 0 c;
          let (c, swa) = (if \<not> swa_tombstone nd then (sw_add_swa (- int (nlength nd)) 0 c, swa @ [nvalue nd])
                          else (c, swa));
          (c, parent, kv, casc) \<leftarrow> sw_unlink_cascade node (kv @ [nvalue nd]) c;
          pd \<leftarrow> nodes (sw_store c) parent;
          sw_evict_full_loop num ts
            (if is_leaf pd \<and> ref_count pd = 0 \<and> \<not> is_root pd then heappush ts leaves parent else leaves)
            kv swa (freed + int (nlength nd) + casc) c } }
      else Some (c, kv, swa))"

declare sw_evict_full_loop.simps [code]

definition sw_evict_full :: "int \<Rightarrow> swa_cache \<Rightarrow> (swa_cache \<times> int list \<times> int list) option" where
  "sw_evict_full num_tokens c = do {
     all \<leftarrow> sw_leaves c;
     let leaves = filter (\<lambda>n. case nodes (sw_store c) n of None \<Rightarrow> False | Some nd \<Rightarrow> ref_count nd = 0) all;
     let ts = timestamp_of (sw_store c);
     (c, kv, swa) \<leftarrow> sw_evict_full_loop num_tokens ts (heapify ts leaves) [] [] 0 c;
     Some (c, concat kv, concat swa) }"

partial_function (option) sw_evict_swa_loop ::
  "int \<Rightarrow> (nat \<Rightarrow> int) \<Rightarrow> nat list \<Rightarrow> int list list \<Rightarrow> int list list \<Rightarrow> int \<Rightarrow> swa_cache \<Rightarrow>
     (swa_cache \<times> int list list \<times> int list list) option" where
  "sw_evict_swa_loop num ts cands kv swa freed c =
     (if freed < num \<and> cands \<noteq> [] then do {
        (node, cands) \<leftarrow> heappop ts cands;
        nd \<leftarrow> nodes (sw_store c) node;
        if swa_tombstone nd \<or> swa_ref_count nd \<noteq> 0 \<or> is_root nd
        then sw_evict_swa_loop num ts cands kv swa freed c
        else if is_leaf nd \<and> ref_count nd = 0 then do {
          let c = sw_add_swa (- int (nlength nd)) 0 (sw_add_full (- int (nlength nd)) 0 c);
          h \<leftarrow> upd_node node (\<lambda>nd. nd\<lparr>swa_tombstone := True\<rparr>) (sw_store c);
          (c, parent, kv, casc) \<leftarrow> sw_unlink_cascade node (kv @ [nvalue nd]) (sw_set_store h c);
          sw_evict_swa_loop num ts cands kv (swa @ [nvalue nd]) (freed + int (nlength nd)) c }
        else do {
          let c = sw_add_swa (- int (nlength nd)) 0 c;
          h \<leftarrow> upd_node node (\<lambda>nd. nd\<lparr>swa_tombstone := True\<rparr>) (sw_store c);
          sw_evict_swa_loop num ts cands kv (swa @ [nvalue nd]) (freed + int (nlength nd)) (sw_set_store h c) } }
      else Some (c, kv, swa))"

declare sw_evict_swa_loop.simps [code]

definition sw_evict_swa :: "int \<Rightarrow> swa_cache \<Rightarrow> (swa_cache \<times> int list \<times> int list) option" where
  "sw_evict_swa num_tokens c = do {
     all \<leftarrow> swa_nodes c;
     let cands = filter (\<lambda>n. case nodes (sw_store c) n of None \<Rightarrow> False | Some nd \<Rightarrow> swa_ref_count nd = 0) all;
     let ts = timestamp_of (sw_store c);
     (c, kv, swa) \<leftarrow> sw_evict_swa_loop num_tokens ts (heapify ts cands) [] [] 0 c;
     Some (c, concat kv, concat swa) }"

partial_function (option) sw_trim_loop ::
  "int list \<Rightarrow> nat \<Rightarrow> swa_cache \<Rightarrow> nat \<Rightarrow> nat \<Rightarrow> int list list \<Rightarrow> (swa_cache \<times> int list list) option" where
  "sw_trim_loop input_ids keep_from c node pos freed =
     (if pos < keep_from then do {
        nd \<leftarrow> nodes (sw_store c) node;
        k \<leftarrow> key_fn (sw_ps c) (drop pos input_ids);
        (case map_of (children nd) k of
           None \<Rightarrow> Some (c, freed)
         | Some child \<Rightarrow> do {
             cd \<leftarrow> nodes (sw_store c) child;
             if pos + nlength cd > keep_from then Some (c, freed)
             else if \<not> swa_tombstone cd \<and> swa_ref_count cd = 0 \<and> \<not> is_leaf cd then do {
               h \<leftarrow> upd_node child (\<lambda>nd. nd\<lparr>swa_tombstone := True\<rparr>) (sw_store c);
               sw_trim_loop input_ids keep_from (sw_set_store h (sw_add_swa (- int (nlength cd)) 0 c)) child
                 (pos + nlength cd) (freed @ [nvalue cd]) }
             else sw_trim_loop input_ids keep_from c child (pos + nlength cd) freed }) }
      else Some (c, freed))"

declare sw_trim_loop.simps [code]

definition sw_trim_head_swa :: "int list \<Rightarrow> int \<Rightarrow> int \<Rightarrow> swa_cache \<Rightarrow> (swa_cache \<times> int list) option" where
  "sw_trim_head_swa input_ids keep_from now c =
     (if keep_from \<le> 0 then Some (c, [])
      else do {
        (c, _) \<leftarrow> sw_match_prefix (take (nat keep_from) input_ids) now c;
        (c, freed) \<leftarrow> sw_trim_loop input_ids (nat keep_from) c (rc_root (sw_kv c)) 0 [];
        Some (c, concat freed) })"

definition sw_size_info :: "swa_cache \<Rightarrow> size_info" where
  "sw_size_info c = \<lparr>si_evictable = rc_evictable (sw_kv c), si_protected = rc_protected (sw_kv c)\<rparr>"

definition sw_check_integrity :: "swa_cache \<Rightarrow> unit option" where
  "sw_check_integrity c = do {
     ns \<leftarrow> sw_all_nodes c;
     py_assert (list_all (\<lambda>n. case nodes (sw_store c) n of None \<Rightarrow> False
        | Some nd \<Rightarrow> ref_count nd \<ge> 0 \<and> swa_ref_count nd \<ge> 0 \<and> ref_count nd \<ge> swa_ref_count nd \<and>
            (swa_tombstone nd \<longrightarrow> swa_ref_count nd = 0)) ns) }"

end
