(* ===== verification/PyStr.thy ===== *)
theory PyStr
  imports Prelude
begin

text \<open>
  Python's \<open>str\<close> as the program uses it: a string is the list of its code points, and \<open>find\<close>, \<open>in\<close>,
  \<open>startswith\<close> (the library's \<^const>\<open>prefix\<close>), \<open>endswith\<close> (\<^const>\<open>suffix\<close>), \<open>replace\<close> and \<open>strip\<close> are the
  methods of the same name. The last section is the hold-back loop that the detokenizer and the reasoning parsers
  share: how much of the end of a text could still grow into one of some markers.
\<close>

type_synonym ustr = "nat list"

definition lit :: "string \<Rightarrow> ustr" where
  "lit s = map of_char s"

section \<open>Searching\<close>

text \<open>\<open>t.find(p)\<close>, with \<open>None\<close> for \<open>-1\<close>.\<close>

fun str_find :: "'a list \<Rightarrow> 'a list \<Rightarrow> nat option" where
  "str_find p [] = (if p = [] then Some 0 else None)"
| "str_find p (x # t) = (if prefix p (x # t) then Some 0 else map_option Suc (str_find p t))"

definition str_in :: "'a list \<Rightarrow> 'a list \<Rightarrow> bool" where
  "str_in p t \<longleftrightarrow> str_find p t \<noteq> None"

lemma str_find_Some:
  "str_find p t = Some k \<longleftrightarrow> k \<le> length t \<and> prefix p (drop k t) \<and> (\<forall>j<k. \<not> prefix p (drop j t))"
proof (induction t arbitrary: k)
  case Nil
  then show ?case by auto
next
  case (Cons x t)
  show ?case
  proof (cases k)
    case 0
    then show ?thesis by auto
  next
    case (Suc i)
    have "(\<forall>j<k. \<not> prefix p (drop j (x # t))) \<longleftrightarrow> \<not> prefix p (x # t) \<and> (\<forall>j<i. \<not> prefix p (drop j t))"
      unfolding Suc All_less_Suc2 by simp
    then show ?thesis using Cons.IH[of i] by (auto simp: Suc)
  qed
qed

lemma str_find_None: "str_find p t = None \<longleftrightarrow> (\<forall>k\<le>length t. \<not> prefix p (drop k t))"
proof (induction t)
  case Nil
  then show ?case by auto
next
  case (Cons x t)
  have "(\<forall>k\<le>length (x # t). \<not> prefix p (drop k (x # t))) \<longleftrightarrow> \<not> prefix p (x # t) \<and> (\<forall>k\<le>length t. \<not> prefix p (drop k t))"
    by (metis Suc_le_mono drop0 drop_Suc_Cons length_Cons old.nat.exhaust zero_le)
  then show ?case using Cons by simp
qed

lemma str_in_drop: "str_in p t \<longleftrightarrow> (\<exists>k\<le>length t. prefix p (drop k t))"
  unfolding str_in_def str_find_None by blast

lemma str_in_sublist: "str_in p t \<longleftrightarrow> sublist p t"
proof
  assume "str_in p t"
  then obtain k q where "drop k t = p @ q" by (auto simp: str_in_drop prefix_def)
  then have "t = take k t @ p @ q" by (metis append_take_drop_id)
  then show "sublist p t" by (metis sublist_def)
next
  assume "sublist p t"
  then obtain a b where t: "t = a @ p @ b" by (auto simp: sublist_def)
  have "length a \<le> length t" "prefix p (drop (length a) t)" by (simp_all add: t)
  then show "str_in p t" unfolding str_in_drop by blast
qed

lemma str_find_split: "str_find p t = Some k \<Longrightarrow> t = take k t @ p @ drop (k + length p) t"
  unfolding str_find_Some by (metis add.commute append_eq_conv_conj append_take_drop_id drop_drop prefix_def)

lemma str_find_le: "str_find p t = Some k \<Longrightarrow> k + length p \<le> length t"
  unfolding str_find_Some using prefix_length_le[of p "drop k t"] by auto

lemma prefix_at_append:
  assumes "j + length p \<le> length t"
  shows "prefix p (drop j (t @ v)) \<longleftrightarrow> prefix p (drop j t)"
proof -
  have "drop j (t @ v) = drop j t @ v" using assms by simp
  moreover have "length p \<le> length (drop j t)" using assms by simp
  ultimately show ?thesis by (auto simp: prefix_append)
qed

lemma str_find_append: "str_find p t = Some k \<Longrightarrow> str_find p (t @ v) = Some k"
proof -
  assume f: "str_find p t = Some k"
  have "k + length p \<le> length t" by (rule str_find_le[OF f])
  then have "\<And>j. j \<le> k \<Longrightarrow> prefix p (drop j (t @ v)) \<longleftrightarrow> prefix p (drop j t)" by (intro prefix_at_append) simp
  with f show ?thesis by (auto simp: str_find_Some)
qed

lemma str_in_append: "str_in p t \<Longrightarrow> str_in p (t @ v)"
  by (auto simp: str_in_def dest: str_find_append)

text \<open>The characters of \<open>p\<close>, deleted once or everywhere.\<close>

definition remove_once :: "'a list \<Rightarrow> 'a list \<Rightarrow> 'a list" where
  "remove_once p t = (case str_find p t of None \<Rightarrow> t | Some k \<Rightarrow> take k t @ drop (k + length p) t)"

function remove_all :: "'a list \<Rightarrow> 'a list \<Rightarrow> 'a list" where
  "remove_all p t = (if p = [] then t else case str_find p t of None \<Rightarrow> t | Some k \<Rightarrow> take k t @ remove_all p (drop (k + length p) t))"
  by auto
termination by (relation "measure (\<lambda>(p, t). length t)") (auto dest!: str_find_le simp: length_greater_0_conv[symmetric] simp del: length_greater_0_conv)

declare remove_all.simps [simp del]

text \<open>\<open>t.rfind(c)\<close> of one character.\<close>

definition str_rfind :: "'a \<Rightarrow> 'a list \<Rightarrow> nat option" where
  "str_rfind c t = find (\<lambda>k. t ! k = c) (rev [0..<length t])"

section \<open>White space\<close>

text \<open>The code points for which \<open>str.isspace\<close> holds, which \<open>strip\<close> removes.\<close>

definition is_space :: "nat \<Rightarrow> bool" where
  "is_space c \<longleftrightarrow> 9 \<le> c \<and> c \<le> 13 \<or> 28 \<le> c \<and> c \<le> 32 \<or> c = 0x85 \<or> c = 0xA0 \<or> c = 0x1680 \<or> 0x2000 \<le> c \<and> c \<le> 0x200A \<or>
    c = 0x2028 \<or> c = 0x2029 \<or> c = 0x202F \<or> c = 0x205F \<or> c = 0x3000"

definition lstrip :: "ustr \<Rightarrow> ustr" where
  "lstrip t = dropWhile is_space t"

definition rstrip :: "ustr \<Rightarrow> ustr" where
  "rstrip t = rev (dropWhile is_space (rev t))"

definition strip :: "ustr \<Rightarrow> ustr" where
  "strip t = rstrip (lstrip t)"

lemma rstrip_split: "\<exists>w. t = rstrip t @ w \<and> (\<forall>c\<in>set w. is_space c)"
proof -
  have "rev t = takeWhile is_space (rev t) @ dropWhile is_space (rev t)" by simp
  then have "t = rev (dropWhile is_space (rev t)) @ rev (takeWhile is_space (rev t))" by (metis rev_append rev_rev_ident)
  then show ?thesis unfolding rstrip_def by (intro exI[of _ "rev (takeWhile is_space (rev t))"]) (auto dest: set_takeWhileD)
qed

section \<open>Holding back a partial marker\<close>

text \<open>The longest end of \<open>text\<close>, longer than \<open>best\<close>, that is a proper prefix of \<open>tok\<close>: the loop
  \<open>for k in range(min(len(tok) - 1, len(text)), best, -1)\<close>; and the loop over all markers.\<close>

definition hold_tok :: "'a list \<Rightarrow> 'a list \<Rightarrow> nat \<Rightarrow> nat" where
  "hold_tok text tok best =
     (case find (\<lambda>k. suffix (take k tok) text) (rev [Suc best..<Suc (min (length tok - 1) (length text))]) of None \<Rightarrow> best | Some k \<Rightarrow> k)"

definition longest_hold :: "'a list list \<Rightarrow> 'a list \<Rightarrow> nat" where
  "longest_hold toks text = fold (hold_tok text) toks 0"

text \<open>Its specification: \<open>k\<close> characters at the end of \<open>text\<close> are a proper prefix of a marker.\<close>

definition partial_end :: "'a list list \<Rightarrow> 'a list \<Rightarrow> nat \<Rightarrow> bool" where
  "partial_end toks text k \<longleftrightarrow> (\<exists>tok\<in>set toks. k < length tok \<and> k \<le> length text \<and> suffix (take k tok) text)"

lemma find_rev_upt:
  "find P (rev [a..<b]) = Some k \<Longrightarrow> P k \<and> a \<le> k \<and> k < b \<and> (\<forall>j. k < j \<longrightarrow> j < b \<longrightarrow> \<not> P j)"
proof (induction b)
  case 0
  then show ?case by simp
next
  case (Suc b)
  then show ?case by (cases "a \<le> b") (auto split: if_splits simp: less_Suc_eq)
qed

lemma find_rev_upt_None: "find P (rev [a..<b]) = None \<longleftrightarrow> (\<forall>k. a \<le> k \<and> k < b \<longrightarrow> \<not> P k)"
  by (auto simp: find_None_iff)

lemma partial_end_bound: "partial_end [tok] text k \<Longrightarrow> k < Suc (min (length tok - 1) (length text)) \<and> suffix (take k tok) text"
  by (auto simp: partial_end_def)

lemma hold_tok_spec:
  "best \<le> hold_tok text tok best \<and> (hold_tok text tok best = best \<or> partial_end [tok] text (hold_tok text tok best)) \<and>
   (\<forall>k. partial_end [tok] text k \<longrightarrow> k \<le> hold_tok text tok best)"
proof -
  define b where "b = Suc (min (length tok - 1) (length text))"
  have h: "hold_tok text tok best = (case find (\<lambda>k. suffix (take k tok) text) (rev [Suc best..<b]) of None \<Rightarrow> best | Some k \<Rightarrow> k)"
    by (simp add: hold_tok_def b_def del: upt_Suc)
  show ?thesis
  proof (cases "find (\<lambda>k. suffix (take k tok) text) (rev [Suc best..<b])")
    case None
    have "k \<le> best" if "partial_end [tok] text k" for k
      using None partial_end_bound[OF that] unfolding find_rev_upt_None b_def[symmetric] by (meson not_less_eq_eq)
    then show ?thesis using None by (simp add: h)
  next
    case (Some k)
    note k = find_rev_upt[OF Some]
    have "j \<le> k" if "partial_end [tok] text j" for j
      using k partial_end_bound[OF that] unfolding b_def[symmetric] by (meson not_le)
    moreover have "partial_end [tok] text k" using k by (auto simp: partial_end_def b_def)
    ultimately show ?thesis using Some k by (auto simp: h)
  qed
qed

lemma fold_hold_spec:
  "best \<le> fold (hold_tok text) toks best \<and> (fold (hold_tok text) toks best = best \<or> partial_end toks text (fold (hold_tok text) toks best)) \<and>
   (\<forall>k. partial_end toks text k \<longrightarrow> k \<le> fold (hold_tok text) toks best)"
proof (induction toks arbitrary: best)
  case Nil
  then show ?case by (simp add: partial_end_def)
next
  case (Cons tok toks)
  have h: "partial_end (tok # toks) text k \<longleftrightarrow> partial_end [tok] text k \<or> partial_end toks text k" for k by (auto simp: partial_end_def)
  define b where "b = hold_tok text tok best"
  define n where "n = fold (hold_tok text) toks b"
  have f: "fold (hold_tok text) (tok # toks) best = n" by (simp add: n_def b_def)
  have i: "b \<le> n" "n = b \<or> partial_end toks text n" "\<And>k. partial_end toks text k \<Longrightarrow> k \<le> n" using Cons.IH[of b] unfolding n_def by blast+
  have t: "best \<le> b" "b = best \<or> partial_end [tok] text b" "\<And>k. partial_end [tok] text k \<Longrightarrow> k \<le> b" using hold_tok_spec[of best "text" tok] unfolding b_def by blast+
  have "k \<le> n" if "partial_end [tok] text k" for k using t(3)[OF that] i(1) by simp
  then show ?case unfolding f h using i t by auto
qed

lemma longest_hold_max: "partial_end toks text k \<Longrightarrow> k \<le> longest_hold toks text"
  using fold_hold_spec unfolding longest_hold_def by blast

lemma longest_hold_held: "longest_hold toks text \<noteq> 0 \<Longrightarrow> partial_end toks text (longest_hold toks text)"
  using fold_hold_spec[of 0 "text" toks] unfolding longest_hold_def by simp

lemma longest_hold_le [simp]: "longest_hold toks text \<le> length text"
  using longest_hold_held[of toks "text"] by (cases "longest_hold toks text = 0") (auto simp: partial_end_def)

lemma longest_hold_eq:
  assumes "n = 0 \<or> partial_end toks text n" "\<And>k. partial_end toks text k \<Longrightarrow> k \<le> n"
  shows "longest_hold toks text = n"
  using assms longest_hold_max longest_hold_held by (metis bot_nat_0.extremum_uniqueI le_antisym)

text \<open>A marker that begins in \<open>text\<close> and is completed by what follows begins in the part held back: an emitted text
  never cuts a marker.\<close>

lemma marker_in_held:
  assumes tok: "tok \<in> set toks" and p: "prefix tok (drop c (text @ v))" and c: "c < length text" "length text < c + length tok"
  shows "length text - longest_hold toks text \<le> c"
proof -
  obtain z where z: "drop c text @ v = tok @ z" using p c by (auto simp: prefix_def)
  have "take (length text - c) (drop c text @ v) = drop c text" by simp
  moreover have "take (length text - c) (tok @ z) = take (length text - c) tok" using c by simp
  ultimately have "take (length text - c) tok = drop c text" using z by simp
  then have "partial_end toks text (length text - c)" using tok c by (auto simp: partial_end_def suffix_drop intro!: bexI[of _ tok])
  from longest_hold_max[OF this] show ?thesis by simp
qed

text \<open>So the first occurrence of a marker that is not yet complete starts no earlier than what was held back.\<close>

lemma find_in_held:
  assumes "tok \<in> set toks" "\<not> str_in tok text" "str_find tok (text @ v) = Some c"
  shows "length text - longest_hold toks text \<le> c"
proof (cases "c < length text")
  case True
  have "\<not> c + length tok \<le> length text"
  proof
    assume le: "c + length tok \<le> length text"
    then have "prefix tok (drop c text)" using assms(3) prefix_at_append[OF le, of v] by (simp add: str_find_Some)
    then show False using assms(2) True by (auto simp: str_in_drop)
  qed
  then show ?thesis using marker_in_held[OF assms(1) _ True, of v] assms(3) by (simp add: str_find_Some)
qed simp

end
