(* ===== verification/Requests.thy ===== *)
theory Requests
  imports Complex_Main Pools HybridRadix SwaRadix PyStr
begin

text \<open>
  The request objects of \<^verbatim>\<open>core.py\<close> (\<open>SamplingParams\<close>, \<open>Req\<close>) and
  \<^verbatim>\<open>scheduler/prefill.py\<close> (\<open>ChunkedReq\<close>), the waiting requests of
  \<^verbatim>\<open>scheduler/utils.py\<close>, and the two small managers of \<^verbatim>\<open>scheduler/table.py\<close> and
  \<^verbatim>\<open>scheduler/decode.py\<close>.  Requests are compared by identity in the code, so the
  managers hold object numbers of a store of requests.
\<close>

section \<open>Requests\<close>

record sampling_params =
  smp_temperature :: rat
  smp_top_k :: int
  smp_top_p :: rat
  smp_ignore_eos :: bool
  smp_max_tokens :: nat
  smp_stop_strs :: "ustr list"

definition is_greedy :: "sampling_params \<Rightarrow> bool" where
  "is_greedy s \<longleftrightarrow> (smp_temperature s \<le> 0 \<or> smp_top_k s = 1) \<and> smp_top_p s = 1"

record mm_item =
  mm_hash :: int
  mm_offsets :: "(int \<times> int) list"
  mm_feature :: "int list list option"
  mm_precomputed :: "int list list option"

text \<open>Handles: what each cache gives out for a matched prefix.\<close>

datatype cache_handle =
    HNaive
  | HRadix handle
  | HHybrid nat nat "int list"
  | HSwa nat nat "int list" "int option"

fun h_cached_len :: "cache_handle \<Rightarrow> nat" where
  "h_cached_len HNaive = 0"
| "h_cached_len (HRadix h) = cached_len h"
| "h_cached_len (HHybrid n _ _) = n"
| "h_cached_len (HSwa n _ _ _) = n"

record req =
  rq_input_ids :: "int list"
  rq_table_idx :: int
  rq_cached_len :: nat
  rq_device_len :: nat
  rq_max_device_len :: nat
  rq_output_len :: nat
  rq_uid :: int
  rq_sampling :: sampling_params
  rq_handle :: cache_handle
  rq_mm_items :: "mm_item list"
  rq_mrope_full :: "int list list option"
  rq_mrope_delta :: int
  rq_linear_slot :: "nat option"
  rq_ping_pong :: "(nat \<times> nat) option"
  rq_next_track :: nat
  rq_last_track :: "nat option"
  rq_restore_src :: "nat option"
  rq_swa_evicted :: nat
  rq_decode_batch :: nat
  rq_anchor :: "nat option"
  rq_aborted :: bool
  rq_chunked :: bool

text \<open>\<open>Req.__post_init__\<close>, with the dataclass defaults.\<close>

definition new_req ::
  "bool \<Rightarrow> int list \<Rightarrow> int \<Rightarrow> nat \<Rightarrow> nat \<Rightarrow> int \<Rightarrow> sampling_params \<Rightarrow> cache_handle \<Rightarrow> req option" where
  "new_req chunked input_ids table_idx clen output_len uid sampling hdl = do {
     let device_len = length input_ids;
     let max_device_len = length input_ids + output_len;
     _ \<leftarrow> py_assert (clen < device_len \<and> device_len \<le> max_device_len);
     Some \<lparr>rq_input_ids = input_ids, rq_table_idx = table_idx, rq_cached_len = clen, rq_device_len = device_len,
       rq_max_device_len = max_device_len, rq_output_len = output_len, rq_uid = uid, rq_sampling = sampling,
       rq_handle = hdl, rq_mm_items = [], rq_mrope_full = None, rq_mrope_delta = 0, rq_linear_slot = None,
       rq_ping_pong = None, rq_next_track = 0, rq_last_track = None, rq_restore_src = None, rq_swa_evicted = 0,
       rq_decode_batch = 0, rq_anchor = None, rq_aborted = False, rq_chunked = chunked\<rparr> }"

definition remain_len :: "req \<Rightarrow> int" where
  "remain_len r = int (rq_max_device_len r) - int (rq_device_len r)"

definition extend_len :: "req \<Rightarrow> nat" where
  "extend_len r = rq_device_len r - rq_cached_len r"

definition complete_one :: "req \<Rightarrow> req" where
  "complete_one r = r\<lparr>rq_cached_len := rq_device_len r, rq_device_len := rq_device_len r + 1\<rparr>"

text \<open>The base class needs room in the id buffer; a \<open>ChunkedReq\<close> is never sampled.\<close>

definition append_host :: "int \<Rightarrow> req \<Rightarrow> req option" where
  "append_host next_token r =
     (if rq_chunked r then None
      else do {
        _ \<leftarrow> py_assert (length (rq_input_ids r) + 1 \<le> rq_max_device_len r);
        Some (r\<lparr>rq_input_ids := rq_input_ids r @ [next_token]\<rparr>) })"

definition can_decode :: "req \<Rightarrow> bool" where
  "can_decode r \<longleftrightarrow> \<not> rq_chunked r \<and> remain_len r > 0"

record pending_req =
  pr_uid :: int
  pr_input_ids :: "int list"
  pr_sampling :: sampling_params
  pr_chunked :: "nat option"
  pr_mm_items :: "mm_item list"
  pr_mrope_full :: "int list list option"
  pr_mrope_delta :: int

definition pr_input_len :: "pending_req \<Rightarrow> nat" where
  "pr_input_len p = length (pr_input_ids p)"

definition pr_output_len :: "pending_req \<Rightarrow> nat" where
  "pr_output_len p = smp_max_tokens (pr_sampling p)"

section \<open>TableManager\<close>

record table_manager =
  tm_max :: nat
  tm_free_slots :: "nat list"
  tm_token_pool :: "int list list"

definition tm_init :: "nat \<Rightarrow> int list list \<Rightarrow> table_manager" where
  "tm_init max_running_reqs page_table =
     \<lparr>tm_max = max_running_reqs, tm_free_slots = [0..<max_running_reqs],
      tm_token_pool = map (map (\<lambda>_. 0)) page_table\<rparr>"

definition tm_available :: "table_manager \<Rightarrow> nat" where
  "tm_available t = length (tm_free_slots t)"

text \<open>\<open>list.pop()\<close>: the last one, an \<open>IndexError\<close> when empty.\<close>

definition tm_allocate :: "table_manager \<Rightarrow> (table_manager \<times> nat) option" where
  "tm_allocate t =
     (if tm_free_slots t = [] then None
      else Some (t\<lparr>tm_free_slots := butlast (tm_free_slots t)\<rparr>, last (tm_free_slots t)))"

definition tm_free :: "nat \<Rightarrow> table_manager \<Rightarrow> table_manager" where
  "tm_free slot t = t\<lparr>tm_free_slots := tm_free_slots t @ [slot]\<rparr>"

definition tm_rebuild :: "int list list \<Rightarrow> table_manager \<Rightarrow> table_manager" where
  "tm_rebuild page_table t =
     t\<lparr>tm_token_pool := map (map (\<lambda>_. 0)) page_table, tm_free_slots := [0..<tm_max t]\<rparr>"

section \<open>DecodeManager\<close>

type_synonym req_store = "nat \<Rightarrow> req option"

definition req_ok :: "(req \<Rightarrow> bool) \<Rightarrow> req_store \<Rightarrow> nat \<Rightarrow> bool" where
  "req_ok P rs i = (case rs i of None \<Rightarrow> False | Some r \<Rightarrow> P r)"

text \<open>The set of running requests, by object number and in that order.\<close>

record decode_manager =
  dm_page_size :: nat
  dm_running :: "nat list"

definition dm_filter_reqs :: "req_store \<Rightarrow> nat list \<Rightarrow> decode_manager \<Rightarrow> decode_manager" where
  "dm_filter_reqs rs reqs d =
     d\<lparr>dm_running := filter (req_ok can_decode rs) (sort (remdups (dm_running d @ reqs)))\<rparr>"

definition dm_remove_req :: "nat \<Rightarrow> decode_manager \<Rightarrow> decode_manager" where
  "dm_remove_req i d = d\<lparr>dm_running := removeAll i (dm_running d)\<rparr>"

definition dm_abort_req :: "req_store \<Rightarrow> int \<Rightarrow> decode_manager \<Rightarrow> decode_manager \<times> nat option" where
  "dm_abort_req rs uid d =
     (case find (req_ok (\<lambda>r. rq_uid r = uid) rs) (dm_running d) of
        Some i \<Rightarrow> (dm_remove_req i d, Some i)
      | None \<Rightarrow> (d, None))"

definition dm_inflight_tokens :: "req_store \<Rightarrow> decode_manager \<Rightarrow> int" where
  "dm_inflight_tokens rs d =
     sum_list (map (\<lambda>i. case rs i of None \<Rightarrow> 0 | Some r \<Rightarrow> remain_len r) (dm_running d))
     + (int (dm_page_size d) - 1) * int (length (dm_running d))"

definition dm_runnable :: "decode_manager \<Rightarrow> bool" where
  "dm_runnable d \<longleftrightarrow> dm_running d \<noteq> []"

definition dm_schedule_next_batch :: "req_store \<Rightarrow> decode_manager \<Rightarrow> nat list option" where
  "dm_schedule_next_batch rs d =
     (if \<not> dm_runnable d then None
      else Some (sort_key (\<lambda>i. case rs i of None \<Rightarrow> 0 | Some r \<Rightarrow> rq_uid r) (dm_running d)))"

end
