(* ===== verification/CacheManager.thy ===== *)
theory CacheManager
  imports Requests
begin

text \<open>
  \<^verbatim>\<open>scheduler/cache.py\<close> (\<open>CacheManager\<close>): the page free list, the page table and the
  prefix cache of the server, for the four cache kinds.  The page table is shared with
  the table manager and lives here.  Clock readings are a function \<open>clk\<close>: the \<open>k\<close>-th
  reading of the operation.
\<close>

section \<open>State\<close>

datatype prefix_cache =
    PNaive
  | PRadix radix_cache
  | PHybrid hybrid_cache
  | PSwa swa_cache

datatype cache_type = TNaive | TRadix | THybridRadix | TSwaRadix

record cache_manager =
  cm_free_slots :: "int list"
  cm_lazy :: "int list option"
  cm_linear_pool :: "linear_pool option"
  cm_swa_pool :: "swa_pool option"
  cm_window :: "nat option"
  cm_chunk_budget :: "nat option"
  cm_prefix :: prefix_cache
  cm_num_pages :: nat
  cm_page_table :: "int list list"
  cm_page_size :: nat
  cm_type :: cache_type

definition is_hybrid :: "cache_manager \<Rightarrow> bool" where
  "is_hybrid cm \<longleftrightarrow> cm_type cm = THybridRadix"

definition is_swa :: "cache_manager \<Rightarrow> bool" where
  "is_swa cm \<longleftrightarrow> cm_type cm = TSwaRadix"

definition swa_paged :: "cache_manager \<Rightarrow> bool" where
  "swa_paged cm \<longleftrightarrow> cm_swa_pool cm \<noteq> None"

definition swa_retain_gap :: nat where
  "swa_retain_gap = 16"

definition make_prefix_cache :: "cache_type \<Rightarrow> nat \<Rightarrow> nat option \<Rightarrow> int \<Rightarrow> nat \<Rightarrow> prefix_cache option" where
  "make_prefix_cache ty page_size window now cnt =
     (case ty of
        TNaive \<Rightarrow> Some PNaive
      | TRadix \<Rightarrow> map_option PRadix (rc_init page_size now cnt)
      | THybridRadix \<Rightarrow> map_option PHybrid (hc_init page_size now cnt)
      | TSwaRadix \<Rightarrow> Option.bind window (\<lambda>w. map_option PSwa (sw_init page_size w now cnt)))"

definition all_pages :: "nat \<Rightarrow> nat \<Rightarrow> int list" where
  "all_pages num_pages page_size = map (\<lambda>i. int (i * page_size)) [0..<num_pages]"

definition cm_init ::
  "nat \<Rightarrow> nat \<Rightarrow> int list list \<Rightarrow> cache_type \<Rightarrow> linear_pool option \<Rightarrow> swa_pool option \<Rightarrow> nat option \<Rightarrow> nat option \<Rightarrow>
     int \<Rightarrow> nat \<Rightarrow> cache_manager option" where
  "cm_init num_pages page_size page_table ty lin_pool swa window chunk_budget now cnt = do {
     pc \<leftarrow> make_prefix_cache ty page_size window now cnt;
     Some \<lparr>cm_free_slots = all_pages num_pages page_size, cm_lazy = None, cm_linear_pool = lin_pool, cm_swa_pool = swa,
       cm_window = window, cm_chunk_budget = chunk_budget, cm_prefix = pc, cm_num_pages = num_pages,
       cm_page_table = page_table, cm_page_size = page_size, cm_type = ty\<rparr> }"

definition prefill_chunk_align :: "cache_manager \<Rightarrow> nat" where
  "prefill_chunk_align cm = (if is_hybrid cm then cm_page_size cm else 1)"

section \<open>The prefix-cache interface\<close>

text \<open>Dispatch on the cache object: the generic interface is the naive and the plain radix cache.\<close>

fun pc_size_info :: "prefix_cache \<Rightarrow> size_info" where
  "pc_size_info PNaive = naive_size_info"
| "pc_size_info (PRadix c) = rc_size_info c"
| "pc_size_info (PHybrid c) = hc_size_info c"
| "pc_size_info (PSwa c) = sw_size_info c"

definition evictable_size :: "cache_manager \<Rightarrow> int" where
  "evictable_size cm = si_evictable (pc_size_info (cm_prefix cm))"

fun pc_match_prefix :: "int list \<Rightarrow> int \<Rightarrow> prefix_cache \<Rightarrow> (prefix_cache \<times> cache_handle \<times> nat option) option" where
  "pc_match_prefix ids tic PNaive = Some (PNaive, HNaive, None)"
| "pc_match_prefix ids tic (PRadix c) =
     map_option (\<lambda>(c, h). (PRadix c, HRadix h, None)) (rc_match_prefix ids tic c)"
| "pc_match_prefix ids tic (PHybrid c) =
     map_option (\<lambda>(c, m). (PHybrid c, HHybrid (nat (hm_cached_len m)) (hm_node m) (hm_kv_indices m), hm_mamba_value m))
       (hc_match_prefix ids tic c)"
| "pc_match_prefix ids tic (PSwa c) =
     map_option (\<lambda>(c, m). (PSwa c, HSwa (sm_cached_len m) (sm_node m) (sm_kv_indices m) None, None))
       (sw_match_prefix ids tic c)"

fun pc_insert_prefix ::
  "int list \<Rightarrow> int list \<Rightarrow> int \<Rightarrow> int \<Rightarrow> prefix_cache \<Rightarrow> (prefix_cache \<times> nat \<times> cache_handle) option" where
  "pc_insert_prefix ids indices tic now PNaive = Some (PNaive, 0, HNaive)"
| "pc_insert_prefix ids indices tic now (PRadix c) =
     map_option (\<lambda>(c, n, h). (PRadix c, n, HRadix h)) (rc_insert_prefix ids indices tic now c)"
| "pc_insert_prefix _ _ _ _ _ = None"

fun pc_evict :: "int \<Rightarrow> prefix_cache \<Rightarrow> (prefix_cache \<times> int list) option" where
  "pc_evict n PNaive = map_option (Pair PNaive) (naive_evict n)"
| "pc_evict n (PRadix c) = map_option (\<lambda>(c, ev). (PRadix c, ev)) (rc_evict n c)"
| "pc_evict _ _ = None"

fun pc_matched_indices :: "prefix_cache \<Rightarrow> cache_handle \<Rightarrow> int list option" where
  "pc_matched_indices pc HNaive = Some []"
| "pc_matched_indices (PRadix c) (HRadix h) = get_matched_indices (rc_store c) h"
| "pc_matched_indices pc (HHybrid _ _ kv) = Some kv"
| "pc_matched_indices pc (HSwa _ _ kv _) = Some kv"
| "pc_matched_indices _ _ = None"

text \<open>\<open>lock\<close> records the window boundary on a sliding-window handle: the updated handle is returned.\<close>

fun pc_lock :: "cache_handle \<Rightarrow> prefix_cache \<Rightarrow> (prefix_cache \<times> cache_handle) option" where
  "pc_lock h PNaive = Some (PNaive, h)"
| "pc_lock (HRadix h) (PRadix c) = map_option (\<lambda>c. (PRadix c, HRadix h)) (rc_lock_handle h False c)"
| "pc_lock (HHybrid n nd kv) (PHybrid c) = map_option (\<lambda>c. (PHybrid c, HHybrid n nd kv)) (hc_inc_lock nd c)"
| "pc_lock (HSwa n nd kv _) (PSwa c) = map_option (\<lambda>(c, u). (PSwa c, HSwa n nd kv u)) (sw_inc_lock nd c)"
| "pc_lock _ _ = None"

fun pc_unlock :: "cache_handle \<Rightarrow> prefix_cache \<Rightarrow> prefix_cache option" where
  "pc_unlock h PNaive = Some PNaive"
| "pc_unlock (HRadix h) (PRadix c) = map_option PRadix (rc_lock_handle h True c)"
| "pc_unlock (HHybrid n nd kv) (PHybrid c) = map_option PHybrid (hc_dec_lock nd c)"
| "pc_unlock (HSwa n nd kv u) (PSwa c) = map_option PSwa (sw_dec_lock nd u False c)"
| "pc_unlock _ _ = None"

section \<open>Sizes, matching and locks\<close>

definition page_usage :: "cache_manager \<Rightarrow> int \<times> nat" where
  "page_usage cm = (int (cm_num_pages cm) - int (length (cm_free_slots cm)) - evictable_size cm div int (cm_page_size cm),
     cm_num_pages cm)"

definition available_size :: "cache_manager \<Rightarrow> int" where
  "available_size cm = evictable_size cm + int (length (cm_free_slots cm) * cm_page_size cm)"

definition mamba_available_size :: "cache_manager \<Rightarrow> int option" where
  "mamba_available_size cm = do {
     pool \<leftarrow> cm_linear_pool cm;
     (case cm_prefix cm of
        PHybrid c \<Rightarrow> Some (int (lp_num_free_slots pool) + hc_mamba_evictable c)
      | _ \<Rightarrow> None) }"

definition swa_available_size :: "cache_manager \<Rightarrow> int option" where
  "swa_available_size cm = do {
     pool \<leftarrow> cm_swa_pool cm;
     Some (int (sp_available pool) + (case cm_prefix cm of PSwa c \<Rightarrow> sw_evictable c | _ \<Rightarrow> 0)) }"

definition match_req :: "int list \<Rightarrow> int \<Rightarrow> cache_manager \<Rightarrow> (cache_manager \<times> cache_handle \<times> nat option) option" where
  "match_req input_ids tic cm = do {
     _ \<leftarrow> py_assert (length input_ids > 0);
     (pc, h, mv) \<leftarrow> pc_match_prefix (take (length input_ids - 1) input_ids) tic (cm_prefix cm);
     Some (cm\<lparr>cm_prefix := pc\<rparr>, h, mv) }"

definition cm_lock :: "cache_handle \<Rightarrow> cache_manager \<Rightarrow> (cache_manager \<times> cache_handle) option" where
  "cm_lock h cm = map_option (\<lambda>(pc, h). (cm\<lparr>cm_prefix := pc\<rparr>, h)) (pc_lock h (cm_prefix cm))"

definition cm_unlock :: "cache_handle \<Rightarrow> cache_manager \<Rightarrow> cache_manager option" where
  "cm_unlock h cm = map_option (\<lambda>pc. cm\<lparr>cm_prefix := pc\<rparr>) (pc_unlock h (cm_prefix cm))"

section \<open>Returning slots\<close>

text \<open>\<open>_free\<close>, and the deferred version that a lazy-free region installs.\<close>

definition cm_free :: "int list \<Rightarrow> cache_manager \<Rightarrow> cache_manager" where
  "cm_free indices cm =
     (case cm_lazy cm of
        Some ls \<Rightarrow> cm\<lparr>cm_lazy := Some (ls @ stride (cm_page_size cm) indices)\<rparr>
      | None \<Rightarrow> (if indices \<noteq> [] then cm\<lparr>cm_free_slots := cm_free_slots cm @ stride (cm_page_size cm) indices\<rparr> else cm))"

definition lazy_enter :: "cache_manager \<Rightarrow> cache_manager" where
  "lazy_enter cm = cm\<lparr>cm_lazy := Some []\<rparr>"

definition lazy_exit :: "cache_manager \<Rightarrow> cache_manager" where
  "lazy_exit cm = cm\<lparr>cm_lazy := None, cm_free_slots := cm_free_slots cm @ (case cm_lazy cm of None \<Rightarrow> [] | Some ls \<Rightarrow> ls)\<rparr>"

definition cm_free_swa :: "int list \<Rightarrow> cache_manager \<Rightarrow> cache_manager option" where
  "cm_free_swa indices cm =
     (case cm_swa_pool cm of
        None \<Rightarrow> Some cm
      | Some pool \<Rightarrow> (if indices \<noteq> [] then map_option (\<lambda>p. cm\<lparr>cm_swa_pool := Some p\<rparr>) (free_swa indices pool) else Some cm))"

definition cm_free_linear :: "nat list \<Rightarrow> cache_manager \<Rightarrow> cache_manager option" where
  "cm_free_linear ss cm = map_option (\<lambda>p. cm\<lparr>cm_linear_pool := Some (lp_free_slots ss p)\<rparr>) (cm_linear_pool cm)"

partial_function (option) ensure_swa_slots :: "int \<Rightarrow> cache_manager \<Rightarrow> cache_manager option" where
  "ensure_swa_slots n cm = do {
     pool \<leftarrow> cm_swa_pool cm;
     if int (sp_available pool) < n then
       (case cm_prefix cm of
          PSwa c \<Rightarrow> do {
            (c, kv, swa) \<leftarrow> sw_evict_swa (n - int (sp_available pool)) c;
            let cm = cm\<lparr>cm_prefix := PSwa c\<rparr>;
            if swa = [] then Some cm
            else do {
              pool \<leftarrow> free_swa swa pool;
              let cm = cm\<lparr>cm_swa_pool := Some pool\<rparr>;
              ensure_swa_slots n (if kv \<noteq> [] then cm_free kv cm else cm) } }
        | _ \<Rightarrow> None)
     else Some cm }"

declare ensure_swa_slots.simps [code]

partial_function (option) ensure_mamba_slots :: "nat \<Rightarrow> cache_manager \<Rightarrow> cache_manager option" where
  "ensure_mamba_slots n cm = do {
     pool \<leftarrow> cm_linear_pool cm;
     if lp_num_free_slots pool < n then
       (case cm_prefix cm of
          PHybrid c \<Rightarrow> do {
            (c, kv, mamba) \<leftarrow> hc_evict_mamba (int (n - lp_num_free_slots pool)) c;
            let cm = cm\<lparr>cm_prefix := PHybrid c\<rparr>;
            if mamba = [] then Some cm
            else ensure_mamba_slots n (cm_free kv (cm\<lparr>cm_linear_pool := Some (lp_free_slots mamba pool)\<rparr>)) }
        | _ \<Rightarrow> None)
     else Some cm }"

declare ensure_mamba_slots.simps [code]

section \<open>The page table\<close>

text \<open>\<open>page_table[ti, lo:hi]\<close> and \<open>page_table[ti, lo:hi].copy_(src)\<close>: one source entry is broadcast.\<close>

definition row_slice :: "cache_manager \<Rightarrow> int \<Rightarrow> nat \<Rightarrow> nat \<Rightarrow> int list option" where
  "row_slice cm ti lo hi =
     map_option (\<lambda>i. slice lo hi (cm_page_table cm ! i)) (tensor_index (length (cm_page_table cm)) ti)"

definition patch :: "nat \<Rightarrow> int list \<Rightarrow> int list \<Rightarrow> int list" where
  "patch lo src row = take lo row @ src @ drop (lo + length src) row"

definition row_copy :: "int \<Rightarrow> nat \<Rightarrow> nat \<Rightarrow> int list \<Rightarrow> cache_manager \<Rightarrow> cache_manager option" where
  "row_copy ti lo hi src cm = do {
     i \<leftarrow> tensor_index (length (cm_page_table cm)) ti;
     let row = cm_page_table cm ! i;
     let m = length (slice lo hi row);
     let src = (if length src = 1 then replicate m (src ! 0) else src);
     if length src \<noteq> m then None
     else Some (cm\<lparr>cm_page_table := (cm_page_table cm)[i := patch lo src row]\<rparr>) }"

definition padded_tail :: "req \<Rightarrow> nat \<Rightarrow> cache_manager \<Rightarrow> int list option" where
  "padded_tail r start cm =
     row_slice cm (rq_table_idx r) start (div_ceil (rq_cached_len r) (cm_page_size cm) * cm_page_size cm)"

definition page_to_token :: "nat \<Rightarrow> int list \<Rightarrow> int list" where
  "page_to_token page_size pages = concat (map (\<lambda>p. map (\<lambda>o'. p + int o') [0..<page_size]) pages)"

definition write_cell :: "int \<Rightarrow> nat \<Rightarrow> int \<Rightarrow> int list list \<Rightarrow> int list list option" where
  "write_cell ti pos v pt = do {
     i \<leftarrow> tensor_index (length pt) ti;
     if pos < length (pt ! i) then Some (pt[i := (pt ! i)[pos := v]]) else None }"

fun write_cells :: "(int \<times> nat) list \<Rightarrow> int list \<Rightarrow> int list list \<Rightarrow> int list list option" where
  "write_cells [] _ pt = Some pt"
| "write_cells ((ti, pos) # cs) (v # vs) pt = Option.bind (write_cell ti pos v pt) (write_cells cs vs)"
| "write_cells _ [] pt = None"

definition info_cells :: "nat \<Rightarrow> (int \<times> nat \<times> nat) list \<Rightarrow> (int \<times> nat) list" where
  "info_cells page_size info =
     concat (map (\<lambda>(ti, first_page, last_page). map (Pair ti) [first_page * page_size..<last_page * page_size]) info)"

definition write_page_table ::
  "int list \<Rightarrow> (int \<times> nat \<times> nat) list \<Rightarrow> cache_manager \<Rightarrow> cache_manager option" where
  "write_page_table allocated info cm = do {
     let cells = info_cells (cm_page_size cm) info;
     _ \<leftarrow> py_assert (length cells = length allocated);
     pt \<leftarrow> write_cells cells allocated (cm_page_table cm);
     Some (cm\<lparr>cm_page_table := pt\<rparr>) }"

section \<open>Allocation\<close>

definition evict_pages :: "int \<Rightarrow> cache_manager \<Rightarrow> (cache_manager \<times> int list) option" where
  "evict_pages need cm =
     (case cm_prefix cm of
        PSwa c \<Rightarrow> do {
          (c, kv, swa) \<leftarrow> sw_evict_full need c;
          cm \<leftarrow> cm_free_swa swa (cm\<lparr>cm_prefix := PSwa c\<rparr>);
          Some (cm, kv) }
      | PHybrid c \<Rightarrow> do {
          (c, kv, mamba) \<leftarrow> hc_evict_full need c;
          let cm = cm\<lparr>cm_prefix := PHybrid c\<rparr>;
          cm \<leftarrow> (if mamba \<noteq> [] then cm_free_linear mamba cm else Some cm);
          Some (cm, kv) }
      | pc \<Rightarrow> do {
          (pc, ev) \<leftarrow> pc_evict need pc;
          Some (cm\<lparr>cm_prefix := pc\<rparr>, ev) })"

definition cm_allocate :: "nat \<Rightarrow> cache_manager \<Rightarrow> (cache_manager \<times> int list) option" where
  "cm_allocate needed_pages cm = do {
     let free_pages = length (cm_free_slots cm);
     cm \<leftarrow> (if needed_pages > free_pages then do {
             let need = int ((needed_pages - free_pages) * cm_page_size cm);
             (cm, evicted) \<leftarrow> evict_pages need cm;
             let cm = cm\<lparr>cm_free_slots := cm_free_slots cm @ stride (cm_page_size cm) evicted\<rparr>;
             _ \<leftarrow> py_assert (length (cm_free_slots cm) \<ge> needed_pages);
             Some cm }
           else Some cm);
     Some (cm\<lparr>cm_free_slots := drop needed_pages (cm_free_slots cm)\<rparr>, take needed_pages (cm_free_slots cm)) }"

definition alloc_span :: "nat \<Rightarrow> req \<Rightarrow> int \<times> nat \<times> nat" where
  "alloc_span page_size r = (rq_table_idx r, div_ceil (rq_cached_len r) page_size, div_ceil (rq_device_len r) page_size)"

definition allocation_info :: "nat \<Rightarrow> req list \<Rightarrow> (int \<times> nat \<times> nat) list" where
  "allocation_info page_size reqs = filter (\<lambda>(_, f, l). f < l) (map (alloc_span page_size) reqs)"

definition needed_pages :: "nat \<Rightarrow> req list \<Rightarrow> nat" where
  "needed_pages page_size reqs = sum_list (map (\<lambda>(_, f, l). l - f) (allocation_info page_size reqs))"

definition allocate_paged :: "req list \<Rightarrow> cache_manager \<Rightarrow> cache_manager option" where
  "allocate_paged reqs cm = do {
     let info = allocation_info (cm_page_size cm) reqs;
     let needed = needed_pages (cm_page_size cm) reqs;
     if needed > 0 then do {
       (cm, pages) \<leftarrow> cm_allocate needed cm;
       let allocated = page_to_token (cm_page_size cm) pages;
       cm \<leftarrow> (case cm_swa_pool cm of
               None \<Rightarrow> Some cm
             | Some _ \<Rightarrow> do {
                 cm \<leftarrow> (if is_swa cm then ensure_swa_slots (int (length allocated)) cm else Some cm);
                 pool \<leftarrow> Option.bind (cm_swa_pool cm) (alloc_swa allocated);
                 Some (cm\<lparr>cm_swa_pool := Some pool\<rparr>) });
       write_page_table allocated info cm }
     else Some cm }"

section \<open>Committing and finishing requests\<close>

text \<open>\<open>cache_req\<close> on the naive and the plain radix path; first the re-pointing of the deduplicated span.\<close>

definition repoint_row :: "req \<Rightarrow> nat \<Rightarrow> cache_handle \<Rightarrow> cache_manager \<Rightarrow> cache_manager option" where
  "repoint_row r clen new_handle cm =
     (let old = h_cached_len (rq_handle r)
      in if clen > old then do {
           canonical \<leftarrow> pc_matched_indices (cm_prefix cm) new_handle;
           row_copy (rq_table_idx r) old clen (slice old clen canonical) cm }
         else Some cm)"

definition cache_req_generic :: "req \<Rightarrow> bool \<Rightarrow> (nat \<Rightarrow> int) \<Rightarrow> cache_manager \<Rightarrow> (cache_manager \<times> req) option" where
  "cache_req_generic r finished clk cm = do {
     page_indices \<leftarrow> row_slice cm (rq_table_idx r) 0 (rq_cached_len r);
     let old_handle = rq_handle r;
     let insert_ids = take (rq_cached_len r) (rq_input_ids r);
     (pc, clen, new_handle) \<leftarrow> pc_insert_prefix insert_ids page_indices (clk 0) (clk 1) (cm_prefix cm);
     cm \<leftarrow> cm_unlock old_handle (cm\<lparr>cm_prefix := pc\<rparr>);
     let dup = slice (h_cached_len old_handle) clen page_indices;
     cm \<leftarrow> cm_free_swa dup cm;
     let cm = cm_free dup cm;
     if finished then do {
       tail \<leftarrow> padded_tail r (h_cached_len new_handle) cm;
       cm \<leftarrow> cm_free_swa tail cm;
       Some (cm_free tail cm, r) }
     else do {
       cm \<leftarrow> repoint_row r clen new_handle cm;
       (cm, new_handle) \<leftarrow> cm_lock new_handle cm;
       Some (cm, r\<lparr>rq_handle := new_handle\<rparr>) } }"

definition free_req_slots :: "req \<Rightarrow> bool \<Rightarrow> cache_manager \<Rightarrow> (cache_manager \<times> req) option" where
  "free_req_slots r keep_live cm = do {
     let ss = (case rq_ping_pong r of None \<Rightarrow> [] | Some (a, b) \<Rightarrow> [a, b]);
     let ss = ss @ (if keep_live then [] else (case rq_linear_slot r of None \<Rightarrow> [] | Some s \<Rightarrow> [s]));
     cm \<leftarrow> (if ss \<noteq> [] then cm_free_linear ss cm else Some cm);
     Some (cm, r\<lparr>rq_ping_pong := None, rq_linear_slot := None\<rparr>) }"

definition pp_get :: "nat \<times> nat \<Rightarrow> nat \<Rightarrow> nat" where
  "pp_get pp i = (if i = 0 then fst pp else snd pp)"

definition pp_set :: "nat \<times> nat \<Rightarrow> nat \<Rightarrow> nat \<Rightarrow> nat \<times> nat" where
  "pp_set pp i v = (if i = 0 then (v, snd pp) else (fst pp, v))"

definition cm_hybrid :: "cache_manager \<Rightarrow> hybrid_cache option" where
  "cm_hybrid cm = (case cm_prefix cm of PHybrid c \<Rightarrow> Some c | _ \<Rightarrow> None)"

definition cm_swa :: "cache_manager \<Rightarrow> swa_cache option" where
  "cm_swa cm = (case cm_prefix cm of PSwa c \<Rightarrow> Some c | _ \<Rightarrow> None)"

text \<open>\<open>_cache_req_hybrid\<close> when the request has finished.\<close>

definition hybrid_insert ::
  "int list \<Rightarrow> int list \<Rightarrow> nat \<Rightarrow> int \<Rightarrow> int \<Rightarrow> cache_manager \<Rightarrow> (cache_manager \<times> nat \<times> bool) option" where
  "hybrid_insert ids kv mv tic now cm = do {
     c \<leftarrow> cm_hybrid cm;
     (c, n, ex) \<leftarrow> hc_insert ids kv mv tic now c;
     Some (cm\<lparr>cm_prefix := PHybrid c\<rparr>, n, ex) }"

definition donate_frozen ::
  "req \<Rightarrow> int list \<Rightarrow> nat \<Rightarrow> (nat \<Rightarrow> int) \<Rightarrow> cache_manager \<Rightarrow> (cache_manager \<times> req \<times> nat) option" where
  "donate_frozen r page_indices free_upto clk cm =
     (case (rq_last_track r, rq_ping_pong r) of
        (Some L, Some pp) \<Rightarrow>
          (if 0 < L \<and> L \<le> rq_cached_len r \<and> align_down L (cm_page_size cm) = L then do {
             let frozen = pp_get pp (1 - rq_next_track r);
             (cm, prefix_len, ex) \<leftarrow> hybrid_insert (take L (rq_input_ids r)) (take L page_indices) frozen (clk 0) (clk 1) cm;
             cm \<leftarrow> cm_free_linear (filter (\<lambda>s. ex \<or> s \<noteq> frozen) [fst pp, snd pp]) cm;
             let cm = cm_free (slice free_upto (max free_upto prefix_len) page_indices) cm;
             Some (cm, r\<lparr>rq_ping_pong := None\<rparr>, max free_upto L) }
           else Some (cm, r, free_upto))
      | _ \<Rightarrow> Some (cm, r, free_upto))"

definition cache_req_hybrid_finish :: "req \<Rightarrow> (nat \<Rightarrow> int) \<Rightarrow> cache_manager \<Rightarrow> (cache_manager \<times> req) option" where
  "cache_req_hybrid_finish r clk cm = do {
     let old_handle = rq_handle r;
     page_indices \<leftarrow> row_slice cm (rq_table_idx r) 0 (rq_cached_len r);
     (cm, r, free_upto) \<leftarrow> donate_frozen r page_indices (h_cached_len old_handle) clk cm;
     let insert_len = align_down (rq_cached_len r) (cm_page_size cm);
     if insert_len = rq_cached_len r \<and> insert_len > 0 then do {
       live \<leftarrow> rq_linear_slot r;
       (cm, prefix_len, ex) \<leftarrow> hybrid_insert (take insert_len (rq_input_ids r)) (take insert_len page_indices) live (clk 2) (clk 3) cm;
       cm \<leftarrow> cm_unlock old_handle cm;
       free_req_slots r (\<not> ex) (cm_free (slice free_upto (max free_upto prefix_len) page_indices) cm) }
     else do {
       cm \<leftarrow> cm_unlock old_handle cm;
       free_req_slots r False (cm_free (drop free_upto page_indices) cm) } }"

text \<open>A prefill chunk commit: the frozen snapshot at the tracked boundary is donated.\<close>

definition cache_req_hybrid_chunk :: "req \<Rightarrow> (nat \<Rightarrow> int) \<Rightarrow> cache_manager \<Rightarrow> (cache_manager \<times> req) option" where
  "cache_req_hybrid_chunk r clk cm =
     (case rq_last_track r of
        None \<Rightarrow> Some (cm, r)
      | Some L \<Rightarrow>
          (if align_down L (cm_page_size cm) \<noteq> L then Some (cm, r\<lparr>rq_last_track := None\<rparr>)
           else do {
             let old_handle = rq_handle r;
             let old_len = h_cached_len old_handle;
             page_indices \<leftarrow> row_slice cm (rq_table_idx r) 0 (rq_cached_len r);
             pp \<leftarrow> rq_ping_pong r;
             let frozen_idx = 1 - rq_next_track r;
             (cm, prefix_len, ex) \<leftarrow> hybrid_insert (take L (rq_input_ids r)) (take L page_indices)
                (pp_get pp frozen_idx) (clk 0) (clk 1) cm;
             cm \<leftarrow> cm_unlock old_handle cm;
             let cm = cm_free (slice old_len prefix_len page_indices) cm;
             (pc, h, _) \<leftarrow> pc_match_prefix (take L (rq_input_ids r)) (clk 2) (cm_prefix cm);
             let cm = cm\<lparr>cm_prefix := pc\<rparr>;
             kv \<leftarrow> pc_matched_indices pc h;
             cm \<leftarrow> (if prefix_len > old_len
                   then row_copy (rq_table_idx r) old_len prefix_len (slice old_len prefix_len kv) cm
                   else Some cm);
             (cm, h) \<leftarrow> cm_lock h cm;
             (cm, pp) \<leftarrow> (if \<not> ex then do {
                 cm \<leftarrow> ensure_mamba_slots 1 cm;
                 pool \<leftarrow> cm_linear_pool cm;
                 (pool, ss) \<leftarrow> lp_alloc 1 pool;
                 Some (cm\<lparr>cm_linear_pool := Some pool\<rparr>, pp_set pp frozen_idx (ss ! 0)) }
               else Some (cm, pp));
             Some (cm, r\<lparr>rq_handle := h, rq_ping_pong := Some pp, rq_last_track := None\<rparr>) }))"

text \<open>\<open>_cache_req_swa\<close>.\<close>

definition swa_touch :: "int list \<Rightarrow> int \<Rightarrow> cache_manager \<Rightarrow> (cache_manager \<times> swa_match) option" where
  "swa_touch ids tic cm = do {
     c \<leftarrow> cm_swa cm;
     (c, m) \<leftarrow> sw_match_prefix ids tic c;
     Some (cm\<lparr>cm_prefix := PSwa c\<rparr>, m) }"

definition swa_keep_from :: "nat \<Rightarrow> nat \<Rightarrow> nat \<Rightarrow> nat" where
  "swa_keep_from committed window page_size = align_down (committed - window - swa_retain_gap) page_size"

definition cache_req_swa :: "req \<Rightarrow> bool \<Rightarrow> (nat \<Rightarrow> int) \<Rightarrow> cache_manager \<Rightarrow> (cache_manager \<times> req) option" where
  "cache_req_swa r finished clk cm = do {
     let old_handle = rq_handle r;
     page_indices \<leftarrow> row_slice cm (rq_table_idx r) 0 (rq_cached_len r);
     window \<leftarrow> cm_window cm;
     let ps = cm_page_size cm;
     let insert_len = align_down (rq_cached_len r) ps;
     (cm, freed) \<leftarrow> (if insert_len > 0 then do {
         c \<leftarrow> cm_swa cm;
         (c, _, freed) \<leftarrow> sw_insert (take insert_len (rq_input_ids r)) (take insert_len page_indices)
            (rq_swa_evicted r) (h_cached_len old_handle) (clk 0) c;
         Some (cm\<lparr>cm_prefix := PSwa c\<rparr>, freed) }
       else Some (cm, []));
     cm \<leftarrow> cm_unlock old_handle cm;
     cm \<leftarrow> cm_free_swa freed cm;
     let cm = cm_free freed cm;
     if finished then do {
       tail \<leftarrow> padded_tail r insert_len cm;
       cm \<leftarrow> cm_free_swa tail cm;
       let cm = cm_free tail cm;
       let prompt_len = align_down (rq_max_device_len r - rq_output_len r) ps;
       if prompt_len > 0 then do {
         let keep_from = swa_keep_from prompt_len window ps;
         cm \<leftarrow> (if keep_from > 0 then do {
                 c \<leftarrow> cm_swa cm;
                 (c, swa) \<leftarrow> sw_trim_head_swa (take prompt_len (rq_input_ids r)) (int keep_from) (clk 1) c;
                 cm_free_swa swa (cm\<lparr>cm_prefix := PSwa c\<rparr>) }
               else Some cm);
         (cm, _) \<leftarrow> swa_touch (take prompt_len (rq_input_ids r)) (clk 2) cm;
         Some (cm, r) }
       else Some (cm, r) }
     else do {
       let keep_from = swa_keep_from insert_len window ps;
       cm \<leftarrow> (if keep_from > 0 then map_option fst (swa_touch (take keep_from (rq_input_ids r)) (clk 1) cm) else Some cm);
       (cm, m) \<leftarrow> swa_touch (take insert_len (rq_input_ids r)) (clk 2) cm;
       cm \<leftarrow> (if sm_cached_len m > 0 then row_copy (rq_table_idx r) 0 (sm_cached_len m) (sm_kv_indices m) cm else Some cm);
       (cm, h) \<leftarrow> cm_lock (HSwa (sm_cached_len m) (sm_node m) (sm_kv_indices m) None) cm;
       Some (cm, r\<lparr>rq_handle := h\<rparr>) } }"

definition cache_req :: "req \<Rightarrow> bool \<Rightarrow> (nat \<Rightarrow> int) \<Rightarrow> cache_manager \<Rightarrow> (cache_manager \<times> req) option" where
  "cache_req r finished clk cm =
     (if is_swa cm then cache_req_swa r finished clk cm
      else if is_hybrid cm then
        (if finished then cache_req_hybrid_finish r clk cm else cache_req_hybrid_chunk r clk cm)
      else cache_req_generic r finished clk cm)"

section \<open>Freeing window slots during decoding and prefill\<close>

fun thread :: "('a \<Rightarrow> 's \<Rightarrow> ('s \<times> 'a) option) \<Rightarrow> 'a list \<Rightarrow> 's \<Rightarrow> ('s \<times> 'a list) option" where
  "thread f [] s = Some (s, [])"
| "thread f (x # xs) s = do { (s, x) \<leftarrow> f x s; (s, xs) \<leftarrow> thread f xs s; Some (s, x # xs) }"

text \<open>The frontier and the anchor of one decoding request.\<close>

definition swa_frontier :: "nat \<Rightarrow> nat \<Rightarrow> req \<Rightarrow> int \<times> nat option" where
  "swa_frontier window page_size r =
     (let threshold = int (rq_device_len r) - 1 - int window - int page_size
      in (case rq_anchor r of
            None \<Rightarrow> (threshold, None)
          | Some a \<Rightarrow>
              (let cap = int a - int window - int swa_retain_gap
               in if threshold - cap > int window + int swa_retain_gap then (threshold, None)
                  else (min threshold cap, Some a))))"

text \<open>Free \<open>[start, new_evicted)\<close> of the request's row and move its frontier there.\<close>

definition advance_frontier :: "req \<Rightarrow> int \<Rightarrow> cache_manager \<Rightarrow> (cache_manager \<times> req) option" where
  "advance_frontier r new_evicted cm =
     (let start = max (rq_swa_evicted r) (h_cached_len (rq_handle r))
      in if new_evicted > int start then do {
           sl \<leftarrow> row_slice cm (rq_table_idx r) start (nat new_evicted);
           cm \<leftarrow> cm_free_swa sl cm;
           Some (cm, r\<lparr>rq_swa_evicted := nat new_evicted\<rparr>) }
         else Some (cm, r))"

definition free_swa_decode_one :: "nat \<Rightarrow> req \<Rightarrow> cache_manager \<Rightarrow> (cache_manager \<times> req) option" where
  "free_swa_decode_one window r cm =
     (if rq_decode_batch r < 1 then Some (cm, r)
      else
        (let (threshold, anchor) = swa_frontier window (cm_page_size cm) r
         in advance_frontier (r\<lparr>rq_anchor := anchor\<rparr>) (align_down threshold (int (cm_page_size cm))) cm))"

definition maybe_free_swa_out_of_window ::
  "nat \<Rightarrow> req list \<Rightarrow> nat \<Rightarrow> cache_manager \<Rightarrow> (cache_manager \<times> req list) option" where
  "maybe_free_swa_out_of_window interval reqs forward_iter cm =
     (if \<not> swa_paged cm \<or> forward_iter mod interval \<noteq> 0 then Some (cm, reqs)
      else Option.bind (cm_window cm) (\<lambda>window. thread (free_swa_decode_one window) reqs cm))"

definition free_swa_extend_one :: "nat \<Rightarrow> req \<Rightarrow> cache_manager \<Rightarrow> (cache_manager \<times> req) option" where
  "free_swa_extend_one window r cm =
     advance_frontier r (align_down (int (rq_cached_len r) - int window - int (cm_page_size cm)) (int (cm_page_size cm))) cm"

definition free_swa_out_of_window_extend ::
  "req list \<Rightarrow> cache_manager \<Rightarrow> (cache_manager \<times> req list) option" where
  "free_swa_out_of_window_extend reqs cm =
     (if \<not> swa_paged cm then Some (cm, reqs)
      else Option.bind (cm_window cm) (\<lambda>window. thread (free_swa_extend_one window) reqs cm))"

definition snapshot_anchor_one :: "req \<Rightarrow> cache_manager \<Rightarrow> (cache_manager \<times> req) option" where
  "snapshot_anchor_one r cm =
     (case (rq_anchor r, rq_ping_pong r) of
        (Some a, Some pp) \<Rightarrow>
          (if rq_last_track r \<noteq> None \<or> rq_cached_len r \<noteq> a \<or> align_down a (cm_page_size cm) \<noteq> a then Some (cm, r)
           else do {
             pool \<leftarrow> cm_linear_pool cm;
             src \<leftarrow> rq_linear_slot r;
             Some (cm\<lparr>cm_linear_pool := Some (lp_copy_from src (pp_get pp (rq_next_track r)) pool)\<rparr>,
                   r\<lparr>rq_last_track := Some a, rq_next_track := 1 - rq_next_track r\<rparr>) })
      | _ \<Rightarrow> Some (cm, r))"

definition snapshot_toolcall_anchor :: "req list \<Rightarrow> cache_manager \<Rightarrow> (cache_manager \<times> req list) option" where
  "snapshot_toolcall_anchor reqs cm = (if \<not> is_hybrid cm then Some (cm, reqs) else thread snapshot_anchor_one reqs cm)"

section \<open>Integrity and rebuild\<close>

definition cm_check_integrity :: "cache_manager \<Rightarrow> unit option" where
  "cm_check_integrity cm = do {
     cache_pages \<leftarrow> (case cm_prefix cm of
         PHybrid c \<Rightarrow> do {
           _ \<leftarrow> hc_check_integrity c;
           pool \<leftarrow> cm_linear_pool cm;
           _ \<leftarrow> py_assert (int (lp_num_free_slots pool) + (hc_mamba_evictable c + hc_mamba_protected c) \<le> int (lp_num_slots pool) - 1);
           Some (total_size (hc_size_info c) div int (cm_page_size cm)) }
       | PSwa c \<Rightarrow> do {
           _ \<leftarrow> sw_check_integrity c;
           pool \<leftarrow> cm_swa_pool cm;
           _ \<leftarrow> py_assert (int (sp_available pool) + (sw_evictable c + sw_protected c) = int (sp_swa_tokens pool) - 1);
           Some (total_size (sw_size_info c) div int (cm_page_size cm)) }
       | pc \<Rightarrow> Some (total_size (pc_size_info pc) div int (cm_page_size cm)));
     _ \<leftarrow> py_assert (int (length (cm_free_slots cm)) + cache_pages = int (cm_num_pages cm));
     py_assert (cm_page_size cm > 1 \<longrightarrow> list_all (\<lambda>s. s mod int (cm_page_size cm) = 0) (cm_free_slots cm)) }"

definition cm_rebuild :: "nat \<Rightarrow> int list list \<Rightarrow> int \<Rightarrow> nat \<Rightarrow> cache_manager \<Rightarrow> cache_manager option" where
  "cm_rebuild num_pages page_table now cnt cm = do {
     pc \<leftarrow> make_prefix_cache (cm_type cm) (cm_page_size cm) (cm_window cm) now cnt;
     let cm = cm\<lparr>cm_num_pages := num_pages, cm_page_table := page_table,
       cm_free_slots := all_pages num_pages (cm_page_size cm), cm_prefix := pc\<rparr>;
     if is_hybrid cm then map_option (\<lambda>p. cm\<lparr>cm_linear_pool := Some (lp_reclaim_all p)\<rparr>) (cm_linear_pool cm)
     else Some cm }"

end
