(* ===== verification/KeptPages.thy ===== *)
theory KeptPages
  imports RadixCache
begin

text \<open>
  What the locks of a radix tree protect, seen from outside: the protected total is the number
  of distinct whole-page prefixes of the locked sequences, whatever the shape of the tree.  The
  reservations of the scheduler rest on it.
\<close>

definition page_prefixes :: "nat \<Rightarrow> int list set \<Rightarrow> int list set" where
  "page_prefixes ps T = {p. p \<noteq> [] \<and> ps dvd length p \<and> (\<exists>t\<in>T. prefix p t)}"

lemma page_prefixes_mono: "T \<subseteq> T' \<Longrightarrow> page_prefixes ps T \<subseteq> page_prefixes ps T'"
  by (auto simp: page_prefixes_def)

lemma page_prefixes_Un: "page_prefixes ps (T \<union> T') = page_prefixes ps T \<union> page_prefixes ps T'"
  by (auto simp: page_prefixes_def)

lemma page_prefixes_finite: "finite T \<Longrightarrow> finite (page_prefixes ps T)"
proof -
  assume "finite T"
  moreover have "page_prefixes ps T \<subseteq> (\<Union>t\<in>T. (\<lambda>k. take k t) ` {..length t})"
    by (auto simp: page_prefixes_def prefix_def image_iff) (metis append_eq_conv_conj atMost_iff le_add1 length_append)
  ultimately show ?thesis by (meson finite_UN finite_atMost finite_imageI finite_subset)
qed

text \<open>Moving one sequence forward keeps at most the difference more.\<close>

lemma page_prefixes_move:
  assumes "finite T" "k \<le> k'" "k' \<le> length ids" "ps dvd k" "ps dvd k'" "0 < ps"
  shows "ps * card (page_prefixes ps (insert (take k' ids) T)) + k \<le> ps * card (page_prefixes ps (insert (take k ids) T)) + k'"
proof -
  let ?A = "page_prefixes ps (insert (take k' ids) T)" and ?B = "page_prefixes ps (insert (take k ids) T)"
  let ?new = "(\<lambda>j. take (j * ps) ids) ` {k div ps<..k' div ps}"
  have "?A \<subseteq> ?B \<union> ?new"
  proof
    fix p assume p: "p \<in> ?A"
    show "p \<in> ?B \<union> ?new"
    proof (cases "prefix p (take k' ids) \<and> \<not> prefix p (take k ids)")
      case False
      then show ?thesis using p unfolding page_prefixes_def by blast
    next
      case True
      from p have "ps dvd length p" unfolding page_prefixes_def by blast
      then obtain j where j: "length p = j * ps" by (metis dvd_def mult.commute)
      have tp: "p = take (j * ps) ids" "j * ps \<le> k'"
        using True j assms(3) by (metis append_eq_conv_conj prefix_def prefix_order.trans take_is_prefix, metis prefix_length_le length_take min.absorb2)
      have "k < j * ps" using True tp(1) by (metis not_less prefix_order.refl take_is_prefix min.absorb1 take_take)
      then have "j \<in> {k div ps<..k' div ps}" using tp(2) assms by (auto simp: less_eq_div_iff_mult_less_eq div_less_iff_less_mult)
      then show ?thesis using tp(1) by blast
    qed
  qed
  then have "card ?A \<le> card (?B \<union> ?new)"
    by (rule card_mono[rotated]) (intro finite_UnI finite_imageI page_prefixes_finite finite_insert[THEN iffD2] finite_greaterThanAtMost assms(1))
  also have "\<dots> \<le> card ?B + card ?new" by (rule card_Un_le)
  also have "card ?new \<le> k' div ps - k div ps" using card_image_le[of "{k div ps<..k' div ps}" "\<lambda>j. take (j * ps) ids"] by simp
  finally have "card ?A \<le> card ?B + (k' div ps - k div ps)" by simp
  then have "ps * card ?A \<le> ps * card ?B + ps * (k' div ps - k div ps)"
    unfolding distrib_left[symmetric] by (rule mult_le_mono2)
  moreover have "ps * (k' div ps - k div ps) = k' - k" using assms by (simp add: diff_mult_distrib2)
  ultimately show ?thesis using assms(2) by linarith
qed

text \<open>The prefixes that end inside one node's own key.\<close>

definition node_pages :: "nat \<Rightarrow> (nat \<Rightarrow> int list) \<Rightarrow> nat \<Rightarrow> rnode \<Rightarrow> int list set" where
  "node_pages ps L n nd = {p. prefix p (L n) \<and> ps dvd length p \<and> length (L n) - length (nkey nd) < length p}"

lemma node_pages_card:
  assumes "0 < ps" "ps dvd length (nkey nd)" "ps dvd length (L n) - length (nkey nd)" "length (nkey nd) \<le> length (L n)"
  shows "finite (node_pages ps L n nd) \<and> ps * card (node_pages ps L n nd) = length (nkey nd)"
proof -
  define a b where "a = (length (L n) - length (nkey nd)) div ps" and "b = length (nkey nd) div ps"
  have a: "length (L n) - length (nkey nd) = a * ps" and b: "length (nkey nd) = b * ps" using assms by (simp_all add: a_def b_def)
  have len: "length (L n) = (a + b) * ps" using a b assms(4) by (simp add: add_mult_distrib)
  have "node_pages ps L n nd = (\<lambda>j. take (j * ps) (L n)) ` {a<..a + b}"
  proof (intro set_eqI iffI)
    fix p assume "p \<in> node_pages ps L n nd"
    then have p: "prefix p (L n)" "ps dvd length p" "a * ps < length p" by (simp_all add: node_pages_def a)
    then obtain j where j: "length p = j * ps" by (metis dvd_def mult.commute)
    have "j * ps \<le> (a + b) * ps" using prefix_length_le[OF p(1)] len j by simp
    then have "j \<in> {a<..a + b}" using p(3) j assms(1) by auto
    moreover have "p = take (j * ps) (L n)" using p(1) j by (metis append_eq_conv_conj prefix_def)
    ultimately show "p \<in> (\<lambda>j. take (j * ps) (L n)) ` {a<..a + b}" by blast
  next
    fix p assume "p \<in> (\<lambda>j. take (j * ps) (L n)) ` {a<..a + b}"
    then obtain j where j: "a < j" "j \<le> a + b" "p = take (j * ps) (L n)" by auto
    have "j * ps \<le> (a + b) * ps" using j(2) by (rule mult_le_mono1)
    then have "length p = j * ps" using j(3) len by simp
    moreover have "a * ps < j * ps" using j(1) assms(1) by simp
    ultimately show "p \<in> node_pages ps L n nd" using j(3) a by (simp add: node_pages_def take_is_prefix)
  qed
  moreover have "inj_on (\<lambda>j. take (j * ps) (L n)) {a<..a + b}"
  proof (rule inj_onI)
    fix i j assume ij: "i \<in> {a<..a + b}" "j \<in> {a<..a + b}" "take (i * ps) (L n) = take (j * ps) (L n)"
    have "i * ps \<le> (a + b) * ps" "j * ps \<le> (a + b) * ps" using ij by (auto intro: mult_le_mono1)
    with arg_cong[OF ij(3), of length] len have "i * ps = j * ps" by simp
    then show "i = j" using assms(1) by simp
  qed
  ultimately show ?thesis using b by (simp add: card_image)
qed

lemma node_pages_above:
  assumes ok: "tree_ok ps r h L V" and n: "nodes h n = Some nd" "n \<noteq> r" and l: "nodes h l = Some ld"
    and p: "p \<in> node_pages ps L n nd" "prefix p (L l)"
  shows "prefix (L n) (L l)"
proof -
  from tree_parent[OF ok n] obtain q where q: "rparent nd = Some q" "L n = L q @ nkey nd" "ps dvd length (nkey nd)" by blast
  from p(1) q(2) have pp: "prefix p (L q @ nkey nd)" "ps dvd length p" "length (L q) < length p" by (simp_all add: node_pages_def)
  define pos where "pos = length p - length (L q)"
  have "p = take (length p) (L q @ nkey nd)" using pp(1) by (metis append_eq_conv_conj prefix_def)
  then have e: "p = L q @ take pos (nkey nd)" unfolding pos_def using pp(3) by (metis less_imp_le_nat take_all take_append)
  have "ps dvd length (L q)" using tree_label_dvd[OF ok] tree_parent[OF ok n] q(1) by auto
  then have dv: "ps dvd pos" using pp(2) by (simp add: pos_def dvd_diff_nat)
  show ?thesis
  proof (cases "pos < length (nkey nd)")
    case True
    have "0 < pos" using pp(3) by (simp add: pos_def)
    from split_top_above[OF ok n this True dv q(1) l] p(2) show ?thesis unfolding e by blast
  next
    case False
    then have "p = L n" using e q(2) by simp
    then show ?thesis using p(2) by blast
  qed
qed

lemma page_in_node:
  assumes ok: "tree_ok ps r h L V"
  shows "nodes h l = Some ld \<Longrightarrow> prefix p (L l) \<Longrightarrow> p \<noteq> [] \<Longrightarrow> ps dvd length p \<Longrightarrow>
    \<exists>n nd. nodes h n = Some nd \<and> n \<noteq> r \<and> prefix (L n) (L l) \<and> p \<in> node_pages ps L n nd"
proof (induction "length (L l)" arbitrary: l ld rule: less_induct)
  case less
  have "l \<noteq> r" using less.prems(2,3) tree_root_labels[OF ok] by auto
  from tree_parent[OF ok less.prems(1) this] obtain q qd where q: "nodes h q = Some qd" "L l = L q @ nkey ld" "nkey ld \<noteq> []" by blast
  show ?case
  proof (cases "length p \<le> length (L q)")
    case True
    then have "prefix p (L q)" using less.prems(2) q(2) by (metis prefix_length_prefix prefixI)
    from less.hyps[OF _ q(1) this less.prems(3,4)] q(2,3) obtain n nd where
      "nodes h n = Some nd" "n \<noteq> r" "prefix (L n) (L q)" "p \<in> node_pages ps L n nd" by auto
    then show ?thesis using q(2) prefix_order.trans[of "L n" "L q" "L l"] by (metis prefixI)
  next
    case False
    then have "p \<in> node_pages ps L l ld" using less.prems q(2) by (simp add: node_pages_def)
    then show ?thesis using less.prems(1) \<open>l \<noteq> r\<close> by blast
  qed
qed

theorem protected_pages:
  assumes ok: "tree_ok ps r h L V" and rf: "refs_ok r h L locks"
  shows "weigh r held_ref h = int (ps * card (page_prefixes ps (L ` set_mset locks)))"
proof -
  let ?H = "{n \<in> dom (nodes h). n \<noteq> r \<and> held_ref (the (nodes h n))}"
  let ?S = "\<lambda>n. node_pages ps L n (the (nodes h n))"
  have fin: "finite ?H" using tree_finite[OF ok] by simp
  have held: "held_ref nd \<longleftrightarrow> (\<exists>l. l \<in># locks \<and> prefix (L n) (L l))" if "nodes h n = Some nd" "n \<noteq> r" for n nd
    using refs_count[OF rf that] holders_pos_iff[of L locks n] by (auto simp: held_ref_def)
  have card1: "finite (?S n) \<and> ps * card (?S n) = nlength (the (nodes h n))" if "n \<in> ?H" for n
  proof -
    from that obtain nd where nd: "nodes h n = Some nd" "n \<noteq> r" by auto
    from tree_parent[OF ok nd] obtain q qd where q: "L n = L q @ nkey nd" "ps dvd length (nkey nd)" "nodes h q = Some qd" by blast
    have "ps dvd length (L q)" using tree_label_dvd[OF ok q(3)] .
    with node_pages_card[OF tree_ps[OF ok] q(2), of L n] q(1) nd show ?thesis by (simp add: nlength_def)
  qed
  have disj: "?S n \<inter> ?S m = {}" if nm: "n \<in> ?H" "m \<in> ?H" "n \<noteq> m" for n m
  proof (rule ccontr)
    assume "?S n \<inter> ?S m \<noteq> {}"
    then obtain p where p: "p \<in> ?S n" "p \<in> ?S m" by blast
    from nm obtain nd md where d: "nodes h n = Some nd" "n \<noteq> r" "nodes h m = Some md" "m \<noteq> r" by auto
    have "prefix p (L n)" "prefix p (L m)" using p by (simp_all add: node_pages_def)
    with node_pages_above[OF ok d(1,2,3), of p] node_pages_above[OF ok d(3,4,1), of p] p d
    have "prefix (L n) (L m)" "prefix (L m) (L n)" by simp_all
    then have "L n = L m" by (rule prefix_order.antisym)
    with label_inject[OF ok d(1,3)] nm(3) show False by blast
  qed
  have un: "page_prefixes ps (L ` set_mset locks) = (\<Union>n\<in>?H. ?S n)"
  proof (intro set_eqI iffI)
    fix p assume "p \<in> page_prefixes ps (L ` set_mset locks)"
    then obtain l where l: "l \<in># locks" "prefix p (L l)" "p \<noteq> []" "ps dvd length p" by (auto simp: page_prefixes_def)
    from refs_locks[OF rf l(1)] obtain ld where "nodes h l = Some ld" by blast
    from page_in_node[OF ok this l(2-4)] obtain n nd where n: "nodes h n = Some nd" "n \<noteq> r" "prefix (L n) (L l)" "p \<in> node_pages ps L n nd" by blast
    with held[OF n(1,2)] l(1) have "n \<in> ?H" by auto
    with n show "p \<in> (\<Union>n\<in>?H. ?S n)" by auto
  next
    fix p assume "p \<in> (\<Union>n\<in>?H. ?S n)"
    then obtain n nd where n: "nodes h n = Some nd" "n \<noteq> r" "held_ref nd" "p \<in> node_pages ps L n nd" by auto
    with held[OF n(1,2)] obtain l where l: "l \<in># locks" "prefix (L n) (L l)" by auto
    have "prefix p (L n)" "ps dvd length p" "p \<noteq> []" using n(4) by (auto simp: node_pages_def)
    with l prefix_order.trans[of p "L n" "L l"] show "p \<in> page_prefixes ps (L ` set_mset locks)" by (auto simp: page_prefixes_def)
  qed
  have "ps * card (page_prefixes ps (L ` set_mset locks)) = (\<Sum>n\<in>?H. ps * card (?S n))"
    unfolding un using card1 disj by (subst card_UN_disjoint[OF fin]) (auto simp: sum_distrib_left)
  also have "\<dots> = (\<Sum>n\<in>?H. nlength (the (nodes h n)))" using card1 by (intro sum.cong) auto
  finally have "int (ps * card (page_prefixes ps (L ` set_mset locks))) = (\<Sum>n\<in>?H. int (nlength (the (nodes h n))))" by simp
  also have "\<dots> = weigh r held_ref h"
    unfolding weigh_def dom_sum_def using tree_finite[OF ok]
    by (intro sum.mono_neutral_cong_left) auto
  finally show ?thesis ..
qed

end
