(* ===== verification/PageCache.thy ===== *)
theory PageCache
  imports CacheManager KeptPages
begin

text \<open>
  The contract between \<open>CacheManager\<close> and the prefix cache on the generic path
  (\<open>BasePrefixCache\<close> of \<^verbatim>\<open>kvcache/base.py\<close>), as the locale \<open>page_cache\<close>, and its
  interpretation on the dispatching operations, which the naive and the plain radix cache
  discharge.  Page indices travel as whole pages: \<open>paged\<close>.
\<close>

section \<open>Whole pages\<close>

definition aligned :: "nat \<Rightarrow> int list \<Rightarrow> bool" where
  "aligned ps pages \<longleftrightarrow> (\<forall>p\<in>set pages. p mod int ps = 0)"

definition paged :: "nat \<Rightarrow> int list \<Rightarrow> bool" where
  "paged ps vs \<longleftrightarrow> vs = page_to_token ps (stride ps vs) \<and> aligned ps (stride ps vs)"

lemma aligned_append [simp]: "aligned ps (xs @ ys) \<longleftrightarrow> aligned ps xs \<and> aligned ps ys"
  by (auto simp: aligned_def)

lemma aligned_take_drop: "aligned ps xs \<Longrightarrow> aligned ps (take k xs)" "aligned ps xs \<Longrightarrow> aligned ps (drop k xs)"
  by (auto simp: aligned_def dest: in_set_takeD in_set_dropD)

lemma page_to_token_Nil [simp]: "page_to_token ps [] = []"
  and page_to_token_Cons [simp]: "page_to_token ps (p # pages) = map (\<lambda>o'. p + int o') [0..<ps] @ page_to_token ps pages"
  and page_to_token_append [simp]: "page_to_token ps (xs @ ys) = page_to_token ps xs @ page_to_token ps ys"
  by (simp_all add: page_to_token_def)

lemma length_page_to_token [simp]: "length (page_to_token ps pages) = length pages * ps"
  by (induction pages) simp_all

lemma stride_page_to_token [simp]: "0 < ps \<Longrightarrow> stride ps (page_to_token ps pages) = pages"
proof (induction pages)
  case (Cons p pages)
  have "map (\<lambda>o'. p + int o') [0..<ps] = p # map (\<lambda>o'. p + int o') [1..<ps]"
    using Cons.prems by (simp add: upt_conv_Cons)
  with Cons show ?case by simp
qed simp

lemma pagedI [simp]: "0 < ps \<Longrightarrow> aligned ps pages \<Longrightarrow> paged ps (page_to_token ps pages)"
  by (simp add: paged_def)

lemma pagedE: "paged ps vs \<Longrightarrow> \<exists>pages. vs = page_to_token ps pages \<and> aligned ps pages"
  unfolding paged_def by blast

lemma paged_Nil [simp]: "paged ps []"
  by (simp add: paged_def aligned_def)

lemma paged_append: "0 < ps \<Longrightarrow> paged ps xs \<Longrightarrow> paged ps ys \<Longrightarrow> paged ps (xs @ ys)"
  by (metis aligned_append page_to_token_append pagedE pagedI)

lemma stride_append: "0 < ps \<Longrightarrow> paged ps xs \<Longrightarrow> paged ps ys \<Longrightarrow> stride ps (xs @ ys) = stride ps xs @ stride ps ys"
  by (metis page_to_token_append pagedE stride_page_to_token)

lemma paged_concat: "0 < ps \<Longrightarrow> \<forall>v\<in>set vs. paged ps v \<Longrightarrow> paged ps (concat vs)"
  by (induction vs) (simp_all add: paged_append)

lemma paged_dvd: "paged ps vs \<Longrightarrow> ps dvd length vs"
  using pagedE by fastforce

lemma paged_aligned: "paged ps vs \<Longrightarrow> aligned ps (stride ps vs)"
  by (simp add: paged_def)

lemma paged_tokens: "paged ps vs \<Longrightarrow> page_to_token ps (stride ps vs) = vs"
  by (simp add: paged_def)

lemma length_stride: "0 < ps \<Longrightarrow> paged ps vs \<Longrightarrow> length (stride ps vs) * ps = length vs"
  by (metis length_page_to_token paged_tokens)

lemma paged_take_drop:
  assumes "paged ps vs" "ps dvd k"
  shows "paged ps (take k vs)" and "paged ps (drop k vs)"
proof -
  from pagedE[OF assms(1)] obtain pages where v: "vs = page_to_token ps pages" and al: "aligned ps pages" by blast
  show "paged ps (take k vs)" "paged ps (drop k vs)"
  proof (atomize (full), cases "ps = 0")
    case False
    from assms(2) obtain j where k: "k = j * ps" by (metis dvd_def mult.commute)
    have "vs = page_to_token ps (take j pages) @ page_to_token ps (drop j pages)"
      unfolding v page_to_token_append[symmetric] by simp
    moreover have "length (page_to_token ps (take j pages)) = k \<or> page_to_token ps (drop j pages) = []"
      using k by (cases "j \<le> length pages") simp_all
    ultimately have "take k vs = page_to_token ps (take j pages) \<and> drop k vs = page_to_token ps (drop j pages)"
      using k by (cases "j \<le> length pages") simp_all
    with False al show "paged ps (take k vs) \<and> paged ps (drop k vs)" by (simp add: aligned_take_drop)
  qed (use assms in simp)
qed

lemma paged_slice: "paged ps vs \<Longrightarrow> ps dvd lo \<Longrightarrow> ps dvd hi \<Longrightarrow> paged ps (slice lo hi vs)"
  unfolding slice_def by (intro paged_take_drop) (auto intro: dvd_diff_nat)

lemma paged_drop_diff: "paged ps xs \<Longrightarrow> paged ps (xs @ ys) \<Longrightarrow> paged ps ys"
  using paged_take_drop(2)[of ps "xs @ ys" "length xs"] paged_dvd[of ps xs] by simp

section \<open>Whole pages in the radix cache\<close>

definition pages_cached :: "nat \<Rightarrow> store \<Rightarrow> bool" where
  "pages_cached ps h \<longleftrightarrow> (\<forall>xs vs. cached ps h xs vs \<longrightarrow> paged ps vs)"

lemma size_sum_mset: "finite A \<Longrightarrow> size (\<Sum>x\<in>A. f x :: 'b multiset) = (\<Sum>x\<in>A. size (f x))"
  by (induction rule: finite_induct) simp_all

lemma rc_total_owned:
  assumes "rc_inv c L V locks"
  shows "total_size (rc_size_info c) = int (size (owned (rc_store c)))"
proof -
  note ok = rc_tree[OF assms]
  have "(if n \<noteq> rc_root c \<and> True then int (nlength (the (nodes (rc_store c) n))) else 0) = int (size (mset (nvalue (the (nodes (rc_store c) n)))))"
    if "n \<in> dom (nodes (rc_store c))" for n
  proof -
    from that obtain nd where nd: "nodes (rc_store c) n = Some nd" by blast
    show ?thesis
    proof (cases "n = rc_root c")
      case True
      with tree_root[OF ok] nd show ?thesis by auto
    next
      case False
      with tree_parent[OF ok nd False] nd show ?thesis by (auto simp: nlength_def)
    qed
  qed
  then have "weigh (rc_root c) (\<lambda>_. True) (rc_store c) = (\<Sum>n\<in>dom (nodes (rc_store c)). int (size (mset (nvalue (the (nodes (rc_store c) n))))))"
    unfolding weigh_def dom_sum_def by (intro sum.cong) simp_all
  then show ?thesis
    unfolding rc_inv_total[OF assms] owned_def size_sum_mset[OF tree_finite[OF ok]] by simp
qed

lemma rc_nonneg: "rc_inv c L V locks \<Longrightarrow> 0 \<le> rc_evictable c \<and> 0 \<le> rc_protected c"
  using rc_ev rc_pr weigh_nonneg by metis

lemma rc_evict_paged:
  assumes inv: "rc_inv c L V locks" and pg: "pages_cached (rc_page_size c) (rc_store c)"
    and need: "0 < need" "need \<le> rc_evictable c"
  shows "\<exists>c' ev. rc_evict need c = Some (c', ev) \<and> rc_inv c' L V locks \<and> need \<le> int (length ev) \<and> paged (rc_page_size c) ev \<and>
    owned (rc_store c) = owned (rc_store c') + mset ev \<and> rc_evictable c' = rc_evictable c - int (length ev) \<and>
    rc_page_size c' = rc_page_size c \<and> dom (nodes (rc_store c')) \<subseteq> dom (nodes (rc_store c)) \<and>
    pages_cached (rc_page_size c) (rc_store c')"
proof -
  from rc_evict_inv[OF inv need] obtain c' ev leave n where e: "rc_evict need c = Some (c', concat ev)" "need \<le> n"
    "evict_mid c (timestamp_of (rc_store c)) L V locks leave ev n c'" by blast
  note ok = rc_tree[OF inv]
  have "paged (rc_page_size c) v" if v: "v \<in> set ev" for v
  proof -
    from e(3) v obtain x k where x: "x \<in> dom (nodes (rc_store c))" "rc_page_size c dvd k" "v = drop k (V x)"
      unfolding evict_mid_def by blast
    then obtain xd where "nodes (rc_store c) x = Some xd" by blast
    from cached_node[OF ok this] pg have "paged (rc_page_size c) (V x)" by (simp add: pages_cached_def)
    with x show ?thesis by (simp add: paged_take_drop)
  qed
  then have "paged (rc_page_size c) (concat ev)" by (intro paged_concat tree_ps[OF ok]) simp
  moreover have "pages_cached (rc_page_size c) (rc_store c')"
    using pg cached_unlink[OF ok, of "rc_store c'"] rc_tree[of c' L V locks] e(3)
    unfolding pages_cached_def evict_mid_def by metis
  ultimately show ?thesis using e by (auto simp: evict_mid_def)
qed

section \<open>The contract\<close>

definition handle_live ::
  "('c \<Rightarrow> 'h \<Rightarrow> int list option) \<Rightarrow> ('c \<Rightarrow> 'h \<Rightarrow> int list option) \<Rightarrow> ('h \<Rightarrow> nat) \<Rightarrow> nat \<Rightarrow> 'c \<Rightarrow> 'h \<Rightarrow> bool" where
  "handle_live toks idxs hlen ps c h \<longleftrightarrow> (\<exists>t vs. toks c h = Some t \<and> idxs c h = Some vs \<and> length t = hlen h \<and>
     length vs = hlen h \<and> ps dvd hlen h \<and> paged ps vs)"

definition same_handles ::
  "('c \<Rightarrow> 'h \<Rightarrow> int list option) \<Rightarrow> ('c \<Rightarrow> 'h \<Rightarrow> int list option) \<Rightarrow> 'h multiset \<Rightarrow> 'c \<Rightarrow> 'c \<Rightarrow> bool" where
  "same_handles toks idxs K c c' \<longleftrightarrow> (\<forall>h\<in>#K. toks c' h = toks c h \<and> idxs c' h = idxs c h)"

text \<open>The slots that a multiset of locked handles keeps from eviction.\<close>

definition kept :: "('c \<Rightarrow> 'h \<Rightarrow> int list option) \<Rightarrow> nat \<Rightarrow> 'c \<Rightarrow> 'h multiset \<Rightarrow> nat" where
  "kept toks ps c K = ps * card (page_prefixes ps {t. \<exists>h\<in>#K. toks c h = Some t})"

lemma kept_cong: "(\<And>h. h \<in># K \<Longrightarrow> toks c' h = toks c h) \<Longrightarrow> kept toks ps c' K = kept toks ps c K"
  unfolding kept_def by (metis (no_types, lifting))

lemma kept_finite: "finite {t. \<exists>h\<in>#K. toks h = Some t}"
proof -
  have "{t. \<exists>h\<in>#K. toks h = Some t} \<subseteq> (\<lambda>h. the (toks h)) ` set_mset K" by force
  then show ?thesis by (rule finite_subset) simp
qed

lemma kept_mono: "set_mset J \<subseteq> set_mset K \<Longrightarrow> kept toks ps c J \<le> kept toks ps c K"
  unfolding kept_def by (intro mult_le_mono2 card_mono page_prefixes_finite kept_finite page_prefixes_mono) auto

lemma same_handlesD: "same_handles toks idxs K c c' \<Longrightarrow> h \<in># K \<Longrightarrow> toks c' h = toks c h \<and> idxs c' h = idxs c h"
  by (simp add: same_handles_def)

lemma same_handles_trans:
  "same_handles toks idxs K c c' \<Longrightarrow> same_handles toks idxs K c' c'' \<Longrightarrow> same_handles toks idxs K c c''"
  by (simp add: same_handles_def)

lemma same_handles_mono: "same_handles toks idxs K c c' \<Longrightarrow> J \<subseteq># K \<Longrightarrow> same_handles toks idxs J c c'"
  unfolding same_handles_def by (meson mset_subset_eqD)

locale page_cache =
  fixes ok :: "nat \<Rightarrow> 'c \<Rightarrow> 'h multiset \<Rightarrow> bool"
    and toks :: "'c \<Rightarrow> 'h \<Rightarrow> int list option" and idxs :: "'c \<Rightarrow> 'h \<Rightarrow> int list option" and hlen :: "'h \<Rightarrow> nat"
    and own :: "'c \<Rightarrow> int multiset" and evictable :: "'c \<Rightarrow> int" and total :: "'c \<Rightarrow> int"
    and match_p :: "int list \<Rightarrow> int \<Rightarrow> 'c \<Rightarrow> ('c \<times> 'h \<times> nat option) option"
    and insert_p :: "int list \<Rightarrow> int list \<Rightarrow> int \<Rightarrow> int \<Rightarrow> 'c \<Rightarrow> ('c \<times> nat \<times> 'h) option"
    and lock_p :: "'h \<Rightarrow> 'c \<Rightarrow> ('c \<times> 'h) option" and unlock_p :: "'h \<Rightarrow> 'c \<Rightarrow> 'c option"
    and evict_p :: "int \<Rightarrow> 'c \<Rightarrow> ('c \<times> int list) option"
  assumes sizes: "ok ps c K \<Longrightarrow> 0 < ps \<and> 0 \<le> evictable c \<and> total c = int (size (own c))"
    and locked_law: "ok ps c K \<Longrightarrow> evictable c = total c - int (kept toks ps c K)"
    and held_live: "ok ps c K \<Longrightarrow> h \<in># K \<Longrightarrow> handle_live toks idxs hlen ps c h"
    and match_law: "ok ps c K \<Longrightarrow> \<exists>c' h mv. match_p ids tic c = Some (c', h, mv) \<and> ok ps c' K \<and>
        same_handles toks idxs K c c' \<and> handle_live toks idxs hlen ps c' h \<and> hlen h \<le> length ids \<and>
        toks c' h = Some (take (hlen h) ids) \<and> own c' = own c \<and> evictable c' = evictable c"
    and insert_law: "ok ps c K \<Longrightarrow> h \<in># K \<Longrightarrow> toks c h = Some (take (hlen h) ids) \<Longrightarrow> hlen h \<le> length ids \<Longrightarrow>
      length ind = length ids \<Longrightarrow> paged ps (slice (hlen h) (align_down (length ids) ps) ind) \<Longrightarrow>
      \<exists>c' m h' vs. insert_p ids ind tic now c = Some (c', m, h') \<and> ok ps c' K \<and> same_handles toks idxs K c c' \<and>
        handle_live toks idxs hlen ps c' h' \<and> toks c' h' = Some (take (hlen h') ids) \<and> idxs c' h' = Some vs \<and>
        hlen h \<le> m \<and> m \<le> hlen h' \<and> hlen h' \<le> length ids \<and> ps dvd m \<and> drop m vs = slice m (hlen h') ind \<and>
        idxs c h = Some (take (hlen h) vs) \<and> own c' = own c + mset (slice m (hlen h') ind)"
    and lock_law: "ok ps c K \<Longrightarrow> handle_live toks idxs hlen ps c h \<Longrightarrow>
      \<exists>c'. lock_p h c = Some (c', h) \<and> ok ps c' (add_mset h K) \<and> same_handles toks idxs (add_mset h K) c c' \<and> own c' = own c"
    and unlock_law: "ok ps c K \<Longrightarrow> h \<in># K \<Longrightarrow> \<exists>c'. unlock_p h c = Some c' \<and> ok ps c' (K - {#h#}) \<and>
      (\<forall>x. toks c' x = toks c x \<and> idxs c' x = idxs c x) \<and> own c' = own c"
    and evict_law: "ok ps c K \<Longrightarrow> 0 < n \<Longrightarrow> n \<le> evictable c \<Longrightarrow>
      \<exists>c' vs. evict_p n c = Some (c', vs) \<and> ok ps c' K \<and> same_handles toks idxs K c c' \<and>
        own c = own c' + mset vs \<and> paged ps vs \<and> n \<le> int (length vs) \<and> evictable c' = evictable c - int (length vs)"
    and evict_fail: "ok ps c K \<Longrightarrow> evictable c < n \<Longrightarrow> evict_p n c = None"
begin

abbreviation live :: "nat \<Rightarrow> 'c \<Rightarrow> 'h \<Rightarrow> bool" where
  "live \<equiv> handle_live toks idxs hlen"

text \<open>Commit of a request holding \<open>h\<close>: insert its ids, then drop the old lock.\<close>

lemma insert_unlock:
  assumes "ok ps c K" "h \<in># K" "toks c h = Some (take (hlen h) ids)" "hlen h \<le> length ids"
    "length ind = length ids" "paged ps (slice (hlen h) (align_down (length ids) ps) ind)"
  shows "\<exists>c1 c2 m h' vs. insert_p ids ind tic now c = Some (c1, m, h') \<and> unlock_p h c1 = Some c2 \<and>
    ok ps c2 (K - {#h#}) \<and> same_handles toks idxs K c c2 \<and> live ps c2 h' \<and> toks c2 h' = Some (take (hlen h') ids) \<and>
    idxs c2 h' = Some vs \<and> hlen h \<le> m \<and> m \<le> hlen h' \<and> hlen h' \<le> length ids \<and> ps dvd m \<and> ps dvd hlen h' \<and>
    drop m vs = slice m (hlen h') ind \<and> length vs = hlen h' \<and> idxs c h = Some (take (hlen h) vs) \<and>
    own c2 = own c + mset (slice m (hlen h') ind)"
proof -
  from insert_law[OF assms, of tic now] obtain c1 m h' vs where i: "insert_p ids ind tic now c = Some (c1, m, h')" "ok ps c1 K"
    "same_handles toks idxs K c c1" "live ps c1 h'" "toks c1 h' = Some (take (hlen h') ids)" "idxs c1 h' = Some vs"
    "hlen h \<le> m \<and> m \<le> hlen h' \<and> hlen h' \<le> length ids \<and> ps dvd m" "drop m vs = slice m (hlen h') ind"
    "idxs c h = Some (take (hlen h) vs)" "own c1 = own c + mset (slice m (hlen h') ind)" by blast
  from unlock_law[OF i(2) assms(2)] obtain c2 where u: "unlock_p h c1 = Some c2" "ok ps c2 (K - {#h#})"
    "\<forall>x. toks c2 x = toks c1 x \<and> idxs c2 x = idxs c1 x" "own c2 = own c1" by blast
  have "live ps c2 h'" using i(4) u(3) by (simp add: handle_live_def)
  moreover have "same_handles toks idxs K c c2" using i(3) u(3) by (simp add: same_handles_def)
  moreover have "length vs = hlen h' \<and> ps dvd hlen h'" using i(4,6) by (auto simp: handle_live_def)
  ultimately show ?thesis
    using i u by (intro exI[of _ c1] exI[of _ c2] exI[of _ m] exI[of _ h'] exI[of _ vs]) simp
qed

end

section \<open>The naive and the radix cache honour the contract\<close>

fun hd_node :: "cache_handle \<Rightarrow> nat" where
  "hd_node (HRadix h) = hnode h"
| "hd_node _ = 0"

fun pc_toks :: "prefix_cache \<Rightarrow> cache_handle \<Rightarrow> int list option" where
  "pc_toks PNaive HNaive = Some []"
| "pc_toks (PRadix c) (HRadix h) = tokens_of (rc_store c) (hnode h)"
| "pc_toks _ _ = None"

fun pc_idxs :: "prefix_cache \<Rightarrow> cache_handle \<Rightarrow> int list option" where
  "pc_idxs PNaive HNaive = Some []"
| "pc_idxs (PRadix c) (HRadix h) = indices_of (rc_store c) (hnode h)"
| "pc_idxs _ _ = None"

fun pc_own :: "prefix_cache \<Rightarrow> int multiset" where
  "pc_own PNaive = {#}"
| "pc_own (PRadix c) = owned (rc_store c)"
| "pc_own (PHybrid c) = owned (rc_store (hc_kv c))"
| "pc_own (PSwa c) = owned (sw_store c)"

definition pc_evictable :: "prefix_cache \<Rightarrow> int" where
  "pc_evictable pc = si_evictable (pc_size_info pc)"

definition pc_total :: "prefix_cache \<Rightarrow> int" where
  "pc_total pc = total_size (pc_size_info pc)"

abbreviation pc_live :: "nat \<Rightarrow> prefix_cache \<Rightarrow> cache_handle \<Rightarrow> bool" where
  "pc_live \<equiv> handle_live pc_toks pc_idxs h_cached_len"

abbreviation pc_same :: "cache_handle multiset \<Rightarrow> prefix_cache \<Rightarrow> prefix_cache \<Rightarrow> bool" where
  "pc_same \<equiv> same_handles pc_toks pc_idxs"

fun pc_ok :: "nat \<Rightarrow> prefix_cache \<Rightarrow> cache_handle multiset \<Rightarrow> bool" where
  "pc_ok ps PNaive K \<longleftrightarrow> 0 < ps \<and> (\<forall>h\<in>#K. pc_live ps PNaive h)"
| "pc_ok ps (PRadix c) K \<longleftrightarrow> rc_page_size c = ps \<and> rc_ok c (image_mset hd_node K) \<and> pages_cached ps (rc_store c) \<and>
     (\<forall>h\<in>#K. pc_live ps (PRadix c) h)"
| "pc_ok _ _ _ \<longleftrightarrow> False"

lemma pc_live_radix: "pc_live ps (PRadix c) h \<Longrightarrow> \<exists>x. h = HRadix x"
  by (cases h) (auto simp: handle_live_def)

lemma pc_live_naive: "pc_live ps PNaive h \<longleftrightarrow> h = HNaive"
  by (cases h) (auto simp: handle_live_def)

lemma pc_live_same: "pc_live ps c h \<Longrightarrow> pc_toks c' h = pc_toks c h \<Longrightarrow> pc_idxs c' h = pc_idxs c h \<Longrightarrow> pc_live ps c' h"
  by (simp add: handle_live_def)

text \<open>Nodes keep their labels: so do the handles.\<close>

lemma radix_same_handles:
  assumes "tree_ok ps r (rc_store c) L V" "tree_ok ps' r' (rc_store c') L' V'"
    "\<And>x. x \<in> dom (nodes (rc_store c)) \<Longrightarrow> x \<in> S \<Longrightarrow> x \<in> dom (nodes (rc_store c')) \<and> L' x = L x \<and> V' x = V x"
    "\<And>h. h \<in># K \<Longrightarrow> \<exists>x. h = HRadix x \<and> hnode x \<in> dom (nodes (rc_store c)) \<inter> S"
  shows "pc_same K (PRadix c) (PRadix c')"
  unfolding same_handles_def
proof
  fix h assume "h \<in># K"
  from assms(4)[OF this] obtain x nd where x: "h = HRadix x" "nodes (rc_store c) (hnode x) = Some nd" "hnode x \<in> S" by blast
  then have "hnode x \<in> dom (nodes (rc_store c))" by blast
  from assms(3)[OF this x(3)] obtain nd' where nd': "nodes (rc_store c') (hnode x) = Some nd'"
    "L' (hnode x) = L (hnode x)" "V' (hnode x) = V (hnode x)" by blast
  with x tokens_of_ok[OF assms(1) x(2)] tokens_of_ok[OF assms(2) nd'(1)] indices_of_ok[OF assms(1) x(2)] indices_of_ok[OF assms(2) nd'(1)]
  show "pc_toks (PRadix c') h = pc_toks (PRadix c) h \<and> pc_idxs (PRadix c') h = pc_idxs (PRadix c) h" by simp
qed

lemma radix_held_node:
  assumes "\<forall>h\<in>#K. pc_live ps (PRadix c) h" "h \<in># K"
  shows "\<exists>x. h = HRadix x \<and> hnode x \<in> dom (nodes (rc_store c))"
proof -
  from assms have l: "pc_live ps (PRadix c) h" by blast
  from pc_live_radix[OF this] obtain x where x: "h = HRadix x" by blast
  with l obtain t where "tokens_of (rc_store c) (hnode x) = Some t" by (auto simp: handle_live_def)
  from tokens_of_dom[OF this] x show ?thesis by blast
qed

lemma radix_live_node:
  assumes "tree_ok ps r (rc_store c) L V" "nodes (rc_store c) (hnode x) = Some nd" "length (L (hnode x)) = cached_len x"
    "pages_cached ps (rc_store c)"
  shows "pc_live ps (PRadix c) (HRadix x)"
  using tokens_of_ok[OF assms(1,2)] indices_of_ok[OF assms(1,2)] tree_label_value[OF assms(1,2)] tree_label_dvd[OF assms(1,2)]
    cached_node[OF assms(1,2)] assms(3,4) by (auto simp: handle_live_def pages_cached_def)

lemma radix_ok_I:
  assumes "rc_page_size c' = ps" "rc_inv c' L V (image_mset hd_node K)" "pages_cached ps (rc_store c')"
    "pc_same K c (PRadix c')" "\<forall>h\<in>#K. pc_live ps c h"
  shows "pc_ok ps (PRadix c') K"
proof -
  have "pc_live ps (PRadix c') h" if "h \<in># K" for h
    using pc_live_same[of ps c h "PRadix c'"] same_handlesD[OF assms(4) that] assms(5) that by blast
  with assms(1-3) show ?thesis by (auto simp: rc_ok_def)
qed

lemma radix_match_law:
  assumes "pc_ok ps (PRadix c) K"
  shows "\<exists>c' h mv. pc_match_prefix ids tic (PRadix c) = Some (c', h, mv) \<and> pc_ok ps c' K \<and>
        pc_same K (PRadix c) c' \<and> pc_live ps c' h \<and> h_cached_len h \<le> length ids \<and>
        pc_toks c' h = Some (take (h_cached_len h) ids) \<and> pc_own c' = pc_own (PRadix c) \<and> pc_evictable c' = pc_evictable (PRadix c)"
proof -
  from assms obtain L V where inv: "rc_inv c L V (image_mset hd_node K)" and ps: "rc_page_size c = ps"
    and pg: "pages_cached ps (rc_store c)" and lv: "\<forall>h\<in>#K. pc_live ps (PRadix c) h" by (auto simp: rc_ok_def)
  from rc_walk_inv[OF inv, of ids tic] obtain h w len L' V' wd where
    w: "rc_tree_walk ids tic c = Some (c\<lparr>rc_store := h\<rparr>, w, len)" "rc_inv (c\<lparr>rc_store := h\<rparr>) L' V' (image_mset hd_node K)"
    "grows (rc_page_size c) (rc_root c) (rc_store c) L V h L' V'" "nodes h w = Some wd" "L' w = take len ids" "len \<le> length ids" by blast
  let ?c' = "c\<lparr>rc_store := h\<rparr>" and ?x = "\<lparr>cached_len = len, hnode = w\<rparr>"
  have ok': "tree_ok ps (rc_root c) (rc_store ?c') L' V'" using grows_tree_ok[OF w(3)] ps by simp
  have pg': "pages_cached ps (rc_store ?c')" using pg cached_grows[OF w(3)] ps by (simp add: pages_cached_def)
  have same: "pc_same K (PRadix c) (PRadix ?c')"
    by (rule radix_same_handles[OF rc_tree[OF inv] ok', where S = UNIV])
      (use grows_labels[OF w(3)] radix_held_node[OF lv] in \<open>auto simp: same_labels_def\<close>)
  have "pc_live ps (PRadix ?c') (HRadix ?x)"
    using w(4,5,6) by (intro radix_live_node[OF ok' _ _ pg', of _ wd]) simp_all
  moreover have "pc_toks (PRadix ?c') (HRadix ?x) = Some (take len ids)"
    using tokens_of_ok[OF ok', of w wd] w(4,5) by simp
  moreover have "pc_ok ps (PRadix ?c') K" using ps w(2) by (intro radix_ok_I[OF _ _ pg' same lv]) simp_all
  ultimately show ?thesis
    using same w(1,6) grows_owned[OF w(3)]
    by (intro exI[of _ "PRadix ?c'"] exI[of _ "HRadix ?x"] exI[of _ None])
      (simp add: rc_match_prefix_def pc_evictable_def rc_size_info_def)
qed

lemma radix_insert_law:
  assumes ok: "pc_ok ps (PRadix c) K" and h: "h \<in># K" "pc_toks (PRadix c) h = Some (take (h_cached_len h) ids)"
      "h_cached_len h \<le> length ids" and len: "length ind = length ids"
    and pgi: "paged ps (slice (h_cached_len h) (align_down (length ids) ps) ind)"
  shows "\<exists>c' m h' vs. pc_insert_prefix ids ind tic now (PRadix c) = Some (c', m, h') \<and> pc_ok ps c' K \<and> pc_same K (PRadix c) c' \<and>
        pc_live ps c' h' \<and> pc_toks c' h' = Some (take (h_cached_len h') ids) \<and> pc_idxs c' h' = Some vs \<and>
        h_cached_len h \<le> m \<and> m \<le> h_cached_len h' \<and> h_cached_len h' \<le> length ids \<and> ps dvd m \<and>
        drop m vs = slice m (h_cached_len h') ind \<and> pc_idxs (PRadix c) h = Some (take (h_cached_len h) vs) \<and>
        pc_own c' = pc_own (PRadix c) + mset (slice m (h_cached_len h') ind)"
proof -
  from ok obtain L V where inv: "rc_inv c L V (image_mset hd_node K)" and ps: "rc_page_size c = ps"
    and pg: "pages_cached ps (rc_store c)" and lv: "\<forall>h\<in>#K. pc_live ps (PRadix c) h" by (auto simp: rc_ok_def)
  let ?n = "align_down (length ids) ps" and ?hl = "h_cached_len h"
  note okc = rc_tree[OF inv]
  from rc_insert_inv[OF inv len, of ?n ps tic now] obtain c' m hdl old L' V' wd where
    i: "rc_insert_prefix ids ind tic now c = Some (c', m, hdl)" "rc_inv c' L' V' (image_mset hd_node K)"
      "dom (nodes (rc_store c)) \<subseteq> dom (nodes (rc_store c'))" "same_labels (rc_store c) L V L' V'"
      "cached_len hdl = ?n" "m \<le> ?n" "ps dvd m" "cached ps (rc_store c) (take m ids) old"
      "longest_cached ps (rc_store c) (take ?n ids) m" "nodes (rc_store c') (hnode hdl) = Some wd" "L' (hnode hdl) = take ?n ids"
    and iff: "\<forall>xs vs. cached ps (rc_store c') xs vs \<longleftrightarrow> cached ps (rc_store c) xs vs \<or>
       (\<exists>j\<le>?n. ps dvd j \<and> xs = take j ids \<and> vs = take j (old @ slice m ?n ind))"
    and own: "owned (rc_store c') = owned (rc_store c) + mset (slice m ?n ind)"
    and geo: "rc_page_size c' = ps" "rc_root c' = rc_root c" unfolding ps by blast
  have ok': "tree_ok ps (rc_root c) (rc_store c') L' V'" using rc_tree[OF i(2)] geo by simp
  have okps: "tree_ok ps (rc_root c) (rc_store c) L V" using okc ps by simp
  have ln: "?n \<le> length ids" by simp
  have lenold: "length old = m" using cached_length[OF okps i(8)] i(6) ln by simp
  from lv h(1) have "pc_live ps (PRadix c) h" by blast
  then obtain hv where hv: "pc_idxs (PRadix c) h = Some hv" "ps dvd ?hl" "length hv = ?hl" by (auto simp: handle_live_def)
  from pc_live_radix[OF \<open>pc_live ps (PRadix c) h\<close>] obtain x where x: "h = HRadix x" by blast
  have hn: "?hl \<le> ?n" using hv(2) h(3) by (rule align_down_ge)
  have hc: "cached ps (rc_store c) (take ?hl ids) hv"
    unfolding cached_def using h x hv
    by (intro exI[of _ "hnode x"] exI[of _ "take ?hl ids"] exI[of _ hv] exI[of _ ?hl]) simp
  then have "cached ps (rc_store c) (take ?hl (take ?n ids)) hv" using hn by (simp add: min.absorb1)
  moreover have "?hl \<le> length (take ?n ids)" using hn by simp
  ultimately have hm: "?hl \<le> m" using i(9) unfolding longest_cached_def by blast
  have "cached ps (rc_store c) (take ?hl (take m ids)) (take ?hl old)"
    using hm h(3) by (intro cached_take[OF i(8) hv(2)]) simp
  with hm have "cached ps (rc_store c) (take ?hl ids) (take ?hl old)" by (simp add: min.absorb1)
  with cached_unique[OF okps hc] have hvold: "hv = take ?hl old" by blast
  let ?vs = "old @ slice m ?n ind"
  have lvs: "length ?vs = ?n" using lenold i(6) ln len by simp
  have "cached ps (rc_store c') (take ?n ids) (take ?n ?vs)" using iff by (metis align_down_dvd order_refl)
  moreover have "cached ps (rc_store c') (take ?n ids) (V' (hnode hdl))" using cached_node[OF ok' i(10)] i(11) by simp
  ultimately have V: "V' (hnode hdl) = ?vs" using cached_unique[OF ok'] lvs by (metis order_refl take_all)
  have pgold: "paged ps old" using pg i(8) by (simp add: pages_cached_def)
  have "slice m ?n ind = drop (m - ?hl) (slice ?hl ?n ind)" using hm by (simp add: slice_def drop_take)
  then have pgs: "paged ps (slice m ?n ind)" using pgi i(7) hv(2) by (simp add: paged_take_drop(2) dvd_diff_nat)
  then have pgvs: "paged ps ?vs" by (intro paged_append tree_ps[OF ok'] pgold)
  have pg': "pages_cached ps (rc_store c')"
    unfolding pages_cached_def
  proof (intro allI impI)
    fix xs vs assume "cached ps (rc_store c') xs vs"
    then consider "cached ps (rc_store c) xs vs" | j where "ps dvd j" "vs = take j ?vs" using iff by blast
    then show "paged ps vs"
      using pg paged_take_drop(1)[OF pgvs] by cases (simp_all add: pages_cached_def)
  qed
  have same: "pc_same K (PRadix c) (PRadix c')"
    by (rule radix_same_handles[OF okps ok', where S = UNIV])
      (use i(3,4) radix_held_node[OF lv] in \<open>auto simp: same_labels_def\<close>)
  have "pc_live ps (PRadix c') (HRadix hdl)"
    using i(5,11) ln by (intro radix_live_node[OF ok' i(10) _ pg']) simp
  moreover have "pc_toks (PRadix c') (HRadix hdl) = Some (take ?n ids)" using tokens_of_ok[OF ok' i(10)] i(11) by simp
  moreover have "pc_idxs (PRadix c') (HRadix hdl) = Some ?vs" using indices_of_ok[OF ok' i(10)] V by simp
  moreover have "pc_ok ps (PRadix c') K" by (rule radix_ok_I[OF geo(1) i(2) pg' same lv])
  moreover have "pc_idxs (PRadix c) h = Some (take ?hl ?vs)" using hv(1) hvold hm lenold by simp
  moreover have "drop m ?vs = slice m ?n ind" using lenold by simp
  ultimately show ?thesis
    using i(1,5,6,7) hm ln own same
    by (intro exI[of _ "PRadix c'"] exI[of _ m] exI[of _ "HRadix hdl"] exI[of _ ?vs]) simp
qed

lemma radix_same_shape:
  assumes inv: "rc_inv c L V locks" and sh: "same_shape (rc_store c) (rc_store c')"
  shows "pc_toks (PRadix c') h = pc_toks (PRadix c) h \<and> pc_idxs (PRadix c') h = pc_idxs (PRadix c) h"
proof (cases h)
  case (HRadix x)
  note ok = rc_tree[OF inv] and ok' = tree_same_shape[OF rc_tree[OF inv] sh]
  show ?thesis
  proof (cases "nodes (rc_store c) (hnode x)")
    case None
    then have "nodes (rc_store c') (hnode x) = None" using same_shape_dom[OF sh] by blast
    with None have "tokens_of (rc_store c) (hnode x) = None" "tokens_of (rc_store c') (hnode x) = None"
      "indices_of (rc_store c) (hnode x) = None" "indices_of (rc_store c') (hnode x) = None"
      by (simp_all add: tokens_of_def indices_of_def path_values_def up_loop.simps)
    with HRadix show ?thesis by simp
  next
    case (Some nd)
    then obtain nd' where "nodes (rc_store c') (hnode x) = Some nd'" using same_shape_dom[OF sh] by blast
    with Some HRadix show ?thesis
      using tokens_of_ok[OF ok Some] tokens_of_ok[OF ok'] indices_of_ok[OF ok Some] indices_of_ok[OF ok'] by simp
  qed
qed simp_all

lemma radix_lock_law:
  assumes "pc_ok ps (PRadix c) K" "pc_live ps (PRadix c) h"
  shows "\<exists>c'. pc_lock h (PRadix c) = Some (c', h) \<and> pc_ok ps c' (add_mset h K) \<and>
    pc_same (add_mset h K) (PRadix c) c' \<and> pc_own c' = pc_own (PRadix c)"
proof -
  from assms(1) obtain L V where inv: "rc_inv c L V (image_mset hd_node K)" and ps: "rc_page_size c = ps"
    and pg: "pages_cached ps (rc_store c)" and lv: "\<forall>h\<in>#K. pc_live ps (PRadix c) h" by (auto simp: rc_ok_def)
  have lv': "\<forall>x\<in>#add_mset h K. pc_live ps (PRadix c) x" using lv assms(2) by auto
  from radix_held_node[OF lv', of h] obtain x nd where x: "h = HRadix x" "nodes (rc_store c) (hnode x) = Some nd" by auto
  from rc_lock_inv[OF inv x(2)] obtain c' where c': "rc_lock_handle x False c = Some c'"
    "rc_inv c' L V (add_mset (hnode x) (image_mset hd_node K))" "same_shape (rc_store c) (rc_store c')"
    "rc_page_size c' = rc_page_size c" by (auto simp: lock_mid_def)
  have pg': "pages_cached ps (rc_store c')"
    using pg cached_same_shape[OF rc_tree[OF inv] c'(3)] ps by (simp add: pages_cached_def)
  have same: "pc_same (add_mset h K) (PRadix c) (PRadix c')"
    using radix_same_shape[OF inv c'(3)] by (simp add: same_handles_def)
  have "pc_ok ps (PRadix c') (add_mset h K)"
    using c'(2,4) ps x(1) by (intro radix_ok_I[OF _ _ pg' same lv']) simp_all
  with c' same x(1) owned_same_shape[OF c'(3)] show ?thesis by (intro exI[of _ "PRadix c'"]) simp
qed

lemma radix_unlock_law:
  assumes "pc_ok ps (PRadix c) K" "h \<in># K"
  shows "\<exists>c'. pc_unlock h (PRadix c) = Some c' \<and> pc_ok ps c' (K - {#h#}) \<and>
    (\<forall>x. pc_toks c' x = pc_toks (PRadix c) x \<and> pc_idxs c' x = pc_idxs (PRadix c) x) \<and> pc_own c' = pc_own (PRadix c)"
proof -
  from assms(1) obtain L V where inv: "rc_inv c L V (image_mset hd_node K)" and ps: "rc_page_size c = ps"
    and pg: "pages_cached ps (rc_store c)" and lv: "\<forall>h\<in>#K. pc_live ps (PRadix c) h" by (auto simp: rc_ok_def)
  from assms(2) lv have "pc_live ps (PRadix c) h" by blast
  from pc_live_radix[OF this] obtain x where x: "h = HRadix x" by blast
  from assms(2) obtain J where J: "K = add_mset h J" by (metis insert_DiffM)
  with inv x have "rc_inv c L V (add_mset (hnode x) (image_mset hd_node J))" by simp
  from rc_unlock_inv[OF this] obtain c' where c': "rc_lock_handle x True c = Some c'"
    "rc_inv c' L V (image_mset hd_node J)" "same_shape (rc_store c) (rc_store c')" "rc_page_size c' = rc_page_size c"
    by (auto simp: lock_mid_def)
  have pg': "pages_cached ps (rc_store c')"
    using pg cached_same_shape[OF rc_tree[OF inv] c'(3)] ps by (simp add: pages_cached_def)
  note sh = radix_same_shape[OF inv c'(3)]
  have "pc_ok ps (PRadix c') J"
    by (rule radix_ok_I[OF _ c'(2) pg', where c = "PRadix c"]) (use c'(4) ps sh lv J in \<open>auto simp: same_handles_def\<close>)
  with c' x J sh owned_same_shape[OF c'(3)] show ?thesis by (intro exI[of _ "PRadix c'"]) simp
qed

lemma radix_evict_law:
  assumes "pc_ok ps (PRadix c) K" "0 < n" "n \<le> pc_evictable (PRadix c)"
  shows "\<exists>c' vs. pc_evict n (PRadix c) = Some (c', vs) \<and> pc_ok ps c' K \<and> pc_same K (PRadix c) c' \<and>
    pc_own (PRadix c) = pc_own c' + mset vs \<and> paged ps vs \<and> n \<le> int (length vs) \<and>
    pc_evictable c' = pc_evictable (PRadix c) - int (length vs)"
proof -
  from assms(1) obtain L V where inv: "rc_inv c L V (image_mset hd_node K)" and ps: "rc_page_size c = ps"
    and pg: "pages_cached ps (rc_store c)" and lv: "\<forall>h\<in>#K. pc_live ps (PRadix c) h" by (auto simp: rc_ok_def)
  have n: "n \<le> rc_evictable c" using assms(3) by (simp add: pc_evictable_def rc_size_info_def)
  have "pages_cached (rc_page_size c) (rc_store c)" using pg ps by simp
  from rc_evict_paged[OF inv this assms(2) n] obtain c' vs where e: "rc_evict n c = Some (c', vs)"
    "rc_inv c' L V (image_mset hd_node K)" "n \<le> int (length vs)" "paged ps vs"
    "owned (rc_store c) = owned (rc_store c') + mset vs" "rc_evictable c' = rc_evictable c - int (length vs)"
    "rc_page_size c' = rc_page_size c" "dom (nodes (rc_store c')) \<subseteq> dom (nodes (rc_store c))" "pages_cached ps (rc_store c')"
    unfolding ps by blast
  have "pc_same K (PRadix c) (PRadix c')"
  proof (rule radix_same_handles[OF rc_tree[OF inv] rc_tree[OF e(2)], where S = "hnode ` {x. HRadix x \<in># K}"])
    show "x \<in> dom (nodes (rc_store c')) \<and> L x = L x \<and> V x = V x"
      if x: "x \<in> hnode ` {x. HRadix x \<in># K}" for x
    proof -
      from x have "x \<in># image_mset hd_node K" by (force simp: image_iff)
      from refs_locks[OF rc_refs[OF e(2)] this] show ?thesis by blast
    qed
    show "\<exists>x. h = HRadix x \<and> hnode x \<in> dom (nodes (rc_store c)) \<inter> hnode ` {x. HRadix x \<in># K}" if "h \<in># K" for h
      using radix_held_node[OF lv that] that by auto
  qed
  moreover from radix_ok_I[OF _ e(2,9) this lv] have "pc_ok ps (PRadix c') K" using e(7) ps by simp
  ultimately show ?thesis
    using e by (intro exI[of _ "PRadix c'"] exI[of _ vs]) (simp add: pc_evictable_def rc_size_info_def)
qed

lemma radix_locked_law:
  assumes "pc_ok ps (PRadix c) K"
  shows "rc_protected c = int (kept pc_toks ps (PRadix c) K)"
proof -
  from assms obtain L V where inv: "rc_inv c L V (image_mset hd_node K)" and ps: "rc_page_size c = ps"
    and lv: "\<forall>h\<in>#K. pc_live ps (PRadix c) h" by (auto simp: rc_ok_def)
  have "{t. \<exists>h\<in>#K. pc_toks (PRadix c) h = Some t} = L ` set_mset (image_mset hd_node K)"
  proof (intro set_eqI iffI)
    fix t assume "t \<in> {t. \<exists>h\<in>#K. pc_toks (PRadix c) h = Some t}"
    then obtain h where h: "h \<in># K" "pc_toks (PRadix c) h = Some t" by blast
    from radix_held_node[OF lv h(1)] obtain x nd where "h = HRadix x" "nodes (rc_store c) (hnode x) = Some nd" by blast
    with tokens_of_ok[OF rc_tree[OF inv]] h show "t \<in> L ` set_mset (image_mset hd_node K)" by force
  next
    fix t assume "t \<in> L ` set_mset (image_mset hd_node K)"
    then obtain h where h: "h \<in># K" "t = L (hd_node h)" by auto
    from radix_held_node[OF lv h(1)] obtain x nd where "h = HRadix x" "nodes (rc_store c) (hnode x) = Some nd" by blast
    with tokens_of_ok[OF rc_tree[OF inv]] h show "t \<in> {t. \<exists>h\<in>#K. pc_toks (PRadix c) h = Some t}" by force
  qed
  then show ?thesis
    using protected_pages[OF rc_tree[OF inv] rc_refs[OF inv]] rc_pr[OF inv] ps by (simp add: kept_def)
qed

interpretation pcx: page_cache pc_ok pc_toks pc_idxs h_cached_len pc_own pc_evictable pc_total
  pc_match_prefix pc_insert_prefix pc_lock pc_unlock pc_evict
proof
  fix ps c K h ids ind tic now and n :: int
  note def = pc_evictable_def pc_total_def
  show "0 < ps \<and> 0 \<le> pc_evictable c \<and> pc_total c = int (size (pc_own c))" if "pc_ok ps c K"
  proof (cases c)
    case (PRadix r)
    with that obtain L V where "rc_inv r L V (image_mset hd_node K)" "rc_page_size r = ps" by (auto simp: rc_ok_def)
    with rc_total_owned rc_nonneg tree_ps[OF rc_tree] PRadix show ?thesis by (auto simp: def rc_size_info_def)
  qed (use that in \<open>auto simp: def naive_size_info_def total_size_def\<close>)
  show "pc_evictable c = pc_total c - int (kept pc_toks ps c K)" if ok: "pc_ok ps c K"
  proof (cases c)
    case PNaive
    then have "{t. \<exists>h\<in>#K. pc_toks c h = Some t} \<subseteq> {[]}" using ok by (auto simp: pc_live_naive)
    then have "page_prefixes ps {t. \<exists>h\<in>#K. pc_toks c h = Some t} = {}" by (auto simp: page_prefixes_def)
    then show ?thesis using PNaive by (simp add: def naive_size_info_def total_size_def kept_def)
  next
    case (PRadix r)
    with radix_locked_law[of ps r K] ok show ?thesis by (simp add: def rc_size_info_def total_size_def)
  qed (use ok in auto)
  show "pc_live ps c h" if "pc_ok ps c K" "h \<in># K" using that by (cases c) auto
  show "\<exists>c' h mv. pc_match_prefix ids tic c = Some (c', h, mv) \<and> pc_ok ps c' K \<and> pc_same K c c' \<and> pc_live ps c' h \<and>
      h_cached_len h \<le> length ids \<and> pc_toks c' h = Some (take (h_cached_len h) ids) \<and> pc_own c' = pc_own c \<and> pc_evictable c' = pc_evictable c"
    if "pc_ok ps c K"
    using that radix_match_law[of ps _ K ids tic] by (cases c) (auto simp: same_handles_def pc_live_naive)
  show "\<exists>c' m h' vs. pc_insert_prefix ids ind tic now c = Some (c', m, h') \<and> pc_ok ps c' K \<and> pc_same K c c' \<and>
        pc_live ps c' h' \<and> pc_toks c' h' = Some (take (h_cached_len h') ids) \<and> pc_idxs c' h' = Some vs \<and>
        h_cached_len h \<le> m \<and> m \<le> h_cached_len h' \<and> h_cached_len h' \<le> length ids \<and> ps dvd m \<and>
        drop m vs = slice m (h_cached_len h') ind \<and> pc_idxs c h = Some (take (h_cached_len h) vs) \<and>
        pc_own c' = pc_own c + mset (slice m (h_cached_len h') ind)"
    if "pc_ok ps c K" "h \<in># K" "pc_toks c h = Some (take (h_cached_len h) ids)" "h_cached_len h \<le> length ids"
      "length ind = length ids" "paged ps (slice (h_cached_len h) (align_down (length ids) ps) ind)"
  proof (cases c)
    case PNaive
    with that(1,2) have "h = HNaive" by (auto simp: pc_live_naive)
    with PNaive that(1) show ?thesis by (auto simp: same_handles_def pc_live_naive slice_def)
  qed (use that radix_insert_law[of ps _ K h ids ind tic now] in auto)
  show "\<exists>c'. pc_lock h c = Some (c', h) \<and> pc_ok ps c' (add_mset h K) \<and> pc_same (add_mset h K) c c' \<and> pc_own c' = pc_own c"
    if "pc_ok ps c K" "pc_live ps c h"
    using that radix_lock_law[of ps _ K h] by (cases c) (auto simp: same_handles_def)
  show "\<exists>c'. pc_unlock h c = Some c' \<and> pc_ok ps c' (K - {#h#}) \<and>
      (\<forall>x. pc_toks c' x = pc_toks c x \<and> pc_idxs c' x = pc_idxs c x) \<and> pc_own c' = pc_own c"
    if "pc_ok ps c K" "h \<in># K"
    using that radix_unlock_law[of ps _ K h] by (cases c) (auto dest: in_diffD)
  show "\<exists>c' vs. pc_evict n c = Some (c', vs) \<and> pc_ok ps c' K \<and> pc_same K c c' \<and> pc_own c = pc_own c' + mset vs \<and>
      paged ps vs \<and> n \<le> int (length vs) \<and> pc_evictable c' = pc_evictable c - int (length vs)"
    if "pc_ok ps c K" "0 < n" "n \<le> pc_evictable c"
    using that radix_evict_law[of ps _ K n] by (cases c) (auto simp: def naive_size_info_def)
  show "pc_evict n c = None" if ok: "pc_ok ps c K" and n: "pc_evictable c < n"
  proof (cases c)
    case (PRadix r)
    with ok obtain L V where "rc_inv r L V (image_mset hd_node K)" by (auto simp: rc_ok_def)
    from rc_nonneg[OF this] n PRadix show ?thesis
      by (simp add: def rc_size_info_def rc_evict_def py_assert_def)
  qed (use ok n in \<open>auto simp: def naive_size_info_def naive_evict_def\<close>)
qed

end
