(* ===== verification/CacheBooks.thy ===== *)
theory CacheBooks
  imports PageCache
begin

text \<open>
  The books of \<open>CacheManager\<close> on the generic path (naive and plain radix cache, no
  window pool): every token slot of the pool is in exactly one of the free list, the prefix
  cache and the rows of the live requests.  \<open>cm_inv\<close> says so for the list of live requests;
  allocation, commit and finish keep it.
\<close>

section \<open>The invariant\<close>

definition page_ceil :: "nat \<Rightarrow> nat \<Rightarrow> nat" where
  "page_ceil ps n = div_ceil n ps * ps"

abbreviation row_of :: "cache_manager \<Rightarrow> req \<Rightarrow> int list" where
  "row_of cm r \<equiv> cm_page_table cm ! nat (rq_table_idx r)"

abbreviation hl :: "req \<Rightarrow> nat" where
  "hl r \<equiv> h_cached_len (rq_handle r)"

text \<open>The part of its row a request owns.\<close>

definition own_slice :: "cache_manager \<Rightarrow> req \<Rightarrow> int list" where
  "own_slice cm r = slice (hl r) (page_ceil (cm_page_size cm) (rq_cached_len r)) (row_of cm r)"

definition req_fits :: "cache_manager \<Rightarrow> req \<Rightarrow> bool" where
  "req_fits cm r \<longleftrightarrow> 0 \<le> rq_table_idx r \<and> nat (rq_table_idx r) < length (cm_page_table cm) \<and>
     hl r \<le> rq_cached_len r \<and> page_ceil (cm_page_size cm) (rq_cached_len r) \<le> length (row_of cm r) \<and>
     pc_toks (cm_prefix cm) (rq_handle r) = Some (take (hl r) (rq_input_ids r)) \<and>
     pc_idxs (cm_prefix cm) (rq_handle r) = Some (take (hl r) (row_of cm r)) \<and> paged (cm_page_size cm) (own_slice cm r)"

definition frees :: "cache_manager \<Rightarrow> int list" where
  "frees cm = cm_free_slots cm @ (case cm_lazy cm of None \<Rightarrow> [] | Some ls \<Rightarrow> ls)"

definition own_sum :: "cache_manager \<Rightarrow> req list \<Rightarrow> int multiset" where
  "own_sum cm rs = sum_list (map (\<lambda>r. mset (own_slice cm r)) rs)"

definition generic :: "cache_manager \<Rightarrow> bool" where
  "generic cm \<longleftrightarrow> \<not> is_swa cm \<and> \<not> is_hybrid cm \<and> cm_swa_pool cm = None"

definition balanced :: "cache_manager \<Rightarrow> int multiset \<Rightarrow> bool" where
  "balanced cm held \<longleftrightarrow> aligned (cm_page_size cm) (frees cm) \<and> mset (page_to_token (cm_page_size cm) (frees cm)) + pc_own (cm_prefix cm) + held =
     mset (page_to_token (cm_page_size cm) (all_pages (cm_num_pages cm) (cm_page_size cm)))"

definition cm_inv :: "cache_manager \<Rightarrow> req list \<Rightarrow> bool" where
  "cm_inv cm rs \<longleftrightarrow> generic cm \<and> pc_ok (cm_page_size cm) (cm_prefix cm) (mset (map rq_handle rs)) \<and>
     (\<forall>r\<in>set rs. req_fits cm r) \<and> distinct (map rq_table_idx rs) \<and> balanced cm (own_sum cm rs)"

lemma cm_invD:
  assumes "cm_inv cm rs"
  shows cm_generic: "generic cm" and cm_pc: "pc_ok (cm_page_size cm) (cm_prefix cm) (mset (map rq_handle rs))"
    and cm_fits: "r \<in> set rs \<Longrightarrow> req_fits cm r" and cm_distinct: "distinct (map rq_table_idx rs)"
    and cm_books: "balanced cm (own_sum cm rs)" and cm_ps: "0 < cm_page_size cm"
  using assms pcx.sizes by (auto simp: cm_inv_def)

lemma page_ceil_ge: "0 < ps \<Longrightarrow> n \<le> page_ceil ps n"
  by (simp add: page_ceil_def div_ceil_ge)

lemma page_ceil_dvd [simp]: "ps dvd page_ceil ps n"
  by (simp add: page_ceil_def)

lemma page_ceil_mono: "m \<le> n \<Longrightarrow> page_ceil ps m \<le> page_ceil ps n"
  by (simp add: page_ceil_def div_ceil_mono)

lemma own_sum_Cons [simp]: "own_sum cm (r # rs) = mset (own_slice cm r) + own_sum cm rs"
  and own_sum_Nil [simp]: "own_sum cm [] = {#}"
  by (simp_all add: own_sum_def)

lemma own_sum_append [simp]: "own_sum cm (rs @ qs) = own_sum cm rs + own_sum cm qs"
  by (simp add: own_sum_def)

lemma own_sum_cong: "(\<And>r. r \<in> set rs \<Longrightarrow> own_slice cm' r = own_slice cm r) \<Longrightarrow> own_sum cm' rs = own_sum cm rs"
  unfolding own_sum_def by (metis (mono_tags, lifting) map_eq_conv)

text \<open>Returning a list of whole pages.\<close>

lemma cm_free_same [simp]: "cm_page_size (cm_free xs cm) = cm_page_size cm" "cm_prefix (cm_free xs cm) = cm_prefix cm"
  "cm_page_table (cm_free xs cm) = cm_page_table cm" "cm_num_pages (cm_free xs cm) = cm_num_pages cm" "cm_linear_pool (cm_free xs cm) = cm_linear_pool cm"
  "cm_type (cm_free xs cm) = cm_type cm" "cm_swa_pool (cm_free xs cm) = cm_swa_pool cm"
  "(cm_lazy (cm_free xs cm) = None) = (cm_lazy cm = None)"
  by (simp_all add: cm_free_def split: option.split)

lemma frees_cm_free:
  "mset (frees (cm_free xs cm)) = mset (frees cm) + mset (stride (cm_page_size cm) xs)"
  by (simp add: cm_free_def frees_def split: option.split)

lemma mset_page_to_token: "mset xs = mset ys \<Longrightarrow> mset (page_to_token ps xs) = mset (page_to_token ps ys)"
proof -
  have "mset (page_to_token ps zs) = (\<Sum>p\<in>#mset zs. mset (map (\<lambda>o'. p + int o') [0..<ps]))" for zs
    by (induction zs) simp_all
  then show "mset xs = mset ys \<Longrightarrow> ?thesis" by simp
qed

lemma free_tokens:
  assumes "paged (cm_page_size cm) xs"
  shows "mset (page_to_token (cm_page_size cm) (frees (cm_free xs cm))) =
    mset (page_to_token (cm_page_size cm) (frees cm)) + mset xs"
proof -
  have "mset (frees (cm_free xs cm)) = mset (frees cm @ stride (cm_page_size cm) xs)" by (simp add: frees_cm_free)
  from mset_page_to_token[OF this] show ?thesis using paged_tokens[OF assms] by simp
qed

lemma aligned_cm_free: "aligned (cm_page_size cm) (frees cm) \<Longrightarrow> paged (cm_page_size cm) xs \<Longrightarrow> aligned (cm_page_size cm) (frees (cm_free xs cm))"
  using paged_aligned[of "cm_page_size cm" xs] by (auto simp: cm_free_def frees_def split: option.split)

lemma generic_free_swa [simp]: "generic cm \<Longrightarrow> cm_free_swa xs cm = Some cm"
  by (simp add: cm_free_swa_def generic_def)

lemma slice_take: "hi \<le> n \<Longrightarrow> slice lo hi (take n xs) = slice lo hi xs"
  by (simp add: slice_def drop_take min.absorb1)

lemma slice_prefix: "hi \<le> hi' \<Longrightarrow> slice lo hi xs = take (hi - lo) (slice lo hi' xs)"
  by (simp add: slice_def min.absorb1)

lemma slice_suffix: "lo \<le> lo' \<Longrightarrow> slice lo' hi xs = drop (lo' - lo) (slice lo hi xs)"
  by (simp add: slice_def drop_take)

lemma paged_subslice:
  assumes "paged ps (slice lo hi xs)" "lo \<le> lo'" "hi' \<le> hi" "ps dvd lo" "ps dvd lo'" "ps dvd hi'"
  shows "paged ps (slice lo' hi' xs)"
proof -
  have "paged ps (slice lo hi' xs)"
    unfolding slice_prefix[OF assms(3), of lo] using assms by (intro paged_take_drop(1)) (auto intro: dvd_diff_nat)
  then show ?thesis
    unfolding slice_suffix[OF assms(2), of hi'] using assms by (intro paged_take_drop(2)) (auto intro: dvd_diff_nat)
qed

section \<open>Commit: insert and unlock\<close>

lemma req_row_slice:
  "req_fits cm r \<Longrightarrow> row_slice cm (rq_table_idx r) lo hi = Some (slice lo hi (row_of cm r))"
  by (auto simp: row_slice_def req_fits_def tensor_index_def nat_less_iff)

text \<open>The shared half of \<open>cache_req\<close>: what the insert returns and what it leaves behind.\<close>

lemma commit_insert:
  assumes inv: "cm_inv cm (r # rs)" and len: "rq_cached_len r \<le> length (rq_input_ids r)"
  defines "ps \<equiv> cm_page_size cm" and "row \<equiv> row_of cm r" and "cl \<equiv> rq_cached_len r"
  shows "\<exists>c1 c2 m h' vs. pc_insert_prefix (take cl (rq_input_ids r)) (take cl row) (clk 0) (clk 1) (cm_prefix cm) = Some (c1, m, h') \<and>
    pc_unlock (rq_handle r) c1 = Some c2 \<and> pc_ok ps c2 (mset (map rq_handle rs)) \<and>
    pc_same (mset (map rq_handle rs)) (cm_prefix cm) c2 \<and> pc_live ps c2 h' \<and>
    pc_toks c2 h' = Some (take (h_cached_len h') (rq_input_ids r)) \<and> pc_idxs c2 h' = Some vs \<and>
    hl r \<le> m \<and> m \<le> h_cached_len h' \<and> h_cached_len h' \<le> cl \<and> ps dvd hl r \<and> ps dvd m \<and> ps dvd h_cached_len h' \<and>
    vs = take (hl r) row @ slice (hl r) m vs @ slice m (h_cached_len h') row \<and> length vs = h_cached_len h' \<and>
    pc_own c2 = pc_own (cm_prefix cm) + mset (slice m (h_cached_len h') row)"
proof -
  note fits = cm_fits[OF inv, of r, simplified]
  have ps: "0 < ps" using cm_ps[OF inv] by (simp add: ps_def)
  have cl: "cl \<le> page_ceil ps cl" "page_ceil ps cl \<le> length row" "hl r \<le> cl"
    using fits page_ceil_ge[OF ps, of cl] by (simp_all add: req_fits_def ps_def row_def cl_def)
  have ok: "pc_ok ps (cm_prefix cm) (mset (map rq_handle (r # rs)))" using cm_pc[OF inv] by (simp add: ps_def)
  have live: "pc_live ps (cm_prefix cm) (rq_handle r)" using pcx.held_live[OF ok] by simp
  then have dv: "ps dvd hl r" by (auto simp: handle_live_def)
  let ?ids = "take cl (rq_input_ids r)" and ?ind = "take cl row"
  have lens: "length ?ids = cl" "length ?ind = length ?ids" using len cl by (simp_all add: cl_def)
  have toks: "pc_toks (cm_prefix cm) (rq_handle r) = Some (take (hl r) ?ids)" using fits cl(3) by (simp add: req_fits_def min.absorb1)
  have "slice (hl r) (align_down (length ?ids) ps) ?ind = slice (hl r) (align_down cl ps) row"
    using lens(1) by (simp add: slice_take)
  moreover have pg0: "paged ps (slice (hl r) (page_ceil ps cl) row)"
    using fits by (simp add: req_fits_def own_slice_def ps_def row_def cl_def)
  moreover have "align_down cl ps \<le> page_ceil ps cl" by (rule order_trans[OF align_down_le cl(1)])
  moreover from paged_subslice[OF pg0 order_refl this dv dv align_down_dvd]
  have "paged ps (slice (hl r) (align_down cl ps) row)" .
  ultimately have pgs: "paged ps (slice (hl r) (align_down (length ?ids) ps) ?ind)" by simp
  have mem: "rq_handle r \<in># mset (map rq_handle (r # rs))" and "hl r \<le> length ?ids" using lens(1) cl(3) by simp_all
  from pcx.insert_unlock[OF ok mem toks this(2) lens(2) pgs, of "clk 0" "clk 1"]
  obtain c1 c2 m h' vs where i:
    "pc_insert_prefix ?ids ?ind (clk 0) (clk 1) (cm_prefix cm) = Some (c1, m, h')" "pc_unlock (rq_handle r) c1 = Some c2"
    "pc_ok ps c2 (mset (map rq_handle (r # rs)) - {#rq_handle r#})" "pc_same (mset (map rq_handle (r # rs))) (cm_prefix cm) c2"
    "pc_live ps c2 h'" "pc_toks c2 h' = Some (take (h_cached_len h') ?ids)" "pc_idxs c2 h' = Some vs"
    "hl r \<le> m" "m \<le> h_cached_len h'" "h_cached_len h' \<le> length ?ids" "ps dvd m" "ps dvd h_cached_len h'"
    "drop m vs = slice m (h_cached_len h') ?ind" "length vs = h_cached_len h'" "pc_idxs (cm_prefix cm) (rq_handle r) = Some (take (hl r) vs)"
    "pc_own c2 = pc_own (cm_prefix cm) + mset (slice m (h_cached_len h') ?ind)" by (elim exE conjE) (rule that, assumption+)
  have kcl: "h_cached_len h' \<le> cl" using i(10) lens(1) by simp
  have ind: "slice m (h_cached_len h') ?ind = slice m (h_cached_len h') row" using kcl by (rule slice_take)
  have old: "take (hl r) vs = take (hl r) row" using i(15) fits by (simp add: req_fits_def row_def)
  have "vs = take (hl r) vs @ slice (hl r) m vs @ drop m vs"
    using i(8) by (metis append_take_drop_id drop_drop le_add_diff_inverse2 slice_def)
  then have "vs = take (hl r) row @ slice (hl r) m vs @ slice m (h_cached_len h') row" using old i(13) ind by simp
  moreover have "pc_toks c2 h' = Some (take (h_cached_len h') (rq_input_ids r))" using i(6) kcl by (simp add: min.absorb1)
  moreover have "pc_same (mset (map rq_handle rs)) (cm_prefix cm) c2" by (rule same_handles_mono[OF i(4)]) simp
  ultimately show ?thesis
    using i(1-5,7-9,11-12,14) i(16) kcl dv ind by (intro exI[of _ c1] exI[of _ c2] exI[of _ m] exI[of _ h'] exI[of _ vs]) simp
qed

lemma fits_other:
  assumes "req_fits cm q" "pc_same K (cm_prefix cm) (cm_prefix cm')" "rq_handle q \<in># K"
    "cm_page_size cm' = cm_page_size cm" "length (cm_page_table cm') = length (cm_page_table cm)" "row_of cm' q = row_of cm q"
  shows "req_fits cm' q" "own_slice cm' q = own_slice cm q"
  using assms same_handlesD[OF assms(2,3)] by (simp_all add: req_fits_def own_slice_def)

lemma other_row:
  assumes inv: "cm_inv cm (r # rs)" and q: "q \<in> set rs"
  shows "nat (rq_table_idx q) \<noteq> nat (rq_table_idx r)"
proof -
  have "rq_table_idx r \<notin> rq_table_idx ` set rs" using cm_distinct[OF inv] by simp
  then have "rq_table_idx q \<noteq> rq_table_idx r" using q by (metis imageI)
  moreover have "0 \<le> rq_table_idx q" "0 \<le> rq_table_idx r"
    using cm_fits[OF inv, of q] cm_fits[OF inv, of r] q by (simp_all add: req_fits_def)
  ultimately show ?thesis by (simp add: eq_nat_nat_iff)
qed

lemma cache_req_generic_eq: "generic cm \<Longrightarrow> cache_req r fin clk cm = cache_req_generic r fin clk cm"
  by (simp add: cache_req_def generic_def)

text \<open>The books after the old lock is dropped and the duplicate slice goes back.\<close>

lemma commit_books:
  assumes inv: "cm_inv cm (r # rs)"
    and own: "pc_own c2 = pc_own (cm_prefix cm) + mset (slice m k (row_of cm r))"
    and ord: "hl r \<le> m" "m \<le> k" "k \<le> rq_cached_len r" and dv: "cm_page_size cm dvd hl r" "cm_page_size cm dvd m" "cm_page_size cm dvd k"
  defines "cm2 \<equiv> cm_free (slice (hl r) m (row_of cm r)) (cm\<lparr>cm_prefix := c2\<rparr>)"
  shows "balanced cm2 (mset (slice k (page_ceil (cm_page_size cm) (rq_cached_len r)) (row_of cm r)) + own_sum cm rs)"
    and "paged (cm_page_size cm) (slice k (page_ceil (cm_page_size cm) (rq_cached_len r)) (row_of cm r))"
proof -
  let ?ps = "cm_page_size cm" and ?row = "row_of cm r"
  let ?e = "page_ceil ?ps (rq_cached_len r)"
  note fits = cm_fits[OF inv, of r, simplified]
  have e: "rq_cached_len r \<le> ?e" by (rule page_ceil_ge[OF cm_ps[OF inv]])
  have pg: "paged ?ps (slice (hl r) ?e ?row)" using fits by (simp add: req_fits_def own_slice_def)
  have "paged ?ps (slice (hl r) m ?row)" using e ord dv by (intro paged_subslice[OF pg]) simp_all
  then have fr: "mset (page_to_token ?ps (frees cm2)) = mset (page_to_token ?ps (frees cm)) + mset (slice (hl r) m ?row)"
    using free_tokens[of "cm\<lparr>cm_prefix := c2\<rparr>" "slice (hl r) m ?row"] by (simp add: cm2_def frees_def)
  show "paged ?ps (slice k ?e ?row)" using e ord dv by (intro paged_subslice[OF pg]) simp_all
  have "aligned ?ps (frees cm)" using cm_books[OF inv] by (simp add: balanced_def)
  then have "aligned ?ps (frees (cm\<lparr>cm_prefix := c2\<rparr>))" by (simp add: frees_def)
  then have al: "aligned ?ps (frees cm2)"
    using aligned_cm_free[of "cm\<lparr>cm_prefix := c2\<rparr>" "slice (hl r) m ?row"] \<open>paged ?ps (slice (hl r) m ?row)\<close>
    by (simp add: cm2_def)
  have "slice (hl r) ?e ?row = slice (hl r) m ?row @ slice m k ?row @ slice k ?e ?row"
    using e ord by (simp add: slice_append)
  then have "mset (own_slice cm r) = mset (slice (hl r) m ?row) + mset (slice m k ?row) + mset (slice k ?e ?row)"
    by (simp add: own_slice_def)
  with cm_books[OF inv] fr own al show "balanced cm2 (mset (slice k ?e ?row) + own_sum cm rs)"
    by (simp add: balanced_def cm2_def ac_simps)
qed

lemma finish_ok:
  assumes inv: "cm_inv cm (r # rs)" and len: "rq_cached_len r \<le> length (rq_input_ids r)"
  shows "\<exists>cm'. cache_req r True clk cm = Some (cm', r) \<and> cm_inv cm' rs \<and> cm_page_table cm' = cm_page_table cm \<and>
    cm_page_size cm' = cm_page_size cm \<and> cm_num_pages cm' = cm_num_pages cm \<and> cm_linear_pool cm' = cm_linear_pool cm \<and> (cm_lazy cm' = None) = (cm_lazy cm = None)"
proof -
  let ?ps = "cm_page_size cm" and ?row = "row_of cm r" and ?K = "mset (map rq_handle rs)"
  note fits = cm_fits[OF inv, of r, simplified]
  from commit_insert[OF inv len, of clk] obtain c1 c2 m h' where i:
    "pc_insert_prefix (take (rq_cached_len r) (rq_input_ids r)) (take (rq_cached_len r) ?row) (clk 0) (clk 1) (cm_prefix cm) = Some (c1, m, h')"
    "pc_unlock (rq_handle r) c1 = Some c2" "pc_ok ?ps c2 ?K" "pc_same ?K (cm_prefix cm) c2"
    "hl r \<le> m" "m \<le> h_cached_len h'" "h_cached_len h' \<le> rq_cached_len r" "?ps dvd hl r" "?ps dvd m" "?ps dvd h_cached_len h'"
    "pc_own c2 = pc_own (cm_prefix cm) + mset (slice m (h_cached_len h') ?row)" by blast
  let ?e = "page_ceil ?ps (rq_cached_len r)" and ?k = "h_cached_len h'"
  define cm2 where "cm2 = cm_free (slice (hl r) m ?row) (cm\<lparr>cm_prefix := c2\<rparr>)"
  define cm3 where "cm3 = cm_free (slice ?k ?e ?row) cm2"
  note b = commit_books[OF inv i(11,5,6,7,8,9,10), folded cm2_def]
  have same: "cm_page_size cm2 = ?ps" "cm_prefix cm2 = c2" "cm_page_table cm2 = cm_page_table cm" "cm_num_pages cm2 = cm_num_pages cm" "cm_linear_pool cm2 = cm_linear_pool cm"
    "(cm_lazy cm2 = None) = (cm_lazy cm = None)"
    by (simp_all add: cm2_def)
  have gen2: "generic cm2" using cm_generic[OF inv] by (simp add: cm2_def generic_def is_swa_def is_hybrid_def)
  then have gen: "generic cm3" by (simp add: cm3_def generic_def is_swa_def is_hybrid_def)
  have slices: "row_slice cm (rq_table_idx r) 0 (rq_cached_len r) = Some (take (rq_cached_len r) ?row)"
    "row_slice cm2 (rq_table_idx r) ?k ?e = Some (slice ?k ?e ?row)"
    using req_row_slice[OF fits] fits same by (auto simp: slice_def row_slice_def req_fits_def tensor_index_def nat_less_iff)
  have dup: "slice (hl r) m (take (rq_cached_len r) ?row) = slice (hl r) m ?row" using i(6,7) by (simp add: slice_take)
  have gen1: "generic (cm\<lparr>cm_prefix := c2\<rparr>)" using cm_generic[OF inv] by (simp add: generic_def is_swa_def is_hybrid_def)
  have "cache_req r True clk cm = Some (cm3, r)"
    unfolding cache_req_generic_eq[OF cm_generic[OF inv]] cache_req_generic_def
    using slices i(1,2) gen1 gen2 same
    by (simp add: Let_def cm_unlock_def dup padded_tail_def page_ceil_def cm2_def[symmetric] cm3_def)
  moreover have "balanced cm3 (own_sum cm rs)"
    using b(1) free_tokens[of cm2 "slice ?k ?e ?row"] aligned_cm_free[of cm2 "slice ?k ?e ?row"] b(2) same by (simp add: balanced_def cm3_def ac_simps)
  moreover have fo: "req_fits cm3 q" "own_slice cm3 q = own_slice cm q" if "q \<in> set rs" for q
  proof -
    have "req_fits cm q" "rq_handle q \<in># ?K" "pc_same ?K (cm_prefix cm) (cm_prefix cm3)"
      using cm_fits[OF inv, of q] that i(4) same by (simp_all add: cm3_def)
    from fits_other[OF this(1,3,2)] show "req_fits cm3 q" "own_slice cm3 q = own_slice cm q"
      using same by (simp_all add: cm3_def)
  qed
  moreover from fo(2) have "own_sum cm3 rs = own_sum cm rs" by (rule own_sum_cong)
  ultimately show ?thesis
    using gen i(3) same cm_distinct[OF inv] by (intro exI[of _ cm3]) (auto simp: cm_inv_def cm3_def)
qed

section \<open>Commit of a running request\<close>

lemma slice_patch_after: "lo + length src \<le> a \<Longrightarrow> lo \<le> length row \<Longrightarrow> slice a b (patch lo src row) = slice a b row"
proof -
  assume a: "lo + length src \<le> a" "lo \<le> length row"
  have "drop a (patch lo src row) = drop (a - (lo + length src)) (drop (lo + length src) row)"
    using a by (simp add: patch_def)
  also have "\<dots> = drop a row" using a by simp
  finally show ?thesis by (simp add: slice_def)
qed

lemma length_patch [simp]: "lo + length src \<le> length row \<Longrightarrow> length (patch lo src row) = length row"
  by (simp add: patch_def)

lemma pc_matched:
  "pc_idxs c h = Some vs \<Longrightarrow> vs \<noteq> [] \<Longrightarrow> pc_matched_indices c h = Some vs"
proof (cases c; cases h)
  fix r x assume "pc_idxs c h = Some vs" "vs \<noteq> []" "c = PRadix r" "h = HRadix x"
  then show ?thesis by (auto simp: get_matched_indices_def indices_of_def py_assert_def)
qed auto

lemma commit_ok:
  assumes inv: "cm_inv cm (r # rs)" and len: "rq_cached_len r \<le> length (rq_input_ids r)"
  shows "\<exists>cm' r' h'. cache_req r False clk cm = Some (cm', r') \<and> r' = r\<lparr>rq_handle := h'\<rparr> \<and> cm_inv cm' (r' # rs) \<and>
    hl r \<le> hl r' \<and> cm_page_size cm' = cm_page_size cm \<and> cm_num_pages cm' = cm_num_pages cm \<and> cm_linear_pool cm' = cm_linear_pool cm \<and> (cm_lazy cm' = None) = (cm_lazy cm = None) \<and>
    (\<forall>j. j \<noteq> nat (rq_table_idx r) \<longrightarrow> cm_page_table cm' ! j = cm_page_table cm ! j)"
proof -
  let ?ps = "cm_page_size cm" and ?row = "row_of cm r" and ?K = "mset (map rq_handle rs)"
  note fits = cm_fits[OF inv, of r, simplified]
  from commit_insert[OF inv len, of clk] obtain c1 c2 m h' vs where i:
    "pc_insert_prefix (take (rq_cached_len r) (rq_input_ids r)) (take (rq_cached_len r) ?row) (clk 0) (clk 1) (cm_prefix cm) = Some (c1, m, h')"
    "pc_unlock (rq_handle r) c1 = Some c2" "pc_ok ?ps c2 ?K" "pc_same ?K (cm_prefix cm) c2" "pc_live ?ps c2 h'"
    "pc_toks c2 h' = Some (take (h_cached_len h') (rq_input_ids r))" "pc_idxs c2 h' = Some vs"
    "hl r \<le> m" "m \<le> h_cached_len h'" "h_cached_len h' \<le> rq_cached_len r" "?ps dvd hl r" "?ps dvd m" "?ps dvd h_cached_len h'"
    "vs = take (hl r) ?row @ slice (hl r) m vs @ slice m (h_cached_len h') ?row" "length vs = h_cached_len h'"
    "pc_own c2 = pc_own (cm_prefix cm) + mset (slice m (h_cached_len h') ?row)" by blast
  let ?e = "page_ceil ?ps (rq_cached_len r)" and ?k = "h_cached_len h'" and ?i = "nat (rq_table_idx r)"
  have e: "rq_cached_len r \<le> ?e" "?e \<le> length ?row" using fits page_ceil_ge[OF cm_ps[OF inv]] by (simp_all add: req_fits_def)
  have ti: "0 \<le> rq_table_idx r" "?i < length (cm_page_table cm)" using fits by (simp_all add: req_fits_def)
  define cm2 where "cm2 = cm_free (slice (hl r) m ?row) (cm\<lparr>cm_prefix := c2\<rparr>)"
  define src where "src = slice (hl r) m vs"
  define row' where "row' = patch (hl r) src ?row"
  define cm3 where "cm3 = cm2\<lparr>cm_page_table := (cm_page_table cm)[?i := row']\<rparr>"
  note b = commit_books[OF inv i(16,8,9,10,11,12,13), folded cm2_def]
  have same: "cm_page_size cm2 = ?ps" "cm_prefix cm2 = c2" "cm_page_table cm2 = cm_page_table cm" "cm_num_pages cm2 = cm_num_pages cm" "cm_linear_pool cm2 = cm_linear_pool cm"
    "(cm_lazy cm2 = None) = (cm_lazy cm = None)" by (simp_all add: cm2_def)
  have gen1: "generic (cm\<lparr>cm_prefix := c2\<rparr>)" using cm_generic[OF inv] by (simp add: generic_def is_swa_def is_hybrid_def)
  have lsrc: "length src = m - hl r" using i(8,9,15) by (simp add: src_def)
  have after: "slice a z row' = slice a z ?row" if "m \<le> a" for a z
    unfolding row'_def using that lsrc i(8,9,10) e by (intro slice_patch_after) simp_all
  have lrow: "length row' = length ?row" unfolding row'_def using lsrc i(8,9,10) e by simp
  have coherent: "take ?k row' = vs"
  proof -
    have "row' = take (hl r) ?row @ src @ drop m ?row" using lsrc i(8) by (simp add: row'_def patch_def)
    then have "take ?k row' = take (hl r) ?row @ src @ take (?k - m) (drop m ?row)"
      using lsrc i(8,9,10) e by (simp add: min.absorb1)
    with i(14) show ?thesis by (simp add: src_def slice_def)
  qed
  have copy: "repoint_row r m h' cm2 = Some cm3"
  proof (cases "m > hl r")
    case True
    then have "vs \<noteq> []" using i(9,15) by auto
    with pc_matched[OF i(7)] same have mi: "pc_matched_indices (cm_prefix cm2) h' = Some vs" by simp
    have "length (slice (hl r) m ?row) = length src" using lsrc i(8,9,10) e by simp
    moreover have "replicate (length src) (src ! 0) = src" if "length src = 1" using that by (cases src) auto
    ultimately have "row_copy (rq_table_idx r) (hl r) m src cm2 = Some cm3"
      using ti same by (auto simp: row_copy_def tensor_index_def nat_less_iff Let_def cm3_def row'_def)
    with True mi show ?thesis by (simp add: src_def repoint_row_def)
  next
    case False
    then have "row' = ?row" using lsrc by (simp add: row'_def patch_def)
    with False ti same show ?thesis by (simp add: cm3_def repoint_row_def)
  qed
  have "pc_live ?ps (cm_prefix cm3) h'" using i(5) same by (simp add: cm3_def)
  moreover have "pc_ok ?ps (cm_prefix cm3) ?K" using i(3) same by (simp add: cm3_def)
  ultimately obtain c4 where lk: "pc_lock h' (cm_prefix cm3) = Some (c4, h')" "pc_ok ?ps c4 (add_mset h' ?K)"
    "pc_same (add_mset h' ?K) (cm_prefix cm3) c4" "pc_own c4 = pc_own (cm_prefix cm3)"
    using pcx.lock_law by blast
  define cm4 where "cm4 = cm3\<lparr>cm_prefix := c4\<rparr>"
  define r' where "r' = r\<lparr>rq_handle := h'\<rparr>"
  have c3: "cm_prefix cm3 = c2" using same by (simp add: cm3_def)
  have slices: "row_slice cm (rq_table_idx r) 0 (rq_cached_len r) = Some (take (rq_cached_len r) ?row)"
    using req_row_slice[OF fits] by (simp add: slice_def)
  have dup: "slice (hl r) m (take (rq_cached_len r) ?row) = slice (hl r) m ?row" using i(9,10) by (simp add: slice_take)
  have run: "cache_req r False clk cm = Some (cm4, r')"
    unfolding cache_req_generic_eq[OF cm_generic[OF inv]] cache_req_generic_def
    using slices i(1,2) gen1 copy lk(1)
    by (simp add: Let_def cm_unlock_def dup cm2_def[symmetric] cm_lock_def cm4_def r'_def)
  have geo: "cm_page_size cm4 = ?ps" "cm_prefix cm4 = c4" "cm_page_table cm4 = (cm_page_table cm)[?i := row']"
    "cm_num_pages cm4 = cm_num_pages cm" "cm_linear_pool cm4 = cm_linear_pool cm" "(cm_lazy cm4 = None) = (cm_lazy cm = None)"
    using same by (simp_all add: cm4_def cm3_def)
  have gen4: "generic cm4" using gen1 by (simp add: cm4_def cm3_def cm2_def generic_def is_swa_def is_hybrid_def)
  have ownr: "own_slice cm4 r' = slice ?k ?e ?row"
    using after[OF i(9)] ti geo by (simp add: own_slice_def r'_def)
  have fr': "req_fits cm4 r'"
    unfolding req_fits_def using ti geo ownr b(2) lrow e i(6,7,10) coherent same_handlesD[OF lk(3), of h'] c3
    by (simp add: r'_def)
  have others: "req_fits cm4 q" "own_slice cm4 q = own_slice cm q" if q: "q \<in> set rs" for q
  proof -
    have ne: "nat (rq_table_idx q) \<noteq> ?i" by (rule other_row[OF inv q])
    have "pc_same ?K (cm_prefix cm) (cm_prefix cm4)"
      using same_handles_trans[OF i(4) same_handles_mono[OF lk(3)[unfolded c3], of ?K]] geo by simp
    moreover have "req_fits cm q" "rq_handle q \<in># ?K" using cm_fits[OF inv, of q] q by simp_all
    ultimately show "req_fits cm4 q" "own_slice cm4 q = own_slice cm q"
      using fits_other[of cm q ?K cm4] geo ne by simp_all
  qed
  from others(2) have "own_sum cm4 rs = own_sum cm rs" by (rule own_sum_cong)
  moreover have "frees cm4 = frees cm2" by (simp add: frees_def cm4_def cm3_def)
  ultimately have "balanced cm4 (own_sum cm4 (r' # rs))"
    using b(1) ownr geo lk(4) c3 same by (simp add: balanced_def)
  then have "cm_inv cm4 (r' # rs)"
    using gen4 lk(2) geo fr' others(1) cm_distinct[OF inv] by (simp add: cm_inv_def r'_def)
  moreover have "hl r \<le> hl r'" using i(8,9) by (simp add: r'_def)
  ultimately show ?thesis using run geo by (intro exI[of _ cm4] exI[of _ r'] exI[of _ h']) (simp add: r'_def)
qed

section \<open>Integrity at idle\<close>

lemma length_all_pages [simp]: "length (all_pages n ps) = n"
  by (simp add: all_pages_def)

lemma idle_integrity:
  assumes inv: "cm_inv cm []" and lz: "cm_lazy cm = None"
  shows "cm_check_integrity cm = Some ()"
proof -
  let ?ps = "cm_page_size cm" and ?f = "cm_free_slots cm"
  note ps = cm_ps[OF inv] and ok = cm_pc[OF inv]
  have f: "frees cm = ?f" using lz by (simp add: frees_def)
  have "size (mset (page_to_token ?ps ?f) + pc_own (cm_prefix cm)) = size (mset (page_to_token ?ps (all_pages (cm_num_pages cm) ?ps)))"
    using cm_books[OF inv] f by (simp add: balanced_def)
  then have "length ?f * ?ps + size (pc_own (cm_prefix cm)) = cm_num_pages cm * ?ps" by simp
  then have own: "int (size (pc_own (cm_prefix cm))) = (int (cm_num_pages cm) - int (length ?f)) * int ?ps"
    by (simp add: algebra_simps flip: of_nat_mult of_nat_add)
  have "pc_total (cm_prefix cm) = int (size (pc_own (cm_prefix cm)))" using pcx.sizes[OF ok] by blast
  then have tot: "total_size (pc_size_info (cm_prefix cm)) div int ?ps = int (cm_num_pages cm) - int (length ?f)"
    using own ps by (simp add: pc_total_def)
  have al: "list_all (\<lambda>s. s mod int ?ps = 0) ?f" using cm_books[OF inv] f by (simp add: balanced_def aligned_def list_all_iff)
  have "(\<exists>c. cm_prefix cm = PRadix c) \<or> cm_prefix cm = PNaive" using ok by (cases "cm_prefix cm") auto
  with tot al show ?thesis by (auto simp: cm_check_integrity_def py_assert_def)
qed

section \<open>Allocating pages\<close>

lemma evict_pages_generic: "generic cm \<Longrightarrow> pc_ok ps (cm_prefix cm) K \<Longrightarrow>
    evict_pages n cm = map_option (\<lambda>(pc, ev). (cm\<lparr>cm_prefix := pc\<rparr>, ev)) (pc_evict n (cm_prefix cm))"
  by (cases "cm_prefix cm") (auto simp: evict_pages_def naive_evict_def map_option_case split: option.splits Option.bind_splits)

text \<open>What \<open>_allocate\<close> returns: the pages leave the free list and nothing else moves.\<close>

definition allocated_from :: "cache_manager \<Rightarrow> cache_handle multiset \<Rightarrow> int multiset \<Rightarrow> int list \<Rightarrow> cache_manager \<Rightarrow> bool" where
  "allocated_from cm K held pages cm' \<longleftrightarrow> generic cm' \<and> cm_page_size cm' = cm_page_size cm \<and>
     cm_page_table cm' = cm_page_table cm \<and> cm_num_pages cm' = cm_num_pages cm \<and> cm_linear_pool cm' = cm_linear_pool cm \<and> cm_lazy cm' = None \<and>
     pc_ok (cm_page_size cm) (cm_prefix cm') K \<and> pc_same K (cm_prefix cm) (cm_prefix cm') \<and> aligned (cm_page_size cm) pages \<and>
     balanced cm' (held + mset (page_to_token (cm_page_size cm) pages))"

lemma take_free_ok:
  assumes "generic cm" "cm_lazy cm = None" "pc_ok (cm_page_size cm) (cm_prefix cm) K" "balanced cm held"
  shows "allocated_from cm K held (take n (cm_free_slots cm)) (cm\<lparr>cm_free_slots := drop n (cm_free_slots cm)\<rparr>)"
proof -
  let ?ps = "cm_page_size cm" and ?f = "cm_free_slots cm"
  have "page_to_token ?ps ?f = page_to_token ?ps (take n ?f) @ page_to_token ?ps (drop n ?f)"
    unfolding page_to_token_append[symmetric] by simp
  then have "mset (page_to_token ?ps ?f) = mset (page_to_token ?ps (drop n ?f)) + mset (page_to_token ?ps (take n ?f))"
    by simp
  moreover have "frees cm = ?f" "frees (cm\<lparr>cm_free_slots := drop n ?f\<rparr>) = drop n ?f" using assms(2) by (simp_all add: frees_def)
  ultimately show ?thesis
    using assms by (auto simp: allocated_from_def balanced_def generic_def is_swa_def is_hybrid_def same_handles_def
        aligned_take_drop ac_simps)
qed

lemma allocated_from_trans:
  assumes "pc_same K (cm_prefix cm) (cm_prefix cm1)" "cm_page_size cm1 = cm_page_size cm" "cm_page_table cm1 = cm_page_table cm"
    "cm_num_pages cm1 = cm_num_pages cm \<and> cm_linear_pool cm1 = cm_linear_pool cm" "allocated_from cm1 K held pages cm'"
  shows "allocated_from cm K held pages cm'"
  using assms same_handles_trans[OF assms(1)] by (simp add: allocated_from_def)

lemma cm_allocate_ok:
  assumes gen: "generic cm" and lz: "cm_lazy cm = None" and ok: "pc_ok (cm_page_size cm) (cm_prefix cm) K" and bal: "balanced cm held"
  shows "if int (n * cm_page_size cm) \<le> available_size cm
    then \<exists>cm' pages. cm_allocate n cm = Some (cm', pages) \<and> length pages = n \<and> allocated_from cm K held pages cm'
    else cm_allocate n cm = None"
proof -
  let ?ps = "cm_page_size cm" and ?f = "cm_free_slots cm"
  have ps: "0 < ?ps" and ev0: "0 \<le> pc_evictable (cm_prefix cm)" using pcx.sizes[OF ok] by simp_all
  have av: "available_size cm = pc_evictable (cm_prefix cm) + int (length ?f * ?ps)"
    by (simp add: available_size_def evictable_size_def pc_evictable_def)
  show ?thesis
  proof (cases "length ?f < n")
    case False
    then have "n * ?ps \<le> length ?f * ?ps" by simp
    then have "int (n * ?ps) \<le> available_size cm" unfolding av using ev0 by linarith
    moreover have "cm_allocate n cm = Some (cm\<lparr>cm_free_slots := drop n ?f\<rparr>, take n ?f)"
      using False by (simp add: cm_allocate_def)
    ultimately show ?thesis using False take_free_ok[OF gen lz ok bal, of n] by auto
  next
    case True
    let ?need = "int ((n - length ?f) * ?ps)"
    have need: "0 < ?need" using True ps by simp
    have nn: "?need = int (n * ?ps) - int (length ?f * ?ps)" using True by (simp add: of_nat_diff algebra_simps)
    show ?thesis
    proof (cases "?need \<le> pc_evictable (cm_prefix cm)")
      case enough: True
      from pcx.evict_law[OF ok need enough] obtain c1 vs where e: "pc_evict ?need (cm_prefix cm) = Some (c1, vs)" "pc_ok ?ps c1 K"
        "pc_same K (cm_prefix cm) c1" "pc_own (cm_prefix cm) = pc_own c1 + mset vs" "paged ?ps vs" "?need \<le> int (length vs)" by blast
      define cm1 where "cm1 = cm\<lparr>cm_prefix := c1, cm_free_slots := ?f @ stride ?ps vs\<rparr>"
      have geo: "cm_page_size cm1 = ?ps" "cm_page_table cm1 = cm_page_table cm" "cm_num_pages cm1 = cm_num_pages cm \<and> cm_linear_pool cm1 = cm_linear_pool cm"
        "cm_prefix cm1 = c1" "cm_free_slots cm1 = ?f @ stride ?ps vs" "cm_lazy cm1 = None"
        using lz by (simp_all add: cm1_def)
      have "(n - length ?f) * ?ps \<le> length (stride ?ps vs) * ?ps" unfolding length_stride[OF ps e(5)] using e(6) by (simp only: of_nat_le_iff)
      then have "n - length ?f \<le> length (stride ?ps vs)" using ps by simp
      then have enough': "n \<le> length (cm_free_slots cm1)" using geo by simp
      have f1: "frees cm1 = ?f @ stride ?ps vs" "frees cm = ?f" using lz by (simp_all add: frees_def cm1_def)
      have "balanced cm1 held"
        using bal e(4) paged_tokens[OF e(5)] paged_aligned[OF e(5)] geo f1 by (simp add: balanced_def ac_simps)
      moreover have "generic cm1" using gen by (simp add: cm1_def generic_def is_swa_def is_hybrid_def)
      ultimately have "allocated_from cm1 K held (take n (cm_free_slots cm1)) (cm1\<lparr>cm_free_slots := drop n (cm_free_slots cm1)\<rparr>)"
        using take_free_ok[of cm1 K held n] e(2) geo by simp
      from allocated_from_trans[OF _ geo(1-3) this] e(3) geo(4)
      have "allocated_from cm K held (take n (cm_free_slots cm1)) (cm1\<lparr>cm_free_slots := drop n (cm_free_slots cm1)\<rparr>)" by simp
      moreover have "evict_pages ?need cm = Some (cm\<lparr>cm_prefix := c1\<rparr>, vs)"
        unfolding evict_pages_generic[OF gen ok] e(1) by simp
      then have "cm_allocate n cm = Some (cm1\<lparr>cm_free_slots := drop n (cm_free_slots cm1)\<rparr>, take n (cm_free_slots cm1))"
        unfolding cm_allocate_def using True enough' by (simp add: Let_def py_assert_def cm1_def)
      ultimately show ?thesis using enough enough' nn av by auto
    next
      case False
      then have "evict_pages ?need cm = None"
        unfolding evict_pages_generic[OF gen ok] using pcx.evict_fail[OF ok, of ?need] by simp
      with True have "cm_allocate n cm = None" by (simp add: cm_allocate_def)
      with False nn av show ?thesis by simp
    qed
  qed
qed

section \<open>Writing the page table\<close>

lemma write_cells_append:
  "length xs = length us \<Longrightarrow> write_cells (xs @ ys) (us @ vs) pt = Option.bind (write_cells xs us pt) (write_cells ys vs)"
proof (induction xs us arbitrary: pt rule: list_induct2)
  case (Cons x xs u us)
  obtain ti pos where x: "x = (ti, pos)" by (cases x)
  show ?case unfolding x using Cons by (cases "write_cell ti pos u pt") simp_all
qed simp

lemma patch_Nil [simp]: "patch a [] row = row"
  by (simp add: patch_def)

lemma patch_step:
  assumes "a < length row"
  shows "patch (Suc a) vs (row[a := v]) = patch a (v # vs) row"
proof -
  have "take (Suc a) (row[a := v]) = take a row @ [v]" using assms by (simp add: take_Suc_conv_app_nth)
  moreover have "drop (Suc a + length vs) (row[a := v]) = drop (Suc a + length vs) row" by (rule drop_update_cancel) simp
  ultimately show ?thesis by (simp add: patch_def)
qed

lemma write_cells_row:
  assumes "0 \<le> ti" "nat ti < length pt"
  shows "a + length vs \<le> length (pt ! nat ti) \<Longrightarrow>
    write_cells (map (Pair ti) [a..<a + length vs]) vs pt = Some (pt[nat ti := patch a vs (pt ! nat ti)])"
  using assms(2)
proof (induction vs arbitrary: a pt)
  case (Cons v vs)
  let ?row = "pt ! nat ti" and ?pt = "pt[nat ti := (pt ! nat ti)[a := v]]"
  have w: "write_cell ti a v pt = Some ?pt"
    using Cons.prems assms(1) by (auto simp: write_cell_def tensor_index_def nat_less_iff)
  have "Suc a + length vs \<le> length (?pt ! nat ti)" "nat ti < length ?pt" using Cons.prems by simp_all
  from Cons.IH[OF this] have "write_cells (map (Pair ti) [Suc a..<Suc a + length vs]) vs ?pt =
      Some (pt[nat ti := patch (Suc a) vs (?row[a := v])])" using Cons.prems(2) by simp
  moreover have "[a..<a + length (v # vs)] = a # [Suc a..<Suc a + length vs]" using upt_conv_Cons[of a "a + length (v # vs)"] by simp
  ultimately show ?case using w Cons.prems patch_step[of a ?row vs v] by simp
qed simp

text \<open>The span of a request, \<open>[page_ceil cached, page_ceil device)\<close>, and the row after it is filled.\<close>

definition fresh_span :: "nat \<Rightarrow> int list list \<Rightarrow> req \<Rightarrow> int list" where
  "fresh_span ps pt r = slice (page_ceil ps (rq_cached_len r)) (page_ceil ps (rq_device_len r)) (pt ! nat (rq_table_idx r))"

definition span_fits :: "nat \<Rightarrow> int list list \<Rightarrow> req \<Rightarrow> bool" where
  "span_fits ps pt r \<longleftrightarrow> 0 \<le> rq_table_idx r \<and> nat (rq_table_idx r) < length pt \<and> rq_cached_len r \<le> rq_device_len r \<and>
     page_ceil ps (rq_device_len r) \<le> length (pt ! nat (rq_table_idx r))"

lemma write_spans:
  assumes "0 < ps" "\<forall>r\<in>set reqs. span_fits ps pt r" "distinct (map rq_table_idx reqs)"
    "length vs = needed_pages ps reqs * ps" "paged ps vs"
  shows "\<exists>pt'. write_cells (info_cells ps (allocation_info ps reqs)) vs pt = Some pt' \<and> length pt' = length pt \<and>
    length (info_cells ps (allocation_info ps reqs)) = length vs \<and>
    (\<forall>j. (\<forall>r\<in>set reqs. nat (rq_table_idx r) \<noteq> j) \<longrightarrow> pt' ! j = pt ! j) \<and>
    (\<forall>r\<in>set reqs. length (pt' ! nat (rq_table_idx r)) = length (pt ! nat (rq_table_idx r)) \<and>
       take (page_ceil ps (rq_cached_len r)) (pt' ! nat (rq_table_idx r)) = take (page_ceil ps (rq_cached_len r)) (pt ! nat (rq_table_idx r)) \<and>
       paged ps (fresh_span ps pt' r)) \<and>
    sum_list (map (\<lambda>r. mset (fresh_span ps pt' r)) reqs) = mset vs"
  using assms(2-5)
proof (induction reqs arbitrary: vs pt)
  case Nil
  then show ?case by (simp add: needed_pages_def allocation_info_def info_cells_def)
next
  case (Cons r reqs)
  let ?ti = "rq_table_idx r" and ?a = "page_ceil ps (rq_cached_len r)" and ?z = "page_ceil ps (rq_device_len r)"
  let ?f = "div_ceil (rq_cached_len r) ps" and ?l = "div_ceil (rq_device_len r) ps" and ?i = "nat (rq_table_idx r)"
  have sf: "0 \<le> ?ti" "?i < length pt" "rq_cached_len r \<le> rq_device_len r" "?z \<le> length (pt ! ?i)"
    using Cons.prems(1) by (simp_all add: span_fits_def)
  have fl: "?f \<le> ?l" "?a \<le> ?z" using sf(3) by (simp_all add: div_ceil_mono page_ceil_mono)
  have az: "?a = ?f * ps" "?z = ?l * ps" by (simp_all add: page_ceil_def)
  have need: "needed_pages ps (r # reqs) = (?l - ?f) + needed_pages ps reqs"
    using fl by (simp add: needed_pages_def allocation_info_def alloc_span_def)
  have cells: "info_cells ps (allocation_info ps (r # reqs)) = map (Pair ?ti) [?a..<?z] @ info_cells ps (allocation_info ps reqs)"
    using fl by (auto simp: info_cells_def allocation_info_def alloc_span_def az)
  let ?u = "take (?z - ?a) vs" and ?w = "drop (?z - ?a) vs"
  have zl: "?z - ?a = (?l - ?f) * ps" by (simp add: az diff_mult_distrib)
  have lv: "length vs = (?z - ?a) + needed_pages ps reqs * ps" using Cons.prems(3) need zl by (simp add: algebra_simps)
  have lu: "length ?u = ?z - ?a" "length ?w = needed_pages ps reqs * ps" using lv by simp_all
  have pgw: "paged ps ?u" "paged ps ?w" using Cons.prems(4) zl by (simp_all add: paged_take_drop)
  define row where "row = patch ?a ?u (pt ! ?i)"
  define pt1 where "pt1 = pt[?i := row]"
  have lrow: "length row = length (pt ! ?i)" unfolding row_def using lu fl sf by simp
  have "?a + length ?u \<le> length (pt ! ?i)" using lu fl sf by simp
  from write_cells_row[OF sf(1,2) this] lu fl have w1: "write_cells (map (Pair ?ti) [?a..<?z]) ?u pt = Some pt1"
    by (simp add: pt1_def row_def)
  have other: "nat (rq_table_idx q) \<noteq> ?i" if "q \<in> set reqs" for q
  proof -
    have "rq_table_idx q \<noteq> ?ti" using Cons.prems(2) that by (metis distinct.simps(2) image_eqI list.set_map list.simps(9))
    moreover have "0 \<le> rq_table_idx q" using Cons.prems(1) that by (simp add: span_fits_def)
    ultimately show ?thesis using sf(1) by (simp add: eq_nat_nat_iff)
  qed
  have p1: "pt1 ! nat (rq_table_idx q) = pt ! nat (rq_table_idx q)" if "q \<in> set reqs" for q
    using other[OF that, symmetric] by (simp add: pt1_def)
  have "\<forall>q\<in>set reqs. span_fits ps pt1 q"
    using Cons.prems(1) p1 by (simp add: span_fits_def) (simp add: pt1_def)
  moreover have "distinct (map rq_table_idx reqs)" using Cons.prems(2) by simp
  ultimately obtain pt' where IH: "write_cells (info_cells ps (allocation_info ps reqs)) ?w pt1 = Some pt'" "length pt' = length pt1"
    "length (info_cells ps (allocation_info ps reqs)) = length ?w"
    "\<forall>j. (\<forall>r\<in>set reqs. nat (rq_table_idx r) \<noteq> j) \<longrightarrow> pt' ! j = pt1 ! j"
    "\<forall>r\<in>set reqs. length (pt' ! nat (rq_table_idx r)) = length (pt1 ! nat (rq_table_idx r)) \<and>
       take (page_ceil ps (rq_cached_len r)) (pt' ! nat (rq_table_idx r)) = take (page_ceil ps (rq_cached_len r)) (pt1 ! nat (rq_table_idx r)) \<and>
       paged ps (fresh_span ps pt' r)"
    "sum_list (map (\<lambda>r. mset (fresh_span ps pt' r)) reqs) = mset ?w"
    using Cons.IH[of pt1 ?w] lu(2) pgw(2) by blast
  have ri: "pt' ! ?i = row" using IH(4) other sf(2) by (simp add: pt1_def)
  have span: "fresh_span ps pt' r = ?u"
    using ri lu fl sf by (simp add: fresh_span_def row_def patch_def slice_def)
  have tk: "take ?a row = take ?a (pt ! ?i)" using fl sf by (simp add: row_def patch_def)
  have "write_cells (info_cells ps (allocation_info ps (r # reqs))) vs pt = Some pt'"
    unfolding cells using write_cells_append[of "map (Pair ?ti) [?a..<?z]" ?u _ ?w pt] lu(1) w1 IH(1) by simp
  moreover have "length (info_cells ps (allocation_info ps (r # reqs))) = length vs"
    unfolding cells using IH(3) lu lv by simp
  moreover have "\<forall>j. (\<forall>q\<in>set (r # reqs). nat (rq_table_idx q) \<noteq> j) \<longrightarrow> pt' ! j = pt ! j"
    using IH(4) by (simp add: pt1_def)
  moreover have "sum_list (map (\<lambda>r. mset (fresh_span ps pt' r)) (r # reqs)) = mset vs"
    using IH(6) span by (simp flip: mset_append)
  moreover have "\<forall>q\<in>set (r # reqs). length (pt' ! nat (rq_table_idx q)) = length (pt ! nat (rq_table_idx q)) \<and>
       take (page_ceil ps (rq_cached_len q)) (pt' ! nat (rq_table_idx q)) = take (page_ceil ps (rq_cached_len q)) (pt ! nat (rq_table_idx q)) \<and>
       paged ps (fresh_span ps pt' q)"
    using IH(5) p1 ri lrow tk span pgw(1) by simp
  ultimately show ?case using IH(2) by (intro exI[of _ pt']) (simp add: pt1_def)
qed

lemma slice_take_eq: "take n xs = take n ys \<Longrightarrow> hi \<le> n \<Longrightarrow> slice lo hi xs = slice lo hi ys"
  by (metis slice_take)

lemma complete_fields [simp]: "rq_handle (complete_one r) = rq_handle r" "rq_table_idx (complete_one r) = rq_table_idx r"
  "rq_cached_len (complete_one r) = rq_device_len r" "rq_input_ids (complete_one r) = rq_input_ids r"
  by (simp_all add: complete_one_def)

lemma filled_inv:
  assumes inv: "cm_inv cm (reqs @ rs)" and al: "allocated_from cm (mset (map rq_handle (reqs @ rs))) (own_sum cm (reqs @ rs)) pages cm1"
    and sf: "\<forall>r\<in>set reqs. span_fits (cm_page_size cm) (cm_page_table cm) r" and len: "length pages = needed_pages (cm_page_size cm) reqs"
  shows "\<exists>pt'. write_page_table (page_to_token (cm_page_size cm) pages) (allocation_info (cm_page_size cm) reqs) cm1 =
      Some (cm1\<lparr>cm_page_table := pt'\<rparr>) \<and> cm_inv (cm1\<lparr>cm_page_table := pt'\<rparr>) (map complete_one reqs @ rs) \<and>
      (needed_pages (cm_page_size cm) reqs = 0 \<longrightarrow> pt' = cm_page_table cm1)"
proof -
  let ?ps = "cm_page_size cm" and ?pt = "cm_page_table cm" and ?K = "mset (map rq_handle (reqs @ rs))"
  let ?vs = "page_to_token ?ps pages"
  note ps = cm_ps[OF inv]
  have geo: "cm_page_size cm1 = ?ps" "cm_page_table cm1 = ?pt" "aligned ?ps pages" "pc_ok ?ps (cm_prefix cm1) ?K"
    "pc_same ?K (cm_prefix cm) (cm_prefix cm1)" "generic cm1"
    and bal: "balanced cm1 (own_sum cm (reqs @ rs) + mset ?vs)" using al by (simp_all add: allocated_from_def)
  have dist: "distinct (map rq_table_idx reqs)" using cm_distinct[OF inv] by simp
  have lv: "length ?vs = needed_pages ?ps reqs * ?ps" using len by simp
  from write_spans[OF ps sf dist lv pagedI[OF ps geo(3)]] obtain pt' where
    w: "write_cells (info_cells ?ps (allocation_info ?ps reqs)) ?vs ?pt = Some pt'" "length pt' = length ?pt"
    "length (info_cells ?ps (allocation_info ?ps reqs)) = length ?vs"
    "\<forall>j. (\<forall>r\<in>set reqs. nat (rq_table_idx r) \<noteq> j) \<longrightarrow> pt' ! j = ?pt ! j"
    and rows: "\<forall>r\<in>set reqs. length (pt' ! nat (rq_table_idx r)) = length (?pt ! nat (rq_table_idx r)) \<and>
       take (page_ceil ?ps (rq_cached_len r)) (pt' ! nat (rq_table_idx r)) = take (page_ceil ?ps (rq_cached_len r)) (?pt ! nat (rq_table_idx r)) \<and>
       paged ?ps (fresh_span ?ps pt' r)"
    and sum: "sum_list (map (\<lambda>r. mset (fresh_span ?ps pt' r)) reqs) = mset ?vs" by blast
  define cm2 where "cm2 = cm1\<lparr>cm_page_table := pt'\<rparr>"
  have run: "write_page_table ?vs (allocation_info ?ps reqs) cm1 = Some cm2"
    using w(1,3) geo by (simp add: write_page_table_def Let_def py_assert_def cm2_def)
  have c2: "cm_page_size cm2 = ?ps" "cm_page_table cm2 = pt'" "cm_prefix cm2 = cm_prefix cm1" "frees cm2 = frees cm1"
    "cm_num_pages cm2 = cm_num_pages cm1" "generic cm2"
    using geo by (simp_all add: cm2_def frees_def generic_def is_swa_def is_hybrid_def)
  have grown: "own_slice cm2 (complete_one r) = own_slice cm r @ fresh_span ?ps pt' r" "req_fits cm2 (complete_one r)"
    if r: "r \<in> set reqs" for r
  proof -
    let ?row = "?pt ! nat (rq_table_idx r)" and ?row' = "pt' ! nat (rq_table_idx r)"
    let ?a = "page_ceil ?ps (rq_cached_len r)" and ?z = "page_ceil ?ps (rq_device_len r)"
    have f: "req_fits cm r" using cm_fits[OF inv, of r] r by simp
    have s: "rq_cached_len r \<le> rq_device_len r" "?z \<le> length ?row" using sf r by (auto simp: span_fits_def)
    have rw: "length ?row' = length ?row" "take ?a ?row' = take ?a ?row" "paged ?ps (fresh_span ?ps pt' r)" using rows r by auto
    have ca: "rq_cached_len r \<le> ?a" "?a \<le> ?z" using page_ceil_ge[OF ps] s(1) by (auto intro: page_ceil_mono)
    have h: "hl r \<le> rq_cached_len r" using f by (simp add: req_fits_def)
    have "slice (hl r) ?a ?row' = slice (hl r) ?a ?row" by (rule slice_take_eq[OF rw(2) order_refl])
    then show own: "own_slice cm2 (complete_one r) = own_slice cm r @ fresh_span ?ps pt' r"
      using slice_append[of "hl r" ?a ?z ?row', symmetric] h ca c2 by (simp add: own_slice_def fresh_span_def)
    have pg: "paged ?ps (own_slice cm2 (complete_one r))"
      unfolding own using f rw(3) by (intro paged_append[OF ps]) (simp_all add: req_fits_def)
    have hd: "rq_handle r \<in># ?K" using r by simp
    have tk: "take (hl r) ?row' = take (hl r) ?row"
    proof -
      have "hl r \<le> ?a" using h ca(1) by (rule order_trans)
      moreover have "take (hl r) (take ?a ?row') = take (hl r) (take ?a ?row)" by (simp only: rw(2))
      ultimately show ?thesis by (simp add: min.absorb1)
    qed
    have zl: "hl r \<le> rq_device_len r" using h s(1) by simp
    show "req_fits cm2 (complete_one r)"
      using f pg same_handlesD[OF geo(5) hd] c2 w(2) zl s(2) rw(1) tk by (simp add: req_fits_def)
  qed
  have others: "req_fits cm2 q" "own_slice cm2 q = own_slice cm q" if q: "q \<in> set rs" for q
  proof -
    have "nat (rq_table_idx r) \<noteq> nat (rq_table_idx q)" if r: "r \<in> set reqs" for r
    proof -
      have "rq_table_idx r \<noteq> rq_table_idx q" using cm_distinct[OF inv] q r by (auto simp: disjoint_iff)
      moreover have "0 \<le> rq_table_idx r" "0 \<le> rq_table_idx q"
        using cm_fits[OF inv, of r] cm_fits[OF inv, of q] q r by (simp_all add: req_fits_def)
      ultimately show ?thesis by (simp add: eq_nat_nat_iff)
    qed
    then have "row_of cm2 q = row_of cm q" using w(4) c2 by simp
    moreover have "req_fits cm q" "rq_handle q \<in># ?K" using cm_fits[OF inv, of q] q by simp_all
    ultimately show "req_fits cm2 q" "own_slice cm2 q = own_slice cm q"
      using fits_other[of cm q ?K cm2] geo(5) c2 w(2) by simp_all
  qed
  have "own_sum cm2 (map complete_one reqs) = own_sum cm reqs + mset ?vs"
    unfolding sum[symmetric] own_sum_def using grown(1) by (induction reqs) (simp_all add: ac_simps)
  moreover have "own_sum cm2 rs = own_sum cm rs" by (rule own_sum_cong) (rule others(2))
  ultimately have bal2: "balanced cm2 (own_sum cm2 (map complete_one reqs @ rs))"
    using bal c2 geo(1) by (simp add: balanced_def ac_simps)
  have maps: "map rq_handle (map complete_one reqs @ rs) = map rq_handle (reqs @ rs)"
    "map rq_table_idx (map complete_one reqs @ rs) = map rq_table_idx (reqs @ rs)" by (simp_all add: comp_def)
  have fit2: "\<forall>r\<in>set (map complete_one reqs @ rs). req_fits cm2 r" using grown(2) others(1) by auto
  have "pc_ok (cm_page_size cm2) (cm_prefix cm2) ?K" using geo(4) c2 by simp
  then have "cm_inv cm2 (map complete_one reqs @ rs)"
    unfolding cm_inv_def maps using c2(6) bal2 fit2 cm_distinct[OF inv] by blast
  moreover have "pt' = ?pt" if "needed_pages ?ps reqs = 0"
  proof -
    have "info_cells ?ps (allocation_info ?ps reqs) = []" using w(3)[unfolded lv that] by simp
    with w(1) show ?thesis by simp
  qed
  ultimately show ?thesis using run geo(2) by (intro exI[of _ pt']) (simp add: cm2_def)
qed

lemma allocate_ok:
  assumes inv: "cm_inv cm (reqs @ rs)" and lz: "cm_lazy cm = None"
    and sf: "\<forall>r\<in>set reqs. span_fits (cm_page_size cm) (cm_page_table cm) r"
  shows "if int (needed_pages (cm_page_size cm) reqs * cm_page_size cm) \<le> available_size cm
    then \<exists>cm'. allocate_paged reqs cm = Some cm' \<and> cm_inv cm' (map complete_one reqs @ rs) \<and> cm_lazy cm' = None \<and>
      cm_page_size cm' = cm_page_size cm \<and> cm_num_pages cm' = cm_num_pages cm \<and> cm_linear_pool cm' = cm_linear_pool cm
    else allocate_paged reqs cm = None"
proof -
  let ?ps = "cm_page_size cm" and ?K = "mset (map rq_handle (reqs @ rs))" and ?n = "needed_pages (cm_page_size cm) reqs"
  note gen = cm_generic[OF inv]
  note a = cm_allocate_ok[OF gen lz cm_pc[OF inv] cm_books[OF inv], of ?n]
  have pool: "cm_swa_pool cm = None" using gen by (simp add: generic_def)
  show ?thesis
  proof (cases "int (?n * ?ps) \<le> available_size cm")
    case True
    from a[unfolded if_P[OF True]] obtain cm1 pages where c: "cm_allocate ?n cm = Some (cm1, pages)" "length pages = ?n"
      "allocated_from cm ?K (own_sum cm (reqs @ rs)) pages cm1" by (elim exE conjE) (rule that, assumption+)
    from filled_inv[OF inv c(3) sf c(2)] obtain pt' where f:
      "write_page_table (page_to_token ?ps pages) (allocation_info ?ps reqs) cm1 = Some (cm1\<lparr>cm_page_table := pt'\<rparr>)"
      "cm_inv (cm1\<lparr>cm_page_table := pt'\<rparr>) (map complete_one reqs @ rs)" "?n = 0 \<longrightarrow> pt' = cm_page_table cm1"
      by (elim exE conjE) (rule that, assumption+)
    have geo: "cm_page_size cm1 = ?ps" "cm_swa_pool cm1 = None" "cm_lazy cm1 = None" "cm_num_pages cm1 = cm_num_pages cm" "cm_linear_pool cm1 = cm_linear_pool cm"
      using c(3) by (simp_all add: allocated_from_def generic_def)
    show ?thesis
    proof (cases "?n = 0")
      case False
      then have "allocate_paged reqs cm = Some (cm1\<lparr>cm_page_table := pt'\<rparr>)"
        using c(1) f(1) geo by (simp add: allocate_paged_def Let_def)
      with True f(2) geo show ?thesis by auto
    next
      case n0: True
      then have "cm_allocate ?n cm = Some (cm, [])" by (simp add: cm_allocate_def)
      with c(1) have "cm1 = cm" by simp
      with n0 f(2,3) have "cm_inv cm (map complete_one reqs @ rs)" by simp
      with n0 True lz show ?thesis by (simp add: allocate_paged_def Let_def)
    qed
  next
    case False
    have "0 \<le> available_size cm"
      using pcx.sizes[OF cm_pc[OF inv]] by (simp add: available_size_def evictable_size_def pc_evictable_def)
    with False have "?n \<noteq> 0" by (intro notI) simp
    with False a show ?thesis by (simp add: allocate_paged_def Let_def)
  qed
qed

end
