(* ===== verification/CacheLife.thy ===== *)
theory CacheLife
  imports CacheBooks
begin

text \<open>
  The life of requests on one \<open>CacheManager\<close>: the empty manager, admission (match, lock, copy
  of the matched indices), allocation with the forward step, commit and finish, as the step
  relation \<open>cm_reach\<close>; the properties of the page books.
\<close>

section \<open>The empty manager\<close>

lemma rc_init_pages:
  assumes "0 < ps"
  shows "\<exists>c. rc_init ps now cnt = Some c \<and> rc_page_size c = ps \<and> rc_ok c {#} \<and> owned (rc_store c) = {#} \<and> pages_cached ps (rc_store c)"
proof -
  from rc_init_ok[OF assms, of now cnt] obtain c where c0: "rc_init ps now cnt = Some c" "rc_ok c {#}" "rc_page_size c = ps"
    "rc_evictable c = 0" "rc_protected c = 0" by blast
  then obtain L V where "rc_inv c L V {#}" by (auto simp: rc_ok_def)
  note c = c0 this
  note ok = rc_tree[OF c(6)]
  have own: "owned (rc_store c) = {#}"
    using rc_total_owned[OF c(6)] c(4,5) by (simp add: total_size_def rc_size_info_def)
  have "n = rc_root c" if n: "nodes (rc_store c) n = Some nd" for n nd
  proof (rule ccontr)
    assume ne: "n \<noteq> rc_root c"
    from tree_parent[OF ok n ne] have "nvalue nd \<noteq> []" by auto
    moreover have "mset (nvalue nd) \<subseteq># owned (rc_store c)"
      using owned_drop[OF tree_finite[OF ok] n] by (metis mset_subset_eq_add_right)
    ultimately show False using own by simp
  qed
  then have "vs = []" if "cached ps (rc_store c) xs vs" for xs vs
    using that cached_iff[OF ok[unfolded c(3)]] tree_root_labels[OF ok] by auto
  then have "pages_cached ps (rc_store c)" unfolding pages_cached_def using paged_Nil by metis
  with c own show ?thesis by blast
qed

lemma cm_init_inv:
  assumes "0 < ps" "ty = TNaive \<or> ty = TRadix"
  shows "\<exists>cm. cm_init n ps pt ty lp None w cb now cnt = Some cm \<and> cm_inv cm [] \<and> cm_lazy cm = None \<and>
    cm_page_size cm = ps \<and> cm_page_table cm = pt \<and> available_size cm = int (n * ps)"
proof -
  have al: "aligned ps (all_pages n ps)" by (auto simp: aligned_def all_pages_def)
  have nil: "aligned ps []" by (simp add: aligned_def)
  from assms(2) show ?thesis
  proof
    assume "ty = TNaive"
    with assms(1) al nil show ?thesis
      by (auto simp: cm_init_def make_prefix_cache_def cm_inv_def generic_def is_swa_def is_hybrid_def balanced_def frees_def
          available_size_def evictable_size_def naive_size_info_def)
  next
    assume ty: "ty = TRadix"
    from rc_init_pages[OF assms(1), of now cnt] obtain c where c: "rc_init ps now cnt = Some c" "rc_page_size c = ps" "rc_ok c {#}"
      "owned (rc_store c) = {#}" "pages_cached ps (rc_store c)" by blast
    from c(3) obtain L V where inv: "rc_inv c L V {#}" by (auto simp: rc_ok_def)
    have "rc_evictable c = 0"
      using rc_total_owned[OF inv] rc_nonneg[OF inv] c(4) by (simp add: total_size_def rc_size_info_def)
    with c al nil ty show ?thesis
      by (auto simp: cm_init_def make_prefix_cache_def cm_inv_def generic_def is_swa_def is_hybrid_def balanced_def frees_def
          available_size_def evictable_size_def rc_size_info_def)
  qed
qed

section \<open>Admission\<close>

text \<open>The part of \<open>_try_allocate_one\<close> that touches the cache: lock, then copy the match into the row's tail.\<close>

definition seat_prefix :: "cache_handle \<Rightarrow> nat \<Rightarrow> cache_manager \<Rightarrow> cache_manager option" where
  "seat_prefix h table_idx cm =
     (if h_cached_len h > 0 then do {
        matched \<leftarrow> pc_matched_indices (cm_prefix cm) h;
        row_copy (int table_idx) (h_cached_len h - length matched) (h_cached_len h) matched cm }
      else Some cm)"

lemma row_copy_front:
  assumes "i < length (cm_page_table cm)" "length src \<le> length (cm_page_table cm ! i)"
  shows "row_copy (int i) 0 (length src) src cm = Some (cm\<lparr>cm_page_table := (cm_page_table cm)[i := patch 0 src (cm_page_table cm ! i)]\<rparr>)"
proof -
  have "replicate (length src) (src ! 0) = src" if "length src = 1" using that by (cases src) auto
  with assms show ?thesis
    by (auto simp: row_copy_def tensor_index_def Let_def min.absorb1)
qed

lemma match_ok:
  assumes inv: "cm_inv cm rs" and ids: "ids \<noteq> []"
  shows "\<exists>cm1 h mv. match_req ids tic cm = Some (cm1, h, mv) \<and> cm_inv cm1 rs \<and> h_cached_len h < length ids \<and>
    pc_live (cm_page_size cm) (cm_prefix cm1) h \<and> pc_toks (cm_prefix cm1) h = Some (take (h_cached_len h) ids) \<and>
    cm_page_table cm1 = cm_page_table cm \<and> cm_page_size cm1 = cm_page_size cm \<and> cm_lazy cm1 = cm_lazy cm \<and>
    available_size cm1 = available_size cm \<and> cm_num_pages cm1 = cm_num_pages cm \<and> cm_linear_pool cm1 = cm_linear_pool cm"
proof -
  let ?ps = "cm_page_size cm" and ?K = "mset (map rq_handle rs)"
  from pcx.match_law[OF cm_pc[OF inv], of "take (length ids - 1) ids" tic] obtain c h mv where m:
    "pc_match_prefix (take (length ids - 1) ids) tic (cm_prefix cm) = Some (c, h, mv)" "pc_ok ?ps c ?K"
    "pc_same ?K (cm_prefix cm) c" "pc_live ?ps c h" "h_cached_len h \<le> length (take (length ids - 1) ids)"
    "pc_toks c h = Some (take (h_cached_len h) (take (length ids - 1) ids))" "pc_own c = pc_own (cm_prefix cm)"
    "pc_evictable c = pc_evictable (cm_prefix cm)" by blast
  define cm1 where "cm1 = cm\<lparr>cm_prefix := c\<rparr>"
  have "0 < length ids" using ids by simp
  moreover from m(5) have "h_cached_len h \<le> length ids - 1" by simp
  ultimately have hlt: "h_cached_len h < length ids" "h_cached_len h \<le> length ids - 1" by linarith+
  have fits: "req_fits cm1 q" "own_slice cm1 q = own_slice cm q" if "q \<in> set rs" for q
    using fits_other[of cm q ?K cm1] cm_fits[OF inv that] that m(3) by (simp_all add: cm1_def)
  have "own_sum cm1 rs = own_sum cm rs" by (rule own_sum_cong) (rule fits(2))
  then have "balanced cm1 (own_sum cm1 rs)" using cm_books[OF inv] m(7) by (simp add: balanced_def cm1_def frees_def)
  then have "cm_inv cm1 rs"
    using cm_generic[OF inv] m(2) fits(1) cm_distinct[OF inv] by (simp add: cm_inv_def generic_def is_swa_def is_hybrid_def cm1_def)
  moreover have "match_req ids tic cm = Some (cm1, h, mv)"
    using ids m(1) by (simp add: match_req_def py_assert_def cm1_def)
  moreover have "pc_toks c h = Some (take (h_cached_len h) ids)" using m(6) hlt(2) by (simp add: min.absorb1)
  ultimately show ?thesis
    using m(4,8) hlt(1) by (intro exI[of _ cm1] exI[of _ h] exI[of _ mv])
      (simp add: cm1_def available_size_def evictable_size_def pc_evictable_def)
qed

lemma lock_ok:
  assumes inv: "cm_inv cm rs" and live: "pc_live (cm_page_size cm) (cm_prefix cm) h"
  shows "\<exists>c. cm_lock h cm = Some (cm\<lparr>cm_prefix := c\<rparr>, h) \<and> pc_ok (cm_page_size cm) c (add_mset h (mset (map rq_handle rs))) \<and>
    pc_same (add_mset h (mset (map rq_handle rs))) (cm_prefix cm) c \<and> pc_own c = pc_own (cm_prefix cm)"
  using pcx.lock_law[OF cm_pc[OF inv] live] by (auto simp: cm_lock_def)

text \<open>A locked and seated request joins the live ones.\<close>

lemma seat_ok:
  assumes inv: "cm_inv cm rs" and live: "pc_live (cm_page_size cm) (cm_prefix cm) h"
    and toks: "pc_toks (cm_prefix cm) h = Some (take (h_cached_len h) ids)"
    and t: "t < length (cm_page_table cm)" "\<forall>q\<in>set rs. rq_table_idx q \<noteq> int t"
    and room: "h_cached_len h \<le> length (cm_page_table cm ! t)"
  shows "\<exists>cm1 cm2. cm_lock h cm = Some (cm1, h) \<and> seat_prefix h t cm1 = Some cm2 \<and>
    cm_page_size cm2 = cm_page_size cm \<and> cm_lazy cm2 = cm_lazy cm \<and> cm_num_pages cm2 = cm_num_pages cm \<and> cm_linear_pool cm2 = cm_linear_pool cm \<and>
    length (cm_page_table cm2) = length (cm_page_table cm) \<and>
    (\<forall>j. length (cm_page_table cm2 ! j) = length (cm_page_table cm ! j)) \<and>
    (\<forall>r. rq_handle r = h \<longrightarrow> rq_table_idx r = int t \<longrightarrow> rq_cached_len r = h_cached_len h \<longrightarrow>
       take (h_cached_len h) (rq_input_ids r) = take (h_cached_len h) ids \<longrightarrow> cm_inv cm2 (r # rs))"
proof -
  let ?ps = "cm_page_size cm" and ?K = "mset (map rq_handle rs)" and ?row = "cm_page_table cm ! t"
  from lock_ok[OF inv live] obtain c where lk: "cm_lock h cm = Some (cm\<lparr>cm_prefix := c\<rparr>, h)" "pc_ok ?ps c (add_mset h ?K)"
    "pc_same (add_mset h ?K) (cm_prefix cm) c" "pc_own c = pc_own (cm_prefix cm)" by blast
  define cm1 where "cm1 = cm\<lparr>cm_prefix := c\<rparr>"
  from live obtain vs where vs: "pc_idxs (cm_prefix cm) h = Some vs" "length vs = h_cached_len h" "?ps dvd h_cached_len h"
    by (auto simp: handle_live_def)
  have vs1: "pc_idxs c h = Some vs" "pc_toks c h = Some (take (h_cached_len h) ids)"
    using same_handlesD[OF lk(3), of h] vs(1) toks by simp_all
  define row where "row = patch 0 vs ?row"
  define cm2 where "cm2 = cm1\<lparr>cm_page_table := (cm_page_table cm)[t := row]\<rparr>"
  have lrow: "length row = length ?row" using room vs(2) by (simp add: row_def)
  have seat: "seat_prefix h t cm1 = Some cm2"
  proof (cases "h_cached_len h > 0")
    case True
    then have "vs \<noteq> []" using vs(2) by auto
    then have "pc_matched_indices c h = Some vs" by (rule pc_matched[OF vs1(1)])
    moreover have "row_copy (int t) 0 (length vs) vs cm1 = Some cm2"
      using row_copy_front[of t cm1 vs] t(1) room vs(2) by (simp add: cm1_def cm2_def row_def)
    ultimately show ?thesis using True vs(2) by (simp add: seat_prefix_def cm1_def)
  next
    case False
    then have "row = ?row" using vs(2) by (simp add: row_def)
    then have "cm2 = cm1" by (simp add: cm2_def cm1_def)
    with False show ?thesis by (simp add: seat_prefix_def)
  qed
  have lens: "length (cm_page_table cm2 ! j) = length (cm_page_table cm ! j)" for j
    using lrow t(1) by (cases "j = t") (simp_all add: cm2_def)
  have joined: "cm_inv cm2 (r # rs)" if r: "rq_handle r = h" "rq_table_idx r = int t" "rq_cached_len r = h_cached_len h"
    "take (h_cached_len h) (rq_input_ids r) = take (h_cached_len h) ids" for r
  proof -
    have pc: "page_ceil ?ps (h_cached_len h) = h_cached_len h"
      using vs(3) cm_ps[OF inv] by (auto simp: page_ceil_def dvd_def mult.commute[of ?ps])
    have own: "own_slice cm2 r = []"
      using r pc by (simp add: own_slice_def slice_def cm2_def cm1_def)
    have "take (h_cached_len h) row = vs" using vs(2) by (simp add: row_def patch_def)
    then have fr: "req_fits cm2 r"
      using r own vs1 lens[of t] room t(1) pc by (simp add: req_fits_def cm2_def cm1_def)
    have oth: "req_fits cm2 q" "own_slice cm2 q = own_slice cm q" if q: "q \<in> set rs" for q
    proof -
      have "0 \<le> rq_table_idx q" using cm_fits[OF inv q] by (simp add: req_fits_def)
      with t(2) q have "nat (rq_table_idx q) \<noteq> t" by auto
      moreover have "pc_same ?K (cm_prefix cm) (cm_prefix cm2)"
        using same_handles_mono[OF lk(3), of ?K] by (simp add: cm2_def cm1_def)
      ultimately show "req_fits cm2 q" "own_slice cm2 q = own_slice cm q"
        using fits_other[of cm q ?K cm2] cm_fits[OF inv q] q by (simp_all add: cm2_def cm1_def)
    qed
    have "own_sum cm2 rs = own_sum cm rs" by (rule own_sum_cong) (rule oth(2))
    then have "balanced cm2 (own_sum cm2 (r # rs))"
      using cm_books[OF inv] lk(4) own by (simp add: balanced_def cm2_def cm1_def frees_def)
    moreover have "generic cm2" using cm_generic[OF inv] by (simp add: cm2_def cm1_def generic_def is_swa_def is_hybrid_def)
    moreover have "distinct (map rq_table_idx (r # rs))" using cm_distinct[OF inv] t(2) r(2) by auto
    ultimately show ?thesis using lk(2) fr oth(1) r(1) by (simp add: cm_inv_def cm2_def cm1_def)
  qed
  from lk(1) seat lens joined show ?thesis
    by (intro exI[of _ cm1] exI[of _ cm2]) (simp add: cm1_def cm2_def)
qed

section \<open>Histories\<close>

text \<open>Requests that look alike to the cache: same row, same handle, same committed length.\<close>

definition same_seat :: "req \<Rightarrow> req \<Rightarrow> bool" where
  "same_seat r r' \<longleftrightarrow> rq_handle r' = rq_handle r \<and> rq_table_idx r' = rq_table_idx r \<and> rq_cached_len r' = rq_cached_len r \<and>
     take (hl r) (rq_input_ids r') = take (hl r) (rq_input_ids r)"

inductive cm_reach :: "cache_manager \<Rightarrow> req list \<Rightarrow> bool" where
  start: "0 < ps \<Longrightarrow> ty = TNaive \<or> ty = TRadix \<Longrightarrow> cm_init n ps pt ty lp None w cb now cnt = Some cm \<Longrightarrow> cm_reach cm []"
| refuse: "cm_reach cm rs \<Longrightarrow> ids \<noteq> [] \<Longrightarrow> match_req ids tic cm = Some (cm1, h, mv) \<Longrightarrow> cm_reach cm1 rs"
| admit: "cm_reach cm rs \<Longrightarrow> ids \<noteq> [] \<Longrightarrow> match_req ids tic cm = Some (cm1, h, mv) \<Longrightarrow> cm_lock h cm1 = Some (cm2, h') \<Longrightarrow>
    t < length (cm_page_table cm) \<Longrightarrow> \<forall>q\<in>set rs. rq_table_idx q \<noteq> int t \<Longrightarrow> h_cached_len h \<le> length (cm_page_table cm ! t) \<Longrightarrow>
    seat_prefix h' t cm2 = Some cm3 \<Longrightarrow> rq_handle r = h' \<Longrightarrow> rq_table_idx r = int t \<Longrightarrow> rq_cached_len r = h_cached_len h' \<Longrightarrow>
    take (h_cached_len h') (rq_input_ids r) = take (h_cached_len h') ids \<Longrightarrow> cm_reach cm3 (r # rs)"
| forward: "cm_reach cm (reqs @ rs) \<Longrightarrow> cm_lazy cm = None \<Longrightarrow> \<forall>r\<in>set reqs. span_fits (cm_page_size cm) (cm_page_table cm) r \<Longrightarrow>
    allocate_paged reqs cm = Some cm' \<Longrightarrow> cm_reach cm' (map complete_one reqs @ rs)"
| update: "cm_reach cm (r # rs) \<Longrightarrow> same_seat r r' \<Longrightarrow> cm_reach cm (r' # rs)"
| permute: "cm_reach cm rs \<Longrightarrow> mset rs' = mset rs \<Longrightarrow> cm_reach cm rs'"
| enter: "cm_reach cm rs \<Longrightarrow> cm_lazy cm = None \<Longrightarrow> cm_reach (lazy_enter cm) rs"
| leave: "cm_reach cm rs \<Longrightarrow> cm_reach (lazy_exit cm) rs"
| commit: "cm_reach cm (r # rs) \<Longrightarrow> rq_cached_len r \<le> length (rq_input_ids r) \<Longrightarrow> cache_req r False clk cm = Some (cm', r') \<Longrightarrow>
    cm_reach cm' (r' # rs)"
| finish: "cm_reach cm (r # rs) \<Longrightarrow> rq_cached_len r \<le> length (rq_input_ids r) \<Longrightarrow> cache_req r True clk cm = Some (cm', r') \<Longrightarrow>
    cm_reach cm' rs"

inductive_cases cm_reach_emptyE: "cm_reach cm []"

lemma cm_inv_same:
  assumes "cm_inv cm rs" "cm_page_size cm' = cm_page_size cm" "cm_prefix cm' = cm_prefix cm" "cm_page_table cm' = cm_page_table cm"
    "cm_num_pages cm' = cm_num_pages cm" "cm_type cm' = cm_type cm" "cm_swa_pool cm' = cm_swa_pool cm" "frees cm' = frees cm"
  shows "cm_inv cm' rs"
proof -
  have "own_slice cm' = own_slice cm" "req_fits cm' = req_fits cm"
    using assms by (simp_all add: own_slice_def req_fits_def fun_eq_iff)
  with assms show ?thesis by (simp add: cm_inv_def generic_def is_swa_def is_hybrid_def balanced_def own_sum_def)
qed

lemma cm_inv_perm:
  assumes "cm_inv cm rs" "mset rs' = mset rs" shows "cm_inv cm rs'"
proof -
  have "own_sum cm rs' = own_sum cm rs"
    unfolding own_sum_def sum_mset_sum_list[symmetric] by (simp add: assms(2))
  moreover have "distinct (map rq_table_idx rs')"
    using cm_distinct[OF assms(1)] assms(2) by (metis distinct_count_atmost_1 mset_eq_setD mset_map set_map)
  ultimately show ?thesis using assms mset_eq_setD[OF assms(2)] by (simp add: cm_inv_def)
qed

lemma cm_inv_update:
  assumes "cm_inv cm (r # rs)" "same_seat r r'" shows "cm_inv cm (r' # rs)"
proof -
  have "own_slice cm r' = own_slice cm r" "req_fits cm r' = req_fits cm r"
    using assms(2) by (auto simp: own_slice_def req_fits_def same_seat_def)
  with assms show ?thesis by (auto simp: cm_inv_def same_seat_def)
qed

lemma cm_reach_inv: "cm_reach cm rs \<Longrightarrow> cm_inv cm rs"
proof (induction rule: cm_reach.induct)
  case (start ps ty n pt lp w cb now cnt cm)
  with cm_init_inv[OF start(1,2), of n pt lp w cb now cnt] show ?case by auto
next
  case (refuse cm rs ids tic cm1 h mv)
  with match_ok[OF refuse.IH refuse.hyps(2), of tic] show ?case by auto
next
  case (admit cm rs ids tic cm1 h mv cm2 h' t cm3 r)
  from match_ok[OF admit.IH admit.hyps(2), of tic] admit.hyps(3) have m: "cm_inv cm1 rs"
    "pc_live (cm_page_size cm1) (cm_prefix cm1) h" "pc_toks (cm_prefix cm1) h = Some (take (h_cached_len h) ids)"
    "cm_page_table cm1 = cm_page_table cm" by auto
  from seat_ok[OF m(1-3), of t] admit.hyps m(4) show ?case by auto
next
  case (forward cm reqs rs cm')
  from allocate_ok[OF forward.IH forward.hyps(2,3)] forward.hyps(4) show ?case by (auto split: if_splits)
next
  case (update cm r rs r')
  then show ?case by (blast intro: cm_inv_update)
next
  case (permute cm rs rs')
  then show ?case by (blast intro: cm_inv_perm)
next
  case (enter cm rs)
  then show ?case by (intro cm_inv_same[OF enter.IH]) (simp_all add: lazy_enter_def frees_def)
next
  case (leave cm rs)
  then show ?case by (intro cm_inv_same[OF leave.IH]) (simp_all add: lazy_exit_def frees_def split: option.split)
next
  case (commit cm r rs clk cm' r')
  from commit_ok[OF commit.IH commit.hyps(2), of clk] commit.hyps(3) show ?case by auto
next
  case (finish cm r rs clk cm' r')
  from finish_ok[OF finish.IH finish.hyps(2), of clk] finish.hyps(3) show ?case by auto
qed

section \<open>Properties\<close>

lemma all_tokens: "page_to_token ps (all_pages n ps) = map int [0..<n * ps]"
proof (induction n)
  case (Suc n)
  have "[0..<Suc n * ps] = [0..<n * ps] @ [n * ps..<n * ps + ps]"
    using upt_add_eq_append[of 0 "n * ps" ps] by (simp add: add.commute)
  moreover have "map int [n * ps..<n * ps + ps] = map (\<lambda>o'. int (n * ps) + int o') [0..<ps]"
    by (rule nth_equalityI) simp_all
  ultimately show ?case using Suc by (simp add: all_pages_def)
qed (simp add: all_pages_def)

lemma own_sum_concat: "own_sum cm rs = mset (concat (map (own_slice cm) rs))"
  by (induction rs) simp_all

lemma books_exact:
  assumes "cm_inv cm rs"
  shows "mset (page_to_token (cm_page_size cm) (frees cm) @ concat (map (own_slice cm) rs)) + pc_own (cm_prefix cm)
    = mset (map int [0..<cm_num_pages cm * cm_page_size cm])"
  using cm_books[OF assms] by (simp add: balanced_def all_tokens own_sum_concat ac_simps)

lemma books_distinct:
  assumes "cm_inv cm rs"
  shows "distinct (page_to_token (cm_page_size cm) (frees cm) @ concat (map (own_slice cm) rs))"
    and "\<forall>s\<in>set (page_to_token (cm_page_size cm) (frees cm) @ concat (map (own_slice cm) rs)). s \<notin># pc_own (cm_prefix cm) \<and>
      0 \<le> s \<and> s < int (cm_num_pages cm * cm_page_size cm)"
proof -
  let ?xs = "page_to_token (cm_page_size cm) (frees cm) @ concat (map (own_slice cm) rs)"
  let ?all = "map int [0..<cm_num_pages cm * cm_page_size cm]"
  have eq: "mset ?xs + pc_own (cm_prefix cm) = mset ?all"
    by (rule books_exact[OF assms])
  have one: "count (mset ?xs) s + count (pc_own (cm_prefix cm)) s \<le> 1" for s
  proof -
    have "distinct ?all" by (simp add: distinct_map)
    then have "count (mset ?all) s \<le> 1" unfolding distinct_count_atmost_1 by simp
    then show ?thesis unfolding eq[symmetric] by simp
  qed
  show "distinct ?xs" using one by (intro distinct_count_le) (metis add_leD1)
  show "\<forall>s\<in>set ?xs. s \<notin># pc_own (cm_prefix cm) \<and> 0 \<le> s \<and> s < int (cm_num_pages cm * cm_page_size cm)"
  proof
    fix s assume s: "s \<in> set ?xs"
    then have "0 < count (mset ?xs) s" by (metis count_greater_zero_iff set_mset_mset)
    with one[of s] have "count (pc_own (cm_prefix cm)) s = 0" by linarith
    then have "s \<notin># pc_own (cm_prefix cm)" by (simp add: count_eq_zero_iff)
    moreover have "s \<in># mset ?all" unfolding eq[symmetric] using s by simp
    then have "0 \<le> s \<and> s < int (cm_num_pages cm * cm_page_size cm)" by (auto simp del: of_nat_mult)
    ultimately show "s \<notin># pc_own (cm_prefix cm) \<and> 0 \<le> s \<and> s < int (cm_num_pages cm * cm_page_size cm)" by blast
  qed
qed

text \<open>C37: Allocation for a batch succeeds exactly when the free and evictable pages cover the batch; then the
  row of every request of the batch is filled with fresh pages up to its new length, the
  forward step may commit it, and the books of the whole pool still balance; otherwise the call raises.\<close>

theorem cm_allocate_exact:
  assumes "cm_inv cm (reqs @ rs)" "cm_lazy cm = None"
    and "\<forall>r\<in>set reqs. span_fits (cm_page_size cm) (cm_page_table cm) r"
  shows "case allocate_paged reqs cm of
      None \<Rightarrow> available_size cm < int (needed_pages (cm_page_size cm) reqs * cm_page_size cm)
    | Some cm' \<Rightarrow> int (needed_pages (cm_page_size cm) reqs * cm_page_size cm) \<le> available_size cm \<and>
        cm_inv cm' (map complete_one reqs @ rs) \<and> cm_lazy cm' = None"
proof (cases "int (needed_pages (cm_page_size cm) reqs * cm_page_size cm) \<le> available_size cm")
  case True
  from allocate_ok[OF assms, unfolded if_P[OF True]] True show ?thesis by auto
next
  case False
  from allocate_ok[OF assms, unfolded if_not_P[OF False]] False show ?thesis by simp
qed

definition ex_cm :: cache_manager where
  "ex_cm = the (cm_init 4 2 [replicate 8 0, replicate 8 0] TRadix None None None None 7 0)"

definition ex_params :: sampling_params where
  "ex_params = \<lparr>smp_temperature = 0, smp_top_k = -1, smp_top_p = 1, smp_ignore_eos = False, smp_max_tokens = 3, smp_stop_strs = []\<rparr>"

text \<open>A request admitted on a cold cache: the handle is the root, the row is empty.\<close>

definition ex_match :: "cache_manager \<times> cache_handle \<times> nat option" where
  "ex_match = the (match_req [1, 2, 3] 8 ex_cm)"

definition ex_req :: req where
  "ex_req = the (new_req False [1, 2, 3] 1 0 3 5 ex_params (fst (snd ex_match)))"

definition ex_cm1 :: cache_manager where
  "ex_cm1 = the (seat_prefix (fst (snd ex_match)) 1 (fst (the (cm_lock (fst (snd ex_match)) (fst ex_match)))))"

lemma ex_cm_inv: "cm_inv ex_cm [] \<and> cm_lazy ex_cm = None"
  using cm_init_inv[of 2 TRadix 4 "[replicate 8 0, replicate 8 0]" None None None 7 0] by (auto simp: ex_cm_def)

lemma ex_cm1_reach: "cm_reach ex_cm1 [ex_req]"
proof -
  have s: "cm_reach ex_cm []"
    using cm_reach.start[of 2 TRadix 4 "[replicate 8 0, replicate 8 0]" None None None 7 0]
      cm_init_inv[of 2 TRadix 4 "[replicate 8 0, replicate 8 0]" None None None 7 0] by (auto simp: ex_cm_def)
  obtain cm1 h mv where m: "match_req [1, 2, 3] 8 ex_cm = Some (cm1, h, mv)"
    using match_ok[of ex_cm "[]" "[1, 2, 3]" 8] ex_cm_inv by auto
  have em: "ex_match = (cm1, h, mv)" using m by (simp add: ex_match_def)
  have "cm_lock (fst (snd ex_match)) (fst ex_match) \<noteq> None" by code_simp
  then obtain cm2 h' where lk: "cm_lock h cm1 = Some (cm2, h')" unfolding em by auto
  have "seat_prefix (fst (snd ex_match)) 1 (fst (the (cm_lock (fst (snd ex_match)) (fst ex_match)))) \<noteq> None" by code_simp
  then have se: "seat_prefix h 1 cm2 = Some ex_cm1" unfolding ex_cm1_def em fst_conv snd_conv lk by auto
  have "h_cached_len (fst (snd ex_match)) = 0" "snd (the (cm_lock (fst (snd ex_match)) (fst ex_match))) = fst (snd ex_match)"
    "rq_handle ex_req = fst (snd ex_match)" by code_simp+
  then have h: "h_cached_len h = 0" "h' = h" "rq_handle ex_req = h" unfolding em fst_conv snd_conv lk by simp_all
  have r: "rq_table_idx ex_req = 1" "rq_cached_len ex_req = 0" "length (cm_page_table ex_cm) = 2" by code_simp+
  show ?thesis
    by (rule cm_reach.admit[OF s _ m lk, where t = 1]) (use h r se in simp_all)
qed

theorem cm_allocate_exact_witness:
  "\<exists>cm'. allocate_paged [ex_req] ex_cm1 = Some cm' \<and> cm_inv cm' [complete_one ex_req]"
proof -
  have inv: "cm_inv ex_cm1 ([ex_req] @ [])" using cm_reach_inv[OF ex_cm1_reach] by simp
  have lz: "cm_lazy ex_cm1 = None" by code_simp
  have sf: "\<forall>r\<in>set [ex_req]. span_fits (cm_page_size ex_cm1) (cm_page_table ex_cm1) r" by code_simp
  have "allocate_paged [ex_req] ex_cm1 \<noteq> None" by code_simp
  with cm_allocate_exact[OF inv lz sf] show ?thesis by auto
qed

text \<open>The same request after its prefill.\<close>

definition ex_cm2 :: cache_manager where
  "ex_cm2 = the (allocate_paged [ex_req] ex_cm1)"

lemma ex_cm2_reach: "cm_reach ex_cm2 [complete_one ex_req]"
proof -
  have "cm_reach ex_cm1 ([ex_req] @ [])" using ex_cm1_reach by simp
  moreover have "cm_lazy ex_cm1 = None" by code_simp
  moreover have "\<forall>r\<in>set [ex_req]. span_fits (cm_page_size ex_cm1) (cm_page_table ex_cm1) r" by code_simp
  moreover have "allocate_paged [ex_req] ex_cm1 \<noteq> None" by code_simp
  then have "allocate_paged [ex_req] ex_cm1 = Some ex_cm2" by (auto simp: ex_cm2_def)
  ultimately have "cm_reach ex_cm2 (map complete_one [ex_req] @ [])" by (rule cm_reach.forward)
  then show ?thesis by simp
qed

text \<open>Finishing a request never fails and gives back exactly what it owned: every slot of its row's own
  part is afterwards on the free list or in the prefix cache, once, its lock is gone, and
  the other requests keep their rows and handles.\<close>

theorem cm_finish_returns:
  assumes "cm_inv cm (r # rs)" "rq_cached_len r \<le> length (rq_input_ids r)"
  shows "\<exists>cm'. cache_req r True clk cm = Some (cm', r) \<and> cm_inv cm' rs \<and> cm_page_table cm' = cm_page_table cm \<and>
    mset (page_to_token (cm_page_size cm) (frees cm')) + pc_own (cm_prefix cm') =
    mset (page_to_token (cm_page_size cm) (frees cm)) + pc_own (cm_prefix cm) + mset (own_slice cm r)"
proof -
  from finish_ok[OF assms, of clk] obtain cm' where c: "cache_req r True clk cm = Some (cm', r)" "cm_inv cm' rs"
    "cm_page_table cm' = cm_page_table cm" "cm_page_size cm' = cm_page_size cm" "cm_num_pages cm' = cm_num_pages cm" by blast
  have "own_sum cm' rs = own_sum cm rs" by (rule own_sum_cong) (simp add: own_slice_def c(3,4))
  with cm_books[OF c(2)] cm_books[OF assms(1)] c(4,5) have
    "mset (page_to_token (cm_page_size cm) (frees cm')) + pc_own (cm_prefix cm') + own_sum cm rs =
     mset (page_to_token (cm_page_size cm) (frees cm)) + pc_own (cm_prefix cm) + mset (own_slice cm r) + own_sum cm rs"
    by (simp add: balanced_def ac_simps)
  with c show ?thesis by (simp only: add_right_cancel) blast
qed

theorem cm_finish_returns_witness:
  "\<exists>cm'. cache_req (complete_one ex_req) True int ex_cm2 = Some (cm', complete_one ex_req) \<and> cm_inv cm' []"
proof -
  have "rq_cached_len (complete_one ex_req) \<le> length (rq_input_ids (complete_one ex_req))" by code_simp
  from cm_finish_returns[OF cm_reach_inv[OF ex_cm2_reach] this, of int] show ?thesis by blast
qed

text \<open>Committing a running request never fails: its handle moves to a prefix at least as long, the row
  names exactly the pages the cache holds for that prefix (the duplicates it held before are
  back on the free list), the new handle is locked and the old one released, other rows do not
  change, and the books balance.\<close>

theorem cm_commit_repoints:
  assumes "cm_inv cm (r # rs)" "rq_cached_len r \<le> length (rq_input_ids r)"
  shows "\<exists>cm' r' h'. cache_req r False clk cm = Some (cm', r') \<and> r' = r\<lparr>rq_handle := h'\<rparr> \<and> cm_inv cm' (r' # rs) \<and>
    hl r \<le> hl r' \<and> pc_toks (cm_prefix cm') h' = Some (take (hl r') (rq_input_ids r)) \<and>
    pc_idxs (cm_prefix cm') h' = Some (take (hl r') (row_of cm' r')) \<and>
    (\<forall>j. j \<noteq> nat (rq_table_idx r) \<longrightarrow> cm_page_table cm' ! j = cm_page_table cm ! j)"
proof -
  from commit_ok[OF assms, of clk] obtain cm' r' h' where c: "cache_req r False clk cm = Some (cm', r')" "r' = r\<lparr>rq_handle := h'\<rparr>"
    "cm_inv cm' (r' # rs)" "hl r \<le> hl r'" "\<forall>j. j \<noteq> nat (rq_table_idx r) \<longrightarrow> cm_page_table cm' ! j = cm_page_table cm ! j" by blast
  have "req_fits cm' r'" using cm_fits[OF c(3)] by simp
  with c show ?thesis by (intro exI[of _ cm'] exI[of _ r'] exI[of _ h']) (simp add: req_fits_def)
qed

theorem cm_commit_repoints_witness:
  "\<exists>cm' r'. cache_req (complete_one ex_req) False int ex_cm2 = Some (cm', r') \<and> cm_inv cm' [r'] \<and> hl r' = 2"
proof -
  have "rq_cached_len (complete_one ex_req) \<le> length (rq_input_ids (complete_one ex_req))" by code_simp
  from cm_commit_repoints[OF cm_reach_inv[OF ex_cm2_reach] this, of int] obtain cm' r' where
    c: "cache_req (complete_one ex_req) False int ex_cm2 = Some (cm', r')" "cm_inv cm' [r']" by blast
  have "map_option (hl \<circ> snd) (cache_req (complete_one ex_req) False int ex_cm2) = Some 2" by code_simp
  with c show ?thesis by simp
qed

text \<open>C40: On every history of admissions, forwards, commits and finishes, no token slot is in two places: the free
  list, the prefix cache and the own parts of the live rows are disjoint and within the pool;
  and when no request is left, the idle integrity check passes.\<close>

theorem cm_life_books:
  assumes "cm_reach cm rs"
  shows "distinct (page_to_token (cm_page_size cm) (frees cm) @ concat (map (own_slice cm) rs)) \<and>
    (\<forall>s\<in>set (page_to_token (cm_page_size cm) (frees cm) @ concat (map (own_slice cm) rs)).
       s \<notin># pc_own (cm_prefix cm) \<and> 0 \<le> s \<and> s < int (cm_num_pages cm * cm_page_size cm)) \<and>
    (rs = [] \<and> cm_lazy cm = None \<longrightarrow> cm_check_integrity cm = Some ())"
  using books_distinct[OF cm_reach_inv[OF assms]] idle_integrity[of cm] cm_reach_inv[OF assms] by blast

theorem cm_life_books_witness:
  "distinct (page_to_token 2 (frees ex_cm2) @ own_slice ex_cm2 (complete_one ex_req)) \<and> own_slice ex_cm2 (complete_one ex_req) = [0, 1, 2, 3]"
proof -
  have "own_slice ex_cm2 (complete_one ex_req) = [0, 1, 2, 3]" "cm_page_size ex_cm2 = 2" by code_simp+
  with cm_life_books[OF ex_cm2_reach] show ?thesis by simp
qed

end
