(* ===== verification/MultiModal.thy ===== *)
theory MultiModal
  imports Requests "HOL-Library.Product_Lexorder"
begin

text \<open>
  Planning of multimodal prompts: \<^verbatim>\<open>scheduler/mm.py\<close> (which embedding rows a prefill chunk
  gathers, where a chunk may end) and \<^verbatim>\<open>mm/encoder_cache.py\<close> (\<open>EncoderCache\<close>: the image
  embeddings, kept while a request still has rows of them to gather).  Tensors are the list
  of their rows; moving one between devices does not change its rows.
\<close>

section \<open>scheduler/mm.py\<close>

subsection \<open>Rows and chunk ends\<close>

definition mm_rows_after :: "mm_item \<Rightarrow> int \<Rightarrow> int" where
  "mm_rows_after item clen = sum_list (map (\<lambda>(lo, hi). max 0 (hi - max lo clen)) (mm_offsets item))"

definition all_spans :: "mm_item list \<Rightarrow> (int \<times> int) list" where
  "all_spans items = concat (map mm_offsets items)"

text \<open>The loop over the spans, the last one first; \<open>cut\<close> only moves down.\<close>

fun pull_back :: "int \<Rightarrow> int \<Rightarrow> int \<Rightarrow> (int \<times> int) list \<Rightarrow> int \<Rightarrow> int" where
  "pull_back chunk_lo bound align [] cutp = cutp"
| "pull_back chunk_lo bound align ((span_lo, span_hi) # spans) cutp =
     (if span_lo < cutp \<and> cutp < span_hi then
        (if span_lo \<le> chunk_lo then bound
         else (let cutp = align_down span_lo align
               in if cutp \<le> chunk_lo then bound else pull_back chunk_lo bound align spans cutp))
      else pull_back chunk_lo bound align spans cutp)"

definition mm_chunk_end :: "mm_item list \<Rightarrow> int \<Rightarrow> int \<Rightarrow> int \<Rightarrow> int" where
  "mm_chunk_end items chunk_lo bound align = pull_back chunk_lo bound align (rev (sort (all_spans items))) bound"

definition cut_image_spans :: "req list \<Rightarrow> (int \<times> int) list" where
  "cut_image_spans reqs =
     concat (map (\<lambda>r. filter (\<lambda>(lo, hi). lo < int (rq_device_len r) \<and> int (rq_device_len r) < hi) (all_spans (rq_mm_items r))) reqs)"

subsection \<open>Encoder jobs and the gather plan\<close>

record plan_row =
  pl_uid :: int
  pl_hash :: int
  pl_row_lo :: int
  pl_row_hi :: int
  pl_num_tokens :: int
  pl_pos :: int

definition num_tokens :: "mm_item \<Rightarrow> int" where
  "num_tokens item = sum_list (map (\<lambda>(lo, hi). hi - lo) (mm_offsets item))"

text \<open>The inner loop over an item's spans: the rows planned, and whether a span overlaps the window.\<close>

fun plan_spans :: "int \<Rightarrow> int \<Rightarrow> int \<Rightarrow> int \<Rightarrow> int \<Rightarrow> int \<Rightarrow> (int \<times> int) list \<Rightarrow> plan_row list" where
  "plan_spans uid h n w_lo w_hi row_base [] = []"
| "plan_spans uid h n w_lo w_hi row_base ((span_lo, span_hi) # spans) =
     (let lo = max span_lo w_lo; hi = min span_hi w_hi;
          rest = plan_spans uid h n w_lo w_hi (row_base + (span_hi - span_lo)) spans
      in if lo < hi
         then \<lparr>pl_uid = uid, pl_hash = h, pl_row_lo = row_base + lo - span_lo, pl_row_hi = row_base + hi - span_lo,
               pl_num_tokens = n, pl_pos = lo - w_lo\<rparr> # rest
         else rest)"

fun plan_items ::
  "int \<Rightarrow> int \<Rightarrow> int \<Rightarrow> (int \<Rightarrow> bool) \<Rightarrow> int set \<Rightarrow> mm_item list \<Rightarrow> mm_item list \<times> plan_row list" where
  "plan_items uid w_lo w_hi cached_in_ec queued [] = ([], [])"
| "plan_items uid w_lo w_hi cached_in_ec queued (item # items) =
     (let h = mm_hash item;
          needs_encode = (h \<notin> queued \<and> \<not> cached_in_ec h);
          rows = plan_spans uid h (num_tokens item) w_lo w_hi 0 (mm_offsets item);
          job = needs_encode \<and> rows \<noteq> [];
          (jobs, plan) = plan_items uid w_lo w_hi cached_in_ec (if job then insert h queued else queued) items
      in ((if job then item # jobs else jobs), rows @ plan))"

definition plan_mm_chunk ::
  "int \<Rightarrow> mm_item list \<Rightarrow> int \<Rightarrow> int \<Rightarrow> (int \<Rightarrow> bool) \<Rightarrow> mm_item list \<times> plan_row list" where
  "plan_mm_chunk uid items w_lo w_hi cached_in_ec = plan_items uid w_lo w_hi cached_in_ec {} items"

text \<open>\<open>block_ends[offset + i - cached_len] = span_hi\<close> over one span's tokens in the chunk.\<close>

definition mark_span :: "int \<Rightarrow> req \<Rightarrow> int \<times> int \<Rightarrow> int list \<Rightarrow> int list" where
  "mark_span offset r sp ends =
     fold (\<lambda>i es. es[nat (offset + i - int (rq_cached_len r)) := snd sp])
       [max (fst sp) (int (rq_cached_len r))..min (snd sp) (int (rq_device_len r)) - 1] ends"

definition plan_row_ids :: "int \<Rightarrow> plan_row \<Rightarrow> int list" where
  "plan_row_ids offset p = [offset + pl_pos p..offset + pl_pos p + pl_row_hi p - pl_row_lo p - 1]"

fun plan_reqs ::
  "(int \<Rightarrow> bool) \<Rightarrow> nat \<Rightarrow> req list \<Rightarrow> int \<Rightarrow> int list \<Rightarrow>
     mm_item list \<times> plan_row list \<times> int list \<times> int list" where
  "plan_reqs cached_in_ec total_len [] offset ends = ([], [], [], ends)"
| "plan_reqs cached_in_ec total_len (r # reqs) offset ends =
     (if rq_mm_items r \<noteq> [] then
        (let (req_jobs, req_plan) = plan_mm_chunk (rq_uid r) (rq_mm_items r) (int (rq_cached_len r)) (int (rq_device_len r)) cached_in_ec;
             ends = (if ends = [] then replicate total_len 0 else ends);
             ends = fold (mark_span offset r) (all_spans (rq_mm_items r)) ends;
             (jobs, plan, rows, ends) = plan_reqs cached_in_ec total_len reqs (offset + int (extend_len r)) ends
         in (req_jobs @ jobs, req_plan @ plan, concat (map (plan_row_ids offset) req_plan) @ rows, ends))
      else plan_reqs cached_in_ec total_len reqs (offset + int (extend_len r)) ends)"

definition plan_mm_batch ::
  "req list \<Rightarrow> (int \<Rightarrow> bool) \<Rightarrow> mm_item list \<times> plan_row list \<times> int list \<times> int list" where
  "plan_mm_batch reqs cached_in_ec = plan_reqs cached_in_ec (sum_list (map extend_len reqs)) reqs 0 []"

subsection \<open>Chunk ends\<close>

lemma pull_back_props:
  assumes "sorted_wrt (\<lambda>s t. fst s \<ge> fst t) spans" "chunk_lo < cutp" "cutp \<le> bound" "0 < align"
    and "cutp = bound \<or> align dvd cutp"
    and "\<forall>(lo, hi)\<in>seen. \<not> (lo < cutp \<and> cutp < hi)"
    and "\<forall>d\<in>seen. \<forall>s\<in>set spans. fst s \<le> fst d"
    and "r = pull_back chunk_lo bound align spans cutp"
  shows "chunk_lo < r \<and> r \<le> bound \<and> (r = bound \<or> align dvd r \<and> (\<forall>(lo, hi)\<in>seen \<union> set spans. \<not> (lo < r \<and> r < hi)))"
  using assms
proof (induction spans arbitrary: cutp seen)
  case (Cons s spans)
  obtain lo hi where s: "s = (lo, hi)" by (cases s)
  show ?case
  proof (cases "lo < cutp \<and> cutp < hi")
    case True
    show ?thesis
    proof (cases "lo \<le> chunk_lo \<or> align_down lo align \<le> chunk_lo")
      case True
      then have "r = bound" using Cons.prems(8) \<open>lo < cutp \<and> cutp < hi\<close> by (auto simp: s Let_def)
      then show ?thesis using Cons.prems(2,3) by simp
    next
      case False
      let ?c = "align_down lo align"
      have c: "?c \<le> lo" using Cons.prems(4) by (rule align_down_le_int)
      have d: "align dvd ?c" by (simp add: align_down_def)
      have "chunk_lo < r \<and> r \<le> bound \<and>
        (r = bound \<or> align dvd r \<and> (\<forall>(lo, hi)\<in>insert s seen \<union> set spans. \<not> (lo < r \<and> r < hi)))"
      proof (rule Cons.IH[of ?c "insert s seen"])
        show "\<forall>(lo, hi)\<in>insert s seen. \<not> (lo < ?c \<and> ?c < hi)"
          using Cons.prems(7) c by (fastforce simp: s)
        show "\<forall>d\<in>insert s seen. \<forall>s\<in>set spans. fst s \<le> fst d" using Cons.prems(1,7) by auto
        show "r = pull_back chunk_lo bound align spans ?c"
          using Cons.prems(8) True False by (auto simp: s Let_def)
      qed (use Cons.prems False True c d in auto)
      then show ?thesis by auto
    qed
  next
    case False
    have "chunk_lo < r \<and> r \<le> bound \<and>
      (r = bound \<or> align dvd r \<and> (\<forall>(lo, hi)\<in>insert s seen \<union> set spans. \<not> (lo < r \<and> r < hi)))"
    proof (rule Cons.IH[of cutp "insert s seen"])
      show "\<forall>(lo, hi)\<in>insert s seen. \<not> (lo < cutp \<and> cutp < hi)"
        using Cons.prems(6) False by (auto simp: s)
      show "r = pull_back chunk_lo bound align spans cutp" using Cons.prems(8) False by (auto simp: s)
    qed (use Cons.prems in auto)
    then show ?thesis by auto
  qed
qed auto

lemma rev_sort_spans: "sorted_wrt (\<lambda>s t. fst s \<ge> fst t) (rev (sort (spans :: (int \<times> int) list)))"
proof -
  have "sorted_wrt (\<lambda>s t. fst s \<le> fst t) (sort spans)"
    by (rule sorted_wrt_mono_rel[OF _ sorted_sort]) (auto simp: less_eq_prod_def)
  then show ?thesis by (simp add: sorted_wrt_rev)
qed

lemma mm_chunk_end_props:
  "chunk_lo < bound \<Longrightarrow> 0 < align \<Longrightarrow> mm_chunk_end items chunk_lo bound align = r \<Longrightarrow>
    chunk_lo < r \<and> r \<le> bound \<and> (r = bound \<or> align dvd r \<and> (\<forall>(lo, hi)\<in>set (all_spans items). \<not> (lo < r \<and> r < hi)))"
  using pull_back_props[OF rev_sort_spans, where chunk_lo = chunk_lo and cutp = bound and bound = bound
      and align = align and seen = "{}" and r = r and spans1 = "all_spans items"]
  by (auto simp: mm_chunk_end_def)

lemma mm_chunk_end_le:
  assumes "0 \<le> chunk_lo" "0 \<le> align"
  shows "mm_chunk_end items chunk_lo bound align \<le> bound"
proof -
  have "pull_back chunk_lo bound align spans c \<le> bound" if "c \<le> bound" for spans c
    using that
  proof (induction spans arbitrary: c)
    case (Cons s spans)
    obtain lo hi where s: "s = (lo, hi)" by (cases s)
    have "align_down lo align \<le> bound" if "lo < c" "chunk_lo < lo"
    proof (cases "align = 0")
      case False
      then show ?thesis using that Cons.prems assms(2) align_down_le_int[of align lo] by simp
    qed (use that Cons.prems assms(1) in \<open>simp add: align_down_def\<close>)
    then show ?case using Cons by (auto simp: s Let_def)
  qed simp
  then show ?thesis by (simp add: mm_chunk_end_def)
qed

text \<open>A prefill chunk whose end is pulled back (\<open>mm_chunk_end\<close>) still makes progress and never grows; unless
  the end is left alone, it is a multiple of the alignment and no image span of the prompt is cut by it.\<close>

theorem mm_chunk_end_whole_images:
  assumes "chunk_lo < bound" "0 < align" "mm_chunk_end items chunk_lo bound align = r"
  shows "chunk_lo < r \<and> r \<le> bound \<and>
    (r = bound \<or> align dvd r \<and> (\<forall>item\<in>set items. \<forall>(lo, hi)\<in>set (mm_offsets item). \<not> (lo < r \<and> r < hi)))"
  using mm_chunk_end_props[OF assms] by (auto simp: all_spans_def)

definition ex_items :: "mm_item list" where
  "ex_items = [\<lparr>mm_hash = 7, mm_offsets = [(2, 6), (20, 24)], mm_feature = None, mm_precomputed = None\<rparr>,
     \<lparr>mm_hash = 9, mm_offsets = [(10, 18)], mm_feature = None, mm_precomputed = None\<rparr>]"

theorem mm_chunk_end_witness: "mm_chunk_end ex_items 0 12 4 = 8"
proof -
  have "mm_chunk_end ex_items 0 12 4 = 8" by code_simp
  from mm_chunk_end_whole_images[OF _ _ this] show ?thesis using \<open>mm_chunk_end ex_items 0 12 4 = 8\<close> by simp
qed

subsection \<open>The gather plan\<close>

definition rows_planned :: "int \<Rightarrow> plan_row list \<Rightarrow> int" where
  "rows_planned h plan = sum_list (map (\<lambda>p. pl_row_hi p - pl_row_lo p) (filter (\<lambda>p. pl_hash p = h) plan))"

definition rows_wanted :: "int \<Rightarrow> mm_item list \<Rightarrow> int \<Rightarrow> int" where
  "rows_wanted h items c = sum_list (map (\<lambda>i. mm_rows_after i c) (filter (\<lambda>i. mm_hash i = h) items))"

lemma rows_planned_simps [simp]:
  "rows_planned h [] = 0"
  "rows_planned h (p # plan) = (if pl_hash p = h then pl_row_hi p - pl_row_lo p else 0) + rows_planned h plan"
  "rows_planned h (plan @ plan') = rows_planned h plan + rows_planned h plan'"
  by (simp_all add: rows_planned_def)

lemma mm_rows_after_nonneg: "0 \<le> mm_rows_after item c"
  unfolding mm_rows_after_def by (intro sum_list_nonneg) auto

lemma rows_wanted_nonneg: "0 \<le> rows_wanted h items c"
  unfolding rows_wanted_def by (intro sum_list_nonneg) (auto simp: mm_rows_after_nonneg)

lemma plan_spans_rows:
  assumes "w_lo \<le> w_hi"
  shows "rows_planned h (plan_spans uid h' n w_lo w_hi base spans) =
    (if h' = h then sum_list (map (\<lambda>(lo, hi). max 0 (hi - max lo w_lo)) spans)
       - sum_list (map (\<lambda>(lo, hi). max 0 (hi - max lo w_hi)) spans) else 0)"
  using assms by (induction spans arbitrary: base) (auto simp: Let_def)

lemma plan_items_rows:
  "w_lo \<le> w_hi \<Longrightarrow> rows_planned h (snd (plan_items uid w_lo w_hi ec queued items)) =
    rows_wanted h items w_lo - rows_wanted h items w_hi"
proof (induction items arbitrary: queued)
  case (Cons item items)
  then show ?case
    by (simp add: Let_def split_beta plan_spans_rows rows_wanted_def mm_rows_after_def)
qed (simp add: rows_wanted_def)

text \<open>The gather plan of a prefill chunk \<open>[w_lo, w_hi)\<close> takes, of every image, exactly the embedding rows that
  \<open>mm_rows_after\<close> counts as outstanding at the chunk's start and no longer outstanding at its end: what a
  request registers with the encoder cache is what its chunks gather.\<close>

theorem plan_mm_chunk_rows:
  assumes "w_lo \<le> w_hi"
  shows "rows_planned h (snd (plan_mm_chunk uid items w_lo w_hi ec)) =
    rows_wanted h items w_lo - rows_wanted h items w_hi"
  using plan_items_rows[OF assms] by (simp add: plan_mm_chunk_def)

theorem plan_mm_chunk_rows_witness:
  "rows_planned 7 (snd (plan_mm_chunk 1 ex_items 4 22 (\<lambda>_. False))) = 4 \<and> rows_wanted 7 ex_items 4 = 6"
  using plan_mm_chunk_rows[of 4 22 7 1 ex_items "\<lambda>_. False"]
  by (simp add: rows_wanted_def ex_items_def mm_rows_after_def)

lemma plan_items_step:
  "plan_items uid w_lo w_hi ec q (item # items) =
    (let rows = plan_spans uid (mm_hash item) (num_tokens item) w_lo w_hi 0 (mm_offsets item);
         job = mm_hash item \<notin> q \<and> \<not> ec (mm_hash item) \<and> rows \<noteq> [];
         rest = plan_items uid w_lo w_hi ec (if job then insert (mm_hash item) q else q) items
     in ((if job then [item] else []) @ fst rest, rows @ snd rest))"
  by (auto simp add: Let_def split_beta)

lemma plan_items_jobs:
  "i \<in> set (fst (plan_items uid w_lo w_hi ec queued items)) \<Longrightarrow> \<not> ec (mm_hash i) \<and> mm_hash i \<notin> queued"
  by (induction items arbitrary: queued) (auto simp: plan_items_step Let_def simp del: plan_items.simps(2) split: if_splits)

lemma plan_items_distinct:
  "distinct (map mm_hash (fst (plan_items uid w_lo w_hi ec queued items)))"
proof (induction items arbitrary: queued)
  case (Cons item items)
  then show ?case
    using plan_items_jobs[of _ uid w_lo w_hi ec "insert (mm_hash item) queued" items]
    by (fastforce simp: plan_items_step Let_def simp del: plan_items.simps(2))
qed simp

lemma plan_spans_hash: "p \<in> set (plan_spans uid h n w_lo w_hi base spans) \<Longrightarrow> pl_hash p = h"
  by (induction spans arbitrary: base) (auto simp: Let_def split: if_splits)

lemma plan_items_encoded:
  "p \<in> set (snd (plan_items uid w_lo w_hi ec queued items)) \<Longrightarrow>
    ec (pl_hash p) \<or> pl_hash p \<in> queued \<or> pl_hash p \<in> mm_hash ` set (fst (plan_items uid w_lo w_hi ec queued items))"
proof (induction items arbitrary: queued)
  case (Cons item items)
  show ?case
  proof (cases "p \<in> set (plan_spans uid (mm_hash item) (num_tokens item) w_lo w_hi 0 (mm_offsets item))")
    case True
    then show ?thesis using plan_spans_hash[OF True] by (auto simp: plan_items_step Let_def simp del: plan_items.simps(2))
  next
    case False
    let ?q = "if mm_hash item \<notin> queued \<and> \<not> ec (mm_hash item)
      \<and> plan_spans uid (mm_hash item) (num_tokens item) w_lo w_hi 0 (mm_offsets item) \<noteq> []
      then insert (mm_hash item) queued else queued"
    have "p \<in> set (snd (plan_items uid w_lo w_hi ec ?q items))"
      using Cons.prems False by (auto simp: plan_items_step Let_def simp del: plan_items.simps(2) split: if_splits)
    from Cons.IH[OF this] show ?thesis
      by (auto simp: plan_items_step Let_def simp del: plan_items.simps(2) split: if_splits)
  qed
qed simp

lemma plan_spans_hashes:
  "pl_hash ` set (plan_spans uid h n w_lo w_hi base spans) =
    (if plan_spans uid h n w_lo w_hi base spans = [] then {} else {h})"
  using plan_spans_hash[of _ uid h n w_lo w_hi base spans] by (cases "plan_spans uid h n w_lo w_hi base spans") auto

lemma plan_items_gathered:
  "i \<in> set (fst (plan_items uid w_lo w_hi ec queued items)) \<Longrightarrow>
    mm_hash i \<in> pl_hash ` set (snd (plan_items uid w_lo w_hi ec queued items))"
  by (induction items arbitrary: queued)
    (auto simp: plan_items_step Let_def plan_spans_hashes image_Un simp del: plan_items.simps(2) split: if_splits)

text \<open>The encoder jobs of a chunk name every missing image once: no image twice, none that the encoder cache
  already holds, none that the chunk does not gather from; and every gathered image is cached or encoded first.\<close>

theorem plan_mm_chunk_jobs:
  "plan_mm_chunk uid items w_lo w_hi ec = (jobs, plan) \<Longrightarrow>
    distinct (map mm_hash jobs) \<and> (\<forall>i\<in>set jobs. \<not> ec (mm_hash i) \<and> mm_hash i \<in> pl_hash ` set plan)
    \<and> (\<forall>p\<in>set plan. ec (pl_hash p) \<or> pl_hash p \<in> mm_hash ` set jobs)"
  using plan_items_jobs[of _ uid w_lo w_hi ec "{}" items] plan_items_distinct[of uid w_lo w_hi ec "{}" items]
    plan_items_encoded[of _ uid w_lo w_hi ec "{}" items]
    plan_items_gathered[of _ uid w_lo w_hi ec "{}" items]
  by (simp add: plan_mm_chunk_def)

theorem plan_mm_chunk_jobs_witness:
  "map mm_hash (fst (plan_mm_chunk 1 (ex_items @ ex_items) 0 15 (\<lambda>h. h = 9))) = [7]"
proof -
  obtain jobs plan where jp: "plan_mm_chunk 1 (ex_items @ ex_items) 0 15 (\<lambda>h. h = 9) = (jobs, plan)" by fastforce
  moreover have "map mm_hash (fst (plan_mm_chunk 1 (ex_items @ ex_items) 0 15 (\<lambda>h. h = 9))) = [7]" by code_simp
  ultimately show ?thesis using plan_mm_chunk_jobs[OF jp] by simp
qed

end
