(* ===== verification/EncoderCache.thy ===== *)
theory EncoderCache
  imports MultiModal
begin

text \<open>
  \<^verbatim>\<open>mm/encoder_cache.py\<close> (\<open>EncoderCache\<close>): image embeddings keyed by content hash, each with the
  rows every request has still to gather; and \<open>Engine._run_mm_encoder\<close> of
  \<^verbatim>\<open>engine/engine.py\<close>, which encodes a chunk's images and gathers its rows.  An embedding is
  the list of its rows; the encoder model is the parameter \<open>encode\<close>.
\<close>

section \<open>State and operations\<close>

type_synonym embedding = "int list list"

record ec_entry =
  ee_tensor :: "embedding option"
  ee_remaining :: "(int \<times> int) list"

record encoder_cache =
  ec_storage :: string
  ec_entries :: "(int \<times> ec_entry) list"

definition ec_init :: "string \<Rightarrow> encoder_cache option" where
  "ec_init storage = do {
     _ \<leftarrow> py_assert (storage = ''cpu'' \<or> storage = ''cuda'');
     Some \<lparr>ec_storage = storage, ec_entries = []\<rparr> }"

definition ec_register :: "int \<Rightarrow> int \<Rightarrow> int \<Rightarrow> encoder_cache \<Rightarrow> encoder_cache" where
  "ec_register h uid rows ec =
     (if rows \<le> 0 then ec
      else (let e = (case map_of (ec_entries ec) h of None \<Rightarrow> \<lparr>ee_tensor = None, ee_remaining = []\<rparr> | Some e \<Rightarrow> e);
                prev = (case map_of (ee_remaining e) uid of None \<Rightarrow> 0 | Some n \<Rightarrow> n)
            in ec\<lparr>ec_entries := AList.update h (e\<lparr>ee_remaining := AList.update uid (prev + rows) (ee_remaining e)\<rparr>) (ec_entries ec)\<rparr>))"

definition ec_has :: "encoder_cache \<Rightarrow> int \<Rightarrow> bool" where
  "ec_has ec h = (case map_of (ec_entries ec) h of None \<Rightarrow> False | Some e \<Rightarrow> ee_tensor e \<noteq> None)"

text \<open>Both storages keep a copy with the same rows; an image that was never registered is an assertion failure.\<close>

definition ec_put :: "int \<Rightarrow> embedding \<Rightarrow> encoder_cache \<Rightarrow> encoder_cache option" where
  "ec_put h emb ec =
     (case map_of (ec_entries ec) h of
        None \<Rightarrow> None
      | Some e \<Rightarrow>
          (if ee_tensor e \<noteq> None then Some ec
           else Some (ec\<lparr>ec_entries := AList.update h (e\<lparr>ee_tensor := Some emb\<rparr>) (ec_entries ec)\<rparr>)))"

definition ec_get_slice :: "int \<Rightarrow> int \<Rightarrow> int \<Rightarrow> encoder_cache \<Rightarrow> embedding option" where
  "ec_get_slice h lo hi ec = do {
     e \<leftarrow> map_of (ec_entries ec) h;
     emb \<leftarrow> ee_tensor e;
     Some (slice (nat lo) (nat hi) emb) }"

definition ec_consume :: "int \<Rightarrow> int \<Rightarrow> int \<Rightarrow> encoder_cache \<Rightarrow> encoder_cache option" where
  "ec_consume h uid rows ec = do {
     e \<leftarrow> map_of (ec_entries ec) h;
     n \<leftarrow> map_of (ee_remaining e) uid;
     let left = n - rows;
     _ \<leftarrow> py_assert (left \<ge> 0);
     Some (if left \<noteq> 0
           then ec\<lparr>ec_entries := AList.update h (e\<lparr>ee_remaining := AList.update uid left (ee_remaining e)\<rparr>) (ec_entries ec)\<rparr>
           else (let rest = AList.delete uid (ee_remaining e)
                 in if rest = [] then ec\<lparr>ec_entries := AList.delete h (ec_entries ec)\<rparr>
                    else ec\<lparr>ec_entries := AList.update h (e\<lparr>ee_remaining := rest\<rparr>) (ec_entries ec)\<rparr>)) }"

fun ec_release :: "int \<Rightarrow> int list \<Rightarrow> encoder_cache \<Rightarrow> encoder_cache" where
  "ec_release uid [] ec = ec"
| "ec_release uid (h # hs) ec =
     ec_release uid hs
       (case map_of (ec_entries ec) h of
          None \<Rightarrow> ec
        | Some e \<Rightarrow>
            (let rest = AList.delete uid (ee_remaining e)
             in if rest = [] then ec\<lparr>ec_entries := AList.delete h (ec_entries ec)\<rparr>
                else ec\<lparr>ec_entries := AList.update h (e\<lparr>ee_remaining := rest\<rparr>) (ec_entries ec)\<rparr>))"

definition ec_stats :: "nat \<Rightarrow> encoder_cache \<Rightarrow> nat \<times> nat" where
  "ec_stats element_size ec =
     (let stored = List.map_filter (\<lambda>(_, e). ee_tensor e) (ec_entries ec)
      in (length stored, sum_list (map (\<lambda>t. sum_list (map length t) * element_size) stored)))"

section \<open>Engine: encoding and gathering\<close>

definition encode_job :: "(mm_item \<Rightarrow> embedding) \<Rightarrow> mm_item \<Rightarrow> encoder_cache \<Rightarrow> encoder_cache option" where
  "encode_job encode item ec =
     (if ec_has ec (mm_hash item) then Some ec
      else ec_put (mm_hash item) (case mm_precomputed item of Some emb \<Rightarrow> emb | None \<Rightarrow> encode item) ec)"

text \<open>The feature buffers of an encoded item are dropped.\<close>

definition clear_item :: "mm_item \<Rightarrow> mm_item" where
  "clear_item item = item\<lparr>mm_feature := None, mm_precomputed := None\<rparr>"

fun encode_jobs :: "(mm_item \<Rightarrow> embedding) \<Rightarrow> mm_item list \<Rightarrow> encoder_cache \<Rightarrow> encoder_cache option" where
  "encode_jobs encode [] ec = Some ec"
| "encode_jobs encode (item # items) ec = Option.bind (encode_job encode item ec) (encode_jobs encode items)"

fun gather :: "plan_row list \<Rightarrow> encoder_cache \<Rightarrow> (encoder_cache \<times> embedding) option" where
  "gather [] ec = Some (ec, [])"
| "gather (p # plan) ec = do {
     part \<leftarrow> ec_get_slice (pl_hash p) (pl_row_lo p) (pl_row_hi p) ec;
     ec \<leftarrow> ec_consume (pl_hash p) (pl_uid p) (pl_row_hi p - pl_row_lo p) ec;
     (ec, parts) \<leftarrow> gather plan ec;
     Some (ec, part @ parts) }"

definition run_mm_encoder ::
  "(mm_item \<Rightarrow> embedding) \<Rightarrow> mm_item list \<Rightarrow> plan_row list \<Rightarrow> encoder_cache \<Rightarrow>
     (encoder_cache \<times> mm_item list \<times> embedding) option" where
  "run_mm_encoder encode jobs plan ec = do {
     _ \<leftarrow> py_assert (\<forall>item\<in>set jobs. mm_hash item \<in> pl_hash ` set plan);
     ec \<leftarrow> encode_jobs encode jobs ec;
     (ec, embeds) \<leftarrow> gather plan ec;
     Some (ec, map clear_item jobs, embeds) }"

section \<open>Claims\<close>

text \<open>What is outstanding: the abstraction of the cache to a ledger of rows per image and request.\<close>

definition claims :: "encoder_cache \<Rightarrow> int \<Rightarrow> int \<Rightarrow> int" where
  "claims ec h uid =
     (case map_of (ec_entries ec) h of None \<Rightarrow> 0
      | Some e \<Rightarrow> (case map_of (ee_remaining e) uid of None \<Rightarrow> 0 | Some n \<Rightarrow> n))"

definition entry_ok :: "ec_entry \<Rightarrow> bool" where
  "entry_ok e \<longleftrightarrow> ee_remaining e \<noteq> [] \<and> (\<forall>u n. map_of (ee_remaining e) u = Some n \<longrightarrow> 0 < n)"

definition ec_ok :: "encoder_cache \<Rightarrow> bool" where
  "ec_ok ec \<longleftrightarrow> (\<forall>h e. map_of (ec_entries ec) h = Some e \<longrightarrow> entry_ok e)"

lemma ec_ok_entry: "ec_ok ec \<Longrightarrow> map_of (ec_entries ec) h = Some e \<Longrightarrow> entry_ok e"
  by (simp add: ec_ok_def)

lemma entry_ok_pos: "entry_ok e \<Longrightarrow> map_of (ee_remaining e) u = Some n \<Longrightarrow> 0 < n"
  by (simp add: entry_ok_def)

lemma claims_nonneg: "ec_ok ec \<Longrightarrow> 0 \<le> claims ec h u"
  unfolding claims_def by (auto split: option.splits dest!: ec_ok_entry entry_ok_pos intro: less_imp_le)

text \<open>Setting and dropping one entry.\<close>

definition set_entry :: "int \<Rightarrow> ec_entry \<Rightarrow> encoder_cache \<Rightarrow> encoder_cache" where
  "set_entry h e ec = ec\<lparr>ec_entries := AList.update h e (ec_entries ec)\<rparr>"

definition drop_entry :: "int \<Rightarrow> encoder_cache \<Rightarrow> encoder_cache" where
  "drop_entry h ec = ec\<lparr>ec_entries := AList.delete h (ec_entries ec)\<rparr>"

lemma entries_set [simp]: "map_of (ec_entries (set_entry h e ec)) = (map_of (ec_entries ec))(h \<mapsto> e)"
  by (simp add: set_entry_def update_conv')

lemma entries_drop [simp]: "map_of (ec_entries (drop_entry h ec)) = (map_of (ec_entries ec))(h := None)"
  by (simp add: drop_entry_def delete_conv')

lemma ec_ok_set: "ec_ok ec \<Longrightarrow> entry_ok e \<Longrightarrow> ec_ok (set_entry h e ec)"
  by (simp add: ec_ok_def)

lemma ec_ok_drop: "ec_ok ec \<Longrightarrow> ec_ok (drop_entry h ec)"
  by (simp add: ec_ok_def)

lemma alist_Nil_iff: "xs = [] \<longleftrightarrow> (\<forall>k. map_of xs k = None)"
  by (cases xs) (auto intro: exI[of _ "fst (hd xs)"])

lemma entry_exists: "ec_ok ec \<Longrightarrow> (\<exists>e. map_of (ec_entries ec) h = Some e) \<longleftrightarrow> (\<exists>u. 0 < claims ec h u)"
proof -
  assume ok: "ec_ok ec"
  have "\<exists>u. 0 < claims ec h u" if e: "map_of (ec_entries ec) h = Some e" for e
  proof -
    from ec_ok_entry[OF ok e] have "ee_remaining e \<noteq> []" by (simp add: entry_ok_def)
    then obtain u n where "map_of (ee_remaining e) u = Some n" by (auto simp: alist_Nil_iff)
    with e entry_ok_pos[OF ec_ok_entry[OF ok e] this] have "0 < claims ec h u" by (simp add: claims_def)
    then show ?thesis by blast
  qed
  moreover have "\<exists>e. map_of (ec_entries ec) h = Some e" if "0 < claims ec h u" for u
    using that by (auto simp: claims_def split: option.splits)
  ultimately show ?thesis by blast
qed

subsection \<open>What each operation does to the ledger\<close>

lemma register_ok:
  assumes "ec_ok ec"
  shows "ec_ok (ec_register h u rows ec) \<and>
    (\<forall>h' u'. claims (ec_register h u rows ec) h' u' = claims ec h' u' + (if h' = h \<and> u' = u then max 0 rows else 0)) \<and>
    ec_has (ec_register h u rows ec) = ec_has ec"
proof (cases "rows \<le> 0")
  case False
  define e where "e = (case map_of (ec_entries ec) h of None \<Rightarrow> \<lparr>ee_tensor = None, ee_remaining = []\<rparr> | Some e \<Rightarrow> e)"
  define prev where "prev = (case map_of (ee_remaining e) u of None \<Rightarrow> 0 | Some n \<Rightarrow> n)"
  define e' where "e' = e\<lparr>ee_remaining := AList.update u (prev + rows) (ee_remaining e)\<rparr>"
  have eq: "ec_register h u rows ec = set_entry h e' ec"
    using False by (simp add: ec_register_def set_entry_def e'_def prev_def e_def Let_def)
  have pos: "0 < n" if "map_of (ee_remaining e) v = Some n" for v n
    using that assms by (auto simp: e_def ec_ok_def entry_ok_def split: option.splits)
  have "0 \<le> prev" using pos by (auto simp: prev_def less_imp_le split: option.splits)
  then have ok': "entry_ok e'" using pos False by (auto simp: entry_ok_def e'_def update_conv')
  have cl: "claims ec h v = (case map_of (ee_remaining e) v of None \<Rightarrow> 0 | Some n \<Rightarrow> n)" for v
    by (simp add: claims_def e_def split: option.splits)
  have "claims (set_entry h e' ec) h' u' = claims ec h' u' + (if h' = h \<and> u' = u then rows else 0)" for h' u'
  proof (cases "h' = h")
    case True
    then show ?thesis using cl[of u'] cl[of u] by (auto simp: claims_def e'_def update_conv' prev_def split: option.splits)
  qed (simp add: claims_def)
  moreover have "ec_has (set_entry h e' ec) = ec_has ec"
    by (rule ext) (auto simp: ec_has_def e'_def e_def split: option.splits)
  ultimately show ?thesis using ec_ok_set[OF assms ok'] False by (simp add: eq)
qed (use assms in \<open>simp add: ec_register_def\<close>)

lemma put_ok:
  assumes "ec_ok ec" "map_of (ec_entries ec) h \<noteq> None"
  shows "\<exists>ec'. ec_put h emb ec = Some ec' \<and> ec_ok ec' \<and> claims ec' = claims ec \<and> ec_has ec' = (ec_has ec)(h := True)"
proof -
  from assms obtain e where e: "map_of (ec_entries ec) h = Some e" by auto
  show ?thesis
  proof (cases "ee_tensor e")
    case None
    let ?e = "e\<lparr>ee_tensor := Some emb\<rparr>"
    have put: "ec_put h emb ec = Some (set_entry h ?e ec)" using e None by (simp add: ec_put_def set_entry_def)
    have "entry_ok ?e" using ec_ok_entry[OF assms(1) e] by (simp add: entry_ok_def)
    moreover have "claims (set_entry h ?e ec) = claims ec"
      by (intro ext) (auto simp: claims_def e)
    moreover have "ec_has (set_entry h ?e ec) = (ec_has ec)(h := True)"
      by (rule ext) (auto simp: ec_has_def e)
    ultimately show ?thesis using put ec_ok_set[OF assms(1)] by simp
  next
    case (Some t)
    then have "ec_has ec = (ec_has ec)(h := True)" by (auto simp: ec_has_def e fun_eq_iff)
    then show ?thesis using assms(1) e Some by (auto simp: ec_put_def)
  qed
qed

text \<open>Dropping one request's claim, the common part of \<open>consume\<close> and \<open>release\<close>.\<close>

definition drop_claim :: "int \<Rightarrow> int \<Rightarrow> ec_entry \<Rightarrow> encoder_cache \<Rightarrow> encoder_cache" where
  "drop_claim h u e ec =
     (let rest = AList.delete u (ee_remaining e)
      in if rest = [] then drop_entry h ec else set_entry h (e\<lparr>ee_remaining := rest\<rparr>) ec)"

lemma drop_claim_ok:
  assumes ok: "ec_ok ec" and e: "map_of (ec_entries ec) h = Some e"
  shows "ec_ok (drop_claim h u e ec)
    \<and> (\<forall>h' u'. claims (drop_claim h u e ec) h' u' = (if h' = h \<and> u' = u then 0 else claims ec h' u'))
    \<and> (\<forall>h' u'. 0 < claims (drop_claim h u e ec) h' u' \<longrightarrow> ec_has (drop_claim h u e ec) h' = ec_has ec h')"
proof (cases "AList.delete u (ee_remaining e) = []")
  case True
  then have "map_of (ee_remaining e) v = None" if "v \<noteq> u" for v
    using that by (metis map_of.simps(1) map_of_delete)
  then have "claims ec h v = 0" if "v \<noteq> u" for v using that by (simp add: claims_def e)
  then show ?thesis using True ec_ok_drop[OF ok] by (auto simp: drop_claim_def claims_def ec_has_def)
next
  case False
  have "entry_ok (e\<lparr>ee_remaining := AList.delete u (ee_remaining e)\<rparr>)"
    using ec_ok_entry[OF ok e] False by (auto simp: entry_ok_def delete_conv')
  then show ?thesis using False ec_ok_set[OF ok] by (auto simp: drop_claim_def claims_def ec_has_def e delete_conv')
qed

lemma consume_ok:
  assumes ok: "ec_ok ec" and rows: "0 < rows" "rows \<le> claims ec h u"
  shows "\<exists>ec'. ec_consume h u rows ec = Some ec' \<and> ec_ok ec'
    \<and> (\<forall>h' u'. claims ec' h' u' = claims ec h' u' - (if h' = h \<and> u' = u then rows else 0))
    \<and> (\<forall>h' u'. 0 < claims ec' h' u' \<longrightarrow> ec_has ec' h' = ec_has ec h')"
proof -
  from rows obtain e n where e: "map_of (ec_entries ec) h = Some e" and n: "map_of (ee_remaining e) u = Some n"
    and cl: "claims ec h u = n" by (auto simp: claims_def split: option.splits)
  show ?thesis
  proof (cases "n - rows = 0")
    case True
    have "ec_consume h u rows ec = Some (drop_claim h u e ec)"
      using e n True by (simp add: ec_consume_def py_assert_def drop_claim_def set_entry_def drop_entry_def Let_def)
    then show ?thesis using drop_claim_ok[OF ok e, of u] cl True by auto
  next
    case False
    let ?e = "e\<lparr>ee_remaining := AList.update u (n - rows) (ee_remaining e)\<rparr>"
    have c: "ec_consume h u rows ec = Some (set_entry h ?e ec)"
      using e n False rows(2) cl by (simp add: ec_consume_def py_assert_def set_entry_def Let_def)
    have "entry_ok ?e" using ec_ok_entry[OF ok e] False rows(2) cl by (auto simp: entry_ok_def update_conv')
    then show ?thesis using c ec_ok_set[OF ok] n by (auto simp: claims_def ec_has_def e update_conv' split: option.splits)
  qed
qed

lemma release_ok:
  assumes "ec_ok ec"
  shows "ec_ok (ec_release u hs ec)
    \<and> (\<forall>h' u'. claims (ec_release u hs ec) h' u' = (if u' = u \<and> h' \<in> set hs then 0 else claims ec h' u'))
    \<and> (\<forall>h' u'. 0 < claims (ec_release u hs ec) h' u' \<longrightarrow> ec_has (ec_release u hs ec) h' = ec_has ec h')"
  using assms
proof (induction hs arbitrary: ec)
  case (Cons h hs)
  show ?case
  proof (cases "map_of (ec_entries ec) h")
    case None
    then have "claims ec h u = 0" by (simp add: claims_def)
    with Cons.IH[OF Cons.prems] None show ?thesis by auto
  next
    case (Some e)
    have step: "ec_release u (h # hs) ec = ec_release u hs (drop_claim h u e ec)"
      using Some by (simp add: drop_claim_def drop_entry_def set_entry_def Let_def)
    note d = drop_claim_ok[OF Cons.prems Some, of u]
    note ih = Cons.IH[OF conjunct1[OF d]]
    have cl: "claims (ec_release u (h # hs) ec) h' u' = (if u' = u \<and> h' \<in> set (h # hs) then 0 else claims ec h' u')"
      for h' u' using d ih unfolding step by auto
    have "ec_has (ec_release u (h # hs) ec) h' = ec_has ec h'" if "0 < claims (ec_release u (h # hs) ec) h' u'" for h' u'
    proof -
      from that have "0 < claims (drop_claim h u e ec) h' u'" using ih unfolding step by (auto split: if_splits)
      with that d ih show ?thesis unfolding step by blast
    qed
    with cl ih show ?thesis unfolding step by blast
  qed
qed simp

subsection \<open>Reachable caches\<close>

inductive ec_reach :: "encoder_cache \<Rightarrow> bool" where
  start: "ec_init storage = Some ec \<Longrightarrow> ec_reach ec"
| register: "ec_reach ec \<Longrightarrow> ec_reach (ec_register h u rows ec)"
| put: "ec_reach ec \<Longrightarrow> ec_put h emb ec = Some ec' \<Longrightarrow> ec_reach ec'"
| consume: "ec_reach ec \<Longrightarrow> 0 < rows \<Longrightarrow> ec_consume h u rows ec = Some ec' \<Longrightarrow> ec_reach ec'"
| release: "ec_reach ec \<Longrightarrow> ec_reach (ec_release u hs ec)"

lemma put_Some: "ec_put h emb ec = Some ec' \<Longrightarrow> map_of (ec_entries ec) h \<noteq> None"
  by (auto simp: ec_put_def split: option.splits)

lemma consume_Some: "ec_consume h u rows ec = Some ec' \<Longrightarrow> rows \<le> claims ec h u"
  by (auto simp: ec_consume_def claims_def py_assert_def Let_def bind_eq_Some_conv split: if_splits)

lemma ec_reach_ok: "ec_reach ec \<Longrightarrow> ec_ok ec"
proof (induction rule: ec_reach.induct)
  case (start storage ec)
  then show ?case by (auto simp: ec_init_def ec_ok_def py_assert_def bind_eq_Some_conv split: if_splits)
next
  case (put ec h emb ec')
  then show ?case using put_ok[OF put.IH put_Some, of h emb ec' emb] by auto
next
  case (consume ec rows h u ec')
  then show ?case using consume_ok[OF consume.IH _ consume_Some] by fastforce
qed (auto simp: register_ok release_ok)

text \<open>In every reachable encoder cache an image has an entry exactly while some request still has rows of it to
  gather: nothing leaks after the last row, and nothing is dropped early.\<close>

theorem encoder_entry_lives:
  assumes "ec_reach ec"
  shows "(\<exists>e. map_of (ec_entries ec) h = Some e) \<longleftrightarrow> (\<exists>uid. 0 < claims ec h uid)"
  using entry_exists[OF ec_reach_ok[OF assms]] .

definition ex_ec :: encoder_cache where
  "ex_ec = ec_register 9 2 8 (ec_register 7 1 8 \<lparr>ec_storage = ''cpu'', ec_entries = []\<rparr>)"

lemma ex_ec_reach: "ec_reach ex_ec"
  unfolding ex_ec_def by (intro ec_reach.register ec_reach.start[of "''cpu''"]) (simp add: ec_init_def py_assert_def)

theorem encoder_entry_lives_witness: "\<exists>e. map_of (ec_entries ex_ec) 9 = Some e"
proof -
  have "0 < claims ex_ec 9 2" by code_simp
  then show ?thesis using encoder_entry_lives[OF ex_ec_reach, of 9] by blast
qed

subsection \<open>Gathering a chunk\<close>

definition rows_of :: "plan_row list \<Rightarrow> int \<Rightarrow> int \<Rightarrow> int" where
  "rows_of plan h uid = rows_planned h (filter (\<lambda>p. pl_uid p = uid) plan)"

lemma rows_of_simps [simp]:
  "rows_of [] h u = 0"
  "rows_of (p # plan) h u = (if pl_hash p = h \<and> pl_uid p = u then pl_row_hi p - pl_row_lo p else 0) + rows_of plan h u"
  by (simp_all add: rows_of_def)

lemma rows_of_nonneg: "\<forall>p\<in>set plan. pl_row_lo p < pl_row_hi p \<Longrightarrow> 0 \<le> rows_of plan h u"
  by (induction plan) auto

lemma gather_ok:
  assumes "ec_ok ec" "\<forall>p\<in>set plan. pl_row_lo p < pl_row_hi p" "\<forall>h u. rows_of plan h u \<le> claims ec h u"
    "\<forall>p\<in>set plan. ec_has ec (pl_hash p)"
  shows "\<exists>ec' embeds. gather plan ec = Some (ec', embeds) \<and> ec_ok ec' \<and>
    (\<forall>h u. claims ec' h u = claims ec h u - rows_of plan h u)"
  using assms
proof (induction plan arbitrary: ec)
  case (Cons p plan)
  let ?h = "pl_hash p" and ?u = "pl_uid p" and ?n = "pl_row_hi p - pl_row_lo p"
  have n: "0 < ?n" using Cons.prems(2) by simp
  have nn: "0 \<le> rows_of plan h u" for h u using Cons.prems(2) by (intro rows_of_nonneg) simp
  have le: "?n \<le> claims ec ?h ?u" using Cons.prems(3)[rule_format, of ?h ?u] nn[of ?h ?u] by simp
  from consume_ok[OF Cons.prems(1) n le] obtain ec1 where c: "ec_consume ?h ?u ?n ec = Some ec1" "ec_ok ec1"
    "\<forall>h' u'. claims ec1 h' u' = claims ec h' u' - (if h' = ?h \<and> u' = ?u then ?n else 0)"
    "\<forall>h' u'. 0 < claims ec1 h' u' \<longrightarrow> ec_has ec1 h' = ec_has ec h'" by auto
  have le1: "\<forall>h u. rows_of plan h u \<le> claims ec1 h u"
  proof (intro allI)
    show "rows_of plan h u \<le> claims ec1 h u" for h u
      using Cons.prems(3)[rule_format, of h u] c(3)[rule_format, of h u] by (auto split: if_splits)
  qed
  have "\<forall>q\<in>set plan. ec_has ec1 (pl_hash q)"
  proof
    fix q assume q: "q \<in> set plan"
    have "0 < rows_of plan (pl_hash q) (pl_uid q)"
      using q Cons.prems(2) by (induction plan) (auto intro: add_pos_nonneg add_nonneg_pos rows_of_nonneg)
    then have "0 < claims ec1 (pl_hash q) (pl_uid q)" using le1 by (metis order_less_le_trans)
    with c(4) have "ec_has ec1 (pl_hash q) = ec_has ec (pl_hash q)" by blast
    then show "ec_has ec1 (pl_hash q)" using Cons.prems(4) q by simp
  qed
  from Cons.IH[OF c(2) _ le1 this] Cons.prems(2) obtain ec' embeds where g: "gather plan ec1 = Some (ec', embeds)"
    "ec_ok ec'" "\<forall>h u. claims ec' h u = claims ec1 h u - rows_of plan h u" by auto
  from Cons.prems(4) obtain part where "ec_get_slice ?h (pl_row_lo p) (pl_row_hi p) ec = Some part"
    by (auto simp: ec_has_def ec_get_slice_def split: option.splits)
  with c(1,3) g show ?case by auto
qed simp

lemma encode_jobs_ok:
  assumes "ec_ok ec" "\<forall>i\<in>set jobs. map_of (ec_entries ec) (mm_hash i) \<noteq> None"
  shows "\<exists>ec'. encode_jobs encode jobs ec = Some ec' \<and> ec_ok ec' \<and> claims ec' = claims ec
    \<and> (\<forall>h. ec_has ec' h \<longleftrightarrow> ec_has ec h \<or> h \<in> mm_hash ` set jobs)"
  using assms
proof (induction jobs arbitrary: ec)
  case (Cons i jobs)
  have "\<exists>ec1. encode_job encode i ec = Some ec1 \<and> ec_ok ec1 \<and> claims ec1 = claims ec \<and> ec_has ec1 = (ec_has ec)(mm_hash i := True)"
    using put_ok[OF Cons.prems(1), of "mm_hash i"] Cons.prems by (auto simp: encode_job_def fun_eq_iff)
  then obtain ec1 where e: "encode_job encode i ec = Some ec1" "ec_ok ec1" "claims ec1 = claims ec"
    "ec_has ec1 = (ec_has ec)(mm_hash i := True)" by blast
  have "\<forall>j\<in>set jobs. map_of (ec_entries ec1) (mm_hash j) \<noteq> None"
    using Cons.prems entry_exists[OF Cons.prems(1)] entry_exists[OF e(2)] e(3) by fastforce
  from Cons.IH[OF e(2) this] e show ?case by auto
qed simp

lemma plan_spans_pos: "p \<in> set (plan_spans uid h n w_lo w_hi base spans) \<Longrightarrow> pl_row_lo p < pl_row_hi p \<and> pl_uid p = uid"
  by (induction spans arbitrary: base) (auto simp: Let_def split: if_splits)

lemma plan_items_pos: "p \<in> set (snd (plan_items uid w_lo w_hi ec queued items)) \<Longrightarrow> pl_row_lo p < pl_row_hi p \<and> pl_uid p = uid"
  by (induction items arbitrary: queued) (auto simp: plan_items_step Let_def plan_spans_pos simp del: plan_items.simps(2))

lemma chunk_ok:
  assumes ok: "ec_ok ec" and w: "w_lo \<le> w_hi"
    and cl: "\<forall>h. claims ec h uid = rows_wanted h items w_lo"
    and jp: "plan_mm_chunk uid items w_lo w_hi (ec_has ec) = (jobs, plan)"
  shows "\<exists>ec' items' embeds. run_mm_encoder encode jobs plan ec = Some (ec', items', embeds) \<and> ec_ok ec'
    \<and> (\<forall>h. claims ec' h uid = rows_wanted h items w_hi) \<and> (\<forall>h u. u \<noteq> uid \<longrightarrow> claims ec' h u = claims ec h u)"
proof -
  have pl: "plan = snd (plan_items uid w_lo w_hi (ec_has ec) {} items)"
    and jb: "jobs = fst (plan_items uid w_lo w_hi (ec_has ec) {} items)" using jp by (simp_all add: plan_mm_chunk_def)
  have pos: "\<forall>p\<in>set plan. pl_row_lo p < pl_row_hi p" "\<forall>p\<in>set plan. pl_uid p = uid" using plan_items_pos pl by auto
  have rows: "rows_of plan h uid = rows_wanted h items w_lo - rows_wanted h items w_hi" for h
    using plan_items_rows[OF w] pl filter_True[OF pos(2)] by (simp add: rows_of_def)
  have other: "rows_of plan h u = 0" if "u \<noteq> uid" for h u
    using filter_False[of plan "\<lambda>p. pl_uid p = u"] pos(2) that by (auto simp: rows_of_def)
  have le: "\<forall>h u. rows_of plan h u \<le> claims ec h u"
  proof (intro allI)
    show "rows_of plan h u \<le> claims ec h u" for h u
      using rows other cl rows_wanted_nonneg[of h items w_hi] claims_nonneg[OF ok] by (cases "u = uid") auto
  qed
  have in_plan: "mm_hash ` set jobs \<subseteq> pl_hash ` set plan" using plan_items_gathered jb pl by blast
  have "\<forall>i\<in>set jobs. map_of (ec_entries ec) (mm_hash i) \<noteq> None"
  proof
    fix i assume "i \<in> set jobs"
    with in_plan obtain p where p: "p \<in> set plan" "pl_hash p = mm_hash i" by force
    have "0 < rows_of plan (pl_hash p) (pl_uid p)"
      using p(1) pos(1) by (induction plan) (auto intro: add_pos_nonneg add_nonneg_pos rows_of_nonneg)
    then have "0 < claims ec (mm_hash i) (pl_uid p)" using le p(2) by (metis order_less_le_trans)
    then show "map_of (ec_entries ec) (mm_hash i) \<noteq> None" using entry_exists[OF ok] by blast
  qed
  from encode_jobs_ok[OF ok this, of encode] obtain ec1 where e: "encode_jobs encode jobs ec = Some ec1" "ec_ok ec1"
    "claims ec1 = claims ec" "\<forall>h. ec_has ec1 h \<longleftrightarrow> ec_has ec h \<or> h \<in> mm_hash ` set jobs" by blast
  have "\<forall>p\<in>set plan. ec_has ec1 (pl_hash p)" using plan_items_encoded[of _ uid w_lo w_hi "ec_has ec" "{}" items] e(4) pl jb by auto
  from gather_ok[OF e(2) pos(1) _ this] le e(3) obtain ec' embeds where g: "gather plan ec1 = Some (ec', embeds)" "ec_ok ec'"
    "\<forall>h u. claims ec' h u = claims ec h u - rows_of plan h u" by auto
  have "run_mm_encoder encode jobs plan ec = Some (ec', map clear_item jobs, embeds)"
    using in_plan e(1) g(1) by (auto simp: run_mm_encoder_def py_assert_def)
  then show ?thesis using g(2,3) rows other cl by auto
qed

text \<open>A whole prompt: its chunks end at the given positions, each chunk planned against the cache it finds.\<close>

fun run_chunks ::
  "(mm_item \<Rightarrow> embedding) \<Rightarrow> int \<Rightarrow> mm_item list \<Rightarrow> int \<Rightarrow> int list \<Rightarrow> encoder_cache \<Rightarrow> encoder_cache option" where
  "run_chunks encode uid items lo [] ec = Some ec"
| "run_chunks encode uid items lo (hi # ends) ec = do {
     let (jobs, plan) = plan_mm_chunk uid items lo hi (ec_has ec);
     (ec, _, _) \<leftarrow> run_mm_encoder encode jobs plan ec;
     run_chunks encode uid items hi ends ec }"

lemma run_chunks_ok:
  assumes "ec_ok ec" "sorted (lo # ends)" "\<forall>h. claims ec h uid = rows_wanted h items lo"
  shows "\<exists>ec'. run_chunks encode uid items lo ends ec = Some ec' \<and> ec_ok ec'
    \<and> (\<forall>h. claims ec' h uid = rows_wanted h items (last (lo # ends))) \<and> (\<forall>h u. u \<noteq> uid \<longrightarrow> claims ec' h u = claims ec h u)"
  using assms
proof (induction ends arbitrary: lo ec)
  case (Cons hi ends)
  obtain jobs plan where jp: "plan_mm_chunk uid items lo hi (ec_has ec) = (jobs, plan)" by fastforce
  from chunk_ok[OF Cons.prems(1) _ Cons.prems(3) jp, where encode = encode] Cons.prems(2) obtain ec1 is1 em where
    r: "run_mm_encoder encode jobs plan ec = Some (ec1, is1, em)" "ec_ok ec1"
    "\<forall>h. claims ec1 h uid = rows_wanted h items hi" "\<forall>h u. u \<noteq> uid \<longrightarrow> claims ec1 h u = claims ec h u" by auto
  have "sorted (hi # ends)" using Cons.prems(2) by simp
  from Cons.IH[OF r(2) this r(3)] r(1,4) jp show ?case by auto
qed simp

lemma register_all:
  "ec_ok ec \<Longrightarrow> ec_ok (fold (\<lambda>item. ec_register (mm_hash item) uid (mm_rows_after item c)) items ec) \<and>
    (\<forall>h u. claims (fold (\<lambda>item. ec_register (mm_hash item) uid (mm_rows_after item c)) items ec) h u =
       claims ec h u + (if u = uid then rows_wanted h items c else 0))"
proof (induction items arbitrary: ec)
  case (Cons item items)
  let ?ec = "ec_register (mm_hash item) uid (mm_rows_after item c) ec"
  have r: "ec_ok ?ec" "\<And>h u. claims ?ec h u = claims ec h u + (if h = mm_hash item \<and> u = uid then mm_rows_after item c else 0)"
    using register_ok[OF Cons.prems, of "mm_hash item" uid "mm_rows_after item c"] mm_rows_after_nonneg[of item c]
    by (auto simp: max_def)
  from Cons.IH[OF r(1)] r(2) show ?case by (auto simp: rows_wanted_def)
qed (simp add: rows_wanted_def)

lemma rows_wanted_done:
  assumes "\<forall>item\<in>set items. \<forall>(lo, hi)\<in>set (mm_offsets item). hi \<le> c"
  shows "rows_wanted h items c = 0"
proof -
  have "mm_rows_after i c = 0" if "i \<in> set items" for i
  proof -
    have "map (\<lambda>(lo, hi). max 0 (hi - max lo c)) (mm_offsets i) = map (\<lambda>_. 0) (mm_offsets i)"
      using that assms by (auto simp: max_def) force+
    then show ?thesis unfolding mm_rows_after_def by (simp only: sum_list_0)
  qed
  then have "map (\<lambda>i. mm_rows_after i c) (filter (\<lambda>i. mm_hash i = h) items) = map (\<lambda>_. 0) (filter (\<lambda>i. mm_hash i = h) items)"
    by auto
  then show ?thesis unfolding rows_wanted_def by (simp only: sum_list_0)
qed

text \<open>C34: A request that registers its images at its cached length and then runs its prefill in any sequence of
  chunks never trips an assertion of the encoder cache, leaves the claims of every other request alone, and holds
  no claim once its last chunk has passed every image.\<close>

theorem encoder_claims_drain:
  assumes "ec_reach ec" "\<forall>h. claims ec h uid = 0" "sorted (lo # ends)"
    "\<forall>item\<in>set items. \<forall>(a, b)\<in>set (mm_offsets item). b \<le> last (lo # ends)"
  shows "\<exists>ec'. run_chunks encode uid items lo ends
      (fold (\<lambda>item. ec_register (mm_hash item) uid (mm_rows_after item lo)) items ec) = Some ec'
    \<and> (\<forall>h u. claims ec' h u = claims ec h u)"
proof -
  note r = register_all[OF ec_reach_ok[OF assms(1)], of uid lo items]
  from run_chunks_ok[OF conjunct1[OF r] assms(3), of uid items encode] r assms(2)
  obtain ec' where e: "run_chunks encode uid items lo ends
      (fold (\<lambda>item. ec_register (mm_hash item) uid (mm_rows_after item lo)) items ec) = Some ec'"
    "\<forall>h. claims ec' h uid = rows_wanted h items (last (lo # ends))" "\<forall>h u. u \<noteq> uid \<longrightarrow> claims ec' h u = claims ec h u" by auto
  then show ?thesis using rows_wanted_done[OF assms(4)] assms(2) by metis
qed

theorem encoder_claims_drain_witness:
  "\<exists>ec'. run_chunks (\<lambda>_. replicate 8 [1]) 3 ex_items 0 [9, 16, 24]
      (fold (\<lambda>item. ec_register (mm_hash item) 3 (mm_rows_after item 0)) ex_items ex_ec) = Some ec'
    \<and> (\<forall>h u. claims ec' h u = claims ex_ec h u)"
  by (rule encoder_claims_drain[OF ex_ec_reach])
    (auto simp: ex_items_def ex_ec_def ec_register_def claims_def split: option.splits)

end
