(* ===== verification/Prefill.thy ===== *)
theory Prefill
  imports CacheLife EncoderCache
begin

text \<open>
  \<^verbatim>\<open>scheduler/prefill.py\<close>: \<open>PrefillAdder\<close> (may a waiting request join this pass, and with how
  many tokens) and \<open>PrefillManager\<close> (the waiting list, the pass over it, aborts).  The managers
  share the cache manager, the table manager, the encoder cache and the request objects: the
  record \<open>world\<close> holds them, requests by object number.  A chunked request of the pending list
  is the object number of its last chunk.
\<close>

section \<open>State\<close>

record world =
  w_cm :: cache_manager
  w_tm :: table_manager
  w_ec :: "encoder_cache option"
  w_reqs :: req_store
  w_next :: nat

record prefill_adder =
  ad_token_budget :: int
  ad_reserved :: int
  ad_keep_images :: bool
  ad_pass_budget :: int
  ad_reserved_swa :: int

record batch =
  b_reqs :: "nat list"
  b_prefill :: bool
  b_new_tokens :: nat
  b_cached_tokens :: nat
  b_admissions :: "(int \<times> nat \<times> nat) list"

record prefill_manager =
  pm_keep_images :: bool
  pm_pending :: "pending_req list"

text \<open>What a successful \<open>_try_allocate_one\<close> hands over.\<close>

record admission =
  am_handle :: cache_handle
  am_table_idx :: int
  am_linear_slot :: "nat option"
  am_ping_pong :: "(nat \<times> nat) option"
  am_restore_src :: "nat option"

text \<open>\<open>__post_init__\<close>: the pass budget starts as the token budget.\<close>

definition new_adder :: "int \<Rightarrow> int \<Rightarrow> bool \<Rightarrow> prefill_adder" where
  "new_adder budget reserved keep_images =
     \<lparr>ad_token_budget = budget, ad_reserved = reserved, ad_keep_images = keep_images, ad_pass_budget = budget,
      ad_reserved_swa = 0\<rparr>"

section \<open>Admission\<close>

definition kv_reservation_size :: "nat \<Rightarrow> nat \<Rightarrow> nat \<Rightarrow> int" where
  "kv_reservation_size page_size total_len clen =
     (int (div_ceil total_len page_size) - int (div_ceil clen page_size)) * int page_size"

definition request_cost :: "nat \<Rightarrow> pending_req \<Rightarrow> nat \<Rightarrow> int" where
  "request_cost page_size p clen = kv_reservation_size page_size (pr_input_len p + pr_output_len p) clen"

text \<open>The recurrent-state currency: three slots, tree snapshots evicted when the pool is short.\<close>

definition hybrid_gate :: "cache_manager \<Rightarrow> (cache_manager \<times> bool) option" where
  "hybrid_gate cm =
     (if \<not> is_hybrid cm then Some (cm, True)
      else do {
        pool \<leftarrow> cm_linear_pool cm;
        cm \<leftarrow> (if lp_num_free_slots pool < 3 then ensure_mamba_slots 3 cm else Some cm);
        pool \<leftarrow> cm_linear_pool cm;
        Some (cm, \<not> lp_num_free_slots pool < 3) })"

text \<open>The window currency: whole pages for the first chunk or one window.\<close>

definition swa_gate :: "int \<Rightarrow> int \<Rightarrow> cache_manager \<Rightarrow> bool option" where
  "swa_gate reserved_swa ext cm =
     (if \<not> swa_paged cm then Some True
      else do {
        window \<leftarrow> cm_window cm;
        avail \<leftarrow> swa_available_size cm;
        let ps = int (cm_page_size cm);
        let need_swa = div_ceil (min (max ext 1) (int window) + 1) ps * ps;
        Some (\<not> avail - reserved_swa < need_swa) })"

text \<open>\<open>token_pool[table_idx, lo:hi].copy_(src)\<close>.\<close>

definition token_copy :: "int \<Rightarrow> nat \<Rightarrow> nat \<Rightarrow> int list \<Rightarrow> table_manager \<Rightarrow> table_manager option" where
  "token_copy ti lo hi src tm = do {
     t \<leftarrow> tensor_index (length (tm_token_pool tm)) ti;
     let row = tm_token_pool tm ! t;
     let m = length (slice lo hi row);
     let src = (if length src = 1 then replicate m (src ! 0) else src);
     if length src \<noteq> m then None
     else Some (tm\<lparr>tm_token_pool := (tm_token_pool tm)[t := patch lo src row]\<rparr>) }"

definition alloc_state_slots :: "cache_manager \<Rightarrow> (cache_manager \<times> nat option \<times> (nat \<times> nat) option) option" where
  "alloc_state_slots cm =
     (if \<not> is_hybrid cm then Some (cm, None, None)
      else do {
        pool \<leftarrow> cm_linear_pool cm;
        (pool, ss) \<leftarrow> lp_alloc 1 pool;
        (pool, pp) \<leftarrow> lp_alloc 2 pool;
        Some (cm\<lparr>cm_linear_pool := Some pool\<rparr>, Some (ss ! 0), Some (pp ! 0, pp ! 1)) })"

definition refuse :: "cache_handle \<Rightarrow> table_manager \<Rightarrow> cache_manager \<Rightarrow>
    (cache_manager \<times> table_manager \<times> admission option) option" where
  "refuse h tm cm = map_option (\<lambda>cm. (cm, tm, None)) (cm_unlock h cm)"

text \<open>The end of \<open>_try_allocate_one\<close>: a table row, the cached part copied into it, the state slots.\<close>

definition seat_request ::
  "pending_req \<Rightarrow> cache_handle \<Rightarrow> nat option \<Rightarrow> cache_manager \<Rightarrow> table_manager \<Rightarrow>
     (cache_manager \<times> table_manager \<times> admission option) option" where
  "seat_request p h mv cm tm = do {
     (tm, t) \<leftarrow> tm_allocate tm;
     let clen = h_cached_len h;
     tm \<leftarrow> (if clen > 0 then token_copy (int t) 0 clen (take clen (pr_input_ids p)) tm else Some tm);
     cm \<leftarrow> seat_prefix h t cm;
     (cm, slot, pp) \<leftarrow> alloc_state_slots cm;
     Some (cm, tm, Some \<lparr>am_handle = h, am_table_idx = int t, am_linear_slot = slot, am_ping_pong = pp, am_restore_src = mv\<rparr>) }"

definition try_allocate_one ::
  "pending_req \<Rightarrow> int \<Rightarrow> prefill_adder \<Rightarrow> cache_manager \<Rightarrow> table_manager \<Rightarrow>
     (cache_manager \<times> table_manager \<times> admission option) option" where
  "try_allocate_one p tic ad cm tm =
     (if tm_available tm = 0 then Some (cm, tm, None)
      else do {
        (cm, h, mv) \<leftarrow> match_req (pr_input_ids p) tic cm;
        let clen = h_cached_len h;
        let estimated = request_cost (cm_page_size cm) p clen;
        if estimated + ad_reserved ad > available_size cm then Some (cm, tm, None)
        else do {
          (cm, h) \<leftarrow> cm_lock h cm;
          if estimated + ad_reserved ad > available_size cm then refuse h tm cm
          else do {
            (cm, enough) \<leftarrow> hybrid_gate cm;
            if \<not> enough then refuse h tm cm
            else do {
              fits \<leftarrow> swa_gate (ad_reserved_swa ad) (int (pr_input_len p) - int clen) cm;
              if \<not> fits then refuse h tm cm
              else seat_request p h mv cm tm } } } })"

section \<open>The chunk of an admitted request\<close>

text \<open>The window pool's cap on a chunk; \<open>Some None\<close>: not even one whole page this pass.\<close>

definition swa_chunk_cap ::
  "int \<Rightarrow> int \<Rightarrow> int \<Rightarrow> nat \<Rightarrow> nat \<Rightarrow> int \<Rightarrow> cache_manager \<Rightarrow> int option option" where
  "swa_chunk_cap clen remain chunk swa_evicted hit reserved_swa cm = do {
     window \<leftarrow> cm_window cm;
     avail \<leftarrow> swa_available_size cm;
     let ps = int (cm_page_size cm);
     let new_evicted = align_down (clen - int window - ps) ps;
     let self_reclaim = max 0 (new_evicted - int (max swa_evicted hit));
     let swa_budget = avail + self_reclaim - reserved_swa;
     let max_end = (div_ceil clen ps + max swa_budget 0 div ps) * ps;
     let chunk = min chunk (max (max_end - clen) 0);
     if 0 < chunk \<and> chunk < remain then
       (let aligned = align_down (clen + chunk) ps - clen
        in Some (if aligned \<le> 0 then None else Some aligned))
     else Some (Some chunk) }"

definition align_chunk :: "nat \<Rightarrow> int \<Rightarrow> int \<Rightarrow> int \<Rightarrow> int" where
  "align_chunk align clen remain chunk =
     (if align > 1 \<and> 0 < chunk \<and> chunk < remain
      then (let aligned = align_down (clen + chunk) (int align) - clen in if aligned > 0 then aligned else chunk)
      else chunk)"

text \<open>Ending the chunk before an image; \<open>None\<close>: leave the image to a pass of its own.\<close>

definition whole_images :: "prefill_adder \<Rightarrow> int \<Rightarrow> mm_item list \<Rightarrow> int \<Rightarrow> int \<Rightarrow> int option" where
  "whole_images ad grain items clen chunk =
     (let fin = mm_chunk_end items clen (clen + chunk) grain
      in case find (\<lambda>(lo, hi). lo < fin \<and> fin < hi) (all_spans items) of
           Some (lo, hi) \<Rightarrow>
             (if ad_token_budget ad < ad_pass_budget ad \<and> hi - clen \<le> ad_pass_budget ad then None
              else Some (fin - clen))
         | None \<Rightarrow> Some (fin - clen))"

definition chunk_unit :: "cache_manager \<Rightarrow> int" where
  "chunk_unit cm = int (lcm (if swa_paged cm then cm_page_size cm else 1)
     (if prefill_chunk_align cm > 1 then prefill_chunk_align cm else 1))"

definition chunk_size ::
  "prefill_adder \<Rightarrow> pending_req \<Rightarrow> nat \<Rightarrow> nat \<Rightarrow> nat \<Rightarrow> cache_manager \<Rightarrow> int option option" where
  "chunk_size ad p clen hit swa_evicted cm = do {
     let remain = int (pr_input_len p) - int clen;
     let chunk = min (ad_token_budget ad) remain;
     capped \<leftarrow> (if swa_paged cm then swa_chunk_cap (int clen) remain chunk swa_evicted hit (ad_reserved_swa ad) cm
                else Some (Some chunk));
     Some (case capped of
         None \<Rightarrow> None
       | Some chunk \<Rightarrow>
           (let chunk = align_chunk (prefill_chunk_align cm) (int clen) remain chunk
            in if ad_keep_images ad \<and> pr_mm_items p \<noteq> [] \<and> chunk < remain
               then whole_images ad (chunk_unit cm) (pr_mm_items p) (int clen) chunk
               else Some chunk)) }"

text \<open>\<open>_add_one_req\<close>: \<open>Some (..., None)\<close> is the code's \<open>None\<close>, a request that gets no chunk this pass.\<close>

definition add_one_req ::
  "pending_req \<Rightarrow> admission \<Rightarrow> nat \<Rightarrow> nat \<Rightarrow> nat \<Rightarrow> prefill_adder \<Rightarrow> cache_manager \<Rightarrow> table_manager \<Rightarrow>
     (prefill_adder \<times> table_manager \<times> req option) option" where
  "add_one_req p am clen next_track swa_evicted ad cm tm = do {
     sized \<leftarrow> chunk_size ad p clen (h_cached_len (am_handle am)) swa_evicted cm;
     case sized of
       None \<Rightarrow> Some (ad, tm, None)
     | Some chunk \<Rightarrow> do {
         let ps = cm_page_size cm;
         let fin = nat (int clen + chunk);
         let swa_cost = (int (div_ceil fin ps) - int (div_ceil clen ps)) * int ps;
         let chunked = chunk < int (pr_input_len p) - int clen;
         let ad = ad\<lparr>ad_reserved_swa := ad_reserved_swa ad + (if swa_paged cm then swa_cost else 0),
                ad_token_budget := ad_token_budget ad - chunk,
                ad_reserved := ad_reserved ad + request_cost ps p clen\<rparr>;
         tm \<leftarrow> token_copy (am_table_idx am) clen fin (slice clen fin (pr_input_ids p)) tm;
         r \<leftarrow> new_req chunked (take fin (pr_input_ids p)) (am_table_idx am) clen (pr_output_len p) (pr_uid p)
            (pr_sampling p) (am_handle am);
         Some (ad, tm, Some (r\<lparr>rq_mm_items := pr_mm_items p, rq_mrope_full := pr_mrope_full p, rq_mrope_delta := pr_mrope_delta p,
           rq_linear_slot := am_linear_slot am, rq_ping_pong := am_ping_pong am, rq_next_track := next_track,
           rq_restore_src := am_restore_src am, rq_swa_evicted := swa_evicted\<rparr>)) } }"

text \<open>Undo an admission that got no chunk.\<close>

definition undo_admission :: "admission \<Rightarrow> cache_manager \<Rightarrow> table_manager \<Rightarrow> (cache_manager \<times> table_manager) option" where
  "undo_admission am cm tm = do {
     cm \<leftarrow> cm_unlock (am_handle am) cm;
     let tm = tm_free (nat (am_table_idx am)) tm;
     cm \<leftarrow> (case am_linear_slot am of
             None \<Rightarrow> Some cm
           | Some s \<Rightarrow> Option.bind (am_ping_pong am) (\<lambda>(a, b). cm_free_linear [s, a, b] cm));
     Some (cm, tm) }"

definition try_add_one ::
  "pending_req \<Rightarrow> int \<Rightarrow> prefill_adder \<Rightarrow> world \<Rightarrow> (prefill_adder \<times> world \<times> req option) option" where
  "try_add_one p tic ad w =
     (if ad_token_budget ad \<le> 0 then Some (ad, w, None)
      else (case pr_chunked p of
          Some i \<Rightarrow> do {
            c \<leftarrow> w_reqs w i;
            (ad, tm, r) \<leftarrow> add_one_req p \<lparr>am_handle = rq_handle c, am_table_idx = rq_table_idx c,
                am_linear_slot = rq_linear_slot c, am_ping_pong = rq_ping_pong c, am_restore_src = None\<rparr>
              (rq_cached_len c) (rq_next_track c) (rq_swa_evicted c) ad (w_cm w) (w_tm w);
            Some (ad, w\<lparr>w_tm := tm\<rparr>, r) }
        | None \<Rightarrow> do {
            (cm, tm, adm) \<leftarrow> try_allocate_one p tic ad (w_cm w) (w_tm w);
            case adm of
              None \<Rightarrow> Some (ad, w\<lparr>w_cm := cm, w_tm := tm\<rparr>, None)
            | Some am \<Rightarrow> do {
                (ad, tm, r) \<leftarrow> add_one_req p am (h_cached_len (am_handle am)) 0 0 ad cm tm;
                case r of
                  None \<Rightarrow> do {
                    (cm, tm) \<leftarrow> undo_admission am cm tm;
                    Some (ad, w\<lparr>w_cm := cm, w_tm := tm\<rparr>, None) }
                | Some r \<Rightarrow> Some (ad, w\<lparr>w_cm := cm, w_tm := tm\<rparr>, Some r) } }))"

section \<open>The pass over the waiting list\<close>

definition pm_add_one_req :: "pending_req \<Rightarrow> prefill_manager \<Rightarrow> prefill_manager" where
  "pm_add_one_req p pm = pm\<lparr>pm_pending := pm_pending pm @ [p]\<rparr>"

definition pm_runnable :: "prefill_manager \<Rightarrow> bool" where
  "pm_runnable pm \<longleftrightarrow> pm_pending pm \<noteq> []"

text \<open>A new request object.\<close>

definition new_obj :: "req \<Rightarrow> world \<Rightarrow> world \<times> nat" where
  "new_obj r w = (w\<lparr>w_reqs := (w_reqs w)(w_next w \<mapsto> r), w_next := w_next w + 1\<rparr>, w_next w)"

definition register_items :: "int \<Rightarrow> nat \<Rightarrow> mm_item list \<Rightarrow> encoder_cache \<Rightarrow> encoder_cache" where
  "register_items uid clen items ec =
     fold (\<lambda>item. ec_register (mm_hash item) uid (mm_rows_after item (int clen))) items ec"

text \<open>One admitted request is noted in the pass: the first chunk registers its images and its prompt.\<close>

record pass =
  ps_reqs :: "nat list"
  ps_chunked :: "pending_req list"
  ps_new :: nat
  ps_cached :: nat
  ps_admissions :: "(int \<times> nat \<times> nat) list"

definition note_admitted :: "pending_req \<Rightarrow> req \<Rightarrow> world \<Rightarrow> pass \<Rightarrow> world \<times> pass" where
  "note_admitted p r w pass =
     (let first = (pr_chunked p = None); hit = h_cached_len (rq_handle r); (w, i) = new_obj r w;
          w = (if first then w\<lparr>w_ec := map_option (register_items (rq_uid r) hit (pr_mm_items p)) (w_ec w)\<rparr> else w)
      in (w, pass\<lparr>ps_reqs := ps_reqs pass @ [i],
            ps_chunked := ps_chunked pass @ (if rq_chunked r then [p\<lparr>pr_chunked := Some i\<rparr>] else []),
            ps_new := ps_new pass + extend_len r,
            ps_cached := ps_cached pass + (if first then hit else 0),
            ps_admissions := ps_admissions pass @ (if first then [(rq_uid r, pr_input_len p, hit)] else [])\<rparr>))"

text \<open>The loop stops at the first request that cannot be added; \<open>clk\<close> is read once per request.\<close>

fun admit_loop ::
  "(nat \<Rightarrow> int) \<Rightarrow> nat \<Rightarrow> pending_req list \<Rightarrow> prefill_adder \<Rightarrow> world \<Rightarrow> pass \<Rightarrow> (prefill_adder \<times> world \<times> pass) option" where
  "admit_loop clk k [] ad w pass = Some (ad, w, pass)"
| "admit_loop clk k (p # pending) ad w pass = do {
     (ad, w, r) \<leftarrow> try_add_one p (clk k) ad w;
     case r of
       None \<Rightarrow> Some (ad, w, pass)
     | Some r \<Rightarrow> (let (w, pass) = note_admitted p r w pass in admit_loop clk (k + 1) pending ad w pass) }"

definition empty_pass :: pass where
  "empty_pass = \<lparr>ps_reqs = [], ps_chunked = [], ps_new = 0, ps_cached = 0, ps_admissions = []\<rparr>"

definition pm_schedule_next_batch ::
  "(nat \<Rightarrow> int) \<Rightarrow> int \<Rightarrow> decode_manager \<Rightarrow> prefill_manager \<Rightarrow> world \<Rightarrow> (prefill_manager \<times> world \<times> batch option) option" where
  "pm_schedule_next_batch clk budget dm pm w =
     (if pm_pending pm = [] then Some (pm, w, None)
      else do {
        (ad, w, pass) \<leftarrow> admit_loop clk 0 (pm_pending pm)
           (new_adder budget (dm_inflight_tokens (w_reqs w) dm) (pm_keep_images pm)) w empty_pass;
        if ps_reqs pass = [] then Some (pm, w, None)
        else Some (pm\<lparr>pm_pending := ps_chunked pass @ drop (length (ps_reqs pass)) (pm_pending pm)\<rparr>, w,
           Some \<lparr>b_reqs = ps_reqs pass, b_prefill = True, b_new_tokens = ps_new pass, b_cached_tokens = ps_cached pass,
             b_admissions = ps_admissions pass\<rparr>) })"

text \<open>\<open>abort_req\<close>: the first waiting request of that id leaves the list; its last chunk is returned.\<close>

fun abort_pending :: "int \<Rightarrow> pending_req list \<Rightarrow> pending_req list \<times> nat option" where
  "abort_pending uid [] = ([], None)"
| "abort_pending uid (p # ps) =
     (if pr_uid p = uid then (ps, pr_chunked p)
      else (let (ps, c) = abort_pending uid ps in (p # ps, c)))"

definition pm_abort_req :: "int \<Rightarrow> prefill_manager \<Rightarrow> prefill_manager \<times> nat option" where
  "pm_abort_req uid pm = (let (ps, c) = abort_pending uid (pm_pending pm) in (pm\<lparr>pm_pending := ps\<rparr>, c))"

end
