(* ===== verification/Room.thy ===== *)
theory Room
  imports CacheLife
begin

text \<open>
  What the pool can still give, on the generic path, as a function of the live requests alone
  (\<open>room\<close>): a finish, a commit or an abort never lowers it, and a forward lowers it by exactly
  the pages it fills.
\<close>

section \<open>Room\<close>

definition held_len :: "nat \<Rightarrow> req \<Rightarrow> nat" where
  "held_len ps r = page_ceil ps (rq_cached_len r) - hl r"

abbreviation held_toks :: "req \<Rightarrow> int list" where
  "held_toks r \<equiv> take (hl r) (rq_input_ids r)"

text \<open>The slots of the distinct pages that sequences lock.\<close>

definition locked_len :: "nat \<Rightarrow> int list set \<Rightarrow> nat" where
  "locked_len ps T = ps * card (page_prefixes ps T)"

definition room :: "nat \<Rightarrow> nat \<Rightarrow> req list \<Rightarrow> int" where
  "room n ps rs = int (n * ps) - int (sum_list (map (held_len ps) rs)) - int (locked_len ps (held_toks ` set rs))"

lemma own_slice_length: "req_fits cm r \<Longrightarrow> length (own_slice cm r) = held_len (cm_page_size cm) r"
  by (simp add: req_fits_def own_slice_def held_len_def)

theorem available_room:
  assumes inv: "cm_inv cm rs" and lz: "cm_lazy cm = None"
  shows "available_size cm = room (cm_num_pages cm) (cm_page_size cm) rs"
proof -
  let ?ps = "cm_page_size cm" and ?K = "mset (map rq_handle rs)"
  note ok = cm_pc[OF inv]
  have f: "frees cm = cm_free_slots cm" using lz by (simp add: frees_def)
  have "{t. \<exists>h\<in>#?K. pc_toks (cm_prefix cm) h = Some t} = held_toks ` set rs"
    using cm_fits[OF inv] by (force simp: req_fits_def)
  then have kept: "kept pc_toks ?ps (cm_prefix cm) ?K = locked_len ?ps (held_toks ` set rs)" by (simp add: kept_def locked_len_def)
  have "size (own_sum cm rs) = sum_list (map (held_len ?ps) rs)"
    using cm_fits[OF inv] unfolding own_sum_def by (induction rs) (simp_all add: own_slice_length)
  moreover have "size (mset (page_to_token ?ps (frees cm)) + pc_own (cm_prefix cm) + own_sum cm rs) =
      size (mset (page_to_token ?ps (all_pages (cm_num_pages cm) ?ps)))"
    using cm_books[OF inv] by (simp add: balanced_def)
  ultimately have "length (cm_free_slots cm) * ?ps + size (pc_own (cm_prefix cm)) + sum_list (map (held_len ?ps) rs) = cm_num_pages cm * ?ps"
    using f by simp
  then have "int (length (cm_free_slots cm) * ?ps) + int (size (pc_own (cm_prefix cm))) + int (sum_list (map (held_len ?ps) rs)) = int (cm_num_pages cm * ?ps)"
    by linarith
  moreover have "available_size cm = pc_evictable (cm_prefix cm) + int (length (cm_free_slots cm) * ?ps)"
    by (simp add: available_size_def evictable_size_def pc_evictable_def)
  moreover have "pc_evictable (cm_prefix cm) = int (size (pc_own (cm_prefix cm))) - int (kept pc_toks ?ps (cm_prefix cm) ?K)"
    using pcx.locked_law[OF ok] pcx.sizes[OF ok] by simp
  ultimately show ?thesis unfolding room_def kept by linarith
qed

lemma room_perm:
  assumes "mset rs' = mset rs" shows "room n ps rs' = room n ps rs"
proof -
  have "sum_list (map (held_len ps) rs') = sum_list (map (held_len ps) rs)"
    by (simp only: sum_mset_sum_list[symmetric] mset_map assms)
  then show ?thesis using mset_eq_setD[OF assms] by (simp add: room_def)
qed

lemma room_drop: "room n ps (r # rs) \<le> room n ps rs"
proof -
  have "locked_len ps (held_toks ` set rs) \<le> locked_len ps (held_toks ` set (r # rs))"
    unfolding locked_len_def by (intro mult_le_mono2 card_mono page_prefixes_finite page_prefixes_mono) auto
  then show ?thesis by (simp add: room_def)
qed

lemma room_same_seat: "same_seat r r' \<Longrightarrow> room n ps (r' # rs) = room n ps (r # rs)"
  by (simp add: room_def held_len_def same_seat_def)

lemma room_commit:
  assumes "r' = r\<lparr>rq_handle := h'\<rparr>" "hl r \<le> hl r'" "hl r' \<le> page_ceil ps (rq_cached_len r)" "hl r' \<le> length (rq_input_ids r)"
    "ps dvd hl r" "ps dvd hl r'" "0 < ps"
  shows "room n ps (r # rs) \<le> room n ps (r' # rs)"
proof -
  have "locked_len ps (held_toks ` set (r' # rs)) + hl r \<le> locked_len ps (held_toks ` set (r # rs)) + hl r'"
    using page_prefixes_move[of "held_toks ` set rs" "hl r" "hl r'" "rq_input_ids r" ps] assms by (simp add: locked_len_def)
  moreover have "held_len ps r = held_len ps r' + (hl r' - hl r)" using assms by (simp add: held_len_def)
  ultimately show ?thesis using assms(2) by (simp add: room_def)
qed

definition fill_len :: "nat \<Rightarrow> req \<Rightarrow> nat" where
  "fill_len ps r = page_ceil ps (rq_device_len r) - page_ceil ps (rq_cached_len r)"

lemma room_complete:
  assumes "\<forall>r\<in>set reqs. hl r \<le> page_ceil ps (rq_cached_len r) \<and> rq_cached_len r \<le> rq_device_len r"
  shows "room n ps (map complete_one reqs @ rs) = room n ps (reqs @ rs) - int (sum_list (map (fill_len ps) reqs))"
proof -
  have "held_toks ` set (map complete_one reqs @ rs) = held_toks ` set (reqs @ rs)" by (simp add: image_Un image_image)
  moreover have "sum_list (map (held_len ps) (map complete_one reqs)) = sum_list (map (held_len ps) reqs) + sum_list (map (fill_len ps) reqs)"
    using assms
  proof (induction reqs)
    case (Cons r reqs)
    have "page_ceil ps (rq_cached_len r) \<le> page_ceil ps (rq_device_len r)" using Cons.prems by (simp add: page_ceil_mono)
    then have "held_len ps (complete_one r) = held_len ps r + fill_len ps r" using Cons.prems by (simp add: held_len_def fill_len_def)
    with Cons show ?case by simp
  qed simp
  ultimately show ?thesis by (simp add: room_def)
qed

lemma needed_fill: "needed_pages ps reqs * ps = sum_list (map (fill_len ps) reqs)"
proof -
  have "needed_pages ps reqs = sum_list (map (\<lambda>r. div_ceil (rq_device_len r) ps - div_ceil (rq_cached_len r) ps) reqs)"
    by (induction reqs) (auto simp: needed_pages_def allocation_info_def alloc_span_def)
  moreover have "sum_list (map f reqs) * ps = sum_list (map (\<lambda>r. f r * ps) reqs)" for f :: "req \<Rightarrow> nat"
    by (induction reqs) (simp_all add: add_mult_distrib)
  moreover have "fill_len ps = (\<lambda>r. (div_ceil (rq_device_len r) ps - div_ceil (rq_cached_len r) ps) * ps)"
    by (rule ext) (simp add: fill_len_def page_ceil_def diff_mult_distrib)
  ultimately show ?thesis by simp
qed

end
