(* ===== verification/PrefillBooks.thy ===== *)
theory PrefillBooks
  imports Prefill Room
begin

text \<open>
  What a prefill pass does to the books, on the generic path (naive and plain radix cache):
  the cache manager's invariant, the free table rows and the waiting list stay consistent
  through admissions, refusals, chunks and aborts, and no pass raises.
\<close>

section \<open>A lock without a request\<close>

text \<open>Between \<open>lock\<close> and the request's construction the cache holds one handle that no request owns yet.\<close>

definition cm_held :: "cache_manager \<Rightarrow> cache_handle \<Rightarrow> req list \<Rightarrow> bool" where
  "cm_held cm h rs \<longleftrightarrow> generic cm \<and> pc_ok (cm_page_size cm) (cm_prefix cm) (add_mset h (mset (map rq_handle rs))) \<and>
     (\<forall>r\<in>set rs. req_fits cm r) \<and> distinct (map rq_table_idx rs) \<and> balanced cm (own_sum cm rs)"

lemma prefix_change:
  assumes "\<forall>r\<in>set rs. req_fits cm r" "pc_same (mset (map rq_handle rs)) (cm_prefix cm) c" "pc_own c = pc_own (cm_prefix cm)"
    "balanced cm (own_sum cm rs)" "generic cm"
  shows "\<forall>r\<in>set rs. req_fits (cm\<lparr>cm_prefix := c\<rparr>) r" "balanced (cm\<lparr>cm_prefix := c\<rparr>) (own_sum (cm\<lparr>cm_prefix := c\<rparr>) rs)"
    "generic (cm\<lparr>cm_prefix := c\<rparr>)"
proof -
  let ?cm = "cm\<lparr>cm_prefix := c\<rparr>"
  have f: "req_fits ?cm q \<and> own_slice ?cm q = own_slice cm q" if "q \<in> set rs" for q
    using fits_other[of cm q "mset (map rq_handle rs)" ?cm] assms(1,2) that by simp
  then show "\<forall>r\<in>set rs. req_fits ?cm r" by blast
  have "own_sum ?cm rs = own_sum cm rs" using f by (intro own_sum_cong) blast
  then show "balanced ?cm (own_sum ?cm rs)" using assms(3,4) by (simp add: balanced_def frees_def)
  show "generic ?cm" using assms(5) by (simp add: generic_def is_swa_def is_hybrid_def)
qed

lemma lock_held:
  assumes "cm_inv cm rs" "pc_live (cm_page_size cm) (cm_prefix cm) h"
  shows "\<exists>c. cm_lock h cm = Some (cm\<lparr>cm_prefix := c\<rparr>, h) \<and> cm_held (cm\<lparr>cm_prefix := c\<rparr>) h rs"
proof -
  from lock_ok[OF assms] obtain c where c: "cm_lock h cm = Some (cm\<lparr>cm_prefix := c\<rparr>, h)"
    "pc_ok (cm_page_size cm) c (add_mset h (mset (map rq_handle rs)))"
    "pc_same (add_mset h (mset (map rq_handle rs))) (cm_prefix cm) c" "pc_own c = pc_own (cm_prefix cm)" by blast
  have "pc_same (mset (map rq_handle rs)) (cm_prefix cm) c" using same_handles_mono[OF c(3)] by simp
  from prefix_change[OF _ this c(4) cm_books[OF assms(1)] cm_generic[OF assms(1)]] cm_fits[OF assms(1)]
  show ?thesis using c(1,2) cm_distinct[OF assms(1)] by (auto simp: cm_held_def)
qed

lemma unlock_held:
  assumes "cm_held cm h rs"
  shows "\<exists>c. cm_unlock h cm = Some (cm\<lparr>cm_prefix := c\<rparr>) \<and> cm_inv (cm\<lparr>cm_prefix := c\<rparr>) rs"
proof -
  let ?K = "add_mset h (mset (map rq_handle rs))"
  from assms have "pc_ok (cm_page_size cm) (cm_prefix cm) ?K" "h \<in># ?K" by (auto simp: cm_held_def)
  from pcx.unlock_law[OF this] obtain c where c: "pc_unlock h (cm_prefix cm) = Some c"
    "pc_ok (cm_page_size cm) c (?K - {#h#})" "\<forall>x. pc_toks c x = pc_toks (cm_prefix cm) x \<and> pc_idxs c x = pc_idxs (cm_prefix cm) x"
    "pc_own c = pc_own (cm_prefix cm)" by blast
  have "pc_same (mset (map rq_handle rs)) (cm_prefix cm) c" using c(3) by (simp add: same_handles_def)
  from prefix_change[OF _ this c(4)] assms c(1,2) show ?thesis
    by (auto simp: cm_held_def cm_inv_def cm_unlock_def)
qed

lemma inv_held: "cm_inv cm (r # rs) \<Longrightarrow> own_slice cm r = [] \<Longrightarrow> cm_held cm (rq_handle r) rs"
  by (auto simp: cm_inv_def cm_held_def)

section \<open>Tables\<close>

text \<open>Every table row is free or has exactly one live request.\<close>

definition rows_ok :: "table_manager \<Rightarrow> req list \<Rightarrow> bool" where
  "rows_ok tm rs \<longleftrightarrow> mset (map int (tm_free_slots tm)) + mset (map rq_table_idx rs) = mset (map int [0..<tm_max tm])"

definition shaped :: "nat \<Rightarrow> cache_manager \<Rightarrow> table_manager \<Rightarrow> bool" where
  "shaped W cm tm \<longleftrightarrow> length (tm_token_pool tm) = length (cm_page_table cm) \<and> tm_max tm \<le> length (cm_page_table cm) \<and>
     (\<forall>j<length (cm_page_table cm). length (cm_page_table cm ! j) = W \<and> length (tm_token_pool tm ! j) = W)"

lemma rows_okD:
  assumes "rows_ok tm rs" "t \<in> set (tm_free_slots tm)"
  shows "t < tm_max tm" "\<forall>q\<in>set rs. rq_table_idx q \<noteq> int t"
proof -
  let ?M = "mset (map int (tm_free_slots tm)) + mset (map rq_table_idx rs)"
  have eq: "?M = mset (map int [0..<tm_max tm])" using assms(1) by (simp add: rows_ok_def)
  have "int t \<in># ?M" using assms(2) by auto
  then show "t < tm_max tm" unfolding eq by auto
  have "distinct (map int [0..<tm_max tm])" by (simp add: distinct_map)
  then have "distinct (map int (tm_free_slots tm) @ map rq_table_idx rs)"
    using eq by (metis distinct_count_atmost_1 mset_append mset_eq_setD)
  then show "\<forall>q\<in>set rs. rq_table_idx q \<noteq> int t" using assms(2) by (auto simp: image_iff)
qed

lemma rows_ok_take: "tm_free_slots tm = fs @ [t] \<Longrightarrow> rows_ok tm rs \<Longrightarrow> rq_table_idx r = int t \<Longrightarrow>
    tm_free_slots tm' = fs \<Longrightarrow> tm_max tm' = tm_max tm \<Longrightarrow> rows_ok tm' (r # rs)"
  by (simp add: rows_ok_def)

lemma token_copy_ok:
  assumes "t < length (tm_token_pool tm)" "length (tm_token_pool tm ! t) = W" "lo + length src \<le> W" "hi = lo + length src"
  shows "\<exists>row. token_copy (int t) lo hi src tm = Some (tm\<lparr>tm_token_pool := (tm_token_pool tm)[t := row]\<rparr>) \<and> length row = W"
proof -
  have r: "replicate (length src) (src ! 0) = src" if "length src = 1" using that by (cases src) auto
  have m: "length (slice lo hi (tm_token_pool tm ! t)) = length src" using assms by simp
  have "token_copy (int t) lo hi src tm = Some (tm\<lparr>tm_token_pool := (tm_token_pool tm)[t := patch lo src (tm_token_pool tm ! t)]\<rparr>)"
    using assms(1) m r by (auto simp: token_copy_def tensor_index_def Let_def)
  then show ?thesis using assms by auto
qed

section \<open>Admission\<close>

definition seated :: "pending_req \<Rightarrow> admission \<Rightarrow> req \<Rightarrow> bool" where
  "seated p am r \<longleftrightarrow> rq_handle r = am_handle am \<and> rq_table_idx r = am_table_idx am \<and>
     rq_cached_len r = h_cached_len (am_handle am) \<and>
     take (h_cached_len (am_handle am)) (rq_input_ids r) = take (h_cached_len (am_handle am)) (pr_input_ids p)"

definition same_geo :: "nat \<Rightarrow> cache_manager \<Rightarrow> table_manager \<Rightarrow> cache_manager \<Rightarrow> table_manager \<Rightarrow> bool" where
  "same_geo W cm tm cm' tm' \<longleftrightarrow> shaped W cm' tm' \<and> cm_page_size cm' = cm_page_size cm \<and> cm_lazy cm' = cm_lazy cm \<and>
     cm_num_pages cm' = cm_num_pages cm \<and> cm_linear_pool cm' = cm_linear_pool cm \<and> length (cm_page_table cm') = length (cm_page_table cm) \<and> tm_max tm' = tm_max tm"

definition admitted :: "pending_req \<Rightarrow> prefill_adder \<Rightarrow> req list \<Rightarrow> table_manager \<Rightarrow> cache_manager \<Rightarrow> table_manager \<Rightarrow> admission \<Rightarrow> bool" where
  "admitted p ad rs tm cm' tm' am \<longleftrightarrow> (\<exists>t. am_table_idx am = int t \<and> tm_free_slots tm = tm_free_slots tm' @ [t] \<and> t < tm_max tm) \<and>
     h_cached_len (am_handle am) < pr_input_len p \<and> am_linear_slot am = None \<and>
     (\<forall>r. seated p am r \<longrightarrow> cm_inv cm' (r # rs) \<and> own_slice cm' r = []) \<and>
     request_cost (cm_page_size cm') p (h_cached_len (am_handle am)) + ad_reserved ad \<le> available_size cm'"

lemma seat_prefix_same: "seat_prefix h t cm = Some cm' \<Longrightarrow> \<exists>pt. cm' = cm\<lparr>cm_page_table := pt\<rparr>"
  by (cases cm) (auto simp: seat_prefix_def row_copy_def Let_def bind_eq_Some_conv split: if_splits)

lemma generic_gates: "generic cm \<Longrightarrow> hybrid_gate cm = Some (cm, True) \<and> swa_gate x y cm = Some True \<and> alloc_state_slots cm = Some (cm, None, None)"
  by (simp add: generic_def hybrid_gate_def swa_gate_def swa_paged_def alloc_state_slots_def)

lemma refuse_ok: "cm_held cm h rs \<Longrightarrow> \<exists>c. refuse h tm cm = Some (cm\<lparr>cm_prefix := c\<rparr>, tm, None) \<and> cm_inv (cm\<lparr>cm_prefix := c\<rparr>) rs"
  using unlock_held[of cm h rs] by (auto simp: refuse_def)

lemma try_allocate_ok:
  assumes inv: "cm_inv cm rs" and rows: "rows_ok tm rs" and sh: "shaped W cm tm"
    and ids: "pr_input_ids p \<noteq> []" and len: "pr_input_len p \<le> W"
  shows "\<exists>cm' tm' adm. try_allocate_one p tic ad cm tm = Some (cm', tm', adm) \<and> same_geo W cm tm cm' tm' \<and>
    (case adm of None \<Rightarrow> cm_inv cm' rs \<and> tm' = tm | Some am \<Rightarrow> admitted p ad rs tm cm' tm' am)"
proof (cases "tm_available tm = 0")
  case True
  then show ?thesis using inv sh by (simp add: try_allocate_one_def same_geo_def)
next
  case False
  then have fs: "tm_free_slots tm \<noteq> []" by (simp add: tm_available_def)
  define t where "t = last (tm_free_slots tm)"
  define tm1 where "tm1 = tm\<lparr>tm_free_slots := butlast (tm_free_slots tm)\<rparr>"
  have al: "tm_allocate tm = Some (tm1, t)" using fs by (simp add: tm_allocate_def t_def tm1_def)
  have tin: "t \<in> set (tm_free_slots tm)" and tsplit: "tm_free_slots tm = tm_free_slots tm1 @ [t]"
    using fs by (simp_all add: t_def tm1_def)
  note tt = rows_okD[OF rows tin]
  from match_ok[OF inv ids, of tic] obtain cm1 h mv where m: "match_req (pr_input_ids p) tic cm = Some (cm1, h, mv)" "cm_inv cm1 rs"
    "h_cached_len h < length (pr_input_ids p)" "pc_live (cm_page_size cm) (cm_prefix cm1) h"
    "pc_toks (cm_prefix cm1) h = Some (take (h_cached_len h) (pr_input_ids p))" "cm_page_table cm1 = cm_page_table cm"
    "cm_page_size cm1 = cm_page_size cm" "cm_lazy cm1 = cm_lazy cm" "cm_num_pages cm1 = cm_num_pages cm \<and> cm_linear_pool cm1 = cm_linear_pool cm" by blast
  have sh1: "shaped W cm1 tm" using sh m(6) by (simp add: shaped_def)
  have tlt: "t < length (cm_page_table cm1)" using tt(1) sh1 by (simp add: shaped_def)
  have hW: "h_cached_len h \<le> length (cm_page_table cm1 ! t)" using sh1 tlt m(3) len by (simp add: shaped_def pr_input_len_def)
  from seat_ok[OF m(2) m(4)[folded m(7)] m(5) tlt tt(2) hW] obtain cm2 cm3 where s: "cm_lock h cm1 = Some (cm2, h)"
    "seat_prefix h t cm2 = Some cm3" "cm_page_size cm3 = cm_page_size cm1" "cm_lazy cm3 = cm_lazy cm1"
    "length (cm_page_table cm3) = length (cm_page_table cm1)" "\<forall>j. length (cm_page_table cm3 ! j) = length (cm_page_table cm1 ! j)"
    "\<forall>r. rq_handle r = h \<longrightarrow> rq_table_idx r = int t \<longrightarrow> rq_cached_len r = h_cached_len h \<longrightarrow>
       take (h_cached_len h) (rq_input_ids r) = take (h_cached_len h) (pr_input_ids p) \<longrightarrow> cm_inv cm3 (r # rs)"
    "cm_num_pages cm3 = cm_num_pages cm1 \<and> cm_linear_pool cm3 = cm_linear_pool cm1" by blast
  from lock_held[OF m(2) m(4)[folded m(7)]] s(1) obtain c where c: "cm2 = cm1\<lparr>cm_prefix := c\<rparr>" "cm_held cm2 h rs" by auto
  have gen2: "generic cm2" using c(2) by (simp add: cm_held_def)
  from seat_prefix_same[OF s(2)] obtain pt where pt: "cm3 = cm2\<lparr>cm_page_table := pt\<rparr>" by blast
  have gen3: "generic cm3" using gen2 by (simp add: generic_def is_hybrid_def is_swa_def pt)
  have av3: "available_size cm3 = available_size cm2" by (simp add: available_size_def evictable_size_def pt)
  have ps2: "cm_page_size cm2 = cm_page_size cm" "cm_lazy cm2 = cm_lazy cm" "cm_page_table cm2 = cm_page_table cm" "cm_num_pages cm2 = cm_num_pages cm \<and> cm_linear_pool cm2 = cm_linear_pool cm"
    using c(1) m(6-9) by simp_all
  let ?cost = "request_cost (cm_page_size cm1) p (h_cached_len h) + ad_reserved ad"
  show ?thesis
  proof (cases "?cost > available_size cm1")
    case True
    then show ?thesis using False m sh1 by (simp add: try_allocate_one_def Let_def same_geo_def)
  next
    case aff: False
    show ?thesis
    proof (cases "?cost > available_size cm2")
      case True
      from refuse_ok[OF c(2), of tm] obtain d where d: "refuse h tm cm2 = Some (cm2\<lparr>cm_prefix := d\<rparr>, tm, None)"
        "cm_inv (cm2\<lparr>cm_prefix := d\<rparr>) rs" by blast
      have "try_allocate_one p tic ad cm tm = Some (cm2\<lparr>cm_prefix := d\<rparr>, tm, None)"
        using False m(1) aff s(1) True d(1) ps2(1) m(7) by (simp add: try_allocate_one_def Let_def)
      then show ?thesis using d(2) sh ps2 by (simp add: same_geo_def shaped_def)
    next
      case aff2: False
      have trow: "length (tm_token_pool tm1 ! t) = W" "t < length (tm_token_pool tm1)"
        using sh1 tlt by (simp_all add: shaped_def tm1_def)
      have "\<exists>tm2. (if h_cached_len h > 0 then token_copy (int t) 0 (h_cached_len h) (take (h_cached_len h) (pr_input_ids p)) tm1 else Some tm1) = Some tm2
          \<and> tm_free_slots tm2 = tm_free_slots tm1 \<and> tm_max tm2 = tm_max tm1 \<and> length (tm_token_pool tm2) = length (tm_token_pool tm1)
          \<and> (\<forall>j<length (tm_token_pool tm1). length (tm_token_pool tm2 ! j) = length (tm_token_pool tm1 ! j))"
      proof (cases "h_cached_len h > 0")
        case True
        from token_copy_ok[OF trow(2,1), of 0 "take (h_cached_len h) (pr_input_ids p)" "h_cached_len h"] m(3) len
        obtain row where "token_copy (int t) 0 (h_cached_len h) (take (h_cached_len h) (pr_input_ids p)) tm1
            = Some (tm1\<lparr>tm_token_pool := (tm_token_pool tm1)[t := row]\<rparr>)" "length row = W"
          by (auto simp: pr_input_len_def min.absorb2)
        then show ?thesis using True trow by (auto simp: nth_list_update)
      qed auto
      then obtain tm2 where tm2: "(if h_cached_len h > 0 then token_copy (int t) 0 (h_cached_len h) (take (h_cached_len h) (pr_input_ids p)) tm1 else Some tm1) = Some tm2"
        "tm_free_slots tm2 = tm_free_slots tm1" "tm_max tm2 = tm_max tm1" "length (tm_token_pool tm2) = length (tm_token_pool tm1)"
        "\<forall>j<length (tm_token_pool tm1). length (tm_token_pool tm2 ! j) = length (tm_token_pool tm1 ! j)" by blast
      define am where "am = \<lparr>am_handle = h, am_table_idx = int t, am_linear_slot = None, am_ping_pong = None, am_restore_src = mv\<rparr>"
      have res: "try_allocate_one p tic ad cm tm = Some (cm3, tm2, Some am)"
        using False m(1) aff s(1,2) aff2 ps2(1) m(7) al tm2(1) generic_gates[OF gen2] generic_gates[OF gen3]
        by (simp add: try_allocate_one_def seat_request_def Let_def am_def)
      have "shaped W cm3 tm2" using sh1 s(5,6) tm2(3-5) by (simp add: shaped_def tm1_def)
      then have geo: "same_geo W cm tm cm3 tm2" using s(3,4,5,8) m(6-9) tm2(3) by (simp add: same_geo_def tm1_def)
      have own: "own_slice cm3 r = []" if "seated p am r" for r
      proof -
        have "cm_page_size cm3 dvd h_cached_len h" using m(4) s(3) m(7) by (auto simp: handle_live_def)
        then have "page_ceil (cm_page_size cm3) (h_cached_len h) = h_cached_len h"
          using cm_ps[OF m(2)] s(3) by (auto simp: page_ceil_def dvd_def mult.commute[of "cm_page_size _"])
        then show ?thesis using that by (simp add: seated_def am_def own_slice_def slice_def)
      qed
      have "admitted p ad rs tm cm3 tm2 am"
        unfolding admitted_def
        using tsplit tm2(2) tt(1) m(3) s(3,7) own aff2 av3 m(7)
        by (auto simp: am_def seated_def pr_input_len_def)
      with res geo show ?thesis by auto
    qed
  qed
qed

section \<open>Chunks\<close>

text \<open>The request that \<open>_add_one_req\<close> builds for a pending one.\<close>

definition chunk_of :: "pending_req \<Rightarrow> admission \<Rightarrow> nat \<Rightarrow> req \<Rightarrow> bool" where
  "chunk_of p am clen r \<longleftrightarrow> rq_handle r = am_handle am \<and> rq_table_idx r = am_table_idx am \<and> rq_cached_len r = clen \<and>
     clen < rq_device_len r \<and> rq_device_len r \<le> pr_input_len p \<and> rq_input_ids r = take (rq_device_len r) (pr_input_ids p) \<and>
     rq_max_device_len r = rq_device_len r + pr_output_len p \<and> rq_uid r = pr_uid p \<and> rq_aborted r = False \<and>
     rq_mm_items r = pr_mm_items p \<and> (rq_chunked r \<longleftrightarrow> rq_device_len r < pr_input_len p)"

lemma align_down_le_nonneg: "0 \<le> a \<Longrightarrow> 0 \<le> b \<Longrightarrow> align_down a b \<le> (a::int)"
  by (cases "b = 0") (auto simp: align_down_le_int, simp add: align_down_def)

lemma swa_chunk_cap_le:
  assumes "swa_chunk_cap clen remain chunk ev hit rsv cm = Some (Some k)" "0 \<le> clen"
  shows "k \<le> chunk"
proof -
  from assms(1) obtain m ps :: int where m: "ps = int (cm_page_size cm)"
    "(if 0 < min chunk m \<and> min chunk m < remain
      then Some (let al = align_down (clen + min chunk m) ps - clen in if al \<le> 0 then None else Some al)
      else Some (Some (min chunk m))) = Some (Some k)"
    unfolding swa_chunk_cap_def Let_def bind_eq_Some_conv by blast
  have "align_down (clen + min chunk m) ps \<le> clen + min chunk m" if "0 < min chunk m"
    using that assms(2) m(1) by (intro align_down_le_nonneg) auto
  with m(2) show ?thesis by (auto simp: Let_def split: if_splits)
qed

lemma align_chunk_le: "0 \<le> clen \<Longrightarrow> align_chunk a clen remain chunk \<le> chunk"
  using align_down_le_nonneg[of "clen + chunk" "int a"] by (auto simp: align_chunk_def Let_def)

lemma whole_images_le: "whole_images ad g items clen chunk = Some k \<Longrightarrow> 0 \<le> clen \<Longrightarrow> 0 \<le> g \<Longrightarrow> k \<le> chunk"
  using mm_chunk_end_le[of clen g items "clen + chunk"]
  by (auto simp: whole_images_def Let_def split: option.splits if_splits)

lemma chunk_size_le:
  assumes "chunk_size ad p clen hit ev cm = Some (Some k)"
  shows "k \<le> ad_token_budget ad \<and> k \<le> int (pr_input_len p) - int clen"
proof -
  let ?rem = "int (pr_input_len p) - int clen"
  let ?c0 = "min (ad_token_budget ad) ?rem"
  from assms obtain c1 where c1: "(if swa_paged cm then swa_chunk_cap (int clen) ?rem ?c0 ev hit (ad_reserved_swa ad) cm
      else Some (Some ?c0)) = Some (Some c1)"
    and k: "(let c = align_chunk (prefill_chunk_align cm) (int clen) ?rem c1
        in if ad_keep_images ad \<and> pr_mm_items p \<noteq> [] \<and> c < ?rem
           then whole_images ad (chunk_unit cm) (pr_mm_items p) (int clen) c else Some c) = Some k"
    unfolding chunk_size_def Let_def bind_eq_Some_conv by (auto split: option.splits)
  have "c1 \<le> ?c0"
  proof (cases "swa_paged cm")
    case True
    then show ?thesis using c1 swa_chunk_cap_le[of "int clen" ?rem ?c0 ev hit "ad_reserved_swa ad" cm c1] by simp
  qed (use c1 in auto)
  moreover have "align_chunk (prefill_chunk_align cm) (int clen) ?rem c1 \<le> c1" by (rule align_chunk_le) simp
  moreover have "k \<le> align_chunk (prefill_chunk_align cm) (int clen) ?rem c1"
    using k whole_images_le[of ad "chunk_unit cm"] by (auto simp: Let_def chunk_unit_def split: if_splits)
  ultimately show ?thesis by simp
qed

lemma chunk_size_generic:
  assumes "generic cm" "0 < ad_token_budget ad" "clen < pr_input_len p"
  shows "\<exists>c. chunk_size ad p clen hit ev cm = Some c \<and> (\<forall>k. c = Some k \<longrightarrow> 0 < k)"
proof -
  let ?rem = "int (pr_input_len p) - int clen"
  let ?c = "min (ad_token_budget ad) ?rem"
  have c: "0 < ?c" using assms by simp
  have g: "\<not> swa_paged cm" "prefill_chunk_align cm = 1" "chunk_unit cm = 1"
    using assms(1) by (simp_all add: generic_def swa_paged_def prefill_chunk_align_def chunk_unit_def)
  have w: "0 < k" if "whole_images ad 1 (pr_mm_items p) (int clen) ?c = Some k" for k
    using that mm_chunk_end_props[of "int clen" "int clen + ?c" 1 "pr_mm_items p" _] c
    by (auto simp: whole_images_def Let_def split: option.splits if_splits)
  show ?thesis using g c w by (auto simp: chunk_size_def Let_def align_chunk_def)
qed

text \<open>For every cache kind: a built request is the next chunk of its prompt and is paid for.\<close>

lemma add_one_req_chunk:
  assumes "add_one_req p am clen nt ev ad cm tm = Some (ad', tm', Some r)"
  shows "chunk_of p am clen r \<and> ad_token_budget ad' = ad_token_budget ad - int (extend_len r) \<and> ad_token_budget ad' \<ge> 0
    \<and> ad_reserved ad' = ad_reserved ad + request_cost (cm_page_size cm) p clen"
proof -
  from assms obtain k where k: "chunk_size ad p clen (h_cached_len (am_handle am)) ev cm = Some (Some k)"
    by (auto simp: add_one_req_def bind_eq_Some_conv split: option.splits)
  note le = chunk_size_le[OF k]
  define fin where "fin = nat (int clen + k)"
  from assms k obtain q where q: "new_req (k < int (pr_input_len p) - int clen) (take fin (pr_input_ids p)) (am_table_idx am) clen
      (pr_output_len p) (pr_uid p) (pr_sampling p) (am_handle am) = Some q"
    and r: "r = q\<lparr>rq_mm_items := pr_mm_items p, rq_mrope_full := pr_mrope_full p, rq_mrope_delta := pr_mrope_delta p,
           rq_linear_slot := am_linear_slot am, rq_ping_pong := am_ping_pong am, rq_next_track := nt,
           rq_restore_src := am_restore_src am, rq_swa_evicted := ev\<rparr>"
    and ad': "ad_token_budget ad' = ad_token_budget ad - k" "ad_reserved ad' = ad_reserved ad + request_cost (cm_page_size cm) p clen"
    by (auto simp: add_one_req_def Let_def bind_eq_Some_conv fin_def)
  from q have a: "clen < length (take fin (pr_input_ids p))"
    by (auto simp: new_req_def py_assert_def Let_def bind_eq_Some_conv split: if_splits)
  then have fin: "fin \<le> pr_input_len p" "int fin = int clen + k" "clen < fin"
    using le unfolding fin_def pr_input_len_def by auto
  from q have "q = \<lparr>rq_input_ids = take fin (pr_input_ids p), rq_table_idx = am_table_idx am, rq_cached_len = clen, rq_device_len = fin,
       rq_max_device_len = fin + pr_output_len p, rq_output_len = pr_output_len p, rq_uid = pr_uid p, rq_sampling = pr_sampling p,
       rq_handle = am_handle am, rq_mm_items = [], rq_mrope_full = None, rq_mrope_delta = 0, rq_linear_slot = None,
       rq_ping_pong = None, rq_next_track = 0, rq_last_track = None, rq_restore_src = None, rq_swa_evicted = 0,
       rq_decode_batch = 0, rq_anchor = None, rq_aborted = False, rq_chunked = (k < int (pr_input_len p) - int clen)\<rparr>"
    using fin(1) by (auto simp: new_req_def py_assert_def Let_def bind_eq_Some_conv pr_input_len_def min.absorb2 split: if_splits)
  with r ad' fin le show ?thesis by (auto simp: chunk_of_def extend_len_def)
qed

lemma add_one_req_runs:
  assumes gen: "generic cm" and b: "0 < ad_token_budget ad" and clen: "clen < pr_input_len p" and len: "pr_input_len p \<le> W"
    and t: "am_table_idx am = int t" "t < length (tm_token_pool tm)" "length (tm_token_pool tm ! t) = W"
  shows "\<exists>ad' tm' ro. add_one_req p am clen nt ev ad cm tm = Some (ad', tm', ro) \<and>
    (ro = None \<longrightarrow> ad' = ad \<and> tm' = tm) \<and> tm_free_slots tm' = tm_free_slots tm \<and> tm_max tm' = tm_max tm \<and>
    length (tm_token_pool tm') = length (tm_token_pool tm) \<and>
    (\<forall>j<length (tm_token_pool tm). length (tm_token_pool tm' ! j) = length (tm_token_pool tm ! j))"
proof -
  from chunk_size_generic[OF gen b clen] obtain c where c: "chunk_size ad p clen (h_cached_len (am_handle am)) ev cm = Some c"
    "\<forall>k. c = Some k \<longrightarrow> 0 < k" by blast
  show ?thesis
  proof (cases c)
    case None
    then show ?thesis using c by (simp add: add_one_req_def)
  next
    case (Some k)
    define fin where "fin = nat (int clen + k)"
    have k: "0 < k" "k \<le> int (pr_input_len p) - int clen" using c Some chunk_size_le[of ad p clen] by auto
    then have fin: "clen < fin" "fin \<le> pr_input_len p" by (auto simp: fin_def)
    let ?src = "slice clen fin (pr_input_ids p)"
    have "length ?src = fin - clen" using fin by (simp add: pr_input_len_def)
    with token_copy_ok[OF t(2,3), of clen ?src fin] fin len obtain row where
      row: "token_copy (int t) clen fin ?src tm = Some (tm\<lparr>tm_token_pool := (tm_token_pool tm)[t := row]\<rparr>)" "length row = W" by auto
    have "clen < length (take fin (pr_input_ids p))" using fin by (simp add: pr_input_len_def)
    then have "\<exists>q. new_req (k < int (pr_input_len p) - int clen) (take fin (pr_input_ids p)) (am_table_idx am) clen
      (pr_output_len p) (pr_uid p) (pr_sampling p) (am_handle am) = Some q"
      by (simp add: new_req_def py_assert_def Let_def)
    then show ?thesis using c(1) Some row t by (auto simp: add_one_req_def Let_def fin_def nth_list_update)
  qed
qed

section \<open>One attempt\<close>

abbreviation objs :: "world \<Rightarrow> nat list \<Rightarrow> req list" where
  "objs w live \<equiv> map (\<lambda>i. the (w_reqs w i)) live"

text \<open>The live requests of a world: the books balance, and each table row is free or held by one of them.\<close>

definition live_ok :: "nat \<Rightarrow> world \<Rightarrow> nat list \<Rightarrow> bool" where
  "live_ok W w live \<longleftrightarrow> distinct live \<and> (\<forall>i\<in>set live. w_reqs w i \<noteq> None) \<and> (\<forall>i. w_reqs w i \<noteq> None \<longrightarrow> i < w_next w) \<and>
     cm_inv (w_cm w) (objs w live) \<and> rows_ok (w_tm w) (objs w live) \<and> shaped W (w_cm w) (w_tm w)"

text \<open>A waiting request fits a table row; its last chunk, if any, is live and is a prefix of it.\<close>

definition pend_ok :: "nat \<Rightarrow> world \<Rightarrow> nat list \<Rightarrow> pending_req \<Rightarrow> bool" where
  "pend_ok W w live p \<longleftrightarrow> pr_input_ids p \<noteq> [] \<and> pr_input_len p \<le> W \<and>
     (\<forall>i. pr_chunked p = Some i \<longrightarrow> i \<in> set live \<and> (let c = the (w_reqs w i) in
        rq_cached_len c < pr_input_len p \<and> take (hl c) (rq_input_ids c) = take (hl c) (pr_input_ids p)))"

definition after_chunk :: "pending_req \<Rightarrow> nat list \<Rightarrow> nat list" where
  "after_chunk p live = filter (\<lambda>i. pr_chunked p \<noteq> Some i) live"

lemma mset_split: "distinct live \<Longrightarrow> i \<in> set live \<Longrightarrow> mset live = add_mset i (mset (filter (\<lambda>j. Some i \<noteq> Some j) live))"
  using distinct_remove1_removeAll[of live i] insert_DiffM[of i "mset live"] mset_remove1[of i live]
  by (simp add: removeAll_filter_not_eq)

lemma objs_perm: "mset live' = mset live \<Longrightarrow> mset (objs w live') = mset (objs w live)"
  by simp

lemma rows_ok_cong: "mset (map rq_table_idx rs') = mset (map rq_table_idx rs) \<Longrightarrow> tm_free_slots tm' = tm_free_slots tm \<Longrightarrow>
    tm_max tm' = tm_max tm \<Longrightarrow> rows_ok tm rs \<Longrightarrow> rows_ok tm' rs'"
  by (simp add: rows_ok_def)

lemma shaped_tokens: "shaped W cm tm \<Longrightarrow> tm_max tm' = tm_max tm \<Longrightarrow> length (tm_token_pool tm') = length (tm_token_pool tm) \<Longrightarrow>
    \<forall>j<length (tm_token_pool tm). length (tm_token_pool tm' ! j) = length (tm_token_pool tm ! j) \<Longrightarrow> shaped W cm tm'"
  by (simp add: shaped_def)

text \<open>The books after an attempt: nothing new, or the new request in place of its last chunk.\<close>

definition joined :: "nat \<Rightarrow> world \<Rightarrow> req list \<Rightarrow> bool" where
  "joined W w rs \<longleftrightarrow> cm_inv (w_cm w) rs \<and> rows_ok (w_tm w) rs \<and> shaped W (w_cm w) (w_tm w)"

definition same_world :: "world \<Rightarrow> world \<Rightarrow> bool" where
  "same_world w w' \<longleftrightarrow> w_reqs w' = w_reqs w \<and> w_next w' = w_next w \<and> w_ec w' = w_ec w \<and>
     cm_page_size (w_cm w') = cm_page_size (w_cm w) \<and> cm_lazy (w_cm w') = cm_lazy (w_cm w) \<and>
     cm_num_pages (w_cm w') = cm_num_pages (w_cm w) \<and> cm_linear_pool (w_cm w') = cm_linear_pool (w_cm w) \<and> length (cm_page_table (w_cm w')) = length (cm_page_table (w_cm w)) \<and>
     tm_max (w_tm w') = tm_max (w_tm w)"

lemma continue_ok:
  assumes live: "live_ok W w live" and p: "pend_ok W w live p" and ch: "pr_chunked p = Some i" and b: "0 < ad_token_budget ad"
  shows "\<exists>ad' w' ro. try_add_one p tic ad w = Some (ad', w', ro) \<and> same_world w w' \<and>
    (case ro of None \<Rightarrow> w' = w \<and> ad' = ad | Some r \<Rightarrow> (\<exists>am clen. chunk_of p am clen r) \<and> joined W w' (r # objs w (after_chunk p live)) \<and>
       same_seat (the (w_reqs w i)) r \<and> ad_reserved ad' = ad_reserved ad + request_cost (cm_page_size (w_cm w)) p (rq_cached_len r))"
proof -
  define c where "c = the (w_reqs w i)"
  from p ch have i: "i \<in> set live" "rq_cached_len c < pr_input_len p" "take (hl c) (rq_input_ids c) = take (hl c) (pr_input_ids p)"
    by (simp_all add: pend_ok_def c_def Let_def)
  from live i(1) have wi: "w_reqs w i = Some c" by (auto simp: live_ok_def c_def)
  from live have inv: "cm_inv (w_cm w) (objs w live)" and rows: "rows_ok (w_tm w) (objs w live)" and sh: "shaped W (w_cm w) (w_tm w)"
    by (simp_all add: live_ok_def)
  have "mset live = add_mset i (mset (after_chunk p live))" using live i(1) mset_split[of live i] ch by (simp add: live_ok_def after_chunk_def)
  then have mo: "mset (objs w live) = mset (c # objs w (after_chunk p live))" by (simp add: c_def)
  have invc: "cm_inv (w_cm w) (c # objs w (after_chunk p live))" by (rule cm_inv_perm[OF inv]) (simp only: mo)
  have fit: "0 \<le> rq_table_idx c" "nat (rq_table_idx c) < length (cm_page_table (w_cm w))" "hl c \<le> rq_cached_len c"
    using cm_fits[OF invc, of c] by (simp_all add: req_fits_def)
  define am where "am = \<lparr>am_handle = rq_handle c, am_table_idx = rq_table_idx c, am_linear_slot = rq_linear_slot c,
    am_ping_pong = rq_ping_pong c, am_restore_src = None\<rparr>"
  have t: "am_table_idx am = int (nat (rq_table_idx c))" "nat (rq_table_idx c) < length (tm_token_pool (w_tm w))"
    "length (tm_token_pool (w_tm w) ! nat (rq_table_idx c)) = W"
    using fit sh by (simp_all add: am_def shaped_def)
  have lenW: "pr_input_len p \<le> W" using p by (simp add: pend_ok_def)
  from add_one_req_runs[OF cm_generic[OF inv] b i(2) lenW t, of "rq_next_track c" "rq_swa_evicted c"]
  obtain ad' tm' ro where a: "add_one_req p am (rq_cached_len c) (rq_next_track c) (rq_swa_evicted c) ad (w_cm w) (w_tm w) = Some (ad', tm', ro)"
    "ro = None \<longrightarrow> ad' = ad \<and> tm' = w_tm w" "tm_free_slots tm' = tm_free_slots (w_tm w)" "tm_max tm' = tm_max (w_tm w)"
    "length (tm_token_pool tm') = length (tm_token_pool (w_tm w))"
    "\<forall>j<length (tm_token_pool (w_tm w)). length (tm_token_pool tm' ! j) = length (tm_token_pool (w_tm w) ! j)" by blast
  have res: "try_add_one p tic ad w = Some (ad', w\<lparr>w_tm := tm'\<rparr>, ro)"
    using b ch wi a(1) by (simp add: try_add_one_def am_def)
  show ?thesis
  proof (cases ro)
    case None
    then show ?thesis using res a(2) by (simp add: same_world_def)
  next
    case (Some r)
    have cr: "chunk_of p am (rq_cached_len c) r"
      and res': "ad_reserved ad' = ad_reserved ad + request_cost (cm_page_size (w_cm w)) p (rq_cached_len c)"
      using add_one_req_chunk a(1) Some by blast+
    have cl: "rq_cached_len r = rq_cached_len c" using cr by (simp add: chunk_of_def)
    have "hl c \<le> rq_device_len r" using cr fit(3) by (simp add: chunk_of_def)
    then have ss: "same_seat c r" using cr i(3) by (simp add: same_seat_def chunk_of_def am_def min.absorb1)
    then have "cm_inv (w_cm w) (r # objs w (after_chunk p live))" by (rule cm_inv_update[OF invc])
    moreover have "rows_ok tm' (r # objs w (after_chunk p live))"
    proof (rule rows_ok_cong[OF _ a(3,4) rows])
      have "rq_table_idx r = rq_table_idx c" using cr by (simp add: chunk_of_def am_def)
      then show "mset (map rq_table_idx (r # objs w (after_chunk p live))) = mset (map rq_table_idx (objs w live))"
        using arg_cong[OF mo, of "image_mset rq_table_idx"] by (simp add: image_mset.compositionality comp_def)
    qed
    moreover have "shaped W (w_cm w) tm'" by (rule shaped_tokens[OF sh a(4-6)])
    ultimately have "joined W (w\<lparr>w_tm := tm'\<rparr>) (r # objs w (after_chunk p live))" by (simp add: joined_def)
    then show ?thesis using res cr Some ss res' cl
      by (intro exI[of _ ad'] exI[of _ "w\<lparr>w_tm := tm'\<rparr>"] exI[of _ ro]) (auto simp: same_world_def a(4) c_def[symmetric])
  qed
qed

lemma undo_ok:
  assumes "\<forall>r. seated p am r \<longrightarrow> cm_inv cm (r # rs) \<and> own_slice cm r = []" "am_table_idx am = int t" "am_linear_slot am = None"
    "tm_free_slots tm0 = tm_free_slots tm @ [t]"
  shows "\<exists>c. undo_admission am cm tm = Some (cm\<lparr>cm_prefix := c\<rparr>, tm\<lparr>tm_free_slots := tm_free_slots tm0\<rparr>) \<and> cm_inv (cm\<lparr>cm_prefix := c\<rparr>) rs"
proof -
  define r :: req where "r = undefined\<lparr>rq_handle := am_handle am, rq_table_idx := am_table_idx am,
    rq_cached_len := h_cached_len (am_handle am), rq_input_ids := pr_input_ids p\<rparr>"
  have r: "seated p am r" by (simp add: seated_def r_def)
  with assms(1) have "cm_inv cm (r # rs)" "own_slice cm r = []" by auto
  from unlock_held[OF inv_held[OF this]] r obtain c where "cm_unlock (am_handle am) cm = Some (cm\<lparr>cm_prefix := c\<rparr>)"
    "cm_inv (cm\<lparr>cm_prefix := c\<rparr>) rs" by (auto simp: seated_def)
  then show ?thesis using assms(2-4) by (auto simp: undo_admission_def tm_free_def)
qed

lemma fresh_ok:
  assumes live: "live_ok W w live" and p: "pend_ok W w live p" and ch: "pr_chunked p = None" and b: "0 < ad_token_budget ad"
  shows "\<exists>ad' w' ro. try_add_one p tic ad w = Some (ad', w', ro) \<and> same_world w w' \<and>
    (case ro of None \<Rightarrow> joined W w' (objs w live) \<and> ad' = ad
     | Some r \<Rightarrow> (\<exists>am clen. chunk_of p am clen r) \<and> joined W w' (r # objs w live) \<and> ad_reserved ad' \<le> available_size (w_cm w') \<and>
         ad_reserved ad' = ad_reserved ad + request_cost (cm_page_size (w_cm w)) p (hl r) \<and> rq_cached_len r = hl r)"
proof -
  from live have inv: "cm_inv (w_cm w) (objs w live)" and rows: "rows_ok (w_tm w) (objs w live)" and sh: "shaped W (w_cm w) (w_tm w)"
    by (simp_all add: live_ok_def)
  from p have pids: "pr_input_ids p \<noteq> []" and lenW: "pr_input_len p \<le> W" by (simp_all add: pend_ok_def)
  from try_allocate_ok[OF inv rows sh pids lenW, of tic ad] obtain cm tm adm where
    t: "try_allocate_one p tic ad (w_cm w) (w_tm w) = Some (cm, tm, adm)" "same_geo W (w_cm w) (w_tm w) cm tm"
    "case adm of None \<Rightarrow> cm_inv cm (objs w live) \<and> tm = w_tm w | Some am \<Rightarrow> admitted p ad (objs w live) (w_tm w) cm tm am" by blast
  from t(2) have geo: "shaped W cm tm" "cm_page_size cm = cm_page_size (w_cm w)" "cm_lazy cm = cm_lazy (w_cm w)" "tm_max tm = tm_max (w_tm w)"
    "cm_num_pages cm = cm_num_pages (w_cm w) \<and> cm_linear_pool cm = cm_linear_pool (w_cm w)" "length (cm_page_table cm) = length (cm_page_table (w_cm w))"
    by (simp_all add: same_geo_def)
  show ?thesis
  proof (cases adm)
    case None
    have "try_add_one p tic ad w = Some (ad, w\<lparr>w_cm := cm, w_tm := tm\<rparr>, None)"
      using b ch t(1) None by (simp add: try_add_one_def)
    then show ?thesis using t(3) None geo rows by (simp add: same_world_def joined_def)
  next
    case (Some am)
    with t(3) obtain j where a: "am_table_idx am = int j" "tm_free_slots (w_tm w) = tm_free_slots tm @ [j]" "j < tm_max (w_tm w)"
      "h_cached_len (am_handle am) < pr_input_len p" "am_linear_slot am = None"
      "\<forall>r. seated p am r \<longrightarrow> cm_inv cm (r # objs w live) \<and> own_slice cm r = []"
      "request_cost (cm_page_size cm) p (h_cached_len (am_handle am)) + ad_reserved ad \<le> available_size cm" by (auto simp: admitted_def)
    have tr: "j < length (tm_token_pool tm)" "length (tm_token_pool tm ! j) = W" using a(3) geo(1,4) by (simp_all add: shaped_def)
    from undo_ok[OF a(6,1,5,2)] obtain c where u: "undo_admission am cm tm = Some (cm\<lparr>cm_prefix := c\<rparr>, tm\<lparr>tm_free_slots := tm_free_slots (w_tm w)\<rparr>)"
      "cm_inv (cm\<lparr>cm_prefix := c\<rparr>) (objs w live)" by blast
    have gen: "generic cm" using u(2) by (simp add: cm_inv_def generic_def is_swa_def is_hybrid_def)
    from add_one_req_runs[OF gen b a(4) lenW a(1) tr, of 0 0] obtain ad' tm' ro where
      r: "add_one_req p am (h_cached_len (am_handle am)) 0 0 ad cm tm = Some (ad', tm', ro)" "ro = None \<longrightarrow> ad' = ad \<and> tm' = tm"
      "tm_free_slots tm' = tm_free_slots tm" "tm_max tm' = tm_max tm" "length (tm_token_pool tm') = length (tm_token_pool tm)"
      "\<forall>j<length (tm_token_pool tm). length (tm_token_pool tm' ! j) = length (tm_token_pool tm ! j)" by blast
    show ?thesis
    proof (cases ro)
      case None
      let ?tm = "tm\<lparr>tm_free_slots := tm_free_slots (w_tm w)\<rparr>"
      have "try_add_one p tic ad w = Some (ad, w\<lparr>w_cm := cm\<lparr>cm_prefix := c\<rparr>, w_tm := ?tm\<rparr>, None)"
        using b ch t(1) Some r(1,2) None u(1) by (simp add: try_add_one_def)
      moreover have "joined W (w\<lparr>w_cm := cm\<lparr>cm_prefix := c\<rparr>, w_tm := ?tm\<rparr>) (objs w live)"
        using u(2) rows_ok_cong[OF refl _ _ rows, of ?tm] geo by (simp add: joined_def shaped_def)
      ultimately show ?thesis using None geo by (auto simp: same_world_def)
    next
      case (Some q)
      note cq = add_one_req_chunk[OF r(1)[unfolded Some]]
      have "h_cached_len (am_handle am) \<le> rq_device_len q" using cq by (simp add: chunk_of_def)
      then have "seated p am q" using cq by (simp add: seated_def chunk_of_def min.absorb1)
      with a(6) have "cm_inv cm (q # objs w live)" by blast
      moreover have "rows_ok tm' (q # objs w live)"
        using rows_ok_take[OF a(2) rows _ r(3)] cq a(1) r(4) geo(4) by (simp add: chunk_of_def)
      moreover have "shaped W cm tm'" by (rule shaped_tokens[OF geo(1) r(4-6)])
      moreover have "try_add_one p tic ad w = Some (ad', w\<lparr>w_cm := cm, w_tm := tm'\<rparr>, Some q)"
        using b ch t(1) \<open>adm = Some am\<close> r(1) Some by (simp add: try_add_one_def)
      moreover have "rq_handle q = am_handle am" "rq_cached_len q = hl q" using cq by (simp_all add: chunk_of_def)
      ultimately show ?thesis using Some cq a(7) geo by (auto simp: same_world_def joined_def r(4))
    qed
  qed
qed

text \<open>What the new request costs, and where the room for it comes from: its last chunk's seat, or the check.\<close>

definition paid :: "pending_req \<Rightarrow> prefill_adder \<Rightarrow> prefill_adder \<Rightarrow> world \<Rightarrow> world \<Rightarrow> req \<Rightarrow> bool" where
  "paid p ad ad' w w' r \<longleftrightarrow> ad_reserved ad' = ad_reserved ad + request_cost (cm_page_size (w_cm w)) p (rq_cached_len r) \<and>
     (case pr_chunked p of None \<Rightarrow> ad_reserved ad' \<le> available_size (w_cm w') | Some i \<Rightarrow> same_seat (the (w_reqs w i)) r)"

lemma try_add_ok:
  assumes "live_ok W w live" "pend_ok W w live p"
  shows "\<exists>ad' w' ro. try_add_one p tic ad w = Some (ad', w', ro) \<and> same_world w w' \<and>
    (case ro of None \<Rightarrow> joined W w' (objs w live)
     | Some r \<Rightarrow> (\<exists>am clen. chunk_of p am clen r) \<and> joined W w' (r # objs w (after_chunk p live)) \<and> paid p ad ad' w w' r)"
proof (cases "0 < ad_token_budget ad")
  case True
  show ?thesis
  proof (cases "pr_chunked p")
    case None
    then have "after_chunk p live = live" by (simp add: after_chunk_def)
    with fresh_ok[OF assms None True, of tic] None show ?thesis by (fastforce simp: paid_def split: option.splits)
  next
    case (Some i)
    have "joined W w (objs w live)" using assms(1) by (simp add: live_ok_def joined_def)
    with continue_ok[OF assms Some True, of tic] Some show ?thesis by (fastforce simp: paid_def split: option.splits)
  qed
next
  case False
  then show ?thesis using assms(1) by (simp add: try_add_one_def same_world_def live_ok_def joined_def)
qed

section \<open>The pass\<close>

fun chunk_ids :: "pending_req list \<Rightarrow> nat list" where
  "chunk_ids [] = []"
| "chunk_ids (p # ps) = (case pr_chunked p of None \<Rightarrow> [] | Some i \<Rightarrow> [i]) @ chunk_ids ps"

lemma chunk_ids_append [simp]: "chunk_ids (ps @ qs) = chunk_ids ps @ chunk_ids qs"
  by (induction ps) auto

lemma chunk_ids_iff: "i \<in> set (chunk_ids ps) \<longleftrightarrow> (\<exists>p\<in>set ps. pr_chunked p = Some i)"
  by (induction ps) (auto split: option.splits)

text \<open>The waiting list: every entry is fine and no chunk is waited for twice.\<close>

definition waiting_ok :: "nat \<Rightarrow> world \<Rightarrow> nat list \<Rightarrow> pending_req list \<Rightarrow> bool" where
  "waiting_ok W w live ps \<longleftrightarrow> (\<forall>p\<in>set ps. pend_ok W w live p) \<and> distinct (chunk_ids ps)"

text \<open>The waiting list keeps the unfinished prompts first, and what they still reserve.\<close>

fun chunks_first :: "pending_req list \<Rightarrow> bool" where
  "chunks_first [] \<longleftrightarrow> True"
| "chunks_first (p # ps) \<longleftrightarrow> (if pr_chunked p = None then \<forall>q\<in>set ps. pr_chunked q = None else chunks_first ps)"

lemma chunks_first_append: "\<forall>p\<in>set ps. pr_chunked p \<noteq> None \<Longrightarrow> chunks_first (ps @ qs) \<longleftrightarrow> chunks_first qs"
  by (induction ps) auto

lemma chunks_first_drop: "chunks_first ps \<Longrightarrow> chunks_first (drop n ps)"
proof (induction ps arbitrary: n)
  case (Cons p ps)
  have "\<forall>q\<in>set qs. pr_chunked q = None \<Longrightarrow> chunks_first qs" for qs by (cases qs) auto
  with Cons show ?case by (cases n) (auto split: if_splits)
qed simp

lemma chunks_first_snoc: "chunks_first ps \<Longrightarrow> pr_chunked p = None \<Longrightarrow> chunks_first (ps @ [p])"
  by (induction ps) auto

definition chunk_cost :: "nat \<Rightarrow> req_store \<Rightarrow> pending_req \<Rightarrow> nat \<Rightarrow> int" where
  "chunk_cost ps rs p i = request_cost ps p (rq_cached_len (the (rs i)))"

definition wait_need :: "nat \<Rightarrow> req_store \<Rightarrow> pending_req list \<Rightarrow> int" where
  "wait_need ps rs pend = sum_list (map (\<lambda>p. case pr_chunked p of None \<Rightarrow> 0 | Some i \<Rightarrow> chunk_cost ps rs p i) pend)"

lemma wait_need_Cons: "wait_need ps rs (p # pend) = (case pr_chunked p of None \<Rightarrow> 0 | Some i \<Rightarrow> chunk_cost ps rs p i) + wait_need ps rs pend"
  by (simp add: wait_need_def)

lemma wait_need_append: "wait_need ps rs (xs @ ys) = wait_need ps rs xs + wait_need ps rs ys"
  by (simp add: wait_need_def)

lemma wait_need_fresh: "\<forall>p\<in>set pend. pr_chunked p = None \<Longrightarrow> wait_need ps rs pend = 0"
  by (induction pend) (simp_all add: wait_need_def)

lemma wait_need_cong: "(\<And>i. i \<in> set (chunk_ids pend) \<Longrightarrow> rq_cached_len (the (rs' i)) = rq_cached_len (the (rs i))) \<Longrightarrow>
    wait_need ps rs' pend = wait_need ps rs pend"
  by (induction pend) (auto simp: wait_need_def chunk_cost_def split: option.splits)

abbreviation pool_room :: "world \<Rightarrow> nat list \<Rightarrow> int" where
  "pool_room w live \<equiv> room (cm_num_pages (w_cm w)) (cm_page_size (w_cm w)) (objs w live)"

definition same_pools :: "world \<Rightarrow> world \<Rightarrow> bool" where
  "same_pools w w' \<longleftrightarrow> cm_page_size (w_cm w') = cm_page_size (w_cm w) \<and> cm_lazy (w_cm w') = cm_lazy (w_cm w) \<and>
     cm_num_pages (w_cm w') = cm_num_pages (w_cm w) \<and> cm_linear_pool (w_cm w') = cm_linear_pool (w_cm w) \<and> length (cm_page_table (w_cm w')) = length (cm_page_table (w_cm w)) \<and>
     w_next w \<le> w_next w' \<and> tm_max (w_tm w') = tm_max (w_tm w)"

lemma live_joined:
  assumes "live_ok W w live" "same_world w w'" "joined W w' (objs w live)"
  shows "live_ok W w' live"
  using assms by (simp add: live_ok_def same_world_def joined_def)

lemma waiting_same: "waiting_ok W w live ps \<Longrightarrow> w_reqs w' = w_reqs w \<Longrightarrow> waiting_ok W w' live ps"
  by (simp add: waiting_ok_def pend_ok_def)

text \<open>The new request object takes the place of its last chunk.\<close>

lemma note_ok:
  assumes live: "live_ok W w live" and j: "joined W w' (r # objs w (after_chunk p live))" and sw: "same_world w w'"
    and wt: "waiting_ok W w live (xs @ p # ys)" and cr: "chunk_of p am clen r"
    and n: "note_admitted p r w' pass = (w'', pass')"
  shows "live_ok W w'' (w_next w # after_chunk p live) \<and> waiting_ok W w'' (w_next w # after_chunk p live)
      (xs @ (if rq_chunked r then [p\<lparr>pr_chunked := Some (w_next w)\<rparr>] else []) @ ys)"
proof -
  let ?i = "w_next w" and ?live = "after_chunk p live"
  have old: "w_reqs w i \<noteq> None" "i \<noteq> ?i" if "i \<in> set live" for i
    using live that unfolding live_ok_def by (blast, metis less_irrefl)
  have w'': "w_reqs w'' = (w_reqs w)(?i \<mapsto> r)" "w_next w'' = ?i + 1" "w_cm w'' = w_cm w'" "w_tm w'' = w_tm w'"
    using n sw by (auto simp: note_admitted_def new_obj_def Let_def same_world_def split: if_splits)
  have sub: "set ?live \<subseteq> set live" by (auto simp: after_chunk_def)
  have "objs w'' ?live = objs w ?live"
    using sub old by (auto simp: w''(1) fun_upd_def)
  then have same: "objs w'' (?i # ?live) = r # objs w ?live" by (simp add: w''(1) del: map_eq_conv)
  have "distinct (?i # ?live)" using live sub old(2) by (auto simp: live_ok_def after_chunk_def)
  moreover have "\<forall>i. w_reqs w'' i \<noteq> None \<longrightarrow> i < w_next w''"
    using live unfolding w''(1,2) live_ok_def by (metis fun_upd_other less_Suc_eq Suc_eq_plus1)
  moreover have "\<forall>i\<in>set (?i # ?live). w_reqs w'' i \<noteq> None" using sub old by (auto simp: w''(1))
  moreover have "cm_inv (w_cm w'') (objs w'' (?i # ?live))" "rows_ok (w_tm w'') (objs w'' (?i # ?live))" "shaped W (w_cm w'') (w_tm w'')"
    using j unfolding joined_def same w''(3,4) by blast+
  ultimately have A: "live_ok W w'' (?i # ?live)" by (simp add: live_ok_def)
  have oth: "pend_ok W w'' (?i # ?live) q" if q: "q \<in> set xs \<union> set ys" for q
  proof -
    from wt q have pq: "pend_ok W w live q" by (auto simp: waiting_ok_def)
    have "i \<in> set ?live \<and> i \<noteq> ?i" if "pr_chunked q = Some i" for i
    proof -
      have "i \<in> set live" using pq that by (simp add: pend_ok_def)
      moreover have "pr_chunked p \<noteq> Some i"
      proof
        assume pi: "pr_chunked p = Some i"
        have "i \<in> set (chunk_ids xs) \<union> set (chunk_ids ys)" using q that chunk_ids_iff by fastforce
        moreover have "distinct (chunk_ids xs @ i # chunk_ids ys)" using wt pi by (simp add: waiting_ok_def)
        ultimately show False by auto
      qed
      ultimately show ?thesis using old(2) by (simp add: after_chunk_def)
    qed
    then show ?thesis using pq by (auto simp: pend_ok_def w''(1) Let_def)
  qed
  have new: "pend_ok W w'' (?i # ?live) (p\<lparr>pr_chunked := Some ?i\<rparr>)" if "rq_chunked r"
  proof -
    have "rq_cached_len r < pr_input_len p" using cr by (simp add: chunk_of_def)
    have "req_fits (w_cm w') r" using j cm_fits[of "w_cm w'" "r # objs w ?live" r] by (simp add: joined_def)
    then have "hl r \<le> rq_device_len r" using cr by (simp add: chunk_of_def req_fits_def)
    then have "take (hl r) (rq_input_ids r) = take (hl r) (pr_input_ids p)" using cr by (simp add: chunk_of_def min.absorb1)
    then show ?thesis using wt cr \<open>rq_cached_len r < pr_input_len p\<close>
      by (simp add: waiting_ok_def pend_ok_def w''(1) pr_input_len_def)
  qed
  have "?i \<notin> set (chunk_ids xs) \<union> set (chunk_ids ys)"
  proof
    assume "?i \<in> set (chunk_ids xs) \<union> set (chunk_ids ys)"
    then obtain q where "q \<in> set xs \<union> set ys" "pr_chunked q = Some ?i" using chunk_ids_iff by blast
    then have "?i \<in> set live" using wt by (auto simp: waiting_ok_def pend_ok_def)
    then show False using old(2) by blast
  qed
  then have "distinct (chunk_ids (xs @ (if rq_chunked r then [p\<lparr>pr_chunked := Some ?i\<rparr>] else []) @ ys))"
    using wt by (auto simp: waiting_ok_def)
  with oth new have "waiting_ok W w'' (?i # ?live) (xs @ (if rq_chunked r then [p\<lparr>pr_chunked := Some ?i\<rparr>] else []) @ ys)"
    by (auto simp: waiting_ok_def)
  with A show ?thesis by blast
qed

subsection \<open>What a batch holds, for every cache kind\<close>

lemma try_add_some:
  assumes "try_add_one p tic ad w = Some (ad', w', Some r)"
  shows "w_reqs w' = w_reqs w \<and> w_next w' = w_next w \<and> (\<exists>am clen. chunk_of p am clen r) \<and> 0 \<le> ad_token_budget ad' \<and>
    ad_token_budget ad' = ad_token_budget ad - int (extend_len r)"
proof (cases "pr_chunked p")
  case None
  with assms obtain cm tm am tm' where a: "add_one_req p am (h_cached_len (am_handle am)) 0 0 ad cm tm = Some (ad', tm', Some r)"
    "w' = w\<lparr>w_cm := cm, w_tm := tm'\<rparr>"
    by (auto simp: try_add_one_def bind_eq_Some_conv split: if_splits option.splits)
  from add_one_req_chunk[OF a(1)] a(2) show ?thesis by auto
next
  case (Some i)
  with assms obtain am clen nt ev tm' where a: "add_one_req p am clen nt ev ad (w_cm w) (w_tm w) = Some (ad', tm', Some r)"
    "w' = w\<lparr>w_tm := tm'\<rparr>"
    by (auto simp: try_add_one_def bind_eq_Some_conv split: if_splits)
  from add_one_req_chunk[OF a(1)] a(2) show ?thesis by auto
qed

lemma try_add_none:
  assumes "try_add_one p tic ad w = Some (ad', w', None)"
  shows "w_reqs w' = w_reqs w \<and> w_next w' = w_next w \<and> ad_token_budget ad' = ad_token_budget ad"
  using assms by (auto simp: try_add_one_def add_one_req_def Let_def bind_eq_Some_conv split: if_splits option.splits)

definition taken :: "pending_req \<Rightarrow> req \<Rightarrow> bool" where
  "taken p r \<longleftrightarrow> rq_uid r = pr_uid p \<and> rq_cached_len r < rq_device_len r \<and> rq_input_ids r = take (rq_device_len r) (pr_input_ids p) \<and>
     (rq_chunked r \<longleftrightarrow> rq_device_len r < pr_input_len p) \<and> rq_device_len r \<le> pr_input_len p \<and>
     rq_max_device_len r = rq_device_len r + pr_output_len p \<and> \<not> rq_aborted r \<and> rq_mm_items r = pr_mm_items p"

text \<open>The prompts of a pass that need another chunk, each with the chunk it got.\<close>

definition unfinished :: "world \<Rightarrow> (pending_req \<times> nat) list \<Rightarrow> pending_req list" where
  "unfinished w pis = map (\<lambda>(p, i). p\<lparr>pr_chunked := Some i\<rparr>) (filter (\<lambda>(p, i). rq_chunked (the (w_reqs w i))) pis)"

lemma admit_loop_batch:
  assumes "admit_loop clk k pending ad w pass = Some (ad', w', pass')" "\<forall>i. w_reqs w i \<noteq> None \<longrightarrow> i < w_next w"
  shows "\<exists>new. ps_reqs pass' = ps_reqs pass @ new \<and> length new \<le> length pending \<and>
    (\<forall>i. w_reqs w i \<noteq> None \<longrightarrow> w_reqs w' i = w_reqs w i) \<and> (\<forall>i\<in>set new. w_reqs w' i \<noteq> None) \<and>
    list_all2 taken (take (length new) pending) (objs w' new) \<and>
    ps_new pass' = ps_new pass + sum_list (map extend_len (objs w' new)) \<and>
    int (sum_list (map extend_len (objs w' new))) + ad_token_budget ad' = ad_token_budget ad \<and>
    (new \<noteq> [] \<longrightarrow> 0 \<le> ad_token_budget ad') \<and>
    map pr_uid (ps_chunked pass') = map pr_uid (ps_chunked pass) @ map rq_uid (filter rq_chunked (objs w' new)) \<and>
    ps_chunked pass' = ps_chunked pass @ unfinished w' (zip pending new)"
  using assms
proof (induction pending arbitrary: k ad w pass)
  case (Cons p pending)
  from Cons.prems(1) obtain x where x: "try_add_one p (clk k) ad w = Some x"
    "(case x of (ad1, w1, ro) \<Rightarrow> (case ro of None \<Rightarrow> Some (ad1, w1, pass)
       | Some r \<Rightarrow> (let (w, pass) = note_admitted p r w1 pass in admit_loop clk (k + 1) pending ad1 w pass))) = Some (ad', w', pass')"
    unfolding admit_loop.simps bind_eq_Some_conv by blast
  obtain ad1 w1 ro where t: "try_add_one p (clk k) ad w = Some (ad1, w1, ro)"
    and rest: "(case ro of None \<Rightarrow> Some (ad1, w1, pass)
       | Some r \<Rightarrow> (let (w, pass) = note_admitted p r w1 pass in admit_loop clk (k + 1) pending ad1 w pass)) = Some (ad', w', pass')"
    by (cases x) (use x in \<open>simp only: prod.case\<close>)
  show ?case
  proof (cases ro)
    case None
    then show ?thesis using try_add_none t rest by (auto simp: unfinished_def)
  next
    case (Some r)
    note ts = try_add_some[OF t[unfolded Some]]
    from ts obtain am clen where cr: "chunk_of p am clen r" by blast
    obtain w2 pass2 where n: "note_admitted p r w1 pass = (w2, pass2)" by fastforce
    let ?i = "w_next w"
    have n2: "w_reqs w2 = (w_reqs w)(?i \<mapsto> r)" "w_next w2 = ?i + 1" "ps_reqs pass2 = ps_reqs pass @ [?i]"
      "ps_new pass2 = ps_new pass + extend_len r"
      "ps_chunked pass2 = ps_chunked pass @ (if rq_chunked r then [p\<lparr>pr_chunked := Some ?i\<rparr>] else [])"
      using n ts by (auto simp: note_admitted_def new_obj_def Let_def split: if_splits)
    have loop: "admit_loop clk (k + 1) pending ad1 w2 pass2 = Some (ad', w', pass')" using rest Some n by simp
    have lt: "\<forall>i. w_reqs w2 i \<noteq> None \<longrightarrow> i < w_next w2"
      using Cons.prems(2) unfolding n2(1,2) by (metis fun_upd_other less_Suc_eq Suc_eq_plus1)
    from Cons.IH[OF loop lt] obtain new where h: "ps_reqs pass' = ps_reqs pass2 @ new" "length new \<le> length pending"
      "\<forall>i. w_reqs w2 i \<noteq> None \<longrightarrow> w_reqs w' i = w_reqs w2 i" "\<forall>i\<in>set new. w_reqs w' i \<noteq> None"
      "list_all2 taken (take (length new) pending) (objs w' new)"
      "ps_new pass' = ps_new pass2 + sum_list (map extend_len (objs w' new))"
      "int (sum_list (map extend_len (objs w' new))) + ad_token_budget ad' = ad_token_budget ad1"
      "new \<noteq> [] \<longrightarrow> 0 \<le> ad_token_budget ad'"
      "map pr_uid (ps_chunked pass') = map pr_uid (ps_chunked pass2) @ map rq_uid (filter rq_chunked (objs w' new))"
      "ps_chunked pass' = ps_chunked pass2 @ unfinished w' (zip pending new)" by blast
    have wi: "w_reqs w' ?i = Some r" using h(3)[rule_format, of ?i] by (simp add: n2(1))
    have keep: "w_reqs w' i = w_reqs w i" if "w_reqs w i \<noteq> None" for i
    proof -
      have "i \<noteq> ?i" using Cons.prems(2) that by (metis less_irrefl)
      then show ?thesis using h(3)[rule_format, of i] that by (simp add: n2(1))
    qed
    have tk: "taken p r" using cr by (simp add: taken_def chunk_of_def)
    have b0: "0 \<le> ad_token_budget ad'" using h(7,8) ts by (cases new) auto
    show ?thesis
    proof (intro exI conjI)
      show "ps_reqs pass' = ps_reqs pass @ (?i # new)" using h(1) n2(3) by simp
      show "list_all2 taken (take (length (?i # new)) (p # pending)) (objs w' (?i # new))" using h(5) tk wi by simp
      show "ps_new pass' = ps_new pass + sum_list (map extend_len (objs w' (?i # new)))" using h(6) n2(4) wi by simp
      show "int (sum_list (map extend_len (objs w' (?i # new)))) + ad_token_budget ad' = ad_token_budget ad" using h(7) ts wi by simp
      show "map pr_uid (ps_chunked pass') = map pr_uid (ps_chunked pass) @ map rq_uid (filter rq_chunked (objs w' (?i # new)))"
        using h(9) n2(5) wi tk by (simp add: taken_def)
      show "ps_chunked pass' = ps_chunked pass @ unfinished w' (zip (p # pending) (?i # new))"
        using h(10) n2(5) wi by (simp add: unfinished_def)
    qed (use h(2,4) wi keep b0 in auto)
  qed
qed (auto simp: unfinished_def)

lemma admit_loop_keeps:
  assumes "admit_loop clk k pending ad w pass = Some (ad', w', pass')" "\<forall>i. w_reqs w i \<noteq> None \<longrightarrow> i < w_next w" "w_reqs w i \<noteq> None"
  shows "w_reqs w' i = w_reqs w i"
  using admit_loop_batch[OF assms(1,2)] assms(3) by blast

subsection \<open>The books after the pass\<close>

text \<open>The room a new request leaves: the reservation \<open>z\<close> of the others and its own cost.\<close>

lemma paid_room:
  assumes live: "live_ok W w live" and p: "pend_ok W w live p" and j: "joined W w' (r # objs w (after_chunk p live))"
    and sw: "same_world w w'" and paid: "paid p ad ad' w w' r" and lz: "cm_lazy (w_cm w) = None"
    and cf: "chunks_first (p # pending)" and z: "z \<le> ad_reserved ad"
    and rm: "z + wait_need (cm_page_size (w_cm w)) (w_reqs w) (p # pending) \<le> pool_room w live"
  shows "z + request_cost (cm_page_size (w_cm w)) p (rq_cached_len r) + wait_need (cm_page_size (w_cm w)) (w_reqs w) pending \<le>
    room (cm_num_pages (w_cm w)) (cm_page_size (w_cm w)) (r # objs w (after_chunk p live))"
proof (cases "pr_chunked p")
  case None
  have geo: "cm_num_pages (w_cm w') = cm_num_pages (w_cm w)" "cm_page_size (w_cm w') = cm_page_size (w_cm w)" "cm_lazy (w_cm w') = None"
    using sw lz by (simp_all add: same_world_def)
  have "cm_inv (w_cm w') (r # objs w (after_chunk p live))" using j by (simp add: joined_def)
  from available_room[OF this geo(3)] have "ad_reserved ad' \<le> room (cm_num_pages (w_cm w)) (cm_page_size (w_cm w)) (r # objs w (after_chunk p live))"
    using paid None geo by (simp add: paid_def)
  moreover have "wait_need (cm_page_size (w_cm w)) (w_reqs w) pending = 0" using cf None by (intro wait_need_fresh) simp
  ultimately show ?thesis using paid z by (simp add: paid_def)
next
  case (Some i)
  let ?c = "the (w_reqs w i)"
  have i: "i \<in> set live" using p Some by (simp add: pend_ok_def)
  have ss: "same_seat ?c r" using paid Some by (simp add: paid_def)
  have "mset live = add_mset i (mset (after_chunk p live))" using live i mset_split[of live i] Some by (simp add: live_ok_def after_chunk_def)
  then have "mset (?c # objs w (after_chunk p live)) = mset (objs w live)" by simp
  from room_perm[OF this] room_same_seat[OF ss]
  have "room (cm_num_pages (w_cm w)) (cm_page_size (w_cm w)) (r # objs w (after_chunk p live)) = pool_room w live" by metis
  moreover have "rq_cached_len r = rq_cached_len ?c" using ss by (simp add: same_seat_def)
  ultimately show ?thesis using rm Some by (simp add: wait_need_Cons chunk_cost_def)
qed

lemma admit_loop_ok:
  assumes "live_ok W w live" "waiting_ok W w live (ps_chunked pass @ pending)"
  shows "\<exists>ad' w' pass'. admit_loop clk k pending ad w pass = Some (ad', w', pass') \<and>
    (\<exists>live' new. live_ok W w' live' \<and> ps_reqs pass' = ps_reqs pass @ new \<and> length new \<le> length pending \<and>
      waiting_ok W w' live' (ps_chunked pass' @ drop (length new) pending) \<and>
      set live' = (set live - set (chunk_ids (take (length new) pending))) \<union> set new \<and> (\<forall>i\<in>set new. w_next w \<le> i) \<and> distinct new \<and>
      same_pools w w' \<and>
      (cm_lazy (w_cm w) = None \<longrightarrow> chunks_first pending \<longrightarrow> z \<le> ad_reserved ad \<longrightarrow>
         z + wait_need (cm_page_size (w_cm w)) (w_reqs w) pending \<le> pool_room w live \<longrightarrow>
         z + sum_list (map (\<lambda>(p, i). chunk_cost (cm_page_size (w_cm w)) (w_reqs w') p i) (zip pending new)) +
           wait_need (cm_page_size (w_cm w)) (w_reqs w') (drop (length new) pending) \<le> pool_room w' live'))"
  using assms
proof (induction pending arbitrary: k ad w pass live z)
  case Nil
  then show ?case by (auto simp: same_pools_def intro!: exI[of _ live])
next
  case (Cons p pending)
  let ?ps = "cm_page_size (w_cm w)"
  have p: "pend_ok W w live p" using Cons.prems(2) by (simp add: waiting_ok_def)
  from try_add_ok[OF Cons.prems(1) p, of "clk k" ad] obtain ad' w' ro where
    t: "try_add_one p (clk k) ad w = Some (ad', w', ro)" "same_world w w'"
    "case ro of None \<Rightarrow> joined W w' (objs w live)
     | Some r \<Rightarrow> (\<exists>am clen. chunk_of p am clen r) \<and> joined W w' (r # objs w (after_chunk p live)) \<and> paid p ad ad' w w' r" by blast
  show ?case
  proof (cases ro)
    case None
    then have "live_ok W w' live" using live_joined[OF Cons.prems(1) t(2)] t(3) by simp
    moreover have "waiting_ok W w' live (ps_chunked pass @ p # pending)"
      using waiting_same[OF Cons.prems(2)] t(2) by (simp add: same_world_def)
    ultimately show ?thesis using None t(1,2) by (auto simp: same_world_def same_pools_def intro!: exI[of _ live])
  next
    case (Some r)
    obtain w1 pass1 where n: "note_admitted p r w' pass = (w1, pass1)" by fastforce
    from t(3) Some obtain am clen where cr: "chunk_of p am clen r" and j: "joined W w' (r # objs w (after_chunk p live))"
      and paid: "paid p ad ad' w w' r" by auto
    let ?i = "w_next w" and ?live = "w_next w # after_chunk p live"
    from note_ok[OF Cons.prems(1) j t(2) Cons.prems(2) cr n] have
      l1: "live_ok W w1 ?live" and wt: "waiting_ok W w1 ?live (ps_chunked pass @ (if rq_chunked r then [p\<lparr>pr_chunked := Some ?i\<rparr>] else []) @ pending)" by auto
    have p1: "ps_reqs pass1 = ps_reqs pass @ [?i]" "w_next w1 = ?i + 1" "w_cm w1 = w_cm w'"
      "ps_chunked pass1 = ps_chunked pass @ (if rq_chunked r then [p\<lparr>pr_chunked := Some ?i\<rparr>] else [])" "w_reqs w1 = (w_reqs w)(?i \<mapsto> r)"
      using n t(2) by (auto simp: note_admitted_def new_obj_def Let_def same_world_def split: if_splits)
    have mx: "tm_max (w_tm w1) = tm_max (w_tm w)" using n t(2) by (auto simp: note_admitted_def new_obj_def Let_def same_world_def split: if_splits)
    have geo: "cm_page_size (w_cm w1) = ?ps" "cm_num_pages (w_cm w1) = cm_num_pages (w_cm w)" "cm_linear_pool (w_cm w1) = cm_linear_pool (w_cm w)" "cm_lazy (w_cm w1) = cm_lazy (w_cm w)"
      "length (cm_page_table (w_cm w1)) = length (cm_page_table (w_cm w))" using p1(3) t(2) by (simp_all add: same_world_def)
    have fresh: "?i \<notin> set live" using Cons.prems(1) by (auto simp: live_ok_def)
    have old: "w_reqs w1 i = w_reqs w i" if "i \<in> set live" for i using that fresh p1(5) by auto
    have pids: "i \<in> set live" if "i \<in> set (chunk_ids pending)" for i
      using that Cons.prems(2) chunk_ids_iff[of i pending] by (auto simp: waiting_ok_def pend_ok_def)
    have notc: "?i \<notin> set (chunk_ids (take (length new) pending))" for new
      using pids[of ?i] fresh chunk_ids_iff[of ?i] by (meson in_set_takeD)
    have "waiting_ok W w1 ?live (ps_chunked pass1 @ pending)" using wt p1(4) by simp
    from Cons.IH[OF l1 this, of "k + 1" ad' "z + request_cost ?ps p (rq_cached_len r)"] obtain ad2 w2 pass2 live2 new where
      r: "admit_loop clk (k + 1) pending ad' w1 pass1 = Some (ad2, w2, pass2)" "live_ok W w2 live2"
      "ps_reqs pass2 = ps_reqs pass1 @ new" "length new \<le> length pending"
      "waiting_ok W w2 live2 (ps_chunked pass2 @ drop (length new) pending)"
      "set live2 = (set ?live - set (chunk_ids (take (length new) pending))) \<union> set new" "\<forall>i\<in>set new. w_next w1 \<le> i" "distinct new" "same_pools w1 w2"
      and room: "cm_lazy (w_cm w1) = None \<longrightarrow> chunks_first pending \<longrightarrow> z + request_cost ?ps p (rq_cached_len r) \<le> ad_reserved ad' \<longrightarrow>
         z + request_cost ?ps p (rq_cached_len r) + wait_need (cm_page_size (w_cm w1)) (w_reqs w1) pending \<le> pool_room w1 ?live \<longrightarrow>
         z + request_cost ?ps p (rq_cached_len r) + sum_list (map (\<lambda>(p, i). chunk_cost (cm_page_size (w_cm w1)) (w_reqs w2) p i) (zip pending new)) +
           wait_need (cm_page_size (w_cm w1)) (w_reqs w2) (drop (length new) pending) \<le> pool_room w2 live2"
      by (elim exE conjE) (rule that, assumption+)
    have loop: "admit_loop clk k (p # pending) ad w pass = Some (ad2, w2, pass2)" using t(1) Some n r(1) by simp
    have keep: "w_reqs w2 ?i = Some r" using admit_loop_keeps[OF r(1), of ?i] l1 p1(5) by (simp add: live_ok_def)
    have sl: "set live2 = (set live - set (chunk_ids (take (length (?i # new)) (p # pending)))) \<union> set (?i # new)"
      unfolding r(6) using notc by (auto simp: after_chunk_def split: option.splits)
    have rm: "z + sum_list (map (\<lambda>(p, i). chunk_cost ?ps (w_reqs w2) p i) (zip (p # pending) (?i # new))) +
           wait_need ?ps (w_reqs w2) (drop (length (?i # new)) (p # pending)) \<le> pool_room w2 live2"
      if lz: "cm_lazy (w_cm w) = None" and cf: "chunks_first (p # pending)" and zr: "z \<le> ad_reserved ad"
        and zw: "z + wait_need ?ps (w_reqs w) (p # pending) \<le> pool_room w live"
    proof -
      have o: "objs w1 ?live = r # objs w (after_chunk p live)"
        using p1(5) fresh by (auto simp: after_chunk_def)
      have "wait_need ?ps (w_reqs w1) pending = wait_need ?ps (w_reqs w) pending" using old pids by (intro wait_need_cong) simp
      moreover note paid_room[OF Cons.prems(1) p j t(2) paid lz cf zr zw]
      moreover have "chunks_first pending" using cf by (cases pending) (auto split: if_splits)
      moreover have "z + request_cost ?ps p (rq_cached_len r) \<le> ad_reserved ad'" using zr paid by (simp add: paid_def)
      ultimately show ?thesis using room lz keep unfolding o geo by (simp add: chunk_cost_def)
    qed
    show ?thesis
    proof (intro exI conjI)
      show "admit_loop clk k (p # pending) ad w pass = Some (ad2, w2, pass2)" by (rule loop)
      show "live_ok W w2 live2" by (rule r(2))
      show "ps_reqs pass2 = ps_reqs pass @ (?i # new)" using r(3) p1(1) by simp
      show "length (?i # new) \<le> length (p # pending)" using r(4) by simp
      show "waiting_ok W w2 live2 (ps_chunked pass2 @ drop (length (?i # new)) (p # pending))" using r(5) by simp
      show "set live2 = (set live - set (chunk_ids (take (length (?i # new)) (p # pending)))) \<union> set (?i # new)" by (rule sl)
      show "\<forall>i\<in>set (?i # new). w_next w \<le> i" using r(7) p1(2) by auto
      show "distinct (?i # new)" using r(7,8) p1(2) by auto
      show "same_pools w w2" using r(9) geo p1(2) mx by (simp add: same_pools_def)
    qed (use rm in blast)
  qed
qed

definition batch_ids :: "batch option \<Rightarrow> nat list" where
  "batch_ids b = (case b of None \<Rightarrow> [] | Some b \<Rightarrow> b_reqs b)"

lemma pass_ok:
  assumes live: "live_ok W w live" and wt: "waiting_ok W w live (pm_pending pm)"
  shows "\<exists>pm' w' b live'. pm_schedule_next_batch clk budget dm pm w = Some (pm', w', b) \<and> live_ok W w' live' \<and>
    waiting_ok W w' live' (pm_pending pm') \<and> same_pools w w' \<and> pm_keep_images pm' = pm_keep_images pm \<and>
    (case b of None \<Rightarrow> True | Some b \<Rightarrow> b_prefill b \<and> b_reqs b \<noteq> []) \<and>
    set live' = (set live - set (chunk_ids (take (length (batch_ids b)) (pm_pending pm)))) \<union> set (batch_ids b) \<and>
    (\<forall>i\<in>set (batch_ids b). w_next w \<le> i) \<and> distinct (batch_ids b) \<and> length (batch_ids b) \<le> length (pm_pending pm) \<and>
    (\<forall>i. w_reqs w i \<noteq> None \<longrightarrow> w_reqs w' i = w_reqs w i) \<and> list_all2 taken (take (length (batch_ids b)) (pm_pending pm)) (objs w' (batch_ids b)) \<and>
    pm_pending pm' = unfinished w' (zip (pm_pending pm) (batch_ids b)) @ drop (length (batch_ids b)) (pm_pending pm) \<and>
    (cm_lazy (w_cm w) = None \<longrightarrow> chunks_first (pm_pending pm) \<longrightarrow> z \<le> dm_inflight_tokens (w_reqs w) dm \<longrightarrow>
       z + wait_need (cm_page_size (w_cm w)) (w_reqs w) (pm_pending pm) \<le> pool_room w live \<longrightarrow>
       z + sum_list (map (\<lambda>(p, i). chunk_cost (cm_page_size (w_cm w)) (w_reqs w') p i) (zip (pm_pending pm) (batch_ids b))) +
         wait_need (cm_page_size (w_cm w)) (w_reqs w') (drop (length (batch_ids b)) (pm_pending pm)) \<le> pool_room w' live')"
proof (cases "pm_pending pm = []")
  case True
  then show ?thesis using assms
    by (intro exI[of _ pm] exI[of _ w] exI[of _ None] exI[of _ live]) (simp add: pm_schedule_next_batch_def batch_ids_def same_pools_def unfinished_def)
next
  case False
  let ?ad = "new_adder budget (dm_inflight_tokens (w_reqs w) dm) (pm_keep_images pm)"
  have "waiting_ok W w live (ps_chunked empty_pass @ pm_pending pm)" using wt by (simp add: empty_pass_def)
  from admit_loop_ok[OF live this, of clk 0 ?ad z] obtain ad' w' pass' live' new where
    l: "admit_loop clk 0 (pm_pending pm) ?ad w empty_pass = Some (ad', w', pass')" "live_ok W w' live'"
    "ps_reqs pass' = ps_reqs empty_pass @ new" "length new \<le> length (pm_pending pm)"
    "waiting_ok W w' live' (ps_chunked pass' @ drop (length new) (pm_pending pm))"
    "set live' = (set live - set (chunk_ids (take (length new) (pm_pending pm)))) \<union> set new" "\<forall>i\<in>set new. w_next w \<le> i"
    "distinct new" "same_pools w w'"
    and room: "cm_lazy (w_cm w) = None \<longrightarrow> chunks_first (pm_pending pm) \<longrightarrow> z \<le> ad_reserved ?ad \<longrightarrow>
         z + wait_need (cm_page_size (w_cm w)) (w_reqs w) (pm_pending pm) \<le> pool_room w live \<longrightarrow>
         z + sum_list (map (\<lambda>(p, i). chunk_cost (cm_page_size (w_cm w)) (w_reqs w') p i) (zip (pm_pending pm) new)) +
           wait_need (cm_page_size (w_cm w)) (w_reqs w') (drop (length new) (pm_pending pm)) \<le> pool_room w' live'"
    by (elim exE conjE) (rule that, assumption+)
  have n: "ps_reqs pass' = new" using l(3) by (simp add: empty_pass_def)
  have lt: "\<forall>i. w_reqs w i \<noteq> None \<longrightarrow> i < w_next w" using live by (simp add: live_ok_def)
  have b: "\<forall>i. w_reqs w i \<noteq> None \<longrightarrow> w_reqs w' i = w_reqs w i" "list_all2 taken (take (length new) (pm_pending pm)) (objs w' new)"
    "ps_chunked pass' = unfinished w' (zip (pm_pending pm) new)"
    using admit_loop_batch[OF l(1) lt] n by (auto simp: empty_pass_def)
  note rm = room[unfolded new_adder_def prefill_adder.simps]
  show ?thesis
  proof (cases "new = []")
    case True
    have u: "unfinished w' [] = []" by (simp add: unfinished_def)
    have "waiting_ok W w' live' (pm_pending pm)" using l(5) True b(3) u by simp
    moreover have "pm_schedule_next_batch clk budget dm pm w = Some (pm, w', None)" using False l(1) n True by (simp add: pm_schedule_next_batch_def)
    ultimately show ?thesis using l b rm True u
      by (intro exI[of _ pm] exI[of _ w'] exI[of _ None] exI[of _ live']) (simp add: batch_ids_def)
  next
    case ne: False
    let ?pm = "pm\<lparr>pm_pending := ps_chunked pass' @ drop (length (ps_reqs pass')) (pm_pending pm)\<rparr>"
    let ?b = "\<lparr>b_reqs = ps_reqs pass', b_prefill = True, b_new_tokens = ps_new pass', b_cached_tokens = ps_cached pass',
             b_admissions = ps_admissions pass'\<rparr>"
    have "pm_schedule_next_batch clk budget dm pm w = Some (?pm, w', Some ?b)" using False l(1) n ne by (simp add: pm_schedule_next_batch_def)
    then show ?thesis using l b rm n ne
      by (intro exI[of _ ?pm] exI[of _ w'] exI[of _ "Some ?b"] exI[of _ live']) (simp add: batch_ids_def)
  qed
qed

lemma abort_waiting:
  assumes "waiting_ok W w live (pm_pending pm)" "pm_abort_req uid pm = (pm', c)"
  shows "waiting_ok W w live (pm_pending pm') \<and> (\<forall>i. c = Some i \<longrightarrow> i \<in> set live \<and> i \<notin> set (chunk_ids (pm_pending pm')))"
proof -
  have gen: "(\<forall>p\<in>set qs. pend_ok W w live p) \<and> distinct (chunk_ids qs) \<and> set (chunk_ids qs) \<subseteq> set (chunk_ids ps) \<and>
      (\<forall>i. c = Some i \<longrightarrow> i \<in> set (chunk_ids ps) \<and> i \<notin> set (chunk_ids qs))"
    if "\<forall>p\<in>set ps. pend_ok W w live p" "distinct (chunk_ids ps)" "abort_pending uid ps = (qs, c)" for ps qs
    using that
  proof (induction ps arbitrary: qs)
    case (Cons p ps)
    show ?case
    proof (cases "pr_uid p = uid")
      case False
      then obtain rs where "abort_pending uid ps = (rs, c)" "qs = p # rs" using Cons.prems(3) by (auto simp: Let_def split: prod.splits)
      with Cons.IH[of rs] Cons.prems(1,2) show ?thesis by (auto split: option.splits)
    qed (use Cons.prems in \<open>auto split: option.splits\<close>)
  qed auto
  obtain qs where q: "abort_pending uid (pm_pending pm) = (qs, c)" "pm_pending pm' = qs"
    using assms(2) by (auto simp: pm_abort_req_def Let_def split: prod.splits)
  have "i \<in> set live" if "i \<in> set (chunk_ids (pm_pending pm))" for i
    using that assms(1) chunk_ids_iff by (fastforce simp: waiting_ok_def pend_ok_def)
  with gen[OF _ _ q(1)] assms(1) q(2) show ?thesis by (auto simp: waiting_ok_def)
qed

section \<open>Properties\<close>

text \<open>C14: A prefill pass never raises: from balanced books and a consistent waiting list it returns, and leaves balanced
  books and a consistent waiting list, in which each continued chunk is replaced by the new one and every other
  live request is untouched.\<close>

theorem prefill_pass_safe:
  assumes "live_ok W w live" "waiting_ok W w live (pm_pending pm)"
  shows "\<exists>pm' w' b live'. pm_schedule_next_batch clk budget dm pm w = Some (pm', w', b) \<and> live_ok W w' live' \<and>
    waiting_ok W w' live' (pm_pending pm') \<and>
    set live' = (case b of None \<Rightarrow> set live
      | Some b \<Rightarrow> (set live - set (chunk_ids (take (length (b_reqs b)) (pm_pending pm)))) \<union> set (b_reqs b))"
proof -
  from pass_ok[OF assms, of clk budget dm 0] obtain pm' w' b live' where r: "pm_schedule_next_batch clk budget dm pm w = Some (pm', w', b)"
    "live_ok W w' live'" "waiting_ok W w' live' (pm_pending pm')"
    "set live' = (set live - set (chunk_ids (take (length (batch_ids b)) (pm_pending pm)))) \<union> set (batch_ids b)" by (elim exE conjE) (rule that, assumption+)
  then show ?thesis by (intro exI[of _ pm'] exI[of _ w'] exI[of _ b] exI[of _ live']) (simp add: batch_ids_def split: option.splits)
qed

definition ex_pend :: "int \<Rightarrow> int list \<Rightarrow> pending_req" where
  "ex_pend uid ids = \<lparr>pr_uid = uid, pr_input_ids = ids, pr_sampling = ex_params, pr_chunked = None, pr_mm_items = [],
     pr_mrope_full = None, pr_mrope_delta = 0\<rparr>"

definition ex_pm :: prefill_manager where
  "ex_pm = \<lparr>pm_keep_images = False, pm_pending = [ex_pend 11 [1, 2, 3], ex_pend 12 [4, 5, 6, 7, 8]]\<rparr>"

definition ex_wide_cm :: cache_manager where
  "ex_wide_cm = the (cm_init 16 2 [replicate 8 0, replicate 8 0] TRadix None None None None 7 0)"

definition ex_world :: world where
  "ex_world = \<lparr>w_cm = ex_wide_cm, w_tm = tm_init 2 [replicate 8 0, replicate 8 0], w_ec = None, w_reqs = (\<lambda>_. None), w_next = 0\<rparr>"

lemma ex_world_live: "live_ok 8 ex_world []"
proof -
  have "cm_page_table ex_wide_cm = [replicate 8 0, replicate 8 0]" by code_simp
  then have "shaped 8 ex_wide_cm (tm_init 2 [replicate 8 0, replicate 8 0])"
    by (auto simp: shaped_def tm_init_def less_Suc_eq nth_Cons split: nat.splits)
  moreover have "cm_inv ex_wide_cm []"
    using cm_init_inv[of 2 TRadix 16 "[replicate 8 0, replicate 8 0]" None None None 7 0] by (auto simp: ex_wide_cm_def)
  ultimately show ?thesis by (simp add: live_ok_def ex_world_def rows_ok_def tm_init_def)
qed

lemma ex_pm_waiting: "waiting_ok 8 ex_world [] (pm_pending ex_pm)"
  by (simp add: waiting_ok_def pend_ok_def ex_pm_def ex_pend_def pr_input_len_def)

definition ex_dm :: decode_manager where
  "ex_dm = \<lparr>dm_page_size = 2, dm_running = []\<rparr>"

theorem prefill_pass_safe_witness:
  "\<exists>pm' w' b live'. pm_schedule_next_batch int 4 ex_dm ex_pm ex_world = Some (pm', w', Some b) \<and> live_ok 8 w' live' \<and> b_reqs b = [0, 1]"
proof -
  obtain pm' w' bo live' where b: "pm_schedule_next_batch int 4 ex_dm ex_pm ex_world = Some (pm', w', bo)" "live_ok 8 w' live'"
    using prefill_pass_safe[OF ex_world_live ex_pm_waiting, of int 4 ex_dm] by blast
  have "map_option (\<lambda>(_, _, b). map_option b_reqs b) (pm_schedule_next_batch int 4 ex_dm ex_pm ex_world) = Some (Some [0, 1])"
    by code_simp
  then obtain b' where "bo = Some b'" "b_reqs b' = [0, 1]" unfolding b(1) by auto
  with b show ?thesis by blast
qed

text \<open>C15: A prefill batch, under every kind of cache, is the head of the waiting list in order: at most the budget's
  tokens, a non-empty chunk of each prompt that continues where its last one ended, chunked exactly when the prompt
  is not finished; the rest waits on, unfinished prompts first.\<close>

theorem prefill_batch_fifo:
  assumes "pm_schedule_next_batch clk budget dm pm w = Some (pm', w', Some b)" "\<forall>i. w_reqs w i \<noteq> None \<longrightarrow> i < w_next w"
  shows "b_reqs b \<noteq> [] \<and> list_all2 taken (take (length (b_reqs b)) (pm_pending pm)) (objs w' (b_reqs b)) \<and>
    b_new_tokens b = sum_list (map extend_len (objs w' (b_reqs b))) \<and> int (b_new_tokens b) \<le> budget \<and>
    map pr_uid (pm_pending pm') = map rq_uid (filter rq_chunked (objs w' (b_reqs b))) @ map pr_uid (drop (length (b_reqs b)) (pm_pending pm))"
proof -
  let ?ad = "new_adder budget (dm_inflight_tokens (w_reqs w) dm) (pm_keep_images pm)"
  from assms(1) obtain ad' pass' where l: "admit_loop clk 0 (pm_pending pm) ?ad w empty_pass = Some (ad', w', pass')"
    and b: "ps_reqs pass' \<noteq> []" "b_reqs b = ps_reqs pass'" "b_new_tokens b = ps_new pass'"
      "pm_pending pm' = ps_chunked pass' @ drop (length (ps_reqs pass')) (pm_pending pm)"
    by (auto simp: pm_schedule_next_batch_def bind_eq_Some_conv split: if_splits)
  show ?thesis using admit_loop_batch[OF l assms(2)] b by (auto simp: empty_pass_def new_adder_def)
qed

theorem prefill_batch_fifo_witness:
  "\<exists>pm' w' b. pm_schedule_next_batch int 4 ex_dm ex_pm ex_world = Some (pm', w', Some b) \<and> b_new_tokens b = 4 \<and>
    list_all2 taken (take (length (b_reqs b)) (pm_pending ex_pm)) (objs w' (b_reqs b))"
proof -
  have e: "map_option (\<lambda>(pm, _, b). (map pr_uid (pm_pending pm), map_option b_new_tokens b)) (pm_schedule_next_batch int 4 ex_dm ex_pm ex_world)
      = Some ([12], Some 4)" by code_simp
  then obtain pm' w' b where b: "pm_schedule_next_batch int 4 ex_dm ex_pm ex_world = Some (pm', w', Some b)"
    "b_new_tokens b = 4" "map pr_uid (pm_pending pm') = [12]" by auto
  have "\<forall>i. w_reqs ex_world i \<noteq> None \<longrightarrow> i < w_next ex_world" by (simp add: ex_world_def)
  from prefill_batch_fifo[OF b(1) this] b show ?thesis by (intro exI[of _ pm'] exI[of _ w'] exI[of _ b]) simp
qed

text \<open>C16: Admission never overcommits: when a waiting request is admitted, the pages reserved for it, for the requests
  admitted before it in the pass and for the running ones fit what the pool can still give.\<close>

theorem admission_never_overcommits:
  assumes "live_ok W w live" "pend_ok W w live p" "pr_chunked p = None" "try_add_one p tic ad w = Some (ad', w', Some r)"
  shows "ad_reserved ad' = ad_reserved ad + request_cost (cm_page_size (w_cm w)) p (hl r) \<and> ad_reserved ad' \<le> available_size (w_cm w')"
proof -
  have "0 < ad_token_budget ad" using assms(4) by (auto simp: try_add_one_def split: if_splits)
  from fresh_ok[OF assms(1-3) this, of tic] assms(4) show ?thesis by auto
qed

theorem admission_never_overcommits_witness:
  "\<exists>ad' w' r. try_add_one (ex_pend 11 [1, 2, 3]) 5 (new_adder 4 0 False) ex_world = Some (ad', w', Some r) \<and>
    ad_reserved ad' \<le> available_size (w_cm w')"
proof -
  have "map_option (\<lambda>(_, _, r). r \<noteq> None) (try_add_one (ex_pend 11 [1, 2, 3]) 5 (new_adder 4 0 False) ex_world) = Some True" by code_simp
  then obtain ad' w' r where t: "try_add_one (ex_pend 11 [1, 2, 3]) 5 (new_adder 4 0 False) ex_world = Some (ad', w', Some r)" by auto
  have "pend_ok 8 ex_world [] (ex_pend 11 [1, 2, 3])" by (simp add: pend_ok_def ex_pend_def pr_input_len_def)
  from admission_never_overcommits[OF ex_world_live this _ t] t show ?thesis by (simp add: ex_pend_def)
qed

end
