(* ===== verification/SchedulerCore.thy ===== *)
theory SchedulerCore
  imports PrefillBooks
begin

text \<open>
  \<^verbatim>\<open>scheduler/scheduler.py\<close> (\<open>Scheduler\<close>): messages in, batches out, results drained one batch
  later (\<open>overlap_loop\<close>) or at once (\<open>normal_loop\<close>), aborts, replies and the runtime cache
  rebuild.  The engine, the sampler and the tokenizer are parameters (record \<open>env\<close>, and the
  sampled tokens of a forward); \<open>None\<close> is an uncaught exception.
\<close>

section \<open>Messages\<close>

record user_msg =
  um_uid :: int
  um_input_ids :: "int list"
  um_sampling :: sampling_params
  um_mm_items :: "mm_item list"
  um_mrope :: "int list list option"
  um_mrope_delta :: int

record geometry =
  ge_moe :: "nat option"
  ge_pages :: "nat option"
  ge_mamba :: "nat option"
  ge_swa :: "nat option"

record rebuild_msg =
  rm_request_id :: string
  rm_geo :: geometry
  rm_mode :: string

datatype backend_msg =
    BatchMsg "backend_msg list"
  | ExitMsg
  | User user_msg
  | Abort int
  | CacheRebuild rebuild_msg

text \<open>\<open>DetokenizeMsg\<close>; the error texts are constructors instead of formatted strings.\<close>

record detok_msg =
  dt_uid :: int
  dt_next_token :: int
  dt_finished :: bool
  dt_reason :: "string option"
  dt_matched_stop :: "ustr option"
  dt_stop_strs :: "ustr list option"
  dt_kv :: "int \<times> nat"
  dt_mamba :: "int \<times> int"
  dt_swa :: "int \<times> int"
  dt_gpu_mem :: nat

datatype rebuild_error =
    NoRuntimeRebuild
  | ModeUnsupported string
  | NoTensorParallel
  | Raised string
  | RollbackFailed string string
  | RolledBack string

datatype error_text = ImagesUnsupported | PromptTooLong nat nat | RequestAborted

datatype out_msg =
    Detok detok_msg
  | ErrorReply int error_text "string option"
  | PromptAdmitted int nat nat
  | RebuildResult string string geometry "rebuild_error option"

section \<open>State\<close>

text \<open>What the scheduler is given: configuration, the engine and the tokenizer.\<close>

record env =
  en_eos :: "int list"
  en_anchor :: "int option"
  en_max_seq_len :: nat
  en_max_extend :: nat
  en_tp_size :: nat
  en_mrope :: bool
  en_bidirectional :: bool
  en_interval :: nat
  en_supports_rebuild :: bool
  en_dummy :: req
  en_padding :: "nat \<Rightarrow> nat"
  en_decode :: "int list \<Rightarrow> ustr"
  en_encode :: "mm_item \<Rightarrow> embedding"
  en_gpu_mem :: nat
  en_clk :: "nat \<Rightarrow> int"

record forward_input =
  fi_batch :: batch
  fi_positions :: "int list"
  fi_mrope :: "int list list option"
  fi_input_map :: "int list \<times> int list"
  fi_write_map :: "int list \<times> int list"
  fi_out_loc :: "int list"
  fi_linear_idx :: "int list option"
  fi_active_rows :: "int list option"
  fi_jobs :: "mm_item list"
  fi_plan :: "plan_row list"
  fi_mm_rows :: "int list"
  fi_block_ends :: "int list"

type_synonym forward_data = "forward_input \<times> int list"

record sched =
  sd_w :: world
  sd_dm :: decode_manager
  sd_pm :: prefill_manager
  sd_finished :: "nat set"
  sd_acks :: "int set"
  sd_tombstones :: "int list"
  sd_iter :: nat
  sd_last :: "forward_data option"
  sd_rebuild :: "rebuild_msg option"
  sd_budget :: nat
  sd_warned_cut :: bool
  sd_geo :: geometry
  sd_reads :: nat
  sd_out :: "out_msg list"

definition send_result :: "out_msg list \<Rightarrow> sched \<Rightarrow> sched" where
  "send_result msgs s = s\<lparr>sd_out := sd_out s @ msgs\<rparr>"

text \<open>The next clock readings; an operation reads at most sixteen.\<close>

definition readings :: "env \<Rightarrow> sched \<Rightarrow> nat \<Rightarrow> int" where
  "readings env s k = en_clk env (sd_reads s + k)"

definition tick :: "nat \<Rightarrow> sched \<Rightarrow> sched" where
  "tick n s = s\<lparr>sd_reads := sd_reads s + n\<rparr>"

abbreviation req_at :: "sched \<Rightarrow> nat \<Rightarrow> req option" where
  "req_at s i \<equiv> w_reqs (sd_w s) i"

definition put_req :: "nat \<Rightarrow> req \<Rightarrow> world \<Rightarrow> world" where
  "put_req i r w = w\<lparr>w_reqs := (w_reqs w)(i \<mapsto> r)\<rparr>"

fun put_reqs :: "nat list \<Rightarrow> req list \<Rightarrow> world \<Rightarrow> world" where
  "put_reqs (i # is) (r # rs) w = put_reqs is rs (put_req i r w)"
| "put_reqs _ _ w = w"

definition get_reqs :: "nat list \<Rightarrow> world \<Rightarrow> req list option" where
  "get_reqs is w = option_list (map (w_reqs w) is)"

text \<open>\<open>__init__\<close>, after the managers: the chunk budget of the prefill is capped by the window pool.\<close>

definition prefill_budget :: "env \<Rightarrow> cache_manager \<Rightarrow> nat" where
  "prefill_budget env cm =
     (case cm_chunk_budget cm of
        None \<Rightarrow> en_max_extend env
      | Some cap \<Rightarrow> (if cap = 0 then en_max_extend env else min (en_max_extend env) cap))"

definition sched_init :: "env \<Rightarrow> nat \<Rightarrow> cache_manager \<Rightarrow> encoder_cache option \<Rightarrow> geometry \<Rightarrow> sched" where
  "sched_init env max_running cm ec geo =
     \<lparr>sd_w = \<lparr>w_cm = cm, w_tm = tm_init max_running (cm_page_table cm), w_ec = ec, w_reqs = (\<lambda>_. None), w_next = 0\<rparr>,
      sd_dm = \<lparr>dm_page_size = cm_page_size cm, dm_running = []\<rparr>,
      sd_pm = \<lparr>pm_keep_images = en_bidirectional env, pm_pending = []\<rparr>,
      sd_finished = {}, sd_acks = {}, sd_tombstones = [], sd_iter = 0, sd_last = None, sd_rebuild = None,
      sd_budget = prefill_budget env cm, sd_warned_cut = False, sd_geo = geo, sd_reads = 0, sd_out = []\<rparr>"

section \<open>Occupancy figures\<close>

definition mamba_slot_usage :: "cache_manager \<Rightarrow> (int \<times> int) option option" where
  "mamba_slot_usage cm =
     (if \<not> is_hybrid cm then Some None
      else do {
        pool \<leftarrow> cm_linear_pool cm;
        avail \<leftarrow> mamba_available_size cm;
        let n = int (lp_num_slots pool) - 1;
        Some (Some (n - avail, n)) })"

definition swa_token_usage :: "cache_manager \<Rightarrow> (int \<times> int) option option" where
  "swa_token_usage cm =
     (case cm_swa_pool cm of
        None \<Rightarrow> Some None
      | Some pool \<Rightarrow> do {
          avail \<leftarrow> swa_available_size cm;
          let n = int (sp_swa_tokens pool) - 1;
          Some (Some (n - avail, n)) })"

section \<open>Freeing a request\<close>

definition free_req_resources :: "env \<Rightarrow> nat \<Rightarrow> sched \<Rightarrow> sched option" where
  "free_req_resources env i s = do {
     r \<leftarrow> req_at s i;
     if rq_table_idx r = -1 then Some s
     else do {
       let w = sd_w s;
       (cm, r') \<leftarrow> cache_req r True (readings env s) (w_cm w);
       let w = w\<lparr>w_cm := cm, w_tm := tm_free (nat (rq_table_idx r)) (w_tm w)\<rparr>;
       Some (tick 16 (s\<lparr>sd_w := put_req i (r'\<lparr>rq_table_idx := -1\<rparr>) w\<rparr>)) } }"

section \<open>Draining a batch\<close>

text \<open>\<open>_match_stop_str\<close>: only a short tail of the generated tokens is decoded.\<close>

definition match_stop_str :: "env \<Rightarrow> req \<Rightarrow> ustr option" where
  "match_stop_str env r =
     (let stops = smp_stop_strs (rq_sampling r);
          prompt_len = rq_max_device_len r - rq_output_len r;
          n = length (rq_input_ids r)
      in if n \<le> prompt_len then None
         else (let max_chars = Max (set (map length stops));
                   tail_start = max prompt_len (n - (max_chars + 1));
                   tail = en_decode env (drop tail_start (rq_input_ids r))
               in find (\<lambda>s. str_in s tail) stops))"

text \<open>Does this token end the request: \<open>(finished, reason, matched stop)\<close>.\<close>

definition finish_state :: "env \<Rightarrow> req \<Rightarrow> int \<Rightarrow> bool \<times> string option \<times> ustr option" where
  "finish_state env r token =
     (let hit_length = \<not> can_decode r;
          hit_eos = \<not> smp_ignore_eos (rq_sampling r) \<and> token \<in> set (en_eos env);
          matched = (if \<not> hit_eos \<and> smp_stop_strs (rq_sampling r) \<noteq> [] then match_stop_str env r else None);
          fin = hit_length \<or> hit_eos \<or> matched \<noteq> None
      in (fin, if fin then Some (if hit_eos \<or> matched \<noteq> None then ''stop'' else ''length'') else None, matched))"

definition reply_of :: "req \<Rightarrow> int \<Rightarrow> bool \<times> string option \<times> ustr option \<Rightarrow> detok_msg" where
  "reply_of r token fs = (case fs of (fin, reason, matched) \<Rightarrow>
     \<lparr>dt_uid = rq_uid r, dt_next_token = token, dt_finished = fin, dt_reason = reason, dt_matched_stop = matched,
      dt_stop_strs = (if smp_stop_strs (rq_sampling r) = [] then None else Some (smp_stop_strs (rq_sampling r))),
      dt_kv = (0, 0), dt_mamba = (0, 0), dt_swa = (0, 0), dt_gpu_mem = 0\<rparr>)"

text \<open>The state of the drain loop: the scheduler, the replies and the newly finished requests.\<close>

type_synonym drain = "sched \<times> detok_msg list \<times> nat set"

definition sd_remove_running :: "nat \<Rightarrow> sched \<Rightarrow> sched" where
  "sd_remove_running i s = s\<lparr>sd_dm := dm_remove_req i (sd_dm s)\<rparr>"

text \<open>A finished request leaves; an unfinished prefill commits its prefix.\<close>

definition settle :: "env \<Rightarrow> bool \<Rightarrow> nat \<Rightarrow> req \<Rightarrow> bool \<Rightarrow> drain \<Rightarrow> drain option" where
  "settle env is_prefill i r fin d = (case d of (s, reply, new_fin) \<Rightarrow>
     if fin \<and> i \<notin> sd_finished s then
       Option.bind (free_req_resources env i (sd_remove_running i s)) (\<lambda>s. Some (s, reply, insert i new_fin))
     else if is_prefill \<and> rq_table_idx r \<noteq> -1 then do {
       (cm, r) \<leftarrow> cache_req r False (readings env s) (w_cm (sd_w s));
       Some (tick 16 (s\<lparr>sd_w := put_req i r ((sd_w s)\<lparr>w_cm := cm\<rparr>)\<rparr>), reply, new_fin) }
     else Some (s, reply, new_fin))"

definition drain_token :: "env \<Rightarrow> bool \<Rightarrow> nat \<Rightarrow> req \<Rightarrow> int \<Rightarrow> drain \<Rightarrow> drain option" where
  "drain_token env is_prefill i r token d = (case d of (s, reply, new_fin) \<Rightarrow> do {
     r \<leftarrow> append_host token r;
     let fs = finish_state env r token;
     let r = (if Some token = en_anchor env \<and> rq_anchor r = None \<and> \<not> fst fs
              then r\<lparr>rq_anchor := Some (length (rq_input_ids r))\<rparr> else r);
     settle env is_prefill i r (fst fs)
       (s\<lparr>sd_w := put_req i r (sd_w s)\<rparr>, reply @ [reply_of r token fs], new_fin) })"

definition drain_one :: "env \<Rightarrow> bool \<Rightarrow> nat \<Rightarrow> int \<Rightarrow> drain \<Rightarrow> drain option" where
  "drain_one env is_prefill i token d = (case d of (s, reply, new_fin) \<Rightarrow> do {
     r \<leftarrow> req_at s i;
     if rq_chunked r then
       (if rq_aborted r then map_option (\<lambda>s. (s, reply, new_fin)) (free_req_resources env i s) else Some d)
     else if rq_aborted r then
       map_option (\<lambda>s. (s, reply, insert i new_fin)) (free_req_resources env i (sd_remove_running i s))
     else if i \<in> sd_finished s then Some d
     else drain_token env is_prefill i r token d })"

fun drain_all :: "env \<Rightarrow> bool \<Rightarrow> (nat \<times> int) list \<Rightarrow> drain \<Rightarrow> drain option" where
  "drain_all env is_prefill [] d = Some d"
| "drain_all env is_prefill ((i, token) # rest) d =
     Option.bind (drain_one env is_prefill i token d) (drain_all env is_prefill rest)"

definition stamp :: "int \<times> nat \<Rightarrow> (int \<times> int) option \<Rightarrow> (int \<times> int) option \<Rightarrow> nat \<Rightarrow> detok_msg \<Rightarrow> detok_msg" where
  "stamp kv mamba swa mem m =
     m\<lparr>dt_kv := kv, dt_mamba := (case mamba of None \<Rightarrow> (0, 0) | Some p \<Rightarrow> p), dt_swa := (case swa of None \<Rightarrow> (0, 0) | Some p \<Rightarrow> p),
       dt_gpu_mem := mem\<rparr>"

definition sd_map_cm :: "(cache_manager \<Rightarrow> cache_manager) \<Rightarrow> sched \<Rightarrow> sched" where
  "sd_map_cm f s = s\<lparr>sd_w := (sd_w s)\<lparr>w_cm := f (w_cm (sd_w s))\<rparr>\<rparr>"

definition process_last_data :: "env \<Rightarrow> forward_data option \<Rightarrow> sched \<Rightarrow> sched option" where
  "process_last_data env last_data s =
     (case last_data of
        None \<Rightarrow> Some s
      | Some (fi, tokens) \<Rightarrow> do {
          let b = fi_batch fi;
          (s, reply, new_fin) \<leftarrow> drain_all env (b_prefill b) (zip (b_reqs b) tokens) (sd_map_cm lazy_enter s, [], {});
          let s = (sd_map_cm lazy_exit s)\<lparr>sd_finished := new_fin\<rparr>;
          mamba \<leftarrow> mamba_slot_usage (w_cm (sd_w s));
          swa \<leftarrow> swa_token_usage (w_cm (sd_w s));
          Some (send_result (map (\<lambda>m. Detok (stamp (page_usage (w_cm (sd_w s))) mamba swa (en_gpu_mem env) m)) reply) s) })"

section \<open>Control messages\<close>

definition reply_rebuild :: "string \<Rightarrow> string \<Rightarrow> rebuild_error option \<Rightarrow> sched \<Rightarrow> sched" where
  "reply_rebuild rid status err s = send_result [RebuildResult rid status (sd_geo s) err] s"

definition tombstone_bound :: nat where
  "tombstone_bound = 65536"

text \<open>\<open>tombstones[uid] = None\<close> keeps an existing key's place; the oldest ones go beyond the bound.\<close>

definition add_tombstone :: "int \<Rightarrow> int list \<Rightarrow> int list" where
  "add_tombstone uid ts =
     (let ts = (if uid \<in> set ts then ts else ts @ [uid]) in drop (length ts - tombstone_bound) ts)"

definition process_user :: "env \<Rightarrow> user_msg \<Rightarrow> sched \<Rightarrow> sched" where
  "process_user env m s =
     (if um_uid m \<in> set (sd_tombstones s) then s\<lparr>sd_tombstones := remove1 (um_uid m) (sd_tombstones s)\<rparr>
      else if um_mm_items m \<noteq> [] \<and> w_ec (sd_w s) = None then
        send_result [ErrorReply (um_uid m) ImagesUnsupported None] s
      else (let input_len = length (um_input_ids m); max_seq_len = en_max_seq_len env
            in if max_seq_len \<le> input_len then
                 send_result [ErrorReply (um_uid m) (PromptTooLong input_len max_seq_len) (Some ''context_length_exceeded'')] s
               else (let smp = (um_sampling m)\<lparr>smp_max_tokens := min (smp_max_tokens (um_sampling m)) (max_seq_len - input_len)\<rparr>
                     in s\<lparr>sd_pm := pm_add_one_req
                          \<lparr>pr_uid = um_uid m, pr_input_ids = um_input_ids m, pr_sampling = smp, pr_chunked = None,
                           pr_mm_items = um_mm_items m, pr_mrope_full = um_mrope m, pr_mrope_delta = um_mrope_delta m\<rparr>
                          (sd_pm s)\<rparr>)))"

definition in_flight :: "sched \<Rightarrow> nat \<Rightarrow> bool" where
  "in_flight s i = (case sd_last s of None \<Rightarrow> False | Some (fi, _) \<Rightarrow> i \<in> set (b_reqs (fi_batch fi)))"

definition release_items :: "int \<Rightarrow> mm_item list \<Rightarrow> world \<Rightarrow> world" where
  "release_items uid items w =
     (if items \<noteq> [] then w\<lparr>w_ec := map_option (ec_release uid (map mm_hash items)) (w_ec w)\<rparr> else w)"

text \<open>The request leaves its manager; it is freed now, or marked when a forward still writes its pages.\<close>

definition drop_aborted :: "env \<Rightarrow> int \<Rightarrow> nat \<Rightarrow> sched \<Rightarrow> sched option" where
  "drop_aborted env uid i s = do {
     r \<leftarrow> req_at s i;
     let s = s\<lparr>sd_w := release_items uid (rq_mm_items r) (sd_w s)\<rparr>;
     if in_flight s i then Some (s\<lparr>sd_w := put_req i (r\<lparr>rq_aborted := True\<rparr>) (sd_w s)\<rparr>)
     else free_req_resources env i s }"

definition process_abort :: "env \<Rightarrow> int \<Rightarrow> sched \<Rightarrow> sched option" where
  "process_abort env uid s = do {
     let s = s\<lparr>sd_tombstones := add_tombstone uid (sd_tombstones s)\<rparr>;
     let (pm, c) = pm_abort_req uid (sd_pm s);
     let s = s\<lparr>sd_pm := pm\<rparr>;
     let (dm, c) = (case c of Some i \<Rightarrow> (sd_dm s, Some i) | None \<Rightarrow> dm_abort_req (w_reqs (sd_w s)) uid (sd_dm s));
     let s = s\<lparr>sd_dm := dm\<rparr>;
     s \<leftarrow> (case c of None \<Rightarrow> Some s | Some i \<Rightarrow> drop_aborted env uid i s);
     Some (s\<lparr>sd_acks := insert uid (sd_acks s)\<rparr>) }"

definition sd_runnable :: "sched \<Rightarrow> bool" where
  "sd_runnable s \<longleftrightarrow> pm_runnable (sd_pm s) \<or> dm_runnable (sd_dm s)"

definition process_rebuild :: "env \<Rightarrow> rebuild_msg \<Rightarrow> sched \<Rightarrow> sched" where
  "process_rebuild env m s =
     (if \<not> en_supports_rebuild env then
        reply_rebuild (rm_request_id m) ''unsupported'' (Some NoRuntimeRebuild) s
      else if rm_mode m \<noteq> ''if_idle'' then
        reply_rebuild (rm_request_id m) ''unsupported'' (Some (ModeUnsupported (rm_mode m))) s
      else if en_tp_size env > 1 then
        reply_rebuild (rm_request_id m) ''unsupported'' (Some NoTensorParallel) s
      else if sd_runnable s then reply_rebuild (rm_request_id m) ''busy'' None s
      else s\<lparr>sd_rebuild := Some m\<rparr>)"

fun process_one_msg :: "env \<Rightarrow> backend_msg \<Rightarrow> sched \<Rightarrow> sched option"
  and process_msgs :: "env \<Rightarrow> backend_msg list \<Rightarrow> sched \<Rightarrow> sched option" where
  "process_one_msg env (BatchMsg ms) s = process_msgs env ms s"
| "process_one_msg env ExitMsg s = None"
| "process_one_msg env (User m) s = Some (process_user env m s)"
| "process_one_msg env (Abort uid) s = process_abort env uid s"
| "process_one_msg env (CacheRebuild m) s = Some (process_rebuild env m s)"
| "process_msgs env [] s = Some s"
| "process_msgs env (m # ms) s = Option.bind (process_one_msg env m s) (process_msgs env ms)"

definition flush_abort_acks :: "sched \<Rightarrow> sched" where
  "flush_abort_acks s =
     (if sd_acks s = {} then s
      else send_result (map (\<lambda>uid. ErrorReply uid RequestAborted None) (sorted_list_of_set (sd_acks s))) (s\<lparr>sd_acks := {}\<rparr>))"

section \<open>The inputs of a forward\<close>

definition make_positions :: "req list \<Rightarrow> int list" where
  "make_positions rs = concat (map (\<lambda>r. map int [rq_cached_len r..<rq_device_len r]) rs)"

text \<open>One rope row of one request: its precomputed columns while they last, else the shifted index.\<close>

definition mrope_row :: "nat \<Rightarrow> req \<Rightarrow> int list" where
  "mrope_row k r =
     (case rq_mrope_full r of
        Some full \<Rightarrow>
          (if rq_device_len r \<le> length (full ! k) then slice (rq_cached_len r) (rq_device_len r) (full ! k)
           else map (\<lambda>i. int i + rq_mrope_delta r) [rq_cached_len r..<rq_device_len r])
      | None \<Rightarrow> map (\<lambda>i. int i + rq_mrope_delta r) [rq_cached_len r..<rq_device_len r])"

definition make_mrope_positions :: "req list \<Rightarrow> int list list" where
  "make_mrope_positions rs = map (\<lambda>k. concat (map (mrope_row k) rs)) [0, 1, 2]"

definition make_input_tuple :: "req list \<Rightarrow> int list \<times> int list" where
  "make_input_tuple rs = (concat (map (\<lambda>r. replicate (extend_len r) (rq_table_idx r)) rs), make_positions rs)"

definition make_write_tuple :: "req list \<Rightarrow> int list \<times> int list" where
  "make_write_tuple rs = (map rq_table_idx rs, map (\<lambda>r. if can_decode r then int (rq_device_len r) else -1) rs)"

text \<open>Two-dimensional tensor indexing \<open>t[rows, cols]\<close>, read and written; a negative index counts from the end.\<close>

definition cell_at :: "int list list \<Rightarrow> int \<times> int \<Rightarrow> int option" where
  "cell_at t rc = do {
     i \<leftarrow> tensor_index (length t) (fst rc);
     j \<leftarrow> tensor_index (length (t ! i)) (snd rc);
     Some (t ! i ! j) }"

definition gather2 :: "int list list \<Rightarrow> int list \<times> int list \<Rightarrow> int list option" where
  "gather2 t idx = option_list (map (cell_at t) (zip (fst idx) (snd idx)))"

fun scatter2 :: "(int \<times> int) list \<Rightarrow> int list \<Rightarrow> int list list \<Rightarrow> int list list option" where
  "scatter2 ((r, c) # cells) (v # vs) t = do {
     i \<leftarrow> tensor_index (length t) r;
     j \<leftarrow> tensor_index (length (t ! i)) c;
     scatter2 cells vs (t[i := (t ! i)[j := v]]) }"
| "scatter2 _ _ t = Some t"

section \<open>Preparing a batch\<close>

definition padded_reqs :: "env \<Rightarrow> req list \<Rightarrow> req list" where
  "padded_reqs env rs = rs @ replicate (en_padding env (length rs)) (en_dummy env)"

text \<open>Free what slid out of the window first, then allocate the batch's pages.\<close>

definition prepare_cache :: "env \<Rightarrow> batch \<Rightarrow> sched \<Rightarrow> (sched \<times> req list) option" where
  "prepare_cache env b s = do {
     rs \<leftarrow> get_reqs (b_reqs b) (sd_w s);
     let s = s\<lparr>sd_iter := sd_iter s + 1\<rparr>;
     (cm, rs) \<leftarrow> (if b_prefill b then free_swa_out_of_window_extend rs (w_cm (sd_w s))
        else do {
          (cm, rs) \<leftarrow> maybe_free_swa_out_of_window (en_interval env) rs (sd_iter s) (w_cm (sd_w s));
          Some (cm, map (\<lambda>r. r\<lparr>rq_decode_batch := rq_decode_batch r + 1\<rparr>) rs) });
     cm \<leftarrow> allocate_paged rs cm;
     Some (s\<lparr>sd_w := put_reqs (b_reqs b) rs ((sd_w s)\<lparr>w_cm := cm\<rparr>)\<rparr>, rs) }"

definition ec_lookup :: "world \<Rightarrow> int \<Rightarrow> bool" where
  "ec_lookup w h = (case w_ec w of None \<Rightarrow> False | Some ec \<Rightarrow> ec_has ec h)"

definition gather_multimodal ::
  "env \<Rightarrow> req list \<Rightarrow> sched \<Rightarrow> sched \<times> mm_item list \<times> plan_row list \<times> int list \<times> int list" where
  "gather_multimodal env padded s =
     (let (jobs, plan, rows, ends) = plan_mm_batch padded (ec_lookup (sd_w s));
          s = (if en_bidirectional env \<and> \<not> sd_warned_cut s \<and> cut_image_spans padded \<noteq> [] then s\<lparr>sd_warned_cut := True\<rparr> else s)
      in if plan \<noteq> [] then (s, jobs, plan, rows, ends) else (s, [], [], [], []))"

definition linear_table_idx :: "batch \<Rightarrow> req list \<Rightarrow> int list \<Rightarrow> cache_manager \<Rightarrow> int list option" where
  "linear_table_idx b padded table_col cm =
     (case cm_linear_pool cm of
        None \<Rightarrow> None
      | Some pool \<Rightarrow>
          (if b_prefill b then None
           else if is_hybrid cm then
             Some (map (\<lambda>r. case rq_linear_slot r of Some i \<Rightarrow> int i | None \<Rightarrow> 0) padded)
           else Some table_col))"

definition prepare_batch :: "env \<Rightarrow> batch \<Rightarrow> sched \<Rightarrow> (sched \<times> forward_input) option" where
  "prepare_batch env b s = do {
     (s, rs) \<leftarrow> prepare_cache env b s;
     let padded = padded_reqs env rs;
     let (s, jobs, plan, rows, ends) = (if b_prefill b then gather_multimodal env padded s else (s, [], [], [], []));
     let input_map = make_input_tuple padded;
     out_loc \<leftarrow> gather2 (cm_page_table (w_cm (sd_w s))) input_map;
     Some (s, \<lparr>fi_batch = b, fi_positions = make_positions padded,
       fi_mrope = (if en_mrope env then Some (make_mrope_positions padded) else None),
       fi_input_map = input_map, fi_write_map = make_write_tuple rs, fi_out_loc = out_loc,
       fi_linear_idx = linear_table_idx b padded (fst input_map) (w_cm (sd_w s)),
       fi_active_rows = (if b_prefill b then None else Some (fst input_map)),
       fi_jobs = jobs, fi_plan = plan, fi_mm_rows = rows, fi_block_ends = ends\<rparr>) }"

definition report_prompt_admissions :: "batch \<Rightarrow> sched \<Rightarrow> sched" where
  "report_prompt_admissions b s =
     (if \<not> b_prefill b \<or> b_admissions b = [] then s
      else send_result (map (\<lambda>(uid, n, hit). PromptAdmitted uid n hit) (b_admissions b)) s)"

text \<open>Prefill first; a decode batch when no prompt can be scheduled.\<close>

definition next_batch :: "env \<Rightarrow> sched \<Rightarrow> (sched \<times> batch option) option" where
  "next_batch env s = do {
     (pm, w, b) \<leftarrow> pm_schedule_next_batch (readings env s) (int (sd_budget s)) (sd_dm s) (sd_pm s) (sd_w s);
     let s = tick (length (pm_pending (sd_pm s))) (s\<lparr>sd_pm := pm, sd_w := w\<rparr>);
     Some (s, (case b of
         Some b \<Rightarrow> Some b
       | None \<Rightarrow> map_option (\<lambda>is. \<lparr>b_reqs = is, b_prefill = False, b_new_tokens = 0, b_cached_tokens = 0, b_admissions = []\<rparr>)
           (dm_schedule_next_batch (w_reqs (sd_w s)) (sd_dm s)))) }"

definition schedule_next_batch :: "env \<Rightarrow> sched \<Rightarrow> (sched \<times> forward_input option) option" where
  "schedule_next_batch env s = do {
     (s, b) \<leftarrow> next_batch env s;
     case b of
       None \<Rightarrow> Some (s, None)
     | Some b \<Rightarrow> do {
         (s, fi) \<leftarrow> prepare_batch env b s;
         Some (report_prompt_admissions b s, Some fi) } }"

section \<open>Running a batch\<close>

text \<open>Copy a prefix hit's recurrent state into the request's live slot, once.\<close>

definition restore_one :: "req \<Rightarrow> cache_manager \<Rightarrow> (cache_manager \<times> req) option" where
  "restore_one r cm =
     (case rq_restore_src r of
        None \<Rightarrow> Some (cm, r)
      | Some src \<Rightarrow> do {
          pool \<leftarrow> cm_linear_pool cm;
          live \<leftarrow> rq_linear_slot r;
          Some (cm\<lparr>cm_linear_pool := Some (lp_copy_from src live pool)\<rparr>, r\<lparr>rq_restore_src := None\<rparr>) })"

definition restore_linear_states :: "batch \<Rightarrow> sched \<Rightarrow> sched option" where
  "restore_linear_states b s =
     (if cm_linear_pool (w_cm (sd_w s)) = None \<or> \<not> b_prefill b then Some s
      else do {
        rs \<leftarrow> get_reqs (b_reqs b) (sd_w s);
        (cm, rs) \<leftarrow> thread restore_one rs (w_cm (sd_w s));
        Some (s\<lparr>sd_w := put_reqs (b_reqs b) rs ((sd_w s)\<lparr>w_cm := cm\<rparr>)\<rparr>) })"

text \<open>\<open>_forward\<close> around the engine: \<open>tokens\<close> are the sampled ones; the images run before the model, and every
  request of the batch completes.  The first result is what the model reads: the ids at the input positions.\<close>

definition run_images :: "env \<Rightarrow> forward_input \<Rightarrow> world \<Rightarrow> world option" where
  "run_images env fi w =
     (if fi_plan fi = [] then Some w
      else do {
        ec \<leftarrow> w_ec w;
        (ec, _, _) \<leftarrow> run_mm_encoder (en_encode env) (fi_jobs fi) (fi_plan fi) ec;
        Some (w\<lparr>w_ec := Some ec\<rparr>) })"

definition forward :: "env \<Rightarrow> forward_input \<Rightarrow> int list \<Rightarrow> sched \<Rightarrow> (sched \<times> int list) option" where
  "forward env fi tokens s = do {
     let b = fi_batch fi;
     input_ids \<leftarrow> gather2 (tm_token_pool (w_tm (sd_w s))) (fi_input_map fi);
     rs \<leftarrow> get_reqs (b_reqs b) (sd_w s);
     (cm, rs) \<leftarrow> (if en_anchor env \<noteq> None \<and> \<not> b_prefill b then snapshot_toolcall_anchor rs (w_cm (sd_w s))
                else Some (w_cm (sd_w s), rs));
     w \<leftarrow> run_images env fi (put_reqs (b_reqs b) (map complete_one rs) ((sd_w s)\<lparr>w_cm := cm\<rparr>));
     _ \<leftarrow> py_assert (length tokens = length (b_reqs b));
     pool \<leftarrow> scatter2 (zip (fst (fi_write_map fi)) (snd (fi_write_map fi))) tokens (tm_token_pool (w_tm w));
     let w = w\<lparr>w_tm := (w_tm w)\<lparr>tm_token_pool := pool\<rparr>\<rparr>;
     Some (s\<lparr>sd_w := w, sd_dm := dm_filter_reqs (w_reqs w) (b_reqs b) (sd_dm s)\<rparr>, input_ids) }"

section \<open>Runtime cache rebuild\<close>

text \<open>What the engine's part of a rebuild does: done with the new sizes and pools, rejected before anything was
  freed, or failed, before (\<open>False\<close>) or after the point of no return.\<close>

datatype engine_rebuild =
    EngineDone geometry nat "int list list" "linear_pool option" "swa_pool option"
  | EngineRejected string
  | EngineFailed bool string

datatype rebuild_outcome = RebuildOk | RebuildRejected string | RebuildFailed bool string

text \<open>The managers after the engine's part: the prefix cache starts empty when a pool it indexes was resized.\<close>

fun pc_counter :: "prefix_cache \<Rightarrow> nat" where
  "pc_counter PNaive = 0"
| "pc_counter (PRadix c) = counter (rc_store c)"
| "pc_counter (PHybrid c) = counter (rc_store (hc_kv c))"
| "pc_counter (PSwa c) = counter (sw_store c)"

definition rethread :: "env \<Rightarrow> geometry \<Rightarrow> nat \<Rightarrow> int list list \<Rightarrow> sched \<Rightarrow> sched option" where
  "rethread env g num_pages pt s =
     (if ge_pages g \<noteq> None \<or> ge_mamba g \<noteq> None \<or> ge_swa g \<noteq> None then do {
        cm \<leftarrow> cm_rebuild num_pages pt (readings env s 0) (pc_counter (cm_prefix (w_cm (sd_w s)))) (w_cm (sd_w s));
        let tm = (if ge_pages g \<noteq> None then tm_rebuild pt (w_tm (sd_w s)) else w_tm (sd_w s));
        _ \<leftarrow> cm_check_integrity cm;
        Some (tick 1 (s\<lparr>sd_w := (sd_w s)\<lparr>w_cm := cm, w_tm := tm\<rparr>\<rparr>)) }
      else Some s)"

definition rebuild_cache :: "env \<Rightarrow> engine_rebuild \<Rightarrow> geometry \<Rightarrow> sched \<Rightarrow> sched \<times> rebuild_outcome" where
  "rebuild_cache env eng g s =
     (if sd_runnable s then (s, RebuildFailed False ''AssertionError'')
      else (case eng of
          EngineRejected e \<Rightarrow> (s, RebuildRejected e)
        | EngineFailed torn e \<Rightarrow> (s, RebuildFailed torn e)
        | EngineDone geo num_pages pt lp sp \<Rightarrow>
            (let s1 = s\<lparr>sd_geo := geo, sd_w := (sd_w s)\<lparr>w_cm := (w_cm (sd_w s))\<lparr>cm_linear_pool := lp, cm_swa_pool := sp\<rparr>\<rparr>\<rparr>
             in case rethread env g num_pages pt s1 of
                  None \<Rightarrow> (s1, RebuildFailed True ''AssertionError'')
                | Some s2 \<Rightarrow> (s2\<lparr>sd_budget := prefill_budget env (w_cm (sd_w s2))\<rparr>, RebuildOk))))"

text \<open>Only the pools the request names are rolled back.\<close>

definition prior_geometry :: "geometry \<Rightarrow> geometry \<Rightarrow> geometry" where
  "prior_geometry g cur =
     \<lparr>ge_moe = (if ge_moe g = None then None else ge_moe cur), ge_pages = (if ge_pages g = None then None else ge_pages cur),
      ge_mamba = (if ge_mamba g = None then None else ge_mamba cur), ge_swa = (if ge_swa g = None then None else ge_swa cur)\<rparr>"

text \<open>\<open>eng1\<close> is the engine's answer to the request, \<open>eng2\<close> its answer to the rollback.\<close>

definition execute_pending_rebuild :: "env \<Rightarrow> engine_rebuild \<Rightarrow> engine_rebuild \<Rightarrow> sched \<Rightarrow> sched option" where
  "execute_pending_rebuild env eng1 eng2 s = do {
     m \<leftarrow> sd_rebuild s;
     let s = s\<lparr>sd_rebuild := None\<rparr>;
     let prior = prior_geometry (rm_geo m) (sd_geo s);
     let (s, res) = rebuild_cache env eng1 (rm_geo m) s;
     Some (case res of
         RebuildOk \<Rightarrow> reply_rebuild (rm_request_id m) ''ok'' None s
       | RebuildRejected e \<Rightarrow> reply_rebuild (rm_request_id m) ''rejected'' (Some (Raised e)) s
       | RebuildFailed torn e \<Rightarrow>
           (if \<not> torn then reply_rebuild (rm_request_id m) ''rejected'' (Some (Raised e)) s
            else if en_tp_size env > 1 then reply_rebuild (rm_request_id m) ''failed'' (Some (Raised e)) s
            else (let (s, res2) = rebuild_cache env eng2 prior s
                  in case res2 of
                       RebuildOk \<Rightarrow> reply_rebuild (rm_request_id m) ''rejected'' (Some (RolledBack e)) s
                     | RebuildRejected e2 \<Rightarrow> reply_rebuild (rm_request_id m) ''failed'' (Some (RollbackFailed e e2)) s
                     | RebuildFailed _ e2 \<Rightarrow> reply_rebuild (rm_request_id m) ''failed'' (Some (RollbackFailed e e2)) s))) }"

section \<open>The loops\<close>

text \<open>Schedule, restore and launch one batch; \<open>tokens\<close> answers the forward if there is one.\<close>

definition launch :: "env \<Rightarrow> int list \<Rightarrow> sched \<Rightarrow> (sched \<times> forward_data option) option" where
  "launch env tokens s = do {
     (s, fi) \<leftarrow> schedule_next_batch env s;
     case fi of
       None \<Rightarrow> Some (s, None)
     | Some fi \<Rightarrow> do {
         s \<leftarrow> restore_linear_states (fi_batch fi) s;
         (s, _) \<leftarrow> forward env fi tokens s;
         Some (s, Some (fi, tokens)) } }"

definition overlap_loop ::
  "env \<Rightarrow> backend_msg list \<Rightarrow> engine_rebuild \<times> engine_rebuild \<Rightarrow> int list \<Rightarrow> forward_data option \<Rightarrow> sched \<Rightarrow>
     (sched \<times> forward_data option) option" where
  "overlap_loop env msgs eng tokens last_data s = do {
     s \<leftarrow> process_msgs env msgs (s\<lparr>sd_last := last_data\<rparr>);
     s \<leftarrow> (if sd_rebuild s \<noteq> None \<and> last_data = None \<and> \<not> sd_runnable s
           then execute_pending_rebuild env (fst eng) (snd eng) s else Some s);
     (s, ongoing) \<leftarrow> launch env tokens s;
     s \<leftarrow> process_last_data env last_data s;
     Some (flush_abort_acks s, ongoing) }"

definition normal_loop ::
  "env \<Rightarrow> backend_msg list \<Rightarrow> engine_rebuild \<times> engine_rebuild \<Rightarrow> int list \<Rightarrow> sched \<Rightarrow> sched option" where
  "normal_loop env msgs eng tokens s = do {
     s \<leftarrow> process_msgs env msgs s;
     s \<leftarrow> (if sd_rebuild s \<noteq> None \<and> \<not> sd_runnable s
           then execute_pending_rebuild env (fst eng) (snd eng) s else Some s);
     (s, ongoing) \<leftarrow> launch env tokens s;
     s \<leftarrow> process_last_data env ongoing s;
     Some (flush_abort_acks s) }"

end
