(* ===== verification/SchedulerLive.thy ===== *)
theory SchedulerLive
  imports SchedulerCore
begin

text \<open>
  The scheduler's state as a whole, on the generic path: one invariant over the books of the
  cache, the table rows, the waiting list, the running set, the batches in flight and the
  request objects, kept by every message, launch and drain of the overlapped loop.  Its
  consequences are the properties of the system: no leak, no double free, no KV slot shared.
\<close>

section \<open>Shapes\<close>

abbreviation widths :: "'a list list \<Rightarrow> nat list" where
  "widths t \<equiv> map length t"

lemma widths_update: "length v = length (t ! i) \<Longrightarrow> widths (t[i := v]) = widths t"
  by (cases "i < length t") (simp_all add: map_update list_update_same_conv list_update_beyond)

lemma patch_length: "length src = min hi (length row) - lo \<Longrightarrow> length (patch lo src row) = length row"
  by (cases "src = []") (auto simp: patch_def min_def split: if_splits)

lemma row_copy_widths:
  assumes "row_copy ti lo hi src cm = Some cm'"
  shows "widths (cm_page_table cm') = widths (cm_page_table cm)"
proof -
  from assms obtain i where i: "tensor_index (length (cm_page_table cm)) ti = Some i" by (auto simp: row_copy_def bind_eq_Some_conv)
  define m where "m = length (slice lo hi (cm_page_table cm ! i))"
  define v where "v = (if length src = 1 then replicate m (src ! 0) else src)"
  have v: "length v = length (slice lo hi (cm_page_table cm ! i))"
    "cm' = cm\<lparr>cm_page_table := (cm_page_table cm)[i := patch lo v (cm_page_table cm ! i)]\<rparr>"
    using assms i unfolding row_copy_def Let_def v_def m_def by (simp_all split: if_splits)
  have "length (patch lo v (cm_page_table cm ! i)) = length (cm_page_table cm ! i)"
    by (rule patch_length[of _ hi]) (use v(1) in simp)
  then show ?thesis unfolding v(2) by (simp add: widths_update)
qed

lemma write_cells_widths: "write_cells cells vs pt = Some pt' \<Longrightarrow> widths pt' = widths pt"
proof (induction cells vs pt rule: write_cells.induct)
  case (2 ti pos cs v vs pt)
  then obtain pt1 where p: "write_cell ti pos v pt = Some pt1" "write_cells cs vs pt1 = Some pt'" by (auto simp: bind_eq_Some_conv)
  from p(1) have "widths pt1 = widths pt"
    by (auto simp: write_cell_def bind_eq_Some_conv widths_update split: if_splits)
  with 2 p show ?case by simp
qed auto

lemma allocate_paged_widths:
  assumes "generic cm" "allocate_paged reqs cm = Some cm'"
  shows "widths (cm_page_table cm') = widths (cm_page_table cm)"
proof -
  have pool: "cm_swa_pool cm = None" "\<not> is_swa cm" using assms(1) by (simp_all add: generic_def)
  have al: "cm_page_table c = cm_page_table cm \<and> cm_swa_pool c = None" if "cm_allocate n cm = Some (c, pages)" for n c pages
    using that assms(1) pool
    by (auto simp: cm_allocate_def Let_def bind_eq_Some_conv evict_pages_def py_assert_def generic_def is_hybrid_def cm_free_swa_def
        cm_free_linear_def split: if_splits prefix_cache.splits)
  show ?thesis
  proof (cases "needed_pages (cm_page_size cm) reqs > 0")
    case True
    with assms(2) obtain c pages where c: "cm_allocate (needed_pages (cm_page_size cm) reqs) cm = Some (c, pages)"
      "write_page_table (page_to_token (cm_page_size c) pages) (allocation_info (cm_page_size cm) reqs) c = Some cm'"
      using al by (auto simp: allocate_paged_def Let_def bind_eq_Some_conv)
    from c(2) obtain pt where "write_cells (info_cells (cm_page_size c) (allocation_info (cm_page_size cm) reqs))
        (page_to_token (cm_page_size c) pages) (cm_page_table c) = Some pt" "cm' = c\<lparr>cm_page_table := pt\<rparr>"
      by (auto simp: write_page_table_def Let_def bind_eq_Some_conv)
    then show ?thesis using write_cells_widths al[OF c(1)] by simp
  next
    case False
    then show ?thesis using assms(2) by (simp add: allocate_paged_def)
  qed
qed

lemma generic_commit_widths:
  assumes "cache_req_generic r False clk cm = Some (cm', r')" "generic cm"
  shows "widths (cm_page_table cm') = widths (cm_page_table cm)"
proof -
  from assms obtain cm2 cm3 clen h where c: "repoint_row r clen h cm2 = Some cm3" "cm_page_table cm2 = cm_page_table cm"
    "cm_page_table cm' = cm_page_table cm3"
    by (auto simp: cache_req_generic_def Let_def bind_eq_Some_conv cm_unlock_def cm_free_swa_def generic_def cm_lock_def)
  from c(1) have "widths (cm_page_table cm3) = widths (cm_page_table cm2)"
    by (auto simp: repoint_row_def Let_def bind_eq_Some_conv row_copy_widths split: if_splits)
  with c show ?thesis by simp
qed

lemma shaped_widths: "shaped W cm tm \<longleftrightarrow> length (tm_token_pool tm) = length (cm_page_table cm) \<and> tm_max tm \<le> length (cm_page_table cm) \<and>
    (\<forall>n\<in>set (widths (cm_page_table cm)). n = W) \<and> (\<forall>n\<in>set (widths (tm_token_pool tm)). n = W)"
  unfolding shaped_def all_set_conv_all_nth by auto

lemma shaped_cong:
  "shaped W cm tm \<Longrightarrow> widths (cm_page_table cm') = widths (cm_page_table cm) \<Longrightarrow> tm_max tm' = tm_max tm \<Longrightarrow>
    widths (tm_token_pool tm') = widths (tm_token_pool tm) \<Longrightarrow> shaped W cm' tm'"
  unfolding shaped_widths by (metis length_map)

section \<open>Freeing and committing one live request\<close>

text \<open>What no operation on a request changes.\<close>

definition kin :: "world \<Rightarrow> world \<Rightarrow> bool" where
  "kin w w' \<longleftrightarrow> cm_page_size (w_cm w') = cm_page_size (w_cm w) \<and> cm_num_pages (w_cm w') = cm_num_pages (w_cm w) \<and>
     cm_linear_pool (w_cm w') = cm_linear_pool (w_cm w) \<and> length (cm_page_table (w_cm w')) = length (cm_page_table (w_cm w)) \<and>
     tm_max (w_tm w') = tm_max (w_tm w) \<and> (cm_lazy (w_cm w') = None) = (cm_lazy (w_cm w) = None)"

lemma kinD:
  assumes "kin w w'"
  shows kin_size: "cm_page_size (w_cm w') = cm_page_size (w_cm w)" and kin_pages: "cm_num_pages (w_cm w') = cm_num_pages (w_cm w)"
    and kin_pool: "cm_linear_pool (w_cm w') = cm_linear_pool (w_cm w)"
    and kin_rows: "length (cm_page_table (w_cm w')) = length (cm_page_table (w_cm w))"
    and kin_lazy: "(cm_lazy (w_cm w') = None) = (cm_lazy (w_cm w) = None)"
  using assms by (simp_all add: kin_def)

text \<open>The sizes a deployment fixes: table rows, pages, running requests.\<close>

definition dims :: "world \<Rightarrow> nat \<times> nat \<times> nat" where
  "dims w = (length (cm_page_table (w_cm w)), cm_num_pages (w_cm w), tm_max (w_tm w))"

lemma kin_dims: "kin w w' \<Longrightarrow> dims w' = dims w"
  by (simp add: kin_def dims_def)

lemma kin_trans: "kin a b \<Longrightarrow> kin b c \<Longrightarrow> kin a c"
  by (simp add: kin_def)

lemma mset_map_replace:
  "mset A = mset (a # xs) \<Longrightarrow> mset B = mset (b # xs) \<Longrightarrow> f a = f b \<Longrightarrow> mset (map f A) = mset (map f B)"
  by (simp only: mset_map mset.simps image_mset_add_mset)

lemma live_split:
  assumes "live_ok W w live" "i \<in> set live"
  shows "\<exists>r. w_reqs w i = Some r \<and> mset live = add_mset i (mset (removeAll i live)) \<and>
    mset (objs w live) = mset (r # objs w (removeAll i live)) \<and> cm_inv (w_cm w) (r # objs w (removeAll i live)) \<and> 0 \<le> rq_table_idx r"
proof -
  from assms obtain r where r: "w_reqs w i = Some r" by (auto simp: live_ok_def)
  have ms: "mset live = add_mset i (mset (removeAll i live))"
    using assms mset_split[of live i] by (simp add: live_ok_def removeAll_filter_not_eq)
  then have "mset (r # objs w (removeAll i live)) = mset (objs w live)" using r by simp
  moreover have "cm_inv (w_cm w) (objs w live)" using assms(1) by (simp add: live_ok_def)
  ultimately have inv: "cm_inv (w_cm w) (r # objs w (removeAll i live))" by (rule cm_inv_perm[rotated])
  then show ?thesis using r ms cm_fits[OF inv, of r] \<open>mset (r # objs w (removeAll i live)) = mset (objs w live)\<close>
    by (simp add: req_fits_def)
qed

text \<open>The world after a finished request gave back its pages and its row.\<close>

definition freed :: "nat \<Rightarrow> req \<Rightarrow> cache_manager \<Rightarrow> world \<Rightarrow> world" where
  "freed i r cm w = put_req i (r\<lparr>rq_table_idx := -1\<rparr>) (w\<lparr>w_cm := cm, w_tm := tm_free (nat (rq_table_idx r)) (w_tm w)\<rparr>)"

lemma freed_fields [simp]: "w_cm (freed i r cm w) = cm" "w_tm (freed i r cm w) = tm_free (nat (rq_table_idx r)) (w_tm w)"
  "w_reqs (freed i r cm w) = (w_reqs w)(i \<mapsto> r\<lparr>rq_table_idx := -1\<rparr>)" "w_next (freed i r cm w) = w_next w" "w_ec (freed i r cm w) = w_ec w"
  by (simp_all add: freed_def put_req_def)

lemma put_fields [simp]: "w_cm (put_req i r w) = w_cm w" "w_tm (put_req i r w) = w_tm w"
  "w_reqs (put_req i r w) = (w_reqs w)(i \<mapsto> r)" "w_next (put_req i r w) = w_next w" "w_ec (put_req i r w) = w_ec w"
  by (simp_all add: put_req_def)

lemma objs_upd: "i \<notin> set is \<Longrightarrow> map (\<lambda>j. the (((w_reqs w)(i \<mapsto> r)) j)) is = objs w is"
  by auto

lemma objs_replace:
  assumes "mset live = add_mset i (mset (removeAll i live))"
  shows "mset (map (\<lambda>j. the (((w_reqs w)(i \<mapsto> r)) j)) live) = mset (r # objs w (removeAll i live))"
proof -
  let ?f = "\<lambda>j. the (((w_reqs w)(i \<mapsto> r)) j)"
  have "mset (map ?f live) = add_mset (?f i) (mset (map ?f (removeAll i live)))"
    by (simp only: mset_map assms image_mset_add_mset)
  moreover have "map ?f (removeAll i live) = objs w (removeAll i live)" by (rule objs_upd) simp
  moreover have "?f i = r" by simp
  ultimately show ?thesis by (simp only: mset.simps)
qed

lemma free_live:
  assumes live: "live_ok W w live" and i: "i \<in> set live" and r: "w_reqs w i = Some r"
    and len: "rq_cached_len r \<le> length (rq_input_ids r)"
  shows "\<exists>cm. cache_req r True clk (w_cm w) = Some (cm, r) \<and> rq_table_idx r \<noteq> -1 \<and> live_ok W (freed i r cm w) (removeAll i live) \<and>
    kin w (freed i r cm w) \<and> pool_room w live \<le> pool_room (freed i r cm w) (removeAll i live)"
proof -
  let ?rest = "removeAll i live"
  from live_split[OF live i] r have s: "mset live = add_mset i (mset ?rest)" "cm_inv (w_cm w) (r # objs w ?rest)" "0 \<le> rq_table_idx r"
    "mset (objs w live) = mset (r # objs w ?rest)" by auto
  from finish_ok[OF s(2) len, of clk] obtain cm where f: "cache_req r True clk (w_cm w) = Some (cm, r)"
    "cm_inv cm (objs w ?rest)" "cm_page_table cm = cm_page_table (w_cm w)" "cm_page_size cm = cm_page_size (w_cm w)"
    "cm_num_pages cm = cm_num_pages (w_cm w)" "cm_linear_pool cm = cm_linear_pool (w_cm w)" "(cm_lazy cm = None) = (cm_lazy (w_cm w) = None)"
    by (elim exE conjE) (rule that, assumption+)
  let ?w = "freed i r cm w"
  have oth: "objs ?w ?rest = objs w ?rest" unfolding freed_fields by (rule objs_upd) simp
  have "mset (map rq_table_idx (objs w live)) = mset (map rq_table_idx (r # objs w ?rest))"
    by (rule mset_map_replace[OF s(4) refl refl])
  moreover have "rows_ok (w_tm w) (objs w live)" using live by (simp add: live_ok_def)
  ultimately have "rows_ok (w_tm ?w) (objs w ?rest)" using s(3) by (simp add: rows_ok_def tm_free_def del: map_map)
  moreover have "shaped W cm (w_tm ?w)" using live f(3) by (simp add: live_ok_def shaped_def tm_free_def)
  moreover have "\<forall>j. w_reqs ?w j \<noteq> None \<longrightarrow> j < w_next ?w" using live r by (auto simp: live_ok_def)
  moreover have "\<forall>j\<in>set ?rest. w_reqs ?w j \<noteq> None" using live by (auto simp: live_ok_def)
  moreover have "distinct ?rest" using live by (simp add: live_ok_def distinct_removeAll)
  ultimately have "live_ok W ?w ?rest" unfolding live_ok_def oth using f(2) by simp
  moreover have "kin w ?w" using f by (simp add: kin_def tm_free_def)
  moreover have "pool_room w live \<le> pool_room ?w ?rest"
    unfolding oth using room_perm[OF s(4)] room_drop f(4,5) by simp
  moreover have "rq_table_idx r \<noteq> -1" using s(3) by simp
  ultimately show ?thesis using f(1) by blast
qed

lemma put_live:
  assumes live: "live_ok W w live" and i: "i \<in> set live" and r: "w_reqs w i = Some r" and ss: "same_seat r r'"
  shows "live_ok W (put_req i r' w) live \<and> pool_room (put_req i r' w) live = pool_room w live"
proof -
  let ?rest = "removeAll i live" and ?w = "put_req i r' w"
  from live_split[OF live i] r have s: "mset live = add_mset i (mset ?rest)" "cm_inv (w_cm w) (r # objs w ?rest)"
    "mset (objs w live) = mset (r # objs w ?rest)" by auto
  have "cm_inv (w_cm w) (r' # objs w ?rest)" by (rule cm_inv_update[OF s(2) ss])
  moreover have o: "mset (objs ?w live) = mset (r' # objs w ?rest)" unfolding put_fields by (rule objs_replace[OF s(1)])
  ultimately have inv: "cm_inv (w_cm w) (objs ?w live)" using cm_inv_perm by blast
  have "rows_ok (w_tm w) (objs ?w live)"
  proof (rule rows_ok_cong[where rs = "objs w live" and tm = "w_tm w"])
    have "rq_table_idx r' = rq_table_idx r" using ss by (simp add: same_seat_def)
    then show "mset (map rq_table_idx (objs ?w live)) = mset (map rq_table_idx (objs w live))"
      by (rule mset_map_replace[OF o s(3)])
  qed (use live in \<open>simp_all add: live_ok_def\<close>)
  moreover have "\<forall>j\<in>set live. w_reqs ?w j \<noteq> None" "\<forall>j. w_reqs ?w j \<noteq> None \<longrightarrow> j < w_next ?w"
    using live r by (auto simp: live_ok_def)
  ultimately have "live_ok W ?w live" using live inv unfolding live_ok_def by simp
  moreover have "room n ps (objs ?w live) = room n ps (objs w live)" for n ps
    using room_perm[OF o] room_perm[OF s(3)] room_same_seat[OF ss] by metis
  ultimately show ?thesis by simp
qed

lemma commit_live:
  assumes live: "live_ok W w live" and i: "i \<in> set live" and r: "w_reqs w i = Some r"
    and len: "rq_cached_len r \<le> length (rq_input_ids r)"
  shows "\<exists>cm h'. cache_req r False clk (w_cm w) = Some (cm, r\<lparr>rq_handle := h'\<rparr>) \<and>
    live_ok W (put_req i (r\<lparr>rq_handle := h'\<rparr>) (w\<lparr>w_cm := cm\<rparr>)) live \<and> kin w (w\<lparr>w_cm := cm\<rparr>) \<and>
    hl r \<le> h_cached_len h' \<and> h_cached_len h' \<le> rq_cached_len r \<and>
    pool_room w live \<le> pool_room (put_req i (r\<lparr>rq_handle := h'\<rparr>) (w\<lparr>w_cm := cm\<rparr>)) live"
proof -
  let ?rest = "removeAll i live" and ?ps = "cm_page_size (w_cm w)"
  from live_split[OF live i] r have s: "mset live = add_mset i (mset ?rest)" "cm_inv (w_cm w) (r # objs w ?rest)"
    "mset (objs w live) = mset (r # objs w ?rest)" by auto
  from commit_ok[OF s(2) len, of clk] obtain cm r' h' where raw: "cache_req r False clk (w_cm w) = Some (cm, r')"
    "r' = r\<lparr>rq_handle := h'\<rparr>" "cm_inv cm (r' # objs w ?rest)" "hl r \<le> hl r'" "cm_page_size cm = ?ps"
    "cm_num_pages cm = cm_num_pages (w_cm w)" "cm_linear_pool cm = cm_linear_pool (w_cm w)" "(cm_lazy cm = None) = (cm_lazy (w_cm w) = None)"
    by (elim exE conjE) (rule that, assumption+)
  have "hl r' = h_cached_len h'" by (simp add: raw(2))
  note c = raw(1)[unfolded raw(2)] raw(3)[unfolded raw(2)] raw(4)[unfolded this] raw(5-8)
  let ?r = "r\<lparr>rq_handle := h'\<rparr>"
  let ?w = "put_req i ?r (w\<lparr>w_cm := cm\<rparr>)"
  have gen: "generic (w_cm w)" using s(2) by (simp add: cm_inv_def)
  have wd: "widths (cm_page_table cm) = widths (cm_page_table (w_cm w))"
    using generic_commit_widths[OF _ gen, of r] c(1) cache_req_generic_eq[OF gen] by metis
  have o: "mset (objs ?w live) = mset (?r # objs w ?rest)"
    unfolding put_fields using objs_replace[OF s(1), of w ?r] by simp
  note inv = cm_inv_perm[OF c(2) o]
  have "rows_ok (w_tm w) (objs ?w live)"
  proof (rule rows_ok_cong[where rs = "objs w live" and tm = "w_tm w"])
    have "rq_table_idx ?r = rq_table_idx r" by simp
    then show "mset (map rq_table_idx (objs ?w live)) = mset (map rq_table_idx (objs w live))" by (rule mset_map_replace[OF o s(3)])
  qed (use live in \<open>simp_all add: live_ok_def\<close>)
  moreover have "shaped W cm (w_tm w)" using live by (intro shaped_cong[OF _ wd refl refl]) (simp add: live_ok_def)
  moreover have "\<forall>j\<in>set live. w_reqs ?w j \<noteq> None" "\<forall>j. w_reqs ?w j \<noteq> None \<longrightarrow> j < w_next ?w" using live r by (auto simp: live_ok_def)
  ultimately have "live_ok W ?w live" using live inv unfolding live_ok_def by simp
  moreover have "kin w (w\<lparr>w_cm := cm\<rparr>)" using c wd by (simp add: kin_def) (metis length_map)
  moreover have fr: "req_fits (w_cm w) r" "req_fits cm ?r" using cm_fits[OF s(2), of r] cm_fits[OF c(2), of ?r] by simp_all
  moreover have dv: "?ps dvd hl r" "?ps dvd h_cached_len h'"
    using pcx.held_live[OF cm_pc[OF s(2)], of "rq_handle r"] pcx.held_live[OF cm_pc[OF c(2)], of h'] c(4) by (auto simp: handle_live_def)
  have "h_cached_len h' \<le> rq_cached_len r" using fr(2) by (simp add: req_fits_def)
  moreover have le: "room n ?ps (r # objs w ?rest) \<le> room n ?ps (?r # objs w ?rest)" for n
    using c(3) dv fr(2) len cm_ps[OF s(2)] page_ceil_ge[OF cm_ps[OF s(2)], of "rq_cached_len r"]
    by (intro room_commit[where r = r and h' = h']) (simp_all add: req_fits_def)
  have "w_cm ?w = cm" by simp
  then have "pool_room w live \<le> pool_room ?w live"
    using le by (simp only: c(4,5) room_perm[OF o] room_perm[OF s(3)])
  ultimately show ?thesis using c(1,3) by blast
qed

section \<open>The invariant\<close>

text \<open>Tokens launched but not yet read: in the batch being drained, in the batch in flight.\<close>

definition unread :: "nat list \<Rightarrow> nat list \<Rightarrow> nat \<Rightarrow> nat" where
  "unread fl fl' i = (if i \<in> set fl then 1 else 0) + (if i \<in> set fl' then 1 else 0)"

text \<open>A live request between two forwards: one more token on the device than committed, its host ids up to date with
  the batches read so far, and within the sequence limit \<open>M\<close>.\<close>

definition obj_ok :: "nat \<Rightarrow> nat \<Rightarrow> req \<Rightarrow> bool" where
  "obj_ok M k r \<longleftrightarrow> rq_mm_items r = [] \<and> rq_device_len r = rq_cached_len r + 1 \<and>
     (if rq_chunked r then length (rq_input_ids r) = rq_cached_len r
      else rq_max_device_len r \<le> M \<and> rq_device_len r \<le> rq_max_device_len r \<and> length (rq_input_ids r) + k = rq_device_len r)"

definition store_ok :: "nat set \<Rightarrow> nat \<Rightarrow> nat \<times> nat \<times> nat \<Rightarrow> nat \<Rightarrow> world \<Rightarrow> nat list \<Rightarrow> nat list \<Rightarrow> nat list \<Rightarrow> bool" where
  "store_ok X W R M w live fl fl' \<longleftrightarrow> live_ok W w live \<and> cm_linear_pool (w_cm w) = None \<and> dims w = R \<and>
     (\<forall>i\<in>set live - X. obj_ok M (unread fl fl' i) (the (w_reqs w i)))"

text \<open>The waiting list: text prompts that fit, each continued from a chunk that is neither sampled nor aborted.\<close>

definition prompt_ok :: "nat \<Rightarrow> pending_req \<Rightarrow> bool" where
  "prompt_ok M p \<longleftrightarrow> pr_input_len p + pr_output_len p \<le> M \<and> 1 \<le> pr_output_len p \<and> pr_mm_items p = []"

definition wait_ok :: "nat \<Rightarrow> nat \<Rightarrow> world \<Rightarrow> nat list \<Rightarrow> pending_req list \<Rightarrow> bool" where
  "wait_ok W M w live pend \<longleftrightarrow> waiting_ok W w live pend \<and> chunks_first pend \<and> (\<forall>p\<in>set pend. prompt_ok M p) \<and>
     (\<forall>i\<in>set (chunk_ids pend). rq_chunked (the (w_reqs w i)) \<and> \<not> rq_aborted (the (w_reqs w i)))"

definition run_ok :: "world \<Rightarrow> nat list \<Rightarrow> decode_manager \<Rightarrow> bool" where
  "run_ok w live dm \<longleftrightarrow> distinct (dm_running dm) \<and> dm_page_size dm = cm_page_size (w_cm w) \<and>
     (\<forall>i\<in>set (dm_running dm). i \<in> set live \<and> can_decode (the (w_reqs w i)) \<and> \<not> rq_aborted (the (w_reqs w i)))"

text \<open>No request is forgotten: each live one waits, runs, or is in a batch whose results are still to be read.\<close>

definition placed :: "nat list \<Rightarrow> nat list \<Rightarrow> decode_manager \<Rightarrow> pending_req list \<Rightarrow> nat \<Rightarrow> req \<Rightarrow> bool" where
  "placed fl fl' dm pend i r \<longleftrightarrow>
     (if rq_aborted r then i \<in> set fl
      else if rq_chunked r then i \<in> set (chunk_ids pend)
      else if can_decode r then i \<in> set (dm_running dm)
      else i \<in> set fl \<union> set fl')"

text \<open>The members of a batch: still live, a superseded chunk, or finished by an earlier drain.\<close>

definition flying :: "world \<Rightarrow> nat set \<Rightarrow> nat set \<Rightarrow> nat list \<Rightarrow> nat list \<Rightarrow> nat list \<Rightarrow> bool" where
  "flying w F F' fl fl' live \<longleftrightarrow> distinct fl \<and> distinct fl' \<and> (F \<union> F') \<inter> set live = {} \<and> (\<forall>i\<in>F \<union> F'. w_reqs w i \<noteq> None) \<and>
     (\<forall>i\<in>set fl. \<exists>r. w_reqs w i = Some r \<and> (i \<in> set live \<or> \<not> rq_aborted r \<and> (rq_chunked r \<or> i \<in> F))) \<and>
     (\<forall>i\<in>set fl'. \<exists>r. w_reqs w i = Some r \<and> \<not> rq_aborted r \<and> (i \<in> set live \<or> rq_chunked r \<or> i \<in> F'))"

text \<open>The pages that the running and the unfinished requests will still fill, against what the pool can give.\<close>

definition need_len :: "nat \<Rightarrow> req \<Rightarrow> nat" where
  "need_len ps r = page_ceil ps (rq_max_device_len r - 1) - page_ceil ps (rq_cached_len r)"

definition run_need :: "world \<Rightarrow> nat set \<Rightarrow> int" where
  "run_need w J = (\<Sum>i\<in>J. int (need_len (cm_page_size (w_cm w)) (the (w_reqs w i))))"

definition funded :: "world \<Rightarrow> decode_manager \<Rightarrow> pending_req list \<Rightarrow> nat list \<Rightarrow> bool" where
  "funded w dm pend live \<longleftrightarrow> run_need w (set (dm_running dm)) + wait_need (cm_page_size (w_cm w)) (w_reqs w) pend \<le> pool_room w live"

definition sinv ::
  "nat set \<Rightarrow> nat \<Rightarrow> nat \<times> nat \<times> nat \<Rightarrow> nat \<Rightarrow> world \<Rightarrow> decode_manager \<Rightarrow> pending_req list \<Rightarrow> nat set \<Rightarrow> nat set \<Rightarrow> nat list \<Rightarrow> nat list \<Rightarrow>
     nat list \<Rightarrow> bool" where
  "sinv X W R M w dm pend F F' fl fl' live \<longleftrightarrow> store_ok X W R M w live fl fl' \<and> wait_ok W M w live pend \<and> run_ok w live dm \<and>
     (\<forall>i\<in>set live - X. placed fl fl' dm pend i (the (w_reqs w i))) \<and> flying w F F' fl fl' live \<and> funded w dm pend live"

lemma sinvD:
  assumes "sinv X W R M w dm pend F F' fl fl' live"
  shows sinv_store: "store_ok X W R M w live fl fl'" and sinv_wait: "wait_ok W M w live pend" and sinv_run: "run_ok w live dm"
    and sinv_placed: "\<forall>i\<in>set live - X. placed fl fl' dm pend i (the (w_reqs w i))" and sinv_fly: "flying w F F' fl fl' live"
    and sinv_funded: "funded w dm pend live" and sinv_live: "live_ok W w live"
  using assms by (simp_all add: sinv_def store_ok_def)

section \<open>Primitive steps\<close>

lemma sinv_exempt: "sinv {} W R M w dm pend F F' fl fl' live \<Longrightarrow> sinv {i} W R M w dm pend F F' fl fl' live"
  by (auto simp: sinv_def store_ok_def)

lemma sinv_close:
  assumes "sinv {i} W R M w dm pend F F' fl fl' live"
    "obj_ok M (unread fl fl' i) (the (w_reqs w i))" "placed fl fl' dm pend i (the (w_reqs w i))"
  shows "sinv {} W R M w dm pend F F' fl fl' live"
  using assms by (auto simp: sinv_def store_ok_def)

lemma run_need_nonneg: "0 \<le> run_need w J"
  unfolding run_need_def by (rule sum_nonneg) simp

lemma run_need_mono: "finite K \<Longrightarrow> J \<subseteq> K \<Longrightarrow> run_need w J \<le> run_need w K"
  unfolding run_need_def by (rule sum_mono2) simp_all

lemma sinvI:
  "store_ok X W R M w live fl fl' \<Longrightarrow> wait_ok W M w live pend \<Longrightarrow> run_ok w live dm \<Longrightarrow>
    (\<And>i. i \<in> set live - X \<Longrightarrow> placed fl fl' dm pend i (the (w_reqs w i))) \<Longrightarrow> flying w F F' fl fl' live \<Longrightarrow> funded w dm pend live \<Longrightarrow>
    sinv X W R M w dm pend F F' fl fl' live"
  by (simp add: sinv_def)

lemma placed_others: "j \<noteq> i \<Longrightarrow> placed (removeAll i fl) fl' dm pend j r = placed fl fl' dm pend j r"
  "j \<noteq> i \<Longrightarrow> placed fl fl' (dm_remove_req i dm) pend j r = placed fl fl' dm pend j r"
  by (simp_all add: placed_def dm_remove_req_def)

lemma sinv_unrun:
  assumes s: "sinv {i} W R M w dm pend F F' fl fl' live"
  shows "sinv {i} W R M w (dm_remove_req i dm) pend F F' fl fl' live"
proof (rule sinvI)
  show "store_ok {i} W R M w live fl fl'" "wait_ok W M w live pend" "flying w F F' fl fl' live"
    using s by (simp_all add: sinv_def)
  show "run_ok w live (dm_remove_req i dm)"
    using sinv_run[OF s] by (simp add: run_ok_def dm_remove_req_def distinct_removeAll)
  show "placed fl fl' (dm_remove_req i dm) pend j (the (w_reqs w j))" if "j \<in> set live - {i}" for j
    using sinv_placed[OF s] that by (simp add: placed_others)
  have "run_need w (set (dm_running (dm_remove_req i dm))) \<le> run_need w (set (dm_running dm))"
    by (rule run_need_mono) (auto simp: dm_remove_req_def)
  then show "funded w (dm_remove_req i dm) pend live" using sinv_funded[OF s] by (simp add: funded_def)
qed

lemma sinv_unflight:
  assumes s: "sinv {i} W R M w dm pend F F' fl fl' live"
  shows "sinv {i} W R M w dm pend F F' (removeAll i fl) fl' live"
proof (rule sinvI)
  have "unread (removeAll i fl) fl' j = unread fl fl' j" if "j \<noteq> i" for j using that by (simp add: unread_def)
  then show "store_ok {i} W R M w live (removeAll i fl) fl'" using sinv_store[OF s] by (simp add: store_ok_def)
  show "placed (removeAll i fl) fl' dm pend j (the (w_reqs w j))" if "j \<in> set live - {i}" for j
    using sinv_placed[OF s] that by (simp add: placed_others)
  show "flying w F F' (removeAll i fl) fl' live" using sinv_fly[OF s] by (simp add: flying_def distinct_removeAll)
qed (use s in \<open>simp_all add: sinv_def\<close>)

text \<open>One object of the store is replaced.\<close>

definition touched :: "nat \<Rightarrow> req \<Rightarrow> req \<Rightarrow> world \<Rightarrow> world \<Rightarrow> bool" where
  "touched i r r' w w' \<longleftrightarrow> w_reqs w i = Some r \<and> w_reqs w' = (w_reqs w)(i \<mapsto> r') \<and> kin w w' \<and>
     rq_chunked r' = rq_chunked r \<and> rq_cached_len r' = rq_cached_len r \<and> rq_device_len r' = rq_device_len r \<and>
     rq_max_device_len r' = rq_max_device_len r"

lemma touched_needs:
  assumes "touched i r r' w w'"
  shows "run_need w' J = run_need w J" "wait_need ps (w_reqs w') pend = wait_need ps (w_reqs w) pend"
    "can_decode (the (w_reqs w' j)) = can_decode (the (w_reqs w j))" "rq_chunked (the (w_reqs w' j)) = rq_chunked (the (w_reqs w j))"
proof -
  have eq: "rq_cached_len (the (w_reqs w' j)) = rq_cached_len (the (w_reqs w j))" "rq_max_device_len (the (w_reqs w' j)) = rq_max_device_len (the (w_reqs w j))"
    for j using assms by (simp_all add: touched_def)
  show "run_need w' J = run_need w J" using assms eq by (simp add: run_need_def need_len_def touched_def kin_def)
  show "wait_need ps (w_reqs w') pend = wait_need ps (w_reqs w) pend" by (rule wait_need_cong) (rule eq(1))
  show "can_decode (the (w_reqs w' j)) = can_decode (the (w_reqs w j))" "rq_chunked (the (w_reqs w' j)) = rq_chunked (the (w_reqs w j))"
    using assms by (simp_all add: touched_def can_decode_def remain_len_def)
qed

lemma sinv_touch:
  assumes s: "sinv {i} W R M w dm pend F F' fl fl' live" and i: "i \<in> set live" and t: "touched i r r' w w'"
    and live: "live_ok W w' live" and rm: "pool_room w live \<le> pool_room w' live"
    and hs: "i \<in> set (chunk_ids pend) \<longrightarrow> same_seat r r'"
    and ab: "rq_aborted r' = rq_aborted r \<or> i \<notin> set (dm_running dm) \<and> i \<notin> set (chunk_ids pend) \<and> i \<notin> set fl'"
  shows "sinv {i} W R M w' dm pend F F' fl fl' live"
proof (rule sinvI)
  note n = touched_needs[OF t]
  have r: "w_reqs w i = Some r" and w': "w_reqs w' = (w_reqs w)(i \<mapsto> r')" and k: "kin w w'" using t by (simp_all add: touched_def)
  have oth: "w_reqs w' j = w_reqs w j" if "j \<noteq> i" for j using w' that by simp
  have abo: "rq_aborted (the (w_reqs w' j)) = rq_aborted (the (w_reqs w j))"
    if "j \<in> set (dm_running dm) \<or> j \<in> set (chunk_ids pend) \<or> j \<in> set fl'" for j
    using ab w' r that by (cases "j = i") auto
  show "store_ok {i} W R M w' live fl fl'"
    using sinv_store[OF s] live kin_dims[OF k] kin_pool[OF k] oth by (simp add: store_ok_def)
  have pend: "pend_ok W w' live p" if p: "pend_ok W w live p" "p \<in> set pend" for p
  proof (cases "pr_chunked p = Some i")
    case True
    then have "i \<in> set (chunk_ids pend)" using p(2) chunk_ids_iff by blast
    with hs have "same_seat r r'" by blast
    then show ?thesis using p(1) True r w' by (simp add: pend_ok_def same_seat_def Let_def)
  next
    case False
    then show ?thesis using p(1) oth by (auto simp: pend_ok_def Let_def)
  qed
  show "wait_ok W M w' live pend"
    using sinv_wait[OF s] pend abo n(4) by (simp add: wait_ok_def waiting_ok_def)
  show "run_ok w' live dm" using sinv_run[OF s] abo n(3) k by (simp add: run_ok_def kin_def)
  show "placed fl fl' dm pend j (the (w_reqs w' j))" if "j \<in> set live - {i}" for j
    using sinv_placed[OF s] that oth by simp
  have f: "\<exists>q. w_reqs w' j = Some q \<and> rq_chunked q = rq_chunked p \<and> (rq_aborted q = rq_aborted p \<or> j = i)" if "w_reqs w j = Some p" for j p
    using that r w' t by (cases "j = i") (auto simp: touched_def)
  show "flying w' F F' fl fl' live"
    unfolding flying_def
  proof (intro conjI ballI)
    note fly = sinv_fly[OF s, unfolded flying_def]
    show "distinct fl" "distinct fl'" "(F \<union> F') \<inter> set live = {}" using fly by blast+
    show "w_reqs w' j \<noteq> None" if "j \<in> F \<union> F'" for j using fly that w' by auto
    show "\<exists>q. w_reqs w' j = Some q \<and> (j \<in> set live \<or> \<not> rq_aborted q \<and> (rq_chunked q \<or> j \<in> F))" if "j \<in> set fl" for j
    proof (cases "j = i")
      case True
      then show ?thesis using w' i by simp
    next
      case False
      then show ?thesis using fly that oth by simp
    qed
    show "\<exists>q. w_reqs w' j = Some q \<and> \<not> rq_aborted q \<and> (j \<in> set live \<or> rq_chunked q \<or> j \<in> F')" if j: "j \<in> set fl'" for j
    proof -
      from fly j obtain p :: req where p: "w_reqs w j = Some p" "\<not> rq_aborted p" "j \<in> set live \<or> rq_chunked p \<or> j \<in> F'" by blast
      from f[OF p(1)] obtain q where q: "w_reqs w' j = Some q" "rq_chunked q = rq_chunked p" by blast
      moreover have "\<not> rq_aborted q" using abo[of j] j p q by simp
      ultimately show ?thesis using p(3) by auto
    qed
  qed
  show "funded w' dm pend live" using sinv_funded[OF s] rm n(1,2) k by (simp add: funded_def kin_def)
qed

lemma sinv_free:
  assumes s: "sinv {i} W R M w dm pend F F' fl fl' live" and i: "i \<in> set live" and r: "w_reqs w i = Some r"
    and out: "i \<notin> set (dm_running dm)" "i \<notin> set (chunk_ids pend)" "i \<notin> set fl"
    and G: "F' \<subseteq> G" "G \<subseteq> insert i F'" "i \<in> set fl' \<longrightarrow> rq_chunked r \<or> i \<in> G"
    and live: "live_ok W (freed i r cm w) (removeAll i live)" and k: "kin w (freed i r cm w)"
    and rm: "pool_room w live \<le> pool_room (freed i r cm w) (removeAll i live)"
  shows "sinv {} W R M (freed i r cm w) dm pend F G fl fl' (removeAll i live)"
proof (rule sinvI)
  let ?w = "freed i r cm w"
  have t: "touched i r (r\<lparr>rq_table_idx := -1\<rparr>) w ?w" using r k by (simp add: touched_def)
  note n = touched_needs[OF t]
  have oth: "w_reqs ?w j = w_reqs w j" if "j \<noteq> i" for j using that by simp
  show "store_ok {} W R M ?w (removeAll i live) fl fl'"
    using sinv_store[OF s] live kin_dims[OF k] kin_pool[OF k] oth by (simp add: store_ok_def)
  have "pend_ok W ?w (removeAll i live) p" if "pend_ok W w live p" "p \<in> set pend" for p
  proof -
    have "pr_chunked p \<noteq> Some i" using that(2) out(2) chunk_ids_iff by blast
    then show ?thesis using that(1) oth by (auto simp: pend_ok_def Let_def)
  qed
  then show "wait_ok W M ?w (removeAll i live) pend"
    using sinv_wait[OF s] out(2) oth by (fastforce simp: wait_ok_def waiting_ok_def)
  show "run_ok ?w (removeAll i live) dm"
    using sinv_run[OF s] out(1) oth k by (fastforce simp: run_ok_def kin_def)
  show "placed fl fl' dm pend j (the (w_reqs ?w j))" if "j \<in> set (removeAll i live) - {}" for j
    using sinv_placed[OF s] that oth by simp
  note fly = sinv_fly[OF s, unfolded flying_def]
  show "flying ?w F G fl fl' (removeAll i live)"
    unfolding flying_def
  proof (intro conjI ballI)
    show "distinct fl" "distinct fl'" "(F \<union> G) \<inter> set (removeAll i live) = {}" using fly G by auto
    show "w_reqs ?w j \<noteq> None" if "j \<in> F \<union> G" for j using fly that G(2) r by auto
    show "\<exists>q. w_reqs ?w j = Some q \<and> (j \<in> set (removeAll i live) \<or> \<not> rq_aborted q \<and> (rq_chunked q \<or> j \<in> F))" if "j \<in> set fl" for j
    proof -
      have "j \<noteq> i" using that out(3) by blast
      with fly that oth show ?thesis by auto
    qed
    show "\<exists>q. w_reqs ?w j = Some q \<and> \<not> rq_aborted q \<and> (j \<in> set (removeAll i live) \<or> rq_chunked q \<or> j \<in> G)" if j: "j \<in> set fl'" for j
    proof (cases "j = i")
      case True
      with fly j r G(3) show ?thesis by auto
    next
      case False
      from fly j obtain p where "w_reqs w j = Some p" "\<not> rq_aborted p" "j \<in> set live \<or> rq_chunked p \<or> j \<in> F'" by blast
      with G(1) oth[OF False] False show ?thesis by auto
    qed
  qed
  show "funded ?w dm pend (removeAll i live)"
    using sinv_funded[OF s] rm n(1,2) k by (simp add: funded_def kin_def)
qed

lemma sinv_dead: "sinv {i} W R M w dm pend F F' fl fl' live \<Longrightarrow> i \<notin> set live \<Longrightarrow> sinv {} W R M w dm pend F F' fl fl' live"
  by (simp add: sinv_def store_ok_def)

lemma sinv_pop: "sinv {i} W R M w dm pend F F' (i # fl) fl' live \<Longrightarrow> sinv {i} W R M w dm pend F F' fl fl' live \<and> i \<notin> set fl"
  using sinv_unflight[of i W R M w dm pend F F' "i # fl" fl' live] by (simp add: sinv_def flying_def removeAll_id)

section \<open>Draining\<close>

text \<open>What a drain step may change of the scheduler: requests leave the running set, and no request changes length on
  the device.\<close>

definition lens :: "req option \<Rightarrow> (nat \<times> nat \<times> nat) option" where
  "lens x = map_option (\<lambda>r. (rq_cached_len r, rq_device_len r, rq_max_device_len r)) x"

definition drains :: "sched \<Rightarrow> sched \<Rightarrow> bool" where
  "drains s s' \<longleftrightarrow> s' = s\<lparr>sd_w := sd_w s', sd_dm := sd_dm s', sd_reads := sd_reads s'\<rparr> \<and> dm_page_size (sd_dm s') = dm_page_size (sd_dm s) \<and>
     set (dm_running (sd_dm s')) \<subseteq> set (dm_running (sd_dm s)) \<and> (\<forall>j. lens (req_at s' j) = lens (req_at s j))"

lemma drains_refl [simp]: "drains s s"
  by (simp add: drains_def)

lemma drains_trans: "drains a b \<Longrightarrow> drains b c \<Longrightarrow> drains a c"
  by (cases a; cases b; cases c) (auto simp: drains_def)

lemma drainsD: "drains s s' \<Longrightarrow> sd_finished s' = sd_finished s \<and> sd_pm s' = sd_pm s \<and> sd_acks s' = sd_acks s \<and>
    sd_tombstones s' = sd_tombstones s \<and> sd_last s' = sd_last s \<and> sd_rebuild s' = sd_rebuild s \<and> sd_out s' = sd_out s \<and>
    sd_budget s' = sd_budget s \<and> dm_page_size (sd_dm s') = dm_page_size (sd_dm s) \<and>
    set (dm_running (sd_dm s')) \<subseteq> set (dm_running (sd_dm s)) \<and> (\<forall>j. lens (req_at s' j) = lens (req_at s j))"
  by (cases s; cases s') (simp add: drains_def)

abbreviation sched_inv ::
  "nat set \<Rightarrow> nat \<Rightarrow> nat \<times> nat \<times> nat \<Rightarrow> nat \<Rightarrow> sched \<Rightarrow> nat set \<Rightarrow> nat list \<Rightarrow> nat list \<Rightarrow> nat list \<Rightarrow> bool" where
  "sched_inv X W R M s F' fl fl' live \<equiv> sinv X W R M (sd_w s) (sd_dm s) (pm_pending (sd_pm s)) (sd_finished s) F' fl fl' live"

lemma free_step:
  assumes s: "sched_inv {i} W R M s F' fl fl' live" and i: "i \<in> set live" and r: "req_at s i = Some r"
    and len: "rq_cached_len r \<le> length (rq_input_ids r)"
    and out: "i \<notin> set (dm_running (sd_dm s))" "i \<notin> set (chunk_ids (pm_pending (sd_pm s)))" "i \<notin> set fl"
    and G: "F' \<subseteq> G" "G \<subseteq> insert i F'" "i \<in> set fl' \<longrightarrow> rq_chunked r \<or> i \<in> G"
  shows "\<exists>s'. free_req_resources env i s = Some s' \<and> drains s s' \<and> sd_dm s' = sd_dm s \<and> kin (sd_w s) (sd_w s') \<and>
    sched_inv {} W R M s' G fl fl' (removeAll i live)"
proof -
  from free_live[OF sinv_live[OF s] i r len, of "readings env s"] obtain cm where f: "cache_req r True (readings env s) (w_cm (sd_w s)) = Some (cm, r)"
    "rq_table_idx r \<noteq> -1" "live_ok W (freed i r cm (sd_w s)) (removeAll i live)" "kin (sd_w s) (freed i r cm (sd_w s))"
    "pool_room (sd_w s) live \<le> pool_room (freed i r cm (sd_w s)) (removeAll i live)" by (elim exE conjE) (rule that, assumption+)
  let ?s = "tick 16 (s\<lparr>sd_w := freed i r cm (sd_w s)\<rparr>)"
  have "free_req_resources env i s = Some ?s"
    unfolding free_req_resources_def r Option.bind_lunit if_not_P[OF f(2)] Let_def f(1) prod.case freed_def by (rule refl)
  moreover have "sched_inv {} W R M ?s G fl fl' (removeAll i live)"
    using sinv_free[OF s i r out G f(3-5)] by (simp add: tick_def)
  moreover have "drains s ?s" "sd_dm ?s = sd_dm s" "kin (sd_w s) (sd_w ?s)" using f(4) r by (simp_all add: tick_def drains_def lens_def)
  ultimately show ?thesis by blast
qed

lemma live_handle:
  assumes "live_ok W w live" "i \<in> set live" "w_reqs w i = Some r"
  shows "hl r \<le> length (rq_input_ids r)"
proof -
  from live_split[OF assms(1,2)] assms(3) have inv: "cm_inv (w_cm w) (r # objs w (removeAll i live))" by auto
  have "pc_toks (cm_prefix (w_cm w)) (rq_handle r) = Some (take (hl r) (rq_input_ids r))"
    using cm_fits[OF inv, of r] by (simp add: req_fits_def)
  moreover have "pc_live (cm_page_size (w_cm w)) (cm_prefix (w_cm w)) (rq_handle r)"
    using pcx.held_live[OF cm_pc[OF inv], of "rq_handle r"] by simp
  ultimately have "length (take (hl r) (rq_input_ids r)) = hl r" by (auto simp: handle_live_def)
  then show ?thesis by simp
qed

lemma settle_ok:
  assumes s: "sched_inv {i} W R M s F' fl fl' live" and i: "i \<in> set live" and r: "req_at s i = Some r" and fl: "i \<notin> set fl"
    and ok: "obj_ok M (unread fl fl' i) r" "\<not> rq_chunked r" "\<not> rq_aborted r"
    and pl: "fin \<or> i \<in> set (dm_running (sd_dm s))" and cd: "\<not> fin \<longrightarrow> can_decode r"
  shows "\<exists>s' G live'. settle env is_prefill i r fin (s, reply, F') = Some (s', reply, G) \<and> drains s s' \<and>
    sched_inv {} W R M s' G fl fl' live' \<and> G = (if fin then insert i F' else F')"
proof -
  have notF: "i \<notin> sd_finished s" using sinv_fly[OF s] i by (auto simp: flying_def)
  have notc: "i \<notin> set (chunk_ids (pm_pending (sd_pm s)))" using sinv_wait[OF s] r ok(2) by (auto simp: wait_ok_def)
  have len: "rq_cached_len r \<le> length (rq_input_ids r)" using ok(1,2) fl by (auto simp: obj_ok_def unread_def split: if_splits)
  show ?thesis
  proof (cases fin)
    case True
    let ?s = "sd_remove_running i s"
    have s1: "sched_inv {i} W R M ?s F' fl fl' live" using sinv_unrun[OF s] by (simp add: sd_remove_running_def)
    have "req_at ?s i = Some r" using r by (simp add: sd_remove_running_def)
    moreover have "i \<notin> set (dm_running (sd_dm ?s))" by (simp add: sd_remove_running_def dm_remove_req_def)
    moreover have "i \<notin> set (chunk_ids (pm_pending (sd_pm ?s)))" using notc by (simp add: sd_remove_running_def)
    ultimately obtain s' where f: "free_req_resources env i ?s = Some s'" "drains ?s s'" "sched_inv {} W R M s' (insert i F') fl fl' (removeAll i live)"
      using free_step[OF s1 i _ len _ _ fl, of "insert i F'" env] by auto
    have "drains s ?s" by (auto simp: drains_def sd_remove_running_def dm_remove_req_def)
    then have "drains s s'" using f(2) drains_trans by blast
    with f True notF show ?thesis
      by (intro exI[of _ s'] exI[of _ "insert i F'"] exI[of _ "removeAll i live"]) (simp add: settle_def)
  next
    case False
    have run: "i \<in> set (dm_running (sd_dm s))" using pl False by blast
    show ?thesis
    proof (cases "is_prefill \<and> rq_table_idx r \<noteq> -1")
      case True
      from commit_live[OF sinv_live[OF s] i r len, of "readings env s"] obtain cm h' where
        c: "cache_req r False (readings env s) (w_cm (sd_w s)) = Some (cm, r\<lparr>rq_handle := h'\<rparr>)"
        "live_ok W (put_req i (r\<lparr>rq_handle := h'\<rparr>) ((sd_w s)\<lparr>w_cm := cm\<rparr>)) live" "kin (sd_w s) ((sd_w s)\<lparr>w_cm := cm\<rparr>)"
        "pool_room (sd_w s) live \<le> pool_room (put_req i (r\<lparr>rq_handle := h'\<rparr>) ((sd_w s)\<lparr>w_cm := cm\<rparr>)) live"
        by (elim exE conjE) (rule that, assumption+)
      let ?r = "r\<lparr>rq_handle := h'\<rparr>"
      let ?w = "put_req i ?r ((sd_w s)\<lparr>w_cm := cm\<rparr>)"
      let ?s = "tick 16 (s\<lparr>sd_w := ?w\<rparr>)"
      have t: "touched i r ?r (sd_w s) ?w" using r c(3) by (simp add: touched_def kin_def)
      have "sinv {i} W R M ?w (sd_dm s) (pm_pending (sd_pm s)) (sd_finished s) F' fl fl' live"
        by (rule sinv_touch[OF s i t c(2,4)]) (use notc in simp_all)
      then have "sinv {} W R M ?w (sd_dm s) (pm_pending (sd_pm s)) (sd_finished s) F' fl fl' live"
        by (rule sinv_close) (use ok run cd False in \<open>simp_all add: obj_ok_def placed_def can_decode_def remain_len_def\<close>)
      moreover have "settle env is_prefill i r fin (s, reply, F') = Some (?s, reply, F')"
        using False True c(1) by (simp add: settle_def)
      moreover have "drains s ?s" using r by (simp add: drains_def tick_def lens_def)
      ultimately show ?thesis using False
        by (intro exI[of _ ?s] exI[of _ F'] exI[of _ live]) (simp add: tick_def)
    next
      case no: False
      have "sched_inv {} W R M s F' fl fl' live"
        by (rule sinv_close[OF s]) (use r ok run cd False in \<open>simp_all add: placed_def\<close>)
      moreover have "settle env is_prefill i r fin (s, reply, F') = Some (s, reply, F')"
        using False no by (auto simp: settle_def)
      ultimately show ?thesis using False by (intro exI[of _ s] exI[of _ F'] exI[of _ live]) simp
    qed
  qed
qed

lemma append_seat:
  assumes "live_ok W w live" "i \<in> set live" "w_reqs w i = Some r"
  shows "same_seat r (r\<lparr>rq_input_ids := rq_input_ids r @ [t]\<rparr>)" "same_seat r (r\<lparr>rq_input_ids := rq_input_ids r @ [t], rq_anchor := a\<rparr>)"
  using live_handle[OF assms] by (simp_all add: same_seat_def)

lemma sinv_put:
  assumes s: "sched_inv {i} W R M s F' fl fl' live" and i: "i \<in> set live" and r: "req_at s i = Some r" and ss: "same_seat r r'"
    and eq: "rq_chunked r' = rq_chunked r" "rq_device_len r' = rq_device_len r" "rq_max_device_len r' = rq_max_device_len r"
    and ab: "rq_aborted r' = rq_aborted r \<or> i \<notin> set (dm_running (sd_dm s)) \<and> i \<notin> set (chunk_ids (pm_pending (sd_pm s))) \<and> i \<notin> set fl'"
  shows "sched_inv {i} W R M (s\<lparr>sd_w := put_req i r' (sd_w s)\<rparr>) F' fl fl' live"
proof -
  note p = put_live[OF sinv_live[OF s] i r ss]
  have "touched i r r' (sd_w s) (put_req i r' (sd_w s))" using r eq ss by (simp add: touched_def kin_def same_seat_def)
  from sinv_touch[OF s i this _ _ _ ab] p ss show ?thesis by simp
qed

lemma finish_length: "\<not> can_decode r \<Longrightarrow> fst (finish_state env r t)"
  by (simp add: finish_state_def Let_def)

lemma drain_token_ok:
  assumes s: "sched_inv {i} W R M s F' fl fl' live" and i: "i \<in> set live" and r: "req_at s i = Some r" and fl: "i \<notin> set fl"
    and ok: "obj_ok M (1 + unread fl fl' i) r" "\<not> rq_chunked r" "\<not> rq_aborted r"
    and pl: "can_decode r \<longrightarrow> i \<in> set (dm_running (sd_dm s))"
  shows "\<exists>s' m G live'. drain_token env is_prefill i r t (s, reply, F') = Some (s', reply @ [m], G) \<and> drains s s' \<and>
    sched_inv {} W R M s' G fl fl' live'"
proof -
  define r1 where "r1 = r\<lparr>rq_input_ids := rq_input_ids r @ [t]\<rparr>"
  define fs where "fs = finish_state env r1 t"
  define r2 where "r2 = (if Some t = en_anchor env \<and> rq_anchor r1 = None \<and> \<not> fst fs then r1\<lparr>rq_anchor := Some (length (rq_input_ids r1))\<rparr> else r1)"
  have "length (rq_input_ids r) + 1 \<le> rq_max_device_len r" using ok by (auto simp: obj_ok_def)
  then have ap: "append_host t r = Some r1" using ok(2) by (simp add: append_host_def py_assert_def r1_def)
  have r2: "rq_chunked r2 = rq_chunked r" "rq_device_len r2 = rq_device_len r" "rq_max_device_len r2 = rq_max_device_len r"
    "rq_aborted r2 = rq_aborted r" "rq_cached_len r2 = rq_cached_len r" "rq_mm_items r2 = rq_mm_items r" "rq_input_ids r2 = rq_input_ids r @ [t]"
    "can_decode r2 = can_decode r" "can_decode r1 = can_decode r"
    by (simp_all add: r2_def r1_def can_decode_def remain_len_def)
  have "same_seat r r2" using append_seat[OF sinv_live[OF s] i r] by (simp add: r2_def r1_def)
  then have s1: "sched_inv {i} W R M (s\<lparr>sd_w := put_req i r2 (sd_w s)\<rparr>) F' fl fl' live"
    by (rule sinv_put[OF s i r]) (use r2 in simp_all)
  let ?s = "s\<lparr>sd_w := put_req i r2 (sd_w s)\<rparr>"
  have at: "req_at ?s i = Some r2" by simp
  have cd: "\<not> fst fs \<longrightarrow> can_decode r2" using finish_length[of r1 env t] r2 by (auto simp: fs_def)
  have ok2: "obj_ok M (unread fl fl' i) r2" "\<not> rq_chunked r2" "\<not> rq_aborted r2" using ok r2 by (simp_all add: obj_ok_def)
  have run: "fst fs \<or> i \<in> set (dm_running (sd_dm ?s))" using cd pl r2 by auto
  from settle_ok[OF s1 i at fl ok2 run cd, of env is_prefill "reply @ [reply_of r2 t fs]"] obtain s' G live' where
    st: "settle env is_prefill i r2 (fst fs) (?s, reply @ [reply_of r2 t fs], F') = Some (s', reply @ [reply_of r2 t fs], G)" "drains ?s s'"
    "sched_inv {} W R M s' G fl fl' live'" by (elim exE conjE) (rule that, assumption+)
  have "drain_token env is_prefill i r t (s, reply, F') = Some (s', reply @ [reply_of r2 t fs], G)"
    unfolding drain_token_def prod.case ap Option.bind_lunit Let_def fs_def[symmetric] r2_def[symmetric] by (rule st(1))
  moreover have "drains s ?s" using r r2 by (simp add: drains_def lens_def)
  ultimately show ?thesis using st(2,3) drains_trans by blast
qed

lemma drain_one_ok:
  assumes s: "sched_inv {} W R M s F' (i # fl) fl' live"
  shows "\<exists>s' reply' G live'. drain_one env is_prefill i t (s, reply, F') = Some (s', reply', G) \<and> drains s s' \<and>
    sched_inv {} W R M s' G fl fl' live'"
proof -
  from sinv_pop[OF sinv_exempt[OF s]] have s1: "sched_inv {i} W R M s F' fl fl' live" and ni: "i \<notin> set fl" by auto
  from sinv_fly[OF s] obtain r where r: "req_at s i = Some r" "i \<in> set live \<or> \<not> rq_aborted r \<and> (rq_chunked r \<or> i \<in> sd_finished s)"
    by (auto simp: flying_def)
  have live: "obj_ok M (1 + unread fl fl' i) r" "placed (i # fl) fl' (sd_dm s) (pm_pending (sd_pm s)) i r" if "i \<in> set live"
    using sinv_store[OF s] sinv_placed[OF s] that r(1) ni by (auto simp: store_ok_def unread_def)
  have run: "\<not> rq_aborted r \<and> can_decode r" if "i \<in> set (dm_running (sd_dm s))" using sinv_run[OF s] that r(1) by (auto simp: run_ok_def)
  have chk: "rq_chunked r \<and> \<not> rq_aborted r" if "i \<in> set (chunk_ids (pm_pending (sd_pm s)))" using sinv_wait[OF s] that r(1) by (auto simp: wait_ok_def)
  have fly': "\<not> rq_aborted r" if "i \<in> set fl'" using sinv_fly[OF s] that r(1) by (auto simp: flying_def)
  have skip: "sched_inv {} W R M s F' fl fl' live" if "i \<notin> set live" by (rule sinv_dead[OF s1 that])
  consider (chunk_aborted) "rq_chunked r" "rq_aborted r" | (chunk) "rq_chunked r" "\<not> rq_aborted r"
    | (aborted) "\<not> rq_chunked r" "rq_aborted r" | (old) "\<not> rq_chunked r" "\<not> rq_aborted r" "i \<in> sd_finished s"
    | (token) "\<not> rq_chunked r" "\<not> rq_aborted r" "i \<notin> sd_finished s" by blast
  then show ?thesis
  proof cases
    case chunk_aborted
    with r(2) have i: "i \<in> set live" by blast
    have "rq_cached_len r \<le> length (rq_input_ids r)" using live(1)[OF i] chunk_aborted by (simp add: obj_ok_def)
    from free_step[OF s1 i r(1) this _ _ ni, of F' env] run chk fly' chunk_aborted obtain s' where
      "free_req_resources env i s = Some s'" "drains s s'" "sched_inv {} W R M s' F' fl fl' (removeAll i live)" by auto
    with r(1) chunk_aborted show ?thesis
      by (intro exI[of _ s'] exI[of _ reply] exI[of _ F'] exI[of _ "removeAll i live"]) (simp add: drain_one_def)
  next
    case chunk
    have "sched_inv {} W R M s F' fl fl' live"
    proof (cases "i \<in> set live")
      case True
      from sinv_close[OF s1] live[OF True] chunk r(1) show ?thesis by (simp add: obj_ok_def placed_def)
    qed (rule skip)
    with r(1) chunk show ?thesis by (intro exI[of _ s] exI[of _ reply] exI[of _ F'] exI[of _ live]) (simp add: drain_one_def)
  next
    case aborted
    with r(2) have i: "i \<in> set live" by blast
    let ?s = "sd_remove_running i s"
    have s2: "sched_inv {i} W R M ?s F' fl fl' live" using sinv_unrun[OF s1] by (simp add: sd_remove_running_def)
    have "rq_cached_len r \<le> length (rq_input_ids r)" using live(1)[OF i] aborted fly' ni by (auto simp: obj_ok_def unread_def split: if_splits)
    from free_step[OF s2 i _ this _ _ ni, of "insert i F'" env] r(1) chk aborted obtain s' where
      f: "free_req_resources env i ?s = Some s'" "drains ?s s'" "sched_inv {} W R M s' (insert i F') fl fl' (removeAll i live)"
      by (auto simp: sd_remove_running_def dm_remove_req_def)
    have "drains s ?s" by (auto simp: drains_def sd_remove_running_def dm_remove_req_def)
    then have "drains s s'" using f(2) drains_trans by blast
    with f r(1) aborted show ?thesis
      by (intro exI[of _ s'] exI[of _ reply] exI[of _ "insert i F'"] exI[of _ "removeAll i live"]) (simp add: drain_one_def)
  next
    case old
    then have "i \<notin> set live" using sinv_fly[OF s] by (auto simp: flying_def)
    with skip r(1) old show ?thesis by (intro exI[of _ s] exI[of _ reply] exI[of _ F'] exI[of _ live]) (simp add: drain_one_def)
  next
    case token
    with r(2) have i: "i \<in> set live" by blast
    have "can_decode r \<longrightarrow> i \<in> set (dm_running (sd_dm s))" using live(2)[OF i] token by (simp add: placed_def)
    from drain_token_ok[OF s1 i r(1) ni live(1)[OF i] token(1,2) this, of env is_prefill t reply] obtain s' m G live' where
      "drain_token env is_prefill i r t (s, reply, F') = Some (s', reply @ [m], G)" "drains s s'" "sched_inv {} W R M s' G fl fl' live'"
      by (elim exE conjE) (rule that, assumption+)
    with r(1) token show ?thesis
      by (intro exI[of _ s'] exI[of _ "reply @ [m]"] exI[of _ G] exI[of _ live']) (simp add: drain_one_def)
  qed
qed

lemma drain_all_ok:
  assumes "sched_inv {} W R M s F' (map fst its) fl' live"
  shows "\<exists>s' reply' G live'. drain_all env is_prefill its (s, reply, F') = Some (s', reply', G) \<and> drains s s' \<and>
    sched_inv {} W R M s' G [] fl' live'"
  using assms
proof (induction its arbitrary: s reply F' live)
  case Nil
  then show ?case by auto
next
  case (Cons it its)
  obtain i t where it: "it = (i, t)" by (cases it)
  with Cons.prems have "sched_inv {} W R M s F' (i # map fst its) fl' live" by simp
  from drain_one_ok[OF this, of env is_prefill t reply] obtain s1 reply1 F1 live1 where
    d: "drain_one env is_prefill i t (s, reply, F') = Some (s1, reply1, F1)" "drains s s1" "sched_inv {} W R M s1 F1 (map fst its) fl' live1" by blast
  from Cons.IH[OF d(3), of reply1] obtain s' reply' G live' where
    "drain_all env is_prefill its (s1, reply1, F1) = Some (s', reply', G)" "drains s1 s'" "sched_inv {} W R M s' G [] fl' live'" by blast
  with d it drains_trans[OF d(2)] show ?case by auto
qed

end
