(* ===== verification/SchedulerSteps.thy ===== *)
theory SchedulerSteps
  imports SchedulerLive
begin

text \<open>
  The invariant of \<^verbatim>\<open>scheduler/scheduler.py\<close> through a whole drain (\<open>process_last_data\<close>) and
  through the messages of clients: text prompts, aborts, and rebuild requests the server declines.
\<close>

section \<open>A whole drain\<close>

lemma sinv_same_cm:
  assumes s: "sinv X W R M w dm pend F F' fl fl' live"
    and cm: "cm_page_size cm = cm_page_size (w_cm w)" "cm_prefix cm = cm_prefix (w_cm w)" "cm_page_table cm = cm_page_table (w_cm w)"
      "cm_num_pages cm = cm_num_pages (w_cm w)" "cm_type cm = cm_type (w_cm w)" "cm_swa_pool cm = cm_swa_pool (w_cm w)"
      "cm_linear_pool cm = cm_linear_pool (w_cm w)" "frees cm = frees (w_cm w)"
  shows "sinv X W R M (w\<lparr>w_cm := cm\<rparr>) dm pend F F' fl fl' live"
proof (rule sinvI)
  have "cm_inv cm (objs w live)"
    using sinv_live[OF s] cm by (intro cm_inv_same[of "w_cm w" _ cm]) (simp_all add: live_ok_def)
  then show "store_ok X W R M (w\<lparr>w_cm := cm\<rparr>) live fl fl'"
    using sinv_store[OF s] cm by (simp add: store_ok_def dims_def live_ok_def shaped_def)
  show "wait_ok W M (w\<lparr>w_cm := cm\<rparr>) live pend" using sinv_wait[OF s] by (simp add: wait_ok_def waiting_ok_def pend_ok_def)
  show "run_ok (w\<lparr>w_cm := cm\<rparr>) live dm" using sinv_run[OF s] cm by (simp add: run_ok_def)
  show "placed fl fl' dm pend i (the (w_reqs (w\<lparr>w_cm := cm\<rparr>) i))" if "i \<in> set live - X" for i using sinv_placed[OF s] that by simp
  show "flying (w\<lparr>w_cm := cm\<rparr>) F F' fl fl' live" using sinv_fly[OF s] by (simp add: flying_def)
  show "funded (w\<lparr>w_cm := cm\<rparr>) dm pend live" using sinv_funded[OF s] cm by (simp add: funded_def run_need_def)
qed

lemma sinv_lazy:
  assumes "sinv X W R M w dm pend F F' fl fl' live"
  shows "cm_lazy (w_cm w) = None \<Longrightarrow> sinv X W R M (w\<lparr>w_cm := lazy_enter (w_cm w)\<rparr>) dm pend F F' fl fl' live"
    and "sinv X W R M (w\<lparr>w_cm := lazy_exit (w_cm w)\<rparr>) dm pend F F' fl fl' live"
  by (rule sinv_same_cm[OF assms]; simp add: lazy_enter_def lazy_exit_def frees_def split: option.split)+

text \<open>After the drain the batch in flight becomes the one to read, and the newly finished requests the finished ones.\<close>

lemma sinv_shift:
  assumes s: "sinv {} W R M w dm pend F G [] fl' live" and H: "G \<subseteq> H" "H \<subseteq> F \<union> G"
  shows "sinv {} W R M w dm pend H {} fl' [] live"
proof (rule sinvI)
  have "unread fl' [] = unread [] fl'" by (rule ext) (simp add: unread_def)
  then show "store_ok {} W R M w live fl' []" using sinv_store[OF s] by (simp add: store_ok_def)
  show "placed fl' [] dm pend i (the (w_reqs w i))" if "i \<in> set live - {}" for i
  proof -
    have "placed [] fl' dm pend i (the (w_reqs w i))" using sinv_placed[OF s] that by simp
    then show ?thesis by (auto simp: placed_def split: if_splits)
  qed
  show "flying w H {} fl' [] live"
    unfolding flying_def
  proof (intro conjI ballI)
    note fly = sinv_fly[OF s, unfolded flying_def]
    show "distinct fl'" "distinct []" "(H \<union> {}) \<inter> set live = {}" using fly H by auto
    show "w_reqs w i \<noteq> None" if "i \<in> H \<union> {}" for i using fly that H(2) by blast
    show "\<exists>r. w_reqs w i = Some r \<and> (i \<in> set live \<or> \<not> rq_aborted r \<and> (rq_chunked r \<or> i \<in> H))" if "i \<in> set fl'" for i
      using fly that H(1) by blast
  qed simp
qed (use s in \<open>simp_all add: sinv_def\<close>)

definition batch_of :: "forward_data option \<Rightarrow> nat list" where
  "batch_of d = (case d of None \<Rightarrow> [] | Some (fi, _) \<Rightarrow> b_reqs (fi_batch fi))"

definition answered :: "forward_data option \<Rightarrow> bool" where
  "answered d \<longleftrightarrow> (case d of None \<Rightarrow> True | Some (fi, tokens) \<Rightarrow> length tokens = length (b_reqs (fi_batch fi)))"

text \<open>What a drain of a whole batch leaves: the invariant, with the requests it finished as the finished set.\<close>

lemma process_last_ok:
  assumes s: "sched_inv {} W R M s {} (batch_of d) fl' live" and lz: "cm_lazy (w_cm (sd_w s)) = None" and an: "answered d"
  shows "\<exists>s' live'. process_last_data env d s = Some s' \<and> cm_lazy (w_cm (sd_w s')) = None \<and>
    sd_pm s' = sd_pm s \<and> sd_rebuild s' = sd_rebuild s \<and> sd_acks s' = sd_acks s \<and> sd_budget s' = sd_budget s \<and>
    dm_page_size (sd_dm s') = dm_page_size (sd_dm s) \<and> sd_last s' = sd_last s \<and>
    set (dm_running (sd_dm s')) \<subseteq> set (dm_running (sd_dm s)) \<and> (\<forall>j. lens (req_at s' j) = lens (req_at s j)) \<and>
    sched_inv {} W R M s' {} fl' [] live'"
proof (cases d)
  case None
  then have "sched_inv {} W R M s {} [] fl' live" using s by (simp add: batch_of_def)
  from sinv_shift[OF this, of "sd_finished s"] have "sched_inv {} W R M s {} fl' [] live" by simp
  with None lz show ?thesis by (auto simp: process_last_data_def)
next
  case (Some x)
  obtain fi tokens where x: "x = (fi, tokens)" by (cases x)
  let ?its = "zip (b_reqs (fi_batch fi)) tokens" and ?s0 = "sd_map_cm lazy_enter s"
  have "map fst ?its = batch_of d" using an Some x by (simp add: answered_def batch_of_def map_fst_zip)
  then have "sched_inv {} W R M ?s0 {} (map fst ?its) fl' live" using sinv_lazy(1)[OF s lz] by (simp add: sd_map_cm_def)
  from drain_all_ok[OF this, of env "b_prefill (fi_batch fi)" "[]"] obtain s1 reply G live' where
    d: "drain_all env (b_prefill (fi_batch fi)) ?its (?s0, [], {}) = Some (s1, reply, G)" "drains ?s0 s1"
    "sched_inv {} W R M s1 G [] fl' live'" by blast
  let ?s2 = "(sd_map_cm lazy_exit s1)\<lparr>sd_finished := G\<rparr>"
  have "sinv {} W R M ((sd_w s1)\<lparr>w_cm := lazy_exit (w_cm (sd_w s1))\<rparr>) (sd_dm s1) (pm_pending (sd_pm s1)) G {} fl' [] live'"
    by (rule sinv_shift[OF sinv_lazy(2)[OF d(3)]]) auto
  then have inv: "sched_inv {} W R M ?s2 {} fl' [] live'" by (simp add: sd_map_cm_def)
  have "generic (w_cm (sd_w ?s2))" using sinv_live[OF inv] cm_generic by (auto simp: live_ok_def)
  then have "mamba_slot_usage (w_cm (sd_w ?s2)) = Some None" "swa_token_usage (w_cm (sd_w ?s2)) = Some None"
    by (simp_all add: generic_def mamba_slot_usage_def swa_token_usage_def)
  then obtain ms where "process_last_data env d s = Some (send_result ms ?s2)"
    using d(1) Some x by (simp add: process_last_data_def Let_def)
  moreover have "cm_lazy (w_cm (sd_w (send_result ms ?s2))) = None" by (simp add: send_result_def sd_map_cm_def lazy_exit_def)
  moreover have "sched_inv {} W R M (send_result ms ?s2) {} fl' [] live'" using inv by (simp add: send_result_def)
  ultimately show ?thesis using drainsD[OF d(2)] by (auto simp: send_result_def sd_map_cm_def)
qed

section \<open>Messages\<close>

text \<open>Messages of text traffic: prompts with at least one token to read and one to generate, aborts, and rebuild
  requests that are answered without being queued.\<close>

fun msg_ok :: "env \<Rightarrow> backend_msg \<Rightarrow> bool" where
  "msg_ok env (BatchMsg ms) \<longleftrightarrow> (\<forall>m\<in>set ms. msg_ok env m)"
| "msg_ok env ExitMsg \<longleftrightarrow> False"
| "msg_ok env (User m) \<longleftrightarrow> um_input_ids m \<noteq> [] \<and> um_mm_items m = [] \<and> 1 \<le> smp_max_tokens (um_sampling m)"
| "msg_ok env (Abort uid) \<longleftrightarrow> True"
| "msg_ok env (CacheRebuild m) \<longleftrightarrow> \<not> en_supports_rebuild env \<or> rm_mode m \<noteq> ''if_idle'' \<or> en_tp_size env > 1"

lemma wait_need_nonneg:
  assumes "waiting_ok W w live pend"
  shows "0 \<le> wait_need ps (w_reqs w) pend"
proof -
  have "0 \<le> chunk_cost ps (w_reqs w) p i" if "p \<in> set pend" "pr_chunked p = Some i" for p i
  proof -
    have "rq_cached_len (the (w_reqs w i)) \<le> pr_input_len p + pr_output_len p"
      using assms that by (auto simp: waiting_ok_def pend_ok_def Let_def)
    then have "page_ceil ps (rq_cached_len (the (w_reqs w i))) \<le> page_ceil ps (pr_input_len p + pr_output_len p)" by (rule page_ceil_mono)
    then show ?thesis
      by (simp add: chunk_cost_def request_cost_def kv_reservation_size_def page_ceil_def flip: of_nat_mult left_diff_distrib) (simp add: left_diff_distrib flip: of_nat_mult)
  qed
  then show ?thesis unfolding wait_need_def by (intro sum_list_nonneg) (auto split: option.splits)
qed

lemma placed_mono: "(i \<in> set (chunk_ids pend) \<Longrightarrow> i \<in> set (chunk_ids pend')) \<Longrightarrow> placed fl fl' dm pend i r \<Longrightarrow> placed fl fl' dm pend' i r"
  by (auto simp: placed_def split: if_splits)

lemma process_user_ok:
  assumes s: "sched_inv {} W R (en_max_seq_len env) s {} fl fl' live" and m: "msg_ok env (User m)" and W: "en_max_seq_len env \<le> W"
  shows "sched_inv {} W R (en_max_seq_len env) (process_user env m s) {} fl fl' live"
proof -
  let ?n = "length (um_input_ids m)" and ?M = "en_max_seq_len env"
  let ?p = "\<lparr>pr_uid = um_uid m, pr_input_ids = um_input_ids m,
      pr_sampling = (um_sampling m)\<lparr>smp_max_tokens := min (smp_max_tokens (um_sampling m)) (?M - ?n)\<rparr>, pr_chunked = None,
      pr_mm_items = um_mm_items m, pr_mrope_full = um_mrope m, pr_mrope_delta = um_mrope_delta m\<rparr>"
  let ?pend = "pm_pending (sd_pm s)"
  consider (same) "sd_w (process_user env m s) = sd_w s" "sd_dm (process_user env m s) = sd_dm s" "sd_pm (process_user env m s) = sd_pm s"
      "sd_finished (process_user env m s) = sd_finished s"
    | (add) "?n < ?M" "process_user env m s = s\<lparr>sd_pm := pm_add_one_req ?p (sd_pm s)\<rparr>"
  proof (cases "um_uid m \<in> set (sd_tombstones s) \<or> ?M \<le> ?n")
    case True
    show ?thesis by (rule same; use True m in \<open>auto simp: process_user_def send_result_def\<close>)
  next
    case False
    show ?thesis by (rule add; use False m in \<open>simp add: process_user_def\<close>)
  qed
  then show ?thesis
  proof cases
    case same
    with s show ?thesis by simp
  next
    case add
    have p: "pend_ok W (sd_w s) live ?p" using add(1) m W by (simp add: pend_ok_def pr_input_len_def)
    have q: "prompt_ok ?M ?p" using add(1) m by (auto simp: prompt_ok_def pr_input_len_def pr_output_len_def min_def)
    have "sinv {} W R ?M (sd_w s) (sd_dm s) (?pend @ [?p]) (sd_finished s) {} fl fl' live"
    proof (rule sinvI)
      show "wait_ok W ?M (sd_w s) live (?pend @ [?p])"
        using sinv_wait[OF s] p q chunks_first_snoc[of ?pend ?p] by (simp add: wait_ok_def waiting_ok_def)
      show "placed fl fl' (sd_dm s) (?pend @ [?p]) i (the (req_at s i))" if "i \<in> set live - {}" for i
        by (rule placed_mono[where pend = "?pend"]) (use sinv_placed[OF s] that in auto)
      show "funded (sd_w s) (sd_dm s) (?pend @ [?p]) live"
        using sinv_funded[OF s] by (simp add: funded_def wait_need_append wait_need_fresh)
    qed (use s in \<open>simp_all add: sinv_def\<close>)
    then show ?thesis unfolding add(2) by (simp add: pm_add_one_req_def)
  qed
qed

text \<open>An abort takes at most one request out of the waiting list or the running set.\<close>

lemma abort_pending_split:
  "abort_pending uid ps = (qs, c) \<Longrightarrow> (qs = ps \<and> c = None) \<or> (\<exists>xs p ys. ps = xs @ p # ys \<and> qs = xs @ ys \<and> c = pr_chunked p)"
proof (induction ps arbitrary: qs)
  case (Cons p ps)
  show ?case
  proof (cases "pr_uid p = uid")
    case True
    with Cons.prems show ?thesis by (intro disjI2 exI[of _ "[]"] exI[of _ p] exI[of _ ps]) simp
  next
    case False
    then obtain rs where rs: "abort_pending uid ps = (rs, c)" "qs = p # rs" using Cons.prems by (auto simp: Let_def split: prod.splits)
    from Cons.IH[OF rs(1)] show ?thesis
    proof
      assume "\<exists>xs q ys. ps = xs @ q # ys \<and> rs = xs @ ys \<and> c = pr_chunked q"
      then obtain xs q ys where "ps = xs @ q # ys" "rs = xs @ ys" "c = pr_chunked q" by blast
      with rs(2) show ?thesis by (intro disjI2 exI[of _ "p # xs"] exI[of _ q] exI[of _ ys]) simp
    qed (use rs in simp)
  qed
qed simp

lemma chunks_first_remove: "chunks_first (xs @ p # ys) \<Longrightarrow> chunks_first (xs @ ys)"
proof (induction xs)
  case Nil
  then show ?case using chunks_first_drop[of "p # ys" 1] by simp
qed (auto split: if_splits)

lemma sinv_unwait:
  assumes s: "sinv {} W R M w dm (xs @ p # ys) F F' fl fl' live"
  shows "sinv (set_option (pr_chunked p)) W R M w dm (xs @ ys) F F' fl fl' live"
proof (rule sinvI)
  note wt = sinv_wait[OF s, unfolded wait_ok_def waiting_ok_def]
  show "store_ok (set_option (pr_chunked p)) W R M w live fl fl'" using sinv_store[OF s] by (simp add: store_ok_def)
  show "wait_ok W M w live (xs @ ys)"
    using wt chunks_first_remove[of xs p ys] by (auto simp: wait_ok_def waiting_ok_def)
  show "placed fl fl' dm (xs @ ys) i (the (w_reqs w i))" if "i \<in> set live - set_option (pr_chunked p)" for i
  proof -
    have "placed fl fl' dm (xs @ p # ys) i (the (w_reqs w i))" using sinv_placed[OF s] that by simp
    moreover have "i \<in> set (chunk_ids (xs @ ys))" if "i \<in> set (chunk_ids (xs @ p # ys))"
      using that \<open>i \<in> set live - set_option (pr_chunked p)\<close> by (auto split: option.splits)
    ultimately show ?thesis by (rule placed_mono[rotated])
  qed
  have "0 \<le> wait_need (cm_page_size (w_cm w)) (w_reqs w) [p]"
    using wt by (intro wait_need_nonneg[of W w live]) (simp add: waiting_ok_def split: option.splits)
  then have "wait_need (cm_page_size (w_cm w)) (w_reqs w) (xs @ ys) \<le> wait_need (cm_page_size (w_cm w)) (w_reqs w) (xs @ p # ys)"
    by (simp add: wait_need_append wait_need_Cons) (simp add: wait_need_def)
  then show "funded w dm (xs @ ys) live" using sinv_funded[OF s] by (simp add: funded_def)
qed (use s in \<open>simp_all add: sinv_def\<close>)

text \<open>What a message leaves alone.\<close>

definition keeps :: "sched \<Rightarrow> sched \<Rightarrow> bool" where
  "keeps s s' \<longleftrightarrow> sd_finished s' = sd_finished s \<and> sd_last s' = sd_last s \<and> sd_rebuild s' = sd_rebuild s \<and>
     sd_budget s' = sd_budget s \<and> kin (sd_w s) (sd_w s')"

lemma keeps_refl [simp]: "keeps s s"
  by (simp add: keeps_def kin_def)

lemma keeps_trans: "keeps a b \<Longrightarrow> keeps b c \<Longrightarrow> keeps a c"
  using kin_trans by (auto simp: keeps_def)

lemma in_flight_batch: "in_flight s i \<longleftrightarrow> i \<in> set (batch_of (sd_last s))"
  by (simp add: in_flight_def batch_of_def split: option.splits prod.splits)

lemma drop_aborted_ok:
  assumes s: "sched_inv {i} W R M s {} fl [] live" and fl: "fl = batch_of (sd_last s)" and i: "i \<in> set live" and r: "req_at s i = Some r"
    and ok: "obj_ok M (unread fl [] i) r" and out: "i \<notin> set (dm_running (sd_dm s))" "i \<notin> set (chunk_ids (pm_pending (sd_pm s)))"
  shows "\<exists>s' live'. drop_aborted env uid i s = Some s' \<and> keeps s s' \<and> sched_inv {} W R M s' {} fl [] live'"
proof -
  have mm: "s\<lparr>sd_w := release_items uid (rq_mm_items r) (sd_w s)\<rparr> = s" using ok by (simp add: obj_ok_def release_items_def)
  show ?thesis
  proof (cases "in_flight s i")
    case True
    let ?r = "r\<lparr>rq_aborted := True\<rparr>"
    let ?s = "s\<lparr>sd_w := put_req i ?r (sd_w s)\<rparr>"
    have ss: "same_seat r ?r" by (simp add: same_seat_def)
    have "sched_inv {i} W R M ?s {} fl [] live" by (rule sinv_put[OF s i r ss]) (use out in simp_all)
    then have "sched_inv {} W R M ?s {} fl [] live"
    proof (rule sinv_close)
      have "obj_ok M k ?r = obj_ok M k r" for k by (simp add: obj_ok_def)
      then show "obj_ok M (unread fl [] i) (the (w_reqs (sd_w ?s) i))" using ok by simp
      show "placed fl [] (sd_dm ?s) (pm_pending (sd_pm ?s)) i (the (w_reqs (sd_w ?s) i))" using True fl by (simp add: placed_def in_flight_batch)
    qed
    moreover have "drop_aborted env uid i s = Some ?s"
      unfolding drop_aborted_def r Option.bind_lunit Let_def mm using True by simp
    moreover have "keeps s ?s" by (simp add: keeps_def kin_def)
    ultimately show ?thesis by blast
  next
    case False
    then have nf: "i \<notin> set fl" using fl by (simp add: in_flight_batch)
    have "rq_cached_len r \<le> length (rq_input_ids r)" using ok nf by (auto simp: obj_ok_def unread_def split: if_splits)
    from free_step[OF s i r this out nf, of "{}" env] obtain s' where f: "free_req_resources env i s = Some s'" "drains s s'"
      "kin (sd_w s) (sd_w s')" "sched_inv {} W R M s' {} fl [] (removeAll i live)" by auto
    have "drop_aborted env uid i s = Some s'"
      unfolding drop_aborted_def r Option.bind_lunit Let_def mm using False f(1) by simp
    moreover have "keeps s s'" using drainsD[OF f(2)] f(3) by (simp add: keeps_def)
    ultimately show ?thesis using f(4) by blast
  qed
qed

lemma process_abort_ok:
  assumes s: "sched_inv {} W R M s {} fl [] live" and fl: "fl = batch_of (sd_last s)"
  shows "\<exists>s' live'. process_abort env uid s = Some s' \<and> keeps s s' \<and> sched_inv {} W R M s' {} fl [] live'"
proof -
  let ?s1 = "s\<lparr>sd_tombstones := add_tombstone uid (sd_tombstones s)\<rparr>"
  obtain qs c where q: "abort_pending uid (pm_pending (sd_pm s)) = (qs, c)" by fastforce
  let ?s2 = "?s1\<lparr>sd_pm := (sd_pm s)\<lparr>pm_pending := qs\<rparr>\<rparr>"
  have pm: "pm_abort_req uid (sd_pm ?s1) = ((sd_pm s)\<lparr>pm_pending := qs\<rparr>, c)" using q by (simp add: pm_abort_req_def)
  have s2: "sched_inv (set_option c) W R M ?s2 {} fl [] live"
    using abort_pending_split[OF q] s sinv_unwait by fastforce
  obtain dm d where d: "(case c of Some i \<Rightarrow> (sd_dm ?s2, Some i) | None \<Rightarrow> dm_abort_req (w_reqs (sd_w ?s2)) uid (sd_dm ?s2)) = (dm, d)" by fastforce
  let ?s3 = "?s2\<lparr>sd_dm := dm\<rparr>"
  have k3: "keeps s ?s3" by (simp add: keeps_def kin_def)
  have body: "process_abort env uid s = Option.bind (case d of None \<Rightarrow> Some ?s3 | Some i \<Rightarrow> drop_aborted env uid i ?s3)
      (\<lambda>s. Some (s\<lparr>sd_acks := insert uid (sd_acks s)\<rparr>))"
    unfolding process_abort_def Let_def pm prod.case using d by simp
  show ?thesis
  proof (cases d)
    case None
    then have "c = None" "dm = sd_dm s" using d by (auto simp: dm_abort_req_def split: option.splits)
    then have "sched_inv {} W R M ?s3 {} fl [] live" using s2 by simp
    then show ?thesis using body None k3 by (auto simp: keeps_def)
  next
    case (Some i)
    have "sched_inv {i} W R M ?s3 {} fl [] live \<and> i \<in> set live \<and> i \<notin> set (dm_running dm) \<and> i \<notin> set (chunk_ids qs)"
    proof (cases c)
      case None
      with d Some have f: "find (req_ok (\<lambda>r. rq_uid r = uid) (w_reqs (sd_w s))) (dm_running (sd_dm s)) = Some i" "dm = dm_remove_req i (sd_dm s)"
        by (auto simp: dm_abort_req_def split: option.splits)
      then have i: "i \<in> set (dm_running (sd_dm s))" by (auto simp: find_Some_iff)
      have s2': "sched_inv {} W R M ?s2 {} fl [] live" using s2 None by simp
      have "can_decode (the (req_at s i))" "i \<in> set live" using sinv_run[OF s] i by (auto simp: run_ok_def)
      moreover have "i \<notin> set (chunk_ids qs)" using sinv_wait[OF s2'] calculation(1) by (auto simp: wait_ok_def can_decode_def)
      ultimately show ?thesis using sinv_unrun[OF sinv_exempt[OF s2'], of i] f(2) by (simp add: dm_remove_req_def)
    next
      case (Some j)
      with d \<open>d = Some i\<close> have ji: "j = i" "dm = sd_dm s" by auto
      from abort_pending_split[OF q] Some ji obtain xs p ys where p: "pm_pending (sd_pm s) = xs @ p # ys" "qs = xs @ ys" "pr_chunked p = Some i" by auto
      have w: "waiting_ok W (sd_w s) live (pm_pending (sd_pm s))" "rq_chunked (the (req_at s i))" using sinv_wait[OF s] p by (auto simp: wait_ok_def)
      then have "i \<in> set live" "i \<notin> set (chunk_ids qs)" using p by (auto simp: waiting_ok_def pend_ok_def)
      moreover have "i \<notin> set (dm_running (sd_dm s))" using sinv_run[OF s] w(2) by (auto simp: run_ok_def can_decode_def)
      ultimately show ?thesis using s2 Some ji by simp
    qed
    then have s3: "sched_inv {i} W R M ?s3 {} fl [] live" and i: "i \<in> set live" "i \<notin> set (dm_running (sd_dm ?s3))"
      "i \<notin> set (chunk_ids (pm_pending (sd_pm ?s3)))" by simp_all
    from sinv_live[OF s] i(1) obtain r where r: "req_at ?s3 i = Some r" by (auto simp: live_ok_def)
    have "obj_ok M (unread fl [] i) r" using sinv_store[OF s] i(1) r by (auto simp: store_ok_def dest: bspec)
    from drop_aborted_ok[OF s3 _ i(1) r this i(2,3), of env uid] fl obtain s' live' where
      f: "drop_aborted env uid i ?s3 = Some s'" "keeps ?s3 s'" "sched_inv {} W R M s' {} fl [] live'" by auto
    have "keeps s (s'\<lparr>sd_acks := insert uid (sd_acks s')\<rparr>)" using keeps_trans[OF k3 f(2)] by (simp add: keeps_def)
    then show ?thesis using body Some f by auto
  qed
qed

text \<open>One message, and then a list of them, from any state between two forwards.\<close>

definition resting :: "env \<Rightarrow> nat \<Rightarrow> nat \<times> nat \<times> nat \<Rightarrow> sched \<Rightarrow> nat list \<Rightarrow> bool" where
  "resting env W R s live \<longleftrightarrow> sched_inv {} W R (en_max_seq_len env) s {} (batch_of (sd_last s)) [] live"

definition msg_safe :: "env \<Rightarrow> nat \<Rightarrow> nat \<times> nat \<times> nat \<Rightarrow> backend_msg \<Rightarrow> bool" where
  "msg_safe env W R m \<longleftrightarrow> (\<forall>s live. resting env W R s live \<longrightarrow>
     (\<exists>s' live'. process_one_msg env m s = Some s' \<and> keeps s s' \<and> resting env W R s' live'))"

lemma msg_safeI:
  "(\<And>s live. resting env W R s live \<Longrightarrow> \<exists>s' live'. process_one_msg env m s = Some s' \<and> keeps s s' \<and> resting env W R s' live') \<Longrightarrow>
    msg_safe env W R m"
  by (simp add: msg_safe_def)

lemma msgs_safe:
  assumes "\<forall>m\<in>set ms. msg_safe env W R m" "resting env W R s live"
  shows "\<exists>s' live'. process_msgs env ms s = Some s' \<and> keeps s s' \<and> resting env W R s' live'"
  using assms
proof (induction ms arbitrary: s live)
  case Nil
  then show ?case by auto
next
  case (Cons m ms)
  have "msg_safe env W R m" using Cons.prems(1) by simp
  with Cons.prems(2) obtain s1 live1 where 1: "process_one_msg env m s = Some s1" "keeps s s1" "resting env W R s1 live1"
    unfolding msg_safe_def by blast
  have "\<forall>m\<in>set ms. msg_safe env W R m" using Cons.prems(1) by simp
  from Cons.IH[OF this 1(3)] obtain s2 live2 where "process_msgs env ms s1 = Some s2" "keeps s1 s2" "resting env W R s2 live2" by blast
  moreover have "process_msgs env (m # ms) s = Some s2" using 1(1) calculation(1) by simp
  ultimately show ?case using keeps_trans[OF 1(2)] by blast
qed

lemma process_user_keeps: "keeps s (process_user env m s)"
  by (simp add: process_user_def send_result_def Let_def keeps_def kin_def)

lemma process_rebuild_declined:
  "msg_ok env (CacheRebuild m) \<Longrightarrow> \<exists>ms. process_rebuild env m s = send_result ms s"
  by (auto simp: process_rebuild_def reply_rebuild_def)

lemma msg_safe_ok: "msg_ok env m \<Longrightarrow> en_max_seq_len env \<le> W \<Longrightarrow> msg_safe env W R m"
proof (induction m)
  case (BatchMsg ms)
  then have all: "\<forall>m\<in>set ms. msg_safe env W R m" by simp
  show ?case by (rule msg_safeI, subst process_one_msg.simps) (rule msgs_safe[OF all])
next
  case (User m)
  show ?case
  proof (rule msg_safeI)
    fix s live assume s: "resting env W R s live"
    have "sd_last (process_user env m s) = sd_last s" using process_user_keeps[of s env m] by (simp add: keeps_def)
    then have "resting env W R (process_user env m s) live"
      using process_user_ok[OF s[unfolded resting_def] User] by (simp add: resting_def)
    then show "\<exists>s' live'. process_one_msg env (User m) s = Some s' \<and> keeps s s' \<and> resting env W R s' live'"
      using process_user_keeps by auto
  qed
next
  case (Abort uid)
  show ?case
  proof (rule msg_safeI)
    fix s live assume s: "resting env W R s live"
    from process_abort_ok[OF s[unfolded resting_def] refl, of env uid] obtain s' live' where a: "process_abort env uid s = Some s'" "keeps s s'"
      "sched_inv {} W R (en_max_seq_len env) s' {} (batch_of (sd_last s)) [] live'" by blast
    moreover have "sd_last s' = sd_last s" using a(2) by (simp add: keeps_def)
    ultimately have "resting env W R s' live'" by (simp add: resting_def)
    with a show "\<exists>s' live'. process_one_msg env (Abort uid) s = Some s' \<and> keeps s s' \<and> resting env W R s' live'" by auto
  qed
next
  case (CacheRebuild m)
  show ?case
  proof (rule msg_safeI)
    fix s live assume s: "resting env W R s live"
    from process_rebuild_declined[OF CacheRebuild(1)] obtain ms where p: "process_rebuild env m s = send_result ms s" by blast
    have "resting env W R (send_result ms s) live" using s by (simp add: resting_def send_result_def)
    moreover have "keeps s (send_result ms s)" by (simp add: keeps_def kin_def send_result_def)
    ultimately show "\<exists>s' live'. process_one_msg env (CacheRebuild m) s = Some s' \<and> keeps s s' \<and> resting env W R s' live'"
      using p by auto
  qed
qed simp

end
