(* ===== verification/SchedulerLaunch.thy ===== *)
theory SchedulerLaunch
  imports SchedulerSteps
begin

text \<open>
  Launching a batch (\<open>_prepare_batch\<close>, \<open>_restore_linear_states\<close> and \<open>_forward\<close> of
  \<^verbatim>\<open>scheduler/scheduler.py\<close>) from the invariant: the pages of the batch can be allocated, every
  tensor index is in range, and the requests of the batch move one step on.
\<close>

section \<open>The objects of a batch\<close>

lemma get_reqs_ok: "\<forall>i\<in>set B. w_reqs w i \<noteq> None \<Longrightarrow> get_reqs B w = Some (objs w B)"
proof -
  assume a: "\<forall>i\<in>set B. w_reqs w i \<noteq> None"
  have "option_list (map f is) = Some (map (\<lambda>i. the (f i)) is)" if "\<forall>i\<in>set is. f i \<noteq> None" for f :: "nat \<Rightarrow> req option" and "is"
    using that by (induction "is") auto
  with a show ?thesis by (simp add: get_reqs_def)
qed

lemma put_reqs_fields [simp]: "w_cm (put_reqs is rs w) = w_cm w" "w_tm (put_reqs is rs w) = w_tm w"
  "w_ec (put_reqs is rs w) = w_ec w" "w_next (put_reqs is rs w) = w_next w"
  by (induction "is" rs w rule: put_reqs.induct) simp_all

lemma put_reqs_map: "distinct B \<Longrightarrow> w_reqs (put_reqs B (map f B) w) i = (if i \<in> set B then Some (f i) else w_reqs w i)"
  by (induction B arbitrary: w) auto

section \<open>Tensor indices\<close>

text \<open>A cell of a table with \<open>R\<close> rows of width \<open>W\<close>; a column may count from the end.\<close>

definition cell_in :: "nat \<Rightarrow> nat \<Rightarrow> int \<times> int \<Rightarrow> bool" where
  "cell_in R W c \<longleftrightarrow> 0 \<le> fst c \<and> fst c < int R \<and> - int W \<le> snd c \<and> snd c < int W"

definition table_of :: "nat \<Rightarrow> nat \<Rightarrow> int list list \<Rightarrow> bool" where
  "table_of R W t \<longleftrightarrow> length t = R \<and> (\<forall>row\<in>set t. length row = W)"

lemma cell_index:
  assumes "cell_in R W c" "table_of R W t"
  shows "\<exists>i j. tensor_index (length t) (fst c) = Some i \<and> i < length t \<and> tensor_index (length (t ! i)) (snd c) = Some j \<and> j < length (t ! i)"
proof -
  let ?i = "nat (fst c)"
  have i: "?i < length t" "tensor_index (length t) (fst c) = Some ?i" using assms by (auto simp: cell_in_def table_of_def tensor_index_def)
  have "length (t ! ?i) = W" using assms(2) i(1) by (simp add: table_of_def)
  then have "\<exists>j. tensor_index (length (t ! ?i)) (snd c) = Some j \<and> j < length (t ! ?i)"
    using assms(1) by (auto simp: cell_in_def tensor_index_def)
  with i show ?thesis by blast
qed

lemma gather2_ok:
  assumes "\<forall>c\<in>set (zip (fst idx) (snd idx)). cell_in R W c" "table_of R W t"
  shows "\<exists>vs. gather2 t idx = Some vs"
proof -
  have "cell_at t c \<noteq> None" if "c \<in> set (zip (fst idx) (snd idx))" for c
    using cell_index[of R W c t] assms that by (fastforce simp: cell_at_def)
  moreover have "option_list (map (cell_at t) cs) \<noteq> None" if "\<forall>c\<in>set cs. cell_at t c \<noteq> None" for cs
    using that by (induction cs) auto
  ultimately show ?thesis by (auto simp: gather2_def)
qed

lemma scatter2_ok:
  assumes "\<forall>c\<in>set cs. cell_in R W c" "table_of R W t"
  shows "\<exists>t'. scatter2 cs vs t = Some t' \<and> table_of R W t'"
  using assms
proof (induction cs vs t rule: scatter2.induct)
  case (1 r c cs v vs t)
  from cell_index[of R W "(r, c)" t] 1(2,3) obtain i j where ij: "tensor_index (length t) r = Some i" "i < length t"
    "tensor_index (length (t ! i)) c = Some j" by auto
  have "table_of R W (t[i := (t ! i)[j := v]])" using 1(3) ij(2) by (auto simp: table_of_def set_update_distinct dest!: set_update_subset_insert[THEN subsetD])
  from 1(1)[OF ij(1,3) _ this] 1(2) ij show ?case by simp
qed auto

lemma input_cells:
  "(ti, pos) \<in> set (zip (fst (make_input_tuple rs)) (snd (make_input_tuple rs))) \<Longrightarrow>
    \<exists>r\<in>set rs. ti = rq_table_idx r \<and> int (rq_cached_len r) \<le> pos \<and> pos < int (rq_device_len r)"
proof (induction rs)
  case (Cons r rs)
  have "length (replicate (extend_len r) (rq_table_idx r)) = length (map int [rq_cached_len r..<rq_device_len r])"
    by (simp add: extend_len_def)
  with Cons.prems have "(ti, pos) \<in> set (zip (replicate (extend_len r) (rq_table_idx r)) (map int [rq_cached_len r..<rq_device_len r])) \<or>
      (ti, pos) \<in> set (zip (fst (make_input_tuple rs)) (snd (make_input_tuple rs)))"
    by (simp add: make_input_tuple_def make_positions_def zip_append)
  then show ?case
  proof
    assume "(ti, pos) \<in> set (zip (replicate (extend_len r) (rq_table_idx r)) (map int [rq_cached_len r..<rq_device_len r]))"
    from set_zip_leftD[OF this] set_zip_rightD[OF this] show ?thesis by (auto split: if_splits)
  qed (use Cons.IH in auto)
qed (simp add: make_input_tuple_def make_positions_def)

lemma write_cells_of:
  "(ti, pos) \<in> set (zip (fst (make_write_tuple rs)) (snd (make_write_tuple rs))) \<Longrightarrow>
    \<exists>r\<in>set rs. ti = rq_table_idx r \<and> pos = (if can_decode r then int (rq_device_len r) else -1)"
  by (auto simp: make_write_tuple_def zip_map_map zip_same_conv_map)

section \<open>Text batches\<close>

lemma text_plan: "\<forall>r\<in>set rs. rq_mm_items r = [] \<Longrightarrow> plan_mm_batch rs f = ([], [], [], [])"
proof -
  assume "\<forall>r\<in>set rs. rq_mm_items r = []"
  then have "plan_reqs f n rs off [] = ([], [], [], [])" for n off by (induction rs arbitrary: off) auto
  then show ?thesis by (simp add: plan_mm_batch_def)
qed

lemma text_gather: "\<forall>r\<in>set rs. rq_mm_items r = [] \<Longrightarrow> \<exists>b. gather_multimodal env rs s = (s\<lparr>sd_warned_cut := b\<rparr>, [], [], [], [])"
  using text_plan[of rs] by (auto simp: gather_multimodal_def Let_def intro: exI[of _ "sd_warned_cut s"])

section \<open>Running a batch\<close>

text \<open>What the server is configured with: rows wide enough for the longest sequence, and a padding request inside the tables.\<close>

definition env_ok :: "env \<Rightarrow> nat \<Rightarrow> nat \<Rightarrow> nat \<Rightarrow> bool" where
  "env_ok env W R ps \<longleftrightarrow> page_ceil ps (en_max_seq_len env) \<le> W \<and> rq_mm_items (en_dummy env) = [] \<and>
     0 \<le> rq_table_idx (en_dummy env) \<and> rq_table_idx (en_dummy env) < int R \<and> rq_device_len (en_dummy env) \<le> W"

text \<open>A batch that may run: text requests with something to compute, inside their rows, and pages enough for all of them.\<close>

definition ready :: "nat \<Rightarrow> world \<Rightarrow> nat list \<Rightarrow> nat list \<Rightarrow> bool" where
  "ready W w live B \<longleftrightarrow> distinct B \<and> set B \<subseteq> set live \<and>
     (\<forall>i\<in>set B. rq_mm_items (the (w_reqs w i)) = [] \<and> rq_cached_len (the (w_reqs w i)) < rq_device_len (the (w_reqs w i)) \<and>
        page_ceil (cm_page_size (w_cm w)) (rq_device_len (the (w_reqs w i))) \<le> W) \<and>
     int (sum_list (map (fill_len (cm_page_size (w_cm w))) (objs w B))) \<le> pool_room w live"

text \<open>The step of one request: a decode batch also counts itself.\<close>

definition bump :: "bool \<Rightarrow> req \<Rightarrow> req" where
  "bump prefill r = (if prefill then r else r\<lparr>rq_decode_batch := rq_decode_batch r + 1\<rparr>)"

lemma bump_fields [simp]: "rq_input_ids (bump p r) = rq_input_ids r" "rq_table_idx (bump p r) = rq_table_idx r"
  "rq_cached_len (bump p r) = rq_cached_len r" "rq_device_len (bump p r) = rq_device_len r" "rq_max_device_len (bump p r) = rq_max_device_len r"
  "rq_handle (bump p r) = rq_handle r" "rq_mm_items (bump p r) = rq_mm_items r" "rq_aborted (bump p r) = rq_aborted r"
  "rq_chunked (bump p r) = rq_chunked r"
  by (simp_all add: bump_def)

definition stepped :: "bool \<Rightarrow> nat list \<Rightarrow> world \<Rightarrow> world \<Rightarrow> bool" where
  "stepped prefill B w w' \<longleftrightarrow> (\<forall>i. w_reqs w' i = (if i \<in> set B then Some (complete_one (bump prefill (the (w_reqs w i)))) else w_reqs w i))"

lemma cm_inv_bump:
  assumes "cm_inv cm (rs @ qs)" shows "cm_inv cm (map (bump p) rs @ qs)"
proof -
  have "own_slice cm (bump p r) = own_slice cm r" "req_fits cm (bump p r) = req_fits cm r" for r
    by (simp_all add: own_slice_def req_fits_def)
  moreover have "own_sum cm (map (bump p) rs @ qs) = own_sum cm (rs @ qs)" using calculation by (simp add: own_sum_def comp_def)
  ultimately show ?thesis using assms by (simp add: cm_inv_def comp_def image_image ball_Un)
qed

lemma live_batch:
  assumes live: "live_ok W w live" and B: "distinct B" "set B \<subseteq> set live"
  shows "mset (objs w live) = mset (objs w B @ objs w (filter (\<lambda>i. i \<notin> set B) live)) \<and>
    cm_inv (w_cm w) (objs w B @ objs w (filter (\<lambda>i. i \<notin> set B) live))"
proof -
  have "mset live = mset (B @ filter (\<lambda>i. i \<notin> set B) live)"
    using live B by (intro set_eq_iff_mset_eq_distinct[THEN iffD1]) (auto simp: live_ok_def)
  then have "mset (objs w live) = mset (map (\<lambda>i. the (w_reqs w i)) (B @ filter (\<lambda>i. i \<notin> set B) live))"
    unfolding mset_map by simp
  then have m: "mset (objs w live) = mset (objs w B @ objs w (filter (\<lambda>i. i \<notin> set B) live))" by simp
  moreover have "cm_inv (w_cm w) (objs w live)" using live by (simp add: live_ok_def)
  ultimately show ?thesis using cm_inv_perm[OF _ m[symmetric]] by blast
qed

text \<open>Allocation for a ready batch, and the world once every request of it completed.\<close>

lemma batch_alloc:
  assumes live: "live_ok W w live" and rd: "ready W w live B" and lz: "cm_lazy (w_cm w) = None"
  shows "\<exists>cm. allocate_paged (map (bump p) (objs w B)) (w_cm w) = Some cm \<and> generic cm \<and> kin w (w\<lparr>w_cm := cm\<rparr>) \<and>
    (\<forall>w'. w_cm w' = cm \<longrightarrow> rows_ok (w_tm w') (objs w live) \<longrightarrow> shaped W cm (w_tm w') \<longrightarrow> stepped p B w w' \<longrightarrow> w_next w' = w_next w \<longrightarrow>
       live_ok W w' live \<and> pool_room w' live = pool_room w live - int (sum_list (map (fill_len (cm_page_size (w_cm w))) (objs w B)))) \<and>
    widths (cm_page_table cm) = widths (cm_page_table (w_cm w))"
proof -
  let ?cm = "w_cm w" and ?ps = "cm_page_size (w_cm w)" and ?rest = "filter (\<lambda>i. i \<notin> set B) live"
  let ?rs = "map (bump p) (objs w B)" and ?qs = "objs w ?rest"
  have B: "distinct B" "set B \<subseteq> set live" using rd by (simp_all add: ready_def)
  note lb = live_batch[OF live B]
  have inv: "cm_inv ?cm (?rs @ ?qs)" by (rule cm_inv_bump) (use lb in blast)
  have fl: "map (fill_len ?ps) ?rs = map (fill_len ?ps) (objs w B)" by (simp add: fill_len_def)
  have rm: "room n ps (?rs @ ?qs) = room n ps (objs w live)" for n ps
  proof -
    have "room n ps (?rs @ ?qs) = room n ps (objs w B @ ?qs)" by (simp add: room_def held_len_def image_Un image_image comp_def)
    also have "\<dots> = room n ps (objs w live)" using lb by (intro room_perm) simp
    finally show ?thesis .
  qed
  have at: "r \<in> set ?rs \<Longrightarrow> \<exists>i\<in>set B. r = bump p (the (w_reqs w i))" for r by auto
  have sf: "\<forall>r\<in>set ?rs. span_fits ?ps (cm_page_table ?cm) r"
  proof
    fix r assume r: "r \<in> set ?rs"
    then have "req_fits ?cm r" using cm_fits[OF inv, of r] by simp
    then have t: "0 \<le> rq_table_idx r" "nat (rq_table_idx r) < length (cm_page_table ?cm)" by (simp_all add: req_fits_def)
    then have "length (cm_page_table ?cm ! nat (rq_table_idx r)) = W" using live by (simp add: live_ok_def shaped_def)
    moreover from at[OF r] rd have "rq_cached_len r < rq_device_len r" "page_ceil ?ps (rq_device_len r) \<le> W" by (auto simp: ready_def)
    ultimately show "span_fits ?ps (cm_page_table ?cm) r" using t by (simp add: span_fits_def)
  qed
  have "int (needed_pages ?ps ?rs * ?ps) \<le> available_size ?cm"
    using rd available_room[OF inv lz] rm unfolding needed_fill fl by (simp add: ready_def)
  from allocate_ok[OF inv lz sf, unfolded if_P[OF this]] obtain cm where a: "allocate_paged ?rs ?cm = Some cm"
    "cm_inv cm (map complete_one ?rs @ ?qs)" "cm_lazy cm = None" "cm_page_size cm = ?ps" "cm_num_pages cm = cm_num_pages ?cm"
    "cm_linear_pool cm = cm_linear_pool ?cm" by blast
  have wd: "widths (cm_page_table cm) = widths (cm_page_table ?cm)" by (rule allocate_paged_widths[OF cm_generic[OF inv] a(1)])
  have k: "kin w (w\<lparr>w_cm := cm\<rparr>)" using a lz wd by (simp add: kin_def) (metis length_map)
  have "live_ok W w' live \<and> pool_room w' live = pool_room w live - int (sum_list (map (fill_len ?ps) (objs w B)))"
    if w': "w_cm w' = cm" "rows_ok (w_tm w') (objs w live)" "shaped W cm (w_tm w')" "stepped p B w w'" "w_next w' = w_next w" for w'
  proof -
    have o1: "objs w' B = map complete_one ?rs" using w'(4) by (simp add: stepped_def)
    have o2: "objs w' ?rest = ?qs" using w'(4) by (simp add: stepped_def)
    have "mset live = mset (B @ ?rest)"
      using live B by (intro set_eq_iff_mset_eq_distinct[THEN iffD1]) (auto simp: live_ok_def)
    then have "mset (objs w' live) = mset (map (\<lambda>i. the (w_reqs w' i)) (B @ ?rest))" unfolding mset_map by simp
    then have o: "mset (objs w' live) = mset (map complete_one ?rs @ ?qs)" unfolding map_append o1 o2 .
    have inv': "cm_inv cm (objs w' live)" by (rule cm_inv_perm[OF a(2) o])
    have "map rq_table_idx (objs w' live) = map rq_table_idx (objs w live)" using w'(4) by (simp add: stepped_def)
    then have "rows_ok (w_tm w') (objs w' live)" using w'(2) unfolding rows_ok_def by (simp only:)
    moreover have "\<forall>i\<in>set live. w_reqs w' i \<noteq> None" using live w'(4) by (simp add: live_ok_def stepped_def)
    moreover have "\<forall>i. w_reqs w' i \<noteq> None \<longrightarrow> i < w_next w'" using live w'(4,5) B(2) by (auto simp: live_ok_def stepped_def split: if_splits)
    ultimately have L: "live_ok W w' live" using live inv' w'(1,3) by (simp add: live_ok_def)
    have "\<forall>r\<in>set ?rs. hl r \<le> page_ceil ?ps (rq_cached_len r) \<and> rq_cached_len r \<le> rq_device_len r"
    proof
      fix r assume r: "r \<in> set ?rs"
      have "req_fits ?cm r" using cm_fits[OF inv, of r] r by simp
      then show "hl r \<le> page_ceil ?ps (rq_cached_len r) \<and> rq_cached_len r \<le> rq_device_len r"
        using page_ceil_ge[OF cm_ps[OF inv], of "rq_cached_len r"] sf r by (fastforce simp: req_fits_def span_fits_def)
    qed
    from room_complete[OF this, of "cm_num_pages ?cm" ?qs] have
      "pool_room w' live = pool_room w live - int (sum_list (map (fill_len ?ps) (objs w B)))"
      unfolding w'(1) a(4,5) room_perm[OF o] rm fl .
    with L show ?thesis by blast
  qed
  with a(1) k wd cm_generic[OF a(2)] show ?thesis by blast
qed

lemma shaped_tables: "shaped W cm tm \<Longrightarrow> table_of (length (cm_page_table cm)) W (cm_page_table cm) \<and>
    table_of (length (cm_page_table cm)) W (tm_token_pool tm)"
  by (auto simp: shaped_def table_of_def in_set_conv_nth)

lemma table_shaped: "shaped W cm tm \<Longrightarrow> table_of (length (cm_page_table cm)) W pool \<Longrightarrow> shaped W cm (tm\<lparr>tm_token_pool := pool\<rparr>)"
  by (simp add: shaped_def table_of_def all_set_conv_all_nth)

lemma text_batch_cells:
  assumes "env_ok env W R ps" "\<forall>r\<in>set rs. 0 \<le> rq_table_idx r \<and> rq_table_idx r < int R \<and> rq_device_len r < W"
  shows "\<forall>c\<in>set (zip (fst (make_input_tuple (padded_reqs env rs))) (snd (make_input_tuple (padded_reqs env rs)))). cell_in R W c"
proof
  fix c assume "c \<in> set (zip (fst (make_input_tuple (padded_reqs env rs))) (snd (make_input_tuple (padded_reqs env rs))))"
  moreover obtain ti pos where c: "c = (ti, pos)" by (cases c)
  ultimately obtain r where r: "r \<in> set (padded_reqs env rs)" "ti = rq_table_idx r" "int (rq_cached_len r) \<le> pos" "pos < int (rq_device_len r)"
    using input_cells by blast
  then have "0 \<le> rq_table_idx r \<and> rq_table_idx r < int R \<and> rq_device_len r \<le> W"
    using assms by (auto simp: padded_reqs_def env_ok_def split: if_splits)
  with r show "cell_in R W c" by (simp add: cell_in_def c)
qed

lemma stepped_put:
  assumes "distinct B" "w_reqs w' = w_reqs w"
  shows "stepped p B w (put_reqs B (map complete_one (map (bump p) (objs w B))) (put_reqs B (map (bump p) (objs w B)) w'))"
  using put_reqs_map[OF assms(1), of "\<lambda>i. bump p (the (w_reqs w i))"] put_reqs_map[OF assms(1), of "\<lambda>i. complete_one (bump p (the (w_reqs w i)))"] assms(2)
  by (simp add: stepped_def comp_def)

text \<open>What launching a batch leaves alone.\<close>

definition launches :: "sched \<Rightarrow> sched \<Rightarrow> bool" where
  "launches s s' \<longleftrightarrow> sd_pm s' = sd_pm s \<and> sd_finished s' = sd_finished s \<and> sd_last s' = sd_last s \<and> sd_rebuild s' = sd_rebuild s \<and>
     sd_budget s' = sd_budget s \<and> sd_acks s' = sd_acks s"

lemma prepare_cache_ok:
  assumes "generic (w_cm (sd_w s))" "\<forall>i\<in>set (b_reqs b). w_reqs (sd_w s) i \<noteq> None"
    "allocate_paged (map (bump (b_prefill b)) (objs (sd_w s) (b_reqs b))) (w_cm (sd_w s)) = Some cm"
  shows "prepare_cache env b s = Some (s\<lparr>sd_iter := sd_iter s + 1,
      sd_w := put_reqs (b_reqs b) (map (bump (b_prefill b)) (objs (sd_w s) (b_reqs b))) ((sd_w s)\<lparr>w_cm := cm\<rparr>)\<rparr>,
    map (bump (b_prefill b)) (objs (sd_w s) (b_reqs b)))"
proof -
  have pg: "\<not> swa_paged (w_cm (sd_w s))" using assms(1) by (simp add: generic_def swa_paged_def)
  define rs where "rs = objs (sd_w s) (b_reqs b)"
  have g: "get_reqs (b_reqs b) (sd_w s) = Some rs" using get_reqs_ok[OF assms(2)] by (simp add: rs_def)
  note al = assms(3)[folded rs_def]
  show ?thesis
  proof (cases "b_prefill b")
    case True
    have "map (bump True) rs = rs" by (rule map_idI) (simp add: bump_def)
    then show ?thesis unfolding rs_def[symmetric] using True pg g al
      by (simp add: prepare_cache_def Let_def free_swa_out_of_window_extend_def)
  next
    case False
    have "(\<lambda>r. r\<lparr>rq_decode_batch := rq_decode_batch r + 1\<rparr>) = bump False" by (rule ext) (simp add: bump_def)
    then show ?thesis unfolding rs_def[symmetric] prepare_cache_def using False pg g al
      by (simp add: Let_def maybe_free_swa_out_of_window_def)
  qed
qed

text \<open>A ready batch runs, whatever one token per request the sampler answers.\<close>

lemma run_batch_ok:
  assumes live: "live_ok W (sd_w s) live" and rd: "ready W (sd_w s) live (b_reqs b)" and lz: "cm_lazy (w_cm (sd_w s)) = None"
    and lp: "cm_linear_pool (w_cm (sd_w s)) = None" and env: "env_ok env W (length (cm_page_table (w_cm (sd_w s)))) ps"
    and dev: "\<forall>i\<in>set (b_reqs b). rq_device_len (the (req_at s i)) < W"
  shows "\<exists>s2 fi. prepare_batch env b s = Some (s2, fi) \<and> fi_batch fi = b \<and> (\<forall>tokens. length tokens = length (b_reqs b) \<longrightarrow>
    (\<exists>s4 ids. restore_linear_states b (report_prompt_admissions b s2) = Some (report_prompt_admissions b s2) \<and>
      forward env fi tokens (report_prompt_admissions b s2) = Some (s4, ids) \<and> launches s s4 \<and> live_ok W (sd_w s4) live \<and>
      stepped (b_prefill b) (b_reqs b) (sd_w s) (sd_w s4) \<and> kin (sd_w s) (sd_w s4) \<and> w_next (sd_w s4) = w_next (sd_w s) \<and>
      pool_room (sd_w s4) live = pool_room (sd_w s) live - int (sum_list (map (fill_len (cm_page_size (w_cm (sd_w s)))) (objs (sd_w s) (b_reqs b)))) \<and>
      sd_dm s4 = dm_filter_reqs (w_reqs (sd_w s4)) (b_reqs b) (sd_dm s)))"
proof -
  let ?w = "sd_w s" and ?B = "b_reqs b" and ?p = "b_prefill b" and ?R = "length (cm_page_table (w_cm (sd_w s)))"
  define rs where "rs = map (bump ?p) (objs ?w ?B)"
  have B: "distinct ?B" "set ?B \<subseteq> set live" using rd by (simp_all add: ready_def)
  have ex: "\<forall>i\<in>set ?B. w_reqs ?w i \<noteq> None" using B(2) live by (auto simp: live_ok_def)
  have inv: "cm_inv (w_cm ?w) (objs ?w live)" using live by (simp add: live_ok_def)
  note ba = batch_alloc[OF live rd lz, of ?p, folded rs_def]
  from ba obtain cm where a: "allocate_paged rs (w_cm ?w) = Some cm" "generic cm" "kin ?w (?w\<lparr>w_cm := cm\<rparr>)"
    "\<forall>w'. w_cm w' = cm \<longrightarrow> rows_ok (w_tm w') (objs ?w live) \<longrightarrow> shaped W cm (w_tm w') \<longrightarrow> stepped ?p ?B ?w w' \<longrightarrow> w_next w' = w_next ?w \<longrightarrow>
       live_ok W w' live \<and> pool_room w' live = pool_room ?w live - int (sum_list (map (fill_len (cm_page_size (w_cm ?w))) (objs ?w ?B)))"
    "widths (cm_page_table cm) = widths (cm_page_table (w_cm ?w))"
    by (elim exE conjE) (rule that, assumption+)
  define w1 where "w1 = put_reqs ?B rs (?w\<lparr>w_cm := cm\<rparr>)"
  define s1 where "s1 = s\<lparr>sd_iter := sd_iter s + 1, sd_w := w1\<rparr>"
  have pc: "prepare_cache env b s = Some (s1, rs)"
    using prepare_cache_ok[OF cm_generic[OF inv] ex a(1)[unfolded rs_def]] unfolding rs_def[symmetric] w1_def s1_def by simp
  have w1: "w_cm w1 = cm" "w_tm w1 = w_tm ?w" "w_ec w1 = w_ec ?w" "w_next w1 = w_next ?w" by (simp_all add: w1_def)
  have sh: "shaped W cm (w_tm ?w)" by (rule shaped_cong[OF _ a(5) refl refl]) (use live in \<open>simp add: live_ok_def\<close>)
  have R: "length (cm_page_table cm) = ?R" using a(5) by (metis length_map)
  note tabs = shaped_tables[OF sh, unfolded R]
  have rsB: "\<forall>r\<in>set rs. 0 \<le> rq_table_idx r \<and> rq_table_idx r < int ?R \<and> rq_device_len r < W \<and> rq_mm_items r = []"
  proof
    fix r assume "r \<in> set rs"
    then obtain i where i: "i \<in> set ?B" "r = bump ?p (the (w_reqs ?w i))" by (auto simp: rs_def)
    have "the (w_reqs ?w i) \<in> set (objs ?w live)" using i(1) B(2) by auto
    from cm_fits[OF inv this] i dev rd show "0 \<le> rq_table_idx r \<and> rq_table_idx r < int ?R \<and> rq_device_len r < W \<and> rq_mm_items r = []"
      by (auto simp: req_fits_def ready_def)
  qed
  let ?padded = "padded_reqs env rs"
  have pm: "\<forall>r\<in>set ?padded. rq_mm_items r = []" using rsB env by (auto simp: padded_reqs_def env_ok_def)
  have cells: "\<forall>c\<in>set (zip (fst (make_input_tuple ?padded)) (snd (make_input_tuple ?padded))). cell_in ?R W c"
    by (rule text_batch_cells[OF env]) (use rsB in blast)
  from gather2_ok[OF cells] tabs obtain out_loc where ol: "gather2 (cm_page_table cm) (make_input_tuple ?padded) = Some out_loc" by blast
  from gather2_ok[OF cells] tabs obtain ids where ids: "gather2 (tm_token_pool (w_tm ?w)) (make_input_tuple ?padded) = Some ids" by blast
  obtain c where gm: "(if ?p then gather_multimodal env ?padded s1 else (s1, [], [], [], [])) = (s1\<lparr>sd_warned_cut := c\<rparr>, [], [], [], [])"
  proof (cases ?p)
    case True
    from text_gather[OF pm, of env s1] obtain c where "gather_multimodal env ?padded s1 = (s1\<lparr>sd_warned_cut := c\<rparr>, [], [], [], [])" by blast
    with True show ?thesis by (intro that) simp
  next
    case False
    then show ?thesis by (intro that[of "sd_warned_cut s1"]) simp
  qed
  define s2 where "s2 = s1\<lparr>sd_warned_cut := c\<rparr>"
  have "\<exists>fi. prepare_batch env b s = Some (s2, fi) \<and> fi_batch fi = b \<and> fi_plan fi = [] \<and> fi_input_map fi = make_input_tuple ?padded \<and>
    fi_write_map fi = make_write_tuple rs"
    unfolding prepare_batch_def pc Option.bind_lunit prod.case Let_def gm s2_def[symmetric]
    using ol by (simp add: s2_def s1_def w1)
  then obtain fi where fi: "prepare_batch env b s = Some (s2, fi)" "fi_batch fi = b" "fi_plan fi = []" "fi_input_map fi = make_input_tuple ?padded"
    "fi_write_map fi = make_write_tuple rs" by blast
  let ?s3 = "report_prompt_admissions b s2"
  have s3: "sd_w ?s3 = w1" "launches s ?s3" "sd_dm ?s3 = sd_dm s"
    by (simp_all add: report_prompt_admissions_def send_result_def s2_def s1_def launches_def)
  have "cm_linear_pool (w_cm w1) = None" using kin_pool[OF a(3)] lp w1 by simp
  then have rst: "restore_linear_states b ?s3 = Some ?s3" by (simp add: restore_linear_states_def s3)
  have run: "\<exists>s4 ids. forward env fi tokens ?s3 = Some (s4, ids) \<and> launches s s4 \<and> live_ok W (sd_w s4) live \<and>
      stepped ?p ?B ?w (sd_w s4) \<and> kin ?w (sd_w s4) \<and> w_next (sd_w s4) = w_next ?w \<and>
      pool_room (sd_w s4) live = pool_room ?w live - int (sum_list (map (fill_len (cm_page_size (w_cm ?w))) (objs ?w ?B))) \<and>
      sd_dm s4 = dm_filter_reqs (w_reqs (sd_w s4)) ?B (sd_dm s)" if len: "length tokens = length ?B" for tokens
  proof -
    have w1B: "w_reqs w1 i = (if i \<in> set ?B then Some (bump ?p (the (w_reqs ?w i))) else w_reqs ?w i)" for i
      using put_reqs_map[OF B(1), of "\<lambda>i. bump ?p (the (w_reqs ?w i))"] by (simp add: w1_def rs_def comp_def)
    have "get_reqs ?B w1 = Some (objs w1 ?B)" by (rule get_reqs_ok) (simp add: w1B)
    moreover have "objs w1 ?B = rs" by (simp add: rs_def w1B)
    ultimately have g: "get_reqs ?B w1 = Some rs" by simp
    define w4 where "w4 = put_reqs ?B (map complete_one rs) (w1\<lparr>w_cm := cm\<rparr>)"
    have w4: "w_cm w4 = cm" "w_tm w4 = w_tm ?w" "w_next w4 = w_next ?w" by (simp_all add: w4_def w1)
    have snap: "(if en_anchor env \<noteq> None \<and> \<not> ?p then snapshot_toolcall_anchor rs cm else Some (cm, rs)) = Some (cm, rs)"
      using a(2) by (simp add: snapshot_toolcall_anchor_def generic_def)
    have wc: "\<forall>c\<in>set (zip (fst (make_write_tuple rs)) (snd (make_write_tuple rs))). cell_in ?R W c"
    proof
      fix c assume "c \<in> set (zip (fst (make_write_tuple rs)) (snd (make_write_tuple rs)))"
      moreover obtain ti pos where c: "c = (ti, pos)" by (cases c)
      ultimately obtain r where "r \<in> set rs" "ti = rq_table_idx r" "pos = (if can_decode r then int (rq_device_len r) else -1)"
        using write_cells_of by blast
      with rsB c show "cell_in ?R W c" by (fastforce simp: cell_in_def)
    qed
    from scatter2_ok[OF wc conjunct2[OF tabs], of tokens] obtain pool where
      sc: "scatter2 (zip (fst (make_write_tuple rs)) (snd (make_write_tuple rs))) tokens (tm_token_pool (w_tm ?w)) = Some pool" "table_of ?R W pool"
      by blast
    define w5 where "w5 = w4\<lparr>w_tm := (w_tm w4)\<lparr>tm_token_pool := pool\<rparr>\<rparr>"
    let ?s4 = "?s3\<lparr>sd_w := w5, sd_dm := dm_filter_reqs (w_reqs w5) ?B (sd_dm ?s3)\<rparr>"
    have "forward env fi tokens ?s3 = Some (?s4, ids)"
      unfolding forward_def fi Let_def s3(1) w1 ids Option.bind_lunit g snap prod.case run_images_def if_P[OF refl] w4_def[symmetric]
      by (simp add: py_assert_def len sc(1) w4 w5_def)
    moreover have st: "stepped ?p ?B ?w w5"
    proof -
      have w11: "w1\<lparr>w_cm := cm\<rparr> = w1" using w1(1) by (metis world.surjective world.update_convs)
      show ?thesis
        using stepped_put[OF B(1), of "?w\<lparr>w_cm := cm\<rparr>" ?w ?p] unfolding w5_def w4_def w11 by (simp add: w1_def rs_def stepped_def)
    qed
    moreover have "live_ok W w5 live \<and> pool_room w5 live = pool_room ?w live - int (sum_list (map (fill_len (cm_page_size (w_cm ?w))) (objs ?w ?B)))"
    proof -
      have "rows_ok (w_tm ?w) (objs ?w live)" using live by (simp add: live_ok_def)
      then have "rows_ok (w_tm w5) (objs ?w live)" by (simp add: rows_ok_def w5_def w4)
      moreover have "shaped W cm (w_tm w5)" using table_shaped[OF sh] sc(2) R by (simp add: w5_def w4)
      moreover have "w_cm w5 = cm" "w_next w5 = w_next ?w" by (simp_all add: w5_def w4)
      ultimately show ?thesis using a(4)[rule_format, of w5] st by blast
    qed
    moreover have "kin ?w w5" using a(3) by (simp add: kin_def w5_def w4)
    moreover have "launches s ?s4" using s3(2) by (simp add: launches_def)
    ultimately show ?thesis using s3(3) by (intro exI[of _ ?s4] exI[of _ ids]) (simp add: w5_def w4)
  qed
  with fi(1,2) rst show ?thesis by blast
qed

end
