(* ===== verification/SchedulerRun.thy ===== *)
theory SchedulerRun
  imports SchedulerLaunch
begin

text \<open>
  One launch of the scheduler from the invariant: a prefill batch is taken from the waiting list,
  or a decode batch from the running set, it can run, and the invariant holds again with that
  batch in flight.
\<close>

section \<open>A batch chosen to run\<close>

text \<open>What the batch leaves to fill: a step of a request uses up exactly the pages it fills.\<close>

lemma completed_fields [simp]: "rq_device_len (complete_one r) = rq_device_len r + 1" "rq_max_device_len (complete_one r) = rq_max_device_len r"
  "rq_mm_items (complete_one r) = rq_mm_items r" "rq_chunked (complete_one r) = rq_chunked r" "rq_aborted (complete_one r) = rq_aborted r"
  by (simp_all add: complete_one_def)

lemma fill_complete [simp]: "fill_len ps (bump p r) = fill_len ps r"
  by (simp add: fill_len_def)

lemma need_complete:
  assumes "rq_cached_len r \<le> rq_device_len r" "rq_device_len r < rq_max_device_len r"
  shows "int (need_len ps (complete_one (bump p r))) = int (need_len ps r) - int (fill_len ps r)"
proof -
  have "page_ceil ps (rq_cached_len r) \<le> page_ceil ps (rq_device_len r)" by (rule page_ceil_mono[OF assms(1)])
  moreover have "page_ceil ps (rq_device_len r) \<le> page_ceil ps (rq_max_device_len r - 1)" by (rule page_ceil_mono) (use assms(2) in simp)
  moreover have "need_len ps (complete_one (bump p r)) = page_ceil ps (rq_max_device_len r - 1) - page_ceil ps (rq_device_len r)"
    by (simp add: need_len_def)
  ultimately show ?thesis by (simp add: need_len_def fill_len_def)
qed

lemma request_cost_ceil: "request_cost ps p c = int (page_ceil ps (pr_input_len p + pr_output_len p)) - int (page_ceil ps c)"
  by (simp add: request_cost_def kv_reservation_size_def page_ceil_def left_diff_distrib)

lemma cost_complete:
  assumes "rq_cached_len r \<le> rq_device_len r"
  shows "request_cost ps p (rq_device_len r) = request_cost ps p (rq_cached_len r) - int (fill_len ps r)"
  using page_ceil_mono[OF assms, of ps] by (simp add: request_cost_ceil fill_len_def)

definition due :: "nat \<Rightarrow> nat \<Rightarrow> req \<Rightarrow> bool" where
  "due M k r \<longleftrightarrow> rq_mm_items r = [] \<and> \<not> rq_aborted r \<and> rq_cached_len r < rq_device_len r \<and>
     (if rq_chunked r then length (rq_input_ids r) = rq_device_len r
      else rq_device_len r < rq_max_device_len r \<and> rq_max_device_len r \<le> M \<and> length (rq_input_ids r) + k = rq_device_len r)"

lemma due_complete: "due M k r \<Longrightarrow> obj_ok M (k + 1) (complete_one (bump p r))"
  by (auto simp: due_def obj_ok_def split: if_splits)

text \<open>The requests of a batch whose next token is sampled.\<close>

abbreviation sampled :: "world \<Rightarrow> nat list \<Rightarrow> nat set" where
  "sampled w B \<equiv> {i \<in> set B. \<not> rq_chunked (the (w_reqs w i))}"

definition loaded ::
  "nat \<Rightarrow> nat \<times> nat \<times> nat \<Rightarrow> nat \<Rightarrow> world \<Rightarrow> decode_manager \<Rightarrow> pending_req list \<Rightarrow> nat set \<Rightarrow> nat list \<Rightarrow> nat list \<Rightarrow> nat list \<Rightarrow> bool" where
  "loaded W R M w dm pend F fl B live \<longleftrightarrow> sinv (set B) W R M w dm pend F {} fl [] live \<and> distinct B \<and> set B \<subseteq> set live \<and>
     (\<forall>i\<in>set B. due M (unread fl [] i) (the (w_reqs w i)) \<and> (rq_chunked (the (w_reqs w i)) \<longrightarrow> i \<in> set (chunk_ids pend))) \<and>
     (\<forall>p\<in>set pend. \<forall>i\<in>set B. pr_chunked p = Some i \<longrightarrow> rq_device_len (the (w_reqs w i)) < pr_input_len p) \<and>
     run_need w (set (dm_running dm) \<union> sampled w B) + wait_need (cm_page_size (w_cm w)) (w_reqs w) pend \<le> pool_room w live"

lemma loadedD:
  assumes "loaded W R M w dm pend F fl B live"
  shows loaded_inv: "sinv (set B) W R M w dm pend F {} fl [] live" and loaded_distinct: "distinct B" and loaded_live: "set B \<subseteq> set live"
    and loaded_due: "\<And>i. i \<in> set B \<Longrightarrow> due M (unread fl [] i) (the (w_reqs w i))"
    and loaded_chunk: "\<And>i. i \<in> set B \<Longrightarrow> rq_chunked (the (w_reqs w i)) \<Longrightarrow> i \<in> set (chunk_ids pend)"
    and loaded_left: "\<And>p i. p \<in> set pend \<Longrightarrow> i \<in> set B \<Longrightarrow> pr_chunked p = Some i \<Longrightarrow> rq_device_len (the (w_reqs w i)) < pr_input_len p"
    and loaded_fund: "run_need w (set (dm_running dm) \<union> sampled w B) + wait_need (cm_page_size (w_cm w)) (w_reqs w) pend \<le> pool_room w live"
  using assms by (simp_all add: loaded_def)

section \<open>What the step costs\<close>

text \<open>The sum over a batch of the pages it fills.\<close>

abbreviation fills :: "world \<Rightarrow> nat set \<Rightarrow> int" where
  "fills w J \<equiv> (\<Sum>i\<in>J. int (fill_len (cm_page_size (w_cm w)) (the (w_reqs w i))))"

lemma run_need_step:
  assumes st: "stepped p B w w'" and k: "kin w w'" and fin: "finite J"
    and due: "\<And>i. i \<in> J \<inter> set B \<Longrightarrow> rq_cached_len (the (w_reqs w i)) \<le> rq_device_len (the (w_reqs w i)) \<and>
      rq_device_len (the (w_reqs w i)) < rq_max_device_len (the (w_reqs w i))"
  shows "run_need w' J = run_need w J - fills w (J \<inter> set B)"
proof -
  let ?ps = "cm_page_size (w_cm w)"
  have "int (need_len ?ps (the (w_reqs w' i))) = int (need_len ?ps (the (w_reqs w i))) -
      (if i \<in> set B then int (fill_len ?ps (the (w_reqs w i))) else 0)" if "i \<in> J" for i
    using st that due[of i] need_complete[of "the (w_reqs w i)" ?ps p] by (simp add: stepped_def)
  then have "run_need w' J = (\<Sum>i\<in>J. int (need_len ?ps (the (w_reqs w i))) - (if i \<in> set B then int (fill_len ?ps (the (w_reqs w i))) else 0))"
    unfolding run_need_def kin_size[OF k] by (intro sum.cong) auto
  also have "\<dots> = run_need w J - fills w (J \<inter> set B)"
    using fin by (simp add: sum_subtractf run_need_def sum.inter_restrict)
  finally show ?thesis .
qed

lemma wait_need_step:
  assumes st: "stepped q B w w'" and dist: "distinct (chunk_ids pend)"
    and due: "\<And>i. i \<in> set B \<Longrightarrow> rq_cached_len (the (w_reqs w i)) \<le> rq_device_len (the (w_reqs w i))"
  shows "wait_need (cm_page_size (w_cm w)) (w_reqs w') pend =
    wait_need (cm_page_size (w_cm w)) (w_reqs w) pend - fills w (set (chunk_ids pend) \<inter> set B)"
proof -
  let ?ps = "cm_page_size (w_cm w)" and ?f = "\<lambda>i. if i \<in> set B then int (fill_len (cm_page_size (w_cm w)) (the (w_reqs w i))) else 0"
  have c: "chunk_cost ?ps (w_reqs w') p i = chunk_cost ?ps (w_reqs w) p i - ?f i" for p i
    using st due[of i] cost_complete[of "the (w_reqs w i)" ?ps p] by (simp add: stepped_def chunk_cost_def)
  have "wait_need ?ps (w_reqs w') pend = wait_need ?ps (w_reqs w) pend - sum_list (map ?f (chunk_ids pend))"
  proof (induction pend)
    case (Cons p pend)
    then show ?case by (simp add: wait_need_Cons c split: option.splits)
  qed (simp add: wait_need_def)
  also have "sum_list (map ?f (chunk_ids pend)) = fills w (set (chunk_ids pend) \<inter> set B)"
    using dist by (simp add: sum_list_distinct_conv_sum_set sum.inter_restrict)
  finally show ?thesis .
qed

lemma loaded_step:
  assumes l: "loaded W R M w dm pend F fl B live" and st: "stepped p B w w'" and k: "kin w w'"
  shows "run_need w' (set (dm_running dm) \<union> sampled w B) + wait_need (cm_page_size (w_cm w)) (w_reqs w') pend =
    run_need w (set (dm_running dm) \<union> sampled w B) + wait_need (cm_page_size (w_cm w)) (w_reqs w) pend -
    int (sum_list (map (fill_len (cm_page_size (w_cm w))) (objs w B)))"
proof -
  let ?J = "set (dm_running dm) \<union> sampled w B" and ?C = "set (chunk_ids pend)"
  have due: "rq_cached_len (the (w_reqs w i)) \<le> rq_device_len (the (w_reqs w i))" if "i \<in> set B" for i
    using loaded_due[OF l that] by (simp add: due_def)
  have run: "\<not> rq_chunked (the (w_reqs w i))" if "i \<in> set (dm_running dm)" for i
    using sinv_run[OF loaded_inv[OF l]] that by (auto simp: run_ok_def can_decode_def)
  then have J: "?J \<inter> set B = sampled w B" by auto
  have C: "?C \<inter> set B = set B - sampled w B"
    using sinv_wait[OF loaded_inv[OF l]] loaded_chunk[OF l] by (auto simp: wait_ok_def)
  have a: "run_need w' ?J = run_need w ?J - fills w (sampled w B)"
  proof -
    have "rq_cached_len (the (w_reqs w i)) \<le> rq_device_len (the (w_reqs w i)) \<and> rq_device_len (the (w_reqs w i)) < rq_max_device_len (the (w_reqs w i))"
      if "i \<in> ?J \<inter> set B" for i
      using that loaded_due[OF l, of i] unfolding J by (simp add: due_def)
    moreover have "finite ?J" by simp
    ultimately have "run_need w' ?J = run_need w ?J - fills w (?J \<inter> set B)" using run_need_step[OF st k, of ?J] by blast
    then show ?thesis unfolding J .
  qed
  have b: "wait_need (cm_page_size (w_cm w)) (w_reqs w') pend = wait_need (cm_page_size (w_cm w)) (w_reqs w) pend - fills w (set B - sampled w B)"
    using wait_need_step[OF st _ due, of pend] sinv_wait[OF loaded_inv[OF l]] unfolding C by (auto simp: wait_ok_def waiting_ok_def)
  have "fills w (set B) = fills w (set B - sampled w B) + fills w (sampled w B)"
    by (rule sum.subset_diff) auto
  moreover have "fills w (set B) = int (sum_list (map (fill_len (cm_page_size (w_cm w))) (objs w B)))"
    using loaded_distinct[OF l] by (simp add: sum_list_distinct_conv_sum_set comp_def flip: of_nat_sum)
  ultimately show ?thesis using a b by linarith
qed

section \<open>A loaded batch is ready, and runs\<close>

lemma loaded_cost_nonneg:
  assumes l: "loaded W R M w dm pend F fl B live" and st: "stepped p B w w'" and k: "kin w w'"
  shows "0 \<le> wait_need (cm_page_size (w_cm w)) (w_reqs w') pend"
proof -
  let ?ps = "cm_page_size (w_cm w)"
  note wt = sinv_wait[OF loaded_inv[OF l]]
  have "0 \<le> chunk_cost ?ps (w_reqs w') q i" if q: "q \<in> set pend" "pr_chunked q = Some i" for q i
  proof -
    have "rq_cached_len (the (w_reqs w' i)) \<le> pr_input_len q + pr_output_len q"
    proof (cases "i \<in> set B")
      case True
      then show ?thesis using st loaded_left[OF l q(1) True q(2)] by (simp add: stepped_def)
    next
      case False
      then show ?thesis using st wt q by (auto simp: stepped_def wait_ok_def waiting_ok_def pend_ok_def Let_def)
    qed
    from page_ceil_mono[OF this, of ?ps] show ?thesis by (simp add: chunk_cost_def request_cost_ceil)
  qed
  then show ?thesis unfolding wait_need_def by (intro sum_list_nonneg) (auto split: option.splits)
qed

lemma loaded_device:
  assumes l: "loaded W R M w dm pend F fl B live" and i: "i \<in> set B"
  shows "rq_device_len (the (w_reqs w i)) < M"
proof (cases "rq_chunked (the (w_reqs w i))")
  case True
  from loaded_chunk[OF l i True] obtain q where q: "q \<in> set pend" "pr_chunked q = Some i" using chunk_ids_iff by blast
  have "pr_input_len q \<le> M" using sinv_wait[OF loaded_inv[OF l]] q(1) by (auto simp: wait_ok_def prompt_ok_def)
  then show ?thesis using loaded_left[OF l q(1) i q(2)] by simp
qed (use loaded_due[OF l i] in \<open>simp add: due_def\<close>)

lemma loaded_ready:
  assumes l: "loaded W R M w dm pend F fl B live" and W: "page_ceil (cm_page_size (w_cm w)) M \<le> W"
  shows "ready W w live B"
proof -
  let ?ps = "cm_page_size (w_cm w)"
  define w' where "w' = w\<lparr>w_reqs := \<lambda>i. if i \<in> set B then Some (complete_one (bump True (the (w_reqs w i)))) else w_reqs w i\<rparr>"
  have st: "stepped True B w w'" by (simp add: w'_def stepped_def)
  have k: "kin w w'" by (simp add: w'_def kin_def)
  have "int (sum_list (map (fill_len ?ps) (objs w B))) \<le> pool_room w live"
    using loaded_step[OF l st k] loaded_cost_nonneg[OF l st k] run_need_nonneg[of w' "set (dm_running dm) \<union> sampled w B"] loaded_fund[OF l] by linarith
  moreover have "rq_mm_items (the (w_reqs w i)) = [] \<and> rq_cached_len (the (w_reqs w i)) < rq_device_len (the (w_reqs w i)) \<and>
      page_ceil ?ps (rq_device_len (the (w_reqs w i))) \<le> W" if i: "i \<in> set B" for i
  proof -
    have d: "due M (unread fl [] i) (the (w_reqs w i))" by (rule loaded_due[OF l i])
    have "rq_device_len (the (w_reqs w i)) \<le> M" using loaded_device[OF l i] by simp
    from page_ceil_mono[OF this, of ?ps] W d show ?thesis by (simp add: due_def)
  qed
  ultimately show ?thesis using loaded_distinct[OF l] loaded_live[OF l] by (simp add: ready_def)
qed

lemma loaded_runs:
  assumes l: "loaded W R M w dm pend F fl B live" and st: "stepped p B w w'" and k: "kin w w'" and live: "live_ok W w' live"
    and rm: "pool_room w' live = pool_room w live - int (sum_list (map (fill_len (cm_page_size (w_cm w))) (objs w B)))"
  shows "sinv {} W R M w' (dm_filter_reqs (w_reqs w') B dm) pend F {} fl B live"
proof (rule sinvI)
  note inv = loaded_inv[OF l]
  let ?dm = "dm_filter_reqs (w_reqs w') B dm" and ?ps = "cm_page_size (w_cm w)"
  have inB: "w_reqs w' i = Some (complete_one (bump p (the (w_reqs w i))))" if "i \<in> set B" for i using st that by (simp add: stepped_def)
  have out: "w_reqs w' i = w_reqs w i" if "i \<notin> set B" for i using st that by (simp add: stepped_def)
  have abo: "rq_aborted (the (w_reqs w' i)) = rq_aborted (the (w_reqs w i))" "rq_chunked (the (w_reqs w' i)) = rq_chunked (the (w_reqs w i))" for i
    using inB[of i] out[of i] by (cases "i \<in> set B"; simp)+
  have due: "due M (unread fl [] i) (the (w_reqs w i))" if "i \<in> set B" for i by (rule loaded_due[OF l that])
  have run: "i \<in> set (dm_running ?dm) \<longleftrightarrow> (i \<in> set (dm_running dm) \<or> i \<in> set B) \<and> req_ok can_decode (w_reqs w') i" for i
    by (auto simp: dm_filter_reqs_def)
  have old: "req_ok can_decode (w_reqs w') i" if "i \<in> set (dm_running dm)" "i \<notin> set B" for i
  proof -
    have "can_decode (the (w_reqs w i))" "w_reqs w i \<noteq> None" using sinv_run[OF inv] sinv_live[OF inv] that by (auto simp: run_ok_def live_ok_def)
    then show ?thesis using out[OF that(2)] by (auto simp: req_ok_def)
  qed
  show "store_ok {} W R M w' live fl B"
  proof -
    have "obj_ok M (unread fl B i) (the (w_reqs w' i))" if "i \<in> set live" for i
    proof (cases "i \<in> set B")
      case True
      then show ?thesis using due_complete[OF due[OF True], of p] inB[OF True] by (simp add: unread_def)
    next
      case False
      then have "obj_ok M (unread fl [] i) (the (w_reqs w i))" using sinv_store[OF inv] that by (simp add: store_ok_def)
      then show ?thesis using out[OF False] False by (simp add: unread_def)
    qed
    then show ?thesis using sinv_store[OF inv] live kin_pool[OF k] kin_dims[OF k] by (simp add: store_ok_def)
  qed
  show "wait_ok W M w' live pend"
  proof -
    note wt = sinv_wait[OF inv]
    have "pend_ok W w' live q" if q: "q \<in> set pend" for q
    proof -
      have po: "pend_ok W w live q" using wt q by (simp add: wait_ok_def waiting_ok_def)
      have "rq_cached_len (the (w_reqs w' i)) < pr_input_len q \<and> take (hl (the (w_reqs w' i))) (rq_input_ids (the (w_reqs w' i))) = take (hl (the (w_reqs w' i))) (pr_input_ids q)"
        if i: "pr_chunked q = Some i" for i
        using po i inB[of i] out[of i] loaded_left[OF l q _ i] by (cases "i \<in> set B") (auto simp: pend_ok_def Let_def)
      with po show ?thesis by (auto simp: pend_ok_def Let_def)
    qed
    then show ?thesis using wt abo by (simp add: wait_ok_def waiting_ok_def)
  qed
  show "run_ok w' live ?dm"
  proof -
    have "i \<in> set live \<and> can_decode (the (w_reqs w' i)) \<and> \<not> rq_aborted (the (w_reqs w' i))" if "i \<in> set (dm_running ?dm)" for i
      using that sinv_run[OF inv] loaded_live[OF l] due[of i] abo(1)[of i] unfolding run by (auto simp: run_ok_def req_ok_def due_def split: option.splits)
    moreover have "distinct (dm_running ?dm)" by (simp add: dm_filter_reqs_def)
    moreover have "dm_page_size ?dm = cm_page_size (w_cm w')" using sinv_run[OF inv] kin_size[OF k] by (simp add: dm_filter_reqs_def run_ok_def)
    ultimately show ?thesis by (simp add: run_ok_def)
  qed
  show "placed fl B ?dm pend i (the (w_reqs w' i))" if "i \<in> set live - {}" for i
  proof (cases "i \<in> set B")
    case True
    then have "\<not> rq_aborted (the (w_reqs w' i))" using due[OF True] abo by (simp add: due_def)
    then show ?thesis using True loaded_chunk[OF l True] abo(2)[of i] inB[OF True] unfolding placed_def run by (simp add: req_ok_def)
  next
    case False
    then have "placed fl [] dm pend i (the (w_reqs w i))" using sinv_placed[OF inv] that by simp
    then show ?thesis using out[OF False] old[OF _ False] unfolding placed_def run by (auto split: if_splits)
  qed
  show "flying w' F {} fl B live"
    unfolding flying_def
  proof (intro conjI ballI)
    note fly = sinv_fly[OF inv, unfolded flying_def]
    show "distinct fl" "distinct B" "(F \<union> {}) \<inter> set live = {}" using fly loaded_distinct[OF l] by blast+
    show "w_reqs w' i \<noteq> None" if "i \<in> F \<union> {}" for i using fly that inB[of i] out[of i] by (cases "i \<in> set B") auto
    show "\<exists>r. w_reqs w' i = Some r \<and> (i \<in> set live \<or> \<not> rq_aborted r \<and> (rq_chunked r \<or> i \<in> F))" if i: "i \<in> set fl" for i
    proof (cases "i \<in> set B")
      case True
      then show ?thesis using inB loaded_live[OF l] by blast
    next
      case False
      then show ?thesis using fly i out[OF False] by simp
    qed
    show "\<exists>r. w_reqs w' i = Some r \<and> \<not> rq_aborted r \<and> (i \<in> set live \<or> rq_chunked r \<or> i \<in> {})" if i: "i \<in> set B" for i
      using inB[OF i] due[OF i] loaded_live[OF l] i by (auto simp: due_def)
  qed
  show "funded w' ?dm pend live"
  proof -
    have "set (dm_running ?dm) \<subseteq> set (dm_running dm) \<union> sampled w B"
    proof
      fix i assume i: "i \<in> set (dm_running ?dm)"
      show "i \<in> set (dm_running dm) \<union> sampled w B"
      proof (cases "i \<in> set B")
        case True
        then show ?thesis using i inB[OF True] unfolding run by (simp add: req_ok_def can_decode_def)
      qed (use i run in auto)
    qed
    then have "run_need w' (set (dm_running ?dm)) \<le> run_need w' (set (dm_running dm) \<union> sampled w B)" by (intro run_need_mono) auto
    then show ?thesis using loaded_step[OF l st k] loaded_fund[OF l] rm unfolding funded_def kin_size[OF k] by linarith
  qed
qed

section \<open>Choosing the batch\<close>

text \<open>The running set as a decode batch.\<close>

lemma decode_loaded:
  assumes s: "sinv {} W R M w dm pend F {} fl [] live" and B: "set B = set (dm_running dm)" "distinct B"
  shows "loaded W R M w dm pend F fl B live"
proof -
  have run: "i \<in> set live \<and> can_decode (the (w_reqs w i)) \<and> \<not> rq_aborted (the (w_reqs w i))" if "i \<in> set B" for i
    using sinv_run[OF s] that B(1) by (simp add: run_ok_def)
  then have nc: "\<not> rq_chunked (the (w_reqs w i))" if "i \<in> set B" for i using that by (simp add: can_decode_def)
  have "due M (unread fl [] i) (the (w_reqs w i))" if "i \<in> set B" for i
  proof -
    have "obj_ok M (unread fl [] i) (the (w_reqs w i))" using sinv_store[OF s] run[OF that] by (simp add: store_ok_def)
    then show ?thesis using run[OF that] by (auto simp: obj_ok_def due_def can_decode_def remain_len_def)
  qed
  moreover have "sinv (set B) W R M w dm pend F {} fl [] live" using s by (simp add: sinv_def store_ok_def)
  moreover have "pr_chunked q \<noteq> Some i" if "q \<in> set pend" "i \<in> set B" for q i
    using sinv_wait[OF s] nc[OF that(2)] that(1) chunk_ids_iff by (fastforce simp: wait_ok_def)
  moreover have "set (dm_running dm) \<union> sampled w B = set (dm_running dm)" using B(1) by auto
  ultimately show ?thesis using sinv_funded[OF s] B(2) run nc by (auto simp: loaded_def funded_def)
qed

text \<open>What the requests of a prefill pass still need is what their admission reserved.\<close>

lemma taken_costs:
  assumes "\<forall>x\<in>set pis. taken (fst x) (the (w_reqs w (snd x)))"
  shows "sum_list (map (\<lambda>x. if rq_chunked (the (w_reqs w (snd x))) then 0 else int (need_len ps (the (w_reqs w (snd x))))) pis) +
      wait_need ps (w_reqs w) (unfinished w pis) \<le> sum_list (map (\<lambda>(p, i). chunk_cost ps (w_reqs w) p i) pis)"
  using assms
proof (induction pis)
  case (Cons x pis)
  obtain p i where x: "x = (p, i)" by (cases x)
  let ?r = "the (w_reqs w i)"
  have t: "taken p ?r" using Cons.prems x by simp
  show ?case
  proof (cases "rq_chunked ?r")
    case True
    have "chunk_cost ps (w_reqs w) (p\<lparr>pr_chunked := Some i\<rparr>) i = chunk_cost ps (w_reqs w) p i"
      by (simp add: chunk_cost_def request_cost_def pr_input_len_def pr_output_len_def)
    then show ?thesis using Cons True x by (simp add: unfinished_def wait_need_Cons)
  next
    case False
    have "page_ceil ps (rq_cached_len ?r) \<le> page_ceil ps (pr_input_len p + pr_output_len p)" by (rule page_ceil_mono) (use t in \<open>simp add: taken_def\<close>)
    moreover have "rq_max_device_len ?r = rq_device_len ?r + pr_output_len p" "rq_device_len ?r \<le> pr_input_len p"
      using t by (simp_all add: taken_def)
    then have "page_ceil ps (rq_max_device_len ?r - 1) \<le> page_ceil ps (pr_input_len p + pr_output_len p)"
      by (intro page_ceil_mono) linarith
    ultimately have "int (need_len ps ?r) \<le> chunk_cost ps (w_reqs w) p i" by (simp add: need_len_def chunk_cost_def request_cost_ceil)
    then show ?thesis using Cons False x by (simp add: unfinished_def)
  qed
qed (simp add: unfinished_def wait_need_def)

lemma run_need_sampled:
  assumes "distinct B"
  shows "run_need w (sampled w B) =
    sum_list (map (\<lambda>i. if rq_chunked (the (w_reqs w i)) then 0 else int (need_len (cm_page_size (w_cm w)) (the (w_reqs w i)))) B)"
proof -
  let ?f = "\<lambda>i. int (need_len (cm_page_size (w_cm w)) (the (w_reqs w i)))"
  have "(\<Sum>i\<in>sampled w B. ?f i) = (\<Sum>i\<in>set B. if \<not> rq_chunked (the (w_reqs w i)) then ?f i else 0)"
    by (rule sum.inter_filter) simp
  then show ?thesis using assms by (simp add: run_need_def sum_list_distinct_conv_sum_set if_distrib cong: if_cong) (meson sum.cong)
qed

lemma run_need_inflight:
  assumes s: "sinv {} W R M w dm pend F {} fl [] live"
  shows "run_need w (set (dm_running dm)) \<le> dm_inflight_tokens (w_reqs w) dm"
proof -
  let ?ps = "cm_page_size (w_cm w)"
  have ps: "0 < ?ps" "dm_page_size dm = ?ps" using sinv_live[OF s] sinv_run[OF s] cm_ps by (auto simp: live_ok_def run_ok_def)
  have "int (need_len ?ps (the (w_reqs w i))) \<le> (case w_reqs w i of None \<Rightarrow> 0 | Some r \<Rightarrow> remain_len r) + (int ?ps - 1)"
    if i: "i \<in> set (dm_running dm)" for i
  proof -
    have "i \<in> set live" "can_decode (the (w_reqs w i))" using sinv_run[OF s] i by (auto simp: run_ok_def)
    moreover from this obtain r where r: "w_reqs w i = Some r" using sinv_live[OF s] by (auto simp: live_ok_def)
    moreover have "obj_ok M (unread fl [] i) r" using sinv_store[OF s] calculation by (auto simp: store_ok_def)
    ultimately have d: "rq_device_len r = rq_cached_len r + 1" "rq_device_len r < rq_max_device_len r"
      by (auto simp: obj_ok_def can_decode_def remain_len_def)
    have "page_ceil ?ps (rq_max_device_len r - 1) < rq_max_device_len r - 1 + ?ps" 
      unfolding page_ceil_def by (rule div_ceil_lt[OF ps(1)])
    moreover have "rq_cached_len r \<le> page_ceil ?ps (rq_cached_len r)" by (rule page_ceil_ge[OF ps(1)])
    ultimately show ?thesis using r d by (simp add: need_len_def remain_len_def)
  qed
  then have "sum_list (map (\<lambda>i. int (need_len ?ps (the (w_reqs w i)))) (dm_running dm)) \<le>
      sum_list (map (\<lambda>i. (case w_reqs w i of None \<Rightarrow> 0 | Some r \<Rightarrow> remain_len r) + (int ?ps - 1)) (dm_running dm))"
    by (rule sum_list_mono)
  moreover have "run_need w (set (dm_running dm)) = sum_list (map (\<lambda>i. int (need_len ?ps (the (w_reqs w i)))) (dm_running dm))"
    using sinv_run[OF s] by (simp add: run_need_def run_ok_def sum_list_distinct_conv_sum_set)
  ultimately show ?thesis using ps(2) by (simp add: dm_inflight_tokens_def sum_list_addf sum_list_triv mult.commute)
qed

text \<open>A pass over the waiting list.\<close>

lemma zip_snd_sum: "length ys \<le> length xs \<Longrightarrow> sum_list (map (\<lambda>x. f (snd x)) (zip xs ys)) = sum_list (map f ys)"
  using arg_cong[OF map_snd_zip_take[of xs ys], of "\<lambda>l. sum_list (map f l)"] by (simp add: comp_def)

lemma taken_zip:
  assumes "list_all2 taken (take (length B) P) (objs w B)"
  shows "\<forall>x\<in>set (zip P B). fst x \<in> set P \<and> taken (fst x) (the (w_reqs w (snd x)))"
proof
  fix x assume "x \<in> set (zip P B)"
  then obtain k where k: "x = (P ! k, B ! k)" "k < length P" "k < length B" by (auto simp: set_zip)
  then have "taken (take (length B) P ! k) (objs w B ! k)" using assms by (auto simp: list_all2_conv_all_nth)
  with k show "fst x \<in> set P \<and> taken (fst x) (the (w_reqs w (snd x)))" by simp
qed

lemma prefill_loaded:
  assumes s: "sinv {} W R M w dm (pm_pending pm) F {} fl [] live" and lz: "cm_lazy (w_cm w) = None"
  shows "\<exists>pm' w' b live'. pm_schedule_next_batch clk budget dm pm w = Some (pm', w', b) \<and> kin w w' \<and>
    pm_keep_images pm' = pm_keep_images pm \<and> (case b of None \<Rightarrow> True | Some b \<Rightarrow> b_prefill b \<and> b_reqs b \<noteq> []) \<and>
    loaded W R M w' dm (pm_pending pm') F fl (batch_ids b) live'"
proof -
  let ?P = "pm_pending pm" and ?ps = "cm_page_size (w_cm w)" and ?z = "run_need w (set (dm_running dm))"
  note wt = sinv_wait[OF s] and live = sinv_live[OF s] and run = sinv_run[OF s] and fly = sinv_fly[OF s, unfolded flying_def]
  have wo: "waiting_ok W w live ?P" "chunks_first ?P" using wt by (simp_all add: wait_ok_def)
  from pass_ok[OF live wo(1), of clk budget dm ?z] obtain pm' w' b live' where
    p: "pm_schedule_next_batch clk budget dm pm w = Some (pm', w', b)" "live_ok W w' live'" "waiting_ok W w' live' (pm_pending pm')"
    "same_pools w w'" "pm_keep_images pm' = pm_keep_images pm" "case b of None \<Rightarrow> True | Some b \<Rightarrow> b_prefill b \<and> b_reqs b \<noteq> []"
    "set live' = (set live - set (chunk_ids (take (length (batch_ids b)) ?P))) \<union> set (batch_ids b)" "\<forall>i\<in>set (batch_ids b). w_next w \<le> i"
    "distinct (batch_ids b)" "length (batch_ids b) \<le> length ?P" "\<forall>i. w_reqs w i \<noteq> None \<longrightarrow> w_reqs w' i = w_reqs w i"
    "list_all2 taken (take (length (batch_ids b)) ?P) (objs w' (batch_ids b))"
    "pm_pending pm' = unfinished w' (zip ?P (batch_ids b)) @ drop (length (batch_ids b)) ?P"
    and rm: "cm_lazy (w_cm w) = None \<longrightarrow> chunks_first ?P \<longrightarrow> ?z \<le> dm_inflight_tokens (w_reqs w) dm \<longrightarrow>
      ?z + wait_need ?ps (w_reqs w) ?P \<le> pool_room w live \<longrightarrow>
      ?z + sum_list (map (\<lambda>(p, i). chunk_cost ?ps (w_reqs w') p i) (zip ?P (batch_ids b))) +
        wait_need ?ps (w_reqs w') (drop (length (batch_ids b)) ?P) \<le> pool_room w' live'"
    by (elim exE conjE) (rule that, assumption+)
  let ?B = "batch_ids b" and ?old = "drop (length (batch_ids b)) ?P"
  let ?new = "unfinished w' (zip ?P ?B)"
  have k: "kin w w'" using p(4) by (simp add: same_pools_def kin_def)
  have ps: "cm_page_size (w_cm w') = ?ps" by (rule kin_size[OF k])
  have tk: "\<forall>x\<in>set (zip ?P ?B). fst x \<in> set ?P \<and> taken (fst x) (the (w_reqs w' (snd x)))" by (rule taken_zip[OF p(12)])
  have old: "w_reqs w' i = w_reqs w i" "i \<notin> set ?B" if "w_reqs w i \<noteq> None" for i
  proof -
    show "w_reqs w' i = w_reqs w i" using p(11) that by blast
    have "i < w_next w" using live that by (simp add: live_ok_def)
    then show "i \<notin> set ?B" using p(8) by force
  qed
  have st: "w_reqs w i \<noteq> None" if "i \<in> set live" for i using live that by (simp add: live_ok_def)
  have mem: "\<exists>q\<in>set ?P. (q, i) \<in> set (zip ?P ?B) \<and> taken q (the (w_reqs w' i)) \<and> prompt_ok M q" if i: "i \<in> set ?B" for i
  proof -
    from i obtain j where j: "j < length ?B" "i = ?B ! j" by (auto simp: in_set_conv_nth)
    then have "(?P ! j, i) \<in> set (zip ?P ?B)" using p(10) by (auto simp: set_zip)
    with tk wt show ?thesis by (force simp: wait_ok_def)
  qed
  have news: "\<exists>q\<in>set ?P. \<exists>i\<in>set ?B. u = q\<lparr>pr_chunked := Some i\<rparr> \<and> taken q (the (w_reqs w' i)) \<and> rq_chunked (the (w_reqs w' i))"
    if "u \<in> set ?new" for u
    using that tk by (auto simp: unfinished_def dest: set_zip_rightD) (metis fst_conv set_zip_rightD snd_conv)
  have ids: "set (chunk_ids ?P) = set (chunk_ids (take (length ?B) ?P)) \<union> set (chunk_ids ?old)"
    using chunk_ids_append[of "take (length ?B) ?P" ?old] by (metis append_take_drop_id set_append)
  have cid: "i \<in> set live" "rq_chunked (the (w_reqs w i))" "\<not> rq_aborted (the (w_reqs w i))" if "i \<in> set (chunk_ids ?P)" for i
    using wt that chunk_ids_iff[of i ?P] by (auto simp: wait_ok_def waiting_ok_def pend_ok_def)
  have new_ids: "i \<in> set ?B" "rq_chunked (the (w_reqs w' i))" "\<not> rq_aborted (the (w_reqs w' i))" if "i \<in> set (chunk_ids ?new)" for i
  proof -
    from that obtain u where u: "u \<in> set ?new" "pr_chunked u = Some i" using chunk_ids_iff by blast
    from news[OF u(1)] u(2) show "i \<in> set ?B" "rq_chunked (the (w_reqs w' i))" "\<not> rq_aborted (the (w_reqs w' i))" by (auto simp: taken_def)
  qed
  have prompts: "prompt_ok M q" if "q \<in> set (pm_pending pm')" for q
  proof (cases "q \<in> set ?new")
    case True
    from news[OF this] wt show ?thesis by (auto simp: wait_ok_def prompt_ok_def pr_input_len_def pr_output_len_def)
  next
    case False
    then have "q \<in> set ?P" using that p(13) by (auto dest: in_set_dropD)
    then show ?thesis using wt by (simp add: wait_ok_def)
  qed
  have keep: "i \<in> set live'" if "i \<in> set live" "i \<notin> set (chunk_ids (take (length ?B) ?P))" for i using p(7) that by blast
  have runs: "i \<in> set live'" "w_reqs w' i = w_reqs w i" "can_decode (the (w_reqs w i))" "\<not> rq_aborted (the (w_reqs w i))" "i \<notin> set ?B"
    if "i \<in> set (dm_running dm)" for i
  proof -
    from run that have i: "i \<in> set live" and c: "can_decode (the (w_reqs w i))" "\<not> rq_aborted (the (w_reqs w i))" by (simp_all add: run_ok_def)
    then have "i \<notin> set (chunk_ids ?P)" using cid(2) by (auto simp: can_decode_def)
    then show "i \<in> set live'" using keep[OF i] ids by blast
    show "w_reqs w' i = w_reqs w i" "can_decode (the (w_reqs w i))" "\<not> rq_aborted (the (w_reqs w i))" "i \<notin> set ?B"
      using old[OF st[OF i]] c by auto
  qed
  have fund: "run_need w' (set (dm_running dm) \<union> sampled w' ?B) + wait_need ?ps (w_reqs w') (pm_pending pm') \<le> pool_room w' live'"
  proof -
    have "run_need w' (set (dm_running dm)) = ?z" unfolding run_need_def ps using runs(2) by (intro sum.cong) auto
    moreover have "set (dm_running dm) \<inter> sampled w' ?B = {}" using runs(5) by auto
    ultimately have a: "run_need w' (set (dm_running dm) \<union> sampled w' ?B) = ?z + run_need w' (sampled w' ?B)"
      unfolding run_need_def by (subst sum.union_disjoint) auto
    have "run_need w' (sampled w' ?B) + wait_need ?ps (w_reqs w') ?new \<le> sum_list (map (\<lambda>(p, i). chunk_cost ?ps (w_reqs w') p i) (zip ?P ?B))"
      using taken_costs[of "zip ?P ?B" w' ?ps] tk zip_snd_sum[OF p(10), of "\<lambda>i. if rq_chunked (the (w_reqs w' i)) then 0 else int (need_len ?ps (the (w_reqs w' i)))"]
      unfolding run_need_sampled[OF p(9)] ps by simp
    moreover have "?z + wait_need ?ps (w_reqs w) ?P \<le> pool_room w live" using sinv_funded[OF s] by (simp add: funded_def)
    ultimately show ?thesis using rm[rule_format, OF lz wo(2) run_need_inflight[OF s]] a unfolding p(13) wait_need_append by linarith
  qed
  have inv: "sinv (set ?B) W R M w' dm (pm_pending pm') F {} fl [] live'"
  proof (rule sinvI)
    have "obj_ok M (unread fl [] i) (the (w_reqs w' i))" if "i \<in> set live' - set ?B" for i
    proof -
      have "i \<in> set live" using that p(7) by blast
      then show ?thesis using sinv_store[OF s] old[OF st] by (simp add: store_ok_def)
    qed
    then show "store_ok (set ?B) W R M w' live' fl []" using sinv_store[OF s] p(2) kin_pool[OF k] kin_dims[OF k] by (simp add: store_ok_def)
    have "rq_chunked (the (w_reqs w' i)) \<and> \<not> rq_aborted (the (w_reqs w' i))" if "i \<in> set (chunk_ids (pm_pending pm'))" for i
    proof (cases "i \<in> set (chunk_ids ?new)")
      case False
      then have "i \<in> set (chunk_ids ?P)" using that p(13) ids by auto
      then show ?thesis using cid old[OF st] by simp
    qed (use new_ids in blast)
    moreover have "chunks_first (pm_pending pm')"
      unfolding p(13) by (subst chunks_first_append) (use chunks_first_drop[OF wo(2)] in \<open>auto simp: unfinished_def\<close>)
    ultimately show "wait_ok W M w' live' (pm_pending pm')" using p(3) prompts by (simp add: wait_ok_def)
    show "run_ok w' live' dm" using run runs ps by (simp add: run_ok_def)
    show "placed fl [] dm (pm_pending pm') i (the (w_reqs w' i))" if i: "i \<in> set live' - set ?B" for i
    proof -
      have l: "i \<in> set live" "i \<notin> set (chunk_ids (take (length ?B) ?P))" using i p(7) by blast+
      have "placed fl [] dm ?P i (the (w_reqs w i))" using sinv_placed[OF s] l(1) by simp
      then have "placed fl [] dm (pm_pending pm') i (the (w_reqs w i))" by (rule placed_mono[rotated]) (use ids l(2) p(13) in auto)
      then show ?thesis using old[OF st[OF l(1)]] by simp
    qed
    show "flying w' F {} fl [] live'"
      unfolding flying_def
    proof (intro conjI ballI)
      show "distinct fl" "distinct []" using fly by simp_all
      show "w_reqs w' i \<noteq> None" if "i \<in> F \<union> {}" for i using fly old that by auto
      show "(F \<union> {}) \<inter> set live' = {}" using fly old p(7) by blast
      show "\<exists>r. w_reqs w' i = Some r \<and> (i \<in> set live' \<or> \<not> rq_aborted r \<and> (rq_chunked r \<or> i \<in> F))" if i: "i \<in> set fl" for i
      proof -
        from fly i obtain r where r: "w_reqs w i = Some r" "i \<in> set live \<or> \<not> rq_aborted r \<and> (rq_chunked r \<or> i \<in> F)" by blast
        have "w_reqs w' i = Some r" using old(1)[of i] r(1) by simp
        moreover have "i \<in> set live' \<or> \<not> rq_aborted r \<and> rq_chunked r" if l: "i \<in> set live"
        proof (cases "i \<in> set (chunk_ids (take (length ?B) ?P))")
          case True
          then show ?thesis using cid(2,3)[of i] ids r(1) by simp
        qed (use keep[OF l] in blast)
        ultimately show ?thesis using r(2) by blast
      qed
      show "\<exists>r. w_reqs w' i = Some r \<and> \<not> rq_aborted r \<and> (i \<in> set live' \<or> rq_chunked r \<or> i \<in> {})" if "i \<in> set []" for i using that by simp
    qed
    have "run_need w' (set (dm_running dm)) \<le> run_need w' (set (dm_running dm) \<union> sampled w' ?B)" by (rule run_need_mono) auto
    then show "funded w' dm (pm_pending pm') live'" using fund unfolding funded_def ps by linarith
  qed
  have due: "due M (unread fl [] i) (the (w_reqs w' i)) \<and> (rq_chunked (the (w_reqs w' i)) \<longrightarrow> i \<in> set (chunk_ids (pm_pending pm')))" if i: "i \<in> set ?B" for i
  proof -
    from mem[OF i] obtain q where q: "q \<in> set ?P" "(q, i) \<in> set (zip ?P ?B)" "taken q (the (w_reqs w' i))" "prompt_ok M q" by blast
    have "i \<notin> set fl" using fly old(2)[of i] i by auto
    then have u: "unread fl [] i = 0" by (simp add: unread_def)
    have "length (rq_input_ids (the (w_reqs w' i))) = rq_device_len (the (w_reqs w' i))"
      using q(3) by (simp add: taken_def pr_input_len_def)
    then have "due M 0 (the (w_reqs w' i))" using q(3,4) by (auto simp: taken_def prompt_ok_def due_def)
    moreover have "i \<in> set (chunk_ids ?new)" if "rq_chunked (the (w_reqs w' i))"
    proof -
      have "q\<lparr>pr_chunked := Some i\<rparr> \<in> set ?new" using q(2) that by (force simp: unfinished_def)
      then show ?thesis unfolding chunk_ids_iff by force
    qed
    ultimately show ?thesis using u p(13) by auto
  qed
  have left: "rq_device_len (the (w_reqs w' i)) < pr_input_len q" if q: "q \<in> set (pm_pending pm')" "i \<in> set ?B" "pr_chunked q = Some i" for q i
  proof (cases "q \<in> set ?new")
    case True
    from news[OF this] q(3) show ?thesis by (auto simp: taken_def pr_input_len_def)
  next
    case False
    then have "q \<in> set ?P" using q(1) p(13) by (auto dest: in_set_dropD)
    then have "i \<in> set (chunk_ids ?P)" using q(3) chunk_ids_iff by blast
    then have False using cid(1) old(2)[OF st] q(2) by blast
    then show ?thesis ..
  qed
  have "loaded W R M w' dm (pm_pending pm') F fl ?B live'"
    using inv p(7,9) due left fund unfolding loaded_def ps by blast
  with p(1,5,6) k show ?thesis by blast
qed

end
