(* ===== verification/SchedulerWork.thy ===== *)
theory SchedulerWork
  imports SchedulerRun
begin

text \<open>
  Progress: the work left (tokens still to prefill or to generate) shrinks with every batch, and
  an idle engine always takes the first waiting prompt.
\<close>

section \<open>The work left\<close>

definition prompt_left :: "req_store \<Rightarrow> pending_req \<Rightarrow> nat" where
  "prompt_left rs p = pr_input_len p + pr_output_len p - (case pr_chunked p of None \<Rightarrow> 0 | Some i \<Rightarrow> rq_cached_len (the (rs i)))"

definition decode_left :: "req_store \<Rightarrow> nat \<Rightarrow> nat" where
  "decode_left rs i = rq_max_device_len (the (rs i)) - rq_device_len (the (rs i))"

definition work_left :: "req_store \<Rightarrow> pending_req list \<Rightarrow> decode_manager \<Rightarrow> nat" where
  "work_left rs pend dm = sum_list (map (prompt_left rs) pend) + sum_list (map (decode_left rs) (dm_running dm))"

abbreviation work :: "sched \<Rightarrow> nat" where
  "work s \<equiv> work_left (w_reqs (sd_w s)) (pm_pending (sd_pm s)) (sd_dm s)"

text \<open>A running set never counts a request twice.\<close>

lemma sum_set_le:
  fixes f :: "nat \<Rightarrow> nat"
  shows "sum f (set zs) \<le> sum_list (map f zs)"
proof (induction zs)
  case (Cons z zs)
  then show ?case by (cases "z \<in> set zs") (simp_all add: insert_absorb)
qed simp

lemma filter_sum_le:
  fixes f :: "nat \<Rightarrow> nat"
  shows "sum_list (map f (filter P (sort (remdups (xs @ ys))))) \<le> sum_list (map f xs) + sum_list (map f (filter P ys))"
proof -
  note le = sum_set_le[of f]
  have "sum_list (map f (filter P (sort (remdups (xs @ ys))))) = sum f (set (filter P (sort (remdups (xs @ ys)))))"
    by (rule sum_list_distinct_conv_sum_set) simp
  also have "\<dots> \<le> sum f (set xs \<union> set (filter P ys))" by (rule sum_mono2) auto
  also have "\<dots> \<le> sum f (set xs) + sum f (set (filter P ys))" by (simp add: sum_Un_nat)
  also have "\<dots> \<le> sum_list (map f xs) + sum_list (map f (filter P ys))" by (rule add_mono[OF le le])
  finally show ?thesis .
qed

lemma filter_sum_mono:
  fixes f :: "nat \<Rightarrow> nat"
  shows "(\<And>x. x \<in> set xs \<Longrightarrow> P x \<Longrightarrow> Q x) \<Longrightarrow> sum_list (map f (filter P xs)) \<le> sum_list (map f (filter Q xs))"
proof (induction xs)
  case (Cons x xs)
  then have "sum_list (map f (filter P xs)) \<le> sum_list (map f (filter Q xs))" "P x \<longrightarrow> Q x" by simp_all
  then show ?case by auto
qed simp

section \<open>A decode batch\<close>

lemma wait_work_cong:
  "(\<And>i. i \<in> set (chunk_ids pend) \<Longrightarrow> rq_cached_len (the (rs' i)) = rq_cached_len (the (rs i))) \<Longrightarrow>
    map (prompt_left rs') pend = map (prompt_left rs) pend"
  by (induction pend) (auto simp: prompt_left_def split: option.splits)

lemma decode_work:
  assumes s: "sinv {} W R M w dm pend F {} fl [] live" and B: "set B = set (dm_running dm)" "distinct B" "B \<noteq> []"
    and st: "stepped p B w w'"
  shows "work_left (w_reqs w') pend (dm_filter_reqs (w_reqs w') B dm) < work_left (w_reqs w) pend dm"
proof -
  let ?R = "dm_running dm" and ?dm = "dm_filter_reqs (w_reqs w') B dm"
  have run: "distinct ?R" "\<And>i. i \<in> set ?R \<Longrightarrow> can_decode (the (w_reqs w i))" using sinv_run[OF s] by (auto simp: run_ok_def)
  have out: "i \<notin> set B" if "i \<in> set (chunk_ids pend)" for i
    using sinv_wait[OF s] that run(2)[of i] B(1) by (auto simp: wait_ok_def can_decode_def)
  have same: "map (prompt_left (w_reqs w')) pend = map (prompt_left (w_reqs w)) pend"
    by (rule wait_work_cong) (use st out in \<open>simp add: stepped_def\<close>)
  have lt: "decode_left (w_reqs w') i < decode_left (w_reqs w) i" if "i \<in> set B" for i
    using run(2)[of i] that B(1) st by (auto simp: stepped_def decode_left_def can_decode_def remain_len_def)
  have "sum_list (map (decode_left (w_reqs w')) (dm_running ?dm)) < sum_list (map (decode_left (w_reqs w)) ?R)"
  proof -
    have "distinct (dm_running ?dm)" by (simp add: dm_filter_reqs_def)
    then have "sum_list (map (decode_left (w_reqs w')) (dm_running ?dm)) = sum (decode_left (w_reqs w')) (set (dm_running ?dm))"
      by (rule sum_list_distinct_conv_sum_set)
    also have "\<dots> \<le> sum (decode_left (w_reqs w')) (set B)" by (rule sum_mono2) (use B(1) in \<open>auto simp: dm_filter_reqs_def\<close>)
    also have "\<dots> < sum (decode_left (w_reqs w)) (set B)" by (rule sum_strict_mono) (use lt B(3) in auto)
    also have "\<dots> = sum_list (map (decode_left (w_reqs w)) ?R)" unfolding B(1) by (rule sum_list_distinct_conv_sum_set[OF run(1), symmetric])
    finally show ?thesis .
  qed
  then show ?thesis unfolding work_left_def same by (rule add_strict_left_mono)
qed

section \<open>A prefill batch\<close>

text \<open>A continued prompt starts where its last chunk ended.\<close>

definition continues :: "world \<Rightarrow> world \<Rightarrow> pending_req \<times> nat \<Rightarrow> bool" where
  "continues w w' x \<longleftrightarrow> (\<forall>j. pr_chunked (fst x) = Some j \<longrightarrow> w_reqs w j \<noteq> None \<longrightarrow>
     rq_cached_len (the (w_reqs w' (snd x))) = rq_cached_len (the (w_reqs w j)))"

lemma try_add_continues:
  assumes "try_add_one p tic ad w = Some (ad', w', Some r)" "pr_chunked p = Some j"
  shows "rq_cached_len r = rq_cached_len (the (w_reqs w j))"
proof -
  have b: "\<not> ad_token_budget ad \<le> 0" using assms(1) by (auto simp: try_add_one_def)
  then obtain c x tm where c: "w_reqs w j = Some c" "add_one_req p \<lparr>am_handle = rq_handle c, am_table_idx = rq_table_idx c,
      am_linear_slot = rq_linear_slot c, am_ping_pong = rq_ping_pong c, am_restore_src = None\<rparr>
      (rq_cached_len c) (rq_next_track c) (rq_swa_evicted c) ad (w_cm w) (w_tm w) = Some (x, tm, Some r)"
    using assms by (auto simp: try_add_one_def bind_eq_Some_conv)
  from add_one_req_chunk[OF c(2)] c(1) show ?thesis by (simp add: chunk_of_def)
qed

lemma admit_loop_continues:
  assumes "admit_loop clk k pending ad w pass = Some (ad', w', pass')" "\<forall>i. w_reqs w i \<noteq> None \<longrightarrow> i < w_next w"
    "ps_reqs pass' = ps_reqs pass @ new"
  shows "\<forall>x\<in>set (zip pending new). continues w w' x"
  using assms
proof (induction pending arbitrary: k ad w pass new)
  case (Cons p pending)
  from Cons.prems(1) obtain x where x: "try_add_one p (clk k) ad w = Some x"
    "(case x of (ad1, w1, ro) \<Rightarrow> (case ro of None \<Rightarrow> Some (ad1, w1, pass)
       | Some r \<Rightarrow> (let (w, pass) = note_admitted p r w1 pass in admit_loop clk (k + 1) pending ad1 w pass))) = Some (ad', w', pass')"
    unfolding admit_loop.simps bind_eq_Some_conv by blast
  obtain ad1 w1 ro where t: "try_add_one p (clk k) ad w = Some (ad1, w1, ro)"
    and rest: "(case ro of None \<Rightarrow> Some (ad1, w1, pass)
       | Some r \<Rightarrow> (let (w, pass) = note_admitted p r w1 pass in admit_loop clk (k + 1) pending ad1 w pass)) = Some (ad', w', pass')"
    by (cases x) (use x in \<open>simp only: prod.case\<close>)
  show ?case
  proof (cases ro)
    case None
    then show ?thesis using rest Cons.prems(3) by auto
  next
    case (Some r)
    note ts = try_add_some[OF t[unfolded Some]]
    obtain w2 pass2 where n: "note_admitted p r w1 pass = (w2, pass2)" by fastforce
    let ?i = "w_next w"
    have n2: "w_reqs w2 = (w_reqs w)(?i \<mapsto> r)" "w_next w2 = ?i + 1" "ps_reqs pass2 = ps_reqs pass @ [?i]"
      using n ts by (auto simp: note_admitted_def new_obj_def Let_def split: if_splits)
    have loop: "admit_loop clk (k + 1) pending ad1 w2 pass2 = Some (ad', w', pass')" using rest Some n by simp
    have lt: "\<forall>i. w_reqs w2 i \<noteq> None \<longrightarrow> i < w_next w2"
      using Cons.prems(2) unfolding n2(1,2) by (metis fun_upd_other less_Suc_eq Suc_eq_plus1)
    from admit_loop_batch[OF loop lt] obtain ns where ns: "ps_reqs pass' = ps_reqs pass2 @ ns" "\<forall>i. w_reqs w2 i \<noteq> None \<longrightarrow> w_reqs w' i = w_reqs w2 i"
      by blast
    then have new: "new = ?i # ns" using Cons.prems(3) n2(3) by simp
    have wi: "w_reqs w' ?i = Some r" using ns(2)[rule_format, of ?i] by (simp add: n2(1))
    have "continues w w' (p, ?i)" using try_add_continues[OF t[unfolded Some]] wi by (simp add: continues_def)
    moreover have "continues w w' x" if "x \<in> set (zip pending ns)" for x
    proof -
      have "continues w2 w' x" using Cons.IH[OF loop lt ns(1)] that by blast
      moreover have "w_reqs w2 j = w_reqs w j" if "w_reqs w j \<noteq> None" for j
      proof -
        have "j \<noteq> ?i" using Cons.prems(2) that by (metis less_irrefl)
        then show ?thesis by (simp add: n2(1))
      qed
      ultimately show ?thesis by (simp add: continues_def)
    qed
    ultimately show ?thesis unfolding new by simp
  qed
qed simp

text \<open>What one prompt of the pass leaves after its chunk ran.\<close>

lemma pass_step_left:
  assumes t: "taken p (the (w_reqs w' i))" and c: "continues w w' (p, i)" and ex: "\<And>j. pr_chunked p = Some j \<Longrightarrow> w_reqs w j \<noteq> None"
    and w4: "w_reqs w4 i = Some (complete_one (bump q (the (w_reqs w' i))))"
  shows "(if rq_chunked (the (w_reqs w' i)) then prompt_left (w_reqs w4) (p\<lparr>pr_chunked := Some i\<rparr>) else decode_left (w_reqs w4) i) + 1
    \<le> prompt_left (w_reqs w) p"
proof -
  let ?r = "the (w_reqs w' i)" and ?c = "case pr_chunked p of None \<Rightarrow> 0 | Some j \<Rightarrow> rq_cached_len (the (w_reqs w j))"
  have "?c \<le> rq_cached_len ?r" using c ex by (auto simp: continues_def split: option.splits)
  moreover have "rq_cached_len ?r < rq_device_len ?r" "rq_device_len ?r \<le> pr_input_len p" using t by (simp_all add: taken_def)
  ultimately have lt: "?c < rq_device_len ?r" "rq_device_len ?r \<le> pr_input_len p" by linarith+
  have "prompt_left (w_reqs w4) (p\<lparr>pr_chunked := Some i\<rparr>) = pr_input_len p + pr_output_len p - rq_device_len ?r"
    using w4 by (simp add: prompt_left_def pr_input_len_def pr_output_len_def)
  moreover have "decode_left (w_reqs w4) i = pr_output_len p - 1" using w4 t by (simp add: decode_left_def taken_def)
  moreover have "prompt_left (w_reqs w) p = pr_input_len p + pr_output_len p - ?c" by (simp add: prompt_left_def)
  ultimately show ?thesis using lt by auto
qed

lemma pass_left:
  assumes "\<forall>x\<in>set pis. taken (fst x) (the (w_reqs w' (snd x))) \<and> continues w w' x \<and> (\<forall>j. pr_chunked (fst x) = Some j \<longrightarrow> w_reqs w j \<noteq> None) \<and>
    w_reqs w4 (snd x) = Some (complete_one (bump q (the (w_reqs w' (snd x)))))"
  shows "sum_list (map (prompt_left (w_reqs w4)) (unfinished w' pis)) +
    sum_list (map (decode_left (w_reqs w4)) (filter (\<lambda>i. \<not> rq_chunked (the (w_reqs w' i))) (map snd pis))) + length pis
    \<le> sum_list (map (prompt_left (w_reqs w)) (map fst pis))"
  using assms
proof (induction pis)
  case (Cons x pis)
  obtain p i where x: "x = (p, i)" by (cases x)
  from pass_step_left[of p w' i w w4 q] Cons.prems x have "(if rq_chunked (the (w_reqs w' i)) then prompt_left (w_reqs w4) (p\<lparr>pr_chunked := Some i\<rparr>)
      else decode_left (w_reqs w4) i) + 1 \<le> prompt_left (w_reqs w) p" by simp
  moreover have "\<forall>x\<in>set pis. taken (fst x) (the (w_reqs w' (snd x))) \<and> continues w w' x \<and> (\<forall>j. pr_chunked (fst x) = Some j \<longrightarrow> w_reqs w j \<noteq> None) \<and>
    w_reqs w4 (snd x) = Some (complete_one (bump q (the (w_reqs w' (snd x)))))" using Cons.prems by simp
  note Cons.IH[OF this]
  ultimately show ?case using x by (simp add: unfinished_def split: if_splits)
qed (simp add: unfinished_def)

lemma prefill_work:
  assumes s: "sinv {} W R M w dm (pm_pending pm) F {} fl [] live"
    and r: "pm_schedule_next_batch clk budget dm pm w = Some (pm', w', Some b)"
    and st: "stepped q (b_reqs b) w' w4"
  shows "work_left (w_reqs w4) (pm_pending pm') (dm_filter_reqs (w_reqs w4) (b_reqs b) dm) < work_left (w_reqs w) (pm_pending pm) dm"
proof -
  let ?P = "pm_pending pm" and ?B = "b_reqs b" and ?R = "dm_running dm"
  note wt = sinv_wait[OF s] and live = sinv_live[OF s] and run = sinv_run[OF s]
  have wo: "waiting_ok W w live ?P" using wt by (simp add: wait_ok_def)
  have lt: "\<forall>i. w_reqs w i \<noteq> None \<longrightarrow> i < w_next w" using live by (simp add: live_ok_def)
  from pass_ok[OF live wo, of clk budget dm 0] r have
    p: "?B \<noteq> []" "\<forall>i\<in>set ?B. w_next w \<le> i" "distinct ?B" "length ?B \<le> length ?P" "\<forall>i. w_reqs w i \<noteq> None \<longrightarrow> w_reqs w' i = w_reqs w i"
    "list_all2 taken (take (length ?B) ?P) (objs w' ?B)" "pm_pending pm' = unfinished w' (zip ?P ?B) @ drop (length ?B) ?P"
    by (auto simp: batch_ids_def)
  let ?ad = "new_adder budget (dm_inflight_tokens (w_reqs w) dm) (pm_keep_images pm)"
  from r obtain ad' pass' where l: "admit_loop clk 0 ?P ?ad w empty_pass = Some (ad', w', pass')" "?B = ps_reqs pass'"
    by (auto simp: pm_schedule_next_batch_def bind_eq_Some_conv split: if_splits)
  have con: "\<forall>x\<in>set (zip ?P ?B). continues w w' x" by (rule admit_loop_continues[OF l(1) lt]) (simp add: l(2) empty_pass_def)
  have ex: "w_reqs w j \<noteq> None" if "j \<in> set (chunk_ids ?P)" for j
    using that wo live chunk_ids_iff[of j ?P] by (auto simp: waiting_ok_def pend_ok_def live_ok_def)
  have exP: "w_reqs w j \<noteq> None" if "p \<in> set ?P" "pr_chunked p = Some j" for p j
    using ex that chunk_ids_iff by blast
  have old: "w_reqs w4 i = w_reqs w i" if "w_reqs w i \<noteq> None" for i
  proof -
    have "i \<notin> set ?B" using lt p(2) that by force
    then show ?thesis using st p(5) that by (simp add: stepped_def)
  qed
  have tk: "\<forall>x\<in>set (zip ?P ?B). taken (fst x) (the (w_reqs w' (snd x))) \<and> continues w w' x \<and> (\<forall>j. pr_chunked (fst x) = Some j \<longrightarrow> w_reqs w j \<noteq> None) \<and>
      w_reqs w4 (snd x) = Some (complete_one (bump q (the (w_reqs w' (snd x)))))"
  proof
    fix x assume x: "x \<in> set (zip ?P ?B)"
    then have m: "fst x \<in> set ?P" "snd x \<in> set ?B" by (metis set_zip_leftD set_zip_rightD prod.collapse)+
    have "\<forall>j. pr_chunked (fst x) = Some j \<longrightarrow> w_reqs w j \<noteq> None" using exP[OF m(1)] by blast
    then show "taken (fst x) (the (w_reqs w' (snd x))) \<and> continues w w' x \<and> (\<forall>j. pr_chunked (fst x) = Some j \<longrightarrow> w_reqs w j \<noteq> None) \<and>
        w_reqs w4 (snd x) = Some (complete_one (bump q (the (w_reqs w' (snd x)))))"
      using taken_zip[OF p(6)] con x m(2) st by (simp add: stepped_def)
  qed
  let ?Q = "filter (\<lambda>i. \<not> rq_chunked (the (w_reqs w' i))) ?B"
  have "map snd (zip ?P ?B) = ?B" using p(4) by (simp add: map_snd_zip_take)
  moreover have "map fst (zip ?P ?B) = take (length ?B) ?P" using p(4) by (simp add: map_fst_zip_take)
  ultimately have a: "sum_list (map (prompt_left (w_reqs w4)) (unfinished w' (zip ?P ?B))) + sum_list (map (decode_left (w_reqs w4)) ?Q) + length ?B
      \<le> sum_list (map (prompt_left (w_reqs w)) (take (length ?B) ?P))"
    using pass_left[OF tk] p(4) by (simp add: min.absorb2)
  have same: "map (prompt_left (w_reqs w4)) (drop (length ?B) ?P) = map (prompt_left (w_reqs w)) (drop (length ?B) ?P)"
  proof (rule wait_work_cong)
    fix i assume "i \<in> set (chunk_ids (drop (length ?B) ?P))"
    then have "i \<in> set (chunk_ids ?P)" unfolding chunk_ids_iff by (auto dest: in_set_dropD)
    then show "rq_cached_len (the (w_reqs w4 i)) = rq_cached_len (the (w_reqs w i))" using old ex by simp
  qed
  have b: "sum_list (map (prompt_left (w_reqs w)) ?P) = sum_list (map (prompt_left (w_reqs w)) (take (length ?B) ?P)) +
      sum_list (map (prompt_left (w_reqs w4)) (drop (length ?B) ?P))"
    unfolding same sum_list_append[symmetric] map_append[symmetric] append_take_drop_id by (rule refl)
  have rs: "map (decode_left (w_reqs w4)) ?R = map (decode_left (w_reqs w)) ?R"
    using old run live by (auto simp: decode_left_def run_ok_def live_ok_def)
  have "sum_list (map (decode_left (w_reqs w4)) (dm_running (dm_filter_reqs (w_reqs w4) ?B dm))) \<le>
      sum_list (map (decode_left (w_reqs w)) ?R) + sum_list (map (decode_left (w_reqs w4)) (filter (req_ok can_decode (w_reqs w4)) ?B))"
    unfolding dm_filter_reqs_def rs[symmetric] by (simp add: filter_sum_le)
  moreover have "sum_list (map (decode_left (w_reqs w4)) (filter (req_ok can_decode (w_reqs w4)) ?B)) \<le> sum_list (map (decode_left (w_reqs w4)) ?Q)"
  proof -
    have "req_ok can_decode (w_reqs w4) i \<longrightarrow> \<not> rq_chunked (the (w_reqs w' i))" if "i \<in> set ?B" for i
      using st that by (auto simp: stepped_def req_ok_def can_decode_def)
    then show ?thesis by (intro filter_sum_mono) blast
  qed
  moreover have "0 < length ?B" using p(1) by simp
  ultimately show ?thesis unfolding work_left_def p(7) map_append sum_list_append using a b by linarith
qed

section \<open>An idle engine takes the first prompt\<close>

lemma text_chunk:
  assumes "generic cm" "pr_mm_items p = []" "add_one_req p am clen nt ev ad cm tm = Some (ad', tm', ro)"
  shows "ro \<noteq> None"
proof -
  have "\<not> swa_paged cm" using assms(1) by (simp add: generic_def swa_paged_def)
  then obtain c where "chunk_size ad p clen (h_cached_len (am_handle am)) ev cm = Some (Some c)"
    using assms(2) by (simp add: chunk_size_def Let_def)
  then show ?thesis using assms(3) by (auto simp: add_one_req_def Let_def bind_eq_Some_conv)
qed

text \<open>A half-prefilled prompt always gets its next chunk.\<close>

lemma continue_admits:
  assumes live: "live_ok W w live" and p: "pend_ok W w live p" and ch: "pr_chunked p = Some i" and b: "0 < ad_token_budget ad" and mm: "pr_mm_items p = []"
  shows "\<exists>ad' w' r. try_add_one p tic ad w = Some (ad', w', Some r)"
proof -
  from continue_ok[OF live p ch b, of tic] obtain ad' w' ro where t: "try_add_one p tic ad w = Some (ad', w', ro)" by blast
  have gen: "generic (w_cm w)" using live cm_generic by (auto simp: live_ok_def)
  from t b ch obtain am clen nt ev tm' where "add_one_req p am clen nt ev ad (w_cm w) (w_tm w) = Some (ad', tm', ro)"
    by (auto simp: try_add_one_def bind_eq_Some_conv)
  from text_chunk[OF gen mm this] t show ?thesis by auto
qed

text \<open>With nothing live, the lock of a match takes exactly the matched length from what can be allocated.\<close>

lemma available_total:
  assumes inv: "cm_inv cm []" and lz: "cm_lazy cm = None"
  shows "available_size cm = int (cm_num_pages cm * cm_page_size cm)"
  using available_room[OF inv lz] by (simp add: room_def locked_len_def page_prefixes_def)

lemma locked_match:
  assumes inv: "cm_inv cm []" and live: "pc_live (cm_page_size cm) (cm_prefix cm) h" and lk: "cm_lock h cm = Some (cm2, h')"
    and toks: "pc_toks (cm_prefix cm) h = Some (take (h_cached_len h) ids)" "h_cached_len h \<le> length ids"
  shows "available_size cm - int (h_cached_len h) \<le> available_size cm2 \<and> h' = h \<and> generic cm2 \<and> cm_page_size cm2 = cm_page_size cm"
proof -
  let ?ps = "cm_page_size cm"
  from lock_ok[OF inv live] lk obtain c where c: "cm2 = cm\<lparr>cm_prefix := c\<rparr>" "h' = h" "pc_ok ?ps c {#h#}" "pc_same {#h#} (cm_prefix cm) c"
    "pc_own c = pc_own (cm_prefix cm)" by auto
  have ok: "pc_ok ?ps (cm_prefix cm) {#}" using cm_pc[OF inv] by simp
  have t: "pc_toks c h = Some (take (h_cached_len h) ids)" using c(4) toks(1) by (auto simp: same_handles_def)
  have "?ps dvd h_cached_len h" using live by (auto simp: handle_live_def)
  have "?ps * card (page_prefixes ?ps (insert (take (h_cached_len h) ids) {})) + 0 \<le> ?ps * card (page_prefixes ?ps (insert (take 0 ids) {})) + h_cached_len h"
    by (rule page_prefixes_move) (use \<open>?ps dvd h_cached_len h\<close> toks(2) cm_ps[OF inv] in auto)
  moreover have "page_prefixes ?ps {take 0 ids} = {}" by (auto simp: page_prefixes_def)
  ultimately have "kept pc_toks ?ps c {#h#} \<le> h_cached_len h" using t by (simp add: kept_def)
  moreover have "kept pc_toks ?ps (cm_prefix cm) {#} = 0" by (simp add: kept_def page_prefixes_def)
  ultimately have "pc_evictable (cm_prefix cm) - int (h_cached_len h) \<le> pc_evictable c"
    using pcx.locked_law[OF c(3)] pcx.locked_law[OF ok] pcx.sizes[OF c(3)] pcx.sizes[OF ok] c(5) by simp
  then show ?thesis using c cm_generic[OF inv]
    by (simp add: available_size_def evictable_size_def pc_evictable_def generic_def is_hybrid_def is_swa_def)
qed

text \<open>With nothing live and nothing reserved, a fresh prompt that fits the pool is seated.\<close>

lemma fresh_admits:
  assumes live: "live_ok W w []" and p: "pend_ok W w [] p" and ch: "pr_chunked p = None" and b: "0 < ad_token_budget ad" "ad_reserved ad = 0"
    and mm: "pr_mm_items p = []" and lz: "cm_lazy (w_cm w) = None" and mr: "0 < tm_max (w_tm w)"
    and fit: "pr_input_len p + pr_output_len p \<le> cm_num_pages (w_cm w) * cm_page_size (w_cm w)"
  shows "\<exists>ad' w' r. try_add_one p tic ad w = Some (ad', w', Some r)"
proof -
  let ?cm = "w_cm w" and ?tm = "w_tm w" and ?ps = "cm_page_size (w_cm w)" and ?N = "cm_num_pages (w_cm w) * cm_page_size (w_cm w)"
  have inv: "cm_inv ?cm []" and rows: "rows_ok ?tm []" and sh: "shaped W ?cm ?tm" using live by (simp_all add: live_ok_def)
  have ids: "pr_input_ids p \<noteq> []" and len: "pr_input_len p \<le> W" using p by (simp_all add: pend_ok_def)
  have ps: "0 < ?ps" by (rule cm_ps[OF inv])
  have av: "tm_available ?tm \<noteq> 0"
  proof
    assume "tm_available ?tm = 0"
    then have "mset (map int [0..<tm_max ?tm]) = {#}" using rows by (simp add: rows_ok_def tm_available_def)
    then have "size (mset (map int [0..<tm_max ?tm])) = 0" by (simp only: size_empty)
    then show False using mr unfolding size_mset by simp
  qed
  from match_ok[OF inv ids, of tic] obtain cm1 h mv where m: "match_req (pr_input_ids p) tic ?cm = Some (cm1, h, mv)" "cm_inv cm1 []"
    "h_cached_len h < length (pr_input_ids p)" "pc_live ?ps (cm_prefix cm1) h"
    "pc_toks (cm_prefix cm1) h = Some (take (h_cached_len h) (pr_input_ids p))"
    "cm_page_size cm1 = ?ps" "available_size cm1 = available_size ?cm" by blast
  have tot: "available_size cm1 = int ?N" using m(7) available_total[OF inv lz] by simp
  have dv: "?ps dvd h_cached_len h" using m(4) by (auto simp: handle_live_def)
  have hc: "page_ceil ?ps (h_cached_len h) = h_cached_len h" using dv ps by (auto simp: page_ceil_def elim!: dvdE) (metis div_ceil_mult mult.commute)
  have "page_ceil ?ps (pr_input_len p + pr_output_len p) \<le> page_ceil ?ps ?N" by (rule page_ceil_mono[OF fit])
  also have "page_ceil ?ps ?N = ?N" using ps by (simp add: page_ceil_def)
  finally have "int (page_ceil ?ps (pr_input_len p + pr_output_len p)) \<le> int ?N" by (rule of_nat_mono)
  then have cost: "request_cost ?ps p (h_cached_len h) \<le> int ?N - int (h_cached_len h)" unfolding request_cost_ceil hc by linarith
  from try_allocate_ok[OF inv rows sh ids len, of tic ad] obtain cm' tm' adm where
    t: "try_allocate_one p tic ad ?cm ?tm = Some (cm', tm', adm)" by blast
  from lock_ok[OF m(2) m(4)[folded m(6)]] obtain c where lk: "cm_lock h cm1 = Some (cm1\<lparr>cm_prefix := c\<rparr>, h)" by blast
  let ?cm2 = "cm1\<lparr>cm_prefix := c\<rparr>"
  from locked_match[OF m(2) m(4)[folded m(6)] lk m(5)] m(3) have lm: "available_size cm1 - int (h_cached_len h) \<le> available_size ?cm2"
    "generic ?cm2" by auto
  have c1: "\<not> request_cost ?ps p (h_cached_len h) + ad_reserved ad > available_size cm1" using cost tot b(2) by linarith
  have c2: "\<not> request_cost ?ps p (h_cached_len h) + ad_reserved ad > available_size ?cm2" using cost tot lm(1) b(2) by linarith
  have "try_allocate_one p tic ad ?cm ?tm = seat_request p h mv ?cm2 ?tm"
    using av m(1,6) lk c1 c2 generic_gates[OF lm(2)] unfolding try_allocate_one_def Let_def by simp
  with t obtain am where am: "adm = Some am" by (auto simp: seat_request_def Let_def bind_eq_Some_conv)
  from fresh_ok[OF live p ch b(1), of tic] obtain ad' w' ro where r: "try_add_one p tic ad w = Some (ad', w', ro)" by blast
  show ?thesis
  proof (cases ro)
    case None
    have "generic cm'"
    proof -
      from try_allocate_ok[OF inv rows sh ids len, of tic ad] t am have "admitted p ad [] ?tm cm' tm' am" by auto
      then have i: "\<And>q. seated p am q \<Longrightarrow> cm_inv cm' [q]" by (simp add: admitted_def)
      have "seated p am (ex_req\<lparr>rq_handle := am_handle am, rq_table_idx := am_table_idx am, rq_cached_len := h_cached_len (am_handle am),
          rq_input_ids := pr_input_ids p\<rparr>)" by (simp add: seated_def)
      from i[OF this] show ?thesis by (rule cm_generic)
    qed
    moreover from r t am b ch None obtain ad2 tm2 where "add_one_req p am (h_cached_len (am_handle am)) 0 0 ad cm' tm' = Some (ad2, tm2, None)"
      by (auto simp: try_add_one_def bind_eq_Some_conv split: option.splits)
    ultimately show ?thesis using text_chunk[OF _ mm] by blast
  qed (use r in blast)
qed

lemma pass_starts:
  assumes s: "sinv {} W R M w dm (pm_pending pm) F {} [] [] live" and idle: "dm_running dm = []" and some: "pm_pending pm \<noteq> []"
    and b: "0 < budget" and lz: "cm_lazy (w_cm w) = None" and mr: "0 < tm_max (w_tm w)" and cap: "M \<le> cm_num_pages (w_cm w) * cm_page_size (w_cm w)"
    and r: "pm_schedule_next_batch clk budget dm pm w = Some (pm', w', b')"
  shows "b' \<noteq> None"
proof -
  let ?ad = "new_adder budget (dm_inflight_tokens (w_reqs w) dm) (pm_keep_images pm)"
  obtain p rest where P: "pm_pending pm = p # rest" using some by (cases "pm_pending pm") auto
  note wt = sinv_wait[OF s, unfolded wait_ok_def] and live = sinv_live[OF s]
  have p: "pend_ok W w live p" "prompt_ok M p" using wt P by (simp_all add: waiting_ok_def)
  then have mm: "pr_mm_items p = []" "pr_input_len p + pr_output_len p \<le> M" by (simp_all add: prompt_ok_def)
  have ad: "0 < ad_token_budget ?ad" "ad_reserved ?ad = 0" using b idle by (simp_all add: new_adder_def dm_inflight_tokens_def)
  have "\<exists>ad' w1 q. try_add_one p (clk 0) ?ad w = Some (ad', w1, Some q)"
  proof (cases "pr_chunked p")
    case (Some i)
    from continue_admits[OF live p(1) Some ad(1) mm(1)] show ?thesis .
  next
    case None
    have "\<forall>q\<in>set (pm_pending pm). pr_chunked q = None" using wt P None by simp
    then have "i \<notin> set (chunk_ids (pm_pending pm))" for i using chunk_ids_iff[of i "pm_pending pm"] by simp
    then have no: "chunk_ids (pm_pending pm) = []" by (metis list.exhaust list.set_intros(1))
    have "live = []"
    proof (rule ccontr)
      assume "live \<noteq> []"
      then obtain i where "i \<in> set live" by (cases live) auto
      then have "placed [] [] dm (pm_pending pm) i (the (w_reqs w i))" using sinv_placed[OF s] by simp
      then show False using idle no by (auto simp: placed_def split: if_splits)
    qed
    then have l: "live_ok W w []" "pend_ok W w [] p" using live p(1) by simp_all
    show ?thesis by (rule fresh_admits[OF l None ad mm(1) lz mr]) (use mm(2) cap in linarith)
  qed
  then obtain ad1 w1 q where t: "try_add_one p (clk 0) ?ad w = Some (ad1, w1, Some q)" by blast
  note ts = try_add_some[OF t]
  obtain w2 pass2 where n: "note_admitted p q w1 empty_pass = (w2, pass2)" by fastforce
  have n2: "w_reqs w2 = (w_reqs w)(w_next w \<mapsto> q)" "w_next w2 = w_next w + 1" "ps_reqs pass2 = [w_next w]"
    using n ts by (auto simp: note_admitted_def new_obj_def Let_def empty_pass_def split: if_splits)
  from r some obtain ad' pass' where l: "admit_loop clk 0 (pm_pending pm) ?ad w empty_pass = Some (ad', w', pass')"
    "b' = None \<longleftrightarrow> ps_reqs pass' = []" by (auto simp: pm_schedule_next_batch_def bind_eq_Some_conv split: if_splits)
  have loop: "admit_loop clk 1 rest ad1 w2 pass2 = Some (ad', w', pass')" using l(1) t n P by simp
  have "\<forall>i. w_reqs w2 i \<noteq> None \<longrightarrow> i < w_next w2" using live unfolding n2 live_ok_def by (metis fun_upd_other less_Suc_eq Suc_eq_plus1)
  from admit_loop_batch[OF loop this] n2(3) have "ps_reqs pass' \<noteq> []" by auto
  then show ?thesis using l(2) by blast
qed

end
