(* ===== verification/SchedulerSafe.thy ===== *)
theory SchedulerSafe
  imports SchedulerWork
begin

text \<open>
  The scheduler as a system: from a fresh start, on text traffic, no iteration of
  \<open>overlap_loop\<close> or \<open>normal_loop\<close> fails, every live request is waiting, running or in
  flight, and nothing is leaked.
\<close>

section \<open>Launching from the invariant\<close>

text \<open>What a launch leaves alone.\<close>

definition moves :: "sched \<Rightarrow> sched \<Rightarrow> bool" where
  "moves s s' \<longleftrightarrow> sd_finished s' = sd_finished s \<and> sd_last s' = sd_last s \<and> sd_rebuild s' = sd_rebuild s \<and>
     sd_budget s' = sd_budget s \<and> sd_acks s' = sd_acks s \<and> kin (sd_w s) (sd_w s')"

lemma moves_trans: "moves a b \<Longrightarrow> moves b c \<Longrightarrow> moves a c"
  using kin_trans by (auto simp: moves_def)

text \<open>The work a launch does: none only if nothing could be scheduled, which on an idle engine means nothing is left.\<close>

definition progress :: "bool \<Rightarrow> nat \<Rightarrow> nat \<Rightarrow> bool \<Rightarrow> bool" where
  "progress idle before after moved \<longleftrightarrow> (if moved then after < before else after \<le> before \<and> (idle \<longrightarrow> after = 0))"

text \<open>The sizes of a deployment let any accepted request run alone.\<close>

definition ample :: "nat \<Rightarrow> nat \<Rightarrow> nat \<times> nat \<times> nat \<Rightarrow> nat \<Rightarrow> bool" where
  "ample M ps R budget \<longleftrightarrow> M \<le> fst (snd R) * ps \<and> 0 < snd (snd R) \<and> 0 < budget"

lemma no_pass:
  assumes s: "sinv {} W R M w dm (pm_pending pm) F {} fl [] live"
    and r: "pm_schedule_next_batch clk budget dm pm w = Some (pm', w', None)"
  shows "pm' = pm \<and> work_left (w_reqs w') (pm_pending pm) dm = work_left (w_reqs w) (pm_pending pm) dm"
proof -
  note wt = sinv_wait[OF s] and live = sinv_live[OF s] and run = sinv_run[OF s]
  have wo: "waiting_ok W w live (pm_pending pm)" using wt by (simp add: wait_ok_def)
  from pass_ok[OF live wo, of clk budget dm 0] r have keep: "\<forall>i. w_reqs w i \<noteq> None \<longrightarrow> w_reqs w' i = w_reqs w i" by auto
  have "w_reqs w i \<noteq> None" if "i \<in> set (chunk_ids (pm_pending pm))" for i
    using that wo live chunk_ids_iff[of i] by (auto simp: waiting_ok_def pend_ok_def live_ok_def)
  then have e1: "map (prompt_left (w_reqs w')) (pm_pending pm) = map (prompt_left (w_reqs w)) (pm_pending pm)"
    by (intro wait_work_cong) (use keep in simp)
  have e2: "map (decode_left (w_reqs w')) (dm_running dm) = map (decode_left (w_reqs w)) (dm_running dm)"
    using run live keep by (auto simp: decode_left_def run_ok_def live_ok_def)
  have "pm' = pm" using r by (auto simp: pm_schedule_next_batch_def bind_eq_Some_conv split: if_splits)
  then show ?thesis unfolding work_left_def e1 e2 by simp
qed

lemma next_batch_ok:
  assumes s: "sched_inv {} W R M s {} fl [] live" and lz: "cm_lazy (w_cm (sd_w s)) = None"
  shows "\<exists>s1 bo live1. next_batch env s = Some (s1, bo) \<and> moves s s1 \<and> (case bo of
      None \<Rightarrow> sched_inv {} W R M s1 {} fl [] live1 \<and> progress (fl = [] \<and> ample M (cm_page_size (w_cm (sd_w s))) R (sd_budget s)) (work s) (work s1) False
    | Some b \<Rightarrow> loaded W R M (sd_w s1) (sd_dm s1) (pm_pending (sd_pm s1)) (sd_finished s1) fl (b_reqs b) live1 \<and>
       (\<forall>q w'. stepped q (b_reqs b) (sd_w s1) w' \<longrightarrow>
          work_left (w_reqs w') (pm_pending (sd_pm s1)) (dm_filter_reqs (w_reqs w') (b_reqs b) (sd_dm s1)) < work s))"
proof -
  from prefill_loaded[OF s lz, of "readings env s" "int (sd_budget s)"] obtain pm' w' b live' where
    p: "pm_schedule_next_batch (readings env s) (int (sd_budget s)) (sd_dm s) (sd_pm s) (sd_w s) = Some (pm', w', b)" "kin (sd_w s) w'"
    "pm_keep_images pm' = pm_keep_images (sd_pm s)" "case b of None \<Rightarrow> True | Some b \<Rightarrow> b_prefill b \<and> b_reqs b \<noteq> []"
    "loaded W R M w' (sd_dm s) (pm_pending pm') (sd_finished s) fl (batch_ids b) live'" by blast
  let ?s = "tick (length (pm_pending (sd_pm s))) (s\<lparr>sd_pm := pm', sd_w := w'\<rparr>)"
  have f: "sd_w ?s = w'" "sd_dm ?s = sd_dm s" "sd_pm ?s = pm'" "sd_finished ?s = sd_finished s" by (simp_all add: tick_def)
  have mv: "moves s ?s" using p(2) by (simp add: moves_def tick_def)
  show ?thesis
  proof (cases b)
    case (Some b')
    then have "next_batch env s = Some (?s, Some b')" using p(1) by (simp add: next_batch_def)
    with p(5) mv Some f prefill_work[OF s p(1)[unfolded Some]] show ?thesis
      by (intro exI[of _ ?s] exI[of _ "Some b'"] exI[of _ live']) (simp add: batch_ids_def)
  next
    case None
    have inv: "sched_inv {} W R M ?s {} fl [] live'" using loaded_inv[OF p(5)] None f by (simp add: batch_ids_def)
    from no_pass[OF s p(1)[unfolded None]] have wk: "work ?s = work s" unfolding f by simp
    show ?thesis
    proof (cases "dm_running (sd_dm s) = []")
      case True
      then have "next_batch env s = Some (?s, None)" using p(1) None by (simp add: next_batch_def dm_schedule_next_batch_def dm_runnable_def f)
      moreover have "work s = 0" if i: "fl = []" "ample M (cm_page_size (w_cm (sd_w s))) R (sd_budget s)"
      proof -
        have "dims (sd_w s) = R" using sinv_store[OF s] by (simp add: store_ok_def)
        then have a: "0 < int (sd_budget s)" "0 < tm_max (w_tm (sd_w s))" "M \<le> cm_num_pages (w_cm (sd_w s)) * cm_page_size (w_cm (sd_w s))"
          using i(2) by (auto simp: ample_def dims_def)
        have "pm_pending (sd_pm s) = []" using pass_starts[OF s[unfolded i(1)] True _ a(1) lz a(2,3) p(1)] None by blast
        then show ?thesis using True by (simp add: work_left_def)
      qed
      ultimately show ?thesis using inv mv wk by (intro exI[of _ ?s] exI[of _ None] exI[of _ live']) (simp add: progress_def)
    next
      case False
      define B where "B = sort_key (\<lambda>i. case w_reqs w' i of None \<Rightarrow> 0 | Some r \<Rightarrow> rq_uid r) (dm_running (sd_dm s))"
      let ?b = "\<lparr>b_reqs = B, b_prefill = False, b_new_tokens = 0, b_cached_tokens = 0, b_admissions = []\<rparr>"
      have "next_batch env s = Some (?s, Some ?b)" using p(1) None False by (simp add: next_batch_def dm_schedule_next_batch_def dm_runnable_def f B_def)
      moreover have B: "set B = set (dm_running (sd_dm ?s))" "distinct B" using sinv_run[OF s] by (simp_all add: B_def f run_ok_def)
      note decode_loaded[OF inv B]
      moreover have "B \<noteq> []" using False B(1) f by auto
      note decode_work[OF inv B this]
      ultimately show ?thesis using mv wk by (intro exI[of _ ?s] exI[of _ "Some ?b"] exI[of _ live']) simp
    qed
  qed
qed

text \<open>The engine answers a launched batch with one token per request; without a batch its answer is not read.\<close>

definition takes :: "nat option \<Rightarrow> int list \<Rightarrow> bool" where
  "takes k tokens \<longleftrightarrow> k = None \<or> k = Some (length tokens)"

lemma forward_length: "length tokens \<noteq> length (b_reqs (fi_batch fi)) \<Longrightarrow> forward env fi tokens s = None"
  by (auto simp: forward_def Let_def py_assert_def bind_eq_None_conv split: prod.splits)

lemma launch_ok:
  assumes s: "sched_inv {} W R (en_max_seq_len env) s {} fl [] live" and lz: "cm_lazy (w_cm (sd_w s)) = None"
    and env: "env_ok env W (fst R) (cm_page_size (w_cm (sd_w s)))"
  shows "\<exists>k. \<forall>tokens. if takes k tokens then \<exists>s' d live'. launch env tokens s = Some (s', d) \<and> answered d \<and> moves s s' \<and>
      progress (fl = [] \<and> ample (en_max_seq_len env) (cm_page_size (w_cm (sd_w s))) R (sd_budget s)) (work s) (work s') (d \<noteq> None) \<and>
      sched_inv {} W R (en_max_seq_len env) s' {} fl (batch_of d) live' else launch env tokens s = None"
proof -
  let ?M = "en_max_seq_len env"
  from next_batch_ok[OF s lz, of env] obtain s1 bo live1 where n: "next_batch env s = Some (s1, bo)" "moves s s1"
    "case bo of None \<Rightarrow> sched_inv {} W R ?M s1 {} fl [] live1 \<and> progress (fl = [] \<and> ample ?M (cm_page_size (w_cm (sd_w s))) R (sd_budget s)) (work s) (work s1) False
     | Some b \<Rightarrow> loaded W R ?M (sd_w s1) (sd_dm s1) (pm_pending (sd_pm s1)) (sd_finished s1) fl (b_reqs b) live1 \<and>
       (\<forall>q w'. stepped q (b_reqs b) (sd_w s1) w' \<longrightarrow>
          work_left (w_reqs w') (pm_pending (sd_pm s1)) (dm_filter_reqs (w_reqs w') (b_reqs b) (sd_dm s1)) < work s)" by blast
  have k1: "kin (sd_w s) (sd_w s1)" using n(2) by (simp add: moves_def)
  show ?thesis
  proof (cases bo)
    case None
    then have "launch env tokens s = Some (s1, None)" for tokens using n(1) by (simp add: launch_def schedule_next_batch_def)
    then show ?thesis using None n(2,3) by (intro exI[of _ None]) (auto simp: takes_def answered_def batch_of_def)
  next
    case (Some b)
    let ?w = "sd_w s1" and ?B = "b_reqs b" and ?ps = "cm_page_size (w_cm (sd_w s1))"
    have l: "loaded W R ?M ?w (sd_dm s1) (pm_pending (sd_pm s1)) (sd_finished s1) fl ?B live1" using n(3) Some by simp
    have wk: "\<And>q w'. stepped q ?B ?w w' \<Longrightarrow>
        work_left (w_reqs w') (pm_pending (sd_pm s1)) (dm_filter_reqs (w_reqs w') ?B (sd_dm s1)) < work s" using n(3) Some by simp
    note inv = loaded_inv[OF l]
    have st: "length (cm_page_table (w_cm ?w)) = fst R" "cm_linear_pool (w_cm ?w) = None" using sinv_store[OF inv] by (auto simp: store_ok_def dims_def)
    have e: "env_ok env W (length (cm_page_table (w_cm ?w))) ?ps" using env st kin_size[OF k1] by simp
    then have W: "page_ceil ?ps ?M \<le> W" by (simp add: env_ok_def)
    note rd = loaded_ready[OF l W]
    have dev: "\<forall>i\<in>set ?B. rq_device_len (the (req_at s1 i)) < W"
    proof
      fix i assume "i \<in> set ?B"
      from loaded_device[OF l this] have "rq_device_len (the (req_at s1 i)) < ?M" .
      moreover have "?M \<le> page_ceil ?ps ?M" using page_ceil_ge cm_ps sinv_live[OF inv] by (auto simp: live_ok_def)
      ultimately show "rq_device_len (the (req_at s1 i)) < W" using W by linarith
    qed
    have lz1: "cm_lazy (w_cm ?w) = None" using kin_lazy[OF k1] lz by simp
    from run_batch_ok[OF sinv_live[OF inv] rd lz1 st(2) e dev] obtain s2 fi where
      p: "prepare_batch env b s1 = Some (s2, fi)" "fi_batch fi = b" "\<forall>tokens. length tokens = length ?B \<longrightarrow>
       (\<exists>s4 ids. restore_linear_states b (report_prompt_admissions b s2) = Some (report_prompt_admissions b s2) \<and>
        forward env fi tokens (report_prompt_admissions b s2) = Some (s4, ids) \<and> launches s1 s4 \<and> live_ok W (sd_w s4) live1 \<and>
        stepped (b_prefill b) ?B ?w (sd_w s4) \<and> kin ?w (sd_w s4) \<and> w_next (sd_w s4) = w_next ?w \<and>
        pool_room (sd_w s4) live1 = pool_room ?w live1 - int (sum_list (map (fill_len ?ps) (objs ?w ?B))) \<and>
        sd_dm s4 = dm_filter_reqs (w_reqs (sd_w s4)) ?B (sd_dm s1))" by blast
    have sched: "schedule_next_batch env s = Some (report_prompt_admissions b s2, Some fi)"
      using n(1) Some p(1) by (simp add: schedule_next_batch_def)
    show ?thesis
    proof (intro exI[of _ "Some (length ?B)"] allI)
      fix tokens
      show "if takes (Some (length ?B)) tokens then \<exists>s' d live'. launch env tokens s = Some (s', d) \<and> answered d \<and> moves s s' \<and>
          progress (fl = [] \<and> ample ?M (cm_page_size (w_cm (sd_w s))) R (sd_budget s)) (work s) (work s') (d \<noteq> None) \<and>
          sched_inv {} W R ?M s' {} fl (batch_of d) live' else launch env tokens s = None"
      proof (cases "length tokens = length ?B")
        case True
        with p(3) obtain s4 ids where f: "restore_linear_states b (report_prompt_admissions b s2) = Some (report_prompt_admissions b s2)"
          "forward env fi tokens (report_prompt_admissions b s2) = Some (s4, ids)" "launches s1 s4" "live_ok W (sd_w s4) live1"
          "stepped (b_prefill b) ?B ?w (sd_w s4)" "kin ?w (sd_w s4)"
          "pool_room (sd_w s4) live1 = pool_room ?w live1 - int (sum_list (map (fill_len ?ps) (objs ?w ?B)))"
          "sd_dm s4 = dm_filter_reqs (w_reqs (sd_w s4)) ?B (sd_dm s1)" by blast
        have "launch env tokens s = Some (s4, Some (fi, tokens))" using sched f(1,2) p(2) by (simp add: launch_def)
        moreover have "answered (Some (fi, tokens))" using True p(2) by (simp add: answered_def)
        moreover have "moves s1 s4" using f(3,6) by (simp add: launches_def moves_def)
        then have "moves s s4" by (rule moves_trans[OF n(2)])
        moreover have "sched_inv {} W R ?M s4 {} fl (batch_of (Some (fi, tokens))) live1"
          using loaded_runs[OF l f(5,6,4,7)] f(3,8) p(2) by (simp add: launches_def batch_of_def)
        moreover have "work s4 < work s" using wk[OF f(5)] f(3,8) by (simp add: launches_def)
        then have "progress x (work s) (work s4) (Some (fi, tokens) \<noteq> None)" for x by (simp add: progress_def)
        ultimately show ?thesis using True by (auto simp: takes_def)
      next
        case False
        then have "forward env fi tokens x = None" for x using p(2) by (simp add: forward_length)
        then have "launch env tokens s = None" using sched by (auto simp: launch_def bind_eq_None_conv)
        then show ?thesis using False by (simp add: takes_def)
      qed
    qed
  qed
qed

section \<open>Iterations\<close>

text \<open>A drain adds no work.\<close>

lemma drain_work:
  assumes d: "distinct (dm_running (sd_dm s'))" and sub: "set (dm_running (sd_dm s')) \<subseteq> set (dm_running (sd_dm s))"
    and pm: "sd_pm s' = sd_pm s" and ln: "\<forall>j. lens (req_at s' j) = lens (req_at s j)"
  shows "work s' \<le> work s"
proof -
  have e: "rq_cached_len (the (req_at s' j)) = rq_cached_len (the (req_at s j)) \<and> rq_device_len (the (req_at s' j)) = rq_device_len (the (req_at s j)) \<and>
      rq_max_device_len (the (req_at s' j)) = rq_max_device_len (the (req_at s j))" for j
    using ln[rule_format, of j] by (cases "req_at s j"; cases "req_at s' j") (simp_all add: lens_def)
  have pr: "map (prompt_left (w_reqs (sd_w s'))) (pm_pending (sd_pm s)) = map (prompt_left (w_reqs (sd_w s))) (pm_pending (sd_pm s))"
    by (rule wait_work_cong) (simp add: e)
  have f: "decode_left (w_reqs (sd_w s')) = decode_left (w_reqs (sd_w s))" by (rule ext) (simp add: decode_left_def e)
  have "sum_list (map (decode_left (w_reqs (sd_w s))) (dm_running (sd_dm s'))) = sum (decode_left (w_reqs (sd_w s))) (set (dm_running (sd_dm s')))"
    by (rule sum_list_distinct_conv_sum_set[OF d])
  also have "\<dots> \<le> sum (decode_left (w_reqs (sd_w s))) (set (dm_running (sd_dm s)))" by (rule sum_mono2) (use sub in auto)
  also have "\<dots> \<le> sum_list (map (decode_left (w_reqs (sd_w s))) (dm_running (sd_dm s)))" by (rule sum_set_le)
  finally show ?thesis unfolding work_left_def f pm pr by (rule add_left_mono)
qed

text \<open>Between two iterations of the overlapped loop, the results of \<open>last\<close> still unread.\<close>

definition steady :: "env \<Rightarrow> nat \<Rightarrow> nat \<times> nat \<times> nat \<Rightarrow> nat \<Rightarrow> sched \<Rightarrow> forward_data option \<Rightarrow> nat list \<Rightarrow> bool" where
  "steady env W R ps s last_data live \<longleftrightarrow> sched_inv {} W R (en_max_seq_len env) s {} (batch_of last_data) [] live \<and>
     cm_lazy (w_cm (sd_w s)) = None \<and> cm_page_size (w_cm (sd_w s)) = ps \<and> answered last_data \<and> sd_rebuild s = None"

lemma flush_fields [simp]: "sd_w (flush_abort_acks s) = sd_w s" "sd_dm (flush_abort_acks s) = sd_dm s" "sd_pm (flush_abort_acks s) = sd_pm s"
  "sd_finished (flush_abort_acks s) = sd_finished s" "sd_rebuild (flush_abort_acks s) = sd_rebuild s" "sd_last (flush_abort_acks s) = sd_last s"
  "sd_acks (flush_abort_acks s) = {}" "sd_budget (flush_abort_acks s) = sd_budget s"
  by (auto simp: flush_abort_acks_def send_result_def)

lemma max_seq_width: "env_ok env W (fst R) ps \<Longrightarrow> 0 < ps \<Longrightarrow> en_max_seq_len env \<le> W"
  using page_ceil_ge[of ps "en_max_seq_len env"] by (simp add: env_ok_def)

text \<open>The messages of an iteration, and then its launch; no rebuild is pending on this traffic.\<close>

lemma messages_ok:
  assumes s: "sched_inv {} W R (en_max_seq_len env) s {} (batch_of (sd_last s)) [] live" and lz: "cm_lazy (w_cm (sd_w s)) = None"
    and ps: "cm_page_size (w_cm (sd_w s)) = ps" and env: "env_ok env W (fst R) ps" and ms: "\<forall>m\<in>set msgs. msg_ok env m"
  shows "\<exists>s1 k. process_msgs env msgs s = Some s1 \<and> sd_rebuild s1 = sd_rebuild s \<and> sd_last s1 = sd_last s \<and>
    sd_budget s1 = sd_budget s \<and> (msgs = [] \<longrightarrow> s1 = s) \<and>
    (\<forall>tokens. if takes k tokens then \<exists>s' d live'. launch env tokens s1 = Some (s', d) \<and> answered d \<and> moves s1 s' \<and>
       progress (batch_of (sd_last s) = [] \<and> ample (en_max_seq_len env) ps R (sd_budget s)) (work s1) (work s') (d \<noteq> None) \<and>
       cm_lazy (w_cm (sd_w s')) = None \<and> cm_page_size (w_cm (sd_w s')) = ps \<and>
       sched_inv {} W R (en_max_seq_len env) s' {} (batch_of (sd_last s)) (batch_of d) live' else launch env tokens s1 = None)"
proof -
  have "0 < ps" using sinv_live[OF s] cm_ps ps by (auto simp: live_ok_def)
  note W = max_seq_width[OF env this]
  have "\<forall>m\<in>set msgs. msg_safe env W R m" using ms msg_safe_ok[OF _ W] by blast
  from msgs_safe[OF this, of s live] s obtain s1 live1 where
    m: "process_msgs env msgs s = Some s1" "keeps s s1" "resting env W R s1 live1" by (auto simp: resting_def)
  have k: "kin (sd_w s) (sd_w s1)" "sd_last s1 = sd_last s" "sd_rebuild s1 = sd_rebuild s" "sd_budget s1 = sd_budget s" "msgs = [] \<longrightarrow> s1 = s"
    using m(1,2) by (auto simp: keeps_def)
  have inv: "sched_inv {} W R (en_max_seq_len env) s1 {} (batch_of (sd_last s)) [] live1" using m(3) k(2) by (simp add: resting_def)
  have lz1: "cm_lazy (w_cm (sd_w s1)) = None" "cm_page_size (w_cm (sd_w s1)) = ps" using kin_lazy[OF k(1)] kin_size[OF k(1)] lz ps by auto
  from launch_ok[OF inv lz1(1)] env lz1(2) obtain n where l: "\<forall>tokens. if takes n tokens then
      \<exists>s' d live'. launch env tokens s1 = Some (s', d) \<and> answered d \<and> moves s1 s' \<and>
        progress (batch_of (sd_last s) = [] \<and> ample (en_max_seq_len env) ps R (sd_budget s)) (work s1) (work s') (d \<noteq> None) \<and>
        sched_inv {} W R (en_max_seq_len env) s' {} (batch_of (sd_last s)) (batch_of d) live' else launch env tokens s1 = None"
    unfolding k(4) lz1(2) by blast
  have "cm_lazy (w_cm (sd_w s')) = None \<and> cm_page_size (w_cm (sd_w s')) = ps" if "moves s1 s'" for s'
  proof -
    have "kin (sd_w s1) (sd_w s')" using that by (simp add: moves_def)
    from kin_lazy[OF this] kin_size[OF this] lz1 show ?thesis by simp
  qed
  with l have "if takes n tokens then \<exists>s' d live'. launch env tokens s1 = Some (s', d) \<and> answered d \<and> moves s1 s' \<and>
       progress (batch_of (sd_last s) = [] \<and> ample (en_max_seq_len env) ps R (sd_budget s)) (work s1) (work s') (d \<noteq> None) \<and>
       cm_lazy (w_cm (sd_w s')) = None \<and> cm_page_size (w_cm (sd_w s')) = ps \<and>
       sched_inv {} W R (en_max_seq_len env) s' {} (batch_of (sd_last s)) (batch_of d) live' else launch env tokens s1 = None" for tokens
    by (smt (verit))
  with m(1) k show ?thesis by blast
qed

lemma overlap_ok:
  assumes s: "steady env W R ps s last_data live" and env: "env_ok env W (fst R) ps" and ms: "\<forall>m\<in>set msgs. msg_ok env m"
  shows "\<exists>k. \<forall>tokens. if takes k tokens then \<exists>s' d live'. overlap_loop env msgs eng tokens last_data s = Some (s', d) \<and>
      steady env W R ps s' d live' \<and> sd_budget s' = sd_budget s \<and>
      (msgs = [] \<longrightarrow> progress (last_data = None \<and> ample (en_max_seq_len env) ps R (sd_budget s)) (work s) (work s') (d \<noteq> None))
      else overlap_loop env msgs eng tokens last_data s = None"
proof -
  let ?s = "s\<lparr>sd_last := last_data\<rparr>"
  have i: "sched_inv {} W R (en_max_seq_len env) ?s {} (batch_of (sd_last ?s)) [] live" "cm_lazy (w_cm (sd_w ?s)) = None"
    "cm_page_size (w_cm (sd_w ?s)) = ps" "answered last_data" "sd_rebuild s = None" using s by (simp_all add: steady_def)
  have last: "sd_last ?s = last_data" "sd_rebuild ?s = None" "sd_budget ?s = sd_budget s" using i(5) by simp_all
  from messages_ok[OF i(1,2,3) env ms] obtain s1 k where m: "process_msgs env msgs ?s = Some s1" "sd_rebuild s1 = None" "sd_budget s1 = sd_budget s"
    "msgs = [] \<longrightarrow> s1 = ?s" and l: "\<forall>tokens. if takes k tokens then \<exists>s' d live'. launch env tokens s1 = Some (s', d) \<and> answered d \<and> moves s1 s' \<and>
       progress (batch_of last_data = [] \<and> ample (en_max_seq_len env) ps R (sd_budget s)) (work s1) (work s') (d \<noteq> None) \<and>
       cm_lazy (w_cm (sd_w s')) = None \<and> cm_page_size (w_cm (sd_w s')) = ps \<and>
       sched_inv {} W R (en_max_seq_len env) s' {} (batch_of last_data) (batch_of d) live' else launch env tokens s1 = None"
    unfolding last by blast
  show ?thesis
  proof (intro exI[of _ k] allI)
    fix tokens
    show "if takes k tokens then \<exists>s' d live'. overlap_loop env msgs eng tokens last_data s = Some (s', d) \<and>
      steady env W R ps s' d live' \<and> sd_budget s' = sd_budget s \<and>
      (msgs = [] \<longrightarrow> progress (last_data = None \<and> ample (en_max_seq_len env) ps R (sd_budget s)) (work s) (work s') (d \<noteq> None))
      else overlap_loop env msgs eng tokens last_data s = None"
    proof (cases "takes k tokens")
      case True
      with l obtain s2 d live2 where r: "launch env tokens s1 = Some (s2, d)" "answered d" "moves s1 s2"
        "progress (batch_of last_data = [] \<and> ample (en_max_seq_len env) ps R (sd_budget s)) (work s1) (work s2) (d \<noteq> None)" "cm_lazy (w_cm (sd_w s2)) = None"
        "cm_page_size (w_cm (sd_w s2)) = ps" "sched_inv {} W R (en_max_seq_len env) s2 {} (batch_of last_data) (batch_of d) live2" by meson
      from process_last_ok[OF r(7,5) i(4)] obtain s3 live3 where p: "process_last_data env last_data s2 = Some s3" "cm_lazy (w_cm (sd_w s3)) = None"
        "sd_rebuild s3 = sd_rebuild s2" "dm_page_size (sd_dm s3) = dm_page_size (sd_dm s2)" "sched_inv {} W R (en_max_seq_len env) s3 {} (batch_of d) [] live3" "sd_pm s3 = sd_pm s2" "sd_budget s3 = sd_budget s2"
        "set (dm_running (sd_dm s3)) \<subseteq> set (dm_running (sd_dm s2))" "\<forall>j. lens (req_at s3 j) = lens (req_at s2 j)" by blast
      have "distinct (dm_running (sd_dm s3))" using sinv_run[OF p(5)] by (simp add: run_ok_def)
      from drain_work[OF this p(8,6,9)] have wk: "work s3 \<le> work s2" .
      have "cm_page_size (w_cm (sd_w s3)) = ps"
        using sinv_run[OF p(5)] sinv_run[OF r(7)] p(4) r(6) by (simp add: run_ok_def)
      then have "steady env W R ps (flush_abort_acks s3) d live3"
        using p(2-5) r(2,3,6) m(2) by (simp add: steady_def moves_def)
      moreover have "overlap_loop env msgs eng tokens last_data s = Some (flush_abort_acks s3, d)"
        using m r(1) p(1) by (simp add: overlap_loop_def)
      moreover have "sd_budget (flush_abort_acks s3) = sd_budget s" using p(7) r(3) m(3) by (simp add: moves_def)
      moreover have "progress (last_data = None \<and> ample (en_max_seq_len env) ps R (sd_budget s)) (work s) (work (flush_abort_acks s3)) (d \<noteq> None)" if "msgs = []"
        using r(4) wk m(4) that by (auto simp: progress_def batch_of_def split: if_splits)
      ultimately show ?thesis using True by auto
    next
      case False
      with l have "launch env tokens s1 = None" by meson
      then have "overlap_loop env msgs eng tokens last_data s = None" using m by (simp add: overlap_loop_def)
      with False show ?thesis by simp
    qed
  qed
qed

lemma normal_ok:
  assumes s: "steady env W R ps s None live" and last: "sd_last s = None" and env: "env_ok env W (fst R) ps" and ms: "\<forall>m\<in>set msgs. msg_ok env m"
  shows "\<exists>k. \<forall>tokens. if takes k tokens then \<exists>s' live'. normal_loop env msgs eng tokens s = Some s' \<and>
      steady env W R ps s' None live' \<and> sd_last s' = None else normal_loop env msgs eng tokens s = None"
proof -
  have b: "batch_of None = []" by (simp add: batch_of_def)
  have i: "sched_inv {} W R (en_max_seq_len env) s {} (batch_of (sd_last s)) [] live" "cm_lazy (w_cm (sd_w s)) = None"
    "cm_page_size (w_cm (sd_w s)) = ps" "sd_rebuild s = None" using s last by (simp_all add: steady_def)
  from messages_ok[OF i(1,2,3) env ms] obtain s1 k where m: "process_msgs env msgs s = Some s1" "sd_rebuild s1 = None" "sd_last s1 = None"
    "sd_budget s1 = sd_budget s" "msgs = [] \<longrightarrow> s1 = s" and l: "\<forall>tokens. if takes k tokens then \<exists>s' d live'. launch env tokens s1 = Some (s', d) \<and> answered d \<and> moves s1 s' \<and>
       progress (([]::nat list) = [] \<and> ample (en_max_seq_len env) ps R (sd_budget s)) (work s1) (work s') (d \<noteq> None) \<and>
       cm_lazy (w_cm (sd_w s')) = None \<and> cm_page_size (w_cm (sd_w s')) = ps \<and>
       sched_inv {} W R (en_max_seq_len env) s' {} [] (batch_of d) live' else launch env tokens s1 = None"
    unfolding last i(4) b by (elim exE conjE) (rule that, assumption+)
  show ?thesis
  proof (intro exI[of _ k] allI)
    fix tokens
    show "if takes k tokens then \<exists>s' live'. normal_loop env msgs eng tokens s = Some s' \<and> steady env W R ps s' None live' \<and> sd_last s' = None
      else normal_loop env msgs eng tokens s = None"
    proof (cases "takes k tokens")
      case True
      with l obtain s2 d live2 where r: "launch env tokens s1 = Some (s2, d)" "answered d" "moves s1 s2" "cm_lazy (w_cm (sd_w s2)) = None"
        "cm_page_size (w_cm (sd_w s2)) = ps" "sched_inv {} W R (en_max_seq_len env) s2 {} [] (batch_of d) live2" by meson
      have "sched_inv {} W R (en_max_seq_len env) s2 {} (batch_of d) [] live2" using sinv_shift[OF r(6), of "sd_finished s2"] by simp
      from process_last_ok[OF this r(4,2)] obtain s3 live3 where p: "process_last_data env d s2 = Some s3" "cm_lazy (w_cm (sd_w s3)) = None"
        "sd_rebuild s3 = sd_rebuild s2" "dm_page_size (sd_dm s3) = dm_page_size (sd_dm s2)" "sd_last s3 = sd_last s2"
        "sched_inv {} W R (en_max_seq_len env) s3 {} [] [] live3" by blast
      have "cm_page_size (w_cm (sd_w s3)) = ps"
        using sinv_run[OF p(6)] sinv_run[OF r(6)] p(4) r(5) by (simp add: run_ok_def)
      then have "steady env W R ps (flush_abort_acks s3) None live3" "sd_last (flush_abort_acks s3) = None"
        using p(2-6) r(2,3,5) m(2,3) b by (simp_all add: steady_def moves_def answered_def)
      moreover have "normal_loop env msgs eng tokens s = Some (flush_abort_acks s3)"
        using m r(1) p(1) by (simp add: normal_loop_def)
      ultimately show ?thesis using True by auto
    next
      case False
      with l have "launch env tokens s1 = None" by meson
      then have "normal_loop env msgs eng tokens s = None" using m by (simp add: normal_loop_def)
      with False show ?thesis by simp
    qed
  qed
qed

section \<open>Reachable states\<close>

text \<open>A deployment on the generic path: one prefix cache kind, \<open>n\<close> pages of \<open>ps\<close> slots, a page table \<open>pt\<close> and at
  most \<open>mr\<close> running requests.\<close>

definition deployment :: "env \<Rightarrow> nat \<Rightarrow> nat \<Rightarrow> int list list \<Rightarrow> cache_type \<Rightarrow> nat \<Rightarrow> bool" where
  "deployment env n ps pt ty mr \<longleftrightarrow> 0 < ps \<and> (ty = TNaive \<or> ty = TRadix) \<and> mr \<le> length pt \<and>
     (\<exists>W. (\<forall>row\<in>set pt. length row = W) \<and> env_ok env W (length pt) ps)"

definition booted :: "env \<Rightarrow> nat \<Rightarrow> nat \<Rightarrow> int list list \<Rightarrow> cache_type \<Rightarrow> nat \<Rightarrow> sched \<Rightarrow> bool" where
  "booted env n ps pt ty mr s \<longleftrightarrow>
     (\<exists>now cnt cm ec geo. cm_init n ps pt ty None None None None now cnt = Some cm \<and> s = sched_init env mr cm ec geo)"

text \<open>The states between iterations, of the overlapped and of the synchronous loop, on text traffic.\<close>

inductive overlapped :: "env \<Rightarrow> sched \<Rightarrow> sched \<Rightarrow> forward_data option \<Rightarrow> bool" for env s0 where
  start: "overlapped env s0 s0 None"
| iterate: "overlapped env s0 s d \<Longrightarrow> \<forall>m\<in>set msgs. msg_ok env m \<Longrightarrow> overlap_loop env msgs eng tokens d s = Some (s', d') \<Longrightarrow>
    overlapped env s0 s' d'"

inductive synchronous :: "env \<Rightarrow> sched \<Rightarrow> sched \<Rightarrow> bool" for env s0 where
  boot: "synchronous env s0 s0"
| turn: "synchronous env s0 s \<Longrightarrow> \<forall>m\<in>set msgs. msg_ok env m \<Longrightarrow> normal_loop env msgs eng tokens s = Some s' \<Longrightarrow>
    synchronous env s0 s'"

lemma booted_steady:
  assumes dp: "deployment env n ps pt ty mr" and bt: "booted env n ps pt ty mr s" and W: "\<forall>row\<in>set pt. length row = W"
  shows "steady env W (length pt, n, mr) ps s None [] \<and> sd_last s = None"
proof -
  from bt obtain now cnt cm ec geo where b: "cm_init n ps pt ty None None None None now cnt = Some cm" "s = sched_init env mr cm ec geo"
    by (auto simp: booted_def)
  from dp have ps: "0 < ps" "ty = TNaive \<or> ty = TRadix" "mr \<le> length pt" by (simp_all add: deployment_def)
  from cm_init_inv[OF ps(1,2), of n pt None None None now cnt] b(1) have c: "cm_inv cm []" "cm_lazy cm = None" "cm_page_size cm = ps" "cm_page_table cm = pt"
    "available_size cm = int (n * ps)" by auto
  have lp: "cm_linear_pool cm = None" "cm_num_pages cm = n" using b(1) by (auto simp: cm_init_def bind_eq_Some_conv)
  let ?w = "sd_w s"
  have w: "w_cm ?w = cm" "w_tm ?w = tm_init mr pt" "w_reqs ?w = (\<lambda>_. None)" "w_next ?w = 0" using b(2) c(4) by (simp_all add: sched_init_def)
  have "shaped W cm (tm_init mr pt)" using W ps(3) c(4) by (auto simp: shaped_def tm_init_def)
  then have live: "live_ok W ?w []" using c(1) by (simp add: live_ok_def w rows_ok_def tm_init_def)
  have "0 \<le> available_size cm" by (simp add: c(5))
  then have "0 \<le> pool_room ?w []" using available_room[OF c(1,2)] w by simp
  then have "sched_inv {} W (length pt, n, mr) (en_max_seq_len env) s {} [] [] []"
    using live lp c b(2) by (intro sinvI)
      (auto simp: store_ok_def dims_def tm_init_def wait_ok_def waiting_ok_def run_ok_def flying_def funded_def run_need_def wait_need_def w sched_init_def)
  then show ?thesis using c b(2) by (simp add: steady_def batch_of_def answered_def w sched_init_def)
qed

lemma booted_budget: "booted env n ps pt ty mr s \<Longrightarrow> sd_budget s = en_max_extend env"
  by (auto simp: booted_def sched_init_def prefill_budget_def cm_init_def bind_eq_Some_conv)

lemma overlapped_steady:
  assumes dp: "deployment env n ps pt ty mr" and bt: "booted env n ps pt ty mr s0" and r: "overlapped env s0 s d"
  shows "\<exists>W live. (\<forall>row\<in>set pt. length row = W) \<and> env_ok env W (length pt) ps \<and> steady env W (length pt, n, mr) ps s d live \<and>
    sd_budget s = sd_budget s0"
proof -
  from dp obtain W where W: "\<forall>row\<in>set pt. length row = W" and e: "env_ok env W (length pt) ps" by (auto simp: deployment_def)
  have e': "env_ok env W (fst (length pt, n, mr)) ps" using e by simp
  from r have "(\<exists>live. steady env W (length pt, n, mr) ps s d live) \<and> sd_budget s = sd_budget s0"
  proof induction
    case start
    then show ?case using booted_steady[OF dp bt W] by blast
  next
    case (iterate s d msgs eng tokens s' d')
    then obtain live where st: "steady env W (length pt, n, mr) ps s d live" by blast
    from overlap_ok[OF st e' iterate(2), of eng] obtain k where
      "if takes k tokens then \<exists>s' d' live'. overlap_loop env msgs eng tokens d s = Some (s', d') \<and> steady env W (length pt, n, mr) ps s' d' live' \<and>
         sd_budget s' = sd_budget s \<and> (msgs = [] \<longrightarrow> progress (d = None \<and> ample (en_max_seq_len env) ps (length pt, n, mr) (sd_budget s)) (work s) (work s') (d' \<noteq> None))
       else overlap_loop env msgs eng tokens d s = None" by blast
    with iterate(3,4) show ?case by (auto split: if_splits)
  qed
  with W e show ?thesis by blast
qed

lemma synchronous_steady:
  assumes dp: "deployment env n ps pt ty mr" and bt: "booted env n ps pt ty mr s0" and r: "synchronous env s0 s"
  shows "\<exists>W live. (\<forall>row\<in>set pt. length row = W) \<and> env_ok env W (length pt) ps \<and> steady env W (length pt, n, mr) ps s None live \<and> sd_last s = None"
proof -
  from dp obtain W where W: "\<forall>row\<in>set pt. length row = W" and e: "env_ok env W (length pt) ps" by (auto simp: deployment_def)
  have e': "env_ok env W (fst (length pt, n, mr)) ps" using e by simp
  from r have "\<exists>live. steady env W (length pt, n, mr) ps s None live \<and> sd_last s = None"
  proof induction
    case boot
    then show ?case using booted_steady[OF dp bt W] by blast
  next
    case (turn s msgs eng tokens s')
    then obtain live where "steady env W (length pt, n, mr) ps s None live" "sd_last s = None" by blast
    from normal_ok[OF this e' turn(2), of eng] obtain k where
      "if takes k tokens then \<exists>s' live'. normal_loop env msgs eng tokens s = Some s' \<and> steady env W (length pt, n, mr) ps s' None live' \<and> sd_last s' = None
       else normal_loop env msgs eng tokens s = None" by blast
    with turn(3) show ?case by (auto split: if_splits)
  qed
  with W e show ?thesis by blast
qed

end
