(* ===== verification/Serving.thy ===== *)
theory Serving
  imports SchedulerSafe
begin

text \<open>
  The scheduler as a system: \<open>run_forever\<close> on a script of messages and engine answers, a small
  deployment to run it on, and the properties of every state it reaches on text traffic.
\<close>

section \<open>The loops of a run\<close>

text \<open>\<open>run_forever\<close>, one list element per iteration: the messages received, the engine's answers to a rebuild, the
  tokens it sampled.\<close>

fun overlap_run :: "env \<Rightarrow> (backend_msg list \<times> (engine_rebuild \<times> engine_rebuild) \<times> int list) list \<Rightarrow>
    forward_data option \<Rightarrow> sched \<Rightarrow> (sched \<times> forward_data option) option" where
  "overlap_run env [] d s = Some (s, d)"
| "overlap_run env ((msgs, eng, tokens) # its) d s = do {
     (s, d) \<leftarrow> overlap_loop env msgs eng tokens d s;
     overlap_run env its d s }"

fun normal_run :: "env \<Rightarrow> (backend_msg list \<times> (engine_rebuild \<times> engine_rebuild) \<times> int list) list \<Rightarrow> sched \<Rightarrow> sched option" where
  "normal_run env [] s = Some s"
| "normal_run env ((msgs, eng, tokens) # its) s = do {
     s \<leftarrow> normal_loop env msgs eng tokens s;
     normal_run env its s }"

section \<open>A small deployment\<close>

text \<open>A small deployment: three table rows of eight slots (the last one for padding), sixteen pages of two slots,
  at most two running requests and six prompt tokens a pass.\<close>

definition ex_table :: "int list list" where
  "ex_table = replicate 3 (replicate 8 0)"

definition ex_env :: env where
  "ex_env = \<lparr>en_eos = [99], en_anchor = None, en_max_seq_len = 8, en_max_extend = 6, en_tp_size = 1, en_mrope = False,
     en_bidirectional = False, en_interval = 4, en_supports_rebuild = False,
     en_dummy = the (new_req False [0] 2 0 1 (-1) ex_params HNaive),
     en_padding = (\<lambda>_. 0), en_decode = (\<lambda>_. []), en_encode = (\<lambda>_. []), en_gpu_mem = 0, en_clk = int\<rparr>"

definition ex_boot :: sched where
  "ex_boot = sched_init ex_env 2 (the (cm_init 16 2 ex_table TRadix None None None None 7 0)) None \<lparr>ge_moe = None, ge_pages = None, ge_mamba = None, ge_swa = None\<rparr>"

definition ex_user :: "int \<Rightarrow> int list \<Rightarrow> nat \<Rightarrow> backend_msg" where
  "ex_user uid ids n = User \<lparr>um_uid = uid, um_input_ids = ids, um_sampling = ex_params\<lparr>smp_max_tokens := n\<rparr>, um_mm_items = [], um_mrope = None, um_mrope_delta = 0\<rparr>"

definition no_engine :: "engine_rebuild \<times> engine_rebuild" where
  "no_engine = (EngineRejected [], EngineRejected [])"

definition tokens_of :: "sched \<Rightarrow> (int \<times> int \<times> bool) list" where
  "tokens_of s = concat (map (\<lambda>m. case m of Detok d \<Rightarrow> [(dt_uid d, dt_next_token d, dt_finished d)] | _ \<Rightarrow> []) (sd_out s))"

definition ex_script :: "(backend_msg list \<times> (engine_rebuild \<times> engine_rebuild) \<times> int list) list" where
  "ex_script = [([ex_user 7 [1, 2, 3] 2], no_engine, [41]), ([], no_engine, [42]), ([], no_engine, [43])]"

lemma ex_deployment: "deployment ex_env 16 2 ex_table TRadix 2"
proof -
  have d: "rq_mm_items (en_dummy ex_env) = []" "rq_table_idx (en_dummy ex_env) = 2" "rq_device_len (en_dummy ex_env) = 1" by code_simp+
  have "page_ceil 2 (en_max_seq_len ex_env) = 8" by code_simp
  then have "env_ok ex_env 8 (length ex_table) 2" using d by (simp add: env_ok_def ex_table_def)
  then show ?thesis unfolding deployment_def by (auto simp: ex_table_def intro!: exI[of _ 8])
qed

lemma ex_booted: "booted ex_env 16 2 ex_table TRadix 2 ex_boot"
proof -
  from cm_init_inv[of 2 TRadix 16 ex_table None None None 7 0] obtain cm where
    "cm_init 16 2 ex_table TRadix None None None None 7 0 = Some cm" by auto
  then show ?thesis unfolding booted_def ex_boot_def by (intro exI[of _ 7] exI[of _ 0] exI[of _ cm]) auto
qed

lemma ex_user_ok: "ids \<noteq> [] \<Longrightarrow> 1 \<le> n \<Longrightarrow> msg_ok ex_env (ex_user uid ids n)"
  by (simp add: ex_user_def)

lemma overlapped_run:
  assumes "overlapped env s0 s d" "\<forall>it\<in>set its. \<forall>m\<in>set (fst it). msg_ok env m" "overlap_run env its d s = Some (s', d')"
  shows "overlapped env s0 s' d'"
  using assms
proof (induction env its d s rule: overlap_run.induct)
  case (2 env msgs eng tokens its d s)
  from 2(4) obtain s1 d1 where o: "overlap_loop env msgs eng tokens d s = Some (s1, d1)" "overlap_run env its d1 s1 = Some (s', d')"
    by (auto simp: bind_eq_Some_conv)
  have "overlapped env s0 s1 d1" by (rule overlapped.iterate[OF 2(2) _ o(1)]) (use 2(3) in simp)
  from 2(1)[OF o(1) refl this _ o(2)] 2(3) show ?case by simp
qed simp

lemma synchronous_run:
  assumes "synchronous env s0 s" "\<forall>it\<in>set its. \<forall>m\<in>set (fst it). msg_ok env m" "normal_run env its s = Some s'"
  shows "synchronous env s0 s'"
  using assms
proof (induction env its s rule: normal_run.induct)
  case (2 env msgs eng tokens its s)
  from 2(4) obtain s1 where o: "normal_loop env msgs eng tokens s = Some s1" "normal_run env its s1 = Some s'"
    by (auto simp: bind_eq_Some_conv)
  have "synchronous env s0 s1" by (rule synchronous.turn[OF 2(2) _ o(1)]) (use 2(3) in simp)
  from 2(1)[OF o(1) this _ o(2)] 2(3) show ?case by simp
qed simp

lemma ex_script_ok: "\<forall>it\<in>set ex_script. \<forall>m\<in>set (fst it). msg_ok ex_env m"
  by (simp add: ex_script_def ex_user_def)

text \<open>The state after two iterations, with a decode batch in flight, and the one after three.\<close>

definition ex_state :: "nat \<Rightarrow> sched \<times> forward_data option" where
  "ex_state k = the (overlap_run ex_env (take k ex_script) None ex_boot)"

lemma ex_reached: "k \<le> 3 \<Longrightarrow> overlapped ex_env ex_boot (fst (ex_state k)) (snd (ex_state k))"
proof -
  assume "k \<le> 3"
  have "\<forall>k\<in>set [0, 1, 2, 3]. overlap_run ex_env (take k ex_script) None ex_boot \<noteq> None" by code_simp
  moreover have "k \<in> set [0, 1, 2, 3]" using \<open>k \<le> 3\<close> by auto
  ultimately have "overlap_run ex_env (take k ex_script) None ex_boot \<noteq> None" by blast
  then have "overlap_run ex_env (take k ex_script) None ex_boot = Some (fst (ex_state k), snd (ex_state k))" by (simp add: ex_state_def)
  then show ?thesis
    by (rule overlapped_run[OF overlapped.start, rotated]) (use ex_script_ok in \<open>auto dest: in_set_takeD\<close>)
qed

section \<open>Idle states\<close>

lemma idle_clean:
  assumes inv: "sched_inv {} W R M s {} [] [] live" and lz: "cm_lazy (w_cm (sd_w s)) = None"
    and idle: "pm_pending (sd_pm s) = []" "dm_running (sd_dm s) = []"
  shows "cm_check_integrity (w_cm (sd_w s)) = Some () \<and>
    available_size (w_cm (sd_w s)) = int (cm_num_pages (w_cm (sd_w s)) * cm_page_size (w_cm (sd_w s))) \<and>
    mset (tm_free_slots (w_tm (sd_w s))) = mset [0..<tm_max (w_tm (sd_w s))]"
proof -
  have "live = []"
  proof (rule ccontr)
    assume "live \<noteq> []"
    then obtain i where "i \<in> set live" by (cases live) auto
    then have "placed [] [] (sd_dm s) (pm_pending (sd_pm s)) i (the (req_at s i))" using sinv_placed[OF inv] by simp
    then show False using idle by (auto simp: placed_def split: if_splits)
  qed
  then have lv: "cm_inv (w_cm (sd_w s)) []" "rows_ok (w_tm (sd_w s)) []" using sinv_live[OF inv] by (simp_all add: live_ok_def)
  have "mset (map int (tm_free_slots (w_tm (sd_w s)))) = mset (map int [0..<tm_max (w_tm (sd_w s))])" using lv(2) by (simp add: rows_ok_def)
  from arg_cong[OF this, of "image_mset nat"] have "mset (tm_free_slots (w_tm (sd_w s))) = mset [0..<tm_max (w_tm (sd_w s))]"
    by (simp add: multiset.map_comp comp_def flip: mset_map)
  moreover have "available_size (w_cm (sd_w s)) = int (cm_num_pages (w_cm (sd_w s)) * cm_page_size (w_cm (sd_w s)))"
    using available_room[OF lv(1) lz] by (simp add: room_def locked_len_def page_prefixes_def)
  ultimately show ?thesis using idle_integrity[OF lv(1) lz] by blast
qed

section \<open>Safety\<close>

text \<open>C1: The overlapped scheduler never fails: in every state it reaches from a fresh start on text traffic (prompts,
  aborts, declined rebuilds, in any order), the next iteration raises nothing, whatever messages arrive and whatever
  tokens the engine samples, one for each request of the batch it was given.\<close>

theorem overlap_never_fails:
  assumes "deployment env n ps pt ty mr" "booted env n ps pt ty mr s0" "overlapped env s0 s d" "\<forall>m\<in>set msgs. msg_ok env m"
  shows "\<exists>k. \<forall>tokens. takes k tokens \<longrightarrow> (\<exists>s' d'. overlap_loop env msgs eng tokens d s = Some (s', d') \<and> answered d')"
proof -
  from overlapped_steady[OF assms(1-3)] obtain W live where w: "env_ok env W (fst (length pt, n, mr)) ps" "steady env W (length pt, n, mr) ps s d live" by auto
  from overlap_ok[OF w(2,1) assms(4), of eng] obtain k where k: "\<forall>tokens. if takes k tokens then
      \<exists>s' d' live'. overlap_loop env msgs eng tokens d s = Some (s', d') \<and> steady env W (length pt, n, mr) ps s' d' live' \<and>
        sd_budget s' = sd_budget s \<and> (msgs = [] \<longrightarrow> progress (d = None \<and> ample (en_max_seq_len env) ps (length pt, n, mr) (sd_budget s)) (work s) (work s') (d' \<noteq> None))
      else overlap_loop env msgs eng tokens d s = None" by blast
  have "\<exists>s' d'. overlap_loop env msgs eng tokens d s = Some (s', d') \<and> answered d'" if "takes k tokens" for tokens
    using k that unfolding steady_def by meson
  then show ?thesis by blast
qed

theorem overlap_never_fails_witness:
  "\<exists>k. \<forall>tokens. takes k tokens \<longrightarrow> (\<exists>s' d'. overlap_loop ex_env [Abort 7, ex_user 8 [1, 2, 4] 3] no_engine tokens
     (snd (ex_state 2)) (fst (ex_state 2)) = Some (s', d') \<and> answered d')"
  by (rule overlap_never_fails[OF ex_deployment ex_booted ex_reached]) (simp_all add: ex_user_def)

text \<open>C13: The synchronous scheduler never fails either.\<close>

theorem normal_never_fails:
  assumes "deployment env n ps pt ty mr" "booted env n ps pt ty mr s0" "synchronous env s0 s" "\<forall>m\<in>set msgs. msg_ok env m"
  shows "\<exists>k. \<forall>tokens. takes k tokens \<longrightarrow> normal_loop env msgs eng tokens s \<noteq> None"
proof -
  from synchronous_steady[OF assms(1-3)] obtain W live where
    w: "env_ok env W (fst (length pt, n, mr)) ps" "steady env W (length pt, n, mr) ps s None live" "sd_last s = None" by auto
  from normal_ok[OF w(2,3,1) assms(4), of eng] obtain k where "\<forall>tokens. if takes k tokens then
      \<exists>s' live'. normal_loop env msgs eng tokens s = Some s' \<and> steady env W (length pt, n, mr) ps s' None live' \<and> sd_last s' = None
      else normal_loop env msgs eng tokens s = None" by blast
  then have "\<forall>tokens. takes k tokens \<longrightarrow> normal_loop env msgs eng tokens s \<noteq> None" by (auto split: if_splits)
  then show ?thesis by blast
qed

theorem normal_never_fails_witness:
  "\<exists>k. \<forall>tokens. takes k tokens \<longrightarrow> normal_loop ex_env [ex_user 7 [1, 2, 3] 2] no_engine tokens ex_boot \<noteq> None"
  by (rule normal_never_fails[OF ex_deployment ex_booted synchronous.boot]) (simp add: ex_user_def)

text \<open>C2: In every reachable state the books balance exactly: the live requests each wait, run or are in the batch in
  flight; every KV slot of the pool occurs exactly once among the free pages, the prefix tree and the slots the live
  requests hold themselves, so none is leaked and none is shared; and every table row is free or held by exactly one of
  them.\<close>

theorem serving_books:
  assumes "deployment env n ps pt ty mr" "booted env n ps pt ty mr s0" "overlapped env s0 s d"
  shows "\<exists>live. distinct live \<and> set (dm_running (sd_dm s)) \<union> set (chunk_ids (pm_pending (sd_pm s))) \<subseteq> set live \<and>
    (\<forall>i\<in>set live. placed (batch_of d) [] (sd_dm s) (pm_pending (sd_pm s)) i (the (req_at s i))) \<and>
    (let cm = w_cm (sd_w s); rs = objs (sd_w s) live; xs = page_to_token (cm_page_size cm) (cm_free_slots cm) @ concat (map (own_slice cm) rs)
     in mset xs + pc_own (cm_prefix cm) = mset (map int [0..<cm_num_pages cm * cm_page_size cm]) \<and>
        distinct xs \<and> (\<forall>x\<in>set xs. x \<notin># pc_own (cm_prefix cm) \<and> 0 \<le> x \<and> x < int (cm_num_pages cm * cm_page_size cm)) \<and>
        mset (map int (tm_free_slots (w_tm (sd_w s)))) + mset (map rq_table_idx rs) = mset (map int [0..<tm_max (w_tm (sd_w s))]))"
proof -
  from overlapped_steady[OF assms] obtain W live where "steady env W (length pt, n, mr) ps s d live" by blast
  then have inv: "sched_inv {} W (length pt, n, mr) (en_max_seq_len env) s {} (batch_of d) [] live" and lz: "cm_lazy (w_cm (sd_w s)) = None"
    by (simp_all add: steady_def)
  have lv: "distinct live" "cm_inv (w_cm (sd_w s)) (objs (sd_w s) live)" "rows_ok (w_tm (sd_w s)) (objs (sd_w s) live)"
    using sinv_live[OF inv] by (simp_all add: live_ok_def)
  have "frees (w_cm (sd_w s)) = cm_free_slots (w_cm (sd_w s))" using lz by (simp add: frees_def)
  moreover have "set (dm_running (sd_dm s)) \<union> set (chunk_ids (pm_pending (sd_pm s))) \<subseteq> set live"
    using sinv_run[OF inv] sinv_wait[OF inv] by (fastforce simp: run_ok_def wait_ok_def waiting_ok_def pend_ok_def chunk_ids_iff)
  ultimately show ?thesis
    using lv sinv_placed[OF inv] books_exact[OF lv(2)] books_distinct[OF lv(2)] unfolding Let_def rows_ok_def by (intro exI[of _ live]) simp
qed

theorem serving_books_witness:
  "\<exists>live. 0 \<in> set live \<and> distinct live \<and> own_slice (w_cm (sd_w (fst (ex_state 1)))) (the (req_at (fst (ex_state 1)) 0)) \<noteq> [] \<and>
    (let cm = w_cm (sd_w (fst (ex_state 1))); xs = page_to_token (cm_page_size cm) (cm_free_slots cm) @ concat (map (own_slice cm) (objs (sd_w (fst (ex_state 1))) live))
     in mset xs + pc_own (cm_prefix cm) = mset (map int [0..<cm_num_pages cm * cm_page_size cm]))"
proof -
  have e: "dm_running (sd_dm (fst (ex_state 1))) = [0]"
    "own_slice (w_cm (sd_w (fst (ex_state 1)))) (the (req_at (fst (ex_state 1)) 0)) \<noteq> []" by code_simp+
  have "1 \<le> (3::nat)" by simp
  from serving_books[OF ex_deployment ex_booted ex_reached[OF this], unfolded Let_def] obtain live where
    live: "distinct live" "0 \<in> set live"
      "let cm = w_cm (sd_w (fst (ex_state 1))); xs = page_to_token (cm_page_size cm) (cm_free_slots cm) @ concat (map (own_slice cm) (objs (sd_w (fst (ex_state 1))) live))
       in mset xs + pc_own (cm_prefix cm) = mset (map int [0..<cm_num_pages cm * cm_page_size cm])"
    unfolding e(1) Let_def by auto
  then show ?thesis using e(2) by (intro exI[of _ live] conjI)
qed

text \<open>C3: Nothing leaks: whenever nothing waits, runs or is in flight, every table row is free again, the cache passes
  its own integrity check, and the whole pool can be allocated.\<close>

theorem idle_no_leak:
  assumes "deployment env n ps pt ty mr" "booted env n ps pt ty mr s0" "overlapped env s0 s None"
    and "pm_pending (sd_pm s) = []" "dm_running (sd_dm s) = []"
  shows "cm_check_integrity (w_cm (sd_w s)) = Some () \<and>
    available_size (w_cm (sd_w s)) = int (cm_num_pages (w_cm (sd_w s)) * cm_page_size (w_cm (sd_w s))) \<and>
    mset (tm_free_slots (w_tm (sd_w s))) = mset [0..<tm_max (w_tm (sd_w s))]"
proof -
  from overlapped_steady[OF assms(1-3)] obtain W live where "steady env W (length pt, n, mr) ps s None live" by blast
  then have inv: "sched_inv {} W (length pt, n, mr) (en_max_seq_len env) s {} [] [] live" and lz: "cm_lazy (w_cm (sd_w s)) = None"
    by (simp_all add: steady_def batch_of_def)
  show ?thesis by (rule idle_clean[OF inv lz assms(4,5)])
qed

theorem idle_no_leak_witness:
  "cm_check_integrity (w_cm (sd_w (fst (ex_state 3)))) = Some () \<and> tokens_of (fst (ex_state 3)) = [(7, 41, True)]"
proof -
  have e: "snd (ex_state 3) = None" "pm_pending (sd_pm (fst (ex_state 3))) = []" "dm_running (sd_dm (fst (ex_state 3))) = []"
    "tokens_of (fst (ex_state 3)) = [(7, 41, True)]" by code_simp+
  have "overlapped ex_env ex_boot (fst (ex_state 3)) None" using ex_reached[of 3] e(1) by simp
  from idle_no_leak[OF ex_deployment ex_booted this e(2,3)] e(4) show ?thesis by simp
qed

text \<open>C4: No admitted request ever has to be preempted: in every reachable state the pages that the running requests and
  the half-prefilled prompts need up to their output limit can be allocated.\<close>

theorem admitted_work_fits:
  assumes "deployment env n ps pt ty mr" "booted env n ps pt ty mr s0" "overlapped env s0 s d"
  shows "run_need (sd_w s) (set (dm_running (sd_dm s))) +
    wait_need (cm_page_size (w_cm (sd_w s))) (w_reqs (sd_w s)) (pm_pending (sd_pm s)) \<le> available_size (w_cm (sd_w s))"
proof -
  from overlapped_steady[OF assms] obtain W live where "steady env W (length pt, n, mr) ps s d live" by blast
  then have inv: "sched_inv {} W (length pt, n, mr) (en_max_seq_len env) s {} (batch_of d) [] live" and lz: "cm_lazy (w_cm (sd_w s)) = None"
    by (simp_all add: steady_def)
  have "cm_inv (w_cm (sd_w s)) (objs (sd_w s) live)" using sinv_live[OF inv] by (simp add: live_ok_def)
  from available_room[OF this lz] sinv_funded[OF inv] show ?thesis by (simp add: funded_def)
qed

theorem admitted_work_fits_witness:
  "run_need (sd_w (fst (ex_state 1))) (set (dm_running (sd_dm (fst (ex_state 1))))) \<le> available_size (w_cm (sd_w (fst (ex_state 1)))) \<and>
   dm_running (sd_dm (fst (ex_state 1))) = [0]"
proof -
  have "pm_pending (sd_pm (fst (ex_state 1))) = []" "dm_running (sd_dm (fst (ex_state 1))) = [0]" by code_simp+
  with admitted_work_fits[OF ex_deployment ex_booted ex_reached, of 1] show ?thesis by (simp add: wait_need_def)
qed

section \<open>Termination\<close>

text \<open>What an idle scheduler and its engine still owe: twice the work left, and the batch in flight.\<close>

definition owed :: "sched \<Rightarrow> forward_data option \<Rightarrow> nat" where
  "owed s d = 2 * work s + (if d = None then 0 else 1)"

lemma owed_zero:
  assumes st: "steady env W R ps s d live" and z: "owed s d = 0"
  shows "d = None \<and> pm_pending (sd_pm s) = [] \<and> dm_running (sd_dm s) = []"
proof -
  have inv: "sched_inv {} W R (en_max_seq_len env) s {} (batch_of d) [] live" using st by (simp add: steady_def)
  have w: "d = None" "work s = 0" using z by (simp_all add: owed_def split: if_splits)
  have "pm_pending (sd_pm s) = []"
  proof (rule ccontr)
    assume "pm_pending (sd_pm s) \<noteq> []"
    then obtain p where p: "p \<in> set (pm_pending (sd_pm s))" by (cases "pm_pending (sd_pm s)") auto
    have "prompt_ok (en_max_seq_len env) p" "pend_ok W (sd_w s) live p" using sinv_wait[OF inv] p by (auto simp: wait_ok_def waiting_ok_def)
    then have "0 < prompt_left (w_reqs (sd_w s)) p" by (auto simp: prompt_left_def prompt_ok_def pend_ok_def Let_def split: option.splits)
    with w(2) p show False by (auto simp: work_left_def)
  qed
  moreover have "dm_running (sd_dm s) = []"
  proof (rule ccontr)
    assume "dm_running (sd_dm s) \<noteq> []"
    then obtain i where i: "i \<in> set (dm_running (sd_dm s))" by (cases "dm_running (sd_dm s)") auto
    have "can_decode (the (req_at s i))" using sinv_run[OF inv] i by (simp add: run_ok_def)
    then have "0 < decode_left (w_reqs (sd_w s)) i" by (simp add: decode_left_def can_decode_def remain_len_def)
    with w(2) i show False by (auto simp: work_left_def)
  qed
  ultimately show ?thesis using w(1) by simp
qed

lemma quiet_iteration:
  assumes st: "steady env W R ps s d live" and e: "env_ok env W (fst R) ps" and am: "ample (en_max_seq_len env) ps R (sd_budget s)"
  shows "\<exists>k. \<forall>tokens. if takes k tokens then \<exists>s' d' live'. overlap_loop env [] eng tokens d s = Some (s', d') \<and>
      steady env W R ps s' d' live' \<and> sd_budget s' = sd_budget s \<and> owed s' d' \<le> owed s d - 1
    else overlap_loop env [] eng tokens d s = None"
proof -
  have "\<forall>m\<in>set []. msg_ok env m" by simp
  from overlap_ok[OF st e this, of eng] obtain k where k: "\<forall>tokens. if takes k tokens then
      \<exists>s' d' live'. overlap_loop env [] eng tokens d s = Some (s', d') \<and> steady env W R ps s' d' live' \<and> sd_budget s' = sd_budget s \<and>
      (([]::backend_msg list) = [] \<longrightarrow> progress (d = None \<and> ample (en_max_seq_len env) ps R (sd_budget s)) (work s) (work s') (d' \<noteq> None))
    else overlap_loop env [] eng tokens d s = None" by (rule exE)
  have o: "owed s' d' \<le> owed s d - 1" if "progress (d = None \<and> ample (en_max_seq_len env) ps R (sd_budget s)) (work s) (work s') (d' \<noteq> None)"
    for s' d' using that am by (auto simp: progress_def owed_def split: if_splits)
  show ?thesis
  proof (intro exI[of _ k] allI)
    fix tokens
    from k[rule_format, of tokens] o show "if takes k tokens then \<exists>s' d' live'. overlap_loop env [] eng tokens d s = Some (s', d') \<and>
        steady env W R ps s' d' live' \<and> sd_budget s' = sd_budget s \<and> owed s' d' \<le> owed s d - 1
      else overlap_loop env [] eng tokens d s = None" by (cases "takes k tokens") auto
  qed
qed

lemma quiet_run:
  assumes "steady env W R ps s d live" "env_ok env W (fst R) ps" "ample (en_max_seq_len env) ps R (sd_budget s)"
    "\<forall>it\<in>set its. fst it = []" "overlap_run env its d s = Some (s', d')" "owed s d \<le> length its"
  shows "\<exists>live'. steady env W R ps s' d' live' \<and> owed s' d' = 0"
  using assms
proof (induction its arbitrary: s d live)
  case Nil
  then show ?case by auto
next
  case (Cons it its)
  obtain eng tokens where it: "it = ([], eng, tokens)" using Cons.prems(4) by (cases it) auto
  from Cons.prems(5) it obtain s1 d1 where o: "overlap_loop env [] eng tokens d s = Some (s1, d1)" "overlap_run env its d1 s1 = Some (s', d')"
    by (auto simp: bind_eq_Some_conv)
  obtain k where "if takes k tokens then \<exists>s' d' live'. overlap_loop env [] eng tokens d s = Some (s', d') \<and>
      steady env W R ps s' d' live' \<and> sd_budget s' = sd_budget s \<and> owed s' d' \<le> owed s d - 1
    else overlap_loop env [] eng tokens d s = None" using quiet_iteration[OF Cons.prems(1-3), of eng] by blast
  with o(1) obtain live1 where st: "steady env W R ps s1 d1 live1" "sd_budget s1 = sd_budget s" "owed s1 d1 \<le> owed s d - 1"
    by (auto split: if_splits)
  with Cons.IH[OF st(1) Cons.prems(2) _ _ o(2)] Cons.prems(3,4,6) show ?case by simp
qed

lemma quiet_run_exists:
  assumes "steady env W R ps s d live" "env_ok env W (fst R) ps" "ample (en_max_seq_len env) ps R (sd_budget s)"
  shows "\<exists>its. length its = m \<and> (\<forall>it\<in>set its. fst it = []) \<and> overlap_run env its d s \<noteq> None"
  using assms
proof (induction m arbitrary: s d live)
  case 0
  then show ?case by auto
next
  case (Suc m)
  from quiet_iteration[OF Suc.prems, of no_engine] obtain k where k: "\<forall>tokens. if takes k tokens then
      \<exists>s' d' live'. overlap_loop env [] no_engine tokens d s = Some (s', d') \<and> steady env W R ps s' d' live' \<and>
      sd_budget s' = sd_budget s \<and> owed s' d' \<le> owed s d - 1 else overlap_loop env [] no_engine tokens d s = None" by (rule exE)
  have "takes k (replicate (the k) 0)" by (cases k) (simp_all add: takes_def)
  with k[rule_format, of "replicate (the k) 0"] obtain s1 d1 live1 where
    o: "overlap_loop env [] no_engine (replicate (the k) 0) d s = Some (s1, d1)" and st: "steady env W R ps s1 d1 live1" "sd_budget s1 = sd_budget s" by auto
  from Suc.IH[OF st(1) Suc.prems(2)] Suc.prems(3) st(2) obtain its where
    "length its = m" "\<forall>it\<in>set its. fst it = []" "overlap_run env its d1 s1 \<noteq> None" by auto
  then show ?case using o by (intro exI[of _ "([], no_engine, replicate (the k) 0) # its"]) auto
qed

text \<open>C5: Every accepted request is served to its end: when no more messages arrive, the scheduler is idle again, nothing
  waiting, running or in flight, after at most \<open>owed s d\<close> further iterations, whatever the engine samples; and an engine
  that answers each batch with one token per request lets all these iterations run. The prompt at the head of the queue
  is never starved.\<close>

theorem quiet_scheduler_drains:
  assumes "deployment env n ps pt ty mr" "booted env n ps pt ty mr s0" "overlapped env s0 s d"
    and "en_max_seq_len env \<le> n * ps" "0 < mr" "0 < en_max_extend env"
  shows "(\<exists>its. length its = owed s d \<and> (\<forall>it\<in>set its. fst it = []) \<and> overlap_run env its d s \<noteq> None) \<and>
    (\<forall>its s' d'. (\<forall>it\<in>set its. fst it = []) \<and> overlap_run env its d s = Some (s', d') \<and> owed s d \<le> length its \<longrightarrow>
       d' = None \<and> pm_pending (sd_pm s') = [] \<and> dm_running (sd_dm s') = [])"
proof -
  from overlapped_steady[OF assms(1-3)] obtain W live where w: "env_ok env W (fst (length pt, n, mr)) ps" "steady env W (length pt, n, mr) ps s d live"
    "sd_budget s = sd_budget s0" by auto
  have am: "ample (en_max_seq_len env) ps (length pt, n, mr) (sd_budget s)" using assms(4-6) w(3) booted_budget[OF assms(2)] by (simp add: ample_def)
  show ?thesis using quiet_run_exists[OF w(2,1) am] quiet_run[OF w(2,1) am] owed_zero by blast
qed

definition ex_quiet :: "(backend_msg list \<times> (engine_rebuild \<times> engine_rebuild) \<times> int list) list" where
  "ex_quiet = [([], no_engine, [42]), ([], no_engine, [43]), ([], no_engine, [])]"

theorem quiet_scheduler_drains_witness:
  "owed (fst (ex_state 1)) (snd (ex_state 1)) = 3 \<and> (\<exists>s' d'. overlap_run ex_env ex_quiet (snd (ex_state 1)) (fst (ex_state 1)) = Some (s', d') \<and>
     d' = None \<and> pm_pending (sd_pm s') = [] \<and> dm_running (sd_dm s') = [])"
proof -
  have o: "owed (fst (ex_state 1)) (snd (ex_state 1)) = 3" by code_simp
  have "overlap_run ex_env ex_quiet (snd (ex_state 1)) (fst (ex_state 1)) \<noteq> None" by code_simp
  then obtain s' d' where r: "overlap_run ex_env ex_quiet (snd (ex_state 1)) (fst (ex_state 1)) = Some (s', d')" by auto
  have e: "en_max_seq_len ex_env \<le> 16 * 2" "0 < en_max_extend ex_env" "length ex_quiet = 3" by code_simp+
  have q: "\<forall>it\<in>set ex_quiet. fst it = []" by (simp add: ex_quiet_def)
  have "owed (fst (ex_state 1)) (snd (ex_state 1)) \<le> length ex_quiet" using o e(3) by simp
  moreover have "1 \<le> (3::nat)" "0 < (2::nat)" by simp_all
  ultimately have "d' = None \<and> pm_pending (sd_pm s') = [] \<and> dm_running (sd_dm s') = []"
    using quiet_scheduler_drains[OF ex_deployment ex_booted ex_reached e(1) _ e(2), of 1] q r by blast
  with o r show ?thesis by blast
qed

section \<open>The two loops differ\<close>

text \<open>The loops do not agree on the output limit: with a limit of two tokens the synchronous loop answers two, and
  the overlapped one ends the request after the first, because the length test of a drained token reads the lengths
  of a request that the next, already launched, decode step has moved on.\<close>

theorem overlap_drops_last_token:
  "map_option tokens_of (normal_run ex_env ex_script ex_boot) = Some [(7, 41, False), (7, 42, True)] \<and>
   map_option (tokens_of \<circ> fst) (overlap_run ex_env ex_script None ex_boot) = Some [(7, 41, True)]"
proof
  show "map_option tokens_of (normal_run ex_env ex_script ex_boot) = Some [(7, 41, False), (7, 42, True)]" by code_simp
  show "map_option (tokens_of \<circ> fst) (overlap_run ex_env ex_script None ex_boot) = Some [(7, 41, True)]" by code_simp
qed

end
