(* ===== verification/Detokenize.thy ===== *)
theory Detokenize
  imports SchedulerCore
begin

text \<open>
  \<^verbatim>\<open>tokenizer/detokenize.py\<close>: the sampled tokens of each request become the text deltas that are streamed to the
  client. The decoder (\<open>batch_decode\<close> of the tokenizer, third-party code) is the parameter \<open>dec\<close>; \<open>batch_decode\<close>
  decodes each list by itself. The properties are for byte-level decoders (the joined bytes of the tokens, read as
  UTF-8 with replacement), whose vocabulary is a parameter.
\<close>

section \<open>Printable text\<close>

definition is_chinese_char :: "nat \<Rightarrow> bool" where
  "is_chinese_char cp \<longleftrightarrow>
     (0x4E00 \<le> cp \<and> cp \<le> 0x9FFF) \<or> (0x3400 \<le> cp \<and> cp \<le> 0x4DBF) \<or> (0x20000 \<le> cp \<and> cp \<le> 0x2A6DF) \<or>
     (0x2A700 \<le> cp \<and> cp \<le> 0x2B73F) \<or> (0x2B740 \<le> cp \<and> cp \<le> 0x2B81F) \<or> (0x2B820 \<le> cp \<and> cp \<le> 0x2CEAF) \<or>
     (0xF900 \<le> cp \<and> cp \<le> 0xFAFF) \<or> (0x2F800 \<le> cp \<and> cp \<le> 0x2FA1F)"

definition find_printable_text :: "ustr \<Rightarrow> ustr" where
  "find_printable_text t =
     (if suffix [10] t then t
      else if 0 < length t \<and> is_chinese_char (last t) then t
      else if 1 < length t \<and> is_chinese_char (t ! (length t - 2)) then butlast t
      else take (case str_rfind 32 t of None \<Rightarrow> 0 | Some k \<Rightarrow> Suc k) t)"

definition stop_prefix_holdback :: "ustr \<Rightarrow> ustr list \<Rightarrow> nat" where
  "stop_prefix_holdback t stop_strs = fold (\<lambda>stop hold. max hold (hold_tok t stop 0)) stop_strs 0"

section \<open>The manager\<close>

record decode_status =
  ds_ids :: "int list"
  ds_str :: ustr
  ds_read :: nat
  ds_surr :: nat
  ds_sent :: nat

type_synonym decode_map = "int \<Rightarrow> decode_status option"

definition fresh_status :: decode_status where
  "fresh_status = \<lparr>ds_ids = [], ds_str = [], ds_read = 0, ds_surr = 0, ds_sent = 0\<rparr>"

definition discard :: "int \<Rightarrow> decode_map \<Rightarrow> decode_map" where
  "discard uid dm = dm(uid := None)"

text \<open>The first loop: append the token, cut out the ids to decode.\<close>

definition note_token :: "int list \<Rightarrow> detok_msg \<Rightarrow> decode_status \<Rightarrow> decode_status" where
  "note_token eos m s = (if \<not> (dt_finished m \<and> dt_next_token m \<in> set eos) then s\<lparr>ds_ids := ds_ids s @ [dt_next_token m]\<rparr> else s)"

definition status_of :: "int \<Rightarrow> decode_map \<Rightarrow> decode_status" where
  "status_of uid dm = (case dm uid of None \<Rightarrow> fresh_status | Some s \<Rightarrow> s)"

definition read_ids :: "decode_status \<Rightarrow> int list" where
  "read_ids s = drop (ds_surr s) (ds_ids s)"

definition surr_ids :: "decode_status \<Rightarrow> int list" where
  "surr_ids s = take (ds_read s - ds_surr s) (drop (ds_surr s) (ds_ids s))"

fun note_tokens :: "int list \<Rightarrow> detok_msg list \<Rightarrow> decode_map \<Rightarrow> decode_map \<times> (int list \<times> int list) list" where
  "note_tokens eos [] dm = (dm, [])"
| "note_tokens eos (m # ms) dm =
     (let s = note_token eos m (status_of (dt_uid m) dm);
          (dm, idss) = note_tokens eos ms (dm(dt_uid m \<mapsto> s))
      in (dm, (read_ids s, surr_ids s) # idss))"

text \<open>The second loop: the new text, the end of what may be sent, the delta.\<close>

definition new_output :: "ustr \<Rightarrow> ustr \<Rightarrow> decode_status \<Rightarrow> decode_status \<times> ustr" where
  "new_output read_str surr_str s =
     (let new_text = drop (length surr_str) read_str
      in if 0 < length new_text \<and> \<not> suffix [0xFFFD] new_text
         then (s\<lparr>ds_str := ds_str s @ new_text, ds_surr := ds_read s, ds_read := length (ds_ids s)\<rparr>, ds_str s @ new_text)
         else (s, ds_str s @ find_printable_text new_text))"

definition emit_end :: "detok_msg \<Rightarrow> ustr \<Rightarrow> nat" where
  "emit_end m output_str =
     (if dt_finished m then
        (case dt_matched_stop m of
           None \<Rightarrow> length output_str
         | Some stop \<Rightarrow> if stop = [] then length output_str
                        else (case str_find stop output_str of None \<Rightarrow> length output_str | Some c \<Rightarrow> c))
      else (case dt_stop_strs m of
              None \<Rightarrow> length output_str
            | Some stop_strs \<Rightarrow> length output_str - stop_prefix_holdback output_str stop_strs))"

definition emit :: "detok_msg \<Rightarrow> ustr \<Rightarrow> ustr \<Rightarrow> decode_status \<Rightarrow> decode_status \<times> ustr" where
  "emit m read_str surr_str s =
     (let (s, output_str) = new_output read_str surr_str s;
          prev_sent = ds_sent s;
          e = emit_end m output_str
      in (s\<lparr>ds_sent := max prev_sent e\<rparr>, if prev_sent < e then drop prev_sent (take e output_str) else []))"

fun emit_all :: "(detok_msg \<times> ustr \<times> ustr) list \<Rightarrow> decode_map \<Rightarrow> (decode_map \<times> ustr list) option" where
  "emit_all [] dm = Some (dm, [])"
| "emit_all ((m, read_str, surr_str) # rest) dm =
     (case dm (dt_uid m) of
        None \<Rightarrow> None
      | Some s \<Rightarrow>
          let (s, out) = emit m read_str surr_str s;
              dm = (if dt_finished m then dm(dt_uid m := None) else dm(dt_uid m \<mapsto> s))
          in map_option (\<lambda>(dm, outs). (dm, out # outs)) (emit_all rest dm))"

definition detokenize :: "int list \<Rightarrow> (int list \<Rightarrow> ustr) \<Rightarrow> detok_msg list \<Rightarrow> decode_map \<Rightarrow> (decode_map \<times> ustr list) option" where
  "detokenize eos dec msgs dm =
     (let (dm, idss) = note_tokens eos msgs dm
      in emit_all (map2 (\<lambda>m (r, s). (m, dec r, dec s)) msgs idss) dm)"

text \<open>The worker drains its queue again and again.\<close>

fun detok_run :: "int list \<Rightarrow> (int list \<Rightarrow> ustr) \<Rightarrow> detok_msg list list \<Rightarrow> decode_map \<Rightarrow> (decode_map \<times> ustr list list) option" where
  "detok_run eos dec [] dm = Some (dm, [])"
| "detok_run eos dec (b # bs) dm =
     (case detokenize eos dec b dm of
        None \<Rightarrow> None
      | Some (dm, outs) \<Rightarrow> map_option (\<lambda>(dm, outss). (dm, outs # outss)) (detok_run eos dec bs dm))"

section \<open>One request at a time\<close>

text \<open>What one message does to the status of its request.\<close>

definition detok_step :: "int list \<Rightarrow> (int list \<Rightarrow> ustr) \<Rightarrow> detok_msg \<Rightarrow> decode_status \<Rightarrow> decode_status \<times> ustr" where
  "detok_step eos dec m s = (let s = note_token eos m s in emit m (dec (read_ids s)) (dec (surr_ids s)) s)"

definition detok_after :: "int list \<Rightarrow> (int list \<Rightarrow> ustr) \<Rightarrow> detok_msg \<Rightarrow> decode_map \<Rightarrow> decode_map" where
  "detok_after eos dec m dm = (if dt_finished m then dm(dt_uid m := None) else dm(dt_uid m \<mapsto> fst (detok_step eos dec m (status_of (dt_uid m) dm))))"

lemma other_uid: "distinct (map dt_uid (m # ms)) \<Longrightarrow> x \<in> set ms \<Longrightarrow> dt_uid x \<noteq> dt_uid m"
proof
  assume d: "distinct (map dt_uid (m # ms))" and x: "x \<in> set ms" and e: "dt_uid x = dt_uid m"
  have "dt_uid m \<in> dt_uid ` set ms" using imageI[OF x, of dt_uid] unfolding e .
  with d show False by simp
qed

lemma find_other_uid: "distinct (map dt_uid (m # ms)) \<Longrightarrow> find (\<lambda>x. dt_uid x = dt_uid m) ms = None"
  unfolding find_None_iff using other_uid by blast

lemma note_tokens_map:
  "distinct (map dt_uid ms) \<Longrightarrow> note_tokens eos ms dm =
     (\<lambda>i. case find (\<lambda>m. dt_uid m = i) ms of None \<Rightarrow> dm i | Some m \<Rightarrow> Some (note_token eos m (status_of i dm)),
      map (\<lambda>m. let s = note_token eos m (status_of (dt_uid m) dm) in (read_ids s, surr_ids s)) ms)"
proof (induction ms arbitrary: dm)
  case Nil
  then show ?case by simp
next
  case (Cons m ms)
  note n = find_other_uid[OF Cons.prems]
  have o: "status_of (dt_uid x) (dm(dt_uid m \<mapsto> s)) = status_of (dt_uid x) dm" if "x \<in> set ms" for x s
    using other_uid[OF Cons.prems that] by (simp add: status_of_def)
  let ?dm = "dm(dt_uid m \<mapsto> note_token eos m (status_of (dt_uid m) dm))"
  have d: "distinct (map dt_uid ms)" using Cons.prems by simp
  have "(case find (\<lambda>m. dt_uid m = i) ms of None \<Rightarrow> ?dm i | Some m \<Rightarrow> Some (note_token eos m (status_of i ?dm))) =
      (case find (\<lambda>m. dt_uid m = i) (m # ms) of None \<Rightarrow> dm i | Some m \<Rightarrow> Some (note_token eos m (status_of i dm)))" for i
  proof (cases "find (\<lambda>m. dt_uid m = i) ms")
    case None
    then show ?thesis by simp
  next
    case (Some x)
    then have x: "x \<in> set ms" "dt_uid x = i" by (auto simp: find_Some_iff)
    with other_uid[OF Cons.prems x(1)] o[of x] Some show ?thesis by simp
  qed
  moreover have "map (\<lambda>x. let s = note_token eos x (status_of (dt_uid x) ?dm) in (read_ids s, surr_ids s)) ms =
      map (\<lambda>x. let s = note_token eos x (status_of (dt_uid x) dm) in (read_ids s, surr_ids s)) ms"
    by (rule map_cong) (simp_all add: o del: fun_upd_apply)
  ultimately show ?case unfolding note_tokens.simps Let_def Cons.IH[OF d] prod.case list.map by simp
qed

lemma emit_all_map:
  "distinct (map dt_uid ms) \<Longrightarrow> \<forall>m\<in>set ms. dm (dt_uid m) \<noteq> None \<Longrightarrow> emit_all (map (\<lambda>m. (m, f m, g m)) ms) dm =
     Some (\<lambda>i. case find (\<lambda>m. dt_uid m = i) ms of None \<Rightarrow> dm i
                | Some m \<Rightarrow> if dt_finished m then None else Some (fst (emit m (f m) (g m) (the (dm i)))),
           map (\<lambda>m. snd (emit m (f m) (g m) (the (dm (dt_uid m))))) ms)"
proof (induction ms arbitrary: dm)
  case Nil
  then show ?case by simp
next
  case (Cons m ms)
  note n = find_other_uid[OF Cons.prems(1)]
  obtain s where s: "dm (dt_uid m) = Some s" using Cons.prems(2) by auto
  define dm' where "dm' = (if dt_finished m then dm(dt_uid m := None) else dm(dt_uid m \<mapsto> fst (emit m (f m) (g m) s)))"
  have o: "dm' (dt_uid x) = dm (dt_uid x)" if "x \<in> set ms" for x using other_uid[OF Cons.prems(1) that] by (simp add: dm'_def)
  from Cons.IH[of dm'] Cons.prems o have i: "emit_all (map (\<lambda>m. (m, f m, g m)) ms) dm' =
     Some (\<lambda>i. case find (\<lambda>m. dt_uid m = i) ms of None \<Rightarrow> dm' i
                | Some m \<Rightarrow> if dt_finished m then None else Some (fst (emit m (f m) (g m) (the (dm' i)))),
           map (\<lambda>m. snd (emit m (f m) (g m) (the (dm (dt_uid m))))) ms)" by simp
  have c: "(case find (\<lambda>m. dt_uid m = i) ms of None \<Rightarrow> dm' i
        | Some m \<Rightarrow> if dt_finished m then None else Some (fst (emit m (f m) (g m) (the (dm' i))))) =
      (case find (\<lambda>m. dt_uid m = i) (m # ms) of None \<Rightarrow> dm i
        | Some m \<Rightarrow> if dt_finished m then None else Some (fst (emit m (f m) (g m) (the (dm i)))))" for i
  proof (cases "find (\<lambda>m. dt_uid m = i) ms")
    case None
    then show ?thesis using s by (auto simp: dm'_def)
  next
    case (Some x)
    then have x: "x \<in> set ms" "dt_uid x = i" by (auto simp: find_Some_iff)
    with other_uid[OF Cons.prems(1) x(1)] o[of x] Some show ?thesis by simp
  qed
  have "emit_all (map (\<lambda>m. (m, f m, g m)) (m # ms)) dm =
      map_option (\<lambda>(dm, outs). (dm, snd (emit m (f m) (g m) s) # outs)) (emit_all (map (\<lambda>m. (m, f m, g m)) ms) dm')"
    by (simp add: s dm'_def Let_def split: prod.split)
  then show ?case unfolding i option.map prod.case c list.map using s by simp
qed

text \<open>A batch with distinct requests serves each of them as if it were alone.\<close>

lemma detokenize_distinct:
  assumes "distinct (map dt_uid ms)"
  shows "detokenize eos dec ms dm =
     Some (\<lambda>i. case find (\<lambda>m. dt_uid m = i) ms of None \<Rightarrow> dm i | Some m \<Rightarrow> detok_after eos dec m dm i,
           map (\<lambda>m. snd (detok_step eos dec m (status_of (dt_uid m) dm))) ms)"
proof -
  define st where "st m = note_token eos m (status_of (dt_uid m) dm)" for m
  define dm' where "dm' = (\<lambda>i. case find (\<lambda>m. dt_uid m = i) ms of None \<Rightarrow> dm i | Some m \<Rightarrow> Some (note_token eos m (status_of i dm)))"
  have uid: "dt_uid x = i" if "find (\<lambda>m. dt_uid m = i) ms = Some x" for i x using that by (auto simp: find_Some_iff)
  have d: "dm' (dt_uid m) = Some (st m)" if m: "m \<in> set ms" for m
  proof -
    have "find (\<lambda>x. dt_uid x = dt_uid m) ms \<noteq> None" using m by (auto simp: find_None_iff)
    then obtain x where x: "find (\<lambda>x. dt_uid x = dt_uid m) ms = Some x" by blast
    then have "x \<in> set ms" "dt_uid x = dt_uid m" by (auto simp: find_Some_iff)
    then have "x = m" using assms m by (simp add: distinct_map inj_on_def)
    then show ?thesis using x by (simp add: dm'_def st_def)
  qed
  have z: "map2 (\<lambda>m (r, s). (m, dec r, dec s)) ms (map (\<lambda>m. (read_ids (st m), surr_ids (st m))) ms) =
      map (\<lambda>m. (m, dec (read_ids (st m)), dec (surr_ids (st m)))) ms"
    by (induction ms) simp_all
  have "detokenize eos dec ms dm = emit_all (map (\<lambda>m. (m, dec (read_ids (st m)), dec (surr_ids (st m)))) ms) dm'"
    unfolding detokenize_def note_tokens_map[OF assms] Let_def prod.case st_def[symmetric] z dm'_def ..
  also have "\<dots> = Some (\<lambda>i. case find (\<lambda>m. dt_uid m = i) ms of None \<Rightarrow> dm i | Some m \<Rightarrow> detok_after eos dec m dm i,
           map (\<lambda>m. snd (detok_step eos dec m (status_of (dt_uid m) dm))) ms)"
  proof -
    have e: "emit m (dec (read_ids (st m))) (dec (surr_ids (st m))) (st m) = detok_step eos dec m (status_of (dt_uid m) dm)" for m
      by (simp add: detok_step_def st_def Let_def)
    have "\<forall>m\<in>set ms. dm' (dt_uid m) \<noteq> None" using d by simp
    note i = emit_all_map[OF assms this, of "\<lambda>m. dec (read_ids (st m))" "\<lambda>m. dec (surr_ids (st m))"]
    have a: "(case find (\<lambda>m. dt_uid m = i) ms of None \<Rightarrow> dm' i | Some m \<Rightarrow> if dt_finished m then None
        else Some (fst (emit m (dec (read_ids (st m))) (dec (surr_ids (st m))) (the (dm' i))))) =
      (case find (\<lambda>m. dt_uid m = i) ms of None \<Rightarrow> dm i | Some m \<Rightarrow> detok_after eos dec m dm i)" for i
    proof (cases "find (\<lambda>m. dt_uid m = i) ms")
      case None
      then show ?thesis by (simp add: dm'_def)
    next
      case (Some m)
      then have "m \<in> set ms" "dt_uid m = i" by (auto simp: find_Some_iff)
      with d[of m] Some e[of m] show ?thesis by (simp add: detok_after_def)
    qed
    have b: "map (\<lambda>m. snd (emit m (dec (read_ids (st m))) (dec (surr_ids (st m))) (the (dm' (dt_uid m))))) ms =
      map (\<lambda>m. snd (detok_step eos dec m (status_of (dt_uid m) dm))) ms" by (rule map_cong) (simp_all add: d e)
    show ?thesis unfolding i a b ..
  qed
  finally show ?thesis .
qed

fun detok_stream :: "int list \<Rightarrow> (int list \<Rightarrow> ustr) \<Rightarrow> detok_msg list \<Rightarrow> decode_status option \<Rightarrow> decode_status option \<times> ustr" where
  "detok_stream eos dec [] s = (s, [])"
| "detok_stream eos dec (m # ms) s =
     (let (s, out) = detok_step eos dec m (case s of None \<Rightarrow> fresh_status | Some s \<Rightarrow> s);
          (s, outs) = detok_stream eos dec ms (if dt_finished m then None else Some s)
      in (s, out @ outs))"

definition outputs_of :: "int \<Rightarrow> detok_msg list list \<Rightarrow> ustr list list \<Rightarrow> ustr" where
  "outputs_of uid bs outss = concat (map snd (filter (\<lambda>(m, out). dt_uid m = uid) (concat (map2 zip bs outss))))"

lemma outputs_of_Cons: "outputs_of uid (b # bs) (outs # outss) =
    concat (map snd (filter (\<lambda>(m, out). dt_uid m = uid) (zip b outs))) @ outputs_of uid bs outss"
  by (simp add: outputs_of_def)

definition msgs_of :: "int \<Rightarrow> detok_msg list list \<Rightarrow> detok_msg list" where
  "msgs_of uid bs = filter (\<lambda>m. dt_uid m = uid) (concat bs)"

lemma filter_distinct_uid:
  "distinct (map dt_uid ms) \<Longrightarrow> filter (\<lambda>m. dt_uid m = u) ms = (case find (\<lambda>m. dt_uid m = u) ms of None \<Rightarrow> [] | Some m \<Rightarrow> [m])"
proof (induction ms)
  case (Cons m ms)
  have "filter (\<lambda>x. dt_uid x = dt_uid m) ms = []" unfolding filter_empty_conv using other_uid[OF Cons.prems] by blast
  then show ?case using Cons by auto
qed simp

lemma detok_stream_append:
  "detok_stream eos dec (xs @ ys) s =
     (let (s, a) = detok_stream eos dec xs s; (s, b) = detok_stream eos dec ys s in (s, a @ b))"
  by (induction xs arbitrary: s) (auto simp: Let_def split: prod.splits)

lemma batch_stream:
  assumes "distinct (map dt_uid b)" "detokenize eos dec b dm = Some (dm', outs)"
  shows "(dm' u, concat (map snd (filter (\<lambda>(m, out). dt_uid m = u) (zip b outs)))) = detok_stream eos dec (filter (\<lambda>m. dt_uid m = u) b) (dm u)"
proof -
  define f where "f m = snd (detok_step eos dec m (status_of (dt_uid m) dm))" for m
  have o: "outs = map f b" and d: "dm' u = (case find (\<lambda>m. dt_uid m = u) b of None \<Rightarrow> dm u | Some m \<Rightarrow> detok_after eos dec m dm u)"
    using assms by (auto simp: detokenize_distinct f_def[abs_def])
  have "map snd (filter (\<lambda>(m, out). dt_uid m = u) (zip b (map f b))) = map f (filter (\<lambda>m. dt_uid m = u) b)"
    by (induction b) auto
  then have e: "concat (map snd (filter (\<lambda>(m, out). dt_uid m = u) (zip b outs))) = concat (map f (filter (\<lambda>m. dt_uid m = u) b))"
    unfolding o by simp
  show ?thesis
  proof (cases "find (\<lambda>m. dt_uid m = u) b")
    case None
    then show ?thesis unfolding e d filter_distinct_uid[OF assms(1)] by simp
  next
    case (Some m)
    then have "dt_uid m = u" by (auto simp: find_Some_iff)
    then show ?thesis unfolding e d filter_distinct_uid[OF assms(1)] Some
      by (simp add: f_def detok_after_def status_of_def split: prod.split)
  qed
qed

lemma detok_run_stream:
  "\<forall>b\<in>set bs. distinct (map dt_uid b) \<Longrightarrow> \<exists>dm' outss. detok_run eos dec bs dm = Some (dm', outss) \<and>
     (\<forall>u. (dm' u, outputs_of u bs outss) = detok_stream eos dec (msgs_of u bs) (dm u))"
proof (induction bs arbitrary: dm)
  case Nil
  then show ?case by (simp add: outputs_of_def msgs_of_def)
next
  case (Cons b bs)
  then have b: "distinct (map dt_uid b)" by simp
  obtain dm1 outs where o: "detokenize eos dec b dm = Some (dm1, outs)" using detokenize_distinct[OF b] by blast
  from Cons.IH[of dm1] Cons.prems obtain dm' outss where r: "detok_run eos dec bs dm1 = Some (dm', outss)"
    "\<And>u. (dm' u, outputs_of u bs outss) = detok_stream eos dec (msgs_of u bs) (dm1 u)" by auto
  have "(dm' u, outputs_of u (b # bs) (outs # outss)) = detok_stream eos dec (msgs_of u (b # bs)) (dm u)" for u
  proof -
    let ?f = "filter (\<lambda>m. dt_uid m = u) b" and ?o = "concat (map snd (filter (\<lambda>(m, out). dt_uid m = u) (zip b outs)))"
    have "detok_stream eos dec (msgs_of u (b # bs)) (dm u) = detok_stream eos dec (?f @ msgs_of u bs) (dm u)" by (simp add: msgs_of_def)
    also have "\<dots> = (dm' u, ?o @ outputs_of u bs outss)"
      unfolding detok_stream_append batch_stream[OF b o, of u, symmetric] Let_def prod.case r(2)[of u, symmetric] ..
    also have "\<dots> = (dm' u, outputs_of u (b # bs) (outs # outss))" unfolding outputs_of_Cons ..
    finally show ?thesis ..
  qed
  then show ?case using o r(1) by auto
qed

section \<open>The text of one request\<close>

text \<open>What the offsets of the manager rely on: a text that does not end in a replacement character is complete, the
  decoding of further tokens is then the same after any window that precedes them, and a decoder revises nothing but
  trailing replacement characters.\<close>

definition text_done :: "ustr \<Rightarrow> bool" where
  "text_done t \<longleftrightarrow> \<not> suffix [0xFFFD] t"

definition settled_text :: "ustr \<Rightarrow> ustr" where
  "settled_text t = rev (dropWhile (\<lambda>c. c = 0xFFFD) (rev t))"

definition good_decoder :: "(int list \<Rightarrow> ustr) \<Rightarrow> bool" where
  "good_decoder dec \<longleftrightarrow> dec [] = [] \<and>
     (\<forall>w s r. (s \<noteq> [] \<or> w = []) \<and> text_done (dec w) \<and> text_done (dec (w @ s)) \<longrightarrow>
        dec (w @ s @ r) = dec (w @ s) @ drop (length (dec s)) (dec (s @ r))) \<and>
     (\<forall>xs ys. prefix (settled_text (dec xs)) (dec (xs @ ys)))"

lemma settled_split: "\<exists>n. t = settled_text t @ replicate n 0xFFFD"
proof -
  have "rev t = takeWhile (\<lambda>c. c = 0xFFFD) (rev t) @ dropWhile (\<lambda>c. c = 0xFFFD) (rev t)" by simp
  then have "t = settled_text t @ rev (takeWhile (\<lambda>c. c = 0xFFFD) (rev t))" unfolding settled_text_def by (metis rev_append rev_rev_ident)
  moreover have "rev (takeWhile (\<lambda>c. c = 0xFFFD) (rev t)) = replicate (length (takeWhile (\<lambda>c. c = 0xFFFD) (rev t))) 0xFFFD"
    by (rule replicate_eqI) (auto dest: set_takeWhileD)
  ultimately show ?thesis by metis
qed

lemma text_done_append: "text_done a \<Longrightarrow> text_done b \<Longrightarrow> text_done (a @ b)"
  by (cases b rule: rev_cases) (auto simp: text_done_def append_assoc[symmetric] simp del: append_assoc)

text \<open>A decoder that decodes token by token is good.\<close>

lemma tokenwise_good: "good_decoder (\<lambda>ids. concat (map f ids))"
proof -
  have "prefix (settled_text t) (t @ v)" for t v using settled_split[of t] by (metis append.assoc prefixI)
  then show ?thesis by (simp add: good_decoder_def)
qed

section \<open>Byte-level decoding\<close>

text \<open>The tokenizers of the served models are byte-level: every token stands for a byte string, and \<open>decode\<close> reads the
  joined bytes as UTF-8, with U+FFFD for what is not UTF-8 (\<open>bytes.decode(errors="replace")\<close>, one replacement character
  for each maximal part of a sequence). The decoder keeps the number of continuation bytes it still needs, the range of
  the next one and the bits read so far.\<close>

type_synonym utf8_state = "nat \<times> nat \<times> nat \<times> nat"

definition utf8_init :: utf8_state where
  "utf8_init = (0, 0x80, 0xBF, 0)"

definition utf8_lead :: "nat \<Rightarrow> utf8_state \<times> ustr" where
  "utf8_lead b =
     (if b < 0x80 then (utf8_init, [b])
      else if 0xC2 \<le> b \<and> b \<le> 0xDF then ((1, 0x80, 0xBF, b mod 0x20), [])
      else if 0xE0 \<le> b \<and> b \<le> 0xEF then
        ((2, if b = 0xE0 then 0xA0 else 0x80, if b = 0xED then 0x9F else 0xBF, b mod 0x10), [])
      else if 0xF0 \<le> b \<and> b \<le> 0xF4 then
        ((3, if b = 0xF0 then 0x90 else 0x80, if b = 0xF4 then 0x8F else 0xBF, b mod 0x8), [])
      else (utf8_init, [0xFFFD]))"

fun utf8_step :: "utf8_state \<Rightarrow> nat \<Rightarrow> utf8_state \<times> ustr" where
  "utf8_step (need, lo, hi, cp) b =
     (if need = 0 then utf8_lead b
      else if b < lo \<or> hi < b then (let (st, out) = utf8_lead b in (st, 0xFFFD # out))
      else if need = 1 then (utf8_init, [cp * 0x40 + b mod 0x40])
      else ((need - 1, 0x80, 0xBF, cp * 0x40 + b mod 0x40), []))"

fun utf8_from :: "utf8_state \<Rightarrow> nat list \<Rightarrow> ustr" where
  "utf8_from st [] = (if fst st = 0 then [] else [0xFFFD])"
| "utf8_from st (b # bs) = (let (st, out) = utf8_step st b in out @ utf8_from st bs)"

definition utf8_text :: "nat list \<Rightarrow> ustr" where
  "utf8_text bs = utf8_from utf8_init bs"

definition byte_level :: "(int \<Rightarrow> nat list) \<Rightarrow> (int list \<Rightarrow> ustr) \<Rightarrow> bool" where
  "byte_level vocab dec \<longleftrightarrow> (\<forall>ids. dec ids = utf8_text (concat (map vocab ids)))"

lemma utf8_idle: "fst st = 0 \<Longrightarrow> utf8_from st bs = utf8_text bs"
  by (cases bs; cases st) (simp_all add: utf8_text_def utf8_init_def)

lemma utf8_from_append:
  "\<exists>out st'. utf8_from st a = out @ (if fst st' = 0 then [] else [0xFFFD]) \<and> (\<forall>b. utf8_from st (a @ b) = out @ utf8_from st' b)"
proof (induction a arbitrary: st)
  case Nil
  then show ?case by (intro exI[of _ "[]"] exI[of _ st]) simp
next
  case (Cons x a)
  obtain st1 o1 where s: "utf8_step st x = (st1, o1)" by (cases "utf8_step st x")
  from Cons.IH[of st1] obtain out st' where
    "utf8_from st1 a = out @ (if fst st' = 0 then [] else [0xFFFD])" "\<forall>b. utf8_from st1 (a @ b) = out @ utf8_from st' b" by blast
  then show ?case using s by (intro exI[of _ "o1 @ out"] exI[of _ st']) simp
qed

lemma utf8_done_append: "text_done (utf8_text a) \<Longrightarrow> utf8_text (a @ b) = utf8_text a @ utf8_text b"
  using utf8_from_append[of utf8_init a] by (auto simp: utf8_text_def[symmetric] text_done_def utf8_idle split: if_splits)

lemma settled_snoc: "settled_text (t @ [0xFFFD]) = settled_text t"
  by (simp add: settled_text_def)

lemma settled_prefix: "prefix (settled_text t) t"
  using settled_split[of t] by (metis prefixI)

lemma utf8_settled: "prefix (settled_text (utf8_text a)) (utf8_text (a @ b))"
proof -
  obtain out st' where o: "utf8_text a = out @ (if fst st' = 0 then [] else [0xFFFD])" "utf8_text (a @ b) = out @ utf8_from st' b"
    using utf8_from_append[of utf8_init a] by (auto simp: utf8_text_def)
  have "prefix (settled_text (utf8_text a)) out" using settled_prefix[of out] by (simp add: o(1) settled_snoc)
  then show ?thesis unfolding o(2) by simp
qed

lemma byte_level_good:
  assumes "byte_level vocab dec"
  shows "good_decoder dec"
proof -
  define bytes where "bytes ids = concat (map vocab ids)" for ids
  have d: "dec ids = utf8_text (bytes ids)" for ids using assms by (simp add: byte_level_def bytes_def)
  have b: "bytes (xs @ ys) = bytes xs @ bytes ys" for xs ys by (simp add: bytes_def)
  have "dec (w @ s @ r) = dec (w @ s) @ drop (length (dec s)) (dec (s @ r))"
    if w: "text_done (dec w)" and s: "text_done (dec (w @ s))" for w s r
  proof -
    have ws: "utf8_text (bytes w @ x) = utf8_text (bytes w) @ utf8_text x" for x using utf8_done_append w by (simp add: d)
    then have "text_done (utf8_text (bytes s))" using s by (auto simp: d b text_done_def suffix_append)
    then show ?thesis by (simp add: d b ws utf8_done_append)
  qed
  moreover have "dec [] = []" by (simp add: d bytes_def utf8_text_def utf8_init_def)
  ultimately show ?thesis using utf8_settled by (simp add: good_decoder_def d b)
qed

section \<open>What is sent\<close>

lemma done_prefix_settled:
  assumes "prefix out t" "text_done out"
  shows "prefix out (settled_text t)"
proof -
  obtain n where t: "t = settled_text t @ replicate n 0xFFFD" using settled_split by blast
  from assms(1) have "prefix out (settled_text t @ replicate n 0xFFFD)" using t by simp
  then consider "prefix out (settled_text t)" | v where "out = settled_text t @ v" "prefix v (replicate n 0xFFFD)" by (auto simp: prefix_append)
  then show ?thesis
  proof cases
    case 2
    have "v = []"
    proof (rule ccontr)
      assume "v \<noteq> []"
      moreover have "set v \<subseteq> {0xFFFD}" using 2(2) set_mono_prefix by fastforce
      ultimately have "last v = 0xFFFD" using last_in_set by blast
      then have "suffix [0xFFFD] v" using \<open>v \<noteq> []\<close> by (metis append_butlast_last_id suffixI)
      then have "suffix [0xFFFD] out" using 2(1) suffix_append by blast
      then show False using assms(2) by (simp add: text_done_def)
    qed
    then show ?thesis using 2(1) by simp
  qed
qed

lemma str_rfind_Some: "str_rfind c t = Some k \<Longrightarrow> k < length t \<and> t ! k = c"
  unfolding str_rfind_def by (auto dest!: find_rev_upt)

lemma suffix_last: "suffix [c] t \<longleftrightarrow> t \<noteq> [] \<and> last t = c"
  by (cases t rule: rev_cases) auto

lemma printable_text:
  assumes "t = [] \<or> suffix [0xFFFD] t"
  shows "prefix (find_printable_text t) t \<and> text_done (find_printable_text t)"
proof (cases "t = []")
  case True
  then show ?thesis by (simp add: find_printable_text_def str_rfind_def text_done_def)
next
  case False
  with assms have l: "last t = 0xFFFD" by (simp add: suffix_last)
  then have n: "\<not> suffix [10] t" "\<not> is_chinese_char (last t)" by (simp_all add: suffix_last is_chinese_char_def)
  show ?thesis
  proof (cases "1 < length t \<and> is_chinese_char (t ! (length t - 2))")
    case True
    then have b: "butlast t \<noteq> []" by (simp add: length_greater_0_conv[symmetric] del: length_greater_0_conv)
    have "length t - 2 < length (butlast t)" using True by auto
    from nth_butlast[OF this] have b2: "last (butlast t) = t ! (length t - 2)" using b by (simp add: last_conv_nth numeral_2_eq_2)
    have "last (butlast t) \<noteq> 0xFFFD" using True unfolding b2 by (auto simp: is_chinese_char_def)
    then show ?thesis using True n b by (auto simp: find_printable_text_def text_done_def suffix_last prefixeq_butlast)
  next
    case False
    have "text_done (take (Suc k) t)" if "str_rfind 32 t = Some k" for k
      using str_rfind_Some[OF that] by (simp add: text_done_def suffix_last take_Suc_conv_app_nth)
    then show ?thesis using False n by (auto simp: find_printable_text_def take_is_prefix text_done_def split: option.split)
  qed
qed

text \<open>What the status of a request says about the tokens \<open>ids\<close> received so far.\<close>

definition status_ok :: "(int list \<Rightarrow> ustr) \<Rightarrow> int list \<Rightarrow> decode_status \<Rightarrow> bool" where
  "status_ok dec ids s \<longleftrightarrow> ds_ids s = ids \<and> ds_surr s \<le> ds_read s \<and> ds_read s \<le> length ids \<and> (ds_surr s < ds_read s \<or> ds_surr s = 0) \<and>
     ds_str s = dec (take (ds_read s) ids) \<and> text_done (dec (take (ds_surr s) ids)) \<and> text_done (dec (take (ds_read s) ids))"

lemma fresh_status_ok: "good_decoder dec \<Longrightarrow> status_ok dec [] fresh_status"
  by (simp add: good_decoder_def status_ok_def fresh_status_def text_done_def)

lemma stop_prefix_holdback_longest: "stop_prefix_holdback t stops = longest_hold stops t"
proof (rule sym, rule longest_hold_eq)
  have h: "partial_end [x] t (hold_tok t x 0) \<or> hold_tok t x 0 = 0" for x using hold_tok_spec[of 0 t x] by auto
  have f: "(fold (\<lambda>stop hold. max hold (hold_tok t stop 0)) xs b = b \<or>
      (\<exists>x\<in>set xs. fold (\<lambda>stop hold. max hold (hold_tok t stop 0)) xs b = hold_tok t x 0)) \<and>
    b \<le> fold (\<lambda>stop hold. max hold (hold_tok t stop 0)) xs b \<and>
    (\<forall>x\<in>set xs. hold_tok t x 0 \<le> fold (\<lambda>stop hold. max hold (hold_tok t stop 0)) xs b)" for xs b
  proof (induction xs arbitrary: b)
    case (Cons y ys)
    from Cons.IH[of "max b (hold_tok t y 0)"] show ?case by (auto simp: max_def split: if_splits)
  qed simp
  have g: "partial_end [x] t k \<Longrightarrow> x \<in> set xs \<Longrightarrow> partial_end xs t k" for x xs k by (auto simp: partial_end_def)
  show "stop_prefix_holdback t stops = 0 \<or> partial_end stops t (stop_prefix_holdback t stops)"
    using f[of stops 0] h g unfolding stop_prefix_holdback_def by metis
  fix k
  assume "partial_end stops t k"
  then obtain x where "x \<in> set stops" "partial_end [x] t k" by (auto simp: partial_end_def)
  then show "k \<le> stop_prefix_holdback t stops"
    using f[of stops 0] hold_tok_spec[of 0 t x] unfolding stop_prefix_holdback_def by (meson le_trans)
qed

lemma new_output_ok:
  assumes g: "good_decoder dec" and s: "status_ok dec ids s"
    and o: "new_output (dec (read_ids (s\<lparr>ds_ids := ids @ new\<rparr>))) (dec (surr_ids (s\<lparr>ds_ids := ids @ new\<rparr>))) (s\<lparr>ds_ids := ids @ new\<rparr>) = (s', out)"
  shows "status_ok dec (ids @ new) s' \<and> ds_sent s' = ds_sent s \<and> text_done out \<and> prefix out (dec (ids @ new)) \<and>
    (text_done (dec (ids @ new)) \<longrightarrow> out = dec (ids @ new))"
proof -
  define w where "w = take (ds_surr s) ids"
  define v where "v = take (ds_read s - ds_surr s) (drop (ds_surr s) ids)"
  define r where "r = drop (ds_read s) ids @ new"
  define tx where "tx = drop (length (dec v)) (dec (v @ r))"
  have b: "ds_surr s \<le> ds_read s" "ds_read s \<le> length ids" "ds_surr s < ds_read s \<or> ds_surr s = 0" "ds_str s = dec (take (ds_read s) ids)"
    "text_done (dec w)" "text_done (dec (take (ds_read s) ids))" using s by (simp_all add: status_ok_def w_def)
  have wv: "take (ds_read s) ids = w @ v" unfolding w_def v_def using b(1) by (metis le_add_diff_inverse take_add)
  have vr: "drop (ds_surr s) (ids @ new) = v @ r"
    unfolding v_def r_def using b(1,2) by simp (metis append_take_drop_id drop_drop le_add_diff_inverse2)
  have wvr: "ids @ new = w @ v @ r" using vr b(1,2) unfolding w_def by (metis append_take_drop_id le_trans take_append diff_is_0_eq take0 append_Nil2)
  have ne: "v \<noteq> [] \<or> w = []" using b(1-3) unfolding v_def w_def by auto
  have full: "dec (ids @ new) = dec (w @ v) @ tx"
    using g ne b(5,6) unfolding wvr tx_def wv good_decoder_def by blast
  have texts: "dec (read_ids (s\<lparr>ds_ids := ids @ new\<rparr>)) = dec (v @ r)" "dec (surr_ids (s\<lparr>ds_ids := ids @ new\<rparr>)) = dec v"
    using vr b(1,2) by (simp_all add: read_ids_def surr_ids_def v_def)
  have str: "ds_str s = dec (w @ v)" using b(4) wv by simp
  show ?thesis
  proof (cases "tx \<noteq> [] \<and> \<not> suffix [0xFFFD] tx")
    case True
    then have e: "s' = s\<lparr>ds_ids := ids @ new, ds_str := dec (ids @ new), ds_surr := ds_read s, ds_read := length (ids @ new)\<rparr>" "out = dec (ids @ new)"
      using o unfolding new_output_def texts tx_def[symmetric] Let_def by (auto simp: str full)
    have dn: "text_done (dec (ids @ new))" using True unfolding full by (auto simp: text_done_def suffix_last)
    have "r \<noteq> []" using True by (auto simp: tx_def)
    then have "ds_read s < length (ids @ new)" using b(2) by (cases new) (auto simp: r_def)
    then show ?thesis using dn b by (simp add: e status_ok_def)
  next
    case False
    then have e: "s' = s\<lparr>ds_ids := ids @ new\<rparr>" "out = dec (w @ v) @ find_printable_text tx"
      using o unfolding new_output_def texts tx_def[symmetric] Let_def by (auto simp: str)
    have "tx = [] \<or> suffix [0xFFFD] tx" using False by blast
    from printable_text[OF this] have p: "prefix (find_printable_text tx) tx" "text_done (find_printable_text tx)" by auto
    have "text_done out" using p(2) b(6) unfolding e wv by (simp add: text_done_append)
    moreover have "prefix out (dec (ids @ new))" using p(1) unfolding e full by simp
    moreover have "tx = []" if "text_done (dec (ids @ new))" using that False unfolding full by (auto simp: text_done_def suffix_last)
    then have "text_done (dec (ids @ new)) \<longrightarrow> out = dec (ids @ new)"
      unfolding e full by (auto simp: find_printable_text_def str_rfind_def)
    moreover have "status_ok dec (ids @ new) s'" using s b(2) unfolding e by (simp add: status_ok_def)
    ultimately show ?thesis by (simp add: e)
  qed
qed

text \<open>What has been sent to the client after \<open>ids\<close>: a beginning of a complete text that no later token revises.\<close>

definition sent_ok :: "(int list \<Rightarrow> ustr) \<Rightarrow> int list \<Rightarrow> ustr \<Rightarrow> nat \<Rightarrow> ustr \<Rightarrow> bool" where
  "sent_ok dec ids out n sent \<longleftrightarrow> text_done out \<and> prefix out (dec ids) \<and> n \<le> length out \<and> sent = take n out"

lemma kept_prefix:
  assumes "good_decoder dec" "text_done out" "prefix out (dec ids)"
  shows "prefix out (dec (ids @ new))"
  using done_prefix_settled[OF assms(3,2)] assms(1) unfolding good_decoder_def by (meson prefix_order.trans)

lemma prefix_take: "prefix out t \<Longrightarrow> n \<le> length out \<Longrightarrow> take n out = take n t"
  by (auto simp: prefix_def)

lemma emit_sent:
  assumes "good_decoder dec" "sent_ok dec ids o1 n sent" "text_done o2" "prefix o2 (dec (ids @ new))" "e \<le> length o2"
  shows "\<exists>o3. sent_ok dec (ids @ new) o3 (max n e) (sent @ (if n < e then drop n (take e o2) else [])) \<and> (o3 = o1 \<or> o3 = o2)"
proof (cases "n < e")
  case True
  have p1: "prefix o1 (dec (ids @ new))" using kept_prefix[OF assms(1)] assms(2) by (auto simp: sent_ok_def)
  have "take n o1 = take n o2"
    using prefix_take[OF p1, of n] prefix_take[OF assms(4), of n] assms(2,5) True by (simp add: sent_ok_def)
  moreover have "take n o2 @ drop n (take e o2) = take e o2" using True by (metis append_take_drop_id less_imp_le min.absorb1 take_take)
  ultimately show ?thesis using assms True by (auto simp: sent_ok_def intro!: exI[of _ o2])
next
  case False
  then show ?thesis using assms(2) kept_prefix[OF assms(1)] by (auto simp: sent_ok_def intro!: exI[of _ o1])
qed

lemma note_token_ids: "status_ok dec ids s \<Longrightarrow> note_token eos m s = s\<lparr>ds_ids := ids @ (if dt_finished m \<and> dt_next_token m \<in> set eos then [] else [dt_next_token m])\<rparr>"
  by (simp add: note_token_def status_ok_def)

lemma emit_end_le: "emit_end m t \<le> length t"
  by (auto simp: emit_end_def dest: str_find_le split: option.splits)

lemma step_ok:
  assumes g: "good_decoder dec" and st: "status_ok dec ids s" and sent: "sent_ok dec ids o1 (ds_sent s) sent"
    and d: "detok_step eos dec m s = (s', out)"
    and new: "new = (if dt_finished m \<and> dt_next_token m \<in> set eos then [] else [dt_next_token m])"
  shows "\<exists>o2 o3. status_ok dec (ids @ new) s' \<and> text_done o2 \<and> prefix o2 (dec (ids @ new)) \<and> (text_done (dec (ids @ new)) \<longrightarrow> o2 = dec (ids @ new)) \<and>
    ds_sent s' = max (ds_sent s) (emit_end m o2) \<and> sent_ok dec (ids @ new) o3 (ds_sent s') (sent @ out)"
proof -
  let ?s = "s\<lparr>ds_ids := ids @ new\<rparr>"
  obtain s1 o2 where o: "new_output (dec (read_ids ?s)) (dec (surr_ids ?s)) ?s = (s1, o2)" by (cases "new_output (dec (read_ids ?s)) (dec (surr_ids ?s)) ?s")
  note n = new_output_ok[OF g st o]
  have e: "s' = s1\<lparr>ds_sent := max (ds_sent s1) (emit_end m o2)\<rparr>" "out = (if ds_sent s1 < emit_end m o2 then drop (ds_sent s1) (take (emit_end m o2) o2) else [])"
    using d unfolding detok_step_def note_token_ids[OF st] new[symmetric] Let_def emit_def o prod.case by auto
  from emit_sent[OF g sent, of o2 new "emit_end m o2"] n emit_end_le[of m o2] obtain o3 where
    "sent_ok dec (ids @ new) o3 (max (ds_sent s) (emit_end m o2)) (sent @ (if ds_sent s < emit_end m o2 then drop (ds_sent s) (take (emit_end m o2) o2) else []))"
    by blast
  with n show ?thesis unfolding e by - (rule exI[of _ o2], rule exI[of _ o3], cases "ds_sent s < emit_end m o2", simp_all add: status_ok_def max_def)
qed

lemma unfinished_stop:
  assumes g: "good_decoder dec" and o: "text_done out" "prefix out (dec ids)" and m: "\<not> dt_finished m" "dt_stop_strs m = Some stops" "stop \<in> set stops"
    and s: "\<not> str_in stop (dec ids)" "str_find stop (dec (ids @ rest)) = Some c"
  shows "emit_end m out \<le> c"
proof -
  obtain v where v: "dec (ids @ rest) = out @ v" using kept_prefix[OF g o, of rest] by (auto simp: prefix_def)
  have "\<not> str_in stop out" using s(1) o(2) by (auto simp: prefix_def dest: str_in_append)
  from find_in_held[OF m(3) this] s(2) v have "length out - longest_hold stops out \<le> c" by simp
  then show ?thesis using m by (simp add: emit_end_def stop_prefix_holdback_longest)
qed

lemma unfinished_stream:
  assumes "good_decoder dec" "status_ok dec ids s" "sent_ok dec ids o1 (ds_sent s) sent" "\<forall>m\<in>set ms. \<not> dt_finished m"
  shows "\<exists>s' out o2. detok_stream eos dec ms (Some s) = (Some s', out) \<and> status_ok dec (ids @ map dt_next_token ms) s' \<and>
    sent_ok dec (ids @ map dt_next_token ms) o2 (ds_sent s') (sent @ out) \<and>
    (\<forall>stop rest c. (\<forall>m\<in>set ms. \<exists>stops. dt_stop_strs m = Some stops \<and> stop \<in> set stops) \<and>
       (\<forall>k\<le>length ms. \<not> str_in stop (dec (ids @ map dt_next_token (take k ms)))) \<and>
       str_find stop (dec (ids @ map dt_next_token ms @ rest)) = Some c \<and> ds_sent s \<le> c \<longrightarrow> ds_sent s' \<le> c)"
  using assms(2-4)
proof (induction ms arbitrary: ids s o1 sent)
  case Nil
  then show ?case by auto
next
  case (Cons m ms)
  obtain s1 out1 where d: "detok_step eos dec m s = (s1, out1)" by (cases "detok_step eos dec m s")
  have nf: "\<not> dt_finished m" "\<forall>m\<in>set ms. \<not> dt_finished m" using Cons.prems(3) by auto
  have "[dt_next_token m] = (if dt_finished m \<and> dt_next_token m \<in> set eos then [] else [dt_next_token m])" using nf by simp
  from step_ok[OF assms(1) Cons.prems(1,2) d this] obtain o2 o3 where
    n: "status_ok dec (ids @ [dt_next_token m]) s1" "text_done o2" "prefix o2 (dec (ids @ [dt_next_token m]))"
      "ds_sent s1 = max (ds_sent s) (emit_end m o2)" "sent_ok dec (ids @ [dt_next_token m]) o3 (ds_sent s1) (sent @ out1)" by blast
  from Cons.IH[OF n(1,5) nf(2)] obtain s' out2 o4 where i: "detok_stream eos dec ms (Some s1) = (Some s', out2)"
    "status_ok dec ((ids @ [dt_next_token m]) @ map dt_next_token ms) s'"
    "sent_ok dec ((ids @ [dt_next_token m]) @ map dt_next_token ms) o4 (ds_sent s') ((sent @ out1) @ out2)"
    and c: "\<And>stop rest c. \<forall>m\<in>set ms. \<exists>stops. dt_stop_strs m = Some stops \<and> stop \<in> set stops \<Longrightarrow>
       \<forall>k\<le>length ms. \<not> str_in stop (dec ((ids @ [dt_next_token m]) @ map dt_next_token (take k ms))) \<Longrightarrow>
       str_find stop (dec ((ids @ [dt_next_token m]) @ map dt_next_token ms @ rest)) = Some c \<Longrightarrow> ds_sent s1 \<le> c \<Longrightarrow> ds_sent s' \<le> c" by blast
  have "ds_sent s' \<le> c" if a: "\<forall>m\<in>set (m # ms). \<exists>stops. dt_stop_strs m = Some stops \<and> stop \<in> set stops"
    "\<forall>k\<le>length (m # ms). \<not> str_in stop (dec (ids @ map dt_next_token (take k (m # ms))))"
    "str_find stop (dec (ids @ map dt_next_token (m # ms) @ rest)) = Some c" "ds_sent s \<le> c" for stop rest c
  proof (rule c)
    obtain stops where stops: "dt_stop_strs m = Some stops" "stop \<in> set stops" using a(1) by auto
    have ni: "\<not> str_in stop (dec (ids @ [dt_next_token m]))" using a(2)[rule_format, of 1] by simp
    show f: "str_find stop (dec ((ids @ [dt_next_token m]) @ map dt_next_token ms @ rest)) = Some c" using a(3) by simp
    show "ds_sent s1 \<le> c" using unfinished_stop[OF assms(1) n(2,3) nf(1) stops ni f] a(4) n(4) by simp
    show "\<forall>m\<in>set ms. \<exists>stops. dt_stop_strs m = Some stops \<and> stop \<in> set stops" using a(1) by simp
    show "\<forall>k\<le>length ms. \<not> str_in stop (dec ((ids @ [dt_next_token m]) @ map dt_next_token (take k ms)))"
      using a(2) by (metis Suc_le_mono append.assoc append_Cons append_Nil length_Cons list.simps(9) take_Suc_Cons)
  qed
  moreover have "detok_stream eos dec (m # ms) (Some s) = (Some s', out1 @ out2)" using i(1) nf(1) d by simp
  moreover have "status_ok dec (ids @ map dt_next_token (m # ms)) s'"
    "sent_ok dec (ids @ map dt_next_token (m # ms)) o4 (ds_sent s') (sent @ out1 @ out2)" using i(2,3) by simp_all
  ultimately show ?case by blast
qed

text \<open>The whole reply, cut at the stop string that ended it.\<close>

fun trim_stop :: "ustr option \<Rightarrow> ustr \<Rightarrow> ustr" where
  "trim_stop None t = t"
| "trim_stop (Some stop) t = (case str_find stop t of None \<Rightarrow> t | Some c \<Rightarrow> take c t)"

definition reply_ids :: "int list \<Rightarrow> detok_msg list \<Rightarrow> detok_msg \<Rightarrow> int list" where
  "reply_ids eos ms m = map dt_next_token ms @ (if dt_next_token m \<in> set eos then [] else [dt_next_token m])"

text \<open>The scheduler's side of the bargain: it stops at the first token that completes a stop string.\<close>

definition stopped_in_time :: "(int list \<Rightarrow> ustr) \<Rightarrow> detok_msg list \<Rightarrow> detok_msg \<Rightarrow> bool" where
  "stopped_in_time dec ms m \<longleftrightarrow> (\<forall>stop. dt_matched_stop m = Some stop \<longrightarrow> stop \<noteq> [] \<and>
     (\<forall>x\<in>set ms. \<exists>stops. dt_stop_strs x = Some stops \<and> stop \<in> set stops) \<and>
     (\<forall>k\<le>length ms. \<not> str_in stop (dec (map dt_next_token (take k ms)))))"

lemma finished_stream:
  assumes g: "good_decoder dec" and ms: "\<forall>x\<in>set ms. \<not> dt_finished x" and m: "dt_finished m"
    and dn: "text_done (dec (reply_ids eos ms m))" and st: "stopped_in_time dec ms m"
  shows "detok_stream eos dec (ms @ [m]) None = (None, trim_stop (dt_matched_stop m) (dec (reply_ids eos ms m)))"
proof -
  define F where "F = dec (reply_ids eos ms m)"
  define new where "new = (if dt_finished m \<and> dt_next_token m \<in> set eos then [] else [dt_next_token m])"
  have F: "dec (map dt_next_token ms @ new) = F" using m by (simp add: F_def reply_ids_def new_def)
  have s0: "sent_ok dec [] [] (ds_sent fresh_status) []" by (simp add: sent_ok_def text_done_def fresh_status_def)
  from unfinished_stream[OF g fresh_status_ok[OF g] s0 ms, of eos] obtain s out o1 where
    u: "detok_stream eos dec ms (Some fresh_status) = (Some s, out)" "status_ok dec (map dt_next_token ms) s"
      "sent_ok dec (map dt_next_token ms) o1 (ds_sent s) out"
    and c: "\<And>stop rest c. \<forall>m\<in>set ms. \<exists>stops. dt_stop_strs m = Some stops \<and> stop \<in> set stops \<Longrightarrow>
       \<forall>k\<le>length ms. \<not> str_in stop (dec (map dt_next_token (take k ms))) \<Longrightarrow>
       str_find stop (dec (map dt_next_token ms @ rest)) = Some c \<Longrightarrow> ds_sent s \<le> c" by (auto simp: fresh_status_def)
  obtain s' out' where d: "detok_step eos dec m s = (s', out')" by (cases "detok_step eos dec m s")
  from step_ok[OF g u(2,3) d new_def] dn obtain o3 where
    n: "ds_sent s' = max (ds_sent s) (emit_end m F)" "sent_ok dec (map dt_next_token ms @ new) o3 (ds_sent s') (out @ out')"
    unfolding F using F_def by metis
  have le: "ds_sent s \<le> emit_end m F"
  proof -
    have "prefix o1 F" using kept_prefix[OF g] u(3) F by (auto simp: sent_ok_def)
    then have l: "ds_sent s \<le> length F" using u(3) prefix_length_le by (force simp: sent_ok_def)
    have "ds_sent s \<le> cc" if "dt_matched_stop m = Some stop" "str_find stop F = Some cc" for stop cc
      using c[of stop new cc] st that F by (simp add: stopped_in_time_def)
    with l m show ?thesis by (auto simp: emit_end_def split: option.split)
  qed
  have "out @ out' = take (emit_end m F) F"
    using n le prefix_take[of o3 F "emit_end m F"] F by (auto simp: sent_ok_def max_def split: if_splits)
  also have "\<dots> = trim_stop (dt_matched_stop m) F"
    using m st by (auto simp: emit_end_def stopped_in_time_def split: option.split)
  finally have e: "out @ out' = trim_stop (dt_matched_stop m) F" .
  have "detok_stream eos dec ms None = (if ms = [] then (None, []) else detok_stream eos dec ms (Some fresh_status))" by (cases ms) simp_all
  moreover have "s = fresh_status \<and> out = []" if "ms = []" using u(1) that by simp
  ultimately show ?thesis using u(1) d m e by (auto simp: detok_stream_append F_def split: if_splits)
qed

text \<open>C24: Streaming loses, repeats and retracts nothing. Take a byte-level decoder, batches that hold at most one message
  of each request (the worker takes one scheduler message at a time, \<open>local_bs = 1\<close>), and the messages of one new request
  up to its finished one; let its decoding not end in an unfinished character, and let the scheduler have stopped it at
  the first token that completes the stop string it reports. Then, however the messages are batched with those of other
  requests, the deltas sent for the request are, put together, its decoding cut at that stop string, and its state is
  gone afterwards.\<close>

theorem detokenize_stream:
  assumes "byte_level vocab dec" "\<forall>b\<in>set bs. distinct (map dt_uid b)" "dm u = None" "msgs_of u bs = ms @ [m]"
    and "\<forall>x\<in>set ms. \<not> dt_finished x" "dt_finished m" "text_done (dec (reply_ids eos ms m))" "stopped_in_time dec ms m"
  shows "\<exists>dm' outss. detok_run eos dec bs dm = Some (dm', outss) \<and> dm' u = None \<and>
    outputs_of u bs outss = trim_stop (dt_matched_stop m) (dec (reply_ids eos ms m))"
proof -
  from detok_run_stream[OF assms(2)] obtain dm' outss where r: "detok_run eos dec bs dm = Some (dm', outss)"
    "(dm' u, outputs_of u bs outss) = detok_stream eos dec (msgs_of u bs) (dm u)" by blast
  with finished_stream[OF byte_level_good[OF assms(1)] assms(5-8)] assms(3,4) show ?thesis by simp
qed

text \<open>C25: Nothing that was streamed is ever taken back, and no stop string is ever begun. With a byte-level decoder and at
  most one message of each request in a batch, while a new request runs: the text sent so far is a beginning of the
  decoding of its tokens, whatever tokens follow; and if a stop string that all its messages carry has not appeared yet,
  but would be completed by tokens that follow, the text sent so far ends before the place where it starts.\<close>

theorem detokenize_live:
  assumes "byte_level vocab dec" "\<forall>b\<in>set bs. distinct (map dt_uid b)" "dm u = None" "\<forall>m\<in>set (msgs_of u bs). \<not> dt_finished m"
  shows "\<exists>dm' outss. detok_run eos dec bs dm = Some (dm', outss) \<and>
    (\<forall>more. prefix (outputs_of u bs outss) (dec (map dt_next_token (msgs_of u bs) @ more))) \<and>
    (\<forall>stop more c. (\<forall>m\<in>set (msgs_of u bs). \<exists>stops. dt_stop_strs m = Some stops \<and> stop \<in> set stops) \<and>
       (\<forall>k\<le>length (msgs_of u bs). \<not> str_in stop (dec (map dt_next_token (take k (msgs_of u bs))))) \<and>
       str_find stop (dec (map dt_next_token (msgs_of u bs) @ more)) = Some c \<longrightarrow> length (outputs_of u bs outss) \<le> c)"
proof -
  note g = byte_level_good[OF assms(1)]
  let ?ids = "map dt_next_token (msgs_of u bs)"
  from detok_run_stream[OF assms(2)] obtain dm' outss where r: "detok_run eos dec bs dm = Some (dm', outss)"
    "(dm' u, outputs_of u bs outss) = detok_stream eos dec (msgs_of u bs) (dm u)" by blast
  have "snd (detok_stream eos dec (msgs_of u bs) (dm u)) = snd (detok_stream eos dec (msgs_of u bs) (Some fresh_status))"
    using assms(3) by (cases "msgs_of u bs") simp_all
  then have out: "outputs_of u bs outss = snd (detok_stream eos dec (msgs_of u bs) (Some fresh_status))" using r(2) by (metis snd_conv)
  have s0: "sent_ok dec [] [] (ds_sent fresh_status) []" by (simp add: sent_ok_def text_done_def fresh_status_def)
  define K where "K n \<longleftrightarrow> (\<forall>stop more c. (\<forall>m\<in>set (msgs_of u bs). \<exists>stops. dt_stop_strs m = Some stops \<and> stop \<in> set stops) \<and>
       (\<forall>k\<le>length (msgs_of u bs). \<not> str_in stop (dec (map dt_next_token (take k (msgs_of u bs))))) \<and>
       str_find stop (dec (?ids @ more)) = Some c \<and> ds_sent fresh_status \<le> c \<longrightarrow> n \<le> c)" for n
  from unfinished_stream[OF g fresh_status_ok[OF g] s0 assms(4), of eos, unfolded append_Nil, folded K_def] obtain s sent o2 where
    d: "detok_stream eos dec (msgs_of u bs) (Some fresh_status) = (Some s, sent)" and o: "sent_ok dec ?ids o2 (ds_sent s) sent" and k: "K (ds_sent s)"
    by blast
  have e: "outputs_of u bs outss = sent" using out d by simp
  have q: "prefix sent o2" "length sent = ds_sent s" using o by (auto simp: sent_ok_def take_is_prefix)
  have "prefix sent (dec (?ids @ more))" for more
    by (rule prefix_order.trans[OF q(1)], rule kept_prefix[OF g]) (use o in \<open>simp_all add: sent_ok_def\<close>)
  moreover have "length sent \<le> c" if "\<forall>m\<in>set (msgs_of u bs). \<exists>stops. dt_stop_strs m = Some stops \<and> stop \<in> set stops"
      "\<forall>k\<le>length (msgs_of u bs). \<not> str_in stop (dec (map dt_next_token (take k (msgs_of u bs))))"
      "str_find stop (dec (?ids @ more)) = Some c" for stop more c
    unfolding q(2) by (rule k[unfolded K_def, rule_format]) (use that in \<open>simp add: fresh_status_def\<close>)
  ultimately show ?thesis using r(1) by (intro exI[of _ dm'] exI[of _ outss]) (auto simp add: e)
qed

text \<open>A small vocabulary that cuts a two-byte character and a stop string: two requests, one of which stops inside its
  third token.\<close>

definition ex_token :: "int \<Rightarrow> nat list" where
  "ex_token i = (if i = 1 then lit ''ab'' @ [0xC3] else if i = 2 then [0xA9] @ lit ''<'' else if i = 3 then lit ''/s> d'' else if i = 4 then lit ''x'' else [])"

definition ex_decoder :: "int list \<Rightarrow> ustr" where
  "ex_decoder ids = utf8_text (concat (map ex_token ids))"

definition ex_detok :: "int \<Rightarrow> int \<Rightarrow> bool \<Rightarrow> ustr option \<Rightarrow> detok_msg" where
  "ex_detok uid token fin matched = \<lparr>dt_uid = uid, dt_next_token = token, dt_finished = fin, dt_reason = None, dt_matched_stop = matched,
     dt_stop_strs = Some [lit ''</s>''], dt_kv = (0, 0), dt_mamba = (0, 0), dt_swa = (0, 0), dt_gpu_mem = 0\<rparr>"

definition ex_detok_batches :: "detok_msg list list" where
  "ex_detok_batches = [[ex_detok 7 1 False None, ex_detok 8 4 False None], [ex_detok 7 2 False None],
     [ex_detok 8 4 False None, ex_detok 7 3 True (Some (lit ''</s>''))]]"

lemma ex_decoder_bytes: "byte_level ex_token ex_decoder"
  by (simp add: byte_level_def ex_decoder_def)

lemmas ex_decoder_simps = ex_decoder_def ex_token_def lit_def utf8_text_def utf8_init_def utf8_lead_def

theorem detokenize_stream_witness:
  "\<exists>dm' outss. detok_run [0] ex_decoder ex_detok_batches (\<lambda>_. None) = Some (dm', outss) \<and> dm' 7 = None \<and>
     outputs_of 7 ex_detok_batches outss = lit ''ab'' @ [0xE9]"
proof -
  have m: "msgs_of 7 ex_detok_batches = [ex_detok 7 1 False None, ex_detok 7 2 False None] @ [ex_detok 7 3 True (Some (lit ''</s>''))]"
    by (simp add: msgs_of_def ex_detok_batches_def ex_detok_def)
  have d: "\<forall>b\<in>set ex_detok_batches. distinct (map dt_uid b)" by (simp add: ex_detok_batches_def ex_detok_def)
  have u: "\<forall>x\<in>set [ex_detok 7 1 False None, ex_detok 7 2 False None]. \<not> dt_finished x" "dt_finished (ex_detok 7 3 True (Some (lit ''</s>'')))"
    by (simp_all add: ex_detok_def)
  let ?full = "lit ''ab'' @ [0xE9] @ lit ''</s> d''"
  have full: "ex_decoder (reply_ids [0] [ex_detok 7 1 False None, ex_detok 7 2 False None] (ex_detok 7 3 True (Some (lit ''</s>'')))) = ?full"
    by (simp add: reply_ids_def ex_detok_def ex_decoder_simps)
  have "text_done ?full" by (simp add: text_done_def suffix_last lit_def)
  moreover have "stopped_in_time ex_decoder [ex_detok 7 1 False None, ex_detok 7 2 False None] (ex_detok 7 3 True (Some (lit ''</s>'')))"
  proof -
    have n: "\<not> str_in (lit ''</s>'') (ex_decoder [])" "\<not> str_in (lit ''</s>'') (ex_decoder [1])" "\<not> str_in (lit ''</s>'') (ex_decoder [1, 2])"
      by (simp_all add: str_in_def ex_decoder_simps)
    have k: "k = 0 \<or> k = 1 \<or> k = 2" if "k \<le> Suc (Suc 0)" for k using that by auto
    show ?thesis using n by (auto simp: stopped_in_time_def ex_detok_def lit_def dest!: k)
  qed
  moreover have "trim_stop (Some (lit ''</s>'')) ?full = lit ''ab'' @ [0xE9]" by (simp add: lit_def)
  ultimately show ?thesis using detokenize_stream[OF ex_decoder_bytes d _ m u, of "\<lambda>_. None" "[0]"] unfolding full by (simp add: ex_detok_def)
qed

text \<open>The first two messages of request 7: its text ends in \<open><\<close>, which may begin the stop string and is held back.\<close>

theorem detokenize_live_witness:
  "\<exists>dm' outss. detok_run [0] ex_decoder (take 2 ex_detok_batches) (\<lambda>_. None) = Some (dm', outss) \<and>
     length (outputs_of 7 (take 2 ex_detok_batches) outss) \<le> 3"
proof -
  have d: "\<forall>b\<in>set (take 2 ex_detok_batches). distinct (map dt_uid b)" by (simp add: ex_detok_batches_def ex_detok_def)
  have m: "msgs_of 7 (take 2 ex_detok_batches) = [ex_detok 7 1 False None, ex_detok 7 2 False None]"
    by (simp add: msgs_of_def ex_detok_batches_def ex_detok_def)
  have f: "\<forall>m\<in>set (msgs_of 7 (take 2 ex_detok_batches)). \<not> dt_finished m" unfolding m by (simp add: ex_detok_def)
  have s: "\<forall>m\<in>set (msgs_of 7 (take 2 ex_detok_batches)). \<exists>stops. dt_stop_strs m = Some stops \<and> lit ''</s>'' \<in> set stops"
    unfolding m by (simp add: ex_detok_def)
  have n: "\<not> str_in (lit ''</s>'') (ex_decoder [])" "\<not> str_in (lit ''</s>'') (ex_decoder [1])" "\<not> str_in (lit ''</s>'') (ex_decoder [1, 2])"
    by (simp_all add: str_in_def ex_decoder_simps)
  have k: "k = 0 \<or> k = 1 \<or> k = 2" if "k \<le> Suc (Suc 0)" for k using that by auto
  have a: "\<forall>k\<le>length (msgs_of 7 (take 2 ex_detok_batches)). \<not> str_in (lit ''</s>'') (ex_decoder (map dt_next_token (take k (msgs_of 7 (take 2 ex_detok_batches)))))"
    unfolding m using n by (auto simp: ex_detok_def dest!: k)
  have c: "str_find (lit ''</s>'') (ex_decoder (map dt_next_token (msgs_of 7 (take 2 ex_detok_batches)) @ [3])) = Some 3"
    unfolding m by (simp add: ex_detok_def ex_decoder_simps)
  show ?thesis using detokenize_live[OF ex_decoder_bytes d _ f, of "\<lambda>_. None" "[0]"] s a c by blast
qed

section \<open>The last flush\<close>

text \<open>A reply that the length limit ends in the middle of a character is cut back to its last whole word, the
  characters after the last space included: the comment says that the end of a generation flushes everything.\<close>

lemma last_flush_drops_text:
  "map_option snd (detok_run [0] (\<lambda>ids. if ids = [5] then lit ''caf'' @ [0xFFFD] else []) [[ex_detok 7 5 True None]] (\<lambda>_. None)) = Some [[[]]]"
  by (simp add: detokenize_def ex_detok_def note_token_def status_of_def fresh_status_def read_ids_def surr_ids_def emit_def new_output_def
    find_printable_text_def str_rfind_def suffix_last is_chinese_char_def emit_end_def lit_def Let_def)

end
