(* ===== verification/LogRings.thy ===== *)
theory LogRings
  imports Prelude
begin

text \<open>
  The two in-memory logs that clients pull with a cursor: \<^verbatim>\<open>server/request_ring.py\<close> (recent API requests, with the
  handler \<open>list_requests\<close> of \<^verbatim>\<open>server/control_api.py\<close>) and \<^verbatim>\<open>daemon/logring.py\<close> (the captured engine output). Both
  keep a bounded \<open>deque\<close> of numbered records and an all-time counter. The contract they share is the locale
  \<open>cursor_log\<close>: they are windows on an append-only log.
\<close>

section \<open>Bounded queues\<close>

text \<open>\<open>deque(maxlen=cap).append\<close> drops from the left; \<open>xs[:n]\<close> counts from the end when \<open>n\<close> is negative.\<close>

definition deque_append :: "nat \<Rightarrow> 'a \<Rightarrow> 'a list \<Rightarrow> 'a list" where
  "deque_append cap x xs = (let ys = xs @ [x] in drop (length ys - cap) ys)"

definition slice_to :: "int \<Rightarrow> 'a list \<Rightarrow> 'a list" where
  "slice_to n xs = (if 0 \<le> n then take (nat n) xs else take (length xs - nat (- n)) xs)"

section \<open>The request ring\<close>

record 'a request_ring =
  rg_capacity :: nat
  rg_buf :: "(nat \<times> 'a) list"
  rg_next :: nat

definition rg_init :: "nat \<Rightarrow> 'a request_ring" where
  "rg_init capacity = \<lparr>rg_capacity = capacity, rg_buf = [], rg_next = 0\<rparr>"

definition rg_add :: "'a \<Rightarrow> 'a request_ring \<Rightarrow> 'a request_ring" where
  "rg_add x r = r\<lparr>rg_buf := deque_append (rg_capacity r) (rg_next r, x) (rg_buf r), rg_next := Suc (rg_next r)\<rparr>"

text \<open>\<open>since\<close>: when the limit cuts the answer short, the next cursor follows the last record returned.\<close>

definition rg_since :: "int \<Rightarrow> int \<Rightarrow> 'a request_ring \<Rightarrow> 'a list \<times> int" where
  "rg_since cursor limit r =
     (let matched = filter (\<lambda>(idx, x). cursor \<le> int idx) (rg_buf r);
          out = map snd (slice_to limit matched);
          next_cursor = (if length out < length matched
                         then int (fst (if out = [] then last matched else matched ! (length out - 1))) + 1
                         else int (rg_next r))
      in (out, next_cursor))"

definition list_requests :: "int \<Rightarrow> int \<Rightarrow> 'a request_ring \<Rightarrow> 'a list \<times> int" where
  "list_requests since limit r = rg_since since (max 1 (min limit 512)) r"

text \<open>The 95th percentile of the durations; \<open>ceil(0.95 * n)\<close> is the exact ceiling for every length a ring can have.\<close>

definition rg_p95 :: "('a \<Rightarrow> nat) \<Rightarrow> 'a request_ring \<Rightarrow> nat" where
  "rg_p95 duration r =
     (let durs = sort (map (\<lambda>(_, x). duration x) (rg_buf r))
      in if durs = [] then 0 else durs ! (max 0 (div_ceil (95 * length durs) 100 - 1)))"

definition rg_count :: "'a request_ring \<Rightarrow> nat" where
  "rg_count r = rg_next r"

section \<open>The log ring\<close>

record log_record =
  lr_seq :: nat
  lr_ts :: int
  lr_kind :: string
  lr_text :: string

record log_ring =
  lg_capacity :: nat
  lg_buf :: "log_record list"
  lg_next :: nat
  lg_subs :: "nat set"

definition lg_init :: "nat \<Rightarrow> log_ring" where
  "lg_init capacity = \<lparr>lg_capacity = capacity, lg_buf = [], lg_next = 0, lg_subs = {}\<rparr>"

text \<open>The part of \<open>append\<close> under the lock: the stored record and the subscribers to call afterwards.\<close>

definition lg_append :: "string \<Rightarrow> string \<Rightarrow> int \<Rightarrow> log_ring \<Rightarrow> log_ring \<times> log_record \<times> nat set" where
  "lg_append line kind ts r =
     (let rec = \<lparr>lr_seq = lg_next r, lr_ts = ts, lr_kind = kind, lr_text = line\<rparr>
      in (r\<lparr>lg_buf := deque_append (lg_capacity r) rec (lg_buf r), lg_next := Suc (lg_next r)\<rparr>, rec, lg_subs r))"

definition lg_since :: "int \<Rightarrow> log_ring \<Rightarrow> log_record list \<times> nat" where
  "lg_since cursor r = (filter (\<lambda>rec. cursor \<le> int (lr_seq rec)) (lg_buf r), lg_next r)"

definition lg_subscribe :: "nat \<Rightarrow> log_ring \<Rightarrow> log_ring" where
  "lg_subscribe push r = r\<lparr>lg_subs := insert push (lg_subs r)\<rparr>"

definition lg_unsubscribe :: "nat \<Rightarrow> log_ring \<Rightarrow> log_ring" where
  "lg_unsubscribe push r = r\<lparr>lg_subs := lg_subs r - {push}\<rparr>"

section \<open>A window on a log\<close>

text \<open>The numbered records that a window of size \<open>cap\<close> keeps of the whole history.\<close>

definition window :: "nat \<Rightarrow> 'a list \<Rightarrow> (nat \<times> 'a) list" where
  "window cap h = drop (length h - cap) (enumerate 0 h)"

lemma deque_append_map: "deque_append cap (f x) (map f xs) = map f (deque_append cap x xs)"
proof -
  have "map f xs @ [f x] = map f (xs @ [x])" by simp
  then show ?thesis by (simp only: deque_append_def Let_def drop_map length_map)
qed

lemma window_append: "deque_append cap (length h, x) (window cap h) = window cap (h @ [x])"
proof -
  have e: "enumerate 0 (h @ [x]) = enumerate 0 h @ [(length h, x)]" by (simp add: enumerate_append_eq)
  have l: "length (window cap h) = min cap (length h)" by (simp add: window_def)
  show ?thesis
  proof (cases "length h < cap")
    case True
    then show ?thesis using l by (simp add: deque_append_def window_def e)
  next
    case False
    then have "length (window cap h @ [(length h, x)]) - cap = 1" using l by simp
    then show ?thesis using False by (simp add: deque_append_def window_def e Suc_diff_le)
  qed
qed

lemma filter_enumerate: "filter (\<lambda>(i, x). k \<le> i) (enumerate n h) = drop (k - n) (enumerate n h)"
proof (induction h arbitrary: n)
  case (Cons x h)
  have "filter (\<lambda>(i, x). k \<le> i) (enumerate n h) = enumerate n h" if "k \<le> n" for n
    using that by (auto simp: filter_id_conv in_set_enumerate_eq)
  moreover have "k - n = Suc (k - Suc n)" if "\<not> k \<le> n" using that by simp
  ultimately show ?case using Cons[of "Suc n"] by (cases "k \<le> n") auto
qed simp

lemma filter_window:
  "filter (\<lambda>(i, x). c \<le> i) (window cap h) = drop (max c (length h - cap)) (enumerate 0 h)"
proof -
  have "filter (\<lambda>(i, x). c \<le> i) (window cap h) =
      filter (\<lambda>(i, x). c \<le> i) (filter (\<lambda>(i, x). length h - cap \<le> i) (enumerate 0 h))" by (simp add: window_def filter_enumerate)
  also have "\<dots> = filter (\<lambda>(i, x). max c (length h - cap) \<le> i) (enumerate 0 h)" unfolding filter_filter by (rule filter_cong) auto
  also have "\<dots> = drop (max c (length h - cap)) (enumerate 0 h)"
    using filter_enumerate[of "max c (length h - cap)" 0 h] by (simp only: diff_zero)
  finally show ?thesis .
qed

text \<open>What a pulling client of such a log may rely on: a log is empty, grows at its end, and a poll at a cursor that is
  at most \<open>cap\<close> behind returns the next records, at least one if there is one, and the cursor after them.\<close>

locale cursor_log =
  fixes blank :: 's and put :: "'a \<Rightarrow> 's \<Rightarrow> 's" and poll :: "nat \<Rightarrow> 's \<Rightarrow> 'a list \<times> nat"
    and log_of :: "'s \<Rightarrow> 'a list \<Rightarrow> bool" and cap :: nat
  assumes log_blank: "log_of blank []"
    and log_put: "log_of s h \<Longrightarrow> log_of (put x s) (h @ [x])"
    and log_poll: "log_of s h \<Longrightarrow> c \<le> length h \<Longrightarrow> length h \<le> c + cap \<Longrightarrow>
      \<exists>k. poll c s = (take k (drop c h), c + k) \<and> c + k \<le> length h \<and> (c < length h \<longrightarrow> 0 < k)"

text \<open>A client: \<open>Some x\<close> is a record arriving, \<open>None\<close> a poll. Its state is the ring, its cursor and what it received.\<close>

fun client :: "('a \<Rightarrow> 's \<Rightarrow> 's) \<Rightarrow> (nat \<Rightarrow> 's \<Rightarrow> 'a list \<times> nat) \<Rightarrow> 'a option list \<Rightarrow> 's \<times> nat \<times> 'a list \<Rightarrow> 's \<times> nat \<times> 'a list" where
  "client put poll [] st = st"
| "client put poll (Some x # ops) (s, c, got) = client put poll ops (put x s, c, got)"
| "client put poll (None # ops) (s, c, got) = (case poll c s of (out, c') \<Rightarrow> client put poll ops (s, c', got @ out))"

lemma client_append: "client put poll (xs @ ys) st = client put poll ys (client put poll xs st)"
  by (induction put poll xs st rule: client.induct) (auto split: prod.split)

definition arrived :: "'a option list \<Rightarrow> 'a list" where
  "arrived ops = map the (filter (\<lambda>x. x \<noteq> None) ops)"

text \<open>The client never falls more than \<open>cap\<close> records behind.\<close>

fun keeps_up :: "nat \<Rightarrow> ('a \<Rightarrow> 's \<Rightarrow> 's) \<Rightarrow> (nat \<Rightarrow> 's \<Rightarrow> 'a list \<times> nat) \<Rightarrow> 'a option list \<Rightarrow> nat \<Rightarrow> 's \<times> nat \<Rightarrow> bool" where
  "keeps_up cap put poll [] n st \<longleftrightarrow> True"
| "keeps_up cap put poll (Some x # ops) n (s, c) \<longleftrightarrow> keeps_up cap put poll ops (Suc n) (put x s, c)"
| "keeps_up cap put poll (None # ops) n (s, c) \<longleftrightarrow> n \<le> c + cap \<and> keeps_up cap put poll ops n (s, snd (poll c s))"

context cursor_log
begin

lemma client_log:
  assumes "log_of s h" "c \<le> length h" "got = take c h" "keeps_up cap put poll ops (length h) (s, c)" "client put poll ops (s, c, got) = (s', c', got')"
  shows "log_of s' (h @ arrived ops) \<and> c' \<le> length (h @ arrived ops) \<and> got' = take c' (h @ arrived ops)"
  using assms
proof (induction ops arbitrary: s c h got)
  case Nil
  then show ?case by (auto simp: arrived_def)
next
  case (Cons op ops)
  show ?case
  proof (cases op)
    case (Some x)
    from Cons.IH[OF log_put[OF Cons.prems(1), of x], of c got] Cons.prems(2-5) show ?thesis by (simp add: Some arrived_def)
  next
    case None
    with Cons.prems(4) have "length h \<le> c + cap" by simp
    from log_poll[OF Cons.prems(1,2) this] obtain k where k: "poll c s = (take k (drop c h), c + k)" "c + k \<le> length h" by blast
    have "got @ take k (drop c h) = take (c + k) h" using Cons.prems(3) by (simp add: take_add)
    from Cons.IH[OF Cons.prems(1) k(2) this] Cons.prems(4,5) k(1) show ?thesis by (simp add: None arrived_def)
  qed
qed

text \<open>Polling until nothing is left reads the whole log.\<close>

lemma client_catches_up:
  assumes "log_of s h" "c \<le> length h" "length h \<le> c + cap" "length h - c \<le> m"
  shows "client put poll (replicate m None) (s, c, take c h) = (s, length h, h)"
  using assms(2-4)
proof (induction m arbitrary: c)
  case 0
  then show ?case by simp
next
  case (Suc m)
  from log_poll[OF assms(1) Suc.prems(1,2)] obtain k where k: "poll c s = (take k (drop c h), c + k)" "c + k \<le> length h" "c < length h \<longrightarrow> 0 < k" by blast
  have "take c h @ take k (drop c h) = take (c + k) h" by (simp add: take_add)
  moreover have "length h \<le> c + k + cap" "length h - (c + k) \<le> m" using Suc.prems k(3) by auto
  ultimately show ?case using Suc.IH[OF k(2)] k(1) by simp
qed

end

section \<open>Both rings are such logs\<close>

definition rg_log :: "nat \<Rightarrow> 'a request_ring \<Rightarrow> 'a list \<Rightarrow> bool" where
  "rg_log cap r h \<longleftrightarrow> rg_capacity r = cap \<and> rg_buf r = window cap h \<and> rg_next r = length h"

definition rg_poll :: "int \<Rightarrow> nat \<Rightarrow> 'a request_ring \<Rightarrow> 'a list \<times> nat" where
  "rg_poll limit c r = (case list_requests (int c) limit r of (out, next_cursor) \<Rightarrow> (out, nat next_cursor))"

lemma list_requests_window:
  assumes "rg_log cap r h" "c \<le> length h" "length h \<le> c + cap"
  shows "\<exists>k. list_requests (int c) limit r = (take k (drop c h), int (c + k)) \<and> c + k \<le> length h \<and> (c < length h \<longrightarrow> 0 < k)"
proof -
  define l where "l = nat (max 1 (min limit 512))"
  define ms where "ms = drop c (enumerate 0 h)"
  have f: "filter (\<lambda>(idx, x). int c \<le> int idx) (rg_buf r) = ms"
    using assms filter_window[of c cap h] by (simp add: rg_log_def ms_def)
  have l: "0 < l" "slice_to (max 1 (min limit 512)) ms = take l ms" by (simp_all add: slice_to_def l_def)
  have m: "length ms = length h - c" "map snd ms = drop c h" by (simp_all add: ms_def drop_map[symmetric])
  have nx: "rg_next r = length h" using assms(1) by (simp add: rg_log_def)
  have q: "list_requests (int c) limit r = (map snd (take l ms), if min l (length ms) < length ms then int (fst (ms ! (min l (length ms) - 1))) + 1 else int (length h))"
  proof (cases "ms = []")
    case True
    then show ?thesis unfolding list_requests_def rg_since_def f Let_def l(2) nx by simp
  next
    case False
    then have "map snd (take l ms) \<noteq> []" using l(1) by simp
    then show ?thesis unfolding list_requests_def rg_since_def f Let_def l(2) nx by (simp add: min.commute)
  qed
  show ?thesis
  proof (cases "l < length ms")
    case True
    have "fst (ms ! (l - 1)) = c + (l - 1)" using True m(1) l(1) by (simp add: ms_def nth_enumerate_eq)
    then have "int (fst (ms ! (min l (length ms) - 1))) + 1 = int (c + l)" using True l(1) by simp
    then show ?thesis using True m l(1) q by (intro exI[of _ l]) (auto simp: take_map[symmetric])
  next
    case False
    then show ?thesis using m l(1) q assms(2) by (intro exI[of _ "length h - c"]) (auto simp: take_map[symmetric])
  qed
qed

interpretation requests: cursor_log "rg_init cap" rg_add "rg_poll limit" "rg_log cap" cap for cap :: nat and limit :: int
proof
  show "rg_log cap (rg_init cap) []" by (simp add: rg_log_def rg_init_def window_def)
  show "rg_log cap (rg_add x r) (h @ [x])" if "rg_log cap r h" for r x and h :: "'a list"
    using that by (simp add: rg_log_def rg_add_def window_append)
  show "\<exists>k. rg_poll limit c r = (take k (drop c h), c + k) \<and> c + k \<le> length h \<and> (c < length h \<longrightarrow> 0 < k)"
    if "rg_log cap r h" "c \<le> length h" "length h \<le> c + cap" for r c and h :: "'a list"
  proof -
    from list_requests_window[OF that, of limit] obtain k where "list_requests (int c) limit r = (take k (drop c h), int (c + k))"
      "c + k \<le> length h \<and> (c < length h \<longrightarrow> 0 < k)" by blast
    then show ?thesis by (intro exI[of _ k]) (simp add: rg_poll_def nat_int_add)
  qed
qed

type_synonym log_line = "string \<times> string \<times> int"

definition line_of :: "log_record \<Rightarrow> log_line" where
  "line_of rec = (lr_text rec, lr_kind rec, lr_ts rec)"

fun numbered :: "nat \<times> log_line \<Rightarrow> log_record" where
  "numbered (i, line, kind, ts) = \<lparr>lr_seq = i, lr_ts = ts, lr_kind = kind, lr_text = line\<rparr>"

lemma numbered_simps [simp]: "lr_seq (numbered p) = fst p" "line_of (numbered p) = snd p"
  by (cases p; simp add: line_of_def)+

definition lg_log :: "nat \<Rightarrow> log_ring \<Rightarrow> log_line list \<Rightarrow> bool" where
  "lg_log cap r h \<longleftrightarrow> lg_capacity r = cap \<and> lg_buf r = map numbered (window cap h) \<and> lg_next r = length h"

definition lg_put :: "log_line \<Rightarrow> log_ring \<Rightarrow> log_ring" where
  "lg_put x r = (case x of (line, kind, ts) \<Rightarrow> fst (lg_append line kind ts r))"

definition lg_poll :: "nat \<Rightarrow> log_ring \<Rightarrow> log_line list \<times> nat" where
  "lg_poll c r = (case lg_since (int c) r of (recs, n) \<Rightarrow> (map line_of recs, n))"

lemma lg_since_window:
  assumes "lg_log cap r h"
  shows "lg_since (int c) r = (map numbered (drop (max c (length h - cap)) (enumerate 0 h)), length h)"
proof -
  have "filter (\<lambda>rec. int c \<le> int (lr_seq rec)) (map numbered (window cap h)) = map numbered (filter (\<lambda>(i, x). c \<le> i) (window cap h))"
    by (simp add: filter_map comp_def case_prod_beta')
  then show ?thesis using assms by (simp add: lg_since_def lg_log_def filter_window)
qed

lemma lg_append_log:
  assumes "lg_log cap r h"
  shows "lg_log cap (fst (lg_append line kind ts r)) (h @ [(line, kind, ts)]) \<and> fst (snd (lg_append line kind ts r)) = numbered (length h, line, kind, ts)"
proof -
  have "deque_append cap (numbered (length h, line, kind, ts)) (map numbered (window cap h)) = map numbered (window cap (h @ [(line, kind, ts)]))"
    unfolding window_append[symmetric] deque_append_map ..
  then show ?thesis using assms by (simp add: lg_log_def lg_append_def)
qed

interpretation logs: cursor_log "lg_init cap" lg_put lg_poll "lg_log cap" cap for cap :: nat
proof
  show "lg_log cap (lg_init cap) []" by (simp add: lg_log_def lg_init_def window_def)
  show "lg_log cap (lg_put x r) (h @ [x])" if "lg_log cap r h" for r x h
    using lg_append_log[OF that] by (cases x) (simp add: lg_put_def)
  show "\<exists>k. lg_poll c r = (take k (drop c h), c + k) \<and> c + k \<le> length h \<and> (c < length h \<longrightarrow> 0 < k)"
    if "lg_log cap r h" "c \<le> length h" "length h \<le> c + cap" for r c h
  proof -
    have "map line_of (map numbered (drop c (enumerate 0 h))) = drop c h" by (simp add: drop_map[symmetric] comp_def)
    moreover have "max c (length h - cap) = c" using that(3) by simp
    ultimately show ?thesis using lg_since_window[OF that(1), of c] that(2)
      by (intro exI[of _ "length h - c"]) (simp add: lg_poll_def del: map_map)
  qed
qed

section \<open>The percentile\<close>

lemma p95_covers: "95 * length (rg_buf r) \<le> 100 * length (filter (\<lambda>(_, x). duration x \<le> rg_p95 duration r) (rg_buf r))"
proof (cases "rg_buf r = []")
  case False
  define durs where "durs = sort (map (\<lambda>(_, x). duration x) (rg_buf r))"
  define k where "k = div_ceil (95 * length durs) 100 - 1"
  have n: "0 < length durs" "length durs = length (rg_buf r)" using False by (simp_all add: durs_def)
  define q where "q = (95 * length durs + 99) div 100"
  have "95 * length durs + 99 = 100 * q + (95 * length durs + 99) mod 100" unfolding q_def by simp
  moreover have "(95 * length durs + 99) mod 100 < 100" by simp
  ultimately have q: "95 * length durs \<le> 100 * q" "100 * q \<le> 95 * length durs + 99" by linarith+
  have kq: "k = q - 1" by (simp add: k_def div_ceil_def q_def)
  have sq: "Suc k = q" using q(1) n(1) kq by (cases q) auto
  have k: "95 * length durs \<le> 100 * Suc k" using q(1) unfolding sq .
  have k2: "k < length durs"
  proof (rule ccontr)
    assume "\<not> k < length durs"
    then have "100 * length durs \<le> 100 * k" by simp
    then show False using q(2) unfolding sq[symmetric] by simp
  qed
  have p: "rg_p95 duration r = durs ! k" using n(1) by (auto simp: rg_p95_def durs_def[symmetric] k_def Let_def)
  have "sorted durs" by (simp add: durs_def)
  then have "\<forall>x\<in>set (take (Suc k) durs). x \<le> durs ! k"
    using k2 by (auto simp: in_set_conv_nth sorted_iff_nth_mono less_Suc_eq_le)
  then have "Suc k \<le> length (filter (\<lambda>x. x \<le> durs ! k) (take (Suc k) durs))" using k2 by (simp add: filter_id_conv)
  also have "\<dots> \<le> length (filter (\<lambda>x. x \<le> durs ! k) durs)"
    by (metis append_take_drop_id filter_append length_append le_add1)
  also have "\<dots> = length (filter (\<lambda>x. x \<le> durs ! k) (map (\<lambda>(_, x). duration x) (rg_buf r)))"
    unfolding durs_def by (metis filter_sort length_sort)
  also have "\<dots> = length (filter (\<lambda>(_, x). duration x \<le> durs ! k) (rg_buf r))" by (simp add: filter_map comp_def case_prod_beta')
  finally show ?thesis using k n(2) p by simp
qed simp

section \<open>Properties\<close>

text \<open>C33: The request ring is an append-only log seen through a cursor: a client that polls \<open>/v1/requests\<close> from the start,
  whatever limit it asks for, and never falls more than the capacity behind has received every record exactly once and
  in order up to its cursor, and polling on gives it the rest.\<close>

theorem requests_all_delivered:
  assumes "keeps_up cap rg_add (rg_poll limit) ops 0 (rg_init cap, 0)"
    and "client rg_add (rg_poll limit) ops (rg_init cap, 0, []) = (r, c, got)" "length (arrived ops) \<le> c + cap"
  shows "rg_log cap r (arrived ops) \<and> got = take c (arrived ops) \<and>
    client rg_add (rg_poll limit) (replicate (length (arrived ops) - c) None) (r, c, got) = (r, length (arrived ops), arrived ops)"
proof -
  have "rg_log cap r ([] @ arrived ops) \<and> c \<le> length ([] @ arrived ops) \<and> got = take c ([] @ arrived ops)"
    by (rule requests.client_log[OF requests.log_blank _ _ _ assms(2)]) (use assms(1) in simp_all)
  then have l: "rg_log cap r (arrived ops)" "c \<le> length (arrived ops)" "got = take c (arrived ops)" by simp_all
  from requests.client_catches_up[OF l(1,2) assms(3)] l show ?thesis by simp
qed

theorem requests_all_delivered_witness:
  "client rg_add (rg_poll 1) ([Some 10, Some 11, None, Some 12, None] @ replicate 1 None) (rg_init 2, 0, []) = (\<lparr>rg_capacity = 2, rg_buf = [(1, 11), (2, 12::nat)], rg_next = 3\<rparr>, 3, [10, 11, 12])"
proof -
  have k: "keeps_up 2 rg_add (rg_poll 1) [Some 10, Some 11, None, Some 12, None] 0 (rg_init 2, 0 :: nat)"
    and c: "client rg_add (rg_poll 1) [Some 10, Some 11, None, Some 12, None] (rg_init 2, 0, []) = (\<lparr>rg_capacity = 2, rg_buf = [(1, 11), (2, 12)], rg_next = 3\<rparr>, 2, [10, 11::nat])"
    and a: "arrived [Some 10, Some 11, None, Some 12, None] = [10, 11, 12::nat]" by code_simp+
  from requests_all_delivered[OF k c] have "client rg_add (rg_poll 1) (replicate 1 None) (\<lparr>rg_capacity = 2, rg_buf = [(1, 11), (2, 12)], rg_next = 3\<rparr>, 2, [10, 11::nat]) =
     (\<lparr>rg_capacity = 2, rg_buf = [(1, 11), (2, 12)], rg_next = 3\<rparr>, 3, [10, 11, 12])" unfolding a by simp
  then show ?thesis unfolding client_append c .
qed

end
