(* ===== verification/LogStream.thy ===== *)
theory LogStream
  imports LogRings
begin

text \<open>
  \<open>_log_stream\<close> of \<^verbatim>\<open>daemon/app.py\<close>: one subscriber of the log ring, as a step relation over everything that can
  interleave with it. Appending threads store a record under the ring's lock and call the subscribers outside it; a
  call schedules \<open>_put\<close> on the event loop; the handler subscribes, takes the backlog, sends it and then sends what it
  gets out of its bounded queue. The loop runs nothing between the handler's subscription and its snapshot.
\<close>

datatype frame = Line log_record | Gap nat nat nat

record stream =
  ls_ring :: log_ring
  ls_calls :: "log_record list"
  ls_loop :: "log_record list"
  ls_queue :: "log_record list"
  ls_drop :: "nat \<times> nat option \<times> nat option"
  ls_since :: nat
  ls_boundary :: "nat option"
  ls_todo :: "frame list"
  ls_hand :: "log_record option"
  ls_next :: nat
  ls_sent :: "frame list"

text \<open>A connection with cursor \<open>since\<close> that has not subscribed yet; \<open>last_seq\<close> is \<open>ls_next - 1\<close>.\<close>

definition connect :: "log_ring \<Rightarrow> nat \<Rightarrow> stream" where
  "connect r since = \<lparr>ls_ring = r, ls_calls = [], ls_loop = [], ls_queue = [], ls_drop = (0, None, None), ls_since = since,
     ls_boundary = None, ls_todo = [], ls_hand = None, ls_next = 0, ls_sent = []\<rparr>"

text \<open>\<open>_put\<close>: below the boundary nothing is queued; a full queue loses its oldest record, which is counted.\<close>

definition put_record :: "nat \<Rightarrow> log_record \<Rightarrow> stream \<Rightarrow> stream" where
  "put_record qmax rec st =
     (if lr_seq rec < (case ls_boundary st of None \<Rightarrow> 0 | Some b \<Rightarrow> b) then st
      else (let st = (if qmax \<le> length (ls_queue st) then
                        (case ls_queue st of
                           [] \<Rightarrow> st
                         | old # rest \<Rightarrow> (case ls_drop st of (n, frm, to) \<Rightarrow>
                             st\<lparr>ls_queue := rest, ls_drop := (n + 1, if frm = None then Some (lr_seq old) else frm, Some (lr_seq old))\<rparr>))
                      else st)
            in st\<lparr>ls_queue := ls_queue st @ [rec]\<rparr>))"

text \<open>The snapshot: the boundary, and the frames to replay, headed by a gap if the ring has evicted records.\<close>

definition snapshot :: "stream \<Rightarrow> stream" where
  "snapshot st =
     (let (backlog, cursor) = lg_since (int (ls_since st)) (ls_ring st);
          oldest = (if backlog = [] then cursor else lr_seq (hd backlog));
          gap = (if ls_since st < oldest then [Gap (oldest - ls_since st) (ls_since st) (oldest - 1)] else [])
      in st\<lparr>ls_boundary := Some cursor, ls_todo := gap @ map Line backlog, ls_next := cursor\<rparr>)"

text \<open>A record out of the queue: known ones are skipped, losses are announced first.\<close>

definition deliver :: "log_record \<Rightarrow> stream \<Rightarrow> stream" where
  "deliver rec st =
     (if lr_seq rec < ls_next st then st\<lparr>ls_hand := None\<rparr>
      else (case ls_drop st of (n, frm, to) \<Rightarrow>
        st\<lparr>ls_hand := None, ls_next := Suc (lr_seq rec), ls_drop := (0, None, None),
           ls_sent := ls_sent st @ (if n > 0 then [Gap n (the frm) (the to)] else []) @ [Line rec]\<rparr>))"

text \<open>The steps. With \<open>serial\<close> one thread at a time appends, that is: no record is stored while the calls for an earlier
  one are still to be made.\<close>

inductive stream_step :: "bool \<Rightarrow> nat \<Rightarrow> nat \<Rightarrow> stream \<Rightarrow> stream \<Rightarrow> bool" for serial :: bool and me :: nat and qmax :: nat where
  store: "(serial \<longrightarrow> ls_calls st = []) \<Longrightarrow> lg_append line kind ts (ls_ring st) = (r, rec, subs) \<Longrightarrow>
    stream_step serial me qmax st (st\<lparr>ls_ring := r, ls_calls := (if me \<in> subs then ls_calls st @ [rec] else ls_calls st)\<rparr>)"
| call: "ls_calls st = xs @ rec # ys \<Longrightarrow>
    stream_step serial me qmax st (st\<lparr>ls_calls := xs @ ys, ls_loop := ls_loop st @ [rec]\<rparr>)"
| subscribe: "me \<notin> lg_subs (ls_ring st) \<Longrightarrow> ls_boundary st = None \<Longrightarrow>
    stream_step serial me qmax st (st\<lparr>ls_ring := lg_subscribe me (ls_ring st)\<rparr>)"
| snap: "me \<in> lg_subs (ls_ring st) \<Longrightarrow> ls_boundary st = None \<Longrightarrow> stream_step serial me qmax st (snapshot st)"
| put: "ls_boundary st \<noteq> None \<Longrightarrow> ls_loop st = rec # rest \<Longrightarrow>
    stream_step serial me qmax st (put_record qmax rec (st\<lparr>ls_loop := rest\<rparr>))"
| replay: "ls_todo st = f # fs \<Longrightarrow> stream_step serial me qmax st (st\<lparr>ls_todo := fs, ls_sent := ls_sent st @ [f]\<rparr>)"
| get: "ls_boundary st \<noteq> None \<Longrightarrow> ls_todo st = [] \<Longrightarrow> ls_hand st = None \<Longrightarrow> ls_queue st = rec # rest \<Longrightarrow>
    stream_step serial me qmax st (st\<lparr>ls_queue := rest, ls_hand := Some rec\<rparr>)"
| yield: "ls_hand st = Some rec \<Longrightarrow> stream_step serial me qmax st (deliver rec st)"

text \<open>What the client has been told: the lines, in order, and how many it was told are lost.\<close>

fun frame_seqs :: "frame list \<Rightarrow> nat list" where
  "frame_seqs [] = []"
| "frame_seqs (Line rec # fs) = lr_seq rec # frame_seqs fs"
| "frame_seqs (Gap n a b # fs) = frame_seqs fs"

fun announced :: "frame list \<Rightarrow> nat" where
  "announced [] = 0"
| "announced (Line rec # fs) = announced fs"
| "announced (Gap n a b # fs) = n + announced fs"

lemma frames_append [simp]: "frame_seqs (xs @ ys) = frame_seqs xs @ frame_seqs ys" "announced (xs @ ys) = announced xs + announced ys"
  by (induction xs rule: frame_seqs.induct) auto

lemma frames_lines [simp]: "frame_seqs (map Line recs) = map lr_seq recs" "announced (map Line recs) = 0"
  by (induction recs) auto

text \<open>Everything sent is settled.\<close>

definition settled :: "stream \<Rightarrow> bool" where
  "settled st \<longleftrightarrow> ls_boundary st \<noteq> None \<and> ls_calls st = [] \<and> ls_loop st = [] \<and> ls_queue st = [] \<and> ls_todo st = [] \<and> ls_hand st = None \<and>
     fst (ls_drop st) = 0"

definition waiting_seqs :: "stream \<Rightarrow> nat list" where
  "waiting_seqs st = map lr_seq (case ls_hand st of None \<Rightarrow> [] | Some rec \<Rightarrow> [rec]) @ map lr_seq (ls_queue st)"

definition live_ok :: "nat \<Rightarrow> nat \<Rightarrow> stream \<Rightarrow> bool" where
  "live_ok b j st \<longleftrightarrow>
     (let fs = frame_seqs (ls_sent st @ ls_todo st); ws = waiting_seqs st
      in ls_since st \<le> b \<and> (ls_hand st \<noteq> None \<longrightarrow> ls_todo st = []) \<and>
         length fs + announced (ls_sent st @ ls_todo st) + fst (ls_drop st) + length ws = max b j - ls_since st \<and>
         sorted_wrt (<) (fs @ ws) \<and> (\<forall>i\<in>set fs. ls_since st \<le> i \<and> i < ls_next st) \<and>
         (\<forall>i\<in>set ws. ls_next st \<le> i \<and> i < max b j) \<and> b \<le> ls_next st \<and> ls_next st \<le> max b j)"

definition stream_inv :: "nat \<Rightarrow> nat \<Rightarrow> stream \<Rightarrow> bool" where
  "stream_inv me cap st \<longleftrightarrow> (\<exists>h. lg_log cap (ls_ring st) h) \<and> ls_since st \<le> lg_next (ls_ring st) \<and> length (ls_calls st) \<le> 1 \<and>
     (\<exists>j\<le>lg_next (ls_ring st). map lr_seq (ls_loop st @ ls_calls st) = [j..<lg_next (ls_ring st)] \<and>
       (case ls_boundary st of
          None \<Rightarrow> ls_queue st = [] \<and> ls_sent st = [] \<and> ls_hand st = None \<and> ls_todo st = [] \<and> fst (ls_drop st) = 0 \<and>
            (me \<notin> lg_subs (ls_ring st) \<longrightarrow> j = lg_next (ls_ring st))
        | Some b \<Rightarrow> me \<in> lg_subs (ls_ring st) \<and> b \<le> lg_next (ls_ring st) \<and> live_ok b j st))"

lemma live_ok_cong:
  assumes "ls_sent st' = ls_sent st" "ls_todo st' = ls_todo st" "ls_hand st' = ls_hand st" "ls_queue st' = ls_queue st"
    "ls_drop st' = ls_drop st" "ls_next st' = ls_next st" "ls_since st' = ls_since st"
  shows "live_ok b j st' = live_ok b j st"
  by (simp add: live_ok_def waiting_seqs_def assms)

lemma store_inv:
  assumes i: "stream_inv me cap st" and c: "ls_calls st = []" and a: "lg_append line kind ts (ls_ring st) = (r, rec, subs)"
  shows "stream_inv me cap (st\<lparr>ls_ring := r, ls_calls := (if me \<in> subs then ls_calls st @ [rec] else ls_calls st)\<rparr>)"
proof -
  let ?st = "st\<lparr>ls_ring := r, ls_calls := (if me \<in> subs then ls_calls st @ [rec] else ls_calls st)\<rparr>"
  let ?n = "lg_next (ls_ring st)"
  from i obtain h j where h: "lg_log cap (ls_ring st) h" and b: "ls_since st \<le> ?n" and j: "j \<le> ?n" "map lr_seq (ls_loop st @ ls_calls st) = [j..<?n]"
    and k: "case ls_boundary st of
          None \<Rightarrow> ls_queue st = [] \<and> ls_sent st = [] \<and> ls_hand st = None \<and> ls_todo st = [] \<and> fst (ls_drop st) = 0 \<and> (me \<notin> lg_subs (ls_ring st) \<longrightarrow> j = ?n)
        | Some b \<Rightarrow> me \<in> lg_subs (ls_ring st) \<and> b \<le> ?n \<and> live_ok b j st" by (auto simp: stream_inv_def)
  have l: "lg_log cap r (h @ [(line, kind, ts)])" "rec = numbered (length h, line, kind, ts)" using lg_append_log[OF h, of line kind ts] a by simp_all
  have s: "subs = lg_subs (ls_ring st)" "lg_subs r = lg_subs (ls_ring st)" "lg_next r = Suc ?n" using a by (auto simp: lg_append_def Let_def)
  have n: "lr_seq rec = ?n" using h l(2) by (simp add: lg_log_def)
  define j' where "j' = (if me \<in> subs then j else Suc ?n)"
  have lv: "live_ok b j ?st = live_ok b j st" for b by (rule live_ok_cong) simp_all
  have "map lr_seq (ls_loop ?st @ ls_calls ?st) = [j'..<lg_next (ls_ring ?st)]"
  proof (cases "me \<in> subs")
    case True
    then show ?thesis using j n c by (simp add: j'_def s(3))
  next
    case False
    then have "ls_boundary st = None" using k s(1) by (auto split: option.splits)
    with k False s(1) j c show ?thesis by (simp add: j'_def s(3))
  qed
  moreover have "j' \<le> lg_next (ls_ring ?st)" using j by (simp add: j'_def s(3))
  moreover have "case ls_boundary ?st of
          None \<Rightarrow> ls_queue ?st = [] \<and> ls_sent ?st = [] \<and> ls_hand ?st = None \<and> ls_todo ?st = [] \<and> fst (ls_drop ?st) = 0 \<and>
            (me \<notin> lg_subs (ls_ring ?st) \<longrightarrow> j' = lg_next (ls_ring ?st))
        | Some b \<Rightarrow> me \<in> lg_subs (ls_ring ?st) \<and> b \<le> lg_next (ls_ring ?st) \<and> live_ok b j' ?st"
  proof (cases "ls_boundary st")
    case None
    then show ?thesis using k by (simp add: j'_def s)
  next
    case (Some b)
    then have "me \<in> subs" "b \<le> ?n" "live_ok b j st" using k s(1) by simp_all
    then show ?thesis using Some lv by (simp add: j'_def s)
  qed
  moreover have "length (ls_calls ?st) \<le> 1" "ls_since ?st \<le> lg_next (ls_ring ?st)" using c b by (simp_all add: s(3))
  moreover have "lg_log cap (ls_ring ?st) (h @ [(line, kind, ts)])" using l(1) by simp
  ultimately show ?thesis unfolding stream_inv_def by blast
qed

lemma snapshot_live:
  assumes h: "lg_log cap (ls_ring st) h" and s: "ls_since st \<le> length h" and j: "j \<le> length h"
    and e: "ls_queue st = []" "ls_sent st = []" "ls_hand st = None" "fst (ls_drop st) = 0"
  shows "live_ok (length h) j (snapshot st) \<and> ls_boundary (snapshot st) = Some (length h)"
proof -
  define m where "m = max (ls_since st) (length h - cap)"
  define backlog where "backlog = map numbered (drop m (enumerate 0 h))"
  have w: "lg_since (int (ls_since st)) (ls_ring st) = (backlog, length h)" unfolding backlog_def m_def by (rule lg_since_window[OF h])
  have m: "ls_since st \<le> m" "m \<le> length h" using s by (auto simp: m_def)
  have q: "map lr_seq backlog = [m..<length h]"
    using m(2) by (simp add: backlog_def comp_def drop_map[symmetric] drop_upt)
  have o: "(if backlog = [] then length h else lr_seq (hd backlog)) = m"
  proof (cases "m < length h")
    case True
    then have pos: "0 < length h" by linarith
    with True have "map lr_seq backlog \<noteq> []" unfolding q by simp
    then have ne: "backlog \<noteq> []" by simp
    have "lr_seq (hd backlog) = hd (map lr_seq backlog)" using ne by (simp add: hd_map)
    then show ?thesis using ne True pos unfolding q by simp
  next
    case False
    then have "map lr_seq backlog = []" unfolding q by simp
    then show ?thesis using m(2) False by simp
  qed
  have t: "ls_todo (snapshot st) = (if ls_since st < m then [Gap (m - ls_since st) (ls_since st) (m - 1)] else []) @ map Line backlog"
    by (simp add: snapshot_def w o Let_def)
  have f: "frame_seqs (ls_todo (snapshot st)) = [m..<length h]" "announced (ls_todo (snapshot st)) = m - ls_since st"
    unfolding t using q m(1) by (auto simp del: append.simps)
  have u: "ls_queue (snapshot st) = []" "ls_sent (snapshot st) = []" "ls_hand (snapshot st) = None" "fst (ls_drop (snapshot st)) = 0"
    "ls_since (snapshot st) = ls_since st" "ls_next (snapshot st) = length h" "ls_boundary (snapshot st) = Some (length h)"
    using e by (simp_all add: snapshot_def w Let_def)
  have "waiting_seqs (snapshot st) = []" by (simp add: waiting_seqs_def u)
  then show ?thesis using f m j s by (auto simp: live_ok_def u Let_def)
qed

lemma sorted_drop_one: "sorted_wrt P (xs @ y # ys) \<Longrightarrow> sorted_wrt P (xs @ ys)"
  by (auto simp: sorted_wrt_append)

lemma sorted_snoc_max: "sorted_wrt (<) xs \<Longrightarrow> \<forall>x\<in>set xs. x < j \<Longrightarrow> sorted_wrt (<) (xs @ [j])"
  by (simp add: sorted_wrt_append)

lemma queue_put_live:
  assumes l: "live_ok b j st" and b: "ls_boundary st = Some b" and q: "lr_seq rec = j"
  shows "live_ok b (Suc j) (put_record qmax rec st)"
proof (cases "j < b")
  case True
  then have "max b (Suc j) = max b j" by simp
  moreover have "put_record qmax rec st = st" using True b q by (simp add: put_record_def)
  ultimately show ?thesis using l unfolding live_ok_def by simp
next
  case False
  define hand where "hand = map lr_seq (case ls_hand st of None \<Rightarrow> [] | Some rec \<Rightarrow> [rec])"
  define fs where "fs = frame_seqs (ls_sent st @ ls_todo st)"
  have ws: "waiting_seqs st = hand @ map lr_seq (ls_queue st)" by (simp add: waiting_seqs_def hand_def)
  have i: "ls_since st \<le> b" "ls_hand st \<noteq> None \<longrightarrow> ls_todo st = []"
    "length fs + announced (ls_sent st @ ls_todo st) + fst (ls_drop st) + length (waiting_seqs st) = j - ls_since st"
    "sorted_wrt (<) (fs @ waiting_seqs st)" "\<forall>i\<in>set fs. ls_since st \<le> i \<and> i < ls_next st"
    "\<forall>i\<in>set (waiting_seqs st). ls_next st \<le> i \<and> i < j" "b \<le> ls_next st" "ls_next st \<le> j"
    using l False by (simp_all add: live_ok_def fs_def Let_def max_def)
  have lt: "\<forall>i\<in>set fs. i < j" using i(5,8) by auto
  show ?thesis
  proof (cases "qmax \<le> length (ls_queue st) \<and> ls_queue st \<noteq> []")
    case True
    then obtain old rest where o: "ls_queue st = old # rest" by (cases "ls_queue st") auto
    obtain n frm to where d: "ls_drop st = (n, frm, to)" by (cases "ls_drop st")
    define st' where "st' = put_record qmax rec st"
    have e: "ls_sent st' = ls_sent st" "ls_todo st' = ls_todo st" "ls_hand st' = ls_hand st" "ls_queue st' = rest @ [rec]" "ls_next st' = ls_next st"
      "ls_since st' = ls_since st" "fst (ls_drop st') = n + 1"
      using True False b o d q by (simp_all add: st'_def put_record_def Let_def)
    have w': "waiting_seqs st' = hand @ map lr_seq rest @ [j]" by (simp add: waiting_seqs_def hand_def e q)
    have wo: "waiting_seqs st = hand @ lr_seq old # map lr_seq rest" by (simp add: ws o)
    have "sorted_wrt (<) ((fs @ hand) @ map lr_seq rest)" using i(4) unfolding wo append_assoc[symmetric] by (rule sorted_drop_one)
    then have so: "sorted_wrt (<) (fs @ waiting_seqs st')" using sorted_snoc_max[of "fs @ hand @ map lr_seq rest" j] lt i(6) unfolding w' wo by auto
    have wj: "\<forall>x\<in>set (waiting_seqs st'). ls_next st \<le> x \<and> x < Suc j" using i(6,8) unfolding w' wo by (auto intro: less_SucI)
    have "length (waiting_seqs st') = length (waiting_seqs st)" unfolding w' wo by simp
    then have ln: "length fs + announced (ls_sent st @ ls_todo st) + (n + 1) + length (waiting_seqs st') = Suc j - ls_since st"
      using i(1,3,7,8) d by simp
    have "max b (Suc j) = Suc j" using False by simp
    then show ?thesis using i(1,2,5,7,8) so wj ln unfolding st'_def[symmetric] live_ok_def e fs_def[symmetric] Let_def by auto
  next
    case nf: False
    define st' where "st' = put_record qmax rec st"
    have e: "ls_sent st' = ls_sent st" "ls_todo st' = ls_todo st" "ls_hand st' = ls_hand st" "ls_queue st' = ls_queue st @ [rec]" "ls_next st' = ls_next st"
      "ls_since st' = ls_since st" "ls_drop st' = ls_drop st"
      using nf False b q by (auto simp: st'_def put_record_def Let_def split: list.split)
    have w': "waiting_seqs st' = hand @ map lr_seq (ls_queue st) @ [j]" by (simp add: waiting_seqs_def hand_def e q)
    have so: "sorted_wrt (<) (fs @ waiting_seqs st')" using sorted_snoc_max[of "fs @ waiting_seqs st" j] lt i(4,6) unfolding w' ws by auto
    have wj: "\<forall>x\<in>set (waiting_seqs st'). ls_next st \<le> x \<and> x < Suc j" using i(6,8) unfolding w' ws by (auto intro: less_SucI)
    have "length (waiting_seqs st') = Suc (length (waiting_seqs st))" unfolding w' ws by simp
    then have ln: "length fs + announced (ls_sent st @ ls_todo st) + fst (ls_drop st) + length (waiting_seqs st') = Suc j - ls_since st"
      using i(1,3,7,8) by simp
    have "max b (Suc j) = Suc j" using False by simp
    then show ?thesis using i(1,2,5,7,8) so wj ln unfolding st'_def[symmetric] live_ok_def e fs_def[symmetric] Let_def by auto
  qed
qed

lemma deliver_live:
  assumes l: "live_ok b j st" and h: "ls_hand st = Some rec"
  shows "live_ok b j (deliver rec st)"
proof -
  obtain n frm to where d: "ls_drop st = (n, frm, to)" by (cases "ls_drop st")
  have t: "ls_todo st = []" "ls_next st \<le> lr_seq rec" using l h by (simp_all add: live_ok_def waiting_seqs_def Let_def)
  show ?thesis using l t(2) by (auto simp: live_ok_def deliver_def waiting_seqs_def h d t(1) Let_def sorted_wrt_append)
qed

lemma stream_invI:
  "lg_log cap (ls_ring st) h \<Longrightarrow> ls_since st \<le> lg_next (ls_ring st) \<Longrightarrow> length (ls_calls st) \<le> 1 \<Longrightarrow> j \<le> lg_next (ls_ring st) \<Longrightarrow>
   map lr_seq (ls_loop st @ ls_calls st) = [j..<lg_next (ls_ring st)] \<Longrightarrow> ls_boundary st = Some b \<Longrightarrow> me \<in> lg_subs (ls_ring st) \<Longrightarrow>
   b \<le> lg_next (ls_ring st) \<Longrightarrow> live_ok b j st \<Longrightarrow> stream_inv me cap st"
  unfolding stream_inv_def by auto

lemma inv_cong:
  assumes "stream_inv me cap st" "ls_ring st' = ls_ring st" "ls_since st' = ls_since st" "ls_boundary st' = ls_boundary st"
    "map lr_seq (ls_loop st' @ ls_calls st') = map lr_seq (ls_loop st @ ls_calls st)" "length (ls_calls st') \<le> 1"
    "ls_boundary st = None \<Longrightarrow> ls_queue st' = ls_queue st \<and> ls_sent st' = ls_sent st \<and> ls_hand st' = ls_hand st \<and> ls_todo st' = ls_todo st \<and> ls_drop st' = ls_drop st"
    "\<And>b j. ls_boundary st = Some b \<Longrightarrow> live_ok b j st \<Longrightarrow> live_ok b j st'"
  shows "stream_inv me cap st'"
  using assms(1) assms(6-8) unfolding stream_inv_def assms(2-5) by (cases "ls_boundary st") auto

lemma step_inv:
  assumes "stream_step True me qmax st st'" "stream_inv me cap st"
  shows "stream_inv me cap st'"
  using assms
proof cases
  case (store line kind ts r rec subs)
  then show ?thesis using store_inv[OF assms(2)] by simp
next
  case (call xs rec ys)
  have "length (ls_calls st) \<le> 1" using assms(2) by (simp add: stream_inv_def)
  then have "xs = []" "ys = []" using call(2) by simp_all
  then show ?thesis using call by (intro inv_cong[OF assms(2)]) (auto simp: live_ok_def waiting_seqs_def)
next
  case subscribe
  then show ?thesis using assms(2) by (auto simp: stream_inv_def lg_subscribe_def lg_log_def)
next
  case snap
  from assms(2) snap(3) obtain h j where h: "lg_log cap (ls_ring st) h" and b: "ls_since st \<le> lg_next (ls_ring st)" "length (ls_calls st) \<le> 1"
    and j: "j \<le> lg_next (ls_ring st)" "map lr_seq (ls_loop st @ ls_calls st) = [j..<lg_next (ls_ring st)]"
    and e: "ls_queue st = []" "ls_sent st = []" "ls_hand st = None" "fst (ls_drop st) = 0" by (auto simp: stream_inv_def)
  have n: "lg_next (ls_ring st) = length h" using h by (simp add: lg_log_def)
  from snapshot_live[OF h _ _ e, of j] b(1) j(1) n have "live_ok (length h) j (snapshot st)" "ls_boundary (snapshot st) = Some (length h)" by auto
  moreover have "ls_ring (snapshot st) = ls_ring st" "ls_since (snapshot st) = ls_since st" "ls_calls (snapshot st) = ls_calls st" "ls_loop (snapshot st) = ls_loop st"
    by (simp_all add: snapshot_def Let_def split: prod.split)
  ultimately show ?thesis using snap h b j n unfolding stream_inv_def by auto
next
  case (put rec rest)
  from put(2) obtain b where b: "ls_boundary st = Some b" by auto
  let ?s0 = "st\<lparr>ls_loop := rest\<rparr>"
  from assms(2) b obtain h j where h: "lg_log cap (ls_ring st) h" "ls_since st \<le> lg_next (ls_ring st)" "length (ls_calls st) \<le> 1"
    and j: "j \<le> lg_next (ls_ring st)" "map lr_seq (ls_loop st @ ls_calls st) = [j..<lg_next (ls_ring st)]"
    and l: "me \<in> lg_subs (ls_ring st)" "b \<le> lg_next (ls_ring st)" "live_ok b j st" by (auto simp: stream_inv_def)
  have q: "lr_seq rec # map lr_seq (rest @ ls_calls st) = [j..<lg_next (ls_ring st)]" using j(2) put(3) by simp
  then have jn: "j < lg_next (ls_ring st)" by (cases "j < lg_next (ls_ring st)") auto
  then have q2: "lr_seq rec = j" "map lr_seq (rest @ ls_calls st) = [Suc j..<lg_next (ls_ring st)]" using q by (simp_all add: upt_conv_Cons)
  have "live_ok b j ?s0 = live_ok b j st" by (rule live_ok_cong) simp_all
  with l(3) have "live_ok b (Suc j) (put_record qmax rec ?s0)" by (intro queue_put_live) (simp_all add: b q2)
  moreover have e: "ls_ring (put_record qmax rec ?s0) = ls_ring st" "ls_since (put_record qmax rec ?s0) = ls_since st"
    "ls_calls (put_record qmax rec ?s0) = ls_calls st" "ls_loop (put_record qmax rec ?s0) = rest" "ls_boundary (put_record qmax rec ?s0) = Some b"
    using b by (auto simp: put_record_def Let_def split: list.split prod.split)
  ultimately show ?thesis using h jn q2(2) l(1,2) unfolding put(1) by (intro stream_invI[of _ _ h "Suc j" b]) (simp_all only: e Suc_le_eq)
next
  case (replay f fs)
  then show ?thesis using assms(2) by (intro inv_cong[OF assms(2)]) (auto simp: live_ok_def waiting_seqs_def stream_inv_def)
next
  case (get rec rest)
  then show ?thesis using assms(2) by (intro inv_cong[OF assms(2)]) (auto simp: live_ok_def waiting_seqs_def stream_inv_def)
next
  case (yield rec)
  have b: "ls_boundary st \<noteq> None" using assms(2) yield(2) by (auto simp: stream_inv_def split: option.splits)
  have e: "ls_ring (deliver rec st) = ls_ring st" "ls_since (deliver rec st) = ls_since st" "ls_boundary (deliver rec st) = ls_boundary st"
    "ls_loop (deliver rec st) = ls_loop st" "ls_calls (deliver rec st) = ls_calls st" by (simp_all add: deliver_def split: prod.split)
  show ?thesis unfolding yield(1)
    by (rule inv_cong[OF assms(2)]) (use assms(2) b e deliver_live[OF _ yield(2)] in \<open>auto simp: stream_inv_def\<close>)
qed

inductive streamed :: "bool \<Rightarrow> nat \<Rightarrow> nat \<Rightarrow> stream \<Rightarrow> stream \<Rightarrow> bool" for serial me qmax st0 where
  start: "streamed serial me qmax st0 st0"
| next_step: "streamed serial me qmax st0 st \<Longrightarrow> stream_step serial me qmax st st' \<Longrightarrow> streamed serial me qmax st0 st'"

lemma connect_inv:
  assumes "lg_log cap r h" "since \<le> length h" "me \<notin> lg_subs r"
  shows "stream_inv me cap (connect r since)"
  using assms by (auto simp: stream_inv_def connect_def lg_log_def)

lemma streamed_inv: "streamed True me qmax st0 st \<Longrightarrow> stream_inv me cap st0 \<Longrightarrow> stream_inv me cap st"
  by (induction rule: streamed.induct) (auto intro: step_inv)

section \<open>What a gap covers\<close>

text \<open>Whether a sent frame or a loss not yet announced tells the client of line \<open>i\<close>: the range of a gap runs from the first to
  the last line lost before it.\<close>

definition in_gap :: "frame list \<Rightarrow> nat \<Rightarrow> bool" where
  "in_gap fs i \<longleftrightarrow> (\<exists>n a b. Gap n a b \<in> set fs \<and> a \<le> i \<and> i \<le> b)"

definition in_drop :: "nat \<times> nat option \<times> nat option \<Rightarrow> nat \<Rightarrow> bool" where
  "in_drop d i \<longleftrightarrow> (\<exists>n a b. d = (n, Some a, Some b) \<and> a \<le> i \<and> i \<le> b)"

definition drop_ok :: "nat \<Rightarrow> stream \<Rightarrow> bool" where
  "drop_ok m st \<longleftrightarrow> (case ls_drop st of (n, frm, to) \<Rightarrow>
     if n = 0 then frm = None \<and> to = None
     else (\<exists>a b. frm = Some a \<and> to = Some b \<and> a \<le> b \<and> b < m \<and> (\<forall>rec\<in>set (ls_queue st). b < lr_seq rec)))"

definition covered :: "nat \<Rightarrow> nat \<Rightarrow> stream \<Rightarrow> bool" where
  "covered b j st \<longleftrightarrow> drop_ok (max b j) st \<and> (\<forall>i. ls_since st \<le> i \<longrightarrow> i < max b j \<longrightarrow>
     i \<in> set (frame_seqs (ls_sent st @ ls_todo st) @ waiting_seqs st) \<or> in_gap (ls_sent st @ ls_todo st) i \<or> in_drop (ls_drop st) i)"

text \<open>The lines that have reached \<open>_put\<close> are those below this number.\<close>

definition put_pos :: "stream \<Rightarrow> nat" where
  "put_pos st = lg_next (ls_ring st) - length (ls_loop st @ ls_calls st)"

definition cover_inv :: "stream \<Rightarrow> bool" where
  "cover_inv st \<longleftrightarrow> (case ls_boundary st of None \<Rightarrow> ls_drop st = (0, None, None) | Some b \<Rightarrow> covered b (put_pos st) st)"

lemma in_gap_append [simp]: "in_gap (xs @ ys) i \<longleftrightarrow> in_gap xs i \<or> in_gap ys i"
  by (auto simp: in_gap_def)

lemma in_gap_lines [simp]: "\<not> in_gap (map Line recs) i" "in_gap [Gap n a b] i \<longleftrightarrow> a \<le> i \<and> i \<le> b" "\<not> in_gap [] i" "in_gap (Line rec # fs) i \<longleftrightarrow> in_gap fs i"
    "in_gap (Gap n a b # fs) i \<longleftrightarrow> a \<le> i \<and> i \<le> b \<or> in_gap fs i"
  by (auto simp: in_gap_def)

lemma covered_cong:
  assumes "ls_sent st' @ ls_todo st' = ls_sent st @ ls_todo st" "waiting_seqs st' = waiting_seqs st" "ls_drop st' = ls_drop st"
    "ls_since st' = ls_since st" "set (ls_queue st') \<subseteq> set (ls_queue st)" "covered b j st"
  shows "covered b j st'"
proof -
  have "\<And>c. \<forall>rec\<in>set (ls_queue st). c < lr_seq rec \<Longrightarrow> \<forall>rec\<in>set (ls_queue st'). c < lr_seq rec" using assms(5) by blast
  then have "drop_ok (max b j) st'" using assms(6) unfolding covered_def drop_ok_def assms(3) by (cases "ls_drop st") auto
  then show ?thesis using assms(6) unfolding covered_def assms(1-4) by blast
qed

lemma put_pos_inv:
  assumes "stream_inv me cap st" "ls_boundary st = Some b"
  shows "live_ok b (put_pos st) st" "put_pos st \<le> lg_next (ls_ring st)" "map lr_seq (ls_loop st @ ls_calls st) = [put_pos st..<lg_next (ls_ring st)]"
proof -
  from assms obtain j where j: "j \<le> lg_next (ls_ring st)" "map lr_seq (ls_loop st @ ls_calls st) = [j..<lg_next (ls_ring st)]" "live_ok b j st"
    by (auto simp: stream_inv_def)
  have "put_pos st = j" using arg_cong[OF j(2), of length] j(1) by (simp add: put_pos_def)
  with j show "live_ok b (put_pos st) st" "put_pos st \<le> lg_next (ls_ring st)" "map lr_seq (ls_loop st @ ls_calls st) = [put_pos st..<lg_next (ls_ring st)]"
    by simp_all
qed

lemma put_covered:
  assumes c: "covered b j st" and l: "live_ok b j st" and b: "ls_boundary st = Some b" and q: "lr_seq rec = j"
  shows "covered b (Suc j) (put_record qmax rec st)"
proof (cases "j < b")
  case True
  then have "max b (Suc j) = max b j" by simp
  moreover have "put_record qmax rec st = st" using True b q by (simp add: put_record_def)
  ultimately show ?thesis using c unfolding covered_def by simp
next
  case False
  then have mx: "max b j = j" "max b (Suc j) = Suc j" by simp_all
  obtain n frm to where d: "ls_drop st = (n, frm, to)" by (cases "ls_drop st")
  define hand where "hand = map lr_seq (case ls_hand st of None \<Rightarrow> [] | Some rec \<Rightarrow> [rec])"
  have ws: "waiting_seqs st = hand @ map lr_seq (ls_queue st)" by (simp add: waiting_seqs_def hand_def)
  have sq: "sorted_wrt (<) (map lr_seq (ls_queue st))" and lt: "\<forall>i\<in>set (map lr_seq (ls_queue st)). i < j"
    using l unfolding live_ok_def Let_def ws mx by (simp_all add: sorted_wrt_append)
  show ?thesis
  proof (cases "qmax \<le> length (ls_queue st) \<and> ls_queue st \<noteq> []")
    case True
    then obtain old rest where o: "ls_queue st = old # rest" by (cases "ls_queue st") auto
    define st' where "st' = put_record qmax rec st"
    have e: "ls_sent st' = ls_sent st" "ls_todo st' = ls_todo st" "ls_hand st' = ls_hand st" "ls_queue st' = rest @ [rec]" "ls_since st' = ls_since st"
      "ls_drop st' = (n + 1, if frm = None then Some (lr_seq old) else frm, Some (lr_seq old))"
      using True False b o d q by (simp_all add: st'_def put_record_def Let_def)
    have w': "waiting_seqs st' = hand @ map lr_seq rest @ [j]" by (simp add: waiting_seqs_def hand_def e q)
    have first: "\<forall>x\<in>set rest. lr_seq old < lr_seq x" "lr_seq old < j" using sq lt by (simp_all add: o)
    have dk: "n = 0 \<and> frm = None \<and> to = None \<or> (\<exists>x y. frm = Some x \<and> to = Some y \<and> x \<le> y \<and> y < lr_seq old)"
      using c by (auto simp: covered_def drop_ok_def d o split: if_splits)
    then have "drop_ok (Suc j) st'" using first q by (auto simp: drop_ok_def e)
    moreover have dr: "in_drop (ls_drop st') (lr_seq old)" "in_drop (ls_drop st) i \<Longrightarrow> in_drop (ls_drop st') i" for i
      using dk by (auto simp: in_drop_def e d)
    moreover have sb: "set (waiting_seqs st) \<subseteq> insert (lr_seq old) (set (waiting_seqs st'))" "j \<in> set (waiting_seqs st')" unfolding ws w' o by auto
    moreover have "i \<in> set (frame_seqs (ls_sent st @ ls_todo st) @ waiting_seqs st') \<or> in_gap (ls_sent st @ ls_todo st) i \<or> in_drop (ls_drop st') i"
      if "ls_since st \<le> i" "i < j" for i
    proof -
      have "i \<in> set (frame_seqs (ls_sent st @ ls_todo st) @ waiting_seqs st) \<or> in_gap (ls_sent st @ ls_todo st) i \<or> in_drop (ls_drop st) i"
        using c that unfolding covered_def mx(1) by blast
      then show ?thesis using dr sb by (auto dest: subsetD)
    qed
    ultimately have "covered b (Suc j) st'" unfolding covered_def mx(2) e(1,2,5) less_Suc_eq by auto
    then show ?thesis by (simp only: st'_def)
  next
    case nf: False
    define st' where "st' = put_record qmax rec st"
    have e: "ls_sent st' = ls_sent st" "ls_todo st' = ls_todo st" "ls_hand st' = ls_hand st" "ls_queue st' = ls_queue st @ [rec]" "ls_since st' = ls_since st"
      "ls_drop st' = ls_drop st"
      using nf False b q by (auto simp: st'_def put_record_def Let_def split: list.split)
    have w': "waiting_seqs st' = waiting_seqs st @ [j]" by (simp add: waiting_seqs_def e q)
    have "drop_ok (Suc j) st'" using c q mx by (auto simp: drop_ok_def covered_def e d split: if_splits)
    then have "covered b (Suc j) st'" using c unfolding covered_def mx e(1,2,5,6) w' less_Suc_eq by auto
    then show ?thesis by (simp only: st'_def)
  qed
qed

lemma cover_same:
  assumes "cover_inv st" "ls_boundary st' = ls_boundary st" "put_pos st' = put_pos st" "ls_drop st' = ls_drop st"
    "\<And>b j. ls_boundary st = Some b \<Longrightarrow> covered b j st \<Longrightarrow> covered b j st'"
  shows "cover_inv st'"
  using assms unfolding cover_inv_def by (auto split: option.splits)

lemma snapshot_covered:
  assumes h: "lg_log cap (ls_ring st) h" and j: "j \<le> length h" and d: "ls_drop st = (0, None, None)"
  shows "covered (length h) j (snapshot st)"
proof -
  define m where "m = max (ls_since st) (length h - cap)"
  obtain backlog where w: "lg_since (int (ls_since st)) (ls_ring st) = (backlog, length h)" and q: "map lr_seq backlog = drop m [0..<length h]"
    using lg_since_window[OF h, of "ls_since st"] by (simp add: m_def comp_def drop_map[symmetric])
  define oldest where "oldest = (if backlog = [] then length h else lr_seq (hd backlog))"
  have o: "oldest = m \<or> length h \<le> m \<and> oldest = length h"
  proof (cases "m < length h")
    case True
    then have "map lr_seq backlog = m # [Suc m..<length h]" unfolding q by (simp add: drop_upt upt_conv_Cons)
    then show ?thesis by (cases backlog) (auto simp: oldest_def)
  next
    case False
    then have "map lr_seq backlog = []" unfolding q by (simp add: drop_upt)
    then show ?thesis using False by (simp add: oldest_def)
  qed
  have t: "ls_todo (snapshot st) = (if ls_since st < oldest then [Gap (oldest - ls_since st) (ls_since st) (oldest - 1)] else []) @ map Line backlog"
    "ls_drop (snapshot st) = (0, None, None)" "ls_since (snapshot st) = ls_since st"
    by (simp_all add: snapshot_def w oldest_def Let_def d)
  have told: "i \<in> set (map lr_seq backlog) \<or> ls_since st \<le> i \<and> i < oldest" if "ls_since st \<le> i" "i < length h" for i
    using that o unfolding q by (auto simp: drop_upt)
  have "i \<in> set (frame_seqs (ls_todo (snapshot st))) \<or> in_gap (ls_todo (snapshot st)) i" if "ls_since st \<le> i" "i < length h" for i
    using told[OF that] that unfolding t(1) by (cases "ls_since st < oldest") auto
  moreover have "max (length h) j = length h" using j by simp
  ultimately show ?thesis unfolding covered_def drop_ok_def t(2,3) by auto
qed

lemma step_cover:
  assumes "stream_step True me qmax st st'" "stream_inv me cap st" "cover_inv st"
  shows "cover_inv st'"
  using assms(1)
proof cases
  case (store line kind ts r rec subs)
  have s: "subs = lg_subs (ls_ring st)" "lg_next r = Suc (lg_next (ls_ring st))" using store(3) by (auto simp: lg_append_def Let_def)
  show ?thesis
  proof (cases "ls_boundary st")
    case None
    then show ?thesis using assms(3) store(1) by (simp add: cover_inv_def)
  next
    case (Some b)
    then have me: "me \<in> subs" using assms(2) s by (auto simp: stream_inv_def)
    have "length (ls_loop st @ ls_calls st) \<le> lg_next (ls_ring st)" using arg_cong[OF put_pos_inv(3)[OF assms(2) Some], of length] by simp
    then have "put_pos st' = put_pos st" using me s(2) by (simp add: store(1) put_pos_def Suc_diff_le)
    then show ?thesis using store(1) by (intro cover_same[OF assms(3)]) (auto intro: covered_cong simp: waiting_seqs_def)
  qed
next
  case (call xs rec ys)
  then show ?thesis by (intro cover_same[OF assms(3)]) (auto intro: covered_cong simp: put_pos_def waiting_seqs_def)
next
  case subscribe
  then show ?thesis using assms(3) by (simp add: cover_inv_def)
next
  case snap
  from assms(2) snap(3) obtain h where h: "lg_log cap (ls_ring st) h" by (auto simp: stream_inv_def)
  have n: "lg_next (ls_ring st) = length h" using h by (simp add: lg_log_def)
  have d: "ls_drop st = (0, None, None)" using assms(3) snap(3) by (simp add: cover_inv_def)
  have c: "covered (length h) (put_pos st) (snapshot st)" using n by (intro snapshot_covered[OF h _ d]) (simp add: put_pos_def)
  obtain backlog where w: "lg_since (int (ls_since st)) (ls_ring st) = (backlog, length h)" using lg_since_window[OF h, of "ls_since st"] by simp
  have "ls_boundary (snapshot st) = Some (length h)" "put_pos (snapshot st) = put_pos st"
    by (simp_all add: snapshot_def put_pos_def Let_def w)
  then show ?thesis using c unfolding snap(1) cover_inv_def by simp
next
  case (put rec rest)
  from put(2) obtain b where b: "ls_boundary st = Some b" by auto
  let ?s0 = "st\<lparr>ls_loop := rest\<rparr>"
  note i = put_pos_inv[OF assms(2) b]
  have q: "lr_seq rec # map lr_seq (rest @ ls_calls st) = [put_pos st..<lg_next (ls_ring st)]" using i(3) put(3) by simp
  then have j: "put_pos st < lg_next (ls_ring st)" by (cases "put_pos st < lg_next (ls_ring st)") auto
  have len: "Suc (length rest + length (ls_calls st)) \<le> lg_next (ls_ring st)" using arg_cong[OF q, of length] by simp
  from j have r: "lr_seq rec = put_pos st" using q by (simp add: upt_conv_Cons)
  have "covered b (put_pos st) st" using assms(3) b by (simp add: cover_inv_def)
  then have c: "covered b (put_pos st) ?s0" by (rule covered_cong[rotated 5]) (simp_all add: waiting_seqs_def)
  have l: "live_ok b (put_pos st) ?s0" using i(1) live_ok_cong[of ?s0 st b "put_pos st"] by simp
  from put_covered[OF c l _ r, of qmax] b have "covered b (Suc (put_pos st)) (put_record qmax rec ?s0)" by simp
  moreover have "ls_boundary (put_record qmax rec ?s0) = Some b" "put_pos (put_record qmax rec ?s0) = Suc (put_pos st)"
    using b j put(3) len by (auto simp: put_record_def put_pos_def Let_def Suc_diff_Suc Suc_diff_le split: list.split prod.split)
  ultimately show ?thesis unfolding put(1) cover_inv_def by simp
next
  case (replay f fs)
  have "covered b j st'" if "covered b j st" for b j
    using that by (rule covered_cong[rotated 5]) (simp_all add: replay waiting_seqs_def)
  then show ?thesis by (intro cover_same[OF assms(3)]) (simp_all add: replay put_pos_def)
next
  case (get rec rest)
  have "covered b j st'" if "covered b j st" for b j
    using that by (rule covered_cong[rotated 5]) (auto simp: get waiting_seqs_def)
  then show ?thesis by (intro cover_same[OF assms(3)]) (simp_all add: get put_pos_def)
next
  case (yield rec)
  obtain b where b: "ls_boundary st = Some b" using assms(2) yield(2) by (auto simp: stream_inv_def split: option.splits)
  have i: "live_ok b (put_pos st) st" by (rule put_pos_inv[OF assms(2) b])
  have t: "ls_todo st = []" "ls_next st \<le> lr_seq rec" using i yield(2) by (simp_all add: live_ok_def waiting_seqs_def Let_def)
  obtain n frm to where d: "ls_drop st = (n, frm, to)" by (cases "ls_drop st")
  have c: "covered b (put_pos st) st" using assms(3) b by (simp add: cover_inv_def)
  then have k: "n = 0 \<and> frm = None \<and> to = None \<or> n > 0 \<and> (\<exists>x y. frm = Some x \<and> to = Some y)" by (auto simp: covered_def drop_ok_def d split: if_splits)
  have e: "ls_boundary (deliver rec st) = Some b" "put_pos (deliver rec st) = put_pos st" using b by (simp_all add: deliver_def put_pos_def split: prod.split)
  have "covered b (put_pos st) (deliver rec st)"
    using c k t yield(2) d by (auto simp: covered_def drop_ok_def deliver_def waiting_seqs_def in_drop_def)
  then show ?thesis unfolding yield(1) cover_inv_def e by simp
qed

lemma streamed_cover:
  "streamed True me qmax st0 st \<Longrightarrow> stream_inv me cap st0 \<Longrightarrow> cover_inv st0 \<Longrightarrow> stream_inv me cap st \<and> cover_inv st"
  by (induction rule: streamed.induct) (auto intro: step_inv step_cover)

text \<open>The steps as events, to run a schedule.\<close>

datatype event = Store string | Call nat | Subscribe | Snap | Put | Replay | Get | Yield

fun fire :: "bool \<Rightarrow> nat \<Rightarrow> nat \<Rightarrow> event \<Rightarrow> stream \<Rightarrow> stream option" where
  "fire serial me qmax (Store line) st =
     (if serial \<and> ls_calls st \<noteq> [] then None
      else (case lg_append line ''line'' 0 (ls_ring st) of (r, rec, subs) \<Rightarrow>
        Some (st\<lparr>ls_ring := r, ls_calls := (if me \<in> subs then ls_calls st @ [rec] else ls_calls st)\<rparr>)))"
| "fire serial me qmax (Call k) st =
     (if k < length (ls_calls st)
      then Some (st\<lparr>ls_calls := take k (ls_calls st) @ drop (Suc k) (ls_calls st), ls_loop := ls_loop st @ [ls_calls st ! k]\<rparr>) else None)"
| "fire serial me qmax Subscribe st =
     (if me \<notin> lg_subs (ls_ring st) \<and> ls_boundary st = None then Some (st\<lparr>ls_ring := lg_subscribe me (ls_ring st)\<rparr>) else None)"
| "fire serial me qmax Snap st = (if me \<in> lg_subs (ls_ring st) \<and> ls_boundary st = None then Some (snapshot st) else None)"
| "fire serial me qmax Put st =
     (case ls_loop st of [] \<Rightarrow> None
      | rec # rest \<Rightarrow> if ls_boundary st \<noteq> None then Some (put_record qmax rec (st\<lparr>ls_loop := rest\<rparr>)) else None)"
| "fire serial me qmax Replay st = (case ls_todo st of [] \<Rightarrow> None | f # fs \<Rightarrow> Some (st\<lparr>ls_todo := fs, ls_sent := ls_sent st @ [f]\<rparr>))"
| "fire serial me qmax Get st =
     (case ls_queue st of [] \<Rightarrow> None
      | rec # rest \<Rightarrow> if ls_boundary st \<noteq> None \<and> ls_todo st = [] \<and> ls_hand st = None then Some (st\<lparr>ls_queue := rest, ls_hand := Some rec\<rparr>) else None)"
| "fire serial me qmax Yield st = (case ls_hand st of None \<Rightarrow> None | Some rec \<Rightarrow> Some (deliver rec st))"

fun fire_all :: "bool \<Rightarrow> nat \<Rightarrow> nat \<Rightarrow> event list \<Rightarrow> stream \<Rightarrow> stream option" where
  "fire_all serial me qmax [] st = Some st"
| "fire_all serial me qmax (e # es) st = (case fire serial me qmax e st of None \<Rightarrow> None | Some st \<Rightarrow> fire_all serial me qmax es st)"

lemma fire_step: "fire serial me qmax e st = Some st' \<Longrightarrow> stream_step serial me qmax st st'"
proof (cases e)
  case (Call k)
  assume "fire serial me qmax e st = Some st'"
  then have "k < length (ls_calls st)" and e: "st' = st\<lparr>ls_calls := take k (ls_calls st) @ drop (Suc k) (ls_calls st), ls_loop := ls_loop st @ [ls_calls st ! k]\<rparr>"
    by (simp_all add: Call split: if_splits)
  then have "ls_calls st = take k (ls_calls st) @ ls_calls st ! k # drop (Suc k) (ls_calls st)" by (simp add: id_take_nth_drop)
  from stream_step.call[OF this] show ?thesis unfolding e .
next
  case (Store line)
  assume f: "fire serial me qmax e st = Some st'"
  obtain r rec subs where a: "lg_append line ''line'' 0 (ls_ring st) = (r, rec, subs)" by (cases "lg_append line ''line'' 0 (ls_ring st)")
  have c: "serial \<longrightarrow> ls_calls st = []" using f Store by (simp split: if_splits)
  have "st' = st\<lparr>ls_ring := r, ls_calls := (if me \<in> subs then ls_calls st @ [rec] else ls_calls st)\<rparr>"
    using f Store a by (simp split: if_splits)
  then show ?thesis using stream_step.store[OF c a, of me qmax] by simp
qed (auto split: if_splits prod.splits list.splits option.splits intro: stream_step.intros)

lemma fire_all_streamed: "streamed serial me qmax st0 st \<Longrightarrow> fire_all serial me qmax es st = Some st' \<Longrightarrow> streamed serial me qmax st0 st'"
  by (induction es arbitrary: st) (auto split: option.splits dest: fire_step intro: next_step)

text \<open>C30: A log stream repeats and reorders nothing and accounts for every line: whatever is appended, scheduled and
  dropped while it runs, if one thread appends at a time, the client has received lines with strictly increasing
  numbers from its cursor on, and once everything is sent their number and the numbers of lines it was told are lost
  add up to all the lines there are from its cursor on, and every line it did not receive lies in the range of a gap.
  (The range of a gap runs from the first to the last line lost; it may include a line that is received.)\<close>

theorem log_stream_exact:
  assumes "lg_log cap r h" "since \<le> length h" "me \<notin> lg_subs r" "streamed True me qmax (connect r since) st"
  shows "sorted_wrt (<) (frame_seqs (ls_sent st)) \<and> (\<forall>i\<in>set (frame_seqs (ls_sent st)). since \<le> i \<and> i < lg_next (ls_ring st)) \<and>
    (settled st \<longrightarrow> length (frame_seqs (ls_sent st)) + announced (ls_sent st) = lg_next (ls_ring st) - since \<and>
      (\<forall>i. since \<le> i \<longrightarrow> i < lg_next (ls_ring st) \<longrightarrow> i \<in> set (frame_seqs (ls_sent st)) \<or> in_gap (ls_sent st) i))"
proof -
  have "cover_inv (connect r since)" by (simp add: cover_inv_def connect_def)
  with streamed_cover[OF assms(4) connect_inv[OF assms(1-3)]] have i: "stream_inv me cap st" "cover_inv st" by simp_all
  have s: "ls_since st = since" using assms(4)
  proof induction
    case start
    then show ?case by (simp add: connect_def)
  next
    case (next_step st st')
    then show ?case by (auto elim!: stream_step.cases simp: snapshot_def put_record_def deliver_def Let_def split: prod.splits list.splits)
  qed
  show ?thesis
  proof (cases "ls_boundary st")
    case None
    then show ?thesis using i by (auto simp: stream_inv_def settled_def)
  next
    case (Some b)
    define j where "j = put_pos st"
    note p = put_pos_inv[OF i(1) Some, folded j_def]
    have bn: "b \<le> lg_next (ls_ring st)" using i(1) Some by (auto simp: stream_inv_def)
    have l: "sorted_wrt (<) (frame_seqs (ls_sent st))" "\<forall>i\<in>set (frame_seqs (ls_sent st)). since \<le> i \<and> i < ls_next st" "ls_next st \<le> max b j"
      using p(1) s by (auto simp: live_ok_def Let_def sorted_wrt_append)
    have "length (frame_seqs (ls_sent st)) + announced (ls_sent st) = lg_next (ls_ring st) - since \<and>
      (\<forall>i. since \<le> i \<longrightarrow> i < lg_next (ls_ring st) \<longrightarrow> i \<in> set (frame_seqs (ls_sent st)) \<or> in_gap (ls_sent st) i)" if st: "settled st"
    proof -
      from st p(3)[symmetric] have "[j..<lg_next (ls_ring st)] = []" by (simp add: settled_def)
      then have "j = lg_next (ls_ring st)" using p(2) by auto
      moreover have "covered b j st" using i(2) Some by (simp add: cover_inv_def j_def)
      ultimately show ?thesis using st p(1) bn s
        by (auto simp: settled_def live_ok_def covered_def drop_ok_def in_drop_def waiting_seqs_def Let_def max_def split: prod.splits)
    qed
    then show ?thesis using l p(2) bn by force
  qed
qed

definition ex_ring :: log_ring where
  "ex_ring = fst (lg_append ''boot'' ''line'' 0 (lg_init 2))"

definition ex_events :: "event list" where
  "ex_events = [Subscribe, Store ''a'', Snap, Call 0, Replay, Store ''b'', Call 0, Put, Put, Replay, Store ''c'', Call 0, Put, Get, Yield]"

text \<open>A queue of one record overflows: the client gets two old lines, a gap and the last line.\<close>

theorem log_stream_exact_witness:
  "\<exists>st. fire_all True 0 1 ex_events (connect ex_ring 0) = Some st \<and> settled st \<and> frame_seqs (ls_sent st) = [0, 1, 3] \<and> announced (ls_sent st) = 1 \<and>
     length (frame_seqs (ls_sent st)) + announced (ls_sent st) = lg_next (ls_ring st) - 0 \<and> in_gap (ls_sent st) 2"
proof -
  have ne: "fire_all True 0 1 ex_events (connect ex_ring 0) \<noteq> None" by code_simp
  then obtain st where st: "fire_all True 0 1 ex_events (connect ex_ring 0) = Some st" by blast
  have "map_option (\<lambda>st. (settled st, frame_seqs (ls_sent st), announced (ls_sent st), lg_next (ls_ring st))) (fire_all True 0 1 ex_events (connect ex_ring 0)) =
    Some (True, [0, 1, 3], 1, 4)" by code_simp
  with st have e: "settled st" "frame_seqs (ls_sent st) = [0, 1, 3]" "announced (ls_sent st) = 1" "lg_next (ls_ring st) = 4" by auto
  have l: "lg_log 2 ex_ring ([] @ [(''boot'', ''line'', 0)])"
    unfolding ex_ring_def by (rule conjunct1[OF lg_append_log]) (simp add: lg_log_def lg_init_def window_def)
  have s: "0 \<notin> lg_subs ex_ring" by code_simp
  have "streamed True 0 1 (connect ex_ring 0) st" by (rule fire_all_streamed[OF start st])
  from log_stream_exact[OF l _ s this] e have all: "\<forall>i<4. i \<in> {0, 1, 3} \<or> in_gap (ls_sent st) i" and "length (frame_seqs (ls_sent st)) + announced (ls_sent st) = lg_next (ls_ring st) - 0"
    by auto
  moreover have "in_gap (ls_sent st) 2" using spec[OF all, of 2] by simp
  ultimately show ?thesis using e st by blast
qed

text \<open>A line that the handler holds while lines on both sides of it are lost is delivered after a gap whose range includes
  it.\<close>

lemma gap_spans_delivered_line:
  "\<exists>st n a b rec. streamed True 0 2 (connect (lg_init 4000) 0) st \<and> settled st \<and> Gap n a b \<in> set (ls_sent st) \<and> Line rec \<in> set (ls_sent st) \<and>
     a < lr_seq rec \<and> lr_seq rec < b"
proof -
  define es where "es = [Subscribe, Snap] @ concat (map (\<lambda>l. [Store l, Call 0, Put]) [''a'', ''b'', ''c'']) @
    [Get, Store ''d'', Call 0, Put, Store ''e'', Call 0, Put, Yield, Get, Yield, Get, Yield]"
  have o: "map_option (\<lambda>st. (settled st, map (\<lambda>f. case f of Gap n a b \<Rightarrow> Some (n, a, b) | Line rec \<Rightarrow> None) (ls_sent st), frame_seqs (ls_sent st)))
      (fire_all True 0 2 es (connect (lg_init 4000) 0)) = Some (True, [Some (2, 0, 2), None, None, None], [1, 3, 4])"
    unfolding es_def by code_simp
  then obtain st where st: "fire_all True 0 2 es (connect (lg_init 4000) 0) = Some st" by (cases "fire_all True 0 2 es (connect (lg_init 4000) 0)") auto
  have r: "streamed True 0 2 (connect (lg_init 4000) 0) st" by (rule fire_all_streamed[OF start st])
  from o st have f: "settled st" "map (\<lambda>f. case f of Gap n a b \<Rightarrow> Some (n, a, b) | Line rec \<Rightarrow> None) (ls_sent st) = [Some (2, 0, 2), None, None, None]"
    "frame_seqs (ls_sent st) = [1, 3, 4]" by simp_all
  from f(2) have "Gap 2 0 2 \<in> set (ls_sent st)" by (auto split: frame.splits)
  moreover have "\<exists>rec. Line rec \<in> set fs \<and> lr_seq rec = i" if "i \<in> set (frame_seqs fs)" for i fs
    using that by (induction fs rule: frame_seqs.induct) auto
  from this[of 1 "ls_sent st"] obtain rec where "Line rec \<in> set (ls_sent st)" "lr_seq rec = 1" using f(3) by auto
  ultimately show ?thesis using r f(1) by (intro exI[of _ st] exI[of _ 2] exI[of _ 0] exI[of _ 2] exI[of _ rec]) simp
qed

section \<open>Two appending threads\<close>

text \<open>With two appending threads (the tailer and the lifecycle events) a line can vanish without a gap: \<open>append\<close> calls
  the subscribers outside the lock, so the later record can be scheduled first, and the earlier one is then taken for a
  duplicate and skipped.\<close>

theorem log_stream_loses_line:
  "\<exists>st. streamed False 0 1000 (connect (lg_init 4000) 0) st \<and> settled st \<and> lg_next (ls_ring st) = 2 \<and>
     frame_seqs (ls_sent st) = [1] \<and> announced (ls_sent st) = 0"
proof -
  define es where "es = [Subscribe, Snap, Store ''a'', Store ''b'', Call 1, Call 0, Put, Put, Get, Yield, Get, Yield]"
  have o: "map_option (\<lambda>st. (settled st, lg_next (ls_ring st), frame_seqs (ls_sent st), announced (ls_sent st)))
      (fire_all False 0 1000 es (connect (lg_init 4000) 0)) = Some (True, 2, [1], 0)"
    by (simp add: es_def connect_def lg_init_def lg_subscribe_def snapshot_def lg_since_def lg_append_def deque_append_def put_record_def
      deliver_def settled_def Let_def)
  then obtain st where st: "fire_all False 0 1000 es (connect (lg_init 4000) 0) = Some st" by (cases "fire_all False 0 1000 es (connect (lg_init 4000) 0)") auto
  have "streamed False 0 1000 (connect (lg_init 4000) 0) st" by (rule fire_all_streamed[OF start st])
  with o st show ?thesis by auto
qed

end
