(* ===== verification/Wire.thy ===== *)
theory Wire
  imports PyStr "HOL-Library.Monad_Syntax"
begin

text \<open>
  \<^verbatim>\<open>message/utils.py\<close>: how the processes turn their messages into dictionaries and back. A value is what a message
  can hold: Python scalars, lists, tuples, dictionaries with string keys, instances of message classes (their class
  name and \<open>__dict__\<close>) and CPU tensors (dtype, shape and the bytes of the contiguous buffer). A float is the bits that
  are sent. \<open>msgpack\<close>, which carries the dictionaries between the processes, is a parameter of the theorems.
\<close>

datatype py =
    PyNone
  | PyBool bool
  | PyInt int
  | PyFloat nat
  | PyStr ustr
  | PyBytes "nat list"
  | PyList "py list"
  | PyTuple "py list"
  | PyDict "(string \<times> py) list"
  | PyObj string "(string \<times> py) list"
  | PyTensor bool string "nat list" "nat list"

definition type_key :: string where "type_key = ''__type__''"
definition raw_dict_key :: string where "raw_dict_key = ''__raw_dict__''"

lemma keys_differ [simp]: "type_key \<noteq> raw_dict_key" "raw_dict_key \<noteq> type_key"
  by (simp_all add: type_key_def raw_dict_key_def)

text \<open>The dtypes that have the same name in torch and numpy, and \<open>bfloat16\<close>, with the bytes of an element.\<close>

definition dtypes :: "(string \<times> nat) list" where
  "dtypes = [(''uint8'', 1), (''int8'', 1), (''int16'', 2), (''int32'', 4), (''int64'', 8), (''float16'', 2), (''float32'', 4), (''float64'', 8), (''bfloat16'', 2)]"

section \<open>Encoding\<close>

primrec those_kv :: "(string \<times> py option) list \<Rightarrow> (string \<times> py) list option" where
  "those_kv [] = Some []"
| "those_kv (kv # kvs) = (case snd kv of None \<Rightarrow> None | Some v \<Rightarrow> map_option (\<lambda>ws. (fst kv, v) # ws) (those_kv kvs))"

text \<open>The tensor branch of \<open>serialize_type\<close>; 1-D tensors omit the shape.\<close>

definition serialize_tensor :: "bool \<Rightarrow> string \<Rightarrow> nat list \<Rightarrow> nat list \<Rightarrow> py option" where
  "serialize_tensor is_cuda dtype shape buf =
     (if is_cuda \<or> map_of dtypes dtype = None then None
      else Some (PyDict ([(type_key, PyStr (lit ''Tensor'')), (''dtype'', PyStr (lit (''torch.'' @ dtype)))] @
        (if length shape \<noteq> 1 then [(''shape'', PyList (map (\<lambda>n. PyInt (int n)) shape))] else []) @ [(''buffer'', PyBytes buf)])))"

text \<open>\<open>_serialize_any\<close> and \<open>serialize_type\<close>. The fields of an object are never called \<open>__type__\<close>.\<close>

primrec serialize_any :: "py \<Rightarrow> py option" where
  "serialize_any PyNone = Some PyNone"
| "serialize_any (PyBool b) = Some (PyBool b)"
| "serialize_any (PyInt i) = Some (PyInt i)"
| "serialize_any (PyFloat f) = Some (PyFloat f)"
| "serialize_any (PyStr s) = Some (PyStr s)"
| "serialize_any (PyBytes b) = Some (PyBytes b)"
| "serialize_any (PyList xs) = map_option PyList (those (map serialize_any xs))"
| "serialize_any (PyTuple xs) = map_option PyTuple (those (map serialize_any xs))"
| "serialize_any (PyDict kvs) =
     map_option (\<lambda>encoded. if type_key \<in> fst ` set encoded \<or> raw_dict_key \<in> fst ` set encoded
                           then PyDict [(raw_dict_key, PyDict encoded)] else PyDict encoded)
       (those_kv (map (map_prod id serialize_any) kvs))"
| "serialize_any (PyObj cls fields) =
     map_option (\<lambda>encoded. PyDict ((type_key, PyStr (lit cls)) # encoded)) (those_kv (map (map_prod id serialize_any) fields))"
| "serialize_any (PyTensor is_cuda dtype shape buf) = serialize_tensor is_cuda dtype shape buf"

section \<open>Decoding\<close>

text \<open>The known classes: their fields with the defaults, in the order of the class.\<close>

type_synonym cls_map = "ustr \<Rightarrow> (string \<times> (string \<times> py option) list) option"

text \<open>\<open>cls(**kwargs)\<close> of a dataclass: unknown and missing arguments raise.\<close>

definition construct :: "string \<Rightarrow> (string \<times> py option) list \<Rightarrow> (string \<times> py) list \<Rightarrow> py option" where
  "construct cls fields kwargs =
     (if fst ` set kwargs \<subseteq> fst ` set fields
      then map_option (PyObj cls) (those_kv (map (\<lambda>(f, dflt). (f, case map_of kwargs f of None \<Rightarrow> dflt | Some v \<Rightarrow> Some v)) fields))
      else None)"

definition shape_of :: "py \<Rightarrow> nat list option" where
  "shape_of v = (case v of
     PyList xs \<Rightarrow> those (map (\<lambda>x. case x of PyInt i \<Rightarrow> if 0 \<le> i then Some (nat i) else None | _ \<Rightarrow> None) xs)
   | PyTuple xs \<Rightarrow> those (map (\<lambda>x. case x of PyInt i \<Rightarrow> if 0 \<le> i then Some (nat i) else None | _ \<Rightarrow> None) xs)
   | _ \<Rightarrow> None)"

definition deserialize_tensor :: "(string \<times> py) list \<Rightarrow> py option" where
  "deserialize_tensor data =
     (case (map_of data ''buffer'', map_of data ''dtype'') of
        (Some (PyBytes buf), Some (PyStr dt)) \<Rightarrow>
          (case find (\<lambda>(d, n). lit d = remove_all (lit ''torch.'') dt) dtypes of
             None \<Rightarrow> None
           | Some (dtype, itemsize) \<Rightarrow>
               if length buf mod itemsize \<noteq> 0 then None
               else (case map_of data ''shape'' of
                       None \<Rightarrow> Some (PyTensor False dtype [length buf div itemsize] buf)
                     | Some PyNone \<Rightarrow> Some (PyTensor False dtype [length buf div itemsize] buf)
                     | Some sh \<Rightarrow> (case shape_of sh of
                         None \<Rightarrow> None
                       | Some shape \<Rightarrow> if prod_list shape = length buf div itemsize then Some (PyTensor False dtype shape buf) else None)))
      | _ \<Rightarrow> None)"

fun deserialize_any :: "cls_map \<Rightarrow> py \<Rightarrow> py option"
and deserialize_list :: "cls_map \<Rightarrow> py list \<Rightarrow> py list option"
and deserialize_kvs :: "cls_map \<Rightarrow> (string \<times> py) list \<Rightarrow> (string \<times> py) list option" where
  "deserialize_any cm (PyDict data) =
     (if length data = 1 \<and> raw_dict_key \<in> fst ` set data
      then (case data of [(k, PyDict inner)] \<Rightarrow> map_option PyDict (deserialize_kvs cm inner) | _ \<Rightarrow> None)
      else (case map_of data type_key of
              None \<Rightarrow> map_option PyDict (deserialize_kvs cm data)
            | Some (PyStr type_name) \<Rightarrow>
                if type_name = lit ''Tensor'' then deserialize_tensor data
                else (case cm type_name of
                        None \<Rightarrow> None
                      | Some (cls, fields) \<Rightarrow> Option.bind (deserialize_kvs cm data) (\<lambda>kw. construct cls fields (filter (\<lambda>(k, v). k \<noteq> type_key) kw)))
            | Some _ \<Rightarrow> None))"
| "deserialize_any cm (PyList xs) = map_option PyList (deserialize_list cm xs)"
| "deserialize_any cm (PyTuple xs) = map_option PyTuple (deserialize_list cm xs)"
| "deserialize_any cm PyNone = Some PyNone"
| "deserialize_any cm (PyBool b) = Some (PyBool b)"
| "deserialize_any cm (PyInt i) = Some (PyInt i)"
| "deserialize_any cm (PyFloat f) = Some (PyFloat f)"
| "deserialize_any cm (PyStr s) = Some (PyStr s)"
| "deserialize_any cm (PyBytes b) = Some (PyBytes b)"
| "deserialize_any cm (PyObj cls fields) = None"
| "deserialize_any cm (PyTensor is_cuda dtype shape buf) = None"
| "deserialize_list cm [] = Some []"
| "deserialize_list cm (x # xs) = (case deserialize_any cm x of None \<Rightarrow> None | Some v \<Rightarrow> map_option ((#) v) (deserialize_list cm xs))"
| "deserialize_kvs cm [] = Some []"
| "deserialize_kvs cm (kv # kvs) =
     (case deserialize_any cm (snd kv) of None \<Rightarrow> None | Some v \<Rightarrow> map_option ((#) (fst kv, v)) (deserialize_kvs cm kvs))"

section \<open>What the wire carries\<close>

text \<open>What \<open>msgpack\<close> can pack: 64-bit integers and floats, strings that have a UTF-8 encoding (no lone surrogates), byte
  strings, lists and dictionaries, each shorter than 2^32, nested no deeper than its recursion limit. Tuples arrive as
  lists.\<close>

definition short :: "'a list \<Rightarrow> bool" where "short xs \<longleftrightarrow> 4 * length xs < 2 ^ 32"

definition text_ok :: "ustr \<Rightarrow> bool" where
  "text_ok s \<longleftrightarrow> short s \<and> (\<forall>c\<in>set s. c < 1114112 \<and> \<not> (55296 \<le> c \<and> c < 57344))"

definition bytes_ok :: "nat list \<Rightarrow> bool" where
  "bytes_ok b \<longleftrightarrow> short b \<and> (\<forall>c\<in>set b. c < 256)"

definition deepest :: "nat list \<Rightarrow> nat" where "deepest ns = foldr max ns 0"

primrec depth :: "py \<Rightarrow> nat" where
  "depth PyNone = 0"
| "depth (PyBool b) = 0"
| "depth (PyInt i) = 0"
| "depth (PyFloat f) = 0"
| "depth (PyStr s) = 0"
| "depth (PyBytes b) = 0"
| "depth (PyList xs) = Suc (deepest (map depth xs))"
| "depth (PyTuple xs) = Suc (deepest (map depth xs))"
| "depth (PyDict kvs) = Suc (deepest (map snd (map (map_prod id depth) kvs)))"
| "depth (PyObj cls fields) = 0"
| "depth (PyTensor is_cuda dtype shape buf) = 0"

primrec wire_value :: "py \<Rightarrow> bool" where
  "wire_value PyNone = True"
| "wire_value (PyBool b) = True"
| "wire_value (PyInt i) = (- (2 ^ 63) \<le> i \<and> i < 2 ^ 64)"
| "wire_value (PyFloat f) = (f < 2 ^ 64)"
| "wire_value (PyStr s) = text_ok s"
| "wire_value (PyBytes b) = bytes_ok b"
| "wire_value (PyList xs) = (short xs \<and> list_all id (map wire_value xs))"
| "wire_value (PyTuple xs) = (short xs \<and> list_all id (map wire_value xs))"
| "wire_value (PyDict kvs) = (short kvs \<and> list_all (\<lambda>kv. short (fst kv) \<and> snd kv) (map (map_prod id wire_value) kvs))"
| "wire_value (PyObj cls fields) = False"
| "wire_value (PyTensor is_cuda dtype shape buf) = False"

definition packable :: "nat \<Rightarrow> py \<Rightarrow> bool" where
  "packable limit w \<longleftrightarrow> wire_value w \<and> depth w \<le> limit"

primrec untuple :: "py \<Rightarrow> py" where
  "untuple PyNone = PyNone"
| "untuple (PyBool b) = PyBool b"
| "untuple (PyInt i) = PyInt i"
| "untuple (PyFloat f) = PyFloat f"
| "untuple (PyStr s) = PyStr s"
| "untuple (PyBytes b) = PyBytes b"
| "untuple (PyList xs) = PyList (map untuple xs)"
| "untuple (PyTuple xs) = PyList (map untuple xs)"
| "untuple (PyDict kvs) = PyDict (map (map_prod id untuple) kvs)"
| "untuple (PyObj cls fields) = PyObj cls (map (map_prod id untuple) fields)"
| "untuple (PyTensor is_cuda dtype shape buf) = PyTensor is_cuda dtype shape buf"

text \<open>A message: 64-bit integers and floats, text without lone surrogates, dictionaries with distinct keys, instances of
  known classes, CPU tensors of a dtype that numpy has, whose buffer fits their shape; and how deep its encoding nests: a
  dictionary that uses a tag key is wrapped once more, the shape of a tensor is a list in a dictionary.\<close>

primrec message_ok :: "cls_map \<Rightarrow> py \<Rightarrow> bool" where
  "message_ok cm PyNone = True"
| "message_ok cm (PyBool b) = True"
| "message_ok cm (PyInt i) = (- (2 ^ 63) \<le> i \<and> i < 2 ^ 64)"
| "message_ok cm (PyFloat f) = (f < 2 ^ 64)"
| "message_ok cm (PyStr s) = text_ok s"
| "message_ok cm (PyBytes b) = bytes_ok b"
| "message_ok cm (PyList xs) = (short xs \<and> list_all id (map (message_ok cm) xs))"
| "message_ok cm (PyTuple xs) = (short xs \<and> list_all id (map (message_ok cm) xs))"
| "message_ok cm (PyDict kvs) =
     (short kvs \<and> distinct (map fst kvs) \<and> list_all (\<lambda>kv. short (fst kv) \<and> snd kv) (map (map_prod id (message_ok cm)) kvs))"
| "message_ok cm (PyObj cls fields) =
     (short cls \<and> short (cls # map fst fields) \<and> lit cls \<noteq> lit ''Tensor'' \<and> distinct (map fst fields) \<and> type_key \<notin> fst ` set fields \<and>
      (\<exists>fs. cm (lit cls) = Some (cls, fs) \<and> map fst fs = map fst fields) \<and>
      list_all (\<lambda>kv. short (fst kv) \<and> snd kv) (map (map_prod id (message_ok cm)) fields))"
| "message_ok cm (PyTensor is_cuda dtype shape buf) =
     (\<not> is_cuda \<and> bytes_ok buf \<and> short shape \<and> (\<exists>n. map_of dtypes dtype = Some n \<and> length buf = n * prod_list shape) \<and>
      list_all (\<lambda>n. int n < 2 ^ 64) shape)"

primrec nesting :: "py \<Rightarrow> nat" where
  "nesting PyNone = 0"
| "nesting (PyBool b) = 0"
| "nesting (PyInt i) = 0"
| "nesting (PyFloat f) = 0"
| "nesting (PyStr s) = 0"
| "nesting (PyBytes b) = 0"
| "nesting (PyList xs) = Suc (deepest (map nesting xs))"
| "nesting (PyTuple xs) = Suc (deepest (map nesting xs))"
| "nesting (PyDict kvs) =
     (if type_key \<in> fst ` set kvs \<or> raw_dict_key \<in> fst ` set kvs then 2 else 1) + deepest (map snd (map (map_prod id nesting) kvs))"
| "nesting (PyObj cls fields) = Suc (deepest (map snd (map (map_prod id nesting) fields)))"
| "nesting (PyTensor is_cuda dtype shape buf) = 2"

section \<open>The round trip\<close>

lemma those_map: "\<forall>x\<in>set xs. f x = Some (g x) \<Longrightarrow> those (map f xs) = Some (map g xs)"
  by (induction xs) auto

lemma keys_map [simp]: "fst ` set (map (map_prod id f) kvs) = fst ` set kvs" "fst ` map_prod id f ` set kvs = fst ` set kvs"
  by (induction kvs) auto

lemma short_map [simp]: "short (map f xs) = short xs"
  by (simp add: short_def)

lemma of_char_less_256: "of_char c < (256::nat)"
  by (metis less_numeral_extra(1) of_char_of nat_of_char_less_256)

lemma text_ok_lit: "short s \<Longrightarrow> text_ok (lit s)"
  using of_char_less_256 by (auto simp: text_ok_def lit_def intro: order_less_trans[of _ 256] dest: order_le_less_trans[of 55296 _ 256])

lemma deepest_mono: "(\<And>x. x \<in> set xs \<Longrightarrow> f x \<le> g x) \<Longrightarrow> deepest (map f xs) \<le> deepest (map g xs)"
  proof (induction xs)
  case (Cons x xs)
  then have "f x \<le> g x" "deepest (map f xs) \<le> deepest (map g xs)" by simp_all
  then show ?case by (simp add: deepest_def max.coboundedI1 max.coboundedI2)
qed (simp add: deepest_def)

lemma deepest_simps [simp]: "deepest [] = 0" "deepest (n # ns) = max n (deepest ns)"
  by (simp_all add: deepest_def)

text \<open>The encoded form of a message, and that it decodes.\<close>

definition wired :: "cls_map \<Rightarrow> py \<Rightarrow> py \<Rightarrow> bool" where
  "wired cm v w \<longleftrightarrow> serialize_any v = Some w \<and> packable (nesting v) w \<and> deserialize_any cm (untuple w) = Some (untuple v)"

lemma wired_list:
  assumes "\<And>x. x \<in> set xs \<Longrightarrow> \<exists>w. wired cm x w"
  shows "\<exists>ws. those (map serialize_any xs) = Some ws \<and> length ws = length xs \<and> list_all id (map wire_value ws) \<and>
    deepest (map depth ws) \<le> deepest (map nesting xs) \<and> deserialize_list cm (map untuple ws) = Some (map untuple xs)"
proof -
  from assms obtain g where g: "\<And>x. x \<in> set xs \<Longrightarrow> wired cm x (g x)" by metis
  have "those (map serialize_any xs) = Some (map g xs)" using g by (intro those_map) (simp add: wired_def)
  moreover have "list_all id (map wire_value (map g xs))" using g by (simp add: wired_def packable_def list_all_iff)
  moreover have "deepest (map depth (map g xs)) \<le> deepest (map nesting xs)"
    using g unfolding map_map comp_def by (intro deepest_mono) (simp add: wired_def packable_def)
  moreover have "deserialize_list cm (map untuple (map g xs)) = Some (map untuple xs)" using g by (induction xs) (simp_all add: wired_def)
  ultimately show ?thesis by (intro exI[of _ "map g xs"]) simp
qed

lemma wired_kvs:
  assumes "\<And>kv. kv \<in> set kvs \<Longrightarrow> \<exists>w. wired cm (snd kv) w"
  shows "\<exists>ws. those_kv (map (map_prod id serialize_any) kvs) = Some ws \<and> map fst ws = map fst kvs \<and> list_all (\<lambda>kv. snd kv) (map (map_prod id wire_value) ws) \<and>
    deepest (map snd (map (map_prod id depth) ws)) \<le> deepest (map snd (map (map_prod id nesting) kvs)) \<and> deserialize_kvs cm (map (map_prod id untuple) ws) = Some (map (map_prod id untuple) kvs)"
proof -
  from assms have "\<forall>kv. \<exists>w. kv \<in> set kvs \<longrightarrow> wired cm (snd kv) w" by blast
  then obtain g where g: "\<And>kv. kv \<in> set kvs \<Longrightarrow> wired cm (snd kv) (g kv)" by metis
  define ws where "ws = map (\<lambda>kv. (fst kv, g kv)) kvs"
  have "those_kv (map (map_prod id serialize_any) kvs) = Some ws" using g unfolding ws_def by (induction kvs) (auto simp: wired_def)
  moreover have "list_all (\<lambda>kv. snd kv) (map (map_prod id wire_value) ws)" using g by (simp add: ws_def wired_def packable_def list_all_iff)
  moreover have "deepest (map snd (map (map_prod id depth) ws)) \<le> deepest (map snd (map (map_prod id nesting) kvs))"
    using g unfolding ws_def map_map comp_def by (intro deepest_mono) (simp add: wired_def packable_def)
  moreover have "deserialize_kvs cm (map (map_prod id untuple) ws) = Some (map (map_prod id untuple) kvs)"
    using g unfolding ws_def by (induction kvs) (auto simp: wired_def)
  moreover have "map fst ws = map fst kvs" by (simp add: ws_def)
  ultimately show ?thesis by blast
qed

lemma dtype_lookup: "map_of dtypes dtype = Some n \<Longrightarrow> 0 < n \<and> find (\<lambda>(d, n). lit d = remove_all (lit ''torch.'') (lit (''torch.'' @ dtype))) dtypes = Some (dtype, n)"
proof -
  have "\<forall>p\<in>set dtypes. 0 < snd p \<and> find (\<lambda>(d, n). lit d = remove_all (lit ''torch.'') (lit (''torch.'' @ fst p))) dtypes = Some p"
    by code_simp
  then show "0 < n \<and> find (\<lambda>(d, n). lit d = remove_all (lit ''torch.'') (lit (''torch.'' @ dtype))) dtypes = Some (dtype, n)"
    if "map_of dtypes dtype = Some n" using map_of_SomeD[OF that] by fastforce
qed

lemma dtype_short: "map_of dtypes dtype = Some n \<Longrightarrow> short (''torch.'' @ dtype)"
  by (auto simp: dtypes_def short_def split: if_splits)

lemma shape_flat: "deepest (map (\<lambda>n. 0) shape) = 0"
  by (induction shape) simp_all

lemma wired_tensor:
  assumes "message_ok cm (PyTensor is_cuda dtype shape buf)"
  shows "\<exists>w. wired cm (PyTensor is_cuda dtype shape buf) w"
proof -
  from assms obtain n where n: "\<not> is_cuda" "map_of dtypes dtype = Some n" "length buf = n * prod_list shape" "list_all (\<lambda>n. int n < 2 ^ 64) shape"
    "bytes_ok buf" "short shape" by auto
  note l = dtype_lookup[OF n(2)]
  have m: "length buf mod n = 0" "length buf div n = prod_list shape" using n(3) l by auto
  have sh: "those (map (\<lambda>x. case x of PyInt i \<Rightarrow> if 0 \<le> i then Some (nat i) else None | _ \<Rightarrow> None) (map (\<lambda>n. PyInt (int n)) ns)) = Some ns" for ns
    by (induction ns) auto
  define data where "data = [(type_key, PyStr (lit ''Tensor'')), (''dtype'', PyStr (lit (''torch.'' @ dtype)))] @
        (if length shape \<noteq> 1 then [(''shape'', PyList (map (\<lambda>n. PyInt (int n)) shape))] else []) @ [(''buffer'', PyBytes buf)]"
  have s: "serialize_any (PyTensor is_cuda dtype shape buf) = Some (PyDict data)" using n(1,2) by (simp add: serialize_tensor_def data_def)
  have u: "map (map_prod id untuple) data = data" by (simp add: data_def comp_def)
  have d: "map_of data ''buffer'' = Some (PyBytes buf)" "map_of data ''dtype'' = Some (PyStr (lit (''torch.'' @ dtype)))" "map_of data type_key = Some (PyStr (lit ''Tensor''))"
    "map_of data ''shape'' = (if length shape \<noteq> 1 then Some (PyList (map (\<lambda>n. PyInt (int n)) shape)) else None)" "length data \<noteq> 1"
    by (simp_all add: data_def type_key_def)
  have t: "deserialize_tensor data = Some (PyTensor False dtype shape buf)"
  proof (cases "length shape = 1")
    case True
    then obtain k where "shape = [k]" by (cases shape) auto
    then show ?thesis using d l m by (simp add: deserialize_tensor_def)
  next
    case False
    then show ?thesis using d l m sh by (simp add: deserialize_tensor_def shape_of_def)
  qed
  have "packable 2 (PyDict data)" using n(4,5,6) text_ok_lit[OF dtype_short[OF n(2)]] text_ok_lit[of "''Tensor''"] shape_flat[of shape]
    by (auto simp: packable_def data_def list_all_iff short_def type_key_def comp_def)
  moreover have "deserialize_any cm (PyDict data) = Some (PyTensor False dtype shape buf)" using d t by simp
  ultimately show ?thesis using s u n(1) unfolding wired_def by (intro exI[of _ "PyDict data"]) simp
qed

lemma wire_value_dict:
  assumes "map fst ws = map fst kvs" "short kvs" "\<forall>k\<in>fst ` set kvs. short k" "list_all (\<lambda>kv. snd kv) (map (map_prod id wire_value) ws)"
  shows "wire_value (PyDict ws)"
proof -
  have "fst ` set ws = fst ` set kvs" "short ws" using arg_cong[OF assms(1), of set] arg_cong[OF assms(1), of length] assms(2)
    by (simp_all add: short_def)
  then have "\<forall>kv\<in>set ws. short (fst kv)" using assms(3) by (metis imageI)
  then show ?thesis using assms(4) \<open>short ws\<close> by (simp add: list_all_iff)
qed

lemma keys_short:
  assumes "list_all (\<lambda>kv. short (fst kv) \<and> snd kv) (map (map_prod id f) kvs)"
  shows "\<forall>k\<in>fst ` set kvs. short k"
  using assms by (auto simp: list_all_iff)

lemma short_keys [simp]: "short type_key" "short raw_dict_key"
  by (simp_all add: short_def type_key_def raw_dict_key_def)

lemma wired_dict:
  assumes "message_ok cm (PyDict kvs)" "\<And>kv. kv \<in> set kvs \<Longrightarrow> \<exists>w. wired cm (snd kv) w"
  shows "\<exists>w. wired cm (PyDict kvs) w"
proof -
  from wired_kvs[OF assms(2)] obtain ws where ws: "those_kv (map (map_prod id serialize_any) kvs) = Some ws" "map fst ws = map fst kvs"
    "list_all (\<lambda>kv. snd kv) (map (map_prod id wire_value) ws)" "deepest (map snd (map (map_prod id depth) ws)) \<le> deepest (map snd (map (map_prod id nesting) kvs))" "deserialize_kvs cm (map (map_prod id untuple) ws) = Some (map (map_prod id untuple) kvs)" by blast
  have keys: "fst ` set ws = fst ` set kvs" using arg_cong[OF ws(2), of set] by simp
  have wv: "wire_value (PyDict ws)" using ws(2,3) assms(1) keys_short[of "message_ok cm" kvs] by (intro wire_value_dict) simp_all
  show ?thesis
  proof (cases "type_key \<in> fst ` set ws \<or> raw_dict_key \<in> fst ` set ws")
    case True
    then have "packable (nesting (PyDict kvs)) (PyDict [(raw_dict_key, PyDict ws)])"
      using wv ws(4) unfolding packable_def keys by (simp add: short_def raw_dict_key_def keys del: fst_map_prod)
    with True have "wired cm (PyDict kvs) (PyDict [(raw_dict_key, PyDict ws)])" using ws by (simp add: wired_def)
    then show ?thesis ..
  next
    case False
    have "raw_dict_key \<notin> fst ` set (map (map_prod id untuple) ws)" "map_of (map (map_prod id untuple) ws) type_key = None"
      using False unfolding map_of_eq_None_iff keys_map by blast+
    moreover have "packable (nesting (PyDict kvs)) (PyDict ws)" using wv ws(4) False unfolding packable_def keys by simp
    ultimately have "wired cm (PyDict kvs) (PyDict ws)" using ws False by (simp add: wired_def)
    then show ?thesis ..
  qed
qed

lemma construct_fields:
  assumes "map fst fs = map fst kws" "distinct (map fst kws)"
  shows "construct cls fs kws = Some (PyObj cls kws)"
proof -
  have m: "map_of kws f = Some v" if "(f, v) \<in> set kws" for f v using that assms(2) by simp
  have "those_kv (map (\<lambda>(f, dflt). (f, case map_of kws f of None \<Rightarrow> dflt | Some v \<Rightarrow> Some v)) fs) = Some l"
    if "map fst fs = map fst l" "set l \<subseteq> set kws" for l
    using that
  proof (induction l arbitrary: fs)
    case (Cons x l)
    then show ?case using m[of "fst x" "snd x"] by (cases fs) auto
  qed simp
  from this[of kws] assms(1) have "those_kv (map (\<lambda>(f, dflt). (f, case map_of kws f of None \<Rightarrow> dflt | Some v \<Rightarrow> Some v)) fs) = Some kws" by simp
  moreover have "fst ` set kws = fst ` set fs" using arg_cong[OF assms(1), of set] by simp
  ultimately show ?thesis by (simp add: construct_def)
qed

lemma wired_obj:
  assumes "message_ok cm (PyObj cls fields)" "\<And>kv. kv \<in> set fields \<Longrightarrow> \<exists>w. wired cm (snd kv) w"
  shows "\<exists>w. wired cm (PyObj cls fields) w"
proof -
  from wired_kvs[OF assms(2)] obtain ws where ws: "those_kv (map (map_prod id serialize_any) fields) = Some ws" "map fst ws = map fst fields"
    "list_all (\<lambda>kv. snd kv) (map (map_prod id wire_value) ws)" "deepest (map snd (map (map_prod id depth) ws)) \<le> deepest (map snd (map (map_prod id nesting) fields))" "deserialize_kvs cm (map (map_prod id untuple) ws) = Some (map (map_prod id untuple) fields)" by blast
  let ?u = "map (map_prod id untuple) fields"
  have nt: "filter (\<lambda>(k, v). k \<noteq> type_key) ?u = ?u" unfolding filter_id_conv
  proof
    fix kv
    assume "kv \<in> set ?u"
    then have "fst kv \<in> fst ` set ?u" by (rule imageI)
    then have "fst kv \<in> fst ` set fields" unfolding keys_map .
    moreover have "type_key \<notin> fst ` set fields" using assms(1) unfolding message_ok.simps by (elim conjE)
    ultimately have "fst kv \<noteq> type_key" by metis
    then show "case kv of (k, v) \<Rightarrow> k \<noteq> type_key" by (simp add: case_prod_beta')
  qed
  have "map fst ?u = map fst fields" by simp
  with assms(1) obtain fs where fs: "cm (lit cls) = Some (cls, fs)" "construct cls fs ?u = Some (PyObj cls ?u)"
    using construct_fields[of _ ?u] by auto
  have "text_ok (lit cls)" using assms(1) text_ok_lit by simp
  then have "list_all (\<lambda>kv. snd kv) (map (map_prod id wire_value) ((type_key, PyStr (lit cls)) # ws))" using ws(3) by simp
  moreover have "short ((type_key, PyStr (lit cls)) # fields)" using assms(1) by (simp add: short_def)
  ultimately have "wire_value (PyDict ((type_key, PyStr (lit cls)) # ws))"
    using ws(2) assms(1) keys_short[of "message_ok cm" fields]
    by (intro wire_value_dict[of _ "(type_key, PyStr (lit cls)) # fields"]) simp_all
  then have "packable (nesting (PyObj cls fields)) (PyDict ((type_key, PyStr (lit cls)) # ws))" using ws(4) by (simp add: packable_def)
  then have "wired cm (PyObj cls fields) (PyDict ((type_key, PyStr (lit cls)) # ws))"
    using ws fs nt assms(1) by (auto simp: wired_def)
  then show ?thesis ..
qed

lemma wired_scalar:
  "serialize_any v = Some v \<Longrightarrow> wire_value v \<Longrightarrow> depth v = 0 \<Longrightarrow> deserialize_any cm v = Some v \<Longrightarrow> untuple v = v \<Longrightarrow> \<exists>w. wired cm v w"
  by (intro exI[of _ v]) (simp add: wired_def packable_def)

lemma message_wired: "message_ok cm v \<Longrightarrow> \<exists>w. wired cm v w"
proof (induction v)
  case (PyList xs)
  have "\<And>x. x \<in> set xs \<Longrightarrow> \<exists>w. wired cm x w" using PyList by (auto simp: list_all_iff)
  from wired_list[OF this] obtain ws where "those (map serialize_any xs) = Some ws" "length ws = length xs" "list_all id (map wire_value ws)"
    "deepest (map depth ws) \<le> deepest (map nesting xs)" "deserialize_list cm (map untuple ws) = Some (map untuple xs)" by blast
  then show ?case using PyList(2) by (intro exI[of _ "PyList ws"]) (simp add: wired_def packable_def short_def)
next
  case (PyTuple xs)
  have "\<And>x. x \<in> set xs \<Longrightarrow> \<exists>w. wired cm x w" using PyTuple by (auto simp: list_all_iff)
  from wired_list[OF this] obtain ws where "those (map serialize_any xs) = Some ws" "length ws = length xs" "list_all id (map wire_value ws)"
    "deepest (map depth ws) \<le> deepest (map nesting xs)" "deserialize_list cm (map untuple ws) = Some (map untuple xs)" by blast
  then show ?case using PyTuple(2) by (intro exI[of _ "PyTuple ws"]) (simp add: wired_def packable_def short_def)
next
  case (PyDict kvs)
  have "\<And>kv. kv \<in> set kvs \<Longrightarrow> \<exists>w. wired cm (snd kv) w"
    using PyDict by (force simp: list_all_iff snds.simps)
  with PyDict.prems show ?case by (rule wired_dict)
next
  case (PyObj cls fields)
  have "\<And>kv. kv \<in> set fields \<Longrightarrow> \<exists>w. wired cm (snd kv) w"
    using PyObj by (force simp: list_all_iff snds.simps)
  with PyObj.prems show ?case by (rule wired_obj)
next
  case (PyTensor is_cuda dtype shape buf)
  then show ?case by (rule wired_tensor)
qed (rule wired_scalar; simp)+

section \<open>Properties\<close>

text \<open>C29: Sending a message and receiving it gives the message back, tuples as lists: nested objects, tensors of any shape
  and client dictionaries that use the tag keys themselves included. A message has 64-bit numbers, text without lone
  surrogates, parts shorter than 2^30 and an encoding no deeper than the recursion limit of the packer. \<open>wire\<close> is
  \<open>msgpack\<close>'s \<open>packb\<close> followed by \<open>unpackb\<close>, which gives back what it can pack, tuples as lists.\<close>

theorem wire_roundtrip:
  assumes "message_ok cm v" "nesting v \<le> limit" "\<And>w. packable limit w \<Longrightarrow> wire w = Some (untuple w)"
  shows "Option.bind (Option.bind (serialize_any v) wire) (deserialize_any cm) = Some (untuple v)"
proof -
  from message_wired[OF assms(1)] obtain w where w: "serialize_any v = Some w" "packable limit w" "deserialize_any cm (untuple w) = Some (untuple v)"
    using assms(2) by (auto simp: wired_def packable_def)
  then show ?thesis using assms(3)[OF w(2)] by simp
qed

text \<open>Text with a lone surrogate, which \<open>json.loads\<close> takes from a client, is passed to the packer as it is, which refuses
  it; so is a client dictionary nested deeper than the packer's limit.\<close>

lemma surrogate_not_packable: "c \<in> set s \<Longrightarrow> 55296 \<le> c \<Longrightarrow> c < 57344 \<Longrightarrow> serialize_any (PyStr s) = Some (PyStr s) \<and> \<not> packable limit (PyStr s)"
  by (auto simp: packable_def text_ok_def)

lemma deep_not_packable:
  "serialize_any (((\<lambda>v. PyList [v]) ^^ n) PyNone) = Some (((\<lambda>v. PyList [v]) ^^ n) PyNone) \<and>
   (limit < n \<longrightarrow> \<not> packable limit (((\<lambda>v. PyList [v]) ^^ n) PyNone))"
proof -
  have "serialize_any (((\<lambda>v. PyList [v]) ^^ n) PyNone) = Some (((\<lambda>v. PyList [v]) ^^ n) PyNone) \<and> depth (((\<lambda>v. PyList [v]) ^^ n) PyNone) = n"
    by (induction n) simp_all
  then show ?thesis by (simp add: packable_def)
qed

text \<open>A user message whose sampling parameters carry a client dictionary with the reserved key.\<close>

definition ex_classes :: cls_map where
  "ex_classes c = (if c = lit ''UserMsg'' then Some (''UserMsg'', [(''uid'', None), (''input_ids'', None), (''extra'', Some PyNone)]) else None)"

definition ex_message :: py where
  "ex_message = PyObj ''UserMsg'' [(''uid'', PyInt 7), (''input_ids'', PyTensor False ''int32'' [2] [1, 0, 0, 0, 2, 0, 0, 0]),
     (''extra'', PyDict [(''__type__'', PyStr (lit ''object'')), (''pair'', PyTuple [PyInt 1, PyNone])])]"

lemma ex_message_ok: "message_ok ex_classes ex_message"
  by (simp add: ex_message_def ex_classes_def lit_def type_key_def dtypes_def short_def text_ok_def bytes_ok_def)

theorem wire_roundtrip_witness:
  "Option.bind (Option.bind (serialize_any ex_message) (\<lambda>w. Some (untuple w))) (deserialize_any ex_classes) =
   Some (PyObj ''UserMsg'' [(''uid'', PyInt 7), (''input_ids'', PyTensor False ''int32'' [2] [1, 0, 0, 0, 2, 0, 0, 0]),
     (''extra'', PyDict [(''__type__'', PyStr (lit ''object'')), (''pair'', PyList [PyInt 1, PyNone])])])"
proof -
  have "Option.bind (Option.bind (serialize_any ex_message) (\<lambda>w. Some (untuple w))) (deserialize_any ex_classes) = Some (untuple ex_message)"
    by (rule wire_roundtrip[OF ex_message_ok, of 511]) (simp_all add: ex_message_def type_key_def raw_dict_key_def)
  then show ?thesis by (simp add: ex_message_def)
qed

end
