(* ===== verification/Dsv4Sizing.thy ===== *)
theory Dsv4Sizing
  imports Prelude "HOL-Library.Monad_Syntax"
begin

text \<open>
  The sizing of the DSV4 paged KV pool: \<^verbatim>\<open>kvcache/dsv4_cost_model.py\<close> (the byte model of the window, compressed, indexer
  and state-ring tiers, the working-set floor, the budget solver) and the page count of
  \<^verbatim>\<open>DSV4PagedKVCache.solve_num_pages\<close>. Slots and bytes are \<open>nat\<close>, budgets are Python integers (a measured budget can be
  negative). The ratio of window to full history is a float; the code only rounds its products, so the two roundings
  \<open>round(swa_ratio * num * P)\<close> and \<open>round(swa_ratio * full_token)\<close> are functions of the configuration. \<open>None\<close> is the
  \<^verbatim>\<open>ValueError\<close> of a compression ratio without a ring, or of a budget too small for the minimal pool.
\<close>

section \<open>The byte model\<close>

record dsv4_args =
  da_head_dim :: nat
  da_index_head_dim :: nat
  da_compress_ratios :: "nat list"
  da_n_layers :: nat
  da_window_size :: nat

definition dsv4_reserved_window_pages :: "nat \<Rightarrow> bool \<Rightarrow> nat" where
  "dsv4_reserved_window_pages max_running_req radix = 2 * (max_running_req + 1) + (if radix then 3 * max_running_req else 0) + 1"

definition ring_size_for_ratio :: "nat \<Rightarrow> nat option" where
  "ring_size_for_ratio ratio = (if ratio = 4 then Some 8 else if ratio = 128 then Some 128 else None)"

definition kv_bytes :: "dsv4_args \<Rightarrow> nat" where "kv_bytes args = da_head_dim args * 2"

definition index_bytes :: "dsv4_args \<Rightarrow> nat" where "index_bytes args = da_index_head_dim args * 2"

definition state_bytes :: "dsv4_args \<Rightarrow> nat \<Rightarrow> nat" where
  "state_bytes args ratio = 2 * (1 + (if ratio = 4 then 1 else 0)) * da_head_dim args * 4"

definition idx_state_bytes :: "dsv4_args \<Rightarrow> nat" where "idx_state_bytes args = 2 * 2 * da_index_head_dim args * 4"

definition layer_ratios :: "dsv4_args \<Rightarrow> nat list" where
  "layer_ratios args = take (da_n_layers args) (da_compress_ratios args)"

text \<open>Bytes of a page over all tiers; \<open>rnd x\<close> is \<open>round(swa_ratio * x)\<close>.\<close>

definition layer_page_bytes :: "dsv4_args \<Rightarrow> (nat \<Rightarrow> nat) \<Rightarrow> nat \<Rightarrow> nat \<Rightarrow> nat option" where
  "layer_page_bytes args rnd P ratio =
     (if ratio = 0 then Some (rnd P * kv_bytes args)
      else do {
        rs \<leftarrow> ring_size_for_ratio ratio;
        Some (rnd P * kv_bytes args + (P div ratio) * kv_bytes args +
          (if ratio = 4 then (P div 4) * index_bytes args + rnd 8 * idx_state_bytes args else 0) + rnd rs * state_bytes args ratio) })"

definition dsv4_cache_per_page :: "dsv4_args \<Rightarrow> (nat \<Rightarrow> nat) \<Rightarrow> nat \<Rightarrow> nat option" where
  "dsv4_cache_per_page args rnd P = do {
     _ \<leftarrow> py_assert (0 < P);
     bs \<leftarrow> those (map (layer_page_bytes args rnd P) (layer_ratios args));
     Some (sum_list bs) }"

text \<open>The tiers of a layer with a compressed history (layers of ratio 0 have the window only).\<close>

record tier =
  ti_cmp_blocks :: nat
  ti_idx_blocks :: "nat option"
  ti_state_slots :: nat
  ti_ring_size :: nat
  ti_idx_state_slots :: "nat option"

record dsv4_sizes =
  ds_full_token :: nat
  ds_win_slots :: nat
  ds_win_pages :: nat
  ds_tiers :: "tier option list"

definition tier_of :: "nat \<Rightarrow> nat \<Rightarrow> nat \<Rightarrow> tier option option" where
  "tier_of full_token n_win_pages ratio =
     (if ratio = 0 then Some None
      else do {
        rs \<leftarrow> ring_size_for_ratio ratio;
        Some (Some \<lparr>ti_cmp_blocks = full_token div ratio, ti_idx_blocks = (if ratio = 4 then Some (full_token div 4) else None),
          ti_state_slots = n_win_pages * rs, ti_ring_size = rs,
          ti_idx_state_slots = (if ratio = 4 then Some (n_win_pages * 8) else None)\<rparr>) })"

definition dsv4_pool_sizes :: "nat \<Rightarrow> dsv4_args \<Rightarrow> (nat \<Rightarrow> nat) \<Rightarrow> nat \<Rightarrow> nat option \<Rightarrow> dsv4_sizes option" where
  "dsv4_pool_sizes num_pages args rnd P n_win_pages =
     (let full_token = num_pages * P;
          n_win_pages = min (case n_win_pages of None \<Rightarrow> (rnd full_token + P - 1) div P | Some n \<Rightarrow> n) num_pages
      in do {
        tiers \<leftarrow> those (map (tier_of full_token n_win_pages) (layer_ratios args));
        Some \<lparr>ds_full_token = full_token, ds_win_slots = n_win_pages * P, ds_win_pages = n_win_pages, ds_tiers = tiers\<rparr> })"

fun layer_bytes :: "dsv4_args \<Rightarrow> nat \<Rightarrow> nat \<times> tier option \<Rightarrow> nat" where
  "layer_bytes args n_scratch (ratio, None) = 0"
| "layer_bytes args n_scratch (ratio, Some t) =
     (ti_cmp_blocks t + n_scratch) * kv_bytes args + (ti_state_slots t + 1) * state_bytes args ratio +
     (case ti_idx_blocks t of None \<Rightarrow> 0 | Some n \<Rightarrow> (n + n_scratch) * index_bytes args) +
     (case ti_idx_state_slots t of None \<Rightarrow> 0 | Some n \<Rightarrow> (n + 1) * idx_state_bytes args)"

definition dsv4_pool_bytes :: "dsv4_sizes \<Rightarrow> dsv4_args \<Rightarrow> nat \<Rightarrow> nat" where
  "dsv4_pool_bytes sizes args n_scratch =
     length (layer_ratios args) * ds_win_slots sizes * kv_bytes args + (ds_full_token sizes + 1) * 8 +
     sum_list (map (layer_bytes args n_scratch) (zip (layer_ratios args) (ds_tiers sizes)))"

section \<open>The budget solver\<close>

text \<open>The doubling search for an upper bracket, and the bisection below it; \<open>f n\<close> is the size of a pool of \<open>n\<close> pages.\<close>

partial_function (option) bracket :: "(nat \<Rightarrow> nat) \<Rightarrow> int \<Rightarrow> nat \<Rightarrow> nat option" where
  [code]: "bracket f available hi = (if int (f hi) \<le> available then bracket f available (hi * 2) else Some hi)"

function bisect :: "(nat \<Rightarrow> nat) \<Rightarrow> int \<Rightarrow> nat \<Rightarrow> nat \<Rightarrow> nat" where
  "bisect f available lo hi =
     (if lo + 1 < hi
      then (let mid = (lo + hi) div 2 in if int (f mid) \<le> available then bisect f available mid hi else bisect f available lo mid)
      else lo)"
  by pat_completeness auto
termination by (relation "measure (\<lambda>(f, available, lo, hi). hi - lo)") auto

declare bisect.simps [simp del]

definition floored_sizes :: "dsv4_args \<Rightarrow> (nat \<Rightarrow> nat) \<Rightarrow> nat \<Rightarrow> nat \<Rightarrow> nat \<Rightarrow> dsv4_sizes option" where
  "floored_sizes args pages_rnd floor_win_pages P num =
     dsv4_pool_sizes num args pages_rnd P (Some (max floor_win_pages ((pages_rnd num + P - 1) div P)))"

text \<open>\<open>pages_rnd num\<close> is \<open>round(swa_ratio * num * P)\<close>. Whether a compression ratio has a ring does not depend on the page
  count, so the first sizing is the one that can raise.\<close>

definition dsv4_solve_num_pages :: "int \<Rightarrow> dsv4_args \<Rightarrow> (nat \<Rightarrow> nat) \<Rightarrow> nat \<Rightarrow> nat \<Rightarrow> nat \<Rightarrow> dsv4_sizes option" where
  "dsv4_solve_num_pages available_bytes args pages_rnd floor_win_pages P n_scratch =
     (let lo = max floor_win_pages 2;
          size = (\<lambda>num. dsv4_pool_bytes (the (floored_sizes args pages_rnd floor_win_pages P num)) args n_scratch)
      in do {
        _ \<leftarrow> floored_sizes args pages_rnd floor_win_pages P lo;
        _ \<leftarrow> py_assert (int (size lo) \<le> available_bytes);
        per_page \<leftarrow> dsv4_cache_per_page args (\<lambda>_. 0) P;
        hi \<leftarrow> bracket size available_bytes (max lo (nat (available_bytes div int (max 1 per_page))));
        floored_sizes args pages_rnd floor_win_pages P (bisect size available_bytes lo hi) })"

section \<open>The configuration\<close>

record dsv4_config =
  dc_args :: dsv4_args
  dc_max_seq_len :: nat
  dc_max_running_req :: nat
  dc_radix :: bool
  dc_pages_rnd :: "nat \<Rightarrow> nat"
  dc_tokens_rnd :: "nat \<Rightarrow> nat"
  dc_force_small_pool :: "nat option"

definition dsv4_window_floor_pages :: "dsv4_config \<Rightarrow> nat \<Rightarrow> nat" where
  "dsv4_window_floor_pages c P =
     (let prefill_reach_pages = (dc_max_seq_len c + P - 1) div P
      in min prefill_reach_pages 8 + dsv4_reserved_window_pages (dc_max_running_req c) (dc_radix c))"

text \<open>The pool a configuration gets for a physical page count; \<open>target\<close> is the pinned window, of the request or else of the
  configuration.\<close>

definition config_pool_sizes :: "dsv4_config \<Rightarrow> nat \<Rightarrow> nat option \<Rightarrow> dsv4_sizes option" where
  "config_pool_sizes c num_pages target =
     (let P = da_window_size (dc_args c)
      in case dc_force_small_pool c of
           Some n \<Rightarrow> dsv4_pool_sizes (max 2 n) (dc_args c) (dc_tokens_rnd c) P None
         | None \<Rightarrow>
             (let floor_pages = dsv4_window_floor_pages c P;
                  win = (case target of
                      Some t \<Rightarrow> min num_pages (max floor_pages (t + 1))
                    | None \<Rightarrow> max floor_pages ((dc_pages_rnd c num_pages + P - 1) div P))
              in dsv4_pool_sizes num_pages (dc_args c) (dc_tokens_rnd c) P (Some win)))"

text \<open>The usable page count at start-up: one physical page is the dummy page.\<close>

definition dsv4_startup_pages :: "dsv4_config \<Rightarrow> int \<Rightarrow> nat option \<Rightarrow> nat option \<Rightarrow> nat option" where
  "dsv4_startup_pages c available num_page_override target =
     (let P = da_window_size (dc_args c)
      in do {
        num_pages \<leftarrow> (case num_page_override of
            None \<Rightarrow> do {
              sizes \<leftarrow> dsv4_solve_num_pages available (dc_args c) (dc_pages_rnd c) (dsv4_window_floor_pages c P) P (dc_max_running_req c + 1);
              Some (ds_full_token sizes div P - 1) }
          | Some n \<Rightarrow> do {
              _ \<leftarrow> py_assert (dsv4_window_floor_pages c P \<le> n);
              _ \<leftarrow> config_pool_sizes c (n + 1) target;
              Some n });
        _ \<leftarrow> py_assert (1 < num_pages);
        Some num_pages })"

section \<open>What the solver finds\<close>

definition rings_ok :: "dsv4_args \<Rightarrow> bool" where
  "rings_ok args \<longleftrightarrow> (\<forall>r\<in>set (layer_ratios args). r = 0 \<or> r = 4 \<or> r = 128)"

lemma ring_cases: "ratio = 0 \<or> ratio = 4 \<or> ratio = 128 \<or> ring_size_for_ratio ratio = None"
  by (simp add: ring_size_for_ratio_def)

lemma tier_of_Some: "(tier_of full w r \<noteq> None) = (r = 0 \<or> r = 4 \<or> r = 128)"
  by (simp add: tier_of_def ring_size_for_ratio_def)

lemma pool_sizes_cases:
  "dsv4_pool_sizes n args rnd P win =
     (if rings_ok args
      then (let w = min (case win of None \<Rightarrow> (rnd (n * P) + P - 1) div P | Some k \<Rightarrow> k) n
            in Some \<lparr>ds_full_token = n * P, ds_win_slots = w * P, ds_win_pages = w,
                ds_tiers = map (the \<circ> tier_of (n * P) w) (layer_ratios args)\<rparr>)
      else None)"
proof (cases "rings_ok args")
  case True
  then have "those (map (tier_of full w) (layer_ratios args)) = Some (map (the \<circ> tier_of full w) (layer_ratios args))" for full w
    unfolding rings_ok_def by (intro those_map_Some) (simp only: tier_of_Some)
  with True show ?thesis by (simp add: dsv4_pool_sizes_def Let_def)
next
  case False
  then obtain r where "r \<in> set (layer_ratios args)" "\<not> (r = 0 \<or> r = 4 \<or> r = 128)" unfolding rings_ok_def by blast
  then have "those (map (tier_of full w) (layer_ratios args)) = None" for full w
    using tier_of_Some[of full w r] by (intro those_map_None[of r]) auto
  with False show ?thesis by (simp add: dsv4_pool_sizes_def Let_def)
qed

lemma cache_per_page_defined: "rings_ok args \<Longrightarrow> 0 < P \<Longrightarrow> dsv4_cache_per_page args rnd P \<noteq> None"
  unfolding dsv4_cache_per_page_def rings_ok_def
  by (subst those_map_Some) (auto simp: layer_page_bytes_def ring_size_for_ratio_def py_assert_def)

text \<open>The bytes of a pool grow with its pages, by at least the full-to-window map.\<close>

lemma layer_bytes_le:
  assumes "ti_cmp_blocks t \<le> ti_cmp_blocks t'" "ti_state_slots t \<le> ti_state_slots t'"
    and "rel_option (\<le>) (ti_idx_blocks t) (ti_idx_blocks t')" "rel_option (\<le>) (ti_idx_state_slots t) (ti_idx_state_slots t')"
  shows "layer_bytes args k (r, Some t) \<le> layer_bytes args k (r, Some t')"
proof -
  have "(case ti_idx_blocks t of None \<Rightarrow> 0 | Some n \<Rightarrow> (n + k) * index_bytes args) \<le> (case ti_idx_blocks t' of None \<Rightarrow> 0 | Some n \<Rightarrow> (n + k) * index_bytes args)"
    using assms(3) by (auto elim: option.rel_cases)
  moreover have "(case ti_idx_state_slots t of None \<Rightarrow> 0 | Some n \<Rightarrow> (n + 1) * idx_state_bytes args) \<le>
      (case ti_idx_state_slots t' of None \<Rightarrow> 0 | Some n \<Rightarrow> (n + 1) * idx_state_bytes args)"
    using assms(4) by (cases rule: option.rel_cases) (simp_all only: option.case mult_le_mono1 add_le_mono1 order_refl)
  moreover have "(ti_cmp_blocks t + k) * kv_bytes args \<le> (ti_cmp_blocks t' + k) * kv_bytes args"
    "(ti_state_slots t + 1) * state_bytes args r \<le> (ti_state_slots t' + 1) * state_bytes args r" using assms(1,2) by (simp_all only: mult_le_mono1 add_le_mono1)
  ultimately show ?thesis unfolding layer_bytes.simps by (intro add_mono)
qed

lemma layer_bytes_mono:
  assumes "full \<le> full'" "w \<le> w'" "r = 0 \<or> r = 4 \<or> r = 128"
  shows "layer_bytes args k (r, the (tier_of full w r)) \<le> layer_bytes args k (r, the (tier_of full' w' r))"
proof (cases "r = 0")
  case False
  then obtain rs where rs: "ring_size_for_ratio r = Some rs" using assms(3) by (auto simp: ring_size_for_ratio_def)
  have "full div r \<le> full' div r" "full div 4 \<le> full' div 4" "w * rs \<le> w' * rs" "w * 8 \<le> w' * 8" using assms(1,2) by (simp_all add: div_le_mono)
  then show ?thesis using False rs by (cases "r = 4") (simp_all only: tier_of_def bind.bind_lunit option.sel if_True if_False, (rule layer_bytes_le; simp)+)
qed (simp add: tier_of_def)

lemma pool_bytes_mono:
  assumes "rings_ok args" "n \<le> n'" "w \<le> w'" "dsv4_pool_sizes n args rnd P (Some w) = Some s" "dsv4_pool_sizes n' args rnd P (Some w') = Some s'"
  shows "dsv4_pool_bytes s args k \<le> dsv4_pool_bytes s' args k" and "n * P < dsv4_pool_bytes s args k"
proof -
  let ?w = "min w n" and ?w' = "min w' n'"
  have le: "?w \<le> ?w'" "n * P \<le> n' * P" using assms(2,3) by auto
  have eq: "s = \<lparr>ds_full_token = n * P, ds_win_slots = ?w * P, ds_win_pages = ?w, ds_tiers = map (the \<circ> tier_of (n * P) ?w) (layer_ratios args)\<rparr>"
    "s' = \<lparr>ds_full_token = n' * P, ds_win_slots = ?w' * P, ds_win_pages = ?w', ds_tiers = map (the \<circ> tier_of (n' * P) ?w') (layer_ratios args)\<rparr>"
    using assms(1,4,5) by (simp_all add: pool_sizes_cases Let_def)
  have z: "map (layer_bytes args k) (zip rs (map g rs)) = map (\<lambda>r. layer_bytes args k (r, g r)) rs" for g rs
    by (induction rs) simp_all
  have "sum_list (map (\<lambda>r. layer_bytes args k (r, (the \<circ> tier_of (n * P) ?w) r)) (layer_ratios args)) \<le>
    sum_list (map (\<lambda>r. layer_bytes args k (r, (the \<circ> tier_of (n' * P) ?w') r)) (layer_ratios args))"
    using assms(1) unfolding rings_ok_def comp_def by (intro sum_list_mono layer_bytes_mono[OF le(2,1)]) simp
  moreover have "length (layer_ratios args) * (?w * P) * kv_bytes args \<le> length (layer_ratios args) * (?w' * P) * kv_bytes args"
    using le(1) by (intro mult_le_mono) simp_all
  moreover have "(n * P + 1) * 8 \<le> (n' * P + 1) * 8" using le(2) by simp
  ultimately show "dsv4_pool_bytes s args k \<le> dsv4_pool_bytes s' args k"
    unfolding dsv4_pool_bytes_def eq by (simp only: z dsv4_sizes.simps)
  show "n * P < dsv4_pool_bytes s args k" unfolding dsv4_pool_bytes_def eq by simp
qed

lemma bracket_ends:
  assumes "\<And>n. available < int n \<Longrightarrow> available < int (f n)" "0 < hi"
  shows "\<exists>h. bracket f available hi = Some h \<and> hi \<le> h \<and> available < int (f h)"
  using assms(2)
proof (induction "nat available + 1 - hi" arbitrary: hi rule: less_induct)
  case less
  show ?case
  proof (cases "int (f hi) \<le> available")
    case True
    then have "hi \<le> nat available" using assms(1)[of hi] by linarith
    then have "nat available + 1 - hi * 2 < nat available + 1 - hi" using less(2) by linarith
    from less(1)[OF this] less(2) True show ?thesis by (subst bracket.simps) (auto intro: order_trans[of hi "hi * 2"])
  next
    case False
    then show ?thesis by (subst bracket.simps) simp
  qed
qed

lemma bisect_finds:
  assumes "mono f" "int (f lo) \<le> available" "available < int (f hi)"
  shows "lo \<le> bisect f available lo hi \<and> int (f (bisect f available lo hi)) \<le> available \<and> available < int (f (bisect f available lo hi + 1))"
  using assms
proof (induction f available lo hi rule: bisect.induct)
  case (1 f available lo hi)
  have lt: "lo < hi" using monoD[OF 1(3), of hi lo] 1(4,5) by (cases "lo < hi") auto
  show ?case
  proof (cases "lo + 1 < hi")
    case True
    let ?mid = "(lo + hi) div 2"
    have "lo \<le> ?mid" using lt by simp
    then show ?thesis
      using 1(1)[OF True refl _ 1(3) _ 1(5)] 1(2)[OF True refl _ 1(3,4)] True
      by (cases "int (f ?mid) \<le> available") (simp_all add: bisect.simps[of f available lo hi] Let_def)
  next
    case False
    then have "hi = lo + 1" using lt by simp
    with 1(4,5) show ?thesis by (simp add: bisect.simps[of f available lo])
  qed
qed

lemma floored_bytes_mono:
  assumes "rings_ok args" "mono pages_rnd" "0 < P"
  shows "mono (\<lambda>num. dsv4_pool_bytes (the (floored_sizes args pages_rnd fl P num)) args k)"
    and "n < dsv4_pool_bytes (the (floored_sizes args pages_rnd fl P n)) args k"
proof -
  have some: "floored_sizes args pages_rnd fl P n = Some (the (floored_sizes args pages_rnd fl P n))" for n
    using assms(1) by (simp add: floored_sizes_def pool_sizes_cases Let_def)
  have w: "max fl ((pages_rnd a + P - 1) div P) \<le> max fl ((pages_rnd b + P - 1) div P)" if "a \<le> b" for a b
    using monoD[OF assms(2) that] by (intro max.mono div_le_mono diff_le_mono) simp_all
  note b = pool_bytes_mono[OF assms(1) _ w some[unfolded floored_sizes_def] some[unfolded floored_sizes_def], folded floored_sizes_def]
  show "mono (\<lambda>num. dsv4_pool_bytes (the (floored_sizes args pages_rnd fl P num)) args k)" by (rule monoI) (rule b(1))
  have "n \<le> n * P" using assms(3) by simp
  moreover have "n * P < dsv4_pool_bytes (the (floored_sizes args pages_rnd fl P n)) args k" by (rule b(2)[OF order_refl order_refl])
  ultimately show "n < dsv4_pool_bytes (the (floored_sizes args pages_rnd fl P n)) args k" by (rule le_less_trans)
qed

lemma solve_finds:
  assumes "rings_ok args" "mono pages_rnd" "0 < P"
    and "int (dsv4_pool_bytes (the (floored_sizes args pages_rnd fl P (max fl 2))) args k) \<le> available"
  shows "\<exists>n \<ge> max fl 2. dsv4_solve_num_pages available args pages_rnd fl P k = floored_sizes args pages_rnd fl P n \<and>
    int (dsv4_pool_bytes (the (floored_sizes args pages_rnd fl P n)) args k) \<le> available \<and>
    (\<forall>m > n. available < int (dsv4_pool_bytes (the (floored_sizes args pages_rnd fl P m)) args k))"
proof -
  define f where "f = (\<lambda>num. dsv4_pool_bytes (the (floored_sizes args pages_rnd fl P num)) args k)"
  have m: "mono f" "n < f n" for n unfolding f_def by (rule floored_bytes_mono[OF assms(1-3)])+
  have fits: "int (f (max fl 2)) \<le> available" using assms(4) by (simp add: f_def)
  obtain pp where pp: "dsv4_cache_per_page args (\<lambda>_. 0) P = Some pp" using cache_per_page_defined[OF assms(1,3)] by blast
  define hi0 where "hi0 = max (max fl 2) (nat (available div int (max 1 pp)))"
  have "floored_sizes args pages_rnd fl P (max fl 2) \<noteq> None" using assms(1) by (simp add: floored_sizes_def pool_sizes_cases Let_def)
  then have solve: "dsv4_solve_num_pages available args pages_rnd fl P k =
    Option.bind (bracket f available hi0) (\<lambda>hi. floored_sizes args pages_rnd fl P (bisect f available (max fl 2) hi))"
    unfolding dsv4_solve_num_pages_def Let_def f_def[symmetric] pp hi0_def using fits by (auto simp: py_assert_def)
  have "0 < hi0" by (simp add: hi0_def)
  have grow: "available < int (f n)" if "available < int n" for n using that m(2)[of n] by linarith
  from bracket_ends[of available f hi0, OF grow \<open>0 < hi0\<close>] obtain h where
    h: "bracket f available hi0 = Some h" "available < int (f h)" by blast
  from bisect_finds[OF m(1) fits h(2)] obtain n where n: "n = bisect f available (max fl 2) h" "max fl 2 \<le> n" "int (f n) \<le> available"
    "available < int (f (n + 1))" by blast
  have "available < int (f j)" if "n < j" for j using monoD[OF m(1), of "n + 1" j] n(4) that by linarith
  moreover have "dsv4_solve_num_pages available args pages_rnd fl P k = floored_sizes args pages_rnd fl P n" using solve h(1) n(1) by simp
  ultimately show ?thesis using n(2,3) unfolding f_def by blast
qed

text \<open>C8: The budget solver of the DSV4 pool is exact: the doubling search ends, and the pool it returns has at least the
  working-set floor of pages, costs no more than the byte budget, and is the largest such one: every pool of more pages
  costs more. It raises just when a layer's compression ratio has no ring, or when the budget is too small even for the
  minimal pool. (Rounding the product of the ratio and a token count is monotone.)\<close>

theorem dsv4_solve_exact:
  assumes "mono pages_rnd" "0 < P"
  shows "case dsv4_solve_num_pages available args pages_rnd fl P k of
      None \<Rightarrow> \<not> rings_ok args \<or> available < int (dsv4_pool_bytes (the (floored_sizes args pages_rnd fl P (max fl 2))) args k)
    | Some s \<Rightarrow> rings_ok args \<and> (\<exists>n \<ge> max fl 2. floored_sizes args pages_rnd fl P n = Some s \<and> ds_full_token s = n * P \<and>
        int (dsv4_pool_bytes s args k) \<le> available \<and>
        (\<forall>m > n. available < int (dsv4_pool_bytes (the (floored_sizes args pages_rnd fl P m)) args k)))"
proof (cases "rings_ok args \<and> int (dsv4_pool_bytes (the (floored_sizes args pages_rnd fl P (max fl 2))) args k) \<le> available")
  case False
  have "floored_sizes args pages_rnd fl P n = None" if "\<not> rings_ok args" for n using that by (simp add: floored_sizes_def pool_sizes_cases)
  with False have none: "floored_sizes args pages_rnd fl P (max fl 2) = None \<or>
      \<not> int (dsv4_pool_bytes (the (floored_sizes args pages_rnd fl P (max fl 2))) args k) \<le> available" by blast
  have "dsv4_solve_num_pages available args pages_rnd fl P k = None"
    unfolding dsv4_solve_num_pages_def Let_def
    by (cases "floored_sizes args pages_rnd fl P (max fl 2)") (use none in \<open>simp_all only: py_assert_def bind.simps if_False option.distinct option.sel simp_thms\<close>)
  then show ?thesis using False unfolding \<open>dsv4_solve_num_pages available args pages_rnd fl P k = None\<close> option.case by linarith
next
  case True
  from solve_finds[of args pages_rnd P fl k available] True assms obtain n where
    n: "max fl 2 \<le> n" "dsv4_solve_num_pages available args pages_rnd fl P k = floored_sizes args pages_rnd fl P n"
      "int (dsv4_pool_bytes (the (floored_sizes args pages_rnd fl P n)) args k) \<le> available"
      "\<forall>m > n. available < int (dsv4_pool_bytes (the (floored_sizes args pages_rnd fl P m)) args k)" by blast
  obtain s where s: "floored_sizes args pages_rnd fl P n = Some s" "ds_full_token s = n * P"
    using True by (auto simp: floored_sizes_def pool_sizes_cases Let_def)
  have "int (dsv4_pool_bytes s args k) \<le> available" using n(3) unfolding s(1) by simp
  then show ?thesis unfolding n(2) s(1) option.case using True n(1,4) s by (intro conjI exI[of _ n]) (assumption | simp)+
qed

text \<open>Two layers, one compressed by four, pages of four tokens, a window of half the history.\<close>

definition ex_dsv4 :: dsv4_config where
  "ex_dsv4 = \<lparr>dc_args = \<lparr>da_head_dim = 2, da_index_head_dim = 1, da_compress_ratios = [0, 4], da_n_layers = 2, da_window_size = 4\<rparr>,
     dc_max_seq_len = 16, dc_max_running_req = 1, dc_radix = False, dc_pages_rnd = (\<lambda>n. 2 * n), dc_tokens_rnd = (\<lambda>n. n div 2),
     dc_force_small_pool = None\<rparr>"

lemma ex_dsv4_facts:
  "mono (dc_pages_rnd ex_dsv4)" "rings_ok (dc_args ex_dsv4)" "dsv4_window_floor_pages ex_dsv4 4 = 9"
  "dsv4_pool_bytes (the (floored_sizes (dc_args ex_dsv4) (dc_pages_rnd ex_dsv4) 9 4 9)) (dc_args ex_dsv4) 2 = 4154"
  "dsv4_pool_bytes (the (floored_sizes (dc_args ex_dsv4) (dc_pages_rnd ex_dsv4) 9 4 10)) (dc_args ex_dsv4) 2 = 4192"
  by (simp add: ex_dsv4_def mono_def, simp add: rings_ok_def ex_dsv4_def layer_ratios_def, code_simp+)

theorem dsv4_solve_exact_witness:
  "\<exists>s. dsv4_solve_num_pages 4300 (dc_args ex_dsv4) (dc_pages_rnd ex_dsv4) 9 4 2 = Some s \<and> 36 \<le> ds_full_token s \<and>
     dsv4_pool_bytes s (dc_args ex_dsv4) 2 \<le> 4300"
proof -
  have P: "(0::nat) < 4" and m: "max 9 2 = (9::nat)" by simp_all
  from dsv4_solve_exact[OF ex_dsv4_facts(1) P, where available = 4300 and args = "dc_args ex_dsv4" and fl = 9 and k = 2] ex_dsv4_facts(2,4) show ?thesis
    unfolding m by (auto split: option.splits)
qed

text \<open>At start-up the solver counts the dummy page into the floor, an explicit page count must have it on top: so a budget
  that fits just the minimal pool gets a page count that is refused when asked for explicitly.\<close>

lemma startup_below_floor:
  "dsv4_startup_pages ex_dsv4 4160 None None = Some 8 \<and> dsv4_startup_pages ex_dsv4 4160 (Some 8) None = None"
proof -
  have P: "(0::nat) < 4" "da_window_size (dc_args ex_dsv4) = 4" "dc_max_running_req ex_dsv4 + 1 = 2" and m: "max 9 2 = (9::nat)"
    by (simp_all add: ex_dsv4_def)
  have "int (dsv4_pool_bytes (the (floored_sizes (dc_args ex_dsv4) (dc_pages_rnd ex_dsv4) 9 4 (max 9 2))) (dc_args ex_dsv4) 2) \<le> 4160"
    unfolding m ex_dsv4_facts(4) by simp
  from solve_finds[OF ex_dsv4_facts(2,1) P(1) this] obtain n where
    n: "9 \<le> n" "dsv4_solve_num_pages 4160 (dc_args ex_dsv4) (dc_pages_rnd ex_dsv4) 9 4 2 = floored_sizes (dc_args ex_dsv4) (dc_pages_rnd ex_dsv4) 9 4 n"
      "int (dsv4_pool_bytes (the (floored_sizes (dc_args ex_dsv4) (dc_pages_rnd ex_dsv4) 9 4 n)) (dc_args ex_dsv4) 2) \<le> 4160" unfolding m by blast
  from monoD[OF floored_bytes_mono(1)[OF ex_dsv4_facts(2,1) P(1), of 9 2], of 10 n] n(3) ex_dsv4_facts(5) have "n < 10" by linarith
  with n(1) have "n = 9" by simp
  moreover obtain s where s: "floored_sizes (dc_args ex_dsv4) (dc_pages_rnd ex_dsv4) 9 4 9 = Some s" "ds_full_token s = 36"
    using ex_dsv4_facts(2) by (auto simp: floored_sizes_def pool_sizes_cases Let_def)
  ultimately show ?thesis using n(2) unfolding dsv4_startup_pages_def P(2,3) Let_def ex_dsv4_facts(3) by (simp add: py_assert_def)
qed

end
