(* ===== verification/EngineSizing.thy ===== *)
theory EngineSizing
  imports SchedulerSafe Dsv4Sizing
begin

text \<open>
  How the engine sizes what the scheduler runs on: \<^verbatim>\<open>engine/cache_budget.py\<close> (the split of a byte budget between
  expert slots and KV pages), the page-table part of \<open>Engine.__init__\<close> and the runtime resize
  \<open>rebuild_runtime_cache\<close> of \<^verbatim>\<open>engine/engine.py\<close>, with the floors of \<^verbatim>\<open>kvcache/linear_state_pool.py\<close>, the window of
  \<^verbatim>\<open>kvcache/hybrid_swa_pool.py\<close> (a pinned size is raised to its floor, and one slot is the dummy), the fit checks of
  \<^verbatim>\<open>kvcache/base.py\<close> and \<^verbatim>\<open>kvcache/dsv4_paged_pool.py\<close>, and the slot limits of \<^verbatim>\<open>moe/offload_cache.py\<close>. Byte counts are Python integers; the scaled
  baseline \<open>int(memory_ratio * baseline_free)\<close>, a float product, is the parameter \<open>ratio_bytes\<close>. The cost of a KV pool
  family (\<open>kv_cost\<close>) is a parameter too, and a successful resize stands for allocations and graph captures that succeed.
\<close>

section \<open>The byte budget\<close>

definition net_cache_budget_bytes :: "int \<Rightarrow> int \<Rightarrow> int \<Rightarrow> int" where
  "net_cache_budget_bytes ratio_bytes weights_bytes fixed_cache_size = ratio_bytes - weights_bytes - fixed_cache_size"

definition required_bytes :: "int \<Rightarrow> int \<Rightarrow> int \<Rightarrow> int \<Rightarrow> int" where
  "required_bytes moe_cache_size num_pages per_expert_bytes cache_per_page = moe_cache_size * per_expert_bytes + num_pages * cache_per_page"

definition plan_cache_budget :: "int \<Rightarrow> int \<Rightarrow> int \<Rightarrow> int \<Rightarrow> int \<Rightarrow> bool \<Rightarrow> int \<Rightarrow> int \<Rightarrow> (int \<times> int \<times> bool) option" where
  "plan_cache_budget budget_bytes per_expert_bytes cache_per_page num_experts total_experts prefill_overlap kv_reserve_pages max_slots =
     (if \<not> 0 < per_expert_bytes \<or> \<not> 0 < cache_per_page then None
      else (let hi = min total_experts max_slots;
                overlap = (prefill_overlap \<and> 2 * num_experts \<le> hi);
                lo = (if overlap then 2 * num_experts else num_experts)
            in if hi < lo then None
               else (let kv_reserve_bytes = kv_reserve_pages * cache_per_page;
                         raw = (budget_bytes - kv_reserve_bytes) div per_expert_bytes;
                         moe_cache_size = max lo (min raw hi);
                         overlap = (overlap \<and> 2 * num_experts \<le> moe_cache_size);
                         remaining = budget_bytes - moe_cache_size * per_expert_bytes;
                         num_pages = max (remaining div cache_per_page) kv_reserve_pages;
                         total = moe_cache_size * per_expert_bytes + num_pages * cache_per_page
                     in if total \<le> budget_bytes \<and> 1 < num_pages then Some (moe_cache_size, num_pages, overlap) else None)))"

definition resolve_moe_cache_auto ::
  "int \<Rightarrow> int \<Rightarrow> int \<Rightarrow> int \<Rightarrow> int \<Rightarrow> int \<Rightarrow> int \<Rightarrow> bool \<Rightarrow> int \<Rightarrow> int \<Rightarrow> int option \<Rightarrow> (int \<times> int \<times> bool) option" where
  "resolve_moe_cache_auto ratio_bytes weights_bytes cache_per_page fixed_cache_size per_expert_bytes num_experts total_experts prefill_overlap
     kv_reserve_tokens page_size max_slots =
     plan_cache_budget (net_cache_budget_bytes ratio_bytes weights_bytes fixed_cache_size) per_expert_bytes cache_per_page num_experts total_experts
       prefill_overlap (div_ceil kv_reserve_tokens page_size) (case max_slots of None \<Rightarrow> total_experts | Some m \<Rightarrow> min m total_experts)"

text \<open>\<open>solve_num_pages\<close> of the pool families.\<close>

definition solve_num_pages :: "int \<Rightarrow> int \<Rightarrow> int option \<Rightarrow> int \<Rightarrow> int option" where
  "solve_num_pages cache_per_page fixed_cache_size num_page_override available_memory =
     (let num_pages = (case num_page_override of None \<Rightarrow> (available_memory - fixed_cache_size) div cache_per_page | Some n \<Rightarrow> n)
      in if 1 < num_pages then Some num_pages else None)"

lemma div_bounds: "0 < b \<Longrightarrow> (a div b) * b \<le> a \<and> a < (a div b + 1) * (b::int)"
proof -
  assume "0 < b"
  then have "0 \<le> a mod b" "a mod b < b" by simp_all
  moreover have "a = (a div b) * b + a mod b" by simp
  moreover have "(a div b + 1) * b = (a div b) * b + b" by (simp add: distrib_right)
  ultimately show ?thesis by linarith
qed

lemma mult_mono_pos: "a \<le> b \<Longrightarrow> 0 < c \<Longrightarrow> a * c \<le> b * (c::int)"
  by (simp add: mult_right_mono)

text \<open>The pages left once the expert slots are paid for, and the most expert slots that leave the reserve alone.\<close>

lemma pages_bounds:
  assumes "0 < pp" "p = max (rest div pp) reserve" "(reserve::int) * pp \<le> rest"
  shows "p * pp \<le> rest \<and> rest < (p + 1) * pp"
proof -
  have "(rest div pp + 1) * pp \<le> (p + 1) * pp" using assms(1,2) by (intro mult_mono_pos) simp_all
  with div_bounds[OF assms(1), of rest] assms(2,3) show ?thesis by (auto simp: max_def)
qed

lemma experts_bounds:
  assumes "0 < pe" "m = max lo (min (spare div pe) hi)" "lo \<le> (hi::int)"
  shows "lo \<le> m \<and> m \<le> hi \<and> (m = lo \<or> m * pe \<le> spare) \<and> (m = hi \<or> spare < (m + 1) * pe)"
proof -
  have "m * pe \<le> spare" if "m \<noteq> lo"
    using that assms(2) mult_mono_pos[OF _ assms(1), of m "spare div pe"] div_bounds[OF assms(1), of spare] by (auto simp: max_def min_def split: if_splits)
  moreover have "spare < (m + 1) * pe" if "m \<noteq> hi"
  proof -
    have "spare div pe + 1 \<le> m + 1" using that assms(2,3) by (auto simp: max_def min_def split: if_splits)
    from mult_mono_pos[OF this assms(1)] div_bounds[OF assms(1), of spare] show ?thesis by linarith
  qed
  moreover have "lo \<le> m" "m \<le> hi" using assms(2,3) by auto
  ultimately show ?thesis by blast
qed

text \<open>C31: The budget split is exact: it fails just when the smallest expert cache and the KV reserve do not fit the
  budget together; otherwise its expert slots lie between the floor and the cap, its pages include the reserve, both fit,
  and neither can be larger: one more page does not fit, and one more expert slot would eat into the reserve or exceed
  the cap. Prefill overlap is kept exactly when the cap has room for its two buffers.\<close>

theorem plan_cache_budget_exact:
  assumes "0 < pe" "0 < pp" "2 \<le> reserve" and lo: "lo = (if ov \<and> 2 * ne \<le> min te ms then 2 * ne else ne)" "lo \<le> min te ms"
  shows "(plan_cache_budget budget pe pp ne te ov reserve ms = None \<longleftrightarrow> budget < required_bytes lo reserve pe pp) \<and>
    (\<forall>m p o'. plan_cache_budget budget pe pp ne te ov reserve ms = Some (m, p, o') \<longrightarrow>
       lo \<le> m \<and> m \<le> min te ms \<and> reserve \<le> p \<and> required_bytes m p pe pp \<le> budget \<and> budget < required_bytes m (p + 1) pe pp \<and>
       (m = min te ms \<or> budget < required_bytes (m + 1) reserve pe pp) \<and> (o' \<longleftrightarrow> ov \<and> 2 * ne \<le> min te ms))"
proof -
  define hi where "hi = min te ms"
  define m where "m = max lo (min ((budget - reserve * pp) div pe) hi)"
  define p where "p = max ((budget - m * pe) div pp) reserve"
  note e = experts_bounds[OF assms(1) m_def lo(2)[folded hi_def]]
  have lo2: "(if ov \<and> 2 * ne \<le> hi then 2 * ne else ne) = lo" "\<not> hi < lo" unfolding hi_def using lo(1) lo(2) by (metis, metis not_less)
  have "(ov \<and> 2 * ne \<le> hi) \<and> 2 * ne \<le> m \<longleftrightarrow> ov \<and> 2 * ne \<le> hi" using e lo2(1) by auto
  then have plan: "plan_cache_budget budget pe pp ne te ov reserve ms =
      (if m * pe + p * pp \<le> budget \<and> 1 < p then Some (m, p, ov \<and> 2 * ne \<le> hi) else None)"
    unfolding plan_cache_budget_def Let_def hi_def[symmetric] lo2(1) m_def[symmetric] p_def[symmetric] using assms(1,2) lo2(2) by simp
  have pg: "m * pe + p * pp \<le> budget \<and> budget < m * pe + (p + 1) * pp" if "m * pe + reserve * pp \<le> budget"
    using pages_bounds[OF assms(2) p_def] that by linarith
  have "lo * pe \<le> m * pe" "reserve * pp \<le> p * pp" using e assms(1,2) by (auto simp: p_def intro!: mult_mono_pos)
  moreover have "m * pe = lo * pe \<or> m * pe \<le> budget - reserve * pp" using e by auto
  ultimately have r: "m * pe + p * pp \<le> budget \<longleftrightarrow> m * pe + reserve * pp \<le> budget" and l: "m * pe + reserve * pp \<le> budget \<longleftrightarrow> lo * pe + reserve * pp \<le> budget"
    using pg by linarith+
  have "reserve \<le> p" "1 < p" using assms(3) by (simp_all add: p_def)
  moreover have "m = hi \<or> budget < (m + 1) * pe + reserve * pp" using e by linarith
  moreover have "budget < lo * pe + reserve * pp \<longleftrightarrow> \<not> m * pe + p * pp \<le> budget" using r l by linarith
  ultimately show ?thesis unfolding required_bytes_def hi_def[symmetric] using plan e pg r by auto
qed

theorem plan_cache_budget_exact_witness:
  "plan_cache_budget 100 3 4 4 20 True 5 16 = Some (16, 13, True) \<and> 100 < required_bytes 16 14 3 4 \<and>
   plan_cache_budget 40 3 4 4 20 True 5 16 = None"
proof -
  have a: "(0::int) < 3" "(0::int) < 4" "(2::int) \<le> 5" "(8::int) = (if True \<and> 2 * 4 \<le> min 20 (16::int) then 2 * 4 else 4)" "(8::int) \<le> min 20 16" by (simp_all add: min_def)
  have p: "plan_cache_budget 100 3 4 4 20 True 5 16 = Some (16, 13, True)" by code_simp
  have "100 < required_bytes 16 (13 + 1) 3 4" using plan_cache_budget_exact[OF a, of 100] p by blast
  moreover have "plan_cache_budget 40 3 4 4 20 True 5 16 = None"
    using plan_cache_budget_exact[OF a, of 40] by (simp add: required_bytes_def)
  ultimately show ?thesis using p by simp
qed

section \<open>The page table\<close>

definition page_table_width :: "nat \<Rightarrow> nat \<Rightarrow> nat" where
  "page_table_width max_seq_len page_size = align_ceil (align_ceil max_seq_len page_size) 32"

lemma page_table_width_ge: "0 < ps \<Longrightarrow> page_ceil ps n \<le> page_table_width n ps"
  using page_ceil_ge[of 32 "page_ceil ps n"] by (simp add: page_table_width_def align_ceil_def page_ceil_def)

section \<open>The engine's caches\<close>

record moe_cache =
  mo_num_experts :: nat
  mo_cache_size :: nat
  mo_max_slots :: "nat option"
  mo_marlin :: bool
  mo_prefill_overlap :: bool

text \<open>The window of a sliding-window model (\<^verbatim>\<open>kvcache/hybrid_swa_pool.py\<close>): what it is sized from, the floor of a running
  request and of the pool, and the tokens of the naive and of the radix pool. The ratio is a float: \<open>swc_ratio n\<close> is
  \<open>int(swa_full_tokens_ratio * n)\<close>.\<close>

record swa_config =
  swc_window :: nat
  swc_page_size :: nat
  swc_max_running :: nat
  swc_max_forward_len :: nat
  swc_special_ckpt :: bool
  swc_interval :: nat
  swc_ratio :: "nat \<Rightarrow> nat"

definition naive_swa_num_tokens :: "swa_config \<Rightarrow> nat" where
  "naive_swa_num_tokens c = (swc_max_running c + 1) * align_ceil (swc_window c + swc_max_forward_len c + 1) 32"

definition swa_per_req_floor :: "swa_config \<Rightarrow> nat" where
  "swa_per_req_floor c =
     (let ps = swc_page_size c;
          locked = ((swc_window c + swa_retain_gap + ps - 1) div ps) * ps;
          floor = locked + swc_window c + swc_interval c + 2 * ps
      in if swc_special_ckpt c then floor + (swc_window c + swa_retain_gap + swc_interval c) else floor)"

definition swa_pool_floor :: "swa_config \<Rightarrow> nat" where
  "swa_pool_floor c = swc_max_running c * swa_per_req_floor c"

definition swa_paged_num_tokens :: "swa_config \<Rightarrow> nat \<Rightarrow> nat option \<Rightarrow> nat" where
  "swa_paged_num_tokens c num_full_pages override =
     (case override of
        Some n \<Rightarrow> max (swa_pool_floor c) n + 1
      | None \<Rightarrow> max (swa_pool_floor c) (swc_ratio c (num_full_pages * swc_page_size c)) + 1)"

text \<open>The KV pool families, with the window they hold: none (MHA, MLA), the tokens of a sliding-window pool, the tiers of a
  DSV4 pool.\<close>

datatype kv_pool =
    FullPool
  | NaiveSwaPool swa_config nat
  | RadixSwaPool swa_config nat
  | Dsv4Pool dsv4_config dsv4_sizes

text \<open>\<open>rebuild_from_config\<close> for a usable page count; \<open>target\<close> is the window of the request, or else the pinned one. Whether
  the DSV4 layers have rings was settled when the pool was built.\<close>

fun rebuild_from_config :: "kv_pool \<Rightarrow> nat \<Rightarrow> nat option \<Rightarrow> kv_pool" where
  "rebuild_from_config FullPool num_pages target = FullPool"
| "rebuild_from_config (NaiveSwaPool c n) num_pages target = NaiveSwaPool c (naive_swa_num_tokens c)"
| "rebuild_from_config (RadixSwaPool c n) num_pages target = RadixSwaPool c (swa_paged_num_tokens c (num_pages + 1) target)"
| "rebuild_from_config (Dsv4Pool c s) num_pages target = Dsv4Pool c (the (config_pool_sizes c (num_pages + 1) target))"

text \<open>\<open>_supports_swa_ratio\<close>: a window that can be pinned.\<close>

fun supports_swa_ratio :: "kv_pool \<Rightarrow> bool" where
  "supports_swa_ratio (RadixSwaPool c n) = True"
| "supports_swa_ratio (Dsv4Pool c s) = True"
| "supports_swa_ratio _ = False"

record engine_caches =
  eg_cfg_max_seq_len :: nat
  eg_page_size :: nat
  eg_max_running :: nat
  eg_hybrid_radix :: bool
  eg_pool :: kv_pool
  eg_num_pages :: nat
  eg_swa_override :: "nat option"
  eg_moe :: "moe_cache option"
  eg_state_slots :: "nat option"
  eg_max_seq_len :: nat
  eg_page_table :: "int list list"

definition zeros :: "nat \<Rightarrow> nat \<Rightarrow> int list list" where
  "zeros rows cols = replicate rows (replicate cols 0)"

text \<open>The row of the dummy request points to the dummy page.\<close>

definition point_dummy :: "engine_caches \<Rightarrow> engine_caches" where
  "point_dummy e = e\<lparr>eg_page_table :=
     (eg_page_table e)[eg_max_running e := replicate (length (eg_page_table e ! eg_max_running e)) (int (eg_num_pages e * eg_page_size e))]\<rparr>"

definition init_seq_state :: "engine_caches \<Rightarrow> engine_caches" where
  "init_seq_state e =
     (let max_seq_len = min (eg_cfg_max_seq_len e) (eg_num_pages e * eg_page_size e)
      in point_dummy (e\<lparr>eg_max_seq_len := max_seq_len,
           eg_page_table := zeros (eg_max_running e + 1) (page_table_width max_seq_len (eg_page_size e))\<rparr>))"

definition refresh_seq_state :: "engine_caches \<Rightarrow> engine_caches" where
  "refresh_seq_state e =
     (let max_seq_len = min (eg_cfg_max_seq_len e) (eg_num_pages e * eg_page_size e);
          aligned = page_table_width max_seq_len (eg_page_size e);
          table = (if aligned \<noteq> length (hd (eg_page_table e)) then zeros (eg_max_running e + 1) aligned else eg_page_table e)
      in point_dummy (e\<lparr>eg_max_seq_len := max_seq_len, eg_page_table := table\<rparr>))"

text \<open>The floor on state slots: the padding sink, and one slot a request, four with the hybrid radix cache.\<close>

definition linear_pool_min_slots :: "engine_caches \<Rightarrow> nat" where
  "linear_pool_min_slots e = (if \<not> eg_hybrid_radix e then eg_max_running e + 1 else 4 * eg_max_running e + 1)"

definition marlin_max_cache_size :: nat where "marlin_max_cache_size = 992"

datatype rebuild_reject =
    NoMoeCache
  | MoeBelowExperts nat nat
  | MoeAboveKernel nat nat
  | MoeAboveMarlin nat
  | PagesNotPositive nat
  | NoStatePool
  | TooFewStateSlots nat nat
  | NoWindowPool
  | WindowNotPositive nat
  | PagesBelowWindowFloor nat nat
  | DoesNotFit int int

text \<open>The checks before anything is freed, in their order; \<open>None\<close> is passed.\<close>

definition validate_moe :: "moe_cache \<Rightarrow> nat \<Rightarrow> rebuild_reject option" where
  "validate_moe c n =
     (if n < mo_num_experts c then Some (MoeBelowExperts n (mo_num_experts c))
      else (case mo_max_slots c of
              Some limit \<Rightarrow> if limit < n then Some (MoeAboveKernel n limit)
                            else if mo_marlin c \<and> marlin_max_cache_size < n then Some (MoeAboveMarlin n) else None
            | None \<Rightarrow> if mo_marlin c \<and> marlin_max_cache_size < n then Some (MoeAboveMarlin n) else None))"

definition check_moe :: "engine_caches \<Rightarrow> nat option \<Rightarrow> rebuild_reject option" where
  "check_moe e moe = (case moe of None \<Rightarrow> None | Some n \<Rightarrow> (case eg_moe e of None \<Rightarrow> Some NoMoeCache | Some c \<Rightarrow> validate_moe c n))"

definition check_pages :: "nat option \<Rightarrow> rebuild_reject option" where
  "check_pages pages = (case pages of Some 0 \<Rightarrow> Some (PagesNotPositive 0) | _ \<Rightarrow> None)"

definition check_slots :: "engine_caches \<Rightarrow> nat option \<Rightarrow> rebuild_reject option" where
  "check_slots e ns =
     (case ns of None \<Rightarrow> None
      | Some n \<Rightarrow> (case eg_state_slots e of None \<Rightarrow> Some NoStatePool
                   | Some _ \<Rightarrow> if n < linear_pool_min_slots e - 1 then Some (TooFewStateSlots n (linear_pool_min_slots e - 1)) else None))"

definition check_window :: "engine_caches \<Rightarrow> nat option \<Rightarrow> rebuild_reject option" where
  "check_window e win =
     (case win of None \<Rightarrow> None
      | Some n \<Rightarrow> if \<not> supports_swa_ratio (eg_pool e) then Some NoWindowPool else if n = 0 then Some (WindowNotPositive n) else None)"

text \<open>The memory account: the scaled baseline, the weights, the bytes of an expert and of a state slot, and the pool
  family's cost per page and fixed cost for a window (the pinned one of the configuration unless a target is given).\<close>

record account =
  ac_ratio_bytes :: int
  ac_weights :: int
  ac_expert_bytes :: int
  ac_slot_bytes :: int
  ac_kv_cost :: "nat option \<Rightarrow> int \<times> int"

definition target_moe :: "engine_caches \<Rightarrow> nat option \<Rightarrow> nat" where
  "target_moe e moe = (case moe of Some n \<Rightarrow> n | None \<Rightarrow> (case eg_moe e of None \<Rightarrow> 0 | Some c \<Rightarrow> mo_cache_size c))"

definition target_slots :: "engine_caches \<Rightarrow> nat option \<Rightarrow> nat option" where
  "target_slots e ns = (case ns of Some n \<Rightarrow> Some (n + 1) | None \<Rightarrow> eg_state_slots e)"

definition target_window :: "engine_caches \<Rightarrow> nat option \<Rightarrow> nat option" where
  "target_window e win = (case win of Some n \<Rightarrow> Some n | None \<Rightarrow> eg_swa_override e)"

definition target_pages :: "engine_caches \<Rightarrow> nat option \<Rightarrow> nat" where
  "target_pages e pages = (case pages of None \<Rightarrow> eg_num_pages e | Some n \<Rightarrow> n)"

definition base_validate_rebuild :: "account \<Rightarrow> engine_caches \<Rightarrow> geometry \<Rightarrow> rebuild_reject option" where
  "base_validate_rebuild ac e g =
     (let (cache_per_page, fixed_cache_size) = ac_kv_cost ac (target_window e (ge_swa g));
          extra_fixed_bytes = (case target_slots e (ge_mamba g) of None \<Rightarrow> 0 | Some n \<Rightarrow> ac_slot_bytes ac * int n);
          budget = net_cache_budget_bytes (ac_ratio_bytes ac) (ac_weights ac) (fixed_cache_size + extra_fixed_bytes);
          need = required_bytes (int (target_moe e (ge_moe g))) (int (target_pages e (ge_pages g))) (if eg_moe e = None then 0 else ac_expert_bytes ac) cache_per_page
      in if budget < need then Some (DoesNotFit need budget) else None)"

text \<open>The DSV4 pool checks its working-set floor and prices the tiers it would hold; without a new page count or window it
  keeps the live ones, priced as they are. It ignores the bytes of a sibling state pool: a DSV4 model has none.\<close>

definition dsv4_validate_rebuild :: "account \<Rightarrow> engine_caches \<Rightarrow> geometry \<Rightarrow> dsv4_config \<Rightarrow> dsv4_sizes \<Rightarrow> rebuild_reject option" where
  "dsv4_validate_rebuild ac e g c live =
     (let floor = dsv4_window_floor_pages c (da_window_size (dc_args c));
          kv_sizes = (if ge_pages g \<noteq> None \<or> ge_swa g \<noteq> None
            then the (config_pool_sizes c (target_pages e (ge_pages g) + 1) (target_window e (ge_swa g))) else live);
          budget = net_cache_budget_bytes (ac_ratio_bytes ac) (ac_weights ac) 0;
          need = int (target_moe e (ge_moe g)) * (if eg_moe e = None then 0 else ac_expert_bytes ac) +
            int (dsv4_pool_bytes kv_sizes (dc_args c) (dc_max_running_req c + 1));
          fits = (if budget < need then Some (DoesNotFit need budget) else None)
      in case ge_pages g of None \<Rightarrow> fits | Some n \<Rightarrow> if n < floor then Some (PagesBelowWindowFloor n floor) else fits)"

definition fit_check :: "account \<Rightarrow> engine_caches \<Rightarrow> geometry \<Rightarrow> rebuild_reject option" where
  "fit_check ac e g =
     (case eg_pool e of Dsv4Pool c live \<Rightarrow> dsv4_validate_rebuild ac e g c live | _ \<Rightarrow> base_validate_rebuild ac e g)"

definition resize_moe :: "nat \<Rightarrow> moe_cache \<Rightarrow> moe_cache" where
  "resize_moe n c = c\<lparr>mo_cache_size := n, mo_prefill_overlap := mo_prefill_overlap c \<and> 2 * mo_num_experts c \<le> n\<rparr>"

text \<open>A new page count, or a new window against the current one.\<close>

definition resize_kv_pool :: "nat option \<Rightarrow> nat option \<Rightarrow> engine_caches \<Rightarrow> engine_caches" where
  "resize_kv_pool pages win e =
     (if pages = None \<and> win = None then e
      else e\<lparr>eg_pool := rebuild_from_config (eg_pool e) (target_pages e pages) (target_window e win), eg_num_pages := target_pages e pages\<rparr>)"

definition resize_caches :: "geometry \<Rightarrow> engine_caches \<Rightarrow> engine_caches" where
  "resize_caches g e =
     (let e = (case ge_swa g of None \<Rightarrow> e | Some n \<Rightarrow> e\<lparr>eg_swa_override := Some n\<rparr>);
          e = (case ge_moe g of None \<Rightarrow> e | Some n \<Rightarrow> e\<lparr>eg_moe := map_option (resize_moe n) (eg_moe e)\<rparr>);
          e = resize_kv_pool (ge_pages g) (ge_swa g) e;
          e = (case ge_mamba g of None \<Rightarrow> e | Some n \<Rightarrow> e\<lparr>eg_state_slots := Some (n + 1)\<rparr>)
      in refresh_seq_state e)"

definition rebuild_runtime_cache :: "account \<Rightarrow> geometry \<Rightarrow> engine_caches \<Rightarrow> rebuild_reject + engine_caches" where
  "rebuild_runtime_cache ac g e =
     (if ge_moe g = None \<and> ge_pages g = None \<and> ge_mamba g = None \<and> ge_swa g = None then Inr e
      else (case check_moe e (ge_moe g) of Some r \<Rightarrow> Inl r | None \<Rightarrow>
           (case check_pages (ge_pages g) of Some r \<Rightarrow> Inl r | None \<Rightarrow>
           (case check_slots e (ge_mamba g) of Some r \<Rightarrow> Inl r | None \<Rightarrow>
           (case check_window e (ge_swa g) of Some r \<Rightarrow> Inl r | None \<Rightarrow>
           (case fit_check ac e g of Some r \<Rightarrow> Inl r | None \<Rightarrow> Inr (resize_caches g e)))))))"

text \<open>What the caches of an engine take of the account.\<close>

definition state_bytes_of :: "account \<Rightarrow> engine_caches \<Rightarrow> int" where
  "state_bytes_of ac e = (case eg_state_slots e of None \<Rightarrow> 0 | Some n \<Rightarrow> ac_slot_bytes ac * int n)"

definition footprint :: "account \<Rightarrow> engine_caches \<Rightarrow> int" where
  "footprint ac e =
     int (target_moe e None) * (if eg_moe e = None then 0 else ac_expert_bytes ac) + state_bytes_of ac e +
     (case eg_pool e of
        Dsv4Pool c s \<Rightarrow> int (dsv4_pool_bytes s (dc_args c) (dc_max_running_req c + 1))
      | _ \<Rightarrow> int (eg_num_pages e) * fst (ac_kv_cost ac (eg_swa_override e)) + snd (ac_kv_cost ac (eg_swa_override e)))"

text \<open>The window a pool of this many usable pages must hold: the working set of all running requests.\<close>

fun window_ok :: "kv_pool \<Rightarrow> nat \<Rightarrow> bool" where
  "window_ok FullPool num_pages \<longleftrightarrow> True"
| "window_ok (NaiveSwaPool c n) num_pages \<longleftrightarrow> (swc_max_running c + 1) * (swc_window c + swc_max_forward_len c + 1) \<le> n"
| "window_ok (RadixSwaPool c n) num_pages \<longleftrightarrow> swa_pool_floor c < n"
| "window_ok (Dsv4Pool c s) num_pages \<longleftrightarrow>
     (let P = da_window_size (dc_args c)
      in rings_ok (dc_args c) \<and> dc_force_small_pool c = None \<and> ds_full_token s = (num_pages + 1) * P \<and>
        dsv4_window_floor_pages c P \<le> num_pages + 1 \<and> dsv4_window_floor_pages c P \<le> ds_win_pages s \<and> ds_win_pages s \<le> num_pages + 1)"

text \<open>Sizes a rebuild may leave behind. (The page-count hook that tests use to force a small DSV4 pool is off.)\<close>

definition sized :: "engine_caches \<Rightarrow> bool" where
  "sized e \<longleftrightarrow> 0 < eg_num_pages e \<and>
     (\<forall>c. eg_moe e = Some c \<longrightarrow> validate_moe c (mo_cache_size c) = None \<and> (mo_prefill_overlap c \<longrightarrow> 2 * mo_num_experts c \<le> mo_cache_size c)) \<and>
     (\<forall>n. eg_state_slots e = Some n \<longrightarrow> linear_pool_min_slots e \<le> n \<and> (\<forall>c s. eg_pool e \<noteq> Dsv4Pool c s)) \<and>
     (\<forall>n. eg_swa_override e = Some n \<longrightarrow> supports_swa_ratio (eg_pool e) \<and> 0 < n) \<and> window_ok (eg_pool e) (eg_num_pages e)"

text \<open>What a request asks for, where it asks. A pinned window is raised to the floor of its pool, and has a slot (or a page)
  of padding on top; the DSV4 window does not exceed the pool. Without a new page count or window the pool is untouched.\<close>

fun window_granted :: "kv_pool \<Rightarrow> nat \<Rightarrow> nat option \<Rightarrow> bool" where
  "window_granted FullPool num_pages pin \<longleftrightarrow> pin = None"
| "window_granted (NaiveSwaPool c n) num_pages pin \<longleftrightarrow> pin = None"
| "window_granted (RadixSwaPool c n) num_pages pin \<longleftrightarrow> (\<forall>w. pin = Some w \<longrightarrow> n = max (swa_pool_floor c) w + 1)"
| "window_granted (Dsv4Pool c s) num_pages pin \<longleftrightarrow>
     (\<forall>w. pin = Some w \<longrightarrow> ds_win_pages s = min (num_pages + 1) (max (dsv4_window_floor_pages c (da_window_size (dc_args c))) (w + 1)))"

definition granted :: "geometry \<Rightarrow> engine_caches \<Rightarrow> engine_caches \<Rightarrow> bool" where
  "granted g e e' \<longleftrightarrow>
     map_option mo_cache_size (eg_moe e') = (case ge_moe g of None \<Rightarrow> map_option mo_cache_size (eg_moe e) | Some n \<Rightarrow> Some n) \<and>
     eg_num_pages e' = (case ge_pages g of None \<Rightarrow> eg_num_pages e | Some n \<Rightarrow> n) \<and>
     eg_state_slots e' = (case ge_mamba g of None \<Rightarrow> eg_state_slots e | Some n \<Rightarrow> Some (n + 1)) \<and>
     eg_swa_override e' = (case ge_swa g of None \<Rightarrow> eg_swa_override e | Some n \<Rightarrow> Some n) \<and>
     (if ge_pages g = None \<and> ge_swa g = None then eg_pool e' = eg_pool e else window_granted (eg_pool e') (eg_num_pages e') (eg_swa_override e'))"

text \<open>A DSV4 page count below the working-set floor.\<close>

definition below_floor :: "geometry \<Rightarrow> engine_caches \<Rightarrow> bool" where
  "below_floor g e \<longleftrightarrow> (\<exists>c s n. eg_pool e = Dsv4Pool c s \<and> ge_pages g = Some n \<and> n < dsv4_window_floor_pages c (da_window_size (dc_args c)))"

lemma refresh_fields [simp]:
  "eg_num_pages (refresh_seq_state e) = eg_num_pages e" "eg_moe (refresh_seq_state e) = eg_moe e"
  "eg_state_slots (refresh_seq_state e) = eg_state_slots e" "eg_swa_override (refresh_seq_state e) = eg_swa_override e"
  "eg_pool (refresh_seq_state e) = eg_pool e" "eg_max_running (refresh_seq_state e) = eg_max_running e"
  "eg_page_size (refresh_seq_state e) = eg_page_size e" "eg_cfg_max_seq_len (refresh_seq_state e) = eg_cfg_max_seq_len e"
  "eg_hybrid_radix (refresh_seq_state e) = eg_hybrid_radix e"
  by (simp_all add: refresh_seq_state_def point_dummy_def Let_def)

lemma resize_fields [simp]:
  "eg_num_pages (resize_caches g e) = (case ge_pages g of None \<Rightarrow> eg_num_pages e | Some n \<Rightarrow> n)"
  "eg_moe (resize_caches g e) = (case ge_moe g of None \<Rightarrow> eg_moe e | Some n \<Rightarrow> map_option (resize_moe n) (eg_moe e))"
  "eg_state_slots (resize_caches g e) = (case ge_mamba g of None \<Rightarrow> eg_state_slots e | Some n \<Rightarrow> Some (n + 1))"
  "eg_swa_override (resize_caches g e) = (case ge_swa g of None \<Rightarrow> eg_swa_override e | Some n \<Rightarrow> Some n)"
  "eg_pool (resize_caches g e) =
     (if ge_pages g = None \<and> ge_swa g = None then eg_pool e
      else rebuild_from_config (eg_pool e) (target_pages e (ge_pages g)) (target_window e (ge_swa g)))"
  "eg_max_running (resize_caches g e) = eg_max_running e"
  "eg_page_size (resize_caches g e) = eg_page_size e" "eg_cfg_max_seq_len (resize_caches g e) = eg_cfg_max_seq_len e"
  "eg_hybrid_radix (resize_caches g e) = eg_hybrid_radix e"
  by (simp_all add: resize_caches_def resize_kv_pool_def target_pages_def target_window_def Let_def split: option.splits)

lemma resize_seq_fields [simp]:
  "eg_page_table (resize_kv_pool pages win e) = eg_page_table e" "eg_max_running (resize_kv_pool pages win e) = eg_max_running e"
  by (simp_all add: resize_kv_pool_def)

lemma rebuild_Inr:
  assumes "rebuild_runtime_cache ac g e = Inr e'" and "\<not> (ge_moe g = None \<and> ge_pages g = None \<and> ge_mamba g = None \<and> ge_swa g = None)"
  shows "e' = resize_caches g e \<and> check_moe e (ge_moe g) = None \<and> check_pages (ge_pages g) = None \<and> check_slots e (ge_mamba g) = None \<and>
     check_window e (ge_swa g) = None \<and> fit_check ac e g = None"
  using assms by (simp add: rebuild_runtime_cache_def split: option.splits)

text \<open>The fit check prices just the caches the resize leaves behind.\<close>

lemma resize_footprint:
  assumes "check_moe e (ge_moe g) = None" "sized e" "check_slots e (ge_mamba g) = None"
  shows "footprint ac (resize_caches g e) = int (target_moe e (ge_moe g)) * (if eg_moe e = None then 0 else ac_expert_bytes ac) +
     (case target_slots e (ge_mamba g) of None \<Rightarrow> 0 | Some n \<Rightarrow> ac_slot_bytes ac * int n) +
     (case eg_pool e of
        Dsv4Pool c s \<Rightarrow> int (dsv4_pool_bytes (if ge_pages g \<noteq> None \<or> ge_swa g \<noteq> None
            then the (config_pool_sizes c (target_pages e (ge_pages g) + 1) (target_window e (ge_swa g))) else s) (dc_args c) (dc_max_running_req c + 1))
      | _ \<Rightarrow> int (target_pages e (ge_pages g)) * fst (ac_kv_cost ac (target_window e (ge_swa g))) + snd (ac_kv_cost ac (target_window e (ge_swa g))))"
proof -
  have "target_moe (resize_caches g e) None = target_moe e (ge_moe g)"
    using assms(1) by (auto simp: target_moe_def check_moe_def resize_moe_def split: option.splits)
  note eqs = this
  have "(eg_moe (resize_caches g e) = None) = (eg_moe e = None)" by (simp split: option.splits)
  note eqs = eqs this
  have "state_bytes_of ac (resize_caches g e) = (case target_slots e (ge_mamba g) of None \<Rightarrow> 0 | Some n \<Rightarrow> ac_slot_bytes ac * int n)"
    by (simp add: state_bytes_of_def target_slots_def split: option.splits)
  note eqs = eqs this
  have "eg_num_pages (resize_caches g e) = target_pages e (ge_pages g)" "eg_swa_override (resize_caches g e) = target_window e (ge_swa g)"
    by (simp_all add: target_pages_def target_window_def)
  note eqs = eqs this resize_fields(5)
  show ?thesis unfolding footprint_def eqs
    by (cases "eg_pool e"; cases "ge_pages g"; cases "ge_swa g")
      (simp_all only: rebuild_from_config.simps kv_pool.case if_True if_False option.distinct simp_thms)
qed

lemma dsv4_no_state:
  assumes "sized e" "check_slots e ns = None" "eg_pool e = Dsv4Pool c s"
  shows "target_slots e ns = None"
  using assms by (cases ns; cases "eg_state_slots e") (auto simp: sized_def check_slots_def target_slots_def)

lemma fit_iff:
  assumes "check_moe e (ge_moe g) = None" "sized e" "check_slots e (ge_mamba g) = None"
  shows "fit_check ac e g = None \<longleftrightarrow> \<not> below_floor g e \<and> footprint ac (resize_caches g e) \<le> ac_ratio_bytes ac - ac_weights ac"
proof (cases "eg_pool e")
  case (Dsv4Pool c s)
  have n: "below_floor g e \<longleftrightarrow> (\<exists>n. ge_pages g = Some n \<and> n < dsv4_window_floor_pages c (da_window_size (dc_args c)))"
    by (simp add: below_floor_def Dsv4Pool)
  show ?thesis unfolding resize_footprint[OF assms] n
    using dsv4_no_state[OF assms(2,3) Dsv4Pool]
    by (cases "ge_pages g") (simp_all add: fit_check_def Dsv4Pool dsv4_validate_rebuild_def Let_def net_cache_budget_bytes_def not_less)
qed (simp_all add: resize_footprint[OF assms] fit_check_def base_validate_rebuild_def below_floor_def required_bytes_def net_cache_budget_bytes_def
    Let_def split_beta not_less algebra_simps split: option.splits)

lemma resize_moe_fields [simp]:
  "mo_num_experts (resize_moe n c) = mo_num_experts c" "mo_max_slots (resize_moe n c) = mo_max_slots c"
  "mo_marlin (resize_moe n c) = mo_marlin c" "mo_cache_size (resize_moe n c) = n"
  "mo_prefill_overlap (resize_moe n c) \<longleftrightarrow> mo_prefill_overlap c \<and> 2 * mo_num_experts c \<le> n"
  by (simp_all add: resize_moe_def)

lemma validate_resize [simp]: "validate_moe (resize_moe n c) m = validate_moe c m"
  unfolding validate_moe_def resize_moe_fields by (rule refl)

lemma naive_window_ge: "(swc_max_running c + 1) * (swc_window c + swc_max_forward_len c + 1) \<le> naive_swa_num_tokens c"
  unfolding naive_swa_num_tokens_def align_ceil_def by (intro mult_le_mono2 div_ceil_ge) simp

lemma swa_tokens_above: "swa_pool_floor c < swa_paged_num_tokens c n t"
  by (cases t) (simp_all add: swa_paged_num_tokens_def le_imp_less_Suc)

lemma config_sizes:
  assumes "rings_ok (dc_args c)" "dc_force_small_pool c = None" "dsv4_window_floor_pages c (da_window_size (dc_args c)) \<le> n + 1"
  shows "window_ok (Dsv4Pool c (the (config_pool_sizes c (n + 1) t))) n"
    and "\<forall>w. t = Some w \<longrightarrow> ds_win_pages (the (config_pool_sizes c (n + 1) t)) =
      min (n + 1) (max (dsv4_window_floor_pages c (da_window_size (dc_args c))) (w + 1))"
  using assms by (auto simp: config_pool_sizes_def pool_sizes_cases Let_def split: option.split)

lemma window_resize:
  assumes "sized e" "\<not> below_floor g e" "check_window e (ge_swa g) = None"
  shows "window_ok (eg_pool (resize_caches g e)) (eg_num_pages (resize_caches g e))"
    and "\<not> (ge_pages g = None \<and> ge_swa g = None) \<longrightarrow>
      window_granted (eg_pool (resize_caches g e)) (eg_num_pages (resize_caches g e)) (eg_swa_override (resize_caches g e))"
proof -
  let ?n = "target_pages e (ge_pages g)" and ?t = "target_window e (ge_swa g)"
  have num: "eg_num_pages (resize_caches g e) = ?n" "eg_swa_override (resize_caches g e) = ?t"
    by (simp_all add: target_pages_def target_window_def)
  have pin: "?t = None \<or> supports_swa_ratio (eg_pool e)"
    using assms(1,3) by (auto simp: target_window_def check_window_def sized_def split: option.splits if_splits)
  have ok: "window_ok (eg_pool e) (eg_num_pages e)" using assms(1) by (simp add: sized_def)
  have "window_ok (rebuild_from_config (eg_pool e) ?n ?t) ?n \<and> window_granted (rebuild_from_config (eg_pool e) ?n ?t) ?n ?t"
  proof (cases "eg_pool e")
    case (Dsv4Pool c s)
    have "dsv4_window_floor_pages c (da_window_size (dc_args c)) \<le> ?n + 1"
      using ok assms(2) Dsv4Pool by (auto simp: target_pages_def below_floor_def Let_def not_less split: option.split)
    with config_sizes[of c ?n ?t] ok show ?thesis by (simp add: Dsv4Pool Let_def)
  next
    case (NaiveSwaPool c n)
    then show ?thesis using pin unfolding NaiveSwaPool rebuild_from_config.simps window_ok.simps using naive_window_ge by simp
  next
    case (RadixSwaPool c n)
    have "\<forall>w. ?t = Some w \<longrightarrow> swa_paged_num_tokens c (?n + 1) ?t = max (swa_pool_floor c) w + 1" by (simp add: swa_paged_num_tokens_def)
    then show ?thesis unfolding RadixSwaPool rebuild_from_config.simps window_ok.simps window_granted.simps using swa_tokens_above by blast
  qed (use pin in simp)
  then show "window_ok (eg_pool (resize_caches g e)) (eg_num_pages (resize_caches g e))"
    "\<not> (ge_pages g = None \<and> ge_swa g = None) \<longrightarrow>
      window_granted (eg_pool (resize_caches g e)) (eg_num_pages (resize_caches g e)) (eg_swa_override (resize_caches g e))"
    using ok unfolding num by (auto simp: target_pages_def)
qed

lemma supports_rebuild [simp]: "supports_swa_ratio (rebuild_from_config p n t) = supports_swa_ratio p"
  by (cases p) simp_all

lemma rebuild_dsv4: "(\<exists>c s. rebuild_from_config p n t = Dsv4Pool c s) = (\<exists>c s. p = Dsv4Pool c s)"
  by (cases p) simp_all

lemma sized_resize:
  assumes "sized e" "check_moe e (ge_moe g) = None" "check_pages (ge_pages g) = None" "check_slots e (ge_mamba g) = None" "check_window e (ge_swa g) = None"
    and "\<not> below_floor g e"
  shows "sized (resize_caches g e)"
proof -
  have "0 < eg_num_pages (resize_caches g e)" using assms(1,3) by (auto simp: sized_def check_pages_def split: option.splits nat.splits)
  moreover have "validate_moe c (mo_cache_size c) = None \<and> (mo_prefill_overlap c \<longrightarrow> 2 * mo_num_experts c \<le> mo_cache_size c)"
    if "eg_moe (resize_caches g e) = Some c" for c
  proof (cases "ge_moe g")
    case None
    with that assms(1) show ?thesis by (simp add: sized_def)
  next
    case (Some n)
    with that obtain c0 where c0: "eg_moe e = Some c0" "c = resize_moe n c0" by auto
    with Some assms(2) show ?thesis by (simp add: check_moe_def)
  qed
  moreover have "linear_pool_min_slots (resize_caches g e) \<le> n" if "eg_state_slots (resize_caches g e) = Some n" for n
    using that assms(1,4) by (auto simp: sized_def check_slots_def linear_pool_min_slots_def split: option.splits if_splits)
  moreover have "eg_pool (resize_caches g e) \<noteq> Dsv4Pool c s" if st: "eg_state_slots (resize_caches g e) = Some n" for n c s
  proof -
    obtain k where k: "eg_state_slots e = Some k"
      using st assms(4) by (cases "ge_mamba g") (auto simp: check_slots_def split: option.splits)
    then have "\<nexists>c s. eg_pool e = Dsv4Pool c s" using assms(1) by (simp add: sized_def)
    then show ?thesis using rebuild_dsv4[of "eg_pool e"] by (auto split: if_splits)
  qed
  moreover have "supports_swa_ratio (eg_pool (resize_caches g e)) \<and> 0 < n" if "eg_swa_override (resize_caches g e) = Some n" for n
    using that assms(1,5) by (auto simp: sized_def check_window_def split: option.splits if_splits)
  ultimately show ?thesis using window_resize(1)[OF assms(1,6,5)] unfolding sized_def by blast
qed

text \<open>A request is unanswerable when it names a cache the engine does not have.\<close>

definition names_missing :: "geometry \<Rightarrow> engine_caches \<Rightarrow> bool" where
  "names_missing g e \<longleftrightarrow> ge_moe g \<noteq> None \<and> eg_moe e = None \<or> ge_mamba g \<noteq> None \<and> eg_state_slots e = None \<or>
     ge_swa g \<noteq> None \<and> \<not> supports_swa_ratio (eg_pool e)"

lemma check_moe_reject:
  "check_moe e (ge_moe g) = Some r \<Longrightarrow> names_missing g e \<or> \<not> sized (resize_caches g e)"
  by (cases "ge_moe g"; cases "eg_moe e") (simp_all add: check_moe_def names_missing_def sized_def)

lemma check_pages_reject: "check_pages (ge_pages g) = Some r \<Longrightarrow> \<not> sized (resize_caches g e)"
  by (simp add: check_pages_def sized_def split: option.splits nat.splits)

lemma check_slots_reject:
  "check_slots e (ge_mamba g) = Some r \<Longrightarrow> names_missing g e \<or> \<not> sized (resize_caches g e)"
  by (cases "ge_mamba g"; cases "eg_state_slots e")
    (auto simp: check_slots_def names_missing_def sized_def linear_pool_min_slots_def split: if_splits)

lemma check_window_reject:
  "check_window e (ge_swa g) = Some r \<Longrightarrow> names_missing g e \<or> \<not> sized (resize_caches g e)"
  by (cases "ge_swa g") (auto simp: check_window_def names_missing_def sized_def split: if_splits)

text \<open>C7: A runtime resize keeps the engine runnable. When it is granted, the expert slots, pages and state slots asked for
  are the ones in force and the others are untouched; a window pin asked for is the one in force, and the window is the
  pin raised to the floor of its pool (and kept within a DSV4 pool), plus the padding slot or page; all floors and limits
  still hold (expert slots between the layer's experts and the kernel's limits, at least one page, a state slot for every
  running request, a window for the working set of all running requests), and all caches together fit the memory account.
  It is refused, before anything is freed, only when it names a cache the engine lacks, or asks a DSV4 pool for fewer pages
  than its working-set floor, or the resized engine would break a floor or a limit, or would not fit the account.\<close>

theorem rebuild_keeps_runnable:
  assumes "sized e"
  shows "(\<forall>e'. rebuild_runtime_cache ac g e = Inr e' \<longrightarrow> sized e' \<and> granted g e e' \<and>
        (e' = e \<or> footprint ac e' \<le> ac_ratio_bytes ac - ac_weights ac)) \<and>
    (\<forall>r. rebuild_runtime_cache ac g e = Inl r \<longrightarrow> names_missing g e \<or> below_floor g e \<or> \<not> sized (resize_caches g e) \<or>
        ac_ratio_bytes ac - ac_weights ac < footprint ac (resize_caches g e))"
proof (intro conjI allI impI)
  fix e' assume r: "rebuild_runtime_cache ac g e = Inr e'"
  have "sized e' \<and> granted g e e' \<and> (e' = e \<or> footprint ac e' \<le> ac_ratio_bytes ac - ac_weights ac)"
  proof (cases "ge_moe g = None \<and> ge_pages g = None \<and> ge_mamba g = None \<and> ge_swa g = None")
    case True
    with r assms show ?thesis by (simp add: rebuild_runtime_cache_def granted_def)
  next
    case False
    from rebuild_Inr[OF r False] have c: "e' = resize_caches g e" "check_moe e (ge_moe g) = None" "check_pages (ge_pages g) = None"
      "check_slots e (ge_mamba g) = None" "check_window e (ge_swa g) = None" "fit_check ac e g = None" by simp_all
    from fit_iff[OF c(2) assms c(4), of ac] c(6) have f: "\<not> below_floor g e" "footprint ac e' \<le> ac_ratio_bytes ac - ac_weights ac"
      using c(1) by simp_all
    have "map_option mo_cache_size (eg_moe e') = (case ge_moe g of None \<Rightarrow> map_option mo_cache_size (eg_moe e) | Some n \<Rightarrow> Some n)"
      using c(1,2) by (auto simp: check_moe_def split: option.splits)
    with window_resize(2)[OF assms f(1) c(5)] have "granted g e e'" unfolding granted_def c(1) by auto
    with sized_resize[OF assms c(2-5) f(1)] f(2) c(1) show ?thesis by simp
  qed
  then show "sized e'" "granted g e e'" "e' = e \<or> footprint ac e' \<le> ac_ratio_bytes ac - ac_weights ac" by simp_all
next
  fix r assume "rebuild_runtime_cache ac g e = Inl r"
  then consider "check_moe e (ge_moe g) = Some r" | "check_pages (ge_pages g) = Some r" | "check_slots e (ge_mamba g) = Some r"
    | "check_window e (ge_swa g) = Some r" | "check_moe e (ge_moe g) = None" "check_slots e (ge_mamba g) = None" "fit_check ac e g = Some r"
    by (auto simp: rebuild_runtime_cache_def split: if_splits option.splits)
  then show "names_missing g e \<or> below_floor g e \<or> \<not> sized (resize_caches g e) \<or> ac_ratio_bytes ac - ac_weights ac < footprint ac (resize_caches g e)"
    using check_moe_reject[of e g r] check_pages_reject[of g r e] check_slots_reject[of e g r] check_window_reject[of e g r]
      fit_iff[of e g ac, OF _ assms] by cases auto
qed

section \<open>The engine gives the scheduler a deployment\<close>

text \<open>The engine's request of batch padding.\<close>

definition dummy_request :: "engine_caches \<Rightarrow> sampling_params \<Rightarrow> cache_handle \<Rightarrow> req option" where
  "dummy_request e sp hdl = new_req False [0] (int (eg_max_running e)) 0 1 (- 1) sp hdl"

text \<open>The engines a start and any number of granted resizes can leave.\<close>

inductive built :: "account \<Rightarrow> engine_caches \<Rightarrow> engine_caches \<Rightarrow> bool" for ac e0 where
  started: "built ac e0 (init_seq_state e0)"
| resized: "built ac e0 e \<Longrightarrow> rebuild_runtime_cache ac g e = Inr e' \<Longrightarrow> built ac e0 e'"

inductive_simps built_from: "built ac e0 e"

text \<open>The page table fits the geometry: right shape, right length limit, the dummy row on the dummy page.\<close>

definition seq_state_ok :: "engine_caches \<Rightarrow> bool" where
  "seq_state_ok e \<longleftrightarrow> eg_max_seq_len e = min (eg_cfg_max_seq_len e) (eg_num_pages e * eg_page_size e) \<and>
     length (eg_page_table e) = eg_max_running e + 1 \<and>
     (\<forall>row\<in>set (eg_page_table e). length row = page_table_width (eg_max_seq_len e) (eg_page_size e)) \<and>
     eg_page_table e ! eg_max_running e = replicate (page_table_width (eg_max_seq_len e) (eg_page_size e)) (int (eg_num_pages e * eg_page_size e))"

lemma point_dummy_ok:
  assumes "length (eg_page_table e) = eg_max_running e + 1"
    and "\<forall>row\<in>set (eg_page_table e). length row = page_table_width (eg_max_seq_len e) (eg_page_size e)"
    and "eg_max_seq_len e = min (eg_cfg_max_seq_len e) (eg_num_pages e * eg_page_size e)"
  shows "seq_state_ok (point_dummy e)"
proof -
  have "length (eg_page_table e ! eg_max_running e) = page_table_width (eg_max_seq_len e) (eg_page_size e)"
    using assms(1,2) by simp
  moreover from this have "\<forall>row\<in>set (eg_page_table (point_dummy e)). length row = page_table_width (eg_max_seq_len e) (eg_page_size e)"
    using assms(2) by (auto simp: point_dummy_def dest!: subsetD[OF set_update_subset_insert])
  ultimately show ?thesis using assms(1,3) by (simp add: seq_state_ok_def point_dummy_def)
qed

lemma zeros_shape: "length (zeros r c) = r" "row \<in> set (zeros r c) \<Longrightarrow> length row = c"
  by (auto simp: zeros_def)

lemma init_seq_ok: "seq_state_ok (init_seq_state e)"
  unfolding init_seq_state_def Let_def by (rule point_dummy_ok) (auto simp: zeros_shape)

lemma refresh_seq_ok:
  assumes "length (eg_page_table e) = eg_max_running e + 1" "\<forall>row\<in>set (eg_page_table e). length row = W"
  shows "seq_state_ok (refresh_seq_state e)"
proof -
  have "length (hd (eg_page_table e)) = W" using assms by (cases "eg_page_table e") auto
  with assms show ?thesis unfolding refresh_seq_state_def Let_def by (intro point_dummy_ok) (auto simp: zeros_shape split: if_splits)
qed

lemma resize_seq_ok: "seq_state_ok e \<Longrightarrow> seq_state_ok (resize_caches g e)"
  unfolding resize_caches_def Let_def
  by (rule refresh_seq_ok[where W = "page_table_width (eg_max_seq_len e) (eg_page_size e)"]) (auto simp: seq_state_ok_def split: option.splits)

lemma init_fields:
  "eg_page_size (init_seq_state e) = eg_page_size e" "eg_cfg_max_seq_len (init_seq_state e) = eg_cfg_max_seq_len e"
  "eg_max_running (init_seq_state e) = eg_max_running e"
  by (simp_all add: init_seq_state_def point_dummy_def Let_def)

lemma sized_init: "sized (init_seq_state e) = sized e"
  unfolding sized_def linear_pool_min_slots_def by (simp add: init_seq_state_def point_dummy_def Let_def)

lemma built_ok:
  assumes "built ac e0 e" "sized e0"
  shows "sized e \<and> seq_state_ok e \<and> eg_page_size e = eg_page_size e0 \<and> eg_cfg_max_seq_len e = eg_cfg_max_seq_len e0 \<and> eg_max_running e = eg_max_running e0"
  using assms
proof induction
  case started
  then show ?case using init_seq_ok[of e0] by (simp add: sized_init init_fields)
next
  case (resized e g e')
  show ?case
  proof (cases "ge_moe g = None \<and> ge_pages g = None \<and> ge_mamba g = None \<and> ge_swa g = None")
    case True
    with resized show ?thesis by (simp add: rebuild_runtime_cache_def)
  next
    case False
    note r = rebuild_Inr[OF resized(2) False] and e = resized(3)[OF resized(4)]
    then have "\<not> below_floor g e" using fit_iff[of e g ac] by simp
    with r e sized_resize[of e g] resize_seq_ok[of e g] show ?thesis by simp
  qed
qed

lemma page_table_width_pos: "0 < n \<Longrightarrow> 0 < ps \<Longrightarrow> 1 \<le> page_table_width n ps"
  using page_ceil_ge[of ps n] page_table_width_ge[of ps n] by simp

text \<open>C6: After start-up and any sequence of granted resizes, the page table the engine hands to the scheduler fits the
  geometry in force: a row for every running request and the dummy one, every row wide enough for the longest request in
  whole pages, a length limit within the KV slots, the dummy row on the dummy page. So it is a deployment in the sense of
  the scheduler's guarantees.\<close>

theorem engine_deployment:
  assumes "built ac e0 e" "sized e0" "0 < eg_page_size e0" "0 < eg_cfg_max_seq_len e0" "ty = TNaive \<or> ty = TRadix"
    and "en_max_seq_len env = eg_max_seq_len e" "dummy_request e sp hdl = Some (en_dummy env)"
  shows "deployment env (eg_num_pages e) (eg_page_size e) (eg_page_table e) ty (eg_max_running e) \<and>
    0 < eg_max_seq_len e \<and> eg_max_seq_len e \<le> eg_num_pages e * eg_page_size e \<and>
    set (eg_page_table e ! eg_max_running e) = {int (eg_num_pages e * eg_page_size e)}"
proof -
  from built_ok[OF assms(1,2)] have b: "sized e" "seq_state_ok e" "0 < eg_page_size e" "0 < eg_cfg_max_seq_len e" using assms(3,4) by simp_all
  then have p: "0 < eg_num_pages e" "0 < eg_max_seq_len e" "eg_max_seq_len e \<le> eg_num_pages e * eg_page_size e"
    by (simp_all add: sized_def seq_state_ok_def)
  define W where "W = page_table_width (eg_max_seq_len e) (eg_page_size e)"
  have W: "page_ceil (eg_page_size e) (eg_max_seq_len e) \<le> W" "1 \<le> W"
    using page_table_width_ge[OF b(3)] page_table_width_pos[OF p(2) b(3)] by (simp_all add: W_def)
  have d: "rq_mm_items (en_dummy env) = []" "rq_table_idx (en_dummy env) = int (eg_max_running e)" "rq_device_len (en_dummy env) = 1"
    using arg_cong[OF assms(7), of "rq_mm_items \<circ> the"] arg_cong[OF assms(7), of "rq_table_idx \<circ> the"] arg_cong[OF assms(7), of "rq_device_len \<circ> the"]
    by (simp_all add: dummy_request_def new_req_def py_assert_def)
  have s: "length (eg_page_table e) = eg_max_running e + 1" "\<forall>row\<in>set (eg_page_table e). length row = W"
    "eg_page_table e ! eg_max_running e = replicate W (int (eg_num_pages e * eg_page_size e))"
    using b(2) unfolding W_def by (simp_all add: seq_state_ok_def)
  have "env_ok env W (length (eg_page_table e)) (eg_page_size e)" using W d s(1) assms(6) by (simp add: env_ok_def)
  then have "deployment env (eg_num_pages e) (eg_page_size e) (eg_page_table e) ty (eg_max_running e)"
    unfolding deployment_def using b(3) assms(5) s(1,2) by auto
  with p s(3) W(2) show ?thesis by (simp add: set_replicate_conv_if)
qed

text \<open>A small engine: eight experts a layer with sixteen slots on the Marlin kernel, a linear-attention state pool, pages
  of four tokens, two running requests.\<close>

definition small_engine :: engine_caches where
  "small_engine = \<lparr>eg_cfg_max_seq_len = 64, eg_page_size = 4, eg_max_running = 2, eg_hybrid_radix = False, eg_pool = FullPool,
     eg_num_pages = 6, eg_swa_override = None,
     eg_moe = Some \<lparr>mo_num_experts = 8, mo_cache_size = 16, mo_max_slots = None, mo_marlin = True, mo_prefill_overlap = True\<rparr>,
     eg_state_slots = Some 5, eg_max_seq_len = 0, eg_page_table = []\<rparr>"

definition small_account :: account where
  "small_account = \<lparr>ac_ratio_bytes = 1000, ac_weights = 300, ac_expert_bytes = 20, ac_slot_bytes = 10, ac_kv_cost = (\<lambda>_. (12, 50))\<rparr>"

definition ask :: "nat option \<Rightarrow> nat option \<Rightarrow> geometry" where
  "ask moe pages = \<lparr>ge_moe = moe, ge_pages = pages, ge_mamba = None, ge_swa = None\<rparr>"

lemma small_sized: "sized small_engine"
  by (auto simp: sized_def small_engine_def validate_moe_def marlin_max_cache_size_def linear_pool_min_slots_def)

lemma small_grant: "rebuild_runtime_cache small_account (ask (Some 12) (Some 20)) (init_seq_state small_engine) =
    Inr (resize_caches (ask (Some 12) (Some 20)) (init_seq_state small_engine))"
  by (simp add: rebuild_runtime_cache_def ask_def check_moe_def check_pages_def check_slots_def check_window_def fit_check_def base_validate_rebuild_def target_pages_def small_engine_def
      small_account_def init_seq_state_def point_dummy_def Let_def validate_moe_def marlin_max_cache_size_def target_moe_def target_slots_def
      target_window_def net_cache_budget_bytes_def required_bytes_def)

theorem rebuild_keeps_runnable_witness:
  "\<exists>e'. rebuild_runtime_cache small_account (ask (Some 12) (Some 20)) (init_seq_state small_engine) = Inr e' \<and> sized e' \<and>
     granted (ask (Some 12) (Some 20)) (init_seq_state small_engine) e' \<and> footprint small_account e' \<le> 700 \<and>
     rebuild_runtime_cache small_account (ask (Some 1000) None) (init_seq_state small_engine) = Inl (MoeAboveMarlin 1000)"
proof -
  have s: "sized (init_seq_state small_engine)" by (simp only: sized_init small_sized)
  let ?e = "resize_caches (ask (Some 12) (Some 20)) (init_seq_state small_engine)"
  from rebuild_keeps_runnable[OF s, of small_account "ask (Some 12) (Some 20)"] small_grant
  have r: "sized ?e \<and> granted (ask (Some 12) (Some 20)) (init_seq_state small_engine) ?e \<and>
    (?e = init_seq_state small_engine \<or> footprint small_account ?e \<le> ac_ratio_bytes small_account - ac_weights small_account)" by blast
  have "eg_num_pages ?e \<noteq> eg_num_pages (init_seq_state small_engine)"
    by (simp add: ask_def small_engine_def init_seq_state_def point_dummy_def Let_def)
  then have n: "?e \<noteq> init_seq_state small_engine" by metis
  have "rebuild_runtime_cache small_account (ask (Some 1000) None) (init_seq_state small_engine) = Inl (MoeAboveMarlin 1000)"
    by (simp add: rebuild_runtime_cache_def ask_def check_moe_def small_engine_def init_seq_state_def point_dummy_def Let_def validate_moe_def
        marlin_max_cache_size_def)
  with r n small_grant show ?thesis by (simp add: small_account_def)
qed

definition small_params :: sampling_params where
  "small_params = \<lparr>smp_temperature = 0, smp_top_k = -1, smp_top_p = 1, smp_ignore_eos = False, smp_max_tokens = 3, smp_stop_strs = []\<rparr>"

definition small_env :: "engine_caches \<Rightarrow> env" where
  "small_env e = \<lparr>en_eos = [99], en_anchor = None, en_max_seq_len = eg_max_seq_len e, en_max_extend = 6, en_tp_size = 1, en_mrope = False,
     en_bidirectional = False, en_interval = 4, en_supports_rebuild = False,
     en_dummy = the (dummy_request e small_params HNaive),
     en_padding = (\<lambda>_. 0), en_decode = (\<lambda>_. []), en_encode = (\<lambda>_. []), en_gpu_mem = 0, en_clk = int\<rparr>"

theorem engine_deployment_witness:
  "\<exists>e. built small_account small_engine e \<and> eg_num_pages e = 20 \<and> deployment (small_env e) 20 4 (eg_page_table e) TRadix 2 \<and>
     set (eg_page_table e ! 2) = {80}"
proof -
  let ?e = "resize_caches (ask (Some 12) (Some 20)) (init_seq_state small_engine)"
  have b: "built small_account small_engine ?e" by (rule built.resized[OF built.started small_grant])
  have f: "eg_num_pages ?e = 20" "eg_page_size ?e = 4" "eg_max_running ?e = 2"
    by (simp_all add: ask_def small_engine_def init_seq_state_def point_dummy_def Let_def)
  have d: "dummy_request ?e small_params HNaive = Some (en_dummy (small_env ?e))"
    by (simp add: small_env_def dummy_request_def new_req_def py_assert_def)
  have "deployment (small_env ?e) (eg_num_pages ?e) (eg_page_size ?e) (eg_page_table ?e) TRadix (eg_max_running ?e) \<and>
    0 < eg_max_seq_len ?e \<and> eg_max_seq_len ?e \<le> eg_num_pages ?e * eg_page_size ?e \<and>
    set (eg_page_table ?e ! eg_max_running ?e) = {int (eg_num_pages ?e * eg_page_size ?e)}"
    by (rule engine_deployment[OF b small_sized _ _ _ _ d]) (simp_all add: small_engine_def small_env_def)
  with b f show ?thesis by auto
qed

end
