(* ===== verification/ExpertCache.thy ===== *)
theory ExpertCache
  imports Prelude "HOL-Library.Monad_Syntax" "HOL-Library.Product_Lexorder"
begin

text \<open>
  The GPU slot cache for offloaded experts: \<^verbatim>\<open>moe/offload_cache.py\<close> with the hybrid backend's reference routine of
  \<^verbatim>\<open>moe/offload_kernels.py\<close>, and its two clients in \<^verbatim>\<open>layers/moe.py\<close>, the hybrid decode and the prefill. An expert of a
  layer has the flat id \<open>layer * num_experts + expert\<close>; \<open>slot_for_id\<close> and \<open>id_of_slot\<close> map between ids and slots. Tensors
  are lists, a bank row is any value. Streams and events only order the copies, and here they run in that order; the
  kernels that move rows copy the rows they are given. The \<open>gpu\<close> target decodes through a third-party slot cache and is
  not modelled.
\<close>

section \<open>The state\<close>

text \<open>A bank: its host rows by layer and expert, its slot rows, and whether its rows are too small for the hit gather.\<close>

record 'w bank =
  bk_small :: bool
  bk_source :: "'w list list"
  bk_rows :: "'w list"

record 'w expert_cache =
  xc_layers :: nat
  xc_experts :: nat
  xc_size :: nat
  xc_overlap :: bool
  xc_hit_d2d :: bool
  xc_by_recency :: bool
  xc_unpinned :: "nat set"
  xc_cpu_layers :: "nat set"
  xc_banks :: "'w bank list"
  xc_slot_for_id :: "int list"
  xc_id_of_slot :: "int list"
  xc_usage :: "nat list"
  xc_step :: nat
  xc_recency :: "int list"
  xc_plan :: "(nat \<times> nat) list"
  xc_missing_full :: nat
  xc_pending_layer :: "nat option"
  xc_pending_whole :: bool
  xc_buffer_layer :: "nat option list"
  xc_released :: "bool list"
  xc_snapshot :: "int list option"
  xc_hit_rows :: nat
  xc_total_rows :: nat

definition flat_id :: "'w expert_cache \<Rightarrow> nat \<Rightarrow> nat \<Rightarrow> nat" where
  "flat_id c layer expert = layer * xc_experts c + expert"

text \<open>\<open>__post_init__\<close> and \<open>set_bank_sources\<close>; \<open>garbage\<close> are the uninitialised slot rows of each
  bank. The kernels' slot limits of \<open>validate_rebuild\<close> are checked by \<open>EngineSizing.validate_moe\<close>.\<close>

definition xc_init ::
  "nat \<Rightarrow> nat \<Rightarrow> nat \<Rightarrow> bool \<Rightarrow> bool \<Rightarrow> bool \<Rightarrow> nat set \<Rightarrow> nat set \<Rightarrow> (bool \<times> 'w list list \<times> 'w list) list \<Rightarrow> 'w expert_cache option" where
  "xc_init num_layers num_experts cache_size overlap hit_d2d by_recency unpinned cpu_layers sources = do {
     _ \<leftarrow> py_assert (num_experts \<le> cache_size \<and> (overlap \<longrightarrow> 2 * num_experts \<le> cache_size));
     _ \<leftarrow> py_assert (unpinned \<subseteq> cpu_layers \<and> (overlap \<longrightarrow> unpinned = {}));
     _ \<leftarrow> py_assert (list_all (\<lambda>(small, src, garbage). length src = num_layers \<and> list_all (\<lambda>rows. length rows = num_experts) src \<and>
                        length garbage = cache_size) sources);
     Some \<lparr>xc_layers = num_layers, xc_experts = num_experts, xc_size = cache_size, xc_overlap = overlap, xc_hit_d2d = hit_d2d,
       xc_by_recency = by_recency, xc_unpinned = unpinned, xc_cpu_layers = cpu_layers,
       xc_banks = map (\<lambda>(small, src, garbage). \<lparr>bk_small = small, bk_source = src, bk_rows = garbage\<rparr>) sources,
       xc_slot_for_id = replicate (num_layers * num_experts) (- 1), xc_id_of_slot = replicate cache_size (- 1),
       xc_usage = replicate cache_size 0, xc_step = 0, xc_recency = replicate (num_layers * num_experts) (- 1), xc_plan = [],
       xc_missing_full = 0, xc_pending_layer = None, xc_pending_whole = False, xc_buffer_layer = [None, None], xc_released = [True, True],
       xc_snapshot = None, xc_hit_rows = 0, xc_total_rows = 0\<rparr> }"

section \<open>Making experts resident\<close>

text \<open>The distinct experts of a routing, in the order they appear.\<close>

definition first_seen :: "nat list \<Rightarrow> nat list" where
  "first_seen ids = foldl (\<lambda>seen e. if e \<in> set seen then seen else seen @ [e]) [] ids"

text \<open>How many misses a step fetches: a fixed cap, or the integer that balances fetch and CPU time; \<open>frac\<close> is in units of
  \<open>2 ^ -16\<close>.\<close>

definition overlap_cost :: "nat \<Rightarrow> nat \<Rightarrow> int \<Rightarrow> int" where
  "overlap_cost m frac f = max (f * (65536 - int frac)) ((int m - f) * int frac)"

definition fetch_cap :: "nat \<Rightarrow> nat \<Rightarrow> nat \<Rightarrow> nat" where
  "fetch_cap max_fetch frac m =
     (if 0 < frac
      then (let lo = (m * frac) div 65536 in if overlap_cost m frac (int lo) \<le> overlap_cost m frac (int lo + 1) then lo else lo + 1)
      else max_fetch)"

text \<open>The hits are used now.\<close>

definition touch_hits :: "'w expert_cache \<Rightarrow> nat \<Rightarrow> nat list \<Rightarrow> nat list" where
  "touch_hits c layer seen =
     (let step = xc_step c
      in foldl (\<lambda>usage e. let slot = xc_slot_for_id c ! flat_id c layer e in if slot \<noteq> - 1 then usage[nat slot := step] else usage) (xc_usage c) seen)"

text \<open>The slot of the least recent use, the lowest one of them.\<close>

definition victim_slot :: "nat list \<Rightarrow> nat" where
  "victim_slot usage = arg_min_list (\<lambda>s. (usage ! s, s)) [0..<length usage]"

definition fetch_one :: "nat \<Rightarrow> 'w expert_cache \<Rightarrow> nat \<Rightarrow> 'w expert_cache" where
  "fetch_one layer c expert =
     (let victim = victim_slot (xc_usage c);
          old_id = xc_id_of_slot c ! victim;
          slots = (if 0 \<le> old_id then (xc_slot_for_id c)[nat old_id := - 1] else xc_slot_for_id c)
      in c\<lparr>xc_id_of_slot := (xc_id_of_slot c)[victim := int (flat_id c layer expert)],
           xc_slot_for_id := slots[flat_id c layer expert := int victim],
           xc_usage := (xc_usage c)[victim := xc_step c],
           xc_plan := xc_plan c @ [(victim, expert)]\<rparr>)"

text \<open>The misses in the order they are fetched: the recently active first, or the lowest first.\<close>

definition fetch_order :: "'w expert_cache \<Rightarrow> nat \<Rightarrow> nat list \<Rightarrow> nat list" where
  "fetch_order c layer missing =
     (if xc_by_recency c then sort_key (\<lambda>e. (- (xc_recency c ! flat_id c layer e), e)) missing else sort missing)"

definition note_active :: "nat \<Rightarrow> nat list \<Rightarrow> 'w expert_cache \<Rightarrow> 'w expert_cache" where
  "note_active layer seen c =
     (if xc_by_recency c
      then c\<lparr>xc_recency := foldl (\<lambda>rec e. rec[flat_id c layer e := int (xc_step c)]) (xc_recency c) seen\<rparr> else c)"

text \<open>\<open>ensure_experts_hybrid\<close>: the routing with experts replaced by slots, \<open>- 1\<close> for those the CPU computes.\<close>

definition ensure_experts_hybrid :: "nat \<Rightarrow> nat \<Rightarrow> nat \<Rightarrow> nat list \<Rightarrow> 'w expert_cache \<Rightarrow> (int list \<times> 'w expert_cache) option" where
  "ensure_experts_hybrid max_fetch frac layer ids c = do {
     _ \<leftarrow> py_assert (layer < xc_layers c \<and> list_all (\<lambda>e. e < xc_experts c) ids);
     let seen = first_seen ids;
     let c = c\<lparr>xc_step := xc_step c + 1, xc_pending_layer := Some layer, xc_pending_whole := False\<rparr>;
     let c = c\<lparr>xc_usage := touch_hits c layer seen\<rparr>;
     let missing = filter (\<lambda>e. xc_slot_for_id c ! flat_id c layer e = - 1) seen;
     let num_fetch = min (length missing) (fetch_cap max_fetch frac (length missing));
     let c = c\<lparr>xc_missing_full := length missing, xc_plan := []\<rparr>;
     let c = foldl (fetch_one layer) c (take num_fetch (fetch_order c layer missing));
     let c = note_active layer seen c;
     Some (map (\<lambda>e. xc_slot_for_id c ! flat_id c layer e) ids, c) }"

text \<open>\<open>materialize_layer\<close>: the whole layer in the first slots, where a position is its expert.\<close>

definition materialize_layer :: "nat \<Rightarrow> 'w expert_cache \<Rightarrow> 'w expert_cache option" where
  "materialize_layer layer c = do {
     _ \<leftarrow> py_assert (layer < xc_layers c);
     let E = xc_experts c; let base = flat_id c layer 0; let step = xc_step c + 1;
     let same = (\<lambda>s. int base \<le> xc_id_of_slot c ! s \<and> xc_id_of_slot c ! s < int (base + E));
     let slots = foldl (\<lambda>sl s. let old_id = xc_id_of_slot c ! s in if 0 \<le> old_id \<and> \<not> same s then sl[nat old_id := - 1] else sl) (xc_slot_for_id c) [0..<E];
     Some (c\<lparr>xc_step := step, xc_pending_layer := Some layer, xc_pending_whole := True,
       xc_id_of_slot := map (\<lambda>s. if s < E then int (base + s) else if same s then - 1 else xc_id_of_slot c ! s) [0..<xc_size c],
       xc_usage := map (\<lambda>s. if s < E then step else if same s then 0 else xc_usage c ! s) [0..<xc_size c],
       xc_slot_for_id := foldl (\<lambda>sl e. sl[base + e := int e]) slots [0..<E],
       xc_plan := map (\<lambda>e. (e, e)) [0..<E]\<rparr>) }"

section \<open>Moving rows\<close>

definition map_banks :: "('w bank \<Rightarrow> 'w list) \<Rightarrow> 'w expert_cache \<Rightarrow> 'w expert_cache" where
  "map_banks f c = c\<lparr>xc_banks := map (\<lambda>b. b\<lparr>bk_rows := f b\<rparr>) (xc_banks c)\<rparr>"

text \<open>\<open>cache[dst[i]].copy_(source[src[i]])\<close> for a list of pairs.\<close>

definition copy_rows :: "'w list \<Rightarrow> (nat \<times> nat) list \<Rightarrow> 'w list \<Rightarrow> 'w list" where
  "copy_rows source pairs rows = foldl (\<lambda>rows (dst, src). rows[dst := source ! src]) rows pairs"

definition copy_missing :: "'w expert_cache \<Rightarrow> 'w expert_cache option" where
  "copy_missing c = do {
     layer \<leftarrow> xc_pending_layer c;
     if layer \<in> xc_unpinned c
     then do {
       _ \<leftarrow> py_assert (xc_pending_whole c);
       Some (map_banks (\<lambda>b. copy_rows (bk_source b ! layer) (map (\<lambda>e. (e, e)) [0..<xc_experts c]) (bk_rows b)) c) }
     else Some (map_banks (\<lambda>b. copy_rows (bk_source b ! layer) (xc_plan c) (bk_rows b)) c) }"

section \<open>The prefill double buffer\<close>

definition invalidate_prefill_buffer :: "nat \<Rightarrow> 'w expert_cache \<Rightarrow> 'w expert_cache" where
  "invalidate_prefill_buffer buffer_id c =
     (let slot_start = buffer_id * xc_experts c;
          slot_end = slot_start + xc_experts c;
          old_ids = map (\<lambda>s. xc_id_of_slot c ! s) [slot_start..<slot_end]
      in c\<lparr>xc_slot_for_id := foldl (\<lambda>sl i. sl[nat i := - 1]) (xc_slot_for_id c) (filter (\<lambda>i. 0 \<le> i) old_ids),
           xc_id_of_slot := foldl (\<lambda>ids s. ids[s := - 1]) (xc_id_of_slot c) [slot_start..<slot_end],
           xc_usage := foldl (\<lambda>u s. u[s := 0]) (xc_usage c) [slot_start..<slot_end]\<rparr>)"

text \<open>A chunk starts: both buffers are free, and the hit split works on a snapshot of the slot map. \<open>xc_hit_d2d\<close> stands
  for the conditions of \<open>_hit_d2d_usable\<close> on the environment.\<close>

definition begin_prefill :: "'w expert_cache \<Rightarrow> 'w expert_cache" where
  "begin_prefill c =
     (if \<not> xc_overlap c then c
      else c\<lparr>xc_buffer_layer := [None, None], xc_released := [True, True],
             xc_snapshot := (if xc_hit_d2d c \<and> 2 * xc_experts c < xc_size c then Some (xc_slot_for_id c) else None)\<rparr>)"

text \<open>Coalesced runs \<open>(start, length)\<close> of increasing expert ids.\<close>

fun runs :: "nat list \<Rightarrow> (nat \<times> nat) list" where
  "runs [] = []"
| "runs (x # xs) =
     (case runs xs of
        [] \<Rightarrow> [(x, 1)]
      | (start, len) # rest \<Rightarrow> if start = x + 1 then (x, len + 1) # rest else (x, 1) # (start, len) # rest)"

definition run_rows :: "nat \<Rightarrow> (nat \<times> nat) list \<Rightarrow> (nat \<times> nat) list" where
  "run_rows base rs = concat (map (\<lambda>(start, len). map (\<lambda>i. (base + i, i)) [start..<start + len]) rs)"

text \<open>\<open>_prefetch_split\<close>: resident experts are gathered inside the cache, by the live slot map; the others, by the
  snapshot, come from the host in runs. Banks with small rows come whole.\<close>

definition prefetch_split :: "nat \<Rightarrow> nat \<Rightarrow> int list \<Rightarrow> 'w expert_cache \<Rightarrow> 'w expert_cache" where
  "prefetch_split layer buffer_id snapshot c =
     (let E = xc_experts c;
          base = buffer_id * E;
          hit = (\<lambda>slots e. 2 * int E \<le> slots ! flat_id c layer e);
          gather = map (\<lambda>e. (base + e, nat (xc_slot_for_id c ! flat_id c layer e))) (filter (hit (xc_slot_for_id c)) [0..<E]);
          miss = filter (\<lambda>e. \<not> hit snapshot e) [0..<E];
          c = map_banks (\<lambda>b. if bk_small b then bk_rows b else copy_rows (bk_rows b) gather (bk_rows b)) c;
          c = invalidate_prefill_buffer buffer_id c;
          c = map_banks (\<lambda>b. copy_rows (bk_source b ! layer) (if bk_small b then map (\<lambda>e. (base + e, e)) [0..<E] else run_rows base (runs miss)) (bk_rows b)) c
      in c\<lparr>xc_hit_rows := xc_hit_rows c + length (filter (hit snapshot) [0..<E]), xc_total_rows := xc_total_rows c + E\<rparr>)"

definition prefetch_whole :: "nat \<Rightarrow> nat \<Rightarrow> 'w expert_cache \<Rightarrow> 'w expert_cache" where
  "prefetch_whole layer buffer_id c =
     map_banks (\<lambda>b. copy_rows (bk_source b ! layer) (map (\<lambda>e. (buffer_id * xc_experts c + e, e)) [0..<xc_experts c]) (bk_rows b))
       (invalidate_prefill_buffer buffer_id c)"

definition prefetch_prefill_layer :: "nat \<Rightarrow> 'w expert_cache \<Rightarrow> 'w expert_cache option" where
  "prefetch_prefill_layer layer c =
     (if \<not> xc_overlap c \<or> xc_layers c \<le> layer then Some c
      else (let buffer_id = layer mod 2
            in if xc_buffer_layer c ! buffer_id = Some layer then Some c
               else do {
                 _ \<leftarrow> py_assert (xc_buffer_layer c ! buffer_id = None \<or> xc_released c ! buffer_id);
                 let c = (case xc_snapshot c of Some snapshot \<Rightarrow> prefetch_split layer buffer_id snapshot c | None \<Rightarrow> prefetch_whole layer buffer_id c);
                 Some (c\<lparr>xc_buffer_layer := (xc_buffer_layer c)[buffer_id := Some layer], xc_released := (xc_released c)[buffer_id := False]\<rparr>) }))"

text \<open>The views of a layer: for each bank the rows by expert.\<close>

definition wait_prefill_layer :: "nat \<Rightarrow> 'w expert_cache \<Rightarrow> ('w list list \<times> 'w expert_cache) option" where
  "wait_prefill_layer layer c = do {
     _ \<leftarrow> py_assert (xc_overlap c);
     c \<leftarrow> prefetch_prefill_layer layer c;
     _ \<leftarrow> py_assert (xc_buffer_layer c ! (layer mod 2) = Some layer);
     Some (map (\<lambda>b. slice (layer mod 2 * xc_experts c) (layer mod 2 * xc_experts c + xc_experts c) (bk_rows b)) (xc_banks c), c) }"

definition release_prefill_layer :: "nat \<Rightarrow> 'w expert_cache \<Rightarrow> 'w expert_cache" where
  "release_prefill_layer layer c =
     (if \<not> xc_overlap c \<or> xc_buffer_layer c ! (layer mod 2) \<noteq> Some layer then c
      else c\<lparr>xc_released := (xc_released c)[layer mod 2 := True]\<rparr>)"

section \<open>Reset and resize\<close>

definition xc_reset :: "'w expert_cache \<Rightarrow> 'w expert_cache" where
  "xc_reset c = c\<lparr>xc_slot_for_id := replicate (xc_layers c * xc_experts c) (- 1), xc_id_of_slot := replicate (xc_size c) (- 1),
     xc_usage := replicate (xc_size c) 0, xc_step := 0, xc_plan := [], xc_recency := replicate (xc_layers c * xc_experts c) (- 1)\<rparr>"

text \<open>\<open>rebuild\<close>, past \<open>validate_rebuild\<close>; \<open>garbage\<close> gives the uninitialised rows of each bank.\<close>

definition xc_rebuild :: "nat \<Rightarrow> ('w bank \<Rightarrow> 'w list) \<Rightarrow> 'w expert_cache \<Rightarrow> 'w expert_cache option" where
  "xc_rebuild cache_size garbage c = do {
     _ \<leftarrow> py_assert (xc_experts c \<le> cache_size);
     _ \<leftarrow> py_assert (\<forall>b\<in>set (xc_banks c). length (garbage b) = cache_size);
     Some (map_banks garbage c\<lparr>xc_size := cache_size, xc_slot_for_id := replicate (xc_layers c * xc_experts c) (- 1),
       xc_id_of_slot := replicate cache_size (- 1), xc_usage := replicate cache_size 0, xc_step := 0, xc_plan := [], xc_missing_full := 0,
       xc_recency := replicate (xc_layers c * xc_experts c) (- 1), xc_buffer_layer := [None, None], xc_released := [True, True],
       xc_hit_rows := 0, xc_total_rows := 0, xc_overlap := xc_overlap c \<and> 2 * xc_experts c \<le> cache_size\<rparr>) }"

section \<open>The clients\<close>

text \<open>What a layer's decode computes where: slots for the GPU, raw ids for the CPU, \<open>- 1\<close> for not here.\<close>

definition decode_routed :: "nat \<Rightarrow> nat \<Rightarrow> nat \<Rightarrow> nat list \<Rightarrow> 'w expert_cache \<Rightarrow> ((int list \<times> int list) \<times> 'w expert_cache) option" where
  "decode_routed max_fetch frac layer ids c =
     (if layer \<in> xc_cpu_layers c then Some ((map (\<lambda>_. - 1) ids, map int ids), c)
      else do {
        (slots, c) \<leftarrow> ensure_experts_hybrid max_fetch frac layer ids c;
        let cpu_ids = map2 (\<lambda>s e. if 0 \<le> s then - 1 else int e) slots ids;
        c \<leftarrow> copy_missing c;
        Some ((slots, cpu_ids), c) })"

text \<open>The views a layer's prefill multiplies with.\<close>

definition prefill_routed :: "nat \<Rightarrow> 'w expert_cache \<Rightarrow> ('w list list \<times> 'w expert_cache) option" where
  "prefill_routed layer c =
     (if xc_overlap c
      then do {
        let c = (if layer = 0 then begin_prefill c else c);
        c \<leftarrow> prefetch_prefill_layer layer c;
        c \<leftarrow> prefetch_prefill_layer (layer + 1) c;
        (views, c) \<leftarrow> wait_prefill_layer layer c;
        Some (views, release_prefill_layer layer c) }
      else do {
        c \<leftarrow> materialize_layer layer c;
        c \<leftarrow> copy_missing c;
        Some (map (\<lambda>b. take (xc_experts c) (bk_rows b)) (xc_banks c), c) })"

fun prefill_pass :: "nat list \<Rightarrow> 'w expert_cache \<Rightarrow> ('w list list list \<times> 'w expert_cache) option" where
  "prefill_pass [] c = Some ([], c)"
| "prefill_pass (layer # rest) c = do {
     (views, c) \<leftarrow> prefill_routed layer c;
     (more, c) \<leftarrow> prefill_pass rest c;
     Some (views # more, c) }"

section \<open>Lists\<close>

lemma foldl_update_length [simp]: "length (foldl (\<lambda>xs i. xs[f i := g i]) xs is) = length xs"
  by (induction "is" arbitrary: xs) auto

lemma foldl_update_nth:
  "j < length xs \<Longrightarrow> foldl (\<lambda>xs i. xs[f i := v]) xs is ! j = (if j \<in> f ` set is then v else xs ! j)"
  by (induction "is" arbitrary: xs) (auto simp: nth_list_update)

lemma foldl_place_nth:
  "j < length xs \<Longrightarrow> foldl (\<lambda>xs e. xs[base + e := int e]) xs [0..<n] ! j = (if base \<le> j \<and> j < base + n then int (j - base) else xs ! j)"
proof (induction n)
  case (Suc n)
  then show ?case by (cases "j = base + n") (auto simp: nth_list_update)
qed simp

lemma copy_rows_length [simp]: "length (copy_rows source pairs rows) = length rows"
  by (induction pairs arbitrary: rows) (auto simp: copy_rows_def split: prod.splits)

lemma copy_rows_Cons: "copy_rows source ((d, s) # pairs) rows = copy_rows source pairs (rows[d := source ! s])"
  by (simp add: copy_rows_def)

lemma copy_rows_other: "x \<notin> fst ` set pairs \<Longrightarrow> copy_rows source pairs rows ! x = rows ! x"
  by (induction pairs arbitrary: rows) (auto simp: copy_rows_Cons, simp add: copy_rows_def)

lemma copy_rows_at:
  "distinct (map fst pairs) \<Longrightarrow> (d, s) \<in> set pairs \<Longrightarrow> d < length rows \<Longrightarrow> copy_rows source pairs rows ! d = source ! s"
proof (induction pairs arbitrary: rows)
  case (Cons p pairs)
  obtain d' s' where p: "p = (d', s')" by force
  show ?case
  proof (cases "(d, s) = p")
    case True
    with Cons.prems p have "d \<notin> fst ` set pairs" by simp
    with True p Cons.prems(3) show ?thesis by (simp add: copy_rows_Cons copy_rows_other)
  next
    case False
    with Cons.prems(2) have "(d, s) \<in> set pairs" by simp
    with Cons.IH[of "rows[d' := source ! s']"] Cons.prems p show ?thesis by (simp add: copy_rows_Cons)
  qed
qed simp

lemma run_rows_runs: "run_rows base (runs xs) = map (\<lambda>e. (base + e, e)) xs"
proof (induction xs)
  case (Cons x xs)
  show ?case
  proof (cases "runs xs")
    case Nil
    with Cons show ?thesis by (simp add: run_rows_def)
  next
    case (Cons r rest)
    obtain start len where r: "r = (start, len)" by force
    have "[x..<x + (len + 1)] = x # [x + 1..<x + 1 + len]" by (simp add: upt_conv_Cons)
    then show ?thesis using Cons Cons.IH r by (auto simp: run_rows_def)
  qed
qed (simp add: run_rows_def)

lemma first_seen_fold:
  "distinct acc \<Longrightarrow> distinct (foldl (\<lambda>seen e. if e \<in> set seen then seen else seen @ [e]) acc ids) \<and>
     set (foldl (\<lambda>seen e. if e \<in> set seen then seen else seen @ [e]) acc ids) = set acc \<union> set ids"
  by (induction ids arbitrary: acc) auto

lemma first_seen [simp]: "distinct (first_seen ids)" "set (first_seen ids) = set ids"
  using first_seen_fold[of "[]" ids] by (simp_all add: first_seen_def)

lemma victim_least:
  assumes "usage \<noteq> []"
  shows "victim_slot usage < length usage \<and> (\<forall>s<length usage. usage ! victim_slot usage \<le> usage ! s)"
proof -
  have ne: "[0..<length usage] \<noteq> []" using assms by simp
  let ?f = "\<lambda>s. (usage ! s, s)"
  from arg_min_list_in[OF ne, of ?f] have "victim_slot usage < length usage" by (simp add: victim_slot_def)
  moreover have "?f (victim_slot usage) \<le> ?f s" if "s < length usage" for s
    unfolding victim_slot_def f_arg_min_list_f[OF ne, of ?f] using that by (intro Min_le) auto
  then have "usage ! victim_slot usage \<le> usage ! s" if "s < length usage" for s
    using that unfolding less_eq_prod_def by force
  ultimately show ?thesis by blast
qed

section \<open>The slot map\<close>

text \<open>The two maps are inverse to each other.\<close>

definition matched :: "int list \<Rightarrow> int list \<Rightarrow> bool" where
  "matched slots ids \<longleftrightarrow>
     (\<forall>s<length ids. \<forall>i<length slots. ids ! s = int i \<longleftrightarrow> slots ! i = int s) \<and>
     (\<forall>s<length ids. ids ! s = - 1 \<or> (\<exists>i<length slots. ids ! s = int i)) \<and>
     (\<forall>i<length slots. slots ! i = - 1 \<or> (\<exists>s<length ids. slots ! i = int s))"

lemma matchedI:
  assumes "\<And>s i. s < length ids \<Longrightarrow> i < length slots \<Longrightarrow> ids ! s = int i \<longleftrightarrow> slots ! i = int s"
    and "\<And>s. s < length ids \<Longrightarrow> ids ! s = - 1 \<or> (\<exists>i<length slots. ids ! s = int i)"
    and "\<And>i. i < length slots \<Longrightarrow> slots ! i = - 1 \<or> (\<exists>s<length ids. slots ! i = int s)"
  shows "matched slots ids"
  using assms unfolding matched_def by blast

lemma matchedD:
  assumes "matched slots ids"
  shows "s < length ids \<Longrightarrow> i < length slots \<Longrightarrow> ids ! s = int i \<longleftrightarrow> slots ! i = int s"
    and "s < length ids \<Longrightarrow> ids ! s = - 1 \<or> (\<exists>i<length slots. ids ! s = int i)"
    and "i < length slots \<Longrightarrow> slots ! i = - 1 \<or> (\<exists>s<length ids. slots ! i = int s)"
  using assms unfolding matched_def by blast+

lemma matched_replicate: "matched (replicate n (- 1)) (replicate m (- 1))"
  by (rule matchedI) auto

text \<open>A slot changes hands.\<close>

lemma matched_assign:
  assumes m: "matched slots ids" and s: "s < length ids" and i: "i < length slots" "slots ! i = - 1"
  shows "matched ((if 0 \<le> ids ! s then slots[nat (ids ! s) := - 1] else slots)[i := int s]) (ids[s := int i])"
proof -
  define sl where "sl = (if 0 \<le> ids ! s then slots[nat (ids ! s) := - 1] else slots)[i := int s]"
  define new where "new = ids[s := int i]"
  have len: "length sl = length slots" "length new = length ids" by (simp_all add: sl_def new_def)
  have sl: "sl ! j = (if j = i then int s else if ids ! s = int j then - 1 else slots ! j)" if "j < length slots" for j
    using that matchedD(2)[OF m s] by (auto simp: sl_def nth_list_update)
  have new: "new ! t = (if t = s then int i else ids ! t)" if "t < length ids" for t
    using that by (simp add: new_def nth_list_update)
  have ni: "ids ! t \<noteq> int i" if "t < length ids" for t using matchedD(1)[OF m that i(1)] i(2) by simp
  have "matched sl new"
  proof (rule matchedI, unfold len)
    fix t j assume tj: "t < length ids" "j < length slots"
    show "(new ! t = int j) = (sl ! j = int t)"
      unfolding new[OF tj(1)] sl[OF tj(2)] using matchedD(1)[OF m tj] ni[OF tj(1)] matchedD(1)[OF m s tj(2)] by auto
  next
    fix t assume "t < length ids"
    then show "new ! t = - 1 \<or> (\<exists>j<length slots. new ! t = int j)" using new matchedD(2)[OF m] i(1) by auto
  next
    fix j assume "j < length slots"
    then show "sl ! j = - 1 \<or> (\<exists>t<length ids. sl ! j = int t)" using sl matchedD(3)[OF m] s by auto
  qed
  then show ?thesis by (simp only: sl_def new_def)
qed

text \<open>Slots are given up.\<close>

lemma matched_drop:
  assumes m: "matched slots ids" and "length slots' = length slots" "length ids' = length ids"
    and ids': "\<And>s. s < length ids \<Longrightarrow> ids' ! s = (if s \<in> X then - 1 else ids ! s)"
    and sl': "\<And>i. i < length slots \<Longrightarrow> slots' ! i = (if \<exists>s\<in>X. s < length ids \<and> ids ! s = int i then - 1 else slots ! i)"
  shows "matched slots' ids'"
proof (rule matchedI, unfold assms(2,3))
  fix s i assume si: "s < length ids" "i < length slots"
  have "\<not> (\<exists>s\<in>X. s < length ids \<and> ids ! s = int i)" if "slots ! i = int s" "s \<notin> X"
    using matchedD(1)[OF m _ si(2)] that by auto
  then show "(ids' ! s = int i) = (slots' ! i = int s)"
    unfolding ids'[OF si(1)] sl'[OF si(2)] using matchedD(1)[OF m si] si by auto
next
  fix s assume "s < length ids"
  then show "ids' ! s = - 1 \<or> (\<exists>i<length slots. ids' ! s = int i)" using ids' matchedD(2)[OF m] by auto
next
  fix i assume "i < length slots"
  then show "slots' ! i = - 1 \<or> (\<exists>s<length ids. slots' ! i = int s)" using sl' matchedD(3)[OF m] by auto
qed

section \<open>The invariant\<close>

definition xc_shape :: "'w expert_cache \<Rightarrow> bool" where
  "xc_shape c \<longleftrightarrow> xc_experts c \<le> xc_size c \<and> (xc_overlap c \<longrightarrow> 2 * xc_experts c \<le> xc_size c \<and> xc_unpinned c = {}) \<and>
     xc_unpinned c \<subseteq> xc_cpu_layers c \<and>
     length (xc_slot_for_id c) = xc_layers c * xc_experts c \<and> length (xc_recency c) = xc_layers c * xc_experts c \<and>
     (\<forall>r\<in>set (xc_recency c). - 1 \<le> r) \<and> length (xc_id_of_slot c) = xc_size c \<and> length (xc_usage c) = xc_size c \<and>
     length (xc_buffer_layer c) = 2 \<and> length (xc_released c) = 2 \<and>
     (\<forall>b\<in>set (xc_banks c). length (bk_rows b) = xc_size c \<and> length (bk_source b) = xc_layers c \<and> (\<forall>rows\<in>set (bk_source b). length rows = xc_experts c))"

text \<open>Slot \<open>s\<close> holds the weights of the expert with flat id \<open>i\<close>, in every bank.\<close>

definition holds :: "'w expert_cache \<Rightarrow> nat \<Rightarrow> nat \<Rightarrow> bool" where
  "holds c s i \<longleftrightarrow> (\<forall>b\<in>set (xc_banks c). bk_rows b ! s = bk_source b ! (i div xc_experts c) ! (i mod xc_experts c))"

definition content_except :: "nat set \<Rightarrow> 'w expert_cache \<Rightarrow> bool" where
  "content_except X c \<longleftrightarrow> (\<forall>s<xc_size c. s \<notin> X \<longrightarrow> (\<forall>i. xc_id_of_slot c ! s = int i \<longrightarrow> holds c s i))"

definition xc_ok :: "'w expert_cache \<Rightarrow> bool" where
  "xc_ok c \<longleftrightarrow> xc_shape c \<and> matched (xc_slot_for_id c) (xc_id_of_slot c) \<and> (\<forall>u\<in>set (xc_usage c). u \<le> xc_step c) \<and> content_except {} c"

lemma flat_less: "layer < xc_layers c \<Longrightarrow> e < xc_experts c \<Longrightarrow> flat_id c layer e < xc_layers c * xc_experts c"
proof -
  assume a: "layer < xc_layers c" "e < xc_experts c"
  then have "(layer + 1) * xc_experts c \<le> xc_layers c * xc_experts c" by (intro mult_le_mono1) simp
  with a(2) show ?thesis by (simp add: flat_id_def)
qed

lemma flat_div_mod [simp]:
  "e < xc_experts c \<Longrightarrow> flat_id c layer e div xc_experts c = layer" "e < xc_experts c \<Longrightarrow> flat_id c layer e mod xc_experts c = e"
  by (simp_all add: flat_id_def)

lemma flat_inject: "e < xc_experts c \<Longrightarrow> e' < xc_experts c \<Longrightarrow> flat_id c l e = flat_id c l' e' \<longleftrightarrow> l = l' \<and> e = e'"
  by (metis flat_div_mod)

text \<open>What a decode step changes and what it does not.\<close>

lemma fetch_one_fields [simp]:
  "xc_layers (fetch_one l c e) = xc_layers c" "xc_experts (fetch_one l c e) = xc_experts c" "xc_size (fetch_one l c e) = xc_size c"
  "xc_overlap (fetch_one l c e) = xc_overlap c" "xc_unpinned (fetch_one l c e) = xc_unpinned c" "xc_cpu_layers (fetch_one l c e) = xc_cpu_layers c"
  "xc_banks (fetch_one l c e) = xc_banks c" "xc_step (fetch_one l c e) = xc_step c" "xc_recency (fetch_one l c e) = xc_recency c"
  "xc_pending_layer (fetch_one l c e) = xc_pending_layer c" "xc_pending_whole (fetch_one l c e) = xc_pending_whole c"
  "xc_buffer_layer (fetch_one l c e) = xc_buffer_layer c" "xc_released (fetch_one l c e) = xc_released c" "xc_by_recency (fetch_one l c e) = xc_by_recency c"
  "flat_id (fetch_one l c e) = flat_id c" "xc_missing_full (fetch_one l c e) = xc_missing_full c"
  by (auto simp: fetch_one_def Let_def flat_id_def fun_eq_iff)

definition resident :: "'w expert_cache \<Rightarrow> nat \<Rightarrow> nat \<Rightarrow> bool" where
  "resident c l e \<longleftrightarrow> xc_slot_for_id c ! flat_id c l e \<noteq> - 1"

text \<open>While misses of layer \<open>l\<close> are fetched: \<open>A\<close> are the active experts, whose slots, and only they, are used now. The plan's
  slots wait for their rows. \<open>u0\<close> is the usage before: a planned slot was used no later than any slot that is left.\<close>

definition fetching :: "nat \<Rightarrow> nat set \<Rightarrow> nat list \<Rightarrow> 'w expert_cache \<Rightarrow> bool" where
  "fetching l A u0 c \<longleftrightarrow> xc_shape c \<and> l < xc_layers c \<and> A \<subseteq> {..<xc_experts c} \<and> matched (xc_slot_for_id c) (xc_id_of_slot c) \<and>
     (\<forall>u\<in>set (xc_usage c). u \<le> xc_step c) \<and>
     (\<forall>s<xc_size c. xc_usage c ! s = xc_step c \<longleftrightarrow> (\<exists>e\<in>A. xc_id_of_slot c ! s = int (flat_id c l e))) \<and>
     distinct (map fst (xc_plan c)) \<and> (\<forall>(s, e)\<in>set (xc_plan c). s < xc_size c \<and> e \<in> A \<and> xc_id_of_slot c ! s = int (flat_id c l e)) \<and>
     content_except (fst ` set (xc_plan c)) c \<and>
     (\<forall>s<xc_size c. xc_usage c ! s < xc_step c \<longrightarrow> u0 ! s = xc_usage c ! s \<and> (\<forall>v\<in>fst ` set (xc_plan c). u0 ! v \<le> u0 ! s))"

lemma fetchingD:
  assumes "fetching l A u0 c"
  shows "matched (xc_slot_for_id c) (xc_id_of_slot c)"
    and "\<forall>(s, e)\<in>set (xc_plan c). s < xc_size c \<and> e \<in> A \<and> xc_id_of_slot c ! s = int (flat_id c l e)"
    and "\<forall>u\<in>set (xc_usage c). u \<le> xc_step c"
    and "\<forall>s<xc_size c. xc_usage c ! s < xc_step c \<longrightarrow> u0 ! s = xc_usage c ! s \<and> (\<forall>v\<in>fst ` set (xc_plan c). u0 ! v \<le> u0 ! s)"
    and "\<forall>s<xc_size c. xc_usage c ! s = xc_step c \<longleftrightarrow> (\<exists>e\<in>A. xc_id_of_slot c ! s = int (flat_id c l e))"
    and "distinct (map fst (xc_plan c))" "xc_shape c" "content_except (fst ` set (xc_plan c)) c"
  using assms unfolding fetching_def by - (elim conjE, assumption)+

lemma free_slot:
  assumes f: "fetching l A u0 c" and e: "e \<in> A" "\<not> resident c l e"
  shows "\<exists>s<xc_size c. xc_usage c ! s < xc_step c"
proof (rule ccontr)
  assume n: "\<not> ?thesis"
  let ?S = "{..<xc_size c}"
  have le: "\<forall>u\<in>set (xc_usage c). u \<le> xc_step c" and sh: "xc_shape c" using f by (simp_all add: fetching_def)
  have "xc_usage c ! s = xc_step c" if "s < xc_size c" for s
  proof -
    have "xc_usage c ! s \<in> set (xc_usage c)" using that sh by (simp add: xc_shape_def)
    with le n that show ?thesis by (metis le_antisym not_less)
  qed
  with f have own: "\<exists>x\<in>A. xc_id_of_slot c ! s = int (flat_id c l x)" if "s < xc_size c" for s using that by (simp add: fetching_def)
  then obtain g where g: "\<And>s. s < xc_size c \<Longrightarrow> g s \<in> A \<and> xc_id_of_slot c ! s = int (flat_id c l (g s))" by metis
  have A: "A \<subseteq> {..<xc_experts c}" and m: "matched (xc_slot_for_id c) (xc_id_of_slot c)" and l: "l < xc_layers c" using f by (simp_all add: fetching_def)
  have sl: "xc_slot_for_id c ! flat_id c l (g s) = int s" if "s < xc_size c" for s
    using matchedD(1)[OF m, of s "flat_id c l (g s)"] g[OF that] flat_less[OF l, of "g s"] A sh that by (auto simp: xc_shape_def)
  have "inj_on g ?S" using sl by (intro inj_onI) (metis lessThan_iff of_nat_eq_iff)
  moreover have "g ` ?S \<subseteq> A - {e}" using g sl e(2) by (auto simp: resident_def)
  moreover have fin: "finite A" using A finite_subset by blast
  ultimately have "xc_size c \<le> card (A - {e})" using card_inj_on_le[of g ?S "A - {e}"] by simp
  also have "\<dots> < card A" using card_Diff1_less[OF fin e(1)] .
  also have "\<dots> \<le> xc_experts c" using card_mono[OF _ A] by simp
  finally show False using sh by (simp add: xc_shape_def)
qed

lemma fetching_victim:
  assumes f: "fetching l A u0 c" and e: "e \<in> A" "\<not> resident c l e"
  defines "v \<equiv> victim_slot (xc_usage c)"
  shows "v < xc_size c \<and> xc_usage c ! v < xc_step c \<and> (\<forall>s<xc_size c. xc_usage c ! v \<le> xc_usage c ! s) \<and>
    v \<notin> fst ` set (xc_plan c) \<and> (\<forall>x\<in>A. xc_id_of_slot c ! v \<noteq> int (flat_id c l x))"
proof -
  have len: "length (xc_usage c) = xc_size c" using f by (simp add: fetching_def xc_shape_def)
  from free_slot[OF f e] obtain s where s: "s < xc_size c" "xc_usage c ! s < xc_step c" by blast
  then have v: "v < xc_size c" "\<forall>s<xc_size c. xc_usage c ! v \<le> xc_usage c ! s"
    using victim_least[of "xc_usage c"] len unfolding v_def by (metis length_0_conv not_less_zero)+
  with s have lt: "xc_usage c ! v < xc_step c" by (meson le_less_trans)
  with f v(1) have no: "\<forall>x\<in>A. xc_id_of_slot c ! v \<noteq> int (flat_id c l x)" by (auto simp: fetching_def)
  moreover have "v \<notin> fst ` set (xc_plan c)" using f no by (fastforce simp: fetching_def)
  ultimately show ?thesis using v lt by blast
qed

lemma fetch_step:
  assumes f: "fetching l A u0 c" and e: "e \<in> A" "\<not> resident c l e"
  shows "fetching l A u0 (fetch_one l c e) \<and> resident (fetch_one l c e) l e \<and>
    (\<forall>x\<in>A. x \<noteq> e \<longrightarrow> xc_slot_for_id (fetch_one l c e) ! flat_id c l x = xc_slot_for_id c ! flat_id c l x) \<and>
    xc_plan (fetch_one l c e) = xc_plan c @ [(victim_slot (xc_usage c), e)]"
proof -
  define v where "v = victim_slot (xc_usage c)"
  define c' where "c' = fetch_one l c e"
  let ?i = "flat_id c l e"
  note vp = fetching_victim[OF f e, folded v_def]
  have sh: "xc_shape c" and l: "l < xc_layers c" and A: "A \<subseteq> {..<xc_experts c}" and m: "matched (xc_slot_for_id c) (xc_id_of_slot c)"
    using f by (simp_all add: fetching_def)
  have len: "length (xc_usage c) = xc_size c" "length (xc_id_of_slot c) = xc_size c" "length (xc_slot_for_id c) = xc_layers c * xc_experts c"
    using sh by (simp_all add: xc_shape_def)
  have fl: "flat_id c l x < length (xc_slot_for_id c)" if "x \<in> A" for x using flat_less[OF l, of x] A that len(3) by auto
  have inj: "flat_id c l x = flat_id c l y \<longleftrightarrow> x = y" if "x \<in> A" "y \<in> A" for x y using flat_inject[of x c y l l] A that by auto
  have vl: "v < length (xc_id_of_slot c)" using vp len by simp
  have c': "xc_usage c' = (xc_usage c)[v := xc_step c]" "xc_id_of_slot c' = (xc_id_of_slot c)[v := int ?i]" "xc_plan c' = xc_plan c @ [(v, e)]"
    "xc_slot_for_id c' = (if 0 \<le> xc_id_of_slot c ! v then (xc_slot_for_id c)[nat (xc_id_of_slot c ! v) := - 1] else xc_slot_for_id c)[?i := int v]"
    by (simp_all add: c'_def fetch_one_def Let_def v_def)
  have fld: "xc_layers c' = xc_layers c" "xc_experts c' = xc_experts c" "xc_size c' = xc_size c" "xc_step c' = xc_step c" "flat_id c' = flat_id c" "xc_banks c' = xc_banks c"
    by (simp_all add: c'_def)
  have m': "matched (xc_slot_for_id c') (xc_id_of_slot c')"
    unfolding c' using matched_assign[OF m vl fl[OF e(1)]] e(2) by (simp add: resident_def)
  have sh': "xc_shape c'" using sh c' fld unfolding xc_shape_def by (simp add: c'_def)
  have us: "xc_usage c' ! s = (if s = v then xc_step c else xc_usage c ! s)" if "s < xc_size c" for s using that len c' by (simp add: nth_list_update)
  have own: "xc_id_of_slot c' ! s = (if s = v then int ?i else xc_id_of_slot c ! s)" if "s < xc_size c" for s using that len c' by (simp add: nth_list_update)
  have le': "\<forall>u\<in>set (xc_usage c'). u \<le> xc_step c'" using f unfolding c' fld fetching_def by (auto dest!: subsetD[OF set_update_subset_insert])
  have hot: "xc_usage c' ! s = xc_step c' \<longleftrightarrow> (\<exists>x\<in>A. xc_id_of_slot c' ! s = int (flat_id c' l x))" if "s < xc_size c'" for s
    using f that e(1) us own vp unfolding fld fetching_def by (cases "s = v") auto
  have pl: "s < xc_size c' \<and> x \<in> A \<and> xc_id_of_slot c' ! s = int (flat_id c' l x)" if "(s, x) \<in> set (xc_plan c')" for s x
  proof (cases "(s, x) = (v, e)")
    case True
    then show ?thesis using vp e(1) own[of v] fld by simp
  next
    case False
    with that have "(s, x) \<in> set (xc_plan c)" by (auto simp: c')
    moreover from this have "s \<noteq> v" using vp by force
    ultimately show ?thesis using f own fld by (auto simp: fetching_def)
  qed
  have con: "content_except (fst ` set (xc_plan c')) c'"
    using f own vp unfolding fetching_def content_except_def holds_def c' fld by auto
  have lru: "u0 ! s = xc_usage c' ! s \<and> (\<forall>x\<in>fst ` set (xc_plan c'). u0 ! x \<le> u0 ! s)" if s: "s < xc_size c'" "xc_usage c' ! s < xc_step c'" for s
  proof -
    have sv: "s \<noteq> v" "s < xc_size c" "xc_usage c ! s < xc_step c" using s us fld by (auto split: if_splits)
    have lr: "\<forall>s<xc_size c. xc_usage c ! s < xc_step c \<longrightarrow> u0 ! s = xc_usage c ! s \<and> (\<forall>v\<in>fst ` set (xc_plan c). u0 ! v \<le> u0 ! s)"
      using f unfolding fetching_def by (elim conjE)
    have "u0 ! s = xc_usage c ! s" "\<forall>x\<in>fst ` set (xc_plan c). u0 ! x \<le> u0 ! s" "u0 ! v = xc_usage c ! v"
      using lr[rule_format, OF sv(2,3)] lr[rule_format, of v] vp by blast+
    with sv vp us show ?thesis by (auto simp: c')
  qed
  have "distinct (map fst (xc_plan c'))" using f vp by (simp add: c' fetching_def)
  moreover have "\<forall>(s, x)\<in>set (xc_plan c'). s < xc_size c' \<and> x \<in> A \<and> xc_id_of_slot c' ! s = int (flat_id c' l x)" using pl by blast
  ultimately have "fetching l A u0 c'" unfolding fetching_def using sh' l A m' le' con hot lru by (simp only: fld(1,2) simp_thms) blast
  moreover have "xc_slot_for_id c' ! flat_id c l x = xc_slot_for_id c ! flat_id c l x" if x: "x \<in> A" "x \<noteq> e" for x
  proof -
    have "xc_id_of_slot c ! v \<noteq> int (flat_id c l x)" using vp x(1) by blast
    moreover have "?i \<noteq> flat_id c l x" using inj[OF e(1) x(1)] x(2) by simp
    ultimately show ?thesis using c'(4) by (auto simp: nth_list_update)
  qed
  moreover have "resident c' l e" using c'(4) fl[OF e(1)] fld by (simp add: resident_def)
  ultimately show ?thesis using c'(3) unfolding c'_def v_def by blast
qed

lemma fetch_all:
  assumes "fetching l A u0 c" "distinct es" "set es \<subseteq> A" "\<forall>e\<in>set es. \<not> resident c l e"
  shows "fetching l A u0 (foldl (fetch_one l) c es) \<and>
    (\<forall>x\<in>A. resident (foldl (fetch_one l) c es) l x \<longleftrightarrow> resident c l x \<or> x \<in> set es) \<and>
    (\<forall>x\<in>A. resident c l x \<longrightarrow> xc_slot_for_id (foldl (fetch_one l) c es) ! flat_id c l x = xc_slot_for_id c ! flat_id c l x) \<and>
    length (xc_plan (foldl (fetch_one l) c es)) = length (xc_plan c) + length es \<and>
    map snd (xc_plan (foldl (fetch_one l) c es)) = map snd (xc_plan c) @ es \<and>
    xc_step (foldl (fetch_one l) c es) = xc_step c \<and> flat_id (foldl (fetch_one l) c es) = flat_id c"
  using assms
proof (induction es arbitrary: c)
  case (Cons e es)
  let ?c = "fetch_one l c e"
  have st: "fetching l A u0 ?c" "resident ?c l e" "\<forall>x\<in>A. x \<noteq> e \<longrightarrow> resident ?c l x \<longleftrightarrow> resident c l x"
    "\<forall>x\<in>A. x \<noteq> e \<longrightarrow> xc_slot_for_id ?c ! flat_id c l x = xc_slot_for_id c ! flat_id c l x" "xc_plan ?c = xc_plan c @ [(victim_slot (xc_usage c), e)]"
    using fetch_step[OF Cons.prems(1), of e] Cons.prems(3,4) by (auto simp: resident_def)
  have "\<forall>x\<in>set es. \<not> resident ?c l x" using st(3) Cons.prems(2-4) by auto
  from Cons.IH[OF st(1) _ _ this] Cons.prems(2,3)
  have ih: "fetching l A u0 (foldl (fetch_one l) ?c es)" "\<forall>x\<in>A. resident (foldl (fetch_one l) ?c es) l x \<longleftrightarrow> resident ?c l x \<or> x \<in> set es"
    "\<forall>x\<in>A. resident ?c l x \<longrightarrow> xc_slot_for_id (foldl (fetch_one l) ?c es) ! flat_id c l x = xc_slot_for_id ?c ! flat_id c l x"
    "length (xc_plan (foldl (fetch_one l) ?c es)) = length (xc_plan ?c) + length es"
    "map snd (xc_plan (foldl (fetch_one l) ?c es)) = map snd (xc_plan ?c) @ es"
    "xc_step (foldl (fetch_one l) ?c es) = xc_step c" "flat_id (foldl (fetch_one l) ?c es) = flat_id c" by simp_all
  have "resident (foldl (fetch_one l) ?c es) l x \<longleftrightarrow> resident c l x \<or> x \<in> set (e # es)" if "x \<in> A" for x
    using ih(2) st(2,3) that by (cases "x = e") auto
  moreover have "xc_slot_for_id (foldl (fetch_one l) ?c es) ! flat_id c l x = xc_slot_for_id c ! flat_id c l x" if "x \<in> A" "resident c l x" for x
  proof -
    have "x \<noteq> e" using that Cons.prems(4) by auto
    with ih(3) st(3,4) that show ?thesis by auto
  qed
  ultimately show ?case using ih st(5) by simp
qed simp

lemma touch_length: "length (foldl (\<lambda>u e. let slot = f e in if slot \<noteq> - 1 then u[nat slot := v] else u) u es) = length u"
  by (induction es arbitrary: u) (auto simp: Let_def)

lemma touch_nth:
  assumes "\<forall>e\<in>set es. f e = - 1 \<or> 0 \<le> f e" "s < length u"
  shows "foldl (\<lambda>u e. let slot = f e in if slot \<noteq> - 1 then u[nat slot := v] else u) u es ! s = (if \<exists>e\<in>set es. f e = int s then v else u ! s)"
  using assms
proof (induction es arbitrary: u)
  case (Cons e es)
  let ?u = "let slot = f e in if slot \<noteq> - 1 then u[nat slot := v] else u"
  have "length ?u = length u" "?u ! s = (if f e = int s then v else u ! s)"
    using Cons.prems by (auto simp: Let_def nth_list_update)
  then show ?case using Cons.IH[of ?u] Cons.prems by auto
qed simp

text \<open>The state before the fetches, and what the fetches take from it.\<close>

definition staged :: "nat \<Rightarrow> nat list \<Rightarrow> 'w expert_cache \<Rightarrow> 'w expert_cache" where
  "staged layer ids c = c\<lparr>xc_step := xc_step c + 1, xc_pending_layer := Some layer, xc_pending_whole := False,
     xc_usage := touch_hits (c\<lparr>xc_step := xc_step c + 1\<rparr>) layer (first_seen ids),
     xc_missing_full := length (filter (\<lambda>e. xc_slot_for_id c ! flat_id c layer e = - 1) (first_seen ids)), xc_plan := []\<rparr>"

definition missing_of :: "nat \<Rightarrow> nat list \<Rightarrow> 'w expert_cache \<Rightarrow> nat list" where
  "missing_of layer ids c = filter (\<lambda>e. \<not> resident c layer e) (first_seen ids)"

definition fetched_of :: "nat \<Rightarrow> nat \<Rightarrow> nat \<Rightarrow> nat list \<Rightarrow> 'w expert_cache \<Rightarrow> nat list" where
  "fetched_of max_fetch frac layer ids c =
     take (min (length (missing_of layer ids c)) (fetch_cap max_fetch frac (length (missing_of layer ids c)))) (fetch_order c layer (missing_of layer ids c))"

lemma staged_fields [simp]:
  "xc_layers (staged l ids c) = xc_layers c" "xc_experts (staged l ids c) = xc_experts c" "xc_size (staged l ids c) = xc_size c"
  "xc_overlap (staged l ids c) = xc_overlap c" "xc_unpinned (staged l ids c) = xc_unpinned c" "xc_cpu_layers (staged l ids c) = xc_cpu_layers c"
  "xc_banks (staged l ids c) = xc_banks c" "xc_step (staged l ids c) = Suc (xc_step c)" "xc_recency (staged l ids c) = xc_recency c"
  "xc_buffer_layer (staged l ids c) = xc_buffer_layer c" "xc_released (staged l ids c) = xc_released c" "xc_by_recency (staged l ids c) = xc_by_recency c"
  "xc_slot_for_id (staged l ids c) = xc_slot_for_id c" "xc_id_of_slot (staged l ids c) = xc_id_of_slot c" "xc_plan (staged l ids c) = []"
  "flat_id (staged l ids c) = flat_id c" "xc_pending_layer (staged l ids c) = Some l" "\<not> xc_pending_whole (staged l ids c)"
  "xc_missing_full (staged l ids c) = length (missing_of l ids c)"
  by (auto simp: staged_def flat_id_def fun_eq_iff missing_of_def resident_def)

definition fetched_state :: "nat \<Rightarrow> nat \<Rightarrow> nat \<Rightarrow> nat list \<Rightarrow> 'w expert_cache \<Rightarrow> 'w expert_cache" where
  "fetched_state max_fetch frac l ids c = foldl (fetch_one l) (staged l ids c) (fetched_of max_fetch frac l ids c)"

lemma ensure_eq:
  assumes "l < xc_layers c" "\<forall>e\<in>set ids. e < xc_experts c"
  shows "ensure_experts_hybrid max_fetch frac l ids c =
    Some (map (\<lambda>e. xc_slot_for_id (fetched_state max_fetch frac l ids c) ! flat_id (fetched_state max_fetch frac l ids c) l e) ids,
      note_active l (first_seen ids) (fetched_state max_fetch frac l ids c))"
proof -
  have "list_all (\<lambda>e. e < xc_experts c) ids" using assms(2) by (simp add: list_all_iff)
  moreover have "flat_id (c\<lparr>xc_step := a, xc_pending_layer := b, xc_pending_whole := d, xc_usage := u\<rparr>) = flat_id c" for a b d u
    by (simp add: flat_id_def fun_eq_iff)
  moreover have "touch_hits (c\<lparr>xc_step := a, xc_pending_layer := b, xc_pending_whole := d\<rparr>) = touch_hits (c\<lparr>xc_step := a\<rparr>)" for a b d
    by (simp add: touch_hits_def fun_eq_iff flat_id_def Let_def)
  moreover have "fetch_order (c\<lparr>xc_step := a, xc_pending_layer := b, xc_pending_whole := d, xc_usage := u, xc_missing_full := v, xc_plan := w\<rparr>) = fetch_order c" for a b d u v w
    by (simp add: fetch_order_def fun_eq_iff flat_id_def)
  moreover have "flat_id (note_active l es x) = flat_id x" "xc_slot_for_id (note_active l es x) = xc_slot_for_id x" for es and x :: "'a expert_cache"
    by (simp_all add: note_active_def flat_id_def fun_eq_iff)
  ultimately show ?thesis using assms(1) unfolding ensure_experts_hybrid_def bind_assert fetched_state_def fetched_of_def missing_of_def resident_def not_not staged_def
    by (simp add: Let_def)
qed

lemma staged_usage:
  assumes ok: "xc_ok c" and l: "l < xc_layers c" "\<forall>e\<in>set ids. e < xc_experts c"
  shows "length (xc_usage (staged l ids c)) = xc_size c"
    and "s < xc_size c \<Longrightarrow> xc_usage (staged l ids c) ! s = (if \<exists>e\<in>set ids. xc_slot_for_id c ! flat_id c l e = int s then Suc (xc_step c) else xc_usage c ! s)"
proof -
  have len: "length (xc_usage c) = xc_size c" "length (xc_slot_for_id c) = xc_layers c * xc_experts c" using ok by (simp_all add: xc_ok_def xc_shape_def)
  have fl: "flat_id c l e < length (xc_slot_for_id c)" if "e \<in> set ids" for e using flat_less[OF l(1)] l(2) that len(2) by simp
  have m: "matched (xc_slot_for_id c) (xc_id_of_slot c)" using ok by (simp add: xc_ok_def)
  have rng: "\<forall>e\<in>set (first_seen ids). xc_slot_for_id c ! flat_id c l e = - 1 \<or> 0 \<le> xc_slot_for_id c ! flat_id c l e"
    using matchedD(3)[OF m fl] by fastforce
  have tf: "touch_hits (c\<lparr>xc_step := Suc (xc_step c)\<rparr>) l (first_seen ids) =
      foldl (\<lambda>u e. let slot = xc_slot_for_id c ! flat_id c l e in if slot \<noteq> - 1 then u[nat slot := Suc (xc_step c)] else u) (xc_usage c) (first_seen ids)"
    by (simp add: touch_hits_def flat_id_def Let_def)
  show "length (xc_usage (staged l ids c)) = xc_size c" using len(1) by (simp add: staged_def tf touch_length)
  show "s < xc_size c \<Longrightarrow> xc_usage (staged l ids c) ! s = (if \<exists>e\<in>set ids. xc_slot_for_id c ! flat_id c l e = int s then Suc (xc_step c) else xc_usage c ! s)"
    using touch_nth[OF rng, of s "xc_usage c" "Suc (xc_step c)"] len(1) by (simp add: staged_def tf)
qed

lemma staged_fetching:
  assumes ok: "xc_ok c" and l: "l < xc_layers c" "\<forall>e\<in>set ids. e < xc_experts c"
  shows "fetching l (set ids) (xc_usage c) (staged l ids c)"
proof -
  have sh: "xc_shape c" and m: "matched (xc_slot_for_id c) (xc_id_of_slot c)" and u: "\<forall>u\<in>set (xc_usage c). u \<le> xc_step c" and con: "content_except {} c"
    using ok by (simp_all add: xc_ok_def)
  have len: "length (xc_usage c) = xc_size c" "length (xc_id_of_slot c) = xc_size c" "length (xc_slot_for_id c) = xc_layers c * xc_experts c"
    using sh by (simp_all add: xc_shape_def)
  have fl: "flat_id c l e < length (xc_slot_for_id c)" if "e \<in> set ids" for e using flat_less[OF l(1)] l(2) that len(3) by simp
  note t = staged_usage(2)[OF ok l] and tl = staged_usage(1)[OF ok l]
  have own: "(\<exists>e\<in>set ids. xc_slot_for_id c ! flat_id c l e = int s) \<longleftrightarrow> (\<exists>e\<in>set ids. xc_id_of_slot c ! s = int (flat_id c l e))" if "s < xc_size c" for s
    using matchedD(1)[OF m, of s] that len fl by auto
  have old: "xc_usage c ! s \<le> xc_step c" if "s < xc_size c" for s using u that len by simp
  have le: "\<forall>u\<in>set (xc_usage (staged l ids c)). u \<le> xc_step (staged l ids c)"
    using t old tl by (fastforce simp: in_set_conv_nth)
  have "xc_shape (staged l ids c)" using sh tl by (simp add: xc_shape_def)
  moreover have "content_except {} (staged l ids c)" using con by (simp add: content_except_def holds_def)
  moreover have "xc_usage (staged l ids c) ! s = Suc (xc_step c) \<longleftrightarrow> (\<exists>e\<in>set ids. xc_id_of_slot c ! s = int (flat_id c l e))" if "s < xc_size c" for s
    using t[OF that] own[OF that] old[OF that] by auto
  moreover have "xc_usage c ! s = xc_usage (staged l ids c) ! s" if "s < xc_size c" "xc_usage (staged l ids c) ! s < Suc (xc_step c)" for s
    using t[OF that(1)] that(2) by (auto split: if_splits)
  ultimately show ?thesis using l m le unfolding fetching_def by auto
qed

section \<open>A decode step\<close>

lemma map_banks_fields [simp]:
  "xc_layers (map_banks f c) = xc_layers c" "xc_experts (map_banks f c) = xc_experts c" "xc_size (map_banks f c) = xc_size c"
  "xc_overlap (map_banks f c) = xc_overlap c" "xc_unpinned (map_banks f c) = xc_unpinned c" "xc_cpu_layers (map_banks f c) = xc_cpu_layers c"
  "xc_step (map_banks f c) = xc_step c" "xc_recency (map_banks f c) = xc_recency c" "xc_hit_d2d (map_banks f c) = xc_hit_d2d c"
  "xc_buffer_layer (map_banks f c) = xc_buffer_layer c" "xc_released (map_banks f c) = xc_released c" "xc_by_recency (map_banks f c) = xc_by_recency c"
  "xc_slot_for_id (map_banks f c) = xc_slot_for_id c" "xc_id_of_slot (map_banks f c) = xc_id_of_slot c" "xc_plan (map_banks f c) = xc_plan c"
  "flat_id (map_banks f c) = flat_id c" "xc_usage (map_banks f c) = xc_usage c" "xc_snapshot (map_banks f c) = xc_snapshot c"
  "xc_missing_full (map_banks f c) = xc_missing_full c"
  by (auto simp: map_banks_def flat_id_def fun_eq_iff)

lemma note_active_fields [simp]:
  "xc_layers (note_active l es c) = xc_layers c" "xc_experts (note_active l es c) = xc_experts c" "xc_size (note_active l es c) = xc_size c"
  "xc_overlap (note_active l es c) = xc_overlap c" "xc_unpinned (note_active l es c) = xc_unpinned c" "xc_cpu_layers (note_active l es c) = xc_cpu_layers c"
  "xc_step (note_active l es c) = xc_step c" "xc_banks (note_active l es c) = xc_banks c" "length (xc_recency (note_active l es c)) = length (xc_recency c)"
  "xc_buffer_layer (note_active l es c) = xc_buffer_layer c" "xc_released (note_active l es c) = xc_released c" "xc_by_recency (note_active l es c) = xc_by_recency c"
  "xc_slot_for_id (note_active l es c) = xc_slot_for_id c" "xc_id_of_slot (note_active l es c) = xc_id_of_slot c" "xc_plan (note_active l es c) = xc_plan c"
  "flat_id (note_active l es c) = flat_id c" "xc_usage (note_active l es c) = xc_usage c" "xc_pending_layer (note_active l es c) = xc_pending_layer c"
  "xc_pending_whole (note_active l es c) = xc_pending_whole c" "xc_missing_full (note_active l es c) = xc_missing_full c"
  by (auto simp: note_active_def flat_id_def fun_eq_iff)

lemma note_active_recency: "\<forall>r\<in>set (xc_recency c). - 1 \<le> r \<Longrightarrow> \<forall>r\<in>set (xc_recency (note_active l es c)). - 1 \<le> r"
proof -
  have "\<forall>r\<in>set (foldl (\<lambda>rec e. rec[f e := int n]) rec es). - 1 \<le> r" if "\<forall>r\<in>set rec. - 1 \<le> r" for f :: "nat \<Rightarrow> nat" and n and rec :: "int list"
    using that
  proof (induction es arbitrary: rec)
    case (Cons e es)
    have "\<forall>r\<in>set (rec[f e := int n]). - 1 \<le> r" using Cons.prems set_update_subset_insert[of rec "f e" "int n"] by auto
    from Cons.IH[OF this] show ?case by simp
  qed simp
  then show "\<forall>r\<in>set (xc_recency c). - 1 \<le> r \<Longrightarrow> \<forall>r\<in>set (xc_recency (note_active l es c)). - 1 \<le> r" by (simp add: note_active_def)
qed

lemma foldl_fetch_fields [simp]:
  "xc_layers (foldl (fetch_one l) c es) = xc_layers c" "xc_experts (foldl (fetch_one l) c es) = xc_experts c" "xc_size (foldl (fetch_one l) c es) = xc_size c"
  "xc_overlap (foldl (fetch_one l) c es) = xc_overlap c" "xc_unpinned (foldl (fetch_one l) c es) = xc_unpinned c"
  "xc_cpu_layers (foldl (fetch_one l) c es) = xc_cpu_layers c" "xc_banks (foldl (fetch_one l) c es) = xc_banks c"
  "xc_pending_layer (foldl (fetch_one l) c es) = xc_pending_layer c" "xc_missing_full (foldl (fetch_one l) c es) = xc_missing_full c"
  by (induction es arbitrary: c) auto

lemma holds_map_banks:
  "holds (map_banks f c) s i \<longleftrightarrow> (\<forall>b\<in>set (xc_banks c). f b ! s = bk_source b ! (i div xc_experts c) ! (i mod xc_experts c))"
  by (auto simp: holds_def map_banks_def)

lemma shape_map_banks: "xc_shape c \<Longrightarrow> (\<And>b. b \<in> set (xc_banks c) \<Longrightarrow> length (f b) = length (bk_rows b)) \<Longrightarrow> xc_shape (map_banks f c)"
  by (auto simp: xc_shape_def map_banks_def)

text \<open>Copying the planned rows makes the planned slots hold what they claim.\<close>

lemma copy_plan_content:
  assumes "xc_shape c" "distinct (map fst (xc_plan c))"
    and "\<forall>(s, e)\<in>set (xc_plan c). s < xc_size c \<and> e < xc_experts c \<and> xc_id_of_slot c ! s = int (flat_id c l e)"
    and "content_except (fst ` set (xc_plan c)) c"
  shows "content_except {} (map_banks (\<lambda>b. copy_rows (bk_source b ! l) (xc_plan c) (bk_rows b)) c)"
  unfolding content_except_def
proof (intro allI impI)
  let ?c = "map_banks (\<lambda>b. copy_rows (bk_source b ! l) (xc_plan c) (bk_rows b)) c"
  fix s i assume s: "s < xc_size ?c" and i: "xc_id_of_slot ?c ! s = int i"
  show "holds ?c s i"
  proof (cases "s \<in> fst ` set (xc_plan c)")
    case True
    then obtain e where e: "(s, e) \<in> set (xc_plan c)" by auto
    with assms(3) i have "e < xc_experts c" "i = flat_id c l e" by auto
    moreover have "copy_rows (bk_source b ! l) (xc_plan c) (bk_rows b) ! s = bk_source b ! l ! e" if "b \<in> set (xc_banks c)" for b
      using s assms(1) that by (simp add: xc_shape_def copy_rows_at[OF assms(2) e])
    ultimately show ?thesis by (simp add: holds_map_banks)
  next
    case False
    with assms(4) s i have "holds c s i" by (simp add: content_except_def)
    with False show ?thesis unfolding holds_map_banks by (simp add: holds_def copy_rows_other)
  qed
qed

lemma fetch_order_set [simp]: "set (fetch_order c l es) = set es" "distinct (fetch_order c l es) = distinct es" "length (fetch_order c l es) = length es"
  by (auto simp: fetch_order_def)

lemma fetched_of_props:
  "distinct (fetched_of mf fr l ids c)" "set (fetched_of mf fr l ids c) \<subseteq> {e \<in> set ids. \<not> resident c l e}"
  "length (fetched_of mf fr l ids c) = min (length (missing_of l ids c)) (fetch_cap mf fr (length (missing_of l ids c)))"
proof -
  show "distinct (fetched_of mf fr l ids c)" by (simp add: fetched_of_def missing_of_def)
  have "set (fetched_of mf fr l ids c) \<subseteq> set (fetch_order c l (missing_of l ids c))" unfolding fetched_of_def by (rule set_take_subset)
  then show "set (fetched_of mf fr l ids c) \<subseteq> {e \<in> set ids. \<not> resident c l e}" by (auto simp: missing_of_def)
  show "length (fetched_of mf fr l ids c) = min (length (missing_of l ids c)) (fetch_cap mf fr (length (missing_of l ids c)))"
    by (simp add: fetched_of_def)
qed

definition same_config :: "'w expert_cache \<Rightarrow> 'w expert_cache \<Rightarrow> bool" where
  "same_config c c' \<longleftrightarrow> xc_layers c' = xc_layers c \<and> xc_experts c' = xc_experts c \<and> xc_size c' = xc_size c \<and> xc_overlap c' = xc_overlap c \<and>
     xc_cpu_layers c' = xc_cpu_layers c \<and> map bk_source (xc_banks c') = map bk_source (xc_banks c)"

lemma fetched_state_ok:
  assumes ok: "xc_ok c" and l: "l < xc_layers c" "\<forall>e\<in>set ids. e < xc_experts c"
    and c1_def: "c1 = fetched_state mf fr l ids c"
  shows "fetching l (set ids) (xc_usage c) c1 \<and> (\<forall>x\<in>set ids. resident c1 l x \<longleftrightarrow> resident c l x \<or> x \<in> set (fetched_of mf fr l ids c)) \<and>
    (\<forall>x\<in>set ids. resident c l x \<longrightarrow> xc_slot_for_id c1 ! flat_id c l x = xc_slot_for_id c ! flat_id c l x) \<and>
    map snd (xc_plan c1) = fetched_of mf fr l ids c \<and> flat_id c1 = flat_id c"
proof -
  have "\<forall>e\<in>set (fetched_of mf fr l ids c). \<not> resident (staged l ids c) l e" using fetched_of_props(2)[of mf fr l ids c] by (auto simp: resident_def)
  from fetch_all[OF staged_fetching[OF ok l] fetched_of_props(1) _ this] fetched_of_props(2)[of mf fr l ids c] show ?thesis
    unfolding c1_def fetched_state_def by (auto simp: resident_def)
qed

lemma decode_ok:
  assumes ok: "xc_ok c" and l: "l < xc_layers c" "\<forall>e\<in>set ids. e < xc_experts c" and g: "l \<notin> xc_cpu_layers c"
    and c1_def: "c1 = fetched_state mf fr l ids c"
  shows "\<exists>slots cpu c'. decode_routed mf fr l ids c = Some ((slots, cpu), c') \<and> xc_ok c' \<and> same_config c c' \<and> xc_plan c' = xc_plan c1 \<and>
    length slots = length ids \<and> length cpu = length ids \<and> xc_missing_full c' = length (missing_of l ids c) \<and>
    (\<forall>k<length ids. if resident c l (ids ! k) \<or> ids ! k \<in> set (fetched_of mf fr l ids c)
       then cpu ! k = - 1 \<and> (\<exists>s<xc_size c. slots ! k = int s \<and> holds c' s (flat_id c l (ids ! k)))
       else slots ! k = - 1 \<and> cpu ! k = int (ids ! k))"
proof -
  note fs = fetched_state_ok[OF ok l c1_def]
  then have f: "fetching l (set ids) (xc_usage c) c1" and fid: "flat_id c1 = flat_id c" by simp_all
  have cfg: "xc_layers c1 = xc_layers c" "xc_experts c1 = xc_experts c" "xc_size c1 = xc_size c" "xc_overlap c1 = xc_overlap c" "xc_banks c1 = xc_banks c"
    "xc_cpu_layers c1 = xc_cpu_layers c" "xc_unpinned c1 = xc_unpinned c" "xc_pending_layer c1 = Some l" "xc_missing_full c1 = length (missing_of l ids c)"
    by (simp_all add: c1_def fetched_state_def)
  define c2 where "c2 = note_active l (first_seen ids) c1"
  define c3 where "c3 = map_banks (\<lambda>b. copy_rows (bk_source b ! l) (xc_plan c2) (bk_rows b)) c2"
  define slots where "slots = map (\<lambda>e. xc_slot_for_id c1 ! flat_id c1 l e) ids"
  define cpu where "cpu = map2 (\<lambda>s e. if 0 \<le> s then - 1 else int e) slots ids"
  have ens: "ensure_experts_hybrid mf fr l ids c = Some (slots, c2)"
    using ensure_eq[OF l, of mf fr] unfolding slots_def c2_def c1_def .
  have up: "l \<notin> xc_unpinned c2" using ok g by (auto simp: xc_ok_def xc_shape_def c2_def cfg)
  have "copy_missing c2 = Some c3" using up by (simp add: copy_missing_def c3_def c2_def cfg)
  then have dec: "decode_routed mf fr l ids c = Some ((slots, cpu), c3)" using g ens by (simp add: decode_routed_def cpu_def Let_def)
  have sh: "xc_shape c2" using fetchingD(7)[OF f] note_active_recency[of c1 l "first_seen ids"] by (simp add: c2_def xc_shape_def)
  note m = fetchingD(1)[OF f] and pl = fetchingD(2)[OF f]
  have con: "content_except {} c3" unfolding c3_def
    by (rule copy_plan_content[OF sh]) (use f l(2) pl cfg in \<open>auto simp: c2_def fetching_def content_except_def holds_def\<close>)
  have "xc_shape c3" unfolding c3_def by (rule shape_map_banks[OF sh]) simp
  moreover note fetchingD(3)[OF f]
  ultimately have ok3: "xc_ok c3" using con m by (simp add: xc_ok_def c3_def c2_def)
  have sc: "same_config c c3" by (simp add: same_config_def c3_def c2_def cfg map_banks_def comp_def)
  have per: "if resident c l (ids ! k) \<or> ids ! k \<in> set (fetched_of mf fr l ids c)
       then cpu ! k = - 1 \<and> (\<exists>s<xc_size c. slots ! k = int s \<and> holds c3 s (flat_id c l (ids ! k)))
       else slots ! k = - 1 \<and> cpu ! k = int (ids ! k)" if k: "k < length ids" for k
  proof -
    let ?e = "ids ! k"
    have e: "?e \<in> set ids" using k by simp
    have fl: "flat_id c l ?e < length (xc_slot_for_id c1)" using flat_less[OF l(1), of ?e] l(2) e sh by (simp add: c2_def xc_shape_def cfg)
    have sk: "slots ! k = xc_slot_for_id c1 ! flat_id c l ?e" using k by (simp add: slots_def fid)
    have len: "length slots = length ids" by (simp add: slots_def)
    have lid: "length (xc_id_of_slot c1) = xc_size c" using sh by (simp add: c2_def xc_shape_def cfg)
    show ?thesis
    proof (cases "resident c1 l ?e")
      case True
      with matchedD(3)[OF m fl] obtain s where s: "s < xc_size c" "xc_slot_for_id c1 ! flat_id c l ?e = int s" by (auto simp: resident_def fid lid)
      have "xc_id_of_slot c1 ! s = int (flat_id c l ?e)" using matchedD(1)[OF m _ fl, of s] s lid by simp
      with con s(1) have "holds c3 s (flat_id c l ?e)" by (auto simp: content_except_def c3_def c2_def cfg)
      moreover have "cpu ! k = - 1" using k len s(2) sk by (simp add: cpu_def)
      ultimately show ?thesis using s sk fs e True by auto
    next
      case False
      then have "slots ! k = - 1" using sk by (simp add: resident_def fid)
      moreover from this have "cpu ! k = int ?e" using k len by (simp add: cpu_def)
      ultimately show ?thesis using fs e False by auto
    qed
  qed
  have "xc_plan c3 = xc_plan c1" "xc_missing_full c3 = length (missing_of l ids c)" by (simp_all add: c3_def c2_def cfg)
  moreover have "length slots = length ids" "length cpu = length ids" by (simp_all add: slots_def cpu_def)
  ultimately show ?thesis using dec ok3 sc per by blast
qed

section \<open>A whole layer\<close>

lemma foldl_cond_length [simp]: "length (foldl (\<lambda>xs s. if P s then xs[f s := v] else xs) xs ss) = length xs"
  by (induction ss arbitrary: xs) auto

lemma foldl_cond_nth:
  "j < length xs \<Longrightarrow> foldl (\<lambda>xs s. if P s then xs[f s := v] else xs) xs ss ! j = (if \<exists>s\<in>set ss. P s \<and> f s = j then v else xs ! j)"
proof (induction ss arbitrary: xs)
  case (Cons s ss)
  let ?xs = "if P s then xs[f s := v] else xs"
  have "j < length ?xs" using Cons.prems by simp
  from Cons.IH[OF this] show ?case using Cons.prems by (auto simp: nth_list_update)
qed simp

lemma matched_unique: "matched slots ids \<Longrightarrow> s < length ids \<Longrightarrow> t < length ids \<Longrightarrow> ids ! s = int i \<Longrightarrow> ids ! t = int i \<Longrightarrow> i < length slots \<Longrightarrow> s = t"
  using matchedD(1) by (metis of_nat_eq_iff)

text \<open>The first slots are handed to a block of ids.\<close>

lemma matched_block:
  assumes m: "matched slots ids" and len: "length slots' = length slots" "length ids' = length ids"
    and b: "E \<le> length ids" "base + E \<le> length slots"
    and ids': "\<And>s. s < length ids \<Longrightarrow> ids' ! s = (if s < E then int (base + s) else if int base \<le> ids ! s \<and> ids ! s < int (base + E) then - 1 else ids ! s)"
    and sl': "\<And>i. i < length slots \<Longrightarrow> slots' ! i = (if base \<le> i \<and> i < base + E then int (i - base) else if \<exists>s<E. ids ! s = int i then - 1 else slots ! i)"
  shows "matched slots' ids'"
proof (rule matchedI, unfold len)
  fix s i assume si: "s < length ids" "i < length slots"
  note iff = matchedD(1)[OF m si]
  show "(ids' ! s = int i) = (slots' ! i = int s)"
  proof (cases "base \<le> i \<and> i < base + E")
    case True
    then show ?thesis using ids'[OF si(1)] sl'[OF si(2)] by auto
  next
    case False
    show ?thesis
    proof (cases "s < E")
      case True
      then show ?thesis using False iff ids'[OF si(1)] sl'[OF si(2)] by auto
    next
      case s: False
      have "s = t" if "t < E" "ids ! t = int i" "ids ! s = int i" for t
        using matched_unique[OF m si(1) _ that(3,2) si(2)] that(1) b(1) by simp
      then have "(\<exists>t<E. ids ! t = int i) \<longrightarrow> ids ! s \<noteq> int i" using s by auto
      then show ?thesis using False s iff ids'[OF si(1)] sl'[OF si(2)] by auto
    qed
  qed
next
  fix s assume s: "s < length ids"
  then show "ids' ! s = - 1 \<or> (\<exists>i<length slots. ids' ! s = int i)" using ids'[OF s] matchedD(2)[OF m s] b by (auto intro!: exI[of _ "base + s"])
next
  fix i assume i: "i < length slots"
  then show "slots' ! i = - 1 \<or> (\<exists>s<length ids. slots' ! i = int s)" using sl'[OF i] matchedD(3)[OF m i] b(1) by (auto intro!: exI[of _ "i - base"])
qed

lemma materialize_ok:
  assumes ok: "xc_ok c" and l: "l < xc_layers c"
  shows "\<exists>c1 c2. materialize_layer l c = Some c1 \<and> copy_missing c1 = Some c2 \<and> xc_ok c2 \<and> same_config c c2 \<and>
    (\<forall>e<xc_experts c. holds c2 e (flat_id c l e))"
proof -
  let ?E = "xc_experts c" and ?base = "flat_id c l 0"
  have sh: "xc_shape c" and m: "matched (xc_slot_for_id c) (xc_id_of_slot c)" and con: "content_except {} c" using ok by (simp_all add: xc_ok_def)
  have len: "length (xc_usage c) = xc_size c" "length (xc_id_of_slot c) = xc_size c" "length (xc_slot_for_id c) = xc_layers c * ?E" "?E \<le> xc_size c"
    using sh by (simp_all add: xc_shape_def)
  have blk: "?base + ?E \<le> length (xc_slot_for_id c)"
  proof -
    have "(l + 1) * ?E \<le> xc_layers c * ?E" using l by (intro mult_le_mono1) simp
    then show ?thesis by (simp add: flat_id_def len(3))
  qed
  obtain c1 where c1: "materialize_layer l c = Some c1" using l by (simp add: materialize_layer_def bind_assert Let_def)
  let ?same = "\<lambda>s. int ?base \<le> xc_id_of_slot c ! s \<and> xc_id_of_slot c ! s < int (?base + ?E)"
  define slots where "slots = foldl (\<lambda>sl s. if 0 \<le> xc_id_of_slot c ! s \<and> \<not> ?same s then sl[nat (xc_id_of_slot c ! s) := - 1] else sl) (xc_slot_for_id c) [0..<?E]"
  have e1: "xc_id_of_slot c1 = map (\<lambda>s. if s < ?E then int (?base + s) else if ?same s then - 1 else xc_id_of_slot c ! s) [0..<xc_size c]"
    "xc_usage c1 = map (\<lambda>s. if s < ?E then xc_step c + 1 else if ?same s then 0 else xc_usage c ! s) [0..<xc_size c]"
    "xc_slot_for_id c1 = foldl (\<lambda>sl e. sl[?base + e := int e]) slots [0..<?E]" "xc_plan c1 = map (\<lambda>e. (e, e)) [0..<?E]" "xc_step c1 = xc_step c + 1"
    "xc_pending_layer c1 = Some l" "xc_pending_whole c1" "xc_banks c1 = xc_banks c"
    using c1 l by (auto simp: materialize_layer_def bind_assert Let_def slots_def)
  have cfg: "xc_layers c1 = xc_layers c" "xc_experts c1 = ?E" "xc_size c1 = xc_size c" "xc_overlap c1 = xc_overlap c" "xc_unpinned c1 = xc_unpinned c"
    "xc_cpu_layers c1 = xc_cpu_layers c" "xc_recency c1 = xc_recency c" "xc_buffer_layer c1 = xc_buffer_layer c" "xc_released c1 = xc_released c" "flat_id c1 = flat_id c"
    using c1 l by (auto simp: materialize_layer_def bind_assert Let_def flat_id_def fun_eq_iff)
  have sl: "slots ! i = (if \<exists>s<?E. xc_id_of_slot c ! s = int i \<and> \<not> ?same s then - 1 else xc_slot_for_id c ! i)"
    if "i < length (xc_slot_for_id c)" for i
  proof -
    have "(\<exists>s\<in>set [0..<?E]. (0 \<le> xc_id_of_slot c ! s \<and> \<not> ?same s) \<and> nat (xc_id_of_slot c ! s) = i) \<longleftrightarrow>
        (\<exists>s<?E. xc_id_of_slot c ! s = int i \<and> \<not> ?same s)" by (metis atLeastLessThan_iff atLeast_upt lessThan_iff nat_int of_nat_0_le_iff int_nat_eq)
    then show ?thesis unfolding slots_def foldl_cond_nth[OF that] by (simp only:)
  qed
  have lsl: "length slots = length (xc_slot_for_id c)" by (simp add: slots_def)
  have m1: "matched (xc_slot_for_id c1) (xc_id_of_slot c1)"
  proof (rule matched_block[OF m])
    show "?E \<le> length (xc_id_of_slot c)" "?base + ?E \<le> length (xc_slot_for_id c)" using len blk by simp_all
    show "length (xc_id_of_slot c1) = length (xc_id_of_slot c)" "length (xc_slot_for_id c1) = length (xc_slot_for_id c)" using len lsl by (simp_all add: e1)
    show "xc_id_of_slot c1 ! s = (if s < ?E then int (?base + s) else if ?same s then - 1 else xc_id_of_slot c ! s)" if "s < length (xc_id_of_slot c)" for s
      using that len by (simp add: e1)
    show "xc_slot_for_id c1 ! i = (if ?base \<le> i \<and> i < ?base + ?E then int (i - ?base) else if \<exists>s<?E. xc_id_of_slot c ! s = int i then - 1 else xc_slot_for_id c ! i)"
      if "i < length (xc_slot_for_id c)" for i
      using that sl[OF that] lsl foldl_place_nth[of i slots ?base ?E] by (auto simp: e1(3))
  qed
  have us: "\<forall>u\<in>set (xc_usage c1). u \<le> xc_step c1"
  proof -
    have "xc_usage c ! s \<le> xc_step c" if "s < xc_size c" for s using ok that len by (simp add: xc_ok_def)
    then show ?thesis by (auto simp: e1 intro: le_SucI)
  qed
  have sh1: "xc_shape c1" using sh lsl by (simp add: xc_shape_def e1 cfg)
  define c2 where "c2 = map_banks (\<lambda>b. copy_rows (bk_source b ! l) (xc_plan c1) (bk_rows b)) c1"
  have cm: "copy_missing c1 = Some c2"
    by (simp add: copy_missing_def e1(6,7) c2_def cfg e1(4) bind_assert)
  have ce: "content_except (fst ` set (xc_plan c1)) c1"
    unfolding content_except_def
  proof (intro allI impI)
    fix s i assume s: "s < xc_size c1" "s \<notin> fst ` set (xc_plan c1)" "xc_id_of_slot c1 ! s = int i"
    have "fst ` set (xc_plan c1) = {..<?E}" by (auto simp: e1(4) image_image)
    with s have "\<not> s < ?E" "s < xc_size c" by (simp_all add: cfg)
    with s(3) have "xc_id_of_slot c ! s = int i" by (simp add: e1(1) split: if_splits)
    with con \<open>s < xc_size c\<close> have "holds c s i" by (simp add: content_except_def)
    then show "holds c1 s i" by (simp add: holds_def e1(8) cfg)
  qed
  have con2: "content_except {} c2" unfolding c2_def
    by (rule copy_plan_content[OF sh1 _ _ ce]) (use len in \<open>auto simp: e1 cfg flat_id_def comp_def\<close>)
  have "xc_shape c2" unfolding c2_def by (rule shape_map_banks[OF sh1]) simp
  then have ok2: "xc_ok c2" using m1 us con2 by (simp add: xc_ok_def c2_def)
  have "holds c2 e (flat_id c l e)" if "e < ?E" for e
    using con2 that len by (auto simp: content_except_def c2_def cfg e1 flat_id_def)
  moreover have "same_config c c2" by (simp add: same_config_def c2_def cfg map_banks_def comp_def e1)
  ultimately show ?thesis using c1 cm ok2 by blast
qed

section \<open>The double buffer\<close>

text \<open>The slots of a buffer.\<close>

definition buffer_slots :: "'w expert_cache \<Rightarrow> nat \<Rightarrow> nat set" where
  "buffer_slots c k = {k * xc_experts c..<k * xc_experts c + xc_experts c}"

lemma buffer_low: "k < 2 \<Longrightarrow> s \<in> buffer_slots c k \<Longrightarrow> s < 2 * xc_experts c"
  by (auto simp: buffer_slots_def less_2_cases_iff)

lemma buffer_disjoint: "j < 2 \<Longrightarrow> k < 2 \<Longrightarrow> j \<noteq> k \<Longrightarrow> s \<in> buffer_slots c j \<Longrightarrow> s \<notin> buffer_slots c k"
  by (auto simp: buffer_slots_def less_2_cases_iff)

lemma invalidate_fields [simp]:
  "xc_layers (invalidate_prefill_buffer k c) = xc_layers c" "xc_experts (invalidate_prefill_buffer k c) = xc_experts c"
  "xc_size (invalidate_prefill_buffer k c) = xc_size c" "xc_overlap (invalidate_prefill_buffer k c) = xc_overlap c"
  "xc_unpinned (invalidate_prefill_buffer k c) = xc_unpinned c" "xc_cpu_layers (invalidate_prefill_buffer k c) = xc_cpu_layers c"
  "xc_step (invalidate_prefill_buffer k c) = xc_step c" "xc_recency (invalidate_prefill_buffer k c) = xc_recency c"
  "xc_buffer_layer (invalidate_prefill_buffer k c) = xc_buffer_layer c" "xc_released (invalidate_prefill_buffer k c) = xc_released c"
  "xc_banks (invalidate_prefill_buffer k c) = xc_banks c" "xc_snapshot (invalidate_prefill_buffer k c) = xc_snapshot c"
  "length (xc_usage (invalidate_prefill_buffer k c)) = length (xc_usage c)"
  "length (xc_id_of_slot (invalidate_prefill_buffer k c)) = length (xc_id_of_slot c)"
  "length (xc_slot_for_id (invalidate_prefill_buffer k c)) = length (xc_slot_for_id c)"
  by (simp_all add: invalidate_prefill_buffer_def Let_def)

lemma invalidate_id: "s < length (xc_id_of_slot c) \<Longrightarrow>
    xc_id_of_slot (invalidate_prefill_buffer k c) ! s = (if s \<in> buffer_slots c k then - 1 else xc_id_of_slot c ! s)"
  using foldl_update_nth[of s "xc_id_of_slot c" "\<lambda>s. s"] by (simp add: invalidate_prefill_buffer_def Let_def buffer_slots_def)

lemma invalidate_usage: "s < length (xc_usage c) \<Longrightarrow>
    xc_usage (invalidate_prefill_buffer k c) ! s = (if s \<in> buffer_slots c k then 0 else xc_usage c ! s)"
  using foldl_update_nth[of s "xc_usage c" "\<lambda>s. s"] by (simp add: invalidate_prefill_buffer_def Let_def buffer_slots_def)

lemma invalidate_slot:
  assumes "i < length (xc_slot_for_id c)"
  shows "xc_slot_for_id (invalidate_prefill_buffer k c) ! i = (if \<exists>s\<in>buffer_slots c k. xc_id_of_slot c ! s = int i then - 1 else xc_slot_for_id c ! i)"
proof -
  have "i \<in> nat ` set (filter (\<lambda>i. 0 \<le> i) (map (\<lambda>s. xc_id_of_slot c ! s) [k * xc_experts c..<k * xc_experts c + xc_experts c])) \<longleftrightarrow>
      (\<exists>s\<in>buffer_slots c k. xc_id_of_slot c ! s = int i)" by (auto simp: buffer_slots_def image_iff)
  then show ?thesis using foldl_update_nth[OF assms, of nat "- 1"] by (simp add: invalidate_prefill_buffer_def Let_def)
qed

lemma invalidate_matched:
  assumes "xc_shape c" "matched (xc_slot_for_id c) (xc_id_of_slot c)" "k < 2" "xc_overlap c"
  shows "matched (xc_slot_for_id (invalidate_prefill_buffer k c)) (xc_id_of_slot (invalidate_prefill_buffer k c))"
proof (rule matched_drop[OF assms(2), where X = "buffer_slots c k"])
  fix i assume i: "i < length (xc_slot_for_id c)"
  have "s < length (xc_id_of_slot c)" if "s \<in> buffer_slots c k" for s
    using buffer_low[OF assms(3) that] assms(1,4) by (simp add: xc_shape_def)
  then show "xc_slot_for_id (invalidate_prefill_buffer k c) ! i =
      (if \<exists>s\<in>buffer_slots c k. s < length (xc_id_of_slot c) \<and> xc_id_of_slot c ! s = int i then - 1 else xc_slot_for_id c ! i)"
    unfolding invalidate_slot[OF i] by (intro if_cong) auto
qed (simp_all add: invalidate_id)

text \<open>A snapshot taken when the chunk began still tells which experts can be gathered.\<close>

definition snap_ok :: "'w expert_cache \<Rightarrow> bool" where
  "snap_ok c \<longleftrightarrow> (\<forall>sn. xc_snapshot c = Some sn \<longrightarrow>
     (\<forall>i<xc_layers c * xc_experts c. 2 * int (xc_experts c) \<le> sn ! i \<longleftrightarrow> 2 * int (xc_experts c) \<le> xc_slot_for_id c ! i))"

definition buffered :: "'w expert_cache \<Rightarrow> nat \<Rightarrow> nat \<Rightarrow> bool" where
  "buffered c k l \<longleftrightarrow> (\<forall>b\<in>set (xc_banks c). \<forall>e<xc_experts c. bk_rows b ! (k * xc_experts c + e) = bk_source b ! l ! e)"

text \<open>Within a prefill chunk.\<close>

definition chunk_ok :: "'w expert_cache \<Rightarrow> bool" where
  "chunk_ok c \<longleftrightarrow> xc_ok c \<and> xc_overlap c \<and> snap_ok c \<and>
     (\<forall>k<2. \<forall>l. xc_buffer_layer c ! k = Some l \<longrightarrow> l < xc_layers c \<and> buffered c k l)"

lemma snap_invalidate:
  assumes "xc_shape c" "matched (xc_slot_for_id c) (xc_id_of_slot c)" "k < 2" "xc_overlap c" "snap_ok c"
  shows "snap_ok (invalidate_prefill_buffer k c)"
proof -
  have "2 * int (xc_experts c) \<le> xc_slot_for_id (invalidate_prefill_buffer k c) ! i \<longleftrightarrow> 2 * int (xc_experts c) \<le> xc_slot_for_id c ! i"
    if i: "i < length (xc_slot_for_id c)" for i
  proof -
    have "xc_slot_for_id c ! i = int s" if "s \<in> buffer_slots c k" "xc_id_of_slot c ! s = int i" for s
      using matchedD(1)[OF assms(2) _ i, of s] buffer_low[OF assms(3) that(1)] that(2) assms(1,4) by (simp add: xc_shape_def)
    then have "xc_slot_for_id c ! i < 2 * int (xc_experts c)" if "\<exists>s\<in>buffer_slots c k. xc_id_of_slot c ! s = int i"
      using buffer_low[OF assms(3)] that by fastforce
    then show ?thesis unfolding invalidate_slot[OF i] by (cases "\<exists>s\<in>buffer_slots c k. xc_id_of_slot c ! s = int i") auto
  qed
  with assms(1,5) show ?thesis by (simp add: snap_ok_def xc_shape_def)
qed

text \<open>Moving a layer into buffer \<open>k\<close>: \<open>R\<close> gives the new rows of each bank.\<close>

lemma moved_ok:
  assumes c: "chunk_ok c" and k: "k < 2" and l: "l < xc_layers c"
    and R: "\<And>b. b \<in> set (xc_banks c) \<Longrightarrow> length (R b) = length (bk_rows b)"
      "\<And>b e. b \<in> set (xc_banks c) \<Longrightarrow> e < xc_experts c \<Longrightarrow> R b ! (k * xc_experts c + e) = bk_source b ! l ! e"
      "\<And>b s. b \<in> set (xc_banks c) \<Longrightarrow> s < xc_size c \<Longrightarrow> s \<notin> buffer_slots c k \<Longrightarrow> R b ! s = bk_rows b ! s"
  defines "c' \<equiv> map_banks R (invalidate_prefill_buffer k c)"
  shows "chunk_ok (c'\<lparr>xc_hit_rows := h, xc_total_rows := t, xc_buffer_layer := (xc_buffer_layer c)[k := Some l], xc_released := (xc_released c)[k := False]\<rparr>) \<and>
    same_config c c'"
proof -
  let ?c = "c'\<lparr>xc_hit_rows := h, xc_total_rows := t, xc_buffer_layer := (xc_buffer_layer c)[k := Some l], xc_released := (xc_released c)[k := False]\<rparr>"
  have ok: "xc_shape c" "matched (xc_slot_for_id c) (xc_id_of_slot c)" "\<forall>u\<in>set (xc_usage c). u \<le> xc_step c" "content_except {} c" "xc_overlap c" "snap_ok c"
    using c by (simp_all add: chunk_ok_def xc_ok_def)
  have len: "length (xc_usage c) = xc_size c" "length (xc_id_of_slot c) = xc_size c" "2 * xc_experts c \<le> xc_size c" "length (xc_buffer_layer c) = 2"
    using ok(1,5) by (simp_all add: xc_shape_def)
  have cfg: "xc_layers c' = xc_layers c" "xc_experts c' = xc_experts c" "xc_size c' = xc_size c" "xc_overlap c' = xc_overlap c"
    "xc_slot_for_id c' = xc_slot_for_id (invalidate_prefill_buffer k c)" "xc_id_of_slot c' = xc_id_of_slot (invalidate_prefill_buffer k c)"
    "xc_usage c' = xc_usage (invalidate_prefill_buffer k c)" "xc_step c' = xc_step c" "xc_snapshot c' = xc_snapshot c"
    "xc_banks c' = map (\<lambda>b. b\<lparr>bk_rows := R b\<rparr>) (xc_banks c)" "xc_cpu_layers c' = xc_cpu_layers c"
    "xc_unpinned c' = xc_unpinned c" "xc_recency c' = xc_recency c"
    by (simp_all add: c'_def) (simp add: map_banks_def)
  have sh: "xc_shape ?c" using ok(1) R(1) by (simp add: xc_shape_def cfg)
  have m: "matched (xc_slot_for_id ?c) (xc_id_of_slot ?c)" using invalidate_matched[OF ok(1,2) k ok(5)] by (simp add: cfg)
  have "xc_usage (invalidate_prefill_buffer k c) ! s \<le> xc_step c" if "s < xc_size c" for s
    using invalidate_usage[of s c k] that len ok(3) by (simp split: if_splits)
  then have us: "\<forall>u\<in>set (xc_usage ?c). u \<le> xc_step ?c" using len by (auto simp: cfg in_set_conv_nth)
  have con: "content_except {} ?c" unfolding content_except_def
  proof (intro allI impI)
    fix s i assume s: "s < xc_size ?c" "xc_id_of_slot ?c ! s = int i"
    then have sn: "s \<notin> buffer_slots c k" "xc_id_of_slot c ! s = int i" "s < xc_size c" using invalidate_id[of s c k] len by (simp_all add: cfg split: if_splits)
    with ok(4) have "holds c s i" by (simp add: content_except_def)
    then show "holds ?c s i" using R(3) sn by (simp add: holds_def cfg)
  qed
  have "snap_ok c'" using snap_invalidate[OF ok(1,2) k ok(5,6)] by (simp add: snap_ok_def cfg)
  then have sn: "snap_ok ?c" by (simp add: snap_ok_def)
  have bl: "m < xc_layers c \<and> buffered ?c j m" if j: "j < 2" "(xc_buffer_layer c)[k := Some l] ! j = Some m" for j m
  proof (cases "j = k")
    case True
    with j len k l R(2) show ?thesis by (simp add: buffered_def cfg)
  next
    case False
    with j c have "m < xc_layers c \<and> buffered c j m" by (simp add: chunk_ok_def)
    moreover have "j * xc_experts c + e \<notin> buffer_slots c k" "j * xc_experts c + e < xc_size c" if "e < xc_experts c" for e
    proof -
      have "j * xc_experts c + e \<in> buffer_slots c j" using that by (simp add: buffer_slots_def)
      with buffer_disjoint[OF j(1) k False] buffer_low[OF j(1)] len(3) show "j * xc_experts c + e \<notin> buffer_slots c k" "j * xc_experts c + e < xc_size c"
        by (blast, meson less_le_trans)
    qed
    ultimately show ?thesis using R(3) by (simp add: buffered_def cfg)
  qed
  have "xc_ok ?c" using sh m us con by (simp add: xc_ok_def)
  then have "chunk_ok ?c" using sn bl ok(5) by (simp add: chunk_ok_def cfg)
  moreover have "same_config c c'" by (simp add: same_config_def cfg comp_def)
  ultimately show ?thesis by blast
qed

definition gather_rows :: "nat \<Rightarrow> nat \<Rightarrow> 'w expert_cache \<Rightarrow> (nat \<times> nat) list" where
  "gather_rows layer k c = map (\<lambda>e. (k * xc_experts c + e, nat (xc_slot_for_id c ! flat_id c layer e)))
     (filter (\<lambda>e. 2 * int (xc_experts c) \<le> xc_slot_for_id c ! flat_id c layer e) [0..<xc_experts c])"

definition miss_rows :: "nat \<Rightarrow> nat \<Rightarrow> int list \<Rightarrow> 'w expert_cache \<Rightarrow> (nat \<times> nat) list" where
  "miss_rows layer k sn c = map (\<lambda>e. (k * xc_experts c + e, e)) (filter (\<lambda>e. \<not> 2 * int (xc_experts c) \<le> sn ! flat_id c layer e) [0..<xc_experts c])"

definition all_rows :: "nat \<Rightarrow> 'w expert_cache \<Rightarrow> (nat \<times> nat) list" where
  "all_rows k c = map (\<lambda>e. (k * xc_experts c + e, e)) [0..<xc_experts c]"

definition split_rows :: "nat \<Rightarrow> nat \<Rightarrow> int list \<Rightarrow> 'w expert_cache \<Rightarrow> 'w bank \<Rightarrow> 'w list" where
  "split_rows layer k sn c b =
     (if bk_small b then copy_rows (bk_source b ! layer) (all_rows k c) (bk_rows b)
      else copy_rows (bk_source b ! layer) (miss_rows layer k sn c) (copy_rows (bk_rows b) (gather_rows layer k c) (bk_rows b)))"

lemma bank_update [simp]: "bk_small (b\<lparr>bk_rows := r\<rparr>) = bk_small b" "bk_source (b\<lparr>bk_rows := r\<rparr>) = bk_source b"
  by simp_all

lemma prefetch_split_eq:
  "\<exists>h t. prefetch_split layer k sn c = (map_banks (split_rows layer k sn c) (invalidate_prefill_buffer k c))\<lparr>xc_hit_rows := h, xc_total_rows := t\<rparr>"
proof -
  define f where "f = (\<lambda>b :: 'a bank. if bk_small b then bk_rows b else copy_rows (bk_rows b) (gather_rows layer k c) (bk_rows b))"
  define g where "g = (\<lambda>b :: 'a bank. copy_rows (bk_source b ! layer) (if bk_small b then all_rows k c else miss_rows layer k sn c) (bk_rows b))"
  have ps: "prefetch_split layer k sn c = (let c' = map_banks g (invalidate_prefill_buffer k (map_banks f c))
      in c'\<lparr>xc_hit_rows := xc_hit_rows c' + length (filter (\<lambda>e. 2 * int (xc_experts c) \<le> sn ! flat_id c layer e) [0..<xc_experts c]), xc_total_rows := xc_total_rows c' + xc_experts c\<rparr>)"
    unfolding prefetch_split_def Let_def f_def g_def gather_rows_def miss_rows_def all_rows_def run_rows_runs by simp
  have "map_banks g (invalidate_prefill_buffer k (map_banks f c)) = map_banks (split_rows layer k sn c) (invalidate_prefill_buffer k c)"
    by (simp add: map_banks_def invalidate_prefill_buffer_def Let_def f_def g_def split_rows_def)
  then show ?thesis unfolding ps Let_def by (intro exI) simp
qed

lemma all_rows_copied:
  assumes "length rows = xc_size c" "2 * xc_experts c \<le> xc_size c" "k < 2"
  shows "e < xc_experts c \<Longrightarrow> copy_rows src (all_rows k c) rows ! (k * xc_experts c + e) = src ! e"
    and "s \<notin> buffer_slots c k \<Longrightarrow> copy_rows src (all_rows k c) rows ! s = rows ! s"
proof -
  assume e: "e < xc_experts c"
  then have "k * xc_experts c + e < length rows" using buffer_low[OF assms(3), of "k * xc_experts c + e" c] assms(1,2) by (simp add: buffer_slots_def)
  moreover have "distinct (map fst (all_rows k c))" by (simp add: all_rows_def comp_def distinct_map inj_on_def)
  ultimately show "copy_rows src (all_rows k c) rows ! (k * xc_experts c + e) = src ! e"
    using e by (intro copy_rows_at) (auto simp: all_rows_def)
next
  assume "s \<notin> buffer_slots c k"
  then show "copy_rows src (all_rows k c) rows ! s = rows ! s" by (intro copy_rows_other) (auto simp: all_rows_def buffer_slots_def)
qed

lemma split_rows_ok:
  assumes c: "chunk_ok c" and k: "k < 2" and l: "l < xc_layers c" and sn: "xc_snapshot c = Some sn" and b: "b \<in> set (xc_banks c)"
  shows "length (split_rows l k sn c b) = length (bk_rows b)"
    and "e < xc_experts c \<Longrightarrow> split_rows l k sn c b ! (k * xc_experts c + e) = bk_source b ! l ! e"
    and "s < xc_size c \<Longrightarrow> s \<notin> buffer_slots c k \<Longrightarrow> split_rows l k sn c b ! s = bk_rows b ! s"
proof -
  have sh: "xc_shape c" and m: "matched (xc_slot_for_id c) (xc_id_of_slot c)" and con: "content_except {} c" and ov: "xc_overlap c" and so: "snap_ok c"
    using c by (simp_all add: chunk_ok_def xc_ok_def)
  have len: "length (bk_rows b) = xc_size c" "2 * xc_experts c \<le> xc_size c" "length (xc_id_of_slot c) = xc_size c"
    "length (xc_slot_for_id c) = xc_layers c * xc_experts c" using sh b ov by (simp_all add: xc_shape_def)
  show "length (split_rows l k sn c b) = length (bk_rows b)" by (simp add: split_rows_def)
  have d: "distinct (map fst (gather_rows l k c))" "distinct (map fst (miss_rows l k sn c))"
    by (simp_all add: gather_rows_def miss_rows_def comp_def distinct_map inj_on_def)
  show "split_rows l k sn c b ! s = bk_rows b ! s" if "s < xc_size c" "s \<notin> buffer_slots c k"
  proof -
    have "s \<notin> fst ` set (gather_rows l k c)" "s \<notin> fst ` set (miss_rows l k sn c)" using that(2) by (auto simp: gather_rows_def miss_rows_def buffer_slots_def)
    then show ?thesis using that all_rows_copied(2)[OF len(1,2) k] by (simp add: split_rows_def copy_rows_other)
  qed
  assume e: "e < xc_experts c"
  let ?p = "k * xc_experts c + e" and ?i = "flat_id c l e"
  have p: "?p < xc_size c" using buffer_low[OF k, of ?p c] e len(2) by (simp add: buffer_slots_def)
  have i: "?i < length (xc_slot_for_id c)" using flat_less[OF l e] len(4) by simp
  have hit: "2 * int (xc_experts c) \<le> sn ! ?i \<longleftrightarrow> 2 * int (xc_experts c) \<le> xc_slot_for_id c ! ?i"
    using so sn i len(4) by (simp add: snap_ok_def)
  show "split_rows l k sn c b ! ?p = bk_source b ! l ! e"
  proof (cases "bk_small b")
    case True
    then show ?thesis using all_rows_copied(1)[OF len(1,2) k e] by (simp add: split_rows_def)
  next
    case big: False
    show ?thesis
    proof (cases "2 * int (xc_experts c) \<le> sn ! ?i")
      case False
      then have "(?p, e) \<in> set (miss_rows l k sn c)" using e by (auto simp: miss_rows_def)
      then show ?thesis using big p len(1) by (simp add: split_rows_def copy_rows_at[OF d(2)])
    next
      case True
      then have np: "?p \<notin> fst ` set (miss_rows l k sn c)" by (auto simp: miss_rows_def)
      from True hit have slot: "2 * int (xc_experts c) \<le> xc_slot_for_id c ! ?i" by simp
      with matchedD(3)[OF m i] obtain s where s: "s < xc_size c" "xc_slot_for_id c ! ?i = int s" using len(3) by auto
      then have "xc_id_of_slot c ! s = int ?i" using matchedD(1)[OF m _ i, of s] len(3) by simp
      then have h: "bk_rows b ! s = bk_source b ! l ! e" using con s(1) b e by (simp add: content_except_def holds_def)
      have "(?p, s) \<in> set (gather_rows l k c)" using e slot s(2) by (auto simp: gather_rows_def)
      from copy_rows_at[OF d(1) this, of "bk_rows b" "bk_rows b"] p len(1) h np big show ?thesis by (simp add: split_rows_def copy_rows_other)
    qed
  qed
qed

lemma prefetch_ok:
  assumes c: "chunk_ok c" and l: "l < xc_layers c"
    and free: "xc_buffer_layer c ! (l mod 2) = Some l \<or> xc_buffer_layer c ! (l mod 2) = None \<or> xc_released c ! (l mod 2)"
  shows "\<exists>c'. prefetch_prefill_layer l c = Some c' \<and> chunk_ok c' \<and> same_config c c' \<and> xc_buffer_layer c' = (xc_buffer_layer c)[l mod 2 := Some l] \<and>
    (\<forall>j<2. j \<noteq> l mod 2 \<longrightarrow> xc_released c' ! j = xc_released c ! j)"
proof (cases "xc_buffer_layer c ! (l mod 2) = Some l")
  case True
  moreover have "length (xc_buffer_layer c) = 2" using c by (simp add: chunk_ok_def xc_ok_def xc_shape_def)
  ultimately have "(xc_buffer_layer c)[l mod 2 := Some l] = xc_buffer_layer c" by (metis list_update_id)
  then show ?thesis using True c l by (intro exI[of _ c]) (simp add: prefetch_prefill_layer_def Let_def same_config_def)
next
  case False
  let ?k = "l mod 2"
  have k: "?k < 2" by simp
  have ov: "xc_overlap c" using c by (simp add: chunk_ok_def)
  have len: "length (bk_rows b) = xc_size c" "2 * xc_experts c \<le> xc_size c" if "b \<in> set (xc_banks c)" for b
    using c ov that by (simp_all add: chunk_ok_def xc_ok_def xc_shape_def)
  define fin where "fin = (\<lambda>c'. c'\<lparr>xc_buffer_layer := (xc_buffer_layer c')[?k := Some l], xc_released := (xc_released c')[?k := False]\<rparr> :: 'a expert_cache)"
  obtain R h t where R: "chunk_ok ((map_banks R (invalidate_prefill_buffer ?k c))\<lparr>xc_hit_rows := h, xc_total_rows := t,
        xc_buffer_layer := (xc_buffer_layer c)[?k := Some l], xc_released := (xc_released c)[?k := False]\<rparr>)" "same_config c (map_banks R (invalidate_prefill_buffer ?k c))"
    and pf: "prefetch_prefill_layer l c = Some (fin ((map_banks R (invalidate_prefill_buffer ?k c))\<lparr>xc_hit_rows := h, xc_total_rows := t\<rparr>))"
  proof (cases "xc_snapshot c")
    case None
    let ?R = "\<lambda>b. copy_rows (bk_source b ! l) (all_rows ?k c) (bk_rows b)"
    from False free l ov None have "prefetch_prefill_layer l c = Some (fin (map_banks ?R (invalidate_prefill_buffer ?k c)))"
      by (simp add: prefetch_prefill_layer_def Let_def bind_assert fin_def prefetch_whole_def all_rows_def)
    moreover have "map_banks ?R (invalidate_prefill_buffer ?k c) = (map_banks ?R (invalidate_prefill_buffer ?k c))\<lparr>xc_hit_rows := xc_hit_rows c, xc_total_rows := xc_total_rows c\<rparr>"
      by (simp add: map_banks_def invalidate_prefill_buffer_def Let_def)
    ultimately have "prefetch_prefill_layer l c = Some (fin ((map_banks ?R (invalidate_prefill_buffer ?k c))\<lparr>xc_hit_rows := xc_hit_rows c, xc_total_rows := xc_total_rows c\<rparr>))" by simp
    moreover note moved_ok[OF c k l, where R = ?R and h = "xc_hit_rows c" and t = "xc_total_rows c"]
    ultimately show ?thesis using that[where R = ?R and h = "xc_hit_rows c" and t = "xc_total_rows c"] all_rows_copied[OF len k] by simp
  next
    case (Some sn)
    from prefetch_split_eq[of l ?k sn c] obtain h t where ht: "prefetch_split l ?k sn c = (map_banks (split_rows l ?k sn c) (invalidate_prefill_buffer ?k c))\<lparr>xc_hit_rows := h, xc_total_rows := t\<rparr>" by blast
    from False free l ov Some ht have "prefetch_prefill_layer l c = Some (fin ((map_banks (split_rows l ?k sn c) (invalidate_prefill_buffer ?k c))\<lparr>xc_hit_rows := h, xc_total_rows := t\<rparr>))"
      by (simp add: prefetch_prefill_layer_def Let_def bind_assert fin_def)
    moreover note moved_ok[OF c k l, where R = "split_rows l ?k sn c" and h = h and t = t]
    ultimately show ?thesis using that[where R = "split_rows l ?k sn c" and h = h and t = t] split_rows_ok[OF c k l Some] by simp
  qed
  define c' where "c' = fin ((map_banks R (invalidate_prefill_buffer ?k c))\<lparr>xc_hit_rows := h, xc_total_rows := t\<rparr>)"
  have "c' = (map_banks R (invalidate_prefill_buffer ?k c))\<lparr>xc_hit_rows := h, xc_total_rows := t,
      xc_buffer_layer := (xc_buffer_layer c)[?k := Some l], xc_released := (xc_released c)[?k := False]\<rparr>" by (simp add: c'_def fin_def)
  with R have "chunk_ok c'" "same_config c c'" "xc_buffer_layer c' = (xc_buffer_layer c)[?k := Some l]" "xc_released c' = (xc_released c)[?k := False]"
    by (simp_all add: same_config_def)
  with pf show ?thesis unfolding c'_def[symmetric] by (intro exI[of _ c']) (simp add: nth_list_update)
qed

section \<open>A prefill pass\<close>

lemma same_config_trans: "same_config a b \<Longrightarrow> same_config b c \<Longrightarrow> same_config a c"
  by (simp add: same_config_def)

lemma begin_ok: "xc_ok c \<Longrightarrow> xc_overlap c \<Longrightarrow> chunk_ok (begin_prefill c) \<and> same_config c (begin_prefill c) \<and>
    xc_buffer_layer (begin_prefill c) = [None, None]"
  by (auto simp: begin_prefill_def chunk_ok_def xc_ok_def xc_shape_def content_except_def holds_def snap_ok_def same_config_def less_2_cases_iff)

lemma release_right: "chunk_ok c \<Longrightarrow> xc_buffer_layer c ! (l mod 2) = Some l \<Longrightarrow>
    chunk_ok (release_prefill_layer l c) \<and> same_config c (release_prefill_layer l c) \<and> xc_buffer_layer (release_prefill_layer l c) = xc_buffer_layer c \<and>
    xc_released (release_prefill_layer l c) = (xc_released c)[l mod 2 := True]"
  by (auto simp: release_prefill_layer_def chunk_ok_def xc_ok_def xc_shape_def content_except_def holds_def snap_ok_def same_config_def buffered_def)

text \<open>The buffers when layer \<open>l\<close> is due: its own is free or has it, the other one is free.\<close>

definition due :: "'w expert_cache \<Rightarrow> nat \<Rightarrow> bool" where
  "due c l \<longleftrightarrow> (xc_buffer_layer c ! (l mod 2) = Some l \<or> xc_buffer_layer c ! (l mod 2) = None \<or> xc_released c ! (l mod 2)) \<and>
     (xc_buffer_layer c ! (Suc l mod 2) = None \<or> xc_released c ! (Suc l mod 2))"

definition layer_views :: "'w expert_cache \<Rightarrow> nat \<Rightarrow> 'w list list" where
  "layer_views c l = map (\<lambda>b. bk_source b ! l) (xc_banks c)"

lemma layer_views_config: "same_config c c' \<Longrightarrow> layer_views c' = layer_views c"
proof
  fix l
  assume "same_config c c'"
  then have "map (\<lambda>src. src ! l) (map bk_source (xc_banks c')) = map (\<lambda>src. src ! l) (map bk_source (xc_banks c))" by (simp add: same_config_def)
  then show "layer_views c' l = layer_views c l" by (simp add: layer_views_def comp_def)
qed

lemma wait_ok:
  assumes c: "chunk_ok c" and l: "l < xc_layers c" "xc_buffer_layer c ! (l mod 2) = Some l"
  shows "wait_prefill_layer l c = Some (layer_views c l, c)"
proof -
  have "slice (l mod 2 * xc_experts c) (l mod 2 * xc_experts c + xc_experts c) (bk_rows b) = bk_source b ! l" if b: "b \<in> set (xc_banks c)" for b
  proof (rule nth_equalityI)
    have len: "length (bk_rows b) = xc_size c" "2 * xc_experts c \<le> xc_size c" "length (bk_source b ! l) = xc_experts c"
      using c b l(1) by (auto simp: chunk_ok_def xc_ok_def xc_shape_def)
    have "l mod 2 * xc_experts c + xc_experts c \<le> 2 * xc_experts c" by (cases "l mod 2 = 0") auto
    then have room: "l mod 2 * xc_experts c + xc_experts c \<le> length (bk_rows b)" unfolding len(1) using len(2) by (rule le_trans)
    then show "length (slice (l mod 2 * xc_experts c) (l mod 2 * xc_experts c + xc_experts c) (bk_rows b)) = length (bk_source b ! l)"
      using len by (simp add: slice_def)
    have "buffered c (l mod 2) l" using c l(2) by (simp add: chunk_ok_def)
    moreover fix e assume "e < length (slice (l mod 2 * xc_experts c) (l mod 2 * xc_experts c + xc_experts c) (bk_rows b))"
    ultimately show "slice (l mod 2 * xc_experts c) (l mod 2 * xc_experts c + xc_experts c) (bk_rows b) ! e = bk_source b ! l ! e"
      using b room by (simp add: slice_def buffered_def)
  qed
  moreover have "xc_overlap c" using c by (simp add: chunk_ok_def)
  ultimately show ?thesis using l by (simp add: wait_prefill_layer_def bind_assert prefetch_prefill_layer_def Let_def layer_views_def)
qed

definition overlap_step :: "nat \<Rightarrow> 'w expert_cache \<Rightarrow> ('w list list \<times> 'w expert_cache) option" where
  "overlap_step layer c = do {
     c \<leftarrow> prefetch_prefill_layer layer c;
     c \<leftarrow> prefetch_prefill_layer (layer + 1) c;
     (views, c) \<leftarrow> wait_prefill_layer layer c;
     Some (views, release_prefill_layer layer c) }"

lemma overlap_step_ok:
  assumes c: "chunk_ok c" and l: "l < xc_layers c" and d: "due c l"
  shows "\<exists>c'. overlap_step l c = Some (layer_views c l, c') \<and> chunk_ok c' \<and> same_config c c' \<and> due c' (Suc l)"
proof -
  have bl: "length (xc_buffer_layer c) = 2" and rl: "length (xc_released c) = 2" using c by (simp_all add: chunk_ok_def xc_ok_def xc_shape_def)
  have ne: "Suc l mod 2 \<noteq> l mod 2" "Suc l mod 2 < 2" "l mod 2 < 2" by presburger+
  from prefetch_ok[OF c l] d obtain c1 where c1: "prefetch_prefill_layer l c = Some c1" "chunk_ok c1" "same_config c c1"
    "xc_buffer_layer c1 = (xc_buffer_layer c)[l mod 2 := Some l]" "xc_released c1 ! (Suc l mod 2) = xc_released c ! (Suc l mod 2)"
    using ne unfolding due_def by blast
  have b1: "xc_buffer_layer c1 ! (l mod 2) = Some l" "xc_buffer_layer c1 ! (Suc l mod 2) = xc_buffer_layer c ! (Suc l mod 2)"
    using c1(4) bl ne by (simp_all add: nth_list_update)
  obtain c2 where c2: "prefetch_prefill_layer (Suc l) c1 = Some c2" "chunk_ok c2" "same_config c1 c2" "xc_buffer_layer c2 ! (l mod 2) = Some l"
    "xc_buffer_layer c2 ! (Suc l mod 2) = Some (Suc l) \<or> xc_buffer_layer c2 ! (Suc l mod 2) = None \<or> xc_released c2 ! (Suc l mod 2)"
  proof (cases "Suc l < xc_layers c1")
    case True
    have bl1: "length (xc_buffer_layer c1) = 2" using c1(4) bl by simp
    from prefetch_ok[OF c1(2) True] d b1(2) c1(5) obtain c2 where "prefetch_prefill_layer (Suc l) c1 = Some c2" "chunk_ok c2" "same_config c1 c2"
      "xc_buffer_layer c2 = (xc_buffer_layer c1)[Suc l mod 2 := Some (Suc l)]" unfolding due_def by auto
    then show ?thesis using that[of c2] b1(1) bl1 ne by (simp add: nth_list_update)
  next
    case False
    then have "prefetch_prefill_layer (Suc l) c1 = Some c1" by (simp add: prefetch_prefill_layer_def)
    moreover have "xc_buffer_layer c1 ! (Suc l mod 2) = None \<or> xc_released c1 ! (Suc l mod 2)" using d b1(2) c1(5) by (simp add: due_def)
    ultimately show ?thesis using that[of c1] c1(2) b1(1) by (simp add: same_config_def)
  qed
  have l2: "l < xc_layers c2" using l c1(3) c2(3) by (simp add: same_config_def)
  note r = release_right[OF c2(2,4)]
  have cfg: "same_config c c2" using same_config_trans[OF c1(3) c2(3)] .
  have st: "overlap_step l c = Some (layer_views c l, release_prefill_layer l c2)"
    using c1(1) c2(1) wait_ok[OF c2(2) l2 c2(4)] layer_views_config[OF cfg] by (simp add: overlap_step_def)
  have rl2: "length (xc_released c2) = 2" using c2(2) by (simp add: chunk_ok_def xc_ok_def xc_shape_def)
  have "Suc (Suc l) mod 2 = l mod 2" by presburger
  then have "due (release_prefill_layer l c2) (Suc l)" using r c2(5) rl2 ne by (auto simp: due_def nth_list_update)
  with st r same_config_trans[OF cfg, of "release_prefill_layer l c2"] show ?thesis by blast
qed

lemma routed_step: "xc_overlap c \<Longrightarrow> prefill_routed l c = overlap_step l (if l = 0 then begin_prefill c else c)"
  by (simp add: prefill_routed_def overlap_step_def Let_def)

lemma overlap_pass:
  assumes "chunk_ok c" "due c l" "0 < l" "l \<le> xc_layers c"
  shows "\<exists>c'. prefill_pass [l..<xc_layers c] c = Some (map (layer_views c) [l..<xc_layers c], c') \<and> xc_ok c' \<and> same_config c c'"
  using assms
proof (induction "xc_layers c - l" arbitrary: l c)
  case 0
  then show ?case by (auto simp: chunk_ok_def same_config_def)
next
  case (Suc n)
  then have l: "l < xc_layers c" by simp
  from overlap_step_ok[OF Suc.prems(1) l Suc.prems(2)] obtain c1 where c1: "overlap_step l c = Some (layer_views c l, c1)" "chunk_ok c1" "same_config c c1" "due c1 (Suc l)" by blast
  have L: "xc_layers c1 = xc_layers c" using c1(3) by (simp add: same_config_def)
  have n: "n = xc_layers c1 - Suc l" using Suc.hyps(2) L by simp
  from Suc.hyps(1)[OF n c1(2,4)] l L obtain c' where c': "prefill_pass [Suc l..<xc_layers c] c1 = Some (map (layer_views c1) [Suc l..<xc_layers c], c')" "xc_ok c'" "same_config c1 c'"
    by auto
  have "prefill_routed l c = Some (layer_views c l, c1)" using routed_step[of c l] Suc.prems(1,3) c1(1) by (simp add: chunk_ok_def)
  then have "prefill_pass [l..<xc_layers c] c = Some (map (layer_views c) [l..<xc_layers c], c')"
    using l c'(1) layer_views_config[OF c1(3)] by (simp add: upt_conv_Cons)
  with c'(2) same_config_trans[OF c1(3) c'(3)] show ?case by blast
qed

lemma sync_pass:
  assumes "xc_ok c" "\<not> xc_overlap c" "\<forall>l\<in>set ls. l < xc_layers c"
  shows "\<exists>c'. prefill_pass ls c = Some (map (layer_views c) ls, c') \<and> xc_ok c' \<and> same_config c c'"
  using assms
proof (induction ls arbitrary: c)
  case (Cons l ls)
  from materialize_ok[OF Cons.prems(1), of l] Cons.prems(3) obtain c1 c2 where m: "materialize_layer l c = Some c1" "copy_missing c1 = Some c2"
    "xc_ok c2" "same_config c c2" "\<forall>e<xc_experts c. holds c2 e (flat_id c l e)" by auto
  have "take (xc_experts c2) (bk_rows b) = bk_source b ! l" if b: "b \<in> set (xc_banks c2)" for b
  proof (rule nth_equalityI)
    have len: "length (bk_rows b) = xc_size c2" "xc_experts c2 \<le> xc_size c2" "length (bk_source b ! l) = xc_experts c2" "xc_experts c2 = xc_experts c"
      using m(3,4) b Cons.prems(3) by (auto simp: xc_ok_def xc_shape_def same_config_def)
    then show "length (take (xc_experts c2) (bk_rows b)) = length (bk_source b ! l)" by simp
    fix e assume "e < length (take (xc_experts c2) (bk_rows b))"
    then show "take (xc_experts c2) (bk_rows b) ! e = bk_source b ! l ! e" using m(5) b len by (auto simp: holds_def)
  qed
  then have "map (\<lambda>b. take (xc_experts c2) (bk_rows b)) (xc_banks c2) = layer_views c2 l" by (simp add: layer_views_def)
  then have r: "prefill_routed l c = Some (layer_views c l, c2)" using m Cons.prems(2) layer_views_config[OF m(4)] by (simp add: prefill_routed_def)
  from Cons.IH[OF m(3)] Cons.prems(2,3) m(4) obtain c' where "prefill_pass ls c2 = Some (map (layer_views c2) ls, c')" "xc_ok c'" "same_config c2 c'"
    by (auto simp: same_config_def)
  with r layer_views_config[OF m(4)] same_config_trans[OF m(4), of c'] show ?case by auto
qed (auto simp: same_config_def)

lemma pass_right:
  assumes "xc_ok c"
  shows "\<exists>c'. prefill_pass [0..<xc_layers c] c = Some (map (layer_views c) [0..<xc_layers c], c') \<and> xc_ok c' \<and> same_config c c'"
proof (cases "xc_overlap c \<and> 0 < xc_layers c")
  case True
  let ?c = "begin_prefill c"
  note b = begin_ok[OF assms] True
  then have c0: "chunk_ok ?c" "same_config c ?c" "due ?c 0" by (simp_all add: due_def)
  then have L: "xc_layers ?c = xc_layers c" by (simp add: same_config_def)
  from overlap_step_ok[OF c0(1) _ c0(3)] True L obtain c1 where c1: "overlap_step 0 ?c = Some (layer_views ?c 0, c1)" "chunk_ok c1" "same_config ?c c1" "due c1 (Suc 0)" by auto
  have cc1: "same_config c c1" using same_config_trans[OF c0(2) c1(3)] .
  then have L1: "xc_layers c1 = xc_layers c" by (simp add: same_config_def)
  from overlap_pass[OF c1(2,4)] True L1 obtain c' where c': "prefill_pass [Suc 0..<xc_layers c] c1 = Some (map (layer_views c1) [Suc 0..<xc_layers c], c')" "xc_ok c'" "same_config c1 c'"
    by auto
  have "prefill_routed 0 c = Some (layer_views c 0, c1)" using routed_step[of c 0] True c1(1) layer_views_config[OF c0(2)] by simp
  moreover have "[0..<xc_layers c] = 0 # [Suc 0..<xc_layers c]" using True by (simp add: upt_conv_Cons)
  ultimately have "prefill_pass [0..<xc_layers c] c = Some (map (layer_views c) [0..<xc_layers c], c')"
    using c'(1) layer_views_config[OF cc1] by simp
  with c'(2) same_config_trans[OF cc1 c'(3)] show ?thesis by blast
next
  case False
  then show ?thesis
  proof (cases "xc_layers c = 0")
    case True
    with assms show ?thesis by (auto simp: same_config_def)
  qed (use sync_pass[OF assms, of "[0..<xc_layers c]"] in auto)
qed

section \<open>A serving life\<close>

text \<open>Every cache a sequence of decode steps, prefill passes, resets and resizes can leave.\<close>

inductive xc_served :: "'w expert_cache \<Rightarrow> bool" where
  booted: "xc_init L E S overlap hit_d2d by_recency unpinned cpu_layers sources = Some c \<Longrightarrow> xc_served c"
| decoded: "xc_served c \<Longrightarrow> l < xc_layers c \<Longrightarrow> \<forall>e\<in>set ids. e < xc_experts c \<Longrightarrow> decode_routed max_fetch frac l ids c = Some (routes, c') \<Longrightarrow> xc_served c'"
| prefilled: "xc_served c \<Longrightarrow> prefill_pass [0..<xc_layers c] c = Some (views, c') \<Longrightarrow> xc_served c'"
| was_reset: "xc_served c \<Longrightarrow> xc_served (xc_reset c)"
| rebuilt: "xc_served c \<Longrightarrow> xc_rebuild cache_size garbage c = Some c' \<Longrightarrow> xc_served c'"

lemma init_ok: "xc_init L E S overlap hit_d2d by_recency unpinned cpu_layers sources = Some c \<Longrightarrow> xc_ok c"
proof -
  assume i: "xc_init L E S overlap hit_d2d by_recency unpinned cpu_layers sources = Some c"
  have g: "E \<le> S \<and> (overlap \<longrightarrow> 2 * E \<le> S)" "unpinned \<subseteq> cpu_layers \<and> (overlap \<longrightarrow> unpinned = {})"
    "list_all (\<lambda>(small, src, garbage). length src = L \<and> list_all (\<lambda>rows. length rows = E) src \<and> length garbage = S) sources"
    using i unfolding xc_init_def bind_assert by (simp_all split: if_splits)
  with i have c: "xc_layers c = L" "xc_experts c = E" "xc_size c = S" "xc_overlap c = overlap" "xc_unpinned c = unpinned" "xc_cpu_layers c = cpu_layers"
    "xc_banks c = map (\<lambda>(small, src, garbage). \<lparr>bk_small = small, bk_source = src, bk_rows = garbage\<rparr>) sources"
    "xc_slot_for_id c = replicate (L * E) (- 1)" "xc_id_of_slot c = replicate S (- 1)" "xc_usage c = replicate S 0" "xc_recency c = replicate (L * E) (- 1)"
    "xc_buffer_layer c = [None, None]" "xc_released c = [True, True]"
    by (auto simp: xc_init_def bind_assert)
  have "xc_shape c" using g by (auto simp: xc_shape_def c list_all_iff)
  then show ?thesis by (simp add: xc_ok_def c matched_replicate content_except_def)
qed

lemma reset_ok: "xc_ok c \<Longrightarrow> xc_ok (xc_reset c)"
  by (auto simp: xc_reset_def xc_ok_def xc_shape_def matched_replicate content_except_def)

lemma rebuild_ok: "xc_ok c \<Longrightarrow> xc_rebuild cache_size garbage c = Some c' \<Longrightarrow> xc_ok c'"
  by (auto simp: xc_rebuild_def bind_assert map_banks_def xc_ok_def xc_shape_def matched_replicate content_except_def split: if_splits)

lemma served_ok: "xc_served c \<Longrightarrow> xc_ok c"
proof (induction rule: xc_served.induct)
  case (decoded c l ids max_fetch frac routes c')
  show ?case
  proof (cases "l \<in> xc_cpu_layers c")
    case True
    with decoded show ?thesis by (simp add: decode_routed_def)
  next
    case False
    from decode_ok[OF decoded.IH decoded.hyps(2,3) False refl, of max_fetch frac]
    obtain r c2 where "decode_routed max_fetch frac l ids c = Some (r, c2)" "xc_ok c2" by blast
    with decoded.hyps(4) show ?thesis by simp
  qed
next
  case (prefilled c views c')
  then show ?case using pass_right[of c] by auto
qed (auto intro: init_ok reset_ok rebuild_ok)

text \<open>C9: A hybrid decode step is right in every state a server can reach. It never fails; each route is computed exactly
  once, on the GPU or on the CPU; and the GPU slot of a route holds, in every weight bank, the row of that route's own
  expert, whatever was cached, evicted or prefetched before.\<close>

theorem decode_weights_right:
  assumes "xc_served c" "l < xc_layers c" "\<forall>e\<in>set ids. e < xc_experts c"
  shows "\<exists>slots cpu c'. decode_routed max_fetch frac l ids c = Some ((slots, cpu), c') \<and> length slots = length ids \<and> length cpu = length ids \<and>
    map bk_source (xc_banks c') = map bk_source (xc_banks c) \<and>
    (\<forall>k<length ids. (slots ! k = - 1 \<and> cpu ! k = int (ids ! k)) \<or>
       (cpu ! k = - 1 \<and> (\<exists>s<xc_size c. slots ! k = int s \<and> (\<forall>b\<in>set (xc_banks c'). bk_rows b ! s = bk_source b ! l ! (ids ! k)))))"
proof (cases "l \<in> xc_cpu_layers c")
  case True
  then show ?thesis by (simp add: decode_routed_def)
next
  case False
  from decode_ok[OF served_ok[OF assms(1)] assms(2,3) False refl] obtain slots cpu c' where d: "decode_routed max_fetch frac l ids c = Some ((slots, cpu), c')"
    "same_config c c'" "length slots = length ids" "length cpu = length ids"
    "\<forall>k<length ids. if resident c l (ids ! k) \<or> ids ! k \<in> set (fetched_of max_fetch frac l ids c)
       then cpu ! k = - 1 \<and> (\<exists>s<xc_size c. slots ! k = int s \<and> holds c' s (flat_id c l (ids ! k))) else slots ! k = - 1 \<and> cpu ! k = int (ids ! k)" by blast
  have "holds c' s (flat_id c l e) \<longleftrightarrow> (\<forall>b\<in>set (xc_banks c'). bk_rows b ! s = bk_source b ! l ! e)" if "e < xc_experts c" for s e
    using that d(2) by (simp add: holds_def same_config_def)
  with d(5) assms(3) have "\<forall>k<length ids. (slots ! k = - 1 \<and> cpu ! k = int (ids ! k)) \<or>
       (cpu ! k = - 1 \<and> (\<exists>s<xc_size c. slots ! k = int s \<and> (\<forall>b\<in>set (xc_banks c'). bk_rows b ! s = bk_source b ! l ! (ids ! k))))"
    by (metis nth_mem)
  with d show ?thesis unfolding same_config_def by blast
qed

text \<open>No overwritten slot was hit, and a slot that was neither hit nor overwritten is not used now.\<close>

lemma victims_cold:
  assumes ok: "xc_ok c" and l: "l < xc_layers c" "\<forall>e\<in>set ids. e < xc_experts c" and c1: "c1 = fetched_state mf fr l ids c"
  shows "v \<in> fst ` set (xc_plan c1) \<Longrightarrow> v < xc_size c \<and> (\<forall>e\<in>set ids. xc_slot_for_id c ! flat_id c l e \<noteq> int v)"
    and "s < xc_size c \<Longrightarrow> s \<notin> fst ` set (xc_plan c1) \<Longrightarrow> \<forall>e\<in>set ids. xc_slot_for_id c ! flat_id c l e \<noteq> int s \<Longrightarrow> xc_usage c1 ! s < xc_step c1"
proof -
  note f = fetched_state_ok[OF ok l c1]
  then have ft: "fetching l (set ids) (xc_usage c) c1" and fid: "flat_id c1 = flat_id c" by simp_all
  have keep: "xc_slot_for_id c1 ! flat_id c l x = xc_slot_for_id c ! flat_id c l x" if "x \<in> set ids" "resident c l x" for x using f that by blast
  have fl: "flat_id c l e < length (xc_slot_for_id c1)" if "e \<in> set ids" for e
    using flat_less[OF l(1), of e] l(2) that fetchingD(7)[OF ft] by (simp add: xc_shape_def c1 fetched_state_def)
  have sz: "xc_size c1 = xc_size c" "length (xc_id_of_slot c1) = xc_size c" using fetchingD(7)[OF ft] by (simp_all add: xc_shape_def c1 fetched_state_def)
  have inj: "e = e'" if "flat_id c l e = flat_id c l e'" "e \<in> set ids" "e' \<in> set ids" for e e' using that l(2) by (metis flat_inject)
  have own: "xc_id_of_slot c1 ! s = int (flat_id c l e) \<longleftrightarrow> xc_slot_for_id c1 ! flat_id c l e = int s" if "s < xc_size c" "e \<in> set ids" for s e
    using matchedD(1)[OF fetchingD(1)[OF ft] _ fl[OF that(2)], of s] that sz by simp
  have planned: "s < xc_size c \<and> e \<in> set ids \<and> xc_slot_for_id c1 ! flat_id c l e = int s \<and> \<not> resident c l e" if "(s, e) \<in> set (xc_plan c1)" for s e
  proof -
    have p: "s < xc_size c" "e \<in> set ids" "xc_id_of_slot c1 ! s = int (flat_id c l e)" using fetchingD(2)[OF ft] that sz fid by auto
    have "e \<in> set (map snd (xc_plan c1))" using that by force
    then have "e \<in> set (fetched_of mf fr l ids c)" using f by simp
    then show ?thesis using p own fetched_of_props(2)[of mf fr l ids c] by auto
  qed
  show "v < xc_size c \<and> (\<forall>e\<in>set ids. xc_slot_for_id c ! flat_id c l e \<noteq> int v)" if v: "v \<in> fst ` set (xc_plan c1)"
  proof -
    from v obtain x where x: "(v, x) \<in> set (xc_plan c1)" by auto
    note px = planned[OF x]
    have False if "e \<in> set ids" "xc_slot_for_id c ! flat_id c l e = int v" for e
    proof -
      have r: "resident c l e" using that(2) by (simp add: resident_def)
      then have "xc_id_of_slot c1 ! v = int (flat_id c l e)" "xc_id_of_slot c1 ! v = int (flat_id c l x)" using keep own px that by simp_all
      then have "e = x" using inj that(1) px by simp
      with px r show False by simp
    qed
    with px show ?thesis by blast
  qed
  assume s: "s < xc_size c" "s \<notin> fst ` set (xc_plan c1)" "\<forall>e\<in>set ids. xc_slot_for_id c ! flat_id c l e \<noteq> int s"
  have "xc_usage c1 ! s \<noteq> xc_step c1"
  proof
    assume "xc_usage c1 ! s = xc_step c1"
    then obtain e where e: "e \<in> set ids" "xc_slot_for_id c1 ! flat_id c l e = int s" using fetchingD(5)[OF ft] s(1) own sz fid by auto
    then have "resident c1 l e" by (simp add: resident_def fid)
    with f e s(3) keep have "e \<in> set (map snd (xc_plan c1))" by auto
    then obtain v where v: "(v, e) \<in> set (xc_plan c1)" by auto
    with planned[OF v] e(2) s(2) show False by (auto simp: image_iff)
  qed
  moreover have "xc_usage c1 ! s \<in> set (xc_usage c1)" using fetchingD(7)[OF ft] s(1) sz by (simp add: xc_shape_def)
  ultimately show "xc_usage c1 ! s < xc_step c1" using fetchingD(3)[OF ft] by (simp add: le_neq_implies_less)
qed

text \<open>C11: What a hybrid decode step brings in and throws out: exactly as many misses as the cap allows are fetched, none of
  them resident before; every slot it overwrites belonged to no active expert and had been used no later than any slot
  that it keeps and that was not hit.\<close>

theorem decode_evicts_lru:
  assumes "xc_served c" "l < xc_layers c" "\<forall>e\<in>set ids. e < xc_experts c" "l \<notin> xc_cpu_layers c"
    and "decode_routed max_fetch frac l ids c = Some (routes, c')"
  shows "length (xc_plan c') = min (card {e \<in> set ids. \<not> resident c l e}) (fetch_cap max_fetch frac (card {e \<in> set ids. \<not> resident c l e})) \<and>
    snd ` set (xc_plan c') \<subseteq> {e \<in> set ids. \<not> resident c l e} \<and>
    (\<forall>v\<in>fst ` set (xc_plan c'). v < xc_size c \<and> (\<forall>e\<in>set ids. xc_slot_for_id c ! flat_id c l e \<noteq> int v) \<and>
       (\<forall>s<xc_size c. s \<notin> fst ` set (xc_plan c') \<longrightarrow> (\<forall>e\<in>set ids. xc_slot_for_id c ! flat_id c l e \<noteq> int s) \<longrightarrow> xc_usage c ! v \<le> xc_usage c ! s))"
proof -
  define c1 where "c1 = fetched_state max_fetch frac l ids c"
  note ok = served_ok[OF assms(1)]
  note f = fetched_state_ok[OF ok assms(2,3) c1_def]
  then have ft: "fetching l (set ids) (xc_usage c) c1" and snds: "map snd (xc_plan c1) = fetched_of max_fetch frac l ids c" and fid: "flat_id c1 = flat_id c" by simp_all
  from decode_ok[OF ok assms(2-4) c1_def] obtain r c2 where "decode_routed max_fetch frac l ids c = Some (r, c2)" "xc_plan c2 = xc_plan c1" by blast
  with assms(5) have pl: "xc_plan c' = xc_plan c1" by simp
  have cd: "length (missing_of l ids c) = card {e \<in> set ids. \<not> resident c l e}"
    using distinct_card[of "missing_of l ids c"] by (simp add: missing_of_def)
  have "length (xc_plan c') = length (fetched_of max_fetch frac l ids c)" unfolding pl snds[symmetric] by simp
  moreover have "snd ` set (xc_plan c') = set (fetched_of max_fetch frac l ids c)" unfolding pl snds[symmetric] by simp
  moreover have sz: "xc_size c1 = xc_size c" by (simp add: c1_def fetched_state_def)
  moreover have "v < xc_size c \<and> (\<forall>e\<in>set ids. xc_slot_for_id c ! flat_id c l e \<noteq> int v)" if "v \<in> fst ` set (xc_plan c')" for v
    using that victims_cold(1)[OF ok assms(2,3) c1_def] unfolding pl by blast
  moreover have "xc_usage c ! v \<le> xc_usage c ! s"
    if "v \<in> fst ` set (xc_plan c')" "s < xc_size c" "s \<notin> fst ` set (xc_plan c')" "\<forall>e\<in>set ids. xc_slot_for_id c ! flat_id c l e \<noteq> int s" for v s
    using that victims_cold(2)[OF ok assms(2,3) c1_def, of s] fetchingD(4)[OF ft] unfolding pl sz by blast
  ultimately show ?thesis using fetched_of_props(2,3)[of max_fetch frac l ids c] cd by simp
qed

text \<open>C10: A prefill pass over the layers is right in every state a server can reach, with the double buffer (hits
  gathered inside the cache, misses copied in runs) and without. It never fails, so no buffer is reused before it is
  released, and each layer multiplies with exactly its own host rows: position \<open>e\<close> of every bank is expert \<open>e\<close>.\<close>

theorem prefill_weights_right:
  assumes "xc_served c"
  shows "\<exists>c'. prefill_pass [0..<xc_layers c] c = Some (map (\<lambda>l. map (\<lambda>b. bk_source b ! l) (xc_banks c)) [0..<xc_layers c], c') \<and> xc_served c'"
proof -
  from pass_right[OF served_ok[OF assms]] obtain c' where p: "prefill_pass [0..<xc_layers c] c = Some (map (layer_views c) [0..<xc_layers c], c')" by blast
  with xc_served.prefilled[OF assms] have "xc_served c'" by blast
  moreover have "layer_views c = (\<lambda>l. map (\<lambda>b. bk_source b ! l) (xc_banks c))" by (simp add: layer_views_def fun_eq_iff)
  ultimately show ?thesis using p by auto
qed

lemma overlap_cost_low: "int frac \<le> 65536 \<Longrightarrow> f * 65536 \<le> int m * int frac \<Longrightarrow> overlap_cost m frac f = (int m - f) * int frac"
  by (simp add: overlap_cost_def max_def algebra_simps)

lemma overlap_cost_high: "int m * int frac \<le> f * 65536 \<Longrightarrow> overlap_cost m frac f = f * (65536 - int frac)"
  by (simp add: overlap_cost_def max_def algebra_simps)

text \<open>The bandwidth-matched split is optimal: no other number of fetched misses makes the slower one of fetch and CPU
  computation finish earlier, and it never asks for more than the misses there are.\<close>

theorem fetch_cap_balances:
  assumes "0 < frac" "frac \<le> 65536"
  shows "overlap_cost m frac (int (fetch_cap max_fetch frac m)) \<le> overlap_cost m frac f \<and> fetch_cap max_fetch frac m \<le> m"
proof -
  define lo where "lo = (m * frac) div 65536"
  have "int lo = (int m * int frac) div 65536" by (simp add: lo_def of_nat_div)
  then have lo: "int lo * 65536 \<le> int m * int frac" "int m * int frac \<le> (int lo + 1) * 65536" by simp_all
  have fr: "int frac \<le> 65536" "0 \<le> int frac" using assms by simp_all
  have "min (overlap_cost m frac (int lo)) (overlap_cost m frac (int lo + 1)) \<le> overlap_cost m frac f"
  proof (cases "f \<le> int lo")
    case True
    then have "f * 65536 \<le> int lo * 65536" by simp
    then have "f * 65536 \<le> int m * int frac" using lo(1) by (rule order_trans)
    moreover have "(int m - int lo) * int frac \<le> (int m - f) * int frac" using True fr(2) by (intro mult_right_mono) simp_all
    ultimately show ?thesis using overlap_cost_low[OF fr(1)] lo(1) by (simp add: min_le_iff_disj)
  next
    case False
    then have f: "int lo + 1 \<le> f" by simp
    then have "(int lo + 1) * 65536 \<le> f * 65536" by simp
    with lo(2) have "int m * int frac \<le> f * 65536" by (rule order_trans)
    moreover have "(int lo + 1) * (65536 - int frac) \<le> f * (65536 - int frac)" using f fr(1) by (intro mult_right_mono) simp_all
    ultimately show ?thesis using overlap_cost_high lo(2) by (simp add: min_le_iff_disj)
  qed
  moreover have "int (fetch_cap max_fetch frac m) = (if overlap_cost m frac (int lo) \<le> overlap_cost m frac (int lo + 1) then int lo else int lo + 1)"
    using assms(1) by (simp add: fetch_cap_def lo_def[symmetric] Let_def)
  moreover have "fetch_cap max_fetch frac m \<le> m"
  proof (cases "lo < m")
    case True
    then show ?thesis using assms(1) by (simp add: fetch_cap_def lo_def[symmetric] Let_def)
  next
    case False
    have "m * frac \<le> m * 65536" using assms(2) by simp
    then have "lo \<le> m" unfolding lo_def by (metis div_le_mono nonzero_mult_div_cancel_right zero_neq_numeral)
    with False have lm: "lo = m" by simp
    have "0 \<le> overlap_cost m frac (int lo + 1)" using fr by (simp add: overlap_cost_def le_max_iff_disj)
    moreover have "overlap_cost m frac (int lo) = 0" using overlap_cost_low[OF fr(1) lo(1)] lm by simp
    ultimately show ?thesis using assms(1) lm by (simp add: fetch_cap_def lo_def[symmetric] Let_def)
  qed
  ultimately show ?thesis by (simp add: min_def split: if_splits)
qed

section \<open>A small cache\<close>

text \<open>Three layers of two experts on five slots, with the double buffer and the hit gather; a bank of large rows and one of
  small ones. The warm cache has seen a decode step; the last expert came to the slot above the buffers.\<close>

definition tiny_sources :: "(bool \<times> nat list list \<times> nat list) list" where
  "tiny_sources = [(False, [[10, 11], [20, 21], [30, 31]], [0, 0, 0, 0, 0]), (True, [[1, 2], [3, 4], [5, 6]], [0, 0, 0, 0, 0])]"

definition tiny_cache :: "nat expert_cache" where
  "tiny_cache = the (xc_init 3 2 5 True True True {} {} tiny_sources)"

definition tiny_step :: "nat \<Rightarrow> nat list \<Rightarrow> nat expert_cache \<Rightarrow> nat expert_cache" where
  "tiny_step l ids c = snd (the (decode_routed 2 0 l ids c))"

definition tiny_warm :: "nat expert_cache" where
  "tiny_warm = tiny_step 2 [0] (tiny_step 1 [1, 0] (tiny_step 0 [0, 1] tiny_cache))"

lemma tiny_served: "xc_served tiny_cache"
  by (rule xc_served.booted[of 3 2 5 True True True "{}" "{}" tiny_sources])
    (simp add: tiny_cache_def tiny_sources_def xc_init_def bind_assert list_all_iff)

lemma tiny_step_served:
  assumes "xc_served c" "l < xc_layers c" "\<forall>e\<in>set ids. e < xc_experts c"
  shows "xc_served (tiny_step l ids c) \<and> xc_layers (tiny_step l ids c) = xc_layers c \<and> xc_experts (tiny_step l ids c) = xc_experts c"
proof (cases "l \<in> xc_cpu_layers c")
  case True
  then show ?thesis using assms(1) by (simp add: tiny_step_def decode_routed_def)
next
  case False
  from decode_ok[OF served_ok[OF assms(1)] assms(2,3) False refl, of 2 0] obtain r c' where d: "decode_routed 2 0 l ids c = Some (r, c')" "same_config c c'" by blast
  with xc_served.decoded[OF assms d(1)] show ?thesis by (simp add: tiny_step_def same_config_def)
qed

lemma tiny_warm_served: "xc_served tiny_warm" "xc_layers tiny_warm = 3" "xc_experts tiny_warm = 2"
proof -
  have c: "xc_layers tiny_cache = 3" "xc_experts tiny_cache = 2" by (simp_all add: tiny_cache_def tiny_sources_def xc_init_def bind_assert list_all_iff)
  have "xc_served (tiny_step 0 [0, 1] tiny_cache) \<and> xc_layers (tiny_step 0 [0, 1] tiny_cache) = 3 \<and> xc_experts (tiny_step 0 [0, 1] tiny_cache) = 2"
    using tiny_step_served[OF tiny_served, of 0 "[0, 1]"] c by simp
  moreover from this have "xc_served (tiny_step 1 [1, 0] (tiny_step 0 [0, 1] tiny_cache)) \<and> xc_layers (tiny_step 1 [1, 0] (tiny_step 0 [0, 1] tiny_cache)) = 3 \<and>
      xc_experts (tiny_step 1 [1, 0] (tiny_step 0 [0, 1] tiny_cache)) = 2"
    using tiny_step_served[of "tiny_step 0 [0, 1] tiny_cache" 1 "[1, 0]"] by simp
  ultimately show "xc_served tiny_warm" "xc_layers tiny_warm = 3" "xc_experts tiny_warm = 2"
    using tiny_step_served[of "tiny_step 1 [1, 0] (tiny_step 0 [0, 1] tiny_cache)" 2 "[0]"] by (simp_all add: tiny_warm_def)
qed

theorem decode_weights_right_witness:
  "\<exists>slots cpu c'. decode_routed 1 0 2 [1, 0, 1] tiny_warm = Some ((slots, cpu), c') \<and> slots = [0, 4, 0] \<and> cpu = [- 1, - 1, - 1] \<and>
     (\<forall>b\<in>set (xc_banks c'). bk_rows b ! 0 = bk_source b ! 2 ! 1 \<and> bk_rows b ! 4 = bk_source b ! 2 ! 0)"
proof -
  have e: "fst (the (decode_routed 1 0 2 [1, 0, 1] tiny_warm)) = ([0, 4, 0], [- 1, - 1, - 1])" by code_simp
  have h: "2 < xc_layers tiny_warm" "\<forall>e\<in>set [1, 0, 1]. e < xc_experts tiny_warm" by (simp_all add: tiny_warm_served)
  from decode_weights_right[OF tiny_warm_served(1) h, of 1 0] obtain slots cpu c' where d: "decode_routed 1 0 2 [1, 0, 1] tiny_warm = Some ((slots, cpu), c')"
    "\<forall>k<length [1, 0, 1 :: nat]. (slots ! k = - 1 \<and> cpu ! k = int ([1, 0, 1] ! k)) \<or>
       (cpu ! k = - 1 \<and> (\<exists>s<xc_size tiny_warm. slots ! k = int s \<and> (\<forall>b\<in>set (xc_banks c'). bk_rows b ! s = bk_source b ! 2 ! ([1, 0, 1] ! k))))"
    by blast
  with e have "slots = [0, 4, 0]" "cpu = [- 1, - 1, - 1]" by simp_all
  with d(2)[rule_format, of 0] d(2)[rule_format, of 1] d(1) show ?thesis by auto
qed

theorem decode_evicts_lru_witness:
  "\<exists>c'. snd (the (decode_routed 1 0 2 [1, 0, 1] tiny_warm)) = c' \<and> length (xc_plan c') = 1 \<and>
     (\<forall>v\<in>fst ` set (xc_plan c'). xc_slot_for_id tiny_warm ! flat_id tiny_warm 2 0 \<noteq> int v)"
proof -
  have e: "fst (the (decode_routed 1 0 2 [1, 0, 1] tiny_warm)) = ([0, 4, 0], [- 1, - 1, - 1])" by code_simp
  have n: "decode_routed 1 0 2 [1, 0, 1] tiny_warm \<noteq> None" by code_simp
  then obtain r c' where d: "decode_routed 1 0 2 [1, 0, 1] tiny_warm = Some (r, c')" by (cases "decode_routed 1 0 2 [1, 0, 1] tiny_warm") auto
  have h: "2 < xc_layers tiny_warm" "\<forall>e\<in>set [1, 0, 1]. e < xc_experts tiny_warm" by (simp_all add: tiny_warm_served)
  have g: "2 \<notin> xc_cpu_layers tiny_warm" by code_simp
  have "filter (\<lambda>e. \<not> resident tiny_warm 2 e) [1, 0, 1] = [1, 1]" by code_simp
  then have c: "card {e \<in> set [1, 0, 1]. \<not> resident tiny_warm 2 e} = 1" by (simp only: set_filter[symmetric]) simp
  from decode_evicts_lru[OF tiny_warm_served(1) h g d] c d show ?thesis by (auto simp: fetch_cap_def)
qed

theorem prefill_weights_right_witness:
  "\<exists>c'. prefill_pass [0..<3] tiny_warm = Some ([[[10, 11], [1, 2]], [[20, 21], [3, 4]], [[30, 31], [5, 6]]], c') \<and> xc_served c'"
proof -
  have "map (\<lambda>l. map (\<lambda>b. bk_source b ! l) (xc_banks tiny_warm)) [0..<3] = [[[10, 11], [1, 2]], [[20, 21], [3, 4]], [[30, 31], [5, 6]]]"
    by code_simp
  with prefill_weights_right[OF tiny_warm_served(1)] show ?thesis by (simp add: tiny_warm_served(2))
qed

theorem fetch_cap_balances_witness:
  "fetch_cap 9 20000 10 = 3 \<and> overlap_cost 10 20000 3 \<le> overlap_cost 10 20000 4 \<and> overlap_cost 10 20000 3 \<le> overlap_cost 10 20000 2"
proof -
  have "fetch_cap 9 20000 10 = 3" by (simp add: fetch_cap_def overlap_cost_def)
  with fetch_cap_balances[of 20000 10 9] show ?thesis by simp
qed

end
