(* ===== verification/ExpertKernel.thy ===== *)
theory ExpertKernel
  imports ExpertCache
begin

text \<open>
  \<open>_ensure_experts_hybrid_kernel\<close>, the Triton kernel that makes experts resident on the GPU (\<^verbatim>\<open>moe/offload_kernels.py\<close>),
  and the proof that it takes the decisions of the reference routine of \<open>ExpertCache\<close>. A vector is the list of its
  unmasked lanes; \<open>argmin\<close> and \<open>argmax\<close> take the first lane of the extreme value, as Triton's do. The 64-bit values are
  integers: the theorem assumes that the step counter is small enough for none of them to wrap around.
\<close>

section \<open>The kernel\<close>

definition argmin :: "int list \<Rightarrow> nat" where
  "argmin v = arg_min_list (\<lambda>i. v ! i) [0..<length v]"

definition argmax :: "int list \<Rightarrow> nat" where
  "argmax v = arg_min_list (\<lambda>i. - (v ! i)) [0..<length v]"

definition max_int64 :: int where "max_int64 = 9223372036854775807"
definition min_score :: int where "min_score = - 1152921504606846976"

text \<open>The lanes of the active experts, or of the slots they own: one pass over the routing.\<close>

definition mark_lanes :: "(nat \<Rightarrow> nat \<Rightarrow> bool) \<Rightarrow> nat \<Rightarrow> nat list \<Rightarrow> bool list" where
  "mark_lanes hit n ids = foldl (\<lambda>mark e. map (\<lambda>off. mark ! off \<or> hit off e) [0..<n]) (replicate n False) ids"

definition kernel_cap :: "nat \<Rightarrow> nat \<Rightarrow> nat \<Rightarrow> nat" where
  "kernel_cap max_fetch frac num_missing =
     (if 0 < frac
      then (let lo = int (num_missing * frac) div 65536;
                cost_lo = max (lo * (65536 - int frac)) ((int num_missing - lo) * int frac);
                cost_hi = max ((lo + 1) * (65536 - int frac)) ((int num_missing - lo - 1) * int frac)
            in nat (if cost_lo \<le> cost_hi then lo else lo + 1))
      else max_fetch)"

text \<open>The state of phase 2: the slot maps, the usage, the plan, the masked usage and the scores.\<close>

record fetch_state =
  fs_slot_for_id :: "int list"
  fs_id_of_slot :: "int list"
  fs_usage :: "nat list"
  fs_plan :: "(nat \<times> nat) list"
  fs_u :: "int list"
  fs_score :: "int list"

text \<open>The expert the \<open>i\<close>-th fetch brings in: the best score, or the lane of rank \<open>i\<close>.\<close>

definition kernel_pick :: "bool \<Rightarrow> bool list \<Rightarrow> int list \<Rightarrow> int list \<Rightarrow> nat \<Rightarrow> nat" where
  "kernel_pick by_recency is_missing missing_rank score i =
     (if by_recency then argmax score
      else sum_list (map (\<lambda>off. if missing_rank ! off = int i \<and> is_missing ! off then off else 0) [0..<length is_missing]))"

definition kernel_fetch :: "bool \<Rightarrow> nat \<Rightarrow> nat \<Rightarrow> int list \<Rightarrow> bool list \<Rightarrow> int list \<Rightarrow> fetch_state \<Rightarrow> nat \<Rightarrow> fetch_state" where
  "kernel_fetch by_recency base step oid is_missing missing_rank st i =
     (let victim = argmin (fs_u st);
          old_id = oid ! victim;
          slots = (if 0 \<le> old_id then (fs_slot_for_id st)[nat old_id := - 1] else fs_slot_for_id st);
          e = kernel_pick by_recency is_missing missing_rank (fs_score st) i;
          score = (if by_recency then map (\<lambda>off. if off = e then min_score else fs_score st ! off) [0..<length (fs_score st)] else fs_score st)
      in st\<lparr>fs_slot_for_id := slots[base + e := int victim],
            fs_id_of_slot := (fs_id_of_slot st)[victim := int (base + e)],
            fs_usage := (fs_usage st)[victim := step],
            fs_plan := fs_plan st @ [(victim, e)],
            fs_u := map (\<lambda>off. if off = victim then max_int64 else fs_u st ! off) [0..<length (fs_u st)],
            fs_score := score\<rparr>)"

definition hybrid_kernel :: "nat \<Rightarrow> nat \<Rightarrow> nat \<Rightarrow> nat list \<Rightarrow> 'w expert_cache \<Rightarrow> (int list \<times> 'w expert_cache) option" where
  "hybrid_kernel max_fetch frac layer ids c = do {
     _ \<leftarrow> py_assert (layer < xc_layers c \<and> list_all (\<lambda>e. e < xc_experts c) ids);
     let E = xc_experts c; let base = layer * E; let step = xc_step c + 1;
     let is_active = mark_lanes (\<lambda>off e. off = e) E ids;
     let slot = map (\<lambda>off. xc_slot_for_id c ! (base + off)) [0..<E];
     let is_missing = map (\<lambda>off. is_active ! off \<and> slot ! off = - 1) [0..<E];
     let num_missing = length (filter id is_missing);
     let num_fetch = min num_missing (kernel_cap max_fetch frac num_missing);
     let usage = foldl (\<lambda>u off. if is_active ! off \<and> 0 \<le> slot ! off then u[nat (slot ! off) := step] else u) (xc_usage c) [0..<E];
     let score = map (\<lambda>off. if is_missing ! off then xc_recency c ! (base + off) * int E + (int E - 1 - int off) else min_score) [0..<E];
     let missing_rank = map (\<lambda>off. int (length (filter id (take (off + 1) is_missing))) - 1) [0..<E];
     let oid = xc_id_of_slot c;
     let owner_active = mark_lanes (\<lambda>s e. oid ! s = int (base + e)) (xc_size c) ids;
     let u = map (\<lambda>s. if owner_active ! s then max_int64 else int (usage ! s)) [0..<xc_size c];
     let st = foldl (kernel_fetch (xc_by_recency c) base step oid is_missing missing_rank)
       \<lparr>fs_slot_for_id = xc_slot_for_id c, fs_id_of_slot = oid, fs_usage = usage, fs_plan = [], fs_u = u, fs_score = score\<rparr> [0..<num_fetch];
     let recency = (if xc_by_recency c
       then foldl (\<lambda>rec off. if is_active ! off then rec[base + off := int step] else rec) (xc_recency c) [0..<E] else xc_recency c);
     Some (map (\<lambda>e. fs_slot_for_id st ! (base + e)) ids,
       c\<lparr>xc_step := step, xc_pending_layer := Some layer, xc_pending_whole := False, xc_usage := fs_usage st, xc_missing_full := num_missing,
         xc_plan := fs_plan st, xc_id_of_slot := fs_id_of_slot st, xc_slot_for_id := fs_slot_for_id st, xc_recency := recency\<rparr>) }"

section \<open>First minima\<close>

lemma arg_min_first:
  "a < b \<Longrightarrow> a \<le> arg_min_list f [a..<b] \<and> arg_min_list f [a..<b] < b \<and> (\<forall>s. a \<le> s \<longrightarrow> s < b \<longrightarrow> f (arg_min_list f [a..<b]) \<le> (f s :: 'b :: linorder)) \<and>
     (\<forall>s. a \<le> s \<longrightarrow> s < arg_min_list f [a..<b] \<longrightarrow> f (arg_min_list f [a..<b]) < f s)"
proof (induction "b - a" arbitrary: a)
  case (Suc n)
  show ?case
  proof (cases "Suc a < b")
    case False
    with Suc.prems have "b = Suc a" by simp
    then show ?thesis by (auto simp: le_Suc_eq less_Suc_eq)
  next
    case True
    let ?m = "arg_min_list f [Suc a..<b]"
    have ih: "Suc a \<le> ?m" "?m < b" "\<forall>s. Suc a \<le> s \<longrightarrow> s < b \<longrightarrow> f ?m \<le> f s" "\<forall>s. Suc a \<le> s \<longrightarrow> s < ?m \<longrightarrow> f ?m < f s"
      using Suc.hyps(1)[of "Suc a"] Suc.hyps(2) True by auto
    have "[Suc a..<b] = Suc a # [Suc (Suc a)..<b]" "[a..<b] = a # [Suc a..<b]" using True by (simp_all add: upt_conv_Cons)
    then have m: "arg_min_list f [a..<b] = (if f a \<le> f ?m then a else ?m)" by simp
    show ?thesis
    proof (cases "f a \<le> f ?m")
      case le: True
      then have "f a \<le> f s" if "a \<le> s" "s < b" for s using ih(3) that by (cases "s = a") (auto intro: order_trans)
      then show ?thesis using m le Suc.prems by simp
    next
      case gt: False
      then have "f ?m < f a" by simp
      then have "f ?m \<le> f s" if "a \<le> s" "s < b" for s using ih(3) that by (cases "s = a") auto
      moreover have "f ?m < f s" if "a \<le> s" "s < ?m" for s using ih(4) \<open>f ?m < f a\<close> that by (cases "s = a") auto
      ultimately show ?thesis using m gt ih(1,2) by simp
    qed
  qed
qed simp

lemma arg_min_cong: "xs \<noteq> [] \<Longrightarrow> \<forall>x\<in>set xs. f x = g x \<Longrightarrow> arg_min_list f xs = arg_min_list (g :: 'a \<Rightarrow> 'b :: linorder) xs"
proof (induction f xs rule: arg_min_list.induct)
  case (2 f x y zs)
  have "arg_min_list f (y # zs) \<in> set (y # zs)" by (rule arg_min_list_in) simp
  with 2 show ?case by (auto simp: Let_def)
qed simp_all

lemma arg_min_unique:
  assumes "m < n" "\<forall>s<n. f m \<le> (f s :: 'b :: linorder)" "\<forall>s<m. f m < f s"
  shows "arg_min_list f [0..<n] = m"
proof -
  have f: "arg_min_list f [0..<n] < n" "\<forall>s<n. f (arg_min_list f [0..<n]) \<le> f s" "\<forall>s<arg_min_list f [0..<n]. f (arg_min_list f [0..<n]) < f s"
    using arg_min_first[of 0 n f] assms(1) by auto
  show ?thesis
  proof (rule linorder_cases[of "arg_min_list f [0..<n]" m])
    assume "arg_min_list f [0..<n] < m"
    with assms(3) f(2) assms(1) show ?thesis by (metis not_less)
  next
    assume "m < arg_min_list f [0..<n]"
    with f(3) assms(2) f(1) show ?thesis by (metis not_less)
  qed
qed

lemma victim_first:
  assumes "usage \<noteq> []"
  shows "\<forall>s<victim_slot usage. usage ! victim_slot usage < usage ! s"
proof (intro allI impI)
  fix s
  assume s: "s < victim_slot usage"
  let ?f = "\<lambda>s. (usage ! s, s)"
  have "s < length usage" using s victim_least[OF assms] by linarith
  then have "?f (victim_slot usage) \<le> ?f s"
    using arg_min_first[of 0 "length usage" ?f] assms by (simp add: victim_slot_def)
  with s show "usage ! victim_slot usage < usage ! s" by (auto simp: less_eq_prod_def)
qed

text \<open>Masking the slots used now changes nothing while some slot is older.\<close>

abbreviation masked :: "nat \<Rightarrow> nat list \<Rightarrow> int list" where
  "masked step usage \<equiv> map (\<lambda>u. if u = step then max_int64 else int u) usage"

lemma argmin_masked:
  assumes "\<forall>u\<in>set usage. u \<le> step" "s0 < length usage" "usage ! s0 < step" "int step < max_int64"
  shows "argmin (masked step usage) = victim_slot usage"
proof -
  define f where "f = (\<lambda>s. if usage ! s = step then max_int64 else int (usage ! s))"
  let ?v = "victim_slot usage"
  have ne: "usage \<noteq> []" using assms(2) by auto
  from victim_least[OF ne] have l: "?v < length usage" "\<forall>s<length usage. usage ! ?v \<le> usage ! s" by simp_all
  note fst = victim_first[OF ne]
  have vl: "usage ! ?v < step" using l(2) assms(2,3) by (meson le_less_trans)
  then have fv: "f ?v = int (usage ! ?v)" by (simp add: f_def)
  have fs: "int (usage ! s) \<le> f s" if "s < length usage" for s using assms(1,4) that by (simp add: f_def)
  have mi: "f ?v \<le> f s" if "s < length usage" for s using fs[OF that] l(2) that unfolding fv by (metis of_nat_le_iff order_trans)
  have st: "f ?v < f s" if "s < ?v" for s
    using fs[of s] fst that l(1) unfolding fv by (metis of_nat_less_iff order_less_le_trans order_less_trans)
  have "arg_min_list f [0..<length usage] = ?v"
    by (rule arg_min_unique) (use l(1) mi st in blast)+
  moreover have "arg_min_list (\<lambda>i. masked step usage ! i) [0..<length usage] = arg_min_list f [0..<length usage]"
    by (rule arg_min_cong) (use ne in \<open>simp_all add: f_def\<close>)
  ultimately show ?thesis by (simp add: argmin_def)
qed

section \<open>Lanes\<close>

lemma mark_lanes_length [simp]: "length (mark_lanes hit n ids) = n"
  by (cases ids rule: rev_cases) (simp_all add: mark_lanes_def)

lemma mark_lanes_nth: "off < n \<Longrightarrow> mark_lanes hit n ids ! off \<longleftrightarrow> (\<exists>e\<in>set ids. hit off e)"
  by (induction ids rule: rev_induct) (auto simp: mark_lanes_def)

lemma foldl_filter: "foldl (\<lambda>u x. if P x then g u x else u) u xs = foldl g u (filter P xs)"
  by (induction xs arbitrary: u) auto

lemma count_lanes: "length (filter id (map P xs)) = length (filter P xs)"
  by (simp add: filter_map)

text \<open>The lane whose rank is \<open>i\<close>.\<close>

lemma nth_snoc_if:
  "(if i < length F then F ! i else 0) + (if p \<and> i = length F then n else 0) =
     (if i < length (F @ (if p then [n] else [])) then (F @ (if p then [n] else [])) ! i else (0 :: nat))"
  by (auto simp: nth_append)

lemma rank_pick:
  "sum_list (map (\<lambda>off. if int (length (filter P [0..<Suc off])) - 1 = int i \<and> P off then off else 0) [0..<n]) =
     (if i < length (filter P [0..<n]) then filter P [0..<n] ! i else 0)"
proof (induction n)
  case (Suc n)
  let ?F = "filter P [0..<n]" and ?t = "\<lambda>off. if int (length (filter P [0..<Suc off])) - 1 = int i \<and> P off then off else 0"
  have s: "sum_list (map ?t [0..<Suc n]) = sum_list (map ?t [0..<n]) + ?t n" "filter P [0..<Suc n] = ?F @ (if P n then [n] else [])" by simp_all
  have "int (length ?F + 1) - 1 = int i \<longleftrightarrow> i = length ?F" by linarith
  then have t: "?t n = (if P n \<and> i = length ?F then n else 0)" unfolding s(2) by simp
  have "sum_list (map ?t [0..<Suc n]) = (if i < length ?F then ?F ! i else 0) + (if P n \<and> i = length ?F then n else 0)"
    using s(1) unfolding t Suc.IH .
  then show ?case unfolding nth_snoc_if s(2) .
qed simp

lemma filter_upt_sort:
  assumes "distinct xs" "set xs = {off. off < n \<and> P off}"
  shows "filter P [0..<n] = sort xs"
proof (rule sorted_distinct_set_unique)
  show "sorted (filter P [0..<n])" by (rule sorted_wrt_filter) simp
  show "set (filter P [0..<n]) = set (sort xs)" unfolding set_sort assms(2) by auto
  show "distinct (sort xs)" using assms(1) by simp
qed simp_all

text \<open>The score orders the experts as the reference's sort key does, and no score of a missing expert is the sentinel.\<close>

definition score_of :: "'w expert_cache \<Rightarrow> nat \<Rightarrow> nat \<Rightarrow> int" where
  "score_of c l e = xc_recency c ! flat_id c l e * int (xc_experts c) + (int (xc_experts c) - 1 - int e)"

lemma score_less:
  assumes "e < xc_experts c" "e' < xc_experts c" "(- (xc_recency c ! flat_id c l e), e) \<le> (- (xc_recency c ! flat_id c l e'), e')" "e \<noteq> e'"
  shows "score_of c l e' < score_of c l e"
proof (cases "xc_recency c ! flat_id c l e = xc_recency c ! flat_id c l e'")
  case True
  with assms(3,4) have "e < e'" by auto
  with True show ?thesis by (simp add: score_of_def)
next
  case False
  with assms(3) have "xc_recency c ! flat_id c l e' + 1 \<le> xc_recency c ! flat_id c l e" by auto
  then have "(xc_recency c ! flat_id c l e' + 1) * int (xc_experts c) \<le> xc_recency c ! flat_id c l e * int (xc_experts c)"
    by (intro mult_right_mono) simp_all
  then show ?thesis using assms(1,2) by (simp add: score_of_def algebra_simps)
qed

lemma score_above:
  assumes "- 1 \<le> xc_recency c ! flat_id c l e" "e < xc_experts c" "xc_experts c < 2 ^ 60"
  shows "min_score < score_of c l e"
proof -
  have "(- 1) * int (xc_experts c) \<le> xc_recency c ! flat_id c l e * int (xc_experts c)" using assms(1) by (intro mult_right_mono) simp_all
  moreover have "int (xc_experts c) < 2 ^ 60" using assms(3) by simp
  ultimately show ?thesis using assms(2) by (simp add: score_of_def min_score_def)
qed

lemma argmax_pick:
  assumes e: "e < n" "e \<in> S" and best: "\<And>s. s < n \<Longrightarrow> s \<in> S \<Longrightarrow> s \<noteq> e \<Longrightarrow> f s < f e" and low: "min_score < f e"
  shows "argmax (map (\<lambda>off. if off \<in> S then f off else min_score) [0..<n]) = e"
proof -
  let ?g = "\<lambda>s. - (if s \<in> S then f s else min_score)"
  have lt: "?g e < ?g s" if "s < n" "s \<noteq> e" for s using best[of s] low e(2) that by simp
  have "arg_min_list ?g [0..<n] = e"
  proof (rule arg_min_unique[OF e(1)])
    show "\<forall>s<n. ?g e \<le> ?g s" using lt by (metis order.refl order.strict_implies_order)
    show "\<forall>s<e. ?g e < ?g s" using lt e(1) by (metis order.strict_trans nat_neq_iff)
  qed
  moreover have "arg_min_list (\<lambda>i. - (map (\<lambda>off. if off \<in> S then f off else min_score) [0..<n] ! i)) [0..<n] = arg_min_list ?g [0..<n]"
    by (rule arg_min_cong) (use e(1) in simp_all)
  ultimately show ?thesis by (simp add: argmax_def)
qed

section \<open>The loops run together\<close>

definition kernel_matches :: "int list \<Rightarrow> 'w expert_cache \<Rightarrow> fetch_state \<Rightarrow> bool" where
  "kernel_matches oid c st \<longleftrightarrow> fs_slot_for_id st = xc_slot_for_id c \<and> fs_id_of_slot st = xc_id_of_slot c \<and> fs_usage st = xc_usage c \<and>
     fs_plan st = xc_plan c \<and> fs_u st = masked (xc_step c) (xc_usage c) \<and>
     (\<forall>s<xc_size c. xc_usage c ! s < xc_step c \<longrightarrow> oid ! s = xc_id_of_slot c ! s)"

lemma cap_eq: "kernel_cap max_fetch frac m = fetch_cap max_fetch frac m"
proof -
  have "int (m * frac) div 65536 = int (m * frac div 65536)" by (simp add: of_nat_div)
  moreover have "int m - x - 1 = int m - (x + 1)" for x by simp
  moreover have "nat (int x + 1) = x + 1" for x by simp
  ultimately show ?thesis by (simp only: kernel_cap_def fetch_cap_def overlap_cost_def Let_def if_distrib[of nat] nat_int)
qed

lemma kernel_fetch_step:
  assumes f: "fetching l A u0 c" and e: "e \<in> A" "\<not> resident c l e" and k: "kernel_matches oid c st"
    and pick: "kernel_pick br im mr (fs_score st) i = e" and step: "int (xc_step c) < max_int64"
  shows "kernel_matches oid (fetch_one l c e) (kernel_fetch br (l * xc_experts c) (xc_step c) oid im mr st i)"
    and "fs_score (kernel_fetch br (l * xc_experts c) (xc_step c) oid im mr st i) =
      (if br then map (\<lambda>off. if off = e then min_score else fs_score st ! off) [0..<length (fs_score st)] else fs_score st)"
proof -
  define v where "v = victim_slot (xc_usage c)"
  note vp = fetching_victim[OF f e, folded v_def]
  have len: "length (xc_usage c) = xc_size c" "length (xc_id_of_slot c) = xc_size c" using fetchingD(7)[OF f] by (simp_all add: xc_shape_def)
  have am: "argmin (fs_u st) = v"
    using argmin_masked[OF fetchingD(3)[OF f] _ _ step, of v] vp len k unfolding kernel_matches_def v_def by simp
  have old: "oid ! v = xc_id_of_slot c ! v" using k vp by (simp add: kernel_matches_def)
  have fu: "fs_u st = masked (xc_step c) (xc_usage c)" using k by (simp add: kernel_matches_def)
  then have ul: "length (fs_u st) = xc_size c" using len by simp
  have u: "map (\<lambda>off. if off = v then max_int64 else fs_u st ! off) [0..<xc_size c] = masked (xc_step c) ((xc_usage c)[v := xc_step c])"
    unfolding fu by (rule nth_equalityI) (use len vp in \<open>simp_all add: nth_list_update\<close>)
  have "\<forall>s<xc_size c. (xc_usage c)[v := xc_step c] ! s < xc_step c \<longrightarrow> oid ! s = (xc_id_of_slot c)[v := i'] ! s" for i'
    using k vp len by (auto simp: kernel_matches_def nth_list_update)
  then show "kernel_matches oid (fetch_one l c e) (kernel_fetch br (l * xc_experts c) (xc_step c) oid im mr st i)"
    using k unfolding kernel_matches_def kernel_fetch_def fetch_one_def Let_def pick am old ul u v_def[symmetric]
    by (simp add: flat_id_def)
  show "fs_score (kernel_fetch br (l * xc_experts c) (xc_step c) oid im mr st i) =
      (if br then map (\<lambda>off. if off = e then min_score else fs_score st ! off) [0..<length (fs_score st)] else fs_score st)"
    by (simp add: kernel_fetch_def Let_def pick)
qed

text \<open>The scores after \<open>i\<close> fetches: the experts still to fetch keep theirs.\<close>

definition scored :: "bool \<Rightarrow> nat \<Rightarrow> (nat \<Rightarrow> int) \<Rightarrow> nat list \<Rightarrow> nat \<Rightarrow> fetch_state \<Rightarrow> bool" where
  "scored br n f ord i st \<longleftrightarrow> (br \<longrightarrow> fs_score st = map (\<lambda>off. if off \<in> set (drop i ord) then f off else min_score) [0..<n])"

lemma kernel_loop:
  assumes f: "fetching l A u0 c" and ord: "distinct ord" "set ord \<subseteq> A" "\<forall>e\<in>set ord. \<not> resident c l e"
    and step: "int (xc_step c) < max_int64" and k: "kernel_matches oid c st" and s: "scored br n sc ord 0 st"
    and pick: "\<And>i st. i < length ord \<Longrightarrow> scored br n sc ord i st \<Longrightarrow> kernel_pick br im mr (fs_score st) i = ord ! i"
  shows "i \<le> length ord \<Longrightarrow>
    kernel_matches oid (foldl (fetch_one l) c (take i ord)) (foldl (kernel_fetch br (l * xc_experts c) (xc_step c) oid im mr) st [0..<i]) \<and>
    scored br n sc ord i (foldl (kernel_fetch br (l * xc_experts c) (xc_step c) oid im mr) st [0..<i])"
proof (induction i)
  case (Suc i)
  let ?c = "foldl (fetch_one l) c (take i ord)" and ?st = "foldl (kernel_fetch br (l * xc_experts c) (xc_step c) oid im mr) st [0..<i]" and ?e = "ord ! i"
  have i: "i < length ord" using Suc.prems by simp
  then have tk: "take (Suc i) ord = take i ord @ [?e]" and dr: "drop i ord = ?e # drop (Suc i) ord"
    by (simp_all add: take_Suc_conv_app_nth Cons_nth_drop_Suc)
  have new: "?e \<notin> set (take i ord)" "?e \<notin> set (drop (Suc i) ord)"
    using ord(1) i tk dr by (metis distinct_append distinct_take not_distinct_conv_prefix, metis distinct.simps(2) distinct_drop)
  have all: "distinct (take i ord)" "set (take i ord) \<subseteq> A" "\<forall>e\<in>set (take i ord). \<not> resident c l e"
    using ord by (auto dest: in_set_takeD)
  note fa = fetch_all[OF f all]
  have eA: "?e \<in> A" "\<not> resident ?c l ?e" using fa ord i new(1) by (auto simp: subset_iff)
  have ih: "kernel_matches oid ?c ?st" "scored br n sc ord i ?st" using Suc by simp_all
  have same: "xc_step ?c = xc_step c" "xc_experts ?c = xc_experts c" using fa by simp_all
  note ks = kernel_fetch_step[OF conjunct1[OF fa] eA ih(1) pick[OF i ih(2)], unfolded same, OF step]
  have "scored br n sc ord (Suc i) (kernel_fetch br (l * xc_experts c) (xc_step c) oid im mr ?st i)"
    using ih(2) new(2) unfolding scored_def ks(2) dr by auto
  with ks(1) show ?case by (simp add: tk)
qed (use k s in simp)

section \<open>The kernel is the reference\<close>

lemma fetch_frame:
  "\<exists>u p i s. foldl (fetch_one l) c es = c\<lparr>xc_usage := u, xc_plan := p, xc_id_of_slot := i, xc_slot_for_id := s\<rparr>"
proof (induction es arbitrary: c)
  case Nil
  have "c = c\<lparr>xc_usage := xc_usage c, xc_plan := xc_plan c, xc_id_of_slot := xc_id_of_slot c, xc_slot_for_id := xc_slot_for_id c\<rparr>" by simp
  then show ?case unfolding foldl_Nil by blast
next
  case (Cons e es)
  have "\<exists>u p i s. fetch_one l c e = c\<lparr>xc_usage := u, xc_plan := p, xc_id_of_slot := i, xc_slot_for_id := s\<rparr>"
    unfolding fetch_one_def Let_def by (intro exI) (rule expert_cache.equality; simp)
  then obtain u p i s where e: "fetch_one l c e = c\<lparr>xc_usage := u, xc_plan := p, xc_id_of_slot := i, xc_slot_for_id := s\<rparr>" by blast
  from Cons.IH[of "fetch_one l c e"] obtain u' p' i' s' where
    "foldl (fetch_one l) (fetch_one l c e) es = (fetch_one l c e)\<lparr>xc_usage := u', xc_plan := p', xc_id_of_slot := i', xc_slot_for_id := s'\<rparr>" by blast
  then have "foldl (fetch_one l) c (e # es) = c\<lparr>xc_usage := u', xc_plan := p', xc_id_of_slot := i', xc_slot_for_id := s'\<rparr>" unfolding foldl_Cons by (simp add: e)
  then show ?case by blast
qed

text \<open>The vectors of phase 1 and the masked usage.\<close>

lemma kernel_vectors:
  assumes ok: "xc_ok c" and l: "l < xc_layers c" "\<forall>e\<in>set ids. e < xc_experts c"
  defines "E \<equiv> xc_experts c"
  defines "act \<equiv> \<lambda>off. mark_lanes (\<lambda>off e. off = e) E ids ! off"
    and "slot \<equiv> \<lambda>off. map (\<lambda>off. xc_slot_for_id c ! (l * E + off)) [0..<E] ! off"
  shows "\<And>off. off < E \<Longrightarrow> act off \<longleftrightarrow> off \<in> set ids"
    and "\<And>off. off < E \<Longrightarrow> slot off = xc_slot_for_id c ! flat_id c l off"
    and "\<And>off. off < E \<Longrightarrow> (act off \<and> slot off = - 1) \<longleftrightarrow> off \<in> set (missing_of l ids c)"
    and "foldl (\<lambda>u off. if act off \<and> 0 \<le> slot off then u[nat (slot off) := Suc (xc_step c)] else u) (xc_usage c) [0..<E] = xc_usage (staged l ids c)"
    and "\<And>f v xs. foldl (\<lambda>r off. if act off then r[f off := v] else r) xs [0..<E] = foldl (\<lambda>r e. r[f e := v]) xs (first_seen ids)"
    and "map (\<lambda>s. if mark_lanes (\<lambda>s e. xc_id_of_slot c ! s = int (l * E + e)) (xc_size c) ids ! s then max_int64 else int (xc_usage (staged l ids c) ! s)) [0..<xc_size c] =
      masked (Suc (xc_step c)) (xc_usage (staged l ids c))"
proof -
  show a: "act off \<longleftrightarrow> off \<in> set ids" if "off < E" for off using that by (simp add: act_def mark_lanes_nth)
  show s: "slot off = xc_slot_for_id c ! flat_id c l off" if "off < E" for off using that by (simp add: slot_def flat_id_def E_def)
  show "(act off \<and> slot off = - 1) \<longleftrightarrow> off \<in> set (missing_of l ids c)" if "off < E" for off
    using a[OF that] s[OF that] by (auto simp: missing_of_def resident_def)
  have sl: "set (filter act [0..<E]) = set ids" using a l(2) by (auto simp: E_def)
  have m: "matched (xc_slot_for_id c) (xc_id_of_slot c)" and len: "length (xc_usage c) = xc_size c" "length (xc_slot_for_id c) = xc_layers c * xc_experts c"
    using ok by (simp_all add: xc_ok_def xc_shape_def)
  have rng: "slot off = - 1 \<or> 0 \<le> slot off" if "off < E" for off
    using matchedD(3)[OF m, of "flat_id c l off"] flat_less[OF l(1), of off] that len(2) s[OF that] by (auto simp: E_def)
  let ?g = "\<lambda>u off. let sl = slot off in if sl \<noteq> - 1 then u[nat sl := Suc (xc_step c)] else u"
  have "foldl (\<lambda>u off. if act off \<and> 0 \<le> slot off then u[nat (slot off) := Suc (xc_step c)] else u) (xc_usage c) [0..<E] =
      foldl (\<lambda>u off. if act off then ?g u off else u) (xc_usage c) [0..<E]"
    by (rule foldl_cong) (use rng in \<open>fastforce simp: Let_def\<close>)+
  also have "\<dots> = foldl ?g (xc_usage c) (filter act [0..<E])" by (rule foldl_filter)
  also have "\<dots> = xc_usage (staged l ids c)"
  proof (rule nth_equalityI)
    show "length (foldl ?g (xc_usage c) (filter act [0..<E])) = length (xc_usage (staged l ids c))"
      using touch_length[of slot "Suc (xc_step c)"] staged_usage(1)[OF ok l] len(1) by simp
    fix x
    assume "x < length (foldl ?g (xc_usage c) (filter act [0..<E]))"
    then have x: "x < xc_size c" using touch_length[of slot "Suc (xc_step c)"] len(1) by simp
    have "foldl ?g (xc_usage c) (filter act [0..<E]) ! x = (if \<exists>e\<in>set (filter act [0..<E]). slot e = int x then Suc (xc_step c) else xc_usage c ! x)"
      by (rule touch_nth) (use rng x len(1) in auto)
    moreover have "(\<exists>e\<in>set (filter act [0..<E]). slot e = int x) \<longleftrightarrow> (\<exists>e\<in>set ids. xc_slot_for_id c ! flat_id c l e = int x)"
      unfolding sl using s l(2) by (auto simp: E_def)
    ultimately show "foldl ?g (xc_usage c) (filter act [0..<E]) ! x = xc_usage (staged l ids c) ! x" using staged_usage(2)[OF ok l x] by simp
  qed
  finally show "foldl (\<lambda>u off. if act off \<and> 0 \<le> slot off then u[nat (slot off) := Suc (xc_step c)] else u) (xc_usage c) [0..<E] = xc_usage (staged l ids c)" .
  show "foldl (\<lambda>r off. if act off then r[f off := v] else r) xs [0..<E] = foldl (\<lambda>r e. r[f e := v]) xs (first_seen ids)" for f :: "nat \<Rightarrow> nat" and v :: 'b and xs
    unfolding foldl_filter by (rule nth_equalityI) (simp_all add: foldl_update_nth sl del: set_filter)
  have hot: "xc_usage (staged l ids c) ! s = Suc (xc_step c) \<longleftrightarrow> (\<exists>e\<in>set ids. xc_id_of_slot c ! s = int (l * E + e))" if "s < xc_size c" for s
    using fetchingD(5)[OF staged_fetching[OF ok l]] that by (simp add: flat_id_def E_def)
  show "map (\<lambda>s. if mark_lanes (\<lambda>s e. xc_id_of_slot c ! s = int (l * E + e)) (xc_size c) ids ! s then max_int64 else int (xc_usage (staged l ids c) ! s)) [0..<xc_size c] =
      masked (Suc (xc_step c)) (xc_usage (staged l ids c))"
    by (rule nth_equalityI) (use hot staged_usage(1)[OF ok l] in \<open>simp_all add: mark_lanes_nth\<close>)
qed

text \<open>The reference's order, and what the kernel picks for it.\<close>

lemma missing_props:
  assumes l: "l < xc_layers c" "\<forall>e\<in>set ids. e < xc_experts c"
  defines "ord \<equiv> fetch_order c l (missing_of l ids c)"
  shows "distinct ord" "set ord = set (missing_of l ids c)" "length ord = length (missing_of l ids c)" "set ord \<subseteq> set ids"
    "\<forall>e\<in>set ord. \<not> resident c l e" "length (filter (\<lambda>off. off \<in> set ord) [0..<xc_experts c]) = length (missing_of l ids c)"
    "\<not> xc_by_recency c \<Longrightarrow> filter (\<lambda>off. off \<in> set ord) [0..<xc_experts c] = ord"
proof -
  have d: "distinct (missing_of l ids c)" by (simp add: missing_of_def)
  show o: "distinct ord" "set ord = set (missing_of l ids c)" "length ord = length (missing_of l ids c)"
    using d by (simp_all add: ord_def fetch_order_def)
  then show "set ord \<subseteq> set ids" "\<forall>e\<in>set ord. \<not> resident c l e" by (auto simp: missing_of_def)
  then have "set (missing_of l ids c) = {off. off < xc_experts c \<and> off \<in> set ord}" using o(2) l(2) by auto
  from filter_upt_sort[OF d this] have f: "filter (\<lambda>off. off \<in> set ord) [0..<xc_experts c] = sort (missing_of l ids c)" .
  then show "length (filter (\<lambda>off. off \<in> set ord) [0..<xc_experts c]) = length (missing_of l ids c)" by simp
  show "filter (\<lambda>off. off \<in> set ord) [0..<xc_experts c] = ord" if "\<not> xc_by_recency c" using f that by (simp add: ord_def fetch_order_def)
qed

lemma pick_recent:
  assumes ok: "xc_ok c" and l: "l < xc_layers c" "\<forall>e\<in>set ids. e < xc_experts c" and rec: "xc_by_recency c" and e60: "xc_experts c < 2 ^ 60"
  defines "ord \<equiv> fetch_order c l (missing_of l ids c)"
  assumes i: "i < length ord"
  shows "argmax (map (\<lambda>off. if off \<in> set (drop i ord) then score_of c l off else min_score) [0..<xc_experts c]) = ord ! i"
proof -
  have "ord ! i \<in> set ids" using missing_props(4)[OF l, folded ord_def] nth_mem[OF i] by blast
  then have oi: "ord ! i < xc_experts c" "ord ! i \<in> set (drop i ord)" using l(2) Cons_nth_drop_Suc[OF i, symmetric] by simp_all
  have so: "sorted (map (\<lambda>e. (- (xc_recency c ! flat_id c l e), e)) ord)" using rec by (simp add: ord_def fetch_order_def)
  have le: "(- (xc_recency c ! flat_id c l (ord ! i)), ord ! i) \<le> (- (xc_recency c ! flat_id c l x), x)" if "x \<in> set (drop i ord)" for x
  proof -
    from that obtain j where "j < length ord - i" "x = drop i ord ! j" unfolding in_set_conv_nth by auto
    then have j: "i + j < length ord" "x = ord ! (i + j)" using i by simp_all
    show ?thesis using sorted_nth_mono[OF so, of i "i + j"] j i unfolding j(2) by (simp only: length_map nth_map le_add1)
  qed
  show ?thesis
  proof (rule argmax_pick[OF oi])
    show "score_of c l x < score_of c l (ord ! i)" if "x < xc_experts c" "x \<in> set (drop i ord)" "x \<noteq> ord ! i" for x
      using score_less[of "ord ! i" c x l] le[OF that(2)] oi(1) that by simp
    have "xc_recency c ! flat_id c l (ord ! i) \<in> set (xc_recency c)"
      using flat_less[OF l(1), of "ord ! i"] oi(1) ok by (simp add: xc_ok_def xc_shape_def)
    then show "min_score < score_of c l (ord ! i)" using score_above[OF _ _ e60] oi(1) ok by (simp add: xc_ok_def xc_shape_def)
  qed
qed

lemma pick_lowest:
  assumes ord: "filter (\<lambda>off. off \<in> set ord) [0..<n] = ord" and i: "i < length ord"
  defines "im \<equiv> map (\<lambda>off. off \<in> set ord) [0..<n]"
  shows "kernel_pick False im (map (\<lambda>off. int (length (filter id (take (off + 1) im))) - 1) [0..<n]) score i = ord ! i"
proof -
  have "int (length (filter id (take (off + 1) im))) = int (length (filter (\<lambda>off. off \<in> set ord) [0..<Suc off]))" if "off < n" for off
    using that by (simp add: im_def take_map filter_map comp_def)
  then have eq: "map (\<lambda>off. if map (\<lambda>off. int (length (filter id (take (off + 1) im))) - 1) [0..<n] ! off = int i \<and> im ! off then off else 0) [0..<n] =
      map (\<lambda>off. if int (length (filter (\<lambda>off. off \<in> set ord) [0..<Suc off])) - 1 = int i \<and> off \<in> set ord then off else 0) [0..<n]"
    by (intro map_cong) (simp_all add: im_def)
  have "length im = n" by (simp add: im_def)
  then show ?thesis unfolding kernel_pick_def if_False using arg_cong[OF eq, of sum_list] i unfolding rank_pick ord by simp
qed

lemma kernel_eq:
  assumes ok: "xc_ok c" and l: "l < xc_layers c" "\<forall>e\<in>set ids. e < xc_experts c" and small: "Suc (xc_step c) * Suc (xc_experts c) < 2 ^ 60"
  shows "hybrid_kernel max_fetch frac l ids c = ensure_experts_hybrid max_fetch frac l ids c"
proof -
  define E where "E = xc_experts c"
  define c0 where "c0 = staged l ids c"
  define missing where "missing = missing_of l ids c"
  define ord where "ord = fetch_order c l missing"
  define n where "n = min (length missing) (fetch_cap max_fetch frac (length missing))"
  define im where "im = map (\<lambda>off. off \<in> set ord) [0..<E]"
  define mr where "mr = map (\<lambda>off. int (length (filter id (take (off + 1) im))) - 1) [0..<E]"
  define sc where "sc = map (\<lambda>off. if off \<in> set ord then score_of c l off else min_score) [0..<E]"
  define st0 where "st0 = \<lparr>fs_slot_for_id = xc_slot_for_id c, fs_id_of_slot = xc_id_of_slot c, fs_usage = xc_usage c0, fs_plan = [],
    fs_u = masked (Suc (xc_step c)) (xc_usage c0), fs_score = sc\<rparr>"
  define st where "st = foldl (kernel_fetch (xc_by_recency c) (l * E) (Suc (xc_step c)) (xc_id_of_slot c) im mr) st0 [0..<n]"
  define rec where "rec = (if xc_by_recency c then foldl (\<lambda>r e. r[flat_id c l e := int (Suc (xc_step c))]) (xc_recency c) (first_seen ids) else xc_recency c)"
  note v = kernel_vectors[OF ok l, folded E_def]
  note mp = missing_props[OF l, folded missing_def, folded ord_def, folded E_def]
  have "hybrid_kernel max_fetch frac l ids c = Some (map (\<lambda>e. fs_slot_for_id st ! (l * E + e)) ids,
      c\<lparr>xc_step := Suc (xc_step c), xc_pending_layer := Some l, xc_pending_whole := False, xc_usage := fs_usage st, xc_missing_full := length missing,
        xc_plan := fs_plan st, xc_id_of_slot := fs_id_of_slot st, xc_slot_for_id := fs_slot_for_id st, xc_recency := rec\<rparr>)"
  proof -
    have g: "l < xc_layers c \<and> list_all (\<lambda>e. e < E) ids" using l by (simp add: E_def list_all_iff)
    have im_eq: "map (\<lambda>off. mark_lanes (\<lambda>off e. off = e) E ids ! off \<and> map (\<lambda>off. xc_slot_for_id c ! (l * E + off)) [0..<E] ! off = - 1) [0..<E] = im"
      unfolding im_def by (rule map_cong) (use v(3) mp(2) in \<open>simp_all add: missing_def\<close>)
    have nm: "length (filter id im) = length missing" unfolding im_def count_lanes by (rule mp(6))
    have sc_eq: "map (\<lambda>off. if im ! off then xc_recency c ! (l * E + off) * int E + (int E - 1 - int off) else min_score) [0..<E] = sc"
      unfolding sc_def by (rule map_cong) (simp_all add: im_def score_of_def flat_id_def E_def)
    have rec_eq: "(if xc_by_recency c then foldl (\<lambda>r off. if mark_lanes (\<lambda>off e. off = e) E ids ! off then r[l * E + off := int (Suc (xc_step c))] else r) (xc_recency c) [0..<E]
        else xc_recency c) = rec" unfolding rec_def v(5) by (simp add: flat_id_def E_def)
    show ?thesis
      unfolding hybrid_kernel_def bind_assert E_def[symmetric] if_P[OF g] Let_def Suc_eq_plus1[symmetric] im_eq nm cap_eq n_def[symmetric] v(4) c0_def[symmetric] sc_eq
        mr_def[unfolded Suc_eq_plus1[symmetric], symmetric] v(6)[folded c0_def] st0_def[symmetric] st_def[symmetric] rec_eq by (rule refl)
  qed
  moreover have "kernel_matches (xc_id_of_slot c) (foldl (fetch_one l) c0 (take n ord)) st"
  proof -
    have f: "fetching l (set ids) (xc_usage c) c0" unfolding c0_def by (rule staged_fetching[OF ok l])
    have nr: "\<forall>e\<in>set ord. \<not> resident c0 l e" using mp(5) by (simp add: c0_def resident_def)
    have "1 * Suc (xc_step c) \<le> Suc (xc_experts c) * Suc (xc_step c)" "Suc (xc_experts c) * 1 \<le> Suc (xc_experts c) * Suc (xc_step c)"
      by (rule mult_le_mono; simp)+
    with small have "Suc (xc_step c) < 2 ^ 60" and e60: "xc_experts c < 2 ^ 60" by (simp_all add: mult.commute)
    then have step: "int (xc_step c0) < max_int64" by (simp add: c0_def max_int64_def)
    have k: "kernel_matches (xc_id_of_slot c) c0 st0" by (simp add: kernel_matches_def st0_def c0_def)
    have s: "scored (xc_by_recency c) E (score_of c l) ord 0 st0" by (simp add: scored_def st0_def sc_def)
    have pick: "kernel_pick (xc_by_recency c) im mr (fs_score s) i = ord ! i" if i: "i < length ord" and s: "scored (xc_by_recency c) E (score_of c l) ord i s" for i s
    proof (cases "xc_by_recency c")
      case True
      with pick_recent[OF ok l True e60, of i] i s show ?thesis by (simp add: kernel_pick_def scored_def ord_def missing_def E_def)
    next
      case False
      with pick_lowest[OF mp(7)[OF False] i] show ?thesis by (simp add: im_def mr_def)
    qed
    from kernel_loop[OF f mp(1,4) nr step k s pick, of n] mp(3) show ?thesis
      by (simp add: n_def st_def c0_def E_def)
  qed
  moreover have "foldl (fetch_one l) c0 (take n ord) = fetched_state max_fetch frac l ids c"
    by (simp add: fetched_state_def fetched_of_def n_def ord_def missing_def c0_def)
  moreover obtain u p i s where "fetched_state max_fetch frac l ids c = c0\<lparr>xc_usage := u, xc_plan := p, xc_id_of_slot := i, xc_slot_for_id := s\<rparr>"
    using fetch_frame[of l c0] unfolding fetched_state_def c0_def by blast
  ultimately show ?thesis unfolding ensure_eq[OF l]
    by (simp add: kernel_matches_def note_active_def rec_def c0_def staged_def missing_def missing_of_def resident_def flat_id_def E_def)
qed

section \<open>The hit compaction\<close>

text \<open>\<open>_prefill_hit_compact_kernel\<close>: the hits of a layer's row of the slot map, stored at their rank. \<open>dst0\<close> and \<open>src0\<close>
  are the arrays it overwrites.\<close>

definition hit_compact :: "int list \<Rightarrow> nat \<Rightarrow> int \<Rightarrow> nat list \<Rightarrow> nat list \<Rightarrow> nat list \<times> nat list \<times> nat" where
  "hit_compact slots buffer_base threshold dst0 src0 =
     (let n = length slots;
          is_hit = map (\<lambda>off. threshold \<le> slots ! off) [0..<n];
          pos = map (\<lambda>off. length (filter id (take (Suc off) is_hit)) - 1) [0..<n];
          store = (\<lambda>f xs. foldl (\<lambda>xs off. if is_hit ! off then xs[pos ! off := f off] else xs) xs [0..<n])
      in (store (\<lambda>off. buffer_base + off) dst0, store (\<lambda>off. nat (slots ! off)) src0, length (filter id is_hit)))"

lemma scatter_ranked:
  "n \<le> length xs \<Longrightarrow> foldl (\<lambda>xs off. if P off then xs[length (filter P [0..<Suc off]) - 1 := f off] else xs) xs [0..<n] =
     map f (filter P [0..<n]) @ drop (length (filter P [0..<n])) xs"
proof (induction n)
  case (Suc n)
  let ?k = "length (filter P [0..<n])"
  have "?k \<le> n" by (metis length_filter_le length_upt minus_nat.diff_0)
  with Suc.prems have "drop ?k xs = xs ! ?k # drop (Suc ?k) xs" by (simp add: Cons_nth_drop_Suc)
  with Suc show ?case by (simp add: list_update_append)
qed simp

text \<open>The pairs it leaves are the gather of \<open>prefetch_split\<close>.\<close>

lemma hit_compact_gathers:
  assumes "length slots \<le> length dst0" "length slots \<le> length src0" "hit_compact slots base threshold dst0 src0 = (dst, src, n)"
  shows "zip (take n dst) (take n src) = map (\<lambda>e. (base + e, nat (slots ! e))) (filter (\<lambda>e. threshold \<le> slots ! e) [0..<length slots])"
proof -
  let ?P = "\<lambda>e. threshold \<le> slots ! e"
  let ?h = "map ?P [0..<length slots]"
  have st: "foldl (\<lambda>xs off. if ?h ! off then xs[map (\<lambda>off. length (filter id (take (Suc off) ?h)) - 1) [0..<length slots] ! off := f off] else xs) xs [0..<length slots] =
      map f (filter ?P [0..<length slots]) @ drop (length (filter ?P [0..<length slots])) xs" if "length slots \<le> length xs" for f and xs :: "nat list"
  proof -
    have "foldl (\<lambda>xs off. if ?h ! off then xs[map (\<lambda>off. length (filter id (take (Suc off) ?h)) - 1) [0..<length slots] ! off := f off] else xs) xs [0..<length slots] =
        foldl (\<lambda>xs off. if ?P off then xs[length (filter ?P [0..<Suc off]) - 1 := f off] else xs) xs [0..<length slots]"
      by (rule foldl_cong) (simp_all add: take_map filter_map comp_def del: upt_Suc)
    then show ?thesis using scatter_ranked[OF that] by simp
  qed
  have "hit_compact slots base threshold dst0 src0 = (map (\<lambda>off. base + off) (filter ?P [0..<length slots]) @ drop (length (filter ?P [0..<length slots])) dst0,
      map (\<lambda>off. nat (slots ! off)) (filter ?P [0..<length slots]) @ drop (length (filter ?P [0..<length slots])) src0, length (filter ?P [0..<length slots]))"
    unfolding hit_compact_def Let_def st[OF assms(1)] st[OF assms(2)] count_lanes by (rule refl)
  then have "dst = map (\<lambda>off. base + off) (filter ?P [0..<length slots]) @ drop (length (filter ?P [0..<length slots])) dst0"
    "src = map (\<lambda>off. nat (slots ! off)) (filter ?P [0..<length slots]) @ drop (length (filter ?P [0..<length slots])) src0"
    "n = length (filter ?P [0..<length slots])"
    using assms(3) by simp_all
  then show ?thesis by (simp add: zip_map_map zip_same_conv_map)
qed

text \<open>C12: The Triton kernel that serves a hybrid decode step on the GPU is the reference routine: from every state a server can
  reach it rewrites the routing, evicts, fetches and updates every table exactly as the reference does, in both fetch
  orders and with both kinds of cap, while the step counter keeps the scores below the 64-bit sentinels.\<close>

theorem hybrid_kernel_is_reference:
  assumes "xc_served c" "l < xc_layers c" "\<forall>e\<in>set ids. e < xc_experts c" "Suc (xc_step c) * Suc (xc_experts c) < 2 ^ 60"
  shows "hybrid_kernel max_fetch frac l ids c = ensure_experts_hybrid max_fetch frac l ids c"
  by (rule kernel_eq[OF served_ok[OF assms(1)] assms(2-4)])

theorem hybrid_kernel_is_reference_witness:
  "hybrid_kernel 1 0 2 [1, 0, 1] tiny_warm = ensure_experts_hybrid 1 0 2 [1, 0, 1] tiny_warm \<and>
     map_option fst (hybrid_kernel 1 0 2 [1, 0, 1] tiny_warm) = Some [0, 4, 0]"
proof -
  have h: "2 < xc_layers tiny_warm" "\<forall>e\<in>set [1, 0, 1]. e < xc_experts tiny_warm" by (simp_all add: tiny_warm_served)
  have "xc_step tiny_warm = 3" by code_simp
  then have s: "Suc (xc_step tiny_warm) * Suc (xc_experts tiny_warm) < 2 ^ 60" by (simp add: tiny_warm_served)
  have "map_option fst (ensure_experts_hybrid 1 0 2 [1, 0, 1] tiny_warm) = Some [0, 4, 0]" by code_simp
  with hybrid_kernel_is_reference[OF tiny_warm_served(1) h s, of 1 0] show ?thesis by simp
qed

end
