(* ===== verification/MoeAlign.thy ===== *)
theory MoeAlign
  imports Prelude "HOL-Library.Multiset" "HOL-Library.Monad_Syntax"
begin

text \<open>
  \<^verbatim>\<open>kernel/triton/moe_align.py\<close>: the sort of routed tokens by expert that the fused expert kernels need, each expert's region
  padded to whole blocks, as Triton kernels: a single program for small batches and four launches for large ones. A prog's
  lanes are the elements of a list, a masked store is a list of writes, and a write outside its buffer is a memory fault
  (\<open>None\<close>). The order in which atomic additions hand out ranks and in which the programs of a launch run is a parameter, as
  is what the buffers hold before. Counts are \<open>nat\<close>: they are bounded by the buffer lengths.
\<close>

section \<open>Stores and arithmetic\<close>

fun store_all :: "(nat \<times> 'v) list \<Rightarrow> 'v list \<Rightarrow> 'v list option" where
  "store_all [] xs = Some xs"
| "store_all ((i, v) # ws) xs = (if i < length xs then store_all ws (xs[i := v]) else None)"

fun bit_length :: "nat \<Rightarrow> nat" where
  "bit_length n = (if n = 0 then 0 else Suc (bit_length (n div 2)))"

declare bit_length.simps [simp del]

text \<open>\<open>triton.next_power_of_2\<close>.\<close>

definition next_power_of_2 :: "nat \<Rightarrow> nat" where
  "next_power_of_2 n = 2 ^ bit_length (n - 1)"

definition histogram :: "nat list \<Rightarrow> nat \<Rightarrow> nat list" where
  "histogram xs bins = map (count_list xs) [0..<bins]"

text \<open>\<open>tl.cumsum(x, 0) - x\<close>.\<close>

definition exclusive_cumsum :: "nat list \<Rightarrow> nat list" where
  "exclusive_cumsum xs = map (\<lambda>i. sum_list (take (Suc i) xs) - xs ! i) [0..<length xs]"

text \<open>A load of expert ids: the lanes \<open>offs\<close>, masked by the number of tokens; and the bin each is counted in.\<close>

definition expert_of :: "int list \<Rightarrow> nat \<Rightarrow> int" where
  "expert_of ids t = (if t < length ids then ids ! t else - 1)"

definition valid_lane :: "int list \<Rightarrow> nat \<Rightarrow> nat \<Rightarrow> bool" where
  "valid_lane ids E t \<longleftrightarrow> t < length ids \<and> 0 \<le> expert_of ids t \<and> expert_of ids t < int E"

definition bins_of :: "int list \<Rightarrow> nat \<Rightarrow> nat \<Rightarrow> nat list \<Rightarrow> nat list" where
  "bins_of ids E hist offs = map (\<lambda>t. if valid_lane ids E t then nat (expert_of ids t) else hist - 1) offs"

text \<open>The scatter: \<open>ts\<close> are the valid lanes in the order in which their atomic additions take effect.\<close>

fun scatter :: "int list \<Rightarrow> nat list \<Rightarrow> nat list \<Rightarrow> nat list \<Rightarrow> nat list \<Rightarrow> nat list option" where
  "scatter ids cumsum [] fill_counter srt = Some srt"
| "scatter ids cumsum (t # ts) fill_counter srt =
     (let e = nat (expert_of ids t); rank = fill_counter ! e; pos = cumsum ! e + rank
      in if e < length fill_counter \<and> e < length cumsum \<and> pos < length srt
         then scatter ids cumsum ts (fill_counter[e := Suc rank]) (srt[pos := t])
         else None)"

section \<open>Small batches: one program\<close>

definition moe_align_small ::
    "(nat list \<Rightarrow> nat list) \<Rightarrow> int list \<Rightarrow> nat \<Rightarrow> nat \<Rightarrow> nat list \<Rightarrow> nat list \<Rightarrow> nat list \<Rightarrow> nat list \<Rightarrow> (nat list \<times> nat list \<times> nat) option" where
  "moe_align_small ord ids E block_size cumsum fill_counter srt expert_ids = do {
     let numel = length ids;
     let n_pad = next_power_of_2 numel;
     let hist = next_power_of_2 (E + 1);
     let fill = 1024;
     let counts = histogram (bins_of ids E hist [0..<n_pad]) hist;
     let cnt = map (\<lambda>le. if le < E then counts ! le else 0) [0..<hist];
     let nblk = map (\<lambda>c. (c + block_size - 1) div block_size) cnt;
     let excl = exclusive_cumsum nblk;
     let npp = sum_list nblk * block_size;
     cumsum \<leftarrow> store_all (map (\<lambda>le. (le, excl ! le * block_size)) (filter (\<lambda>le. le < E) [0..<hist])) cumsum;
     cumsum \<leftarrow> store_all [(E, npp)] cumsum;
     fill_counter \<leftarrow> store_all (map (\<lambda>le. (le, 0)) (filter (\<lambda>le. le < E) [0..<hist])) fill_counter;
     expert_ids \<leftarrow> store_all (concat (map (\<lambda>j. map (\<lambda>le. (excl ! le + j, le)) (filter (\<lambda>le. le < E \<and> j < nblk ! le) [0..<hist])) [0..<fold max nblk 0])) expert_ids;
     srt \<leftarrow> store_all (map (\<lambda>i. (i, numel)) (filter (\<lambda>i. i < npp)
                 (concat (map (\<lambda>k. map (\<lambda>fo. k * fill + fo) [0..<fill]) [0..<div_ceil npp fill])))) srt;
     srt \<leftarrow> scatter ids cumsum (ord (filter (valid_lane ids E) [0..<n_pad])) fill_counter srt;
     Some (srt, expert_ids, npp) }"

section \<open>Large batches: four launches\<close>

text \<open>One program of \<open>_fill_and_count\<close>, and the launch: its programs in the order \<open>pids\<close>.\<close>

definition fill_and_count :: "nat \<Rightarrow> int list \<Rightarrow> nat \<Rightarrow> nat \<Rightarrow> nat list \<times> nat list \<times> nat list \<Rightarrow> (nat list \<times> nat list \<times> nat list) option" where
  "fill_and_count block ids E pid st = (case st of (srt, counts, fill_counter) \<Rightarrow> do {
     let offs = map (\<lambda>k. pid * block + k) [0..<block];
     let hist = next_power_of_2 (E + 1);
     srt \<leftarrow> store_all (map (\<lambda>i. (i, length ids)) (filter (\<lambda>i. i < length srt) offs)) srt;
     fill_counter \<leftarrow> store_all (map (\<lambda>i. (i, 0)) (filter (\<lambda>i. i < E) offs)) fill_counter;
     let h = histogram (bins_of ids E hist offs) hist;
     counts \<leftarrow> store_all (map (\<lambda>le. (le, counts ! le + h ! le)) (filter (\<lambda>le. le < E \<and> 0 < h ! le) [0..<hist])) counts;
     Some (srt, counts, fill_counter) })"

fun launch :: "(nat \<Rightarrow> 's \<Rightarrow> 's option) \<Rightarrow> nat list \<Rightarrow> 's \<Rightarrow> 's option" where
  "launch prog [] s = Some s"
| "launch prog (pid # pids) s = Option.bind (prog pid s) (launch prog pids)"

definition cumsum_experts :: "nat list \<Rightarrow> nat \<Rightarrow> nat \<Rightarrow> nat list \<Rightarrow> (nat list \<times> nat) option" where
  "cumsum_experts counts E block_size cumsum = do {
     let lanes = [0..<next_power_of_2 E];
     let nblk = map (\<lambda>l. if l < E then (counts ! l + block_size - 1) div block_size else 0) lanes;
     let excl = exclusive_cumsum nblk;
     cumsum \<leftarrow> store_all (map (\<lambda>l. (l, excl ! l * block_size)) (filter (\<lambda>l. l < E) lanes)) cumsum;
     cumsum \<leftarrow> store_all [(E, sum_list nblk * block_size)] cumsum;
     Some (cumsum, sum_list nblk * block_size) }"

text \<open>The binary search of \<open>_fill_expert_ids\<close>: \<open>steps\<close> halvings of \<open>[lo, hi]\<close>.\<close>

fun search :: "nat \<Rightarrow> nat list \<Rightarrow> nat \<Rightarrow> nat \<Rightarrow> nat \<Rightarrow> nat \<Rightarrow> nat" where
  "search 0 cumsum block_size b lo hi = lo"
| "search (Suc steps) cumsum block_size b lo hi =
     (let mid = (lo + hi) div 2
      in if cumsum ! mid div block_size \<le> b then search steps cumsum block_size b (mid + 1) hi else search steps cumsum block_size b lo mid)"

definition fill_expert_ids :: "nat \<Rightarrow> nat list \<Rightarrow> nat \<Rightarrow> nat \<Rightarrow> nat \<Rightarrow> nat \<Rightarrow> nat list \<Rightarrow> nat list option" where
  "fill_expert_ids block cumsum npp block_size E pid expert_ids =
     store_all (map (\<lambda>b. (b, search (bit_length E) cumsum block_size b 0 E - 1))
       (filter (\<lambda>b. b < npp div block_size) (map (\<lambda>k. pid * block + k) [0..<block]))) expert_ids"

section \<open>The host side\<close>

definition max_padded :: "nat \<Rightarrow> nat \<Rightarrow> nat \<Rightarrow> nat" where
  "max_padded numel num_experts block_size =
     (if numel < num_experts + 1 then numel * block_size else numel + (num_experts + 1) * (block_size - 1))"

text \<open>\<open>junk n\<close> are the contents of a buffer of \<open>n\<close> entries that \<open>torch.empty\<close> returns.\<close>

definition moe_align_block_size ::
    "(nat list \<Rightarrow> nat list) \<Rightarrow> (nat list \<Rightarrow> nat list) \<Rightarrow> (nat \<Rightarrow> nat list) \<Rightarrow> int list \<Rightarrow> nat \<Rightarrow> nat \<Rightarrow> (nat list \<times> nat list \<times> nat) option" where
  "moe_align_block_size ord prog junk ids block_size num_experts = do {
     let numel = length ids;
     let E = num_experts + 1;
     let padded = max_padded numel num_experts block_size;
     let m_blocks = div_ceil padded block_size;
     let srt = junk padded;
     let expert_ids = junk m_blocks;
     let fill_counter = junk E;
     let cumsum = junk (E + 1);
     if 0 < numel \<and> numel \<le> 1024 then moe_align_small ord ids E block_size cumsum fill_counter srt expert_ids
     else do {
       let block = 256;
       (srt, counts, fill_counter) \<leftarrow> launch (fill_and_count block ids E) (prog [0..<div_ceil (max padded (max numel E)) block])
         (srt, replicate E 0, fill_counter);
       (cumsum, npp) \<leftarrow> cumsum_experts counts E block_size cumsum;
       expert_ids \<leftarrow> launch (fill_expert_ids block cumsum npp block_size E) (prog [0..<div_ceil (max m_blocks 1) block]) expert_ids;
       srt \<leftarrow> scatter ids cumsum (ord (filter (valid_lane ids E) [0..<div_ceil (max numel 1) block * block])) fill_counter srt;
       Some (srt, expert_ids, npp) } }"

section \<open>Arithmetic of the regions\<close>

lemma less_bit_length: "n < 2 ^ bit_length n"
proof (induction n rule: bit_length.induct)
  case (1 n)
  show ?case
  proof (cases "n = 0")
    case False
    then have "n div 2 < 2 ^ bit_length (n div 2)"
      using 1 by simp
    then have "n < 2 * 2 ^ bit_length (n div 2)"
      by linarith
    then show ?thesis
      using False by (simp add: bit_length.simps[of n])
  qed (simp add: bit_length.simps)
qed

lemma next_power_of_2_ge: "n \<le> next_power_of_2 n"
  using less_bit_length[of "n - 1"] by (simp add: next_power_of_2_def)

lemma next_power_of_2_less: "n < next_power_of_2 (n + 1)"
  using less_bit_length[of n] by (simp add: next_power_of_2_def)

lemma exclusive_cumsum_nth: "i < length xs \<Longrightarrow> exclusive_cumsum xs ! i = sum_list (take i xs)"
  by (simp add: exclusive_cumsum_def take_Suc_conv_app_nth)

text \<open>How many tokens an expert has, how many blocks they fill, and where its region starts, in blocks.\<close>

definition routed :: "int list \<Rightarrow> nat \<Rightarrow> nat" where
  "routed ids e = count_list ids (int e)"

definition blocks :: "nat \<Rightarrow> int list \<Rightarrow> nat \<Rightarrow> nat" where
  "blocks bs ids e = div_ceil (routed ids e) bs"

definition first_block :: "nat \<Rightarrow> int list \<Rightarrow> nat \<Rightarrow> nat" where
  "first_block bs ids e = (\<Sum>i<e. blocks bs ids i)"

lemma first_block_simps [simp]: "first_block bs ids 0 = 0" "first_block bs ids (Suc e) = first_block bs ids e + blocks bs ids e"
  by (simp_all add: first_block_def)

lemma first_block_mono: "e \<le> e' \<Longrightarrow> first_block bs ids e \<le> first_block bs ids e'"
  unfolding first_block_def by (intro sum_mono2) auto

lemma blocks_0 [simp]: "0 < bs \<Longrightarrow> (0 + bs - Suc 0) div bs = (0::nat)"
  by simp

lemma routed_le_blocks: "0 < bs \<Longrightarrow> routed ids e \<le> blocks bs ids e * bs"
  by (simp add: blocks_def div_ceil_ge)

text \<open>The expert whose region a block lies in.\<close>

definition owner :: "nat \<Rightarrow> int list \<Rightarrow> nat \<Rightarrow> nat" where
  "owner bs ids b = (LEAST e. b < first_block bs ids (Suc e))"

lemma owner_eq: "first_block bs ids e \<le> b \<Longrightarrow> b < first_block bs ids (Suc e) \<Longrightarrow> owner bs ids b = e"
  unfolding owner_def
proof (rule Least_equality)
  fix e' assume "first_block bs ids e \<le> b" "b < first_block bs ids (Suc e')"
  then have "\<not> Suc e' \<le> e"
    using first_block_mono[of "Suc e'" e bs ids] by linarith
  then show "e \<le> e'"
    by simp
qed

lemma owner_exists: "b < first_block bs ids E \<Longrightarrow> \<exists>e<E. first_block bs ids e \<le> b \<and> b < first_block bs ids (Suc e)"
proof (induction E)
  case (Suc E)
  then show ?case
    by (cases "b < first_block bs ids E") (auto intro: less_SucI)
qed simp

text \<open>A position of the padded array belongs to one expert.\<close>

lemma position_unique:
  assumes "r < blocks bs ids e * bs" "r' < blocks bs ids e' * bs" "first_block bs ids e * bs + r = first_block bs ids e' * bs + r'" "0 < bs"
  shows "e = e' \<and> r = r'"
proof -
  have own: "owner bs ids ((first_block bs ids e * bs + r) div bs) = e" if "r < blocks bs ids e * bs" for e r
    using that assms(4) by (intro owner_eq) (simp_all add: div_mult_self3 less_mult_imp_div_less)
  have "e = e'"
    using own[OF assms(1)] own[OF assms(2)] assms(3) by simp
  then show ?thesis
    using assms(3) by simp
qed

lemma max_padded_enough:
  assumes "0 < bs"
  shows "first_block bs ids (n + 1) * bs \<le> max_padded (length ids) n bs"
proof -
  let ?E = "n + 1"
  have total: "(\<Sum>e<?E. routed ids e) \<le> length ids"
  proof -
    have "(\<Sum>e<k. routed ids e) = length (filter (\<lambda>x. 0 \<le> x \<and> x < int k) ids)" for k
    proof (induction k)
      case (Suc k)
      have "length (filter (\<lambda>x. 0 \<le> x \<and> x < int (Suc k)) ids) = length (filter (\<lambda>x. 0 \<le> x \<and> x < int k) ids) + count_list ids (int k)"
        by (induction ids) auto
      then show ?case
        using Suc by (simp add: routed_def)
    qed simp
    then show ?thesis
      using length_filter_le by metis
  qed
  show ?thesis
  proof (cases "length ids < n + 1")
    case True
    have "blocks bs ids e \<le> routed ids e" for e
    proof -
      have "routed ids e \<le> routed ids e * bs"
        using assms by simp
      then have "routed ids e + bs - 1 < Suc (routed ids e) * bs"
        using assms by (simp only: mult_Suc)
      then show ?thesis
        unfolding blocks_def div_ceil_def using less_mult_imp_div_less less_Suc_eq_le by blast
    qed
    then have "first_block bs ids ?E \<le> length ids"
      using total unfolding first_block_def by (meson order_trans sum_mono)
    then show ?thesis
      using True by (simp add: max_padded_def)
  next
    case False
    have "blocks bs ids e * bs \<le> routed ids e + (bs - 1)" for e
      using div_ceil_lt[OF assms, of "routed ids e"] by (simp add: blocks_def)
    then have "(\<Sum>e<?E. blocks bs ids e * bs) \<le> (\<Sum>e<?E. routed ids e + (bs - 1))"
      by (intro sum_mono)
    also have "\<dots> = (\<Sum>e<?E. routed ids e) + ?E * (bs - 1)"
      by (simp only: sum.distrib sum_constant card_lessThan of_nat_id)
    finally show ?thesis
      using total False by (simp add: max_padded_def first_block_def sum_distrib_right del: sum.lessThan_Suc)
  qed
qed

section \<open>Stores\<close>

lemma store_all_eq:
  assumes "\<forall>(i, v) \<in> set ws. i < length xs \<and> v = f i"
  shows "\<exists>ys. store_all ws xs = Some ys \<and> length ys = length xs \<and> (\<forall>i < length xs. ys ! i = (if i \<in> fst ` set ws then f i else xs ! i))"
  using assms
proof (induction ws arbitrary: xs)
  case (Cons w ws)
  obtain i v where w: "w = (i, v)" "i < length xs" "v = f i"
    using Cons.prems by (cases w) auto
  have "\<forall>(i, v) \<in> set ws. i < length (xs[i := v]) \<and> v = f i"
    using Cons.prems by auto
  then obtain ys where ys: "store_all ws (xs[i := f i]) = Some ys" "length ys = length xs"
      "\<forall>j < length xs. ys ! j = (if j \<in> fst ` set ws then f j else xs[i := f i] ! j)"
    using Cons.IH[of "xs[i := f i]"] Cons.prems by auto
  have "ys ! j = (if j \<in> fst ` set (w # ws) then f j else xs ! j)" if "j < length xs" for j
    using ys(3) that w(1) by (cases "j = i") auto
  then show ?case
    using ys(1,2) w by auto
qed simp

lemma store_lanes:
  assumes "\<And>l. l \<in> set lanes \<Longrightarrow> a l < length xs \<and> v l = f (a l)"
  shows "\<exists>ys. store_all (map (\<lambda>l. (a l, v l)) lanes) xs = Some ys \<and> length ys = length xs \<and>
    (\<forall>i < length xs. ys ! i = (if i \<in> a ` set lanes then f i else xs ! i))"
  using store_all_eq[of "map (\<lambda>l. (a l, v l)) lanes" xs f] assms by (auto simp: image_image)

section \<open>Counting\<close>

lemma bins_count:
  assumes "e < E" "E < hist"
  shows "e < hist \<Longrightarrow> histogram (bins_of ids E hist offs) hist ! e = length (filter (\<lambda>t. t < length ids \<and> ids ! t = int e) offs)"
proof -
  assume "e < hist"
  have "count_list (bins_of ids E hist offs) e = length (filter (\<lambda>t. t < length ids \<and> ids ! t = int e) offs)"
    using assms by (induction offs) (auto simp: bins_of_def valid_lane_def expert_of_def)
  then show ?thesis
    using \<open>e < hist\<close> by (simp add: histogram_def)
qed

lemma filter_range: "length ids \<le> n \<Longrightarrow> filter (\<lambda>t. t < length ids \<and> P t) [0..<n] = filter P [0..<length ids]"
proof -
  assume n: "length ids \<le> n"
  have "[0..<n] = [0..<length ids] @ [length ids..<n]"
    using n by (metis le0 le_add_diff_inverse upt_add_eq_append)
  moreover have "filter (\<lambda>t. t < length ids \<and> P t) [length ids..<n] = []"
    by (simp add: filter_empty_conv)
  moreover have "filter (\<lambda>t. t < length ids \<and> P t) [0..<length ids] = filter P [0..<length ids]"
    by (rule filter_cong) auto
  ultimately show ?thesis
    by simp
qed

lemma routed_filter: "routed ids e = length (filter (\<lambda>t. ids ! t = int e) [0..<length ids])"
proof -
  have "routed ids e = length (filter (\<lambda>x. x = int e) (map ((!) ids) [0..<length ids]))"
    unfolding routed_def count_list_eq_length_filter map_nth by (intro arg_cong[where f = length] filter_cong) auto
  then show ?thesis
    by (simp add: filter_map comp_def)
qed

lemma sum_list_blocks:
  assumes "0 < bs" "E \<le> n" "\<And>e. e < E \<Longrightarrow> c e = routed ids e"
  shows "i \<le> n \<Longrightarrow> sum_list (map (\<lambda>l. if l < E then (c l + bs - 1) div bs else 0) [0..<i]) = first_block bs ids (min i E)"
proof (induction i)
  case (Suc i)
  then show ?case
    using assms(3)[of i] by (cases "i < E") (simp_all add: min_def blocks_def div_ceil_def le_Suc_eq)
qed simp

section \<open>The prefix sums\<close>

definition starts :: "nat \<Rightarrow> int list \<Rightarrow> nat \<Rightarrow> nat list \<Rightarrow> bool" where
  "starts bs ids E cumsum \<longleftrightarrow> length cumsum = E + 1 \<and> (\<forall>e \<le> E. cumsum ! e = first_block bs ids e * bs)"

text \<open>Both kernels sum the padded counts of \<open>n\<close> lanes, of which the experts are the first \<open>E\<close>.\<close>

lemma starts_stored:
  assumes "0 < bs" "E \<le> n" "\<And>e. e < E \<Longrightarrow> c e = routed ids e" "length cs = E + 1"
  defines "nblk \<equiv> map (\<lambda>l. if l < E then (c l + bs - 1) div bs else 0) [0..<n]"
  shows "\<exists>cs1 cs2. store_all (map (\<lambda>l. (l, exclusive_cumsum nblk ! l * bs)) (filter (\<lambda>l. l < E) [0..<n])) cs = Some cs1 \<and>
    store_all [(E, sum_list nblk * bs)] cs1 = Some cs2 \<and> starts bs ids E cs2"
    and "sum_list nblk = first_block bs ids E"
    and "\<And>e. e < E \<Longrightarrow> exclusive_cumsum nblk ! e = first_block bs ids e \<and> nblk ! e = blocks bs ids e"
proof -
  have sums: "sum_list (map (\<lambda>l. if l < E then (c l + bs - 1) div bs else 0) [0..<i]) = first_block bs ids (min i E)" if "i \<le> n" for i
    by (rule sum_list_blocks[where n = n, OF assms(1,2) _ that]) (rule assms(3))
  show total: "sum_list nblk = first_block bs ids E"
    using sums[of n] assms(2) by (simp add: nblk_def min_def)
  have excl: "exclusive_cumsum nblk ! e = first_block bs ids e" if "e < E" for e
    using sums[of e] that assms(2) by (simp add: exclusive_cumsum_nth nblk_def take_map min_def)
  then show "\<And>e. e < E \<Longrightarrow> exclusive_cumsum nblk ! e = first_block bs ids e \<and> nblk ! e = blocks bs ids e"
    using assms(2,3) by (simp add: nblk_def blocks_def div_ceil_def)
  obtain cs1 where cs1: "store_all (map (\<lambda>l. (l, exclusive_cumsum nblk ! l * bs)) (filter (\<lambda>l. l < E) [0..<n])) cs = Some cs1" "length cs1 = length cs"
      "\<forall>i < length cs. cs1 ! i = (if i \<in> (\<lambda>l. l) ` set (filter (\<lambda>l. l < E) [0..<n]) then first_block bs ids i * bs else cs ! i)"
    using store_lanes[of "filter (\<lambda>l. l < E) [0..<n]" "\<lambda>l. l" cs "\<lambda>l. exclusive_cumsum nblk ! l * bs" "\<lambda>i. first_block bs ids i * bs"] assms(4) excl
    by auto
  have "starts bs ids E (cs1[E := sum_list nblk * bs])"
    using cs1(2,3) assms(2,4) total by (auto simp: starts_def nth_list_update)
  then show "\<exists>cs1 cs2. store_all (map (\<lambda>l. (l, exclusive_cumsum nblk ! l * bs)) (filter (\<lambda>l. l < E) [0..<n])) cs = Some cs1 \<and>
      store_all [(E, sum_list nblk * bs)] cs1 = Some cs2 \<and> starts bs ids E cs2"
    using cs1(1,2) assms(4) by simp
qed

section \<open>The binary search\<close>

lemma search_right:
  assumes "mono_on {0..E} g" "\<forall>i < lo. g i \<le> b" "lo \<le> hi" "hi \<le> E" "b < g hi" "hi - lo < 2 ^ steps" "\<forall>i \<le> E. cs ! i div bs = g i"
  shows "\<exists>c. search steps cs bs b lo hi = c \<and> c \<le> E \<and> b < g c \<and> (\<forall>i < c. g i \<le> b)"
  using assms(2-6)
proof (induction steps arbitrary: lo hi)
  case (Suc steps)
  let ?mid = "(lo + hi) div 2"
  have mid: "lo \<le> ?mid" "?mid \<le> hi" "?mid \<le> E"
    using Suc.prems(2,3) by auto
  show ?case
  proof (cases "g ?mid \<le> b")
    case True
    then have "?mid < hi"
      using Suc.prems(4) mid by (metis le_neq_implies_less not_le)
    moreover have "\<forall>i < ?mid + 1. g i \<le> b"
    proof (intro allI impI)
      fix i assume "i < ?mid + 1"
      then have "g i \<le> g ?mid"
        using mono_onD[OF assms(1), of i ?mid] mid(3) by simp
      then show "g i \<le> b"
        using True by simp
    qed
    moreover have "hi - (?mid + 1) < 2 ^ steps"
      using Suc.prems(5) mid by simp
    ultimately show ?thesis
      using Suc.IH[of "?mid + 1" hi] Suc.prems(3,4) True assms(7) mid by (simp add: Let_def)
  next
    case False
    moreover have "?mid - lo < 2 ^ steps"
      using Suc.prems(5) mid by simp
    ultimately show ?thesis
      using Suc.IH[of lo ?mid] Suc.prems(1) assms(7) mid by (simp add: Let_def not_le)
  qed
qed auto

lemma search_owner:
  assumes "0 < bs" "starts bs ids E cs" "b < first_block bs ids E"
  shows "search (bit_length E) cs bs b 0 E - 1 = owner bs ids b" "owner bs ids b < E"
proof -
  have g: "\<forall>i \<le> E. cs ! i div bs = first_block bs ids i"
    using assms(1,2) by (simp add: starts_def)
  obtain c where c: "search (bit_length E) cs bs b 0 E = c" "c \<le> E" "b < first_block bs ids c" "\<forall>i < c. first_block bs ids i \<le> b"
    using search_right[of E "first_block bs ids" 0 b E "bit_length E" cs bs] g assms(3) less_bit_length[of E]
    by (auto intro: mono_onI first_block_mono)
  then obtain e where "c = Suc e"
    by (cases c) auto
  then have "owner bs ids b = e" "e < E"
    using c by (auto intro!: owner_eq)
  then show "search (bit_length E) cs bs b 0 E - 1 = owner bs ids b" "owner bs ids b < E"
    using c(1) \<open>c = Suc e\<close> by auto
qed

section \<open>The scatter\<close>

definition tokens_of :: "int list \<Rightarrow> nat \<Rightarrow> nat list \<Rightarrow> nat list" where
  "tokens_of ids e ts = filter (\<lambda>t. ids ! t = int e) ts"

text \<open>The array after the tokens \<open>ts\<close>: each expert's region holds its tokens so far, then the sentinel.\<close>

definition holds :: "nat \<Rightarrow> int list \<Rightarrow> nat \<Rightarrow> nat list \<Rightarrow> nat list \<Rightarrow> bool" where
  "holds bs ids E ts srt \<longleftrightarrow>
     (\<forall>e < E. \<forall>r < blocks bs ids e * bs. srt ! (first_block bs ids e * bs + r) = (if r < length (tokens_of ids e ts) then tokens_of ids e ts ! r else length ids))"

definition is_token :: "int list \<Rightarrow> nat \<Rightarrow> nat \<Rightarrow> bool" where
  "is_token ids E t \<longleftrightarrow> t < length ids \<and> 0 \<le> ids ! t \<and> ids ! t < int E"

lemma tokens_of_le: "distinct ts \<Longrightarrow> \<forall>t \<in> set ts. t < length ids \<Longrightarrow> length (tokens_of ids e ts) \<le> routed ids e"
proof -
  assume "distinct ts" "\<forall>t \<in> set ts. t < length ids"
  then have "length (tokens_of ids e ts) = card (set (tokens_of ids e ts))" "set (tokens_of ids e ts) \<subseteq> set (filter (\<lambda>t. ids ! t = int e) [0..<length ids])"
    by (auto simp: tokens_of_def distinct_card[symmetric])
  then show ?thesis
    unfolding routed_filter using card_mono[OF finite_set] card_length by (metis order_trans)
qed

lemma region_end: "e < E \<Longrightarrow> r < blocks bs ids e * bs \<Longrightarrow> first_block bs ids e * bs + r < first_block bs ids E * bs"
proof -
  assume e: "e < E" "r < blocks bs ids e * bs"
  then have "first_block bs ids (Suc e) * bs \<le> first_block bs ids E * bs"
    by (intro mult_le_mono1 first_block_mono) simp
  then show ?thesis
    using e(2) by (simp add: add_mult_distrib)
qed

lemma scatter_right:
  assumes "0 < bs" "starts bs ids E cs" "distinct (us @ ts)" "\<forall>t \<in> set (us @ ts). is_token ids E t" "length fc = E"
    and "\<forall>e < E. fc ! e = length (tokens_of ids e us)" "holds bs ids E us srt" "first_block bs ids E * bs \<le> length srt"
  shows "\<exists>out. scatter ids cs ts fc srt = Some out \<and> length out = length srt \<and> holds bs ids E (us @ ts) out"
  using assms(3-8)
proof (induction ts arbitrary: us fc srt)
  case (Cons t ts)
  define e where "e = nat (ids ! t)"
  define k where "k = length (tokens_of ids e us)"
  define pos where "pos = first_block bs ids e * bs + k"
  have t: "t < length ids" "ids ! t = int e" "e < E"
    using Cons.prems(2) by (auto simp: is_token_def e_def)
  have "length (tokens_of ids e (us @ [t])) \<le> routed ids e"
    using Cons.prems(1,2) by (intro tokens_of_le) (auto simp: is_token_def)
  then have k: "k < blocks bs ids e * bs"
    using t(2) routed_le_blocks[OF assms(1), of ids e] by (simp add: k_def tokens_of_def)
  then have pos: "pos < length srt"
    using region_end[OF t(3) k] Cons.prems(6) by (simp add: pos_def)
  have toks: "tokens_of ids e' (us @ [t]) = (if e' = e then tokens_of ids e us @ [t] else tokens_of ids e' us)" for e'
    using t(2) by (auto simp: tokens_of_def)
  have "holds bs ids E (us @ [t]) (srt[pos := t])"
    unfolding holds_def
  proof (intro allI impI)
    fix e' r assume e': "e' < E" "r < blocks bs ids e' * bs"
    let ?i = "first_block bs ids e' * bs + r"
    have old: "srt ! ?i = (if r < length (tokens_of ids e' us) then tokens_of ids e' us ! r else length ids)"
      using Cons.prems(5) e' by (simp add: holds_def)
    show "srt[pos := t] ! ?i = (if r < length (tokens_of ids e' (us @ [t])) then tokens_of ids e' (us @ [t]) ! r else length ids)"
    proof (cases "e' = e \<and> r = k")
      case True
      then have "?i = pos"
        by (simp add: pos_def)
      then have "srt[pos := t] ! ?i = t"
        using pos by simp
      moreover have "tokens_of ids e' (us @ [t]) = tokens_of ids e us @ [t]" "r = length (tokens_of ids e us)"
        using True toks by (simp_all add: k_def)
      ultimately show ?thesis
        by simp
    next
      case False
      then have "?i \<noteq> pos"
        using position_unique[OF e'(2) k _ assms(1)] by (auto simp: pos_def)
      then have "srt[pos := t] ! ?i = srt ! ?i"
        by simp
      then show ?thesis
        unfolding old toks using False by (auto simp: nth_append k_def)
    qed
  qed
  moreover have "\<forall>e' < E. fc[e := Suc k] ! e' = length (tokens_of ids e' (us @ [t]))"
    unfolding toks using Cons.prems(3,4) by (auto simp: nth_list_update k_def)
  ultimately have "\<exists>out. scatter ids cs ts (fc[e := Suc k]) (srt[pos := t]) = Some out \<and> length out = length (srt[pos := t]) \<and>
      holds bs ids E ((us @ [t]) @ ts) out"
    using Cons.prems by (intro Cons.IH) simp_all
  moreover have "scatter ids cs (t # ts) fc srt = scatter ids cs ts (fc[e := Suc k]) (srt[pos := t])"
  proof -
    have "nat (expert_of ids t) = e" "fc ! e = k" "cs ! e + k = pos" "e < length fc" "e < length cs"
      using t Cons.prems(3,4) assms(2) by (auto simp: expert_of_def e_def k_def pos_def starts_def)
    then show ?thesis
      using pos by (simp add: Let_def)
  qed
  ultimately show ?case
    by simp
qed simp

section \<open>What the sort must produce\<close>

text \<open>The regions of the experts follow each other, each as many whole blocks as its tokens need: first its tokens, in some order,
  then the sentinel; and each of its blocks is labelled with it.\<close>

definition grouped :: "nat \<Rightarrow> int list \<Rightarrow> nat \<Rightarrow> nat list \<times> nat list \<times> nat \<Rightarrow> bool" where
  "grouped bs ids E out \<longleftrightarrow> (case out of (srt, eids, npp) \<Rightarrow>
     npp = first_block bs ids E * bs \<and> npp \<le> length srt \<and>
     (\<forall>e < E.
        (\<exists>f. mset f = mset (filter (\<lambda>t. ids ! t = int e) [0..<length ids]) \<and>
             slice (first_block bs ids e * bs) (first_block bs ids (Suc e) * bs) srt = f @ replicate (blocks bs ids e * bs - length f) (length ids)) \<and>
        slice (first_block bs ids e) (first_block bs ids (Suc e)) eids = replicate (blocks bs ids e) e))"

lemma lanes_tokens: "length ids \<le> n \<Longrightarrow> filter (valid_lane ids E) [0..<n] = filter (is_token ids E) [0..<length ids]"
proof -
  assume n: "length ids \<le> n"
  have "filter (valid_lane ids E) [0..<n] = filter (\<lambda>t. t < length ids \<and> is_token ids E t) [0..<n]"
    by (intro filter_cong) (auto simp: valid_lane_def is_token_def expert_of_def)
  then show ?thesis
    using filter_range[OF n] by simp
qed

lemma groupedI:
  assumes "0 < bs" "mset ts = mset (filter (is_token ids E) [0..<length ids])" "holds bs ids E ts out" "first_block bs ids E * bs \<le> length out"
    and "\<forall>b < first_block bs ids E. b < length eids \<and> eids ! b = owner bs ids b"
  shows "grouped bs ids E (out, eids, first_block bs ids E * bs)"
proof -
  have "\<exists>f. mset f = mset (filter (\<lambda>t. ids ! t = int e) [0..<length ids]) \<and>
      slice (first_block bs ids e * bs) (first_block bs ids (Suc e) * bs) out = f @ replicate (blocks bs ids e * bs - length f) (length ids)"
    if e: "e < E" for e
  proof -
    let ?f = "tokens_of ids e ts"
    have "mset ?f = filter_mset (\<lambda>t. ids ! t = int e) (mset (filter (is_token ids E) [0..<length ids]))"
      by (simp only: tokens_of_def mset_filter assms(2))
    also have "\<dots> = mset (filter (\<lambda>t. ids ! t = int e) [0..<length ids])"
    proof -
      have "filter (\<lambda>t. ids ! t = int e) (filter (is_token ids E) [0..<length ids]) = filter (\<lambda>t. ids ! t = int e) [0..<length ids]"
        using e by (auto simp: is_token_def intro!: filter_cong)
      then show ?thesis
        by (metis mset_filter)
    qed
    finally have f: "mset ?f = mset (filter (\<lambda>t. ids ! t = int e) [0..<length ids])" .
    have len: "length ?f \<le> blocks bs ids e * bs"
      using routed_le_blocks[OF assms(1), of ids e] mset_eq_length[OF f] by (simp add: routed_filter)
    have stop: "first_block bs ids (Suc e) * bs \<le> length out"
      by (rule order_trans[OF mult_le_mono1[OF first_block_mono] assms(4)]) (use e in simp)
    have "slice (first_block bs ids e * bs) (first_block bs ids (Suc e) * bs) out = ?f @ replicate (blocks bs ids e * bs - length ?f) (length ids)"
    proof (rule nth_equalityI)
      show "length (slice (first_block bs ids e * bs) (first_block bs ids (Suc e) * bs) out) = length (?f @ replicate (blocks bs ids e * bs - length ?f) (length ids))"
        using len stop by (simp add: add_mult_distrib)
      fix i assume "i < length (slice (first_block bs ids e * bs) (first_block bs ids (Suc e) * bs) out)"
      then have i: "i < blocks bs ids e * bs"
        using stop by (simp add: add_mult_distrib)
      have "slice (first_block bs ids e * bs) (first_block bs ids (Suc e) * bs) out ! i = out ! (first_block bs ids e * bs + i)"
        using i stop by (simp add: slice_def add_mult_distrib)
      also have "\<dots> = (if i < length ?f then ?f ! i else length ids)"
        using assms(3) e i by (simp add: holds_def)
      finally show "slice (first_block bs ids e * bs) (first_block bs ids (Suc e) * bs) out ! i = (?f @ replicate (blocks bs ids e * bs - length ?f) (length ids)) ! i"
        using i len by (simp add: nth_append)
    qed
    then show ?thesis
      using f by blast
  qed
  moreover have "slice (first_block bs ids e) (first_block bs ids (Suc e)) eids = replicate (blocks bs ids e) e" if e: "e < E" for e
  proof -
    have upto: "first_block bs ids (Suc e) \<le> first_block bs ids E"
      using e by (intro first_block_mono) simp
    moreover have "first_block bs ids E \<le> length eids"
      using assms(5) by (meson not_le order_refl)
    ultimately have "first_block bs ids (Suc e) \<le> length eids"
      by linarith
    moreover have "eids ! (first_block bs ids e + i) = e" if "i < blocks bs ids e" for i
      using assms(5) owner_eq[of bs ids e "first_block bs ids e + i"] that upto by simp
    ultimately show ?thesis
      by (intro nth_equalityI) (simp_all add: slice_def)
  qed
  ultimately show ?thesis
    using assms(4) by (simp add: grouped_def)
qed

section \<open>The single program\<close>

definition shuffles :: "(nat list \<Rightarrow> nat list) \<Rightarrow> bool" where
  "shuffles p \<longleftrightarrow> (\<forall>xs. mset (p xs) = mset xs)"

lemma fold_max_ge: "(a::nat) \<le> fold max xs a \<and> (\<forall>x \<in> set xs. x \<le> fold max xs a)"
proof (induction xs arbitrary: a)
  case (Cons b xs)
  show ?case
    using Cons.IH[of "max b a"] by auto
qed simp

lemma shuffled_tokens:
  fixes E n :: nat
  assumes "shuffles ord" "length ids \<le> n"
  defines "ts \<equiv> ord (filter (valid_lane ids E) [0..<n])"
  shows "mset ts = mset (filter (is_token ids E) [0..<length ids])" "distinct ts" "\<forall>t \<in> set ts. is_token ids E t"
proof -
  show m: "mset ts = mset (filter (is_token ids E) [0..<length ids])"
    using assms(1) by (simp add: ts_def shuffles_def lanes_tokens[OF assms(2)] del: mset_filter)
  show "distinct ts"
    using mset_eq_imp_distinct_iff[OF m] by simp
  show "\<forall>t \<in> set ts. is_token ids E t"
    using mset_eq_setD[OF m] by auto
qed

lemma strides: "0 < n \<Longrightarrow> {i \<in> set (concat (map (\<lambda>k. map (\<lambda>j. k * n + j) [0..<n]) [0..<div_ceil m n])). i < m} = {i. i < (m::nat)}"
proof (intro Collect_cong iffI)
  fix i assume n: "0 < n" and i: "i < m"
  have "i div n * n \<le> i" "i < i div n * n + n"
    using div_mult_mod_eq[of i n] mod_less_divisor[OF n, of i] by linarith+
  moreover have "i div n < div_ceil m n"
    using n i div_ceil_ge[OF n, of m] by (metis div_mult_mod_eq le_add1 le_less_trans less_le_trans mult_less_cancel2)
  ultimately show "i \<in> set (concat (map (\<lambda>k. map (\<lambda>j. k * n + j) [0..<n]) [0..<div_ceil m n])) \<and> i < m"
    using i by (auto intro!: bexI[of _ "i div n"])
qed auto

lemma lane_writes:
  "(b, v) \<in> set (concat (map (\<lambda>j. map (\<lambda>l. (f l + j, l)) (filter (P j) lanes)) js)) \<longleftrightarrow> (\<exists>j \<in> set js. v \<in> set lanes \<and> P j v \<and> b = f v + (j::nat))"
  by (induction js) auto

lemma moe_align_small_right:
  assumes "0 < bs" "shuffles ord" "length cumsum = E + 1" "length fill_counter = E" "first_block bs ids E * bs \<le> length srt" "first_block bs ids E \<le> length eids"
  shows "\<exists>out. moe_align_small ord ids E bs cumsum fill_counter srt eids = Some out \<and> grouped bs ids E out"
proof -
  let ?n = "next_power_of_2 (length ids)" and ?h = "next_power_of_2 (E + 1)"
  have n: "length ids \<le> ?n" and h: "E < ?h"
    using next_power_of_2_ge next_power_of_2_less by blast+
  define counts where "counts = histogram (bins_of ids E ?h [0..<?n]) ?h"
  have counts: "counts ! e = routed ids e" if "e < E" for e
    using bins_count[OF that h, of ids "[0..<?n]"] that h filter_range[OF n, of "\<lambda>t. ids ! t = int e"] by (simp add: counts_def routed_filter)
  define nblk where "nblk = map (\<lambda>l. if l < E then (counts ! l + bs - 1) div bs else 0) [0..<?h]"
  have nblk: "map (\<lambda>c. (c + bs - 1) div bs) (map (\<lambda>le. if le < E then counts ! le else 0) [0..<?h]) = nblk"
    using assms(1) by (simp add: nblk_def comp_def)
  note st = starts_stored[OF assms(1) less_imp_le[OF h] counts assms(3), folded nblk_def]
  obtain cs1 cs2 where cs: "store_all (map (\<lambda>l. (l, exclusive_cumsum nblk ! l * bs)) (filter (\<lambda>l. l < E) [0..<?h])) cumsum = Some cs1"
      "store_all [(E, sum_list nblk * bs)] cs1 = Some cs2" "starts bs ids E cs2"
    using st(1) by blast
  obtain fc where fc: "store_all (map (\<lambda>le. (le, 0)) (filter (\<lambda>le. le < E) [0..<?h])) fill_counter = Some fc" "length fc = E" "\<forall>e < E. fc ! e = 0"
    using store_lanes[of "filter (\<lambda>le. le < E) [0..<?h]" "\<lambda>l. l" fill_counter "\<lambda>_. 0" "\<lambda>_. 0"] assms(4) h by auto
  define ws where "ws = concat (map (\<lambda>j. map (\<lambda>le. (exclusive_cumsum nblk ! le + j, le)) (filter (\<lambda>le. le < E \<and> j < nblk ! le) [0..<?h])) [0..<fold max nblk 0])"
  have ws: "(b, v) \<in> set ws \<longleftrightarrow> (\<exists>j. v < E \<and> j < blocks bs ids v \<and> b = first_block bs ids v + j)" for b v
  proof -
    have "j < fold max nblk 0" if "v < E" "j < nblk ! v" for j
      using fold_max_ge[of 0 nblk] that h by (metis (no_types, lifting) diff_zero length_map length_upt less_le_trans less_trans nblk_def nth_mem)
    then have "(\<exists>j < fold max nblk 0. v < E \<and> j < nblk ! v \<and> b = exclusive_cumsum nblk ! v + j) \<longleftrightarrow> (\<exists>j. v < E \<and> j < blocks bs ids v \<and> b = first_block bs ids v + j)"
      using st(3) by auto
    moreover have "(b, v) \<in> set ws \<longleftrightarrow> (\<exists>j < fold max nblk 0. v < E \<and> j < nblk ! v \<and> b = exclusive_cumsum nblk ! v + j)"
      using h unfolding ws_def lane_writes by auto
    ultimately show ?thesis
      by blast
  qed
  have owners: "b < first_block bs ids E \<and> v = owner bs ids b" if mem: "(b, v) \<in> set ws" for b v
  proof -
    obtain j where j: "v < E" "j < blocks bs ids v" "b = first_block bs ids v + j"
      using mem[unfolded ws] by blast
    have "b < first_block bs ids (Suc v)"
      using j(2,3) by simp
    moreover have "first_block bs ids (Suc v) \<le> first_block bs ids E"
      by (rule first_block_mono) (use j(1) in simp)
    ultimately show ?thesis
      using owner_eq[of bs ids v b] j(3) by simp
  qed
  have "\<forall>(b, v) \<in> set ws. b < length eids \<and> v = owner bs ids b"
    using owners assms(6) by fastforce
  from store_all_eq[OF this] obtain es where es: "store_all ws eids = Some es" "length es = length eids"
      "\<forall>b < length eids. es ! b = (if b \<in> fst ` set ws then owner bs ids b else eids ! b)"
    by blast
  have es_owner: "b < length es \<and> es ! b = owner bs ids b" if b: "b < first_block bs ids E" for b
  proof -
    obtain e where e: "e < E" "first_block bs ids e \<le> b" "b < first_block bs ids (Suc e)"
      using owner_exists[OF b] by blast
    then have "(b, e) \<in> set ws"
      unfolding ws by (intro exI[of _ "b - first_block bs ids e"]) auto
    then have "b \<in> fst ` set ws"
      by force
    then show ?thesis
      using es(2,3) b assms(6) by simp
  qed
  let ?npp = "first_block bs ids E * bs"
  define cells where "cells = filter (\<lambda>i. i < ?npp) (concat (map (\<lambda>k. map (\<lambda>fo. k * 1024 + fo) [0..<1024]) [0..<div_ceil ?npp 1024]))"
  have cells: "set cells = {i. i < ?npp}"
    using strides[of 1024 ?npp] by (auto simp: cells_def)
  obtain s1 where s1: "store_all (map (\<lambda>i. (i, length ids)) cells) srt = Some s1" "length s1 = length srt" "\<forall>i < ?npp. s1 ! i = length ids"
    using store_lanes[of cells "\<lambda>i. i" srt "\<lambda>_. length ids" "\<lambda>_. length ids"] assms(5) cells by auto
  define ts where "ts = ord (filter (valid_lane ids E) [0..<?n])"
  note ts = shuffled_tokens[OF assms(2) n, of E, folded ts_def]
  have "holds bs ids E [] s1"
    using s1(3) region_end by (auto simp: holds_def tokens_of_def)
  then obtain out where out: "scatter ids cs2 ts fc s1 = Some out" "length out = length s1" "holds bs ids E ts out"
    using scatter_right[OF assms(1) cs(3), of "[]" ts fc s1] ts(2,3) fc(2,3) s1(2) assms(5) by (auto simp: tokens_of_def)
  have "grouped bs ids E (out, es, ?npp)"
    using groupedI[OF assms(1) ts(1) out(3)] out(2) s1(2) assms(5) es_owner by auto
  moreover have cs2: "store_all [(E, first_block bs ids E * bs)] cs1 = Some cs2"
    using cs(2) by (simp only: st(2))
  moreover have "moe_align_small ord ids E bs cumsum fill_counter srt eids = Some (out, es, ?npp)"
    unfolding moe_align_small_def Let_def
    by (simp only: counts_def[symmetric] nblk cs(1) cs2 fc es out s1 st(2) ws_def[symmetric] cells_def[symmetric] ts_def[symmetric] Option.bind.simps)
  ultimately show ?thesis
    by blast
qed


section \<open>The four launches\<close>

definition lanes_of :: "nat \<Rightarrow> nat \<Rightarrow> nat list" where
  "lanes_of block pid = map (\<lambda>k. pid * block + k) [0..<block]"

lemma mem_lanes_of: "0 < block \<Longrightarrow> i \<in> set (lanes_of block pid) \<longleftrightarrow> i div block = pid"
proof -
  assume block: "0 < block"
  have "i div block * block \<le> i" "i < block + i div block * block"
    using div_mult_mod_eq[of i block] mod_less_divisor[OF block, of i] by linarith+
  then show ?thesis
    by (auto simp: lanes_of_def mult.commute intro!: div_nat_eqI)
qed

lemma concat_lanes: "concat (map (lanes_of block) [0..<n]) = [0..<n * block]"
proof (induction n)
  case (Suc n)
  have "lanes_of block n = [n * block..<n * block + block]"
    using map_add_upt[of "n * block" block] by (simp add: lanes_of_def add.commute)
  then show ?case
    using Suc upt_add_eq_append[of 0 "n * block" block] by (simp add: add.commute)
qed simp

definition counted :: "nat \<Rightarrow> int list \<Rightarrow> nat \<Rightarrow> nat \<Rightarrow> nat" where
  "counted block ids e pid = length (filter (\<lambda>t. t < length ids \<and> ids ! t = int e) (lanes_of block pid))"

lemma sum_counted:
  assumes "mset pids = mset [0..<n]" "length ids \<le> n * block"
  shows "sum_list (map (counted block ids e) pids) = routed ids e"
proof -
  have "sum_list (map (counted block ids e) pids) = sum_list (map (counted block ids e) [0..<n])"
    using arg_cong[OF assms(1), of "\<lambda>m. sum_mset (image_mset (counted block ids e) m)"] by (simp only: mset_map[symmetric] sum_mset_sum_list)
  also have "\<dots> = length (filter (\<lambda>t. t < length ids \<and> ids ! t = int e) (concat (map (lanes_of block) [0..<n])))"
    by (induction n) (simp_all add: counted_def)
  finally show ?thesis
    using filter_range[OF assms(2), of "\<lambda>t. ids ! t = int e"] by (simp only: concat_lanes routed_filter)
qed

text \<open>What \<open>_fill_and_count\<close> has done once the programs \<open>ps\<close> have run.\<close>

definition filled :: "nat \<Rightarrow> int list \<Rightarrow> nat \<Rightarrow> nat \<Rightarrow> nat list \<Rightarrow> nat list \<times> nat list \<times> nat list \<Rightarrow> bool" where
  "filled block ids E n ps st \<longleftrightarrow> (case st of (srt, counts, fc) \<Rightarrow>
     length srt = n \<and> length counts = E \<and> length fc = E \<and>
     (\<forall>i < n. i div block \<in> set ps \<longrightarrow> srt ! i = length ids) \<and> (\<forall>i < E. i div block \<in> set ps \<longrightarrow> fc ! i = 0) \<and>
     (\<forall>e < E. counts ! e = sum_list (map (counted block ids e) ps)))"

lemma fill_and_count_right:
  assumes "0 < block" "filled block ids E n ps st"
  shows "\<exists>st'. fill_and_count block ids E pid st = Some st' \<and> filled block ids E n (ps @ [pid]) st'"
proof -
  obtain srt counts fc where st: "st = (srt, counts, fc)"
    by (cases st)
  let ?h = "next_power_of_2 (E + 1)"
  have h: "E < ?h"
    by (rule next_power_of_2_less)
  have lens: "length srt = n" "length counts = E" "length fc = E"
    using assms(2) st by (auto simp: filled_def)
  obtain srt' where srt': "store_all (map (\<lambda>i. (i, length ids)) (filter (\<lambda>i. i < length srt) (lanes_of block pid))) srt = Some srt'" "length srt' = n"
      "\<forall>i < n. srt' ! i = (if i div block = pid then length ids else srt ! i)"
    using store_lanes[of "filter (\<lambda>i. i < length srt) (lanes_of block pid)" "\<lambda>i. i" srt "\<lambda>_. length ids" "\<lambda>_. length ids"] lens(1)
    by (auto simp: mem_lanes_of[OF assms(1)])
  obtain fc' where fc': "store_all (map (\<lambda>i. (i, 0)) (filter (\<lambda>i. i < E) (lanes_of block pid))) fc = Some fc'" "length fc' = E"
      "\<forall>i < E. fc' ! i = (if i div block = pid then 0 else fc ! i)"
    using store_lanes[of "filter (\<lambda>i. i < E) (lanes_of block pid)" "\<lambda>i. i" fc "\<lambda>_. 0" "\<lambda>_. 0"] lens(3)
    by (auto simp: mem_lanes_of[OF assms(1)])
  define hs where "hs = histogram (bins_of ids E ?h (lanes_of block pid)) ?h"
  have hs: "hs ! e = counted block ids e pid" if "e < E" for e
    using bins_count[OF that h] that h by (simp add: hs_def counted_def)
  obtain counts' where counts': "store_all (map (\<lambda>le. (le, counts ! le + hs ! le)) (filter (\<lambda>le. le < E \<and> 0 < hs ! le) [0..<?h])) counts = Some counts'"
      "length counts' = E" "\<forall>e < E. counts' ! e = (if 0 < hs ! e then counts ! e + hs ! e else counts ! e)"
    using store_lanes[of "filter (\<lambda>le. le < E \<and> 0 < hs ! le) [0..<?h]" "\<lambda>l. l" counts "\<lambda>le. counts ! le + hs ! le" "\<lambda>le. counts ! le + hs ! le"] lens(2) h
    by auto
  have "filled block ids E n (ps @ [pid]) (srt', counts', fc')"
    using assms(2) srt'(2,3) fc'(2,3) counts'(2,3) hs unfolding st filled_def by auto
  moreover have "fill_and_count block ids E pid st = Some (srt', counts', fc')"
    unfolding fill_and_count_def Let_def lanes_of_def[symmetric] st prod.case hs_def[symmetric] srt'(1) fc'(1) counts'(1) Option.bind.simps ..
  ultimately show ?thesis
    by blast
qed

lemma launch_filled:
  "0 < block \<Longrightarrow> filled block ids E n us st \<Longrightarrow>
   \<exists>st'. launch (fill_and_count block ids E) ps st = Some st' \<and> filled block ids E n (us @ ps) st'"
proof (induction ps arbitrary: us st)
  case (Cons p ps)
  then show ?case
    using fill_and_count_right[OF Cons.prems, of p] Cons.IH[of "us @ [p]"] by fastforce
qed auto

text \<open>Likewise \<open>_fill_expert_ids\<close>.\<close>

lemma launch_experts:
  assumes "0 < block" "0 < bs" "starts bs ids E cs" "first_block bs ids E \<le> length eids"
  shows "\<exists>es. launch (fill_expert_ids block cs (first_block bs ids E * bs) bs E) ps eids = Some es \<and> length es = length eids \<and>
    (\<forall>b < first_block bs ids E. es ! b = (if b div block \<in> set ps then owner bs ids b else eids ! b))"
  using assms(4)
proof (induction ps arbitrary: eids)
  case (Cons p ps)
  have "first_block bs ids E * bs div bs = first_block bs ids E"
    using assms(2) by simp
  then obtain e1 where e1: "fill_expert_ids block cs (first_block bs ids E * bs) bs E p eids = Some e1" "length e1 = length eids"
      "\<forall>b < length eids. e1 ! b = (if b \<in> (\<lambda>b. b) ` set (filter (\<lambda>b. b < first_block bs ids E) (lanes_of block p)) then owner bs ids b else eids ! b)"
    using store_lanes[of "filter (\<lambda>b. b < first_block bs ids E) (lanes_of block p)" "\<lambda>b. b" eids "\<lambda>b. search (bit_length E) cs bs b 0 E - 1" "owner bs ids"]
      search_owner[OF assms(2,3)] Cons.prems
    unfolding fill_expert_ids_def lanes_of_def[symmetric] by auto
  obtain es where es: "launch (fill_expert_ids block cs (first_block bs ids E * bs) bs E) ps e1 = Some es" "length es = length e1"
      "\<forall>b < first_block bs ids E. es ! b = (if b div block \<in> set ps then owner bs ids b else e1 ! b)"
    using Cons.IH[of e1] Cons.prems e1(2) by auto
  have "es ! b = (if b div block \<in> set (p # ps) then owner bs ids b else eids ! b)" if "b < first_block bs ids E" for b
    using es(3) e1(3) that Cons.prems by (auto simp: mem_lanes_of[OF assms(1)])
  then show ?case
    using e1(1,2) es(1,2) by auto
qed simp

lemma div_block_less: "0 < block \<Longrightarrow> i < m \<Longrightarrow> m \<le> k \<Longrightarrow> i div block < div_ceil k (block::nat)"
  using div_ceil_ge[of block k] by (metis less_mult_imp_div_less less_le_trans)

lemma moe_align_large_right:
  assumes "0 < bs" "shuffles ord" "shuffles prog" "0 < block" "length cumsum = E + 1" "length fill_counter = E" "first_block bs ids E * bs \<le> length srt"
    and "first_block bs ids E \<le> length eids" "length ids \<le> n3 * block"
    and "length srt \<le> big" "length ids \<le> big" "E \<le> big" "length eids \<le> big2"
  shows "\<exists>s1 counts fc cs es out.
    launch (fill_and_count block ids E) (prog [0..<div_ceil big block]) (srt, replicate E 0, fill_counter) = Some (s1, counts, fc) \<and>
    cumsum_experts counts E bs cumsum = Some (cs, first_block bs ids E * bs) \<and>
    launch (fill_expert_ids block cs (first_block bs ids E * bs) bs E) (prog [0..<div_ceil big2 block]) eids = Some es \<and>
    scatter ids cs (ord (filter (valid_lane ids E) [0..<n3 * block])) fc s1 = Some out \<and> grouped bs ids E (out, es, first_block bs ids E * bs)"
proof -
  let ?ps = "prog [0..<div_ceil big block]"
  have ps: "mset ?ps = mset [0..<div_ceil big block]" "set ?ps = {i. i < div_ceil big block}"
    using assms(3) mset_eq_setD[of ?ps "[0..<div_ceil big block]"] by (auto simp: shuffles_def)
  have "filled block ids E (length srt) [] (srt, replicate E 0, fill_counter)"
    using assms(6) by (simp add: filled_def)
  from launch_filled[OF assms(4) this, of ?ps] obtain st where
      st: "launch (fill_and_count block ids E) ?ps (srt, replicate E 0, fill_counter) = Some st" "filled block ids E (length srt) ?ps st"
    unfolding append_Nil2 append_Nil by blast
  obtain s1 counts fc where sf: "st = (s1, counts, fc)"
    by (cases st)
  note s1 = st[unfolded sf]
  have ready: "length s1 = length srt" "length fc = E" "\<forall>i < length srt. s1 ! i = length ids" "\<forall>i < E. fc ! i = 0"
    using s1(2) div_block_less[OF assms(4)] assms(10,12) by (auto simp: filled_def ps(2))
  have "length ids \<le> div_ceil big block * block"
    using div_ceil_ge[OF assms(4), of big] assms(11) by linarith
  then have counts: "counts ! e = routed ids e" if "e < E" for e
    using s1(2) that sum_counted[OF ps(1)] by (simp add: filled_def)
  define nblk where "nblk = map (\<lambda>l. if l < E then (counts ! l + bs - 1) div bs else 0) [0..<next_power_of_2 E]"
  note sums = starts_stored[OF assms(1) next_power_of_2_ge counts assms(5), folded nblk_def]
  obtain cs1 cs where cs: "store_all (map (\<lambda>l. (l, exclusive_cumsum nblk ! l * bs)) (filter (\<lambda>l. l < E) [0..<next_power_of_2 E])) cumsum = Some cs1"
      "store_all [(E, sum_list nblk * bs)] cs1 = Some cs" "starts bs ids E cs"
    using sums(1) by blast
  have cum: "cumsum_experts counts E bs cumsum = Some (cs, first_block bs ids E * bs)"
    using cs(1,2) sums(2) by (simp only: cumsum_experts_def Let_def nblk_def[symmetric] Option.bind.simps)
  obtain es where es: "launch (fill_expert_ids block cs (first_block bs ids E * bs) bs E) (prog [0..<div_ceil big2 block]) eids = Some es" "length es = length eids"
      "\<forall>b < first_block bs ids E. es ! b = (if b div block \<in> set (prog [0..<div_ceil big2 block]) then owner bs ids b else eids ! b)"
    using launch_experts[OF assms(4,1) cs(3) assms(8)] by blast
  have "set (prog [0..<div_ceil big2 block]) = {i. i < div_ceil big2 block}"
    using assms(3) mset_eq_setD[of "prog [0..<div_ceil big2 block]" "[0..<div_ceil big2 block]"] by (auto simp: shuffles_def)
  then have es_owner: "\<forall>b < first_block bs ids E. b < length es \<and> es ! b = owner bs ids b"
    using es(2,3) assms(8,13) div_block_less[OF assms(4), of _ "first_block bs ids E" big2] by auto
  define ts where "ts = ord (filter (valid_lane ids E) [0..<n3 * block])"
  note ts = shuffled_tokens[OF assms(2,9), of E, folded ts_def]
  have "holds bs ids E [] s1"
    using ready(1,3) region_end[of _ E _ bs ids] assms(7) by (fastforce simp: holds_def tokens_of_def)
  then obtain out where out: "scatter ids cs ts fc s1 = Some out" "length out = length s1" "holds bs ids E ts out"
    using scatter_right[OF assms(1) cs(3), of "[]" ts fc s1] ts(2,3) ready assms(7) by (auto simp: tokens_of_def)
  have "grouped bs ids E (out, es, first_block bs ids E * bs)"
    using groupedI[OF assms(1) ts(1) out(3)] out(2) ready(1) assms(7) es_owner by auto
  then show ?thesis
    using s1(1) cum es(1) out(1) unfolding ts_def by blast
qed

section \<open>The property\<close>

text \<open>C32: the sort of routed tokens is right on both paths. Whatever the ids (invalid ones are ignored), the block size, the contents of
  the fresh buffers and the order in which programs and atomic additions take effect, no kernel writes outside a buffer, every
  expert's tokens stand, exactly once and padded with the sentinel, in a region of whole blocks, and every block is labelled with
  the expert whose region it lies in.\<close>

theorem moe_align_right:
  assumes "0 < block_size" "shuffles ord" "shuffles prog" "\<And>n. length (junk n) = n"
  shows "\<exists>out. moe_align_block_size ord prog junk ids block_size num_experts = Some out \<and> grouped block_size ids (num_experts + 1) out"
proof -
  define E where "E = num_experts + 1"
  define p where "p = max_padded (length ids) num_experts block_size"
  define m where "m = div_ceil p block_size"
  define n3 where "n3 = div_ceil (max (length ids) 1) 256"
  note local_defs = E_def[symmetric] p_def[symmetric] m_def[symmetric] n3_def[symmetric]
  have p: "first_block block_size ids E * block_size \<le> p"
    unfolding E_def p_def by (rule max_padded_enough[OF assms(1)])
  then have m: "first_block block_size ids E \<le> m"
    using div_ceil_mono[OF p, of block_size] assms(1) by (simp add: m_def)
  have n3: "length ids \<le> n3 * 256"
    using div_ceil_ge[of 256 "max (length ids) 1"] unfolding n3_def by linarith
  have len: "length (junk (E + 1)) = E + 1" "length (junk E) = E" "length (junk p) = p" "length (junk m) = m"
    by (rule assms(4))+
  show ?thesis
  proof (cases "0 < length ids \<and> length ids \<le> 1024")
    case True
    then show ?thesis
      using moe_align_small_right[OF assms(1,2), of "junk (E + 1)" E "junk E" ids "junk p" "junk m"] len p m
      unfolding moe_align_block_size_def Let_def local_defs by simp
  next
    case False
    obtain s1 counts fc cs es out where run:
        "launch (fill_and_count 256 ids E) (prog [0..<div_ceil (max p (max (length ids) E)) 256]) (junk p, replicate E 0, junk E) = Some (s1, counts, fc)"
        "cumsum_experts counts E block_size (junk (E + 1)) = Some (cs, first_block block_size ids E * block_size)"
        "launch (fill_expert_ids 256 cs (first_block block_size ids E * block_size) block_size E) (prog [0..<div_ceil (max m 1) 256]) (junk m) = Some es"
        "scatter ids cs (ord (filter (valid_lane ids E) [0..<n3 * 256])) fc s1 = Some out"
        "grouped block_size ids E (out, es, first_block block_size ids E * block_size)"
      using moe_align_large_right[OF assms(1-3) _ len(1,2), of 256 ids "junk p" "junk m" n3 "max p (max (length ids) E)" "max m 1"]
      unfolding len(3,4) using p m n3 by fastforce
    have "moe_align_block_size ord prog junk ids block_size num_experts = Some (out, es, first_block block_size ids E * block_size)"
      unfolding moe_align_block_size_def Let_def local_defs if_not_P[OF False] using run(1-4) by simp
    then show ?thesis
      using run(5) unfolding E_def by blast
  qed
qed

theorem moe_align_right_witness:
  "\<exists>out. moe_align_block_size rev rev (\<lambda>n. replicate n 99) [2, 0, 5, 0, -1, 2, 2] 2 4 = Some out \<and> grouped 2 [2, 0, 5, 0, -1, 2, 2] (4 + 1) out"
  by (rule moe_align_right) (simp_all add: shuffles_def)

end
