(* ===== verification/Reasoning.thy ===== *)
theory Reasoning
  imports PyStr
begin

text \<open>
  \<^verbatim>\<open>server/reasoning_parser.py\<close>, the parsers of the \<open><think>\<close> family: \<open>BaseReasoningParser\<close> with its DeepSeek, generic and
  Gemma instances, and \<open>MiniMaxM3ReasoningParser\<close>. A parser splits what a model says into reasoning and content, at once
  or as a stream of pieces. A result is the pair of \<open>reasoning_text\<close> and \<open>normal_text\<close>.
\<close>

section \<open>The base parser\<close>

record think_parser =
  tp_start :: ustr
  tp_end :: ustr
  tp_tool :: "ustr option"
  tp_force :: bool
  tp_stream :: bool
  tp_in :: bool
  tp_buffer :: ustr
  tp_stripped :: bool

definition tool_hold_max :: nat where
  "tool_hold_max = 512"

definition think_init :: "ustr \<Rightarrow> ustr \<Rightarrow> bool \<Rightarrow> bool \<Rightarrow> ustr option \<Rightarrow> think_parser" where
  "think_init start stop force streaming tool =
     \<lparr>tp_start = start, tp_end = stop, tp_tool = tool, tp_force = force, tp_stream = streaming, tp_in = force, tp_buffer = [], tp_stripped = False\<rparr>"

text \<open>\<open>self.tool_start_token and self.tool_start_token in text\<close>: where the tool marker begins.\<close>

definition tool_at :: "think_parser \<Rightarrow> ustr \<Rightarrow> nat option" where
  "tool_at p t = (case tp_tool p of None \<Rightarrow> None | Some tool \<Rightarrow> if tool = [] then None else str_find tool t)"

definition think_detect :: "think_parser \<Rightarrow> ustr \<Rightarrow> ustr \<times> ustr" where
  "think_detect p t =
     (if \<not> (tp_in p \<or> str_in (tp_start p) t) then ([], t)
      else (let processed = strip (remove_all (tp_start p) t)
            in case str_find (tp_end p) processed of
                 None \<Rightarrow> (case (case tp_tool p of None \<Rightarrow> None | Some tool \<Rightarrow> str_find tool processed) of
                     Some tool_idx \<Rightarrow> (strip (take tool_idx processed), drop tool_idx processed)
                   | None \<Rightarrow> (processed, []))
               | Some k \<Rightarrow> (take k processed, strip (drop (k + length (tp_end p)) processed))))"

definition hold_tokens :: "think_parser \<Rightarrow> ustr list" where
  "hold_tokens p = [tp_end p] @ (if tp_stripped p then [] else [tp_start p]) @ (case tp_tool p of None \<Rightarrow> [] | Some tool \<Rightarrow> if tool = [] then [] else [tool])"

definition split_trailing_partial :: "think_parser \<Rightarrow> ustr \<Rightarrow> ustr \<times> ustr" where
  "split_trailing_partial p t = (let best = longest_hold (hold_tokens p) t in (take (length t - best) t, drop (length t - best) t))"

text \<open>The part of a step before the markers are looked for: a first opening marker is cut out of the text.\<close>

definition strip_open :: "think_parser \<Rightarrow> ustr \<Rightarrow> ustr \<times> think_parser" where
  "strip_open p t =
     (if \<not> tp_stripped p \<and> str_in (tp_start p) t then (remove_once (tp_start p) t, p\<lparr>tp_stripped := True, tp_in := True\<rparr>) else (t, p))"

definition think_step :: "think_parser \<Rightarrow> ustr \<Rightarrow> (ustr \<times> ustr) \<times> think_parser" where
  "think_step p new_text =
     (let (current, p) = strip_open p (tp_buffer p @ new_text)
      in if tp_in p \<and> str_in (tp_end p) current
         then (let end_idx = the (str_find (tp_end p) current)
               in ((rstrip (take end_idx current), drop (end_idx + length (tp_end p)) current), p\<lparr>tp_buffer := [], tp_in := False\<rparr>))
         else if tp_in p \<and> tool_at p current \<noteq> None
         then (let tool_idx = the (tool_at p current);
                   held = drop tool_idx current
               in if tool_hold_max < length held then ((take tool_idx current, held), p\<lparr>tp_buffer := [], tp_in := False\<rparr>)
                  else ((take tool_idx current, []), p\<lparr>tp_buffer := held\<rparr>))
         else (let (safe, held) = split_trailing_partial p current
               in if tp_in p \<and> \<not> tp_stream p then (([], []), p\<lparr>tp_buffer := current\<rparr>)
                  else if tp_in p then ((safe, []), p\<lparr>tp_buffer := held\<rparr>)
                  else (([], safe), p\<lparr>tp_buffer := held\<rparr>)))"

definition think_flush :: "think_parser \<Rightarrow> (ustr \<times> ustr) \<times> think_parser" where
  "think_flush p =
     (let buf = tp_buffer p; p = p\<lparr>tp_buffer := []\<rparr>
      in if buf = [] then (([], []), p)
         else if (case tp_tool p of None \<Rightarrow> False | Some tool \<Rightarrow> tool \<noteq> [] \<and> prefix tool (lstrip buf)) then (([], buf), p\<lparr>tp_in := False\<rparr>)
         else if tp_in p then ((buf, []), p)
         else (([], buf), p))"

text \<open>A whole stream: what the client has received of each kind when the stream has been flushed.\<close>

fun think_run :: "think_parser \<Rightarrow> ustr list \<Rightarrow> ustr \<times> ustr" where
  "think_run p [] = fst (think_flush p)"
| "think_run p (x # xs) = (let ((r, n), p) = think_step p x; (r', n') = think_run p xs in (r @ r', n @ n'))"

section \<open>The models' markers\<close>

definition think_start_token :: ustr where "think_start_token = lit ''<think>''"
definition think_end_token :: ustr where "think_end_token = lit ''</think>''"
definition dsml_token :: ustr where "dsml_token = [0xFF5C] @ lit ''DSML'' @ [0xFF5C]"

definition deepseek_parser :: "bool \<Rightarrow> bool \<Rightarrow> think_parser" where
  "deepseek_parser force streaming = think_init think_start_token think_end_token force streaming (Some (lit ''<'' @ dsml_token))"

definition generic_think_parser :: "bool \<Rightarrow> bool \<Rightarrow> think_parser" where
  "generic_think_parser force streaming = think_init think_start_token think_end_token force streaming (Some (lit ''<function=''))"

definition gemma_parser :: "bool \<Rightarrow> bool \<Rightarrow> think_parser" where
  "gemma_parser force streaming = think_init (lit ''<|channel>thought'' @ [10]) (lit ''<channel|>'') force streaming None"

section \<open>MiniMax M3\<close>

record minimax_parser =
  mx_base :: think_parser
  mx_pending :: bool
  mx_head :: ustr

definition minimax_init :: "bool \<Rightarrow> bool \<Rightarrow> minimax_parser" where
  "minimax_init force streaming =
     \<lparr>mx_base = think_init (lit ''<mm:think>'') (lit ''</mm:think>'') force streaming (Some (lit '']<]minimax[>[<tool_call>'')),
      mx_pending = (\<not> force), mx_head = []\<rparr>"

text \<open>\<open>t.partition(sep)\<close>: before and after, and whether the separator was found.\<close>

definition partition_at :: "ustr \<Rightarrow> ustr \<Rightarrow> ustr \<times> bool \<times> ustr" where
  "partition_at sep t = (case str_find sep t of None \<Rightarrow> (t, False, []) | Some k \<Rightarrow> (take k t, True, drop (k + length sep) t))"

text \<open>The body of a think block: up to the closer, or to a tool block, or all of it. \<open>before\<close>, content that came
  first, is returned only if the block ends.\<close>

definition minimax_body :: "think_parser \<Rightarrow> ustr \<Rightarrow> ustr \<Rightarrow> ustr \<times> ustr" where
  "minimax_body b before body =
     (let (reasoning, sep, rest) = partition_at (tp_end b) body
      in if sep then (reasoning, before @ rest)
         else case (case tp_tool b of None \<Rightarrow> None | Some tool \<Rightarrow> str_find tool body) of
             Some i \<Rightarrow> (take i body, before @ drop i body)
           | None \<Rightarrow> (body, []))"

definition minimax_detect :: "minimax_parser \<Rightarrow> ustr \<Rightarrow> ustr \<times> ustr" where
  "minimax_detect p t =
     (let b = mx_base p
      in if tp_force b then minimax_body b [] t
         else if prefix (tp_end b) (lstrip t) then ([], drop (length (tp_end b)) (lstrip t))
         else case str_find (tp_start b) t of
             None \<Rightarrow> ([], t)
           | Some start \<Rightarrow> minimax_body b (take start t) (drop (start + length (tp_start b)) t))"

definition minimax_step :: "minimax_parser \<Rightarrow> ustr \<Rightarrow> (ustr \<times> ustr) \<times> minimax_parser" where
  "minimax_step p new_text =
     (if mx_pending p
      then (let buf = mx_head p @ new_text; head = lstrip buf; stop = tp_end (mx_base p)
            in if prefix stop head
               then (let b = (mx_base p)\<lparr>tp_in := False\<rparr>; rest = drop (length stop) head
                     in if rest = [] then (([], []), p\<lparr>mx_base := b, mx_pending := False, mx_head := []\<rparr>)
                        else (let (out, b) = think_step b rest in (out, p\<lparr>mx_base := b, mx_pending := False, mx_head := []\<rparr>)))
               else if head = [] \<or> prefix head stop then (([], []), p\<lparr>mx_head := buf\<rparr>)
               else (let (out, b) = think_step (mx_base p) buf in (out, p\<lparr>mx_base := b, mx_pending := False, mx_head := []\<rparr>)))
      else (let (out, b) = think_step (mx_base p) new_text in (out, p\<lparr>mx_base := b\<rparr>)))"

definition minimax_flush :: "minimax_parser \<Rightarrow> (ustr \<times> ustr) \<times> minimax_parser" where
  "minimax_flush p =
     (if mx_pending p \<and> mx_head p \<noteq> []
      then (let ((r, n), b) = think_step (mx_base p) (mx_head p); ((r', n'), b) = think_flush b
            in ((r @ r', n @ n'), p\<lparr>mx_base := b, mx_pending := False, mx_head := []\<rparr>))
      else (let (out, b) = think_flush (mx_base p) in (out, p\<lparr>mx_base := b\<rparr>)))"

fun minimax_run :: "minimax_parser \<Rightarrow> ustr list \<Rightarrow> ustr \<times> ustr" where
  "minimax_run p [] = fst (minimax_flush p)"
| "minimax_run p (x # xs) = (let ((r, n), p) = minimax_step p x; (r', n') = minimax_run p xs in (r @ r', n @ n'))"

section \<open>What a stream should give\<close>

text \<open>The split of the text of a think block: at the closer, or where a tool block begins, or nowhere.\<close>

definition body_split :: "think_parser \<Rightarrow> ustr \<Rightarrow> ustr \<times> ustr" where
  "body_split p t =
     (case str_find (tp_end p) t of
        Some k \<Rightarrow> (take k t, drop (k + length (tp_end p)) t)
      | None \<Rightarrow> (case tool_at p t of Some c \<Rightarrow> (take c t, drop c t) | None \<Rightarrow> (t, [])))"

text \<open>A tool marker before the closer is a quotation, which the parser can tell from a tool call only if the closer
  follows within the bound.\<close>

definition quotes_short :: "think_parser \<Rightarrow> ustr \<Rightarrow> bool" where
  "quotes_short p t \<longleftrightarrow> (\<forall>k c. str_find (tp_end p) t = Some k \<longrightarrow> tool_at p t = Some c \<longrightarrow> c < k \<longrightarrow> k + length (tp_end p) \<le> c + tool_hold_max)"

text \<open>What the proofs need of the markers.\<close>

definition markers_ok :: "think_parser \<Rightarrow> bool" where
  "markers_ok p \<longleftrightarrow> tp_start p \<noteq> [] \<and> tp_end p \<noteq> [] \<and> \<not> sublist (tp_end p) (tp_start p) \<and>
     (case tp_tool p of None \<Rightarrow> True
      | Some tool \<Rightarrow> tool \<noteq> [] \<and> \<not> is_space (hd tool) \<and> \<not> sublist tool (tp_end p) \<and> \<not> sublist tool (tp_start p))"

definition unopened :: "think_parser \<Rightarrow> ustr \<Rightarrow> bool" where
  "unopened p t \<longleftrightarrow> tp_stripped p \<or> \<not> str_in (tp_start p) t"

lemma str_in_mono: "str_in q a \<Longrightarrow> sublist a b \<Longrightarrow> str_in q b"
  unfolding str_in_sublist by (rule sublist_order.order_trans)

lemma unopened_mono: "unopened p b \<Longrightarrow> sublist a b \<Longrightarrow> unopened p a"
  unfolding unopened_def using str_in_mono by blast

lemma unopened_step: "unopened p (tp_buffer p @ x) \<Longrightarrow> strip_open p (tp_buffer p @ x) = (tp_buffer p @ x, p)"
  by (auto simp: strip_open_def unopened_def)

lemma split_trailing: "split_trailing_partial p t = (safe, held) \<Longrightarrow> t = safe @ held"
  by (auto simp: split_trailing_partial_def Let_def)

lemma think_run_Cons: "think_step p x = ((r, n), q) \<Longrightarrow> think_run p (x # xs) = (r @ fst (think_run q xs), n @ snd (think_run q xs))"
  by (simp add: case_prod_beta)

section \<open>Content\<close>

text \<open>Outside a think block the text passes unchanged.\<close>

lemma run_normal:
  "\<not> tp_in p \<Longrightarrow> unopened p (tp_buffer p @ concat xs) \<Longrightarrow> think_run p xs = ([], tp_buffer p @ concat xs)"
proof (induction xs arbitrary: p)
  case Nil
  then show ?case by (auto simp: think_flush_def Let_def)
next
  case (Cons x xs)
  obtain safe held where s: "split_trailing_partial p (tp_buffer p @ x) = (safe, held)" by force
  note c = split_trailing[OF s]
  have "unopened p (tp_buffer p @ x)" by (rule unopened_mono[OF Cons.prems(2)]) (simp add: sublist_appendI)
  then have st: "think_step p x = (([], safe), p\<lparr>tp_buffer := held\<rparr>)"
    using Cons.prems(1) s unfolding think_step_def unopened_step[OF \<open>unopened p (tp_buffer p @ x)\<close>] by simp
  have "unopened p (held @ concat xs)"
    by (rule unopened_mono[OF Cons.prems(2)]) (metis append_assoc c concat.simps(2) sublist_append_leftI sublist_order.order_refl)
  with Cons.IH[of "p\<lparr>tp_buffer := held\<rparr>"] Cons.prems(1) c show ?case
    unfolding think_run_Cons[OF st] by (simp add: unopened_def)
qed

section \<open>Inside a think block\<close>

text \<open>The step that meets the closer.\<close>

lemma step_close:
  assumes "tp_in p" "unopened p (tp_buffer p @ x)" "str_find (tp_end p) (tp_buffer p @ x) = Some k"
  shows "think_step p x = ((rstrip (take k (tp_buffer p @ x)), drop (k + length (tp_end p)) (tp_buffer p @ x)), p\<lparr>tp_buffer := [], tp_in := False\<rparr>)"
  using assms(1,3) unfolding think_step_def unopened_step[OF assms(2)] by (simp add: str_in_def Let_def)

text \<open>The step that meets a tool marker, or holds one.\<close>

lemma step_tool:
  assumes "tp_in p" "unopened p (tp_buffer p @ x)" "\<not> str_in (tp_end p) (tp_buffer p @ x)" "tool_at p (tp_buffer p @ x) = Some c"
  shows "think_step p x =
    (if tool_hold_max < length (drop c (tp_buffer p @ x)) then ((take c (tp_buffer p @ x), drop c (tp_buffer p @ x)), p\<lparr>tp_buffer := [], tp_in := False\<rparr>)
     else ((take c (tp_buffer p @ x), []), p\<lparr>tp_buffer := drop c (tp_buffer p @ x)\<rparr>))"
  using assms(1,3,4) unfolding think_step_def unopened_step[OF assms(2)] by (simp add: Let_def del: drop_append take_append length_append length_drop)

lemma step_plain:
  assumes "tp_in p" "tp_stream p" "unopened p (tp_buffer p @ x)" "\<not> str_in (tp_end p) (tp_buffer p @ x)" "tool_at p (tp_buffer p @ x) = None"
    "split_trailing_partial p (tp_buffer p @ x) = (safe, held)"
  shows "think_step p x = ((safe, []), p\<lparr>tp_buffer := held\<rparr>)"
  using assms(1,2,4,5,6) unfolding think_step_def unopened_step[OF assms(3)] by (simp add: Let_def)

lemma parser_update_simps [simp]:
  "tool_at (p\<lparr>tp_buffer := b\<rparr>) = tool_at p" "unopened (p\<lparr>tp_buffer := b\<rparr>) = unopened p" "hold_tokens (p\<lparr>tp_buffer := b\<rparr>) = hold_tokens p"
  "unopened (p\<lparr>tp_buffer := b, tp_in := i\<rparr>) = unopened p" "body_split (p\<lparr>tp_buffer := b\<rparr>) = body_split p" "quotes_short (p\<lparr>tp_buffer := b\<rparr>) = quotes_short p"
  "markers_ok (p\<lparr>tp_buffer := b\<rparr>) = markers_ok p"
  by (simp_all add: tool_at_def unopened_def hold_tokens_def body_split_def quotes_short_def markers_ok_def fun_eq_iff split: option.splits)

lemma sublist_right: "sublist b (a @ b @ c)"
  by (simp add: sublist_appendI)

text \<open>After a tool marker: the closer, if it comes within the bound, turns what was held into reasoning; else it is content.\<close>

lemma run_held:
  assumes "tp_tool p = Some tool" "tool \<noteq> []" "\<not> is_space (hd tool)"
  shows "tp_in p \<Longrightarrow> prefix tool (tp_buffer p) \<Longrightarrow> \<not> str_in (tp_end p) (tp_buffer p) \<Longrightarrow> unopened p (tp_buffer p @ concat xs) \<Longrightarrow>
    (\<And>k. str_find (tp_end p) (tp_buffer p @ concat xs) = Some k \<Longrightarrow> k + length (tp_end p) \<le> tool_hold_max) \<Longrightarrow>
    think_run p xs = (case str_find (tp_end p) (tp_buffer p @ concat xs) of None \<Rightarrow> ([], tp_buffer p @ concat xs)
      | Some k \<Rightarrow> (rstrip (take k (tp_buffer p @ concat xs)), drop (k + length (tp_end p)) (tp_buffer p @ concat xs)))"
  using assms
proof (induction xs arbitrary: p)
  case Nil
  from Nil.prems(2,7,8) have "lstrip (tp_buffer p) = tp_buffer p" by (cases tool) (auto simp: prefix_def lstrip_def)
  with Nil.prems show ?case by (auto simp: think_flush_def Let_def str_in_def)
next
  case (Cons x xs)
  let ?cur = "tp_buffer p @ x" and ?t = "tp_buffer p @ concat (x # xs)"
  have t: "?t = ?cur @ concat xs" by simp
  have un: "unopened p ?cur" by (rule unopened_mono[OF Cons.prems(4)]) (simp add: sublist_appendI)
  show ?case
  proof (cases "str_find (tp_end p) ?cur")
    case (Some k)
    note st = step_close[OF Cons.prems(1) un Some]
    have "think_run (p\<lparr>tp_buffer := [], tp_in := False\<rparr>) xs = ([], concat xs)"
      using run_normal[of "p\<lparr>tp_buffer := [], tp_in := False\<rparr>" xs] unopened_mono[OF Cons.prems(4), of "concat xs"] sublist_right[of "concat xs" ?cur "[]"] by simp
    moreover have "k + length (tp_end p) \<le> length ?cur" by (rule str_find_le[OF Some])
    ultimately show ?thesis unfolding think_run_Cons[OF st] t str_find_append[OF Some] by simp
  next
    case None
    then have no: "\<not> str_in (tp_end p) ?cur" by (simp add: str_in_def)
    have pre: "prefix tool ?cur" using Cons.prems(2) by (simp add: prefix_append)
    have "str_find tool ?cur = Some 0" using pre by (simp add: str_find_Some)
    then have at: "tool_at p ?cur = Some 0" using Cons.prems(6,7) by (simp add: tool_at_def)
    note st = step_tool[OF Cons.prems(1) un no at]
    show ?thesis
    proof (cases "tool_hold_max < length ?cur")
      case True
      have "str_find (tp_end p) ?t = None"
      proof (rule ccontr)
        assume "str_find (tp_end p) ?t \<noteq> None"
        then obtain k where k: "str_find (tp_end p) ?t = Some k" by blast
        from Cons.prems(5)[OF k] True have "k + length (tp_end p) \<le> length ?cur" by simp
        from prefix_at_append[OF this, of "concat xs"] k have "prefix (tp_end p) (drop k ?cur)" by (simp add: str_find_Some)
        with no \<open>k + length (tp_end p) \<le> length ?cur\<close> show False unfolding str_in_drop by (metis add_leD1)
      qed
      moreover have "think_run (p\<lparr>tp_buffer := [], tp_in := False\<rparr>) xs = ([], concat xs)"
        using run_normal[of "p\<lparr>tp_buffer := [], tp_in := False\<rparr>" xs] unopened_mono[OF Cons.prems(4), of "concat xs"] sublist_right[of "concat xs" ?cur "[]"] by simp
      ultimately show ?thesis using st True by (simp add: case_prod_beta)
    next
      case False
      from Cons.IH[of "p\<lparr>tp_buffer := ?cur\<rparr>"] Cons.prems pre no st False show ?thesis by (simp add: case_prod_beta split: option.split)
    qed
  qed
qed

text \<open>No marker can begin in what has been sent: the invariant of the hold-back.\<close>

definition clean :: "ustr list \<Rightarrow> ustr \<Rightarrow> ustr \<Rightarrow> bool" where
  "clean toks sent held \<longleftrightarrow> (\<forall>tok\<in>set toks. \<forall>c v. c < length sent \<longrightarrow> \<not> prefix tok (drop c (sent @ held @ v)))"

lemma clean_Nil [simp]: "clean toks [] held"
  by (simp add: clean_def)

lemma clean_append:
  assumes "clean toks sent held" "\<forall>tok\<in>set toks. \<not> str_in tok (held @ x)"
    and n: "n = longest_hold toks (held @ x)"
  defines "cur \<equiv> held @ x"
  shows "clean toks (sent @ take (length cur - n) cur) (drop (length cur - n) cur)"
  unfolding clean_def
proof (intro ballI allI impI notI)
  fix tok c v
  assume tok: "tok \<in> set toks" and c: "c < length (sent @ take (length cur - n) cur)"
    and "prefix tok (drop c ((sent @ take (length cur - n) cur) @ drop (length cur - n) cur @ v))"
  then have p: "prefix tok (drop c (sent @ cur @ v))" by (metis append_assoc append_take_drop_id)
  show False
  proof (cases "c < length sent")
    case True
    with assms(1) tok p show False unfolding clean_def cur_def by (metis append_assoc)
  next
    case False
    define d where "d = c - length sent"
    have d: "d < length cur - n" "prefix tok (drop d (cur @ v))" using c p False by (auto simp: d_def)
    have "\<not> d + length tok \<le> length cur"
    proof
      assume "d + length tok \<le> length cur"
      from prefix_at_append[OF this, of v] d have "prefix tok (drop d cur)" by simp
      with assms(2) tok d(1) show False unfolding cur_def[symmetric] str_in_drop by (meson diff_le_self less_imp_le order_trans)
    qed
    moreover have "d < length cur" using d(1) by simp
    ultimately have "length cur - n \<le> d" using marker_in_held[OF tok d(2)] n unfolding cur_def[symmetric] by simp
    with d(1) show False by simp
  qed
qed

lemma clean_find:
  assumes "clean toks sent held" "tok \<in> set toks" "str_find tok (held @ x) = Some k"
  shows "str_find tok (sent @ held @ x) = Some (length sent + k)"
proof -
  have "\<not> prefix tok (drop j (sent @ held @ x))" if "j < length sent + k" for j
  proof (cases "j < length sent")
    case True
    with assms(1,2) show ?thesis unfolding clean_def by blast
  next
    case False
    define d where "d = j - length sent"
    have "d < k" "drop j (sent @ held @ x) = drop d (held @ x)" using False that by (simp_all add: d_def)
    with assms(3) show ?thesis unfolding str_find_Some by metis
  qed
  with assms(3) show ?thesis by (simp add: str_find_Some)
qed

lemma clean_none:
  assumes "clean toks sent held" "tok \<in> set toks" "\<not> str_in tok (held @ x)"
  shows "\<not> str_in tok (sent @ held @ x)"
proof
  assume "str_in tok (sent @ held @ x)"
  then obtain j where j: "j \<le> length (sent @ held @ x)" "prefix tok (drop j (sent @ held @ x))" by (auto simp: str_in_drop)
  show False
  proof (cases "j < length sent")
    case True
    with j assms(1,2) show False unfolding clean_def by blast
  next
    case False
    define d where "d = j - length sent"
    have "d \<le> length (held @ x)" "drop j (sent @ held @ x) = drop d (held @ x)" using False j(1) by (simp_all add: d_def)
    with j(2) assms(3) show False unfolding str_in_drop by metis
  qed
qed

text \<open>Searching from a position before the first occurrence.\<close>

lemma find_drop: "str_find q t = Some (a + k) \<Longrightarrow> str_find q (drop a t) = Some k"
  unfolding str_find_Some by (auto simp: add.commute)

lemma find_drop_some: "str_find q (drop a t) = Some k \<Longrightarrow> a \<le> length t \<Longrightarrow> \<exists>k0. str_find q t = Some k0 \<and> k0 \<le> a + k"
proof -
  assume f: "str_find q (drop a t) = Some k" and a: "a \<le> length t"
  then have p: "prefix q (drop (a + k) t)" "a + k \<le> length t" by (auto simp: str_find_Some add.commute)
  then obtain k0 where "str_find q t = Some k0" unfolding str_find_None[symmetric] using str_find_None by fastforce
  moreover from this p have "k0 \<le> a + k" unfolding str_find_Some by (meson not_less)
  ultimately show ?thesis by blast
qed

lemma hold_tokens_end [simp]: "tp_end p \<in> set (hold_tokens p)"
  by (simp add: hold_tokens_def)

lemma tool_at_token: "tool_at p t = Some c \<Longrightarrow> \<exists>tool. tp_tool p = Some tool \<and> tool \<noteq> [] \<and> tool \<in> set (hold_tokens p) \<and> str_find tool t = Some c"
  by (auto simp: tool_at_def hold_tokens_def split: option.splits if_splits)

lemma tool_at_None: "tool_at p t = None \<Longrightarrow> tok \<in> set (hold_tokens p) \<Longrightarrow> unopened p t \<Longrightarrow> \<not> str_in (tp_end p) t \<Longrightarrow> \<not> str_in tok t"
  by (auto simp: tool_at_def hold_tokens_def unopened_def str_in_def split: option.splits if_splits)

lemma tool_not_in_end:
  assumes m: "markers_ok p" and tool: "tool_at p u = Some c" and no: "\<not> str_in (tp_end p) u" and k: "str_find (tp_end p) (u @ v) = Some k"
  shows "c < k \<and> tool_at p (u @ v) = Some c"
proof -
  obtain tl where tl: "tp_tool p = Some tl" "tl \<noteq> []" "str_find tl u = Some c" using tool_at_token[OF tool] by blast
  have sub: "\<not> sublist tl (tp_end p)" using m tl(1) by (simp add: markers_ok_def)
  have c: "c + length tl \<le> length u" "prefix tl (drop c u)" using tl(3) str_find_le by (auto simp: str_find_Some)
  have ku: "length u < k + length (tp_end p)"
  proof (rule ccontr)
    assume "\<not> length u < k + length (tp_end p)"
    then have le: "k + length (tp_end p) \<le> length u" by simp
    from prefix_at_append[OF this, of v] k have "prefix (tp_end p) (drop k u)" by (simp add: str_find_Some)
    with no le show False unfolding str_in_drop by (metis add_leD1)
  qed
  have "c < k"
  proof (rule ccontr)
    assume "\<not> c < k"
    then obtain d where d: "c = k + d" using le_Suc_ex by (metis not_less)
    have "prefix tl (drop c (u @ v))" using c prefix_at_append[OF c(1), of v] by simp
    then obtain z where z: "drop c (u @ v) = tl @ z" by (auto simp: prefix_def)
    obtain y where y: "drop k (u @ v) = tp_end p @ y" using k by (auto simp: str_find_Some prefix_def)
    have "drop d (tp_end p @ y) = tl @ z" using y z d by (metis add.commute drop_drop)
    moreover have le: "d + length tl \<le> length (tp_end p)" using c(1) ku d by simp
    ultimately have "drop d (tp_end p) @ y = tl @ z" by simp
    then have "prefix tl (drop d (tp_end p) @ y)" "prefix (drop d (tp_end p)) (drop d (tp_end p) @ y)" by (metis prefixI)+
    from prefix_length_prefix[OF this] le have "prefix tl (drop d (tp_end p))" by simp
    then have "sublist tl (tp_end p)" by (metis append_take_drop_id sublist_def prefix_def)
    with sub show False by simp
  qed
  with tl str_find_append[OF tl(3), of v] show ?thesis by (simp add: tool_at_def)
qed

text \<open>Reasoning is sent as it comes, all of it, up to white space just before the closer.\<close>

lemma run_body:
  "tp_in p \<Longrightarrow> tp_stream p \<Longrightarrow> markers_ok p \<Longrightarrow> clean (hold_tokens p) sent (tp_buffer p) \<Longrightarrow>
    \<not> str_in (tp_end p) (sent @ tp_buffer p) \<Longrightarrow> tool_at p (sent @ tp_buffer p) = None \<Longrightarrow>
    unopened p (sent @ tp_buffer p @ concat xs) \<Longrightarrow> quotes_short p (sent @ tp_buffer p @ concat xs) \<Longrightarrow>
    \<exists>w. (\<forall>c\<in>set w. is_space c) \<and> sent @ fst (think_run p xs) @ w = fst (body_split p (sent @ tp_buffer p @ concat xs)) \<and>
      snd (think_run p xs) = snd (body_split p (sent @ tp_buffer p @ concat xs)) \<and> (\<not> str_in (tp_end p) (sent @ tp_buffer p @ concat xs) \<longrightarrow> w = [])"
proof (induction xs arbitrary: p sent)
  case Nil
  have "\<not> prefix tl (lstrip (tp_buffer p))" if "tp_tool p = Some tl" "tl \<noteq> []" for tl
  proof
    assume "prefix tl (lstrip (tp_buffer p))"
    then obtain z where "lstrip (tp_buffer p) = tl @ z" by (auto simp: prefix_def)
    moreover have "suffix (lstrip (tp_buffer p)) (tp_buffer p)" unfolding lstrip_def by (rule suffix_dropWhile)
    ultimately have "sublist tl (sent @ tp_buffer p)" by (metis append.assoc sublist_def suffix_def)
    with Nil.prems(6) that show False by (simp add: tool_at_def str_in_sublist[symmetric] str_in_def)
  qed
  then have "fst (think_flush p) = (tp_buffer p, [])" using Nil.prems(1) by (auto simp: think_flush_def Let_def split: option.splits)
  with Nil.prems(5,6) show ?case by (intro exI[of _ "[]"]) (simp add: body_split_def str_in_def)
next
  case (Cons x xs)
  let ?cur = "tp_buffer p @ x" and ?rest = "concat xs" and ?u = "sent @ tp_buffer p @ x"
  define t where "t = sent @ tp_buffer p @ concat (x # xs)"
  have t: "t = ?u @ ?rest" by (simp add: t_def)
  have un: "unopened p ?cur" "unopened p ?rest" using unopened_mono[OF Cons.prems(7)] sublist_right[of ?cur sent ?rest] sublist_right[of ?rest ?u "[]"] by simp_all
  have normal: "think_run (p\<lparr>tp_buffer := [], tp_in := False\<rparr>) xs = ([], ?rest)"
    using run_normal[of "p\<lparr>tp_buffer := [], tp_in := False\<rparr>" xs] un(2) by simp
  show ?case
  proof (cases "str_find (tp_end p) ?cur")
    case (Some k)
    note st = step_close[OF Cons.prems(1) un(1) Some]
    have f: "str_find (tp_end p) t = Some (length sent + k)"
      using str_find_append[OF clean_find[OF Cons.prems(4) hold_tokens_end Some], of ?rest] by (simp add: t)
    have le: "k + length (tp_end p) \<le> length ?cur" by (rule str_find_le[OF Some])
    obtain w where w: "take k ?cur = rstrip (take k ?cur) @ w" "\<forall>c\<in>set w. is_space c" using rstrip_split by blast
    have "body_split p t = (sent @ take k ?cur, drop (k + length (tp_end p)) ?cur @ ?rest)"
      unfolding body_split_def f using le by (simp add: t)
    with w f show ?thesis unfolding think_run_Cons[OF st] normal t_def[symmetric] by (intro exI[of _ w]) (simp add: str_in_def)
  next
    case None
    then have no: "\<not> str_in (tp_end p) ?cur" by (simp add: str_in_def)
    have nou: "\<not> str_in (tp_end p) ?u" by (rule clean_none[OF Cons.prems(4) hold_tokens_end no])
    show ?thesis
    proof (cases "tool_at p ?cur")
      case (Some c)
      obtain tl where tl: "tp_tool p = Some tl" "tl \<noteq> []" "tl \<in> set (hold_tokens p)" "str_find tl ?cur = Some c" using tool_at_token[OF Some] by blast
      have at: "tool_at p ?u = Some (length sent + c)" using clean_find[OF Cons.prems(4) tl(3,4)] tl(1,2) by (simp add: tool_at_def)
      have att: "tool_at p t = Some (length sent + c)"
        using str_find_append[OF clean_find[OF Cons.prems(4) tl(3,4)], of ?rest] tl(1,2) by (simp add: tool_at_def t)
      have le: "c + length tl \<le> length ?cur" by (rule str_find_le[OF tl(4)])
      have dt: "drop (length sent + c) t = drop c ?cur @ ?rest" and tt: "take (length sent + c) t = sent @ take c ?cur" using le by (simp_all add: t)
      note st = step_tool[OF Cons.prems(1) un(1) no Some]
      have ends: "length sent + c < k \<and> k + length (tp_end p) \<le> length sent + c + tool_hold_max" if "str_find (tp_end p) t = Some k" for k
        using tool_not_in_end[OF Cons.prems(3) at nou, of ?rest k] that Cons.prems(8) att unfolding t[symmetric] t_def[symmetric] quotes_short_def by blast
      show ?thesis
      proof (cases "tool_hold_max < length (drop c ?cur)")
        case True
        have "str_find (tp_end p) t = None"
        proof (rule ccontr)
          assume "str_find (tp_end p) t \<noteq> None"
          then obtain k where k: "str_find (tp_end p) t = Some k" by blast
          have "c + tool_hold_max < length ?cur" using True unfolding length_drop by linarith
          with ends[OF k] have le: "k + length (tp_end p) \<le> length ?u" by simp
          from prefix_at_append[OF this, of ?rest] k have "prefix (tp_end p) (drop k ?u)" by (simp add: str_find_Some t)
          with nou le show False unfolding str_in_drop by (metis add_leD1)
        qed
        then have "body_split p t = (sent @ take c ?cur, drop c ?cur @ ?rest)" by (simp add: body_split_def att dt tt)
        moreover have st': "think_step p x = ((take c ?cur, drop c ?cur), p\<lparr>tp_buffer := [], tp_in := False\<rparr>)" using st True by (simp only: if_True)
        ultimately show ?thesis unfolding t_def[symmetric] think_run_Cons[OF st'] normal by (intro exI[of _ "[]"]) simp
      next
        case False
        let ?p = "p\<lparr>tp_buffer := drop c ?cur\<rparr>"
        have st': "think_step p x = ((take c ?cur, []), ?p)" using st False by simp
        have mk: "tl \<noteq> []" "\<not> is_space (hd tl)" using Cons.prems(3) tl(1) by (auto simp: markers_ok_def)
        have "sublist (drop c ?cur) ?cur" by (rule sublist_drop)
        moreover have "prefix tl (drop c ?cur)" using tl(4) unfolding str_find_Some by blast
        ultimately have h: "\<not> str_in (tp_end p) (drop c ?cur)" "prefix tl (drop c ?cur)" using no str_in_mono by blast+
        have find: "str_find (tp_end p) (drop c ?cur @ ?rest) = Some k \<longleftrightarrow> str_find (tp_end p) t = Some (length sent + c + k)" for k
        proof
          assume "str_find (tp_end p) (drop c ?cur @ ?rest) = Some k"
          then obtain k0 where k0: "str_find (tp_end p) t = Some k0" using find_drop_some[of "tp_end p" "length sent + c" t k] le unfolding dt by (auto simp: t)
          with ends[OF k0] obtain k1 where k1: "str_find (tp_end p) t = Some (length sent + c + k1)" using less_imp_add_positive by metis
          from find_drop[OF this] \<open>str_find (tp_end p) (drop c ?cur @ ?rest) = Some k\<close> k1 show "str_find (tp_end p) t = Some (length sent + c + k)"
            unfolding dt by simp
        next
          assume "str_find (tp_end p) t = Some (length sent + c + k)"
          from find_drop[OF this] show "str_find (tp_end p) (drop c ?cur @ ?rest) = Some k" unfolding dt .
        qed
        have unh: "unopened p (drop c ?cur @ ?rest)"
          by (rule unopened_mono[OF Cons.prems(7)]) (metis append_take_drop_id dt sublist_append_leftI sublist_order.order_refl t_def)
        have bound: "k + length (tp_end p) \<le> tool_hold_max" if "str_find (tp_end p) (drop c ?cur @ ?rest) = Some k" for k
          using ends[of "length sent + c + k"] find that by simp
        have "think_run ?p xs = (case str_find (tp_end p) (drop c ?cur @ ?rest) of None \<Rightarrow> ([], drop c ?cur @ ?rest)
            | Some k \<Rightarrow> (rstrip (take k (drop c ?cur @ ?rest)), drop (k + length (tp_end p)) (drop c ?cur @ ?rest)))"
          using run_held[of ?p tl xs] tl(1) mk Cons.prems(1) h unh bound by (simp del: drop_append take_append split: option.split)
        then have run: "think_run p (x # xs) = (case str_find (tp_end p) (drop c ?cur @ ?rest) of None \<Rightarrow> (take c ?cur, drop c ?cur @ ?rest)
            | Some k \<Rightarrow> (take c ?cur @ rstrip (take k (drop c ?cur @ ?rest)), drop (k + length (tp_end p)) (drop c ?cur @ ?rest)))"
          unfolding think_run_Cons[OF st'] by (simp split: option.split)
        show ?thesis
        proof (cases "str_find (tp_end p) (drop c ?cur @ ?rest)")
          case None
          have "str_find (tp_end p) t = None"
          proof (rule ccontr)
            assume "str_find (tp_end p) t \<noteq> None"
            then obtain k where k: "str_find (tp_end p) t = Some k" by blast
            with ends[OF k] obtain k1 where "k = length sent + c + k1" using less_imp_add_positive by metis
            with find[of k1] k None show False by simp
          qed
          then have "body_split p t = (sent @ take c ?cur, drop c ?cur @ ?rest)" by (simp add: body_split_def att dt tt)
          then show ?thesis using None unfolding t_def[symmetric] run by (intro exI[of _ "[]"]) simp
        next
          case (Some k)
          with find[of k] have f: "str_find (tp_end p) t = Some (length sent + c + k)" by blast
          have "take (length sent + c + k) t = sent @ take c ?cur @ take k (drop c ?cur @ ?rest)"
            by (metis append.assoc dt take_add tt)
          moreover have "drop (length sent + c + k + length (tp_end p)) t = drop (k + length (tp_end p)) (drop c ?cur @ ?rest)"
            by (metis add.assoc add.commute drop_drop dt)
          ultimately have "body_split p t = (sent @ take c ?cur @ take k (drop c ?cur @ ?rest), drop (k + length (tp_end p)) (drop c ?cur @ ?rest))"
            by (simp only: body_split_def f option.case)
          moreover obtain w where w: "take k (drop c ?cur @ ?rest) = rstrip (take k (drop c ?cur @ ?rest)) @ w" "\<forall>c\<in>set w. is_space c" using rstrip_split by blast
          ultimately show ?thesis using Some f w unfolding t_def[symmetric] run by (intro exI[of _ w]) (simp add: str_in_def)
        qed
      qed
    next
      case none: None
      obtain safe held where s: "split_trailing_partial p ?cur = (safe, held)" by force
      note c = split_trailing[OF s]
      note st = step_plain[OF Cons.prems(1,2) un(1) no none s]
      have toks: "\<forall>tok\<in>set (hold_tokens p). \<not> str_in tok ?cur" using tool_at_None[OF none _ un(1) no] by blast
      have cl: "clean (hold_tokens p) (sent @ safe) held"
        using clean_append[OF Cons.prems(4) toks refl] s by (simp add: split_trailing_partial_def Let_def)
      have notool: "tool_at p (sent @ ?cur) = None"
      proof (rule ccontr)
        assume "tool_at p (sent @ ?cur) \<noteq> None"
        then obtain tl where "tl \<in> set (hold_tokens p)" "str_in tl (sent @ ?cur)" using tool_at_token unfolding str_in_def by blast
        with clean_none[OF Cons.prems(4)] toks show False by blast
      qed
      have e: "tp_buffer p @ x @ z = safe @ held @ z" for z using c by (metis append_assoc)
      from Cons.IH[of "p\<lparr>tp_buffer := held\<rparr>" "sent @ safe"] Cons.prems c cl notool nou show ?thesis
        unfolding think_run_Cons[OF st] by (simp add: e)
    qed
  qed
qed

section \<open>The opening marker\<close>

text \<open>A stream that starts with the opening marker goes on as one that started inside the block.\<close>

lemma run_open:
  assumes m: "markers_ok p" and p: "\<not> tp_stripped p" "tp_stream p"
  shows "concat xs = drop (length (tp_buffer p)) (tp_start p) @ body \<Longrightarrow> prefix (tp_buffer p) (tp_start p) \<Longrightarrow> tp_buffer p \<noteq> tp_start p \<Longrightarrow>
    \<exists>ys. concat ys = body \<and> think_run p xs = think_run (p\<lparr>tp_stripped := True, tp_in := True, tp_buffer := []\<rparr>) ys"
  using m p
proof (induction xs arbitrary: p)
  case Nil
  then show ?case by (auto simp: prefix_def)
next
  case (Cons x xs)
  let ?S = "tp_start p" and ?cur = "tp_buffer p @ x"
  let ?q = "p\<lparr>tp_stripped := True, tp_in := True, tp_buffer := []\<rparr>"
  obtain z where z: "?S = tp_buffer p @ z" "z \<noteq> []" using Cons.prems(2,3) by (auto simp: prefix_def)
  with Cons.prems(1) have x: "x @ concat xs = z @ body" by simp
  show ?case
  proof (cases "length z \<le> length x")
    case True
    with x obtain y where y: "x = z @ y" "y @ concat xs = body" by (metis append_assoc append_eq_append_conv_if append_eq_conv_conj append_take_drop_id)
    have f: "str_find ?S ?cur = Some 0" using y z by (simp add: str_find_Some)
    then have "strip_open p ?cur = (y, p\<lparr>tp_stripped := True, tp_in := True\<rparr>)"
      using Cons.prems(5) y z by (simp add: strip_open_def str_in_def remove_once_def)
    moreover have "strip_open ?q y = (y, ?q)" by (simp add: strip_open_def)
    ultimately have "think_step p x = think_step ?q y"
      unfolding think_step_def by (simp add: Let_def tool_at_def split_trailing_partial_def hold_tokens_def cong: if_cong)
    then have "think_run p (x # xs) = think_run ?q (y # xs)" by (simp only: think_run.simps)
    moreover have "concat (y # xs) = body" using y by simp
    ultimately show ?thesis by blast
  next
    case False
    with x obtain z' where z': "z = x @ z'" "z' \<noteq> []" by (metis append_eq_append_conv2 append_Nil2 le_add1 length_append nat_le_linear)
    have S: "?S = ?cur @ z'" using z z' by simp
    have sub: "sublist ?cur ?S" unfolding S by simp
    have noS: "\<not> str_in ?S ?cur" using S z'(2) sublist_length_le[of ?S ?cur] unfolding str_in_sublist by auto
    have noE: "\<not> str_in (tp_end p) ?cur"
      using Cons.prems(4) sub sublist_order.order_trans unfolding markers_ok_def str_in_sublist by blast
    have noT: "tool_at p ?cur = None"
    proof (rule ccontr)
      assume "tool_at p ?cur \<noteq> None"
      then obtain tl where "tp_tool p = Some tl" "str_in tl ?cur" using tool_at_token unfolding str_in_def by blast
      with Cons.prems(4) sub sublist_order.order_trans show False unfolding markers_ok_def str_in_sublist by fastforce
    qed
    have "partial_end (hold_tokens p) ?cur (length ?cur)"
      using Cons.prems(5) S z'(2) by (auto simp: partial_end_def hold_tokens_def)
    then have "longest_hold (hold_tokens p) ?cur = length ?cur" by (intro longest_hold_eq) (auto simp: partial_end_def)
    then have h: "split_trailing_partial p ?cur = ([], ?cur)" by (simp add: split_trailing_partial_def)
    have "strip_open p ?cur = (?cur, p)" using noS by (simp add: strip_open_def)
    then have st: "think_step p x = (([], []), p\<lparr>tp_buffer := ?cur\<rparr>)"
      using noE noT h Cons.prems(6) unfolding think_step_def by simp
    have "concat xs = drop (length ?cur) ?S @ body" using x z' S by simp
    from Cons.IH[of "p\<lparr>tp_buffer := ?cur\<rparr>"] this S z'(2) Cons.prems(4-6) show ?thesis
      unfolding think_run_Cons[OF st] by simp
  qed
qed

text \<open>The split of a whole completion.\<close>

definition think_split :: "think_parser \<Rightarrow> ustr \<Rightarrow> ustr \<times> ustr" where
  "think_split p t = (if prefix (tp_start p) t then body_split p (drop (length (tp_start p)) t) else if tp_force p then body_split p t else ([], t))"

text \<open>The completions the protocol allows: an opening marker only at the start, and tool markers quoted in the reasoning
  followed by the closer within the bound.\<close>

definition well_formed :: "think_parser \<Rightarrow> ustr \<Rightarrow> bool" where
  "well_formed p t \<longleftrightarrow>
     (if prefix (tp_start p) t then quotes_short p (drop (length (tp_start p)) t) else \<not> str_in (tp_start p) t \<and> (tp_force p \<longrightarrow> quotes_short p t))"

definition closed :: "think_parser \<Rightarrow> ustr \<Rightarrow> bool" where
  "closed p t \<longleftrightarrow> (if prefix (tp_start p) t then str_in (tp_end p) (drop (length (tp_start p)) t) else tp_force p \<and> str_in (tp_end p) t)"

definition fresh_parser :: "think_parser \<Rightarrow> bool" where
  "fresh_parser p \<longleftrightarrow> tp_in p = tp_force p \<and> tp_buffer p = [] \<and> \<not> tp_stripped p \<and> tp_stream p"

lemma stream_split:
  assumes f: "fresh_parser p" and m: "markers_ok p" and w: "well_formed p (concat xs)"
  shows "\<exists>w. (\<forall>c\<in>set w. is_space c) \<and> fst (think_run p xs) @ w = fst (think_split p (concat xs)) \<and> snd (think_run p xs) = snd (think_split p (concat xs)) \<and>
    (\<not> closed p (concat xs) \<longrightarrow> w = [])"
proof (cases "prefix (tp_start p) (concat xs)")
  case True
  then obtain body where b: "concat xs = tp_start p @ body" by (auto simp: prefix_def)
  let ?q = "p\<lparr>tp_stripped := True, tp_in := True, tp_buffer := []\<rparr>"
  have S: "tp_start p \<noteq> []" using m by (simp add: markers_ok_def)
  then obtain ys where ys: "concat ys = body" "think_run p xs = think_run ?q ys"
    using run_open[OF m, of xs body] f b unfolding fresh_parser_def by fastforce
  have e: "body_split ?q = body_split p" "quotes_short ?q = quotes_short p" "markers_ok ?q = markers_ok p" "unopened ?q body"
    by (simp_all add: body_split_def quotes_short_def markers_ok_def tool_at_def unopened_def fun_eq_iff split: option.split)
  have "\<not> str_in (tp_end p) []" "tool_at ?q [] = None" using m by (auto simp: markers_ok_def str_in_def tool_at_def split: option.splits)
  then show ?thesis using run_body[of ?q "[]" ys] w m e f True
    unfolding ys think_split_def well_formed_def closed_def b fresh_parser_def by simp
next
  case False
  then have no: "\<not> str_in (tp_start p) (concat xs)" using w by (simp add: well_formed_def)
  show ?thesis
  proof (cases "tp_force p")
    case True
    have "\<not> str_in (tp_end p) []" "tool_at p [] = None" using m by (auto simp: markers_ok_def str_in_def tool_at_def split: option.splits)
    then show ?thesis using run_body[of p "[]" xs] w m f True False no
      unfolding think_split_def well_formed_def closed_def fresh_parser_def by (simp add: unopened_def)
  next
    case nf: False
    then show ?thesis using run_normal[of p xs] f no False by (simp add: fresh_parser_def think_split_def unopened_def)
  qed
qed

section \<open>Surrounding white space\<close>

lemma lstrip_append: "\<forall>c\<in>set w. is_space c \<Longrightarrow> lstrip (w @ s) = lstrip s"
  by (simp add: lstrip_def dropWhile_append2)

lemma rstrip_append: "\<forall>c\<in>set w. is_space c \<Longrightarrow> rstrip (s @ w) = rstrip s"
  using dropWhile_append2[of "rev w" is_space "rev s"] by (simp add: rstrip_def)

lemma lstrip_keep: "\<exists>c\<in>set s. \<not> is_space c \<Longrightarrow> lstrip (s @ t) = lstrip s @ t"
  by (auto simp: lstrip_def dropWhile_append1)

lemma lstrip_spaces: "\<forall>c\<in>set w. is_space c \<Longrightarrow> lstrip w = []"
  by (simp add: lstrip_def)

lemma strip_append:
  assumes "\<forall>c\<in>set w. is_space c"
  shows "strip (w @ s) = strip s" "strip (s @ w) = strip s"
proof -
  show "strip (w @ s) = strip s" using assms by (simp add: strip_def lstrip_append)
  show "strip (s @ w) = strip s"
  proof (cases "\<exists>c\<in>set s. \<not> is_space c")
    case True
    then show ?thesis using assms by (simp add: strip_def lstrip_keep rstrip_append)
  next
    case False
    then have "\<forall>c\<in>set (s @ w). is_space c" using assms by auto
    with False show ?thesis by (simp add: strip_def lstrip_spaces del: set_append)
  qed
qed

lemma strip_split: "\<exists>a b. t = a @ strip t @ b \<and> (\<forall>c\<in>set a. is_space c) \<and> (\<forall>c\<in>set b. is_space c)"
proof -
  have l: "t = takeWhile is_space t @ lstrip t" by (simp add: lstrip_def)
  obtain b where b: "lstrip t = strip t @ b" "\<forall>c\<in>set b. is_space c" using rstrip_split[of "lstrip t"] by (auto simp: strip_def)
  from l b have "t = takeWhile is_space t @ strip t @ b" by metis
  moreover have "\<forall>c\<in>set (takeWhile is_space t). is_space c" by (auto dest: set_takeWhileD)
  ultimately show ?thesis using b(2) by blast
qed

lemma strip_idem [simp]: "strip (strip t) = strip t"
  using strip_split[of t] strip_append by metis

text \<open>A marker that neither begins nor ends with white space lies in the stripped text.\<close>

lemma find_after_space: "q \<noteq> [] \<Longrightarrow> \<not> is_space (hd q) \<Longrightarrow> \<forall>c\<in>set a. is_space c \<Longrightarrow> str_find q (a @ s) = map_option ((+) (length a)) (str_find q s)"
proof (induction a)
  case Nil
  show ?case by (cases "str_find q s") simp_all
next
  case (Cons x a)
  have "\<not> prefix q (x # a @ s)" using Cons.prems by (cases q) auto
  then show ?case using Cons by (simp add: option.map_comp comp_def)
qed

lemma find_before_space:
  assumes q: "q \<noteq> []" "\<not> is_space (last q)" and b: "\<forall>c\<in>set b. is_space c"
  shows "str_find q (s @ b) = str_find q s"
proof (cases "str_find q s")
  case (Some k)
  then show ?thesis using str_find_append by metis
next
  case None
  from b have "\<not> sublist q (s @ b)"
  proof (induction b rule: rev_induct)
    case Nil
    then show ?case using None by (simp add: str_in_sublist[symmetric] str_in_def)
  next
    case (snoc c b)
    show ?case
    proof
      assume "sublist q (s @ b @ [c])"
      then obtain u v where uv: "s @ b @ [c] = u @ q @ v" by (auto simp: sublist_def)
      show False
      proof (cases v rule: rev_cases)
        case Nil
        then have "last q = c" using uv q(1) by (metis append.assoc append_Nil2 last_appendR last_snoc)
        with q(2) snoc.prems show False by simp
      next
        case (snoc v' c')
        then have "s @ b = u @ q @ v'" using uv by (metis append.assoc butlast_snoc)
        then have "sublist q (s @ b)" by (metis sublist_def)
        with snoc.IH \<open>\<forall>c\<in>set (b @ [c]). is_space c\<close> show False by simp
      qed
    qed
  qed
  with None show ?thesis by (simp add: str_in_sublist[symmetric] str_in_def)
qed

definition solid :: "ustr \<Rightarrow> bool" where
  "solid q \<longleftrightarrow> q \<noteq> [] \<and> \<not> is_space (hd q) \<and> \<not> is_space (last q)"

lemma find_padded:
  "solid q \<Longrightarrow> \<forall>c\<in>set a. is_space c \<Longrightarrow> \<forall>c\<in>set b. is_space c \<Longrightarrow> str_find q (a @ s @ b) = map_option ((+) (length a)) (str_find q s)"
  by (simp add: solid_def find_after_space find_before_space)

section \<open>Streaming and one-shot parsing\<close>

lemma remove_all_none: "\<not> str_in q t \<Longrightarrow> remove_all q t = t"
  by (subst remove_all.simps) (simp add: str_in_def)

text \<open>The one-shot parser on the text of a think block.\<close>

definition detect_body :: "think_parser \<Rightarrow> ustr \<Rightarrow> ustr \<times> ustr" where
  "detect_body p processed =
     (case str_find (tp_end p) processed of
        None \<Rightarrow> (case (case tp_tool p of None \<Rightarrow> None | Some tool \<Rightarrow> str_find tool processed) of
            Some tool_idx \<Rightarrow> (strip (take tool_idx processed), drop tool_idx processed)
          | None \<Rightarrow> (processed, []))
      | Some k \<Rightarrow> (take k processed, strip (drop (k + length (tp_end p)) processed)))"

lemma detect_body_split:
  assumes e: "solid (tp_end p)" and tl: "\<forall>tool. tp_tool p = Some tool \<longrightarrow> solid tool"
  shows "strip (fst (detect_body p (strip t))) = strip (fst (body_split p t)) \<and> strip (snd (detect_body p (strip t))) = strip (snd (body_split p t))"
proof -
  obtain a b where ab: "t = a @ strip t @ b" "\<forall>c\<in>set a. is_space c" "\<forall>c\<in>set b. is_space c" using strip_split by blast
  define s where "s = strip t"
  have t: "t = a @ s @ b" using ab(1) by (simp add: s_def)
  have ss: "strip (a @ s @ b) = s" using t by (simp add: s_def)
  have fe: "str_find (tp_end p) t = map_option ((+) (length a)) (str_find (tp_end p) s)" unfolding t by (rule find_padded[OF e ab(2,3)])
  show ?thesis
  proof (cases "str_find (tp_end p) s")
    case (Some k)
    have "k + length (tp_end p) \<le> length s" by (rule str_find_le[OF Some])
    then have "body_split p t = (a @ take k s, drop (k + length (tp_end p)) s @ b)" unfolding body_split_def fe Some by (simp add: t)
    moreover have "detect_body p s = (take k s, strip (drop (k + length (tp_end p)) s))" by (simp add: detect_body_def Some)
    ultimately show ?thesis using ab(2,3) by (simp add: s_def[symmetric] strip_append)
  next
    case none: None
    show ?thesis
    proof (cases "tool_at p s")
      case (Some c)
      then obtain tool where tool: "tp_tool p = Some tool" "tool \<noteq> []" "str_find tool s = Some c" using tool_at_token by blast
      have "str_find tool t = Some (length a + c)" using find_padded[of tool a b s] tl tool ab(2,3) by (simp add: t)
      then have "tool_at p t = Some (length a + c)" using tool by (simp add: tool_at_def)
      moreover have "c \<le> length s" using tool(3) by (simp add: str_find_Some)
      ultimately have "body_split p t = (a @ take c s, drop c s @ b)" unfolding body_split_def fe none by (simp add: t)
      moreover have "detect_body p s = (strip (take c s), drop c s)" using tool by (simp add: detect_body_def none)
      ultimately show ?thesis using ab(2,3) by (simp add: s_def[symmetric] strip_append)
    next
      case None
      have nt: "(case tp_tool p of None \<Rightarrow> None | Some tool \<Rightarrow> str_find tool s) = None" using None tl by (auto simp: tool_at_def solid_def split: option.splits)
      have "tool_at p t = None" using None find_padded[of _ a b s] tl ab(2,3) by (auto simp: tool_at_def t split: option.splits)
      then have "body_split p t = (t, [])" unfolding body_split_def fe none by simp
      moreover have "detect_body p s = (s, [])" using nt by (simp add: detect_body_def none)
      ultimately show ?thesis by (simp add: s_def)
    qed
  qed
qed

text \<open>The opening marker is not repeated in the block it opened.\<close>

definition opened_once :: "think_parser \<Rightarrow> ustr \<Rightarrow> bool" where
  "opened_once p t \<longleftrightarrow> \<not> str_in (tp_start p) (drop (length (tp_start p)) t)"

lemma detect_split:
  assumes f: "fresh_parser p" and m: "markers_ok p" "solid (tp_end p)" "\<forall>tool. tp_tool p = Some tool \<longrightarrow> solid tool"
    and w: "well_formed p t" "opened_once p t"
  shows "strip (fst (think_detect p t)) = strip (fst (think_split p t)) \<and> strip (snd (think_detect p t)) = strip (snd (think_split p t))"
proof (cases "prefix (tp_start p) t")
  case True
  then obtain body where b: "t = tp_start p @ body" by (auto simp: prefix_def)
  have S: "tp_start p \<noteq> []" using m by (simp add: markers_ok_def)
  have fs: "str_find (tp_start p) t = Some 0" unfolding b by (simp add: str_find_Some)
  have "\<not> str_in (tp_start p) body" using w(2) by (simp add: opened_once_def b)
  then have "remove_all (tp_start p) t = body" using S fs by (subst remove_all.simps) (simp add: b remove_all_none)
  then have "think_detect p t = detect_body p (strip body)" using fs by (simp add: think_detect_def str_in_def detect_body_def Let_def)
  then show ?thesis using detect_body_split[OF m(2,3), of body] True by (simp add: think_split_def b)
next
  case False
  then have no: "\<not> str_in (tp_start p) t" using w(1) by (simp add: well_formed_def)
  show ?thesis
  proof (cases "tp_force p")
    case True
    then have "think_detect p t = detect_body p (strip t)" using f no by (simp add: fresh_parser_def think_detect_def remove_all_none detect_body_def Let_def)
    then show ?thesis using detect_body_split[OF m(2,3), of t] True False by (simp add: think_split_def)
  next
    case nf: False
    then show ?thesis using f no False by (simp add: fresh_parser_def think_detect_def think_split_def)
  qed
qed

section \<open>MiniMax streams\<close>

lemma run_minimax_done:
  assumes "\<not> mx_pending p"
  shows "minimax_run p xs = think_run (mx_base p) xs"
  using assms
proof (induction xs arbitrary: p)
  case Nil
  then show ?case by (simp add: minimax_flush_def case_prod_beta)
next
  case (Cons x xs)
  then show ?case by (simp add: minimax_step_def case_prod_beta)
qed

text \<open>While the head of the stream could still be a bare closer it is held. If it is one, it is cut and the rest is content;
  if not, the base parser gets all of it.\<close>

lemma run_minimax:
  assumes "tp_end (mx_base p) \<noteq> []" "\<not> is_space (hd (tp_end (mx_base p)))"
  shows "mx_pending p \<Longrightarrow> \<not> prefix (tp_end (mx_base p)) (lstrip (mx_head p)) \<Longrightarrow> tp_buffer (mx_base p) = [] \<Longrightarrow>
    if prefix (tp_end (mx_base p)) (lstrip (mx_head p @ concat xs))
    then unopened (mx_base p) (drop (length (tp_end (mx_base p))) (lstrip (mx_head p @ concat xs))) \<longrightarrow>
      minimax_run p xs = ([], drop (length (tp_end (mx_base p))) (lstrip (mx_head p @ concat xs)))
    else \<exists>ys. concat ys = mx_head p @ concat xs \<and> minimax_run p xs = think_run (mx_base p) ys"
  using assms
proof (induction xs arbitrary: p)
  case Nil
  let ?b = "mx_base p"
  have "\<exists>ys. concat ys = mx_head p \<and> minimax_run p [] = think_run ?b ys"
  proof (cases "mx_head p = []")
    case True
    then show ?thesis by (intro exI[of _ "[]"]) (simp add: minimax_flush_def case_prod_beta)
  next
    case False
    with Nil.prems(1) have "minimax_run p [] = think_run ?b [mx_head p]" by (simp add: minimax_flush_def case_prod_beta)
    then show ?thesis by (intro exI[of _ "[mx_head p]"]) simp
  qed
  with Nil.prems(2) show ?case by simp
next
  case (Cons x xs)
  let ?b = "mx_base p" and ?E = "tp_end (mx_base p)" and ?buf = "mx_head p @ x"
  have keep: "lstrip (?buf @ concat xs) = lstrip ?buf @ concat xs" if "lstrip ?buf \<noteq> []"
    using that lstrip_spaces lstrip_keep by blast
  show ?case
  proof (cases "prefix ?E (lstrip ?buf)")
    case True
    then obtain rest where rest: "lstrip ?buf = ?E @ rest" by (auto simp: prefix_def)
    with keep Cons.prems(4) have l: "lstrip (?buf @ concat xs) = ?E @ rest @ concat xs" by auto
    let ?c = "?b\<lparr>tp_in := False\<rparr>"
    have "minimax_run p (x # xs) = think_run ?c (if rest = [] then xs else rest # xs)"
      using Cons.prems(1) rest run_minimax_done[of "p\<lparr>mx_base := ?c, mx_pending := False, mx_head := []\<rparr>" xs]
        run_minimax_done[of "p\<lparr>mx_base := snd (think_step ?c rest), mx_pending := False, mx_head := []\<rparr>" xs]
      by (simp add: minimax_step_def Let_def case_prod_beta)
    moreover have "concat (if rest = [] then xs else rest # xs) = rest @ concat xs" by simp
    then have "think_run ?c (if rest = [] then xs else rest # xs) = ([], rest @ concat xs)" if "unopened ?b (rest @ concat xs)"
      using run_normal[of ?c "if rest = [] then xs else rest # xs"] that Cons.prems(3) by (simp only: unopened_def) simp
    ultimately show ?thesis using l by simp
  next
    case no: False
    show ?thesis
    proof (cases "lstrip ?buf = [] \<or> prefix (lstrip ?buf) ?E")
      case True
      then have "minimax_step p x = (([], []), p\<lparr>mx_head := ?buf\<rparr>)" using Cons.prems(1) no by (auto simp: minimax_step_def Let_def)
      then have "minimax_run p (x # xs) = minimax_run (p\<lparr>mx_head := ?buf\<rparr>) xs" by simp
      with Cons.IH[of "p\<lparr>mx_head := ?buf\<rparr>"] Cons.prems no show ?thesis by (simp cong: if_cong)
    next
      case False
      with keep have "\<not> prefix ?E (lstrip (?buf @ concat xs))" using no prefix_same_cases[of ?E "lstrip ?buf @ concat xs" "lstrip ?buf"] by auto
      moreover have "minimax_run p (x # xs) = think_run ?b (?buf # xs)"
        using Cons.prems(1) no False run_minimax_done[of "p\<lparr>mx_base := snd (think_step ?b ?buf), mx_pending := False, mx_head := []\<rparr>" xs]
        by (simp add: minimax_step_def Let_def case_prod_beta)
      ultimately show ?thesis by (auto intro!: exI[of _ "?buf # xs"])
    qed
  qed
qed

section \<open>The parsers of the server\<close>

lemma deepseek_ok: "fresh_parser (deepseek_parser f True)" "markers_ok (deepseek_parser f True)" "solid (tp_end (deepseek_parser f s))"
  "\<forall>tool. tp_tool (deepseek_parser f s) = Some tool \<longrightarrow> solid tool"
  by (simp_all add: deepseek_parser_def think_init_def fresh_parser_def markers_ok_def solid_def think_start_token_def think_end_token_def dsml_token_def
      lit_def is_space_def str_in_sublist[symmetric] str_in_def)

lemma generic_ok: "fresh_parser (generic_think_parser f True)" "markers_ok (generic_think_parser f True)" "solid (tp_end (generic_think_parser f s))"
  "\<forall>tool. tp_tool (generic_think_parser f s) = Some tool \<longrightarrow> solid tool"
  by (simp_all add: generic_think_parser_def think_init_def fresh_parser_def markers_ok_def solid_def think_start_token_def think_end_token_def
      lit_def is_space_def str_in_sublist[symmetric] str_in_def)

lemma gemma_ok: "fresh_parser (gemma_parser f True)" "markers_ok (gemma_parser f True)" "solid (tp_end (gemma_parser f s))"
  "\<forall>tool. tp_tool (gemma_parser f s) = Some tool \<longrightarrow> solid tool"
  by (simp_all add: gemma_parser_def think_init_def fresh_parser_def markers_ok_def solid_def
      lit_def is_space_def str_in_sublist[symmetric] str_in_def)

lemma minimax_ok: "fresh_parser (mx_base (minimax_init f True))" "markers_ok (mx_base (minimax_init f True))" "solid (tp_end (mx_base (minimax_init f s)))"
  "\<forall>tool. tp_tool (mx_base (minimax_init f s)) = Some tool \<longrightarrow> solid tool"
  by (simp_all add: minimax_init_def think_init_def fresh_parser_def markers_ok_def solid_def
      lit_def is_space_def str_in_sublist[symmetric] str_in_def)

definition fine_parser :: "think_parser \<Rightarrow> bool" where
  "fine_parser p \<longleftrightarrow> fresh_parser p \<and> markers_ok p \<and> solid (tp_end p) \<and> (\<forall>tool. tp_tool p = Some tool \<longrightarrow> solid tool)"

lemma family_fine: "p \<in> {deepseek_parser force True, generic_think_parser force True, gemma_parser force True} \<Longrightarrow> fine_parser p"
proof -
  have "fine_parser (deepseek_parser force True)" "fine_parser (generic_think_parser force True)" "fine_parser (gemma_parser force True)"
    unfolding fine_parser_def by (intro conjI deepseek_ok generic_ok gemma_ok)+
  then show "p \<in> {deepseek_parser force True, generic_think_parser force True, gemma_parser force True} \<Longrightarrow> fine_parser p" by blast
qed

lemma fine_parserD: "fine_parser p \<Longrightarrow> fresh_parser p" "fine_parser p \<Longrightarrow> markers_ok p" "fine_parser p \<Longrightarrow> solid (tp_end p)"
  "fine_parser p \<Longrightarrow> \<forall>tool. tp_tool p = Some tool \<longrightarrow> solid tool"
  by (simp_all add: fine_parser_def)


lemmas marker_defs = deepseek_parser_def generic_think_parser_def gemma_parser_def minimax_init_def think_init_def think_start_token_def think_end_token_def
  dsml_token_def lit_def str_in_def tool_at_def


text \<open>C27: On the completions of the streaming theorem in which the opening marker occurs at most once, at the very beginning,
  streaming in any pieces and one-shot parsing agree: the same reasoning and the same content, up to surrounding white
  space. An answer that quotes the opening marker is outside of this, and there they differ (\<open>quoted_opener_reopens\<close>).\<close>

theorem reasoning_one_shot:
  assumes "p \<in> {deepseek_parser force True, generic_think_parser force True, gemma_parser force True}"
    "well_formed p (concat pieces)" "opened_once p (concat pieces)"
  shows "strip (fst (think_run p pieces)) = strip (fst (think_detect p (concat pieces))) \<and>
    strip (snd (think_run p pieces)) = strip (snd (think_detect p (concat pieces)))"
proof -
  note ok = fine_parserD[OF family_fine[OF assms(1)]]
  from stream_split[OF ok(1,2) assms(2)] obtain w where "\<forall>c\<in>set w. is_space c" "fst (think_run p pieces) @ w = fst (think_split p (concat pieces))"
    "snd (think_run p pieces) = snd (think_split p (concat pieces))" by blast
  then show ?thesis using detect_split[OF ok assms(2,3)] strip_append(2)[of w "fst (think_run p pieces)"] by simp
qed

lemma opened_well:
  "prefix (tp_start p) t \<Longrightarrow> tool_at p (drop (length (tp_start p)) t) = None \<Longrightarrow> \<not> str_in (tp_start p) (drop (length (tp_start p)) t) \<Longrightarrow>
    well_formed p t \<and> opened_once p t"
  by (simp add: well_formed_def opened_once_def quotes_short_def)

theorem reasoning_one_shot_witness:
  "strip (fst (think_run (generic_think_parser False True) [lit ''<th'', lit ''ink> hm </t'', lit ''hink>'', lit '' ok''])) = lit ''hm'' \<and>
     strip (snd (think_run (generic_think_parser False True) [lit ''<th'', lit ''ink> hm </t'', lit ''hink>'', lit '' ok''])) = lit ''ok''"
proof -
  let ?p = "generic_think_parser False True" and ?ps = "[lit ''<th'', lit ''ink> hm </t'', lit ''hink>'', lit '' ok'']"
  have t: "prefix (tp_start ?p) (concat ?ps)" and d: "drop (length (tp_start ?p)) (concat ?ps) = lit '' hm </think> ok''" by (simp_all add: marker_defs)
  have c: "str_find (tp_end ?p) (lit '' hm </think> ok'') = Some 4" "tool_at ?p (lit '' hm </think> ok'') = None" "\<not> str_in (tp_start ?p) (lit '' hm </think> ok'')"
    by (simp_all add: marker_defs)
  have w: "well_formed ?p (concat ?ps)" "opened_once ?p (concat ?ps)"
    using opened_well[OF t] c unfolding d by simp_all
  have p: "?p \<in> {deepseek_parser False True, generic_think_parser False True, gemma_parser False True}" by simp
  have "think_detect ?p (concat ?ps) = (lit ''hm '', lit ''ok'')"
    by (simp add: think_detect_def marker_defs remove_all.simps strip_def rstrip_def lstrip_def is_space_def Let_def)
  moreover have "strip (lit ''hm '') = lit ''hm''" "strip (lit ''ok'') = lit ''ok''" by (simp_all add: strip_def rstrip_def lstrip_def is_space_def lit_def)
  ultimately show ?thesis using reasoning_one_shot[OF p w] by simp
qed

text \<open>A completion that quotes the opening marker in its answer: streaming takes what follows for reasoning again, and the client
  never sees the answer; one-shot parsing does not.\<close>

lemma quoted_opener_reopens:
  "think_run (generic_think_parser True True) [lit ''ok</think>Use '', lit ''<think> tags.''] = (lit ''ok tags.'', lit ''Use '') \<and>
   think_detect (generic_think_parser True True) (lit ''ok</think>Use <think> tags.'') = (lit ''ok'', lit ''Use  tags.'')"
  by (simp add: marker_defs think_step_def strip_open_def remove_once_def split_trailing_partial_def hold_tokens_def longest_hold_def hold_tok_def upt_rec
      suffix_def think_flush_def think_detect_def remove_all.simps strip_def rstrip_def lstrip_def is_space_def Let_def)

text \<open>A thought that is cut off before its closing marker: the one-shot parser of MiniMax M3 loses the prose before it.\<close>

lemma minimax_drops_prose: "minimax_detect (minimax_init False True) (lit ''Sure. <mm:think>hm'') = (lit ''hm'', [])"
  by (simp add: minimax_detect_def minimax_body_def partition_at_def marker_defs lstrip_def is_space_def)

text \<open>MiniMax M3 streams: when the model opens with a bare closer (thinking off), the client gets exactly the text behind it as
  content; else the split of the whole completion, as for the other parsers.\<close>

theorem minimax_stream:
  assumes "p = minimax_init force True"
    "if \<not> force \<and> prefix (tp_end (mx_base p)) (lstrip (concat pieces))
     then \<not> str_in (tp_start (mx_base p)) (drop (length (tp_end (mx_base p))) (lstrip (concat pieces)))
     else well_formed (mx_base p) (concat pieces)"
  shows "if \<not> force \<and> prefix (tp_end (mx_base p)) (lstrip (concat pieces))
    then minimax_run p pieces = ([], drop (length (tp_end (mx_base p))) (lstrip (concat pieces)))
    else \<exists>w. (\<forall>c\<in>set w. is_space c) \<and> fst (minimax_run p pieces) @ w = fst (think_split (mx_base p) (concat pieces)) \<and>
      snd (minimax_run p pieces) = snd (think_split (mx_base p) (concat pieces))"
proof -
  have ok: "fresh_parser (mx_base p)" "markers_ok (mx_base p)" "solid (tp_end (mx_base p))" using minimax_ok assms(1) by simp_all
  show ?thesis
  proof (cases force)
    case True
    then have "minimax_run p pieces = think_run (mx_base p) pieces" using run_minimax_done[of p pieces] assms(1) by (simp add: minimax_init_def)
    with True stream_split[OF ok(1,2)] assms(2) show ?thesis by auto
  next
    case False
    then have p: "mx_pending p" "mx_head p = []" "tp_buffer (mx_base p) = []" "tp_end (mx_base p) \<noteq> []" "\<not> is_space (hd (tp_end (mx_base p)))"
      using assms(1) ok by (simp_all add: minimax_init_def fresh_parser_def solid_def)
    have "\<not> prefix (tp_end (mx_base p)) (lstrip (mx_head p))" using p by (simp add: lstrip_def)
    from run_minimax[OF p(4,5,1) this p(3), of pieces] show ?thesis
    proof (cases "prefix (tp_end (mx_base p)) (lstrip (concat pieces))")
      case True
      with run_minimax[OF p(4,5,1) \<open>\<not> prefix (tp_end (mx_base p)) (lstrip (mx_head p))\<close> p(3), of pieces] assms(2) False show ?thesis
        by (simp add: p(2) unopened_def)
    next
      case no: False
      with run_minimax[OF p(4,5,1) \<open>\<not> prefix (tp_end (mx_base p)) (lstrip (mx_head p))\<close> p(3), of pieces] obtain ys where
        ys: "concat ys = concat pieces" "minimax_run p pieces = think_run (mx_base p) ys" by (auto simp: p(2))
      have "well_formed (mx_base p) (concat ys)" using assms(2) no ys(1) by simp
      from stream_split[OF ok(1,2) this] no show ?thesis unfolding ys by auto
    qed
  qed
qed

theorem minimax_stream_witness:
  "minimax_run (minimax_init False True) [[10], lit ''</mm:'', lit ''think>Hel'', lit ''lo''] = ([], lit ''Hello'')"
proof -
  let ?p = "minimax_init False True" and ?ps = "[[10], lit ''</mm:'', lit ''think>Hel'', lit ''lo'']"
  have l: "lstrip (concat ?ps) = lit ''</mm:think>Hello''" by (simp add: lstrip_def is_space_def lit_def)
  have c: "prefix (tp_end (mx_base ?p)) (lit ''</mm:think>Hello'')" "drop (length (tp_end (mx_base ?p))) (lit ''</mm:think>Hello'') = lit ''Hello''"
    "\<not> str_in (tp_start (mx_base ?p)) (lit ''Hello'')" by (simp_all add: marker_defs)
  from minimax_stream[OF refl, of False ?ps] show ?thesis unfolding l using c by (simp del: minimax_run.simps)
qed

end
