(* ===== verification/Harmony.thy ===== *)
theory Harmony
  imports Reasoning
begin

text \<open>
  \<open>GptOssHarmonyReasoningParser\<close> of \<^verbatim>\<open>server/reasoning_parser.py\<close>: the \<open>analysis\<close> channel of gpt-oss is reasoning, the other
  channels are content, and a tool call stays as it is. Each chunk scans the whole text so far and sends what is new. The
  scan works on the rest of the text, where the code keeps a position in it.
\<close>

section \<open>The parser\<close>

definition harmony_channel :: ustr where "harmony_channel = lit ''<|channel|>''"
definition harmony_message :: ustr where "harmony_message = lit ''<|message|>''"

definition harmony_boundary_tokens :: "ustr list" where
  "harmony_boundary_tokens = [lit ''<|end|>'', lit ''<|return|>'', lit ''<|call|>'', lit ''<|start|>'', lit ''<|channel|>'']"

definition harmony_all_tokens :: "ustr list" where
  "harmony_all_tokens = [harmony_channel, harmony_message] @ harmony_boundary_tokens"

definition closing_boundary_tokens :: "ustr set" where
  "closing_boundary_tokens = {lit ''<|end|>'', lit ''<|return|>'', lit ''<|call|>''}"

text \<open>The earliest boundary in a body, and the first token of the list that gives it.\<close>

definition nearer :: "ustr \<Rightarrow> ustr \<Rightarrow> (nat \<times> ustr) option \<Rightarrow> (nat \<times> ustr) option" where
  "nearer body tok best =
     (case str_find tok body of
        None \<Rightarrow> best
      | Some pos \<Rightarrow> (case best of None \<Rightarrow> Some (pos, tok) | Some (best_pos, best_tok) \<Rightarrow> if pos < best_pos then Some (pos, tok) else best))"

definition segment_end :: "ustr \<Rightarrow> (nat \<times> ustr) option" where
  "segment_end body = fold (nearer body) harmony_boundary_tokens None"

text \<open>\<open>header.split()[0]\<close>, the empty string if there is none.\<close>

definition first_word :: "ustr \<Rightarrow> ustr" where
  "first_word header = takeWhile (\<lambda>c. \<not> is_space c) (lstrip header)"

lemma harmony_tokens_nonempty: "tok \<in> set harmony_all_tokens \<Longrightarrow> tok \<noteq> []"
  by (auto simp: harmony_all_tokens_def harmony_boundary_tokens_def harmony_channel_def harmony_message_def lit_def)

function harmony_scan :: "bool \<Rightarrow> ustr \<Rightarrow> ustr \<times> ustr" where
  "harmony_scan hold_partial t =
     (case str_find harmony_channel t of
        None \<Rightarrow> ([], [])
      | Some ch \<Rightarrow>
          (let after = drop (ch + length harmony_channel) t
           in case str_find harmony_message after of
                None \<Rightarrow> ([], [])
              | Some msg \<Rightarrow>
                  (let header = take msg after;
                       body = drop (msg + length harmony_message) after;
                       channel = first_word header;
                       is_tool = (channel = lit ''commentary'' \<and> str_in (lit ''to=functions'') header);
                       found = segment_end body;
                       stop = (case found of None \<Rightarrow> length body | Some (pos, _) \<Rightarrow> pos);
                       slice_end = (case found of Some (pos, tok) \<Rightarrow> if tok \<in> closing_boundary_tokens then pos + length tok else pos | None \<Rightarrow> stop);
                       piece = (if is_tool then harmony_channel @ header @ harmony_message @ take slice_end body
                                else if found = None \<and> hold_partial then take (stop - longest_hold harmony_all_tokens body) body
                                else take stop body);
                       (reasoning, content) = (if found = None then ([], []) else harmony_scan hold_partial (drop stop body))
                   in if \<not> is_tool \<and> channel = lit ''analysis'' then (piece @ reasoning, content) else (reasoning, piece @ content))))"
  by auto
termination
proof (relation "measure (\<lambda>(h, t). length t)", simp, clarsimp simp only: in_measure split_conv)
  fix t ch msg stop
  assume "str_find harmony_channel t = Some ch"
  from str_find_le[OF this] have "ch + length harmony_channel \<le> length t" .
  moreover have "0 < length harmony_channel" by (simp add: harmony_channel_def lit_def)
  ultimately show "length (drop stop (drop (msg + length harmony_message) (drop (ch + length harmony_channel) t))) < length t"
    by (simp only: length_drop)
qed

declare harmony_scan.simps [simp del]

record harmony_parser =
  hp_buffer :: ustr
  hp_reasoning :: nat
  hp_content :: nat

definition harmony_init :: harmony_parser where
  "harmony_init = \<lparr>hp_buffer = [], hp_reasoning = 0, hp_content = 0\<rparr>"

definition harmony_detect :: "ustr \<Rightarrow> ustr \<times> ustr" where
  "harmony_detect t =
     (if \<not> str_in harmony_channel t then ([], t)
      else (let (reasoning, content) = harmony_scan False t in (strip reasoning, strip content)))"

text \<open>What a scan adds to what was sent.\<close>

definition harmony_emit :: "bool \<Rightarrow> harmony_parser \<Rightarrow> (ustr \<times> ustr) \<times> harmony_parser" where
  "harmony_emit hold_partial p =
     (let (reasoning, content) = harmony_scan hold_partial (hp_buffer p)
      in ((drop (hp_reasoning p) reasoning, drop (hp_content p) content), p\<lparr>hp_reasoning := length reasoning, hp_content := length content\<rparr>))"

definition harmony_step :: "harmony_parser \<Rightarrow> ustr \<Rightarrow> (ustr \<times> ustr) \<times> harmony_parser" where
  "harmony_step p new_text = harmony_emit True (p\<lparr>hp_buffer := hp_buffer p @ new_text\<rparr>)"

fun harmony_run :: "harmony_parser \<Rightarrow> ustr list \<Rightarrow> ustr \<times> ustr" where
  "harmony_run p [] = fst (harmony_emit False p)"
| "harmony_run p (x # xs) = (let ((r, n), p) = harmony_step p x; (r', n') = harmony_run p xs in (r @ r', n @ n'))"

section \<open>Boundaries\<close>

text \<open>No marker contains a \<open><\<close> but its first character, so markers do not overlap.\<close>

lemma marker_head: "tok \<in> set harmony_all_tokens \<Longrightarrow> tok = 60 # tl tok \<and> 60 \<notin> set (tl tok)"
  by (auto simp: harmony_all_tokens_def harmony_boundary_tokens_def harmony_channel_def harmony_message_def lit_def)

lemma boundary_all: "tok \<in> set harmony_boundary_tokens \<Longrightarrow> tok \<in> set harmony_all_tokens"
  by (simp add: harmony_all_tokens_def)

lemma boundary_prefix_free: "a \<in> set harmony_boundary_tokens \<Longrightarrow> b \<in> set harmony_boundary_tokens \<Longrightarrow> prefix a b \<Longrightarrow> a = b"
  by (auto simp: harmony_boundary_tokens_def lit_def)

lemma nearer_fold:
  "(fold (nearer body) toks best = best \<or> (\<exists>tok\<in>set toks. \<exists>p. str_find tok body = Some p \<and> fold (nearer body) toks best = Some (p, tok))) \<and>
   (\<forall>tok\<in>set toks. \<forall>p. str_find tok body = Some p \<longrightarrow> (\<exists>q t. fold (nearer body) toks best = Some (q, t) \<and> q \<le> p)) \<and>
   (\<forall>p t. best = Some (p, t) \<longrightarrow> (\<exists>q t. fold (nearer body) toks best = Some (q, t) \<and> q \<le> p))"
proof (induction toks arbitrary: best)
  case (Cons tok toks)
  define b where "b = nearer body tok best"
  have b: "b = best \<or> (\<exists>p. str_find tok body = Some p \<and> b = Some (p, tok))" "\<And>p. str_find tok body = Some p \<Longrightarrow> \<exists>q t. b = Some (q, t) \<and> q \<le> p"
    "\<And>p t. best = Some (p, t) \<Longrightarrow> \<exists>q t. b = Some (q, t) \<and> q \<le> p"
    by (auto simp: b_def nearer_def split: option.splits)
  define r where "r = fold (nearer body) toks b"
  have ih: "r = b \<or> (\<exists>tok\<in>set toks. \<exists>p. str_find tok body = Some p \<and> r = Some (p, tok))"
    "\<And>tok p. tok \<in> set toks \<Longrightarrow> str_find tok body = Some p \<Longrightarrow> \<exists>q t. r = Some (q, t) \<and> q \<le> p"
    "\<And>p t. b = Some (p, t) \<Longrightarrow> \<exists>q t. r = Some (q, t) \<and> q \<le> p"
    using Cons.IH[of b] unfolding r_def by blast+
  have below: "\<exists>q t. r = Some (q, t) \<and> q \<le> p" if "\<exists>q t. b = Some (q, t) \<and> q \<le> p" for p
  proof -
    from that obtain q t where q: "b = Some (q, t)" "q \<le> p" by blast
    from ih(3)[OF q(1)] q(2) show ?thesis by (auto intro: order_trans)
  qed
  have e: "fold (nearer body) (tok # toks) best = r" by (simp add: r_def b_def)
  have "r = best \<or> (\<exists>tk\<in>set (tok # toks). \<exists>p. str_find tk body = Some p \<and> r = Some (p, tk))" using ih(1) b(1) by auto
  moreover have "\<exists>q t. r = Some (q, t) \<and> q \<le> p" if "tk \<in> set (tok # toks)" "str_find tk body = Some p" for tk p
    using that ih(2) below[OF b(2)] by auto
  ultimately show ?case unfolding e using below[OF b(3)] by blast
qed simp

lemma segment_None: "segment_end body = None \<longleftrightarrow> (\<forall>tok\<in>set harmony_boundary_tokens. str_find tok body = None)"
  using nearer_fold[of body harmony_boundary_tokens None] unfolding segment_end_def by (metis not_Some_eq)

lemma segment_Some:
  "segment_end body = Some (e, tk) \<longleftrightarrow> tk \<in> set harmony_boundary_tokens \<and> str_find tk body = Some e \<and>
     (\<forall>tok\<in>set harmony_boundary_tokens. \<forall>p. str_find tok body = Some p \<longrightarrow> e \<le> p)" (is "?l \<longleftrightarrow> ?r")
proof
  assume ?l
  then show ?r using nearer_fold[of body harmony_boundary_tokens None] unfolding segment_end_def by auto
next
  assume r: ?r
  then obtain q t where qt: "segment_end body = Some (q, t)" "q \<le> e" using nearer_fold[of body harmony_boundary_tokens None] unfolding segment_end_def by blast
  then have t: "t \<in> set harmony_boundary_tokens" "str_find t body = Some q" using nearer_fold[of body harmony_boundary_tokens None] unfolding segment_end_def by auto
  with r qt(2) have "q = e" by (metis le_antisym)
  moreover have "t = tk"
  proof -
    have "prefix t (drop e body)" "prefix tk (drop e body)" using t r \<open>q = e\<close> by (simp_all add: str_find_Some)
    then show ?thesis using prefix_same_cases boundary_prefix_free t(1) r by metis
  qed
  ultimately show ?l using qt(1) by simp
qed

text \<open>More text does not move a boundary that is complete.\<close>

lemma segment_append:
  assumes "segment_end body = Some (e, tk)"
  shows "segment_end (body @ v) = Some (e, tk)"
proof -
  have s: "tk \<in> set harmony_boundary_tokens" "str_find tk body = Some e" "\<And>tok p. tok \<in> set harmony_boundary_tokens \<Longrightarrow> str_find tok body = Some p \<Longrightarrow> e \<le> p"
    using assms by (auto simp: segment_Some)
  have "e \<le> p" if tok: "tok \<in> set harmony_boundary_tokens" and f: "str_find tok (body @ v) = Some p" for tok p
  proof (rule ccontr)
    assume "\<not> e \<le> p"
    then have pe: "p < e" by simp
    have el: "e + length tk \<le> length body" by (rule str_find_le[OF s(2)])
    have h: "tk = 60 # tl tk" "60 \<notin> set (tl tok)" using marker_head[OF boundary_all] s(1) tok by blast+
    show False
    proof (cases "p + length tok \<le> length body")
      case True
      then have "prefix tok (drop p body)" using f prefix_at_append[OF True, of v] by (simp add: str_find_Some)
      then obtain q where "str_find tok body = Some q" "q \<le> p" using True find_drop_some[of tok p body 0] by (auto simp: str_find_Some)
      with s(3)[OF tok] pe show False by fastforce
    next
      case False
      obtain z where z: "drop p (body @ v) = tok @ z" using f by (auto simp: str_find_Some prefix_def)
      obtain y where y: "drop e (body @ v) = tk @ y" using str_find_append[OF s(2), of v] by (auto simp: str_find_Some prefix_def)
      have i: "0 < e - p" "e - p < length tok" using pe el False h(1) by (cases tk; simp)+
      have "drop (e - p) (tok @ z) = tk @ y" using y z pe by (metis drop_drop le_add_diff_inverse2 less_imp_le)
      then have "tok ! (e - p) = 60" using i h(1) by (metis append_Cons drop_append hd_append2 hd_conv_nth hd_drop_conv_nth length_drop list.sel(1) list.size(3) not_less_zero zero_less_diff length_greater_0_conv)
      moreover have "tok ! (e - p) = tl tok ! (e - p - 1)" using i by (cases tok) (auto simp: nth_Cons')
      ultimately have "60 \<in> set (tl tok)" using i nth_mem[of "e - p - 1" "tl tok"] by simp
      with h(2) show False by simp
    qed
  qed
  with s(1) str_find_append[OF s(2), of v] show ?thesis by (simp add: segment_Some)
qed

lemma hold_mono: "length body - longest_hold toks body \<le> length (body @ v) - longest_hold toks (body @ v)"
proof (cases "longest_hold toks (body @ v) \<le> length v")
  case False
  define m k where "m = longest_hold toks (body @ v)" and "k = m - length v"
  have m: "m = k + length v" "k \<noteq> 0" using False by (simp_all add: m_def k_def)
  have "partial_end toks (body @ v) m" using longest_hold_held[of toks "body @ v"] m by (simp add: m_def)
  then obtain tok where tok: "tok \<in> set toks" "m < length tok" "m \<le> length (body @ v)" "suffix (take m tok) (body @ v)" by (auto simp: partial_end_def)
  then obtain zs where zs: "body @ v = zs @ take m tok" by (auto simp: suffix_def)
  then have "length (body @ v) - m = length zs" using tok(2) arg_cong[OF zs, of length] by simp
  then have "take m tok = drop (length (body @ v) - m) (body @ v)" unfolding zs by simp
  then have "take k (take m tok) = take k (drop (length body - k) body @ v)" using m tok(3) by simp
  then have "take k tok = drop (length body - k) body" using m tok(3) by simp
  then have "suffix (take k tok) body" by (simp add: suffix_drop)
  moreover have "k < length tok" "k \<le> length body" using tok m by simp_all
  ultimately have "partial_end toks body k" using tok(1) unfolding partial_end_def by blast
  from longest_hold_max[OF this] show ?thesis using m tok(3) unfolding m_def[symmetric] by simp
qed simp

section \<open>A longer text scans to more\<close>

definition functions_mark :: ustr where "functions_mark = lit ''to=functions''"

text \<open>One segment of a text without tool calls.\<close>

lemma scan_segment:
  assumes "str_find harmony_channel t = Some ch" "str_find harmony_message (drop (ch + length harmony_channel) t) = Some msg" "\<not> str_in functions_mark t"
  defines "header \<equiv> take msg (drop (ch + length harmony_channel) t)"
    and "body \<equiv> drop (msg + length harmony_message) (drop (ch + length harmony_channel) t)"
  shows "harmony_scan h t =
    (case segment_end body of
       None \<Rightarrow> (let piece = if h then take (length body - longest_hold harmony_all_tokens body) body else body
               in if first_word header = lit ''analysis'' then (piece, []) else ([], piece))
     | Some (e, _) \<Rightarrow> (let (r, c) = harmony_scan h (drop e body) in if first_word header = lit ''analysis'' then (take e body @ r, c) else (r, take e body @ c)))"
proof -
  have "sublist header t" unfolding header_def by (metis append_take_drop_id sublist_appendI)
  then have "\<not> str_in (lit ''to=functions'') header" using assms(3) str_in_mono unfolding functions_mark_def by blast
  then show ?thesis
    by (subst harmony_scan.simps) (simp add: assms(1,2) header_def[symmetric] body_def[symmetric] Let_def case_prod_beta del: drop_drop split: option.split)
qed

lemma scan_none: "str_find harmony_channel t = None \<or> (\<exists>ch. str_find harmony_channel t = Some ch \<and> str_find harmony_message (drop (ch + length harmony_channel) t) = None) \<Longrightarrow>
    harmony_scan h t = ([], [])"
  by (subst harmony_scan.simps) (auto simp: Let_def)

lemma scan_prefix:
  "\<not> str_in functions_mark (t @ v) \<Longrightarrow>
    prefix (fst (harmony_scan True t)) (fst (harmony_scan h (t @ v))) \<and> prefix (snd (harmony_scan True t)) (snd (harmony_scan h (t @ v)))"
proof (induction t rule: measure_induct_rule[of length])
  case (less t)
  have nt: "\<not> str_in functions_mark t" using less.prems str_in_append by blast
  show ?case
  proof (cases "\<exists>ch msg. str_find harmony_channel t = Some ch \<and> str_find harmony_message (drop (ch + length harmony_channel) t) = Some msg")
    case False
    then have "harmony_scan True t = ([], [])" by (intro scan_none) (metis option.exhaust)
    then show ?thesis by simp
  next
    case True
    then obtain ch msg where ch: "str_find harmony_channel t = Some ch" and msg: "str_find harmony_message (drop (ch + length harmony_channel) t) = Some msg" by blast
    define after where "after = drop (ch + length harmony_channel) t"
    define header where "header = take msg after"
    define body where "body = drop (msg + length harmony_message) after"
    have chl: "ch + length harmony_channel \<le> length t" by (rule str_find_le[OF ch])
    have msl: "msg + length harmony_message \<le> length after" unfolding after_def by (rule str_find_le[OF msg])
    have ch': "str_find harmony_channel (t @ v) = Some ch" by (rule str_find_append[OF ch])
    have af: "drop (ch + length harmony_channel) (t @ v) = after @ v" using chl by (simp add: after_def)
    have msg': "str_find harmony_message (drop (ch + length harmony_channel) (t @ v)) = Some msg"
      unfolding af using str_find_append[OF msg] by (simp add: after_def)
    have hb: "take msg (after @ v) = header" "drop (msg + length harmony_message) (after @ v) = body @ v" using msl by (simp_all add: header_def body_def)
    have "length body < length t" using chl by (simp add: body_def after_def harmony_channel_def lit_def)
    have sub: "sublist (body @ v) (t @ v)" by (metis af append_take_drop_id hb(2) sublist_append_leftI sublist_order.order_refl sublist_order.order_trans)
    note s = scan_segment[OF ch msg nt, folded after_def, folded header_def body_def]
    note s' = scan_segment[OF ch' msg' less.prems, unfolded af hb]
    show ?thesis
    proof (cases "segment_end body")
      case (Some et)
      obtain e tk where et: "segment_end body = Some (e, tk)" using Some by (cases et) simp
      then have e: "e + length tk \<le> length body" using str_find_le by (auto simp: segment_Some)
      have "\<not> str_in functions_mark (drop e body @ v)"
        using less.prems str_in_mono sub e by (metis append_take_drop_id append_assoc sublist_append_leftI sublist_order.order_refl sublist_order.order_trans)
      moreover have "length (drop e body) < length t" using \<open>length body < length t\<close> by simp
      ultimately have "prefix (fst (harmony_scan True (drop e body))) (fst (harmony_scan h (drop e body @ v)))"
        "prefix (snd (harmony_scan True (drop e body))) (snd (harmony_scan h (drop e body @ v)))" using less.IH by blast+
      then show ?thesis using e unfolding s s' et segment_append[OF et, of v] by (auto simp: case_prod_beta)
    next
      case None
      let ?n = "length body - longest_hold harmony_all_tokens body"
      have long: "prefix (take ?n body) (take m (body @ v))" if "?n \<le> m" for m
        using that by (metis diff_le_self min.absorb1 prefix_order.order_refl take_append take_is_prefix take_take diff_is_0_eq' take0 append_Nil2)
      have p: "prefix (take ?n body) (case segment_end (body @ v) of None \<Rightarrow> if h then take (length (body @ v) - longest_hold harmony_all_tokens (body @ v)) (body @ v) else body @ v
          | Some (e, _) \<Rightarrow> take e (body @ v))"
      proof (cases "segment_end (body @ v)")
        case none: None
        then show ?thesis using long[OF hold_mono[of body harmony_all_tokens v]] long[of "length (body @ v)"] by simp
      next
        case (Some et)
        obtain e tk where et: "segment_end (body @ v) = Some (e, tk)" using Some by (cases et) simp
        then have "tk \<in> set harmony_boundary_tokens" "str_find tk (body @ v) = Some e" by (auto simp: segment_Some)
        moreover from this have "\<not> str_in tk body" using None by (auto simp: segment_None str_in_def)
        ultimately have "?n \<le> e" using find_in_held boundary_all by metis
        from long[OF this] show ?thesis by (simp add: et)
      qed
      then show ?thesis unfolding s s' None by (cases "segment_end (body @ v)") (auto simp: Let_def case_prod_beta simp del: take_append drop_append intro: prefix_prefix)
    qed
  qed
qed

section \<open>The stream\<close>

lemma harmony_run_eq:
  "\<not> str_in functions_mark (hp_buffer p @ concat xs) \<Longrightarrow> hp_reasoning p = length (fst (harmony_scan True (hp_buffer p))) \<Longrightarrow>
    hp_content p = length (snd (harmony_scan True (hp_buffer p))) \<Longrightarrow>
    fst (harmony_scan True (hp_buffer p)) @ fst (harmony_run p xs) = fst (harmony_scan False (hp_buffer p @ concat xs)) \<and>
    snd (harmony_scan True (hp_buffer p)) @ snd (harmony_run p xs) = snd (harmony_scan False (hp_buffer p @ concat xs))"
proof (induction xs arbitrary: p)
  case Nil
  then show ?case using scan_prefix[of "hp_buffer p" "[]" False] by (auto simp: harmony_emit_def case_prod_beta prefix_def)
next
  case (Cons x xs)
  let ?b = "hp_buffer p @ x"
  let ?q = "p\<lparr>hp_buffer := ?b, hp_reasoning := length (fst (harmony_scan True ?b)), hp_content := length (snd (harmony_scan True ?b))\<rparr>"
  have n: "\<not> str_in functions_mark (?b @ concat xs)" using Cons.prems(1) by simp
  have "\<not> str_in functions_mark ?b" using n str_in_append by blast
  from scan_prefix[OF this, of True] obtain r c where rc: "fst (harmony_scan True ?b) = fst (harmony_scan True (hp_buffer p)) @ r"
    "snd (harmony_scan True ?b) = snd (harmony_scan True (hp_buffer p)) @ c" by (auto simp: prefix_def)
  have st: "harmony_step p x = ((r, c), ?q)" using rc Cons.prems(2,3) by (simp add: harmony_step_def harmony_emit_def case_prod_beta)
  from Cons.IH[of ?q] n show ?case by (simp add: st case_prod_beta rc)
qed

lemma harmony_stream_scan:
  assumes "\<not> str_in functions_mark (concat pieces)"
  shows "harmony_run harmony_init pieces = harmony_scan False (concat pieces)"
proof -
  have "harmony_scan True [] = ([], [])" by (rule scan_none) (simp add: harmony_channel_def lit_def)
  then show ?thesis using harmony_run_eq[of harmony_init pieces] assms by (simp add: harmony_init_def prod_eq_iff)
qed

section \<open>What a completion says\<close>

text \<open>A completion in the Harmony format: segments, each with the text before its channel marker (the token that ends the
  segment before it, \<open><|start|>assistant\<close>), its header and its body, and what is left after the last one.\<close>

record harmony_segment =
  hs_lead :: ustr
  hs_header :: ustr
  hs_body :: ustr

fun harmony_text :: "harmony_segment list \<Rightarrow> ustr \<Rightarrow> ustr" where
  "harmony_text [] tail = tail"
| "harmony_text (s # segs) tail =
     hs_lead s @ harmony_channel @ hs_header s @ harmony_message @ hs_body s @ harmony_text segs tail"

definition reasoning_bodies :: "harmony_segment list \<Rightarrow> ustr" where
  "reasoning_bodies segs = concat (map hs_body (filter (\<lambda>s. first_word (hs_header s) = lit ''analysis'') segs))"

definition content_bodies :: "harmony_segment list \<Rightarrow> ustr" where
  "content_bodies segs = concat (map hs_body (filter (\<lambda>s. first_word (hs_header s) \<noteq> lit ''analysis'') segs))"

definition at_boundary :: "ustr \<Rightarrow> bool" where
  "at_boundary t \<longleftrightarrow> t = [] \<or> (\<exists>tok\<in>set harmony_boundary_tokens. prefix tok t)"

text \<open>Bodies hold no control token, a body ends at a boundary token or at the end of the completion, and the text outside
  of header and body holds no channel marker.\<close>

definition segment_ok :: "harmony_segment \<Rightarrow> bool" where
  "segment_ok s \<longleftrightarrow> \<not> str_in harmony_channel (hs_lead s) \<and> \<not> str_in harmony_message (hs_header s) \<and>
     (\<forall>tok\<in>set harmony_all_tokens. \<not> str_in tok (hs_body s))"

definition harmony_format :: "harmony_segment list \<Rightarrow> ustr \<Rightarrow> bool" where
  "harmony_format segs tail \<longleftrightarrow> (\<forall>s\<in>set segs. segment_ok s) \<and> (\<forall>s\<in>set (tl segs). at_boundary (hs_lead s)) \<and>
     \<not> str_in harmony_channel tail \<and> at_boundary tail"

lemma marker_tokens: "harmony_channel \<in> set harmony_boundary_tokens" "harmony_channel \<in> set harmony_all_tokens" "harmony_message \<in> set harmony_all_tokens"
  by (simp_all add: harmony_all_tokens_def harmony_boundary_tokens_def harmony_channel_def lit_def)

text \<open>A marker does not begin in a text without it and end behind it, when a marker follows.\<close>

lemma no_straddle:
  assumes tok: "tok \<in> set harmony_all_tokens" "\<not> str_in tok body" and n: "next = [] \<or> hd next = 60" and p: "p < length body"
  shows "\<not> prefix tok (drop p (body @ next))"
proof
  assume pre: "prefix tok (drop p (body @ next))"
  have h: "tok = 60 # tl tok" "60 \<notin> set (tl tok)" using marker_head[OF tok(1)] by blast+
  show False
  proof (cases "p + length tok \<le> length body")
    case True
    then show False using pre prefix_at_append[OF True, of "next"] tok(2) p by (auto simp: str_in_drop)
  next
    case False
    obtain z where z: "drop p (body @ next) = tok @ z" using pre by (auto simp: prefix_def)
    have i: "0 < length body - p" "length body - p < length tok" using False p by simp_all
    have "length tok \<le> length (drop p (body @ next))" using z by simp
    then have ne: "next \<noteq> []" using False p by auto
    have "tok ! (length body - p) = drop p (body @ next) ! (length body - p)" unfolding z using i(2) by (simp add: nth_append)
    also have "\<dots> = next ! 0" using p by (simp add: nth_append)
    finally have "tok ! (length body - p) = 60" using n ne by (simp add: hd_conv_nth)
    moreover have "tok ! (length body - p) = tl tok ! (length body - p - 1)" using i by (cases tok) (auto simp: nth_Cons')
    ultimately have "60 \<in> set (tl tok)" using i nth_mem[of "length body - p - 1" "tl tok"] by simp
    with h(2) show False by simp
  qed
qed

lemma find_behind:
  assumes "tok \<in> set harmony_all_tokens" "\<not> str_in tok body" "next = [] \<or> hd next = 60" "str_find tok (body @ next) = Some p"
  shows "length body \<le> p"
  using no_straddle[OF assms(1-3), of p] assms(4) by (metis not_le str_find_Some)

lemma find_at:
  assumes "tok \<in> set harmony_all_tokens" "\<not> str_in tok body" "prefix tok next"
  shows "str_find tok (body @ next) = Some (length body)"
proof -
  have "hd next = 60" using marker_head[OF assms(1)] assms(3) by (metis append_Cons list.sel(1) prefix_def)
  then show ?thesis using no_straddle[OF assms(1,2)] assms(3) by (simp add: str_find_Some)
qed

lemma boundary_head: "at_boundary t \<Longrightarrow> t = [] \<or> hd t = 60"
  unfolding at_boundary_def using marker_head[OF boundary_all] by (metis append_Cons list.sel(1) prefix_def)

lemma segment_body:
  assumes "\<forall>tok\<in>set harmony_all_tokens. \<not> str_in tok body" "at_boundary rest"
  shows "segment_end (body @ rest) = (if rest = [] then None else Some (length body, the (find (\<lambda>tok. prefix tok rest) harmony_boundary_tokens)))"
proof (cases "rest = []")
  case True
  then show ?thesis using assms(1) boundary_all by (auto simp: segment_None str_in_def)
next
  case False
  then obtain tk where "find (\<lambda>tok. prefix tok rest) harmony_boundary_tokens = Some tk"
    using assms(2) unfolding at_boundary_def by (metis find_None_iff option.exhaust)
  moreover from this have tk: "tk \<in> set harmony_boundary_tokens" "prefix tk rest" by (auto simp: find_Some_iff)
  ultimately show ?thesis using False find_at[OF boundary_all[OF tk(1)] _ tk(2)] find_behind[OF boundary_all _ boundary_head[OF assms(2)]] assms(1) boundary_all
    by (auto simp: segment_Some)
qed

lemma text_boundary:
  assumes "\<forall>s\<in>set segs. at_boundary (hs_lead s)" "at_boundary tail"
  shows "at_boundary (harmony_text segs tail)"
proof (cases segs)
  case Nil
  then show ?thesis using assms(2) by simp
next
  case (Cons s ss)
  then have "at_boundary (hs_lead s)" using assms(1) by simp
  then show ?thesis unfolding Cons harmony_text.simps at_boundary_def using marker_tokens(1) by (metis append_Nil append_assoc prefix_append prefixI)
qed

lemma scan_format:
  "harmony_format segs tail \<Longrightarrow> \<not> str_in functions_mark (harmony_text segs tail) \<Longrightarrow>
    harmony_scan False (harmony_text segs tail) = (reasoning_bodies segs, content_bodies segs)"
proof (induction segs)
  case Nil
  then show ?case by (simp add: harmony_format_def scan_none str_in_def reasoning_bodies_def content_bodies_def)
next
  case (Cons s segs)
  let ?rest = "harmony_text segs tail" and ?t = "harmony_text (s # segs) tail"
  have s: "\<not> str_in harmony_channel (hs_lead s)" "\<not> str_in harmony_message (hs_header s)" "\<forall>tok\<in>set harmony_all_tokens. \<not> str_in tok (hs_body s)"
    using Cons.prems(1) by (simp_all add: harmony_format_def segment_ok_def)
  have b: "at_boundary ?rest" using Cons.prems(1) by (intro text_boundary) (simp_all add: harmony_format_def)
  have ok: "harmony_format segs tail" using Cons.prems(1) by (cases segs) (simp_all add: harmony_format_def)
  have "suffix ?rest ?t" by (rule suffixI[of _ "hs_lead s @ harmony_channel @ hs_header s @ harmony_message @ hs_body s"]) simp
  then have "sublist ?rest ?t" by (rule suffix_imp_sublist)
  then have ih: "harmony_scan False ?rest = (reasoning_bodies segs, content_bodies segs)" using Cons.IH[OF ok] Cons.prems(2) str_in_mono by blast
  have ch: "str_find harmony_channel ?t = Some (length (hs_lead s))" using find_at[OF marker_tokens(2) s(1)] by simp
  have af: "drop (length (hs_lead s) + length harmony_channel) ?t = hs_header s @ harmony_message @ hs_body s @ ?rest" by simp
  have msg: "str_find harmony_message (drop (length (hs_lead s) + length harmony_channel) ?t) = Some (length (hs_header s))"
    unfolding af using find_at[OF marker_tokens(3) s(2)] by simp
  have body: "drop (length (hs_header s) + length harmony_message) (hs_header s @ harmony_message @ hs_body s @ ?rest) = hs_body s @ ?rest"
    "take (length (hs_header s)) (hs_header s @ harmony_message @ hs_body s @ ?rest) = hs_header s" by simp_all
  have e: "harmony_scan False [] = ([], [])" by (rule scan_none) (simp add: harmony_channel_def lit_def)
  note s = scan_segment[OF ch msg Cons.prems(2), of False, unfolded af body segment_body[OF s(3) b]]
  show ?case
  proof (cases "?rest = []")
    case True
    then have "reasoning_bodies segs = []" "content_bodies segs = []" using ih e by simp_all
    moreover have "reasoning_bodies (s # segs) = (if first_word (hs_header s) = lit ''analysis'' then hs_body s @ reasoning_bodies segs else reasoning_bodies segs)"
      "content_bodies (s # segs) = (if first_word (hs_header s) = lit ''analysis'' then content_bodies segs else hs_body s @ content_bodies segs)"
      by (simp_all add: reasoning_bodies_def content_bodies_def)
    ultimately show ?thesis using True unfolding s by simp
  next
    case False
    then show ?thesis using ih unfolding s by (auto simp: reasoning_bodies_def content_bodies_def)
  qed
qed

text \<open>C28: A gpt-oss completion in the Harmony format without tool calls, whatever pieces it arrives in, streams to exactly the
  joined bodies of its analysis segments as reasoning and the joined bodies of the others as content: no control token,
  no header and nothing between the segments is sent. The format asks that no body holds a control token and that each
  body ends at a boundary token or at the end; that there is no tool call is asked of the whole text, which must not
  contain \<open>to=functions\<close>.\<close>

theorem harmony_stream:
  assumes "harmony_format segs tail" "\<not> str_in functions_mark (harmony_text segs tail)" "concat pieces = harmony_text segs tail"
  shows "harmony_run harmony_init pieces = (reasoning_bodies segs, content_bodies segs)"
  using harmony_stream_scan[of pieces] scan_format[OF assms(1,2)] assms(2,3) by simp

lemmas harmony_run_defs = harmony_scan.simps harmony_init_def harmony_step_def harmony_emit_def harmony_channel_def harmony_message_def segment_end_def
  nearer_def harmony_boundary_tokens_def harmony_all_tokens_def closing_boundary_tokens_def longest_hold_def hold_tok_def upt_rec suffix_def
  first_word_def lstrip_def is_space_def lit_def str_in_def Let_def

text \<open>A tool call is sent as it comes, without the hold-back: when its terminator is a marker that opens the next segment and
  arrives in two pieces, half of it has already gone out as content.\<close>

lemma tool_call_leaks_marker:
  "snd (harmony_run harmony_init [lit ''<|channel|>commentary to=functions.f<|message|>{}<|st'', lit ''art|>'']) =
     lit ''<|channel|>commentary to=functions.f<|message|>{}<|st'' \<and>
   snd (harmony_run harmony_init [lit ''<|channel|>commentary to=functions.f<|message|>{}<|start|>'']) = lit ''<|channel|>commentary to=functions.f<|message|>{}''"
  by (simp add: harmony_run_defs)

text \<open>A completion without any channel marker: one-shot parsing returns it as content, streaming sends nothing.\<close>

lemma unmarked_text_is_not_streamed:
  "\<not> str_in harmony_channel t \<Longrightarrow> harmony_detect t = ([], t) \<and> harmony_scan h t = ([], [])"
  by (simp add: harmony_detect_def scan_none str_in_def)

text \<open>Outside the format the scan does pass a control token on: a body that holds a message marker, and a body that the
  end of the completion cuts inside a marker.\<close>

lemma malformed_text_leaks_marker:
  "harmony_run harmony_init [lit ''<|channel|>final<|message|>a<|message|>b''] = ([], lit ''a<|message|>b'')"
  "harmony_run harmony_init [lit ''<|channel|>final<|message|>ok<|en''] = ([], lit ''ok<|en'')"
  by (simp_all add: harmony_run_defs)

definition ex_segments :: "harmony_segment list" where
  "ex_segments = [\<lparr>hs_lead = [], hs_header = lit ''analysis'', hs_body = lit ''hm''\<rparr>,
     \<lparr>hs_lead = lit ''<|end|><|start|>assistant'', hs_header = lit ''final'', hs_body = lit ''ok''\<rparr>]"

theorem harmony_stream_witness:
  "harmony_run harmony_init [lit ''<|chan'', lit ''nel|>analysis<|message|>hm<'', lit ''|end|><|start|>assistant<|channel|>final<|message|>ok'', lit ''<|return|>''] =
     (lit ''hm'', lit ''ok'')"
proof -
  have f: "harmony_format ex_segments (lit ''<|return|>'')"
    by (simp add: harmony_format_def segment_ok_def ex_segments_def at_boundary_def harmony_all_tokens_def harmony_boundary_tokens_def
        harmony_channel_def harmony_message_def str_in_def lit_def)
  have n: "\<not> str_in functions_mark (harmony_text ex_segments (lit ''<|return|>''))"
    by (simp add: ex_segments_def functions_mark_def harmony_channel_def harmony_message_def str_in_def lit_def)
  have c: "concat [lit ''<|chan'', lit ''nel|>analysis<|message|>hm<'', lit ''|end|><|start|>assistant<|channel|>final<|message|>ok'', lit ''<|return|>''] =
      harmony_text ex_segments (lit ''<|return|>'')"
    by (simp add: ex_segments_def harmony_channel_def harmony_message_def lit_def)
  show ?thesis using harmony_stream[OF f n c] by (simp add: reasoning_bodies_def content_bodies_def ex_segments_def first_word_def lstrip_def is_space_def lit_def
      del: harmony_run.simps)
qed

end
