(* ===== verification/ServeManager.thy ===== *)
theory ServeManager
  imports LogRings
begin

text \<open>
  \<open>ServeManager\<close> of \<^verbatim>\<open>daemon/serve_manager.py\<close>, the supervisor of the one \<open>ft serve\<close> child, as a step relation over its
  threads: the client calls and automatic restarts, which the lifecycle lock makes one at a time, one monitor thread per
  child, and the child processes themselves, which may exit at any moment. A step is a region under the state lock or one
  action between two such regions (a spawn, a signal, a write of the state file). A process is a number that is never used
  again, as pid and start time are; the configuration stands for model, port and arguments; \<open>prepare_stop\<close>, the outbox, the
  signals and the log tailer are parameters that succeed or fail. A monitor takes its child for gone when the process has
  exited, but also when its \<open>wait\<close> raises or the check of an adopted process fails (an unreadable \<^verbatim>\<open>/proc\<close> entry); a
  process whose exit was reported like that while it ran is remembered in a ghost field.
\<close>

section \<open>The state\<close>

datatype exit_source = Exited | Signalled | Stopped | Vanished | Unknown

record exit_info =
  ex_code :: "int option"
  ex_source :: exit_source

text \<open>What a call goes on to after its stop: nothing, the start of a switch, or the shutdown it belongs to.\<close>

datatype 'c after = Plain | Then_start 'c | Shutting

text \<open>Where the call that holds the lifecycle lock stands.\<close>

datatype 'c pc =
    Start_gate 'c bool
  | Start_loop 'c bool
  | Spawn 'c
  | Install 'c nat
  | Persist nat
  | Watch nat
  | Stop_gate "'c after"
  | Prepare nat "'c after"
  | Terminate nat "'c after"
  | Await_term nat "'c after"
  | Kill nat "'c after"
  | Await_kill nat "'c after"

text \<open>Where a monitor thread stands; the locals \<open>was_stopping\<close> and, once it has been taken the second time, \<open>is_current\<close> are carried along.\<close>

datatype mon =
    Waiting
  | Reap exit_info
  | Seal exit_info bool
  | Forget exit_info bool
  | Clear bool
  | Wake bool bool
  | Decide bool bool

datatype 'c outcome = Started nat bool | Aborted | Conflict | Done | Failed

text \<open>The last three fields are ghosts: a stop has succeeded and no start has been let in since; the children whose crash receipt
  the outbox refused; the children whose exit was reported although they ran.\<close>

record 'c manager =
  sm_child :: "nat option"
  sm_config :: "'c option"
  sm_last_exit :: "exit_info option"
  sm_stopping :: bool
  sm_starting :: bool
  sm_stop_requested :: bool
  sm_shutdown :: bool
  sm_auto_restart :: bool
  sm_durable :: "nat set"
  sm_store :: "nat option"
  sm_reaped :: "nat set"
  sm_call :: "'c pc option"
  sm_monitors :: "nat \<rightharpoonup> mon"
  sm_restarts :: "'c list"
  sm_live :: "nat set"
  sm_next :: nat
  sm_result :: "'c outcome option"
  sm_quiet :: bool
  sm_unsealed :: "nat set"
  sm_misreported :: "nat set"

section \<open>Start\<close>

definition finish :: "'c outcome \<Rightarrow> 'c manager \<Rightarrow> 'c manager" where
  "finish r s = s\<lparr>sm_call := None, sm_result := Some r\<rparr>"

text \<open>The checks before the loop of \<open>_start\<close>.\<close>

definition start_gate :: "'c \<Rightarrow> bool \<Rightarrow> 'c manager \<Rightarrow> 'c manager" where
  "start_gate c auto s =
     (if sm_shutdown s then finish (if auto then Aborted else Conflict) s
      else if auto \<and> sm_stop_requested s then finish Aborted s
      else if auto then s\<lparr>sm_call := Some (Start_loop c auto)\<rparr>
      else s\<lparr>sm_stop_requested := False, sm_quiet := False, sm_call := Some (Start_loop c auto)\<rparr>)"

text \<open>The loop; while a spawn is in flight it waits, so this is not a step then.\<close>

definition start_loop :: "'c \<Rightarrow> bool \<Rightarrow> 'c manager \<Rightarrow> 'c manager option" where
  "start_loop c auto s =
     (case sm_child s of
        Some k \<Rightarrow> if \<not> sm_stopping s then Some (finish (if sm_config s = Some c then Started k True else Conflict) s)
                  else if sm_starting s then None
                  else if auto \<and> sm_stop_requested s then Some (finish Aborted s)
                  else Some (s\<lparr>sm_starting := True, sm_call := Some (Spawn c)\<rparr>)
      | None \<Rightarrow> if sm_starting s then None
                else if auto \<and> sm_stop_requested s then Some (finish Aborted s)
                else Some (s\<lparr>sm_starting := True, sm_call := Some (Spawn c)\<rparr>))"

definition spawn_ok :: "'c \<Rightarrow> 'c manager \<Rightarrow> 'c manager" where
  "spawn_ok c s = s\<lparr>sm_live := insert (sm_next s) (sm_live s), sm_next := Suc (sm_next s), sm_call := Some (Install c (sm_next s))\<rparr>"

definition spawn_failed :: "'c manager \<Rightarrow> 'c manager" where
  "spawn_failed s = finish Failed (s\<lparr>sm_starting := False\<rparr>)"

definition install :: "'c \<Rightarrow> nat \<Rightarrow> 'c manager \<Rightarrow> 'c manager" where
  "install c k s = s\<lparr>sm_child := Some k, sm_config := Some c, sm_last_exit := None, sm_stopping := False, sm_starting := False, sm_call := Some (Persist k)\<rparr>"

definition persist :: "nat \<Rightarrow> 'c manager \<Rightarrow> 'c manager" where
  "persist k s = s\<lparr>sm_store := Some k, sm_call := Some (Watch k)\<rparr>"

definition begin_watch :: "nat \<Rightarrow> 'c manager \<Rightarrow> 'c manager" where
  "begin_watch k s = finish (Started k False) (s\<lparr>sm_monitors := (sm_monitors s)(k \<mapsto> Waiting)\<rparr>)"

section \<open>Stop, switch and shutdown\<close>

definition stop_done :: "'c after \<Rightarrow> 'c manager \<Rightarrow> 'c manager" where
  "stop_done a s =
     (case a of
        Plain \<Rightarrow> finish Done (s\<lparr>sm_quiet := True\<rparr>)
      | Then_start c \<Rightarrow> s\<lparr>sm_call := Some (Start_gate c False)\<rparr>
      | Shutting \<Rightarrow> finish Done (s\<lparr>sm_quiet := True\<rparr>))"

definition stop_failed :: "nat \<Rightarrow> 'c after \<Rightarrow> 'c manager \<Rightarrow> 'c manager" where
  "stop_failed k a s =
     finish Failed (s\<lparr>sm_stopping := (if sm_child s = Some k then False else sm_stopping s), sm_shutdown := (if a = Shutting then False else sm_shutdown s)\<rparr>)"

definition stop_gate :: "'c after \<Rightarrow> 'c manager \<Rightarrow> 'c manager option" where
  "stop_gate a s =
     (let s = s\<lparr>sm_stop_requested := True\<rparr>
      in if sm_starting s then None
         else case sm_child s of
           None \<Rightarrow> Some (stop_done a s)
         | Some k \<Rightarrow> Some (s\<lparr>sm_stopping := True, sm_call := Some (Prepare k a)\<rparr>))"

text \<open>The final receipt is durable before any signal is sent.\<close>

definition sealed :: "nat \<Rightarrow> 'c after \<Rightarrow> 'c manager \<Rightarrow> 'c manager" where
  "sealed k a s = s\<lparr>sm_durable := insert k (sm_durable s), sm_call := Some (Terminate k a)\<rparr>"

section \<open>The monitor\<close>

definition reap_look :: "nat \<Rightarrow> exit_info \<Rightarrow> 'c manager \<Rightarrow> 'c manager" where
  "reap_look k i s =
     (let was_stopping = sm_stopping s \<or> sm_stop_requested s
      in s\<lparr>sm_monitors := (sm_monitors s)(k \<mapsto> (if sm_child s = Some k then Seal i was_stopping else Forget i was_stopping))\<rparr>)"

text \<open>\<open>_persist_crash_accounting\<close>: nothing if the receipt is durable already; \<open>ok\<close> tells whether the outbox takes it.\<close>

definition reap_seal :: "bool \<Rightarrow> nat \<Rightarrow> exit_info \<Rightarrow> bool \<Rightarrow> 'c manager \<Rightarrow> 'c manager" where
  "reap_seal ok k i was_stopping s =
     (let s = s\<lparr>sm_monitors := (sm_monitors s)(k \<mapsto> Forget i was_stopping)\<rparr>
      in if k \<in> sm_durable s then s
         else if ok then s\<lparr>sm_durable := insert k (sm_durable s)\<rparr>
         else s\<lparr>sm_stop_requested := True, sm_unsealed := insert k (sm_unsealed s)\<rparr>)"

definition reap_forget :: "nat \<Rightarrow> exit_info \<Rightarrow> bool \<Rightarrow> 'c manager \<Rightarrow> 'c manager" where
  "reap_forget k i was_stopping s =
     (if sm_child s = Some k
      then s\<lparr>sm_child := None, sm_stopping := False, sm_last_exit := Some (if was_stopping then i\<lparr>ex_source := Stopped\<rparr> else i),
             sm_monitors := (sm_monitors s)(k \<mapsto> Clear was_stopping)\<rparr>
      else s\<lparr>sm_monitors := (sm_monitors s)(k \<mapsto> Wake was_stopping False)\<rparr>)"

definition reap_clear :: "nat \<Rightarrow> bool \<Rightarrow> 'c manager \<Rightarrow> 'c manager" where
  "reap_clear k was_stopping s = s\<lparr>sm_store := None, sm_monitors := (sm_monitors s)(k \<mapsto> Wake was_stopping True)\<rparr>"

definition reap_wake :: "nat \<Rightarrow> bool \<Rightarrow> bool \<Rightarrow> 'c manager \<Rightarrow> 'c manager" where
  "reap_wake k was_stopping is_current s =
     s\<lparr>sm_reaped := insert k (sm_reaped s), sm_monitors := (sm_monitors s)(k \<mapsto> Decide was_stopping is_current)\<rparr>"

text \<open>The restart thread starts the last configuration again.\<close>

definition reap_decide :: "nat \<Rightarrow> bool \<Rightarrow> bool \<Rightarrow> 'c manager \<Rightarrow> 'c manager" where
  "reap_decide k was_stopping is_current s =
     s\<lparr>sm_monitors := (sm_monitors s)(k := None),
       sm_restarts := (case sm_config s of
           Some c \<Rightarrow> if is_current \<and> \<not> was_stopping \<and> sm_auto_restart s \<and> \<not> sm_stop_requested s then sm_restarts s @ [c] else sm_restarts s
         | None \<Rightarrow> sm_restarts s)\<rparr>"

section \<open>All threads\<close>

datatype 'c request = Start 'c | Stop | Switch 'c | Shutdown

definition enter :: "'c request \<Rightarrow> 'c manager \<Rightarrow> 'c manager" where
  "enter r s =
     (case r of
        Start c \<Rightarrow> s\<lparr>sm_call := Some (Start_gate c False)\<rparr>
      | Stop \<Rightarrow> s\<lparr>sm_call := Some (Stop_gate Plain)\<rparr>
      | Switch c \<Rightarrow> s\<lparr>sm_call := Some (Stop_gate (Then_start c))\<rparr>
      | Shutdown \<Rightarrow> s\<lparr>sm_shutdown := True, sm_call := Some (Stop_gate Shutting)\<rparr>)"

text \<open>The next step of the thread that holds the lifecycle lock; \<open>ok\<close> is what the environment answers: the spawn, the write of
  the state file, the start of the tailer, the accounting, a signal succeeds, or the wait for \<open>reaped\<close> returns before its timeout. A wait that cannot return
  is no step.\<close>

fun proceed :: "bool \<Rightarrow> 'c pc \<Rightarrow> 'c manager \<Rightarrow> 'c manager option" where
  "proceed ok (Start_gate c auto) s = Some (start_gate c auto s)"
| "proceed ok (Start_loop c auto) s = start_loop c auto s"
| "proceed ok (Spawn c) s = Some (if ok then spawn_ok c s else spawn_failed s)"
| "proceed ok (Install c k) s = Some (install c k s)"
| "proceed ok (Persist k) s = Some (if ok then persist k s else finish Failed s)"
| "proceed ok (Watch k) s = Some (if ok then begin_watch k s else finish Failed s)"
| "proceed ok (Stop_gate a) s = stop_gate a s"
| "proceed ok (Prepare k a) s = Some (if ok then sealed k a s else stop_failed k a s)"
| "proceed ok (Terminate k a) s =
     Some (if k \<in> sm_reaped s then stop_done a s else if ok then s\<lparr>sm_call := Some (Await_term k a)\<rparr> else stop_failed k a s)"
| "proceed ok (Await_term k a) s =
     (if \<not> ok then Some (s\<lparr>sm_call := Some (Kill k a)\<rparr>) else if k \<in> sm_reaped s then Some (stop_done a s) else None)"
| "proceed ok (Kill k a) s = Some (if ok then s\<lparr>sm_call := Some (Await_kill k a)\<rparr> else stop_failed k a s)"
| "proceed ok (Await_kill k a) s =
     (if \<not> ok then Some (stop_failed k a s) else if k \<in> sm_reaped s then Some (stop_done a s) else None)"

text \<open>The next step of the monitor of \<open>k\<close>. Its \<open>wait\<close> returns when the process is gone, or wrongly when it fails.\<close>

fun sm_watch :: "nat \<Rightarrow> exit_info \<Rightarrow> bool \<Rightarrow> mon \<Rightarrow> 'c manager \<Rightarrow> 'c manager option" where
  "sm_watch k i ok Waiting s =
     (if k \<in> sm_live s \<and> ok then None
      else Some (s\<lparr>sm_monitors := (sm_monitors s)(k \<mapsto> Reap i),
                  sm_misreported := (if k \<in> sm_live s then insert k (sm_misreported s) else sm_misreported s)\<rparr>))"
| "sm_watch k i ok (Reap j) s = Some (reap_look k j s)"
| "sm_watch k i ok (Seal j w) s = Some (reap_seal ok k j w s)"
| "sm_watch k i ok (Forget j w) s = Some (reap_forget k j w s)"
| "sm_watch k i ok (Clear w) s = Some (reap_clear k w s)"
| "sm_watch k i ok (Wake w current) s = Some (reap_wake k w current s)"
| "sm_watch k i ok (Decide w current) s = Some (reap_decide k w current s)"

datatype 'c event = Call "'c request" | Restart nat | Proceed bool | Monitor nat exit_info bool | Exits nat

fun sm_act :: "'c event \<Rightarrow> 'c manager \<Rightarrow> 'c manager option" where
  "sm_act (Call r) s = (if sm_call s = None then Some (enter r s) else None)"
| "sm_act (Restart n) s =
     (if sm_call s = None \<and> n < length (sm_restarts s)
      then Some (s\<lparr>sm_restarts := take n (sm_restarts s) @ drop (Suc n) (sm_restarts s), sm_call := Some (Start_gate (sm_restarts s ! n) True)\<rparr>)
      else None)"
| "sm_act (Proceed ok) s = Option.bind (sm_call s) (\<lambda>pc. proceed ok pc s)"
| "sm_act (Monitor k i ok) s = Option.bind (sm_monitors s k) (\<lambda>m. sm_watch k i ok m s)"
| "sm_act (Exits k) s = Some (s\<lparr>sm_live := sm_live s - {k}\<rparr>)"

text \<open>A daemon that boots re-adopts the child of the state file if the check finds it running (\<open>alive\<close>), else clears the file;
  \<open>running\<close> is whether it does run.\<close>

definition fresh_manager :: "bool \<Rightarrow> 'c manager" where
  "fresh_manager auto_restart =
     \<lparr>sm_child = None, sm_config = None, sm_last_exit = None, sm_stopping = False, sm_starting = False, sm_stop_requested = False,
      sm_shutdown = False, sm_auto_restart = auto_restart, sm_durable = {}, sm_store = None, sm_reaped = {}, sm_call = None,
      sm_monitors = (\<lambda>_. None), sm_restarts = [], sm_live = {}, sm_next = 0, sm_result = None, sm_quiet = False, sm_unsealed = {}, sm_misreported = {}\<rparr>"

definition readopt :: "(nat \<times> 'c) option \<Rightarrow> bool \<Rightarrow> bool \<Rightarrow> 'c manager \<Rightarrow> 'c manager" where
  "readopt stored alive running s =
     (case stored of
        None \<Rightarrow> s
      | Some (k, c) \<Rightarrow>
          (let s = s\<lparr>sm_next := Suc k, sm_live := (if running then {k} else {})\<rparr>
           in if alive
              then s\<lparr>sm_child := Some k, sm_config := Some c, sm_last_exit := None, sm_stopping := False, sm_store := Some k,
                     sm_monitors := (sm_monitors s)(k \<mapsto> Waiting)\<rparr>
              else s\<lparr>sm_store := None, sm_misreported := (if running then {k} else {})\<rparr>))"

fun sm_run :: "'c event list \<Rightarrow> 'c manager \<Rightarrow> 'c manager option" where
  "sm_run [] s = Some s"
| "sm_run (e # es) s = Option.bind (sm_act e s) (sm_run es)"

inductive sm_reach :: "'c manager \<Rightarrow> bool" where
  boot: "sm_reach (readopt stored alive running (fresh_manager auto_restart))"
| act: "sm_reach s \<Longrightarrow> sm_act e s = Some s' \<Longrightarrow> sm_reach s'"

lemma sm_reach_run: "sm_reach s \<Longrightarrow> sm_run es s = Some s' \<Longrightarrow> sm_reach s'"
  by (induction es arbitrary: s) (auto simp: bind_eq_Some_conv intro: sm_reach.act)

section \<open>The invariant\<close>

fun early :: "mon \<Rightarrow> bool" where
  "early Waiting = True" | "early (Reap i) = True" | "early (Seal i w) = True" | "early (Forget i w) = True"
| "early (Clear w) = False" | "early (Wake w c) = False" | "early (Decide w c) = False"

fun accounted :: "mon \<Rightarrow> bool" where
  "accounted Waiting = False" | "accounted (Reap i) = False" | "accounted (Seal i w) = False" | "accounted (Forget i w) = True"
| "accounted (Clear w) = True" | "accounted (Wake w c) = True" | "accounted (Decide w c) = True"

text \<open>What the holder of the lifecycle lock may rely on, at every point of its calls.\<close>

definition unwatched :: "nat \<Rightarrow> 'c manager \<Rightarrow> bool" where
  "unwatched k s \<longleftrightarrow> k < sm_next s \<and> sm_monitors s k = None \<and> k \<notin> sm_reaped s"

definition halting :: "nat \<Rightarrow> 'c after \<Rightarrow> 'c manager \<Rightarrow> bool" where
  "halting k a s \<longleftrightarrow> sm_stop_requested s \<and> (a = Shutting \<longrightarrow> sm_shutdown s) \<and> \<not> sm_starting s \<and> \<not> sm_quiet s \<and> sm_child s \<in> {None, Some k} \<and> (sm_stopping s \<longrightarrow> sm_child s = Some k)"

fun call_ok :: "'c pc option \<Rightarrow> 'c manager \<Rightarrow> bool" where
  "call_ok None s = (\<not> sm_stopping s \<and> \<not> sm_starting s)"
| "call_ok (Some (Start_gate c auto)) s = (\<not> sm_stopping s \<and> \<not> sm_starting s)"
| "call_ok (Some (Start_loop c auto)) s = (\<not> sm_stopping s \<and> \<not> sm_starting s \<and> (sm_quiet s \<longrightarrow> auto))"
| "call_ok (Some (Spawn c)) s = (\<not> sm_stopping s \<and> sm_starting s \<and> sm_child s = None \<and> \<not> sm_quiet s)"
| "call_ok (Some (Install c k)) s = (\<not> sm_stopping s \<and> sm_starting s \<and> sm_child s = None \<and> \<not> sm_quiet s \<and> unwatched k s)"
| "call_ok (Some (Persist k)) s = (\<not> sm_stopping s \<and> \<not> sm_starting s \<and> sm_child s = Some k \<and> unwatched k s)"
| "call_ok (Some (Watch k)) s = (\<not> sm_stopping s \<and> \<not> sm_starting s \<and> sm_child s = Some k \<and> unwatched k s)"
| "call_ok (Some (Stop_gate a)) s = (\<not> sm_stopping s \<and> \<not> sm_starting s \<and> (a = Shutting \<longrightarrow> sm_shutdown s))"
| "call_ok (Some (Prepare k a)) s = halting k a s"
| "call_ok (Some (Terminate k a)) s = halting k a s"
| "call_ok (Some (Await_term k a)) s = halting k a s"
| "call_ok (Some (Kill k a)) s = halting k a s"
| "call_ok (Some (Await_kill k a)) s = halting k a s"

fun unregistered :: "'c pc option \<Rightarrow> nat set" where
  "unregistered (Some (Install c k)) = {k}"
| "unregistered _ = {}"

definition monitor_ok :: "nat \<Rightarrow> mon \<Rightarrow> 'c manager \<Rightarrow> bool" where
  "monitor_ok k m s \<longleftrightarrow> k < sm_next s \<and> (early m \<longleftrightarrow> sm_child s = Some k) \<and> (m \<noteq> Waiting \<longrightarrow> k \<notin> sm_live s - sm_misreported s) \<and>
     (accounted m \<longrightarrow> k \<in> sm_durable s \<union> sm_unsealed s)"

definition ghosts_ok :: "'c manager \<Rightarrow> bool" where
  "ghosts_ok s \<longleftrightarrow> (sm_quiet s \<longrightarrow> sm_stop_requested s \<and> sm_child s = None)"

definition sm_inv :: "'c manager \<Rightarrow> bool" where
  "sm_inv s \<longleftrightarrow> call_ok (sm_call s) s \<and> (\<forall>k m. sm_monitors s k = Some m \<longrightarrow> monitor_ok k m s) \<and>
     (\<forall>k \<in> sm_reaped s. k < sm_next s \<and> sm_child s \<noteq> Some k \<and> k \<in> sm_durable s \<union> sm_unsealed s) \<and>
     (\<forall>k. sm_child s = Some k \<longrightarrow> k < sm_next s) \<and>
     sm_live s - sm_misreported s \<subseteq> set_option (sm_child s) \<union> unregistered (sm_call s) \<and> ghosts_ok s"

lemmas sm_inv_defs = sm_inv_def ghosts_ok_def monitor_ok_def halting_def unwatched_def finish_def
lemmas start_defs = start_gate_def start_loop_def spawn_ok_def spawn_failed_def install_def persist_def begin_watch_def
lemmas stop_defs = stop_gate_def stop_done_def stop_failed_def sealed_def
lemmas reap_defs = reap_look_def reap_seal_def reap_forget_def reap_clear_def reap_wake_def reap_decide_def Let_def

lemma sm_invD:
  assumes "sm_inv s"
  shows "call_ok (sm_call s) s" "sm_monitors s k = Some m \<Longrightarrow> monitor_ok k m s"
    "k \<in> sm_reaped s \<Longrightarrow> k < sm_next s \<and> sm_child s \<noteq> Some k \<and> k \<in> sm_durable s \<union> sm_unsealed s"
    "sm_child s = Some k \<Longrightarrow> k < sm_next s" "sm_live s - sm_misreported s \<subseteq> set_option (sm_child s) \<union> unregistered (sm_call s)" "ghosts_ok s"
  using assms by (auto simp: sm_inv_def)

lemma sm_inv_boot: "sm_inv (readopt stored alive running (fresh_manager auto_restart))"
  by (auto simp: sm_inv_defs readopt_def fresh_manager_def Let_def split: option.split if_splits)

text \<open>Most steps of a call leave processes, monitors and the current child alone.\<close>

lemma sm_inv_frame:
  assumes "sm_inv s" "sm_child s' = sm_child s" "sm_monitors s' = sm_monitors s" "sm_live s' = sm_live s" "sm_next s' = sm_next s"
    "sm_reaped s' = sm_reaped s" "sm_durable s \<subseteq> sm_durable s'" "sm_unsealed s' = sm_unsealed s" "sm_misreported s' = sm_misreported s"
    and "unregistered (sm_call s) = {}" "call_ok (sm_call s') s'" "ghosts_ok s'"
  shows "sm_inv s'"
proof -
  have "monitor_ok k m s'" if "sm_monitors s' k = Some m" for k m
    using sm_invD(2)[OF assms(1), of k m] that assms(2-9) by (auto simp: monitor_ok_def)
  moreover have "k < sm_next s' \<and> sm_child s' \<noteq> Some k \<and> k \<in> sm_durable s' \<union> sm_unsealed s'" if "k \<in> sm_reaped s'" for k
    using sm_invD(3)[OF assms(1), of k] that assms(2-9) by auto
  moreover have "k < sm_next s'" if "sm_child s' = Some k" for k
    using sm_invD(4)[OF assms(1), of k] that assms(2,5) by simp
  moreover have "sm_live s' - sm_misreported s' \<subseteq> set_option (sm_child s') \<union> unregistered (sm_call s')"
    using sm_invD(5)[OF assms(1)] assms(2,4,9,10) by auto
  ultimately show ?thesis
    using assms(11,12) unfolding sm_inv_def by blast
qed

lemma sm_inv_enter: "sm_inv s \<Longrightarrow> sm_call s = None \<Longrightarrow> sm_inv (enter r s)"
  by (frule sm_invD(1), frule sm_invD(6), cases r; erule sm_inv_frame; simp add: enter_def ghosts_ok_def)

lemma sm_inv_start_gate: "sm_inv s \<Longrightarrow> sm_call s = Some (Start_gate c auto) \<Longrightarrow> sm_inv (start_gate c auto s)"
  by (frule sm_invD(1), frule sm_invD(6), erule sm_inv_frame) (auto simp: start_gate_def finish_def ghosts_ok_def)

lemma sm_inv_start_loop: "sm_inv s \<Longrightarrow> sm_call s = Some (Start_loop c auto) \<Longrightarrow> start_loop c auto s = Some s' \<Longrightarrow> sm_inv s'"
  by (frule sm_invD(1), frule sm_invD(6), erule sm_inv_frame)
    (auto simp: start_loop_def finish_def ghosts_ok_def split: option.splits if_splits)

lemma sm_inv_stop_done:
  assumes "sm_inv s" "sm_call s = Some pc" "\<not> sm_stopping s" "\<not> sm_starting s" "sm_child s = None" "sm_stop_requested s"
    and "unregistered (sm_call s) = {}" "a = Shutting \<longrightarrow> sm_shutdown s"
  shows "sm_inv (stop_done a s)"
  using sm_invD(6)[OF assms(1)] assms(2-8)
  by (cases a; intro sm_inv_frame[OF assms(1)]; auto simp: stop_done_def finish_def ghosts_ok_def)

lemma sm_inv_stop_gate:
  assumes "sm_inv s" "sm_call s = Some (Stop_gate a)" "stop_gate a s = Some s'"
  shows "sm_inv s'"
proof (cases "sm_child s")
  case None
  let ?s = "s\<lparr>sm_stop_requested := True\<rparr>"
  have "sm_inv ?s"
    using sm_invD(1,6)[OF assms(1)] assms(2) by (intro sm_inv_frame[OF assms(1)]) (auto simp: ghosts_ok_def)
  then have "sm_inv (stop_done a ?s)"
    using sm_invD(1)[OF assms(1)] assms(2) None by (intro sm_inv_stop_done) auto
  then show ?thesis
    using assms None by (simp add: stop_gate_def Let_def split: if_splits)
next
  case (Some k)
  then have "s' = s\<lparr>sm_stop_requested := True, sm_stopping := True, sm_call := Some (Prepare k a)\<rparr>"
    using assms(3) by (simp add: stop_gate_def Let_def split: if_splits)
  then show ?thesis
    using sm_invD(1,6)[OF assms(1)] assms(2) Some
    by (intro sm_inv_frame[OF assms(1)]; simp add: ghosts_ok_def halting_def; blast)
qed

lemma sm_inv_stop_failed:
  assumes "sm_inv s" "sm_call s = Some pc" "unregistered (sm_call s) = {}" "halting k a s"
  shows "sm_inv (stop_failed k a s)"
  using sm_invD(6)[OF assms(1)] assms(2-4)
  by (intro sm_inv_frame[OF assms(1)]; auto simp: stop_failed_def finish_def ghosts_ok_def halting_def)

lemma sm_inv_stopped:
  assumes "sm_inv s" "sm_call s = Some pc" "unregistered (sm_call s) = {}" "halting k a s" "k \<in> sm_reaped s"
  shows "sm_inv (stop_done a s)"
  using sm_invD(3)[OF assms(1,5)] assms
  by (intro sm_inv_stop_done[OF assms(1,2)]) (auto simp: halting_def)

lemma sm_inv_halting:
  assumes "sm_inv s" "unregistered (sm_call s) = {}" "halting k a s" "sm_durable s \<subseteq> D"
    and "pc \<in> {Terminate k a, Await_term k a, Kill k a, Await_kill k a}"
  shows "sm_inv (s\<lparr>sm_durable := D, sm_call := Some pc\<rparr>)"
  using sm_invD(6)[OF assms(1)] assms(2-5)
  by (intro sm_inv_frame[OF assms(1)]; auto simp: ghosts_ok_def halting_def)

lemma sm_inv_spawn:
  assumes "sm_inv s" "sm_call s = Some (Spawn c)"
  shows "sm_inv (spawn_ok c s)"
proof -
  have call: "\<not> sm_stopping s" "sm_starting s" "sm_child s = None" "\<not> sm_quiet s" and live: "sm_live s - sm_misreported s = {}"
    using sm_invD(1,5)[OF assms(1)] assms(2) by auto
  have "monitor_ok k m (spawn_ok c s)" if "sm_monitors (spawn_ok c s) k = Some m" for k m
    using sm_invD(2)[OF assms(1), of k m] that live by (auto simp: monitor_ok_def spawn_ok_def)
  moreover have "sm_monitors s (sm_next s) = None"
    using sm_invD(2)[OF assms(1), of "sm_next s"] by (cases "sm_monitors s (sm_next s)") (auto simp: monitor_ok_def)
  moreover have "sm_next s \<notin> sm_reaped s"
    using sm_invD(3)[OF assms(1), of "sm_next s"] by blast
  ultimately show ?thesis
    using call live sm_invD(3,6)[OF assms(1)] unfolding sm_inv_def
    by (auto simp: spawn_ok_def unwatched_def ghosts_ok_def less_Suc_eq)
qed

lemma sm_inv_install:
  assumes "sm_inv s" "sm_call s = Some (Install c k)"
  shows "sm_inv (install c k s)"
proof -
  have call: "\<not> sm_stopping s" "sm_starting s" "sm_child s = None" "\<not> sm_quiet s" "unwatched k s" and live: "sm_live s - sm_misreported s \<subseteq> {k}"
    using sm_invD(1,5)[OF assms(1)] assms(2) by auto
  have "monitor_ok j m (install c k s)" if "sm_monitors (install c k s) j = Some m" for j m
    using sm_invD(2)[OF assms(1), of j m] that call by (auto simp: monitor_ok_def install_def unwatched_def)
  then show ?thesis
    using call live sm_invD(3,6)[OF assms(1)] unfolding sm_inv_def
    by (auto simp: install_def unwatched_def ghosts_ok_def)
qed

lemma sm_inv_watched:
  assumes "sm_inv s" "sm_call s = Some (Watch k)"
  shows "sm_inv (begin_watch k s)"
proof -
  have call: "\<not> sm_stopping s" "\<not> sm_starting s" "sm_child s = Some k" "unwatched k s" and live: "sm_live s - sm_misreported s \<subseteq> {k}"
    using sm_invD(1,5)[OF assms(1)] assms(2) by auto
  have "monitor_ok j m (begin_watch k s)" if "sm_monitors (begin_watch k s) j = Some m" for j m
    using sm_invD(2)[OF assms(1), of j m] that call
    by (auto simp: monitor_ok_def begin_watch_def finish_def unwatched_def split: if_splits)
  then show ?thesis
    using call live sm_invD(3,6)[OF assms(1)] unfolding sm_inv_def
    by (auto simp: begin_watch_def finish_def unwatched_def ghosts_ok_def)
qed

lemma sm_inv_unlocked:
  assumes "sm_inv s" "sm_call s = Some (Spawn c) \<or> sm_call s = Some (Persist k) \<or> sm_call s = Some (Watch k)"
  shows "sm_inv (finish r (s\<lparr>sm_starting := False\<rparr>))" "sm_call s = Some (Persist k) \<Longrightarrow> sm_inv (persist k s)"
  using sm_invD(1,6)[OF assms(1)] assms(2)
  by (auto simp: ghosts_ok_def finish_def persist_def unwatched_def intro!: sm_inv_frame[OF assms(1)])

lemma sm_inv_proceed:
  assumes "sm_inv s" "sm_call s = Some pc" "proceed ok pc s = Some s'"
  shows "sm_inv s'"
proof -
  have halt: "sm_inv (s\<lparr>sm_call := Some q\<rparr>)" if "halting k a s" "unregistered (sm_call s) = {}" "q \<in> {Await_term k a, Kill k a, Await_kill k a}" for k a q
    using sm_inv_halting[OF assms(1) that(2,1), of "sm_durable s" q] that(3) by auto
  note step = assms(2,3) sm_invD(1)[OF assms(1)] sm_inv_start_gate[OF assms(1)] sm_inv_start_loop[OF assms(1)] sm_inv_spawn[OF assms(1)]
    sm_inv_install[OF assms(1)] sm_inv_watched[OF assms(1)] sm_inv_stop_gate[OF assms(1)] halt
    sm_inv_stop_failed[OF assms(1,2)] sm_inv_stopped[OF assms(1,2)]
  show ?thesis
  proof (cases pc)
    case (Spawn c)
    then show ?thesis
      using assms(2,3) sm_inv_spawn[OF assms(1)] sm_inv_unlocked(1)[OF assms(1), of c 0 Failed] by (auto simp: spawn_failed_def split: if_splits)
  next
    case (Persist k)
    then have "\<not> sm_starting s"
      using sm_invD(1)[OF assms(1)] assms(2) by simp
    then have same: "s\<lparr>sm_starting := False\<rparr> = s"
      by simp
    have "sm_inv (finish Failed s)"
      using sm_inv_unlocked(1)[OF assms(1), of undefined k Failed] Persist assms(2) unfolding same by blast
    then show ?thesis
      using Persist assms(2,3) sm_inv_unlocked(2)[OF assms(1), of undefined k] by (simp split: if_splits)
  next
    case (Watch k)
    then have same: "s\<lparr>sm_starting := False\<rparr> = s"
      using sm_invD(1)[OF assms(1)] assms(2) by simp
    have "sm_inv (finish Failed s)"
      using sm_inv_unlocked(1)[OF assms(1), of undefined k Failed] Watch assms(2) unfolding same by blast
    then show ?thesis
      using Watch assms(2,3) sm_inv_watched[OF assms(1)] by (simp split: if_splits)
  next
    case (Prepare k a)
    then show ?thesis
      using step sm_inv_halting[OF assms(1), of k a "insert k (sm_durable s)" "Terminate k a"] by (auto simp: sealed_def split: if_splits)
  next
    case (Terminate k a)
    then show ?thesis
      using step by (auto split: if_splits)
  next
    case (Await_term k a)
    then show ?thesis
      using step by (auto split: if_splits)
  next
    case (Kill k a)
    then show ?thesis
      using step by (auto split: if_splits)
  next
    case (Await_kill k a)
    then show ?thesis
      using step by (auto split: if_splits)
  qed (use step in auto)
qed

text \<open>A step of the monitor of \<open>k\<close>: nothing but its own state and the receipts changes.\<close>

lemma sm_inv_monitor:
  assumes "sm_inv s" "sm_child s' = sm_child s" "sm_monitors s' = (sm_monitors s)(k := x)" "sm_live s' = sm_live s"
    "sm_next s' = sm_next s" "sm_reaped s' \<subseteq> insert k (sm_reaped s)" "sm_durable s \<subseteq> sm_durable s'" "sm_unsealed s \<subseteq> sm_unsealed s'"
    "sm_call s' = sm_call s"
    and "sm_monitors s k = Some m" "\<forall>m. x = Some m \<longrightarrow> monitor_ok k m s'" "k \<in> sm_reaped s' \<longrightarrow> accounted m \<and> \<not> early m \<or> k \<in> sm_reaped s"
    and "sm_misreported s \<subseteq> sm_misreported s'" "sm_stopping s' = sm_stopping s" "sm_starting s' = sm_starting s" "sm_quiet s' = sm_quiet s" "sm_shutdown s' = sm_shutdown s" "sm_stop_requested s \<longrightarrow> sm_stop_requested s'"
  shows "sm_inv s'"
proof -
  have mine: "monitor_ok k m s"
    by (rule sm_invD(2)[OF assms(1,10)])
  have "monitor_ok j n s'" if "sm_monitors s' j = Some n" for j n
    using sm_invD(2)[OF assms(1), of j n] that assms(2-8,11,13) by (auto simp: monitor_ok_def split: if_splits)
  moreover have "j < sm_next s' \<and> sm_child s' \<noteq> Some j \<and> j \<in> sm_durable s' \<union> sm_unsealed s'" if "j \<in> sm_reaped s'" for j
    using sm_invD(3)[OF assms(1), of j] mine that assms(2-8,12) by (auto simp: monitor_ok_def)
  moreover have "j < sm_next s'" if "sm_child s' = Some j" for j
    using sm_invD(4)[OF assms(1), of j] that assms(2,5) by simp
  moreover have "sm_live s' - sm_misreported s' \<subseteq> set_option (sm_child s') \<union> unregistered (sm_call s')"
    using sm_invD(5)[OF assms(1)] assms(2,4,9,13) by auto
  moreover have "call_ok (sm_call s') s'"
    using sm_invD(1)[OF assms(1)] assms(2-18) mine
    by (cases "(sm_call s, s)" rule: call_ok.cases) (auto simp: halting_def unwatched_def)
  moreover have "ghosts_ok s'"
    using sm_invD(6)[OF assms(1)] assms(2,14-18) by (auto simp: ghosts_ok_def)
  ultimately show ?thesis
    unfolding sm_inv_def by blast
qed

lemma sm_inv_forget:
  assumes "sm_inv s" "sm_monitors s k = Some (Forget i w)"
  shows "sm_inv (reap_forget k i w s)"
proof -
  have mine: "k < sm_next s" "sm_child s = Some k" "k \<notin> sm_live s - sm_misreported s" "k \<in> sm_durable s \<union> sm_unsealed s"
    using sm_invD(2)[OF assms] by (auto simp: monitor_ok_def)
  let ?s = "reap_forget k i w s"
  have "monitor_ok j m ?s" if "sm_monitors ?s j = Some m" for j m
    using sm_invD(2)[OF assms(1), of j m] that mine by (auto simp: monitor_ok_def reap_forget_def split: if_splits)
  moreover have "call_ok (sm_call ?s) ?s"
    using sm_invD(1)[OF assms(1)] mine assms(2)
    by (cases "(sm_call s, s)" rule: call_ok.cases) (auto simp: halting_def unwatched_def reap_forget_def)
  ultimately show ?thesis
    using mine sm_invD(3,5,6)[OF assms(1)] unfolding sm_inv_def by (auto simp: reap_forget_def ghosts_ok_def)
qed

lemma reap_seal_shape:
  "\<exists>D U b. reap_seal ok k i w s = s\<lparr>sm_monitors := (sm_monitors s)(k \<mapsto> Forget i w), sm_durable := D, sm_unsealed := U, sm_stop_requested := b\<rparr> \<and>
     sm_durable s \<subseteq> D \<and> sm_unsealed s \<subseteq> U \<and> k \<in> D \<union> U \<and> (sm_stop_requested s \<longrightarrow> b)"
  by (rule exI[of _ "if k \<in> sm_durable s \<or> ok then insert k (sm_durable s) else sm_durable s"],
      rule exI[of _ "if k \<in> sm_durable s \<or> ok then sm_unsealed s else insert k (sm_unsealed s)"],
      rule exI[of _ "sm_stop_requested s \<or> k \<notin> sm_durable s \<and> \<not> ok"])
    (auto simp: reap_seal_def Let_def insert_absorb)

lemma sm_inv_watch:
  assumes "sm_inv s" "sm_monitors s k = Some m" "sm_watch k i ok m s = Some s'"
  shows "sm_inv s'"
proof (cases m)
  case (Forget j w)
  then show ?thesis
    using sm_inv_forget[OF assms(1), of k j w] assms(2,3) by simp
next
  case Waiting
  then show ?thesis
    using assms(2,3) sm_invD(2)[OF assms(1,2)]
    by (intro sm_inv_monitor[OF assms(1) _ _ _ _ _ _ _ _ assms(2), of s' "Some (Reap i)"]) (auto simp: monitor_ok_def split: if_splits)
next
  case (Reap j)
  then show ?thesis
    using assms(2,3) sm_invD(2)[OF assms(1,2)]
    by (intro sm_inv_monitor[OF assms(1) _ _ _ _ _ _ _ _ assms(2), of s' "sm_monitors s' k"]) (auto simp: monitor_ok_def reap_defs)
next
  case (Seal j w)
  obtain D U b where s': "s' = s\<lparr>sm_monitors := (sm_monitors s)(k \<mapsto> Forget j w), sm_durable := D, sm_unsealed := U, sm_stop_requested := b\<rparr>"
      and grown: "sm_durable s \<subseteq> D" "sm_unsealed s \<subseteq> U" "k \<in> D \<union> U" "sm_stop_requested s \<longrightarrow> b"
    using reap_seal_shape[of ok k j w s] assms(3) Seal by (metis option.inject sm_watch.simps(3))
  then show ?thesis
    using assms(2) sm_invD(2)[OF assms(1,2)] Seal
    by (intro sm_inv_monitor[OF assms(1) _ _ _ _ _ _ _ _ assms(2), of s' "Some (Forget j w)"]) (auto simp: monitor_ok_def s')
next
  case (Clear w)
  then show ?thesis
    using assms(2,3) sm_invD(2)[OF assms(1,2)]
    by (intro sm_inv_monitor[OF assms(1) _ _ _ _ _ _ _ _ assms(2), of s' "sm_monitors s' k"]) (auto simp: monitor_ok_def reap_defs)
next
  case (Wake w c)
  then show ?thesis
    using assms(2,3) sm_invD(2)[OF assms(1,2)]
    by (intro sm_inv_monitor[OF assms(1) _ _ _ _ _ _ _ _ assms(2), of s' "sm_monitors s' k"]) (auto simp: monitor_ok_def reap_defs)
next
  case (Decide w c)
  then show ?thesis
    using assms(2,3) sm_invD(2)[OF assms(1,2)]
    by (intro sm_inv_monitor[OF assms(1) _ _ _ _ _ _ _ _ assms(2), of s' None]) (auto simp: monitor_ok_def reap_defs)
qed

lemma sm_inv_exits:
  assumes "sm_inv s"
  shows "sm_inv (s\<lparr>sm_live := sm_live s - {k}\<rparr>)"
proof -
  have "call_ok (sm_call s) (s\<lparr>sm_live := sm_live s - {k}\<rparr>)"
    using sm_invD(1)[OF assms] by (cases "(sm_call s, s)" rule: call_ok.cases) (auto simp: halting_def unwatched_def)
  then show ?thesis
    using assms by (auto simp: sm_inv_def monitor_ok_def ghosts_ok_def)
qed

lemma sm_inv_restart: "sm_inv s \<Longrightarrow> sm_call s = None \<Longrightarrow> sm_inv (s\<lparr>sm_restarts := rs, sm_call := Some (Start_gate c True)\<rparr>)"
  by (frule sm_invD(1), frule sm_invD(6), erule sm_inv_frame) (auto simp: ghosts_ok_def)

lemma sm_inv_act:
  assumes "sm_inv s" "sm_act e s = Some s'"
  shows "sm_inv s'"
  using assms sm_inv_enter[OF assms(1)] sm_inv_restart[OF assms(1)] sm_inv_proceed[OF assms(1)] sm_inv_watch[OF assms(1)] sm_inv_exits[OF assms(1)]
  by (cases e) (auto simp: bind_eq_Some_conv split: if_splits)

lemma sm_reach_inv: "sm_reach s \<Longrightarrow> sm_inv s"
  by (induction rule: sm_reach.induct) (auto intro: sm_inv_boot sm_inv_act)

section \<open>A stop that succeeds is final\<close>

fun call_rank :: "'c pc option \<Rightarrow> nat" where
  "call_rank None = 0"
| "call_rank (Some (Watch k)) = 1" | "call_rank (Some (Persist k)) = 2" | "call_rank (Some (Install c k)) = 3"
| "call_rank (Some (Spawn c)) = 4" | "call_rank (Some (Start_loop c auto)) = 5" | "call_rank (Some (Start_gate c auto)) = 6"
| "call_rank (Some (Await_kill k a)) = 7" | "call_rank (Some (Kill k a)) = 8" | "call_rank (Some (Await_term k a)) = 9"
| "call_rank (Some (Terminate k a)) = 10" | "call_rank (Some (Prepare k a)) = 11" | "call_rank (Some (Stop_gate a)) = 12"

lemma call_rank_stop_done: "7 \<le> n \<Longrightarrow> call_rank (sm_call (stop_done a s)) < n"
  by (cases a) (auto simp: stop_done_def finish_def)

lemma call_rank_proceed: "sm_call s = Some pc \<Longrightarrow> proceed ok pc s = Some s' \<Longrightarrow> call_rank (sm_call s') < call_rank (Some pc)"
  by (cases pc) (auto simp: call_rank_stop_done start_defs stop_gate_def stop_failed_def sealed_def finish_def Let_def
      split: option.splits if_splits)

text \<open>The waits for a spawn in flight never block: the lifecycle lock is held during a spawn.\<close>

lemma never_blocked: "sm_inv s \<Longrightarrow> sm_call s = Some pc \<Longrightarrow> \<exists>s'. proceed False pc s = Some s'"
  by (drule sm_invD(1), cases pc) (auto simp: start_loop_def stop_gate_def Let_def split: option.split)

definition at_rest :: "'c manager \<Rightarrow> bool" where
  "at_rest s \<longleftrightarrow> sm_quiet s \<and> (sm_shutdown s \<or> (\<forall>c. sm_call s \<noteq> Some (Start_gate c False) \<and> sm_call s \<noteq> Some (Stop_gate (Then_start c))))"

fun admits :: "'c event \<Rightarrow> bool" where
  "admits (Call (Start c)) = True" | "admits (Call (Switch c)) = True" | "admits e = False"

lemma at_rest_proceed:
  assumes "sm_inv s" "at_rest s" "sm_call s = Some pc" "proceed ok pc s = Some s'"
  shows "at_rest s' \<and> (sm_shutdown s \<longrightarrow> sm_shutdown s') \<and> sm_live s' \<subseteq> sm_live s"
  using assms(2-4) sm_invD(1,6)[OF assms(1)]
  by (cases pc) (auto simp: at_rest_def ghosts_ok_def halting_def start_gate_def start_loop_def stop_gate_def stop_done_def persist_def begin_watch_def
        install_def finish_def Let_def
      split: after.splits if_splits)

lemma at_rest_watch: "at_rest s \<Longrightarrow> sm_watch k i ok m s = Some s' \<Longrightarrow> at_rest s' \<and> (sm_shutdown s \<longrightarrow> sm_shutdown s') \<and> sm_live s' \<subseteq> sm_live s"
  by (cases m) (auto simp: at_rest_def reap_defs split: if_splits)

lemma at_rest_act:
  assumes "sm_inv s" "at_rest s" "sm_act e s = Some s'" "sm_shutdown s \<or> \<not> admits e"
  shows "at_rest s' \<and> (sm_shutdown s \<longrightarrow> sm_shutdown s') \<and> sm_live s' \<subseteq> sm_live s"
proof (cases e)
  case (Call r)
  then show ?thesis
    using assms(2-4) by (cases r) (auto simp: at_rest_def enter_def split: if_splits)
next
  case (Restart n)
  then show ?thesis
    using assms(2,3) by (auto simp: at_rest_def split: if_splits)
next
  case (Proceed ok)
  then show ?thesis
    using at_rest_proceed[OF assms(1,2)] assms(3) by (auto simp: bind_eq_Some_conv)
next
  case (Monitor k i ok)
  then obtain m where "sm_watch k i ok m s = Some s'"
    using assms(3) by (auto simp: bind_eq_Some_conv)
  then show ?thesis
    by (rule at_rest_watch[OF assms(2)])
next
  case (Exits k)
  then show ?thesis
    using assms(2,3) by (auto simp: at_rest_def)
qed

lemma at_rest_run:
  "sm_inv s \<Longrightarrow> at_rest s \<Longrightarrow> sm_run es s = Some s' \<Longrightarrow> sm_shutdown s \<or> (\<forall>e \<in> set es. \<not> admits e) \<Longrightarrow> at_rest s' \<and> sm_inv s' \<and> sm_live s' \<subseteq> sm_live s"
proof (induction es arbitrary: s)
  case (Cons e es)
  obtain t where "sm_act e s = Some t" "sm_run es t = Some s'"
    using Cons.prems(3) by (auto simp: bind_eq_Some_conv)
  then show ?case
    using Cons.IH[of t] at_rest_act[OF Cons.prems(1,2)] sm_inv_act[OF Cons.prems(1)] Cons.prems(4) by fastforce
qed simp

lemma at_rest_empty: "sm_inv s \<Longrightarrow> at_rest s \<Longrightarrow> sm_child s = None \<and> sm_live s \<subseteq> sm_misreported s"
  using sm_invD(1,5,6)[of s] by (cases "(sm_call s, s)" rule: call_ok.cases) (auto simp: at_rest_def ghosts_ok_def)

text \<open>A call that ends with \<open>Done\<close> is a stop or a shutdown that succeeded.\<close>

lemma done_at_rest:
  assumes "sm_inv s" "sm_act (Proceed ok) s = Some t" "sm_call t = None" "sm_result t = Some Done"
  shows "at_rest t"
proof -
  obtain pc where "sm_call s = Some pc" "proceed ok pc s = Some t"
    using assms(2) by (auto simp: bind_eq_Some_conv)
  then show ?thesis
    using assms(3,4) by (cases pc) (auto simp: at_rest_def start_defs stop_defs finish_def Let_def
        split: after.splits option.splits if_splits)
qed

section \<open>What the manager promises\<close>

text \<open>An exit is misreported only by a monitor whose wait fails while its child runs.\<close>

lemma misreported_by_monitor:
  "sm_act e s = Some s' \<Longrightarrow> sm_misreported s' \<noteq> sm_misreported s \<Longrightarrow>
    \<exists>k i. e = Monitor k i False \<and> sm_monitors s k = Some Waiting \<and> k \<in> sm_live s \<and> sm_misreported s' = insert k (sm_misreported s)"
proof (induction e s rule: sm_act.induct)
  case (1 r s)
  then show ?case by (cases r) (auto simp: enter_def split: if_splits)
next
  case (3 ok s)
  then obtain pc where "sm_call s = Some pc" "proceed ok pc s = Some s'" by (auto simp: bind_eq_Some_conv)
  then show ?case using 3(2) by (cases pc) (auto simp: start_defs stop_defs finish_def Let_def split: option.splits after.splits if_splits)
next
  case (4 k i ok s)
  then obtain m where "sm_monitors s k = Some m" "sm_watch k i ok m s = Some s'" by (auto simp: bind_eq_Some_conv)
  then show ?case using 4(2) by (cases m) (auto simp: reap_defs split: if_splits)
qed (auto split: if_splits)

text \<open>C17: the daemon never runs two serves, as far as it is told the truth about exits. Whatever clients, crash monitors and
  automatic restarts do, and whichever spawns, signals, receipts, file writes and waits fail, at most one serve process is
  alive besides those whose exit was reported while they ran, and it is the one the manager calls its child or the one a
  \<open>start\<close> that still holds the lifecycle lock has just spawned and is about to register.\<close>

theorem one_serve:
  assumes "sm_reach s"
  shows "card (sm_live s - sm_misreported s) \<le> 1 \<and>
    (\<forall>k \<in> sm_live s - sm_misreported s. sm_child s = Some k \<or> (\<exists>c. sm_call s = Some (Install c k)))"
proof -
  have live: "sm_live s - sm_misreported s \<subseteq> set_option (sm_child s) \<union> unregistered (sm_call s)" and ok: "call_ok (sm_call s) s"
    using sm_invD(1,5)[OF sm_reach_inv[OF assms]] by auto
  have "\<exists>k. sm_live s - sm_misreported s \<subseteq> {k}"
    using live ok by (cases "(sm_call s, s)" rule: call_ok.cases; cases "sm_child s") auto
  then have "card (sm_live s - sm_misreported s) \<le> 1"
    by (metis card.empty card.insert card_mono empty_iff finite.emptyI finite.insertI One_nat_def)
  moreover have "\<exists>c. sm_call s = Some (Install c k)" if "k \<in> unregistered (sm_call s)" for k
    using that by (cases "sm_call s" rule: unregistered.cases) auto
  ultimately show ?thesis
    using live by auto
qed

text \<open>C18: a stop is final. Once \<open>stop\<close> or \<open>shutdown\<close> has reported success there is no child, and no serve process but those
  whose exit was reported while they ran; and none is started until a client calls \<open>start\<close> or \<open>switch\<close>: no crash monitor that
  finishes late and no automatic restart that was already queued brings one back. After a successful shutdown not even such
  a call does.\<close>

theorem stop_is_final:
  assumes "sm_reach s" "sm_act (Proceed ok) s = Some t" "sm_call t = None" "sm_result t = Some Done"
    and "sm_run es t = Some u" "sm_shutdown t \<or> (\<forall>e \<in> set es. \<not> admits e)"
  shows "sm_child u = None \<and> sm_live u \<subseteq> sm_misreported u \<and> sm_live u \<subseteq> sm_live t"
proof -
  have "sm_inv s"
    by (rule sm_reach_inv[OF assms(1)])
  then have "sm_inv t" "at_rest t"
    using sm_inv_act done_at_rest assms(2-4) by blast+
  then show ?thesis
    using at_rest_run[OF _ _ assms(5,6)] at_rest_empty by blast
qed

text \<open>C19: no usage is lost silently. By the time a serve has been reaped, and already when its crash monitor drops it as the current
  child, clears the state file and thinks about a restart, its accounting receipt is durable or the outbox itself has refused it.\<close>

theorem reaped_is_accounted:
  assumes "sm_reach s" "k \<in> sm_reaped s \<or> (\<exists>m. sm_monitors s k = Some m \<and> accounted m)"
  shows "k \<in> sm_durable s \<union> sm_unsealed s"
  using assms(2) sm_invD(2,3)[OF sm_reach_inv[OF assms(1)], of k] by (auto simp: monitor_ok_def)

text \<open>C20: every lifecycle call returns. The thread that holds the lifecycle lock always has a next step (the waits for a spawn in
  flight never block), every step it takes brings it closer to the end, at most twelve steps in all, and no other thread moves it.\<close>

theorem lifecycle_returns:
  assumes "sm_reach s" "sm_call s \<noteq> None"
  shows "(\<exists>t. sm_act (Proceed False) s = Some t) \<and> call_rank (sm_call s) \<le> 12 \<and>
    (\<forall>e t. sm_act e s = Some t \<longrightarrow>
       (if e \<in> range Proceed then call_rank (sm_call t) < call_rank (sm_call s) else sm_call t = sm_call s))"
proof -
  obtain pc where pc: "sm_call s = Some pc"
    using assms(2) by auto
  have "call_rank (sm_call s) \<le> 12"
    by (cases "sm_call s" rule: call_rank.cases) auto
  moreover have "if e \<in> range Proceed then call_rank (sm_call t) < call_rank (sm_call s) else sm_call t = sm_call s"
    if act: "sm_act e s = Some t" for e t
  proof (cases e)
    case (Monitor k i ok)
    then obtain m where "sm_watch k i ok m s = Some t"
      using act by (auto simp: bind_eq_Some_conv)
    then show ?thesis
      using Monitor by (cases m) (auto simp: reap_defs split: if_splits)
  qed (use pc act call_rank_proceed[OF pc] in auto)
  moreover have "\<exists>t. sm_act (Proceed False) s = Some t"
    using never_blocked[OF sm_reach_inv[OF assms(1)] pc] pc by simp
  ultimately show ?thesis
    by blast
qed

section \<open>Concrete runs\<close>

lemmas sm_run_defs = readopt_def fresh_manager_def enter_def start_defs stop_defs reap_defs finish_def

definition adopted :: "nat manager" where
  "adopted = readopt (Some (0, 7)) True True (fresh_manager True)"

definition gone :: exit_info where
  "gone = \<lparr>ex_code = None, ex_source = Vanished\<rparr>"

lemma adopted_reach: "sm_reach adopted"
  unfolding adopted_def by (rule sm_reach.boot)

text \<open>A stop, up to the moment its caller is told; and the crash and automatic restart of the same serve.\<close>

definition stop_run :: "nat event list" where
  "stop_run = [Call Stop, Proceed True, Proceed True, Proceed True, Exits 0] @ replicate 6 (Monitor 0 gone True)"

definition crash_run :: "nat event list" where
  "crash_run = Exits 0 # replicate 7 (Monitor 0 gone True) @ Restart 0 # replicate 4 (Proceed True)"

definition after_stop :: "nat manager" where
  "after_stop = the (sm_run stop_run adopted)"

definition after_crash :: "nat manager" where
  "after_crash = the (sm_run crash_run adopted)"

lemma after_stop_eq:
  "sm_run stop_run adopted = Some after_stop"
  "after_stop = adopted\<lparr>sm_child := None, sm_stop_requested := True, sm_last_exit := Some \<lparr>ex_code = None, ex_source = Stopped\<rparr>, sm_durable := {0},
     sm_store := None, sm_reaped := {0}, sm_call := Some (Await_term 0 Plain), sm_monitors := [0 \<mapsto> Decide True True], sm_live := {}\<rparr>"
  by (simp_all add: after_stop_def stop_run_def adopted_def sm_run_defs gone_def eval_nat_numeral)

lemma after_crash_eq:
  "sm_run crash_run adopted = Some after_crash"
  "after_crash = adopted\<lparr>sm_child := Some 1, sm_durable := {0}, sm_store := None, sm_reaped := {0}, sm_call := Some (Persist 1),
     sm_monitors := Map.empty, sm_live := {1}, sm_next := 2\<rparr>"
  by (simp_all add: after_crash_def crash_run_def adopted_def sm_run_defs gone_def eval_nat_numeral)

lemma one_serve_witness:
  "card (sm_live after_crash - sm_misreported after_crash) \<le> 1 \<and> sm_live after_crash - sm_misreported after_crash = {1} \<and> sm_child after_crash = Some 1"
proof -
  have "sm_reach after_crash"
    by (rule sm_reach_run[OF adopted_reach after_crash_eq(1)])
  then show ?thesis
    using one_serve[of after_crash] by (simp add: after_crash_eq(2) adopted_def readopt_def fresh_manager_def)
qed

lemma stop_is_final_witness:
  "\<exists>t u. sm_act (Proceed True) after_stop = Some t \<and> sm_run [Monitor 0 gone True, Call Stop, Proceed True] t = Some u \<and>
     sm_child u = None \<and> sm_live u = {}"
proof -
  obtain t where t: "sm_act (Proceed True) after_stop = Some t" "sm_call t = None" "sm_result t = Some Done" and l: "sm_live t = {}"
    and u: "sm_run [Monitor 0 gone True, Call Stop, Proceed True] t \<noteq> None"
    by (simp add: after_stop_eq(2) adopted_def sm_run_defs)
  then obtain u where "sm_run [Monitor 0 gone True, Call Stop, Proceed True] t = Some u"
    by blast
  then show ?thesis
    using stop_is_final[OF sm_reach_run[OF adopted_reach after_stop_eq(1)] t, of _ u] t(1) l by fastforce
qed

lemma reaped_is_accounted_witness: "0 \<in> sm_durable after_stop \<union> sm_unsealed after_stop"
proof -
  have "0 \<in> sm_reaped after_stop"
    by (simp add: after_stop_eq(2))
  then show ?thesis
    by (intro reaped_is_accounted[OF sm_reach_run[OF adopted_reach after_stop_eq(1)]] disjI1)
qed

lemma lifecycle_returns_witness: "\<exists>t. sm_act (Proceed False) after_crash = Some t"
proof -
  have "sm_call after_crash \<noteq> None"
    by (simp add: after_crash_eq(2))
  then show ?thesis
    using lifecycle_returns[OF sm_reach_run[OF adopted_reach after_crash_eq(1)]] by blast
qed

text \<open>The state file is written and cleared outside the state lock. A client that starts a serve right after a crash, before the
  crashed one's monitor has got to \<open>self._store.clear()\<close>, loses its record: the new serve runs, the file is gone, and a daemon that
  restarts now does not find it.\<close>

lemma late_clear_loses_state:
  "\<exists>s. sm_reach (s :: nat manager) \<and> sm_call s = None \<and> sm_child s = Some 1 \<and> sm_live s = {1} \<and> sm_misreported s = {} \<and> sm_store s = None"
proof -
  let ?es = "Exits 0 # replicate 4 (Monitor 0 gone True) @ Call (Start 7) # replicate 6 (Proceed True) @ [Monitor 0 gone True]"
  have "\<exists>s. sm_run ?es adopted = Some s \<and> sm_call s = None \<and> sm_child s = Some 1 \<and> sm_live s = {1} \<and> sm_misreported s = {} \<and> sm_store s = None"
    by (simp add: adopted_def sm_run_defs gone_def eval_nat_numeral)
  then show ?thesis
    using sm_reach_run[OF adopted_reach] by blast
qed

text \<open>A monitor whose wait fails drops its child although it runs: the automatic restart then starts a second serve beside the
  first, and a stop that reports success leaves the first one running.\<close>

lemma failed_wait_second_serve:
  "\<exists>s. sm_reach (s :: nat manager) \<and> sm_child s = Some 1 \<and> sm_live s = {0, 1}"
  "\<exists>s t. sm_reach (s :: nat manager) \<and> sm_act (Proceed True) s = Some t \<and> sm_result t = Some Done \<and> sm_call t = None \<and> sm_live t = {0}"
proof -
  let ?gone = "replicate 7 (Monitor 0 \<lparr>ex_code = None, ex_source = Unknown\<rparr> False)"
  have "\<exists>s. sm_run (?gone @ Call (Start 7) # replicate 6 (Proceed True)) adopted = Some s \<and> sm_child s = Some 1 \<and> sm_live s = {0, 1}"
    by (simp add: adopted_def sm_run_defs eval_nat_numeral insert_commute)
  then show "\<exists>s. sm_reach (s :: nat manager) \<and> sm_child s = Some 1 \<and> sm_live s = {0, 1}"
    using sm_reach_run[OF adopted_reach] by blast
  have "\<exists>s t. sm_run (?gone @ [Call Stop]) adopted = Some s \<and> sm_act (Proceed True) s = Some t \<and> sm_result t = Some Done \<and> sm_call t = None \<and> sm_live t = {0}"
    by (simp add: adopted_def sm_run_defs eval_nat_numeral)
  then show "\<exists>s t. sm_reach (s :: nat manager) \<and> sm_act (Proceed True) s = Some t \<and> sm_result t = Some Done \<and> sm_call t = None \<and> sm_live t = {0}"
    using sm_reach_run[OF adopted_reach] by blast
qed

text \<open>If the state file cannot be written after a spawn, \<open>start\<close> fails without a monitor for the registered child: when that one
  exits nobody reaps it, and the manager goes on reporting it as running.\<close>

lemma unsaved_child_never_reaped:
  "\<exists>s. sm_reach (s :: nat manager) \<and> sm_call s = None \<and> sm_child s = Some 1 \<and> \<not> sm_stopping s \<and> sm_live s = {} \<and> sm_monitors s 1 = None"
proof -
  let ?es = "Exits 0 # replicate 7 (Monitor 0 gone True) @ Restart 0 # replicate 4 (Proceed True) @ [Proceed False, Exits 1]"
  have "\<exists>s. sm_run ?es adopted = Some s \<and> sm_call s = None \<and> sm_child s = Some 1 \<and> \<not> sm_stopping s \<and> sm_live s = {} \<and> sm_monitors s 1 = None"
    by (simp add: adopted_def sm_run_defs gone_def eval_nat_numeral)
  then show ?thesis
    using sm_reach_run[OF adopted_reach] by blast
qed

end
