(* ===== verification/Ftw.thy ===== *)
theory Ftw
  imports PyStr "HOL-Library.Word" "HOL-Library.Monad_Syntax"
begin

text \<open>
  The FTW weight file of \<^verbatim>\<open>checkpoint/ftw.py\<close>: a writer that lays all tensors of a model into one stream of bytes, aligned
  for direct I/O and sliced into shard files, and a reader that fetches any range of it in parallel. A file is a list of bytes,
  the directory a map from shard numbers (the code formats the number into the file name) to files; the index, which the code
  stores as JSON, is a record. The detach, copy and view of a torch tensor are its list of bytes.
\<close>

type_synonym byte = "8 word"
type_synonym disk = "int \<rightharpoonup> byte list"

definition ALIGN :: nat where
  "ALIGN = 4096"

definition align_up :: "nat \<Rightarrow> nat" where
  "align_up n = (n + ALIGN - 1) div ALIGN * ALIGN"

record ftw_entry =
  fe_name :: ustr
  fe_kind :: ustr
  fe_dtype :: ustr
  fe_shape :: "nat list"
  fe_off :: nat
  fe_nbytes :: nat

record ftw_shard =
  fs_file :: int
  fs_off :: nat
  fs_nbytes :: nat

section \<open>The writer\<close>

record ftw_writer =
  fw_limit :: nat
  fw_tensors :: "ftw_entry list"
  fw_shards :: "ftw_shard list"
  fw_global :: nat
  fw_open :: bool
  fw_idx :: int
  fw_start :: nat
  fw_cur :: nat
  fw_disk :: disk

record ftw_index =
  ix_format :: ustr
  ix_version :: nat
  ix_align :: nat
  ix_limit :: nat
  ix_total :: nat
  ix_tensors :: "ftw_entry list"
  ix_shards :: "ftw_shard list"

definition ftw_writer_init :: "nat \<Rightarrow> ftw_writer option" where
  "ftw_writer_init limit =
     (if limit mod ALIGN = 0
      then Some \<lparr>fw_limit = limit, fw_tensors = [], fw_shards = [], fw_global = 0, fw_open = False, fw_idx = - 1, fw_start = 0, fw_cur = 0,
                 fw_disk = (\<lambda>_. None)\<rparr>
      else None)"

text \<open>The entry that \<open>_roll\<close> and \<open>finalize\<close> record for the shard that is open.\<close>

definition open_shard :: "ftw_writer \<Rightarrow> ftw_shard list" where
  "open_shard w = (if fw_open w then [\<lparr>fs_file = fw_idx w, fs_off = fw_start w, fs_nbytes = fw_cur w\<rparr>] else [])"

definition ftw_roll :: "ftw_writer \<Rightarrow> ftw_writer" where
  "ftw_roll w =
     w\<lparr>fw_shards := fw_shards w @ open_shard w, fw_idx := fw_idx w + 1, fw_start := fw_global w, fw_cur := 0, fw_open := True,
       fw_disk := (fw_disk w)(fw_idx w + 1 \<mapsto> [])\<rparr>"

definition put_bytes :: "byte list \<Rightarrow> ftw_writer \<Rightarrow> ftw_writer" where
  "put_bytes data w =
     w\<lparr>fw_disk := (fw_disk w)(fw_idx w \<mapsto> the (fw_disk w (fw_idx w)) @ data), fw_cur := fw_cur w + length data,
       fw_global := fw_global w + length data\<rparr>"

text \<open>The loop of \<open>_write_raw\<close>; with a shard limit of zero it would not end.\<close>

partial_function (option) write_loop :: "byte list \<Rightarrow> ftw_writer \<Rightarrow> ftw_writer option" where
  "write_loop data w =
     (if data = [] then Some w
      else let w = (if fw_cur w = fw_limit w then ftw_roll w else w);
               n = min (length data) (fw_limit w - fw_cur w)
           in write_loop (drop n data) (put_bytes (take n data) w))"

definition write_raw :: "byte list \<Rightarrow> ftw_writer \<Rightarrow> ftw_writer option" where
  "write_raw data w = write_loop data (if fw_open w then w else ftw_roll w)"

record tensor =
  tn_name :: ustr
  tn_kind :: ustr
  tn_dtype :: ustr
  tn_shape :: "nat list"
  tn_raw :: "byte list"

definition add_tensor :: "tensor \<Rightarrow> ftw_writer \<Rightarrow> ftw_writer option" where
  "add_tensor t w =
     (let nbytes = length (tn_raw t);
          w = (if \<not> fw_open w \<or> nbytes \<le> fw_limit w \<and> fw_limit w < fw_cur w + nbytes then ftw_roll w else w);
          off = fw_global w
      in do {
        py_assert (off mod ALIGN = 0);
        w \<leftarrow> write_raw (tn_raw t) w;
        let w = w\<lparr>fw_tensors := fw_tensors w @ [\<lparr>fe_name = tn_name t, fe_kind = tn_kind t, fe_dtype = tn_dtype t, fe_shape = tn_shape t,
                                               fe_off = off, fe_nbytes = nbytes\<rparr>]\<rparr>;
        let pad = align_up (fw_global w) - fw_global w;
        if pad \<noteq> 0 then write_raw (replicate pad 0) w else Some w
      })"

definition finalize :: "ftw_writer \<Rightarrow> ftw_index" where
  "finalize w =
     \<lparr>ix_format = lit ''freetoken_weight'', ix_version = 1, ix_align = ALIGN, ix_limit = fw_limit w, ix_total = fw_global w,
      ix_tensors = fw_tensors w, ix_shards = fw_shards w @ open_shard w\<rparr>"

fun add_tensors :: "tensor list \<Rightarrow> ftw_writer \<Rightarrow> ftw_writer option" where
  "add_tensors [] w = Some w"
| "add_tensors (t # ts) w = Option.bind (add_tensor t w) (add_tensors ts)"

text \<open>A conversion: one writer, the tensors in order, the index.\<close>

definition write_ftw :: "nat \<Rightarrow> tensor list \<Rightarrow> (disk \<times> ftw_index) option" where
  "write_ftw limit ts = do { w \<leftarrow> ftw_writer_init limit; w \<leftarrow> add_tensors ts w; Some (fw_disk w, finalize w) }"

section \<open>The reader\<close>

record ftw_reader =
  fr_index :: ftw_index
  fr_shards :: "ftw_shard list"
  fr_disk :: disk

definition ftw_reader_init :: "disk \<Rightarrow> ftw_index \<Rightarrow> ftw_reader option" where
  "ftw_reader_init d ix =
     (if ix_format ix = lit ''freetoken_weight'' then Some \<lparr>fr_index = ix, fr_shards = sort_key fs_off (ix_shards ix), fr_disk = d\<rparr> else None)"

definition ftw_entries :: "ustr set \<Rightarrow> ftw_reader \<Rightarrow> ftw_entry list" where
  "ftw_entries kinds r = filter (\<lambda>e. kinds = {} \<or> fe_kind e \<in> kinds) (ix_tensors (fr_index r))"

text \<open>A piece or a job: file, offset in the file, offset in the destination, length.\<close>

type_synonym job = "int \<times> nat \<times> nat \<times> nat"

text \<open>\<open>_pieces\<close>; the caller collects everything before it reads, so a \<open>ValueError\<close> on the way is the value of the whole.\<close>

fun pieces :: "ftw_shard list \<Rightarrow> nat \<Rightarrow> nat \<Rightarrow> nat \<Rightarrow> job list option" where
  "pieces [] pos dest_off remaining = (if remaining \<noteq> 0 then None else Some [])"
| "pieces (sh # shs) pos dest_off remaining =
     (let s0 = fs_off sh; s1 = fs_off sh + fs_nbytes sh
      in if s1 \<le> pos \<or> remaining = 0 then pieces shs pos dest_off remaining
         else if pos < s0 then None
         else let n = min remaining (s1 - pos)
              in map_option ((#) (fs_file sh, pos - s0, dest_off, n)) (pieces shs (pos + n) (dest_off + n) (remaining - n)))"

text \<open>The jobs of one piece: its length rounded up, in steps of \<open>chunk\<close>.\<close>

definition piece_jobs :: "nat \<Rightarrow> job \<Rightarrow> job list" where
  "piece_jobs chunk p =
     (case p of (file, fo, dst, len) \<Rightarrow>
        let rlen = align_up len
        in map (\<lambda>i. (file, fo + i * chunk, dst + i * chunk, min chunk (rlen - i * chunk))) [0..<div_ceil rlen chunk])"

definition read_jobs :: "nat \<Rightarrow> ftw_shard list \<Rightarrow> nat \<Rightarrow> nat \<Rightarrow> job list option" where
  "read_jobs chunk shs off nbytes =
     Option.bind (pieces shs off 0 nbytes) (\<lambda>ps. if chunk = 0 \<and> ps \<noteq> [] then None else Some (concat (map (piece_jobs chunk) ps)))"

text \<open>\<open>_pread_into\<close>: \<open>got off want\<close> is how much a read that could return \<open>want\<close> bytes does return.\<close>

partial_function (option) pread :: "(nat \<Rightarrow> nat \<Rightarrow> nat) \<Rightarrow> byte list \<Rightarrow> nat \<Rightarrow> nat \<Rightarrow> byte list \<Rightarrow> byte list option" where
  "pread got file off need buf =
     (if need \<le> length buf then Some buf
      else let pos = off + length buf; want = min (need - length buf) (length file - pos)
           in if want = 0 then None
              else pread got file off need (buf @ take (got pos want) (drop pos file)))"

text \<open>Writing a slice of the destination: a slice past its end is shorter, which the direct path accepts and the mapped one does not.\<close>

definition put_slice :: "nat \<Rightarrow> byte list \<Rightarrow> byte list \<Rightarrow> byte list" where
  "put_slice at bs dest = take at dest @ bs @ drop (at + length bs) dest"

definition read_job :: "bool \<Rightarrow> (nat \<Rightarrow> nat \<Rightarrow> nat) \<Rightarrow> disk \<Rightarrow> job \<Rightarrow> byte list \<Rightarrow> byte list option" where
  "read_job direct got disk j dest =
     (case j of (file, fo, dst, ln) \<Rightarrow>
        Option.bind (disk file) (\<lambda>c.
          if direct
          then map_option (\<lambda>bs. put_slice dst bs dest) (pread got c fo (min ln (length dest - dst)) [])
          else if length c < fo + ln \<or> length dest < dst + ln then None
          else Some (put_slice dst (Prelude.slice fo (fo + ln) c) dest)))"

fun read_all :: "bool \<Rightarrow> (nat \<Rightarrow> nat \<Rightarrow> nat) \<Rightarrow> disk \<Rightarrow> job list \<Rightarrow> byte list \<Rightarrow> byte list option" where
  "read_all direct got disk [] dest = Some dest"
| "read_all direct got disk (j # js) dest = Option.bind (read_job direct got disk j dest) (read_all direct got disk js)"

text \<open>\<open>read_into\<close>; \<open>sched\<close> is the order in which the pool runs the jobs.\<close>

definition read_into :: "bool \<Rightarrow> (nat \<Rightarrow> nat \<Rightarrow> nat) \<Rightarrow> (job list \<Rightarrow> job list) \<Rightarrow> nat \<Rightarrow> ftw_reader \<Rightarrow> nat \<Rightarrow> nat \<Rightarrow> byte list \<Rightarrow> byte list option" where
  "read_into direct got sched chunk r off nbytes dest =
     Option.bind (read_jobs chunk (fr_shards r) off nbytes) (\<lambda>js. read_all direct got (fr_disk r) (sched js) dest)"

section \<open>Loading\<close>

text \<open>An anonymous mapping of no bytes is an error.\<close>

definition transient_buffer :: "nat \<Rightarrow> byte list option" where
  "transient_buffer nbytes = (if align_up nbytes = 0 then None else Some (replicate (align_up nbytes) 0))"

text \<open>\<open>iter_ftw_weights\<close>: the prefetching thread hands the tensors over in order, each as its name, type, shape and bytes.\<close>

definition load_weight :: "bool \<Rightarrow> (nat \<Rightarrow> nat \<Rightarrow> nat) \<Rightarrow> (job list \<Rightarrow> job list) \<Rightarrow> nat \<Rightarrow> ftw_reader \<Rightarrow> ftw_entry \<Rightarrow>
    (ustr \<times> ustr \<times> nat list \<times> byte list) option" where
  "load_weight direct got sched chunk r e = do {
     buf \<leftarrow> transient_buffer (fe_nbytes e);
     out \<leftarrow> read_into direct got sched chunk r (fe_off e) (fe_nbytes e) buf;
     Some (fe_name e, fe_dtype e, fe_shape e, take (fe_nbytes e) out) }"

definition iter_ftw_weights :: "bool \<Rightarrow> (nat \<Rightarrow> nat \<Rightarrow> nat) \<Rightarrow> (job list \<Rightarrow> job list) \<Rightarrow> nat \<Rightarrow> ustr set \<Rightarrow> (ustr \<Rightarrow> bool) \<Rightarrow> ftw_reader \<Rightarrow>
    (ustr \<times> ustr \<times> nat list \<times> byte list) list option" where
  "iter_ftw_weights direct got sched chunk kinds keep r =
     those (map (load_weight direct got sched chunk r) (filter (\<lambda>e. keep (fe_name e)) (ftw_entries kinds r)))"

text \<open>\<open>load_ftw_banks\<close> for a flat bank: each layer is read through the aligned window that encloses it, given as the offset of the
  layer in it, its own offset and length and the layer's length.\<close>

definition layer_windows :: "nat \<Rightarrow> nat \<Rightarrow> ftw_entry \<Rightarrow> (nat \<times> nat \<times> nat \<times> nat) list option" where
  "layer_windows num_layers elsize e =
     (case fe_shape e of
        [] \<Rightarrow> None
      | rows # row_shape \<Rightarrow>
          let row_bytes = prod_list row_shape * elsize;
              layer_bytes = rows div num_layers * row_bytes
          in if num_layers = 0 \<or> rows mod num_layers \<noteq> 0 \<or> layer_bytes * num_layers \<noteq> fe_nbytes e then None
             else Some (map (\<lambda>l. let off = fe_off e + l * layer_bytes; win_off = off div ALIGN * ALIGN; win_end = align_up (off + layer_bytes)
                                in (off - win_off, win_off, win_end - win_off, layer_bytes)) [0..<num_layers]))"

definition load_layer :: "bool \<Rightarrow> (nat \<Rightarrow> nat \<Rightarrow> nat) \<Rightarrow> (job list \<Rightarrow> job list) \<Rightarrow> nat \<Rightarrow> ftw_reader \<Rightarrow> nat \<times> nat \<times> nat \<times> nat \<Rightarrow> byte list option" where
  "load_layer direct got sched chunk r win =
     (case win of (head_pad, win_off, win_len, layer_bytes) \<Rightarrow>
        map_option (Prelude.slice head_pad (head_pad + layer_bytes)) (read_into direct got sched chunk r win_off win_len (replicate win_len 0)))"

definition load_flat_bank :: "bool \<Rightarrow> (nat \<Rightarrow> nat \<Rightarrow> nat) \<Rightarrow> (job list \<Rightarrow> job list) \<Rightarrow> nat \<Rightarrow> nat \<Rightarrow> nat \<Rightarrow> ftw_reader \<Rightarrow> ftw_entry \<Rightarrow> byte list list option" where
  "load_flat_bank direct got sched chunk num_layers elsize r e =
     Option.bind (layer_windows num_layers elsize e) (\<lambda>ws. those (map (load_layer direct got sched chunk r) ws))"

section \<open>What the writer lays out\<close>

lemma ALIGN_pos: "0 < ALIGN"
  by (simp add: ALIGN_def)

lemma align_up_dvd: "ALIGN dvd align_up n"
  by (simp add: align_up_def)

lemma align_up_ge: "n \<le> align_up n"
  using div_ceil_ge[OF ALIGN_pos, of n] by (simp add: align_up_def div_ceil_def)

lemma align_up_fix: "ALIGN dvd n \<Longrightarrow> align_up n = n"
  using div_ceil_mult[OF ALIGN_pos, of "n div ALIGN"] by (simp add: align_up_def div_ceil_def)

lemma align_up_least: "n \<le> m \<Longrightarrow> ALIGN dvd m \<Longrightarrow> align_up n \<le> m"
proof -
  assume "n \<le> m" "ALIGN dvd m"
  then have "align_up n \<le> align_up m"
    unfolding align_up_def by (intro mult_le_mono1 div_le_mono) simp
  then show ?thesis
    using align_up_fix[OF \<open>ALIGN dvd m\<close>] by simp
qed

text \<open>The shards follow each other in the stream, and each is the file it names.\<close>

fun laid :: "nat \<Rightarrow> ftw_shard list \<Rightarrow> disk \<Rightarrow> bool" where
  "laid off [] d = True"
| "laid off (s # ss) d \<longleftrightarrow> fs_off s = off \<and> (\<exists>c. d (fs_file s) = Some c \<and> length c = fs_nbytes s) \<and> laid (off + fs_nbytes s) ss d"

definition stream :: "ftw_shard list \<Rightarrow> disk \<Rightarrow> byte list" where
  "stream ss d = concat (map (\<lambda>s. the (d (fs_file s))) ss)"

lemma stream_simps [simp]: "stream [] d = []" "stream (s # ss) d = the (d (fs_file s)) @ stream ss d"
  "stream (ss @ ts) d = stream ss d @ stream ts d"
  by (simp_all add: stream_def)

lemma laid_append: "laid off (ss @ ts) d \<longleftrightarrow> laid off ss d \<and> laid (off + length (stream ss d)) ts d"
  by (induction ss arbitrary: off) (auto simp: add.assoc)

lemma laid_frame: "\<forall>s \<in> set ss. fs_file s \<noteq> i \<Longrightarrow> laid off ss (d(i := x)) \<longleftrightarrow> laid off ss d"
  by (induction ss arbitrary: off) auto

lemma stream_frame: "\<forall>s \<in> set ss. fs_file s \<noteq> i \<Longrightarrow> stream ss (d(i := x)) = stream ss d"
  by (induction ss) auto

definition all_shards :: "ftw_writer \<Rightarrow> ftw_shard list" where
  "all_shards w = fw_shards w @ open_shard w"

definition written :: "ftw_writer \<Rightarrow> byte list" where
  "written w = stream (all_shards w) (fw_disk w)"

definition writer_ok :: "ftw_writer \<Rightarrow> bool" where
  "writer_ok w \<longleftrightarrow> 0 < fw_limit w \<and> ALIGN dvd fw_limit w \<and> laid 0 (all_shards w) (fw_disk w) \<and>
     (\<forall>s \<in> set (fw_shards w). fs_file s < fw_idx w \<and> ALIGN dvd fs_nbytes s) \<and>
     fw_global w = length (written w) \<and> fw_cur w \<le> fw_limit w \<and> (\<not> fw_open w \<longrightarrow> fw_shards w = [])"

lemma stream_aligned: "laid off ss d \<Longrightarrow> \<forall>s \<in> set ss. ALIGN dvd fs_nbytes s \<Longrightarrow> ALIGN dvd length (stream ss d)"
  by (induction ss arbitrary: off) (auto simp: )

lemma writer_ok_open:
  assumes "writer_ok w" "fw_open w"
  obtains c where "fw_disk w (fw_idx w) = Some c" "length c = fw_cur w" "fw_start w = length (stream (fw_shards w) (fw_disk w))"
    "written w = stream (fw_shards w) (fw_disk w) @ c" "laid 0 (fw_shards w) (fw_disk w)"
  using assms by (auto simp: writer_ok_def all_shards_def open_shard_def written_def laid_append)

lemma writer_ok_roll:
  assumes "writer_ok w" "fw_open w \<longrightarrow> ALIGN dvd fw_cur w"
  shows "writer_ok (ftw_roll w)" "written (ftw_roll w) = written w" "fw_open (ftw_roll w)" "fw_cur (ftw_roll w) = 0"
    "fw_limit (ftw_roll w) = fw_limit w" "fw_tensors (ftw_roll w) = fw_tensors w" "fw_global (ftw_roll w) = fw_global w"
proof -
  let ?ss = "fw_shards w @ open_shard w"
  have files: "\<forall>s \<in> set ?ss. fs_file s \<noteq> fw_idx w + 1" "\<forall>s \<in> set ?ss. fs_file s < fw_idx w + 1 \<and> ALIGN dvd fs_nbytes s"
    using assms by (auto simp: writer_ok_def open_shard_def)
  show same: "written (ftw_roll w) = written w"
    using stream_frame[OF files(1), of "fw_disk w" "Some []"]
    by (simp add: written_def all_shards_def ftw_roll_def open_shard_def)
  show "writer_ok (ftw_roll w)"
    using assms(1) files laid_frame[OF files(1), of 0 "fw_disk w" "Some []"] stream_frame[OF files(1), of "fw_disk w" "Some []"] same
    by (auto simp: writer_ok_def all_shards_def ftw_roll_def open_shard_def[of "fw_shards_update f w" for f] laid_append written_def open_shard_def)
qed (simp_all add: ftw_roll_def)

lemma writer_ok_put:
  assumes "writer_ok w" "fw_open w" "fw_cur w + length d \<le> fw_limit w"
  shows "writer_ok (put_bytes d w)" "written (put_bytes d w) = written w @ d" "fw_open (put_bytes d w)"
    "fw_limit (put_bytes d w) = fw_limit w" "fw_tensors (put_bytes d w) = fw_tensors w" "fw_cur (put_bytes d w) = fw_cur w + length d"
proof -
  obtain c where c: "fw_disk w (fw_idx w) = Some c" "length c = fw_cur w" "fw_start w = length (stream (fw_shards w) (fw_disk w))"
      "written w = stream (fw_shards w) (fw_disk w) @ c" "laid 0 (fw_shards w) (fw_disk w)"
    using writer_ok_open[OF assms(1,2)] .
  have files: "\<forall>s \<in> set (fw_shards w). fs_file s \<noteq> fw_idx w"
    using assms(1) by (auto simp: writer_ok_def)
  show out: "written (put_bytes d w) = written w @ d"
    using c(1,4) assms(2) stream_frame[OF files] by (simp add: written_def all_shards_def put_bytes_def open_shard_def)
  show "writer_ok (put_bytes d w)"
    using assms c out laid_frame[OF files] stream_frame[OF files]
    by (auto simp: writer_ok_def all_shards_def put_bytes_def open_shard_def laid_append)
qed (use assms in \<open>simp_all add: put_bytes_def\<close>)

lemma write_loop_ok:
  "writer_ok w \<Longrightarrow> fw_open w \<Longrightarrow>
   \<exists>v. write_loop d w = Some v \<and> writer_ok v \<and> written v = written w @ d \<and> fw_open v \<and> fw_limit v = fw_limit w \<and> fw_tensors v = fw_tensors w"
proof (induction "length d" arbitrary: d w rule: less_induct)
  case less
  show ?case
  proof (cases "d = []")
    case True
    then show ?thesis
      using less.prems by (subst write_loop.simps) simp
  next
    case False
    let ?w = "if fw_cur w = fw_limit w then ftw_roll w else w"
    let ?n = "min (length d) (fw_limit ?w - fw_cur ?w)"
    let ?v = "put_bytes (take ?n d) ?w"
    have lim: "0 < fw_limit w" "ALIGN dvd fw_limit w" "fw_cur w \<le> fw_limit w"
      using less.prems(1) by (auto simp: writer_ok_def)
    have w: "writer_ok ?w" "written ?w = written w" "fw_open ?w" "fw_limit ?w = fw_limit w" "fw_tensors ?w = fw_tensors w" "fw_cur ?w < fw_limit w"
      using less.prems lim writer_ok_roll[OF less.prems(1)] by auto
    then have n: "0 < ?n" "fw_cur ?w + length (take ?n d) \<le> fw_limit ?w"
      using False by auto
    note v = writer_ok_put[OF w(1,3) n(2)]
    have "length (drop ?n d) < length d"
      using n(1) False by simp
    from less.hyps[OF this v(1,3)] show ?thesis
      using False v w by (subst write_loop.simps) (auto simp: Let_def)
  qed
qed

lemma write_raw_ok:
  "writer_ok w \<Longrightarrow>
   \<exists>v. write_raw d w = Some v \<and> writer_ok v \<and> written v = written w @ d \<and> fw_open v \<and> fw_limit v = fw_limit w \<and> fw_tensors v = fw_tensors w"
  using write_loop_ok[of w d] write_loop_ok[of "ftw_roll w" d] writer_ok_roll[of w] by (cases "fw_open w") (auto simp: write_raw_def)

definition stored :: "tensor \<Rightarrow> ftw_entry \<Rightarrow> byte list \<Rightarrow> bool" where
  "stored t e r \<longleftrightarrow> fe_name e = tn_name t \<and> fe_kind e = tn_kind t \<and> fe_dtype e = tn_dtype t \<and> fe_shape e = tn_shape t \<and>
     fe_nbytes e = length (tn_raw t) \<and> ALIGN dvd fe_off e \<and> fe_off e + align_up (fe_nbytes e) \<le> length r \<and>
     take (fe_nbytes e) (drop (fe_off e) r) = tn_raw t"

lemma storedD:
  assumes "stored t e r"
  shows "fe_nbytes e = length (tn_raw t)" "take (length (tn_raw t)) (drop (fe_off e) r) = tn_raw t"
    "fe_off e + align_up (length (tn_raw t)) \<le> length r" "ALIGN dvd fe_off e"
  using assms by (auto simp: stored_def)

lemma stored_append: "stored t e r \<Longrightarrow> stored t e (r @ s)"
  using align_up_ge[of "fe_nbytes e"] by (auto simp: stored_def)

definition at_boundary :: "ftw_writer \<Rightarrow> bool" where
  "at_boundary w \<longleftrightarrow> writer_ok w \<and> ALIGN dvd fw_global w"

lemma boundary_cur: "at_boundary w \<Longrightarrow> fw_open w \<Longrightarrow> ALIGN dvd fw_cur w"
proof -
  assume w: "at_boundary w" "fw_open w"
  then obtain c where c: "length c = fw_cur w" "written w = stream (fw_shards w) (fw_disk w) @ c" "laid 0 (fw_shards w) (fw_disk w)"
    using writer_ok_open[of w] by (auto simp: at_boundary_def)
  have "ALIGN dvd length (stream (fw_shards w) (fw_disk w))"
    using w(1) c(3) stream_aligned by (auto simp: at_boundary_def writer_ok_def)
  then show ?thesis
    using w(1) c(1,2) by (auto simp: at_boundary_def writer_ok_def dvd_add_right_iff)
qed

lemma add_tensor_ok:
  assumes "at_boundary w"
  shows "\<exists>v e r. add_tensor t w = Some v \<and> at_boundary v \<and> written v = written w @ r \<and> fw_limit v = fw_limit w \<and>
    fw_tensors v = fw_tensors w @ [e] \<and> stored t e (written v)"
proof -
  let ?n = "length (tn_raw t)"
  let ?w = "if \<not> fw_open w \<or> ?n \<le> fw_limit w \<and> fw_limit w < fw_cur w + ?n then ftw_roll w else w"
  have ok: "writer_ok w" and al: "ALIGN dvd length (written w)"
    using assms by (auto simp: at_boundary_def writer_ok_def)
  have w: "writer_ok ?w" "written ?w = written w" "fw_limit ?w = fw_limit w" "fw_tensors ?w = fw_tensors w" "fw_global ?w = length (written w)"
    using writer_ok_roll[OF ok] boundary_cur[OF assms] ok by (auto simp: writer_ok_def)
  obtain v where v: "write_raw (tn_raw t) ?w = Some v" "writer_ok v" "written v = written w @ tn_raw t" "fw_limit v = fw_limit w" "fw_tensors v = fw_tensors w"
    using write_raw_ok[OF w(1), of "tn_raw t"] w(2-4) by auto
  let ?e = "\<lparr>fe_name = tn_name t, fe_kind = tn_kind t, fe_dtype = tn_dtype t, fe_shape = tn_shape t, fe_off = length (written w), fe_nbytes = ?n\<rparr>"
  let ?v = "v\<lparr>fw_tensors := fw_tensors v @ [?e]\<rparr>"
  let ?pad = "align_up (fw_global v) - fw_global v"
  have v': "writer_ok ?v" "written ?v = written v"
    using v(2) by (cases "fw_open v"; simp add: writer_ok_def written_def all_shards_def open_shard_def)+
  obtain u where u: "(if ?pad \<noteq> 0 then write_raw (replicate ?pad 0) ?v else Some ?v) = Some u" "writer_ok u"
      "written u = written v @ replicate ?pad 0" "fw_limit u = fw_limit v" "fw_tensors u = fw_tensors v @ [?e]"
    using write_raw_ok[OF v'(1), of "replicate ?pad 0"] v' by (cases "?pad = 0") auto
  have g: "fw_global v = length (written w) + ?n"
    using v(2,3) by (simp add: writer_ok_def)
  have len: "length (written u) = align_up (fw_global v)"
    using u(3) v(2) align_up_ge[of "fw_global v"] by (simp add: writer_ok_def)
  have "length (written w) + align_up ?n \<le> align_up (fw_global v)"
  proof -
    have "?n \<le> align_up (fw_global v) - length (written w)" "ALIGN dvd align_up (fw_global v) - length (written w)"
      using g align_up_ge[of "fw_global v"] al align_up_dvd by (auto intro: dvd_diff_nat)
    then show ?thesis
      using align_up_least align_up_ge[of "fw_global v"] g by fastforce
  qed
  then have "stored t ?e (written u)"
    using al len u(3) v(3) by (simp add: stored_def)
  moreover have "at_boundary u"
    using u(2) len align_up_dvd by (auto simp: at_boundary_def writer_ok_def)
  moreover have "add_tensor t w = Some u"
    using v(1) u(1) w(5) al by (cases "?pad = 0") (simp_all add: add_tensor_def Let_def py_assert_def dvd_eq_mod_eq_0 cong: if_cong)
  ultimately show ?thesis
    using u v by auto
qed

lemma add_tensors_ok:
  "at_boundary w \<Longrightarrow> \<exists>v es r. add_tensors ts w = Some v \<and> at_boundary v \<and> written v = written w @ r \<and>
     fw_tensors v = fw_tensors w @ es \<and> list_all2 (\<lambda>t e. stored t e (written v)) ts es"
proof (induction ts arbitrary: w)
  case Nil
  then show ?case by (auto intro: exI[of _ "[]"])
next
  case (Cons t ts)
  obtain u e r where u: "add_tensor t w = Some u" "at_boundary u" "written u = written w @ r" "fw_tensors u = fw_tensors w @ [e]" "stored t e (written u)"
    using add_tensor_ok[OF Cons.prems] by blast
  obtain v es q where v: "add_tensors ts u = Some v" "at_boundary v" "written v = written u @ q" "fw_tensors v = fw_tensors u @ es"
      "list_all2 (\<lambda>t e. stored t e (written v)) ts es"
    using Cons.IH[OF u(2)] by blast
  then show ?case
    using u stored_append[OF u(5), of q] by (intro exI[of _ v] exI[of _ "e # es"] exI[of _ "r @ q"]) simp
qed

section \<open>What the reader gathers\<close>

lemma align_up_add: "ALIGN dvd m \<Longrightarrow> align_up (m + n) = m + align_up n"
proof -
  assume "ALIGN dvd m"
  then obtain k where k: "m = ALIGN * k" ..
  have "(n + ALIGN - 1 + k * ALIGN) div ALIGN = k + (n + ALIGN - 1) div ALIGN"
    using ALIGN_pos by (intro div_mult_self1) simp
  moreover have "m + n + ALIGN - 1 = n + ALIGN - 1 + k * ALIGN"
    using k ALIGN_pos by (simp add: mult.commute)
  ultimately show ?thesis
    using k by (simp add: align_up_def add_mult_distrib)
qed

lemma align_up_0 [simp]: "align_up 0 = 0"
  by (simp add: align_up_def ALIGN_def)

text \<open>A range of a file that holds a range of the stream: \<open>g\<close> is where the destination starts in the stream \<open>r\<close>.\<close>

definition range_ok :: "disk \<Rightarrow> byte list \<Rightarrow> nat \<Rightarrow> int \<Rightarrow> nat \<Rightarrow> nat \<Rightarrow> nat \<Rightarrow> bool" where
  "range_ok d r g f fo dst n \<longleftrightarrow> (\<exists>c. d f = Some c \<and> fo + n \<le> length c \<and> take n (drop fo c) = take n (drop (g + dst) r))"

lemma range_ok_sub: "range_ok d r g f fo dst n \<Longrightarrow> k + m \<le> n \<Longrightarrow> range_ok d r g f (fo + k) (dst + k) m"
proof -
  assume "range_ok d r g f fo dst n" and km: "k + m \<le> n"
  then obtain c where c: "d f = Some c" "fo + n \<le> length c" "take n (drop fo c) = take n (drop (g + dst) r)"
    by (auto simp: range_ok_def)
  from c(3) have "take m (drop k (take n (drop fo c))) = take m (drop k (take n (drop (g + dst) r)))"
    by simp
  then have "take m (drop (fo + k) c) = take m (drop (g + (dst + k)) r)"
    using km by (simp add: drop_take min.absorb1 add_ac)
  then show ?thesis
    using c km unfolding range_ok_def by auto
qed

definition pieces_ok :: "disk \<Rightarrow> byte list \<Rightarrow> nat \<Rightarrow> nat \<Rightarrow> nat \<Rightarrow> job list \<Rightarrow> bool" where
  "pieces_ok d r g dst n ps \<longleftrightarrow>
     (\<forall>(f, fo, at, len) \<in> set ps. range_ok d r g f fo at (align_up len) \<and> ALIGN dvd fo \<and> ALIGN dvd at \<and> at + align_up len \<le> dst + align_up n) \<and>
     (\<forall>i. dst \<le> i \<and> i < dst + align_up n \<longrightarrow> (\<exists>(f, fo, at, len) \<in> set ps. at \<le> i \<and> i < at + align_up len))"

lemma pieces_ok_Cons:
  assumes "range_ok d r g f fo dst m" "ALIGN dvd fo" "ALIGN dvd dst" "align_up m = m" "align_up n = m + align_up k"
    and "pieces_ok d r g (dst + m) k ps"
  shows "pieces_ok d r g dst n ((f, fo, dst, m) # ps)"
  unfolding pieces_ok_def
proof (intro conjI allI impI)
  show "\<forall>(f, fo, at, len) \<in> set ((f, fo, dst, m) # ps).
      range_ok d r g f fo at (align_up len) \<and> ALIGN dvd fo \<and> ALIGN dvd at \<and> at + align_up len \<le> dst + align_up n"
    using assms unfolding pieces_ok_def by (simp add: add.assoc)
  fix i assume i: "dst \<le> i \<and> i < dst + align_up n"
  show "\<exists>(f, fo, at, len) \<in> set ((f, fo, dst, m) # ps). at \<le> i \<and> i < at + align_up len"
  proof (cases "i < dst + m")
    case True
    then show ?thesis
      using i assms(4) by simp
  next
    case False
    then have "\<exists>(f, fo, at, len) \<in> set ps. at \<le> i \<and> i < at + align_up len"
      using i assms(5,6) unfolding pieces_ok_def by (simp add: add.assoc)
    then show ?thesis
      by auto
  qed
qed

lemma pieces_right:
  assumes "laid (length pre) ss d" "\<forall>s \<in> set ss. ALIGN dvd fs_nbytes s" "r = pre @ stream ss d"
    and "n = 0 \<or> length pre \<le> g + dst" "g + dst + n \<le> length r" "ALIGN dvd length pre" "ALIGN dvd g" "ALIGN dvd dst"
  shows "\<exists>ps. pieces ss (g + dst) dst n = Some ps \<and> pieces_ok d r g dst n ps"
  using assms
proof (induction ss arbitrary: pre dst n)
  case Nil
  then show ?case by (auto simp: pieces_ok_def)
next
  case (Cons s ss)
  obtain c where c: "fs_off s = length pre" "d (fs_file s) = Some c" "length c = fs_nbytes s" "laid (length (pre @ c)) ss d"
    using Cons.prems(1) by auto
  note IH = Cons.IH[of "pre @ c", OF c(4)]
  have al: "ALIGN dvd length c" "\<forall>s \<in> set ss. ALIGN dvd fs_nbytes s" "ALIGN dvd length (pre @ c)" "r = (pre @ c) @ stream ss d"
    using Cons.prems(2,3,6) c by auto
  show ?case
  proof (cases "length pre + length c \<le> g + dst \<or> n = 0")
    case True
    then show ?thesis
      using IH[OF al(2,4) _ Cons.prems(5) al(3) Cons.prems(7,8)] c by auto
  next
    case False
    then have n: "n \<noteq> 0" and pos: "length pre \<le> g + dst" "g + dst < length pre + length c"
      using Cons.prems(4) by auto
    define room where "room = length pre + length c - (g + dst)"
    define m where "m = min n room"
    have room: "ALIGN dvd room" "0 < room" "g + dst + room = length pre + length c"
      using al(3) Cons.prems(7,8) pos by (auto simp: room_def intro!: dvd_diff_nat)
    have m_up: "align_up m \<le> room" "align_up n = align_up m + align_up (n - m)" "n - m \<noteq> 0 \<Longrightarrow> m = room \<and> align_up m = m"
      using room(1) align_up_fix[OF room(1)] align_up_add[OF room(1), of "n - room"] align_up_least[of n room]
      by (auto simp: m_def min_def)
    have "range_ok d r g (fs_file s) (g + dst - length pre) dst (align_up m)"
    proof -
      have "drop (g + dst) r = drop (g + dst - length pre) c @ stream ss d"
        using pos al(4) by simp
      moreover have "align_up m \<le> length c - (g + dst - length pre)"
        using m_up(1) room(3) pos by linarith
      ultimately show ?thesis
        using c(2) pos by (auto simp: range_ok_def)
    qed
    moreover have "ALIGN dvd g + dst - length pre"
      using Cons.prems(6,7,8) pos by (intro dvd_diff_nat) auto
    moreover obtain ps where ps: "pieces ss (g + (dst + m)) (dst + m) (n - m) = Some ps" "n - m \<noteq> 0 \<longrightarrow> pieces_ok d r g (dst + m) (n - m) ps" "n - m = 0 \<longrightarrow> ps = []"
    proof (cases "n - m = 0")
      case True
      then have "pieces ss (g + (dst + m)) (dst + m) 0 = Some []"
        by (induction ss) auto
      then show thesis
        using True that by simp
    next
      case False
      have m: "m = room"
        using m_up(3)[OF False] by simp
      have at: "n - m = 0 \<or> length (pre @ c) \<le> g + (dst + m)" "g + (dst + m) + (n - m) \<le> length r" "ALIGN dvd dst + m"
        using room Cons.prems(5,8) False unfolding m by simp_all
      obtain ps where "pieces ss (g + (dst + m)) (dst + m) (n - m) = Some ps" "pieces_ok d r g (dst + m) (n - m) ps"
        using IH[OF al(2,4) at(1,2) al(3) Cons.prems(7) at(3)] by blast
      then show thesis
        using that[of ps] False by blast
    qed
    moreover have "pieces (s # ss) (g + dst) dst n = Some ((fs_file s, g + dst - length pre, dst, m) # ps)"
      using n pos c ps(1) by (simp add: Let_def m_def room_def add.assoc)
    ultimately have head: "range_ok d r g (fs_file s) (g + dst - length pre) dst (align_up m)" "ALIGN dvd g + dst - length pre"
      and eq: "pieces (s # ss) (g + dst) dst n = Some ((fs_file s, g + dst - length pre, dst, m) # ps)"
      and rest: "n - m \<noteq> 0 \<Longrightarrow> pieces_ok d r g (dst + m) (n - m) ps" "n - m = 0 \<Longrightarrow> ps = []"
      by blast+
    have "pieces_ok d r g dst n ((fs_file s, g + dst - length pre, dst, m) # ps)"
    proof (cases "n - m = 0")
      case True
      then show ?thesis
        using head Cons.prems(8) m_up(2) rest(2) by (simp add: pieces_ok_def)
    next
      case False
      then have m1: "align_up m = m"
        using m_up(3) by blast
      note m = m1 m_up(2)[unfolded m1]
      show ?thesis
        by (rule pieces_ok_Cons[OF head(1)[unfolded m(1)] head(2) Cons.prems(8) m rest(1)[OF False]])
    qed
    then show ?thesis
      using eq by blast
  qed
qed

section \<open>Running the jobs\<close>

definition jobs_ok :: "disk \<Rightarrow> byte list \<Rightarrow> nat \<Rightarrow> nat \<Rightarrow> job list \<Rightarrow> bool" where
  "jobs_ok d r g n js \<longleftrightarrow>
     (\<forall>(f, fo, at, ln) \<in> set js. range_ok d r g f fo at ln \<and> at + ln \<le> n) \<and> (\<forall>i < n. \<exists>(f, fo, at, ln) \<in> set js. at \<le> i \<and> i < at + ln)"

lemma chunk_of: "0 < chunk \<Longrightarrow> i < (n::nat) \<Longrightarrow> i div chunk < div_ceil n chunk \<and> i div chunk * chunk \<le> i \<and> i < i div chunk * chunk + min chunk (n - i div chunk * chunk)"
proof -
  assume c: "0 < chunk" "i < n"
  have i: "i div chunk * chunk \<le> i" "i < i div chunk * chunk + chunk"
    using div_mult_mod_eq[of i chunk] mod_less_divisor[OF c(1), of i] by linarith+
  moreover have "i div chunk < div_ceil n chunk"
    using i(1) c div_ceil_ge[OF c(1), of n] by (metis le_less_trans less_le_trans mult_less_cancel2)
  ultimately show ?thesis
    using c(2) by auto
qed

lemma piece_jobs_mem:
  "(f, a, b, m) \<in> set (piece_jobs chunk (f', fo, dst, len)) \<longleftrightarrow>
     f = f' \<and> (\<exists>i < div_ceil (align_up len) chunk. a = fo + i * chunk \<and> b = dst + i * chunk \<and> m = min chunk (align_up len - i * chunk))"
  by (auto simp: piece_jobs_def Let_def)

lemma jobs_right:
  assumes "pieces_ok d r g 0 n ps" "0 < chunk"
  shows "jobs_ok d r g (align_up n) (concat (map (piece_jobs chunk) ps))"
proof -
  have "range_ok d r g f a b m \<and> b + m \<le> align_up n" if j: "(f, a, b, m) \<in> set (piece_jobs chunk p)" "p \<in> set ps" for f a b m p
  proof -
    obtain fo dst len i where p: "p = (f, fo, dst, len)" "i < div_ceil (align_up len) chunk" "a = fo + i * chunk" "b = dst + i * chunk"
        "m = min chunk (align_up len - i * chunk)"
      using j(1) by (cases p) (auto simp: piece_jobs_mem)
    have ok: "range_ok d r g f fo dst (align_up len)" "dst + align_up len \<le> align_up n"
      using assms(1) j(2) p(1) unfolding pieces_ok_def by auto
    have "i * chunk < align_up len"
    proof -
      have "i * chunk + chunk \<le> div_ceil (align_up len) chunk * chunk"
        using mult_le_mono1[of "Suc i" "div_ceil (align_up len) chunk" chunk] p(2) by (simp add: add.commute)
      then show ?thesis
        using div_ceil_lt[OF assms(2), of "align_up len"] by linarith
    qed
    then have "i * chunk + m \<le> align_up len"
      using p(5) by linarith
    then show ?thesis
      using range_ok_sub[OF ok(1)] ok(2) p(3,4) by auto
  qed
  moreover have "\<exists>(f, a, b, m) \<in> set (concat (map (piece_jobs chunk) ps)). b \<le> i \<and> i < b + m" if i: "i < align_up n" for i
  proof -
    have "\<exists>(f, fo, dst, len) \<in> set ps. dst \<le> i \<and> i < dst + align_up len"
      using assms(1) i unfolding pieces_ok_def by simp
    then obtain f fo dst len where p: "(f, fo, dst, len) \<in> set ps" "dst \<le> i" "i < dst + align_up len"
      by auto
    let ?k = "(i - dst) div chunk"
    have k: "?k < div_ceil (align_up len) chunk" "?k * chunk \<le> i - dst" "i - dst < ?k * chunk + min chunk (align_up len - ?k * chunk)"
      using chunk_of[OF assms(2), of "i - dst" "align_up len"] p(2,3) by auto
    have "(f, fo + ?k * chunk, dst + ?k * chunk, min chunk (align_up len - ?k * chunk)) \<in> set (piece_jobs chunk (f, fo, dst, len))"
      unfolding piece_jobs_mem using k(1) by blast
    then have mem: "(f, fo + ?k * chunk, dst + ?k * chunk, min chunk (align_up len - ?k * chunk)) \<in> set (concat (map (piece_jobs chunk) ps))"
      using p(1) by (auto simp only: set_concat set_map)
    have "dst + ?k * chunk \<le> i" "i < dst + ?k * chunk + min chunk (align_up len - ?k * chunk)"
      using k(2,3) p(2) by linarith+
    then show ?thesis
      by (intro bexI[OF _ mem]) simp
  qed
  ultimately show ?thesis
    unfolding jobs_ok_def by auto
qed

text \<open>A read that can return bytes returns at least one of them, and no more than asked for.\<close>

definition reads_some :: "(nat \<Rightarrow> nat \<Rightarrow> nat) \<Rightarrow> bool" where
  "reads_some got \<longleftrightarrow> (\<forall>pos want. 0 < want \<longrightarrow> 0 < got pos want \<and> got pos want \<le> want)"

lemma pread_right:
  assumes "reads_some got" "off + n \<le> length file" "length buf \<le> n"
    and "buf = take (length buf) (drop off file)"
  shows "pread got file off n buf = Some (take n (drop off file))"
  using assms(3,4)
proof (induction "n - length buf" arbitrary: buf rule: less_induct)
  case less
  show ?case
  proof (cases "n \<le> length buf")
    case True
    then show ?thesis
      using less.prems by (subst pread.simps) simp
  next
    case False
    let ?pos = "off + length buf"
    let ?want = "min (n - length buf) (length file - ?pos)"
    let ?k = "got ?pos ?want"
    have want: "?want = n - length buf" "0 < ?want"
      using False assms(2) by auto
    then have k: "0 < ?k" "?k \<le> n - length buf"
      using assms(1) unfolding reads_some_def by auto
    let ?buf = "buf @ take ?k (drop ?pos file)"
    have len: "length ?buf = length buf + ?k"
      using k(2) assms(2) False by auto
    have "?buf = take (length ?buf) (drop off file)"
      unfolding len take_add using less.prems(2) by (simp add: add.commute)
    moreover have "n - length ?buf < n - length buf" "length ?buf \<le> n"
      unfolding len using k False by linarith+
    ultimately have "pread got file off n ?buf = Some (take n (drop off file))"
      using less.hyps by blast
    then show ?thesis
      using False want by (subst pread.simps) (simp add: Let_def)
  qed
qed

lemma nth_put_slice:
  "at + length bs \<le> length dest \<Longrightarrow> i < length dest \<Longrightarrow> put_slice at bs dest ! i = (if at \<le> i \<and> i < at + length bs then bs ! (i - at) else dest ! i)"
  by (auto simp: put_slice_def nth_append min_def not_less)

lemma read_job_right:
  assumes "range_ok d r g f fo at ln" "at + ln \<le> length dest" "reads_some got"
  shows "read_job direct got d (f, fo, at, ln) dest = Some (put_slice at (take ln (drop (g + at) r)) dest)"
proof -
  obtain c where c: "d f = Some c" "fo + ln \<le> length c" "take ln (drop fo c) = take ln (drop (g + at) r)"
    using assms(1) by (auto simp: range_ok_def)
  have "pread got c fo ln [] = Some (take ln (drop fo c))"
    using pread_right[OF assms(3) c(2), of "[]"] by simp
  moreover have "min ln (length dest - at) = ln"
    using assms(2) by simp
  ultimately show ?thesis
    using c assms(2) by (simp add: read_job_def Prelude.slice_def)
qed

lemma read_all_right:
  assumes "\<forall>(f, fo, at, ln) \<in> set js. range_ok d r g f fo at ln \<and> at + ln \<le> length dest"
    and "reads_some got"
  shows "\<exists>out. read_all direct got d js dest = Some out \<and> length out = length dest \<and>
    (\<forall>i < length dest. out ! i = (if \<exists>(f, fo, at, ln) \<in> set js. at \<le> i \<and> i < at + ln then r ! (g + i) else dest ! i))"
  using assms(1)
proof (induction js arbitrary: dest)
  case (Cons j js)
  obtain f fo at ln where j: "j = (f, fo, at, ln)"
    by (cases j)
  have ok: "range_ok d r g f fo at ln" "at + ln \<le> length dest"
    using Cons.prems j by auto
  let ?bs = "take ln (drop (g + at) r)"
  let ?dest = "put_slice at ?bs dest"
  have bs: "length ?bs = ln"
    using ok(1) unfolding range_ok_def by (metis add_diff_cancel_left' diff_le_mono length_drop length_take min.absorb2)
  have len: "length ?dest = length dest"
    using ok(2) bs by (simp add: put_slice_def)
  have nth: "?dest ! i = (if at \<le> i \<and> i < at + ln then r ! (g + i) else dest ! i)" if "i < length dest" for i
    using that ok(2) bs by (subst nth_put_slice) auto
  have "\<forall>(f, fo, at, ln) \<in> set js. range_ok d r g f fo at ln \<and> at + ln \<le> length ?dest"
    using Cons.prems unfolding len by simp
  then obtain out where out: "read_all direct got d js ?dest = Some out" "length out = length ?dest"
      "\<forall>i < length ?dest. out ! i = (if \<exists>(f, fo, at, ln) \<in> set js. at \<le> i \<and> i < at + ln then r ! (g + i) else ?dest ! i)"
    using Cons.IH by blast
  have "read_all direct got d (j # js) dest = Some out"
    using read_job_right[OF ok assms(2)] out(1) by (simp add: j)
  moreover have "out ! i = (if \<exists>(f, fo, at, ln) \<in> set (j # js). at \<le> i \<and> i < at + ln then r ! (g + i) else dest ! i)"
    if "i < length dest" for i
    using out(3) nth[OF that] that len by (simp add: j)
  ultimately show ?case
    using out(2) len by auto
qed simp

lemma read_into_right:
  assumes "laid 0 (fr_shards rd) (fr_disk rd)" "\<forall>s \<in> set (fr_shards rd). ALIGN dvd fs_nbytes s"
    and "off + align_up n \<le> length (stream (fr_shards rd) (fr_disk rd))" "ALIGN dvd off" "0 < chunk" "align_up n \<le> length dest"
    and "reads_some got" "\<And>js. set (sched js) = set js"
  shows "\<exists>out. read_into direct got sched chunk rd off n dest = Some out \<and> length out = length dest \<and>
    take (align_up n) out = take (align_up n) (drop off (stream (fr_shards rd) (fr_disk rd)))"
proof -
  let ?r = "stream (fr_shards rd) (fr_disk rd)"
  obtain ps where ps: "pieces (fr_shards rd) off 0 n = Some ps" "pieces_ok (fr_disk rd) ?r off 0 n ps"
    using pieces_right[of "[]" "fr_shards rd" "fr_disk rd" ?r n off 0] assms(1-4) align_up_ge[of n] by auto
  define js where "js = concat (map (piece_jobs chunk) ps)"
  have js: "read_jobs chunk (fr_shards rd) off n = Some js" "jobs_ok (fr_disk rd) ?r off (align_up n) js"
    using ps(1) assms(5) jobs_right[OF ps(2) assms(5)] by (simp_all add: read_jobs_def js_def)
  have "\<forall>(f, fo, at, ln) \<in> set (sched js). range_ok (fr_disk rd) ?r off f fo at ln \<and> at + ln \<le> length dest"
    using js(2) assms(6,8) unfolding jobs_ok_def by fastforce
  from read_all_right[OF this assms(7), of direct] obtain out where out: "read_all direct got (fr_disk rd) (sched js) dest = Some out"
      "length out = length dest"
      "\<forall>i < length dest. out ! i = (if \<exists>(f, fo, at, ln) \<in> set (sched js). at \<le> i \<and> i < at + ln then ?r ! (off + i) else dest ! i)"
    by blast
  have "out ! i = ?r ! (off + i)" if "i < align_up n" for i
    using that out(3) js(2) assms(6,8) unfolding jobs_ok_def by simp
  then have "take (align_up n) out = take (align_up n) (drop off ?r)"
    using assms(3,6) out(2) by (intro nth_equalityI) auto
  then show ?thesis
    using js(1) out(1,2) by (simp add: read_into_def)
qed

section \<open>What is written can be read\<close>

lemma sorted_shards: "laid off ss d \<Longrightarrow> sorted (map fs_off ss) \<and> (\<forall>s \<in> set ss. off \<le> fs_off s)"
proof (induction ss arbitrary: off)
  case (Cons s ss)
  then show ?case
    using Cons.IH[of "off + fs_nbytes s"] by fastforce
qed simp

lemma sort_key_sorted: "sorted (map f xs) \<Longrightarrow> sort_key f xs = xs"
  by (induction xs) (auto simp: insort_is_Cons)

text \<open>A checkpoint that was written and opened: the stream of the reader's shards, the entries, and the tensors they came from.\<close>

definition opened :: "tensor list \<Rightarrow> ftw_reader \<Rightarrow> bool" where
  "opened ts rd \<longleftrightarrow> laid 0 (fr_shards rd) (fr_disk rd) \<and> (\<forall>s \<in> set (fr_shards rd). ALIGN dvd fs_nbytes s) \<and>
     list_all2 (\<lambda>t e. stored t e (stream (fr_shards rd) (fr_disk rd))) ts (ix_tensors (fr_index rd))"

lemma write_open:
  assumes "0 < limit" "limit mod ALIGN = 0"
  shows "\<exists>d ix rd. write_ftw limit ts = Some (d, ix) \<and> ftw_reader_init d ix = Some rd \<and> opened ts rd"
proof -
  obtain w where w: "ftw_writer_init limit = Some w" "at_boundary w" "written w = []" "fw_tensors w = []"
    using assms by (auto simp: ftw_writer_init_def at_boundary_def writer_ok_def written_def all_shards_def open_shard_def)
  obtain v es where v: "add_tensors ts w = Some v" "at_boundary v" "fw_tensors v = es" "list_all2 (\<lambda>t e. stored t e (written v)) ts es"
    using add_tensors_ok[OF w(2), of ts] w(4) by auto
  have laid: "laid 0 (all_shards v) (fw_disk v)" and aligned: "\<forall>s \<in> set (all_shards v). ALIGN dvd fs_nbytes s"
    using v(2) boundary_cur[OF v(2)] by (auto simp: at_boundary_def writer_ok_def all_shards_def open_shard_def)
  define rd where "rd = \<lparr>fr_index = finalize v, fr_shards = all_shards v, fr_disk = fw_disk v\<rparr>"
  have "ftw_reader_init (fw_disk v) (finalize v) = Some rd"
    using sorted_shards[OF laid] by (simp add: ftw_reader_init_def finalize_def rd_def all_shards_def sort_key_sorted)
  moreover have "opened ts rd"
    using laid aligned v(3,4) by (simp add: opened_def rd_def finalize_def written_def)
  moreover have "write_ftw limit ts = Some (fw_disk v, finalize v)"
    using w(1) v(1) by (simp add: write_ftw_def)
  ultimately show ?thesis
    by blast
qed

lemma read_stored:
  assumes "opened ts rd" "(t, e) \<in> set (zip ts (ix_tensors (fr_index rd)))" "0 < chunk" "reads_some got" "\<And>js. set (sched js) = set js"
    and "align_up (fe_nbytes e) \<le> length dest"
  shows "\<exists>out. read_into direct got sched chunk rd (fe_off e) (fe_nbytes e) dest = Some out \<and> take (fe_nbytes e) out = tn_raw t"
proof -
  let ?r = "stream (fr_shards rd) (fr_disk rd)"
  have e: "stored t e ?r"
    using assms(1,2) by (auto simp: opened_def list_all2_iff)
  obtain out where out: "read_into direct got sched chunk rd (fe_off e) (fe_nbytes e) dest = Some out"
      "take (align_up (fe_nbytes e)) out = take (align_up (fe_nbytes e)) (drop (fe_off e) ?r)"
    using read_into_right[of rd "fe_off e" "fe_nbytes e" chunk dest got sched direct] assms e by (auto simp: opened_def stored_def)
  from arg_cong[OF out(2), of "take (fe_nbytes e)"] have "take (fe_nbytes e) out = take (fe_nbytes e) (drop (fe_off e) ?r)"
    using align_up_ge[of "fe_nbytes e"] by (simp add: min.absorb1)
  also have "\<dots> = tn_raw t"
    using storedD[OF e] by simp
  finally show ?thesis
    using out(1) by blast
qed

lemma those_map_const: "(\<And>x. x \<in> set xs \<Longrightarrow> f x = Some (g x)) \<Longrightarrow> those (map f xs) = Some (map g xs)"
  by (induction xs) auto

text \<open>A tensor without elements can be written but not loaded: its buffer would be a mapping of no bytes.\<close>

lemma empty_tensor_not_loaded: "fe_nbytes e = 0 \<Longrightarrow> load_weight direct got sched chunk rd e = None"
  by (simp add: load_weight_def transient_buffer_def)

lemma load_weight_stored:
  assumes "opened ts rd" "(t, e) \<in> set (zip ts (ix_tensors (fr_index rd)))" "0 < chunk" "reads_some got" "\<And>js. set (sched js) = set js" "tn_raw t \<noteq> []"
  shows "load_weight direct got sched chunk rd e = Some (tn_name t, tn_dtype t, tn_shape t, tn_raw t)"
proof -
  have e: "stored t e (stream (fr_shards rd) (fr_disk rd))"
    using assms(1,2) by (auto simp: opened_def list_all2_iff)
  then have "0 < align_up (fe_nbytes e)"
    using assms(6) storedD(1)[OF e] align_up_ge[of "fe_nbytes e"] by (cases "tn_raw t") auto
  then show ?thesis
    using read_stored[OF assms(1-5), of "replicate (align_up (fe_nbytes e)) 0" direct] e
    by (auto simp: load_weight_def transient_buffer_def stored_def)
qed

lemma layer_window_right:
  assumes "opened ts rd" "(t, e) \<in> set (zip ts (ix_tensors (fr_index rd)))" "0 < chunk" "reads_some got" "\<And>js. set (sched js) = set js"
    and "at + n \<le> length (tn_raw t)"
  defines "off \<equiv> fe_off e + at"
  shows "load_layer direct got sched chunk rd (off - off div ALIGN * ALIGN, off div ALIGN * ALIGN, align_up (off + n) - off div ALIGN * ALIGN, n) =
    Some (Prelude.slice at (at + n) (tn_raw t))"
proof -
  let ?r = "stream (fr_shards rd) (fr_disk rd)"
  have e: "stored t e ?r"
    using assms(1,2) by (auto simp: opened_def list_all2_iff)
  define lo where "lo = off div ALIGN * ALIGN"
  define len where "len = align_up (off + n) - lo"
  have lo: "lo \<le> off" "ALIGN dvd lo"
    by (simp_all add: lo_def)
  have up: "off + n \<le> lo + len" "lo + len = align_up (off + n)"
    using align_up_ge[of "off + n"] lo(1) by (simp_all add: len_def)
  have len: "align_up len = len"
    using lo align_up_dvd up(2) by (intro align_up_fix) (metis dvd_add_right_iff)
  have "align_up (off + n) \<le> align_up (fe_off e + fe_nbytes e)"
    using assms(6) storedD(1)[OF e] align_up_ge[of "fe_off e + fe_nbytes e"] align_up_dvd by (intro align_up_least) (auto simp: off_def)
  then have "lo + align_up len \<le> length ?r"
    using storedD[OF e] align_up_add[of "fe_off e" "fe_nbytes e"] up(2) len by simp
  then obtain out where out: "read_into direct got sched chunk rd lo len (replicate len 0) = Some out" "length out = len"
      "take len out = take len (drop lo ?r)"
    using read_into_right[of rd lo len chunk "replicate len 0" got sched direct] assms(1,3-5) lo(2) len by (auto simp: opened_def)
  have "Prelude.slice (off - lo) (off - lo + n) out = take n (drop off ?r)"
  proof -
    have "take n (drop (off - lo) (take len out)) = take n (drop (off - lo) (take len (drop lo ?r)))"
      by (simp only: out(3))
    then show ?thesis
      using lo(1) up(1) out(2) by (simp add: Prelude.slice_def drop_take min.absorb1)
  qed
  also have "\<dots> = take n (drop at (take (fe_nbytes e) (drop (fe_off e) ?r)))"
    using assms(6) storedD(1)[OF e] by (simp add: off_def drop_take min.absorb1 add.commute)
  also have "\<dots> = Prelude.slice at (at + n) (tn_raw t)"
    using storedD[OF e] by (simp add: Prelude.slice_def)
  finally show ?thesis
    using out(1) by (simp add: load_layer_def lo_def[symmetric] len_def[symmetric])
qed

section \<open>Round trip\<close>

lemma stored_map: "list_all2 (\<lambda>t e. stored t e r) ts es \<Longrightarrow> (\<And>t e. (t, e) \<in> set (zip ts es) \<Longrightarrow> P t \<Longrightarrow> stored t e r \<Longrightarrow> f e = Some (g t)) \<Longrightarrow>
   (\<And>t e. stored t e r \<Longrightarrow> Q e = P t) \<Longrightarrow> those (map f (filter Q es)) = Some (map g (filter P ts))"
proof (induction rule: list_all2_induct)
  case (Cons t ts e es)
  have "f e = Some (g t)" if "P t"
    using Cons.prems(1)[of t e] Cons.hyps(1) that by simp
  moreover have "those (map f (filter Q es)) = Some (map g (filter P ts))"
    using Cons by simp
  ultimately show ?case
    using Cons.prems(2)[OF Cons.hyps(1)] by simp
qed simp

lemma concat_slices: "concat (map (\<lambda>l. Prelude.slice (l * n) (l * n + n) xs) [0..<k]) = take (k * n) xs"
  by (induction k) (simp_all add: Prelude.slice_def take_add[symmetric] add.commute)

text \<open>C21: a checkpoint round-trips. Whatever tensors are written, with any positive shard size (a multiple of the block size,
  as the writer asserts), and however they are read back (direct reads that return short but not nothing, mapped files, any
  positive chunk size, any order in which the pool runs the jobs), writing and opening succeed, and loading gives every
  tensor of the requested kinds with its name, type, shape and bytes, in the order of writing; it fails just when one of
  them has no bytes.\<close>

theorem ftw_roundtrip:
  assumes "0 < limit" "limit mod ALIGN = 0" "0 < chunk" "reads_some got" "\<And>js. set (sched js) = set js"
  shows "\<exists>d ix rd. write_ftw limit ts = Some (d, ix) \<and> ftw_reader_init d ix = Some rd \<and>
    iter_ftw_weights direct got sched chunk kinds keep rd =
      (let sel = filter (\<lambda>t. (kinds = {} \<or> tn_kind t \<in> kinds) \<and> keep (tn_name t)) ts
       in if \<exists>t\<in>set sel. tn_raw t = [] then None else Some (map (\<lambda>t. (tn_name t, tn_dtype t, tn_shape t, tn_raw t)) sel))"
proof -
  obtain d ix rd where rd: "write_ftw limit ts = Some (d, ix)" "ftw_reader_init d ix = Some rd" "opened ts rd"
    using write_open[OF assms(1,2)] by blast
  define P where "P t \<longleftrightarrow> (kinds = {} \<or> tn_kind t \<in> kinds) \<and> keep (tn_name t)" for t :: tensor
  define Q where "Q e \<longleftrightarrow> (kinds = {} \<or> fe_kind e \<in> kinds) \<and> keep (fe_name e)" for e :: ftw_entry
  let ?es = "ix_tensors (fr_index rd)"
  have st: "list_all2 (\<lambda>t e. stored t e (stream (fr_shards rd) (fr_disk rd))) ts ?es"
    using rd(3) by (simp add: opened_def)
  have PQ: "Q e = P t" if "stored t e r" for t e r using that by (simp add: stored_def P_def Q_def)
  have "those (map (load_weight direct got sched chunk rd) (filter Q ?es)) =
      (if \<exists>t\<in>set (filter P ts). tn_raw t = [] then None else Some (map (\<lambda>t. (tn_name t, tn_dtype t, tn_shape t, tn_raw t)) (filter P ts)))"
  proof (cases "\<exists>t\<in>set (filter P ts). tn_raw t = []")
    case True
    then obtain i where i: "i < length ts" "P (ts ! i)" "tn_raw (ts ! i) = []" by (auto simp: in_set_conv_nth)
    then have e: "stored (ts ! i) (?es ! i) (stream (fr_shards rd) (fr_disk rd))" "?es ! i \<in> set ?es"
      using st by (auto simp: list_all2_conv_all_nth)
    have "?es ! i \<in> set (filter Q ?es)" using PQ[OF e(1)] i(2) e(2) by simp
    moreover have "load_weight direct got sched chunk rd (?es ! i) = None"
      using storedD(1)[OF e(1)] i(3) by (intro empty_tensor_not_loaded) simp
    ultimately have "those (map (load_weight direct got sched chunk rd) (filter Q ?es)) = None" by (rule those_map_None)
    with True show ?thesis by simp
  next
    case False
    have "load_weight direct got sched chunk rd e = Some (tn_name t, tn_dtype t, tn_shape t, tn_raw t)"
      if "(t, e) \<in> set (zip ts ?es)" "P t" for t e
      using load_weight_stored[OF rd(3) that(1) assms(3-5)] False set_zip_leftD[OF that(1)] that(2) by auto
    with False show ?thesis using PQ by (simp only: if_False) (intro stored_map[OF st]; simp)
  qed
  then show ?thesis
    using rd(1,2) unfolding P_def[abs_def] Q_def[abs_def] Let_def
    by (intro exI[of _ d] exI[of _ ix] exI[of _ rd] conjI)
      (simp_all only: iter_ftw_weights_def ftw_entries_def filter_filter conj_commute[of "keep _"])
qed

text \<open>C22: the layers of a flat expert bank are cut out of the file exactly: reading each through its aligned window and dropping the head
  gives the consecutive slices of the bank's bytes, one per layer, although a layer need not start at a block boundary.\<close>

theorem ftw_bank_layers:
  assumes "0 < limit" "limit mod ALIGN = 0" "0 < chunk" "reads_some got" "\<And>js. set (sched js) = set js"
    and "write_ftw limit ts = Some (d, ix)" "ftw_reader_init d ix = Some rd" "i < length ts" "t = ts ! i"
    and "tn_shape t = rows # row_shape" "0 < layers" "rows mod layers = 0" "length (tn_raw t) = rows * (prod_list row_shape * elsize)"
  shows "\<exists>parts. load_flat_bank direct got sched chunk layers elsize rd (ix_tensors ix ! i) = Some parts \<and>
    length parts = layers \<and> (\<forall>p \<in> set parts. length p = rows div layers * (prod_list row_shape * elsize)) \<and> concat parts = tn_raw t"
proof -
  let ?e = "ix_tensors ix ! i"
  define lb where "lb = rows div layers * (prod_list row_shape * elsize)"
  have ix: "fr_index rd = ix"
    using assms(7) by (auto simp: ftw_reader_init_def split: if_splits)
  have rd: "opened ts rd"
    using write_open[OF assms(1,2), of ts] assms(6,7) by auto
  then have mem: "(t, ?e) \<in> set (zip ts (ix_tensors (fr_index rd)))" and e: "stored t ?e (stream (fr_shards rd) (fr_disk rd))"
    using assms(8,9) by (auto simp: opened_def list_all2_conv_all_nth ix in_set_zip)
  have size: "length (tn_raw t) = layers * lb"
    using assms(12,13) by (auto simp: lb_def)
  have inside: "l * lb + lb \<le> layers * lb" if "l < layers" for l
    using that mult_le_mono1[of "Suc l" layers lb] by (simp add: add.commute)
  have windows: "layer_windows layers elsize ?e = Some (map (\<lambda>l. let off = fe_off ?e + l * lb in
      (off - off div ALIGN * ALIGN, off div ALIGN * ALIGN, align_up (off + lb) - off div ALIGN * ALIGN, lb)) [0..<layers])"
    using assms(10-12) e size by (simp add: layer_windows_def stored_def lb_def[symmetric] Let_def mult.commute[of lb layers])
  have layer: "load_layer direct got sched chunk rd (let off = fe_off ?e + l * lb in
      (off - off div ALIGN * ALIGN, off div ALIGN * ALIGN, align_up (off + lb) - off div ALIGN * ALIGN, lb)) =
    Some (Prelude.slice (l * lb) (l * lb + lb) (tn_raw t))" if "l < layers" for l
    using layer_window_right[OF rd mem assms(3-5), of "l * lb" lb] size inside[OF that] by (simp add: Let_def)
  let ?parts = "map (\<lambda>l. Prelude.slice (l * lb) (l * lb + lb) (tn_raw t)) [0..<layers]"
  have "load_flat_bank direct got sched chunk layers elsize rd ?e = Some ?parts"
    unfolding load_flat_bank_def windows using layer by (simp add: comp_def) (rule those_map_const, simp)
  moreover have "\<forall>p \<in> set ?parts. length p = lb"
    using size inside by (auto simp: min.absorb1)
  moreover have "concat ?parts = tn_raw t"
    using size by (simp add: concat_slices)
  ultimately show ?thesis
    unfolding lb_def by (intro exI[of _ ?parts]) (simp add: lb_def)
qed

section \<open>Direct I/O\<close>

lemma piece_jobs_aligned:
  assumes "pieces_ok d r g 0 n ps" "p \<in> set ps" "(f, a, b, m) \<in> set (piece_jobs chunk p)" "ALIGN dvd chunk"
  shows "ALIGN dvd a \<and> ALIGN dvd b \<and> ALIGN dvd m \<and> m \<le> chunk"
proof -
  obtain fo dst len i where p: "p = (f, fo, dst, len)" "a = fo + i * chunk" "b = dst + i * chunk" "m = min chunk (align_up len - i * chunk)"
    using assms(3) by (cases p) (auto simp: piece_jobs_mem)
  have "ALIGN dvd fo" "ALIGN dvd dst"
    using assms(1,2) p(1) unfolding pieces_ok_def by auto
  moreover have "ALIGN dvd align_up len - i * chunk"
    using align_up_dvd assms(4) by (intro dvd_diff_nat) auto
  ultimately show ?thesis
    using p(2-4) assms(4) by (auto simp: min_def)
qed

text \<open>C23: every read is legal for direct I/O. With a chunk size that is a multiple of the block size, the jobs of a tensor name an aligned
  offset in the file, an aligned offset in the buffer and an aligned length of at most a chunk, they stay inside the file and
  inside the rounded-up buffer.\<close>

theorem ftw_direct_reads:
  assumes "0 < limit" "limit mod ALIGN = 0" "0 < chunk" "ALIGN dvd chunk"
    and "write_ftw limit ts = Some (d, ix)" "ftw_reader_init d ix = Some rd" "e \<in> set (ix_tensors ix)"
  shows "\<exists>js. read_jobs chunk (fr_shards rd) (fe_off e) (fe_nbytes e) = Some js \<and>
    (\<forall>(f, fo, at, n) \<in> set js. ALIGN dvd fo \<and> ALIGN dvd at \<and> ALIGN dvd n \<and> n \<le> chunk \<and> at + n \<le> align_up (fe_nbytes e) \<and>
       (\<exists>c. d f = Some c \<and> fo + n \<le> length c))"
proof -
  have ix: "fr_index rd = ix" "fr_disk rd = d"
    using assms(6) by (auto simp: ftw_reader_init_def split: if_splits)
  have rd: "opened ts rd"
    using write_open[OF assms(1,2), of ts] assms(5,6) by auto
  then obtain t where e: "stored t e (stream (fr_shards rd) (fr_disk rd))"
    using assms(7) ix by (auto simp: opened_def list_all2_conv_all_nth in_set_conv_nth)
  obtain ps where ps: "pieces (fr_shards rd) (fe_off e) 0 (fe_nbytes e) = Some ps"
      "pieces_ok d (stream (fr_shards rd) (fr_disk rd)) (fe_off e) 0 (fe_nbytes e) ps"
    using pieces_right[of "[]" "fr_shards rd" "fr_disk rd" "stream (fr_shards rd) (fr_disk rd)" "fe_nbytes e" "fe_off e" 0]
      rd storedD[OF e] align_up_ge[of "fe_nbytes e"] ix by (auto simp: opened_def)
  let ?js = "concat (map (piece_jobs chunk) ps)"
  have "\<forall>(f, fo, at, n) \<in> set ?js. (\<exists>c. d f = Some c \<and> fo + n \<le> length c) \<and> at + n \<le> align_up (fe_nbytes e)"
    using jobs_right[OF ps(2) assms(3)] unfolding jobs_ok_def range_ok_def by fast
  moreover have "ALIGN dvd fo \<and> ALIGN dvd at \<and> ALIGN dvd n \<and> n \<le> chunk" if "(f, fo, at, n) \<in> set ?js" for f fo at n
    using piece_jobs_aligned[OF ps(2) _ _ assms(4), of _ f fo at n] that by auto
  ultimately have "\<forall>(f, fo, at, n) \<in> set ?js. ALIGN dvd fo \<and> ALIGN dvd at \<and> ALIGN dvd n \<and> n \<le> chunk \<and> at + n \<le> align_up (fe_nbytes e) \<and>
      (\<exists>c. d f = Some c \<and> fo + n \<le> length c)"
    by blast
  moreover have "read_jobs chunk (fr_shards rd) (fe_off e) (fe_nbytes e) = Some ?js"
    using ps(1) assms(3) by (simp add: read_jobs_def)
  ultimately show ?thesis
    by blast
qed

section \<open>A concrete checkpoint\<close>

definition ex_tensors :: "tensor list" where
  "ex_tensors =
     [\<lparr>tn_name = lit ''bank'', tn_kind = lit ''experts_bank'', tn_dtype = lit ''uint8'', tn_shape = [4, 2], tn_raw = [1, 2, 3, 4, 5, 6, 7, 8]\<rparr>,
      \<lparr>tn_name = lit ''norm'', tn_kind = lit ''weight'', tn_dtype = lit ''uint8'', tn_shape = [3], tn_raw = [9, 10, 11]\<rparr>]"

lemma ftw_roundtrip_witness:
  "\<exists>d ix rd. write_ftw 4096 ex_tensors = Some (d, ix) \<and> ftw_reader_init d ix = Some rd \<and>
    iter_ftw_weights True (\<lambda>pos want. 1) rev 4096 {lit ''weight''} (\<lambda>n. True) rd = Some [(lit ''norm'', lit ''uint8'', [3], [9, 10, 11])]"
proof -
  have "filter (\<lambda>t. ({lit ''weight''} = {} \<or> tn_kind t \<in> {lit ''weight''}) \<and> True) ex_tensors =
      [\<lparr>tn_name = lit ''norm'', tn_kind = lit ''weight'', tn_dtype = lit ''uint8'', tn_shape = [3], tn_raw = [9, 10, 11]\<rparr>]"
    by (simp add: ex_tensors_def lit_def)
  then show ?thesis
    using ftw_roundtrip[of 4096 4096 "\<lambda>pos want. 1" rev ex_tensors True "{lit ''weight''}" "\<lambda>n. True"]
    by (simp add: ALIGN_def reads_some_def ex_tensors_def)
qed

lemma ftw_bank_layers_witness:
  "\<exists>d ix rd. write_ftw 4096 ex_tensors = Some (d, ix) \<and> ftw_reader_init d ix = Some rd \<and>
    (\<exists>parts. load_flat_bank False (\<lambda>pos want. want) rev 8192 2 1 rd (ix_tensors ix ! 0) = Some parts \<and> length parts = 2 \<and> concat parts = [1, 2, 3, 4, 5, 6, 7, 8])"
proof -
  obtain d ix rd where rd: "write_ftw 4096 ex_tensors = Some (d, ix)" "ftw_reader_init d ix = Some rd"
    using write_open[of 4096 ex_tensors] by (auto simp: ALIGN_def)
  moreover have "\<exists>parts. load_flat_bank False (\<lambda>pos want. want) rev 8192 2 1 rd (ix_tensors ix ! 0) = Some parts \<and> length parts = 2 \<and>
      concat parts = tn_raw (ex_tensors ! 0)"
    using ftw_bank_layers[OF _ _ _ _ _ rd, of 8192 "\<lambda>pos want. want" rev 0 "ex_tensors ! 0" 4 "[2]" 2 1 False]
    by (simp add: ALIGN_def reads_some_def ex_tensors_def) blast
  ultimately show ?thesis
    by (auto simp: ex_tensors_def)
qed

lemma ftw_direct_reads_witness:
  "\<exists>d ix rd e js. write_ftw 4096 ex_tensors = Some (d, ix) \<and> ftw_reader_init d ix = Some rd \<and> e \<in> set (ix_tensors ix) \<and>
    read_jobs 8192 (fr_shards rd) (fe_off e) (fe_nbytes e) = Some js \<and> (\<forall>(f, fo, at, n) \<in> set js. ALIGN dvd fo \<and> ALIGN dvd at \<and> ALIGN dvd n)"
proof -
  obtain d ix rd where rd: "write_ftw 4096 ex_tensors = Some (d, ix)" "ftw_reader_init d ix = Some rd" "opened ex_tensors rd"
    using write_open[of 4096 ex_tensors] by (auto simp: ALIGN_def)
  then have "fr_index rd = ix"
    by (auto simp: ftw_reader_init_def split: if_splits)
  then have "ix_tensors ix \<noteq> []"
    using rd(3) by (auto simp: opened_def ex_tensors_def)
  then obtain e where e: "e \<in> set (ix_tensors ix)"
    by (cases "ix_tensors ix") auto
  have "\<exists>js. read_jobs 8192 (fr_shards rd) (fe_off e) (fe_nbytes e) = Some js \<and> (\<forall>(f, fo, at, n) \<in> set js. ALIGN dvd fo \<and> ALIGN dvd at \<and> ALIGN dvd n)"
    using ftw_direct_reads[OF _ _ _ _ rd(1,2) e, of 8192] by (fastforce simp: ALIGN_def)
  then show ?thesis
    using rd(1,2) e by blast
qed

end
