(* ===== verification/Spec2Isabelle.thy ===== *)
theory Spec2Isabelle
  imports Serving Detokenize LogStream Wire EngineSizing ExpertKernel MoeAlign Harmony ServeManager Ftw
begin

text \<open>
  The cache, scheduling and serving core of FreeToken (\<^verbatim>\<open>src/python/freetoken\<close>), a single-machine LLM server: a
  scheduler process takes requests, batches them, runs the engine and streams sampled tokens back through a detokenizer.
  This theory collects the development; every other theory opens with what it holds.

  \<^bold>\<open>How the program works.\<close> A request waits in the prefill manager, is matched against the prefix cache, gets a table row
  and a lock on the matched prefix, is prefilled in chunks under a token budget, decodes one token per step, and when it
  finishes gives its pages to the prefix cache or to the free list. \<open>overlap_loop\<close> launches the next batch before the
  results of the last one are drained, \<open>normal_loop\<close> drains first. The page pool, the window pool of sliding-window
  models, the recurrent-state pool of hybrid models, the encoder cache of images and the slot cache of offloaded experts
  each own a bounded resource; the engine sizes them at start-up and may resize them at run time.

  \<^bold>\<open>What models what.\<close> Paths are under \<^verbatim>\<open>python/freetoken\<close>. Fields and functions keep the names of the code, with a
  prefix per record.
  \<^item> \<open>Prelude\<close>: \<^verbatim>\<open>utils/misc.py\<close>, Python slices, \<open>assert\<close>, dictionaries as association lists in insertion order.
    \<open>Heapq\<close>: the standard library's \<^verbatim>\<open>heapq\<close>, with its contract as the locale \<open>min_queue\<close>. \<open>PyStr\<close>: \<open>str\<close> methods
    and the hold-back loop the streaming parsers share.
  \<^item> \<open>RadixTree\<close>, \<open>RadixInv\<close>, \<open>RadixOps\<close>, \<open>RadixPaths\<close>, \<open>RadixAccounts\<close>, \<open>RadixContents\<close>: the node store of
    \<^verbatim>\<open>kvcache/radix_cache.py\<close>, its invariant with ghost path labels, the tree operations, the parent loops, the token
    totals and reference counts, and the abstract contents of a tree. \<open>RadixCache\<close>: \<open>RadixPrefixCache\<close> and
    \<^verbatim>\<open>kvcache/naive_cache.py\<close>. \<open>HybridRadix\<close>: \<^verbatim>\<open>kvcache/hybrid_radix_cache.py\<close>. \<open>SwaRadix\<close>:
    \<^verbatim>\<open>kvcache/swa_radix_cache.py\<close>. \<open>KeptPages\<close>: the protected total as a count of distinct page prefixes.
  \<^item> \<open>Pools\<close>: \<^verbatim>\<open>kvcache/linear_state_pool.py\<close> and the allocator of \<^verbatim>\<open>kvcache/hybrid_swa_pool.py\<close>; their shared
    contract is the locale \<open>slot_pool\<close>.
  \<^item> \<open>Requests\<close>: \<^verbatim>\<open>core.py\<close>, \<^verbatim>\<open>scheduler/utils.py\<close>, \<^verbatim>\<open>scheduler/table.py\<close>, \<^verbatim>\<open>scheduler/decode.py\<close>.
  \<^item> \<open>CacheManager\<close>: \<^verbatim>\<open>scheduler/cache.py\<close> for the four cache kinds. \<open>PageCache\<close>: its contract with the prefix cache,
    the locale \<open>page_cache\<close>. \<open>CacheBooks\<close>, \<open>CacheLife\<close>, \<open>Room\<close>: the page books, the life of requests on one manager,
    and what the pool can still give.
  \<^item> \<open>MultiModal\<close>: \<^verbatim>\<open>scheduler/mm.py\<close>. \<open>EncoderCache\<close>: \<^verbatim>\<open>mm/encoder_cache.py\<close> and the encoder step of
    \<^verbatim>\<open>engine/engine.py\<close>.
  \<^item> \<open>Prefill\<close>, \<open>PrefillBooks\<close>: \<^verbatim>\<open>scheduler/prefill.py\<close> and what a pass does to the books.
  \<^item> \<open>SchedulerCore\<close>: \<^verbatim>\<open>scheduler/scheduler.py\<close>. \<open>SchedulerLive\<close>, \<open>SchedulerSteps\<close>, \<open>SchedulerLaunch\<close>, \<open>SchedulerRun\<close>,
    \<open>SchedulerWork\<close>, \<open>SchedulerSafe\<close>: the invariant of the whole scheduler, its preservation by messages, drains and
    launches, and the work that shrinks. \<open>Serving\<close>: the reachable states and the system properties.
  \<^item> \<open>Dsv4Sizing\<close>: \<^verbatim>\<open>kvcache/dsv4_cost_model.py\<close> and the sizing of \<^verbatim>\<open>kvcache/dsv4_paged_pool.py\<close>. \<open>EngineSizing\<close>:
    \<^verbatim>\<open>engine/cache_budget.py\<close>, the geometry part of \<^verbatim>\<open>engine/engine.py\<close> and the runtime resize with the fit checks of the
    pools.
  \<^item> \<open>ExpertCache\<close>, \<open>ExpertKernel\<close>: \<^verbatim>\<open>moe/offload_cache.py\<close>, \<^verbatim>\<open>moe/offload_kernels.py\<close> and the decode and prefill of
    \<^verbatim>\<open>layers/moe.py\<close>; the second theory holds the Triton kernels. \<open>MoeAlign\<close>: the sort of tokens by expert of
    \<^verbatim>\<open>kernel/triton/moe_align.py\<close>.
  \<^item> \<open>Ftw\<close>: the weight file of \<^verbatim>\<open>checkpoint/ftw.py\<close>, its writer, its reader and the loading of weights and expert banks.
  \<^item> \<open>Detokenize\<close>: \<^verbatim>\<open>tokenizer/detokenize.py\<close>. \<open>Reasoning\<close>, \<open>Harmony\<close>: \<^verbatim>\<open>server/reasoning_parser.py\<close>, the
    \<open><think>\<close> family with MiniMax M3, and gpt-oss.
  \<^item> \<open>LogRings\<close>, \<open>LogStream\<close>: \<^verbatim>\<open>server/request_ring.py\<close>, \<^verbatim>\<open>daemon/logring.py\<close> (locale \<open>cursor_log\<close>) and \<open>_log_stream\<close> of
    \<^verbatim>\<open>daemon/app.py\<close> as a step relation. \<open>ServeManager\<close>: \<^verbatim>\<open>daemon/serve_manager.py\<close> as steps of concurrent threads.
    \<open>Wire\<close>: \<^verbatim>\<open>message/utils.py\<close>.

  \<^bold>\<open>What is shown.\<close> For the scheduler: on text traffic neither loop raises, whatever arrives and whatever is sampled; every
  KV slot has exactly one owner among the free list, the dummy page, the prefix tree and the live requests, and so has
  every table row; idle means nothing leaked; admitted work always fits; without new messages the loop drains to idle.
  These rest on contracts proved below them: the longest-prefix match, eviction in least-recently-used order that spares
  locked paths, exact allocation, the books of the cache manager, admission that never overcommits. The engine's sizing
  gives deployments for which the scheduler's guarantees hold, at start-up and after each granted resize; a resize is
  granted exactly within the floors, the limits and the memory account of its pool. For offloaded experts: a decode step
  and a prefill pass always compute with the right weights, the GPU kernel takes the decisions of its reference, and the
  sort by expert writes every token once. A weight file gives back the tensors it was written from. For the streams: with
  a byte-level tokenizer the text a client receives is the decoding of its tokens cut at its stop string, and never runs
  into a stop string that is still to come; a completion is split into reasoning and content whatever pieces it arrives
  in; messages within the limits of \<open>msgpack\<close> (64-bit integers, bounded nesting, no lone surrogates) survive the wire;
  a log client is told a range that covers every line it missed. At most one serve runs and a stop is final as long as no
  exit is misreported, and every serve that the manager drops has its receipt unless the
  outbox refused it. Where the code falls short of its own
  comments, or of the unconditional statement, a lemma shows the input.

  \<^bold>\<open>Conventions.\<close> The option monad carries exceptions: \<open>None\<close> is an uncaught exception or an assertion that fails, and
  theorems that an operation returns are stated as such. Lengths are \<open>nat\<close>, counters that the code subtracts from \<open>int\<close>;
  Python integers are unbounded, and where a kernel works at 64 bits the theorem bounds its inputs. Python loops are
  structural recursions, functions with a measure or, where a damaged store could make them run for ever, partial functions
  into the option monad: there \<open>None\<close> is also a loop that never ends, and the invariants show that they return. Objects are addresses in a store (nodes, requests), tensors
  are lists, clock readings are arguments. Parameters stand for what is not in the repository or not exact arithmetic:
  the model and the sampler (the tokens a forward returns), the tokenizer's vocabulary, the encoder model, \<open>msgpack\<close>, the
  memory probe, float products, and the order of GPU programs within a launch. Streams and events of the GPU order copies and run in that order here; the interleaving
  of batches is the one the loops choose, that of the log threads is every one.

  \<^bold>\<open>Not modelled.\<close> The numeric code (models, attention, kernels, layers apart from the expert movement and the sort by
  expert, quantisation, CUDA graphs) computes on tensors in floating point; the conversion and streaming of foreign
  checkpoints rearranges layouts. The HTTP adapters, the chat templates, the tool-call parsers and the Muse Glimmer
  reasoning parser are glue or text formats of single model families. Of the daemon, the serve manager and the log stream
  are modelled; the contents of the receipts, the proxy, the tailer, the metrics and the process probes are not. Command
  line, logging and the benchmarks are left out, as is the storage of the special KV pools (DSA, QSA, BSA, DSV4). The
  decode of the \<open>gpu\<close> expert target calls a third-party slot cache. Windowed and hybrid caches are modelled whole, but the
  system theorems of the scheduler are for the naive and the plain radix cache. Tensor-parallel barriers, status lines and
  statistics are left out of the operations that contain them.
\<close>

end
